(* ===== verification/Prelude.thy ===== *)
theory Prelude
  imports Main "HOL-Library.Word"
begin

text \<open>
  Shared vocabulary of the development: machine words, C memory as a byte-addressed store,
  the errors the runtime raises, and the generic lemmas on lists and words that the component
  theories use.

  The target is a 64-bit little-endian machine (the platforms OxCaml supports), so \<open>intnat\<close>,
  \<open>uintnat\<close> and \<open>value\<close> are 64-bit words; signed readings are taken with \<open>sint\<close>.
\<close>

unbundle bit_operations_syntax

type_synonym u8 = "8 word"
type_synonym u16 = "16 word"
type_synonym u32 = "32 word"
type_synonym u64 = "64 word"

text \<open>\<open>value\<close>, \<open>header_t\<close>, \<open>mlsize_t\<close> and pointers all have the width of a machine word.\<close>

type_synonym val = u64
type_synonym header = u64
type_synonym addr = u64

text \<open>C memory: one byte per address.\<close>

type_synonym mem = "addr \<Rightarrow> u8"

text \<open>The OCaml exceptions that the modelled primitives raise.\<close>

datatype exn =
    Invalid_argument string
  | Failure string
  | Division_by_zero
  | Out_of_memory
  | End_of_file
  | Array_bound_error
  | Fatal_error string

type_synonym 'a res = "exn + 'a"

named_theorems mem_simps "loads and stores of C memory"
named_theorems tag_simps "tagged integers and headers"

subsection \<open>Numbers and lists\<close>

lemma mod_add_cancel_less:
  fixes h n :: nat
  assumes "(h + i) mod n = (h + j) mod n" "i < n" "j < n"
  shows "i = j"
proof -
  have "b - a = 0" if "(h + a) mod n = (h + b) mod n" "a \<le> b" "b < n" for a b
  proof -
    have "n dvd (h + b) - (h + a)"
      using that by (intro mod_eq_dvd_iff_nat [THEN iffD1]) auto
    with that show ?thesis by (auto dest: dvd_imp_le)
  qed
  note diff = this
  show ?thesis
  proof (cases "i \<le> j")
    case True
    with diff [of i j] assms show ?thesis by simp
  next
    case False
    with diff [of j i] assms show ?thesis by simp
  qed
qed

lemma map_of_functional:
  assumes "\<And>v v'. (k, v) \<in> set xs \<Longrightarrow> (k, v') \<in> set xs \<Longrightarrow> v = v'"
  shows "map_of xs k = Some v \<longleftrightarrow> (k, v) \<in> set xs"
  using assms by (metis map_of_SomeD option.inject weak_map_of_SomeI)

lemma map_eqI: "(\<And>k v. f k = Some v \<longleftrightarrow> g k = Some v) \<Longrightarrow> f = g"
  by (rule ext) (metis not_None_eq)

lemma less_mult_mono: "(l :: nat) < x * a * c \<Longrightarrow> a \<le> b \<Longrightarrow> l < x * b * c"
  by (erule less_le_trans) (intro mult_le_mono order_refl)

lemma distinct_map_filter_nth:
  assumes "\<And>p q. p < length xs \<Longrightarrow> q < length xs \<Longrightarrow> P (xs ! p) \<Longrightarrow> f (xs ! p) = f (xs ! q) \<Longrightarrow> p = q"
  shows "distinct (map f (filter P xs))"
  using assms
proof (induction xs)
  case (Cons x xs)
  have "distinct (map f (filter P xs))"
    using Cons.prems [of "Suc _" "Suc _"] by (intro Cons.IH) auto
  moreover have "f x \<notin> f ` set (filter P xs)" if "P x"
    using Cons.prems [of 0 "Suc _"] that by (fastforce simp: in_set_conv_nth)
  ultimately show ?case by simp
qed simp

lemma nth_list_update_split:
  "i < length xs \<Longrightarrow> xs[j := y] ! i = (if i = j then y else xs ! i)"
  by (simp add: nth_list_update)

subsection \<open>Words\<close>

lemma unat32_less: "unat (r :: u32) < 2 ^ 32"
  by (rule order.strict_trans2 [OF unsigned_less]) simp

lemma unat8_less: "unat (r :: u8) < 2 ^ 8"
  using unsigned_less [of r] by simp

lemma unat64_less: "unat (r :: u64) < 2 ^ 64"
  by (rule order.strict_trans2 [OF unsigned_less]) simp

lemma word_of_nat_less_iff [simp]:
  "n < 2 ^ LENGTH('a) \<Longrightarrow> m < 2 ^ LENGTH('a) \<Longrightarrow>
    (word_of_nat n < (word_of_nat m :: 'a::len word)) = (n < m)"
  by (simp add: word_less_nat_alt unat_of_nat take_bit_nat_eq_self)

lemma bit_word_of_nat_offset:
  "bit (push_bit k (ucast (b :: 'a::len word)) :: 'b::len word) n \<longleftrightarrow>
    k \<le> n \<and> n < LENGTH('b) \<and> bit b (n - k)"
  by (auto simp: bit_simps)

lemma word_bit_bound:
  fixes x :: "'a::len word"
  assumes "unat x < 2 ^ k" "bit x n"
  shows "n < k"
proof (rule ccontr)
  assume "\<not> n < k"
  have "take_bit k (unat x) = unat x" using assms(1) by (rule take_bit_nat_eq_self)
  moreover have "bit (unat x) n" using assms(2) by (simp add: bit_unsigned_iff)
  ultimately have "bit (take_bit k (unat x)) n" by simp
  with \<open>\<not> n < k\<close> show False by (simp add: bit_simps)
qed

lemma unat_Suc_less: "i < s \<Longrightarrow> unat (i + 1) = Suc (unat i)" for i s :: "'a::len word"
proof -
  assume "i < s"
  then have "Suc (unat i) \<le> unat s" by (simp add: word_less_nat_alt)
  also have "unat s < 2 ^ LENGTH('a)" by simp
  finally show ?thesis by (simp add: unat_word_ariths)
qed

lemma unat_power2: "k < LENGTH('a) \<Longrightarrow> unat (2 ^ k :: 'a::len word) = 2 ^ k"
proof -
  assume k: "k < LENGTH('a)"
  have "unat (of_nat (2 ^ k) :: 'a word) = 2 ^ k"
    unfolding unat_of_nat using k by simp
  then show ?thesis by simp
qed

lemma word_less_imp_less_minus_1: "i < s \<Longrightarrow> i < - 1" for i s :: "'a::len word"
  by (metis less_le_trans word_n1_ge)

lemma word_and_mask_eq: "k \<le> LENGTH('a) \<Longrightarrow> x AND (2 ^ k - 1) = take_bit k x" for x :: "'a::len word"
  by (simp add: take_bit_eq_mask mask_eq_exp_minus_1)

lemma unat_and_mask:
  fixes x :: "'a::len word"
  assumes "k \<le> LENGTH('a)"
  shows "unat (x AND (2 ^ k - 1)) = unat x mod 2 ^ k"
  unfolding word_and_mask_eq [OF assms] unsigned_take_bit_eq by (simp add: take_bit_eq_mod)

lemma unat_Suc_mod:
  fixes x :: "'a::len word"
  assumes "k \<le> LENGTH('a)"
  shows "unat (x + 1) mod 2 ^ k = Suc (unat x) mod 2 ^ k"
proof -
  have "(2 :: nat) ^ k dvd 2 ^ LENGTH('a)" using assms by (simp add: le_imp_power_dvd)
  then show ?thesis by (simp add: unat_word_ariths mod_mod_cancel)
qed

lemma sint_eqI: "sint v = sint w \<Longrightarrow> v = w" for v w :: "'a::len word"
  by (erule signed_word_eqI)

lemma sint_word_of_int_range:
  assumes "- (2 ^ (LENGTH('a) - 1)) \<le> k" "k < 2 ^ (LENGTH('a) - 1)"
  shows "sint (word_of_int k :: 'a::len word) = k"
  using assms by (simp add: sint_sbintrunc' signed_take_bit_int_eq_self)

lemma sint_of_nat_u32: "n < 2 ^ 31 \<Longrightarrow> sint (of_nat n :: u32) = int n"
  using sint_word_of_int_range [of "int n", where 'a = 32] by simp

lemma scast_of_nat_u32: "n < 2 ^ 31 \<Longrightarrow> scast (of_nat n :: u32) = (of_nat n :: u64)"
  by (metis of_int_of_nat_eq scast_eq sint_of_nat_u32)

lemma unat_ucast_u8_u32: "unat (ucast (x :: u8) :: u32) = unat x"
  using unat8_less [of x] by (simp add: unsigned_ucast_eq take_bit_nat_eq_self)

lemma unat_of_nat_diff:
  assumes "i < 2 ^ 62" "k < 2 ^ 62"
  shows "unat (of_nat i - of_nat k :: u64) = (if k \<le> i then i - k else 2 ^ 64 - (k - i))"
proof (cases "k \<le> i")
  case True
  then have "(of_nat i - of_nat k :: u64) = of_nat (i - k)" by simp
  moreover have "unat (of_nat (i - k) :: u64) = i - k" unfolding unat_of_nat using assms by simp
  ultimately show ?thesis using True by (simp only: if_True)
next
  case False
  define d where "d = k - i"
  have k: "k = i + d" "0 < d" "d < 2 ^ 62" using False assms by (auto simp: d_def)
  have "(of_nat i - of_nat k :: u64) = of_nat (2 ^ 64 - d)"
    using k by (simp add: of_nat_diff)
  moreover have "unat (of_nat (2 ^ 64 - d) :: u64) = 2 ^ 64 - d" unfolding unat_of_nat using k by simp
  ultimately show ?thesis using False unfolding d_def by (simp only: if_False)
qed

lemma of_nat_u64_eq_iff: "i < 2 ^ 64 \<Longrightarrow> j < 2 ^ 64 \<Longrightarrow> (of_nat i = (of_nat j :: u64)) \<longleftrightarrow> i = j"
  by (simp add: word_of_nat_eq_iff take_bit_nat_eq_self)

subsection \<open>Loads and stores\<close>

text \<open>A little-endian load of \<open>n\<close> bytes, for \<open>n \<le> 8\<close>.\<close>

primrec load_le :: "mem \<Rightarrow> addr \<Rightarrow> nat \<Rightarrow> u64" where
  "load_le m a 0 = 0"
| "load_le m a (Suc n) = ucast (m a) OR push_bit 8 (load_le m (a + 1) n)"

definition load64 :: "mem \<Rightarrow> addr \<Rightarrow> u64" where
  "load64 m a = load_le m a 8"

definition load32 :: "mem \<Rightarrow> addr \<Rightarrow> u32" where
  "load32 m a = ucast (load_le m a 4)"

definition load16 :: "mem \<Rightarrow> addr \<Rightarrow> u16" where
  "load16 m a = ucast (load_le m a 2)"

text \<open>A little-endian store of the \<open>n\<close> low bytes of \<open>x\<close>.\<close>

definition store_le :: "mem \<Rightarrow> addr \<Rightarrow> nat \<Rightarrow> u64 \<Rightarrow> mem" where
  "store_le m a n x = (\<lambda>b. if unat (b - a) < n then ucast (drop_bit (8 * unat (b - a)) x) else m b)"

abbreviation store64 :: "mem \<Rightarrow> addr \<Rightarrow> u64 \<Rightarrow> mem" where
  "store64 m a x \<equiv> store_le m a 8 x"

lemma bit_load_le:
  "bit (load_le m a n) k \<longleftrightarrow> k < 8 * n \<and> k < 64 \<and> bit (m (a + of_nat (k div 8))) (k mod 8)"
proof (induction n arbitrary: a k)
  case 0
  then show ?case by simp
next
  case (Suc n)
  show ?case
  proof (cases "k < 8")
    case True
    then show ?thesis by (simp add: bit_simps)
  next
    case False
    then have k: "k div 8 = Suc ((k - 8) div 8)" "k mod 8 = (k - 8) mod 8"
      by (simp_all add: le_div_geq le_mod_geq)
    have "\<not> bit (m a) k" using False by (auto dest: bit_imp_le_length)
    then show ?thesis using False Suc.IH [of "a + 1" "k - 8"]
      by (auto simp: bit_simps k add.assoc)
  qed
qed

lemma load_le_cong:
  "(\<And>i. i < n \<Longrightarrow> i < 8 \<Longrightarrow> m (a + of_nat i) = m' (a + of_nat i)) \<Longrightarrow> load_le m a n = load_le m' a n"
  by (rule bit_word_eqI) (auto simp: bit_load_le)

lemma unat_add_of_nat_diff [mem_simps]:
  "i < 2 ^ 64 \<Longrightarrow> unat ((a :: addr) + of_nat i - a) = i"
  by (simp add: unat_of_nat take_bit_nat_eq_self)

lemma store_le_at [mem_simps]:
  "i < n \<Longrightarrow> n \<le> 8 \<Longrightarrow> store_le m a n x (a + of_nat i) = ucast (drop_bit (8 * i) x)"
  by (simp add: store_le_def unat_of_nat take_bit_nat_eq_self)

lemma store_le_other [mem_simps]:
  "n \<le> unat (b - a) \<Longrightarrow> store_le m a n x b = m b"
  by (simp add: store_le_def)

lemma load_store_le [mem_simps]:
  assumes "n \<le> 8"
  shows "load_le (store_le m a n x) a n = take_bit (8 * n) x"
proof (rule bit_word_eqI)
  fix k assume k: "k < LENGTH(64)"
  show "bit (load_le (store_le m a n x) a n) k = bit (take_bit (8 * n) x) k"
  proof (cases "k < 8 * n")
    case True
    then have "k div 8 < n" by simp
    then show ?thesis using True k assms
      by (simp add: bit_load_le store_le_at bit_simps)
  next
    case False
    then show ?thesis by (simp add: bit_load_le bit_simps)
  qed
qed

lemma load64_store64 [mem_simps]: "load64 (store64 m a x) a = x"
  by (simp add: load64_def mem_simps) (simp add: take_bit_word_eq_self)

lemma load64_store64_other [mem_simps]:
  assumes "8 \<le> unat (b - a)" "8 \<le> unat (a - b)"
  shows "load64 (store64 m a x) b = load64 m b"
  unfolding load64_def
proof (rule load_le_cong)
  fix i :: nat assume i: "i < 8"
  have "8 \<le> unat (b + of_nat i - a)"
  proof (rule ccontr)
    assume "\<not> ?thesis"
    then have d: "unat (b + of_nat i - a) < 8" by simp
    have ui: "unat (of_nat i :: addr) = i" using i by (simp add: unat_of_nat take_bit_nat_eq_self)
    show False
    proof (cases "b + of_nat i - a \<le> of_nat i")
      case True
      have "unat (a - b) = unat (of_nat i - (b + of_nat i - a))" by (simp add: algebra_simps)
      also have "\<dots> = i - unat (b + of_nat i - a)" using unat_sub [OF True] ui by (simp only:)
      finally show False using assms(2) i by simp
    next
      case False
      have "unat (b - a) = unat ((b + of_nat i - a) - of_nat i)" by (simp add: algebra_simps)
      also have "\<dots> = unat (b + of_nat i - a) - i" using unat_sub [of "of_nat i" "b + of_nat i - a"] False ui by (simp only: linear not_le order.strict_implies_order)
      finally show False using assms(1) d by simp
    qed
  qed
  then show "store64 m a x (b + of_nat i) = m (b + of_nat i)"
    by (rule store_le_other)
qed

end
