(* ===== verification/Mlvalues.thy ===== *)
theory Mlvalues
  imports Prelude
begin

text \<open>
  The representation of OCaml values (\<open>runtime/caml/mlvalues.h\<close>, \<open>runtime/caml/gc.h\<close>):
  tagged integers, null, block headers with the 8 reserved bits of OxCaml's mixed blocks,
  closure information words, and the accessors that read a block through its address.
  The lemmas show that every encoding is inverted by its accessors and that the fields of a
  header do not disturb each other.
\<close>

subsection \<open>Longs and blocks\<close>

definition Val_null :: val where "Val_null = 0"

definition Is_null :: "val \<Rightarrow> bool" where "Is_null v \<longleftrightarrow> v = Val_null"

definition Is_long :: "val \<Rightarrow> bool" where
  "Is_long x \<longleftrightarrow> x AND 1 \<noteq> 0 \<or> x = 0"

definition Is_block :: "val \<Rightarrow> bool" where
  "Is_block x \<longleftrightarrow> x AND 1 = 0 \<and> x \<noteq> 0"

definition Val_long :: "u64 \<Rightarrow> val" where
  "Val_long x = push_bit 1 x + 1"

definition Long_val :: "val \<Rightarrow> u64" where
  "Long_val x = signed_drop_bit 1 x"

definition Unsigned_long_val :: "val \<Rightarrow> u64" where
  "Unsigned_long_val x = drop_bit 1 x"

text \<open>\<open>(int) x\<close> keeps the low 32 bits; an \<open>int\<close> widens to \<open>intnat\<close> by sign extension.\<close>

definition Val_int :: "u32 \<Rightarrow> val" where
  "Val_int x = Val_long (scast x)"

definition Int_val :: "val \<Rightarrow> u32" where
  "Int_val x = ucast (Long_val x)"

definition Max_long :: int where "Max_long = 2 ^ 62 - 1"
definition Min_long :: int where "Min_long = - (2 ^ 62)"

definition Val_bool :: "bool \<Rightarrow> val" where
  "Val_bool b = Val_int (if b then 1 else 0)"

abbreviation Val_false :: val where "Val_false \<equiv> Val_bool False"
abbreviation Val_true :: val where "Val_true \<equiv> Val_bool True"
abbreviation Val_unit :: val where "Val_unit \<equiv> Val_int 0"

definition Val_not :: "val \<Rightarrow> val" where
  "Val_not x = Val_false + Val_true - x"

lemma Is_block_iff_not_long [tag_simps]: "Is_block v \<longleftrightarrow> \<not> Is_long v"
  by (auto simp: Is_block_def Is_long_def)

lemma bit_Val_long [tag_simps]:
  "bit (Val_long x) n \<longleftrightarrow> n < 64 \<and> (n = 0 \<or> bit x (n - 1))"
proof -
  have "2 * x + 1 = 2 * x OR 1"
    by (rule disjunctive_add) (auto simp: bit_simps bit_double_iff)
  then have "Val_long x = 2 * x OR 1" by (simp add: Val_long_def mult.commute)
  then show ?thesis
    by (auto simp: bit_or_iff bit_double_iff bit_1_iff dest: bit_imp_le_length)
qed

lemma Is_long_Val_long [simp]: "Is_long (Val_long x)"
proof -
  have "bit (Val_long x AND 1) 0" by (simp add: bit_and_iff tag_simps)
  then have "Val_long x AND 1 \<noteq> 0" by auto
  then show ?thesis by (simp add: Is_long_def)
qed

lemma Val_long_not_null [simp]: "Val_long x \<noteq> 0"
proof
  assume "Val_long x = 0"
  moreover have "bit (Val_long x) 0" by (simp add: tag_simps)
  ultimately show False by simp
qed

lemma bit_Long_val [tag_simps]:
  "bit (Long_val v) n \<longleftrightarrow> n < 64 \<and> bit v (min (Suc n) 63)"
  by (auto simp: Long_val_def bit_simps min_def not_less dest: bit_imp_le_length)

text \<open>Untagging loses exactly the top bit: a long is a 63-bit integer.\<close>

lemma Long_val_Val_long: "Long_val (Val_long x) = signed_take_bit 62 x"
  by (rule bit_word_eqI) (auto simp: tag_simps bit_signed_take_bit_iff min_def)

lemma sint_Long_val: "sint (Long_val v) = sint v div 2"
  by (simp add: Long_val_def sint_signed_drop_bit_eq drop_bit_eq_div)

lemma Long_val_range: "Min_long \<le> sint (Long_val v)" "sint (Long_val v) \<le> Max_long"
  using sint_ge [of v] sint_lt [of v] by (auto simp: sint_Long_val Min_long_def Max_long_def)

lemma Val_long_of_int: "Val_long x = word_of_int (2 * sint x + 1)"
  by (simp add: Val_long_def)

lemma sint_Val_long:
  assumes "Min_long \<le> sint x" "sint x \<le> Max_long"
  shows "sint (Val_long x) = 2 * sint x + 1"
  unfolding Val_long_of_int
  by (rule sint_word_of_int_range) (use assms in \<open>auto simp: Min_long_def Max_long_def\<close>)

lemma Long_val_Val_long_range:
  assumes "Min_long \<le> sint x" "sint x \<le> Max_long"
  shows "Long_val (Val_long x) = x"
  by (rule sint_eqI) (simp add: sint_Long_val sint_Val_long assms)

lemma Val_long_Long_val: "bit v 0 \<Longrightarrow> Val_long (Long_val v) = v"
proof (rule bit_word_eqI)
  fix n assume "bit v 0" "n < LENGTH(64)"
  then show "bit (Val_long (Long_val v)) n = bit v n"
    by (cases n) (auto simp: tag_simps min_def)
qed

lemma Long_val_inject:
  "bit v 0 \<Longrightarrow> bit w 0 \<Longrightarrow> Long_val v = Long_val w \<longleftrightarrow> v = w"
  by (metis Val_long_Long_val)

lemma Int_val_Val_int [simp]: "Int_val (Val_int x) = x"
proof (rule bit_word_eqI)
  fix n assume "n < LENGTH(32)"
  then show "bit (Int_val (Val_int x)) n = bit x n"
    by (cases "n = 31") (auto simp: Int_val_def Val_int_def Long_val_Val_long bit_simps min_def)
qed

subsection \<open>Headers\<close>

definition HEADER_TAG_MASK :: header where "HEADER_TAG_MASK = mask 8"
definition HEADER_COLOR_MASK :: header where "HEADER_COLOR_MASK = push_bit 8 (mask 2)"
definition HEADER_WOSIZE_MASK :: header where "HEADER_WOSIZE_MASK = push_bit 10 (mask 46)"

definition Tag_hd :: "header \<Rightarrow> u32" where
  "Tag_hd h = ucast (h AND HEADER_TAG_MASK)"

definition Hd_with_tag :: "header \<Rightarrow> header \<Rightarrow> header" where
  "Hd_with_tag h tag = (h AND NOT HEADER_TAG_MASK) OR tag"

definition Wosize_hd :: "header \<Rightarrow> u64" where
  "Wosize_hd h = drop_bit 10 (h AND HEADER_WOSIZE_MASK)"

definition Cleanhd_hd :: "header \<Rightarrow> header" where
  "Cleanhd_hd h = h AND (HEADER_TAG_MASK OR HEADER_WOSIZE_MASK)"

definition Reserved_hd :: "header \<Rightarrow> u64" where
  "Reserved_hd h = drop_bit 56 h"

definition Hd_reserved :: "u64 \<Rightarrow> header" where
  "Hd_reserved res = push_bit 56 res"

definition Color_hd :: "header \<Rightarrow> header" where
  "Color_hd h = h AND HEADER_COLOR_MASK"

definition Hd_with_color :: "header \<Rightarrow> header \<Rightarrow> header" where
  "Hd_with_color h color = (h AND NOT HEADER_COLOR_MASK) OR color"

definition Make_header_with_reserved :: "u64 \<Rightarrow> u32 \<Rightarrow> header \<Rightarrow> u64 \<Rightarrow> header" where
  "Make_header_with_reserved wosize tag color reserved =
     Hd_reserved reserved + push_bit 10 wosize + color + ucast tag"

definition Make_header :: "u64 \<Rightarrow> u32 \<Rightarrow> header \<Rightarrow> header" where
  "Make_header wosize tag color = Make_header_with_reserved wosize tag color 0"

definition Max_wosize :: u64 where "Max_wosize = mask 46"

definition Is_mixed_block_reserved :: "u64 \<Rightarrow> bool" where
  "Is_mixed_block_reserved res \<longleftrightarrow> res > 0"

definition Scannable_wosize_reserved_native :: "u64 \<Rightarrow> u64 \<Rightarrow> u64" where
  "Scannable_wosize_reserved_native res sz =
     (if Is_mixed_block_reserved res then res - 1 else sz)"

definition Scannable_wosize_hd_native :: "header \<Rightarrow> u64" where
  "Scannable_wosize_hd_native h =
     (let res = Reserved_hd h in if Is_mixed_block_reserved res then res - 1 else Wosize_hd h)"

definition Scannable_wosize_reserved_byte :: "u64 \<Rightarrow> u64 \<Rightarrow> u64" where
  "Scannable_wosize_reserved_byte res sz = sz"

definition Bsize_wsize :: "u64 \<Rightarrow> u64" where "Bsize_wsize sz = sz * 8"
definition Wsize_bsize :: "u64 \<Rightarrow> u64" where "Wsize_bsize sz = sz div 8"
definition Whsize_wosize :: "u64 \<Rightarrow> u64" where "Whsize_wosize sz = sz + 1"

definition No_scan_tag :: u32 where "No_scan_tag = 251"
definition Forward_tag :: u32 where "Forward_tag = 250"
definition Infix_tag :: u32 where "Infix_tag = 249"
definition Object_tag :: u32 where "Object_tag = 248"
definition Closure_tag :: u32 where "Closure_tag = 247"
definition Lazy_tag :: u32 where "Lazy_tag = 246"
definition Cont_tag :: u32 where "Cont_tag = 245"
definition Forcing_tag :: u32 where "Forcing_tag = 244"
definition Abstract_tag :: u32 where "Abstract_tag = 251"
definition String_tag :: u32 where "String_tag = 252"
definition Double_tag :: u32 where "Double_tag = 253"
definition Double_array_tag :: u32 where "Double_array_tag = 254"
definition Custom_tag :: u32 where "Custom_tag = 255"

lemmas tag_defs = No_scan_tag_def Forward_tag_def Infix_tag_def Object_tag_def Closure_tag_def
  Lazy_tag_def Cont_tag_def Forcing_tag_def Abstract_tag_def String_tag_def Double_tag_def
  Double_array_tag_def Custom_tag_def

text \<open>A well-formed request for a header: each part fits in its bits.\<close>

definition header_parts_ok :: "u64 \<Rightarrow> u32 \<Rightarrow> header \<Rightarrow> u64 \<Rightarrow> bool" where
  "header_parts_ok wosize tag color reserved \<longleftrightarrow>
     wosize \<le> Max_wosize \<and> tag < 256 \<and> color AND HEADER_COLOR_MASK = color \<and> reserved < 256"

lemma header_parts_bits:
  assumes "header_parts_ok wosize tag color reserved"
  shows "bit wosize n \<Longrightarrow> n < 46" "bit tag n \<Longrightarrow> n < 8" "bit reserved n \<Longrightarrow> n < 8"
    "bit color n \<Longrightarrow> 8 \<le> n \<and> n < 10"
proof -
  have "unat wosize \<le> unat Max_wosize"
    using assms by (simp add: header_parts_ok_def word_le_nat_alt)
  then have wo: "unat wosize < 2 ^ 46" by (simp add: Max_wosize_def mask_eq_exp_minus_1)
  show "bit wosize n \<Longrightarrow> n < 46" by (rule word_bit_bound [OF wo])
  show "bit tag n \<Longrightarrow> n < 8"
    by (rule word_bit_bound [of tag]) (use assms in \<open>simp add: header_parts_ok_def word_less_nat_alt\<close>)
  show "bit reserved n \<Longrightarrow> n < 8"
    by (rule word_bit_bound [of reserved]) (use assms in \<open>simp add: header_parts_ok_def word_less_nat_alt\<close>)
  assume "bit color n"
  then have "bit (color AND HEADER_COLOR_MASK) n" using assms by (simp add: header_parts_ok_def)
  then show "8 \<le> n \<and> n < 10" by (auto simp: HEADER_COLOR_MASK_def bit_simps)
qed

lemma Make_header_bits:
  assumes ok: "header_parts_ok wosize tag color reserved"
  shows "Make_header_with_reserved wosize tag color reserved =
    Hd_reserved reserved OR push_bit 10 wosize OR color OR ucast tag"
proof -
  note b = header_parts_bits [OF ok]
  have 1: "Hd_reserved reserved + push_bit 10 wosize = Hd_reserved reserved OR push_bit 10 wosize"
    by (rule disjunctive_add) (auto simp: Hd_reserved_def bit_simps dest!: b(1))
  have 2: "(Hd_reserved reserved OR push_bit 10 wosize) + color = Hd_reserved reserved OR push_bit 10 wosize OR color"
    by (subst disjunctive_add) (auto simp: Hd_reserved_def bit_simps or.assoc dest!: b(4))
  have 3: "(Hd_reserved reserved OR push_bit 10 wosize OR color) + ucast tag
      = Hd_reserved reserved OR push_bit 10 wosize OR color OR ucast tag"
    by (subst disjunctive_add) (auto simp: Hd_reserved_def bit_simps or.assoc dest!: b(2,4))
  show ?thesis by (simp add: Make_header_with_reserved_def 1 2 3)
qed

lemmas header_field_defs = Tag_hd_def Wosize_hd_def Reserved_hd_def Color_hd_def Hd_reserved_def
  Cleanhd_hd_def Hd_with_tag_def Hd_with_color_def
  HEADER_TAG_MASK_def HEADER_COLOR_MASK_def HEADER_WOSIZE_MASK_def

lemma Tag_hd_Make_header [tag_simps]:
  "header_parts_ok wosize tag color reserved \<Longrightarrow>
    Tag_hd (Make_header_with_reserved wosize tag color reserved) = tag"
  by (rule bit_word_eqI)
    (auto simp: Make_header_bits header_field_defs bit_simps dest: header_parts_bits)

lemma Wosize_hd_Make_header [tag_simps]:
  "header_parts_ok wosize tag color reserved \<Longrightarrow>
    Wosize_hd (Make_header_with_reserved wosize tag color reserved) = wosize"
  by (rule bit_word_eqI)
    (auto simp: Make_header_bits header_field_defs bit_simps dest: header_parts_bits)

lemma Color_hd_Make_header [tag_simps]:
  "header_parts_ok wosize tag color reserved \<Longrightarrow>
    Color_hd (Make_header_with_reserved wosize tag color reserved) = color"
  by (rule bit_word_eqI)
    (auto simp: Make_header_bits header_field_defs bit_simps dest: header_parts_bits)

lemma Reserved_hd_Make_header [tag_simps]:
  "header_parts_ok wosize tag color reserved \<Longrightarrow>
    Reserved_hd (Make_header_with_reserved wosize tag color reserved) = reserved"
  by (rule bit_word_eqI)
    (auto simp: Make_header_bits header_field_defs bit_simps dest: header_parts_bits)

lemma Hd_with_color_frame [tag_simps]:
  assumes "color AND HEADER_COLOR_MASK = color"
  shows "Color_hd (Hd_with_color h color) = color"
    and "Wosize_hd (Hd_with_color h color) = Wosize_hd h"
    and "Tag_hd (Hd_with_color h color) = Tag_hd h"
    and "Reserved_hd (Hd_with_color h color) = Reserved_hd h"
    and "Cleanhd_hd (Hd_with_color h color) = Cleanhd_hd h"
proof -
  have c: "8 \<le> n \<and> n < 10" if "bit color n" for n
  proof -
    from that have "bit (color AND HEADER_COLOR_MASK) n" by (simp add: assms)
    then show ?thesis by (auto simp: HEADER_COLOR_MASK_def bit_simps)
  qed
  show "Color_hd (Hd_with_color h color) = color"
    by (rule bit_word_eqI) (auto simp: header_field_defs bit_simps dest: c)
  show "Wosize_hd (Hd_with_color h color) = Wosize_hd h"
    by (rule bit_word_eqI) (auto simp: header_field_defs bit_simps dest: c)
  show "Tag_hd (Hd_with_color h color) = Tag_hd h"
    by (rule bit_word_eqI) (auto simp: header_field_defs bit_simps dest: c)
  show "Reserved_hd (Hd_with_color h color) = Reserved_hd h"
    by (rule bit_word_eqI) (auto simp: header_field_defs bit_simps dest: c bit_imp_le_length)
  show "Cleanhd_hd (Hd_with_color h color) = Cleanhd_hd h"
    by (rule bit_word_eqI) (auto simp: header_field_defs bit_simps dest: c)
qed

subsection \<open>Closure information\<close>

definition Arity_closinfo :: "u64 \<Rightarrow> u64" where
  "Arity_closinfo info = signed_drop_bit 56 info"

definition Start_env_closinfo :: "u64 \<Rightarrow> u64" where
  "Start_env_closinfo info = drop_bit 10 (push_bit 9 info)"

definition Is_last_closinfo :: "u64 \<Rightarrow> u64" where
  "Is_last_closinfo info = drop_bit 63 (push_bit 8 info)"

definition Make_closinfo :: "u64 \<Rightarrow> u64 \<Rightarrow> u64 \<Rightarrow> u64" where
  "Make_closinfo arity delta is_last = push_bit 56 arity + push_bit 55 is_last + push_bit 1 delta + 1"

lemma bit_Make_closinfo:
  assumes "unat delta < 2 ^ 54" "is_last \<le> 1" "n < 64"
  shows "bit (Make_closinfo arity delta is_last) n \<longleftrightarrow>
    (if n = 0 then True else if n < 55 then bit delta (n - 1)
     else if n = 55 then is_last = 1 else bit arity (n - 56))"
proof -
  define e where "e = push_bit 1 delta"
  have e: "bit e k \<longleftrightarrow> 1 \<le> k \<and> k < 64 \<and> bit delta (k - 1)" for k
    unfolding e_def bit_push_bit_iff by (auto dest: bit_imp_le_length)
  have d: "k < 54" if "bit delta k" for k by (rule word_bit_bound [OF assms(1) that])
  have "unat is_last < 2 ^ 1" using assms(2) by (simp add: word_le_nat_alt)
  then have l: "k = 0" if "bit is_last k" for k using word_bit_bound [OF _ that, of 1] by simp
  have l0: "bit is_last 0 \<longleftrightarrow> is_last = 1"
  proof
    assume "bit is_last 0"
    then show "is_last = 1" by (intro bit_word_eqI) (auto simp: bit_1_iff dest: l)
  qed simp
  have 1: "push_bit 56 arity + push_bit 55 is_last = push_bit 56 arity OR push_bit 55 is_last"
    by (rule disjunctive_add) (auto simp: bit_push_bit_iff dest!: l)
  have 2: "(push_bit 56 arity OR push_bit 55 is_last) + e
      = push_bit 56 arity OR push_bit 55 is_last OR e"
    by (subst disjunctive_add) (auto simp: e bit_push_bit_iff bit_or_iff or.assoc dest!: d l)
  have 3: "(push_bit 56 arity OR push_bit 55 is_last OR e) + 1
      = push_bit 56 arity OR push_bit 55 is_last OR e OR 1"
    by (subst disjunctive_add) (auto simp: e bit_push_bit_iff bit_or_iff bit_1_iff or.assoc)
  have "Make_closinfo arity delta is_last = push_bit 56 arity OR push_bit 55 is_last OR e OR 1"
    unfolding Make_closinfo_def e_def [symmetric] by (simp only: 1 2 3)
  then show ?thesis using assms(3) l0
    by (auto simp: bit_or_iff bit_push_bit_iff bit_1_iff e dest: d l)
qed

lemma closinfo_roundtrip [tag_simps]:
  assumes "unat delta < 2 ^ 54" "is_last \<le> 1"
  shows "Start_env_closinfo (Make_closinfo arity delta is_last) = delta"
    and "Is_last_closinfo (Make_closinfo arity delta is_last) = is_last"
    and "Arity_closinfo (Make_closinfo arity delta is_last) = signed_take_bit 7 arity"
proof -
  note b = bit_Make_closinfo [OF assms]
  have d: "\<not> bit delta k" if "\<not> k < 54" for k using word_bit_bound [OF assms(1), of k] that by blast
  show "Start_env_closinfo (Make_closinfo arity delta is_last) = delta"
  proof (rule bit_word_eqI)
    fix n assume "n < LENGTH(64)"
    then show "bit (Start_env_closinfo (Make_closinfo arity delta is_last)) n = bit delta n"
      by (cases "n < 54") (auto simp: Start_env_closinfo_def bit_simps b d)
  qed
  have "unat is_last < 2 ^ 1" using assms(2) by (simp add: word_le_nat_alt)
  then have l: "k = 0" if "bit is_last k" for k using word_bit_bound [OF _ that, of 1] by simp
  have "is_last = 0 \<or> is_last = 1" using assms(2) by (simp add: word_le_nat_alt) unat_arith
  then show "Is_last_closinfo (Make_closinfo arity delta is_last) = is_last"
    using b [of 55] by (intro bit_word_eqI) (auto simp: Is_last_closinfo_def bit_simps bit_1_iff)
  show "Arity_closinfo (Make_closinfo arity delta is_last) = signed_take_bit 7 arity"
  proof (rule bit_word_eqI)
    fix n assume "n < LENGTH(64)"
    then show "bit (Arity_closinfo (Make_closinfo arity delta is_last)) n = bit (signed_take_bit 7 arity) n"
      by (cases "n = 7") (auto simp: Arity_closinfo_def bit_simps b min_def)
  qed
qed

subsection \<open>Reading blocks in memory\<close>

definition Field :: "mem \<Rightarrow> val \<Rightarrow> u64 \<Rightarrow> val" where
  "Field m v i = load64 m (v + 8 * i)"

definition Byte_u :: "mem \<Rightarrow> val \<Rightarrow> u64 \<Rightarrow> u8" where
  "Byte_u m v i = m (v + i)"

definition Hd_val :: "mem \<Rightarrow> val \<Rightarrow> header" where
  "Hd_val m v = load64 m (v - 8)"

definition Tag_val :: "mem \<Rightarrow> val \<Rightarrow> u32" where
  "Tag_val m v = ucast (m (v - 8))"

definition Wosize_val :: "mem \<Rightarrow> val \<Rightarrow> u64" where
  "Wosize_val m v = Wosize_hd (Hd_val m v)"

definition Bosize_val :: "mem \<Rightarrow> val \<Rightarrow> u64" where
  "Bosize_val m v = Bsize_wsize (Wosize_val m v)"

definition Reserved_val :: "mem \<Rightarrow> val \<Rightarrow> u64" where
  "Reserved_val m v = Reserved_hd (Hd_val m v)"

definition Forward_val :: "mem \<Rightarrow> val \<Rightarrow> val" where
  "Forward_val m v = Field m v 0"

definition Oid_val :: "mem \<Rightarrow> val \<Rightarrow> u64" where
  "Oid_val m v = Long_val (Field m v 1)"

definition Infix_offset_val :: "mem \<Rightarrow> val \<Rightarrow> u64" where
  "Infix_offset_val m v = Bsize_wsize (Wosize_hd (Hd_val m v))"

definition Closinfo_val :: "mem \<Rightarrow> val \<Rightarrow> u64" where
  "Closinfo_val m v = Field m v 1"

text \<open>On a little-endian machine the tag byte read by \<open>Tag_val\<close> is the tag field of the header.\<close>

lemma Tag_val_Hd_val [tag_simps]: "Tag_hd (Hd_val m v) = Tag_val m v"
proof (rule bit_word_eqI)
  fix n assume "n < LENGTH(32)"
  then show "bit (Tag_hd (Hd_val m v)) n = bit (Tag_val m v) n"
    by (cases "n < 8") (auto simp: Tag_val_def header_field_defs Hd_val_def load64_def bit_simps
        bit_load_le dest: bit_imp_le_length)
qed

subsection \<open>Properties\<close>

text \<open>
  \<open>Val_long\<close> and \<open>Long_val\<close> are inverse on the 63-bit integers, a tagged integer is never
  a block or null, and untagging a word always yields a value between \<open>Min_long\<close> and \<open>Max_long\<close>.
\<close>

theorem value_tagging_roundtrip:
  assumes "Min_long \<le> sint x" "sint x \<le> Max_long"
  shows "Long_val (Val_long x) = x \<and> Is_long (Val_long x) \<and> \<not> Is_block (Val_long x) \<and>
    \<not> Is_null (Val_long x) \<and> sint (Long_val v) \<in> {Min_long..Max_long} \<and>
    (bit v 0 \<longrightarrow> Val_long (Long_val v) = v)"
  using Long_val_Val_long_range [OF assms] Long_val_range [of v] Val_long_Long_val [of v]
  by (simp add: tag_simps Is_null_def Val_null_def)

theorem value_tagging_roundtrip_witness:
  "Long_val (Val_long (- 5)) = - 5 \<and> Is_long (Val_long (- 5)) \<and> \<not> Is_block (Val_long (- 5)) \<and>
    \<not> Is_null (Val_long (- 5)) \<and> sint (Long_val 7) \<in> {Min_long..Max_long} \<and>
    Val_long (Long_val 7) = 7"
  using value_tagging_roundtrip [of "- 5" 7] by (simp add: Min_long_def Max_long_def bit_numeral_rec)

text \<open>
  A header built by \<open>Make_header_with_reserved\<close> from parts that fit returns each part through
  its accessor, and recolouring it with \<open>Hd_with_color\<close> changes the colour and nothing else.
\<close>

theorem header_fields_roundtrip:
  assumes "header_parts_ok wosize tag color reserved" "color' AND HEADER_COLOR_MASK = color'"
  shows "let h = Make_header_with_reserved wosize tag color reserved; h' = Hd_with_color h color' in
    Wosize_hd h = wosize \<and> Tag_hd h = tag \<and> Color_hd h = color \<and> Reserved_hd h = reserved \<and>
    Wosize_hd h' = wosize \<and> Tag_hd h' = tag \<and> Color_hd h' = color' \<and> Reserved_hd h' = reserved"
  using Hd_with_color_frame [OF assms(2)] assms(1) by (simp add: tag_simps Let_def)

theorem header_fields_roundtrip_witness:
  "let h = Make_header_with_reserved 3 252 0x100 2; h' = Hd_with_color h 0x300 in
    Wosize_hd h = 3 \<and> Tag_hd h = 252 \<and> Color_hd h = 0x100 \<and> Reserved_hd h = 2 \<and>
    Wosize_hd h' = 3 \<and> Tag_hd h' = 252 \<and> Color_hd h' = 0x300 \<and> Reserved_hd h' = 2"
  by (rule header_fields_roundtrip)
    (simp_all add: header_parts_ok_def Max_wosize_def HEADER_COLOR_MASK_def mask_eq_exp_minus_1)

text \<open>
  \<open>Make_closinfo\<close> packs the arity, the start of the environment and the last-closure flag
  into one tagged word from which the three accessors read them back, a negative arity included.
\<close>

theorem closinfo_fields_roundtrip:
  assumes "- 128 \<le> sint arity" "sint arity < 128" "delta < 2 ^ 54" "is_last \<le> 1"
  shows "let info = Make_closinfo arity delta is_last in
    Arity_closinfo info = arity \<and> Start_env_closinfo info = delta \<and> Is_last_closinfo info = is_last \<and>
    Is_long info"
proof -
  have "unat delta < 2 ^ 54" using assms(3) by (simp add: word_less_nat_alt)
  note c = closinfo_roundtrip [OF this assms(4), of arity]
  have "bit (Make_closinfo arity delta is_last) 0"
    using bit_Make_closinfo [OF \<open>unat delta < 2 ^ 54\<close> assms(4), of 0 arity] by simp
  then have "Is_long (Make_closinfo arity delta is_last)"
    by (auto simp: Is_long_def and_one_eq odd_iff_mod_2_eq_one bit_0)
  moreover have "signed_take_bit 7 arity = arity"
  proof (rule bit_word_eqI)
    fix n assume n: "n < LENGTH(64)"
    have "bit (signed_take_bit 7 (sint arity)) n = bit (sint arity) n"
      using assms(1,2) by (simp add: signed_take_bit_int_eq_self)
    with n show "bit (signed_take_bit 7 arity) n = bit arity n"
      by (auto simp: bit_signed_take_bit_iff bit_sint_iff min_def split: if_splits)
  qed
  ultimately show ?thesis using c by (simp add: Let_def)
qed

theorem closinfo_fields_roundtrip_witness:
  "let info = Make_closinfo (- 2) 3 1 in
    Arity_closinfo info = - 2 \<and> Start_env_closinfo info = 3 \<and> Is_last_closinfo info = 1 \<and>
    Is_long info"
  by (rule closinfo_fields_roundtrip) simp_all

end
