(* ===== verification/Dictionary.thy ===== *)
theory Dictionary
  imports Prelude
begin

text \<open>
  The contract of the runtime's dictionaries (the address map of \<open>runtime/addrmap.c\<close> and the
  skip list of \<open>runtime/skiplist.c\<close>): a concrete state with an invariant and an abstraction to a
  finite map, a lookup that agrees with the map, an update that may fail (\<open>None\<close>: the allocator
  raised) and, where the structure has one, a removal. The clients' facts about whole sequences of
  operations are proved here once and reach the two structures through their interpretations.
\<close>

locale dictionary =
  fixes inv :: "'s \<Rightarrow> bool"
    and mapping_of :: "'s \<Rightarrow> 'k \<Rightarrow> 'v option"
    and key_ok :: "'k \<Rightarrow> bool"
    and empty :: "'s"
    and find :: "'s \<Rightarrow> 'k \<Rightarrow> 'v option"
    and update :: "'s \<Rightarrow> 'k \<Rightarrow> 'v \<Rightarrow> 's option"
  assumes inv_empty: "inv empty"
    and mapping_of_empty: "mapping_of empty = Map.empty"
    and find_mapping_of: "inv s \<Longrightarrow> key_ok k \<Longrightarrow> find s k = mapping_of s k"
    and update_inv: "inv s \<Longrightarrow> key_ok k \<Longrightarrow> update s k v = Some s' \<Longrightarrow> inv s'"
    and update_mapping_of:
      "inv s \<Longrightarrow> key_ok k \<Longrightarrow> update s k v = Some s' \<Longrightarrow> mapping_of s' = (mapping_of s)(k \<mapsto> v)"
begin

fun updates :: "'s \<Rightarrow> ('k \<times> 'v) list \<Rightarrow> 's option" where
  "updates s [] = Some s"
| "updates s ((k, v) # kvs) = (case update s k v of None \<Rightarrow> None | Some s' \<Rightarrow> updates s' kvs)"

lemma find_update:
  assumes "inv s" "key_ok k" "key_ok k'" "update s k v = Some s'"
  shows "find s' k' = (if k' = k then Some v else find s k')"
  using assms update_inv [OF assms(1,2,4)] update_mapping_of [OF assms(1,2,4)]
  by (simp add: find_mapping_of)

lemma updates_correct:
  assumes "inv s" "list_all (\<lambda>(k, v). key_ok k) kvs" "updates s kvs = Some s'"
  shows "inv s' \<and> mapping_of s' = mapping_of s ++ map_of (rev kvs)"
  using assms
proof (induction s kvs rule: updates.induct)
  case (2 s k v kvs)
  then obtain s1 where s1: "update s k v = Some s1" "updates s1 kvs = Some s'"
    by (auto split: option.splits)
  have "inv s1" "mapping_of s1 = (mapping_of s)(k \<mapsto> v)"
    using 2(2,3) s1(1) update_inv update_mapping_of by auto
  then show ?case using 2(1) [OF s1(1) _ _ s1(2)] 2(3) by (auto simp: map_add_def fun_eq_iff split: option.splits)
qed simp

lemma updates_total:
  assumes "\<And>s k v. inv s \<Longrightarrow> key_ok k \<Longrightarrow> \<exists>s'. update s k v = Some s'"
    and "inv s" "list_all (\<lambda>(k, v). key_ok k) kvs"
  shows "\<exists>s'. updates s kvs = Some s'"
  using assms(2,3)
proof (induction s kvs rule: updates.induct)
  case (2 s k v kvs)
  then obtain s1 where "update s k v = Some s1" using assms(1) by fastforce
  with 2 update_inv show ?case by auto
qed simp

lemma find_updates:
  assumes "list_all (\<lambda>(k, v). key_ok k) kvs" "updates empty kvs = Some s'" "key_ok k"
  shows "find s' k = map_of (rev kvs) k"
  using updates_correct [OF inv_empty assms(1,2)] assms(3)
  by (simp add: find_mapping_of mapping_of_empty)

end

text \<open>A dictionary with a removal, which reports whether the key was bound.\<close>

locale removable_dictionary = dictionary +
  fixes remove :: "'a \<Rightarrow> 'b \<Rightarrow> bool \<times> 'a"
  assumes remove_inv: "inv s \<Longrightarrow> key_ok k \<Longrightarrow> inv (snd (remove s k))"
    and remove_mapping_of:
      "inv s \<Longrightarrow> key_ok k \<Longrightarrow> mapping_of (snd (remove s k)) = (mapping_of s)(k := None)"
    and remove_found: "inv s \<Longrightarrow> key_ok k \<Longrightarrow> fst (remove s k) \<longleftrightarrow> mapping_of s k \<noteq> None"
begin

lemma find_remove:
  assumes "inv s" "key_ok k" "key_ok k'"
  shows "find (snd (remove s k)) k' = (if k' = k then None else find s k')"
  using assms remove_inv [OF assms(1,2)] remove_mapping_of [OF assms(1,2)]
  by (simp add: find_mapping_of)

lemma remove_update:
  assumes "inv s" "key_ok k" "mapping_of s k = None" "update s k v = Some s'"
  shows "mapping_of (snd (remove s' k)) = mapping_of s"
  using assms update_inv [OF assms(1,2,4)] update_mapping_of [OF assms(1,2,4)]
  by (simp add: remove_mapping_of fun_upd_idem)

end

end
