(* ===== verification/Addrmap.thy ===== *)
theory Addrmap
  imports Mlvalues Dictionary
begin

text \<open>
  \<open>runtime/addrmap.c\<close>: the open-addressing hash table from block addresses to values.
  The table is a list of \<open>(key, value)\<close> entries indexed by 64-bit positions; a null entry array
  is \<open>None\<close>. \<open>caml_addrmap_insert_pos\<close> calls itself while it rehashes, so the model carries the
  depth of that recursion as fuel and \<open>None\<close> is a recursion that is still running. The
  invariant says that every key sits within \<open>MAX_CHAIN\<close> probes of its home with no hole before it.
\<close>

record addrmap =
  am_entries :: "(val \<times> val) list option"
  am_size :: u64

definition ADDRMAP_NOT_PRESENT :: val where "ADDRMAP_NOT_PRESENT = 0"
definition ADDRMAP_INVALID_KEY :: val where "ADDRMAP_INVALID_KEY = 0"
definition MAX_CHAIN :: nat where "MAX_CHAIN = 100"

definition pos_initial :: "addrmap \<Rightarrow> val \<Rightarrow> u64" where
  "pos_initial t key =
     (let pos = key * 0xcc9e2d51; pos = pos XOR drop_bit 17 pos in pos AND (am_size t - 1))"

definition pos_next :: "addrmap \<Rightarrow> u64 \<Rightarrow> u64" where
  "pos_next t pos = (pos + 1) AND (am_size t - 1)"

definition entry :: "addrmap \<Rightarrow> u64 \<Rightarrow> val \<times> val" where
  "entry t pos = (case am_entries t of None \<Rightarrow> (0, 0) | Some es \<Rightarrow> es ! unat pos)"

definition set_entry :: "addrmap \<Rightarrow> u64 \<Rightarrow> val \<times> val \<Rightarrow> addrmap" where
  "set_entry t pos e = t\<lparr>am_entries := map_option (\<lambda>es. es[unat pos := e]) (am_entries t)\<rparr>"

primrec contains_loop :: "nat \<Rightarrow> addrmap \<Rightarrow> val \<Rightarrow> u64 \<Rightarrow> bool" where
  "contains_loop 0 t key pos = False"
| "contains_loop (Suc n) t key pos =
     (if fst (entry t pos) = ADDRMAP_INVALID_KEY then False
      else if fst (entry t pos) = key then True
      else contains_loop n t key (pos_next t pos))"

definition caml_addrmap_contains :: "addrmap \<Rightarrow> val \<Rightarrow> bool" where
  "caml_addrmap_contains t key =
     (if am_entries t = None then False else contains_loop MAX_CHAIN t key (pos_initial t key))"

partial_function (option) lookup_loop :: "addrmap \<Rightarrow> val \<Rightarrow> u64 \<Rightarrow> val option" where
  "lookup_loop t key pos =
     (if fst (entry t pos) = key then Some (snd (entry t pos)) else lookup_loop t key (pos_next t pos))"

definition caml_addrmap_lookup :: "addrmap \<Rightarrow> val \<Rightarrow> val option" where
  "caml_addrmap_lookup t key = lookup_loop t key (pos_initial t key)"

text \<open>
  \<open>caml_stat_alloc\<close> raises \<open>Out_of_memory\<close> when \<open>malloc\<close> fails; \<open>lim\<close> is the largest request, in
  bytes, that succeeds. The size in bytes is computed modulo \<open>2 ^ 64\<close>, as in C.
\<close>

definition addrmap_alloc :: "nat \<Rightarrow> addrmap \<Rightarrow> u64 \<Rightarrow> addrmap res" where
  "addrmap_alloc lim t sz =
     (if lim < unat (16 * sz) then Inl Out_of_memory
      else Inr (t\<lparr>am_entries := Some (replicate (unat sz) (ADDRMAP_INVALID_KEY, ADDRMAP_NOT_PRESENT)),
                  am_size := sz\<rparr>))"

definition caml_addrmap_init :: "addrmap \<Rightarrow> addrmap" where
  "caml_addrmap_init t = t\<lparr>am_entries := None, am_size := 0\<rparr>"

definition caml_addrmap_clear :: "addrmap \<Rightarrow> addrmap" where
  "caml_addrmap_clear t = t\<lparr>am_entries := None, am_size := 0\<rparr>"

text \<open>The probe loop of \<open>caml_addrmap_insert_pos\<close>: claim a free slot, then stop on the key.\<close>

primrec insert_chain :: "nat \<Rightarrow> addrmap \<Rightarrow> val \<Rightarrow> u64 \<Rightarrow> (addrmap \<times> u64) option" where
  "insert_chain 0 t key pos = None"
| "insert_chain (Suc n) t key pos =
     (let t' = (if fst (entry t pos) = ADDRMAP_INVALID_KEY
                then set_entry t pos (key, snd (entry t pos)) else t)
      in if fst (entry t' pos) = key then Some (t', pos)
         else insert_chain n t' key (pos_next t' pos))"

definition store_value :: "addrmap \<Rightarrow> u64 \<Rightarrow> val \<Rightarrow> addrmap" where
  "store_value t pos v = set_entry t pos (fst (entry t pos), v)"

fun caml_addrmap_insert_pos :: "nat \<Rightarrow> nat \<Rightarrow> addrmap \<Rightarrow> val \<Rightarrow> (addrmap \<times> u64) res option"
and rehash :: "nat \<Rightarrow> nat \<Rightarrow> (val \<times> val) list \<Rightarrow> addrmap \<Rightarrow> addrmap res option" where
  "caml_addrmap_insert_pos lim 0 t key = None"
| "caml_addrmap_insert_pos lim (Suc n) t key =
     (case (if am_entries t = None then addrmap_alloc lim t 256 else Inr t) of
        Inl e \<Rightarrow> Some (Inl e)
      | Inr t \<Rightarrow>
        (case insert_chain MAX_CHAIN t key (pos_initial t key) of
           Some r \<Rightarrow> Some (Inr r)
         | None \<Rightarrow>
           (case addrmap_alloc lim t (am_size t * 2) of
              Inl e \<Rightarrow> Some (Inl e)
            | Inr t2 \<Rightarrow>
              (case rehash lim n (the (am_entries t)) t2 of
                 None \<Rightarrow> None
               | Some (Inl e) \<Rightarrow> Some (Inl e)
               | Some (Inr t') \<Rightarrow> caml_addrmap_insert_pos lim n t' key))))"
| "rehash lim n [] t = Some (Inr t)"
| "rehash lim n ((k, v) # es) t =
     (if k \<noteq> ADDRMAP_INVALID_KEY
      then (case caml_addrmap_insert_pos lim n t k of
              None \<Rightarrow> None
            | Some (Inl e) \<Rightarrow> Some (Inl e)
            | Some (Inr (t', p)) \<Rightarrow> rehash lim n es (store_value t' p v))
      else rehash lim n es t)"

definition caml_addrmap_insert :: "nat \<Rightarrow> nat \<Rightarrow> addrmap \<Rightarrow> val \<Rightarrow> val \<Rightarrow> addrmap res option" where
  "caml_addrmap_insert lim n t k v =
     (case caml_addrmap_insert_pos lim n t k of
        None \<Rightarrow> None
      | Some (Inl e) \<Rightarrow> Some (Inl e)
      | Some (Inr (t', p)) \<Rightarrow> Some (Inr (store_value t' p v)))"

subsection \<open>Iteration\<close>

definition caml_addrmap_iter_ok :: "addrmap \<Rightarrow> u64 \<Rightarrow> bool" where
  "caml_addrmap_iter_ok t i \<longleftrightarrow> i < am_size t"

function next_loop :: "addrmap \<Rightarrow> u64 \<Rightarrow> u64" where
  "next_loop t i =
     (if i < am_size t \<and> fst (entry t i) = ADDRMAP_INVALID_KEY then next_loop t (i + 1) else i)"
  by pat_completeness auto
termination
  by (relation "measure (\<lambda>(t, i). unat (am_size t) - unat i)")
    (auto simp: unat_Suc_less word_less_nat_alt)

declare next_loop.simps [simp del]

definition caml_addrmap_next :: "addrmap \<Rightarrow> u64 \<Rightarrow> u64" where
  "caml_addrmap_next t i = (if am_entries t = None then - 1 else next_loop t (i + 1))"

definition caml_addrmap_iterator :: "addrmap \<Rightarrow> u64" where
  "caml_addrmap_iterator t = caml_addrmap_next t (- 1)"

lemma next_loop_ge: "i \<le> next_loop t i"
proof (induction t i rule: next_loop.induct)
  case (1 t i)
  show ?case
  proof (cases "i < am_size t \<and> fst (entry t i) = ADDRMAP_INVALID_KEY")
    case True
    then have "i + 1 \<le> next_loop t (i + 1)" using "1.IH" by simp
    moreover have "i \<le> i + 1" using True unat_Suc_less [of i "am_size t"] by (simp add: word_le_nat_alt)
    ultimately show ?thesis using True by (simp add: next_loop.simps [of t i])
  next
    case False
    then show ?thesis by (subst next_loop.simps) auto
  qed
qed

text \<open>\<open>caml_addrmap_iter\<close>, with the calls of \<open>f\<close> collected in order.\<close>

function iter_from :: "addrmap \<Rightarrow> u64 \<Rightarrow> (val \<times> val) list" where
  "iter_from t i =
     (if caml_addrmap_iter_ok t i then entry t i # iter_from t (caml_addrmap_next t i) else [])"
  by pat_completeness auto
termination
proof (relation "measure (\<lambda>(t, i). unat (am_size t) - unat i)")
  fix t i assume "caml_addrmap_iter_ok t i"
  then have i: "i < am_size t" by (simp add: caml_addrmap_iter_ok_def)
  have "unat i < unat (caml_addrmap_next t i)"
  proof (cases "am_entries t = None")
    case True
    then show ?thesis using word_less_imp_less_minus_1 [OF i]
      by (simp add: caml_addrmap_next_def word_less_nat_alt)
  next
    case False
    then show ?thesis using next_loop_ge [of "i + 1" t] unat_Suc_less [OF i]
      by (auto simp: caml_addrmap_next_def word_le_nat_alt)
  qed
  with i show "((t, caml_addrmap_next t i), t, i) \<in> measure (\<lambda>(t, i). unat (am_size t) - unat i)"
    by (simp add: word_less_nat_alt)
qed simp

declare iter_from.simps [simp del]

definition caml_addrmap_iter :: "addrmap \<Rightarrow> (val \<times> val) list" where
  "caml_addrmap_iter t = iter_from t (caml_addrmap_iterator t)"

subsection \<open>Probe sequences\<close>

definition pow2_size :: "addrmap \<Rightarrow> bool" where
  "pow2_size t \<longleftrightarrow> (\<exists>k<64. am_size t = 2 ^ k)"

definition probe :: "addrmap \<Rightarrow> val \<Rightarrow> nat \<Rightarrow> nat" where
  "probe t key i = (unat (pos_initial t key) + i) mod unat (am_size t)"

lemma pow2_size_positive: "pow2_size t \<Longrightarrow> 0 < unat (am_size t)"
  by (auto simp: pow2_size_def unat_power2)

lemma pos_initial_probe: "pow2_size t \<Longrightarrow> unat (pos_initial t key) = probe t key 0"
  by (auto simp: pow2_size_def probe_def pos_initial_def Let_def unat_and_mask unat_power2)

lemma pos_next_probe:
  "pow2_size t \<Longrightarrow> unat pos = probe t key i \<Longrightarrow> unat (pos_next t pos) = probe t key (Suc i)"
  by (auto simp: pow2_size_def probe_def pos_next_def unat_and_mask unat_power2 unat_Suc_mod mod_Suc_eq)

lemma probe_less: "pow2_size t \<Longrightarrow> probe t key i < unat (am_size t)"
  using pow2_size_positive [of t] by (simp add: probe_def)

lemma probe_inj:
  assumes "pow2_size t" "probe t key i = probe t key j" "i < unat (am_size t)" "j < unat (am_size t)"
  shows "i = j"
  using assms(2-) unfolding probe_def by (rule mod_add_cancel_less)

subsection \<open>The invariant and the abstract map\<close>

text \<open>
  \<open>am_key t p\<close> is the key at index \<open>p\<close>. In a well-formed table every key is reached from its home
  within \<open>MAX_CHAIN\<close> probes through occupied entries, and no key occurs twice.
\<close>

abbreviation am_key :: "addrmap \<Rightarrow> nat \<Rightarrow> val" where
  "am_key t p \<equiv> fst (the (am_entries t) ! p)"

abbreviation am_val :: "addrmap \<Rightarrow> nat \<Rightarrow> val" where
  "am_val t p \<equiv> snd (the (am_entries t) ! p)"

definition reached :: "addrmap \<Rightarrow> val \<Rightarrow> nat \<Rightarrow> bool" where
  "reached t key i \<longleftrightarrow> am_key t (probe t key i) = key \<and> (\<forall>j<i. am_key t (probe t key j) \<noteq> 0)"

definition table_ok :: "addrmap \<Rightarrow> bool" where
  "table_ok t \<longleftrightarrow>
     (\<exists>es. am_entries t = Some es \<and> length es = unat (am_size t)) \<and> pow2_size t \<and> 256 \<le> am_size t \<and>
     (\<forall>p<unat (am_size t). am_key t p \<noteq> 0 \<longrightarrow>
        (\<exists>i<MAX_CHAIN. p = probe t (am_key t p) i \<and> reached t (am_key t p) i)) \<and>
     (\<forall>p<unat (am_size t). \<forall>q<unat (am_size t). am_key t p \<noteq> 0 \<longrightarrow> am_key t p = am_key t q \<longrightarrow> p = q) \<and>
     (\<forall>p<unat (am_size t). am_key t p = 0 \<longrightarrow> am_val t p = ADDRMAP_NOT_PRESENT)"

definition addrmap_inv :: "addrmap \<Rightarrow> bool" where
  "addrmap_inv t \<longleftrightarrow> (am_entries t = None \<and> am_size t = 0) \<or> table_ok t"

definition addrmap_abs :: "addrmap \<Rightarrow> val \<Rightarrow> val option" where
  "addrmap_abs t key =
     (case am_entries t of None \<Rightarrow> None
      | Some es \<Rightarrow> if key = 0 then None else map_of es key)"

lemma table_okD:
  assumes "table_ok t"
  shows "pow2_size t" "256 \<le> unat (am_size t)" "am_entries t \<noteq> None"
    "length (the (am_entries t)) = unat (am_size t)"
    "\<And>p. p < unat (am_size t) \<Longrightarrow> am_key t p \<noteq> 0 \<Longrightarrow>
       \<exists>i<MAX_CHAIN. p = probe t (am_key t p) i \<and> reached t (am_key t p) i"
    "\<And>p q. p < unat (am_size t) \<Longrightarrow> q < unat (am_size t) \<Longrightarrow> am_key t p \<noteq> 0 \<Longrightarrow>
       am_key t p = am_key t q \<Longrightarrow> p = q"
    "\<And>p. p < unat (am_size t) \<Longrightarrow> am_key t p = 0 \<Longrightarrow> am_val t p = ADDRMAP_NOT_PRESENT"
  using assms by (auto simp: table_ok_def word_le_nat_alt)

lemma entry_eq: "am_entries t \<noteq> None \<Longrightarrow> entry t pos = the (am_entries t) ! unat pos"
  by (auto simp: entry_def)

lemma abs_at:
  assumes "table_ok t" "p < unat (am_size t)" "am_key t p \<noteq> 0"
  shows "addrmap_abs t (am_key t p) = Some (am_val t p)"
proof -
  let ?es = "the (am_entries t)"
  have "map_of ?es (am_key t p) = Some (am_val t p)"
  proof -
    have "?es ! p \<in> set ?es" using assms(2) table_okD(4) [OF assms(1)] by simp
    then have "(am_key t p, am_val t p) \<in> set ?es" by simp
    then obtain v where v: "map_of ?es (am_key t p) = Some v"
      by (blast dest: weak_map_of_SomeI)
    then have "(am_key t p, v) \<in> set ?es" by (rule map_of_SomeD)
    then obtain q where q: "q < length ?es" "?es ! q = (am_key t p, v)" by (auto simp: in_set_conv_nth)
    from q(1) have "q < unat (am_size t)" using table_okD(4) [OF assms(1)] by simp
    moreover from q(2) have "am_key t p = am_key t q" by (metis fst_conv)
    ultimately have "p = q" by (rule table_okD(6) [OF assms(1,2) _ assms(3)])
    with q(2) have "v = am_val t p" by (metis snd_conv)
    with v show ?thesis by simp
  qed
  with assms(3) table_okD(3) [OF assms(1)] show ?thesis by (auto simp: addrmap_abs_def)
qed

lemma abs_SomeE:
  assumes "table_ok t" "addrmap_abs t key = Some v"
  obtains p where "p < unat (am_size t)" "am_key t p = key" "am_val t p = v" "key \<noteq> 0"
proof -
  let ?es = "the (am_entries t)"
  have k: "key \<noteq> 0" "map_of ?es key = Some v"
    using assms(2) by (auto simp: addrmap_abs_def split: option.splits if_splits)
  then have "(key, v) \<in> set ?es" by (blast dest: map_of_SomeD)
  then obtain p where "p < length ?es" "?es ! p = (key, v)" by (auto simp: in_set_conv_nth)
  with k that table_okD(4) [OF assms(1)] show ?thesis by auto
qed

lemma abs_reached:
  assumes "table_ok t" "addrmap_abs t key = Some v"
  obtains i where "i < MAX_CHAIN" "reached t key i" "am_val t (probe t key i) = v" "key \<noteq> 0"
proof -
  obtain p where p: "p < unat (am_size t)" "am_key t p = key" "am_val t p = v" "key \<noteq> 0"
    by (rule abs_SomeE [OF assms])
  with table_okD(5) [OF assms(1), of p] obtain i where "i < MAX_CHAIN" "p = probe t key i" "reached t key i"
    by auto
  with p that show ?thesis by auto
qed

subsection \<open>Lookups\<close>

lemma contains_loop_iff:
  assumes "am_entries t \<noteq> None" "pow2_size t" "key \<noteq> 0" "unat pos = probe t key i"
  shows "contains_loop n t key pos \<longleftrightarrow>
    (\<exists>j<n. am_key t (probe t key (i + j)) = key \<and> (\<forall>l<j. am_key t (probe t key (i + l)) \<noteq> 0))"
  using assms(4)
proof (induction n arbitrary: pos i)
  case 0
  then show ?case by simp
next
  case (Suc n)
  have IH: "contains_loop n t key (pos_next t pos) \<longleftrightarrow>
    (\<exists>j<n. am_key t (probe t key (Suc i + j)) = key \<and> (\<forall>l<j. am_key t (probe t key (Suc i + l)) \<noteq> 0))"
    by (rule Suc.IH) (rule pos_next_probe [OF assms(2) Suc.prems])
  have e: "fst (entry t pos) = am_key t (probe t key i)"
    by (simp add: entry_eq assms(1) Suc.prems)
  show ?case
    unfolding contains_loop.simps e IH ADDRMAP_INVALID_KEY_def Ex_less_Suc2
    using assms(3) by (auto simp: All_less_Suc2)
qed

lemma caml_addrmap_contains_iff:
  assumes "addrmap_inv t" "key \<noteq> 0"
  shows "caml_addrmap_contains t key \<longleftrightarrow> addrmap_abs t key \<noteq> None"
proof (cases "am_entries t = None")
  case True
  then show ?thesis by (simp add: caml_addrmap_contains_def addrmap_abs_def)
next
  case False
  with assms have ok: "table_ok t" by (auto simp: addrmap_inv_def)
  note d = table_okD [OF ok]
  have "caml_addrmap_contains t key \<longleftrightarrow> (\<exists>i<MAX_CHAIN. reached t key i)"
    using False contains_loop_iff [OF d(3,1) assms(2) pos_initial_probe [OF d(1)], of MAX_CHAIN]
    by (auto simp: caml_addrmap_contains_def reached_def)
  also have "\<dots> \<longleftrightarrow> addrmap_abs t key \<noteq> None"
  proof
    assume "\<exists>i<MAX_CHAIN. reached t key i"
    then obtain i where "am_key t (probe t key i) = key" by (auto simp: reached_def)
    with abs_at [OF ok probe_less [OF d(1)], of key i] assms(2) show "addrmap_abs t key \<noteq> None" by simp
  next
    assume "addrmap_abs t key \<noteq> None"
    then obtain v where "addrmap_abs t key = Some v" by auto
    then show "\<exists>i<MAX_CHAIN. reached t key i" by (rule abs_reached [OF ok]) blast
  qed
  finally show ?thesis .
qed

lemma lookup_loop_reached:
  assumes "am_entries t \<noteq> None" "pow2_size t" "am_key t (probe t key (i + n)) = key"
    "\<forall>j<n. am_key t (probe t key (i + j)) \<noteq> key" "unat pos = probe t key i"
  shows "lookup_loop t key pos = Some (am_val t (probe t key (i + n)))"
  using assms(3-)
proof (induction n arbitrary: i pos)
  case 0
  then show ?case by (simp add: lookup_loop.simps entry_eq assms(1))
next
  case (Suc n)
  from Suc.prems have ne: "fst (entry t pos) \<noteq> key" by (auto simp: entry_eq assms(1))
  have "lookup_loop t key (pos_next t pos) = Some (am_val t (probe t key (Suc i + n)))"
    using Suc.prems by (intro Suc.IH pos_next_probe assms(2)) auto
  with ne show ?case by (simp add: lookup_loop.simps [of t key pos])
qed

text \<open>The unbounded loop of \<open>caml_addrmap_lookup\<close> returns, with the right value, on every present key.\<close>

lemma caml_addrmap_lookup_abs:
  assumes "addrmap_inv t" "addrmap_abs t key = Some v"
  shows "caml_addrmap_lookup t key = Some v"
proof -
  from assms have ok: "table_ok t" by (auto simp: addrmap_inv_def addrmap_abs_def)
  note d = table_okD [OF ok]
  obtain i where i: "i < MAX_CHAIN" "reached t key i" "am_val t (probe t key i) = v" "key \<noteq> 0"
    by (rule abs_reached [OF ok assms(2)])
  have "am_key t (probe t key j) \<noteq> key" if "j < i" for j
  proof
    assume "am_key t (probe t key j) = key"
    then have "probe t key j = probe t key i"
      using i(2,4) d(6) [OF probe_less [OF d(1)] probe_less [OF d(1)]] by (simp add: reached_def)
    then have "j = i"
      using probe_inj [OF d(1)] that i(1) d(2) by (simp add: MAX_CHAIN_def)
    with that show False by simp
  qed
  then show ?thesis
    using lookup_loop_reached [OF d(3,1), of key 0 i "pos_initial t key"] i pos_initial_probe [OF d(1)]
    by (simp add: caml_addrmap_lookup_def reached_def)
qed

subsection \<open>Insertion\<close>

lemma insert_chain_Some:
  assumes "am_entries t \<noteq> None" "pow2_size t" "key \<noteq> 0"
    "length (the (am_entries t)) = unat (am_size t)"
    "insert_chain n t key pos = Some (t', p)" "unat pos = probe t key i"
  shows "\<exists>j<n. unat p = probe t key (i + j) \<and> (\<forall>l<j. am_key t (probe t key (i + l)) \<notin> {0, key}) \<and>
    (am_key t (unat p) = key \<and> t' = t \<or>
     am_key t (unat p) = 0 \<and> t' = set_entry t p (key, am_val t (unat p)))"
  using assms(5,6)
proof (induction n arbitrary: pos i)
  case 0
  then show ?case by simp
next
  case (Suc n)
  have lt: "unat pos < length (the (am_entries t))" using probe_less [OF assms(2)] assms(4) Suc.prems(2) by simp
  show ?case
  proof (cases "am_key t (unat pos) \<in> {0, key}")
    case True
    then have "p = pos \<and> (am_key t (unat p) = key \<and> t' = t \<or>
       am_key t (unat p) = 0 \<and> t' = set_entry t p (key, am_val t (unat p)))"
      using Suc.prems(1) lt assms(1,3)
      by (auto simp: Let_def entry_eq ADDRMAP_INVALID_KEY_def set_entry_def split: if_splits)
    with Suc.prems(2) show ?thesis by (intro exI [of _ 0]) auto
  next
    case False
    then have "insert_chain n t key (pos_next t pos) = Some (t', p)"
      using Suc.prems(1) assms(1) by (auto simp: Let_def entry_eq ADDRMAP_INVALID_KEY_def split: if_splits)
    from Suc.IH [OF this pos_next_probe [OF assms(2) Suc.prems(2)]]
    obtain j where j: "j < n" "unat p = probe t key (Suc i + j)"
      "\<forall>l<j. am_key t (probe t key (Suc i + l)) \<notin> {0, key}"
      "am_key t (unat p) = key \<and> t' = t \<or>
       am_key t (unat p) = 0 \<and> t' = set_entry t p (key, am_val t (unat p))" by blast
    have "\<forall>l<Suc j. am_key t (probe t key (i + l)) \<notin> {0, key}"
      using j(3) False Suc.prems(2) by (auto simp: All_less_Suc2)
    with j show ?thesis by (intro exI [of _ "Suc j"]) auto
  qed
qed

lemma insert_chain_None:
  assumes "am_entries t \<noteq> None" "pow2_size t"
    "length (the (am_entries t)) = unat (am_size t)"
    "insert_chain n t key pos = None" "unat pos = probe t key i"
  shows "\<forall>j<n. am_key t (probe t key (i + j)) \<notin> {0, key}"
  using assms(4,5)
proof (induction n arbitrary: pos i)
  case 0
  then show ?case by simp
next
  case (Suc n)
  have lt: "unat pos < length (the (am_entries t))" using probe_less [OF assms(2)] assms(3) Suc.prems(2) by simp
  then have ne: "am_key t (unat pos) \<notin> {0, key}"
    using Suc.prems(1) assms(1)
    by (auto simp: Let_def entry_eq ADDRMAP_INVALID_KEY_def set_entry_def split: if_splits)
  then have "insert_chain n t key (pos_next t pos) = None"
    using Suc.prems(1) assms(1) by (auto simp: Let_def entry_eq ADDRMAP_INVALID_KEY_def split: if_splits)
  from Suc.IH [OF this pos_next_probe [OF assms(2) Suc.prems(2)]] ne Suc.prems(2)
  show ?case by (auto simp: All_less_Suc2)
qed

lemma set_entry_simps [simp]:
  "am_size (set_entry t p e) = am_size t"
  "pos_initial (set_entry t p e) key = pos_initial t key"
  "probe (set_entry t p e) key i = probe t key i"
  "pow2_size (set_entry t p e) = pow2_size t"
  "am_entries (set_entry t p e) = None \<longleftrightarrow> am_entries t = None"
  by (simp_all add: set_entry_def pos_initial_def probe_def pow2_size_def)

lemma the_set_entry:
  "am_entries t \<noteq> None \<Longrightarrow> the (am_entries (set_entry t p e)) = (the (am_entries t))[unat p := e]"
  by (auto simp: set_entry_def)

text \<open>
  \<open>settable t p key i\<close>: \<open>key\<close> may be written at \<open>p\<close>, its \<open>i\<close>-th probe, which is free or holds it already.
\<close>

definition settable :: "addrmap \<Rightarrow> u64 \<Rightarrow> val \<Rightarrow> nat \<Rightarrow> bool" where
  "settable t p key i \<longleftrightarrow>
     key \<noteq> 0 \<and> am_key t (unat p) \<in> {0, key} \<and> i < MAX_CHAIN \<and> unat p = probe t key i \<and>
     (\<forall>l<i. am_key t (probe t key l) \<noteq> 0) \<and>
     (\<forall>q<unat (am_size t). am_key t q = key \<longrightarrow> q = unat p)"

lemma set_entry_key_val:
  assumes "table_ok t" "q < unat (am_size t)"
  shows "am_key (set_entry t p (key, v)) q = (if q = unat p then key else am_key t q)"
    and "am_val (set_entry t p (key, v)) q = (if q = unat p then v else am_val t q)"
  using assms table_okD(4) [OF assms(1)]
  by (auto simp: the_set_entry [OF table_okD(3) [OF assms(1)]] nth_list_update)

lemma set_entry_reached:
  assumes ok: "table_ok t" and s: "settable t p key i"
    and q: "q < unat (am_size t)" "am_key (set_entry t p (key, v)) q \<noteq> 0"
  defines "t' \<equiv> set_entry t p (key, v)"
  shows "\<exists>i<MAX_CHAIN. q = probe t' (am_key t' q) i \<and> reached t' (am_key t' q) i"
proof -
  note d = table_okD [OF ok] and kv = set_entry_key_val [OF ok]
  have pl: "probe t k j < unat (am_size t)" for k j by (rule probe_less [OF d(1)])
  have occ: "am_key t r \<noteq> 0 \<Longrightarrow> r < unat (am_size t) \<Longrightarrow> am_key t' r \<noteq> 0" for r
    using s by (simp add: t'_def kv settable_def)
  have all: "\<forall>l<j. am_key t' (probe t' k l) \<noteq> 0" if "\<forall>l<j. am_key t (probe t k l) \<noteq> 0" for j k
    using that occ pl by (simp add: t'_def)
  show ?thesis
  proof (cases "q = unat p")
    case True
    then have "am_key t' q = key" using q by (simp add: t'_def kv)
    moreover have "reached t' key i" "q = probe t' key i"
      using s calculation all [of i key] True by (auto simp: reached_def settable_def t'_def)
    ultimately show ?thesis using s by (auto simp: settable_def)
  next
    case False
    then have kq: "am_key t' q = am_key t q" using q by (simp add: t'_def kv)
    with q d(5) [of q] obtain j where j: "j < MAX_CHAIN" "q = probe t (am_key t q) j" "reached t (am_key t q) j"
      by (auto simp: t'_def)
    then have "q = probe t' (am_key t q) j" by (simp add: t'_def)
    moreover have "reached t' (am_key t q) j"
      unfolding reached_def using j(3) all [of j "am_key t q"] calculation kq by (simp add: reached_def)
    ultimately show ?thesis using j(1) kq by auto
  qed
qed

lemma set_entry_distinct:
  assumes ok: "table_ok t" and s: "settable t p key i"
    and q: "q < unat (am_size t)" "q' < unat (am_size t)"
    and k: "am_key (set_entry t p (key, v)) q \<noteq> 0"
      "am_key (set_entry t p (key, v)) q = am_key (set_entry t p (key, v)) q'"
  shows "q = q'"
proof -
  note kv = set_entry_key_val [OF ok]
  have u: "r = unat p" if "r < unat (am_size t)" "am_key t r = key" for r
    using s that unfolding settable_def by blast
  show ?thesis
  proof (cases "q = unat p \<or> q' = unat p")
    case True
    then show ?thesis using k(2) u [OF q(1)] u [OF q(2)] q by (auto simp: kv split: if_splits)
  next
    case False
    then show ?thesis using k q table_okD(6) [OF ok q] by (simp add: kv)
  qed
qed

lemma table_ok_set_entry:
  assumes ok: "table_ok t" and s: "settable t p key i"
  shows "table_ok (set_entry t p (key, v))"
proof -
  note d = table_okD [OF ok]
  have "am_val (set_entry t p (key, v)) q = ADDRMAP_NOT_PRESENT"
    if "q < unat (am_size t)" "am_key (set_entry t p (key, v)) q = 0" for q
    using that d(7) [of q] s by (auto simp: set_entry_key_val [OF ok] settable_def split: if_splits)
  moreover have "\<exists>es. am_entries (set_entry t p (key, v)) = Some es \<and> length es = unat (am_size t)"
    using d(3,4) by (auto simp: set_entry_def)
  moreover have "\<forall>q<unat (am_size t). \<forall>q'<unat (am_size t). am_key (set_entry t p (key, v)) q \<noteq> 0 \<longrightarrow>
      am_key (set_entry t p (key, v)) q = am_key (set_entry t p (key, v)) q' \<longrightarrow> q = q'"
    using set_entry_distinct [OF ok s] by blast
  ultimately show ?thesis
    unfolding table_ok_def set_entry_simps(1,4)
    using set_entry_reached [OF ok s] d(1,2) by (simp add: word_le_nat_alt)
qed

lemma abs_Some_iff:
  assumes "table_ok t"
  shows "addrmap_abs t key = Some v \<longleftrightarrow>
    key \<noteq> 0 \<and> (\<exists>q<unat (am_size t). am_key t q = key \<and> am_val t q = v)"
  using abs_at [OF assms] abs_SomeE [OF assms] by metis

lemma abs_set_entry:
  assumes ok: "table_ok t" and s: "settable t p key i"
  shows "addrmap_abs (set_entry t p (key, v)) = (addrmap_abs t)(key \<mapsto> v)"
proof
  fix k
  have p: "unat p < unat (am_size t)" using s probe_less [OF table_okD(1) [OF ok]] by (simp add: settable_def)
  note kv = set_entry_key_val [OF ok]
  have "addrmap_abs (set_entry t p (key, v)) k = Some w \<longleftrightarrow> ((addrmap_abs t)(key \<mapsto> v)) k = Some w" for w
  proof (cases "k = key")
    case True
    have k0: "k \<noteq> 0" using s True by (simp add: settable_def)
    have "q = unat p" if "q < unat (am_size t)" "am_key t q = k" for q
      using that s True unfolding settable_def by blast
    then have up: "q = unat p" if "q < unat (am_size t)" "am_key (set_entry t p (key, v)) q = k" for q
      using that by (metis kv(1))
    have "am_key (set_entry t p (key, v)) (unat p) = k" "am_val (set_entry t p (key, v)) (unat p) = v"
      using p True by (simp_all add: kv)
    then have "(\<exists>q<unat (am_size t). am_key (set_entry t p (key, v)) q = k \<and>
        am_val (set_entry t p (key, v)) q = w) \<longleftrightarrow> w = v"
      using p up by metis
    then show ?thesis using k0 True by (auto simp: abs_Some_iff [OF table_ok_set_entry [OF ok s]])
  next
    case False
    have "am_key t (unat p) \<in> {0, key}" using s unfolding settable_def by blast
    then have "am_key (set_entry t p (key, v)) q = k \<and> am_val (set_entry t p (key, v)) q = w \<longleftrightarrow>
        am_key t q = k \<and> am_val t q = w" if "k \<noteq> 0" "q < unat (am_size t)" for q
      using that False by (cases "q = unat p") (auto simp: kv)
    then have "addrmap_abs (set_entry t p (key, v)) k = Some w \<longleftrightarrow> addrmap_abs t k = Some w"
      unfolding abs_Some_iff [OF table_ok_set_entry [OF ok s]] abs_Some_iff [OF ok] set_entry_simps(1)
      by metis
    with False show ?thesis by simp
  qed
  then show "addrmap_abs (set_entry t p (key, v)) k = ((addrmap_abs t)(key \<mapsto> v)) k"
    by (metis not_None_eq)
qed

lemma insert_chain_inv:
  assumes ok: "table_ok t" and k: "key \<noteq> 0"
    and r: "insert_chain MAX_CHAIN t key (pos_initial t key) = Some (t', p)"
  shows "table_ok t'" "am_size t' = am_size t" "\<exists>i. settable t' p key i" "am_key t' (unat p) = key"
    "addrmap_abs t' = (if addrmap_abs t key = None then (addrmap_abs t)(key \<mapsto> ADDRMAP_NOT_PRESENT) else addrmap_abs t)"
proof -
  note d = table_okD [OF ok]
  obtain j where j: "j < MAX_CHAIN" "unat p = probe t key j"
      "\<forall>l<j. am_key t (probe t key l) \<notin> {0, key}"
      and cases: "am_key t (unat p) = key \<and> t' = t \<or>
        am_key t (unat p) = 0 \<and> t' = set_entry t p (key, am_val t (unat p))"
    using insert_chain_Some [OF d(3,1) k d(4) r pos_initial_probe [OF d(1)]] by auto
  have p: "unat p < unat (am_size t)" using j(2) probe_less [OF d(1)] by simp
  have u: "q = unat p" if q: "q < unat (am_size t)" "am_key t q = key" for q
  proof -
    obtain i where i: "q = probe t key i" "reached t key i" "i < MAX_CHAIN" using d(5) [OF q(1)] q(2) k by auto
    have "\<not> j < i"
    proof
      assume "j < i"
      then have "am_key t (unat p) = key" using cases i(2) j(2) by (auto simp: reached_def)
      then have "unat p = q" using d(6) [OF p q(1)] q(2) k by simp
      then have "j = i" using probe_inj [OF d(1)] i j d(2) by (simp add: MAX_CHAIN_def)
      with \<open>j < i\<close> show False by simp
    qed
    moreover have "\<not> i < j" using j(3) q(2) i(1) by auto
    ultimately show ?thesis using i j(2) by simp
  qed
  have s: "settable t p key j"
    unfolding settable_def using k j cases u by auto
  show "table_ok t'" "am_size t' = am_size t"
    using cases ok table_ok_set_entry [OF ok s] by auto
  show "am_key t' (unat p) = key" using cases p by (auto simp: set_entry_key_val [OF ok])
  have s': "settable t' p key j"
    using cases s p k probe_less [OF d(1)]
    by (auto simp: settable_def set_entry_key_val [OF ok] split: if_splits)
  then show "\<exists>i. settable t' p key i" by blast
  show "addrmap_abs t' = (if addrmap_abs t key = None then (addrmap_abs t)(key \<mapsto> ADDRMAP_NOT_PRESENT) else addrmap_abs t)"
  proof (cases "am_key t (unat p) = key")
    case True
    with cases k have "t' = t" by auto
    moreover have "addrmap_abs t key = Some (am_val t (unat p))" using abs_at [OF ok p] True k by simp
    ultimately show ?thesis by simp
  next
    case False
    then have "am_key t (unat p) = 0" "t' = set_entry t p (key, ADDRMAP_NOT_PRESENT)"
      using cases d(7) [OF p] by auto
    moreover have "addrmap_abs t key = None"
      using u False abs_Some_iff [OF ok, of key] by (metis not_None_eq)
    ultimately show ?thesis using abs_set_entry [OF ok s] by simp
  qed
qed

lemma store_value_inv:
  assumes ok: "table_ok t" and s: "settable t p key i" and k: "am_key t (unat p) = key"
  shows "table_ok (store_value t p v)" "am_size (store_value t p v) = am_size t"
    "addrmap_abs (store_value t p v) = (addrmap_abs t)(key \<mapsto> v)"
proof -
  have "fst (entry t p) = key" using k table_okD(3) [OF ok] by (simp add: entry_eq)
  then have e: "store_value t p v = set_entry t p (key, v)" by (simp add: store_value_def)
  show "table_ok (store_value t p v)" "am_size (store_value t p v) = am_size t"
    "addrmap_abs (store_value t p v) = (addrmap_abs t)(key \<mapsto> v)"
    unfolding e using table_ok_set_entry [OF ok s] abs_set_entry [OF ok s] by simp_all
qed

lemma fresh_table_ok:
  assumes "addrmap_alloc lim t sz = Inr t'" "\<exists>k<64. sz = 2 ^ k" "256 \<le> sz"
  shows "table_ok t'" "am_size t' = sz" "addrmap_abs t' = Map.empty"
proof -
  have t': "am_entries t' = Some (replicate (unat sz) (0, 0))" "am_size t' = sz"
    using assms(1) by (auto simp: addrmap_alloc_def ADDRMAP_INVALID_KEY_def ADDRMAP_NOT_PRESENT_def split: if_splits)
  then show ok: "table_ok t'" and "am_size t' = sz"
    using assms(2,3) by (auto simp: table_ok_def pow2_size_def ADDRMAP_NOT_PRESENT_def)
  have "addrmap_abs t' k \<noteq> Some v" for k v using t' by (auto simp: abs_Some_iff [OF ok])
  then show "addrmap_abs t' = Map.empty" by (metis ext not_Some_eq)
qed

text \<open>Doubling a table that fits in memory does not overflow its size.\<close>

lemma double_size_ok:
  assumes "table_ok t" "16 * unat (am_size t) \<le> lim" "lim < 2 ^ 63"
  shows "\<exists>k<64. am_size t * 2 = 2 ^ k" "256 \<le> am_size t * 2" "unat (am_size t * 2) = 2 * unat (am_size t)"
    "unat (16 * (am_size t * 2)) = 32 * unat (am_size t)"
proof -
  obtain k where k: "k < 64" "am_size t = 2 ^ k" "unat (am_size t) = 2 ^ k"
    using table_okD(1) [OF assms(1)] by (auto simp: pow2_size_def unat_power2)
  have "(16 :: nat) * 2 ^ k < 2 ^ 63" using assms(2,3) k(3) by simp
  then have "(2 :: nat) ^ (k + 4) < 2 ^ 63" by (simp add: power_add)
  then have k59: "k + 4 < 63" by (simp only: power_strict_increasing_iff one_less_numeral_iff semiring_norm(76))
  have s2: "am_size t * 2 = 2 ^ Suc k" by (simp add: k)
  with k59 show "\<exists>k<64. am_size t * 2 = 2 ^ k" by (intro exI [of _ "Suc k"]) simp
  show u2: "unat (am_size t * 2) = 2 * unat (am_size t)"
    unfolding s2 k(3) using k59 by (subst unat_power2) simp_all
  have e: "16 * (am_size t * 2) = 2 ^ (k + 5)" by (simp add: k power_add)
  have "unat (2 ^ (k + 5) :: u64) = 2 ^ (k + 5)" using k59 by (intro unat_power2) simp
  then show "unat (16 * (am_size t * 2)) = 32 * unat (am_size t)"
    unfolding e k(3) by (simp add: power_add)
  show "256 \<le> am_size t * 2" using table_okD(2) [OF assms(1)] by (simp add: word_le_nat_alt u2)
qed

abbreviation live :: "(val \<times> val) list \<Rightarrow> (val \<times> val) list" where
  "live es \<equiv> filter (\<lambda>e. fst e \<noteq> 0) es"

lemma map_of_live_entries:
  assumes ok: "table_ok t"
  shows "map_of (rev (live (the (am_entries t)))) = addrmap_abs t"
proof -
  let ?es = "the (am_entries t)"
  note d = table_okD [OF ok]
  have mem: "(k, v) \<in> set (rev (live ?es)) \<longleftrightarrow> addrmap_abs t k = Some v" for k v
    unfolding abs_Some_iff [OF ok]
    by (auto simp: in_set_conv_nth d(4))
  have "map_of (rev (live ?es)) k = Some v \<longleftrightarrow> addrmap_abs t k = Some v" for k v
    unfolding mem [symmetric] by (rule map_of_functional) (simp add: mem del: set_rev set_filter)
  then show ?thesis by (rule map_eqI)
qed

definition insert_post :: "nat \<Rightarrow> addrmap \<Rightarrow> val \<Rightarrow> addrmap \<Rightarrow> u64 \<Rightarrow> bool" where
  "insert_post lim t key t' p \<longleftrightarrow>
     table_ok t' \<and> 16 * unat (am_size t') \<le> lim \<and> am_size t \<le> am_size t' \<and>
     (\<exists>i. settable t' p key i) \<and> am_key t' (unat p) = key \<and>
     addrmap_abs t' = (if addrmap_abs t key = None then (addrmap_abs t)(key \<mapsto> ADDRMAP_NOT_PRESENT)
                       else addrmap_abs t)"

lemma first_table_ok:
  assumes inv: "addrmap_inv t" "16 * unat (am_size t) \<le> lim"
    and t0: "(if am_entries t = None then addrmap_alloc lim t 256 else Inr t) = Inr t0"
  shows "table_ok t0 \<and> 16 * unat (am_size t0) \<le> lim \<and> am_size t \<le> am_size t0 \<and>
    addrmap_abs t0 = addrmap_abs t"
proof (cases "am_entries t = None")
  case True
  then have a: "addrmap_alloc lim t 256 = Inr t0" using t0 by simp
  have "\<exists>k<64. (256 :: u64) = 2 ^ k" by (intro exI [of _ 8]) simp
  note f = fresh_table_ok [OF a this]
  have "am_size t = 0" using inv(1) True by (auto simp: addrmap_inv_def table_ok_def)
  moreover have "addrmap_abs t = Map.empty" using True by (auto simp: addrmap_abs_def)
  moreover have "4096 \<le> lim" using a by (auto simp: addrmap_alloc_def split: if_splits)
  ultimately show ?thesis using f by simp
next
  case False
  then show ?thesis using t0 inv by (auto simp: addrmap_inv_def)
qed

lemma insert_pos_rehash_correct:
  assumes "lim < 2 ^ 63"
  shows "addrmap_inv t \<Longrightarrow> 16 * unat (am_size t) \<le> lim \<Longrightarrow> key \<noteq> 0 \<Longrightarrow>
      caml_addrmap_insert_pos lim n t key = Some (Inr (t', p)) \<Longrightarrow> insert_post lim t key t' p"
    and "table_ok u \<Longrightarrow> 16 * unat (am_size u) \<le> lim \<Longrightarrow> rehash lim n es u = Some (Inr u') \<Longrightarrow>
      table_ok u' \<and> 16 * unat (am_size u') \<le> lim \<and> am_size u \<le> am_size u' \<and>
      addrmap_abs u' = addrmap_abs u ++ map_of (rev (live es))"
  using assms
proof (induction lim n t key and lim n es u arbitrary: t' p and u' rule: caml_addrmap_insert_pos_rehash.induct)
  case (1 lim t key)
  then show ?case by simp
next
  case (2 lim n t key)
  obtain t0 where t0: "(if am_entries t = None then addrmap_alloc lim t 256 else Inr t) = Inr t0"
    using "2.prems"(4) by (auto split: sum.splits)
  have ok0: "table_ok t0 \<and> 16 * unat (am_size t0) \<le> lim \<and> am_size t \<le> am_size t0 \<and>
      addrmap_abs t0 = addrmap_abs t"
    using first_table_ok [OF "2.prems"(1,2) t0] .
  show ?case
  proof (cases "insert_chain MAX_CHAIN t0 key (pos_initial t0 key)")
    case (Some r)
    then have "r = (t', p)" using "2.prems"(4) t0 by auto
    with Some insert_chain_inv [of t0 key t' p] ok0 "2.prems"(3) show ?thesis
      by (auto simp: insert_post_def)
  next
    case None
    then obtain t2 t3 where r: "addrmap_alloc lim t0 (am_size t0 * 2) = Inr t2"
      "rehash lim n (the (am_entries t0)) t2 = Some (Inr t3)"
      "caml_addrmap_insert_pos lim n t3 key = Some (Inr (t', p))"
      using "2.prems"(4) t0 by (auto split: option.splits sum.splits)
    note ds = double_size_ok [of t0 lim]
    have f: "table_ok t2" "am_size t2 = am_size t0 * 2" "addrmap_abs t2 = Map.empty"
      using fresh_table_ok [OF r(1)] ds ok0 "2.prems"(5) by auto
    have "32 * unat (am_size t0) \<le> lim"
      using r(1) ds ok0 "2.prems"(5) by (auto simp: addrmap_alloc_def split: if_splits)
    then have l2: "16 * unat (am_size t2) \<le> lim" "am_size t0 \<le> am_size t2"
      using f(2) ds ok0 "2.prems"(5) by (auto simp: word_le_nat_alt)
    have "table_ok t3 \<and> 16 * unat (am_size t3) \<le> lim \<and> am_size t2 \<le> am_size t3 \<and>
      addrmap_abs t3 = addrmap_abs t0"
      using "2.IH"(1) [OF t0 None r(1) f(1) l2(1) r(2) "2.prems"(5)]
        f(3) ok0 map_of_live_entries [of t0] by simp
    moreover from this have "insert_post lim t3 key t' p"
      using "2.IH"(2) [OF t0 None r(1) r(2) _ _ _ "2.prems"(3) r(3) "2.prems"(5)]
      by (simp add: addrmap_inv_def)
    ultimately show ?thesis using ok0 l2(2) by (auto simp: insert_post_def)
  qed
next
  case (3 lim n t)
  then show ?case by simp
next
  case (4 lim n k v es t)
  show ?case
  proof (cases "k = 0")
    case True
    then show ?thesis using 4 by (simp add: ADDRMAP_INVALID_KEY_def)
  next
    case False
    then obtain t1 p where r: "caml_addrmap_insert_pos lim n t k = Some (Inr (t1, p))"
      "rehash lim n es (store_value t1 p v) = Some (Inr u')"
      using "4.prems" by (auto simp: ADDRMAP_INVALID_KEY_def split: option.splits sum.splits)
    have "insert_post lim t k t1 p"
      using "4.IH"(1) False "4.prems" r(1) by (simp add: ADDRMAP_INVALID_KEY_def addrmap_inv_def)
    then obtain i where i: "table_ok t1" "16 * unat (am_size t1) \<le> lim" "am_size t \<le> am_size t1"
      "settable t1 p k i" "am_key t1 (unat p) = k"
      "addrmap_abs t1 = (if addrmap_abs t k = None then (addrmap_abs t)(k \<mapsto> ADDRMAP_NOT_PRESENT) else addrmap_abs t)"
      by (auto simp: insert_post_def)
    note sv = store_value_inv [OF i(1,4,5)]
    have "table_ok u' \<and> 16 * unat (am_size u') \<le> lim \<and> am_size (store_value t1 p v) \<le> am_size u' \<and>
      addrmap_abs u' = addrmap_abs (store_value t1 p v) ++ map_of (rev (live es))"
      using "4.IH"(2) [of "Inr (t1, p)" "(t1, p)" t1 p u'] False r sv(1,2) i(2) "4.prems"
      by (simp add: ADDRMAP_INVALID_KEY_def)
    moreover have "addrmap_abs (store_value t1 p v) = (addrmap_abs t)(k \<mapsto> v)"
      using sv(3) i(6) by auto
    ultimately show ?thesis using False i(3) sv(2) by (auto simp: map_add_def fun_eq_iff split: option.splits)
  qed
qed

text \<open>
  Enough fuel: every nested call works on a table at least twice as large, and no table is larger
  than \<open>lim\<close> bytes, so the recursion ends whenever \<open>16 * 2 ^ n\<close> table sizes exceed \<open>lim\<close>.
\<close>

lemma insert_pos_rehash_terminates:
  assumes "lim < 2 ^ 63"
  shows "addrmap_inv t \<Longrightarrow> 16 * unat (am_size t) \<le> lim \<Longrightarrow> key \<noteq> 0 \<Longrightarrow>
      0 < n \<Longrightarrow> lim < 16 * max 256 (unat (am_size t)) * 2 ^ n \<Longrightarrow> caml_addrmap_insert_pos lim n t key \<noteq> None"
    and "table_ok u \<Longrightarrow> 16 * unat (am_size u) \<le> lim \<Longrightarrow>
      0 < n \<Longrightarrow> lim < 16 * unat (am_size u) * 2 ^ n \<Longrightarrow> rehash lim n es u \<noteq> None"
  using assms
proof (induction lim n t key and lim n es u rule: caml_addrmap_insert_pos_rehash.induct)
  case (1 lim t key)
  then show ?case by simp
next
  case (2 lim n t key)
  show ?case
  proof (rule notI)
    assume N: "caml_addrmap_insert_pos lim (Suc n) t key = None"
    then obtain t0 where t0: "(if am_entries t = None then addrmap_alloc lim t 256 else Inr t) = Inr t0"
      by (auto split: sum.splits)
    note ok0 = first_table_ok [OF "2.prems"(1,2) t0]
    with N t0 obtain t2 where r: "insert_chain MAX_CHAIN t0 key (pos_initial t0 key) = None"
      "addrmap_alloc lim t0 (am_size t0 * 2) = Inr t2"
      by (auto split: sum.splits option.splits)
    note ds = double_size_ok [of t0 lim]
    have f: "table_ok t2" "am_size t2 = am_size t0 * 2"
      using fresh_table_ok [OF r(2)] ds ok0 "2.prems"(6) by auto
    have s2: "unat (am_size t2) = 2 * unat (am_size t0)" using ds ok0 "2.prems"(6) f(2) by simp
    have l2: "16 * unat (am_size t2) \<le> lim"
      using r(2) ds ok0 "2.prems"(6) f(2) by (auto simp: addrmap_alloc_def split: if_splits)
    have m: "max 256 (unat (am_size t)) \<le> unat (am_size t0)"
      using ok0 table_okD(2) [of t0] by (simp add: word_le_nat_alt)
    have b: "lim < 16 * unat (am_size t2) * 2 ^ n"
      using less_mult_mono [OF "2.prems"(5) m] by (simp add: s2)
    have n: "0 < n" using b l2 by (cases n) auto
    have "rehash lim n (the (am_entries t0)) t2 \<noteq> None"
      using "2.IH"(1) [OF t0 r f(1) l2 n b "2.prems"(6)] .
    then obtain t3 where r3: "rehash lim n (the (am_entries t0)) t2 = Some (Inr t3)"
      "caml_addrmap_insert_pos lim n t3 key = None"
      using N t0 r by (auto split: option.splits sum.splits)
    have c: "table_ok t3 \<and> 16 * unat (am_size t3) \<le> lim \<and> am_size t2 \<le> am_size t3"
      using insert_pos_rehash_correct(2) [OF "2.prems"(6) f(1) l2 r3(1)] by blast
    have "unat (am_size t2) \<le> max 256 (unat (am_size t3))" using c by (simp add: word_le_nat_alt le_max_iff_disj)
    with b have "lim < 16 * max 256 (unat (am_size t3)) * 2 ^ n" by (rule less_mult_mono)
    with "2.IH"(2) [OF t0 r r3(1)] c n "2.prems"(3,6) r3(2) show False
      by (simp add: addrmap_inv_def)
  qed
next
  case (3 lim n t)
  then show ?case by simp
next
  case (4 lim n k v es t)
  show ?case
  proof (cases "k = 0")
    case True
    then show ?thesis using 4 by (simp add: ADDRMAP_INVALID_KEY_def)
  next
    case False
    have "caml_addrmap_insert_pos lim n t k \<noteq> None"
      using "4.IH"(1) False "4.prems" table_okD(2) [OF "4.prems"(1)]
      by (simp add: ADDRMAP_INVALID_KEY_def addrmap_inv_def max_def)
    moreover have "rehash lim n es (store_value t1 p v) \<noteq> None"
      if r: "caml_addrmap_insert_pos lim n t k = Some (Inr (t1, p))" for t1 p
    proof -
      have "insert_post lim t k t1 p"
        using insert_pos_rehash_correct(1) [OF "4.prems"(5) _ "4.prems"(2) False r] "4.prems"(1)
        by (simp add: addrmap_inv_def)
      then obtain i where i: "table_ok t1" "16 * unat (am_size t1) \<le> lim" "am_size t \<le> am_size t1"
        "settable t1 p k i" "am_key t1 (unat p) = k" by (auto simp: insert_post_def)
      have "lim < 16 * unat (am_size t1) * 2 ^ n"
        using "4.prems"(4) i(3) by (auto simp: word_le_nat_alt intro: less_mult_mono)
      then show ?thesis
        using "4.IH"(2) [of "Inr (t1, p)" "(t1, p)" t1 p] False r i "4.prems"(3,5) store_value_inv(1,2) [OF i(1,4,5)]
        by (simp add: ADDRMAP_INVALID_KEY_def)
    qed
    ultimately show ?thesis using False by (auto simp: ADDRMAP_INVALID_KEY_def split: option.splits sum.splits)
  qed
qed

text \<open>A probe chain always finds a place while fewer than \<open>MAX_CHAIN\<close> keys are stored.\<close>

lemma insert_chain_not_full:
  assumes ok: "table_ok t" and c: "card (dom (addrmap_abs t)) < MAX_CHAIN"
  shows "insert_chain MAX_CHAIN t key (pos_initial t key) \<noteq> None"
proof
  note d = table_okD [OF ok]
  assume "insert_chain MAX_CHAIN t key (pos_initial t key) = None"
  from insert_chain_None [OF d(3,1,4) this pos_initial_probe [OF d(1)]]
  have occ: "\<forall>j<MAX_CHAIN. am_key t (probe t key j) \<noteq> 0" by simp
  let ?f = "\<lambda>j. am_key t (probe t key j)"
  have inj: "inj_on ?f {..<MAX_CHAIN}"
  proof (rule inj_onI)
    fix i j assume ij: "i \<in> {..<MAX_CHAIN}" "j \<in> {..<MAX_CHAIN}" "?f i = ?f j"
    have nz: "?f i \<noteq> 0" using occ ij(1) by blast
    have eq: "probe t key i = probe t key j"
      using d(6) [OF probe_less [OF d(1)] probe_less [OF d(1)] nz ij(3)] .
    have "i < unat (am_size t)" "j < unat (am_size t)" using ij(1,2) d(2) by (simp_all add: MAX_CHAIN_def)
    from probe_inj [OF d(1) eq this] show "i = j" .
  qed
  have "?f ` {..<MAX_CHAIN} \<subseteq> dom (addrmap_abs t)"
    using occ abs_at [OF ok probe_less [OF d(1)]] by auto
  moreover have "finite (dom (addrmap_abs t))"
    using map_of_live_entries [OF ok] finite_dom_map_of by metis
  ultimately have "card (?f ` {..<MAX_CHAIN}) \<le> card (dom (addrmap_abs t))" by (rule card_mono [rotated])
  with card_image [OF inj] c show False by simp
qed

subsection \<open>Iteration visits the live entries\<close>

lemma next_loop_props:
  assumes "am_entries t = Some es" "length es = unat (am_size t)" "unat i \<le> length es"
  shows "unat (next_loop t i) \<le> length es \<and>
    live (drop (unat i) es) = live (drop (unat (next_loop t i)) es) \<and>
    (unat (next_loop t i) < length es \<longrightarrow> fst (es ! unat (next_loop t i)) \<noteq> 0)"
  using assms
proof (induction t i rule: next_loop.induct)
  case (1 t i)
  show ?case
  proof (cases "i < am_size t \<and> fst (entry t i) = ADDRMAP_INVALID_KEY")
    case True
    then have i: "unat (i + 1) = Suc (unat i)" "unat i < length es"
      using unat_Suc_less [of i "am_size t"] 1(3) by (auto simp: word_less_nat_alt)
    moreover have "fst (es ! unat i) = 0"
      using True 1(2) by (simp add: entry_def ADDRMAP_INVALID_KEY_def)
    ultimately have "live (drop (unat i) es) = live (drop (unat (i + 1)) es)"
      by (simp add: Cons_nth_drop_Suc [symmetric])
    moreover have "next_loop t i = next_loop t (i + 1)" using True by (subst next_loop.simps) simp
    ultimately show ?thesis using 1(1) [OF True 1(2,3)] i by simp
  next
    case False
    then have "next_loop t i = i" by (subst next_loop.simps) auto
    with False 1(2-) show ?thesis by (auto simp: entry_def ADDRMAP_INVALID_KEY_def word_less_nat_alt)
  qed
qed

lemma iter_from_live:
  assumes "am_entries t = Some es" "length es = unat (am_size t)" "unat i \<le> length es"
    "unat i < length es \<longrightarrow> fst (es ! unat i) \<noteq> 0"
  shows "iter_from t i = live (drop (unat i) es)"
  using assms
proof (induction t i rule: iter_from.induct)
  case (1 t i)
  show ?case
  proof (cases "caml_addrmap_iter_ok t i")
    case True
    then have i: "unat (i + 1) = Suc (unat i)" "unat i < length es"
      using unat_Suc_less [of i "am_size t"] 1(3) by (auto simp: caml_addrmap_iter_ok_def word_less_nat_alt)
    have n: "caml_addrmap_next t i = next_loop t (i + 1)" using 1(2) by (simp add: caml_addrmap_next_def)
    have props: "unat (next_loop t (i + 1)) \<le> length es"
      "live (drop (unat (i + 1)) es) = live (drop (unat (next_loop t (i + 1))) es)"
      "unat (next_loop t (i + 1)) < length es \<longrightarrow> fst (es ! unat (next_loop t (i + 1))) \<noteq> 0"
      using next_loop_props [OF 1(2,3), of "i + 1"] i by simp_all
    have "iter_from t (next_loop t (i + 1)) = live (drop (Suc (unat i)) es)"
      using 1(1) [OF True 1(2,3)] n props i by simp
    moreover have "entry t i = es ! unat i" using 1(2) by (simp add: entry_def)
    ultimately show ?thesis using True 1(5) i(2) n
      by (simp add: iter_from.simps [of t i] Cons_nth_drop_Suc [symmetric])
  next
    case False
    then have "length es \<le> unat i" using 1(3) by (simp add: caml_addrmap_iter_ok_def word_less_nat_alt)
    with False show ?thesis by (simp add: iter_from.simps [of t i])
  qed
qed

lemma caml_addrmap_iter_live:
  assumes "table_ok t"
  shows "caml_addrmap_iter t = live (the (am_entries t))"
proof -
  note d = table_okD [OF assms]
  obtain es where es: "am_entries t = Some es" "length es = unat (am_size t)" using d(3,4) by auto
  then have "caml_addrmap_iterator t = next_loop t 0"
    by (simp add: caml_addrmap_iterator_def caml_addrmap_next_def)
  with es next_loop_props [OF es, of 0] iter_from_live [OF es, of "next_loop t 0"]
  show ?thesis by (simp add: caml_addrmap_iter_def)
qed

lemma caml_addrmap_iter_map:
  assumes "addrmap_inv t"
  shows "distinct (map fst (caml_addrmap_iter t)) \<and> map_of (caml_addrmap_iter t) = addrmap_abs t"
proof (cases "am_entries t = None")
  case True
  with assms have "am_size t = 0" by (auto simp: addrmap_inv_def table_ok_def)
  with True show ?thesis
    by (auto simp: caml_addrmap_iter_def iter_from.simps caml_addrmap_iter_ok_def addrmap_abs_def)
next
  case False
  with assms have ok: "table_ok t" by (auto simp: addrmap_inv_def)
  note d = table_okD [OF ok]
  have "distinct (map fst (live (the (am_entries t))))"
    using d(4,6) by (intro distinct_map_filter_nth) auto
  moreover from this have "map_of (rev (live (the (am_entries t)))) = map_of (live (the (am_entries t)))"
    by (subst map_of_inject_set) (simp_all add: rev_map [symmetric])
  ultimately show ?thesis using map_of_live_entries [OF ok] caml_addrmap_iter_live [OF ok] by simp
qed

subsection \<open>The address map is a dictionary\<close>

lemma caml_addrmap_insert_correct:
  assumes "lim < 2 ^ 63" "addrmap_inv t" "16 * unat (am_size t) \<le> lim" "k \<noteq> 0"
    "caml_addrmap_insert lim n t k v = Some (Inr t')"
  shows "table_ok t' \<and> 16 * unat (am_size t') \<le> lim \<and> addrmap_abs t' = (addrmap_abs t)(k \<mapsto> v)"
proof -
  obtain t1 p where r: "caml_addrmap_insert_pos lim n t k = Some (Inr (t1, p))"
    "t' = store_value t1 p v"
    using assms(5) by (auto simp: caml_addrmap_insert_def split: option.splits sum.splits)
  from insert_pos_rehash_correct(1) [OF assms(1-4) r(1)]
  obtain i where i: "table_ok t1" "16 * unat (am_size t1) \<le> lim"
    "settable t1 p k i" "am_key t1 (unat p) = k"
    "addrmap_abs t1 = (if addrmap_abs t k = None then (addrmap_abs t)(k \<mapsto> ADDRMAP_NOT_PRESENT) else addrmap_abs t)"
    by (auto simp: insert_post_def)
  show ?thesis using store_value_inv [OF i(1,3,4)] i(2,5) r(2) by auto
qed

lemma caml_addrmap_insert_terminates:
  assumes "lim < 2 ^ 63" "addrmap_inv t" "16 * unat (am_size t) \<le> lim" "k \<noteq> 0"
    "0 < n" "lim < 4096 * 2 ^ n"
  shows "caml_addrmap_insert lim n t k v \<noteq> None"
proof -
  have "lim < 16 * max 256 (unat (am_size t)) * 2 ^ n"
    using assms(6) less_mult_mono [of lim 16 256 "2 ^ n" "max 256 (unat (am_size t))"] by simp
  then show ?thesis
    using insert_pos_rehash_terminates(1) [OF assms(1-5)]
    by (auto simp: caml_addrmap_insert_def split: option.splits sum.splits)
qed

definition addrmap_find :: "addrmap \<Rightarrow> val \<Rightarrow> val option" where
  "addrmap_find t k = (if caml_addrmap_contains t k then caml_addrmap_lookup t k else None)"

definition addrmap_update :: "nat \<Rightarrow> nat \<Rightarrow> addrmap \<Rightarrow> val \<Rightarrow> val \<Rightarrow> addrmap option" where
  "addrmap_update lim n t k v =
     (case caml_addrmap_insert lim n t k v of Some (Inr t') \<Rightarrow> Some t' | _ \<Rightarrow> None)"

text \<open>No request of \<open>PTRDIFF_MAX\<close> bytes or more is granted, whatever memory is left.\<close>

definition malloc_lim :: "nat \<Rightarrow> nat" where
  "malloc_lim lim = min lim (2 ^ 63 - 1)"

lemma malloc_lim_less: "malloc_lim lim < 2 ^ 63"
  by (simp add: malloc_lim_def)

lemma malloc_lim_ge: "4096 \<le> lim \<Longrightarrow> 4096 \<le> malloc_lim lim"
  by (simp add: malloc_lim_def)

definition addrmap_fits :: "nat \<Rightarrow> addrmap \<Rightarrow> bool" where
  "addrmap_fits lim t \<longleftrightarrow> addrmap_inv t \<and> 16 * unat (am_size t) \<le> malloc_lim lim"

interpretation am: dictionary "addrmap_fits lim" addrmap_abs "\<lambda>k. k \<noteq> 0"
  "\<lparr>am_entries = None, am_size = 0\<rparr>" addrmap_find "addrmap_update (malloc_lim lim) n"
  for lim n
proof
  fix s s' :: addrmap and k v :: val
  let ?lim = "malloc_lim lim"
  assume a: "addrmap_fits lim s" "k \<noteq> 0"
  then show "addrmap_find s k = addrmap_abs s k"
    using caml_addrmap_contains_iff [of s k] caml_addrmap_lookup_abs [of s k]
    by (auto simp: addrmap_find_def addrmap_fits_def)
  assume u: "addrmap_update ?lim n s k v = Some s'"
  have "table_ok s' \<and> 16 * unat (am_size s') \<le> ?lim \<and> addrmap_abs s' = (addrmap_abs s)(k \<mapsto> v)"
    using a u malloc_lim_less by (intro caml_addrmap_insert_correct [where n = n])
      (auto simp: addrmap_fits_def addrmap_update_def split: option.splits sum.splits)
  then show "addrmap_fits lim s'" "addrmap_abs s' = (addrmap_abs s)(k \<mapsto> v)"
    by (auto simp: addrmap_fits_def addrmap_inv_def)
qed (auto simp: addrmap_fits_def addrmap_inv_def addrmap_abs_def)

lemma insert_pos_error:
  shows "caml_addrmap_insert_pos lim n t key = Some (Inl e) \<Longrightarrow> e = Out_of_memory"
    and "rehash lim n es u = Some (Inl e) \<Longrightarrow> e = Out_of_memory"
  by (induction lim n t key and lim n es u rule: caml_addrmap_insert_pos_rehash.induct)
    (auto simp: addrmap_alloc_def Let_def split: if_splits option.splits sum.splits prod.splits)

lemma caml_addrmap_insert_small:
  assumes "4096 \<le> lim" "addrmap_inv t" "16 * unat (am_size t) \<le> lim"
    "card (dom (addrmap_abs t)) < MAX_CHAIN"
  shows "\<exists>t'. caml_addrmap_insert lim (Suc n) t k v = Some (Inr t')"
proof -
  obtain t0 where t0: "(if am_entries t = None then addrmap_alloc lim t 256 else Inr t) = Inr t0"
    using assms(1) by (cases "am_entries t = None") (simp_all add: addrmap_alloc_def)
  then obtain r where "insert_chain MAX_CHAIN t0 k (pos_initial t0 k) = Some r"
    using insert_chain_not_full [of t0 k] first_table_ok [OF assms(2,3) t0] assms(4) by auto
  with t0 show ?thesis by (cases r) (simp add: caml_addrmap_insert_def)
qed

lemma updates_small:
  assumes "4096 \<le> lim" "addrmap_fits lim t" "list_all (\<lambda>(k, v). k \<noteq> 0) kvs"
    "card (dom (addrmap_abs t)) + length kvs \<le> MAX_CHAIN" "finite (dom (addrmap_abs t))"
  shows "\<exists>t'. dictionary.updates (addrmap_update (malloc_lim lim) (Suc n)) t kvs = Some t'"
  using assms
proof (induction kvs arbitrary: t)
  case Nil
  then show ?case by (simp add: am.updates.simps)
next
  case (Cons kv kvs)
  obtain k v where kv: "kv = (k, v)" "k \<noteq> 0" using Cons.prems(3) by (cases kv) auto
  obtain t1 where t1: "addrmap_update (malloc_lim lim) (Suc n) t k v = Some t1"
    using caml_addrmap_insert_small [of "malloc_lim lim" t n k v] Cons.prems malloc_lim_ge
    by (auto simp: addrmap_fits_def addrmap_update_def)
  have d: "addrmap_fits lim t1" "addrmap_abs t1 = (addrmap_abs t)(k \<mapsto> v)"
    using am.update_inv [OF Cons.prems(2) kv(2) t1] am.update_mapping_of [OF Cons.prems(2) kv(2) t1] by auto
  have "card (dom (addrmap_abs t1)) \<le> Suc (card (dom (addrmap_abs t)))"
    using d(2) Cons.prems(5) card_insert_le_m1 by (simp add: card_insert_if)
  then have c: "card (dom (addrmap_abs t1)) + length kvs \<le> MAX_CHAIN" using Cons.prems(4) by simp
  have "finite (dom (addrmap_abs t1))" "list_all (\<lambda>(k, v). k \<noteq> 0) kvs" using d(2) Cons.prems(3,5) by auto
  from Cons.IH [OF Cons.prems(1) d(1) this(2) c this(1)] show ?case using kv t1
    by (simp add: am.updates.simps)
qed

subsection \<open>Properties\<close>

text \<open>
  The checks of \<open>CAMLassert\<close> are not compiled into the runtime that is modelled; what they check is a hypothesis of the properties
  (keys are blocks, the key of an insertion is not present) or is proved (the value at the new position is \<open>ADDRMAP_NOT_PRESENT\<close>).
\<close>

lemma block_key_nonnull: "Is_block k \<Longrightarrow> k \<noteq> 0"
  by (auto simp: Is_block_def Is_long_def)

lemma insert_pos_not_present:
  assumes "lim < 2 ^ 63" "addrmap_inv t" "16 * unat (am_size t) \<le> lim" "k \<noteq> 0" "addrmap_abs t k = None"
    "caml_addrmap_insert_pos lim n t k = Some (Inr (t1, p))"
  shows "entry t1 p = (k, ADDRMAP_NOT_PRESENT)"
proof -
  from insert_pos_rehash_correct(1) [OF assms(1-4,6)]
  obtain i where i: "table_ok t1" "settable t1 p k i" "am_key t1 (unat p) = k" "addrmap_abs t1 k = Some ADDRMAP_NOT_PRESENT"
    using assms(5) by (auto simp: insert_post_def)
  have "unat p < unat (am_size t1)" using i(2) probe_less table_okD(1) [OF i(1)] by (metis settable_def)
  from abs_at [OF i(1) this] i(3,4) assms(4) have "am_val t1 (unat p) = ADDRMAP_NOT_PRESENT" by auto
  with i(3) show ?thesis using entry_eq [OF table_okD(3) [OF i(1)], of p] by (simp add: prod_eq_iff)
qed

text \<open>
  C5: with enough memory-bounded recursion depth, \<open>caml_addrmap_insert\<close> of a key that is not present (the
  precondition that \<open>addrmap.h\<close> states) into a well-formed table returns: it either raises \<open>Out_of_memory\<close>, or the position of the new key
  holds \<open>ADDRMAP_NOT_PRESENT\<close> as the assertion of \<open>caml_addrmap_insert\<close> demands, and the result is a well-formed table that binds the key to the
  value and leaves every other binding as it was, rehashing included.
\<close>

theorem addrmap_insert_refines:
  assumes "lim < 2 ^ 63" "addrmap_inv t" "16 * unat (am_size t) \<le> lim" "Is_block k" "addrmap_abs t k = None"
    "0 < n" "lim < 4096 * 2 ^ n"
  shows "case caml_addrmap_insert_pos lim n t k of None \<Rightarrow> False
    | Some (Inl e) \<Rightarrow> e = Out_of_memory \<and> caml_addrmap_insert lim n t k v = Some (Inl e)
    | Some (Inr (t1, p)) \<Rightarrow> entry t1 p = (k, ADDRMAP_NOT_PRESENT) \<and>
        (\<exists>t'. caml_addrmap_insert lim n t k v = Some (Inr t') \<and> addrmap_inv t' \<and> addrmap_abs t' = (addrmap_abs t)(k \<mapsto> v))"
proof -
  note k = block_key_nonnull [OF assms(4)]
  show ?thesis
    using caml_addrmap_insert_terminates [OF assms(1-3) k assms(6,7), of v] insert_pos_error(1) [of lim n t k]
      caml_addrmap_insert_correct [OF assms(1-3) k, of n v] insert_pos_not_present [OF assms(1-3) k assms(5), of n]
    by (auto simp: addrmap_inv_def caml_addrmap_insert_def split: option.splits sum.splits)
qed

theorem addrmap_insert_refines_witness:
  "case caml_addrmap_insert_pos 100000 5 \<lparr>am_entries = None, am_size = 0\<rparr> 8 of None \<Rightarrow> False
    | Some (Inl e) \<Rightarrow> e = Out_of_memory \<and> caml_addrmap_insert 100000 5 \<lparr>am_entries = None, am_size = 0\<rparr> 8 17 = Some (Inl e)
    | Some (Inr (t1, p)) \<Rightarrow> entry t1 p = (8, ADDRMAP_NOT_PRESENT) \<and>
        (\<exists>t'. caml_addrmap_insert 100000 5 \<lparr>am_entries = None, am_size = 0\<rparr> 8 17 = Some (Inr t') \<and> addrmap_inv t' \<and>
          addrmap_abs t' = (addrmap_abs \<lparr>am_entries = None, am_size = 0\<rparr>)(8 \<mapsto> 17))"
  by (rule addrmap_insert_refines) (simp_all add: addrmap_inv_def addrmap_abs_def Is_block_def Is_long_def)

text \<open>
  Starting from an empty table, up to \<open>MAX_CHAIN\<close> insertions of different blocks always
  succeed (one 4096-byte table is enough), and afterwards \<open>caml_addrmap_contains\<close> followed by
  \<open>caml_addrmap_lookup\<close> answers with the value inserted for the key, and with no value for a
  key that was not inserted.
\<close>

theorem addrmap_build_lookup:
  assumes "4096 \<le> lim" "list_all (\<lambda>(k, v). Is_block k) kvs" "distinct (map fst kvs)" "length kvs \<le> MAX_CHAIN" "Is_block key"
  shows "\<exists>t. dictionary.updates (addrmap_update (malloc_lim lim) (Suc n))
        \<lparr>am_entries = None, am_size = 0\<rparr> kvs = Some t \<and>
      caml_addrmap_contains t key = (map_of kvs key \<noteq> None) \<and>
      (case map_of kvs key of None \<Rightarrow> True | Some v \<Rightarrow> caml_addrmap_lookup t key = Some v)"
proof -
  have keys: "list_all (\<lambda>(k, v). k \<noteq> 0) kvs" using assms(2) block_key_nonnull by (auto simp: list_all_iff)
  have "addrmap_abs \<lparr>am_entries = None, am_size = 0\<rparr> = Map.empty" by (rule am.mapping_of_empty)
  then obtain t where t: "dictionary.updates (addrmap_update (malloc_lim lim) (Suc n))
      \<lparr>am_entries = None, am_size = 0\<rparr> kvs = Some t"
    using updates_small [OF assms(1) am.inv_empty keys, of n] assms(4) by auto
  have "map_of (rev kvs) = map_of kvs" using assms(3) by (subst map_of_inject_set) (simp_all add: rev_map [symmetric])
  then have "addrmap_fits lim t" "addrmap_abs t = map_of kvs"
    using am.updates_correct [OF am.inv_empty keys t] am.mapping_of_empty by simp_all
  then show ?thesis
    using t caml_addrmap_contains_iff [of t key] caml_addrmap_lookup_abs [of t key] block_key_nonnull [OF assms(5)]
    by (auto simp: addrmap_fits_def split: option.split)
qed

theorem addrmap_build_lookup_witness:
  "\<exists>t. dictionary.updates (addrmap_update (malloc_lim 4096) (Suc 0))
        \<lparr>am_entries = None, am_size = 0\<rparr> [(8, 1), (16, 2), (24, 3)] = Some t \<and>
      caml_addrmap_contains t 16 = (map_of [(8 :: val, 1 :: val), (16, 2), (24, 3)] 16 \<noteq> None) \<and>
      (case map_of [(8 :: val, 1 :: val), (16, 2), (24, 3)] 16 of None \<Rightarrow> True
       | Some v \<Rightarrow> caml_addrmap_lookup t 16 = Some v)"
  by (rule addrmap_build_lookup) (simp_all add: MAX_CHAIN_def Is_block_def Is_long_def)

text \<open>
  C9: \<open>caml_addrmap_iter\<close> calls its function once for every binding of the table and for
  nothing else, and the loop ends.
\<close>

theorem addrmap_iter_complete:
  assumes "addrmap_inv t"
  shows "distinct (map fst (caml_addrmap_iter t)) \<and> map_of (caml_addrmap_iter t) = addrmap_abs t"
  using caml_addrmap_iter_map [OF assms] .

theorem addrmap_iter_complete_witness:
  "\<exists>t. caml_addrmap_insert 4096 1 \<lparr>am_entries = None, am_size = 0\<rparr> 8 17 = Some (Inr t) \<and>
    distinct (map fst (caml_addrmap_iter t)) \<and> map_of (caml_addrmap_iter t) = [8 \<mapsto> 17]"
proof -
  let ?e = "\<lparr>am_entries = None, am_size = 0\<rparr> :: addrmap"
  have e: "addrmap_inv ?e" "addrmap_abs ?e = Map.empty" by (simp_all add: addrmap_inv_def addrmap_abs_def fun_eq_iff)
  then obtain t where t: "caml_addrmap_insert 4096 1 ?e 8 17 = Some (Inr t)"
    using caml_addrmap_insert_small [of 4096 ?e 0 8 17] by (auto simp: MAX_CHAIN_def)
  from caml_addrmap_insert_correct [OF _ e(1) _ _ t] have "addrmap_inv t" "addrmap_abs t = [8 \<mapsto> 17]"
    using e(2) by (simp_all add: addrmap_inv_def)
  from addrmap_iter_complete [OF this(1)] this(2) t show ?thesis by auto
qed

end
