(* ===== verification/Skiplist.thy ===== *)
theory Skiplist
  imports Dictionary
begin

text \<open>
  \<open>runtime/skiplist.c\<close>: a dictionary as a skip list. The state holds the head
  (\<open>struct skiplist\<close>), the heap of cells it points into (\<open>struct skipcell\<close>, by pointer) and the
  seed of the level generator. A cursor is the address of a \<open>forward\<close> array, the head's or a
  cell's. The loops that follow pointers are partial functions: \<open>None\<close> is a loop that does not end.
  The representation invariant says that level \<open>i\<close> is a null-terminated list of exactly the cells
  with more than \<open>i\<close> forward pointers, all of them in increasing order of keys.
\<close>

type_synonym ptr = nat

record skipcell =
  sc_key :: u64
  sc_data :: u64
  sc_forward :: "ptr option list"

definition NUM_LEVELS :: nat where "NUM_LEVELS = 17"

record skiplist =
  sk_forward :: "ptr option list"
  sk_level :: nat
  sk_cells :: "ptr \<rightharpoonup> skipcell"
  random_seed :: u32

datatype cursor = Head | Cell ptr

definition cell_at :: "skiplist \<Rightarrow> ptr \<Rightarrow> skipcell" where
  "cell_at sk p = the (sk_cells sk p)"

definition fwd :: "skiplist \<Rightarrow> cursor \<Rightarrow> nat \<Rightarrow> ptr option" where
  "fwd sk e i = (case e of Head \<Rightarrow> sk_forward sk ! i | Cell p \<Rightarrow> sc_forward (cell_at sk p) ! i)"

definition set_fwd :: "skiplist \<Rightarrow> cursor \<Rightarrow> nat \<Rightarrow> ptr option \<Rightarrow> skiplist" where
  "set_fwd sk e i q =
     (case e of
        Head \<Rightarrow> sk\<lparr>sk_forward := (sk_forward sk)[i := q]\<rparr>
      | Cell p \<Rightarrow> sk\<lparr>sk_cells := (sk_cells sk)(p \<mapsto>
            (cell_at sk p)\<lparr>sc_forward := (sc_forward (cell_at sk p))[i := q]\<rparr>)\<rparr>)"

subsection \<open>The level generator\<close>

text \<open>One step of the generator's loop multiplies the distance of \<open>r\<close> to \<open>2 ^ 32\<close> by four.\<close>

lemma level_step:
  assumes "(r :: u32) AND 0xC0000000 = 0xC0000000"
  shows "3 * 2 ^ 30 \<le> unat r" "unat (push_bit 2 r) = 4 * unat r - 3 * 2 ^ 32"
proof -
  have "r AND 0xC0000000 \<le> r" by (rule word_and_le2)
  then show le: "3 * 2 ^ 30 \<le> unat r" using assms by (simp add: word_le_nat_alt)
  have "unat (push_bit 2 r) = unat r * 4 mod 2 ^ 32"
    by (simp add: push_bit_eq_mult unat_word_ariths)
  also have "\<dots> = 4 * unat r - 3 * 2 ^ 32"
  proof -
    define a where "a = 4 * unat r - 3 * 2 ^ 32"
    have "unat r * 4 = a + 3 * 2 ^ 32" "a < 2 ^ 32" using le unat32_less [of r] by (simp_all add: a_def)
    then have "unat r * 4 mod 2 ^ 32 = a" by (simp only: mod_mult_self1 mod_less)
    then show ?thesis by (simp only: a_def)
  qed
  finally show "unat (push_bit 2 r) = 4 * unat r - 3 * 2 ^ 32" .
qed

function level_loop :: "u32 \<Rightarrow> nat \<Rightarrow> nat" where
  "level_loop r level =
     (if r AND 0xC0000000 = 0xC0000000 then level_loop (push_bit 2 r) (level + 1) else level)"
  by pat_completeness auto
termination
proof (relation "measure (\<lambda>(r, level). unat r)")
  fix r :: u32 and level :: nat
  assume "r AND 0xC0000000 = 0xC0000000"
  from level_step [OF this] unat32_less [of r]
  show "((push_bit 2 r, level + 1), r, level) \<in> measure (\<lambda>(r, level). unat r)" by simp
qed simp

declare level_loop.simps [simp del]

definition random_level :: "skiplist \<Rightarrow> nat \<times> skiplist" where
  "random_level sk =
     (let r = random_seed sk * 69069 + 25173 in (level_loop r 0, sk\<lparr>random_seed := r\<rparr>))"

subsection \<open>Search\<close>

definition caml_skiplist_init :: "skiplist \<Rightarrow> skiplist" where
  "caml_skiplist_init sk = sk\<lparr>sk_forward := replicate NUM_LEVELS None, sk_level := 0\<rparr>"

text \<open>
  The inner loop of the searches on level \<open>i\<close>: \<open>Inr f\<close> is the early return of
  \<open>caml_skiplist_find_ptr\<close>, \<open>Inl e\<close> the cursor when the loop breaks.
\<close>

partial_function (option) find_level :: "skiplist \<Rightarrow> u64 \<Rightarrow> nat \<Rightarrow> cursor \<Rightarrow> (cursor + ptr) option" where
  "find_level sk key i e =
     (case fwd sk e i of
        None \<Rightarrow> Some (Inl e)
      | Some f \<Rightarrow>
          if key < sc_key (cell_at sk f) then Some (Inl e)
          else if sc_key (cell_at sk f) = key then Some (Inr f)
          else find_level sk key i (Cell f))"

primrec find_levels :: "skiplist \<Rightarrow> u64 \<Rightarrow> nat \<Rightarrow> cursor \<Rightarrow> ptr option option" where
  "find_levels sk key 0 e = Some None"
| "find_levels sk key (Suc i) e =
     (case find_level sk key i e of
        None \<Rightarrow> None
      | Some (Inr f) \<Rightarrow> Some (Some f)
      | Some (Inl e') \<Rightarrow> find_levels sk key i e')"

definition caml_skiplist_find_ptr :: "skiplist \<Rightarrow> u64 \<Rightarrow> ptr option option" where
  "caml_skiplist_find_ptr sk key = find_levels sk key (Suc (sk_level sk)) Head"

definition caml_skiplist_find :: "skiplist \<Rightarrow> u64 \<Rightarrow> u64 option option" where
  "caml_skiplist_find sk key =
     (case caml_skiplist_find_ptr sk key of
        None \<Rightarrow> None
      | Some None \<Rightarrow> Some None
      | Some (Some p) \<Rightarrow> Some (Some (sc_data (cell_at sk p))))"

partial_function (option) below_level ::
  "skiplist \<Rightarrow> u64 \<Rightarrow> nat \<Rightarrow> cursor \<Rightarrow> ptr option \<Rightarrow> (cursor \<times> ptr option) option" where
  "below_level sk k i e lst =
     (case fwd sk e i of
        None \<Rightarrow> Some (e, lst)
      | Some f \<Rightarrow>
          if k < sc_key (cell_at sk f) then Some (e, lst)
          else below_level sk k i (Cell f) (Some f))"

primrec below_levels :: "skiplist \<Rightarrow> u64 \<Rightarrow> nat \<Rightarrow> cursor \<Rightarrow> ptr option \<Rightarrow> ptr option option" where
  "below_levels sk k 0 e lst = Some lst"
| "below_levels sk k (Suc i) e lst =
     (case below_level sk k i e lst of
        None \<Rightarrow> None
      | Some (e', lst') \<Rightarrow> below_levels sk k i e' lst')"

definition caml_skiplist_find_below :: "skiplist \<Rightarrow> u64 \<Rightarrow> (u64 \<times> u64) option option" where
  "caml_skiplist_find_below sk k =
     (case below_levels sk k (Suc (sk_level sk)) Head None of
        None \<Rightarrow> None
      | Some None \<Rightarrow> Some None
      | Some (Some p) \<Rightarrow> Some (Some (sc_key (cell_at sk p), sc_data (cell_at sk p))))"

subsection \<open>Insertion and removal\<close>

text \<open>The search that insertion and removal share, with the \<open>update\<close> array it fills.\<close>

partial_function (option) walk :: "skiplist \<Rightarrow> u64 \<Rightarrow> nat \<Rightarrow> cursor \<Rightarrow> cursor option" where
  "walk sk key i e =
     (case fwd sk e i of
        None \<Rightarrow> Some e
      | Some f \<Rightarrow> if key \<le> sc_key (cell_at sk f) then Some e else walk sk key i (Cell f))"

primrec find_update ::
  "skiplist \<Rightarrow> u64 \<Rightarrow> nat \<Rightarrow> cursor \<Rightarrow> cursor list \<Rightarrow> (cursor \<times> cursor list) option" where
  "find_update sk key 0 e upd = Some (e, upd)"
| "find_update sk key (Suc i) e upd =
     (case walk sk key i e of
        None \<Rightarrow> None
      | Some e' \<Rightarrow> find_update sk key i e' (upd[i := e']))"

definition link_level :: "ptr \<Rightarrow> cursor list \<Rightarrow> nat \<Rightarrow> skiplist \<Rightarrow> skiplist" where
  "link_level f upd i sk =
     (let sk = set_fwd sk (Cell f) i (fwd sk (upd ! i) i) in set_fwd sk (upd ! i) i (Some f))"

text \<open>
  \<open>mem\<close> is the answer of \<open>caml_stat_alloc_noexc\<close>: a pointer to a new cell, or \<open>None\<close> for NULL,
  which is a fatal error.
\<close>

definition insert_cell ::
  "ptr option \<Rightarrow> skiplist \<Rightarrow> u64 \<Rightarrow> u64 \<Rightarrow> cursor list \<Rightarrow> skiplist res" where
  "insert_cell mem sk key data upd =
     (case random_level sk of (new_level, sk) \<Rightarrow>
        let upd = (if sk_level sk < new_level
                   then fold (\<lambda>i u. u[i := Head]) [Suc (sk_level sk)..<Suc new_level] upd else upd);
            sk = (if sk_level sk < new_level then sk\<lparr>sk_level := new_level\<rparr> else sk)
        in case mem of
             None \<Rightarrow> Inl (Fatal_error ''caml_skiplist_insert: out of memory'')
           | Some f \<Rightarrow>
               Inr (fold (link_level f upd) [0..<Suc new_level]
                 (sk\<lparr>sk_cells := (sk_cells sk)(f \<mapsto>
                    \<lparr>sc_key = key, sc_data = data, sc_forward = replicate (Suc new_level) None\<rparr>)\<rparr>)))"

definition caml_skiplist_insert ::
  "ptr option \<Rightarrow> skiplist \<Rightarrow> u64 \<Rightarrow> u64 \<Rightarrow> (bool \<times> skiplist) res option" where
  "caml_skiplist_insert mem sk key data =
     (case find_update sk key (Suc (sk_level sk)) Head (replicate NUM_LEVELS Head) of
        None \<Rightarrow> None
      | Some (e, upd) \<Rightarrow>
          let f = fwd sk e 0 in
          if f \<noteq> None \<and> sc_key (cell_at sk (the f)) = key
          then Some (Inr (True, sk\<lparr>sk_cells := (sk_cells sk)(the f \<mapsto> (cell_at sk (the f))\<lparr>sc_data := data\<rparr>)\<rparr>))
          else case insert_cell mem sk key data upd of
                 Inl err \<Rightarrow> Some (Inl err)
               | Inr sk' \<Rightarrow> Some (Inr (False, sk')))"

definition unlink_level :: "ptr \<Rightarrow> cursor list \<Rightarrow> nat \<Rightarrow> skiplist \<Rightarrow> skiplist" where
  "unlink_level f upd i sk =
     (if fwd sk (upd ! i) i = Some f then set_fwd sk (upd ! i) i (fwd sk (Cell f) i) else sk)"

primrec lower_level :: "ptr option list \<Rightarrow> nat \<Rightarrow> nat" where
  "lower_level forward 0 = 0"
| "lower_level forward (Suc n) = (if forward ! Suc n = None then lower_level forward n else Suc n)"

definition caml_skiplist_remove :: "skiplist \<Rightarrow> u64 \<Rightarrow> (bool \<times> skiplist) option" where
  "caml_skiplist_remove sk key =
     (case find_update sk key (Suc (sk_level sk)) Head (replicate NUM_LEVELS Head) of
        None \<Rightarrow> None
      | Some (e, upd) \<Rightarrow>
          let f = fwd sk e 0 in
          if f = None \<or> sc_key (cell_at sk (the f)) \<noteq> key then Some (False, sk)
          else let sk = fold (unlink_level (the f) upd) [0..<Suc (sk_level sk)] sk;
                   sk = sk\<lparr>sk_cells := (sk_cells sk)(the f := None)\<rparr>
               in Some (True, sk\<lparr>sk_level := lower_level (sk_forward sk) (sk_level sk)\<rparr>))"

partial_function (option) free_cells ::
  "(ptr \<rightharpoonup> skipcell) \<Rightarrow> ptr option \<Rightarrow> (ptr \<rightharpoonup> skipcell) option" where
  "free_cells cells e =
     (case e of
        None \<Rightarrow> Some cells
      | Some p \<Rightarrow> free_cells (cells(p := None)) (sc_forward (the (cells p)) ! 0))"

definition caml_skiplist_empty :: "skiplist \<Rightarrow> skiplist option" where
  "caml_skiplist_empty sk =
     (case free_cells (sk_cells sk) (sk_forward sk ! 0) of
        None \<Rightarrow> None
      | Some cells \<Rightarrow>
          Some (sk\<lparr>sk_cells := cells,
                   sk_forward := fold (\<lambda>i l. l[i := None]) [0..<Suc (sk_level sk)] (sk_forward sk),
                   sk_level := 0\<rparr>))"

text \<open>The elements that \<open>FOREACH_SKIPLIST_ELEMENT\<close> hands to its action, in order.\<close>

partial_function (option) foreach_from :: "skiplist \<Rightarrow> ptr option \<Rightarrow> (u64 \<times> u64) list option" where
  "foreach_from sk var =
     (case var of
        None \<Rightarrow> Some []
      | Some p \<Rightarrow>
          Option.bind (foreach_from sk (fwd sk (Cell p) 0))
            (\<lambda>l. Some ((sc_key (cell_at sk p), sc_data (cell_at sk p)) # l)))"

definition FOREACH_SKIPLIST_ELEMENT :: "skiplist \<Rightarrow> (u64 \<times> u64) list option" where
  "FOREACH_SKIPLIST_ELEMENT sk = foreach_from sk (fwd sk Head 0)"

subsection \<open>The invariant\<close>

abbreviation key_at :: "skiplist \<Rightarrow> ptr \<Rightarrow> u64" where
  "key_at sk p \<equiv> sc_key (cell_at sk p)"

abbreviation data_at :: "skiplist \<Rightarrow> ptr \<Rightarrow> u64" where
  "data_at sk p \<equiv> sc_data (cell_at sk p)"

abbreviation height :: "skiplist \<Rightarrow> ptr \<Rightarrow> nat" where
  "height sk p \<equiv> length (sc_forward (cell_at sk p))"

text \<open>\<open>chain nx e ps\<close>: following the pointers \<open>nx\<close> from \<open>e\<close> visits \<open>ps\<close> and then meets NULL.\<close>

primrec chain :: "(cursor \<Rightarrow> ptr option) \<Rightarrow> cursor \<Rightarrow> ptr list \<Rightarrow> bool" where
  "chain nx e [] \<longleftrightarrow> nx e = None"
| "chain nx e (p # ps) \<longleftrightarrow> nx e = Some p \<and> chain nx (Cell p) ps"

abbreviation linked :: "skiplist \<Rightarrow> nat \<Rightarrow> cursor \<Rightarrow> ptr list \<Rightarrow> bool" where
  "linked sk i \<equiv> chain (\<lambda>e. fwd sk e i)"

definition level_list :: "skiplist \<Rightarrow> nat \<Rightarrow> ptr list \<Rightarrow> ptr list" where
  "level_list sk i ps = filter (\<lambda>p. i < height sk p) ps"

definition skip_rep :: "skiplist \<Rightarrow> ptr list \<Rightarrow> bool" where
  "skip_rep sk ps \<longleftrightarrow>
     length (sk_forward sk) = NUM_LEVELS \<and> sk_level sk < NUM_LEVELS \<and> dom (sk_cells sk) = set ps \<and>
     sorted_wrt (\<lambda>p q. key_at sk p < key_at sk q) ps \<and>
     (\<forall>p\<in>set ps. 0 < height sk p \<and> height sk p \<le> Suc (sk_level sk)) \<and>
     (\<forall>i<NUM_LEVELS. linked sk i Head (level_list sk i ps))"

definition skip_inv :: "skiplist \<Rightarrow> bool" where
  "skip_inv sk \<longleftrightarrow> (\<exists>ps. skip_rep sk ps)"

definition skip_abs :: "skiplist \<Rightarrow> u64 \<Rightarrow> u64 option" where
  "skip_abs sk k =
     (if \<exists>c\<in>ran (sk_cells sk). sc_key c = k
      then Some (sc_data (THE c. c \<in> ran (sk_cells sk) \<and> sc_key c = k)) else None)"

subsection \<open>Levels\<close>

subsection \<open>Levels\<close>

lemma level_loop_bound:
  assumes "2 ^ 32 \<le> 4 ^ n * (2 ^ 32 - unat r)"
  shows "level_loop r level \<le> level + n"
  using assms
proof (induction r level arbitrary: n rule: level_loop.induct)
  case (1 r level)
  show ?case
  proof (cases "r AND 0xC0000000 = 0xC0000000")
    case True
    note s = level_step [OF True]
    then obtain m where n: "n = Suc m" using 1(2) by (cases n) auto
    have "2 ^ 32 - unat (push_bit 2 r) = 4 * (2 ^ 32 - unat r)" using s unat32_less [of r] by simp
    then have "2 ^ 32 \<le> 4 ^ m * (2 ^ 32 - unat (push_bit 2 r))" using 1(2) n by (simp add: ac_simps)
    from 1(1) [OF True this] True n show ?thesis by (subst level_loop.simps) simp
  qed (simp add: level_loop.simps)
qed

lemma random_level_bound: "fst (random_level sk) < NUM_LEVELS"
proof -
  have "level_loop r 0 \<le> 0 + 16" for r
    by (rule level_loop_bound) (use unat32_less [of r] in simp)
  then show ?thesis unfolding random_level_def Let_def NUM_LEVELS_def fst_conv by (rule le_less_trans) simp
qed

subsection \<open>Following pointers\<close>

primrec last_cursor :: "cursor \<Rightarrow> ptr list \<Rightarrow> cursor" where
  "last_cursor e [] = e"
| "last_cursor e (p # ps) = last_cursor (Cell p) ps"

lemma last_cursor_append [simp]: "last_cursor e (A @ B) = last_cursor (last_cursor e A) B"
  by (induction A arbitrary: e) auto

lemma last_cursor_cases: "last_cursor e A = (if A = [] then e else Cell (last A))"
  by (induction A arbitrary: e) auto

lemma linked_append: "linked sk i e (A @ B) \<Longrightarrow> linked sk i (last_cursor e A) B"
  by (induction A arbitrary: e) auto

lemma linked_fwd: "linked sk i e L \<Longrightarrow> fwd sk e i = (case L of [] \<Rightarrow> None | p # _ \<Rightarrow> Some p)"
  by (cases L) auto

lemma walk_linked:
  "linked sk i e L \<Longrightarrow>
    walk sk key i e = Some (last_cursor e (takeWhile (\<lambda>p. key_at sk p < key) L))"
  by (induction L arbitrary: e) (auto simp: walk.simps [of sk key i])

lemma below_level_linked:
  "linked sk i e L \<Longrightarrow> below_level sk k i e lst =
     (let A = takeWhile (\<lambda>p. key_at sk p \<le> k) L
      in Some (last_cursor e A, if A = [] then lst else Some (last A)))"
  by (induction L arbitrary: e lst) (auto simp: below_level.simps [of sk k i] Let_def)

lemma find_level_linked:
  "linked sk i e L \<Longrightarrow> find_level sk key i e =
     (let A = takeWhile (\<lambda>p. key_at sk p < key) L
      in case dropWhile (\<lambda>p. key_at sk p < key) L of
           [] \<Rightarrow> Some (Inl (last_cursor e A))
         | f # _ \<Rightarrow> if key_at sk f = key then Some (Inr f) else Some (Inl (last_cursor e A)))"
proof (induction L arbitrary: e)
  case (Cons p L)
  then show ?case
    by (cases "key_at sk p < key"; cases "dropWhile (\<lambda>p. key_at sk p < key) L")
      (auto simp: find_level.simps [of sk key i e] Let_def simp del: dropWhile_eq_Nil_conv)
qed (simp add: find_level.simps [of sk key i])

text \<open>
  The cursor reached on one level is also on the level below, where everything it has passed
  satisfies the search predicate: the walk there goes on from it.
\<close>

definition passed :: "ptr list \<Rightarrow> (ptr \<Rightarrow> bool) \<Rightarrow> cursor \<Rightarrow> bool" where
  "passed L P e \<longleftrightarrow> (\<exists>A B. L = A @ B \<and> e = last_cursor Head A \<and> (\<forall>a\<in>set A. P a))"

lemma passed_Head: "passed L P Head"
  unfolding passed_def by (rule exI [of _ "[]"]) simp

lemma passed_filter:
  assumes s: "sorted_wrt (\<lambda>p q. P q \<longrightarrow> P p) L" and sub: "\<And>p. Q p \<Longrightarrow> R p"
  shows "passed (filter R L) P (last_cursor Head (takeWhile P (filter Q L)))"
proof (cases "takeWhile P (filter Q L) = []")
  case True
  then show ?thesis by (simp add: passed_Head)
next
  case False
  let ?p = "last (takeWhile P (filter Q L))"
  have p: "?p \<in> set L" "Q ?p" "P ?p" using last_in_set [OF False] by (auto dest!: set_takeWhileD)
  then obtain A B where L: "L = A @ ?p # B" by (meson split_list)
  have "P a" if "a \<in> set A" for a using s p(3) that by (subst (asm) L) (auto simp: sorted_wrt_append)
  then show ?thesis unfolding passed_def using p(2,3) sub False
    by (intro exI [of _ "filter R (A @ [?p])"] exI [of _ "filter R B"])
      (subst L, auto simp: last_cursor_cases)
qed

lemma passed_linked:
  assumes "passed L P e" "linked sk i Head L"
  obtains B where "linked sk i e B" "last_cursor e (takeWhile P B) = last_cursor Head (takeWhile P L)"
    "dropWhile P B = dropWhile P L" "takeWhile P B = [] \<Longrightarrow> last_cursor Head (takeWhile P L) = e"
proof -
  obtain A B where AB: "L = A @ B" "e = last_cursor Head A" "\<forall>a\<in>set A. P a"
    using assms(1) by (auto simp: passed_def)
  show ?thesis
  proof (rule that)
    show "linked sk i e B" using assms(2) AB linked_append by metis
  qed (use AB in auto)
qed

subsection \<open>The searches\<close>

lemma skip_repD:
  assumes "skip_rep sk ps"
  shows "length (sk_forward sk) = NUM_LEVELS" "sk_level sk < NUM_LEVELS" "dom (sk_cells sk) = set ps"
    "sorted_wrt (\<lambda>p q. key_at sk p < key_at sk q) ps"
    "\<And>p. p \<in> set ps \<Longrightarrow> 0 < height sk p" "\<And>p. p \<in> set ps \<Longrightarrow> height sk p \<le> Suc (sk_level sk)"
    "\<And>i. i < NUM_LEVELS \<Longrightarrow> linked sk i Head (level_list sk i ps)"
  using assms by (auto simp: skip_rep_def)

lemma skip_rep_level_0: "skip_rep sk ps \<Longrightarrow> level_list sk 0 ps = ps"
  unfolding level_list_def using skip_repD(5) [of sk ps] by (simp add: filter_id_conv)

lemma skip_rep_downward:
  assumes "skip_rep sk ps"
  shows "sorted_wrt (\<lambda>p q. key_at sk q < k \<longrightarrow> key_at sk p < k) ps"
    "sorted_wrt (\<lambda>p q. key_at sk q \<le> k \<longrightarrow> key_at sk p \<le> k) ps"
  using skip_repD(4) [OF assms] by (auto elim!: sorted_wrt_mono_rel [rotated])

lemma level_down:
  assumes "sorted_wrt (\<lambda>p q. P q \<longrightarrow> P p) ps"
  shows "passed (level_list sk i ps) P (last_cursor Head (takeWhile P (level_list sk (Suc i) ps)))"
  unfolding level_list_def by (rule passed_filter [OF assms]) simp

lemma walk_passed:
  assumes "passed L (\<lambda>p. key_at sk p < key) e" "linked sk i Head L"
  shows "walk sk key i e = Some (last_cursor Head (takeWhile (\<lambda>p. key_at sk p < key) L))"
  using passed_linked [OF assms] walk_linked by metis

lemma find_level_passed:
  assumes "passed L (\<lambda>p. key_at sk p < key) e" "linked sk i Head L"
  shows "find_level sk key i e =
     (let A = takeWhile (\<lambda>p. key_at sk p < key) L
      in case dropWhile (\<lambda>p. key_at sk p < key) L of
           [] \<Rightarrow> Some (Inl (last_cursor Head A))
         | f # _ \<Rightarrow> if key_at sk f = key then Some (Inr f) else Some (Inl (last_cursor Head A)))"
proof -
  obtain B where "linked sk i e B"
    "last_cursor e (takeWhile (\<lambda>p. key_at sk p < key) B) = last_cursor Head (takeWhile (\<lambda>p. key_at sk p < key) L)"
    "dropWhile (\<lambda>p. key_at sk p < key) B = dropWhile (\<lambda>p. key_at sk p < key) L"
    using passed_linked [OF assms] .
  then show ?thesis by (simp only: find_level_linked Let_def)
qed

abbreviation cursor_of :: "ptr option \<Rightarrow> cursor" where
  "cursor_of lst \<equiv> (case lst of None \<Rightarrow> Head | Some p \<Rightarrow> Cell p)"

lemma cursor_of_inject: "cursor_of a = cursor_of b \<longleftrightarrow> a = b"
  by (cases a; cases b) auto

lemma below_level_passed:
  assumes "passed L (\<lambda>p. key_at sk p \<le> k) (cursor_of lst)" "linked sk i Head L"
  shows "\<exists>lst'. below_level sk k i (cursor_of lst) lst = Some (cursor_of lst', lst') \<and>
    cursor_of lst' = last_cursor Head (takeWhile (\<lambda>p. key_at sk p \<le> k) L)"
proof -
  obtain B where B: "linked sk i (cursor_of lst) B"
    "last_cursor (cursor_of lst) (takeWhile (\<lambda>p. key_at sk p \<le> k) B) =
       last_cursor Head (takeWhile (\<lambda>p. key_at sk p \<le> k) L)"
    using passed_linked [OF assms] .
  show ?thesis unfolding below_level_linked [OF B(1)] B(2) [symmetric]
    by (auto simp: Let_def last_cursor_cases)
qed

lemma find_update_rep:
  assumes rep: "skip_rep sk ps"
  shows "i < NUM_LEVELS \<Longrightarrow> passed (level_list sk i ps) (\<lambda>p. key_at sk p < key) e \<Longrightarrow>
    \<exists>upd'. find_update sk key (Suc i) e upd =
        Some (last_cursor Head (takeWhile (\<lambda>p. key_at sk p < key) (level_list sk 0 ps)), upd') \<and>
      length upd' = length upd \<and>
      (\<forall>j<length upd. upd' ! j =
        (if j \<le> i then last_cursor Head (takeWhile (\<lambda>p. key_at sk p < key) (level_list sk j ps)) else upd ! j))"
proof (induction i arbitrary: e upd)
  case 0
  with walk_passed [OF 0(2) skip_repD(7) [OF rep 0(1)]] show ?case by (auto simp: nth_list_update)
next
  case (Suc i)
  let ?P = "\<lambda>p. key_at sk p < key" and ?e = "last_cursor Head (takeWhile (\<lambda>p. key_at sk p < key) (level_list sk (Suc i) ps))"
  have w: "walk sk key (Suc i) e = Some ?e"
    using walk_passed [OF Suc.prems(2) skip_repD(7) [OF rep Suc.prems(1)]] .
  from Suc.IH [OF _ level_down [OF skip_rep_downward(1) [OF rep]], where upd = "upd[Suc i := ?e]"]
  obtain upd' where u: "find_update sk key (Suc i) ?e (upd[Suc i := ?e]) =
      Some (last_cursor Head (takeWhile ?P (level_list sk 0 ps)), upd')" "length upd' = length upd"
    "\<forall>j<length upd. upd' ! j = (if j \<le> i then last_cursor Head (takeWhile ?P (level_list sk j ps)) else upd[Suc i := ?e] ! j)"
    using Suc.prems(1) by auto
  have "find_update sk key (Suc (Suc i)) e upd = find_update sk key (Suc i) ?e (upd[Suc i := ?e])"
    using w by (subst find_update.simps) simp
  then show ?case using u by (intro exI [of _ upd']) (auto simp: nth_list_update le_Suc_eq)
qed

lemma dropWhile_smaller:
  assumes "sorted_wrt (\<lambda>p q. key_at sk p < key_at sk q) L"
  shows "(\<exists>p\<in>set L. key_at sk p = key) \<longleftrightarrow>
    (case dropWhile (\<lambda>p. key_at sk p < key) L of [] \<Rightarrow> False | f # _ \<Rightarrow> key_at sk f = key)"
  using assms by (induction L) auto

lemma find_levels_rep:
  assumes rep: "skip_rep sk ps"
  shows "i < NUM_LEVELS \<Longrightarrow> passed (level_list sk i ps) (\<lambda>p. key_at sk p < key) e \<Longrightarrow>
    (\<exists>p\<in>set ps. key_at sk p = key \<and> find_levels sk key (Suc i) e = Some (Some p)) \<or>
    (\<forall>p\<in>set ps. key_at sk p \<noteq> key) \<and> find_levels sk key (Suc i) e = Some None"
proof (induction i arbitrary: e)
  case 0
  note f = find_level_passed [OF 0(2) skip_repD(7) [OF rep 0(1)]]
  have "p \<in> set ps" if "dropWhile (\<lambda>p. key_at sk p < key) ps = p # B" for p B
    using that by (metis list.set_intros(1) set_dropWhileD)
  then show ?case using f dropWhile_smaller [OF skip_repD(4) [OF rep], of key]
    by (auto simp: skip_rep_level_0 [OF rep] Let_def simp del: dropWhile_eq_Nil_conv split: list.splits)
next
  case (Suc i)
  let ?P = "\<lambda>p. key_at sk p < key" and ?L = "level_list sk (Suc i) ps"
  note f = find_level_passed [OF Suc.prems(2) skip_repD(7) [OF rep Suc.prems(1)]]
  note ih = Suc.IH [OF _ level_down [OF skip_rep_downward(1) [OF rep]]]
  show ?case
  proof (cases "find_level sk key (Suc i) e = Some (Inl (last_cursor Head (takeWhile ?P ?L)))")
    case True
    then show ?thesis using ih Suc.prems(1) by (subst (1 2) find_levels.simps) simp
  next
    case False
    then obtain p B where p: "dropWhile ?P ?L = p # B" "key_at sk p = key" "find_level sk key (Suc i) e = Some (Inr p)"
      using f by (auto simp: Let_def split: list.splits if_splits)
    then have "p \<in> set ?L" by (metis list.set_intros(1) set_dropWhileD)
    then have "p \<in> set ps" by (simp add: level_list_def)
    then show ?thesis using p(2,3) by auto
  qed
qed

lemma below_levels_rep:
  assumes rep: "skip_rep sk ps"
  shows "i < NUM_LEVELS \<Longrightarrow> passed (level_list sk i ps) (\<lambda>p. key_at sk p \<le> k) (cursor_of lst) \<Longrightarrow>
    \<exists>lst'. below_levels sk k (Suc i) (cursor_of lst) lst = Some lst' \<and>
      cursor_of lst' = last_cursor Head (takeWhile (\<lambda>p. key_at sk p \<le> k) ps)"
proof (induction i arbitrary: lst)
  case 0
  with below_level_passed [OF 0(2) skip_repD(7) [OF rep 0(1)]] show ?case
    by (auto simp: skip_rep_level_0 [OF rep])
next
  case (Suc i)
  obtain l where l: "below_level sk k (Suc i) (cursor_of lst) lst = Some (cursor_of l, l)"
    "cursor_of l = last_cursor Head (takeWhile (\<lambda>p. key_at sk p \<le> k) (level_list sk (Suc i) ps))"
    using below_level_passed [OF Suc.prems(2) skip_repD(7) [OF rep Suc.prems(1)]] by auto
  from level_down [OF skip_rep_downward(2) [OF rep, of k], of sk i] Suc.IH [of l] Suc.prems(1) l
  show ?case by (subst below_levels.simps) simp
qed

subsection \<open>Writing pointers\<close>

lemma chain_cong:
  "(\<And>c. c \<in> insert e (Cell ` set L) \<Longrightarrow> nx c = nx' c) \<Longrightarrow> chain nx e L \<longleftrightarrow> chain nx' e L"
  by (induction L arbitrary: e) auto

lemma last_cursor_in: "last_cursor e A \<in> insert e (Cell ` set A)"
  by (simp add: last_cursor_cases)

lemma chain_insert:
  assumes "chain nx e (A @ B)" "distinct (A @ B)" "e \<notin> Cell ` set (A @ B)" "f \<notin> set (A @ B)" "e \<noteq> Cell f"
  shows "chain (nx(Cell f := nx (last_cursor e A), last_cursor e A := Some f)) e (A @ f # B)"
  using assms
proof (induction A arbitrary: e)
  case Nil
  let ?nx = "nx(Cell f := nx e, e := Some f)"
  have "chain ?nx (Cell f) B"
  proof (cases B)
    case (Cons b B')
    have "chain ?nx (Cell b) B' \<longleftrightarrow> chain nx (Cell b) B'"
      by (rule chain_cong) (use Nil Cons in auto)
    with Nil Cons show ?thesis by auto
  qed (use Nil in auto)
  then show ?case by (simp add: fun_upd_def)
next
  case (Cons a A)
  have "last_cursor (Cell a) A \<noteq> e" using last_cursor_in [of "Cell a" A] Cons.prems(3) by auto
  with Cons show ?case by auto
qed

lemma chain_remove:
  assumes "chain nx e (A @ f # B)" "distinct (A @ f # B)" "e \<notin> Cell ` set (A @ f # B)"
  shows "chain (nx(last_cursor e A := nx (Cell f))) e (A @ B)"
  using assms
proof (induction A arbitrary: e)
  case Nil
  show ?case
  proof (cases B)
    case (Cons b B')
    have "chain (nx(e := nx (Cell f))) (Cell b) B' \<longleftrightarrow> chain nx (Cell b) B'"
      by (rule chain_cong) (use Nil Cons in auto)
    with Nil Cons show ?thesis by (auto simp: fun_upd_def)
  qed (use Nil in auto)
next
  case (Cons a A)
  have "last_cursor (Cell a) A \<noteq> e" using last_cursor_in [of "Cell a" A] Cons.prems(3) by auto
  with Cons show ?case by auto
qed

definition cursor_ok :: "skiplist \<Rightarrow> nat \<Rightarrow> cursor \<Rightarrow> bool" where
  "cursor_ok sk i e \<longleftrightarrow>
     (case e of Head \<Rightarrow> i < length (sk_forward sk) | Cell p \<Rightarrow> p \<in> dom (sk_cells sk) \<and> i < height sk p)"

text \<open>Pointer writes change neither the cells' keys, data and heights nor the size of the head.\<close>

definition same_shape :: "skiplist \<Rightarrow> skiplist \<Rightarrow> bool" where
  "same_shape sk sk' \<longleftrightarrow> dom (sk_cells sk') = dom (sk_cells sk) \<and> sk_level sk' = sk_level sk \<and>
     length (sk_forward sk') = length (sk_forward sk) \<and>
     (\<forall>p. key_at sk' p = key_at sk p \<and> data_at sk' p = data_at sk p \<and> height sk' p = height sk p)"

lemma same_shape_refl: "same_shape sk sk"
  by (simp add: same_shape_def)

lemma same_shape_trans: "same_shape a b \<Longrightarrow> same_shape b c \<Longrightarrow> same_shape a c"
  by (simp add: same_shape_def)

lemma same_shape_cursor_ok: "same_shape sk sk' \<Longrightarrow> cursor_ok sk' i e \<longleftrightarrow> cursor_ok sk i e"
  by (auto simp: same_shape_def cursor_ok_def split: cursor.splits)

lemma set_fwd_fwd:
  "cursor_ok sk i e \<Longrightarrow> fwd (set_fwd sk e i q) e' j = (if e' = e \<and> j = i then q else fwd sk e' j)"
  by (auto simp: set_fwd_def fwd_def cursor_ok_def cell_at_def split: cursor.splits)

lemma set_fwd_shape: "cursor_ok sk i e \<Longrightarrow> same_shape sk (set_fwd sk e i q)"
  by (auto simp: set_fwd_def same_shape_def cursor_ok_def cell_at_def split: cursor.splits)

lemma link_levels:
  assumes "\<And>i. i < n \<Longrightarrow> cursor_ok sk i (upd ! i)" "\<And>i. i < n \<Longrightarrow> cursor_ok sk i (Cell f)"
    "\<And>i. i < n \<Longrightarrow> upd ! i \<noteq> Cell f"
  shows "same_shape sk (fold (link_level f upd) [0..<n] sk) \<and>
    (\<forall>i e. fwd (fold (link_level f upd) [0..<n] sk) e i =
       (if i < n then ((\<lambda>e. fwd sk e i)(Cell f := fwd sk (upd ! i) i, upd ! i := Some f)) e else fwd sk e i))"
  using assms
proof (induction n)
  case 0
  then show ?case by (simp add: same_shape_refl)
next
  case (Suc n)
  let ?s = "fold (link_level f upd) [0..<n] sk"
  let ?s1 = "set_fwd ?s (Cell f) n (fwd ?s (upd ! n) n)"
  have ih: "same_shape sk ?s" "\<And>i e. fwd ?s e i =
       (if i < n then ((\<lambda>e. fwd sk e i)(Cell f := fwd sk (upd ! i) i, upd ! i := Some f)) e else fwd sk e i)"
    using Suc by auto
  have ok: "cursor_ok ?s n (Cell f)" using Suc.prems(2) ih(1) by (simp add: same_shape_cursor_ok)
  note s1 = set_fwd_shape [OF ok, of "fwd ?s (upd ! n) n"]
  have ok1: "cursor_ok ?s1 n (upd ! n)"
    using Suc.prems(1) same_shape_cursor_ok [OF same_shape_trans [OF ih(1) s1]] by simp
  have e: "fold (link_level f upd) [0..<Suc n] sk = set_fwd ?s1 (upd ! n) n (Some f)"
    by (simp add: link_level_def Let_def)
  have "same_shape sk (set_fwd ?s1 (upd ! n) n (Some f))"
    using ih(1) s1 set_fwd_shape [OF ok1] same_shape_trans by blast
  then show ?case using Suc.prems(3) [of n] unfolding e set_fwd_fwd [OF ok1] set_fwd_fwd [OF ok]
    by (auto simp: ih(2) less_Suc_eq)
qed

lemma unlink_levels:
  assumes "\<And>i. i < n \<Longrightarrow> cursor_ok sk i (upd ! i)"
  shows "same_shape sk (fold (unlink_level f upd) [0..<n] sk) \<and>
    (\<forall>i e. fwd (fold (unlink_level f upd) [0..<n] sk) e i =
       (if i < n \<and> fwd sk (upd ! i) i = Some f
        then ((\<lambda>e. fwd sk e i)(upd ! i := fwd sk (Cell f) i)) e else fwd sk e i))"
  using assms
proof (induction n)
  case 0
  then show ?case by (simp add: same_shape_refl)
next
  case (Suc n)
  let ?s = "fold (unlink_level f upd) [0..<n] sk"
  have ih: "same_shape sk ?s" "\<And>i e. fwd ?s e i =
       (if i < n \<and> fwd sk (upd ! i) i = Some f
        then ((\<lambda>e. fwd sk e i)(upd ! i := fwd sk (Cell f) i)) e else fwd sk e i)"
    using Suc by auto
  have ok: "cursor_ok ?s n (upd ! n)" using Suc.prems ih(1) by (simp add: same_shape_cursor_ok)
  have e: "fold (unlink_level f upd) [0..<Suc n] sk = unlink_level f upd n ?s" by simp
  show ?case
  proof (cases "fwd ?s (upd ! n) n = Some f")
    case True
    then have u: "unlink_level f upd n ?s = set_fwd ?s (upd ! n) n (fwd ?s (Cell f) n)"
      by (simp add: unlink_level_def)
    then show ?thesis using True ih same_shape_trans [OF ih(1) set_fwd_shape [OF ok]]
      unfolding e u set_fwd_fwd [OF ok] by (auto simp: less_Suc_eq)
  next
    case False
    then show ?thesis using ih unfolding e by (auto simp: unlink_level_def less_Suc_eq)
  qed
qed

subsection \<open>Insertion keeps the representation\<close>

lemma sorted_wrt_distinct: "sorted_wrt (\<lambda>p q. f p < (f q :: u64)) L \<Longrightarrow> distinct L"
  by (induction L) auto

lemma sorted_wrt_inj: "sorted_wrt (\<lambda>p q. f p < (f q :: u64)) L \<Longrightarrow> inj_on f (set L)"
  by (induction L) auto

lemma skip_rep_distinct: "skip_rep sk ps \<Longrightarrow> distinct ps"
  using skip_repD(4) sorted_wrt_distinct by metis

lemma takeWhile_filter_sorted:
  "sorted_wrt (\<lambda>p q. P q \<longrightarrow> P p) L \<Longrightarrow> takeWhile P (filter Q L) = filter Q (takeWhile P L)"
proof (induction L)
  case (Cons a L)
  have "takeWhile P (filter Q L) = []" if "\<not> P a"
  proof -
    have "x \<in> set (takeWhile P (filter Q L)) \<Longrightarrow> False" for x
      using that Cons.prems by (auto dest!: set_takeWhileD)
    then show ?thesis by (cases "takeWhile P (filter Q L)") auto
  qed
  then show ?case using Cons by auto
qed simp

lemma dropWhile_sorted_ge:
  "sorted_wrt (\<lambda>p q. f p < (f q :: u64)) L \<Longrightarrow> q \<in> set (dropWhile (\<lambda>p. f p < k) L) \<Longrightarrow> k \<le> f q"
  by (induction L) (auto split: if_splits intro: order.strict_implies_order order.strict_trans1)

lemma level_list_append: "level_list sk i (A @ B) = level_list sk i A @ level_list sk i B"
  by (simp add: level_list_def)

lemma level_list_Cons:
  "level_list sk i (p # A) = (if i < height sk p then [p] else []) @ level_list sk i A"
  by (simp add: level_list_def)

lemma level_list_split:
  assumes "skip_rep sk ps" "xs = takeWhile (\<lambda>p. key_at sk p < key) ps" "ys = dropWhile (\<lambda>p. key_at sk p < key) ps"
  shows "level_list sk i ps = level_list sk i xs @ level_list sk i ys"
    "takeWhile (\<lambda>p. key_at sk p < key) (level_list sk i ps) = level_list sk i xs"
  unfolding level_list_def assms(2,3) takeWhile_filter_sorted [OF skip_rep_downward(1) [OF assms(1)]]
  by (simp_all flip: filter_append)

lemma last_cursor_level_ok:
  assumes "skip_rep sk ps" "set A \<subseteq> set ps" "i < NUM_LEVELS"
  shows "cursor_ok sk i (last_cursor Head (level_list sk i A))"
proof (cases "level_list sk i A = []")
  case True
  then show ?thesis using skip_repD(1) [OF assms(1)] assms(3) by (simp add: cursor_ok_def)
next
  case False
  then have "last (level_list sk i A) \<in> set (level_list sk i A)" by simp
  then have "last (level_list sk i A) \<in> set ps" "i < height sk (last (level_list sk i A))"
    using assms(2) by (auto simp: level_list_def)
  then show ?thesis using False skip_repD(3) [OF assms(1)] by (auto simp: last_cursor_cases cursor_ok_def)
qed

text \<open>The state once the new cell is allocated and the head raised, before any pointer is written.\<close>

definition with_cell :: "skiplist \<Rightarrow> ptr \<Rightarrow> u64 \<Rightarrow> u64 \<Rightarrow> nat \<Rightarrow> u32 \<Rightarrow> skiplist" where
  "with_cell sk f key data nl seed =
     sk\<lparr>random_seed := seed, sk_level := max (sk_level sk) nl,
        sk_cells := (sk_cells sk)(f \<mapsto> \<lparr>sc_key = key, sc_data = data, sc_forward = replicate (Suc nl) None\<rparr>)\<rparr>"

lemma with_cell_simps:
  "key_at (with_cell sk f key data nl seed) p = (if p = f then key else key_at sk p)"
  "data_at (with_cell sk f key data nl seed) p = (if p = f then data else data_at sk p)"
  "height (with_cell sk f key data nl seed) p = (if p = f then Suc nl else height sk p)"
  "e \<noteq> Cell f \<Longrightarrow> fwd (with_cell sk f key data nl seed) e i = fwd sk e i"
  "dom (sk_cells (with_cell sk f key data nl seed)) = insert f (dom (sk_cells sk))"
  "sk_level (with_cell sk f key data nl seed) = max (sk_level sk) nl"
  "length (sk_forward (with_cell sk f key data nl seed)) = length (sk_forward sk)"
  by (auto simp: with_cell_def cell_at_def fwd_def split: cursor.splits)

lemma insert_rep:
  fixes f key data nl seed
  assumes rep: "skip_rep sk ps" and f: "f \<notin> set ps" and nl: "nl < NUM_LEVELS"
    and key: "\<forall>p\<in>set ps. key_at sk p \<noteq> key"
    and xs: "xs = takeWhile (\<lambda>p. key_at sk p < key) ps" and ys: "ys = dropWhile (\<lambda>p. key_at sk p < key) ps"
    and upd: "\<And>i. i \<le> nl \<Longrightarrow> upd ! i = last_cursor Head (level_list sk i xs)"
    and s: "s = fold (link_level f upd) [0..<Suc nl] (with_cell sk f key data nl seed)"
  shows "skip_rep s (xs @ f # ys) \<and> (\<forall>p. key_at s p = (if p = f then key else key_at sk p) \<and>
    data_at s p = (if p = f then data else data_at sk p))"
proof -
  let ?w = "with_cell sk f key data nl seed"
  note d = skip_repD [OF rep] and w = with_cell_simps [where sk = sk and f = f and key = key and data = data and nl = nl and seed = seed]
  have ps: "ps = xs @ ys" using xs ys by simp
  have ne: "last_cursor Head (level_list sk i xs) \<noteq> Cell f" for i
    using f last_cursor_in [of Head "level_list sk i xs"] by (auto simp: ps level_list_def)
  have ok: "cursor_ok ?w i (upd ! i)" "cursor_ok ?w i (Cell f)" "upd ! i \<noteq> Cell f" if "i < Suc nl" for i
    using last_cursor_level_ok [OF rep, of xs i] that nl ne upd [of i]
    by (auto simp: ps cursor_ok_def w split: cursor.splits)
  have sh: "same_shape ?w s" and fw: "\<And>i e. fwd s e i =
      (if i < Suc nl then ((\<lambda>e. fwd ?w e i)(Cell f := fwd ?w (upd ! i) i, upd ! i := Some f)) e else fwd ?w e i)"
    using link_levels [of "Suc nl" ?w upd f] ok s by auto
  have kd: "key_at s p = (if p = f then key else key_at sk p)" "data_at s p = (if p = f then data else data_at sk p)"
    "height s p = (if p = f then Suc nl else height sk p)" for p
    using sh w by (auto simp: same_shape_def)
  have ll: "level_list s i (xs @ f # ys) = level_list sk i xs @ (if i \<le> nl then [f] else []) @ level_list sk i ys" for i
  proof -
    have "level_list s i A = level_list sk i A" if "f \<notin> set A" for A
      unfolding level_list_def by (rule filter_cong) (use that in \<open>auto simp: kd\<close>)
    then show ?thesis using f by (simp add: ps level_list_append level_list_Cons kd less_Suc_eq_le)
  qed
  have "linked s i Head (level_list s i (xs @ f # ys))" if i: "i < NUM_LEVELS" for i
  proof -
    let ?A = "level_list sk i xs" and ?B = "level_list sk i ys"
    have L: "level_list sk i ps = ?A @ ?B" using level_list_split(1) [OF rep xs ys] .
    have fn: "f \<notin> set (?A @ ?B)" using f by (auto simp: ps level_list_def)
    have "linked ?w i Head (?A @ ?B) \<longleftrightarrow> linked sk i Head (?A @ ?B)"
      by (rule chain_cong, rule w(4)) (use fn in auto)
    then have lw: "linked ?w i Head (?A @ ?B)" using d(7) [OF i] L by simp
    have di: "distinct (?A @ ?B)" using skip_rep_distinct [OF rep] by (auto simp: ps level_list_def)
    show ?thesis
    proof (cases "i \<le> nl")
      case True
      then have "(\<lambda>e. fwd s e i) = (\<lambda>e. fwd ?w e i)(Cell f := fwd ?w (last_cursor Head ?A) i, last_cursor Head ?A := Some f)"
        using fw upd [OF True] by (auto simp: fun_eq_iff)
      then show ?thesis using chain_insert [OF lw di _ fn] True ll by (simp add: image_iff)
    next
      case False
      then have "linked s i Head (?A @ ?B)" using lw fw by simp
      then show ?thesis using False ll by simp
    qed
  qed
  moreover have "sorted_wrt (\<lambda>p q. key_at s p < key_at s q) (xs @ f # ys)"
  proof -
    have "key_at sk x < key" if "x \<in> set xs" for x using that xs by (auto dest: set_takeWhileD)
    moreover have "key < key_at sk y" if "y \<in> set ys" for y
    proof -
      have "y \<in> set ps" using that ps by simp
      then have "key_at sk y \<noteq> key" using key by blast
      with dropWhile_sorted_ge [OF d(4) that [unfolded ys]] show ?thesis by (simp add: order_le_less)
    qed
    moreover have "f \<notin> set xs" "f \<notin> set ys" using f ps by auto
    moreover have "sorted_wrt (\<lambda>p q. key_at s p < key_at s q) A = sorted_wrt (\<lambda>p q. key_at sk p < key_at sk q) A"
      if "f \<notin> set A" for A using that
      by (intro iffI; elim sorted_wrt_mono_rel [rotated]) (metis kd(1))+
    ultimately show ?thesis using d(4) unfolding ps by (auto simp: sorted_wrt_append kd)
  qed
  moreover have "length (sk_forward s) = NUM_LEVELS" "sk_level s = max (sk_level sk) nl"
    "dom (sk_cells s) = set (xs @ f # ys)"
    using sh d(1,3) by (simp_all add: same_shape_def w ps)
  moreover have "0 < height s p \<and> height s p \<le> Suc (max (sk_level sk) nl)" if "p \<in> set (xs @ f # ys)" for p
    using that d(5,6) [of p] by (auto simp: kd ps le_max_iff_disj)
  ultimately show ?thesis using d(2) nl kd unfolding skip_rep_def by simp
qed

lemma skip_abs_rep:
  assumes rep: "skip_rep sk ps"
  shows "skip_abs sk k = Some d \<longleftrightarrow> (\<exists>p\<in>set ps. key_at sk p = k \<and> data_at sk p = d)"
proof -
  have ran: "c \<in> ran (sk_cells sk) \<longleftrightarrow> (\<exists>p\<in>set ps. c = cell_at sk p)" for c
    unfolding skip_repD(3) [OF rep, symmetric] ran_def cell_at_def dom_def by force
  have inj: "p = q" if "p \<in> set ps" "q \<in> set ps" "key_at sk p = key_at sk q" for p q
    using inj_onD [OF sorted_wrt_inj [OF skip_repD(4) [OF rep]] that(3) that(1,2)] .
  have the: "(THE c. c \<in> ran (sk_cells sk) \<and> sc_key c = key_at sk p) = cell_at sk p" if "p \<in> set ps" for p
  proof (rule the_equality)
    show "cell_at sk p \<in> ran (sk_cells sk) \<and> sc_key (cell_at sk p) = key_at sk p" using that ran by blast
    fix c assume c: "c \<in> ran (sk_cells sk) \<and> sc_key c = key_at sk p"
    then obtain q where q: "q \<in> set ps" "c = cell_at sk q" unfolding ran by (elim conjE bexE)
    have "q = p" using inj [OF q(1) that] c q(2) by simp
    then show "c = cell_at sk p" using q(2) by simp
  qed
  show ?thesis
  proof
    assume "skip_abs sk k = Some d"
    then obtain p where "p \<in> set ps" "key_at sk p = k" "d = sc_data (THE c. c \<in> ran (sk_cells sk) \<and> sc_key c = k)"
      by (auto simp: skip_abs_def ran split: if_splits)
    then show "\<exists>p\<in>set ps. key_at sk p = k \<and> data_at sk p = d" using the by auto
  next
    assume "\<exists>p\<in>set ps. key_at sk p = k \<and> data_at sk p = d"
    then obtain p where p: "p \<in> set ps" "key_at sk p = k" "data_at sk p = d" by blast
    then have "\<exists>c\<in>ran (sk_cells sk). sc_key c = k" using ran by blast
    then show "skip_abs sk k = Some d" using the [OF p(1)] p by (simp add: skip_abs_def)
  qed
qed

lemma update_array:
  assumes rep: "skip_rep sk ps"
    and xs: "xs = takeWhile (\<lambda>p. key_at sk p < key) ps" and ys: "ys = dropWhile (\<lambda>p. key_at sk p < key) ps"
  obtains upd where "find_update sk key (Suc (sk_level sk)) Head (replicate NUM_LEVELS Head) = Some (last_cursor Head xs, upd)"
    "length upd = NUM_LEVELS" "\<And>i. i \<le> sk_level sk \<Longrightarrow> upd ! i = last_cursor Head (level_list sk i xs)"
    "fwd sk (last_cursor Head xs) 0 = (case ys of [] \<Rightarrow> None | p # _ \<Rightarrow> Some p)"
proof -
  note d = skip_repD [OF rep] and sp = level_list_split [OF rep xs ys]
  obtain upd where u: "find_update sk key (Suc (sk_level sk)) Head (replicate NUM_LEVELS Head) =
      Some (last_cursor Head (takeWhile (\<lambda>p. key_at sk p < key) (level_list sk 0 ps)), upd)"
    "length upd = NUM_LEVELS"
    "\<forall>j<NUM_LEVELS. upd ! j = (if j \<le> sk_level sk then last_cursor Head (level_list sk j xs) else replicate NUM_LEVELS Head ! j)"
    using find_update_rep [OF rep d(2) passed_Head, of key "replicate NUM_LEVELS Head"] by (auto simp: sp(2))
  have "linked sk 0 Head (xs @ ys)" using d(7) [of 0] skip_rep_level_0 [OF rep] xs ys by (simp add: NUM_LEVELS_def)
  from linked_fwd [OF linked_append [OF this]] u d(2) xs skip_rep_level_0 [OF rep]
  show ?thesis by (intro that [of upd]) auto
qed

lemma nth_fold_Head:
  "length u = n \<Longrightarrow> m \<le> n \<Longrightarrow> i < n \<Longrightarrow>
    fold (\<lambda>i u. u[i := Head]) [a..<m] u ! i = (if a \<le> i \<and> i < m then Head else u ! i) \<and>
    length (fold (\<lambda>i u. u[i := Head]) [a..<m] u) = n"
  by (induction m) (auto simp: nth_list_update)

lemma level_list_high:
  assumes "skip_rep sk ps" "sk_level sk < i" "set A \<subseteq> set ps"
  shows "level_list sk i A = []"
proof -
  have "\<not> i < height sk p" if "p \<in> set A" for p
    using skip_repD(6) [OF assms(1), of p] assms(2,3) that by auto
  then show ?thesis by (auto simp: level_list_def filter_empty_conv)
qed

lemma insert_cell_rep:
  assumes rep: "skip_rep sk ps" and f: "f \<notin> set ps" and key: "\<forall>p\<in>set ps. key_at sk p \<noteq> key"
    and xs: "xs = takeWhile (\<lambda>p. key_at sk p < key) ps" and ys: "ys = dropWhile (\<lambda>p. key_at sk p < key) ps"
    and upd: "length upd = NUM_LEVELS" "\<And>i. i \<le> sk_level sk \<Longrightarrow> upd ! i = last_cursor Head (level_list sk i xs)"
  shows "\<exists>s. insert_cell (Some f) sk key data upd = Inr s \<and> skip_rep s (xs @ f # ys) \<and>
    (\<forall>p. key_at s p = (if p = f then key else key_at sk p) \<and> data_at s p = (if p = f then data else data_at sk p))"
proof -
  obtain nl seed where r: "random_level sk = (nl, sk\<lparr>random_seed := seed\<rparr>)"
    by (auto simp: random_level_def Let_def)
  then have nl: "nl < NUM_LEVELS" using random_level_bound [of sk] by simp
  define upd' where "upd' = (if sk_level sk < nl then fold (\<lambda>i u. u[i := Head]) [Suc (sk_level sk)..<Suc nl] upd else upd)"
  have sub: "set xs \<subseteq> set ps" using xs by (auto dest: set_takeWhileD)
  note h = nth_fold_Head [OF upd(1), of "Suc nl" _ "Suc (sk_level sk)"]
  have "upd' ! i = last_cursor Head (level_list sk i xs)" if "i \<le> nl" for i
  proof (cases "i \<le> sk_level sk")
    case True
    then show ?thesis using upd h [of i] nl that by (auto simp: upd'_def simp del: upt_Suc)
  next
    case False
    then show ?thesis using h [of i] nl that level_list_high [OF rep _ sub, of i]
      by (auto simp: upd'_def simp del: upt_Suc)
  qed
  note ins = insert_rep [OF rep f nl key xs ys this refl, of data seed]
  have "insert_cell (Some f) sk key data upd =
      Inr (fold (link_level f upd') [0..<Suc nl] (with_cell sk f key data nl seed))"
    by (simp add: insert_cell_def r upd'_def with_cell_def max_def Let_def del: upt_Suc)
  with ins show ?thesis by auto
qed

lemma skip_rep_cells:
  assumes "\<And>p. key_at s p = key_at sk p \<and> height s p = height sk p" "\<And>e i. fwd s e i = fwd sk e i"
    "dom (sk_cells s) = dom (sk_cells sk)" "sk_forward s = sk_forward sk" "sk_level s = sk_level sk"
  shows "skip_rep s ps = skip_rep sk ps"
  using assms by (simp add: skip_rep_def level_list_def)

lemma skip_abs_insert:
  assumes "skip_rep sk ps" "skip_rep s qs" "set qs = insert f (set ps)"
    "\<And>p. p \<in> set ps \<Longrightarrow> p \<noteq> f \<Longrightarrow> key_at s p = key_at sk p \<and> data_at s p = data_at sk p \<and> key_at sk p \<noteq> key"
    "key_at s f = key" "data_at s f = data" "f \<in> set ps \<Longrightarrow> key_at sk f = key"
  shows "skip_abs s = (skip_abs sk)(key \<mapsto> data)"
proof (rule map_eqI)
  fix k v
  show "(skip_abs s k = Some v) = (((skip_abs sk)(key \<mapsto> data)) k = Some v)"
    unfolding skip_abs_rep [OF assms(2)] fun_upd_apply using skip_abs_rep [OF assms(1), of k v] assms(3-) by auto metis+
qed

text \<open>The data of a cell that \<open>caml_skiplist_find_ptr\<close> has found is overwritten in place.\<close>

definition set_data :: "skiplist \<Rightarrow> ptr \<Rightarrow> u64 \<Rightarrow> skiplist" where
  "set_data sk p data = sk\<lparr>sk_cells := (sk_cells sk)(p \<mapsto> (cell_at sk p)\<lparr>sc_data := data\<rparr>)\<rparr>"

lemma set_data_rep:
  assumes rep: "skip_rep sk ps" and p: "p \<in> set ps"
  shows "skip_rep (set_data sk p data) ps \<and> skip_abs (set_data sk p data) = (skip_abs sk)(key_at sk p \<mapsto> data)"
proof -
  note d = skip_repD [OF rep]
  have c: "\<And>q. key_at (set_data sk p data) q = key_at sk q \<and> height (set_data sk p data) q = height sk q"
    "\<And>q. data_at (set_data sk p data) q = (if q = p then data else data_at sk q)"
    "\<And>e i. fwd (set_data sk p data) e i = fwd sk e i"
    by (auto simp: set_data_def cell_at_def fwd_def split: cursor.splits)
  have "skip_rep (set_data sk p data) ps = skip_rep sk ps"
    by (rule skip_rep_cells) (use c d(3) p in \<open>auto simp: set_data_def\<close>)
  then have r: "skip_rep (set_data sk p data) ps" using rep by simp
  have "skip_abs (set_data sk p data) = (skip_abs sk)(key_at sk p \<mapsto> data)"
    by (rule skip_abs_insert [OF rep r, of p])
      (use c p inj_onD [OF sorted_wrt_inj [OF d(4)]] in auto)
  then show ?thesis using r by simp
qed

lemma caml_skiplist_insert_correct:
  assumes inv: "skip_inv sk" and f: "f \<notin> dom (sk_cells sk)"
  shows "\<exists>s. caml_skiplist_insert (Some f) sk key data = Some (Inr (skip_abs sk key \<noteq> None, s)) \<and>
    skip_inv s \<and> skip_abs s = (skip_abs sk)(key \<mapsto> data)"
proof -
  obtain ps where rep: "skip_rep sk ps" using inv by (auto simp: skip_inv_def)
  note d = skip_repD [OF rep]
  define xs ys where xs: "xs = takeWhile (\<lambda>p. key_at sk p < key) ps" and ys: "ys = dropWhile (\<lambda>p. key_at sk p < key) ps"
  have ps: "set ps = set xs \<union> set ys" by (metis xs ys set_append takeWhile_dropWhile_id)
  obtain upd where u: "find_update sk key (Suc (sk_level sk)) Head (replicate NUM_LEVELS Head) = Some (last_cursor Head xs, upd)"
    "length upd = NUM_LEVELS" "\<And>i. i \<le> sk_level sk \<Longrightarrow> upd ! i = last_cursor Head (level_list sk i xs)"
    "fwd sk (last_cursor Head xs) 0 = (case ys of [] \<Rightarrow> None | p # _ \<Rightarrow> Some p)"
    using update_array [OF rep xs ys] by metis
  show ?thesis
  proof (cases "\<exists>p\<in>set ps. key_at sk p = key")
    case False
    then obtain s where s: "insert_cell (Some f) sk key data upd = Inr s" "skip_rep s (xs @ f # ys)"
      "\<forall>p. key_at s p = (if p = f then key else key_at sk p) \<and> data_at s p = (if p = f then data else data_at sk p)"
      using insert_cell_rep [OF rep _ _ xs ys u(2,3), of f data] f d(3) by blast
    have "skip_abs s = (skip_abs sk)(key \<mapsto> data)"
      by (rule skip_abs_insert [OF rep s(2), of f]) (use False s(3) f d(3) ps in auto)
    moreover have "skip_abs sk key = None" using False skip_abs_rep [OF rep, of key] by (cases "skip_abs sk key") auto
    moreover have "\<not> (case ys of [] \<Rightarrow> False | p # _ \<Rightarrow> key_at sk p = key)"
      using False dropWhile_smaller [OF d(4), of key] ys by auto
    ultimately show ?thesis using s(1,2) u(1,4)
      by (auto simp: caml_skiplist_insert_def skip_inv_def Let_def split: list.splits)
  next
    case True
    then obtain p B where p: "ys = p # B" "key_at sk p = key"
      using dropWhile_smaller [OF d(4), of key] ys by (auto split: list.splits)
    have pin: "p \<in> set ps" using p ys by (metis list.set_intros(1) set_dropWhileD)
    note sd = set_data_rep [OF rep pin, of data, unfolded p(2)]
    have "skip_abs sk key \<noteq> None" using p(2) pin skip_abs_rep [OF rep, of key] by blast
    then show ?thesis using u(1,4) p sd
      by (auto simp: caml_skiplist_insert_def skip_inv_def Let_def set_data_def)
  qed
qed

subsection \<open>Removal, emptying and iteration\<close>

lemma lower_level_props:
  "lower_level fw n \<le> n" "lower_level fw n < i \<Longrightarrow> i \<le> n \<Longrightarrow> fw ! i = None"
  by (induction n) (auto simp: le_Suc_eq split: if_splits)

definition without_cell :: "skiplist \<Rightarrow> ptr \<Rightarrow> skiplist" where
  "without_cell sk p =
     (let sk = sk\<lparr>sk_cells := (sk_cells sk)(p := None)\<rparr>
      in sk\<lparr>sk_level := lower_level (sk_forward sk) (sk_level sk)\<rparr>)"

lemma without_cell_simps:
  "q \<noteq> p \<Longrightarrow> cell_at (without_cell sk p) q = cell_at sk q"
  "e \<noteq> Cell p \<Longrightarrow> fwd (without_cell sk p) e i = fwd sk e i"
  "dom (sk_cells (without_cell sk p)) = dom (sk_cells sk) - {p}"
  "sk_level (without_cell sk p) = lower_level (sk_forward sk) (sk_level sk)"
  "sk_forward (without_cell sk p) = sk_forward sk"
  by (auto simp: without_cell_def Let_def cell_at_def fwd_def split: cursor.splits)

lemma unlinked_chain:
  assumes rep: "skip_rep sk (xs @ p # ys)" and i: "i < NUM_LEVELS"
  shows "let u = last_cursor Head (level_list sk i xs) in
    chain (if fwd sk u i = Some p then (\<lambda>e. fwd sk e i)(u := fwd sk (Cell p) i) else (\<lambda>e. fwd sk e i))
      Head (level_list sk i (xs @ ys))"
proof -
  let ?A = "level_list sk i xs" and ?B = "level_list sk i ys" and ?u = "last_cursor Head (level_list sk i xs)"
  have l: "linked sk i Head (?A @ (if i < height sk p then [p] else []) @ ?B)"
    using skip_repD(7) [OF rep i] by (simp add: level_list_append level_list_Cons)
  have di: "distinct (xs @ p # ys)" using skip_rep_distinct [OF rep] .
  show ?thesis
  proof (cases "i < height sk p")
    case True
    have "distinct (?A @ p # ?B)" using di by (auto simp: level_list_def)
    with True l linked_fwd [OF linked_append, of sk i Head ?A "p # ?B"] chain_remove [of "\<lambda>e. fwd sk e i" Head ?A p ?B]
    show ?thesis by (simp add: Let_def level_list_append image_iff)
  next
    case False
    have "p \<notin> set ?B" using di by (auto simp: level_list_def)
    with False l linked_fwd [OF linked_append, of sk i Head ?A ?B] have "fwd sk ?u i \<noteq> Some p"
      by (auto split: list.splits)
    then show ?thesis using False l by (simp add: Let_def level_list_append)
  qed
qed

lemma remove_rep:
  assumes rep: "skip_rep sk (xs @ p # ys)"
    and upd: "\<And>i. i \<le> sk_level sk \<Longrightarrow> upd ! i = last_cursor Head (level_list sk i xs)"
    and s: "s = fold (unlink_level p upd) [0..<Suc (sk_level sk)] sk"
  shows "skip_rep (without_cell s p) (xs @ ys) \<and>
    (\<forall>q. q \<noteq> p \<longrightarrow> key_at (without_cell s p) q = key_at sk q \<and> data_at (without_cell s p) q = data_at sk q)"
proof -
  let ?w = "without_cell s p"
  note d = skip_repD [OF rep] and w = without_cell_simps
  have di: "distinct (xs @ p # ys)" using skip_rep_distinct [OF rep] .
  have ok: "cursor_ok sk i (upd ! i)" if "i < Suc (sk_level sk)" for i
    using last_cursor_level_ok [OF rep, of xs i] that d(2) upd [of i] by auto
  have sh: "same_shape sk s" and fw: "\<And>i e. fwd s e i =
      (if i < Suc (sk_level sk) \<and> fwd sk (upd ! i) i = Some p
       then ((\<lambda>e. fwd sk e i)(upd ! i := fwd sk (Cell p) i)) e else fwd sk e i)"
    using unlink_levels [of "Suc (sk_level sk)" sk upd p] ok s by auto
  have c: "key_at ?w q = key_at sk q" "data_at ?w q = data_at sk q" "height ?w q = height sk q" if "q \<noteq> p" for q
    using that sh by (simp_all add: w same_shape_def)
  have np: "q \<noteq> p" if "q \<in> set (xs @ ys)" for q using that di by auto
  have ll: "level_list ?w i (xs @ ys) = level_list sk i (xs @ ys)" for i
    unfolding level_list_def by (rule filter_cong [OF refl]) (simp only: c(3) [OF np])
  have link: "linked ?w i Head (level_list ?w i (xs @ ys))" if i: "i < NUM_LEVELS" for i
  proof -
    have "linked s i Head (level_list sk i (xs @ ys))"
    proof (cases "i \<le> sk_level sk")
      case True
      then have "(\<lambda>e. fwd s e i) = (if fwd sk (upd ! i) i = Some p
          then (\<lambda>e. fwd sk e i)(upd ! i := fwd sk (Cell p) i) else (\<lambda>e. fwd sk e i))"
        using fw by (auto simp: fun_eq_iff)
      then show ?thesis using unlinked_chain [OF rep i] unfolding upd [OF True] Let_def by (simp only:)
    next
      case False
      have "set (xs @ ys) \<subseteq> set (xs @ p # ys)" by auto
      with False have "level_list sk i (xs @ ys) = []" "level_list sk i (xs @ p # ys) = []"
        using level_list_high [OF rep, of i] by auto
      then show ?thesis using False d(7) [OF i] fw by simp
    qed
    moreover have "linked ?w i Head (level_list sk i (xs @ ys)) \<longleftrightarrow> linked s i Head (level_list sk i (xs @ ys))"
      by (rule chain_cong, rule w(2)) (use di in \<open>auto simp: level_list_def\<close>)
    ultimately show ?thesis using ll by simp
  qed
  have lv: "sk_level ?w \<le> sk_level sk" using sh lower_level_props(1) by (simp add: w same_shape_def)
  have h: "height ?w q \<le> Suc (sk_level ?w)" if q: "q \<in> set (xs @ ys)" for q
  proof (rule ccontr)
    assume n: "\<not> height ?w q \<le> Suc (sk_level ?w)"
    have hq: "height ?w q \<le> Suc (sk_level sk)" using q c(3) [OF np [OF q]] d(6) [of q] by auto
    let ?i = "height ?w q - 1"
    have "sk_forward s ! ?i = None"
      by (rule lower_level_props(2) [where n = "sk_level s"]) (use n hq sh in \<open>auto simp: w same_shape_def\<close>)
    then have "fwd ?w Head ?i = None" by (simp add: w fwd_def)
    moreover have "q \<in> set (level_list ?w ?i (xs @ ys))" using q n by (auto simp: level_list_def)
    then have "level_list ?w ?i (xs @ ys) \<noteq> []" by auto
    moreover have "?i < NUM_LEVELS" using hq d(2) by simp
    ultimately show False using linked_fwd [OF link [of ?i]] by (auto split: list.splits)
  qed
  have "sorted_wrt (\<lambda>p q. key_at ?w p < key_at ?w q) (xs @ ys)"
  proof (rule sorted_wrt_mono_rel)
    show "sorted_wrt (\<lambda>p q. key_at sk p < key_at sk q) (xs @ ys)" using d(4) by (simp add: sorted_wrt_append)
  qed (simp only: c(1) [OF np])
  moreover have "0 < height ?w q" if "q \<in> set (xs @ ys)" for q
    using that c(3) [OF np [OF that]] d(5) [of q] by auto
  moreover have "dom (sk_cells ?w) = set (xs @ ys)" "length (sk_forward ?w) = NUM_LEVELS"
    using sh d(1,3) di by (auto simp: w same_shape_def)
  ultimately show ?thesis using link h lv d(2) c unfolding skip_rep_def by simp
qed

lemma caml_skiplist_remove_rep:
  assumes rep: "skip_rep sk (xs @ p # ys)"
  shows "\<exists>s. caml_skiplist_remove sk (key_at sk p) = Some (True, s) \<and> skip_rep s (xs @ ys) \<and>
    (\<forall>q. q \<noteq> p \<longrightarrow> key_at s q = key_at sk q \<and> data_at s q = data_at sk q)"
proof -
  note d = skip_repD [OF rep]
  have lt: "\<forall>q\<in>set xs. key_at sk q < key_at sk p" using d(4) by (simp add: sorted_wrt_append)
  then have xs: "xs = takeWhile (\<lambda>q. key_at sk q < key_at sk p) (xs @ p # ys)"
    and ps: "p # ys = dropWhile (\<lambda>q. key_at sk q < key_at sk p) (xs @ p # ys)" by simp_all
  obtain upd where u:
    "find_update sk (key_at sk p) (Suc (sk_level sk)) Head (replicate NUM_LEVELS Head) = Some (last_cursor Head xs, upd)"
    "\<And>i. i \<le> sk_level sk \<Longrightarrow> upd ! i = last_cursor Head (level_list sk i xs)"
    "fwd sk (last_cursor Head xs) 0 = Some p"
    using update_array [OF rep xs ps] by auto
  let ?s = "fold (unlink_level p upd) [0..<Suc (sk_level sk)] sk"
  have "caml_skiplist_remove sk (key_at sk p) = Some (True, without_cell ?s p)"
    using u(1,3) by (simp add: caml_skiplist_remove_def Let_def without_cell_def del: upt_Suc)
  then show ?thesis using remove_rep [OF rep u(2) refl] by blast
qed

lemma caml_skiplist_remove_correct:
  assumes inv: "skip_inv sk"
  shows "\<exists>s. caml_skiplist_remove sk key = Some (skip_abs sk key \<noteq> None, s) \<and>
    skip_inv s \<and> skip_abs s = (skip_abs sk)(key := None)"
proof -
  obtain ps where rep: "skip_rep sk ps" using inv by (auto simp: skip_inv_def)
  note d = skip_repD [OF rep]
  show ?thesis
  proof (cases "\<exists>p\<in>set ps. key_at sk p = key")
    case False
    define xs ys where xs: "xs = takeWhile (\<lambda>p. key_at sk p < key) ps" and ys: "ys = dropWhile (\<lambda>p. key_at sk p < key) ps"
    obtain upd where u: "find_update sk key (Suc (sk_level sk)) Head (replicate NUM_LEVELS Head) = Some (last_cursor Head xs, upd)"
      "fwd sk (last_cursor Head xs) 0 = (case ys of [] \<Rightarrow> None | p # _ \<Rightarrow> Some p)"
      using update_array [OF rep xs ys] by metis
    from False have none: "skip_abs sk key = None" using skip_abs_rep [OF rep, of key] by (cases "skip_abs sk key") auto
    then have "skip_abs sk = (skip_abs sk)(key := None)" by auto
    moreover have "\<not> (case ys of [] \<Rightarrow> False | p # _ \<Rightarrow> key_at sk p = key)"
      using False dropWhile_smaller [OF d(4), of key] ys by auto
    ultimately show ?thesis using inv u none
      by (auto simp: caml_skiplist_remove_def Let_def split: list.splits)
  next
    case True
    then obtain xs p B where p: "ps = xs @ p # B" "key_at sk p = key" by (metis split_list)
    obtain s where s: "caml_skiplist_remove sk key = Some (True, s)" "skip_rep s (xs @ B)"
      "\<And>q. q \<noteq> p \<Longrightarrow> key_at s q = key_at sk q \<and> data_at s q = data_at sk q"
      using caml_skiplist_remove_rep [OF rep [unfolded p(1)]] p(2) by blast
    have di: "distinct (xs @ p # B)" using skip_rep_distinct [OF rep] p(1) by simp
    have "skip_abs s = (skip_abs sk)(key := None)"
    proof (rule map_eqI)
      fix k v
      have "skip_abs s k = Some v \<longleftrightarrow> (\<exists>q\<in>set (xs @ B). key_at sk q = k \<and> data_at sk q = v)"
        unfolding skip_abs_rep [OF s(2)]
      proof (rule bex_cong [OF refl])
        fix q assume "q \<in> set (xs @ B)"
        then have "q \<noteq> p" using di by auto
        with s(3) show "(key_at s q = k \<and> data_at s q = v) = (key_at sk q = k \<and> data_at sk q = v)" by simp
      qed
      also have "\<dots> \<longleftrightarrow> ((skip_abs sk)(key := None)) k = Some v"
        using inj_onD [OF sorted_wrt_inj [OF d(4)]] di p(2) unfolding fun_upd_apply p(1)
        by (auto simp: skip_abs_rep [OF rep] p(1))
      finally show "(skip_abs s k = Some v) = (((skip_abs sk)(key := None)) k = Some v)" .
    qed
    moreover have "skip_abs sk key \<noteq> None" using p skip_abs_rep [OF rep, of key] by auto
    ultimately show ?thesis using s by (auto simp: skip_inv_def)
  qed
qed

lemma caml_skiplist_find_correct:
  assumes "skip_inv sk"
  shows "caml_skiplist_find sk key = Some (skip_abs sk key)"
proof -
  obtain ps where rep: "skip_rep sk ps" using assms by (auto simp: skip_inv_def)
  from find_levels_rep [OF rep skip_repD(2) [OF rep] passed_Head, of key] show ?thesis
  proof (elim disjE bexE conjE)
    fix p assume "p \<in> set ps" "key_at sk p = key" "find_levels sk key (Suc (sk_level sk)) Head = Some (Some p)"
    moreover from this have "skip_abs sk key = Some (data_at sk p)" using skip_abs_rep [OF rep] by blast
    ultimately show ?thesis
      by (simp add: caml_skiplist_find_def caml_skiplist_find_ptr_def del: find_levels.simps)
  next
    assume "\<forall>p\<in>set ps. key_at sk p \<noteq> key" "find_levels sk key (Suc (sk_level sk)) Head = Some None"
    moreover from this have "skip_abs sk key = None" using skip_abs_rep [OF rep, of key] by (cases "skip_abs sk key") auto
    ultimately show ?thesis
      by (simp add: caml_skiplist_find_def caml_skiplist_find_ptr_def del: find_levels.simps)
  qed
qed

lemma takeWhile_le_greatest:
  assumes "sorted_wrt (\<lambda>p q. f p < (f q :: u64)) L" "takeWhile (\<lambda>p. f p \<le> k) L \<noteq> []"
    "q \<in> set L" "f q \<le> k"
  shows "f q \<le> f (last (takeWhile (\<lambda>p. f p \<le> k) L))"
proof -
  let ?A = "takeWhile (\<lambda>p. f p \<le> k) L"
  have "sorted_wrt (\<lambda>p q. f q \<le> k \<longrightarrow> f p \<le> k) L" using assms(1) by (rule sorted_wrt_mono_rel [rotated]) auto
  then have "q \<in> set ?A" using assms(3,4) by (induction L) auto
  then have "q \<in> set (butlast ?A @ [last ?A])" using assms(2) by simp
  moreover have "sorted_wrt (\<lambda>p q. f p < f q) ?A" using assms(1) by (rule sorted_wrt_takeWhile)
  then have "sorted_wrt (\<lambda>p q. f p < f q) (butlast ?A @ [last ?A])" using assms(2) by simp
  ultimately show ?thesis by (auto simp: sorted_wrt_append order_less_imp_le)
qed

lemma caml_skiplist_find_below_correct:
  assumes "skip_inv sk"
  shows "case caml_skiplist_find_below sk k of
      None \<Rightarrow> False
    | Some None \<Rightarrow> dom (skip_abs sk) \<inter> {..k} = {}
    | Some (Some (key, data)) \<Rightarrow> skip_abs sk key = Some data \<and> key \<le> k \<and>
        dom (skip_abs sk) \<inter> {key<..k} = {}"
proof -
  obtain ps where rep: "skip_rep sk ps" using assms by (auto simp: skip_inv_def)
  let ?A = "takeWhile (\<lambda>p. key_at sk p \<le> k) ps"
  note a = skip_abs_rep [OF rep]
  obtain l where l: "below_levels sk k (Suc (sk_level sk)) Head None = Some l" "cursor_of l = last_cursor Head ?A"
    using below_levels_rep [OF rep skip_repD(2) [OF rep], of k None] passed_Head by auto
  show ?thesis
  proof (cases "?A = []")
    case True
    then have "l = None" using l(2) by (cases l) auto
    moreover have "\<not> key_at sk p \<le> k" if "p \<in> set ps" for p
      using that True skip_repD(4) [OF rep] by (cases ps) (auto split: if_splits)
    ultimately show ?thesis using l(1) by (auto simp: caml_skiplist_find_below_def a simp del: below_levels.simps)
  next
    case False
    then have "l = Some (last ?A)" using l(2) by (cases l) (auto simp: last_cursor_cases)
    moreover have "last ?A \<in> set ps" "key_at sk (last ?A) \<le> k" using last_in_set [OF False] by (auto dest: set_takeWhileD)
    moreover have "\<not> key_at sk (last ?A) < key_at sk p" if "p \<in> set ps" "key_at sk p \<le> k" for p
      using takeWhile_le_greatest [OF skip_repD(4) [OF rep] False that] by simp
    ultimately show ?thesis using l(1)
      by (auto simp: caml_skiplist_find_below_def a simp del: below_levels.simps)
  qed
qed

lemma free_cells_chain:
  assumes "chain nx e L" "distinct L" "\<And>p. p \<in> set L \<Longrightarrow> nx (Cell p) = sc_forward (the (cells p)) ! 0"
  shows "free_cells cells (nx e) = Some (cells |` (- set L))"
  using assms
proof (induction L arbitrary: e cells)
  case Nil
  then show ?case by (simp add: free_cells.simps [of cells])
next
  case (Cons p L)
  have "free_cells (cells(p := None)) (nx (Cell p)) = Some (cells(p := None) |` (- set L))"
    by (rule Cons.IH) (use Cons.prems in auto)
  moreover have "cells(p := None) |` (- set L) = cells |` (- set (p # L))"
    by (auto simp: restrict_map_def)
  ultimately show ?case using Cons.prems by (simp add: free_cells.simps [of cells])
qed

lemma skip_rep_Nil:
  "length (sk_forward s) = NUM_LEVELS \<Longrightarrow> sk_level s < NUM_LEVELS \<Longrightarrow> sk_cells s = Map.empty \<Longrightarrow>
    (\<And>i. i < NUM_LEVELS \<Longrightarrow> sk_forward s ! i = None) \<Longrightarrow> skip_rep s []"
  by (simp add: skip_rep_def level_list_def fwd_def)

lemma skip_abs_empty: "sk_cells s = Map.empty \<Longrightarrow> skip_abs s = Map.empty"
  by (auto simp: skip_abs_def)

lemma nth_fold_None:
  "i < length l \<Longrightarrow> fold (\<lambda>i l. l[i := None]) [0..<m] l ! i = (if i < m then None else l ! i)"
  "length (fold (\<lambda>i l. l[i := None]) [0..<m] l) = length l"
  by (induction m) (auto simp: nth_list_update less_Suc_eq)

lemma caml_skiplist_empty_correct:
  assumes "skip_inv sk"
  shows "\<exists>s. caml_skiplist_empty sk = Some s \<and> skip_inv s \<and> skip_abs s = Map.empty \<and> sk_cells s = Map.empty"
proof -
  obtain ps where rep: "skip_rep sk ps" using assms by (auto simp: skip_inv_def)
  note d = skip_repD [OF rep]
  let ?c = "sk_cells sk |` (- set ps)" and ?f = "fold (\<lambda>i l. l[i := None]) [0..<Suc (sk_level sk)] (sk_forward sk)"
  have "linked sk 0 Head ps" using d(7) [of 0] skip_rep_level_0 [OF rep] by (simp add: NUM_LEVELS_def)
  from free_cells_chain [OF this skip_rep_distinct [OF rep]]
  have "free_cells (sk_cells sk) (fwd sk Head 0) = Some ?c" by (simp add: fwd_def cell_at_def)
  then have s: "caml_skiplist_empty sk = Some (sk\<lparr>sk_cells := ?c, sk_forward := ?f, sk_level := 0\<rparr>)" (is "_ = Some ?s")
    by (simp add: caml_skiplist_empty_def fwd_def)
  have c: "?c = Map.empty" using d(3) by (auto simp: restrict_map_def fun_eq_iff)
  have "sk_forward sk ! i = None" if "i < NUM_LEVELS" "\<not> i < Suc (sk_level sk)" for i
    using d(7) [OF that(1)] level_list_high [OF rep, of i ps] that(2) by (simp add: fwd_def)
  then have "skip_rep ?s []" using c d(1,2)
    by (intro skip_rep_Nil) (auto simp: nth_fold_None simp del: upt_Suc)
  then show ?thesis using s c skip_abs_empty [of ?s] by (auto simp: skip_inv_def)
qed

lemma foreach_chain:
  "linked sk 0 e L \<Longrightarrow> foreach_from sk (fwd sk e 0) = Some (map (\<lambda>p. (key_at sk p, data_at sk p)) L)"
  by (induction L arbitrary: e) (auto simp: foreach_from.simps [of sk])

lemma foreach_correct:
  assumes "skip_inv sk"
  shows "\<exists>l. FOREACH_SKIPLIST_ELEMENT sk = Some l \<and> sorted_wrt (<) (map fst l) \<and> map_of l = skip_abs sk"
proof -
  obtain ps where rep: "skip_rep sk ps" using assms by (auto simp: skip_inv_def)
  let ?l = "map (\<lambda>p. (key_at sk p, data_at sk p)) ps"
  have "linked sk 0 Head ps" using skip_repD(7) [OF rep, of 0] skip_rep_level_0 [OF rep] by (simp add: NUM_LEVELS_def)
  then have "FOREACH_SKIPLIST_ELEMENT sk = Some ?l" by (simp add: FOREACH_SKIPLIST_ELEMENT_def foreach_chain)
  moreover have s: "sorted_wrt (<) (map fst ?l)" using skip_repD(4) [OF rep] by (simp add: sorted_wrt_map comp_def)
  moreover have "map_of ?l = skip_abs sk"
  proof (rule map_eqI)
    fix k v
    have "distinct (map fst ?l)" using s by (rule sorted_wrt_distinct [where f = "\<lambda>k. k"])
    then have "map_of ?l k = Some v \<longleftrightarrow> (k, v) \<in> set ?l" by simp
    then show "(map_of ?l k = Some v) = (skip_abs sk k = Some v)" unfolding skip_abs_rep [OF rep] by auto
  qed
  ultimately show ?thesis by blast
qed

subsection \<open>The skip list is a dictionary\<close>

definition empty_skiplist :: skiplist where
  "empty_skiplist = caml_skiplist_init \<lparr>sk_forward = [], sk_level = 0, sk_cells = Map.empty, random_seed = 0\<rparr>"

lemma empty_skiplist_inv: "skip_inv empty_skiplist" "sk_cells empty_skiplist = Map.empty"
proof -
  have "skip_rep empty_skiplist []"
    by (rule skip_rep_Nil) (simp_all add: empty_skiplist_def caml_skiplist_init_def NUM_LEVELS_def)
  then show "skip_inv empty_skiplist" by (auto simp: skip_inv_def)
qed (simp add: empty_skiplist_def caml_skiplist_init_def)

text \<open>An allocator for the interpretation: the pointer above all those in use.\<close>

definition new_ptr :: "skiplist \<Rightarrow> ptr" where
  "new_ptr sk = Suc (Max (insert 0 (dom (sk_cells sk))))"

lemma new_ptr_fresh: "skip_inv sk \<Longrightarrow> new_ptr sk \<notin> dom (sk_cells sk)"
proof
  assume "skip_inv sk" "new_ptr sk \<in> dom (sk_cells sk)"
  then have "finite (dom (sk_cells sk))" using skip_repD(3) by (metis List.finite_set skip_inv_def)
  then have "new_ptr sk \<le> Max (insert 0 (dom (sk_cells sk)))"
    using \<open>new_ptr sk \<in> dom (sk_cells sk)\<close> by (intro Max_ge) auto
  then show False by (simp add: new_ptr_def)
qed

definition skip_update :: "skiplist \<Rightarrow> u64 \<Rightarrow> u64 \<Rightarrow> skiplist option" where
  "skip_update sk k v =
     (case caml_skiplist_insert (Some (new_ptr sk)) sk k v of Some (Inr (_, s)) \<Rightarrow> Some s | _ \<Rightarrow> None)"

interpretation sl: removable_dictionary skip_inv skip_abs "\<lambda>_. True" empty_skiplist
  "\<lambda>sk k. the (caml_skiplist_find sk k)" skip_update "\<lambda>sk k. the (caml_skiplist_remove sk k)"
proof
  fix s s' :: skiplist and k v :: u64
  assume inv: "skip_inv s"
  show "the (caml_skiplist_find s k) = skip_abs s k" using caml_skiplist_find_correct [OF inv] by simp
  obtain b t where t: "caml_skiplist_remove s k = Some (b, t)" "b = (skip_abs s k \<noteq> None)" "skip_inv t"
    "skip_abs t = (skip_abs s)(k := None)"
    using caml_skiplist_remove_correct [OF inv] by metis
  then show "skip_inv (snd (the (caml_skiplist_remove s k)))"
    "skip_abs (snd (the (caml_skiplist_remove s k))) = (skip_abs s)(k := None)"
    "fst (the (caml_skiplist_remove s k)) = (skip_abs s k \<noteq> None)" by auto
  assume "skip_update s k v = Some s'"
  then show "skip_inv s'" "skip_abs s' = (skip_abs s)(k \<mapsto> v)"
    using caml_skiplist_insert_correct [OF inv new_ptr_fresh [OF inv], of k v] by (auto simp: skip_update_def)
qed (use empty_skiplist_inv skip_abs_empty in auto)

lemma skip_update_total: "skip_inv s \<Longrightarrow> \<exists>s'. skip_update s k v = Some s'"
  using caml_skiplist_insert_correct [OF _ new_ptr_fresh, of s k v] by (auto simp: skip_update_def)

subsection \<open>Properties\<close>

text \<open>
  C3: on a well-formed skip list and for a new cell at any unused address,
  \<open>caml_skiplist_insert\<close> returns, reports whether the key was bound, and yields a well-formed skip
  list that represents the old map with the key bound to the data, whatever level the generator drew.
\<close>

theorem skiplist_insert_refines:
  assumes "skip_inv sk" "f \<notin> dom (sk_cells sk)"
  shows "\<exists>s. caml_skiplist_insert (Some f) sk key data = Some (Inr (skip_abs sk key \<noteq> None, s)) \<and>
    skip_inv s \<and> skip_abs s = (skip_abs sk)(key \<mapsto> data)"
  using caml_skiplist_insert_correct [OF assms] .

theorem skiplist_insert_refines_witness:
  "\<exists>s. caml_skiplist_insert (Some 7) empty_skiplist 30 40 = Some (Inr (skip_abs empty_skiplist 30 \<noteq> None, s)) \<and>
    skip_inv s \<and> skip_abs s = (skip_abs empty_skiplist)(30 \<mapsto> 40)"
  by (rule skiplist_insert_refines) (simp_all add: empty_skiplist_inv)

text \<open>
  C10: \<open>caml_skiplist_remove\<close> returns, reports whether the key was bound, and yields a
  well-formed skip list that represents the old map without the key, its level lowered as needed.
\<close>

theorem skiplist_remove_refines:
  assumes "skip_inv sk"
  shows "\<exists>s. caml_skiplist_remove sk key = Some (skip_abs sk key \<noteq> None, s) \<and>
    skip_inv s \<and> skip_abs s = (skip_abs sk)(key := None)"
  using caml_skiplist_remove_correct [OF assms] .

theorem skiplist_remove_refines_witness:
  "\<exists>s. caml_skiplist_remove empty_skiplist 30 = Some (skip_abs empty_skiplist 30 \<noteq> None, s) \<and>
    skip_inv s \<and> skip_abs s = (skip_abs empty_skiplist)(30 := None)"
  by (rule skiplist_remove_refines) (simp add: empty_skiplist_inv)

text \<open>
  C11: \<open>caml_skiplist_find_below\<close> returns the binding with the greatest key that is at
  most \<open>k\<close>, and reports failure exactly when every key is above \<open>k\<close>.
\<close>

theorem skiplist_find_below_greatest:
  assumes "skip_inv sk"
  shows "case caml_skiplist_find_below sk k of
      None \<Rightarrow> False
    | Some None \<Rightarrow> dom (skip_abs sk) \<inter> {..k} = {}
    | Some (Some (key, data)) \<Rightarrow> skip_abs sk key = Some data \<and> key \<le> k \<and>
        dom (skip_abs sk) \<inter> {key<..k} = {}"
  using caml_skiplist_find_below_correct [OF assms] .

theorem skiplist_find_below_greatest_witness:
  "case caml_skiplist_find_below empty_skiplist 9 of
      None \<Rightarrow> False
    | Some None \<Rightarrow> dom (skip_abs empty_skiplist) \<inter> {..9} = {}
    | Some (Some (key, data)) \<Rightarrow> skip_abs empty_skiplist key = Some data \<and> key \<le> 9 \<and>
        dom (skip_abs empty_skiplist) \<inter> {key<..9} = {}"
  by (rule skiplist_find_below_greatest) (simp add: empty_skiplist_inv)

text \<open>
  C12: after any sequence of insertions into an empty skip list \<open>caml_skiplist_find\<close> returns the last
  data inserted for the key, after a further removal of that key it fails, and
  \<open>FOREACH_SKIPLIST_ELEMENT\<close> visits all bindings once in increasing order of keys.
\<close>

theorem skiplist_history:
  "\<exists>s s' l. sl.updates empty_skiplist kvs = Some s \<and> caml_skiplist_find s k = Some (map_of (rev kvs) k) \<and>
    caml_skiplist_remove s k = Some (map_of (rev kvs) k \<noteq> None, s') \<and> caml_skiplist_find s' k = Some None \<and>
    FOREACH_SKIPLIST_ELEMENT s = Some l \<and> sorted_wrt (<) (map fst l) \<and> map_of l = map_of (rev kvs)"
proof -
  obtain s where s: "sl.updates empty_skiplist kvs = Some s"
    using sl.updates_total [OF skip_update_total sl.inv_empty, of kvs] by (auto simp: list_all_iff)
  have inv: "skip_inv s" "skip_abs s = map_of (rev kvs)"
    using sl.updates_correct [OF sl.inv_empty _ s] by (simp_all add: sl.mapping_of_empty list_all_iff)
  obtain s' where s': "caml_skiplist_remove s k = Some (skip_abs s k \<noteq> None, s')" "skip_inv s'"
    "skip_abs s' = (skip_abs s)(k := None)" using caml_skiplist_remove_correct [OF inv(1)] by blast
  show ?thesis
    using s s' foreach_correct [OF inv(1)] caml_skiplist_find_correct [OF inv(1)] caml_skiplist_find_correct [OF s'(2)] inv(2)
    by auto
qed

text \<open>
  The level drawn for a new cell is below \<open>NUM_LEVELS\<close> for every seed, so the
  \<open>update\<close> array and the head are never indexed out of bounds.
\<close>

theorem random_level_in_range: "fst (random_level sk) < NUM_LEVELS"
  by (rule random_level_bound)

end
