(* ===== verification/Alloc.thy ===== *)
theory Alloc
  imports Mlvalues
begin

text \<open>
  Small allocations: \<open>Alloc_small\<close> of \<open>runtime/caml/memory.h\<close> and the allocation functions of
  \<open>runtime/alloc.c\<close> on the minor heap, on C memory. \<open>None\<close> is the slow path: the minor heap is
  full and the collector is entered, or the block is too large for the minor heap. The lemmas
  show that a block that is returned has the requested header and contents and that nothing
  at or above the old allocation pointer, where the live young blocks are, is written.
\<close>

record heap =
  hp_mem :: mem
  young_ptr :: addr
  young_limit :: addr
  caml_atom :: "u32 \<Rightarrow> val"
  minor_custom_table :: "val list"
  caml_int32_ops :: addr
  caml_int64_ops :: addr
  caml_nativeint_ops :: addr

definition Max_young_wosize :: u64 where "Max_young_wosize = 256"

definition Caml_check_gc_interrupt :: "heap \<Rightarrow> bool" where
  "Caml_check_gc_interrupt h \<longleftrightarrow> young_ptr h < young_limit h"

definition Alloc_small_with_reserved ::
  "heap \<Rightarrow> u64 \<Rightarrow> u32 \<Rightarrow> u64 \<Rightarrow> (heap \<times> val) option" where
  "Alloc_small_with_reserved h wosize tag reserved =
     (let h = h\<lparr>young_ptr := young_ptr h - Bsize_wsize (Whsize_wosize wosize)\<rparr>
      in if Caml_check_gc_interrupt h then None
         else Some (h\<lparr>hp_mem := store64 (hp_mem h) (young_ptr h)
                       (Make_header_with_reserved wosize tag 0 reserved)\<rparr>, young_ptr h + 8))"

definition Alloc_small :: "heap \<Rightarrow> u64 \<Rightarrow> u32 \<Rightarrow> (heap \<times> val) option" where
  "Alloc_small h wosize tag = Alloc_small_with_reserved h wosize tag 0"

definition Set_Field :: "mem \<Rightarrow> val \<Rightarrow> u64 \<Rightarrow> val \<Rightarrow> mem" where
  "Set_Field m v i x = store64 m (v + 8 * i) x"

definition Set_Byte :: "mem \<Rightarrow> val \<Rightarrow> u64 \<Rightarrow> u8 \<Rightarrow> mem" where
  "Set_Byte m v i b = m(v + i := b)"

text \<open>The loops that fill the first \<open>n\<close> fields of a block.\<close>

definition fill_fields :: "mem \<Rightarrow> val \<Rightarrow> nat \<Rightarrow> (nat \<Rightarrow> val) \<Rightarrow> mem" where
  "fill_fields m v n f = fold (\<lambda>i m. Set_Field m v (of_nat i) (f i)) [0..<n] m"

definition caml_alloc_with_reserved :: "heap \<Rightarrow> u64 \<Rightarrow> u32 \<Rightarrow> u64 \<Rightarrow> (heap \<times> val) option" where
  "caml_alloc_with_reserved h wosize tag reserved =
     (let scannable_wosize = Scannable_wosize_reserved_byte reserved wosize
      in if wosize \<le> Max_young_wosize
         then if wosize = 0 then Some (h, caml_atom h tag)
              else case Alloc_small_with_reserved h wosize tag reserved of
                     None \<Rightarrow> None
                   | Some (h, result) \<Rightarrow>
                       Some (if tag < No_scan_tag
                             then h\<lparr>hp_mem := fill_fields (hp_mem h) result (unat scannable_wosize) (\<lambda>_. Val_unit)\<rparr>
                             else h, result)
         else None)"

definition caml_alloc :: "heap \<Rightarrow> u64 \<Rightarrow> u32 \<Rightarrow> (heap \<times> val) option" where
  "caml_alloc h wosize tag = caml_alloc_with_reserved h wosize tag 0"

definition Do_alloc_small :: "heap \<Rightarrow> u32 \<Rightarrow> val list \<Rightarrow> (heap \<times> val) option" where
  "Do_alloc_small h tag vals =
     (case Alloc_small h (of_nat (length vals)) tag of
        None \<Rightarrow> None
      | Some (h, v) \<Rightarrow>
          Some (h\<lparr>hp_mem := fill_fields (hp_mem h) v (length vals) (\<lambda>j. vals ! j)\<rparr>, v))"

definition caml_alloc_1 where "caml_alloc_1 h tag a = Do_alloc_small h tag [a]"
definition caml_alloc_2 where "caml_alloc_2 h tag a b = Do_alloc_small h tag [a, b]"
definition caml_alloc_3 where "caml_alloc_3 h tag a b c = Do_alloc_small h tag [a, b, c]"
definition caml_alloc_4 where "caml_alloc_4 h tag a b c d = Do_alloc_small h tag [a, b, c, d]"
definition caml_alloc_5 where "caml_alloc_5 h tag a b c d e = Do_alloc_small h tag [a, b, c, d, e]"
definition caml_alloc_6 where
  "caml_alloc_6 h tag a b c d e f = Do_alloc_small h tag [a, b, c, d, e, f]"
definition caml_alloc_7 where
  "caml_alloc_7 h tag a b c d e f g = Do_alloc_small h tag [a, b, c, d, e, f, g]"
definition caml_alloc_8 where
  "caml_alloc_8 h tag a b c d e f g i = Do_alloc_small h tag [a, b, c, d, e, f, g, i]"
definition caml_alloc_9 where
  "caml_alloc_9 h tag a b c d e f g i j = Do_alloc_small h tag [a, b, c, d, e, f, g, i, j]"

definition caml_alloc_small_with_reserved :: "heap \<Rightarrow> u64 \<Rightarrow> u32 \<Rightarrow> u64 \<Rightarrow> (heap \<times> val) option" where
  "caml_alloc_small_with_reserved h wosize tag reserved = Alloc_small_with_reserved h wosize tag reserved"

definition caml_alloc_small :: "heap \<Rightarrow> u64 \<Rightarrow> u32 \<Rightarrow> (heap \<times> val) option" where
  "caml_alloc_small h wosize tag = caml_alloc_small_with_reserved h wosize tag 0"

definition caml_alloc_tuple :: "heap \<Rightarrow> u64 \<Rightarrow> (heap \<times> val) option" where
  "caml_alloc_tuple h n = caml_alloc h n 0"

definition caml_alloc_string :: "heap \<Rightarrow> u64 \<Rightarrow> (heap \<times> val) option" where
  "caml_alloc_string h len =
     (let wosize = (len + 8) div 8
      in if wosize \<le> Max_young_wosize
         then case Alloc_small h wosize String_tag of
                None \<Rightarrow> None
              | Some (h, result) \<Rightarrow>
                  let m = Set_Field (hp_mem h) result (wosize - 1) 0;
                      offset_index = Bsize_wsize wosize - 1
                  in Some (h\<lparr>hp_mem := Set_Byte m result offset_index (ucast (offset_index - len))\<rparr>, result)
         else None)"

text \<open>\<open>memcpy\<close> of a list of bytes to an address.\<close>

definition copy_bytes :: "mem \<Rightarrow> addr \<Rightarrow> u8 list \<Rightarrow> mem" where
  "copy_bytes m a bs = (\<lambda>b. if unat (b - a) < length bs then bs ! unat (b - a) else m b)"

definition caml_alloc_initialized_string :: "heap \<Rightarrow> u8 list \<Rightarrow> (heap \<times> val) option" where
  "caml_alloc_initialized_string h p =
     (case caml_alloc_string h (of_nat (length p)) of
        None \<Rightarrow> None
      | Some (h, result) \<Rightarrow> Some (h\<lparr>hp_mem := copy_bytes (hp_mem h) result p\<rparr>, result))"

text \<open>\<open>caml_copy_string\<close> copies a C string: its bytes up to the first null byte.\<close>

definition caml_copy_string :: "heap \<Rightarrow> u8 list \<Rightarrow> (heap \<times> val) option" where
  "caml_copy_string h s = caml_alloc_initialized_string h (takeWhile (\<lambda>c. c \<noteq> 0) s)"

definition caml_alloc_some :: "heap \<Rightarrow> val \<Rightarrow> (heap \<times> val) option" where
  "caml_alloc_some h v =
     (case caml_alloc_small h 1 0 of
        None \<Rightarrow> None
      | Some (h, some) \<Rightarrow> Some (h\<lparr>hp_mem := Set_Field (hp_mem h) some 0 v\<rparr>, some))"

text \<open>
  Custom blocks (\<open>runtime/custom.c\<close>) and boxed integers (\<open>runtime/ints.c\<close>). The operations table
  is known by its address; \<open>finalize\<close> says whether it has a finalizer. Blocks on the local stack
  and in the major heap are outside the model.
\<close>

definition alloc_custom_gen :: "heap \<Rightarrow> addr \<Rightarrow> bool \<Rightarrow> u64 \<Rightarrow> bool \<Rightarrow> bool \<Rightarrow> (heap \<times> val) option" where
  "alloc_custom_gen h ops finalize bsz minor_ok local =
     (let wosize = 1 + (bsz + 8 - 1) div 8
      in if local then None
         else if wosize \<le> Max_young_wosize \<and> minor_ok
         then case caml_alloc_small h wosize Custom_tag of
                None \<Rightarrow> None
              | Some (h, result) \<Rightarrow>
                  let h = h\<lparr>hp_mem := Set_Field (hp_mem h) result 0 ops\<rparr>
                  in Some (if finalize then h\<lparr>minor_custom_table := minor_custom_table h @ [result]\<rparr> else h, result)
         else None)"

definition caml_alloc_custom :: "heap \<Rightarrow> addr \<Rightarrow> bool \<Rightarrow> u64 \<Rightarrow> (heap \<times> val) option" where
  "caml_alloc_custom h ops finalize bsz = alloc_custom_gen h ops finalize bsz True False"

definition Data_custom_val :: "val \<Rightarrow> addr" where "Data_custom_val v = v + 8"

definition Int32_val :: "mem \<Rightarrow> val \<Rightarrow> u32" where "Int32_val m v = load32 m (Data_custom_val v)"
definition Int64_val :: "mem \<Rightarrow> val \<Rightarrow> u64" where "Int64_val m v = load64 m (Data_custom_val v)"
definition Nativeint_val :: "mem \<Rightarrow> val \<Rightarrow> u64" where "Nativeint_val m v = load64 m (Data_custom_val v)"

definition caml_copy_int32 :: "heap \<Rightarrow> u32 \<Rightarrow> (heap \<times> val) option" where
  "caml_copy_int32 h i =
     (case caml_alloc_custom h (caml_int32_ops h) False 4 of
        None \<Rightarrow> None
      | Some (h, res) \<Rightarrow> Some (h\<lparr>hp_mem := store_le (hp_mem h) (Data_custom_val res) 4 (ucast i)\<rparr>, res))"

definition caml_copy_int64 :: "heap \<Rightarrow> u64 \<Rightarrow> (heap \<times> val) option" where
  "caml_copy_int64 h i =
     (case caml_alloc_custom h (caml_int64_ops h) False 8 of
        None \<Rightarrow> None
      | Some (h, res) \<Rightarrow> Some (h\<lparr>hp_mem := store64 (hp_mem h) (Data_custom_val res) i\<rparr>, res))"

definition caml_copy_nativeint :: "heap \<Rightarrow> u64 \<Rightarrow> (heap \<times> val) option" where
  "caml_copy_nativeint h i =
     (case caml_alloc_custom h (caml_nativeint_ops h) False 8 of
        None \<Rightarrow> None
      | Some (h, res) \<Rightarrow> Some (h\<lparr>hp_mem := store64 (hp_mem h) (Data_custom_val res) i\<rparr>, res))"

text \<open>The length of a string block (\<open>runtime/str.c\<close>): the last byte tells how much padding it has.\<close>

definition caml_string_length :: "mem \<Rightarrow> val \<Rightarrow> u64" where
  "caml_string_length m s = (let temp = Bosize_val m s - 1 in temp - scast (m (s + temp)))"

partial_function (option) caml_convert_flag_list ::
  "mem \<Rightarrow> val \<Rightarrow> (u32 \<Rightarrow> u32) \<Rightarrow> u32 \<Rightarrow> u32 option" where
  "caml_convert_flag_list m l flags res =
     (if l = Val_int 0 then Some res
      else caml_convert_flag_list m (Field m l 1) flags (res OR flags (Int_val (Field m l 0))))"

subsection \<open>Fields of one block do not overlap\<close>

definition apart :: "addr \<Rightarrow> addr \<Rightarrow> bool" where
  "apart a b \<longleftrightarrow> 8 \<le> unat (a - b) \<and> 8 \<le> unat (b - a)"

lemma apartI:
  assumes "a - b = 8 * word_of_int k" "k \<noteq> 0" "\<bar>k\<bar> < 2 ^ 60"
  shows "apart a b"
proof -
  have *: "8 \<le> unat (8 * word_of_int j :: addr)" if j: "j \<noteq> 0" "\<bar>j\<bar> < 2 ^ 60" for j
  proof -
    have w: "8 * word_of_int j = (word_of_int (8 * j) :: addr)" by simp
    have "uint (word_of_int (8 * j) :: addr) = (8 * j) mod 2 ^ 64" unfolding uint_word_of_int by simp
    also have "8 \<le> \<dots>"
    proof (cases "0 < j")
      case True
      have "(8 * j) mod 2 ^ 64 = 8 * j" by (rule mod_pos_pos_trivial) (use True j in auto)
      then show ?thesis using True by linarith
    next
      case False
      have "(8 * j + 2 ^ 64) mod 2 ^ 64 = 8 * j + 2 ^ 64"
        by (rule mod_pos_pos_trivial) (use False j in auto)
      then have "(8 * j) mod 2 ^ 64 = 8 * j + 2 ^ 64" by (rule trans [OF mod_add_self2 [symmetric]])
      moreover have "8 \<le> 8 * j + 2 ^ 64" using j by simp
      ultimately show ?thesis by (rule ord_le_eq_trans [OF _ sym, rotated])
    qed
    finally have "nat 8 \<le> nat (uint (word_of_int (8 * j) :: addr))" by (rule nat_mono)
    then show ?thesis unfolding w unat_eq_nat_uint by (simp only: nat_numeral)
  qed
  have "b - a = 8 * word_of_int (- k)" using arg_cong [OF assms(1), of uminus] by simp
  then show ?thesis unfolding apart_def using assms * [of k] * [of "- k"] by simp
qed

lemma Field_Set_Field: "Field (Set_Field m v i x) v i = x"
  by (simp add: Field_def Set_Field_def mem_simps)

lemma load64_Set_Field_apart: "apart a (v + 8 * i) \<Longrightarrow> load64 (Set_Field m v i x) a = load64 m a"
  unfolding Set_Field_def apart_def by (rule load64_store64_other) auto

lemma field_apart:
  "i \<noteq> j \<Longrightarrow> i < 2 ^ 59 \<Longrightarrow> j < 2 ^ 59 \<Longrightarrow> apart (v + 8 * of_nat i) (v + 8 * of_nat j)"
  by (rule apartI [where k = "int i - int j"]) (auto simp: algebra_simps)

lemma header_apart: "i < 2 ^ 59 \<Longrightarrow> apart (v - 8) (v + 8 * of_nat i)"
  by (rule apartI [where k = "- (int i + 1)"]) (auto simp: algebra_simps)

lemma load64_fill_fields:
  "(\<And>i. i < n \<Longrightarrow> apart a (v + 8 * of_nat i)) \<Longrightarrow> load64 (fill_fields m v n f) a = load64 m a"
  unfolding fill_fields_def by (induction n) (auto simp: load64_Set_Field_apart)

lemma Field_fill_fields:
  "n \<le> 2 ^ 59 \<Longrightarrow> i < n \<Longrightarrow> Field (fill_fields m v n f) v (of_nat i) = f i"
proof (induction n)
  case (Suc n)
  show ?case
  proof (cases "i = n")
    case True
    then show ?thesis by (simp add: fill_fields_def Field_Set_Field)
  next
    case False
    then have "Field (fill_fields m v (Suc n) f) v (of_nat i) = Field (fill_fields m v n f) v (of_nat i)"
      using Suc.prems unfolding Field_def fill_fields_def
      by (simp add: load64_Set_Field_apart field_apart)
    then show ?thesis using Suc False by simp
  qed
qed simp

lemma Hd_val_fill_fields: "n \<le> 2 ^ 59 \<Longrightarrow> Hd_val (fill_fields m v n f) v = Hd_val m v"
  unfolding Hd_val_def by (rule load64_fill_fields) (simp add: header_apart)

subsection \<open>Allocation\<close>

text \<open>
  The minor heap lies above the first page, the pointer is aligned and not below the limit, so
  the subtraction of a small block does not wrap.
\<close>

definition heap_ok :: "heap \<Rightarrow> bool" where
  "heap_ok h \<longleftrightarrow> 4096 \<le> unat (young_limit h) \<and> unat (young_limit h) \<le> unat (young_ptr h) \<and>
     8 dvd unat (young_ptr h)"

text \<open>\<open>young_block h v n\<close>: a block of \<open>n\<close> words at \<open>v\<close>, just below the old pointer of \<open>h\<close>.\<close>

definition young_block :: "heap \<Rightarrow> val \<Rightarrow> nat \<Rightarrow> bool" where
  "young_block h v n \<longleftrightarrow> unat v + 8 * n = unat (young_ptr h) \<and> 8 \<le> unat v \<and> 8 dvd unat v"

definition keeps_old :: "heap \<Rightarrow> mem \<Rightarrow> bool" where
  "keeps_old h m \<longleftrightarrow> (\<forall>b. unat (young_ptr h) \<le> unat b \<longrightarrow> m b = hp_mem h b)"

lemma Is_block_aligned: "8 dvd unat v \<Longrightarrow> 8 \<le> unat v \<Longrightarrow> Is_block v"
proof -
  assume a: "8 dvd unat v" "8 \<le> unat v"
  then have "even (unat v)" by (meson dvd_trans even_numeral)
  then have "\<not> bit (unat v) 0" by (simp add: bit_0)
  then have "\<not> bit v 0" by (simp add: bit_unsigned_iff)
  then have "v AND 1 = 0" by (simp add: and_one_eq odd_iff_mod_2_eq_one bit_0)
  moreover have "v \<noteq> 0" using a(2) by auto
  ultimately show ?thesis by (simp add: Is_block_def)
qed

lemma unat_diff_block:
  assumes "young_block h v n" "unat (young_ptr h) \<le> unat b" "k \<le> 8 * n"
  shows "unat (b - (v + of_nat k)) = unat b - unat v - k" "8 * n - k \<le> unat (b - (v + of_nat k))"
proof -
  have k: "unat v + k < 2 ^ 64" using assms unat64_less [of "young_ptr h"] by (auto simp: young_block_def)
  then have v: "unat (v + of_nat k) = unat v + k" by (simp add: unat_word_ariths unat_of_nat)
  have "v + of_nat k \<le> b" using assms v by (auto simp: word_le_nat_alt young_block_def)
  from unat_sub [OF this] v show e: "unat (b - (v + of_nat k)) = unat b - unat v - k" by simp
  show "8 * n - k \<le> unat (b - (v + of_nat k))" unfolding e using assms by (auto simp: young_block_def)
qed

lemma keeps_old_Set_Field:
  assumes "keeps_old h m" "young_block h v n" "i < n"
  shows "keeps_old h (Set_Field m v (of_nat i) x)"
  unfolding keeps_old_def
proof (intro allI impI)
  fix b :: addr assume b: "unat (young_ptr h) \<le> unat b"
  have "8 \<le> unat (b - (v + of_nat (8 * i)))"
    using unat_diff_block(2) [OF assms(2) b, of "8 * i"] assms(3) by simp
  then have "Set_Field m v (of_nat i) x b = m b" unfolding Set_Field_def by (intro store_le_other) simp
  with assms(1) b show "Set_Field m v (of_nat i) x b = hp_mem h b" by (simp add: keeps_old_def)
qed

lemma keeps_old_fill_fields:
  "keeps_old h m \<Longrightarrow> young_block h v n \<Longrightarrow> k \<le> n \<Longrightarrow> keeps_old h (fill_fields m v k f)"
  unfolding fill_fields_def by (induction k) (auto intro: keeps_old_Set_Field)

lemma Alloc_small_props:
  assumes ok: "heap_ok h" and ws: "wosize \<le> Max_young_wosize"
    and a: "Alloc_small_with_reserved h wosize tag reserved = Some (h', v)"
  shows "young_block h v (unat wosize)" "heap_ok h'" "keeps_old h (hp_mem h')" "young_ptr h' = v - 8"
    "Hd_val (hp_mem h') v = Make_header_with_reserved wosize tag 0 reserved"
    "caml_atom h' = caml_atom h" "young_limit h' = young_limit h"
proof -
  let ?p = "young_ptr h - Bsize_wsize (Whsize_wosize wosize)"
  have n: "unat wosize \<le> 256" using ws by (simp add: Max_young_wosize_def word_le_nat_alt)
  have sz: "unat (Bsize_wsize (Whsize_wosize wosize)) = 8 * unat wosize + 8"
    using n by (simp add: Bsize_wsize_def Whsize_wosize_def unat_word_ariths)
  have le: "Bsize_wsize (Whsize_wosize wosize) \<le> young_ptr h"
    using ok n sz by (simp add: heap_ok_def word_le_nat_alt)
  have p: "unat ?p = unat (young_ptr h) - (8 * unat wosize + 8)" using unat_sub [OF le] sz by simp
  have h': "h' = h\<lparr>young_ptr := ?p, hp_mem := store64 (hp_mem h) ?p (Make_header_with_reserved wosize tag 0 reserved)\<rparr>"
    "v = ?p + 8" "\<not> ?p < young_limit h"
    using a by (auto simp: Alloc_small_with_reserved_def Let_def Caml_check_gc_interrupt_def split: if_splits)
  have v: "unat v = unat ?p + 8"
    using h'(2) p n ok unat64_less [of "young_ptr h"] by (simp add: unat_word_ariths heap_ok_def)
  show yb: "young_block h v (unat wosize)"
    using p v n ok by (auto simp: young_block_def heap_ok_def)
  have "8 dvd unat ?p" unfolding p using ok by (intro dvd_diff_nat) (auto simp: heap_ok_def)
  then show "heap_ok h'" using ok h' by (simp add: heap_ok_def word_less_nat_alt)
  show "young_ptr h' = v - 8" "caml_atom h' = caml_atom h" "young_limit h' = young_limit h" using h' by auto
  show "Hd_val (hp_mem h') v = Make_header_with_reserved wosize tag 0 reserved"
    using h' by (simp add: Hd_val_def mem_simps)
  show "keeps_old h (hp_mem h')" unfolding keeps_old_def
  proof (intro allI impI)
    fix b :: addr assume "unat (young_ptr h) \<le> unat b"
    moreover from this have "?p \<le> b" using p by (simp add: word_le_nat_alt)
    ultimately have "8 \<le> unat (b - ?p)" using unat_sub [OF \<open>?p \<le> b\<close>] p n ok by (simp add: heap_ok_def)
    then show "hp_mem h' b = hp_mem h b" using h'(1) by (simp add: store_le_other)
  qed
qed

lemma Do_alloc_small_props:
  assumes ok: "heap_ok h" and n: "length vals \<le> 256" and tag: "tag < 256"
    and a: "Do_alloc_small h tag vals = Some (h', v)"
  shows "Is_block v" "Wosize_val (hp_mem h') v = of_nat (length vals)" "Tag_val (hp_mem h') v = tag"
    "i < length vals \<Longrightarrow> Field (hp_mem h') v (of_nat i) = vals ! i" "keeps_old h (hp_mem h')" "heap_ok h'"
proof -
  obtain h1 where h1: "Alloc_small_with_reserved h (of_nat (length vals)) tag 0 = Some (h1, v)"
    "h' = h1\<lparr>hp_mem := fill_fields (hp_mem h1) v (length vals) (\<lambda>j. vals ! j)\<rparr>"
    using a by (auto simp: Do_alloc_small_def Alloc_small_def split: option.splits)
  have ws: "of_nat (length vals) \<le> Max_young_wosize" "unat (of_nat (length vals) :: u64) = length vals"
    using n by (simp_all add: Max_young_wosize_def word_le_nat_alt unat_of_nat)
  note p = Alloc_small_props [OF ok ws(1) h1(1)]
  have hd: "Hd_val (hp_mem h') v = Make_header_with_reserved (of_nat (length vals)) tag 0 0"
    using h1(2) n p(5) by (simp add: Hd_val_fill_fields)
  have parts: "header_parts_ok (of_nat (length vals)) tag 0 0"
    using n tag ws(2) by (simp add: header_parts_ok_def Max_wosize_def word_le_nat_alt mask_eq_exp_minus_1)
  show "Is_block v" using p(1) by (auto simp: young_block_def intro: Is_block_aligned)
  show "Wosize_val (hp_mem h') v = of_nat (length vals)" using hd parts by (simp add: Wosize_val_def tag_simps)
  have "Tag_hd (Hd_val (hp_mem h') v) = tag" unfolding hd using parts by (rule Tag_hd_Make_header)
  then show "Tag_val (hp_mem h') v = tag" by (simp add: tag_simps)
  show "i < length vals \<Longrightarrow> Field (hp_mem h') v (of_nat i) = vals ! i"
    using h1(2) n by (simp add: Field_fill_fields)
  show "keeps_old h (hp_mem h')" using h1(2) p(1,3) ws(2) by (simp add: keeps_old_fill_fields)
  show "heap_ok h'" using p(2) h1(2) by (simp add: heap_ok_def)
qed

subsection \<open>Strings\<close>

definition bytes_at :: "mem \<Rightarrow> addr \<Rightarrow> u8 list \<Rightarrow> bool" where
  "bytes_at m a xs \<longleftrightarrow> (\<forall>i<length xs. m (a + of_nat i) = xs ! i)"

definition string_words :: "nat \<Rightarrow> nat" where
  "string_words len = len div 8 + 1"

definition string_pad :: "nat \<Rightarrow> nat" where
  "string_pad len = 8 * string_words len - 1 - len"

definition string_image :: "u8 list \<Rightarrow> u8 list" where
  "string_image bs = bs @ replicate (string_pad (length bs)) 0 @ [of_nat (string_pad (length bs))]"

text \<open>A string block that holds the bytes \<open>bs\<close>, padded to whole words.\<close>

definition string_block :: "mem \<Rightarrow> val \<Rightarrow> u8 list \<Rightarrow> bool" where
  "string_block m v bs \<longleftrightarrow> length bs < 2 ^ 48 \<and> Wosize_val m v = of_nat (string_words (length bs)) \<and>
     Tag_val m v = String_tag \<and> bytes_at m v (string_image bs)"

lemma string_pad_less: "string_pad n < 8" "n + string_pad n + 1 = 8 * string_words n"
  by (auto simp: string_pad_def string_words_def)

lemma length_string_image [simp]: "length (string_image bs) = 8 * string_words (length bs)"
  using string_pad_less(2) [of "length bs"] by (simp add: string_image_def)

lemma byte_Set_Field:
  assumes "i < 2 ^ 59" "j < 2 ^ 56"
  shows "Set_Field m v (of_nat j) x (v + of_nat i) =
    (if 8 * j \<le> i \<and> i < 8 * j + 8 then ucast (drop_bit (8 * (i - 8 * j)) x) else m (v + of_nat i))"
proof -
  have "unat (of_nat i - of_nat (8 * j) :: u64) = (if 8 * j \<le> i then i - 8 * j else 2 ^ 64 - (8 * j - i))"
    using assms by (intro unat_of_nat_diff) auto
  then have "unat (v + of_nat i - (v + 8 * of_nat j)) = (if 8 * j \<le> i then i - 8 * j else 2 ^ 64 - (8 * j - i))"
    by simp
  then show ?thesis using assms unfolding Set_Field_def store_le_def by auto
qed

lemma string_block_byte:
  "string_block m v bs \<Longrightarrow> i < 8 * string_words (length bs) \<Longrightarrow> m (v + of_nat i) = string_image bs ! i"
  by (simp add: string_block_def bytes_at_def)

lemma string_length_block: "string_block m v bs \<Longrightarrow> caml_string_length m v = of_nat (length bs)"
proof -
  assume b: "string_block m v bs"
  let ?n = "length bs" and ?w = "string_words (length bs)"
  have e: "8 * ?w - 1 = ?n + string_pad ?n" using string_pad_less(2) [of ?n] by simp
  have "string_image bs ! (8 * ?w - 1) = of_nat (string_pad ?n)"
    unfolding e by (simp add: string_image_def nth_append)
  then have l: "m (v + of_nat (8 * ?w - 1)) = of_nat (string_pad ?n)"
    using string_block_byte [OF b, of "8 * ?w - 1"] by (simp only: string_words_def) simp
  have "scast (of_nat (string_pad ?n) :: u8) = (of_nat (string_pad ?n) :: u64)"
    using string_pad_less(1) [of ?n] by (auto simp: less_Suc_eq numeral_eq_Suc)
  moreover have t: "Bosize_val m v - 1 = of_nat (8 * ?w - 1)"
    using b by (simp add: string_block_def Bosize_val_def Bsize_wsize_def string_words_def algebra_simps)
  ultimately have "caml_string_length m v = of_nat (8 * ?w - 1) - of_nat (string_pad ?n)"
    using l by (simp add: caml_string_length_def Let_def)
  then show ?thesis unfolding e by simp
qed

lemma string_block_prefix:
  assumes "string_block m v bs"
  shows "bytes_at m v bs" "m (v + of_nat (length bs)) = 0"
proof -
  note b = string_block_byte [OF assms] and p = string_pad_less [of "length bs"]
  show "bytes_at m v bs" unfolding bytes_at_def
  proof (intro allI impI)
    fix i assume "i < length bs"
    then show "m (v + of_nat i) = bs ! i" using b [of i] p by (simp add: string_image_def nth_append)
  qed
  have "string_image bs ! length bs = 0" by (cases "string_pad (length bs)") (simp_all add: string_image_def nth_append)
  then show "m (v + of_nat (length bs)) = 0" using b [of "length bs"] p by simp
qed

lemma load64_upd_other: "8 \<le> unat (a - c) \<Longrightarrow> load64 (m(a := b)) c = load64 m c"
  unfolding load64_def
proof (rule load_le_cong)
  fix i :: nat assume "8 \<le> unat (a - c)" "i < 8"
  then have "c + of_nat i \<noteq> a" by (auto simp: unat_of_nat)
  then show "(m(a := b)) (c + of_nat i) = m (c + of_nat i)" by simp
qed

lemma header_block:
  assumes "Hd_val m v = Make_header_with_reserved (of_nat n) tag 0 0" "n < 2 ^ 46" "tag < 256"
  shows "Wosize_val m v = of_nat n" "Tag_val m v = tag"
proof -
  have "unat (of_nat n :: u64) = n" using assms(2) by (simp add: unat_of_nat)
  then have parts: "header_parts_ok (of_nat n) tag 0 0"
    using assms(2,3) by (simp add: header_parts_ok_def Max_wosize_def word_le_nat_alt mask_eq_exp_minus_1)
  show "Wosize_val m v = of_nat n" using assms(1) parts by (simp add: Wosize_val_def tag_simps)
  have "Tag_hd (Hd_val m v) = tag" unfolding assms(1) using parts by (rule Tag_hd_Make_header)
  then show "Tag_val m v = tag" by (simp add: tag_simps)
qed

lemma Hd_val_Set_Byte: "k < 2 ^ 62 \<Longrightarrow> Hd_val (Set_Byte m v (of_nat k) b) v = Hd_val m v"
proof -
  assume "k < 2 ^ 62"
  then have "unat (of_nat (k + 8) :: u64) = k + 8" unfolding unat_of_nat by simp
  moreover have "v + of_nat k - (v - 8) = of_nat (k + 8)" by simp
  ultimately show ?thesis unfolding Hd_val_def Set_Byte_def by (intro load64_upd_other) (simp only: le_add2)
qed

lemma Hd_val_Set_Field: "i < 2 ^ 59 \<Longrightarrow> Hd_val (Set_Field m v (of_nat i) x) v = Hd_val m v"
  unfolding Hd_val_def by (rule load64_Set_Field_apart) (rule header_apart)

lemma keeps_old_Set_Byte:
  assumes "keeps_old h m" "young_block h v n" "k < 8 * n"
  shows "keeps_old h (Set_Byte m v (of_nat k) x)"
  unfolding keeps_old_def
proof (intro allI impI)
  fix b :: addr assume b: "unat (young_ptr h) \<le> unat b"
  have "unat (b - (v + of_nat k)) \<noteq> 0" using unat_diff_block(2) [OF assms(2) b, of k] assms(3) by simp
  then have "b \<noteq> v + of_nat k" by auto
  with assms(1) b show "Set_Byte m v (of_nat k) x b = hp_mem h b" by (simp add: keeps_old_def Set_Byte_def)
qed

text \<open>The padding that \<open>caml_alloc_string\<close> writes makes its result a string block of the length asked for.\<close>

lemma string_padding:
  assumes n: "n < 2 ^ 48" and W: "W = string_words n"
    and hd: "Wosize_val m v = of_nat W" "Tag_val m v = String_tag"
    and m': "m' = Set_Byte (Set_Field m v (of_nat (W - 1)) 0) v (of_nat (8 * W - 1)) (of_nat (string_pad n))"
  shows "string_block m' v (map (\<lambda>i. m' (v + of_nat i)) [0..<n])"
proof -
  let ?bs = "map (\<lambda>i. m' (v + of_nat i)) [0..<n]"
  have Wn: "W < 2 ^ 46" "0 < W" "8 * W - 1 < 2 ^ 59" "n + string_pad n = 8 * W - 1"
    using n string_pad_less [of n] by (auto simp: W string_words_def)
  have "Hd_val m' v = Hd_val m v" unfolding m' using Wn
    by (subst Hd_val_Set_Byte, simp, subst Hd_val_Set_Field, simp_all)
  then have hb: "Wosize_val m' v = of_nat W" "Tag_val m' v = String_tag"
    using hd by (simp_all add: Wosize_val_def flip: Tag_val_Hd_val)
  have "m' (v + of_nat i) = string_image ?bs ! i" if i: "i < 8 * W" for i
  proof -
    have eq: "v + of_nat i = v + of_nat (8 * W - 1) \<longleftrightarrow> i = 8 * W - 1"
      using of_nat_u64_eq_iff [of i "8 * W - 1"] i Wn by simp
    have m: "m' (v + of_nat i) = (if i = 8 * W - 1 then of_nat (string_pad n) else
        if 8 * (W - 1) \<le> i then 0 else m (v + of_nat i))"
      unfolding m' Set_Byte_def fun_upd_apply eq using i Wn by (subst byte_Set_Field) auto
    consider "i < n" | "n \<le> i" "i < 8 * W - 1" | "i = 8 * W - 1" using i by linarith
    then show ?thesis
    proof cases
      case 2
      then have "8 * (W - 1) \<le> i" "i - n < string_pad n" using Wn(4) by (simp_all add: W string_words_def)
      then show ?thesis using 2 Wn m by (simp add: string_image_def nth_append)
    next
      case 3
      then have i: "i = n + string_pad n" using Wn(4) by simp
      have "string_image ?bs ! (n + string_pad n) = of_nat (string_pad n)" by (simp add: string_image_def nth_append)
      then show ?thesis unfolding m i [symmetric] using 3 by (simp only: if_True simp_thms)
    qed (simp add: string_image_def nth_append)
  qed
  then show ?thesis using n hb by (simp add: string_block_def bytes_at_def W String_tag_def)
qed

lemma string_size_word:
  assumes n: "n < 2 ^ 48"
  shows "(of_nat n + 8 :: u64) div 8 = of_nat (string_words n)"
proof (rule word_unat_eq_iff [THEN iffD2])
  have "unat ((of_nat n + 8 :: u64) div 8) = (n + 8) div 8"
    using n by (simp add: unat_div_distrib unat_word_ariths unat_of_nat)
  then show "unat ((of_nat n + 8 :: u64) div 8) = unat (of_nat (string_words n) :: u64)"
    using n by (simp add: string_words_def unat_word_ariths unat_of_nat)
qed

lemma string_pad_word:
  "of_nat (string_words n) - 1 = (of_nat (string_words n - 1) :: u64)"
  "8 * of_nat (string_words n) - 1 = (of_nat (8 * string_words n - 1) :: u64)"
  "ucast (of_nat (8 * string_words n - 1) - of_nat n :: u64) = (of_nat (string_pad n) :: u8)"
proof -
  show "of_nat (string_words n) - 1 = (of_nat (string_words n - 1) :: u64)"
    "8 * of_nat (string_words n) - 1 = (of_nat (8 * string_words n - 1) :: u64)" by (simp_all add: string_words_def)
  have "8 * string_words n - 1 - n = string_pad n" "n \<le> 8 * string_words n - 1" using string_pad_less [of n] by auto
  then have "(of_nat (8 * string_words n - 1) - of_nat n :: u64) = of_nat (string_pad n)" by (metis of_nat_diff)
  moreover have "ucast (of_nat (string_pad n) :: u64) = (of_nat (string_pad n) :: u8)"
    using string_pad_less(1) [of n]
    by (intro word_unat_eq_iff [THEN iffD2]) (simp add: unsigned_ucast_eq unat_of_nat take_bit_eq_mod)
  ultimately show "ucast (of_nat (8 * string_words n - 1) - of_nat n :: u64) = (of_nat (string_pad n) :: u8)" by simp
qed

lemma caml_alloc_string_block:
  assumes ok: "heap_ok h" and n: "n < 2 ^ 48" and a: "caml_alloc_string h (of_nat n) = Some (h', v)"
  shows "\<exists>bs. length bs = n \<and> string_block (hp_mem h') v bs" "keeps_old h (hp_mem h')" "heap_ok h'"
    "Is_block v" "young_block h v (string_words n)"
proof -
  let ?W = "string_words n"
  note d = string_size_word [OF n]
  obtain h1 where h1: "of_nat ?W \<le> Max_young_wosize" "Alloc_small_with_reserved h (of_nat ?W) String_tag 0 = Some (h1, v)"
    "h' = h1\<lparr>hp_mem := Set_Byte (Set_Field (hp_mem h1) v (of_nat ?W - 1) 0) v (8 * of_nat ?W - 1)
        (ucast (8 * of_nat ?W - 1 - of_nat n :: u64))\<rparr>"
    using a unfolding caml_alloc_string_def d Let_def
    by (auto simp: Alloc_small_def Bsize_wsize_def mult.commute split: option.splits if_splits)
  note p = Alloc_small_props [OF ok h1(1,2)]
  have W: "unat (of_nat ?W :: u64) = ?W" using n by (simp add: string_words_def unat_of_nat unat_word_ariths)
  have m': "hp_mem h' = Set_Byte (Set_Field (hp_mem h1) v (of_nat (?W - 1)) 0) v (of_nat (8 * ?W - 1)) (of_nat (string_pad n))"
    using h1(3) string_pad_word [of n] by simp
  have W46: "?W < 2 ^ 46" using n by (simp add: string_words_def)
  have "String_tag < 256" by (simp add: String_tag_def)
  note hb = header_block [OF p(5) W46 this]
  from string_padding [OF n refl hb m'] show "\<exists>bs. length bs = n \<and> string_block (hp_mem h') v bs" by (metis length_map length_upt minus_nat.diff_0)
  show "keeps_old h (hp_mem h')" unfolding m'
    by (intro keeps_old_Set_Byte keeps_old_Set_Field p(3)) (use p(1) W in \<open>auto simp: string_words_def\<close>)
  show "heap_ok h'" using p(2) h1(3) by (simp add: heap_ok_def)
  show "Is_block v" using p(1) by (auto simp: young_block_def intro: Is_block_aligned)
  show "young_block h v ?W" using p(1) W by simp
qed

lemma copy_bytes_at:
  assumes "i < 2 ^ 62" "length bs \<le> 2 ^ 62"
  shows "copy_bytes m a bs (a + of_nat i) = (if i < length bs then bs ! i else m (a + of_nat i))"
  using assms by (simp add: copy_bytes_def unat_of_nat)

lemma Hd_val_copy_bytes:
  assumes "length bs < 2 ^ 62"
  shows "Hd_val (copy_bytes m v bs) v = Hd_val m v"
  unfolding Hd_val_def load64_def
proof (rule load_le_cong)
  fix i :: nat assume "i < 8"
  then have "unat (v - 8 + of_nat i - v) = 2 ^ 64 - (8 - i)"
    using unat_of_nat_diff [of i 8] by simp
  then have "\<not> unat (v - 8 + of_nat i - v) < length bs" using assms by (simp only:) simp
  then show "copy_bytes m v bs (v - 8 + of_nat i) = m (v - 8 + of_nat i)"
    unfolding copy_bytes_def by (simp only: if_False)
qed

lemma string_block_copy:
  assumes "string_block m v bs" "length p = length bs"
  shows "string_block (copy_bytes m v p) v p"
proof -
  have l: "length bs < 2 ^ 48" using assms(1) by (simp add: string_block_def)
  then have w: "8 * string_words (length bs) < 2 ^ 62" by (simp add: string_words_def)
  have hd: "Hd_val (copy_bytes m v p) v = Hd_val m v" using l assms(2) by (simp add: Hd_val_copy_bytes)
  then have "Wosize_val (copy_bytes m v p) v = Wosize_val m v" "Tag_val (copy_bytes m v p) v = Tag_val m v"
    by (simp_all add: Wosize_val_def flip: Tag_val_Hd_val)
  moreover have "copy_bytes m v p (v + of_nat i) = string_image p ! i" if i: "i < 8 * string_words (length bs)" for i
  proof (cases "i < length p")
    case True
    then show ?thesis using l assms(2) by (simp add: copy_bytes_at string_image_def nth_append)
  next
    case False
    then have "copy_bytes m v p (v + of_nat i) = string_image bs ! i"
      using i w l assms by (subst copy_bytes_at) (auto intro: string_block_byte)
    then show ?thesis using False assms(2) by (simp add: string_image_def nth_append)
  qed
  ultimately show ?thesis using assms by (simp add: string_block_def bytes_at_def)
qed

lemma keeps_old_copy_bytes:
  assumes "keeps_old h m" "young_block h v n" "length bs \<le> 8 * n"
  shows "keeps_old h (copy_bytes m v bs)"
  unfolding keeps_old_def
proof (intro allI impI)
  fix b :: addr assume b: "unat (young_ptr h) \<le> unat b"
  have "length bs \<le> unat (b - v)" using unat_diff_block(2) [OF assms(2) b, of 0] assms(3) by simp
  with assms(1) b show "copy_bytes m v bs b = hp_mem h b" by (simp add: keeps_old_def copy_bytes_def)
qed

lemma caml_alloc_initialized_string_block:
  assumes ok: "heap_ok h" and n: "length p < 2 ^ 48"
    and a: "caml_alloc_initialized_string h p = Some (h', v)"
  shows "string_block (hp_mem h') v p" "keeps_old h (hp_mem h')" "heap_ok h'" "Is_block v"
proof -
  obtain h1 where h1: "caml_alloc_string h (of_nat (length p)) = Some (h1, v)"
    "h' = h1\<lparr>hp_mem := copy_bytes (hp_mem h1) v p\<rparr>"
    using a by (auto simp: caml_alloc_initialized_string_def split: option.splits)
  note s = caml_alloc_string_block [OF ok n h1(1)]
  then show "string_block (hp_mem h') v p" using h1(2) by (auto intro: string_block_copy)
  show "keeps_old h (hp_mem h')" using h1(2) s(2,5) string_pad_less(2) [of "length p"]
    by (auto intro: keeps_old_copy_bytes)
  show "heap_ok h'" using s(3) h1(2) by (simp add: heap_ok_def)
  show "Is_block v" by (rule s(4))
qed

subsection \<open>Boxed integers\<close>

lemma caml_alloc_custom_props:
  assumes ok: "heap_ok h" and b: "bsz \<le> 8" "0 < bsz"
    and a: "caml_alloc_custom h ops False bsz = Some (h', v)"
  shows "young_block h v 2" "heap_ok h'" "keeps_old h (hp_mem h')" "Wosize_val (hp_mem h') v = 2"
    "Tag_val (hp_mem h') v = Custom_tag" "Field (hp_mem h') v 0 = ops"
proof -
  have w: "1 + (bsz + 8 - 1) div 8 = 2"
  proof -
    have "1 + (bsz + 8 - 1) div 8 = (of_nat (unat (1 + (bsz + 8 - 1) div 8)))" by simp
    also have "unat (1 + (bsz + 8 - 1) div 8) = 2"
      using b by (simp add: unat_word_ariths unat_div_distrib word_le_nat_alt word_less_nat_alt div_nat_eqI)
    finally show ?thesis by simp
  qed
  obtain h1 where h1: "Alloc_small_with_reserved h (of_nat 2) Custom_tag 0 = Some (h1, v)"
    "h' = h1\<lparr>hp_mem := Set_Field (hp_mem h1) v (of_nat 0) ops\<rparr>"
    using a unfolding caml_alloc_custom_def alloc_custom_gen_def w Let_def
    by (auto simp: caml_alloc_small_def caml_alloc_small_with_reserved_def split: option.splits if_splits)
  have 2: "of_nat 2 \<le> Max_young_wosize" by (simp add: Max_young_wosize_def)
  note p = Alloc_small_props [OF ok 2 h1(1)]
  show yb: "young_block h v 2" using p(1) by simp
  show "heap_ok h'" using p(2) h1(2) by (simp add: heap_ok_def)
  show "keeps_old h (hp_mem h')" using keeps_old_Set_Field [OF p(3) yb, of 0 ops] h1(2) by simp
  have "Hd_val (hp_mem h') v = Make_header_with_reserved (of_nat 2) Custom_tag 0 0"
    using Hd_val_Set_Field [of 0 "hp_mem h1" v ops] h1(2) p(5) by simp
  note hb = header_block [OF this]
  show "Wosize_val (hp_mem h') v = 2" "Tag_val (hp_mem h') v = Custom_tag"
    using hb by (simp_all add: Custom_tag_def)
  show "Field (hp_mem h') v 0 = ops" using h1(2) Field_Set_Field [of "hp_mem h1" v 0 ops] by simp
qed

lemma boxed_store:
  assumes yb: "young_block h v 2" and k: "keeps_old h m" and n: "n \<le> 8"
  shows "keeps_old h (store_le m (v + 8) n x)" "Hd_val (store_le m (v + 8) n x) v = Hd_val m v"
    "Field (store_le m (v + 8) n x) v 0 = Field m v 0"
proof -
  show "keeps_old h (store_le m (v + 8) n x)" unfolding keeps_old_def
  proof (intro allI impI)
    fix b :: addr assume b: "unat (young_ptr h) \<le> unat b"
    have "n \<le> unat (b - (v + 8))" using unat_diff_block(2) [OF yb b, of 8] n by simp
    then show "store_le m (v + 8) n x b = hp_mem h b" using k b by (simp add: store_le_other keeps_old_def)
  qed
  have "load64 (store_le m (v + 8) n x) a = load64 m a" if a: "a = v + 8 * word_of_int j" "j = 0 \<or> j = - 1" for a j
    unfolding load64_def
  proof (rule load_le_cong)
    fix i :: nat assume i: "i < 8"
    have "unat (of_nat i - of_nat 8 :: u64) = 2 ^ 64 - (8 - i)" "unat (of_nat i - of_nat 16 :: u64) = 2 ^ 64 - (16 - i)"
      using i unat_of_nat_diff [of i 8] unat_of_nat_diff [of i 16] by simp_all
    then have "8 \<le> unat (a + of_nat i - (v + 8))" using a i by (auto simp: algebra_simps)
    then show "store_le m (v + 8) n x (a + of_nat i) = m (a + of_nat i)" using n by (intro store_le_other) simp
  qed
  note l = this
  show "Hd_val (store_le m (v + 8) n x) v = Hd_val m v" unfolding Hd_val_def using l [of "v - 8" "- 1"] by simp
  show "Field (store_le m (v + 8) n x) v 0 = Field m v 0" unfolding Field_def using l [of v 0] by simp
qed

lemma ucast_load_le_4: "ucast (load_le (store_le m a 4 (ucast (i :: u32))) a 4) = i"
  by (rule bit_word_eqI) (auto simp: mem_simps bit_simps)

lemma caml_copy_int32_props:
  assumes ok: "heap_ok h" and a: "caml_copy_int32 h i = Some (h', v)"
  shows "Int32_val (hp_mem h') v = i" "Is_block v" "Tag_val (hp_mem h') v = Custom_tag"
    "Field (hp_mem h') v 0 = caml_int32_ops h" "keeps_old h (hp_mem h')" "heap_ok h'"
proof -
  obtain h1 where h1: "caml_alloc_custom h (caml_int32_ops h) False 4 = Some (h1, v)"
    "h' = h1\<lparr>hp_mem := store_le (hp_mem h1) (v + 8) 4 (ucast i)\<rparr>"
    using a by (auto simp: caml_copy_int32_def Data_custom_val_def split: option.splits)
  have "4 \<le> (8 :: u64)" "0 < (4 :: u64)" by simp_all
  note p = caml_alloc_custom_props [OF ok this h1(1)]
  note s = boxed_store [OF p(1,3), of 4 "ucast i"]
  show "Int32_val (hp_mem h') v = i" using h1(2) by (simp add: Int32_val_def Data_custom_val_def load32_def ucast_load_le_4)
  show "Is_block v" using p(1) by (auto simp: young_block_def intro: Is_block_aligned)
  show "Tag_val (hp_mem h') v = Custom_tag" using s(2) p(5) h1(2) by (simp flip: Tag_val_Hd_val)
  show "Field (hp_mem h') v 0 = caml_int32_ops h" using s(3) p(6) h1(2) by simp
  show "keeps_old h (hp_mem h')" using s(1) h1(2) by simp
  show "heap_ok h'" using p(2) h1(2) by (simp add: heap_ok_def)
qed

lemma caml_copy_int64_props:
  assumes ok: "heap_ok h" and a: "caml_copy_int64 h i = Some (h', v)"
  shows "Int64_val (hp_mem h') v = i" "Is_block v" "Tag_val (hp_mem h') v = Custom_tag"
    "Field (hp_mem h') v 0 = caml_int64_ops h" "keeps_old h (hp_mem h')" "heap_ok h'"
proof -
  obtain h1 where h1: "caml_alloc_custom h (caml_int64_ops h) False 8 = Some (h1, v)"
    "h' = h1\<lparr>hp_mem := store64 (hp_mem h1) (v + 8) i\<rparr>"
    using a by (auto simp: caml_copy_int64_def Data_custom_val_def split: option.splits)
  have "8 \<le> (8 :: u64)" "0 < (8 :: u64)" by simp_all
  note p = caml_alloc_custom_props [OF ok this h1(1)]
  note s = boxed_store [OF p(1,3), of 8 i]
  show "Int64_val (hp_mem h') v = i" using h1(2) by (simp add: Int64_val_def Data_custom_val_def mem_simps)
  show "Is_block v" using p(1) by (auto simp: young_block_def intro: Is_block_aligned)
  show "Tag_val (hp_mem h') v = Custom_tag" using s(2) p(5) h1(2) by (simp flip: Tag_val_Hd_val)
  show "Field (hp_mem h') v 0 = caml_int64_ops h" using s(3) p(6) h1(2) by simp
  show "keeps_old h (hp_mem h')" using s(1) h1(2) by simp
  show "heap_ok h'" using p(2) h1(2) by (simp add: heap_ok_def)
qed

subsection \<open>Progress\<close>

text \<open>The fast path is taken whenever the block fits below the allocation pointer.\<close>

lemma Alloc_small_fits:
  assumes "heap_ok h" "wosize \<le> Max_young_wosize"
    "unat (young_limit h) + 8 * unat wosize + 8 \<le> unat (young_ptr h)"
  shows "Alloc_small_with_reserved h wosize tag reserved \<noteq> None"
proof -
  have n: "unat wosize \<le> 256" using assms(2) by (simp add: Max_young_wosize_def word_le_nat_alt)
  have sz: "unat (Bsize_wsize (Whsize_wosize wosize)) = 8 * unat wosize + 8"
    using n by (simp add: Bsize_wsize_def Whsize_wosize_def unat_word_ariths)
  have le: "Bsize_wsize (Whsize_wosize wosize) \<le> young_ptr h"
    using assms(3) sz by (simp add: word_le_nat_alt)
  have "\<not> young_ptr h - Bsize_wsize (Whsize_wosize wosize) < young_limit h"
    using unat_sub [OF le] sz assms(3) by (simp add: word_less_nat_alt)
  then show ?thesis by (simp add: Alloc_small_with_reserved_def Caml_check_gc_interrupt_def Let_def)
qed

lemma alloc_custom_fits:
  assumes "heap_ok h" "unat (young_limit h) + 24 \<le> unat (young_ptr h)" "sz \<in> {4, 8}"
  shows "caml_alloc_custom h ops False sz \<noteq> None"
proof -
  have 2: "2 \<le> Max_young_wosize" by (simp add: Max_young_wosize_def)
  have n: "Alloc_small_with_reserved h 2 Custom_tag 0 \<noteq> None"
    using Alloc_small_fits [OF assms(1) 2] assms(2) by simp
  show ?thesis using n 2 assms(3)
    by (auto simp: caml_alloc_custom_def alloc_custom_gen_def caml_alloc_small_def caml_alloc_small_with_reserved_def
        Let_def split: option.splits)
qed

lemma caml_copy_int32_fits:
  "heap_ok h \<Longrightarrow> unat (young_limit h) + 24 \<le> unat (young_ptr h) \<Longrightarrow> \<exists>h' v. caml_copy_int32 h i = Some (h', v)"
  using alloc_custom_fits [of h 4 "caml_int32_ops h"] by (force simp: caml_copy_int32_def split: option.splits)

lemma caml_copy_int64_fits:
  "heap_ok h \<Longrightarrow> unat (young_limit h) + 24 \<le> unat (young_ptr h) \<Longrightarrow> \<exists>h' v. caml_copy_int64 h i = Some (h', v)"
  using alloc_custom_fits [of h 8 "caml_int64_ops h"] by (force simp: caml_copy_int64_def split: option.splits)

definition sample_heap :: heap where
  "sample_heap = \<lparr>hp_mem = (\<lambda>_. 0), young_ptr = 0x20000, young_limit = 0x10000, caml_atom = (\<lambda>_. 0),
     minor_custom_table = [], caml_int32_ops = 0x100, caml_int64_ops = 0x200, caml_nativeint_ops = 0x300\<rparr>"

lemma sample_heap_ok: "heap_ok sample_heap"
  by (simp add: heap_ok_def sample_heap_def)

subsection \<open>Properties\<close>

text \<open>
  C37: a block that \<open>Do_alloc_small\<close> returns (the body of \<open>caml_alloc_1\<close> to \<open>caml_alloc_9\<close>) is an
  aligned block with the requested size, tag and fields, no live young data is overwritten, and
  the allocation succeeds whenever the minor heap has room for the block and its header.
\<close>

theorem alloc_small_block:
  assumes "heap_ok h" "length vals \<le> 256" "tag < 256"
    "unat (young_limit h) + 8 * length vals + 8 \<le> unat (young_ptr h)"
  shows "\<exists>h' v. Do_alloc_small h tag vals = Some (h', v) \<and> Is_block v \<and> heap_ok h' \<and>
    Wosize_val (hp_mem h') v = of_nat (length vals) \<and> Tag_val (hp_mem h') v = tag \<and>
    map (\<lambda>i. Field (hp_mem h') v (of_nat i)) [0..<length vals] = vals \<and> keeps_old h (hp_mem h')"
proof -
  have ws: "of_nat (length vals) \<le> Max_young_wosize" "unat (of_nat (length vals) :: u64) = length vals"
    using assms(2) by (simp_all add: Max_young_wosize_def word_le_nat_alt unat_of_nat)
  then obtain h' v where a: "Do_alloc_small h tag vals = Some (h', v)"
    using Alloc_small_fits [OF assms(1) ws(1), of tag 0] assms(4)
    by (auto simp: Do_alloc_small_def Alloc_small_def)
  show ?thesis using a Do_alloc_small_props [OF assms(1-3) a] by (auto intro!: nth_equalityI)
qed

theorem alloc_small_block_witness:
  "\<exists>h' v. Do_alloc_small sample_heap 5 [1, 3] = Some (h', v) \<and> Is_block v \<and> heap_ok h' \<and>
    Wosize_val (hp_mem h') v = of_nat (length [1 :: val, 3]) \<and> Tag_val (hp_mem h') v = 5 \<and>
    map (\<lambda>i. Field (hp_mem h') v (of_nat i)) [0..<length [1 :: val, 3]] = [1, 3] \<and> keeps_old sample_heap (hp_mem h')"
  by (rule alloc_small_block) (simp_all add: sample_heap_ok, simp_all add: sample_heap_def)

lemma caml_alloc_initialized_string_fits:
  assumes "heap_ok h" "length p < 2048"
    "unat (young_limit h) + 8 * string_words (length p) + 8 \<le> unat (young_ptr h)"
  shows "caml_alloc_initialized_string h p \<noteq> None"
proof -
  let ?W = "(of_nat (length p) + 8 :: u64) div 8"
  have W: "unat ?W = string_words (length p)"
    using assms(2) by (simp add: string_words_def unat_div_distrib unat_word_ariths unat_of_nat)
  then have le: "?W \<le> Max_young_wosize"
    using assms(2) by (simp add: word_le_nat_alt Max_young_wosize_def string_words_def)
  obtain h' v where "Alloc_small_with_reserved h ?W String_tag 0 = Some (h', v)"
    using Alloc_small_fits [OF assms(1) le] assms(3) W by fastforce
  then show ?thesis using le
    by (simp add: caml_alloc_initialized_string_def caml_alloc_string_def Alloc_small_def Let_def)
qed

text \<open>
  When the minor heap has room, \<open>caml_alloc_initialized_string\<close> returns a well-formed string
  block with the given bytes, null-terminated and padded to whole words; \<open>caml_string_length\<close>
  returns its length, and the allocation does not disturb live young data.
\<close>

theorem alloc_string_contents:
  assumes "heap_ok h" "length p < 2048"
    "unat (young_limit h) + 8 * string_words (length p) + 8 \<le> unat (young_ptr h)"
  shows "\<exists>h' v. caml_alloc_initialized_string h p = Some (h', v) \<and> Is_block v \<and>
    string_block (hp_mem h') v p \<and> caml_string_length (hp_mem h') v = of_nat (length p) \<and>
    bytes_at (hp_mem h') v p \<and> hp_mem h' (v + of_nat (length p)) = 0 \<and> keeps_old h (hp_mem h')"
proof -
  obtain h' v where a: "caml_alloc_initialized_string h p = Some (h', v)"
    using caml_alloc_initialized_string_fits [OF assms] by fastforce
  have "length p < 2 ^ 48" using assms(2) by simp
  from caml_alloc_initialized_string_block [OF assms(1) this a] string_block_prefix string_length_block a
  show ?thesis by blast
qed

theorem alloc_string_contents_witness:
  "\<exists>h' v. caml_alloc_initialized_string sample_heap [104, 105] = Some (h', v) \<and> Is_block v \<and>
    string_block (hp_mem h') v [104, 105] \<and>
    caml_string_length (hp_mem h') v = of_nat (length [104 :: u8, 105]) \<and>
    bytes_at (hp_mem h') v [104, 105] \<and> hp_mem h' (v + of_nat (length [104 :: u8, 105])) = 0 \<and>
    keeps_old sample_heap (hp_mem h')"
  by (rule alloc_string_contents) (simp_all add: sample_heap_ok, simp add: sample_heap_def string_words_def)

text \<open>
  \<open>caml_copy_int32\<close> and \<open>caml_copy_int64\<close> return custom blocks with the right operations
  table from which \<open>Int32_val\<close> and \<open>Int64_val\<close> read the integer back, without touching live data.
\<close>

theorem boxed_int_roundtrip:
  assumes "heap_ok h" "unat (young_limit h) + 24 \<le> unat (young_ptr h)"
  shows "\<exists>h1 v h2 w. caml_copy_int32 h i = Some (h1, v) \<and> Int32_val (hp_mem h1) v = i \<and>
      Field (hp_mem h1) v 0 = caml_int32_ops h \<and> Tag_val (hp_mem h1) v = Custom_tag \<and> keeps_old h (hp_mem h1) \<and>
    caml_copy_int64 h j = Some (h2, w) \<and> Int64_val (hp_mem h2) w = j \<and>
      Field (hp_mem h2) w 0 = caml_int64_ops h \<and> Tag_val (hp_mem h2) w = Custom_tag \<and> keeps_old h (hp_mem h2)"
proof -
  obtain h1 v h2 w where "caml_copy_int32 h i = Some (h1, v)" "caml_copy_int64 h j = Some (h2, w)"
    using caml_copy_int32_fits [OF assms] caml_copy_int64_fits [OF assms] by meson
  with caml_copy_int32_props [OF assms(1) this(1)] caml_copy_int64_props [OF assms(1) this(2)]
  show ?thesis by blast
qed

theorem boxed_int_roundtrip_witness:
  "\<exists>h1 v h2 w. caml_copy_int32 sample_heap (- 7) = Some (h1, v) \<and> Int32_val (hp_mem h1) v = - 7 \<and>
      Field (hp_mem h1) v 0 = caml_int32_ops sample_heap \<and> Tag_val (hp_mem h1) v = Custom_tag \<and>
      keeps_old sample_heap (hp_mem h1) \<and>
    caml_copy_int64 sample_heap 9 = Some (h2, w) \<and> Int64_val (hp_mem h2) w = 9 \<and>
      Field (hp_mem h2) w 0 = caml_int64_ops sample_heap \<and> Tag_val (hp_mem h2) w = Custom_tag \<and>
      keeps_old sample_heap (hp_mem h2)"
  by (rule boxed_int_roundtrip) (simp_all add: sample_heap_ok, simp add: sample_heap_def)

end
