(* ===== verification/Str.thy ===== *)
theory Str
  imports Alloc
begin

text \<open>
  Strings and bytes (\<open>runtime/str.c\<close>) on C memory: creation, bounds-checked access at widths of
  8, 16, 32 and 64 bits, indexing by boxed integers, comparison, blit and fill.
  Indices are \<open>intnat\<close>s compared with the unsigned length exactly as C does.
\<close>

definition caml_ml_string_length :: "mem \<Rightarrow> val \<Rightarrow> val" where
  "caml_ml_string_length m s =
     (let temp = Bosize_val m s - 1 in Val_long (temp - scast (m (s + temp))))"

definition caml_ml_bytes_length :: "mem \<Rightarrow> val \<Rightarrow> val" where
  "caml_ml_bytes_length m s = caml_ml_string_length m s"

partial_function (option) c_strlen :: "mem \<Rightarrow> addr \<Rightarrow> u64 \<Rightarrow> u64 option" where
  "c_strlen m a n = (if m (a + n) = 0 then Some n else c_strlen m a (n + 1))"

definition caml_string_is_c_safe :: "mem \<Rightarrow> val \<Rightarrow> bool option" where
  "caml_string_is_c_safe m s =
     (case c_strlen m s 0 of None \<Rightarrow> None | Some n \<Rightarrow> Some (n = caml_string_length m s))"

definition caml_create_string :: "heap \<Rightarrow> val \<Rightarrow> (heap \<times> val) option res" where
  "caml_create_string h len =
     (let sz = Long_val len
      in if Bsize_wsize Max_wosize - 1 < sz then Inl (Invalid_argument ''String.create'')
         else Inr (caml_alloc_string h sz))"

definition caml_create_bytes :: "heap \<Rightarrow> val \<Rightarrow> (heap \<times> val) option res" where
  "caml_create_bytes h len =
     (let sz = Long_val len
      in if Bsize_wsize Max_wosize - 1 < sz then Inl (Invalid_argument ''Bytes.create'')
         else Inr (caml_alloc_string h sz))"

definition caml_string_get :: "mem \<Rightarrow> val \<Rightarrow> val \<Rightarrow> val res" where
  "caml_string_get m str index =
     (let idx = Long_val index
      in if sint idx < 0 \<or> caml_string_length m str \<le> idx then Inl Array_bound_error
         else Inr (Val_int (ucast (Byte_u m str idx))))"

definition caml_bytes_get :: "mem \<Rightarrow> val \<Rightarrow> val \<Rightarrow> val res" where
  "caml_bytes_get m str index = caml_string_get m str index"

definition caml_bytes_set :: "mem \<Rightarrow> val \<Rightarrow> val \<Rightarrow> val \<Rightarrow> mem res" where
  "caml_bytes_set m str index newval =
     (let idx = Long_val index
      in if sint idx < 0 \<or> caml_string_length m str \<le> idx then Inl Array_bound_error
         else Inr (Set_Byte m str idx (ucast (Int_val newval))))"

definition caml_string_set :: "mem \<Rightarrow> val \<Rightarrow> val \<Rightarrow> val \<Rightarrow> mem res" where
  "caml_string_set m str index newval = caml_bytes_set m str index newval"

definition Val_int8 :: "u64 \<Rightarrow> val" where "Val_int8 x = Val_long (scast (ucast x :: u8))"
definition Val_int16 :: "u64 \<Rightarrow> val" where "Val_int16 x = Val_long (scast (ucast x :: u16))"
definition Int8_val :: "val \<Rightarrow> u8" where "Int8_val x = ucast (Long_val x)"
definition Int16_val :: "val \<Rightarrow> u16" where "Int16_val x = ucast (Long_val x)"

definition caml_string_geti8 :: "mem \<Rightarrow> val \<Rightarrow> val \<Rightarrow> val res" where
  "caml_string_geti8 m str index =
     (let idx = Long_val index
      in if sint idx < 0 \<or> caml_string_length m str \<le> idx then Inl Array_bound_error
         else Inr (Val_int8 (ucast (Byte_u m str idx))))"

definition caml_bytes_geti8 :: "mem \<Rightarrow> val \<Rightarrow> val \<Rightarrow> val res" where
  "caml_bytes_geti8 m str index = caml_string_geti8 m str index"

definition caml_string_get16_untagged :: "mem \<Rightarrow> val \<Rightarrow> val \<Rightarrow> u64 res" where
  "caml_string_get16_untagged m str index =
     (let idx = Long_val index
      in if sint idx < 0 \<or> caml_string_length m str \<le> idx + 1 then Inl Array_bound_error
         else let b1 = Byte_u m str idx; b2 = Byte_u m str (idx + 1)
              in Inr (push_bit 8 (ucast b2) OR ucast b1))"

definition caml_string_get16 :: "mem \<Rightarrow> val \<Rightarrow> val \<Rightarrow> val res" where
  "caml_string_get16 m vb vind =
     (case caml_string_get16_untagged m vb vind of Inl e \<Rightarrow> Inl e | Inr r \<Rightarrow> Inr (Val_long r))"

definition caml_string_geti16 :: "mem \<Rightarrow> val \<Rightarrow> val \<Rightarrow> val res" where
  "caml_string_geti16 m vb vind =
     (case caml_string_get16_untagged m vb vind of Inl e \<Rightarrow> Inl e | Inr r \<Rightarrow> Inr (Val_int16 r))"

definition caml_bytes_get16 :: "mem \<Rightarrow> val \<Rightarrow> val \<Rightarrow> val res" where
  "caml_bytes_get16 m str index = caml_string_get16 m str index"

definition caml_bytes_geti16 :: "mem \<Rightarrow> val \<Rightarrow> val \<Rightarrow> val res" where
  "caml_bytes_geti16 m str index = caml_string_geti16 m str index"

definition caml_string_get32 :: "heap \<Rightarrow> val \<Rightarrow> val \<Rightarrow> (heap \<times> val) option res" where
  "caml_string_get32 h str index =
     (let idx = Long_val index; m = hp_mem h
      in if sint idx < 0 \<or> caml_string_length m str \<le> idx + 3 then Inl Array_bound_error
         else let b1 = ucast (Byte_u m str idx); b2 = ucast (Byte_u m str (idx + 1));
                  b3 = ucast (Byte_u m str (idx + 2)); b4 = ucast (Byte_u m str (idx + 3));
                  r = push_bit 24 b4 OR push_bit 16 b3 OR push_bit 8 b2 OR b1
              in Inr (caml_copy_int32 h r))"

definition caml_bytes_get32 :: "heap \<Rightarrow> val \<Rightarrow> val \<Rightarrow> (heap \<times> val) option res" where
  "caml_bytes_get32 h str index = caml_string_get32 h str index"

definition caml_string_get64 :: "heap \<Rightarrow> val \<Rightarrow> val \<Rightarrow> (heap \<times> val) option res" where
  "caml_string_get64 h str index =
     (let idx = Long_val index; m = hp_mem h
      in if sint idx < 0 \<or> caml_string_length m str \<le> idx + 7 then Inl Array_bound_error
         else let b1 = ucast (Byte_u m str idx); b2 = ucast (Byte_u m str (idx + 1));
                  b3 = ucast (Byte_u m str (idx + 2)); b4 = ucast (Byte_u m str (idx + 3));
                  b5 = ucast (Byte_u m str (idx + 4)); b6 = ucast (Byte_u m str (idx + 5));
                  b7 = ucast (Byte_u m str (idx + 6)); b8 = ucast (Byte_u m str (idx + 7));
                  r = push_bit 56 b8 OR push_bit 48 b7 OR push_bit 40 b6 OR push_bit 32 b5
                    OR push_bit 24 b4 OR push_bit 16 b3 OR push_bit 8 b2 OR b1
              in Inr (caml_copy_int64 h r))"

definition caml_bytes_get64 :: "heap \<Rightarrow> val \<Rightarrow> val \<Rightarrow> (heap \<times> val) option res" where
  "caml_bytes_get64 h str index = caml_string_get64 h str index"

definition caml_bytes_set8 :: "mem \<Rightarrow> val \<Rightarrow> val \<Rightarrow> val \<Rightarrow> mem res" where
  "caml_bytes_set8 m str index newval =
     (let idx = Long_val index
      in if sint idx < 0 \<or> caml_string_length m str \<le> idx then Inl Array_bound_error
         else let b1 = ucast (0xFF AND Long_val newval) in Inr (Set_Byte m str idx b1))"

definition caml_bytes_set16 :: "mem \<Rightarrow> val \<Rightarrow> val \<Rightarrow> val \<Rightarrow> mem res" where
  "caml_bytes_set16 m str index newval =
     (let idx = Long_val index
      in if sint idx < 0 \<or> caml_string_length m str \<le> idx + 1 then Inl Array_bound_error
         else let x = Long_val newval;
                  b2 = ucast (0xFF AND signed_drop_bit 8 x); b1 = ucast (0xFF AND x);
                  m = Set_Byte m str idx b1
              in Inr (Set_Byte m str (idx + 1) b2))"

definition caml_bytes_set32 :: "mem \<Rightarrow> val \<Rightarrow> val \<Rightarrow> val \<Rightarrow> mem res" where
  "caml_bytes_set32 m str index newval =
     (let idx = Long_val index
      in if sint idx < 0 \<or> caml_string_length m str \<le> idx + 3 then Inl Array_bound_error
         else let x = scast (Int32_val m newval) :: u64;
                  b4 = ucast (0xFF AND signed_drop_bit 24 x); b3 = ucast (0xFF AND signed_drop_bit 16 x);
                  b2 = ucast (0xFF AND signed_drop_bit 8 x); b1 = ucast (0xFF AND x);
                  m = Set_Byte m str idx b1; m = Set_Byte m str (idx + 1) b2;
                  m = Set_Byte m str (idx + 2) b3
              in Inr (Set_Byte m str (idx + 3) b4))"

definition caml_bytes_set64 :: "mem \<Rightarrow> val \<Rightarrow> val \<Rightarrow> val \<Rightarrow> mem res" where
  "caml_bytes_set64 m str index newval =
     (let idx = Long_val index
      in if sint idx < 0 \<or> caml_string_length m str \<le> idx + 7 then Inl Array_bound_error
         else let x = Int64_val m newval;
                  b8 = ucast (0xFF AND signed_drop_bit 56 x); b7 = ucast (0xFF AND signed_drop_bit 48 x);
                  b6 = ucast (0xFF AND signed_drop_bit 40 x); b5 = ucast (0xFF AND signed_drop_bit 32 x);
                  b4 = ucast (0xFF AND signed_drop_bit 24 x); b3 = ucast (0xFF AND signed_drop_bit 16 x);
                  b2 = ucast (0xFF AND signed_drop_bit 8 x); b1 = ucast (0xFF AND x);
                  m = Set_Byte m str idx b1; m = Set_Byte m str (idx + 1) b2;
                  m = Set_Byte m str (idx + 2) b3; m = Set_Byte m str (idx + 3) b4;
                  m = Set_Byte m str (idx + 4) b5; m = Set_Byte m str (idx + 5) b6;
                  m = Set_Byte m str (idx + 6) b7
              in Inr (Set_Byte m str (idx + 7) b8))"

text \<open>
  The bodies that the macros \<open>String_and_bytes_get_index_by\<close> and \<open>Bytes_set_index_by\<close> generate:
  an index read by \<open>val_func\<close> and widened to \<open>intnat\<close> is rejected when tagging would lose it.
\<close>

definition String_and_bytes_get_index_by :: "(val \<Rightarrow> 'a res) \<Rightarrow> u64 \<Rightarrow> 'a res" where
  "String_and_bytes_get_index_by get idx =
     (if idx \<noteq> Long_val (Val_long idx) then Inl Array_bound_error else get (Val_long idx))"

definition Bytes_set_index_by :: "(val \<Rightarrow> val \<Rightarrow> mem res) \<Rightarrow> u64 \<Rightarrow> val \<Rightarrow> mem res" where
  "Bytes_set_index_by setter idx newval =
     (if idx \<noteq> Long_val (Val_long idx) then Inl Array_bound_error else setter (Val_long idx) newval)"

subsection \<open>Comparison\<close>

primrec equal_words :: "nat \<Rightarrow> mem \<Rightarrow> addr \<Rightarrow> addr \<Rightarrow> bool" where
  "equal_words 0 m p1 p2 = True"
| "equal_words (Suc n) m p1 p2 =
     (if load64 m p1 \<noteq> load64 m p2 then False else equal_words n m (p1 + 8) (p2 + 8))"

definition caml_string_equal :: "mem \<Rightarrow> val \<Rightarrow> val \<Rightarrow> val" where
  "caml_string_equal m s1 s2 =
     (if s1 = s2 then Val_true
      else let sz1 = Wosize_val m s1; sz2 = Wosize_val m s2
           in if sz1 \<noteq> sz2 then Val_false else Val_bool (equal_words (unat sz1) m s1 s2))"

definition caml_bytes_equal :: "mem \<Rightarrow> val \<Rightarrow> val \<Rightarrow> val" where
  "caml_bytes_equal m s1 s2 = caml_string_equal m s1 s2"

definition caml_string_notequal :: "mem \<Rightarrow> val \<Rightarrow> val \<Rightarrow> val" where
  "caml_string_notequal m s1 s2 = Val_not (caml_string_equal m s1 s2)"

definition caml_bytes_notequal :: "mem \<Rightarrow> val \<Rightarrow> val \<Rightarrow> val" where
  "caml_bytes_notequal m s1 s2 = caml_string_notequal m s1 s2"

text \<open>\<open>memcmp\<close>: the sign of the first difference, bytes compared unsigned.\<close>

primrec memcmp :: "nat \<Rightarrow> mem \<Rightarrow> addr \<Rightarrow> addr \<Rightarrow> int" where
  "memcmp 0 m p q = 0"
| "memcmp (Suc n) m p q =
     (if m p < m q then - 1 else if m q < m p then 1 else memcmp n m (p + 1) (q + 1))"

definition caml_string_compare :: "mem \<Rightarrow> val \<Rightarrow> val \<Rightarrow> val" where
  "caml_string_compare m s1 s2 =
     (if s1 = s2 then Val_int 0
      else let len1 = caml_string_length m s1; len2 = caml_string_length m s2;
               r = memcmp (unat (if len1 \<le> len2 then len1 else len2)) m s1 s2
           in if r < 0 then Val_int (- 1)
              else if r > 0 then Val_int 1
              else if len1 < len2 then Val_int (- 1)
              else if len1 > len2 then Val_int 1
              else Val_int 0)"

definition caml_bytes_compare :: "mem \<Rightarrow> val \<Rightarrow> val \<Rightarrow> val" where
  "caml_bytes_compare m s1 s2 = caml_string_compare m s1 s2"

definition caml_string_lessthan :: "mem \<Rightarrow> val \<Rightarrow> val \<Rightarrow> val" where
  "caml_string_lessthan m s1 s2 =
     (if sint (caml_string_compare m s1 s2) < sint (Val_int 0) then Val_true else Val_false)"

definition caml_bytes_lessthan :: "mem \<Rightarrow> val \<Rightarrow> val \<Rightarrow> val" where
  "caml_bytes_lessthan m s1 s2 = caml_string_lessthan m s1 s2"

definition caml_string_lessequal :: "mem \<Rightarrow> val \<Rightarrow> val \<Rightarrow> val" where
  "caml_string_lessequal m s1 s2 =
     (if sint (caml_string_compare m s1 s2) \<le> sint (Val_int 0) then Val_true else Val_false)"

definition caml_bytes_lessequal :: "mem \<Rightarrow> val \<Rightarrow> val \<Rightarrow> val" where
  "caml_bytes_lessequal m s1 s2 = caml_string_lessequal m s1 s2"

definition caml_string_greaterthan :: "mem \<Rightarrow> val \<Rightarrow> val \<Rightarrow> val" where
  "caml_string_greaterthan m s1 s2 =
     (if sint (caml_string_compare m s1 s2) > sint (Val_int 0) then Val_true else Val_false)"

definition caml_bytes_greaterthan :: "mem \<Rightarrow> val \<Rightarrow> val \<Rightarrow> val" where
  "caml_bytes_greaterthan m s1 s2 = caml_string_greaterthan m s1 s2"

definition caml_string_greaterequal :: "mem \<Rightarrow> val \<Rightarrow> val \<Rightarrow> val" where
  "caml_string_greaterequal m s1 s2 =
     (if sint (caml_string_compare m s1 s2) \<ge> sint (Val_int 0) then Val_true else Val_false)"

definition caml_bytes_greaterequal :: "mem \<Rightarrow> val \<Rightarrow> val \<Rightarrow> val" where
  "caml_bytes_greaterequal m s1 s2 = caml_string_greaterequal m s1 s2"

text \<open>\<open>memmove\<close> reads all bytes before it writes any; \<open>memset\<close> writes one byte value.\<close>

definition caml_blit_bytes :: "mem \<Rightarrow> val \<Rightarrow> val \<Rightarrow> val \<Rightarrow> val \<Rightarrow> val \<Rightarrow> mem" where
  "caml_blit_bytes m s1 ofs1 s2 ofs2 n =
     copy_bytes m (s2 + Long_val ofs2)
       (map (\<lambda>i. m (s1 + Long_val ofs1 + of_nat i)) [0..<unat (Long_val n)])"

definition caml_blit_string :: "mem \<Rightarrow> val \<Rightarrow> val \<Rightarrow> val \<Rightarrow> val \<Rightarrow> val \<Rightarrow> mem" where
  "caml_blit_string m s1 ofs1 s2 ofs2 n = caml_blit_bytes m s1 ofs1 s2 ofs2 n"

definition caml_fill_bytes :: "mem \<Rightarrow> val \<Rightarrow> val \<Rightarrow> val \<Rightarrow> val \<Rightarrow> mem" where
  "caml_fill_bytes m s offset len init =
     copy_bytes m (s + Long_val offset) (replicate (unat (Long_val len)) (ucast (Int_val init)))"

definition caml_fill_string :: "mem \<Rightarrow> val \<Rightarrow> val \<Rightarrow> val \<Rightarrow> val \<Rightarrow> mem" where
  "caml_fill_string m s offset len init = caml_fill_bytes m s offset len init"

subsection \<open>Bounds checks\<close>

lemma sint_nonneg_unat: "0 \<le> sint (w :: u64) \<Longrightarrow> sint w = int (unat w)"
proof -
  assume "0 \<le> sint w"
  moreover have "sint w < 2 ^ 63" using sint_lt [of w] by simp
  ultimately have "sint w mod 2 ^ 64 = sint w" by simp
  then have "uint w = sint w" by (simp add: uint_sint take_bit_eq_mod)
  then show ?thesis by simp
qed

lemma index_check:
  assumes b: "string_block m v bs" and k: "k < 8"
  shows "(sint (Long_val index) < 0 \<or> caml_string_length m v \<le> Long_val index + of_nat k) \<longleftrightarrow>
    \<not> (0 \<le> sint (Long_val index) \<and> unat (Long_val index) + k < length bs)"
proof (cases "sint (Long_val index) < 0")
  case False
  have n: "length bs < 2 ^ 48" using b by (simp add: string_block_def)
  have "sint (Long_val index) \<le> Max_long" by (rule Long_val_range)
  then have "int (unat (Long_val index)) \<le> Max_long"
    using sint_nonneg_unat [of "Long_val index"] False by (simp only: not_less)
  then have "unat (Long_val index) \<le> nat Max_long" by (metis nat_int nat_mono)
  then have u: "unat (Long_val index) < 2 ^ 62" by (simp add: Max_long_def)
  have "unat (Long_val index + of_nat k) = unat (Long_val index) + k"
    using u k by (simp add: unat_word_ariths unat_of_nat)
  moreover have "unat (of_nat (length bs) :: u64) = length bs" using n by (simp add: unat_of_nat)
  ultimately show ?thesis using False string_length_block [OF b] by (auto simp: word_le_nat_alt)
qed simp

definition overwrite :: "nat \<Rightarrow> 'a list \<Rightarrow> 'a list \<Rightarrow> 'a list" where
  "overwrite i p bs = take i bs @ p @ drop (i + length p) bs"

lemma length_overwrite: "i + length p \<le> length bs \<Longrightarrow> length (overwrite i p bs) = length bs"
  by (simp add: overwrite_def)

lemma nth_overwrite:
  "i + length p \<le> length bs \<Longrightarrow> j < length bs \<Longrightarrow>
    overwrite i p bs ! j = (if i \<le> j \<and> j < i + length p then p ! (j - i) else bs ! j)"
  by (auto simp: overwrite_def nth_append not_le less_diff_conv2 min_def)

lemma copy_bytes_offset:
  assumes "i < 2 ^ 61" "j < 2 ^ 61" "length p \<le> 2 ^ 61"
  shows "copy_bytes m (v + of_nat i) p (v + of_nat j) =
    (if i \<le> j \<and> j < i + length p then p ! (j - i) else m (v + of_nat j))"
proof -
  have "v + of_nat j - (v + of_nat i) = (of_nat j - of_nat i :: u64)" by simp
  then have "unat (v + of_nat j - (v + of_nat i)) = (if i \<le> j then j - i else 2 ^ 64 - (i - j))"
    using unat_of_nat_diff [of j i] assms by simp
  then show ?thesis using assms unfolding copy_bytes_def by auto
qed

lemma Hd_val_copy_bytes_offset:
  assumes "i < 2 ^ 60" "length p \<le> 2 ^ 60"
  shows "Hd_val (copy_bytes m (v + of_nat i) p) v = Hd_val m v"
  unfolding Hd_val_def load64_def
proof (rule load_le_cong)
  fix j :: nat assume j: "j < 8"
  have e: "v - 8 + of_nat j = (v - 8) + of_nat j" "v + of_nat i = (v - 8) + of_nat (i + 8)" by simp_all
  show "copy_bytes m (v + of_nat i) p (v - 8 + of_nat j) = m (v - 8 + of_nat j)"
    unfolding e(2) using assms j by (subst copy_bytes_offset) auto
qed

text \<open>Every write inside the bounds of a string leaves a well-formed string.\<close>

lemma string_block_overwrite:
  assumes b: "string_block m v bs" and i: "i + length p \<le> length bs"
  shows "string_block (copy_bytes m (v + of_nat i) p) v (overwrite i p bs)"
proof -
  let ?m = "copy_bytes m (v + of_nat i) p"
  have l: "length bs < 2 ^ 48" using b by (simp add: string_block_def)
  have hd: "Hd_val ?m v = Hd_val m v" using l i by (simp add: Hd_val_copy_bytes_offset)
  then have "Wosize_val ?m v = Wosize_val m v" "Tag_val ?m v = Tag_val m v"
    by (simp_all add: Wosize_val_def flip: Tag_val_Hd_val)
  moreover have "?m (v + of_nat j) = string_image (overwrite i p bs) ! j" if j: "j < 8 * string_words (length bs)" for j
  proof -
    have "j < 2 ^ 61" using j l by (simp add: string_words_def)
    then have "?m (v + of_nat j) = (if i \<le> j \<and> j < i + length p then p ! (j - i) else string_image bs ! j)"
      using l i string_block_byte [OF b j] by (subst copy_bytes_offset) auto
    also have "\<dots> = string_image (overwrite i p bs) ! j"
      using i by (cases "j < length bs") (auto simp: string_image_def nth_append length_overwrite nth_overwrite)
    finally show ?thesis .
  qed
  ultimately show ?thesis using b i by (simp add: string_block_def bytes_at_def length_overwrite)
qed

lemma Set_Byte_copy: "Set_Byte m v i b = copy_bytes m (v + i) [b]"
  by (auto simp: Set_Byte_def copy_bytes_def fun_eq_iff unat_eq_0)

lemma store_le_copy: "store_le m a n x = copy_bytes m a (map (\<lambda>j. ucast (drop_bit (8 * j) x)) [0..<n])"
  by (auto simp: store_le_def copy_bytes_def fun_eq_iff)

lemma store_le_Suc:
  assumes "n < 8"
  shows "store_le m a (Suc n) x = (store_le m a n x)(a + of_nat n := ucast (drop_bit (8 * n) x))"
proof
  fix b
  have "b = a + of_nat n \<longleftrightarrow> unat (b - a) = n"
  proof
    assume n: "unat (b - a) = n"
    have "of_nat (unat (b - a)) = b - a" by simp
    then have "b - a = of_nat n" unfolding n by (rule sym)
    then show "b = a + of_nat n" by (metis diff_add_cancel add.commute)
  qed (use assms in \<open>simp add: unat_of_nat\<close>)
  then show "store_le m a (Suc n) x b = ((store_le m a n x)(a + of_nat n := ucast (drop_bit (8 * n) x))) b"
    by (auto simp: store_le_def)
qed

subsection \<open>Multi-byte access\<close>

text \<open>The byte extracted by \<open>0xFF & x >> k\<close>.\<close>

lemma ucast_and_255 [mem_simps]: "(ucast (0xFF AND (x :: u64)) :: u8) = ucast x"
proof (rule bit_word_eqI)
  fix n assume n: "n < LENGTH(8)"
  have m: "(0xFF :: u64) = mask 8" by (simp add: mask_eq_exp_minus_1)
  show "bit (ucast (0xFF AND x) :: u8) n = bit (ucast x :: u8) n"
    unfolding m using n by (auto simp: bit_simps)
qed

lemma ucast_sdrop_byte [mem_simps]:
  "k \<le> 56 \<Longrightarrow> (ucast (signed_drop_bit k (x :: u64)) :: u8) = ucast (drop_bit k x)"
  by (rule bit_word_eqI) (auto simp: bit_simps min_def)

lemma store_le_bytes:
  "store_le m a 2 x = m(a := ucast x, a + 1 := ucast (drop_bit 8 x))"
  "store_le m a 4 x = m(a := ucast x, a + 1 := ucast (drop_bit 8 x), a + 2 := ucast (drop_bit 16 x),
     a + 3 := ucast (drop_bit 24 x))"
  "store_le m a 8 x = m(a := ucast x, a + 1 := ucast (drop_bit 8 x), a + 2 := ucast (drop_bit 16 x),
     a + 3 := ucast (drop_bit 24 x), a + 4 := ucast (drop_bit 32 x), a + 5 := ucast (drop_bit 40 x),
     a + 6 := ucast (drop_bit 48 x), a + 7 := ucast (drop_bit 56 x))"
proof -
  have 0: "store_le m a 0 x = m" by (simp add: store_le_def)
  have "store_le m a 1 x = m(a := ucast x)" using store_le_Suc [of 0 m a x] by (simp add: 0)
  then show 2: "store_le m a 2 x = m(a := ucast x, a + 1 := ucast (drop_bit 8 x))"
    using store_le_Suc [of 1 m a x] by (simp add: numeral_2_eq_2)
  have 3: "store_le m a 3 x = m(a := ucast x, a + 1 := ucast (drop_bit 8 x), a + 2 := ucast (drop_bit 16 x))"
    using store_le_Suc [of 2 m a x] by (simp add: 2)
  show 4: "store_le m a 4 x = m(a := ucast x, a + 1 := ucast (drop_bit 8 x), a + 2 := ucast (drop_bit 16 x),
     a + 3 := ucast (drop_bit 24 x))"
    using store_le_Suc [of 3 m a x] by (simp add: 3)
  have 5: "store_le m a 5 x = (store_le m a 4 x)(a + 4 := ucast (drop_bit 32 x))" using store_le_Suc [of 4 m a x] by simp
  have 6: "store_le m a 6 x = (store_le m a 5 x)(a + 5 := ucast (drop_bit 40 x))" using store_le_Suc [of 5 m a x] by simp
  have 7: "store_le m a 7 x = (store_le m a 6 x)(a + 6 := ucast (drop_bit 48 x))" using store_le_Suc [of 6 m a x] by simp
  show "store_le m a 8 x = m(a := ucast x, a + 1 := ucast (drop_bit 8 x), a + 2 := ucast (drop_bit 16 x),
     a + 3 := ucast (drop_bit 24 x), a + 4 := ucast (drop_bit 32 x), a + 5 := ucast (drop_bit 40 x),
     a + 6 := ucast (drop_bit 48 x), a + 7 := ucast (drop_bit 56 x))"
    using store_le_Suc [of 7 m a x] by (simp add: 4 5 6 7)
qed

lemma caml_bytes_set64_eq:
  "caml_bytes_set64 m str index newval =
    (if sint (Long_val index) < 0 \<or> caml_string_length m str \<le> Long_val index + 7 then Inl Array_bound_error
     else Inr (store_le m (str + Long_val index) 8 (Int64_val m newval)))"
  by (simp add: caml_bytes_set64_def Let_def mem_simps Set_Byte_def store_le_bytes add.assoc)

lemma caml_bytes_set32_eq:
  "caml_bytes_set32 m str index newval =
    (if sint (Long_val index) < 0 \<or> caml_string_length m str \<le> Long_val index + 3 then Inl Array_bound_error
     else Inr (store_le m (str + Long_val index) 4 (scast (Int32_val m newval))))"
  by (simp add: caml_bytes_set32_def Let_def mem_simps Set_Byte_def store_le_bytes add.assoc)

lemma caml_bytes_set16_eq:
  "caml_bytes_set16 m str index newval =
    (if sint (Long_val index) < 0 \<or> caml_string_length m str \<le> Long_val index + 1 then Inl Array_bound_error
     else Inr (store_le m (str + Long_val index) 2 (Long_val newval)))"
  by (simp add: caml_bytes_set16_def Let_def mem_simps Set_Byte_def store_le_bytes add.assoc)

lemma load_le_or:
  "load_le m a 2 = push_bit 8 (ucast (m (a + 1))) OR ucast (m a)"
  "load_le m a 4 = push_bit 24 (ucast (m (a + 3))) OR push_bit 16 (ucast (m (a + 2)))
     OR push_bit 8 (ucast (m (a + 1))) OR ucast (m a)"
  "load_le m a 8 = push_bit 56 (ucast (m (a + 7))) OR push_bit 48 (ucast (m (a + 6)))
     OR push_bit 40 (ucast (m (a + 5))) OR push_bit 32 (ucast (m (a + 4)))
     OR push_bit 24 (ucast (m (a + 3))) OR push_bit 16 (ucast (m (a + 2)))
     OR push_bit 8 (ucast (m (a + 1))) OR ucast (m a)"
  by (simp_all add: eval_nat_numeral push_bit_or add.assoc or.assoc or.commute or.left_commute)

lemma caml_string_get64_eq:
  "caml_string_get64 h str index =
    (if sint (Long_val index) < 0 \<or> caml_string_length (hp_mem h) str \<le> Long_val index + 7 then Inl Array_bound_error
     else Inr (caml_copy_int64 h (load64 (hp_mem h) (str + Long_val index))))"
  by (simp add: caml_string_get64_def Let_def Byte_u_def load64_def load_le_or add.assoc)

lemma caml_string_get32_eq:
  "caml_string_get32 h str index =
    (if sint (Long_val index) < 0 \<or> caml_string_length (hp_mem h) str \<le> Long_val index + 3 then Inl Array_bound_error
     else Inr (caml_copy_int32 h (load32 (hp_mem h) (str + Long_val index))))"
proof -
  have "ucast (push_bit k (ucast (b :: u8)) :: u64) = (push_bit k (ucast b) :: u32)" for k b
    by (rule bit_word_eqI) (auto simp: bit_simps)
  moreover have "ucast (ucast (b :: u8) :: u64) = (ucast b :: u32)" for b
    by (rule bit_word_eqI) (auto simp: bit_simps)
  moreover have "ucast (x OR y :: u64) = (ucast x OR ucast y :: u32)" for x y
    by (rule bit_word_eqI) (auto simp: bit_simps)
  ultimately show ?thesis by (simp add: caml_string_get32_def Let_def Byte_u_def load32_def load_le_or add.assoc)
qed

subsection \<open>Comparison and equality\<close>

fun bytes_cmp :: "u8 list \<Rightarrow> u8 list \<Rightarrow> int" where
  "bytes_cmp [] [] = 0"
| "bytes_cmp [] (_ # _) = - 1"
| "bytes_cmp (_ # _) [] = 1"
| "bytes_cmp (x # xs) (y # ys) = (if x < y then - 1 else if y < x then 1 else bytes_cmp xs ys)"

lemma bytes_cmp_lexordp:
  "bytes_cmp xs ys = 0 \<longleftrightarrow> xs = ys" "bytes_cmp xs ys = - 1 \<longleftrightarrow> ord_class.lexordp xs ys"
  "bytes_cmp xs ys = 1 \<longleftrightarrow> ord_class.lexordp ys xs"
  by (induction xs ys rule: bytes_cmp.induct) auto

lemma bytes_atD: "bytes_at m a xs \<Longrightarrow> j < length xs \<Longrightarrow> m (a + of_nat j) = xs ! j"
  by (simp add: bytes_at_def)

lemma bytes_at_Cons: "bytes_at m p (x # xs) \<longleftrightarrow> m p = x \<and> bytes_at m (p + 1) xs"
  by (auto simp: bytes_at_def nth_Cons add.assoc split: nat.splits)

lemma memcmp_bytes:
  "bytes_at m p xs \<Longrightarrow> bytes_at m q ys \<Longrightarrow>
    bytes_cmp xs ys = (let r = memcmp (min (length xs) (length ys)) m p q in
      if r < 0 then - 1 else if r > 0 then 1
      else if length xs < length ys then - 1 else if length xs > length ys then 1 else 0)"
  by (induction xs ys arbitrary: p q rule: bytes_cmp.induct) (auto simp: bytes_at_Cons Let_def)

lemma caml_string_compare_bytes:
  assumes "string_block m s1 xs" "string_block m s2 ys" "s1 = s2 \<Longrightarrow> xs = ys"
  shows "caml_string_compare m s1 s2 = Val_int (of_int (bytes_cmp xs ys))"
proof (cases "s1 = s2")
  case True
  then show ?thesis using assms(3) bytes_cmp_lexordp(1) [of xs ys] by (simp add: caml_string_compare_def)
next
  case False
  have n: "length xs < 2 ^ 48" "length ys < 2 ^ 48" using assms by (auto simp: string_block_def)
  then have u: "unat (of_nat (length xs) :: u64) = length xs" "unat (of_nat (length ys) :: u64) = length ys"
    by (simp_all add: unat_of_nat)
  let ?r = "memcmp (min (length xs) (length ys)) m s1 s2"
  have "unat (if (of_nat (length xs) :: u64) \<le> of_nat (length ys) then of_nat (length xs) else of_nat (length ys) :: u64)
      = min (length xs) (length ys)" using u by (auto simp: word_le_nat_alt min_def)
  then show ?thesis using False u
    memcmp_bytes [OF string_block_prefix(1) [OF assms(1)] string_block_prefix(1) [OF assms(2)]]
    by (simp add: caml_string_compare_def Let_def string_length_block [OF assms(1)] string_length_block [OF assms(2)]
        word_less_nat_alt)
qed

lemma load64_eq_iff: "load64 m p = load64 m q \<longleftrightarrow> (\<forall>i<8. m (p + of_nat i) = m (q + of_nat i))"
proof
  assume e: "load64 m p = load64 m q"
  show "\<forall>i<8. m (p + of_nat i) = m (q + of_nat i)"
  proof (intro allI impI bit_word_eqI)
    fix i n :: nat assume i: "i < 8" "n < LENGTH(8)"
    then have "bit (load64 m r) (8 * i + n) = bit (m (r + of_nat i)) n" for r
      unfolding load64_def by (simp add: bit_load_le)
    then show "bit (m (p + of_nat i)) n = bit (m (q + of_nat i)) n" using e by metis
  qed
next
  assume "\<forall>i<8. m (p + of_nat i) = m (q + of_nat i)"
  then show "load64 m p = load64 m q" unfolding load64_def
    by (intro bit_word_eqI) (auto simp: bit_load_le less_mult_imp_div_less)
qed

lemma equal_words_iff:
  "equal_words n m p q \<longleftrightarrow> (\<forall>i<8 * n. m (p + of_nat i) = m (q + of_nat i))"
proof (induction n arbitrary: p q)
  case (Suc n)
  have "(\<forall>i<8 * Suc n. P i) \<longleftrightarrow> (\<forall>i<8. P i) \<and> (\<forall>i<8 * n. P (8 + i))" for P :: "nat \<Rightarrow> bool"
  proof safe
    fix i assume a: "\<forall>i<8. P i" "\<forall>i<8 * n. P (8 + i)" "i < 8 * Suc n"
    then show "P i" using a(2) [rule_format, of "i - 8"] by (cases "i < 8") auto
  qed auto
  note this [of "\<lambda>i. m (p + of_nat i) = m (q + of_nat i)"]
  then show ?case using Suc by (simp add: load64_eq_iff add.assoc del: mult_Suc_right)
qed simp

lemma string_image_inject: "string_image xs = string_image ys \<longleftrightarrow> xs = ys"
proof
  assume e: "string_image xs = string_image ys"
  have "last (string_image zs) = of_nat (string_pad (length zs))" for zs by (simp add: string_image_def)
  then have "(of_nat (string_pad (length xs)) :: u8) = of_nat (string_pad (length ys))" using e by metis
  then have p: "string_pad (length xs) = string_pad (length ys)"
    using string_pad_less(1) [of "length xs"] string_pad_less(1) [of "length ys"]
    by (simp add: word_of_nat_eq_iff take_bit_nat_eq_self)
  have "8 * string_words (length xs) = 8 * string_words (length ys)" using arg_cong [OF e, of length] by simp
  then have "length xs = length ys" using p string_pad_less(2) [of "length xs"] string_pad_less(2) [of "length ys"] by simp
  then show "xs = ys" using e by (simp add: string_image_def)
qed simp

lemma caml_string_equal_bytes:
  assumes x: "string_block m s1 xs" and y: "string_block m s2 ys"
  shows "caml_string_equal m s1 s2 = Val_bool (xs = ys)"
proof (cases "s1 = s2")
  case True
  have "length xs = length ys"
    using string_length_block [OF x] string_length_block [OF y] True x y of_nat_u64_eq_iff [of "length xs" "length ys"]
    by (simp add: string_block_def)
  then have "xs = ys" using string_block_prefix(1) [OF x] string_block_prefix(1) [OF y] True
    by (auto simp: bytes_at_def intro: nth_equalityI)
  then show ?thesis using True by (simp add: caml_string_equal_def)
next
  case False
  let ?n = "string_words (length xs)" and ?k = "string_words (length ys)"
  have s: "?n < 2 ^ 46" "?k < 2 ^ 46" using x y by (auto simp: string_block_def string_words_def)
  have w: "Wosize_val m s1 = of_nat ?n" "Wosize_val m s2 = of_nat ?k" using x y by (auto simp: string_block_def)
  show ?thesis
  proof (cases "?n = ?k")
    case True
    have "equal_words ?n m s1 s2 \<longleftrightarrow> string_image xs = string_image ys"
      using string_block_byte [OF x] string_block_byte [OF y] True
      by (auto simp: equal_words_iff list_eq_iff_nth_eq)
    moreover have "unat (of_nat ?n :: u64) = ?n" using s by (simp add: unat_of_nat)
    ultimately show ?thesis using False w True by (simp add: caml_string_equal_def Let_def string_image_inject)
  next
    case n: False
    then have "of_nat ?n \<noteq> (of_nat ?k :: u64)" using s of_nat_u64_eq_iff [of ?n ?k] by simp
    moreover have "xs \<noteq> ys" using n by auto
    ultimately show ?thesis using False w by (simp add: caml_string_equal_def Let_def)
  qed
qed

subsection \<open>Access\<close>

lemma Long_val_index: "0 \<le> sint (Long_val index) \<Longrightarrow> Long_val index = of_nat (unat (Long_val index))"
  by simp

lemma caml_string_get_block:
  assumes "string_block m v bs"
  shows "caml_string_get m v index =
    (if 0 \<le> sint (Long_val index) \<and> unat (Long_val index) < length bs
     then Inr (Val_int (ucast (bs ! unat (Long_val index)))) else Inl Array_bound_error)"
proof -
  have "Byte_u m v (Long_val index) = bs ! unat (Long_val index)" if "unat (Long_val index) < length bs"
  proof -
    have "m (v + of_nat (unat (Long_val index))) = bs ! unat (Long_val index)"
      using string_block_prefix(1) [OF assms] that unfolding bytes_at_def by blast
    then show ?thesis by (simp add: Byte_u_def)
  qed
  then show ?thesis using index_check [OF assms, of 0 index] by (auto simp: caml_string_get_def Let_def)
qed

lemma caml_bytes_set_block:
  assumes "string_block m v bs"
  shows "if 0 \<le> sint (Long_val index) \<and> unat (Long_val index) < length bs
     then \<exists>m'. caml_bytes_set m v index newval = Inr m' \<and>
       string_block m' v (bs[unat (Long_val index) := ucast (Int_val newval)])
     else caml_bytes_set m v index newval = Inl Array_bound_error"
proof -
  let ?i = "unat (Long_val index)"
  have "overwrite ?i [b] bs = bs[?i := b]" if "?i < length bs" for b
    using that by (simp add: overwrite_def upd_conv_take_nth_drop)
  moreover have "of_nat ?i = Long_val index" by simp
  ultimately show ?thesis
    using index_check [OF assms, of 0 index] string_block_overwrite [OF assms, of ?i "[ucast (Int_val newval)]"]
    by (auto simp: caml_bytes_set_def Let_def Set_Byte_copy)
qed

lemma string_block_frame:
  assumes b: "string_block m v bs"
    and eq: "\<And>i. i < 8 * string_words (length bs) + 8 \<Longrightarrow> m' (v - 8 + of_nat i) = m (v - 8 + of_nat i)"
  shows "string_block m' v bs"
proof -
  have hd: "Hd_val m' v = Hd_val m v" unfolding Hd_val_def load64_def by (rule load_le_cong) (use eq in auto)
  have "m' (v + of_nat i) = m (v + of_nat i)" if "i < 8 * string_words (length bs)" for i
    using eq [of "i + 8"] that by (simp add: algebra_simps)
  then show ?thesis using b hd
    by (simp add: string_block_def bytes_at_def Wosize_val_def flip: Tag_val_Hd_val)
qed

text \<open>A memory that holds a string: a header followed by the padded bytes.\<close>

definition put_string :: "mem \<Rightarrow> val \<Rightarrow> u8 list \<Rightarrow> mem" where
  "put_string m v bs =
     copy_bytes (store64 m (v - 8) (Make_header_with_reserved (of_nat (string_words (length bs))) String_tag 0 0)) v
       (string_image bs)"

lemma put_string_block:
  assumes "length bs < 2 ^ 48"
  shows "string_block (put_string m v bs) v bs"
proof -
  let ?w = "string_words (length bs)"
  have w: "?w < 2 ^ 46" "8 * ?w < 2 ^ 60" using assms by (auto simp: string_words_def)
  have "Hd_val (put_string m v bs) v = Make_header_with_reserved (of_nat ?w) String_tag 0 0"
    unfolding put_string_def using w by (simp add: Hd_val_copy_bytes) (simp add: Hd_val_def mem_simps)
  note hb = header_block [OF this w(1)]
  have "put_string m v bs (v + of_nat i) = string_image bs ! i" if "i < 8 * ?w" for i
    unfolding put_string_def using that w by (subst copy_bytes_at) auto
  then show ?thesis using hb assms by (simp add: string_block_def bytes_at_def String_tag_def)
qed

lemma put_string_other:
  assumes "string_block m v bs"
    and "\<And>i. i < 8 * string_words (length bs) + 8 \<Longrightarrow>
      8 * string_words (length cs) + 8 \<le> unat (v - 8 + of_nat i - (w - 8)) \<and>
      8 * string_words (length cs) + 8 \<le> unat (v - 8 + of_nat i - w)"
  shows "string_block (put_string m w cs) v bs"
proof (rule string_block_frame [OF assms(1)])
  fix i assume "i < 8 * string_words (length bs) + 8"
  from assms(2) [OF this] show "put_string m w cs (v - 8 + of_nat i) = m (v - 8 + of_nat i)"
    by (simp add: put_string_def copy_bytes_def store_le_other)
qed

subsection \<open>Properties\<close>

definition sample_strings :: mem where
  "sample_strings = put_string (put_string (\<lambda>_. 0) 0x1000 [104, 105]) 0x2000 [104, 105, 33]"

lemma sample_strings_blocks:
  "string_block sample_strings 0x1000 [104, 105]" "string_block sample_strings 0x2000 [104, 105, 33]"
proof -
  show "string_block sample_strings 0x2000 [104, 105, 33]"
    unfolding sample_strings_def by (rule put_string_block) simp
  have "string_block (put_string (\<lambda>_. 0) 0x1000 [104, 105]) 0x1000 [104, 105]" by (rule put_string_block) simp
  then show "string_block sample_strings 0x1000 [104, 105]"
    unfolding sample_strings_def
  proof (rule put_string_other)
    fix i assume "i < 8 * string_words (length [104 :: u8, 105]) + 8"
    then show "8 * string_words (length [104 :: u8, 105, 33]) + 8 \<le> unat (0x1000 - 8 + of_nat i - (0x2000 - 8 :: u64)) \<and>
        8 * string_words (length [104 :: u8, 105, 33]) + 8 \<le> unat (0x1000 - 8 + of_nat i - (0x2000 :: u64))"
      using unat_of_nat_diff [of i "0x1000"] unat_of_nat_diff [of i "0x1008"] by (simp add: string_words_def algebra_simps)
  qed
qed

text \<open>
  On a well-formed string \<open>caml_string_get\<close> returns the byte at an index in bounds, and
  \<open>caml_bytes_set\<close> updates exactly that byte and keeps the string well-formed; both raise the bound
  error for every other index, negative ones included.
\<close>

theorem string_get_set:
  assumes "string_block m v bs"
  shows "if 0 \<le> sint (Long_val index) \<and> unat (Long_val index) < length bs
     then caml_string_get m v index = Inr (Val_int (ucast (bs ! unat (Long_val index)))) \<and>
       (\<exists>m'. caml_bytes_set m v index newval = Inr m' \<and>
         string_block m' v (bs[unat (Long_val index) := ucast (Int_val newval)]))
     else caml_string_get m v index = Inl Array_bound_error \<and>
       caml_bytes_set m v index newval = Inl Array_bound_error"
  using caml_string_get_block [OF assms, of index] caml_bytes_set_block [OF assms, of index newval] by simp

theorem string_get_set_witness:
  "if 0 \<le> sint (Long_val 3) \<and> unat (Long_val 3) < length [104 :: u8, 105]
     then caml_string_get sample_strings 0x1000 3 = Inr (Val_int (ucast ([104 :: u8, 105] ! unat (Long_val 3)))) \<and>
       (\<exists>m'. caml_bytes_set sample_strings 0x1000 3 67 = Inr m' \<and>
         string_block m' 0x1000 ([104, 105][unat (Long_val 3) := ucast (Int_val 67)]))
     else caml_string_get sample_strings 0x1000 3 = Inl Array_bound_error \<and>
       caml_bytes_set sample_strings 0x1000 3 67 = Inl Array_bound_error"
  by (rule string_get_set) (rule sample_strings_blocks)

text \<open>
  A 64-bit integer stored by \<open>caml_bytes_set64\<close> at an index with eight bytes in bounds is the
  one \<open>caml_string_get64\<close> then boxes; only those eight bytes change, and when fewer than eight
  bytes are left both primitives raise the bound error.
\<close>

theorem string_set64_get64:
  assumes "string_block (hp_mem h) v bs"
  shows "if 0 \<le> sint (Long_val index) \<and> unat (Long_val index) + 7 < length bs
     then \<exists>m'. caml_bytes_set64 (hp_mem h) v index x = Inr m' \<and>
       string_block m' v (overwrite (unat (Long_val index))
         (map (\<lambda>j. ucast (drop_bit (8 * j) (Int64_val (hp_mem h) x))) [0..<8]) bs) \<and>
       caml_string_get64 (h\<lparr>hp_mem := m'\<rparr>) v index =
         Inr (caml_copy_int64 (h\<lparr>hp_mem := m'\<rparr>) (Int64_val (hp_mem h) x))
     else caml_bytes_set64 (hp_mem h) v index x = Inl Array_bound_error \<and>
       caml_string_get64 h v index = Inl Array_bound_error"
proof -
  let ?i = "unat (Long_val index)" and ?p = "map (\<lambda>j. ucast (drop_bit (8 * j) (Int64_val (hp_mem h) x)) :: u8) [0..<8]"
  let ?m = "store_le (hp_mem h) (v + Long_val index) 8 (Int64_val (hp_mem h) x)"
  have i: "of_nat ?i = Long_val index" by simp
  have c: "(sint (Long_val index) < 0 \<or> caml_string_length (hp_mem h) v \<le> Long_val index + 7) \<longleftrightarrow>
      \<not> (0 \<le> sint (Long_val index) \<and> ?i + 7 < length bs)"
    using index_check [OF assms, of 7 index] by simp
  show ?thesis
  proof (cases "0 \<le> sint (Long_val index) \<and> ?i + 7 < length bs")
    case True
    then have "?i + length ?p \<le> length bs" by simp
    from string_block_overwrite [OF assms this] have b: "string_block ?m v (overwrite ?i ?p bs)"
      unfolding i by (simp only: store_le_copy)
    have "length (overwrite ?i ?p bs) = length bs" using True by (simp add: length_overwrite)
    with index_check [OF b, of 7 index] c True b show ?thesis
      by (simp add: caml_bytes_set64_eq caml_string_get64_eq mem_simps)
  next
    case False
    then show ?thesis using c unfolding caml_bytes_set64_eq caml_string_get64_eq by (simp only: if_True if_False simp_thms)
  qed
qed

theorem string_set64_get64_witness:
  "let h = sample_heap\<lparr>hp_mem := put_string (\<lambda>_. 0) 0x1000 (replicate 20 97)\<rparr> in
   if 0 \<le> sint (Long_val 5) \<and> unat (Long_val 5) + 7 < length (replicate 20 (97 :: u8))
     then \<exists>m'. caml_bytes_set64 (hp_mem h) 0x1000 5 0x3000 = Inr m' \<and>
       string_block m' 0x1000 (overwrite (unat (Long_val 5))
         (map (\<lambda>j. ucast (drop_bit (8 * j) (Int64_val (hp_mem h) 0x3000))) [0..<8]) (replicate 20 97)) \<and>
       caml_string_get64 (h\<lparr>hp_mem := m'\<rparr>) 0x1000 5 =
         Inr (caml_copy_int64 (h\<lparr>hp_mem := m'\<rparr>) (Int64_val (hp_mem h) 0x3000))
     else caml_bytes_set64 (hp_mem h) 0x1000 5 0x3000 = Inl Array_bound_error \<and>
       caml_string_get64 h 0x1000 5 = Inl Array_bound_error"
  unfolding Let_def by (rule string_set64_get64) (simp add: put_string_block)

text \<open>
  C34: \<open>caml_string_compare\<close> is the lexicographic order on unsigned bytes (0 exactly for equal
  strings, -1 exactly when the first is smaller), and \<open>caml_string_equal\<close>, which compares the
  padded blocks word by word, decides equality of the bytes.
\<close>

theorem string_compare_lexicographic:
  assumes "string_block m s1 xs" "string_block m s2 ys"
  shows "caml_string_compare m s1 s2 =
      (if xs = ys then Val_int 0 else if ord_class.lexordp xs ys then Val_int (- 1) else Val_int 1) \<and>
    caml_string_equal m s1 s2 = Val_bool (xs = ys)"
proof -
  have eq: "xs = ys" if "s1 = s2"
  proof -
    have "Val_bool (xs = ys) = Val_bool True"
      using caml_string_equal_bytes [OF assms] that by (simp add: caml_string_equal_def)
    then show ?thesis by (auto simp: Val_bool_def Val_int_def Val_long_def split: if_splits)
  qed
  have "bytes_cmp xs ys = (if xs = ys then 0 else if ord_class.lexordp xs ys then - 1 else 1)"
  proof -
    have "bytes_cmp xs ys \<in> {- 1, 0, 1}" by (induction xs ys rule: bytes_cmp.induct) auto
    then show ?thesis using bytes_cmp_lexordp [of xs ys] by auto
  qed
  then show ?thesis using caml_string_compare_bytes [OF assms eq] caml_string_equal_bytes [OF assms] by simp
qed

theorem string_compare_lexicographic_witness:
  "caml_string_compare sample_strings 0x1000 0x2000 =
      (if [104 :: u8, 105] = [104, 105, 33] then Val_int 0
       else if ord_class.lexordp [104 :: u8, 105] [104, 105, 33] then Val_int (- 1) else Val_int 1) \<and>
    caml_string_equal sample_strings 0x1000 0x2000 = Val_bool ([104 :: u8, 105] = [104, 105, 33])"
  by (rule string_compare_lexicographic) (rule sample_strings_blocks)+

text \<open>
  \<open>caml_blit_bytes\<close> with ranges in bounds copies the source range as it was before the call,
  also when source and destination overlap in one string, and keeps the string well-formed.
\<close>

theorem blit_bytes_copies:
  assumes "string_block m s1 xs" "string_block m s2 ys"
    "unat (Long_val ofs1) + unat (Long_val n) \<le> length xs" "unat (Long_val ofs2) + unat (Long_val n) \<le> length ys"
  shows "string_block (caml_blit_bytes m s1 ofs1 s2 ofs2 n) s2
    (overwrite (unat (Long_val ofs2)) (take (unat (Long_val n)) (drop (unat (Long_val ofs1)) xs)) ys)"
proof -
  let ?p = "map (\<lambda>i. m (s1 + Long_val ofs1 + of_nat i)) [0..<unat (Long_val n)]"
  have p: "?p = take (unat (Long_val n)) (drop (unat (Long_val ofs1)) xs)"
  proof (rule nth_equalityI)
    fix i assume i: "i < length ?p"
    then have "m (s1 + of_nat (unat (Long_val ofs1) + i)) = xs ! (unat (Long_val ofs1) + i)"
      using assms(3) by (intro bytes_atD [OF string_block_prefix(1) [OF assms(1)]]) simp
    then show "?p ! i = take (unat (Long_val n)) (drop (unat (Long_val ofs1)) xs) ! i"
      using i assms(3) by (simp add: add.assoc)
  qed (use assms(3) in simp)
  have "string_block (copy_bytes m (s2 + of_nat (unat (Long_val ofs2))) ?p) s2 (overwrite (unat (Long_val ofs2)) ?p ys)"
    by (rule string_block_overwrite [OF assms(2)]) (use assms(4) in simp)
  then show ?thesis unfolding caml_blit_bytes_def p by simp
qed

theorem blit_bytes_copies_witness:
  "string_block (caml_blit_bytes sample_strings 0x1000 1 0x2000 3 5) 0x2000
    (overwrite (unat (Long_val 3)) (take (unat (Long_val 5)) (drop (unat (Long_val 1)) [104, 105])) [104, 105, 33])"
  by (rule blit_bytes_copies [OF sample_strings_blocks]) (simp_all add: Long_val_def)

end
