(* ===== verification/Ints.thy ===== *)
theory Ints
  imports Str "HOL-Library.Signed_Division"
begin

text \<open>
  Boxed and tagged integers (\<open>runtime/ints.c\<close>): reading integer literals, and the arithmetic of
  tagged, 32-bit, 64-bit and native integers. Boxed arguments are read from memory and results are
  allocated by \<open>caml_copy_int32\<close>, \<open>caml_copy_int64\<close> and \<open>caml_copy_nativeint\<close> of theory \<open>Alloc\<close>
  (the inner \<open>None\<close> when the allocation leaves the fast path). Signed overflow wraps around, as the
  runtime is compiled with \<open>-fwrapv\<close>. A shift by a count that is negative or not below the width is
  undefined in C and is \<open>None\<close> here. Conversions from and to floating-point numbers and the
  \<open>printf\<close> formatting are not modelled.
\<close>

unbundle bit_operations_syntax

abbreviation chr8 :: "char \<Rightarrow> u8" where "chr8 c \<equiv> of_char c"

subsection \<open>Integer literals\<close>

definition COMPARE_INT :: "'a::len word \<Rightarrow> 'a word \<Rightarrow> u64" where
  "COMPARE_INT v1 v2 = of_bool (v2 <s v1) - of_bool (v1 <s v2)"

text \<open>
  The result is the advanced pointer and the three output parameters \<open>base\<close>, \<open>signedness\<close> and \<open>sign\<close>.
\<close>

definition parse_sign_and_base :: "mem \<Rightarrow> addr \<Rightarrow> addr \<times> int \<times> bool \<times> int" where
  "parse_sign_and_base m p =
     (let (sign, p) = (if m p = chr8 CHR ''-'' then (- 1, p + 1)
                       else if m p = chr8 CHR ''+'' then (1, p + 1) else (1, p)) in
      if m p = chr8 CHR ''0'' then
        if m (p + 1) = chr8 CHR ''x'' \<or> m (p + 1) = chr8 CHR ''X'' then (p + 2, 16, False, sign)
        else if m (p + 1) = chr8 CHR ''o'' \<or> m (p + 1) = chr8 CHR ''O'' then (p + 2, 8, False, sign)
        else if m (p + 1) = chr8 CHR ''b'' \<or> m (p + 1) = chr8 CHR ''B'' then (p + 2, 2, False, sign)
        else if m (p + 1) = chr8 CHR ''u'' \<or> m (p + 1) = chr8 CHR ''U'' then (p + 2, 10, False, sign)
        else (p, 10, True, sign)
      else (p, 10, True, sign))"

definition parse_digit :: "u8 \<Rightarrow> int" where
  "parse_digit c =
     (if chr8 CHR ''0'' \<le> c \<and> c \<le> chr8 CHR ''9'' then uint c - uint (chr8 CHR ''0'')
      else if chr8 CHR ''A'' \<le> c \<and> c \<le> chr8 CHR ''F'' then uint c - uint (chr8 CHR ''A'') + 10
      else if chr8 CHR ''a'' \<le> c \<and> c \<le> chr8 CHR ''f'' then uint c - uint (chr8 CHR ''a'') + 10
      else - 1)"

text \<open>
  The digit loop shared by the two parsers below, from the character at \<open>p\<close> on: it stops at the
  first character that is neither a digit of the base nor an underscore. \<open>None\<close> is a loop that
  never ends.
\<close>

partial_function (option) parse_digits ::
  "mem \<Rightarrow> string \<Rightarrow> int \<Rightarrow> u64 \<Rightarrow> addr \<Rightarrow> u64 \<Rightarrow> (addr \<times> u64) res option" where
  "parse_digits m errmsg base threshold p res =
     (let c = m p in
      if c = chr8 CHR ''_'' then parse_digits m errmsg base threshold (p + 1) res
      else let d = parse_digit c in
        if d < 0 \<or> base \<le> d then Some (Inr (p, res))
        else if threshold < res then Some (Inl (Failure errmsg))
        else let res = word_of_int base * res + word_of_int d in
          if res < word_of_int d then Some (Inl (Failure errmsg))
          else parse_digits m errmsg base threshold (p + 1) res)"

definition parse_intnat :: "mem \<Rightarrow> val \<Rightarrow> nat \<Rightarrow> string \<Rightarrow> u64 res option" where
  "parse_intnat m s nbits errmsg =
     (let (p, base, signedness, sign) = parse_sign_and_base m s;
          threshold = - 1 div word_of_int base;
          d = parse_digit (m p) in
      if d < 0 \<or> base \<le> d then Some (Inl (Failure errmsg))
      else case parse_digits m errmsg base threshold (p + 1) (word_of_int d) of
        None \<Rightarrow> None
      | Some (Inl e) \<Rightarrow> Some (Inl e)
      | Some (Inr (p, res)) \<Rightarrow>
          if p \<noteq> s + caml_string_length m s then Some (Inl (Failure errmsg))
          else if (if signedness then
                     if 0 \<le> sign then push_bit (nbits - 1) 1 \<le> res else push_bit (nbits - 1) 1 < res
                   else nbits < 64 \<and> push_bit nbits 1 \<le> res)
          then Some (Inl (Failure errmsg))
          else Some (Inr (if sign < 0 then - res else res)))"

definition map_res_option :: "('a \<Rightarrow> 'b) \<Rightarrow> 'a res option \<Rightarrow> 'b res option" where
  "map_res_option f = map_option (map_sum id f)"

definition caml_bswap16_direct :: "u64 \<Rightarrow> u64" where
  "caml_bswap16_direct x = push_bit 8 (x AND 0x00FF) OR signed_drop_bit 8 (x AND 0xFF00)"

definition caml_bswap16 :: "val \<Rightarrow> val" where
  "caml_bswap16 v =
     (let x = scast (Int_val v) :: u64 in
      Val_int (ucast (push_bit 8 (x AND 0x00FF) OR signed_drop_bit 8 (x AND 0xFF00))))"

subsection \<open>Tagged integers\<close>

definition caml_int_compare :: "val \<Rightarrow> val \<Rightarrow> val" where
  "caml_int_compare v1 v2 = Val_long (COMPARE_INT v1 v2)"

definition caml_int_unsigned_div :: "val \<Rightarrow> val \<Rightarrow> val res" where
  "caml_int_unsigned_div v1 v2 =
     (let dividend = Unsigned_long_val v1; divisor = Unsigned_long_val v2 in
      if divisor = 0 then Inl Division_by_zero else Inr (Val_long (dividend div divisor)))"

definition caml_int_unsigned_mod :: "val \<Rightarrow> val \<Rightarrow> val res" where
  "caml_int_unsigned_mod v1 v2 =
     (let dividend = Unsigned_long_val v1; divisor = Unsigned_long_val v2 in
      if divisor = 0 then Inl Division_by_zero else Inr (Val_long (dividend mod divisor)))"

definition caml_int_of_string :: "mem \<Rightarrow> val \<Rightarrow> val res option" where
  "caml_int_of_string m s = map_res_option Val_long (parse_intnat m s (8 * 8 - 1) ''int_of_string'')"

text \<open>
  The buffer that \<open>parse_format\<close> fills, up to its terminating null character, and the conversion
  letter. \<open>p[-1]\<close> lies outside the buffer for a format of less than two characters; that is \<open>None\<close>.
\<close>

definition parse_format :: "u8 list \<Rightarrow> u8 list \<Rightarrow> (u8 list \<times> u8) option res" where
  "parse_format fmt suffix =
     (let len = length fmt in
      if 32 \<le> len + length suffix + 1 then Inl (Invalid_argument ''format_int: format too long'')
      else if len < 2 then Inr None
      else let lastletter = fmt ! (len - 1);
               p = (if fmt ! (len - 2) = chr8 CHR ''l'' \<or> fmt ! (len - 2) = chr8 CHR ''n'' \<or>
                       fmt ! (len - 2) = chr8 CHR ''L'' then len - 2 else len - 1) in
        Inr (Some (take p fmt @ suffix @ [lastletter], lastletter)))"

subsection \<open>Small integers\<close>

definition caml_int8_of_string_untagged :: "mem \<Rightarrow> val \<Rightarrow> u8 res option" where
  "caml_int8_of_string_untagged m s = map_res_option ucast (parse_intnat m s 8 ''Int8.of_string'')"

definition caml_int8_of_string :: "mem \<Rightarrow> val \<Rightarrow> val res option" where
  "caml_int8_of_string m s = map_res_option (\<lambda>x. Val_int8 (scast x)) (caml_int8_of_string_untagged m s)"

definition caml_int16_of_string_untagged :: "mem \<Rightarrow> val \<Rightarrow> u16 res option" where
  "caml_int16_of_string_untagged m s = map_res_option ucast (parse_intnat m s 16 ''Int16.of_string'')"

definition caml_int16_of_string :: "mem \<Rightarrow> val \<Rightarrow> val res option" where
  "caml_int16_of_string m s = map_res_option (\<lambda>x. Val_int16 (scast x)) (caml_int16_of_string_untagged m s)"

subsection \<open>Division, shifts and byte swaps\<close>

text \<open>The signed division of C rounds towards zero.\<close>

definition c_sdiv :: "'a::len word \<Rightarrow> 'a word \<Rightarrow> 'a word" where
  "c_sdiv x y = word_of_int (sint x sdiv sint y)"

definition c_smod :: "'a::len word \<Rightarrow> 'a word \<Rightarrow> 'a word" where
  "c_smod x y = word_of_int (sint x smod sint y)"

definition c_shl :: "'a::len word \<Rightarrow> u32 \<Rightarrow> 'a word option" where
  "c_shl x n = (if unat n < LENGTH('a) then Some (push_bit (unat n) x) else None)"

definition c_sar :: "'a::len word \<Rightarrow> u32 \<Rightarrow> 'a word option" where
  "c_sar x n = (if unat n < LENGTH('a) then Some (signed_drop_bit (unat n) x) else None)"

definition c_shr :: "'a::len word \<Rightarrow> u32 \<Rightarrow> 'a word option" where
  "c_shr x n = (if unat n < LENGTH('a) then Some (drop_bit (unat n) x) else None)"

definition caml_swap32 :: "u32 \<Rightarrow> u32" where
  "caml_swap32 x =
     (push_bit 24 (x AND 0x000000FF) OR push_bit 8 (x AND 0x0000FF00) OR
      signed_drop_bit 8 (x AND 0x00FF0000) OR drop_bit 24 (x AND 0xFF000000))"

definition caml_swap64 :: "u64 \<Rightarrow> u64" where
  "caml_swap64 x =
     (push_bit 56 (x AND 0x00000000000000FF) OR push_bit 40 (x AND 0x000000000000FF00) OR
      push_bit 24 (x AND 0x0000000000FF0000) OR push_bit 8 (x AND 0x00000000FF000000) OR
      signed_drop_bit 8 (x AND 0x000000FF00000000) OR signed_drop_bit 24 (x AND 0x0000FF0000000000) OR
      signed_drop_bit 40 (x AND 0x00FF000000000000) OR drop_bit 56 (x AND 0xFF00000000000000))"

definition bind_shift :: "'a option \<Rightarrow> ('a \<Rightarrow> (heap \<times> val) option) \<Rightarrow> (heap \<times> val) option option" where
  "bind_shift x f = map_option f x"

subsection \<open>32-bit integers\<close>

definition int32_cmp :: "mem \<Rightarrow> val \<Rightarrow> val \<Rightarrow> int" where
  "int32_cmp m v1 v2 = (let i1 = Int32_val m v1; i2 = Int32_val m v2 in of_bool (i2 <s i1) - of_bool (i1 <s i2))"

definition int32_hash :: "mem \<Rightarrow> val \<Rightarrow> u64" where
  "int32_hash m v = scast (Int32_val m v)"

definition caml_int32_neg :: "heap \<Rightarrow> val \<Rightarrow> (heap \<times> val) option" where
  "caml_int32_neg h v1 = caml_copy_int32 h (- Int32_val (hp_mem h) v1)"

definition caml_int32_add :: "heap \<Rightarrow> val \<Rightarrow> val \<Rightarrow> (heap \<times> val) option" where
  "caml_int32_add h v1 v2 = caml_copy_int32 h (Int32_val (hp_mem h) v1 + Int32_val (hp_mem h) v2)"

definition caml_int32_sub :: "heap \<Rightarrow> val \<Rightarrow> val \<Rightarrow> (heap \<times> val) option" where
  "caml_int32_sub h v1 v2 = caml_copy_int32 h (Int32_val (hp_mem h) v1 - Int32_val (hp_mem h) v2)"

definition caml_int32_mul :: "heap \<Rightarrow> val \<Rightarrow> val \<Rightarrow> (heap \<times> val) option" where
  "caml_int32_mul h v1 v2 = caml_copy_int32 h (Int32_val (hp_mem h) v1 * Int32_val (hp_mem h) v2)"

definition caml_int32_div :: "heap \<Rightarrow> val \<Rightarrow> val \<Rightarrow> (heap \<times> val) option res" where
  "caml_int32_div h v1 v2 =
     (let dividend = Int32_val (hp_mem h) v1; divisor = Int32_val (hp_mem h) v2 in
      if divisor = 0 then Inl Division_by_zero
      else if dividend = - (2 ^ 31) \<and> divisor = - 1 then Inr (Some (h, v1))
      else Inr (caml_copy_int32 h (c_sdiv dividend divisor)))"

definition caml_int32_unsigned_div :: "heap \<Rightarrow> val \<Rightarrow> val \<Rightarrow> (heap \<times> val) option res" where
  "caml_int32_unsigned_div h v1 v2 =
     (let dividend = Int32_val (hp_mem h) v1; divisor = Int32_val (hp_mem h) v2 in
      if divisor = 0 then Inl Division_by_zero
      else Inr (caml_copy_int32 h (dividend div divisor)))"

definition caml_int32_mod :: "heap \<Rightarrow> val \<Rightarrow> val \<Rightarrow> (heap \<times> val) option res" where
  "caml_int32_mod h v1 v2 =
     (let dividend = Int32_val (hp_mem h) v1; divisor = Int32_val (hp_mem h) v2 in
      if divisor = 0 then Inl Division_by_zero
      else if dividend = - (2 ^ 31) \<and> divisor = - 1 then Inr (caml_copy_int32 h 0)
      else Inr (caml_copy_int32 h (c_smod dividend divisor)))"

definition caml_int32_unsigned_mod :: "heap \<Rightarrow> val \<Rightarrow> val \<Rightarrow> (heap \<times> val) option res" where
  "caml_int32_unsigned_mod h v1 v2 =
     (let dividend = Int32_val (hp_mem h) v1; divisor = Int32_val (hp_mem h) v2 in
      if divisor = 0 then Inl Division_by_zero
      else Inr (caml_copy_int32 h (dividend mod divisor)))"

definition caml_int32_and :: "heap \<Rightarrow> val \<Rightarrow> val \<Rightarrow> (heap \<times> val) option" where
  "caml_int32_and h v1 v2 = caml_copy_int32 h (Int32_val (hp_mem h) v1 AND Int32_val (hp_mem h) v2)"

definition caml_int32_or :: "heap \<Rightarrow> val \<Rightarrow> val \<Rightarrow> (heap \<times> val) option" where
  "caml_int32_or h v1 v2 = caml_copy_int32 h (Int32_val (hp_mem h) v1 OR Int32_val (hp_mem h) v2)"

definition caml_int32_xor :: "heap \<Rightarrow> val \<Rightarrow> val \<Rightarrow> (heap \<times> val) option" where
  "caml_int32_xor h v1 v2 = caml_copy_int32 h (Int32_val (hp_mem h) v1 XOR Int32_val (hp_mem h) v2)"

definition caml_int32_shift_left :: "heap \<Rightarrow> val \<Rightarrow> val \<Rightarrow> (heap \<times> val) option option" where
  "caml_int32_shift_left h v1 v2 = bind_shift (c_shl (Int32_val (hp_mem h) v1) (Int_val v2)) (caml_copy_int32 h)"

definition caml_int32_shift_right :: "heap \<Rightarrow> val \<Rightarrow> val \<Rightarrow> (heap \<times> val) option option" where
  "caml_int32_shift_right h v1 v2 = bind_shift (c_sar (Int32_val (hp_mem h) v1) (Int_val v2)) (caml_copy_int32 h)"

definition caml_int32_shift_right_unsigned :: "heap \<Rightarrow> val \<Rightarrow> val \<Rightarrow> (heap \<times> val) option option" where
  "caml_int32_shift_right_unsigned h v1 v2 = bind_shift (c_shr (Int32_val (hp_mem h) v1) (Int_val v2)) (caml_copy_int32 h)"

definition caml_int32_direct_bswap :: "val \<Rightarrow> val" where
  "caml_int32_direct_bswap v = scast (caml_swap32 (ucast v))"

definition caml_int32_bswap :: "heap \<Rightarrow> val \<Rightarrow> (heap \<times> val) option" where
  "caml_int32_bswap h v = caml_copy_int32 h (caml_swap32 (Int32_val (hp_mem h) v))"

definition caml_int32_of_int :: "heap \<Rightarrow> val \<Rightarrow> (heap \<times> val) option" where
  "caml_int32_of_int h v = caml_copy_int32 h (ucast (Long_val v))"

definition caml_int32_to_int :: "mem \<Rightarrow> val \<Rightarrow> val" where
  "caml_int32_to_int m v = Val_long (scast (Int32_val m v))"

definition caml_int32_compare_unboxed :: "u32 \<Rightarrow> u32 \<Rightarrow> u64" where
  "caml_int32_compare_unboxed i1 i2 = COMPARE_INT i1 i2"

definition caml_int32_compare :: "mem \<Rightarrow> val \<Rightarrow> val \<Rightarrow> val" where
  "caml_int32_compare m v1 v2 = Val_int (ucast (caml_int32_compare_unboxed (Int32_val m v1) (Int32_val m v2)))"

definition caml_int32_of_string_unboxed :: "mem \<Rightarrow> val \<Rightarrow> u32 res option" where
  "caml_int32_of_string_unboxed m s = map_res_option ucast (parse_intnat m s 32 ''Int32.of_string'')"

definition caml_int32_of_string :: "heap \<Rightarrow> val \<Rightarrow> (heap \<times> val) option res option" where
  "caml_int32_of_string h s = map_res_option (caml_copy_int32 h) (caml_int32_of_string_unboxed (hp_mem h) s)"

subsection \<open>64-bit integers\<close>

definition int64_cmp :: "mem \<Rightarrow> val \<Rightarrow> val \<Rightarrow> int" where
  "int64_cmp m v1 v2 = (let i1 = Int64_val m v1; i2 = Int64_val m v2 in of_bool (i2 <s i1) - of_bool (i1 <s i2))"

definition int64_hash :: "mem \<Rightarrow> val \<Rightarrow> u64" where
  "int64_hash m v =
     (let x = Int64_val m v; lo = ucast x :: u32; hi = ucast (signed_drop_bit 32 x) :: u32 in ucast (hi XOR lo))"

definition caml_int64_neg :: "heap \<Rightarrow> val \<Rightarrow> (heap \<times> val) option" where
  "caml_int64_neg h v1 = caml_copy_int64 h (- Int64_val (hp_mem h) v1)"

definition caml_int64_add :: "heap \<Rightarrow> val \<Rightarrow> val \<Rightarrow> (heap \<times> val) option" where
  "caml_int64_add h v1 v2 = caml_copy_int64 h (Int64_val (hp_mem h) v1 + Int64_val (hp_mem h) v2)"

definition caml_int64_sub :: "heap \<Rightarrow> val \<Rightarrow> val \<Rightarrow> (heap \<times> val) option" where
  "caml_int64_sub h v1 v2 = caml_copy_int64 h (Int64_val (hp_mem h) v1 - Int64_val (hp_mem h) v2)"

definition caml_int64_mul :: "heap \<Rightarrow> val \<Rightarrow> val \<Rightarrow> (heap \<times> val) option" where
  "caml_int64_mul h v1 v2 = caml_copy_int64 h (Int64_val (hp_mem h) v1 * Int64_val (hp_mem h) v2)"

definition caml_int64_div :: "heap \<Rightarrow> val \<Rightarrow> val \<Rightarrow> (heap \<times> val) option res" where
  "caml_int64_div h v1 v2 =
     (let dividend = Int64_val (hp_mem h) v1; divisor = Int64_val (hp_mem h) v2 in
      if divisor = 0 then Inl Division_by_zero
      else if dividend = - (2 ^ 63) \<and> divisor = - 1 then Inr (Some (h, v1))
      else Inr (caml_copy_int64 h (c_sdiv dividend divisor)))"

definition caml_int64_unsigned_div :: "heap \<Rightarrow> val \<Rightarrow> val \<Rightarrow> (heap \<times> val) option res" where
  "caml_int64_unsigned_div h v1 v2 =
     (let dividend = Int64_val (hp_mem h) v1; divisor = Int64_val (hp_mem h) v2 in
      if divisor = 0 then Inl Division_by_zero
      else Inr (caml_copy_int64 h (dividend div divisor)))"

definition caml_int64_mod :: "heap \<Rightarrow> val \<Rightarrow> val \<Rightarrow> (heap \<times> val) option res" where
  "caml_int64_mod h v1 v2 =
     (let dividend = Int64_val (hp_mem h) v1; divisor = Int64_val (hp_mem h) v2 in
      if divisor = 0 then Inl Division_by_zero
      else if dividend = - (2 ^ 63) \<and> divisor = - 1 then Inr (caml_copy_int64 h 0)
      else Inr (caml_copy_int64 h (c_smod dividend divisor)))"

definition caml_int64_unsigned_mod :: "heap \<Rightarrow> val \<Rightarrow> val \<Rightarrow> (heap \<times> val) option res" where
  "caml_int64_unsigned_mod h v1 v2 =
     (let dividend = Int64_val (hp_mem h) v1; divisor = Int64_val (hp_mem h) v2 in
      if divisor = 0 then Inl Division_by_zero
      else Inr (caml_copy_int64 h (dividend mod divisor)))"

definition caml_int64_and :: "heap \<Rightarrow> val \<Rightarrow> val \<Rightarrow> (heap \<times> val) option" where
  "caml_int64_and h v1 v2 = caml_copy_int64 h (Int64_val (hp_mem h) v1 AND Int64_val (hp_mem h) v2)"

definition caml_int64_or :: "heap \<Rightarrow> val \<Rightarrow> val \<Rightarrow> (heap \<times> val) option" where
  "caml_int64_or h v1 v2 = caml_copy_int64 h (Int64_val (hp_mem h) v1 OR Int64_val (hp_mem h) v2)"

definition caml_int64_xor :: "heap \<Rightarrow> val \<Rightarrow> val \<Rightarrow> (heap \<times> val) option" where
  "caml_int64_xor h v1 v2 = caml_copy_int64 h (Int64_val (hp_mem h) v1 XOR Int64_val (hp_mem h) v2)"

definition caml_int64_shift_left :: "heap \<Rightarrow> val \<Rightarrow> val \<Rightarrow> (heap \<times> val) option option" where
  "caml_int64_shift_left h v1 v2 = bind_shift (c_shl (Int64_val (hp_mem h) v1) (Int_val v2)) (caml_copy_int64 h)"

definition caml_int64_shift_right :: "heap \<Rightarrow> val \<Rightarrow> val \<Rightarrow> (heap \<times> val) option option" where
  "caml_int64_shift_right h v1 v2 = bind_shift (c_sar (Int64_val (hp_mem h) v1) (Int_val v2)) (caml_copy_int64 h)"

definition caml_int64_shift_right_unsigned :: "heap \<Rightarrow> val \<Rightarrow> val \<Rightarrow> (heap \<times> val) option option" where
  "caml_int64_shift_right_unsigned h v1 v2 = bind_shift (c_shr (Int64_val (hp_mem h) v1) (Int_val v2)) (caml_copy_int64 h)"

definition caml_int64_direct_bswap :: "val \<Rightarrow> val" where
  "caml_int64_direct_bswap v = caml_swap64 v"

definition caml_int64_bswap :: "heap \<Rightarrow> val \<Rightarrow> (heap \<times> val) option" where
  "caml_int64_bswap h v =
     (let x = Int64_val (hp_mem h) v in
      caml_copy_int64 h
        (push_bit 56 (x AND 0x00000000000000FF) OR push_bit 40 (x AND 0x000000000000FF00) OR
         push_bit 24 (x AND 0x0000000000FF0000) OR push_bit 8 (x AND 0x00000000FF000000) OR
         drop_bit 8 (x AND 0x000000FF00000000) OR drop_bit 24 (x AND 0x0000FF0000000000) OR
         drop_bit 40 (x AND 0x00FF000000000000) OR drop_bit 56 (x AND 0xFF00000000000000)))"

definition caml_int64_of_int :: "heap \<Rightarrow> val \<Rightarrow> (heap \<times> val) option" where
  "caml_int64_of_int h v = caml_copy_int64 h (Long_val v)"

definition caml_int64_to_int :: "mem \<Rightarrow> val \<Rightarrow> val" where
  "caml_int64_to_int m v = Val_long (Int64_val m v)"

definition caml_int64_of_int32 :: "heap \<Rightarrow> val \<Rightarrow> (heap \<times> val) option" where
  "caml_int64_of_int32 h v = caml_copy_int64 h (scast (Int32_val (hp_mem h) v))"

definition caml_int64_to_int32 :: "heap \<Rightarrow> val \<Rightarrow> (heap \<times> val) option" where
  "caml_int64_to_int32 h v = caml_copy_int32 h (ucast (Int64_val (hp_mem h) v))"

definition caml_int64_of_nativeint :: "heap \<Rightarrow> val \<Rightarrow> (heap \<times> val) option" where
  "caml_int64_of_nativeint h v = caml_copy_int64 h (Nativeint_val (hp_mem h) v)"

definition caml_int64_to_nativeint :: "heap \<Rightarrow> val \<Rightarrow> (heap \<times> val) option" where
  "caml_int64_to_nativeint h v = caml_copy_nativeint h (Int64_val (hp_mem h) v)"

definition caml_int64_compare_unboxed :: "u64 \<Rightarrow> u64 \<Rightarrow> u64" where
  "caml_int64_compare_unboxed i1 i2 = COMPARE_INT i1 i2"

definition caml_int64_compare :: "mem \<Rightarrow> val \<Rightarrow> val \<Rightarrow> val" where
  "caml_int64_compare m v1 v2 = Val_int (ucast (caml_int64_compare_unboxed (Int64_val m v1) (Int64_val m v2)))"

definition caml_int64_of_string_unboxed :: "mem \<Rightarrow> val \<Rightarrow> u64 res option" where
  "caml_int64_of_string_unboxed m s =
     (let (p, base, signedness, sign) = parse_sign_and_base m s;
          threshold = - 1 div word_of_int base;
          d = parse_digit (m p) in
      if d < 0 \<or> base \<le> d then Some (Inl (Failure ''Int64.of_string''))
      else case parse_digits m ''Int64.of_string'' base threshold (p + 1) (word_of_int d) of
        None \<Rightarrow> None
      | Some (Inl e) \<Rightarrow> Some (Inl e)
      | Some (Inr (p, res)) \<Rightarrow>
          if p \<noteq> s + caml_string_length m s then Some (Inl (Failure ''Int64.of_string''))
          else if signedness \<and> (if 0 \<le> sign then push_bit 63 1 \<le> res else push_bit 63 1 < res)
          then Some (Inl (Failure ''Int64.of_string''))
          else Some (Inr (if sign < 0 then - res else res)))"

definition caml_int64_of_string :: "heap \<Rightarrow> val \<Rightarrow> (heap \<times> val) option res option" where
  "caml_int64_of_string h s = map_res_option (caml_copy_int64 h) (caml_int64_of_string_unboxed (hp_mem h) s)"

subsection \<open>Native integers\<close>

definition nativeint_cmp :: "mem \<Rightarrow> val \<Rightarrow> val \<Rightarrow> int" where
  "nativeint_cmp m v1 v2 = (let i1 = Nativeint_val m v1; i2 = Nativeint_val m v2 in of_bool (i2 <s i1) - of_bool (i1 <s i2))"

definition nativeint_hash :: "mem \<Rightarrow> val \<Rightarrow> u64" where
  "nativeint_hash m v =
     (let n = Nativeint_val m v in signed_drop_bit 32 n XOR signed_drop_bit 63 n XOR n)"

definition caml_nativeint_neg :: "heap \<Rightarrow> val \<Rightarrow> (heap \<times> val) option" where
  "caml_nativeint_neg h v1 = caml_copy_nativeint h (- Nativeint_val (hp_mem h) v1)"

definition caml_nativeint_add :: "heap \<Rightarrow> val \<Rightarrow> val \<Rightarrow> (heap \<times> val) option" where
  "caml_nativeint_add h v1 v2 = caml_copy_nativeint h (Nativeint_val (hp_mem h) v1 + Nativeint_val (hp_mem h) v2)"

definition caml_nativeint_sub :: "heap \<Rightarrow> val \<Rightarrow> val \<Rightarrow> (heap \<times> val) option" where
  "caml_nativeint_sub h v1 v2 = caml_copy_nativeint h (Nativeint_val (hp_mem h) v1 - Nativeint_val (hp_mem h) v2)"

definition caml_nativeint_mul :: "heap \<Rightarrow> val \<Rightarrow> val \<Rightarrow> (heap \<times> val) option" where
  "caml_nativeint_mul h v1 v2 = caml_copy_nativeint h (Nativeint_val (hp_mem h) v1 * Nativeint_val (hp_mem h) v2)"

definition caml_nativeint_div :: "heap \<Rightarrow> val \<Rightarrow> val \<Rightarrow> (heap \<times> val) option res" where
  "caml_nativeint_div h v1 v2 =
     (let dividend = Nativeint_val (hp_mem h) v1; divisor = Nativeint_val (hp_mem h) v2 in
      if divisor = 0 then Inl Division_by_zero
      else if dividend = - (2 ^ 63) \<and> divisor = - 1 then Inr (Some (h, v1))
      else Inr (caml_copy_nativeint h (c_sdiv dividend divisor)))"

definition caml_nativeint_unsigned_div :: "heap \<Rightarrow> val \<Rightarrow> val \<Rightarrow> (heap \<times> val) option res" where
  "caml_nativeint_unsigned_div h v1 v2 =
     (let dividend = Nativeint_val (hp_mem h) v1; divisor = Nativeint_val (hp_mem h) v2 in
      if divisor = 0 then Inl Division_by_zero
      else Inr (caml_copy_nativeint h (dividend div divisor)))"

definition caml_nativeint_mod :: "heap \<Rightarrow> val \<Rightarrow> val \<Rightarrow> (heap \<times> val) option res" where
  "caml_nativeint_mod h v1 v2 =
     (let dividend = Nativeint_val (hp_mem h) v1; divisor = Nativeint_val (hp_mem h) v2 in
      if divisor = 0 then Inl Division_by_zero
      else if dividend = - (2 ^ 63) \<and> divisor = - 1 then Inr (caml_copy_nativeint h 0)
      else Inr (caml_copy_nativeint h (c_smod dividend divisor)))"

definition caml_nativeint_unsigned_mod :: "heap \<Rightarrow> val \<Rightarrow> val \<Rightarrow> (heap \<times> val) option res" where
  "caml_nativeint_unsigned_mod h v1 v2 =
     (let dividend = Nativeint_val (hp_mem h) v1; divisor = Nativeint_val (hp_mem h) v2 in
      if divisor = 0 then Inl Division_by_zero
      else Inr (caml_copy_nativeint h (dividend mod divisor)))"

definition caml_nativeint_and :: "heap \<Rightarrow> val \<Rightarrow> val \<Rightarrow> (heap \<times> val) option" where
  "caml_nativeint_and h v1 v2 = caml_copy_nativeint h (Nativeint_val (hp_mem h) v1 AND Nativeint_val (hp_mem h) v2)"

definition caml_nativeint_or :: "heap \<Rightarrow> val \<Rightarrow> val \<Rightarrow> (heap \<times> val) option" where
  "caml_nativeint_or h v1 v2 = caml_copy_nativeint h (Nativeint_val (hp_mem h) v1 OR Nativeint_val (hp_mem h) v2)"

definition caml_nativeint_xor :: "heap \<Rightarrow> val \<Rightarrow> val \<Rightarrow> (heap \<times> val) option" where
  "caml_nativeint_xor h v1 v2 = caml_copy_nativeint h (Nativeint_val (hp_mem h) v1 XOR Nativeint_val (hp_mem h) v2)"

definition caml_nativeint_shift_left :: "heap \<Rightarrow> val \<Rightarrow> val \<Rightarrow> (heap \<times> val) option option" where
  "caml_nativeint_shift_left h v1 v2 = bind_shift (c_shl (Nativeint_val (hp_mem h) v1) (Int_val v2)) (caml_copy_nativeint h)"

definition caml_nativeint_shift_right :: "heap \<Rightarrow> val \<Rightarrow> val \<Rightarrow> (heap \<times> val) option option" where
  "caml_nativeint_shift_right h v1 v2 = bind_shift (c_sar (Nativeint_val (hp_mem h) v1) (Int_val v2)) (caml_copy_nativeint h)"

definition caml_nativeint_shift_right_unsigned :: "heap \<Rightarrow> val \<Rightarrow> val \<Rightarrow> (heap \<times> val) option option" where
  "caml_nativeint_shift_right_unsigned h v1 v2 = bind_shift (c_shr (Nativeint_val (hp_mem h) v1) (Int_val v2)) (caml_copy_nativeint h)"

definition caml_nativeint_direct_bswap :: "val \<Rightarrow> val" where
  "caml_nativeint_direct_bswap v = caml_swap64 v"

definition caml_nativeint_bswap :: "heap \<Rightarrow> val \<Rightarrow> (heap \<times> val) option" where
  "caml_nativeint_bswap h v = caml_copy_nativeint h (caml_swap64 (Nativeint_val (hp_mem h) v))"

definition caml_nativeint_of_int :: "heap \<Rightarrow> val \<Rightarrow> (heap \<times> val) option" where
  "caml_nativeint_of_int h v = caml_copy_nativeint h (Long_val v)"

definition caml_nativeint_to_int :: "mem \<Rightarrow> val \<Rightarrow> val" where
  "caml_nativeint_to_int m v = Val_long (Nativeint_val m v)"

definition caml_nativeint_of_int32 :: "heap \<Rightarrow> val \<Rightarrow> (heap \<times> val) option" where
  "caml_nativeint_of_int32 h v = caml_copy_nativeint h (scast (Int32_val (hp_mem h) v))"

definition caml_nativeint_to_int32 :: "heap \<Rightarrow> val \<Rightarrow> (heap \<times> val) option" where
  "caml_nativeint_to_int32 h v = caml_copy_int32 h (ucast (Nativeint_val (hp_mem h) v))"

definition caml_nativeint_compare_unboxed :: "u64 \<Rightarrow> u64 \<Rightarrow> u64" where
  "caml_nativeint_compare_unboxed i1 i2 = COMPARE_INT i1 i2"

definition caml_nativeint_compare :: "mem \<Rightarrow> val \<Rightarrow> val \<Rightarrow> val" where
  "caml_nativeint_compare m v1 v2 = Val_int (ucast (caml_nativeint_compare_unboxed (Nativeint_val m v1) (Nativeint_val m v2)))"

definition caml_nativeint_of_string_unboxed :: "mem \<Rightarrow> val \<Rightarrow> u64 res option" where
  "caml_nativeint_of_string_unboxed m s = parse_intnat m s (8 * 8) ''Nativeint.of_string''"

definition caml_nativeint_of_string :: "heap \<Rightarrow> val \<Rightarrow> (heap \<times> val) option res option" where
  "caml_nativeint_of_string h s = map_res_option (caml_copy_nativeint h) (caml_nativeint_of_string_unboxed (hp_mem h) s)"

subsection \<open>Reinterpretation\<close>

definition caml_reinterpret_tagged_int63_as_unboxed_int64 :: "heap \<Rightarrow> val \<Rightarrow> (heap \<times> val) option" where
  "caml_reinterpret_tagged_int63_as_unboxed_int64 h i = caml_copy_int64 h i"

definition caml_reinterpret_unboxed_int64_as_tagged_int63 :: "mem \<Rightarrow> val \<Rightarrow> val" where
  "caml_reinterpret_unboxed_int64_as_tagged_int63 m i = Int64_val m i OR 1"
subsection \<open>Integer literals: the reference\<close>

text \<open>
  The value of an integer literal, computed on unbounded integers: an optional sign, an optional
  base prefix, a digit, then digits and underscores, with the range that \<open>nbits\<close> allows.
\<close>

fun split_sign :: "u8 list \<Rightarrow> int \<times> u8 list" where
  "split_sign [] = (1, [])"
| "split_sign (c # cs) =
     (if c = chr8 CHR ''-'' then (- 1, cs) else if c = chr8 CHR ''+'' then (1, cs) else (1, c # cs))"

fun split_base :: "u8 list \<Rightarrow> int \<times> bool \<times> u8 list" where
  "split_base (c # c' # cs) =
     (if c \<noteq> chr8 CHR ''0'' then (10, True, c # c' # cs)
      else if c' \<in> {chr8 CHR ''x'', chr8 CHR ''X''} then (16, False, cs)
      else if c' \<in> {chr8 CHR ''o'', chr8 CHR ''O''} then (8, False, cs)
      else if c' \<in> {chr8 CHR ''b'', chr8 CHR ''B''} then (2, False, cs)
      else if c' \<in> {chr8 CHR ''u'', chr8 CHR ''U''} then (10, False, cs)
      else (10, True, c # c' # cs))"
| "split_base cs = (10, True, cs)"

definition is_digit :: "int \<Rightarrow> u8 \<Rightarrow> bool" where
  "is_digit base c \<longleftrightarrow> 0 \<le> parse_digit c \<and> parse_digit c < base"

definition literal_char :: "int \<Rightarrow> u8 \<Rightarrow> bool" where
  "literal_char base c \<longleftrightarrow> c = chr8 CHR ''_'' \<or> is_digit base c"

fun digits_value :: "int \<Rightarrow> int \<Rightarrow> u8 list \<Rightarrow> int" where
  "digits_value base a [] = a"
| "digits_value base a (c # cs) =
     digits_value base (if c = chr8 CHR ''_'' then a else a * base + parse_digit c) cs"

definition literal_value :: "nat \<Rightarrow> u8 list \<Rightarrow> int option" where
  "literal_value nbits bs =
     (case split_sign bs of (sign, rest) \<Rightarrow> case split_base rest of (base, signedness, ds) \<Rightarrow>
        if ds = [] \<or> \<not> is_digit base (hd ds) \<or> \<not> list_all (literal_char base) ds then None
        else let v = digits_value base 0 ds in
          if (if signedness then if sign = 1 then v < 2 ^ (nbits - 1) else v \<le> 2 ^ (nbits - 1) else v < 2 ^ nbits)
          then Some (sign * v) else None)"

subsection \<open>Integer literals: the parser computes the reference\<close>

text \<open>The bytes of a string followed by its terminating null byte.\<close>

fun cstr_at :: "mem \<Rightarrow> addr \<Rightarrow> u8 list \<Rightarrow> bool" where
  "cstr_at m p [] \<longleftrightarrow> m p = 0"
| "cstr_at m p (c # cs) \<longleftrightarrow> m p = c \<and> cstr_at m (p + 1) cs"

lemma cstr_atI: "bytes_at m p bs \<Longrightarrow> m (p + of_nat (length bs)) = 0 \<Longrightarrow> cstr_at m p bs"
  by (induction bs arbitrary: p) (auto simp: bytes_at_Cons ac_simps)

lemma parse_digit_range: "- 1 \<le> parse_digit c" "parse_digit c < 16"
  by (auto simp: parse_digit_def word_le_def)

lemma parse_digit_0 [simp]: "parse_digit 0 = - 1"
  by (simp add: parse_digit_def)

lemma digits_value_mono:
  assumes "1 \<le> base" "list_all (literal_char base) ds" "0 \<le> a"
  shows "a \<le> digits_value base a ds"
  using assms
proof (induction ds arbitrary: a)
  case (Cons c ds)
  let ?b = "if c = chr8 CHR ''_'' then a else a * base + parse_digit c"
  have "a * 1 \<le> a * base" using Cons.prems by (intro mult_left_mono) auto
  then have "a \<le> ?b" using Cons.prems by (auto simp: literal_char_def is_digit_def)
  with Cons.IH [of ?b] Cons.prems show ?case by simp
qed simp

lemma uint_word_of_int_64: "0 \<le> v \<Longrightarrow> v < 2 ^ 64 \<Longrightarrow> uint (word_of_int v :: u64) = v"
  unfolding uint_word_of_int by simp

lemma uint_threshold:
  assumes "base \<in> {2, 8, 10, 16}"
  shows "uint (- 1 div word_of_int base :: u64) = (2 ^ 64 - 1) div base"
  using assms by (auto simp: uint_div unsigned_minus_1_eq_mask mask_eq_exp_minus_1)

lemma threshold_overflow:
  fixes res :: u64
  assumes b: "base \<in> {2, 8, 10, 16}" and d: "0 \<le> d" "d < base"
  shows "- 1 div word_of_int base < res \<Longrightarrow> 2 ^ 64 \<le> uint res * base + d"
    and "\<not> - 1 div word_of_int base < res \<Longrightarrow>
      uint (word_of_int base * res + word_of_int d) = (uint res * base + d) mod 2 ^ 64 \<and>
      (word_of_int base * res + word_of_int d < word_of_int d \<longleftrightarrow> 2 ^ 64 \<le> uint res * base + d)"
proof -
  have ub: "uint (word_of_int base :: u64) = base" "uint (word_of_int d :: u64) = d"
    using b d by (auto simp: uint_word_of_int)
  have thr: "- 1 div word_of_int base < res \<longleftrightarrow> (2 ^ 64 - 1) div base < uint res"
    using uint_threshold [OF b] by (simp add: word_less_def)
  show "2 ^ 64 \<le> uint res * base + d" if "- 1 div word_of_int base < res"
    using that b d unfolding thr by auto
  assume "\<not> - 1 div word_of_int base < res"
  then have le: "uint res * base \<le> 2 ^ 64 - 1" using b unfolding thr by auto
  have u: "uint (word_of_int base * res + word_of_int d) = (uint res * base + d) mod 2 ^ 64"
    by (simp add: uint_word_ariths ub mod_simps mult.commute)
  have "(uint res * base + d) mod 2 ^ 64 < d \<longleftrightarrow> 2 ^ 64 \<le> uint res * base + d"
  proof (cases "2 ^ 64 \<le> uint res * base + d")
    case True
    have "(uint res * base + d) mod 2 ^ 64 = (uint res * base + d - 2 ^ 64) mod 2 ^ 64"
      by (simp add: mod_diff_right_eq [symmetric])
    also have "\<dots> = uint res * base + d - 2 ^ 64" using True le d b by (intro mod_pos_pos_trivial) auto
    finally show ?thesis using True le by linarith
  next
    case False
    have nn: "0 \<le> uint res * base" using b by auto
    with False d have "(uint res * base + d) mod 2 ^ 64 = uint res * base + d" by (intro mod_pos_pos_trivial) auto
    with nn False show ?thesis by linarith
  qed
  with u show "uint (word_of_int base * res + word_of_int d) = (uint res * base + d) mod 2 ^ 64 \<and>
      (word_of_int base * res + word_of_int d < word_of_int d \<longleftrightarrow> 2 ^ 64 \<le> uint res * base + d)"
    by (simp add: word_less_def ub)
qed

lemma parse_digits_step:
  assumes b: "base \<in> {2, 8, 10, 16}" and d: "is_digit base (m p)" "m p \<noteq> chr8 CHR ''_''"
  shows "parse_digits m e base (- 1 div word_of_int base) p res =
    (let v = uint res * base + parse_digit (m p) in
     if 2 ^ 64 \<le> v then Some (Inl (Failure e))
     else parse_digits m e base (- 1 div word_of_int base) (p + 1) (word_of_int v))"
proof -
  let ?d = "parse_digit (m p)" and ?t = "- 1 div word_of_int base :: u64"
  have dr: "0 \<le> ?d" "?d < base" using d by (auto simp: is_digit_def)
  note o = threshold_overflow [OF b dr, of res]
  show ?thesis
    using o dr d(2) unfolding parse_digits.simps [of m e base ?t p res]
    by (auto simp: Let_def mult.commute [of res])
qed

lemma parse_digits_ok:
  assumes b: "base \<in> {2, 8, 10, 16}" and "cstr_at m p ds" "list_all (literal_char base) ds"
  shows "parse_digits m e base (- 1 div word_of_int base) p res =
    (let v = digits_value base (uint res) ds in
     if 2 ^ 64 \<le> v then Some (Inl (Failure e)) else Some (Inr (p + of_nat (length ds), word_of_int v)))"
  using assms(2,3)
proof (induction ds arbitrary: p res)
  case Nil
  moreover have "\<not> 2 ^ 64 \<le> uint res" using uint_lt2p [of res] by simp
  ultimately show ?case by (subst parse_digits.simps) (simp add: Let_def)
next
  case (Cons c ds)
  show ?case
  proof (cases "c = chr8 CHR ''_''")
    case True
    with Cons show ?thesis by (subst parse_digits.simps) (simp add: Let_def ac_simps)
  next
    case False
    let ?v = "uint res * base + parse_digit c"
    have m: "m p = c" and dg: "is_digit base c" using Cons.prems False by (auto simp: literal_char_def)
    have v0: "0 \<le> ?v" using b dg by (auto simp: is_digit_def)
    have "?v \<le> digits_value base ?v ds" using b Cons.prems(2) v0 by (intro digits_value_mono) auto
    moreover have "uint (word_of_int ?v :: u64) = ?v" if "\<not> 2 ^ 64 \<le> ?v"
      using that v0 by (intro uint_word_of_int_64) auto
    ultimately show ?thesis unfolding Let_def
      using parse_digits_step [OF b, of m p e res, unfolded Let_def] m dg False Cons.IH [of "p + 1" "word_of_int ?v"] Cons.prems
      by (auto simp: Let_def ac_simps)
  qed
qed

lemma parse_digits_bad:
  assumes b: "base \<in> {2, 8, 10, 16}" and "cstr_at m p ds" "\<not> list_all (literal_char base) ds"
  shows "\<exists>k r. k < length ds \<and> (parse_digits m e base (- 1 div word_of_int base) p res = Some (Inl (Failure e)) \<or>
    parse_digits m e base (- 1 div word_of_int base) p res = Some (Inr (p + of_nat k, r)))"
  using assms(2,3)
proof (induction ds arbitrary: p res)
  case (Cons c ds)
  have m: "m p = c" using Cons.prems by simp
  let ?P = "\<lambda>p res. parse_digits m e base (- 1 div word_of_int base) p res"
  have step: "\<exists>k r. k < length (c # ds) \<and> (?P p res = Some (Inl (Failure e)) \<or> ?P p res = Some (Inr (p + of_nat k, r)))"
    if eq: "?P p res = ?P (p + 1) res'" and lc: "literal_char base c" for res'
  proof -
    have "\<not> list_all (literal_char base) ds" using Cons.prems lc by simp
    from Cons.IH [OF _ this, of "p + 1" res'] Cons.prems obtain k r where
      "k < length ds" "?P (p + 1) res' = Some (Inl (Failure e)) \<or> ?P (p + 1) res' = Some (Inr (p + 1 + of_nat k, r))"
      by auto
    with eq show ?thesis by (intro exI [of _ "Suc k"] exI [of _ r]) (auto simp: ac_simps)
  qed
  show ?case
  proof (cases "c = chr8 CHR ''_''")
    case True
    then have "?P p res = ?P (p + 1) res" using m by (subst parse_digits.simps) (simp add: Let_def)
    from step [OF this] True show ?thesis by (simp add: literal_char_def)
  next
    case False
    show ?thesis
    proof (cases "is_digit base c")
      case True
      show ?thesis
      proof (cases "2 ^ 64 \<le> uint res * base + parse_digit c")
        case big: True
        then have "?P p res = Some (Inl (Failure e))"
          using parse_digits_step [OF b, of m p e res] m True False by (simp add: Let_def)
        then show ?thesis by auto
      next
        case small: False
        then have "?P p res = ?P (p + 1) (word_of_int (uint res * base + parse_digit c))"
          using parse_digits_step [OF b, of m p e res] m True False by (simp add: Let_def)
        from step [OF this] True show ?thesis by (simp add: literal_char_def)
      qed
    next
      case nd: False
      then have "?P p res = Some (Inr (p + of_nat 0, res))"
        using m False by (subst parse_digits.simps) (auto simp: Let_def is_digit_def)
      then show ?thesis by (metis length_greater_0_conv list.discI)
    qed
  qed
qed simp


lemma parse_sign_and_base_split:
  assumes "cstr_at m p bs" "split_sign bs = (sign, rest)" "split_base rest = (base, signedness, ds)"
  shows "parse_sign_and_base m p = (p + of_nat (length bs - length ds), base, signedness, sign)"
    "cstr_at m (p + of_nat (length bs - length ds)) ds" "length ds \<le> length bs" "base \<in> {2, 8, 10, 16}"
    "sign \<in> {1, - 1}"
proof -
  obtain q where q: "cstr_at m q rest" "q = p + of_nat (length bs - length rest)" "length rest \<le> length bs"
    "(if m p = chr8 CHR ''-'' then (- 1, p + 1) else if m p = chr8 CHR ''+'' then (1, p + 1) else (1, p)) = (sign, q)"
    "sign \<in> {1, - 1}"
    using assms(1,2) by (cases bs) (auto split: if_splits)
  show "sign \<in> {1, - 1}" by (fact q(5))
  have r: "(if m q = chr8 CHR ''0'' then
        if m (q + 1) = chr8 CHR ''x'' \<or> m (q + 1) = chr8 CHR ''X'' then (q + 2, 16, False, sign)
        else if m (q + 1) = chr8 CHR ''o'' \<or> m (q + 1) = chr8 CHR ''O'' then (q + 2, 8, False, sign)
        else if m (q + 1) = chr8 CHR ''b'' \<or> m (q + 1) = chr8 CHR ''B'' then (q + 2, 2, False, sign)
        else if m (q + 1) = chr8 CHR ''u'' \<or> m (q + 1) = chr8 CHR ''U'' then (q + 2, 10, False, sign)
        else (q, 10, True, sign)
      else (q, 10, True, sign)) = (q + of_nat (length rest - length ds), base, signedness, sign) \<and>
    cstr_at m (q + of_nat (length rest - length ds)) ds \<and> length ds \<le> length rest \<and> base \<in> {2, 8, 10, 16}"
    using q(1) assms(3) by (induction rest rule: split_base.induct) (auto split: if_splits simp: add.commute [of 2 q])
  then show "length ds \<le> length bs" "base \<in> {2, 8, 10, 16}" using q(3) by auto
  have e: "q + of_nat (length rest - length ds) = p + of_nat (length bs - length ds)"
    using q(2,3) r by (simp add: of_nat_diff)
  show "parse_sign_and_base m p = (p + of_nat (length bs - length ds), base, signedness, sign)"
    unfolding parse_sign_and_base_def q(4) Let_def prod.case using r unfolding e by blast
  show "cstr_at m (p + of_nat (length bs - length ds)) ds" using r unfolding e by blast
qed

text \<open>The range checks on the accumulated 64-bit word are those of the unbounded value.\<close>

lemma range_check:
  assumes "0 \<le> v" "v < 2 ^ 64" "1 \<le> nbits" "nbits \<le> 64"
  shows "push_bit (nbits - 1) 1 \<le> (word_of_int v :: u64) \<longleftrightarrow> 2 ^ (nbits - 1) \<le> v"
    "push_bit (nbits - 1) 1 < (word_of_int v :: u64) \<longleftrightarrow> 2 ^ (nbits - 1) < v"
    "nbits < 64 \<and> push_bit nbits 1 \<le> (word_of_int v :: u64) \<longleftrightarrow> 2 ^ nbits \<le> v"
proof -
  have p: "uint (push_bit k 1 :: u64) = 2 ^ k" if "k < 64" for k
    using that unat_power2 [of k, where 'a = 64] by (simp add: uint_nat push_bit_eq_mult)
  have u: "uint (word_of_int v :: u64) = v" using assms by (intro uint_word_of_int_64)
  have "nbits - 1 < 64" using assms by simp
  then show "push_bit (nbits - 1) 1 \<le> (word_of_int v :: u64) \<longleftrightarrow> 2 ^ (nbits - 1) \<le> v"
    "push_bit (nbits - 1) 1 < (word_of_int v :: u64) \<longleftrightarrow> 2 ^ (nbits - 1) < v"
    unfolding word_le_def word_less_def u by (simp_all only: p)
  show "nbits < 64 \<and> push_bit nbits 1 \<le> (word_of_int v :: u64) \<longleftrightarrow> 2 ^ nbits \<le> v"
    unfolding word_le_def u using assms p by (cases "nbits = 64") auto
qed

lemma parse_intnat_literal:
  assumes sb: "string_block m s bs" and n: "1 \<le> nbits" "nbits \<le> 64"
  shows "parse_intnat m s nbits e = Some (case literal_value nbits bs of
    None \<Rightarrow> Inl (Failure e) | Some i \<Rightarrow> Inr (word_of_int i))"
proof -
  obtain sign rest base signedness ds where sp: "split_sign bs = (sign, rest)" "split_base rest = (base, signedness, ds)"
    by (metis prod.exhaust)
  have c: "cstr_at m s bs" using string_block_prefix [OF sb] by (rule cstr_atI)
  define p where "p = s + of_nat (length bs - length ds)"
  note ps = parse_sign_and_base_split [OF c sp, folded p_def]
  note len = string_length_block [OF sb]
  have lb: "length bs < 2 ^ 48" using sb by (simp add: string_block_def)
  let ?t = "- 1 div word_of_int base :: u64"
  show ?thesis
  proof (cases "ds = [] \<or> \<not> is_digit base (hd ds)")
    case True
    then have "parse_digit (m p) < 0 \<or> base \<le> parse_digit (m p)"
      using ps(2) by (cases ds) (auto simp: is_digit_def)
    then show ?thesis using True sp ps(1) by (auto simp: parse_intnat_def literal_value_def Let_def)
  next
    case False
    then obtain c ds' where ds: "ds = c # ds'" by (cases ds) auto
    have dg: "0 \<le> parse_digit c" "parse_digit c < base" and mp: "m p = c" "cstr_at m (p + 1) ds'"
      using False ps(2) ds by (auto simp: is_digit_def)
    have nu: "c \<noteq> chr8 CHR ''_''" using dg by (auto simp: parse_digit_def)
    have pe: "p + 1 + of_nat (length ds') = s + of_nat (length bs)"
      using ps(3) ds by (simp add: p_def of_nat_diff)
    have ud: "uint (word_of_int (parse_digit c) :: u64) = parse_digit c"
      using dg ps(4) by (intro uint_word_of_int_64) auto
    show ?thesis
    proof (cases "list_all (literal_char base) ds'")
      case True
      let ?v = "digits_value base (parse_digit c) ds'"
      have v0: "0 \<le> ?v" using digits_value_mono [of base ds' "parse_digit c"] True dg ps(4) by auto
      note ok = parse_digits_ok [OF ps(4) mp(2) True, of e "word_of_int (parse_digit c)", unfolded ud pe]
      have lv: "literal_value nbits bs =
        (if (if signedness then if sign = 1 then ?v < 2 ^ (nbits - 1) else ?v \<le> 2 ^ (nbits - 1) else ?v < 2 ^ nbits)
         then Some (sign * ?v) else None)"
        using sp ds dg nu True by (simp add: literal_value_def literal_char_def is_digit_def)
      show ?thesis
      proof (cases "2 ^ 64 \<le> ?v")
        case big: True
        have "(2 :: int) ^ (nbits - 1) < 2 ^ 64" "(2 :: int) ^ nbits \<le> 2 ^ 64"
          using n power_strict_increasing [of "nbits - 1" 64 "2 :: int"] power_increasing [of nbits 64 "2 :: int"] by auto
        then have "literal_value nbits bs = None" using big unfolding lv by auto
        then show ?thesis using big ok ps(1) dg mp(1) by (simp add: parse_intnat_def)
      next
        case small: False
        note rc = range_check [OF v0 _ n]
        have "parse_digits m e base ?t (p + 1) (word_of_int (parse_digit c)) =
          Some (Inr (s + of_nat (length bs), word_of_int ?v))" using ok small by (simp add: Let_def)
        then show ?thesis using rc small ps(1,5) dg mp(1) len unfolding lv
          by (auto simp: parse_intnat_def)
      qed
    next
      case bad: False
      then have "literal_value nbits bs = None" using sp ds by (simp add: literal_value_def)
      moreover obtain k r where k: "k < length ds'"
        "parse_digits m e base ?t (p + 1) (word_of_int (parse_digit c)) = Some (Inl (Failure e)) \<or>
         parse_digits m e base ?t (p + 1) (word_of_int (parse_digit c)) = Some (Inr (p + 1 + of_nat k, r))"
        using parse_digits_bad [OF ps(4) mp(2) bad, of e "word_of_int (parse_digit c)"] by blast
      moreover have "p + 1 + of_nat k \<noteq> s + of_nat (length bs)"
        unfolding pe [symmetric] using k(1) lb ps(3) ds of_nat_u64_eq_iff [of k "length ds'"] by auto
      ultimately show ?thesis using ps(1) dg mp(1) len by (auto simp: parse_intnat_def)
    qed
  qed
qed

subsection \<open>Division\<close>

lemma sint_range: "- (2 ^ (LENGTH('a) - 1)) \<le> sint (a :: 'a::len word)" "sint a < 2 ^ (LENGTH('a) - 1)"
  using sint_ge [of a] sint_lt [of a] by auto

lemma sint_minus_one: "2 \<le> LENGTH('a) \<Longrightarrow> sint (b :: 'a::len word) = - 1 \<longleftrightarrow> b = - 1"
  by (metis sint_eqI sint_n1)

lemma sint_int_min: "sint (- (2 ^ (LENGTH('a) - 1)) :: 'a::len word) = - (2 ^ (LENGTH('a) - 1))"
proof -
  have "sint (word_of_int (- (2 ^ (LENGTH('a) - 1))) :: 'a word) = - (2 ^ (LENGTH('a) - 1))"
    by (rule sint_word_of_int_range) auto
  then show ?thesis by simp
qed

text \<open>
  Division rounds towards zero, the remainder has the sign of the dividend, and both are exact except
  for the one quotient that does not fit.
\<close>

lemma c_sdiv_smod:
  fixes a b :: "'a::len word"
  assumes "2 \<le> LENGTH('a)" "b \<noteq> 0"
  shows "\<not> (a = - (2 ^ (LENGTH('a) - 1)) \<and> b = - 1) \<Longrightarrow> sint (c_sdiv a b) = sint a sdiv sint b"
    and "sint (c_smod a b) = sint a smod sint b"
    and "c_sdiv a b * b + c_smod a b = a"
proof -
  let ?M = "2 ^ (LENGTH('a) - 1) :: int"
  have b0: "sint b \<noteq> 0" using assms(2) sint_eqI [of b 0] by auto
  show "sint (c_sdiv a b) = sint a sdiv sint b" if nov: "\<not> (a = - (2 ^ (LENGTH('a) - 1)) \<and> b = - 1)"
    unfolding c_sdiv_def
  proof (rule sint_word_of_int_range)
    have r: "sint a sdiv sint b \<in> {- \<bar>sint a\<bar>..\<bar>sint a\<bar>}" by (rule sdiv_int_range)
    note ra = sint_range [of a]
    show "- ?M \<le> sint a sdiv sint b" using r ra by auto
    show "sint a sdiv sint b < ?M"
    proof (cases "sint a = - ?M")
      case True
      then have "a = - (2 ^ (LENGTH('a) - 1))" using sint_int_min sint_eqI by metis
      then have "b \<noteq> - 1" using nov by simp
      then have "sint b \<noteq> - 1" using sint_minus_one [of b] assms(1) by simp
      moreover have "sint a \<noteq> 0" using True by simp
      ultimately have "sint a sdiv sint b \<noteq> - sint a" by (metis int_sdiv_negated_is_minus1)
      then show ?thesis using r True by auto
    next
      case False
      then show ?thesis using r ra by auto
    qed
  qed
  show "sint (c_smod a b) = sint a smod sint b" unfolding c_smod_def
  proof (rule sint_word_of_int_range)
    show "- ?M \<le> sint a smod sint b" "sint a smod sint b < ?M"
      using smod_int_range [OF b0, of "sint a"] sint_range [of b] by auto
  qed
  have "c_sdiv a b * b + c_smod a b = word_of_int (sint a sdiv sint b * sint b + sint a smod sint b)"
    by (simp add: c_sdiv_def c_smod_def)
  also have "\<dots> = a" by (simp only: sdiv_mult_smod_eq) simp
  finally show "c_sdiv a b * b + c_smod a b = a" .
qed

subsection \<open>Byte swaps\<close>

lemma byte_masks_64:
  "(0x00000000000000FF :: u64) = push_bit 0 (mask 8)" "(0x000000000000FF00 :: u64) = push_bit 8 (mask 8)"
  "(0x0000000000FF0000 :: u64) = push_bit 16 (mask 8)" "(0x00000000FF000000 :: u64) = push_bit 24 (mask 8)"
  "(0x000000FF00000000 :: u64) = push_bit 32 (mask 8)" "(0x0000FF0000000000 :: u64) = push_bit 40 (mask 8)"
  "(0x00FF000000000000 :: u64) = push_bit 48 (mask 8)" "(0xFF00000000000000 :: u64) = push_bit 56 (mask 8)"
  by (simp_all add: mask_eq_exp_minus_1)

lemma byte_masks_32:
  "(0x000000FF :: u32) = push_bit 0 (mask 8)" "(0x0000FF00 :: u32) = push_bit 8 (mask 8)"
  "(0x00FF0000 :: u32) = push_bit 16 (mask 8)" "(0xFF000000 :: u32) = push_bit 24 (mask 8)"
  by (simp_all add: mask_eq_exp_minus_1)

lemma bit_and_byte_mask [bit_simps]:
  "bit (x AND push_bit k (mask 8)) j \<longleftrightarrow> k \<le> j \<and> j < k + 8 \<and> bit x j" for x :: "'a::len word"
  by (auto simp: bit_simps dest: bit_imp_le_length)

lemma caml_swap64_bits:
  assumes "i < 8" "n < 8"
  shows "bit (caml_swap64 x) (8 * i + n) \<longleftrightarrow> bit x (8 * (7 - i) + n)"
proof -
  consider "i = 0" | "i = 1" | "i = 2" | "i = 3" | "i = 4" | "i = 5" | "i = 6" | "i = 7" using assms(1) by linarith
  then show ?thesis unfolding caml_swap64_def byte_masks_64
    using assms(2) by cases (simp_all add: bit_or_iff bit_and_byte_mask bit_push_bit_iff bit_drop_bit_eq bit_signed_drop_bit_iff
        del: drop_bit_and)
qed

lemma caml_swap32_bits:
  assumes "i < 4" "n < 8"
  shows "bit (caml_swap32 x) (8 * i + n) \<longleftrightarrow> bit x (8 * (3 - i) + n)"
proof -
  consider "i = 0" | "i = 1" | "i = 2" | "i = 3" using assms(1) by linarith
  then show ?thesis unfolding caml_swap32_def byte_masks_32
    using assms(2) by cases (simp_all add: bit_or_iff bit_and_byte_mask bit_push_bit_iff bit_drop_bit_eq bit_signed_drop_bit_iff
        del: drop_bit_and)
qed

definition bytes_of :: "'a::len word \<Rightarrow> u8 list" where
  "bytes_of x = map (\<lambda>i. ucast (drop_bit (8 * i) x)) [0..<LENGTH('a) div 8]"

lemma bytes_of_rev:
  fixes x y :: "'a::len word"
  assumes "LENGTH('a) = 8 * k" "\<And>i n. i < k \<Longrightarrow> n < 8 \<Longrightarrow> bit y (8 * i + n) \<longleftrightarrow> bit x (8 * (k - 1 - i) + n)"
  shows "bytes_of y = rev (bytes_of x)"
proof (rule nth_equalityI)
  fix i assume "i < length (bytes_of y)"
  then have i: "i < k" using assms(1) by (simp add: bytes_of_def)
  then have "(ucast (drop_bit (8 * i) y) :: u8) = ucast (drop_bit (8 * (k - 1 - i)) x)"
    using assms(2) [OF i] by (intro bit_word_eqI) (simp add: bit_simps)
  then show "bytes_of y ! i = rev (bytes_of x) ! i"
    using i assms(1) by (simp add: bytes_of_def rev_nth)
qed (simp add: bytes_of_def)

lemma bytes_of_inject:
  fixes x y :: "'a::len word"
  assumes "LENGTH('a) = 8 * k" "bytes_of x = bytes_of y"
  shows "x = y"
proof (rule bit_word_eqI)
  fix n assume "n < LENGTH('a)"
  then have n: "n div 8 < LENGTH('a) div 8" using assms(1) by simp
  have "bytes_of x ! (n div 8) = bytes_of y ! (n div 8)" using assms(2) by simp
  then have "(ucast (drop_bit (8 * (n div 8)) x) :: u8) = ucast (drop_bit (8 * (n div 8)) y)"
    using n by (simp add: bytes_of_def)
  then have "bit (ucast (drop_bit (8 * (n div 8)) x) :: u8) (n mod 8) = bit (ucast (drop_bit (8 * (n div 8)) y) :: u8) (n mod 8)"
    by simp
  then show "bit x n = bit y n" by (simp add: bit_simps)
qed

lemma caml_int64_bswap_swap64: "caml_int64_bswap h v = caml_copy_int64 h (caml_swap64 (Int64_val (hp_mem h) v))"
proof -
  have "drop_bit k (x AND push_bit j (mask 8)) = signed_drop_bit k (x AND push_bit j (mask 8))"
    if "k \<le> j" "j + 8 < 64" for k j and x :: u64
    using that by (intro bit_word_eqI) (auto simp: bit_simps)
  then show ?thesis unfolding caml_int64_bswap_def caml_swap64_def byte_masks_64 Let_def by (simp del: drop_bit_and)
qed

lemma COMPARE_INT_sgn: "COMPARE_INT a b = word_of_int (sgn (sint a - sint b))"
  by (auto simp: COMPARE_INT_def word_sless_alt sgn_if)

lemma cmp_sgn: "of_bool (b <s a) - of_bool (a <s b) = sgn (sint a - sint b)"
  by (auto simp: word_sless_alt sgn_if)

lemma Long_val_sgn:
  "Long_val (Val_int (ucast (word_of_int (sgn k) :: u64))) = word_of_int (sgn (k :: int))"
  "Long_val (Val_long (word_of_int (sgn k))) = word_of_int (sgn k)"
proof -
  have "(scast (ucast (- 1 :: u64) :: u32) :: u64) = - 1"
    by (rule bit_word_eqI) (auto simp: bit_simps min_def)
  moreover have "sgn k \<in> {- 1, 0, 1}" by (auto simp: sgn_if)
  ultimately show "Long_val (Val_int (ucast (word_of_int (sgn k) :: u64))) = word_of_int (sgn k)"
    "Long_val (Val_long (word_of_int (sgn k))) = word_of_int (sgn k)"
    by (auto simp: Val_int_def Long_val_Val_long)
qed

subsection \<open>Properties\<close>

text \<open>
  C35: \<open>parse_intnat\<close> terminates on every OCaml string and returns exactly the value of the literal (sign, base
  prefix, digits and underscores, read with unbounded integers) when it is well formed and in the
  range of \<open>nbits\<close> bits, and raises \<open>Failure\<close> otherwise: no wrapped-around value is ever returned.
\<close>

theorem parse_intnat_value:
  assumes "string_block m s bs" "1 \<le> nbits" "nbits \<le> 64"
  shows "parse_intnat m s nbits e = Some (case literal_value nbits bs of
    None \<Rightarrow> Inl (Failure e) | Some i \<Rightarrow> Inr (word_of_int i))"
  using assms by (rule parse_intnat_literal)

theorem parse_intnat_value_witness:
  "parse_intnat (put_string (\<lambda>_. 0) 0x1000 (map chr8 ''-0x1_F'')) 0x1000 63 ''e'' = Some (Inr (word_of_int (- 31))) \<and>
   parse_intnat (put_string (\<lambda>_. 0) 0x1000 (map chr8 ''256'')) 0x1000 8 ''e'' = Some (Inl (Failure ''e''))"
proof -
  have v: "literal_value 63 (map chr8 ''-0x1_F'') = Some (- 31)" "literal_value 8 (map chr8 ''256'') = None" by code_simp+
  show ?thesis
    using parse_intnat_value [OF put_string_block, of "map chr8 ''-0x1_F''" 63 "\<lambda>_. 0" "0x1000" "''e''"]
      parse_intnat_value [OF put_string_block, of "map chr8 ''256''" 8 "\<lambda>_. 0" "0x1000" "''e''"] unfolding v by simp
qed

lemma int64_of_string_parse_intnat: "caml_int64_of_string_unboxed m s = parse_intnat m s 64 ''Int64.of_string''"
  unfolding caml_int64_of_string_unboxed_def parse_intnat_def
  by (auto simp: Let_def split: prod.split option.split sum.split)

text \<open>
  C36: the separate parser of 64-bit literals, \<open>caml_int64_of_string_unboxed\<close>, accepts the same literals as
  the general parser at 64 bits, and \<open>Int64.of_string\<close>, \<open>Nativeint.of_string\<close> and \<open>int_of_string\<close>
  return the value of the literal or raise \<open>Failure\<close>.
\<close>

theorem int64_of_string_value:
  assumes "string_block m s bs"
  shows "caml_int64_of_string_unboxed m s = Some (case literal_value 64 bs of
      None \<Rightarrow> Inl (Failure ''Int64.of_string'') | Some i \<Rightarrow> Inr (word_of_int i)) \<and>
    caml_nativeint_of_string_unboxed m s = Some (case literal_value 64 bs of
      None \<Rightarrow> Inl (Failure ''Nativeint.of_string'') | Some i \<Rightarrow> Inr (word_of_int i)) \<and>
    caml_int_of_string m s = Some (case literal_value 63 bs of
      None \<Rightarrow> Inl (Failure ''int_of_string'') | Some i \<Rightarrow> Inr (Val_long (word_of_int i)))"
  using parse_intnat_literal [OF assms, of 64] parse_intnat_literal [OF assms, of 63]
  by (simp add: int64_of_string_parse_intnat caml_nativeint_of_string_unboxed_def caml_int_of_string_def
      map_res_option_def split: option.split)

theorem int64_of_string_value_witness:
  "caml_int64_of_string_unboxed (put_string (\<lambda>_. 0) 0x1000 (map chr8 ''-9223372036854775808'')) 0x1000 =
     Some (Inr (word_of_int (- 9223372036854775808))) \<and>
   caml_int_of_string (put_string (\<lambda>_. 0) 0x1000 (map chr8 ''-9223372036854775808'')) 0x1000 =
     Some (Inl (Failure ''int_of_string''))"
proof -
  have v: "literal_value 64 (map chr8 ''-9223372036854775808'') = Some (- 9223372036854775808)"
    "literal_value 63 (map chr8 ''-9223372036854775808'') = None" by code_simp+
  show ?thesis
    using int64_of_string_value [OF put_string_block, of "map chr8 ''-9223372036854775808''" "\<lambda>_. 0" "0x1000"]
    unfolding v by simp
qed

text \<open>A heap with two boxed integers below the allocation pointer.\<close>

definition boxed_heap :: heap where
  "boxed_heap = sample_heap\<lparr>hp_mem := store64 (store64 (\<lambda>_. 0) 0x30008 7) 0x40008 (- 2)\<rparr>"

text \<open>
  64-bit division and remainder raise \<open>Division_by_zero\<close> exactly for a zero divisor; otherwise the boxed
  results \<open>q\<close> and \<open>r\<close> satisfy \<open>q * b + r = a\<close> on words, \<open>r\<close> is the remainder of the division
  truncated towards zero, and \<open>q\<close> is the truncated quotient, except for \<open>Int64.min_int / -1\<close>, where
  \<open>q\<close> is \<open>Int64.min_int\<close>.
\<close>

theorem int64_div_mod:
  assumes ok: "heap_ok h" and room: "unat (young_limit h) + 24 \<le> unat (young_ptr h)"
    and a: "a = Int64_val (hp_mem h) v1" and b: "b = Int64_val (hp_mem h) v2"
  shows "if b = 0 then caml_int64_div h v1 v2 = Inl Division_by_zero \<and> caml_int64_mod h v1 v2 = Inl Division_by_zero
    else \<exists>h1 v h2 w q r. caml_int64_div h v1 v2 = Inr (Some (h1, v)) \<and> caml_int64_mod h v1 v2 = Inr (Some (h2, w)) \<and>
      q = Int64_val (hp_mem h1) v \<and> r = Int64_val (hp_mem h2) w \<and>
      q * b + r = a \<and> sint r = sint a smod sint b \<and>
      sint q = (if sint a = - (2 ^ 63) \<and> sint b = - 1 then - (2 ^ 63) else sint a sdiv sint b)"
proof (cases "b = 0")
  case True
  then show ?thesis using b by (simp add: caml_int64_div_def caml_int64_mod_def)
next
  case b0: False
  note fits = caml_copy_int64_fits [OF ok room] and cs = c_sdiv_smod [OF _ b0, of a, simplified]
  have mn: "sint a = - (2 ^ 63) \<longleftrightarrow> a = - (2 ^ 63)"
    using sint_int_min [where 'a = 64] sint_eqI [of a "- (2 ^ 63)"] by auto
  show ?thesis
  proof (cases "a = - (2 ^ 63) \<and> b = - 1")
    case True
    obtain h2 w where w: "caml_copy_int64 h 0 = Some (h2, w)" using fits by fast
    then show ?thesis using True a b mn caml_copy_int64_props(1) [OF ok w] b0
      by (auto simp: caml_int64_div_def caml_int64_mod_def smod_int_alt_def)
  next
    case False
    obtain h1 v where v: "caml_copy_int64 h (c_sdiv a b) = Some (h1, v)" using fits by fast
    obtain h2 w where w: "caml_copy_int64 h (c_smod a b) = Some (h2, w)" using fits by fast
    have "sint b = - 1 \<longleftrightarrow> b = - 1" by (rule sint_minus_one) simp
    then have "\<not> (sint a = - (2 ^ 63) \<and> sint b = - 1)" using False mn by simp
    then show ?thesis
      using False b0 cs v w caml_copy_int64_props(1) [OF ok v] caml_copy_int64_props(1) [OF ok w] unfolding a b
      by (auto simp: caml_int64_div_def caml_int64_mod_def Let_def)
  qed
qed

theorem int64_div_mod_witness:
  "\<exists>h1 v h2 w q r. caml_int64_div boxed_heap 0x30000 0x40000 = Inr (Some (h1, v)) \<and>
      caml_int64_mod boxed_heap 0x30000 0x40000 = Inr (Some (h2, w)) \<and>
      q = Int64_val (hp_mem h1) v \<and> r = Int64_val (hp_mem h2) w \<and>
      q * - 2 + r = (7 :: u64) \<and> sint r = 7 smod - 2 \<and> sint q = 7 sdiv - 2"
proof -
  have v: "(7 :: u64) = Int64_val (hp_mem boxed_heap) 0x30000" "(- 2 :: u64) = Int64_val (hp_mem boxed_heap) 0x40000"
    by (simp_all add: boxed_heap_def Int64_val_def Data_custom_val_def mem_simps)
  have "heap_ok boxed_heap" "unat (young_limit boxed_heap) + 24 \<le> unat (young_ptr boxed_heap)"
    by (simp_all add: boxed_heap_def sample_heap_def heap_ok_def)
  from int64_div_mod [OF this v] show ?thesis by simp
qed

text \<open>
  The byte-swapping primitives reverse the bytes of 32-bit and 64-bit integers, are their own
  inverses, and the boxed 64-bit version computes the same as the unboxed one.
\<close>

theorem bswap_reverses:
  "bytes_of (caml_swap64 x) = rev (bytes_of x) \<and> bytes_of (caml_swap32 y) = rev (bytes_of y) \<and>
   caml_swap64 (caml_swap64 x) = x \<and> caml_swap32 (caml_swap32 y) = y \<and>
   caml_int64_bswap h v = caml_copy_int64 h (caml_int64_direct_bswap (Int64_val (hp_mem h) v))"
proof (intro conjI)
  have r64: "bytes_of (caml_swap64 z) = rev (bytes_of z)" for z
    by (rule bytes_of_rev [where k = 8]) (simp_all add: caml_swap64_bits)
  have r32: "bytes_of (caml_swap32 z) = rev (bytes_of z)" for z
    by (rule bytes_of_rev [where k = 4]) (simp_all add: caml_swap32_bits)
  show "bytes_of (caml_swap64 x) = rev (bytes_of x)" "bytes_of (caml_swap32 y) = rev (bytes_of y)" by (fact r64 r32)+
  show "caml_swap64 (caml_swap64 x) = x" by (rule bytes_of_inject [where k = 8]) (simp_all add: r64)
  show "caml_swap32 (caml_swap32 y) = y" by (rule bytes_of_inject [where k = 4]) (simp_all add: r32)
qed (simp add: caml_int64_bswap_swap64 caml_int64_direct_bswap_def)

text \<open>
  Comparison of tagged, 32-bit, 64-bit and native integers returns the sign of the difference, as an OCaml
  integer, and agrees with the comparison function of the custom blocks.
\<close>

theorem int_compare_sign:
  "Long_val (caml_int64_compare m v w) = word_of_int (sgn (sint (Int64_val m v) - sint (Int64_val m w))) \<and>
   Long_val (caml_int32_compare m v w) = word_of_int (sgn (sint (Int32_val m v) - sint (Int32_val m w))) \<and>
   Long_val (caml_int_compare (Val_long x) (Val_long y)) =
     word_of_int (sgn (sint (Long_val (Val_long x)) - sint (Long_val (Val_long y)))) \<and>
   int64_cmp m v w = sgn (sint (Int64_val m v) - sint (Int64_val m w)) \<and>
   int32_cmp m v w = sgn (sint (Int32_val m v) - sint (Int32_val m w)) \<and>
   nativeint_cmp m v w = sgn (sint (Nativeint_val m v) - sint (Nativeint_val m w))"
proof (intro conjI)
  have "sint (Val_long z) = 2 * sint (Long_val (Val_long z)) + 1" for z
    using sint_Val_long [OF Long_val_range, of "Val_long z"] Val_long_Long_val [of "Val_long z"] by (simp add: tag_simps)
  then have "sgn (sint (Val_long x) - sint (Val_long y)) = sgn (sint (Long_val (Val_long x)) - sint (Long_val (Val_long y)))"
    by (simp only:) (auto simp: sgn_if)
  then show "Long_val (caml_int_compare (Val_long x) (Val_long y)) =
     word_of_int (sgn (sint (Long_val (Val_long x)) - sint (Long_val (Val_long y))))"
    unfolding caml_int_compare_def COMPARE_INT_sgn Long_val_sgn by simp
qed (simp_all add: caml_int64_compare_def caml_int32_compare_def caml_int64_compare_unboxed_def caml_int32_compare_unboxed_def
    COMPARE_INT_sgn Long_val_sgn int64_cmp_def int32_cmp_def nativeint_cmp_def Let_def cmp_sgn)

end
