(* ===== verification/Hash.thy ===== *)
theory Hash
  imports Alloc
begin

text \<open>
  The generic hash function (\<open>runtime/hash.c\<close>, MurmurHash3 over a bounded breadth-first traversal)
  and the L64X128 generator of \<open>runtime/prng.c\<close>. Doubles and single floats are their bit patterns.
  The traversal reads C memory; \<open>chash\<close> stands for the \<open>hash\<close> entry of a custom block's operations
  table (\<open>None\<close> when it is NULL). The \<open>goto again\<close> of the source is a partial function: on an
  ill-formed heap an infix pointer may lead to itself for ever.
\<close>

subsection \<open>Mixing\<close>

definition ROTL32 :: "u32 \<Rightarrow> nat \<Rightarrow> u32" where
  "ROTL32 x n = push_bit n x OR drop_bit (32 - n) x"

definition MIX :: "u32 \<Rightarrow> u32 \<Rightarrow> u32" where
  "MIX h d =
     (let d = d * 0xcc9e2d51; d = ROTL32 d 15; d = d * 0x1b873593;
          h = h XOR d; h = ROTL32 h 13
      in h * 5 + 0xe6546b64)"

definition FINAL_MIX :: "u32 \<Rightarrow> u32" where
  "FINAL_MIX h =
     (let h = h XOR drop_bit 16 h; h = h * 0x85ebca6b; h = h XOR drop_bit 13 h;
          h = h * 0xc2b2ae35
      in h XOR drop_bit 16 h)"

definition caml_hash_mix_uint32 :: "u32 \<Rightarrow> u32 \<Rightarrow> u32" where
  "caml_hash_mix_uint32 h d = MIX h d"

definition caml_hash_mix_intnat :: "u32 \<Rightarrow> u64 \<Rightarrow> u32" where
  "caml_hash_mix_intnat h d =
     (let n = ucast (signed_drop_bit 32 d XOR signed_drop_bit 63 d XOR d) in MIX h n)"

definition caml_hash_mix_int64 :: "u32 \<Rightarrow> u64 \<Rightarrow> u32" where
  "caml_hash_mix_int64 h d =
     (let hi = ucast (signed_drop_bit 32 d); lo = ucast d; h = MIX h lo in MIX h hi)"

definition double_halves :: "u64 \<Rightarrow> u32 \<times> u32" where
  "double_halves d =
     (let h = ucast (drop_bit 32 d); l = ucast d
      in if h AND 0x7FF00000 = 0x7FF00000 \<and> l OR (h AND 0xFFFFF) \<noteq> 0 then (0x7FF00000, 0x00000001)
         else if h = 0x80000000 \<and> l = 0 then (0, l)
         else (h, l))"

definition caml_hash_mix_double :: "u32 \<Rightarrow> u64 \<Rightarrow> u32" where
  "caml_hash_mix_double hash d =
     (case double_halves d of (h, l) \<Rightarrow> let hash = MIX hash l in MIX hash h)"

definition caml_hash_mix_float :: "u32 \<Rightarrow> u32 \<Rightarrow> u32" where
  "caml_hash_mix_float hash d =
     (let n = (if d AND 0x7F800000 = 0x7F800000 \<and> d AND 0x007FFFFF \<noteq> 0 then 0x7F800001
               else if d = 0x80000000 then 0 else d)
      in MIX hash n)"

primrec mix_blocks :: "nat \<Rightarrow> mem \<Rightarrow> addr \<Rightarrow> u32 \<Rightarrow> u32" where
  "mix_blocks 0 m a h = h"
| "mix_blocks (Suc n) m a h = mix_blocks n m (a + 4) (MIX h (load32 m a))"

definition caml_hash_mix_string :: "u32 \<Rightarrow> mem \<Rightarrow> val \<Rightarrow> u32" where
  "caml_hash_mix_string h m s =
     (let len = caml_string_length m s;
          i = len - (len AND 3);
          h = mix_blocks (unat len div 4) m s h;
          b0 = ucast (Byte_u m s i); b1 = ucast (Byte_u m s (i + 1)); b2 = ucast (Byte_u m s (i + 2));
          h = (if len AND 3 = 3 then MIX h (push_bit 16 b2 OR push_bit 8 b1 OR b0)
               else if len AND 3 = 2 then MIX h (push_bit 8 b1 OR b0)
               else if len AND 3 = 1 then MIX h b0
               else h)
      in h XOR ucast len)"

subsection \<open>The traversal\<close>

definition HASH_QUEUE_SIZE :: nat where "HASH_QUEUE_SIZE = 256"
definition MAX_FORWARD_DEREFERENCE :: nat where "MAX_FORWARD_DEREFERENCE = 1000"

record hash_state =
  hq_queue :: "val list"
  hq_rd :: nat
  hq_wr :: nat
  hq_num :: int
  hq_h :: u32

definition mix_counted :: "u32 \<Rightarrow> hash_state \<Rightarrow> hash_state" where
  "mix_counted h st = st\<lparr>hq_h := h, hq_num := hq_num st - 1\<rparr>"

text \<open>The loop over a flat float array, with its early exit when the count is spent.\<close>

primrec hash_doubles :: "nat \<Rightarrow> mem \<Rightarrow> addr \<Rightarrow> hash_state \<Rightarrow> hash_state" where
  "hash_doubles 0 m a st = st"
| "hash_doubles (Suc n) m a st =
     (let st = mix_counted (caml_hash_mix_double (hq_h st) (load64 m a)) st
      in if hq_num st \<le> 0 then st else hash_doubles n m (a + 8) st)"

text \<open>The loops that copy fields \<open>i\<close> and following into the queue, up to \<open>sz\<close> entries.\<close>

primrec enqueue_fields :: "nat \<Rightarrow> mem \<Rightarrow> addr \<Rightarrow> nat \<Rightarrow> hash_state \<Rightarrow> hash_state" where
  "enqueue_fields 0 m a sz st = st"
| "enqueue_fields (Suc n) m a sz st =
     (if sz \<le> hq_wr st then st
      else enqueue_fields n m (a + 8) sz
             (st\<lparr>hq_queue := (hq_queue st)[hq_wr st := load64 m a], hq_wr := hq_wr st + 1\<rparr>))"

primrec hash_code_fields :: "nat \<Rightarrow> mem \<Rightarrow> addr \<Rightarrow> hash_state \<Rightarrow> hash_state" where
  "hash_code_fields 0 m a st = st"
| "hash_code_fields (Suc n) m a st =
     hash_code_fields n m (a + 8) (mix_counted (caml_hash_mix_intnat (hq_h st) (load64 m a)) st)"

primrec follow_forward :: "nat \<Rightarrow> mem \<Rightarrow> val \<Rightarrow> val option" where
  "follow_forward 0 m v = None"
| "follow_forward (Suc n) m v =
     (let v = Forward_val m v
      in if Is_long v \<or> Tag_val m v \<noteq> Forward_tag then Some v else follow_forward n m v)"

partial_function (option) hash_value ::
  "mem \<Rightarrow> (val \<Rightarrow> u64 option) \<Rightarrow> nat \<Rightarrow> val \<Rightarrow> hash_state \<Rightarrow> hash_state res option" where
  "hash_value m chash sz v st =
     (if Is_long v then Some (Inr (mix_counted (caml_hash_mix_intnat (hq_h st) v) st))
      else let tag = Tag_val m v in
        if tag = String_tag then Some (Inr (mix_counted (caml_hash_mix_string (hq_h st) m v) st))
        else if tag = Double_tag then Some (Inr (mix_counted (caml_hash_mix_double (hq_h st) (load64 m v)) st))
        else if tag = Double_array_tag then Some (Inr (hash_doubles (unat (Wosize_val m v)) m v st))
        else if tag = Abstract_tag then Some (Inr st)
        else if tag = Infix_tag then
          hash_value m chash sz (v - Infix_offset_val m v)
            (st\<lparr>hq_h := caml_hash_mix_uint32 (hq_h st) (ucast (Infix_offset_val m v))\<rparr>)
        else if tag = Forward_tag then
          (case follow_forward MAX_FORWARD_DEREFERENCE m v of
             Some v' \<Rightarrow> hash_value m chash sz v' st
           | None \<Rightarrow> Some (Inr st))
        else if tag = Object_tag then Some (Inr (mix_counted (caml_hash_mix_intnat (hq_h st) (Oid_val m v)) st))
        else if tag = Custom_tag then
          (case chash v of
             Some n \<Rightarrow> Some (Inr (mix_counted (caml_hash_mix_uint32 (hq_h st) (ucast n)) st))
           | None \<Rightarrow> Some (Inr st))
        else if tag = Closure_tag then
          (let len = unat (Wosize_val m v); startenv = unat (Start_env_closinfo (Closinfo_val m v));
               st = st\<lparr>hq_h := caml_hash_mix_uint32 (hq_h st) (ucast (Cleanhd_hd (Hd_val m v)))\<rparr>;
               st = hash_code_fields startenv m v st
           in Some (Inr (enqueue_fields (len - startenv) m (v + 8 * of_nat startenv) sz st)))
        else if tag = Cont_tag then Some (Inr st)
        else if Is_mixed_block_reserved (Reserved_val m v)
        then Some (Inl (Invalid_argument ''hash: mixed block value''))
        else let st = st\<lparr>hq_h := caml_hash_mix_uint32 (hq_h st) (ucast (Cleanhd_hd (Hd_val m v)))\<rparr>
             in Some (Inr (enqueue_fields (unat (Wosize_val m v)) m v sz st)))"

partial_function (option) hash_loop ::
  "mem \<Rightarrow> (val \<Rightarrow> u64 option) \<Rightarrow> nat \<Rightarrow> hash_state \<Rightarrow> hash_state res option" where
  "hash_loop m chash sz st =
     (if hq_rd st < hq_wr st \<and> hq_num st > 0
      then Option.bind (hash_value m chash sz (hq_queue st ! hq_rd st) (st\<lparr>hq_rd := hq_rd st + 1\<rparr>))
             (\<lambda>r. case r of Inl e \<Rightarrow> Some (Inl e) | Inr st' \<Rightarrow> hash_loop m chash sz st')
      else Some (Inr st))"

definition caml_hash_exn ::
  "mem \<Rightarrow> (val \<Rightarrow> u64 option) \<Rightarrow> val \<Rightarrow> val \<Rightarrow> val \<Rightarrow> val \<Rightarrow> val res option" where
  "caml_hash_exn m chash count limit seed obj =
     (let sz = sint (Long_val limit);
          sz = (if sz < 0 \<or> sz > int HASH_QUEUE_SIZE then HASH_QUEUE_SIZE else nat sz);
          st = \<lparr>hq_queue = (replicate HASH_QUEUE_SIZE 0)[0 := obj], hq_rd = 0, hq_wr = 1,
                hq_num = sint (Long_val count), hq_h = Int_val seed\<rparr>
      in case hash_loop m chash sz st of
           None \<Rightarrow> None
         | Some (Inl e) \<Rightarrow> Some (Inl e)
         | Some (Inr st) \<Rightarrow> Some (Inr (Val_int (FINAL_MIX (hq_h st) AND 0x3FFFFFFF))))"

definition caml_string_hash :: "mem \<Rightarrow> val \<Rightarrow> val \<Rightarrow> val" where
  "caml_string_hash m seed s =
     (let h = Int_val seed; h = caml_hash_mix_string h m s in Val_int (FINAL_MIX h AND 0x3FFFFFFF))"

text \<open>
  \<open>caml_hash_variant\<close> on the bytes of the tag's name (without the final null byte); the C
  expression is evaluated as a 32-bit \<open>int\<close>.
\<close>

definition caml_hash_variant :: "u8 list \<Rightarrow> val" where
  "caml_hash_variant tag =
     (let accu = foldl (\<lambda>accu c. Val_int (223 * Int_val accu + ucast c)) (Val_int 0) tag;
          accu = accu AND Val_long 0x7FFFFFFF
      in scast (ucast accu :: u32))"

subsection \<open>The pseudo-random generator\<close>

record LXM_state =
  lxm_a :: u64
  lxm_s :: u64
  lxm_x0 :: u64
  lxm_x1 :: u64

definition LXM_M :: u64 where "LXM_M = 0xd1342543de82ef95"

definition rotl :: "u64 \<Rightarrow> nat \<Rightarrow> u64" where
  "rotl x k = push_bit k x OR drop_bit (64 - k) x"

definition caml_lxm_next_unboxed :: "LXM_state \<Rightarrow> u64 \<times> LXM_state" where
  "caml_lxm_next_unboxed st =
     (let z = lxm_s st + lxm_x0 st;
          z = (z XOR drop_bit 32 z) * 0xdaba0b6eb09322e3;
          z = (z XOR drop_bit 32 z) * 0xdaba0b6eb09322e3;
          z = z XOR drop_bit 32 z;
          s = lxm_s st * LXM_M + lxm_a st;
          q0 = lxm_x0 st; q1 = lxm_x1 st;
          q1 = q1 XOR q0;
          q0 = rotl q0 24;
          q0 = q0 XOR q1 XOR push_bit 16 q1;
          q1 = rotl q1 37
      in (z, st\<lparr>lxm_s := s, lxm_x0 := q0, lxm_x1 := q1\<rparr>))"

definition caml_lxm_next :: "heap \<Rightarrow> LXM_state \<Rightarrow> (heap \<times> val) option \<times> LXM_state" where
  "caml_lxm_next h st = (case caml_lxm_next_unboxed st of (z, st) \<Rightarrow> (caml_copy_int64 h z, st))"

subsection \<open>The mixing steps lose no information\<close>

lemma mult_cancel_inverse:
  fixes a :: "'a::len word"
  assumes "a * c = 1"
  shows "x * a = y * a \<longleftrightarrow> x = y"
proof
  assume "x * a = y * a"
  then have "x * (a * c) = y * (a * c)" by (simp add: mult.assoc [symmetric])
  then show "x = y" using assms by simp
qed simp

lemma xor_cancel:
  fixes a :: "'a::len word"
  shows "h XOR a = h XOR b \<longleftrightarrow> a = b" "a XOR h = b XOR h \<longleftrightarrow> a = b"
proof -
  have "h XOR (h XOR x) = x" for x by (simp add: xor.assoc [symmetric])
  then show *: "h XOR a = h XOR b \<longleftrightarrow> a = b" by metis
  show "a XOR h = b XOR h \<longleftrightarrow> a = b" using * by (simp add: xor.commute)
qed

lemma rotate_inverse:
  "0 < n \<Longrightarrow> n < 32 \<Longrightarrow> ROTL32 (ROTL32 x n) (32 - n) = x"
  by (rule bit_word_eqI) (auto simp: ROTL32_def bit_simps dest: bit_imp_le_length)

lemma ROTL32_inject: "0 < n \<Longrightarrow> n < 32 \<Longrightarrow> ROTL32 x n = ROTL32 y n \<longleftrightarrow> x = y"
  using rotate_inverse [of n] by metis

lemma rotl_inverse: "0 < n \<Longrightarrow> n < 64 \<Longrightarrow> rotl (rotl x n) (64 - n) = x"
  by (rule bit_word_eqI) (auto simp: rotl_def bit_simps dest: bit_imp_le_length)

lemma rotl_inject: "0 < n \<Longrightarrow> n < 64 \<Longrightarrow> rotl x n = rotl y n \<longleftrightarrow> x = y"
  using rotl_inverse [of n] by metis

lemma xorshift_inverse:
  "(y :: u32) = x XOR drop_bit 16 x \<Longrightarrow> y XOR drop_bit 16 y = x"
  "(y :: u32) = x XOR drop_bit 13 x \<Longrightarrow> y XOR drop_bit 13 y XOR drop_bit 26 y = x"
  by (rule bit_word_eqI, auto simp: bit_simps dest: bit_imp_le_length)+

lemma xorshift_inject:
  "(x XOR drop_bit 16 x = y XOR drop_bit 16 y) \<longleftrightarrow> x = (y :: u32)"
  "(x XOR drop_bit 13 x = y XOR drop_bit 13 y) \<longleftrightarrow> x = (y :: u32)"
  using xorshift_inverse by metis+

lemmas murmur_multipliers =
  mult_cancel_inverse [of "0xcc9e2d51 :: u32" "0xdee13bb1", simplified]
  mult_cancel_inverse [of "0x1b873593 :: u32" "0x56ed309b", simplified]
  mult_cancel_inverse [of "5 :: u32" "0xcccccccd", simplified]
  mult_cancel_inverse [of "0x85ebca6b :: u32" "0xa5cb9243", simplified]
  mult_cancel_inverse [of "0xc2b2ae35 :: u32" "0x7ed1b41d", simplified]

lemma MIX_inject:
  "MIX h d = MIX h d' \<longleftrightarrow> d = d'" "MIX h d = MIX h' d \<longleftrightarrow> h = h'"
  by (simp_all add: MIX_def Let_def murmur_multipliers ROTL32_inject xor_cancel)

lemma FINAL_MIX_inject: "FINAL_MIX h = FINAL_MIX h' \<longleftrightarrow> h = h'"
  by (simp add: FINAL_MIX_def Let_def murmur_multipliers xorshift_inject)

subsection \<open>Normalisation\<close>

lemma bit_scast32: "bit (scast (w :: u32) :: u64) n \<longleftrightarrow> n < 64 \<and> bit w (min n 31)"
  by (auto simp: bit_simps min_def)

lemma in_int32_range:
  assumes "- (2 ^ 31) \<le> sint (d :: u64)" "sint d < 2 ^ 31"
  shows "d = scast (ucast d :: u32)"
proof (rule bit_word_eqI)
  fix n assume n: "n < LENGTH(64)"
  have "bit (signed_take_bit 31 (sint d)) n = bit (sint d) n"
    using assms by (simp add: signed_take_bit_int_eq_self)
  then show "bit d n = bit (scast (ucast d :: u32) :: u64) n"
    using n by (cases "n = 63") (auto simp: bit_scast32 bit_simps min_def split: if_splits)
qed

lemma mix_intnat_int32:
  assumes "- (2 ^ 31) \<le> sint d" "sint d < 2 ^ 31"
  shows "caml_hash_mix_intnat h d = caml_hash_mix_uint32 h (ucast d)"
proof -
  obtain w :: u32 where d: "d = scast w" using in_int32_range [OF assms] by blast
  have "ucast (signed_drop_bit 32 d XOR signed_drop_bit 63 d XOR d) = (ucast d :: u32)"
    unfolding d by (rule bit_word_eqI) (auto simp: bit_simps bit_scast32 min_def)
  then show ?thesis by (simp only: caml_hash_mix_intnat_def caml_hash_mix_uint32_def Let_def)
qed

definition is_nan64 :: "u64 \<Rightarrow> bool" where
  "is_nan64 d \<longleftrightarrow> drop_bit 52 d AND 0x7FF = 0x7FF \<and> d AND mask 52 \<noteq> 0"

definition is_zero64 :: "u64 \<Rightarrow> bool" where
  "is_zero64 d \<longleftrightarrow> d = 0 \<or> d = push_bit 63 1"

lemma halves_eq: "d = push_bit 32 (ucast (ucast (drop_bit 32 d) :: u32)) OR ucast (ucast d :: u32)" for d :: u64
  by (rule bit_word_eqI) (auto simp: bit_simps)

lemma halves_nan:
  fixes d :: u64
  defines "h \<equiv> ucast (drop_bit 32 d) :: u32" and "l \<equiv> ucast d :: u32"
  shows "(h AND 0x7FF00000 = 0x7FF00000 \<and> l OR (h AND 0xFFFFF) \<noteq> 0) \<longleftrightarrow> is_nan64 d"
proof -
  have m: "(0x7FF00000 :: u32) = push_bit 20 (mask 11)" "(0xFFFFF :: u32) = mask 20" "(0x7FF :: u64) = mask 11"
    by (simp_all add: mask_eq_exp_minus_1)
  have "h AND push_bit 20 (mask 11) = push_bit 20 (mask 11) \<longleftrightarrow> (\<forall>k<11. bit d (52 + k))"
  proof
    assume a: "h AND push_bit 20 (mask 11) = push_bit 20 (mask 11)"
    show "\<forall>k<11. bit d (52 + k)"
    proof (intro allI impI)
      fix k :: nat assume k: "k < 11"
      then have "bit (h AND push_bit 20 (mask 11)) (20 + k)" unfolding a by (simp add: bit_simps)
      then show "bit d (52 + k)" unfolding h_def by (simp add: bit_simps add.assoc [symmetric])
    qed
  next
    assume a: "\<forall>k<11. bit d (52 + k)"
    show "h AND push_bit 20 (mask 11) = push_bit 20 (mask 11)"
    proof (rule bit_word_eqI)
      fix n assume "n < LENGTH(32)"
      then show "bit (h AND push_bit 20 (mask 11)) n = bit (push_bit 20 (mask 11) :: u32) n"
        using a [rule_format, of "n - 20"] unfolding h_def by (auto simp: bit_simps)
    qed
  qed
  moreover have "drop_bit 52 d AND mask 11 = mask 11 \<longleftrightarrow> (\<forall>k<11. bit d (52 + k))"
  proof (intro iffI allI impI)
    fix k :: nat assume a: "drop_bit 52 d AND mask 11 = mask 11" "k < 11"
    then have "bit (drop_bit 52 d AND mask 11) k" unfolding a(1) by (simp add: bit_simps)
    then show "bit d (52 + k)" by (simp add: bit_simps)
  qed (auto simp: bit_eq_iff bit_simps)
  moreover have "l OR (h AND mask 20) = 0 \<longleftrightarrow> d AND mask 52 = 0"
  proof -
    have "bit l k \<or> bit h k \<and> k < 20 \<longleftrightarrow> k < 32 \<and> (bit d k \<or> bit d (32 + k) \<and> k < 20)" for k
      unfolding h_def l_def by (auto simp: bit_simps)
    then have "l OR (h AND mask 20) = 0 \<longleftrightarrow> (\<forall>k<32. \<not> bit d k \<and> (k < 20 \<longrightarrow> \<not> bit d (32 + k)))"
      by (auto simp: bit_eq_iff bit_simps)
    also have "\<dots> \<longleftrightarrow> (\<forall>k<52. \<not> bit d k)"
    proof
      assume a: "\<forall>k<32. \<not> bit d k \<and> (k < 20 \<longrightarrow> \<not> bit d (32 + k))"
      show "\<forall>k<52. \<not> bit d k"
      proof (intro allI impI)
        fix k :: nat assume "k < 52"
        then show "\<not> bit d k" using a [rule_format, of k] a [rule_format, of "k - 32"] by (cases "k < 32") auto
      qed
    qed auto
    also have "\<dots> \<longleftrightarrow> d AND mask 52 = 0"
      using bit_imp_le_length [of d] by (fastforce simp: bit_eq_iff bit_simps)
    finally show ?thesis .
  qed
  ultimately show ?thesis unfolding is_nan64_def m by blast
qed

lemma halves_neg_zero:
  "(ucast (drop_bit 32 d) :: u32) = 0x80000000 \<and> (ucast d :: u32) = 0 \<longleftrightarrow> d = push_bit 63 1" for d :: u64
proof
  assume "(ucast (drop_bit 32 d) :: u32) = 0x80000000 \<and> (ucast d :: u32) = 0"
  then show "d = push_bit 63 1" by (subst halves_eq) simp
next
  assume "d = push_bit 63 1"
  then show "(ucast (drop_bit 32 d) :: u32) = 0x80000000 \<and> (ucast d :: u32) = 0" by simp
qed

lemma double_halves_eq:
  "double_halves d = double_halves d' \<longleftrightarrow> is_nan64 d \<and> is_nan64 d' \<or> is_zero64 d \<and> is_zero64 d' \<or> d = d'"
proof -
  define H L where "H = (\<lambda>d :: u64. ucast (drop_bit 32 d) :: u32)" and "L = (\<lambda>d :: u64. ucast d :: u32)"
  have dh: "double_halves e = (if is_nan64 e then (0x7FF00000, 1) else if e = push_bit 63 1 then (0, 0) else (H e, L e))" for e
    using halves_nan [of e] halves_neg_zero [of e] unfolding double_halves_def Let_def H_def L_def by simp
  have inj: "H e = H e' \<and> L e = L e' \<longleftrightarrow> e = e'" for e e'
    using halves_eq [of e] halves_eq [of e'] unfolding H_def L_def by metis
  have nan1: "is_nan64 e" if "H e = 0x7FF00000" "L e = 1" for e
    using halves_nan [of e] that unfolding H_def L_def by simp
  have z: "H e = 0 \<and> L e = 0 \<longleftrightarrow> e = 0" for e using inj [of e 0] by (simp add: H_def L_def)
  have nz: "\<not> is_nan64 0" "\<not> is_nan64 (push_bit 63 1)" by (simp_all add: is_nan64_def mask_eq_exp_minus_1)
  show ?thesis unfolding dh is_zero64_def using inj [of d d'] z [of d] z [of d'] nan1 [of d] nan1 [of d'] nz
    by (auto split: if_splits)
qed

lemma mix_double_normal:
  "double_halves d = double_halves d' \<Longrightarrow> caml_hash_mix_double h d = caml_hash_mix_double h d'"
  by (simp add: caml_hash_mix_double_def)

lemma mix_double_inject:
  "is_nan64 d \<and> is_nan64 d' \<or> is_zero64 d \<and> is_zero64 d' \<or> d = d' \<Longrightarrow>
    caml_hash_mix_double h d = caml_hash_mix_double h d'"
  using double_halves_eq mix_double_normal by metis

subsection \<open>The traversal ends\<close>

text \<open>
  The values that the traversal goes on to from a value: the closure of an infix pointer, the fields of a closure's environment, the fields of
  other blocks that are not opaque to it (the first of a forward block). The infix pointers among the values that it can reach lead back to closures.
\<close>

definition hash_children :: "mem \<Rightarrow> val \<Rightarrow> val set" where
  "hash_children m v =
     (let tag = Tag_val m v in
      if Is_long v \<or> tag \<in> {String_tag, Double_tag, Double_array_tag, Abstract_tag, Object_tag, Custom_tag, Cont_tag} then {}
      else if tag = Infix_tag then {v - Infix_offset_val m v}
      else if tag = Forward_tag then {Forward_val m v}
      else if tag = Closure_tag
      then {Field m v (of_nat i) | i. unat (Start_env_closinfo (Closinfo_val m v)) \<le> i \<and> i < unat (Wosize_val m v)}
      else {Field m v (of_nat i) | i. i < unat (Wosize_val m v)})"

inductive hash_reach :: "mem \<Rightarrow> val \<Rightarrow> val \<Rightarrow> bool" for m obj where
  root: "hash_reach m obj obj"
| child: "hash_reach m obj v \<Longrightarrow> w \<in> hash_children m v \<Longrightarrow> hash_reach m obj w"

definition infix_ok :: "mem \<Rightarrow> val \<Rightarrow> bool" where
  "infix_ok m obj \<longleftrightarrow> (\<forall>v. hash_reach m obj v \<and> Is_block v \<and> Tag_val m v = Infix_tag \<longrightarrow>
     Is_block (v - Infix_offset_val m v) \<and> Tag_val m (v - Infix_offset_val m v) = Closure_tag)"

text \<open>The entries of the queue are reachable, and the queue is large enough.\<close>

definition queue_ok :: "val set \<Rightarrow> nat \<Rightarrow> hash_state \<Rightarrow> bool" where
  "queue_ok S sz st \<longleftrightarrow> length (hq_queue st) = HASH_QUEUE_SIZE \<and> sz \<le> HASH_QUEUE_SIZE \<and> (\<forall>i<hq_wr st. hq_queue st ! i \<in> S)"

lemma queue_ok_upd [simp]:
  "queue_ok S sz (st\<lparr>hq_h := x\<rparr>) = queue_ok S sz st" "queue_ok S sz (st\<lparr>hq_num := n\<rparr>) = queue_ok S sz st"
  "queue_ok S sz (st\<lparr>hq_rd := k\<rparr>) = queue_ok S sz st" "queue_ok S sz (mix_counted h st) = queue_ok S sz st"
  by (simp_all add: queue_ok_def mix_counted_def)

definition hash_step_ok :: "val set \<Rightarrow> nat \<Rightarrow> hash_state \<Rightarrow> hash_state res option \<Rightarrow> bool" where
  "hash_step_ok S sz st r \<longleftrightarrow>
     (case r of None \<Rightarrow> False | Some (Inl e) \<Rightarrow> e = Invalid_argument ''hash: mixed block value''
      | Some (Inr st') \<Rightarrow> hq_rd st' = hq_rd st \<and> hq_wr st' \<le> max sz (hq_wr st) \<and> (queue_ok S sz st \<longrightarrow> queue_ok S sz st'))"

lemma hash_step_ok_h: "hash_step_ok S sz (st\<lparr>hq_h := x\<rparr>) r = hash_step_ok S sz st r"
  by (simp add: hash_step_ok_def split: option.split sum.split)

lemma hash_doubles_frame:
  "hq_rd (hash_doubles n m a st) = hq_rd st" "hq_wr (hash_doubles n m a st) = hq_wr st" "queue_ok S sz (hash_doubles n m a st) = queue_ok S sz st"
  by (induction n arbitrary: a st) (simp_all add: Let_def, simp_all add: mix_counted_def)

lemma hash_code_fields_frame:
  "hq_rd (hash_code_fields n m a st) = hq_rd st" "hq_wr (hash_code_fields n m a st) = hq_wr st"
  "queue_ok S sz (hash_code_fields n m a st) = queue_ok S sz st"
  by (induction n arbitrary: a st) (simp_all, simp_all add: mix_counted_def)

lemma enqueue_fields_frame:
  "hq_rd (enqueue_fields n m a sz st) = hq_rd st \<and> hq_wr (enqueue_fields n m a sz st) \<le> max sz (hq_wr st)"
proof (induction n arbitrary: a st)
  case (Suc n)
  then show ?case using Suc.IH [of "a + 8" "st\<lparr>hq_queue := (hq_queue st)[hq_wr st := load64 m a], hq_wr := hq_wr st + 1\<rparr>"]
    by (cases "sz \<le> hq_wr st"; cases "sz = Suc (hq_wr st)") (auto simp: max_def)
qed simp

lemma enqueue_fields_wr: "hq_wr st = w \<Longrightarrow> hq_wr (enqueue_fields n m a sz st) \<le> max sz w"
  using enqueue_fields_frame by metis

lemma enqueue_fields_queue:
  assumes "queue_ok S sz st" "\<And>i. i < n \<Longrightarrow> load64 m (a + 8 * of_nat i) \<in> S"
  shows "queue_ok S sz (enqueue_fields n m a sz st)"
  using assms
proof (induction n arbitrary: a st)
  case (Suc n)
  let ?st = "st\<lparr>hq_queue := (hq_queue st)[hq_wr st := load64 m a], hq_wr := hq_wr st + 1\<rparr>"
  have "load64 m (a + 8 + 8 * of_nat i) \<in> S" if "i < n" for i
    using Suc.prems(2) [of "Suc i"] that by (simp add: algebra_simps)
  moreover have "queue_ok S sz ?st" if "hq_wr st < sz"
    using that Suc.prems(1) Suc.prems(2) [of 0] by (auto simp: queue_ok_def nth_list_update less_Suc_eq)
  ultimately show ?case using Suc.IH [of ?st "a + 8"] Suc.prems(1) by simp
qed simp

lemmas hash_frames = hash_doubles_frame hash_code_fields_frame enqueue_fields_frame [THEN conjunct1]

lemma hash_step_ok_simps:
  "hash_step_ok S sz st (if c then r else r') = (if c then hash_step_ok S sz st r else hash_step_ok S sz st r')"
  "hash_step_ok S sz st (Some (Inl e)) \<longleftrightarrow> e = Invalid_argument ''hash: mixed block value''"
  "hash_step_ok S sz st (Some (Inr st')) \<longleftrightarrow>
     hq_rd st' = hq_rd st \<and> hq_wr st' \<le> max sz (hq_wr st) \<and> (queue_ok S sz st \<longrightarrow> queue_ok S sz st')"
  by (simp_all add: hash_step_ok_def)

lemma hash_value_leaf:
  assumes leaf: "Is_long v \<or> Tag_val m v \<noteq> Infix_tag \<and> Tag_val m v \<noteq> Forward_tag" and S: "hash_children m v \<subseteq> S"
  shows "hash_step_ok S sz st (hash_value m chash sz v st)"
proof (cases "Is_long v \<or> Tag_val m v \<in> {String_tag, Double_tag, Double_array_tag, Abstract_tag, Object_tag, Custom_tag, Cont_tag}")
  case True
  show ?thesis
  proof (cases "Is_long v")
    case True
    then show ?thesis by (subst hash_value.simps) (simp add: hash_step_ok_simps, simp add: mix_counted_def)
  next
    case False
    have m: "hash_step_ok S sz st (Some (Inr (mix_counted h st)))" for h by (simp add: hash_step_ok_simps, simp add: mix_counted_def)
    have n: "hash_step_ok S sz st (Some (Inr st))" by (simp add: hash_step_ok_simps)
    consider "Tag_val m v = Custom_tag"
      | "Tag_val m v \<in> {String_tag, Double_tag, Double_array_tag}"
      | "Tag_val m v \<in> {Abstract_tag, Object_tag, Cont_tag}" using True False by blast
    then show ?thesis
    proof cases
      case 1
      then show ?thesis using False
        by (subst hash_value.simps) (simp add: m n Let_def tag_defs split: option.split)
    next
      case 2
      then show ?thesis using False
        by (subst hash_value.simps) (auto simp add: m hash_step_ok_simps(3) [where st' = "hash_doubles n m a st" for n a] hash_frames Let_def tag_defs)
    next
      case 3
      then show ?thesis using False
        by (subst hash_value.simps) (auto simp add: m n Let_def tag_defs)
    qed
  qed
next
  case False
  let ?env = "unat (Start_env_closinfo (Closinfo_val m v))" and ?n = "unat (Wosize_val m v)"
  have fields: "load64 m (v + 8 * of_nat k + 8 * of_nat i) \<in> S" if "i < ?n - k" "k = (if Tag_val m v = Closure_tag then ?env else 0)" for i k
  proof -
    have "Field m v (of_nat (k + i)) \<in> hash_children m v"
      using False leaf that unfolding hash_children_def Let_def by (auto intro!: exI [of _ "k + i"])
    then show ?thesis using S by (auto simp: Field_def algebra_simps)
  qed
  show ?thesis
  proof (cases "Tag_val m v = Closure_tag")
    case True
    then show ?thesis using False fields [of _ ?env]
      by (subst hash_value.simps) (simp add: hash_step_ok_simps Let_def hash_frames enqueue_fields_wr enqueue_fields_queue tag_defs)
  next
    case no: False
    then show ?thesis using False leaf fields [of _ 0]
      by (subst hash_value.simps) (simp add: hash_step_ok_simps Let_def hash_frames enqueue_fields_wr enqueue_fields_queue)
  qed
qed

lemma hash_value_infix:
  assumes inf: "infix_ok m obj" and v: "hash_reach m obj v" "Is_long v \<or> Tag_val m v \<noteq> Forward_tag"
  shows "hash_step_ok {w. hash_reach m obj w} sz st (hash_value m chash sz v st)"
proof (cases "Is_block v \<and> Tag_val m v = Infix_tag")
  case True
  let ?w = "v - Infix_offset_val m v"
  let ?st = "st\<lparr>hq_h := caml_hash_mix_uint32 (hq_h st) (ucast (Infix_offset_val m v))\<rparr>"
  have "?w \<in> hash_children m v" using True by (simp add: hash_children_def tag_simps tag_defs)
  then have "hash_reach m obj ?w" by (rule hash_reach.child [OF v(1)])
  moreover have "Tag_val m ?w = Closure_tag" using inf v(1) True by (auto simp: infix_ok_def)
  ultimately have "hash_step_ok {w. hash_reach m obj w} sz ?st (hash_value m chash sz ?w ?st)"
    by (intro hash_value_leaf) (auto simp: tag_defs intro: hash_reach.child)
  moreover have "hash_value m chash sz v st = hash_value m chash sz ?w ?st"
    using True by (subst hash_value.simps) (simp add: tag_simps tag_defs)
  ultimately show ?thesis by (simp only: hash_step_ok_h)
next
  case False
  then show ?thesis using v by (intro hash_value_leaf) (auto simp: tag_simps intro: hash_reach.child)
qed

lemma follow_forward_end: "follow_forward n m v = Some w \<Longrightarrow> Is_long w \<or> Tag_val m w \<noteq> Forward_tag"
  by (induction n arbitrary: v) (auto simp: Let_def split: if_splits)

lemma follow_forward_reach:
  "follow_forward n m v = Some w \<Longrightarrow> hash_reach m obj v \<Longrightarrow> \<not> Is_long v \<Longrightarrow> Tag_val m v = Forward_tag \<Longrightarrow> hash_reach m obj w"
proof (induction n arbitrary: v)
  case (Suc n)
  have "Forward_val m v \<in> hash_children m v" using Suc.prems by (simp add: hash_children_def tag_defs)
  then have "hash_reach m obj (Forward_val m v)" by (rule hash_reach.child [OF Suc.prems(2)])
  then show ?case using Suc by (auto simp: Let_def split: if_splits)
qed simp

lemma hash_value_returns:
  assumes "infix_ok m obj" "hash_reach m obj v"
  shows "hash_step_ok {w. hash_reach m obj w} sz st (hash_value m chash sz v st)"
proof (cases "Is_long v \<or> Tag_val m v \<noteq> Forward_tag")
  case False
  then have "hash_value m chash sz v st =
      (case follow_forward MAX_FORWARD_DEREFERENCE m v of Some v' \<Rightarrow> hash_value m chash sz v' st | None \<Rightarrow> Some (Inr st))"
    by (subst hash_value.simps) (simp add: tag_defs)
  moreover have "hash_step_ok {w. hash_reach m obj w} sz st (Some (Inr st))" by (simp add: hash_step_ok_def)
  ultimately show ?thesis
    using hash_value_infix [OF assms(1)] follow_forward_end [of MAX_FORWARD_DEREFERENCE m v] follow_forward_reach [OF _ assms(2)] False
    by (cases "follow_forward MAX_FORWARD_DEREFERENCE m v") simp_all
qed (rule hash_value_infix [OF assms])

lemma hash_loop_returns:
  assumes "infix_ok m obj"
  shows "hq_wr st \<le> max sz 1 \<Longrightarrow> queue_ok {w. hash_reach m obj w} sz st \<Longrightarrow>
    \<exists>r. hash_loop m chash sz st = Some r \<and> (\<forall>e. r = Inl e \<longrightarrow> e = Invalid_argument ''hash: mixed block value'')"
proof (induction "max sz 1 - hq_rd st" arbitrary: st rule: less_induct)
  case less
  show ?case
  proof (cases "hq_rd st < hq_wr st \<and> hq_num st > 0")
    case True
    let ?st = "st\<lparr>hq_rd := hq_rd st + 1\<rparr>" and ?S = "{w. hash_reach m obj w}"
    have "hash_reach m obj (hq_queue st ! hq_rd st)" using less.prems(2) True by (auto simp: queue_ok_def)
    then have ok: "hash_step_ok ?S sz ?st (hash_value m chash sz (hq_queue st ! hq_rd st) ?st)"
      by (rule hash_value_returns [OF assms])
    then obtain r where r: "hash_value m chash sz (hq_queue st ! hq_rd st) ?st = Some r"
      by (auto simp: hash_step_ok_def split: option.splits)
    have l: "hash_loop m chash sz st = (case r of Inl e \<Rightarrow> Some (Inl e) | Inr st' \<Rightarrow> hash_loop m chash sz st')"
      using True r by (subst hash_loop.simps) simp
    show ?thesis
    proof (cases r)
      case (Inl e)
      then show ?thesis using l ok r by (simp add: hash_step_ok_def)
    next
      case (Inr st')
      then have "hq_rd st' = hq_rd st + 1" "hq_wr st' \<le> max sz (hq_wr st)" "queue_ok ?S sz st'"
        using ok r less.prems(2) by (simp_all add: hash_step_ok_def)
      then have "max sz 1 - hq_rd st' < max sz 1 - hq_rd st" "hq_wr st' \<le> max sz 1" "queue_ok ?S sz st'" using True less.prems by auto
      from less.hyps [OF this] Inr l show ?thesis by simp
    qed
  next
    case False
    then show ?thesis by (subst hash_loop.simps) auto
  qed
qed

subsection \<open>Results\<close>

lemma folded_range: "\<exists>n<2 ^ 30. Val_int (x AND 0x3FFFFFFF) = Val_long (of_nat n)"
proof -
  have "x AND (2 ^ 30 - 1) = x AND 0x3FFFFFFF" by simp
  then have u: "unat (x AND 0x3FFFFFFF) < 2 ^ 30" using unat_and_mask [of 30 x] by simp
  have b: "k < 30" if "bit (x AND 0x3FFFFFFF) k" for k using word_bit_bound [OF u that] .
  have "scast (x AND 0x3FFFFFFF) = (of_nat (unat (x AND 0x3FFFFFFF)) :: u64)"
    by (rule bit_word_eqI) (use b in \<open>auto simp: bit_scast32 bit_simps min_def\<close>)
  with u show ?thesis by (auto simp: Val_int_def)
qed

text \<open>The hash of variant tags as the compiler computes it (\<open>hash_variant\<close> of \<open>utils/misc.ml\<close>).\<close>

definition misc_hash_variant :: "u8 list \<Rightarrow> int" where
  "misc_hash_variant s =
     (let accu = foldl (\<lambda>accu c. 223 * accu + uint c) 0 s; accu = accu mod 2 ^ 31
      in if accu > 0x3FFFFFFF then accu - 2 ^ 31 else accu)"

lemma signed_take_bit_30:
  "signed_take_bit 30 (k :: int) = (let a = k mod 2 ^ 31 in if a > 0x3FFFFFFF then a - 2 ^ 31 else a)"
proof -
  have "bit k 30 \<longleftrightarrow> bit (take_bit 31 k) 30" by (simp add: bit_take_bit_iff)
  also have "\<dots> \<longleftrightarrow> odd ((k mod 2 ^ 31) div 2 ^ 30)" by (simp only: bit_iff_odd take_bit_eq_mod)
  also have "\<dots> \<longleftrightarrow> (k mod 2 ^ 31) > 0x3FFFFFFF"
  proof -
    define a where "a = k mod 2 ^ 31"
    have "0 \<le> a" "a < 2 ^ 31" by (simp_all add: a_def)
    then have "a div 2 ^ 30 = (if a > 0x3FFFFFFF then 1 else 0)" by (auto simp: div_int_pos_iff zdiv_eq_0_iff intro!: int_div_pos_eq [where r = "a - 2 ^ 30"])
    then show ?thesis unfolding a_def [symmetric] by simp
  qed
  finally have b: "bit k 30 \<longleftrightarrow> (k mod 2 ^ 31) > 0x3FFFFFFF" .
  show ?thesis unfolding signed_take_bit_eq_take_bit_minus take_bit_eq_mod Let_def using b by simp
qed

lemma foldl_variant:
  "foldl (\<lambda>accu c. Val_int (223 * Int_val accu + ucast c)) (Val_int (word_of_int k)) s =
    Val_int (word_of_int (foldl (\<lambda>accu c. 223 * accu + uint c) k s))"
proof (induction s arbitrary: k)
  case (Cons c s)
  have "223 * word_of_int k + ucast c = (word_of_int (223 * k + uint c) :: u32)"
    by (simp add: unsigned_ucast_eq)
  then show ?case using Cons [of "223 * k + uint c"] by simp
qed simp

lemma caml_hash_variant_eq: "caml_hash_variant s = Val_long (word_of_int (misc_hash_variant s))"
proof -
  define S where "S = foldl (\<lambda>accu c. 223 * accu + uint (c :: u8)) 0 s"
  have v: "Val_long 0x7FFFFFFF = mask 32" by (simp add: Val_long_def mask_eq_exp_minus_1)
  have "caml_hash_variant s = scast (ucast (Val_int (word_of_int S) AND mask 32) :: u32)"
    using foldl_variant [of 0 s] by (simp add: caml_hash_variant_def Let_def v S_def)
  also have "\<dots> = Val_long (word_of_int (signed_take_bit 30 S))"
  proof (rule bit_word_eqI)
    fix n assume "n < LENGTH(64)"
    then show "bit (scast (ucast (Val_int (word_of_int S) AND mask 32) :: u32) :: val) n =
        bit (Val_long (word_of_int (signed_take_bit 30 S))) n"
      by (cases "n = 31") (auto simp: bit_scast32 bit_simps tag_simps Val_int_def min_def)
  qed
  also have "signed_take_bit 30 S = misc_hash_variant s"
    unfolding signed_take_bit_30 misc_hash_variant_def S_def by (simp add: Let_def)
  finally show ?thesis .
qed

subsection \<open>The generator's state\<close>

definition lxm_ok :: "LXM_state \<Rightarrow> bool" where
  "lxm_ok st \<longleftrightarrow> odd (uint (lxm_a st)) \<and> \<not> (lxm_x0 st = 0 \<and> lxm_x1 st = 0)"

lemma lxm_multiplier: "x * LXM_M = y * LXM_M \<longleftrightarrow> x = y"
  using mult_cancel_inverse [of LXM_M "0x572b5ee77a54e3bd" x y] by (simp add: LXM_M_def)

lemma lxm_next_inject:
  assumes "snd (caml_lxm_next_unboxed st) = snd (caml_lxm_next_unboxed st')"
  shows "st = st'"
proof -
  let ?q = "\<lambda>st. lxm_x1 st XOR lxm_x0 st"
  have e: "lxm_a st = lxm_a st'" "lxm_s st * LXM_M + lxm_a st = lxm_s st' * LXM_M + lxm_a st'"
    "rotl (lxm_x0 st) 24 XOR ?q st XOR push_bit 16 (?q st) = rotl (lxm_x0 st') 24 XOR ?q st' XOR push_bit 16 (?q st')"
    "rotl (?q st) 37 = rotl (?q st') 37"
    using arg_cong [OF assms, of lxm_a] arg_cong [OF assms, of lxm_s] arg_cong [OF assms, of lxm_x0]
      arg_cong [OF assms, of lxm_x1] by (simp_all add: caml_lxm_next_unboxed_def Let_def)
  have q: "?q st = ?q st'" using e(4) by (simp add: rotl_inject)
  have x0: "lxm_x0 st = lxm_x0 st'" using e(3) unfolding q by (simp add: xor_cancel rotl_inject)
  have x1: "lxm_x1 st = lxm_x1 st'" using q x0 by (simp add: xor_cancel)
  have s: "lxm_s st = lxm_s st'" using e(1,2) by (simp add: lxm_multiplier)
  show ?thesis using e(1) s x0 x1 by (cases st; cases st') simp
qed

lemma lxm_next_ok:
  assumes "lxm_ok st"
  shows "lxm_ok (snd (caml_lxm_next_unboxed st))"
proof -
  have r0: "rotl 0 n = 0" for n by (simp add: rotl_def)
  have "lxm_x0 st = 0 \<and> lxm_x1 st = 0"
    if z: "lxm_x0 (snd (caml_lxm_next_unboxed st)) = 0" "lxm_x1 (snd (caml_lxm_next_unboxed st)) = 0"
  proof -
    have "rotl (lxm_x1 st XOR lxm_x0 st) 37 = rotl 0 37" using z(2) by (simp add: caml_lxm_next_unboxed_def Let_def r0)
    then have "lxm_x1 st XOR lxm_x0 st = lxm_x0 st XOR lxm_x0 st" by (simp add: rotl_inject)
    then have q: "lxm_x1 st = lxm_x0 st" by (simp only: xor_cancel)
    then have "rotl (lxm_x0 st) 24 = rotl 0 24" using z(1) by (simp add: caml_lxm_next_unboxed_def Let_def r0)
    then have "lxm_x0 st = 0" by (simp add: rotl_inject)
    with q show ?thesis by simp
  qed
  then show ?thesis using assms by (auto simp: lxm_ok_def caml_lxm_next_unboxed_def Let_def)
qed

subsection \<open>Properties\<close>

text \<open>
  C13: on every value, cyclic ones included, such that the infix pointers among the values reachable from it lead to closures, the
  generic hash returns: it yields a nonnegative OCaml integer below \<open>2 ^ 30\<close>, or raises
  \<open>Invalid_argument\<close> on a mixed block.
\<close>

theorem hash_returns:
  assumes "infix_ok m obj"
  shows "case caml_hash_exn m chash count limit seed obj of None \<Rightarrow> False
    | Some (Inl e) \<Rightarrow> e = Invalid_argument ''hash: mixed block value''
    | Some (Inr r) \<Rightarrow> \<exists>n<2 ^ 30. r = Val_long (of_nat n)"
proof -
  let ?sz = "if sint (Long_val limit) < 0 \<or> sint (Long_val limit) > int HASH_QUEUE_SIZE
    then HASH_QUEUE_SIZE else nat (sint (Long_val limit))"
  let ?st = "\<lparr>hq_queue = (replicate HASH_QUEUE_SIZE 0)[0 := obj], hq_rd = 0, hq_wr = 1,
    hq_num = sint (Long_val count), hq_h = Int_val seed\<rparr>"
  have "queue_ok {w. hash_reach m obj w} ?sz ?st"
    by (auto simp: queue_ok_def HASH_QUEUE_SIZE_def intro: hash_reach.root)
  then obtain r where "hash_loop m chash ?sz ?st = Some r" "\<forall>e. r = Inl e \<longrightarrow> e = Invalid_argument ''hash: mixed block value''"
    using hash_loop_returns [OF assms, of ?st ?sz chash] by auto
  then show ?thesis using folded_range by (cases r) (auto simp: caml_hash_exn_def Let_def)
qed

text \<open>
  A block at 0x1000 that holds itself, an infix pointer into the closure at 0x2000 and a string at 0x3000 whose bytes look like infix tags.
\<close>

definition hash_sample :: mem where
  "hash_sample = fold (\<lambda>(a, x) m. store64 m a x)
     [(0xFF8, Make_header 3 0 0), (0x1000, 0x1000), (0x1008, 0x2018), (0x1010, 0x3000),
      (0x1FF8, Make_header 5 Closure_tag 0), (0x2008, Make_closinfo 1 5 0), (0x2010, Make_header 3 Infix_tag 0),
      (0x2FF8, Make_header 1 String_tag 0), (0x3000, 0x07F9F9F9F9F9F9F9)] (\<lambda>_. 0)"

lemma hash_sample_loads:
  "load64 hash_sample 0xFF8 = Make_header 3 0 0" "load64 hash_sample 0x1000 = 0x1000" "load64 hash_sample 0x1008 = 0x2018"
  "load64 hash_sample 0x1010 = 0x3000" "load64 hash_sample 0x1FF8 = Make_header 5 Closure_tag 0" "load64 hash_sample 0x2008 = Make_closinfo 1 5 0"
  "load64 hash_sample 0x2010 = Make_header 3 Infix_tag 0" "load64 hash_sample 0x2FF8 = Make_header 1 String_tag 0"
  by (simp_all add: hash_sample_def load64_store64 load64_store64_other)

lemma hash_sample_blocks:
  "Tag_val hash_sample 0x1000 = 0" "Wosize_val hash_sample 0x1000 = 3" "Tag_val hash_sample 0x2018 = Infix_tag"
  "Infix_offset_val hash_sample 0x2018 = 24" "Tag_val hash_sample 0x2000 = Closure_tag" "Wosize_val hash_sample 0x2000 = 5"
  "Start_env_closinfo (Closinfo_val hash_sample 0x2000) = 5" "Tag_val hash_sample 0x3000 = String_tag"
  by (simp_all add: Wosize_val_def Infix_offset_val_def Bsize_wsize_def Closinfo_val_def Field_def hash_sample_loads Make_header_def tag_simps
      closinfo_roundtrip header_parts_ok_def Max_wosize_def mask_eq_exp_minus_1 tag_defs Hd_val_def flip: Tag_val_Hd_val)

lemma hash_sample_infix: "infix_ok hash_sample 0x1000"
proof -
  have b: "\<not> Is_long 0x1000" "\<not> Is_long 0x2018" "\<not> Is_long 0x2000" "\<not> Is_long 0x3000" by (simp_all add: Is_long_def)
  have f: "hash_children hash_sample 0x1000 \<subseteq> {0x1000, 0x2018, 0x3000}"
  proof
    fix w assume "w \<in> hash_children hash_sample 0x1000"
    then obtain i where w: "w = Field hash_sample 0x1000 (of_nat i)" and "i < 3"
      using b by (auto simp: hash_children_def hash_sample_blocks tag_defs)
    then have "i = 0 \<or> i = 1 \<or> i = 2" by linarith
    then show "w \<in> {0x1000, 0x2018, 0x3000}" using w hash_sample_loads by (auto simp: Field_def)
  qed
  have g: "hash_children hash_sample 0x2018 = {0x2000}" "hash_children hash_sample 0x2000 = {}" "hash_children hash_sample 0x3000 = {}"
    using b by (auto simp: hash_children_def hash_sample_blocks tag_defs)
  have "v \<in> {0x1000, 0x2018, 0x2000, 0x3000}" if "hash_reach hash_sample 0x1000 v" for v
    using that
  proof induction
    case (child v w)
    then show ?case using f g by auto
  qed simp
  then show ?thesis unfolding infix_ok_def by (fastforce simp: hash_sample_blocks tag_defs Is_block_def)
qed

theorem hash_returns_witness:
  "case caml_hash_exn hash_sample (\<lambda>_. None) 21 201 1 0x1000 of None \<Rightarrow> False
    | Some (Inl e) \<Rightarrow> e = Invalid_argument ''hash: mixed block value''
    | Some (Inr r) \<Rightarrow> \<exists>n<2 ^ 30. r = Val_long (of_nat n)"
  by (rule hash_returns [OF hash_sample_infix])

text \<open>
  Mixing one 32-bit word is injective in the word and in the accumulated hash, and so is the
  final mix: no step of MurmurHash3 loses information before the result is folded to 30 bits.
\<close>

theorem hash_mix_injective:
  "(caml_hash_mix_uint32 h d = caml_hash_mix_uint32 h d') = (d = d') \<and>
   (caml_hash_mix_uint32 h d = caml_hash_mix_uint32 h' d) = (h = h') \<and>
   (FINAL_MIX h = FINAL_MIX h') = (h = h')"
  by (simp add: caml_hash_mix_uint32_def MIX_inject FINAL_MIX_inject)

text \<open>
  A native integer in the range of 32-bit integers is mixed like its low 32 bits, so hashes
  agree between 32-bit and 64-bit platforms, as the comment in \<open>caml_hash_mix_intnat\<close> demands.
\<close>

theorem hash_intnat_portable:
  assumes "- (2 ^ 31) \<le> sint d" "sint d < 2 ^ 31"
  shows "caml_hash_mix_intnat h d = caml_hash_mix_uint32 h (ucast d)"
  using mix_intnat_int32 [OF assms] .

theorem hash_intnat_portable_witness:
  "caml_hash_mix_intnat 7 (- 5) = caml_hash_mix_uint32 7 (ucast (- 5 :: u64))"
  by (rule hash_intnat_portable) simp_all

text \<open>
  The bits of a double that are mixed depend only on its value up to the identifications of
  OCaml's comparison: all NaNs give the same bits, the two zeros give the same bits, and any other
  two doubles with the same bits are the same.
\<close>

theorem hash_double_normalised:
  "(double_halves d = double_halves d') =
    (is_nan64 d \<and> is_nan64 d' \<or> is_zero64 d \<and> is_zero64 d' \<or> d = d') \<and>
   caml_hash_mix_double h d =
     MIX (MIX h (snd (double_halves d))) (fst (double_halves d))"
  using double_halves_eq by (simp add: caml_hash_mix_double_def split: prod.split)

text \<open>
  The runtime's hash of a polymorphic variant tag, computed with wrap-around in 32-bit
  arithmetic and masks on tagged values, is the integer the compiler computes for the same name.
\<close>

theorem hash_variant_agrees: "caml_hash_variant s = Val_long (word_of_int (misc_hash_variant s))"
  by (rule caml_hash_variant_eq)

text \<open>
  A step of the L64X128 generator keeps the state valid (odd additive parameter, nonzero xorshift
  part) and never maps two states to one, so no state is lost from the generator's period.
\<close>

theorem lxm_next_invariant:
  assumes "lxm_ok st"
  shows "lxm_ok (snd (caml_lxm_next_unboxed st)) \<and>
    (snd (caml_lxm_next_unboxed st) = snd (caml_lxm_next_unboxed st')) = (st = st')"
  using lxm_next_ok [OF assms] lxm_next_inject by metis

theorem lxm_next_invariant_witness:
  "lxm_ok (snd (caml_lxm_next_unboxed \<lparr>lxm_a = 1, lxm_s = 2, lxm_x0 = 3, lxm_x1 = 4\<rparr>)) \<and>
    (snd (caml_lxm_next_unboxed \<lparr>lxm_a = 1, lxm_s = 2, lxm_x0 = 3, lxm_x1 = 4\<rparr>) =
      snd (caml_lxm_next_unboxed \<lparr>lxm_a = 1, lxm_s = 5, lxm_x0 = 3, lxm_x1 = 4\<rparr>)) =
    (\<lparr>lxm_a = 1, lxm_s = 2, lxm_x0 = 3, lxm_x1 = 4\<rparr> = \<lparr>lxm_a = 1, lxm_s = 5, lxm_x0 = 3, lxm_x1 = 4\<rparr>)"
  by (rule lxm_next_invariant) (simp add: lxm_ok_def)

end
