(* ===== verification/Compare.thy ===== *)
theory Compare
  imports Str Hash
begin

text \<open>
  Structural comparison (\<open>runtime/compare.c\<close>): the iterative traversal with an explicit stack of
  pending fields that grows on demand, and the polymorphic comparison primitives.

  \<open>env\<close> holds the custom operations tables and the comparison functions they point to (they are
  supplied by libraries), and \<open>alloc n\<close> says whether \<open>caml_stat_alloc_noexc\<close> or
  \<open>caml_stat_resize_noexc\<close> can provide \<open>n\<close> bytes. Signals and collections that run while the
  comparison polls are not modelled: they do not change the values compared.
\<close>

unbundle bit_operations_syntax

subsection \<open>State\<close>

record compare_item =
  ci_v1 :: val
  ci_v2 :: val
  ci_offset :: val
  ci_size :: val

definition COMPARE_STACK_INIT_SIZE :: nat where "COMPARE_STACK_INIT_SIZE = 8"
definition COMPARE_STACK_MIN_ALLOC_SIZE :: nat where "COMPARE_STACK_MIN_ALLOC_SIZE = 32"
definition COMPARE_STACK_MAX_SIZE :: nat where "COMPARE_STACK_MAX_SIZE = 1024 * 1024"

text \<open>
  The stack: the items below \<open>sp\<close>, the topmost first, the number of items between \<open>stack\<close> and
  \<open>limit\<close>, and whether \<open>stack\<close> is still the initial array.
\<close>

record compare_stack =
  cs_items :: "compare_item list"
  cs_limit :: nat
  cs_init :: bool

definition compare_resize_stack :: "(nat \<Rightarrow> bool) \<Rightarrow> compare_stack \<Rightarrow> compare_stack res" where
  "compare_resize_stack alloc stk =
     (if cs_init stk then
        let newsize = COMPARE_STACK_MIN_ALLOC_SIZE in
        if \<not> alloc (32 * newsize) then Inl Out_of_memory
        else Inr (stk\<lparr>cs_limit := newsize, cs_init := False\<rparr>)
      else
        let newsize = 2 * cs_limit stk in
        if COMPARE_STACK_MAX_SIZE \<le> newsize then Inl Out_of_memory
        else if \<not> alloc (32 * newsize) then Inl Out_of_memory
        else Inr (stk\<lparr>cs_limit := newsize\<rparr>))"

text \<open>
  Custom operations: function pointers are addresses, 0 is \<open>NULL\<close>, and \<open>ce_call\<close> gives the
  result of calling one, together with the flag \<open>Caml_state->compare_unordered\<close> that it leaves.
\<close>

record custom_operations =
  co_identifier :: "u8 list"
  co_compare :: addr
  co_compare_ext :: addr

record custom_env =
  ce_ops :: "addr \<Rightarrow> custom_operations"
  ce_call :: "addr \<Rightarrow> mem \<Rightarrow> val \<Rightarrow> val \<Rightarrow> u32 \<times> bool"

definition Custom_ops_val :: "custom_env \<Rightarrow> mem \<Rightarrow> val \<Rightarrow> custom_operations" where
  "Custom_ops_val env m v = ce_ops env (load64 m v)"

definition LESS :: u64 where "LESS = - 1"
definition EQUAL :: u64 where "EQUAL = 0"
definition GREATER :: u64 where "GREATER = 1"
definition UNORDERED :: u64 where "UNORDERED = - (2 ^ 63)"

subsection \<open>Floating-point comparison\<close>

text \<open>Doubles are IEEE 754 bit patterns; a comparison with a NaN is false, and the two zeros are equal.\<close>

definition double_key :: "u64 \<Rightarrow> int" where
  "double_key d = (if bit d 63 then - uint (d AND mask 63) else uint (d AND mask 63))"

definition double_lt :: "u64 \<Rightarrow> u64 \<Rightarrow> bool" where
  "double_lt d1 d2 \<longleftrightarrow> \<not> is_nan64 d1 \<and> \<not> is_nan64 d2 \<and> double_key d1 < double_key d2"

definition double_eq :: "u64 \<Rightarrow> u64 \<Rightarrow> bool" where
  "double_eq d1 d2 \<longleftrightarrow> \<not> is_nan64 d1 \<and> \<not> is_nan64 d2 \<and> double_key d1 = double_key d2"

subsection \<open>The comparison loop\<close>

text \<open>
  What one pass through the body of the inner loop does: return a value, raise, \<open>continue\<close> with new
  values, or leave the \<open>switch\<close> for the label \<open>next_item\<close>.
\<close>

datatype cmp_outcome =
    Return u64
  | Raise exn
  | Continue compare_stack val val
  | Next_item

text \<open>A call of a \<open>compare_ext\<close> or \<open>compare\<close> function of a custom block.\<close>

definition call_compare :: "custom_env \<Rightarrow> mem \<Rightarrow> bool \<Rightarrow> addr \<Rightarrow> val \<Rightarrow> val \<Rightarrow> cmp_outcome" where
  "call_compare env m is_total f v1 v2 =
     (let (r, unordered) = ce_call env f m v1 v2 in
      if unordered \<and> \<not> is_total then Return UNORDERED
      else if r \<noteq> 0 then Return (scast r) else Next_item)"

definition compare_long_v1 :: "custom_env \<Rightarrow> mem \<Rightarrow> bool \<Rightarrow> compare_stack \<Rightarrow> val \<Rightarrow> val \<Rightarrow> cmp_outcome" where
  "compare_long_v1 env m is_total stk v1 v2 =
     (if v1 = v2 then Next_item
      else if Is_null v1 then Return LESS
      else if Is_null v2 then Return GREATER
      else if Is_long v2 then Return (Long_val v1 - Long_val v2)
      else if Tag_val m v2 = Forward_tag then Continue stk v1 (Forward_val m v2)
      else if Tag_val m v2 = Custom_tag \<and> co_compare_ext (Custom_ops_val env m v2) \<noteq> 0
      then call_compare env m is_total (co_compare_ext (Custom_ops_val env m v2)) v1 v2
      else Return LESS)"

definition compare_long_v2 :: "custom_env \<Rightarrow> mem \<Rightarrow> bool \<Rightarrow> compare_stack \<Rightarrow> val \<Rightarrow> val \<Rightarrow> cmp_outcome" where
  "compare_long_v2 env m is_total stk v1 v2 =
     (if Tag_val m v1 = Forward_tag then Continue stk (Forward_val m v1) v2
      else if Tag_val m v1 = Custom_tag \<and> co_compare_ext (Custom_ops_val env m v1) \<noteq> 0
      then call_compare env m is_total (co_compare_ext (Custom_ops_val env m v1)) v1 v2
      else Return GREATER)"

definition compare_strings :: "mem \<Rightarrow> val \<Rightarrow> val \<Rightarrow> cmp_outcome" where
  "compare_strings m v1 v2 =
     (if v1 = v2 then Next_item
      else let len1 = caml_string_length m v1; len2 = caml_string_length m v2;
               r = memcmp (unat (if len1 \<le> len2 then len1 else len2)) m v1 v2
           in if r < 0 then Return LESS
              else if r > 0 then Return GREATER
              else if len1 \<noteq> len2 then Return (len1 - len2)
              else Next_item)"

definition compare_doubles :: "bool \<Rightarrow> u64 \<Rightarrow> u64 \<Rightarrow> cmp_outcome" where
  "compare_doubles is_total d1 d2 =
     (if double_lt d1 d2 then Return LESS
      else if double_lt d2 d1 then Return GREATER
      else if \<not> double_eq d1 d2 then
        if \<not> is_total then Return UNORDERED
        else if double_eq d1 d1 then Return GREATER
        else if double_eq d2 d2 then Return LESS
        else Next_item
      else Next_item)"

text \<open>The loop over the elements \<open>i\<close>, \<open>i + 1\<close>, ... of two float arrays, \<open>n\<close> of them left.\<close>

primrec compare_double_fields :: "nat \<Rightarrow> mem \<Rightarrow> bool \<Rightarrow> val \<Rightarrow> val \<Rightarrow> u64 \<Rightarrow> cmp_outcome" where
  "compare_double_fields 0 m is_total v1 v2 i = Next_item"
| "compare_double_fields (Suc n) m is_total v1 v2 i =
     (case compare_doubles is_total (load64 m (v1 + 8 * i)) (load64 m (v2 + 8 * i)) of
        Return r \<Rightarrow> Return r
      | _ \<Rightarrow> compare_double_fields n m is_total v1 v2 (i + 1))"

definition compare_double_arrays :: "mem \<Rightarrow> bool \<Rightarrow> val \<Rightarrow> val \<Rightarrow> cmp_outcome" where
  "compare_double_arrays m is_total v1 v2 =
     (let sz1 = Wosize_val m v1; sz2 = Wosize_val m v2 in
      if sz1 \<noteq> sz2 then Return (sz1 - sz2)
      else compare_double_fields (unat sz1) m is_total v1 v2 0)"

definition compare_customs :: "custom_env \<Rightarrow> mem \<Rightarrow> bool \<Rightarrow> val \<Rightarrow> val \<Rightarrow> cmp_outcome" where
  "compare_customs env m is_total v1 v2 =
     (let o1 = Custom_ops_val env m v1; o2 = Custom_ops_val env m v2 in
      if co_compare o1 \<noteq> co_compare o2 then
        Return (if bytes_cmp (co_identifier o1) (co_identifier o2) < 0 then LESS else GREATER)
      else if co_compare o1 = 0 then Raise (Invalid_argument ''compare: abstract value'')
      else call_compare env m is_total (co_compare o1) v1 v2)"

definition compare_fields :: "(nat \<Rightarrow> bool) \<Rightarrow> mem \<Rightarrow> compare_stack \<Rightarrow> val \<Rightarrow> val \<Rightarrow> cmp_outcome" where
  "compare_fields alloc m stk v1 v2 =
     (let sz1 = Wosize_val m v1; sz2 = Wosize_val m v2 in
      if sz1 \<noteq> sz2 then Return (sz1 - sz2)
      else if sz1 = 0 then Next_item
      else if sz1 > 1 then
        case (if cs_limit stk \<le> length (cs_items stk) then compare_resize_stack alloc stk else Inr stk) of
          Inl e \<Rightarrow> Raise e
        | Inr stk \<Rightarrow>
            Continue (stk\<lparr>cs_items := \<lparr>ci_v1 = v1, ci_v2 = v2, ci_offset = Val_long 1, ci_size = Val_long sz1\<rparr> # cs_items stk\<rparr>)
              (Field m v1 0) (Field m v2 0)
      else Continue stk (Field m v1 0) (Field m v2 0))"

definition closure_tag_of :: "u32 \<Rightarrow> u32" where
  "closure_tag_of t = (if t = Infix_tag then Closure_tag else t)"

definition compare_blocks ::
  "(nat \<Rightarrow> bool) \<Rightarrow> custom_env \<Rightarrow> mem \<Rightarrow> bool \<Rightarrow> compare_stack \<Rightarrow> val \<Rightarrow> val \<Rightarrow> cmp_outcome" where
  "compare_blocks alloc env m is_total stk v1 v2 =
     (let t1 = Tag_val m v1; t2 = Tag_val m v2 in
      if t1 \<noteq> t2 \<and> t1 = Forward_tag then Continue stk (Forward_val m v1) v2
      else if t1 \<noteq> t2 \<and> t2 = Forward_tag then Continue stk v1 (Forward_val m v2)
      else let (t1, t2) = (if t1 \<noteq> t2 then (closure_tag_of t1, closure_tag_of t2) else (t1, t2)) in
      if t1 \<noteq> t2 then Return (ucast t1 - ucast t2)
      else if Is_mixed_block_reserved (Reserved_val m v1) \<or> Is_mixed_block_reserved (Reserved_val m v2)
      then Raise (Invalid_argument ''compare: mixed block value'')
      else if t1 = Forward_tag then Continue stk (Forward_val m v1) (Forward_val m v2)
      else if t1 = String_tag then compare_strings m v1 v2
      else if t1 = Double_tag then compare_doubles is_total (load64 m v1) (load64 m v2)
      else if t1 = Double_array_tag then compare_double_arrays m is_total v1 v2
      else if t1 = Abstract_tag then Raise (Invalid_argument ''compare: abstract value'')
      else if t1 = Closure_tag \<or> t1 = Infix_tag then Raise (Invalid_argument ''compare: functional value'')
      else if t1 = Cont_tag then Raise (Invalid_argument ''compare: continuation value'')
      else if t1 = Object_tag then
        if Oid_val m v1 \<noteq> Oid_val m v2 then Return (Oid_val m v1 - Oid_val m v2) else Next_item
      else if t1 = Custom_tag then compare_customs env m is_total v1 v2
      else compare_fields alloc m stk v1 v2)"

definition compare_body ::
  "(nat \<Rightarrow> bool) \<Rightarrow> custom_env \<Rightarrow> mem \<Rightarrow> bool \<Rightarrow> compare_stack \<Rightarrow> val \<Rightarrow> val \<Rightarrow> cmp_outcome" where
  "compare_body alloc env m is_total stk v1 v2 =
     (if v1 = v2 \<and> is_total then Next_item
      else if Is_long v1 then compare_long_v1 env m is_total stk v1 v2
      else if Is_long v2 then compare_long_v2 env m is_total stk v1 v2
      else compare_blocks alloc env m is_total stk v1 v2)"

text \<open>The label \<open>next_item\<close>: pop the next pair of fields, or \<open>None\<close> when the stack is empty.\<close>

definition next_item :: "mem \<Rightarrow> compare_stack \<Rightarrow> (compare_stack \<times> val \<times> val) option" where
  "next_item m stk =
     (case cs_items stk of
        [] \<Rightarrow> None
      | item # rest \<Rightarrow>
          let v1 = Field m (ci_v1 item) (Long_val (ci_offset item));
              v2 = Field m (ci_v2 item) (Long_val (ci_offset item));
              item = item\<lparr>ci_offset := ci_offset item + 2\<rparr> in
          Some (stk\<lparr>cs_items := if ci_offset item = ci_size item then rest else item # rest\<rparr>, v1, v2))"

partial_function (option) do_compare_val ::
  "(nat \<Rightarrow> bool) \<Rightarrow> custom_env \<Rightarrow> mem \<Rightarrow> bool \<Rightarrow> compare_stack \<Rightarrow> val \<Rightarrow> val \<Rightarrow> u64 res option" where
  "do_compare_val alloc env m is_total stk v1 v2 =
     (case compare_body alloc env m is_total stk v1 v2 of
        Return r \<Rightarrow> Some (Inr r)
      | Raise e \<Rightarrow> Some (Inl e)
      | Continue stk v1 v2 \<Rightarrow> do_compare_val alloc env m is_total stk v1 v2
      | Next_item \<Rightarrow>
          (case next_item m stk of
             None \<Rightarrow> Some (Inr EQUAL)
           | Some (stk, v1, v2) \<Rightarrow> do_compare_val alloc env m is_total stk v1 v2))"

definition compare_val :: "(nat \<Rightarrow> bool) \<Rightarrow> custom_env \<Rightarrow> mem \<Rightarrow> val \<Rightarrow> val \<Rightarrow> bool \<Rightarrow> u64 res option" where
  "compare_val alloc env m v1 v2 is_total =
     do_compare_val alloc env m is_total
       \<lparr>cs_items = [], cs_limit = COMPARE_STACK_INIT_SIZE, cs_init = True\<rparr> v1 v2"

subsection \<open>The primitives\<close>

definition map_result :: "('a \<Rightarrow> 'b) \<Rightarrow> 'a res option \<Rightarrow> 'b res option" where
  "map_result f = map_option (map_sum id f)"

definition caml_compare :: "(nat \<Rightarrow> bool) \<Rightarrow> custom_env \<Rightarrow> mem \<Rightarrow> val \<Rightarrow> val \<Rightarrow> val res option" where
  "caml_compare alloc env m v1 v2 =
     map_result (\<lambda>r. if r <s 0 then Val_int (- 1) else if 0 <s r then Val_int 1 else Val_int 0)
       (compare_val alloc env m v1 v2 True)"

definition caml_equal :: "(nat \<Rightarrow> bool) \<Rightarrow> custom_env \<Rightarrow> mem \<Rightarrow> val \<Rightarrow> val \<Rightarrow> val res option" where
  "caml_equal alloc env m v1 v2 =
     map_result (\<lambda>r. Val_int (of_bool (r = 0))) (compare_val alloc env m v1 v2 False)"

definition caml_notequal :: "(nat \<Rightarrow> bool) \<Rightarrow> custom_env \<Rightarrow> mem \<Rightarrow> val \<Rightarrow> val \<Rightarrow> val res option" where
  "caml_notequal alloc env m v1 v2 =
     map_result (\<lambda>r. Val_int (of_bool (r \<noteq> 0))) (compare_val alloc env m v1 v2 False)"

definition caml_lessthan :: "(nat \<Rightarrow> bool) \<Rightarrow> custom_env \<Rightarrow> mem \<Rightarrow> val \<Rightarrow> val \<Rightarrow> val res option" where
  "caml_lessthan alloc env m v1 v2 =
     map_result (\<lambda>r. Val_int (of_bool (r <s 0 \<and> r \<noteq> UNORDERED))) (compare_val alloc env m v1 v2 False)"

definition caml_lessequal :: "(nat \<Rightarrow> bool) \<Rightarrow> custom_env \<Rightarrow> mem \<Rightarrow> val \<Rightarrow> val \<Rightarrow> val res option" where
  "caml_lessequal alloc env m v1 v2 =
     map_result (\<lambda>r. Val_int (of_bool (r \<le>s 0 \<and> r \<noteq> UNORDERED))) (compare_val alloc env m v1 v2 False)"

definition caml_greaterthan :: "(nat \<Rightarrow> bool) \<Rightarrow> custom_env \<Rightarrow> mem \<Rightarrow> val \<Rightarrow> val \<Rightarrow> val res option" where
  "caml_greaterthan alloc env m v1 v2 =
     map_result (\<lambda>r. Val_int (of_bool (0 <s r))) (compare_val alloc env m v1 v2 False)"

definition caml_greaterequal :: "(nat \<Rightarrow> bool) \<Rightarrow> custom_env \<Rightarrow> mem \<Rightarrow> val \<Rightarrow> val \<Rightarrow> val res option" where
  "caml_greaterequal alloc env m v1 v2 =
     map_result (\<lambda>r. Val_int (of_bool (0 \<le>s r))) (compare_val alloc env m v1 v2 False)"

subsection \<open>Structural values\<close>

text \<open>
  The data that comparison is meant to order: null, integers, strings, floats, float arrays, objects
  (by identity) and structured blocks. \<open>repr m v t\<close> says that \<open>v\<close> denotes \<open>t\<close> in memory \<open>m\<close>, possibly
  through forwarding blocks of forced lazy values. A block that forwards to null is left out: the code compares it with null
  in a way that depends on the order of the arguments.
\<close>

datatype tree =
    TNull
  | TInt int
  | TStr "u8 list"
  | TDbl u64
  | TDbls "u64 list"
  | TObj int
  | TBlock u32 "tree list"

definition structured_tag :: "u32 \<Rightarrow> bool" where
  "structured_tag t \<longleftrightarrow> t \<notin> {Forward_tag, String_tag, Double_tag, Double_array_tag, Abstract_tag, Closure_tag,
     Infix_tag, Cont_tag, Object_tag, Custom_tag}"

inductive repr :: "mem \<Rightarrow> val \<Rightarrow> tree \<Rightarrow> bool" for m where
  repr_null: "repr m 0 TNull"
| repr_int: "bit v 0 \<Longrightarrow> repr m v (TInt (sint (Long_val v)))"
| repr_str: "Is_block v \<Longrightarrow> Reserved_val m v = 0 \<Longrightarrow> string_block m v bs \<Longrightarrow> repr m v (TStr bs)"
| repr_dbl: "Is_block v \<Longrightarrow> Reserved_val m v = 0 \<Longrightarrow> Tag_val m v = Double_tag \<Longrightarrow> repr m v (TDbl (load64 m v))"
| repr_dbls: "Is_block v \<Longrightarrow> Reserved_val m v = 0 \<Longrightarrow> Tag_val m v = Double_array_tag \<Longrightarrow>
    repr m v (TDbls (map (\<lambda>i. load64 m (v + 8 * of_nat i)) [0..<unat (Wosize_val m v)]))"
| repr_obj: "Is_block v \<Longrightarrow> Reserved_val m v = 0 \<Longrightarrow> Tag_val m v = Object_tag \<Longrightarrow> repr m v (TObj (sint (Oid_val m v)))"
| repr_block: "Is_block v \<Longrightarrow> Reserved_val m v = 0 \<Longrightarrow> structured_tag (Tag_val m v) \<Longrightarrow>
    length ts = unat (Wosize_val m v) \<Longrightarrow> (\<And>i. i < length ts \<Longrightarrow> repr m (Field m v (of_nat i)) (ts ! i)) \<Longrightarrow>
    repr m v (TBlock (Tag_val m v) ts)"
| repr_forward: "Is_block v \<Longrightarrow> Reserved_val m v = 0 \<Longrightarrow> Tag_val m v = Forward_tag \<Longrightarrow>
    repr m (Forward_val m v) t \<Longrightarrow> t \<noteq> TNull \<Longrightarrow> repr m v t"

datatype cmp_ord = Lt | Eq | Gt | Unord

definition sign_ord :: "int \<Rightarrow> cmp_ord" where
  "sign_ord d = (if d < 0 then Lt else if d = 0 then Eq else Gt)"

text \<open>The total order puts NaN below every other float; otherwise a comparison with NaN is unordered.\<close>

definition double_ord :: "bool \<Rightarrow> u64 \<Rightarrow> u64 \<Rightarrow> cmp_ord" where
  "double_ord is_total d1 d2 =
     (if is_nan64 d1 \<or> is_nan64 d2 then
        if is_total then sign_ord (of_bool (is_nan64 d2) - of_bool (is_nan64 d1)) else Unord
      else sign_ord (double_key d1 - double_key d2))"

fun doubles_ord :: "bool \<Rightarrow> u64 list \<Rightarrow> u64 list \<Rightarrow> cmp_ord" where
  "doubles_ord p (a # as) (b # bs) = (case double_ord p a b of Eq \<Rightarrow> doubles_ord p as bs | r \<Rightarrow> r)"
| "doubles_ord p _ _ = Eq"

fun rank :: "tree \<Rightarrow> int" where
  "rank TNull = - 2"
| "rank (TInt _) = - 1"
| "rank (TStr _) = uint String_tag"
| "rank (TDbl _) = uint Double_tag"
| "rank (TDbls _) = uint Double_array_tag"
| "rank (TObj _) = uint Object_tag"
| "rank (TBlock g _) = uint g"

text \<open>The intended order: by kind, then integers by value, strings lexicographically, blocks by size and then by fields.\<close>

fun compare_tree :: "bool \<Rightarrow> tree \<Rightarrow> tree \<Rightarrow> cmp_ord"
  and compare_trees :: "bool \<Rightarrow> tree list \<Rightarrow> tree list \<Rightarrow> cmp_ord" where
  "compare_tree p (TInt i) (TInt j) = sign_ord (i - j)"
| "compare_tree p (TStr a) (TStr b) = sign_ord (bytes_cmp a b)"
| "compare_tree p (TDbl a) (TDbl b) = double_ord p a b"
| "compare_tree p (TDbls a) (TDbls b) =
     (if length a \<noteq> length b then sign_ord (int (length a) - int (length b)) else doubles_ord p a b)"
| "compare_tree p (TObj i) (TObj j) = sign_ord (i - j)"
| "compare_tree p (TBlock g as) (TBlock h bs) =
     (if g \<noteq> h then sign_ord (uint g - uint h)
      else if length as \<noteq> length bs then sign_ord (int (length as) - int (length bs))
      else compare_trees p as bs)"
| "compare_tree p s t = sign_ord (rank s - rank t)"
| "compare_trees p (a # as) (b # bs) = (case compare_tree p a b of Eq \<Rightarrow> compare_trees p as bs | r \<Rightarrow> r)"
| "compare_trees p _ _ = Eq"

primrec depth :: "tree \<Rightarrow> nat" where
  "depth TNull = 0"
| "depth (TInt _) = 0"
| "depth (TStr _) = 0"
| "depth (TDbl _) = 0"
| "depth (TDbls _) = 0"
| "depth (TObj _) = 0"
| "depth (TBlock _ ts) = Suc (foldr max (map depth ts) 0)"

subsection \<open>Results of comparisons\<close>

definition res_ord :: "u64 \<Rightarrow> cmp_ord" where
  "res_ord r = (if r = UNORDERED then Unord else sign_ord (sint r))"

lemma res_ord_consts [simp]: "res_ord LESS = Lt" "res_ord GREATER = Gt" "res_ord UNORDERED = Unord" "res_ord EQUAL = Eq"
  by (simp_all add: res_ord_def LESS_def GREATER_def UNORDERED_def EQUAL_def sign_ord_def)

text \<open>A difference of two numbers of 63 bits neither overflows nor is the value for unordered results.\<close>

lemma res_ord_diff:
  assumes "- (2 ^ 62) \<le> sint a" "sint a < 2 ^ 62" "- (2 ^ 62) \<le> sint b" "sint b < 2 ^ 62"
  shows "res_ord (a - b) = sign_ord (sint a - sint b)"
proof -
  have "a - b = word_of_int (sint a - sint b)" by simp
  then have s: "sint (a - b) = sint a - sint b" using assms by (simp only:) (intro sint_word_of_int_range, auto)
  have "sint UNORDERED = - (2 ^ 63)" by (simp add: UNORDERED_def)
  then have "a - b \<noteq> UNORDERED" using s assms by auto
  then show ?thesis using s by (simp add: res_ord_def)
qed

lemma uint_less_unat: "unat x < n \<Longrightarrow> uint x < int n" for x :: "'a::len word"
  by (metis uint_nat of_nat_less_iff)

lemma sint_unat_small: "unat x < 2 ^ 63 \<Longrightarrow> sint x = uint x" for x :: u64
  using sint_word_of_int_range [where 'a = 64, of "uint x"] uint_less_unat [of x "2 ^ 63"] uint_ge_0 [of x] by simp

lemma res_ord_diff_unat:
  assumes "unat a < 2 ^ 62" "unat b < 2 ^ 62"
  shows "res_ord (a - b) = sign_ord (uint a - uint b)"
proof -
  have "sint x = uint x" "- (2 ^ 62) \<le> sint x" "sint x < 2 ^ 62" if x: "unat x < 2 ^ 62" for x :: u64
  proof -
    have "unat x < 2 ^ 63" using x by simp
    then show "sint x = uint x" by (rule sint_unat_small)
    then show "- (2 ^ 62) \<le> sint x" "sint x < 2 ^ 62"
      using uint_less_unat [OF x] order_trans [OF _ uint_ge_0, of "- (2 ^ 62)" x] by simp_all
  qed
  with assms show ?thesis by (metis res_ord_diff)
qed

lemma Wosize_val_less: "unat (Wosize_val m v) < 2 ^ 46"
proof -
  have "Wosize_val m v = take_bit 46 (Wosize_val m v)"
    by (rule bit_word_eqI) (auto simp: Wosize_val_def Wosize_hd_def HEADER_WOSIZE_MASK_def bit_simps)
  then have "unat (Wosize_val m v) = take_bit 46 (unat (Wosize_val m v))" by (metis unsigned_take_bit_eq)
  then show ?thesis by (metis take_bit_nat_less_exp)
qed

lemma Tag_val_less: "uint (Tag_val m v) < 256"
  unfolding Tag_val_def using uint_lt2p [of "m (v - 8)"] by (simp add: uint_up_ucast is_up)

lemma res_ord_tags:
  "res_ord (ucast (Tag_val m v) - ucast (Tag_val m w)) = sign_ord (uint (Tag_val m v) - uint (Tag_val m w))"
proof -
  have u: "uint (ucast (Tag_val m z) :: u64) = uint (Tag_val m z)" for z
    by (simp add: uint_up_ucast is_up)
  have "unat (ucast (Tag_val m z) :: u64) < 2 ^ 62" for z
    using Tag_val_less [of m z] u [of z] by (simp add: unat_eq_nat_uint nat_less_iff del: nat_uint_eq)
  from res_ord_diff_unat [OF this this] show ?thesis by (simp add: u)
qed

lemma res_ord_Long_val: "res_ord (Long_val v - Long_val w) = sign_ord (sint (Long_val v) - sint (Long_val w))"
  using Long_val_range [of v] Long_val_range [of w] by (intro res_ord_diff) (auto simp: Min_long_def Max_long_def)

lemma sign_ord_simps [simp]: "sign_ord d = Eq \<longleftrightarrow> d = 0" "sign_ord d \<noteq> Unord" "sign_ord 0 = Eq"
  by (auto simp: sign_ord_def)

text \<open>A pass of the loop body that decides the comparison of two values.\<close>

fun outcome_ok :: "cmp_outcome \<Rightarrow> cmp_ord \<Rightarrow> bool" where
  "outcome_ok (Return r) c \<longleftrightarrow> res_ord r = c \<and> c \<noteq> Eq"
| "outcome_ok Next_item c \<longleftrightarrow> c = Eq"
| "outcome_ok _ c \<longleftrightarrow> False"

lemma compare_doubles_ok: "outcome_ok (compare_doubles p a b) (double_ord p a b)"
  by (auto simp: compare_doubles_def double_ord_def double_lt_def double_eq_def sign_ord_def)

lemma compare_double_fields_ok:
  "outcome_ok (compare_double_fields n m p v1 v2 i)
     (doubles_ord p (map (\<lambda>j. load64 m (v1 + 8 * (i + of_nat j))) [0..<n])
        (map (\<lambda>j. load64 m (v2 + 8 * (i + of_nat j))) [0..<n]))"
proof (induction n arbitrary: i)
  case (Suc n)
  have e: "map (\<lambda>j. load64 m (v + 8 * (i + of_nat j))) [0..<Suc n] =
    load64 m (v + 8 * i) # map (\<lambda>j. load64 m (v + 8 * (i + 1 + of_nat j))) [0..<n]" for v
    by (subst upt_conv_Cons) (simp_all add: map_Suc_upt [symmetric] ac_simps del: upt_Suc)
  let ?a = "load64 m (v1 + 8 * i)" and ?b = "load64 m (v2 + 8 * i)"
  show ?case unfolding e using compare_doubles_ok [of p ?a ?b] Suc.IH [of "i + 1"]
    by (cases "compare_doubles p ?a ?b") (auto split: cmp_ord.splits)
qed simp

lemma string_block_functional: "string_block m v a \<Longrightarrow> string_block m v b \<Longrightarrow> a = b"
proof (rule nth_equalityI)
  assume a: "string_block m v a" and b: "string_block m v b"
  then have "of_nat (length a) = (of_nat (length b) :: u64)" using string_length_block by metis
  with a b show l: "length a = length b" by (simp add: string_block_def of_nat_u64_eq_iff)
  fix i assume "i < length a"
  with a b l show "a ! i = b ! i" using bytes_atD string_block_prefix(1) by metis
qed

lemma compare_strings_ok:
  assumes "string_block m v1 a" "string_block m v2 b"
  shows "outcome_ok (compare_strings m v1 v2) (sign_ord (bytes_cmp a b))"
proof (cases "v1 = v2")
  case True
  then have "a = b" using assms string_block_functional by blast
  then show ?thesis using True bytes_cmp_lexordp(1) [of a b] by (simp add: compare_strings_def)
next
  case False
  have n: "length a < 2 ^ 48" "length b < 2 ^ 48" using assms by (auto simp: string_block_def)
  then have u: "unat (of_nat (length a) :: u64) = length a" "unat (of_nat (length b) :: u64) = length b"
    by (simp_all add: unat_of_nat)
  have "unat (of_nat (length a) :: u64) < 2 ^ 62" "unat (of_nat (length b) :: u64) < 2 ^ 62" using n unfolding u by auto
  from res_ord_diff_unat [OF this] have d: "res_ord (of_nat (length a) - of_nat (length b)) =
      sign_ord (int (length a) - int (length b))" unfolding uint_nat u .
  have "unat (if (of_nat (length a) :: u64) \<le> of_nat (length b) then of_nat (length a) else of_nat (length b) :: u64)
      = min (length a) (length b)" using u by (auto simp: word_le_nat_alt min_def)
  then have e: "compare_strings m v1 v2 = (let r = memcmp (min (length a) (length b)) m v1 v2 in
      if r < 0 then Return LESS else if r > 0 then Return GREATER
      else if length a \<noteq> length b then Return (of_nat (length a) - of_nat (length b)) else Next_item)"
    using False n by (simp add: compare_strings_def Let_def string_length_block [OF assms(1)] string_length_block [OF assms(2)]
        of_nat_u64_eq_iff)
  show ?thesis unfolding e
    memcmp_bytes [OF string_block_prefix(1) [OF assms(1)] string_block_prefix(1) [OF assms(2)]]
    using d by (auto simp: Let_def sign_ord_def)
qed

subsection \<open>Values\<close>

lemma bit0_long: "bit v 0 \<Longrightarrow> Is_long v \<and> v \<noteq> 0"
  by (auto simp: Is_long_def and_one_eq odd_iff_mod_2_eq_one bit_0)

lemma Is_block_not_long: "Is_block v \<Longrightarrow> \<not> Is_long v \<and> \<not> bit v 0 \<and> v \<noteq> 0"
  using bit0_long [of v] by (auto simp: Is_block_iff_not_long Is_long_def)

definition forwarding :: "mem \<Rightarrow> val \<Rightarrow> bool" where
  "forwarding m v \<longleftrightarrow> Is_block v \<and> Tag_val m v = Forward_tag"

text \<open>What a value that is not a forwarding block denotes is told by its tag.\<close>

inductive_cases repr_TNullE: "repr m v TNull"
inductive_cases repr_TIntE: "repr m v (TInt i)"
inductive_cases repr_TStrE: "repr m v (TStr bs)"
inductive_cases repr_TDblE: "repr m v (TDbl d)"
inductive_cases repr_TDblsE: "repr m v (TDbls ds)"
inductive_cases repr_TObjE: "repr m v (TObj i)"
inductive_cases repr_TBlockE: "repr m v (TBlock g ts)"

lemma repr_kind:
  assumes "repr m v t" "\<not> forwarding m v"
  shows "if rank t < 0 then Is_long v \<and> (rank t = - 2 \<longleftrightarrow> v = 0)
    else Is_block v \<and> Reserved_val m v = 0 \<and> rank t = uint (Tag_val m v) \<and>
      Tag_val m v \<notin> {Forward_tag, Custom_tag, Infix_tag, Abstract_tag, Closure_tag, Cont_tag}"
  using assms
  by (cases rule: repr.cases)
    (auto simp: forwarding_def Is_long_def string_block_def structured_tag_def tag_defs bit0_long dest: bit0_long)

lemma repr_deterministic: "repr m v s \<Longrightarrow> repr m v t \<Longrightarrow> s = t"
proof (induction arbitrary: t rule: repr.induct)
  case repr_null
  then show ?case by (cases rule: repr.cases) (auto dest: Is_block_not_long)
next
  case (repr_int v)
  from repr_int(2) show ?case using repr_int(1) by (cases rule: repr.cases) (auto dest: Is_block_not_long)
next
  case (repr_str v bs)
  have tag: "Tag_val m v = String_tag" using repr_str by (simp add: string_block_def)
  have uniq: "string_block m v bs' \<Longrightarrow> bs = bs'" for bs' using repr_str(3) string_block_functional by blast
  from repr_str(4) show ?case using repr_str(1) tag uniq
    by (cases rule: repr.cases) (auto dest: Is_block_not_long simp: structured_tag_def tag_defs)
next
  case (repr_dbl v)
  from repr_dbl(4) show ?case using repr_dbl
    by (cases rule: repr.cases) (auto dest: Is_block_not_long simp: string_block_def structured_tag_def tag_defs)
next
  case (repr_dbls v)
  from repr_dbls(4) show ?case using repr_dbls
    by (cases rule: repr.cases) (auto dest: Is_block_not_long simp: string_block_def structured_tag_def tag_defs)
next
  case (repr_obj v)
  from repr_obj(4) show ?case using repr_obj
    by (cases rule: repr.cases) (auto dest: Is_block_not_long simp: string_block_def structured_tag_def tag_defs)
next
  case (repr_block v ts)
  from repr_block(7) show ?case
  proof (cases rule: repr.cases)
    case (repr_block ts')
    then have "ts = ts'" using repr_block.IH repr_block.hyps by (intro nth_equalityI) auto
    then show ?thesis using repr_block by simp
  qed (use repr_block in \<open>auto dest: Is_block_not_long simp: string_block_def structured_tag_def tag_defs\<close>)
next
  case (repr_forward v s)
  note IH = repr_forward.IH and v = repr_forward(1,3)
  from repr_forward(7) show ?case
  proof (cases rule: repr.cases)
    case repr_forward
    then show ?thesis by (intro IH)
  qed (use v in \<open>auto dest: Is_block_not_long simp: string_block_def structured_tag_def tag_defs\<close>)
qed

lemma double_ord_refl: "double_ord True d d = Eq" "doubles_ord True ds ds = Eq"
proof -
  show "double_ord True d d = Eq" for d by (simp add: double_ord_def)
  then show "doubles_ord True ds ds = Eq" by (induction ds) auto
qed

lemma compare_tree_refl: "compare_tree True t t = Eq"
proof (induction t)
  case (TBlock g ts)
  then have "compare_trees True ts ts = Eq" by (induction ts) auto
  then show ?case by simp
qed (simp_all add: double_ord_refl bytes_cmp_lexordp(1))

subsection \<open>One pass of the loop\<close>

text \<open>
  Every pair of non-forwarding values that is not a pair of non-empty blocks of the same tag and size is decided by one
  pass of the loop body.
\<close>

lemma compare_tree_rank: "rank s \<noteq> rank t \<Longrightarrow> compare_tree p s t = sign_ord (rank s - rank t)"
  by (cases s; cases t) (auto simp: tag_defs)

lemma compare_body_total_same: "compare_body alloc env m True stk v v = Next_item"
  by (simp add: compare_body_def)

lemma compare_long_ok:
  assumes r: "repr m v1 t1" "repr m v2 t2" and nf: "\<not> forwarding m v1" "\<not> forwarding m v2"
    and l: "Is_long v1 \<or> Is_long v2" and c: "\<not> (is_total \<and> v1 = v2)"
  shows "outcome_ok (compare_body alloc env m is_total stk v1 v2) (compare_tree is_total t1 t2)"
proof -
  note k1 = repr_kind [OF r(1) nf(1)] and k2 = repr_kind [OF r(2) nf(2)]
  show ?thesis
  proof (cases "rank t1 = rank t2")
    case True
    have "Is_long v1 \<and> Is_long v2" using k1 k2 l True by (auto simp: Is_block_iff_not_long split: if_splits)
    then have "rank t1 < 0" "rank t2 < 0" using k1 k2 by (auto simp: Is_block_iff_not_long split: if_splits)
    then consider "t1 = TNull" "t2 = TNull" | i j where "t1 = TInt i" "t2 = TInt j"
      using True by (cases t1; cases t2) (auto simp: tag_defs)
    then show ?thesis
    proof cases
      case 1
      then have "v1 = 0" "v2 = 0" using k1 k2 by auto
      then show ?thesis using 1 c by (auto simp: compare_body_def compare_long_v1_def Is_long_def)
    next
      case 2
      then have "v1 \<noteq> 0" "v2 \<noteq> 0" "Is_long v1" "Is_long v2" using k1 k2 by auto
      moreover have "i = sint (Long_val v1)" "j = sint (Long_val v2)" "bit v1 0" "bit v2 0"
        using r nf 2 by (auto simp: forwarding_def elim!: repr_TIntE)
      ultimately show ?thesis using 2 c res_ord_Long_val [of v1 v2] Long_val_inject [of v1 v2] sint_eqI [of "Long_val v1" "Long_val v2"]
        by (auto simp: compare_body_def compare_long_v1_def Is_null_def Val_null_def)
    qed
  next
    case False
    then have "v1 \<noteq> v2" using repr_deterministic r by blast
    note cr = compare_tree_rank [OF False, of is_total]
    show ?thesis
    proof (cases "Is_long v1")
      case True
      then have "rank t1 < 0" using k1 by (auto simp: Is_block_iff_not_long split: if_splits)
      moreover have "- 1 < uint (Tag_val m v2)" "- 2 < uint (Tag_val m v2)" "Is_long 0"
        using uint_ge_0 [of "Tag_val m v2"] by (linarith, linarith, simp add: Is_long_def)
      ultimately show ?thesis unfolding cr
        using k1 k2 \<open>v1 \<noteq> v2\<close> True False nf(2)
        by (cases t1; cases t2) (auto simp: compare_body_def compare_long_v1_def Is_null_def Val_null_def
            sign_ord_def tag_defs Is_block_iff_not_long forwarding_def split: if_splits)
    next
      case nl: False
      then have "0 \<le> rank t1" "rank t2 < 0" using k1 k2 l by (auto simp: Is_block_iff_not_long split: if_splits)
      then have "sign_ord (rank t1 - rank t2) = Gt" by (simp add: sign_ord_def)
      then show ?thesis unfolding cr
        using k1 nl l c \<open>0 \<le> rank t1\<close> by (auto simp: compare_body_def compare_long_v2_def)
    qed
  qed
qed

lemma compare_blocks_tags:
  assumes "Tag_val m v1 \<noteq> Tag_val m v2" "Tag_val m v1 \<notin> {Forward_tag, Infix_tag}" "Tag_val m v2 \<notin> {Forward_tag, Infix_tag}"
  shows "compare_blocks alloc env m is_total stk v1 v2 = Return (ucast (Tag_val m v1) - ucast (Tag_val m v2))"
  using assms by (simp add: compare_blocks_def closure_tag_of_def)

lemma repr_tag: "repr m v t \<Longrightarrow> t = TBlock g ts \<Longrightarrow> structured_tag g"
  by (induction rule: repr.induct) auto

lemma same_rank:
  assumes "rank s = rank t" "0 \<le> rank s" "\<And>g ts. s = TBlock g ts \<Longrightarrow> structured_tag g" "\<And>g ts. t = TBlock g ts \<Longrightarrow> structured_tag g"
  shows "(\<exists>a b. s = TStr a \<and> t = TStr b) \<or> (\<exists>a b. s = TDbl a \<and> t = TDbl b) \<or> (\<exists>a b. s = TDbls a \<and> t = TDbls b) \<or>
    (\<exists>a b. s = TObj a \<and> t = TObj b) \<or> (\<exists>g a b. s = TBlock g a \<and> t = TBlock g b \<and> structured_tag g)"
proof -
  have "s \<noteq> TNull" "t \<noteq> TNull" "s \<noteq> TInt i" "t \<noteq> TInt i" for i using assms(1,2) by auto
  then show ?thesis using assms(1,3,4) by (cases s; cases t) (auto simp: structured_tag_def tag_defs word_uint_eq_iff)
qed

lemma compare_block_leaf_ok:
  assumes r: "repr m v1 t1" "repr m v2 t2" and nf: "\<not> forwarding m v1" "\<not> forwarding m v2"
    and b: "Is_block v1" "Is_block v2" and c: "\<not> (is_total \<and> v1 = v2)"
    and leaf: "\<And>g xs ys. t1 = TBlock g xs \<Longrightarrow> t2 = TBlock g ys \<Longrightarrow> length xs \<noteq> length ys \<or> xs = []"
  shows "outcome_ok (compare_body alloc env m is_total stk v1 v2) (compare_tree is_total t1 t2)"
proof -
  have nl: "\<not> Is_long v1" "\<not> Is_long v2" using b by (simp_all add: Is_block_iff_not_long)
  note k1 = repr_kind [OF r(1) nf(1)] and k2 = repr_kind [OF r(2) nf(2)]
  have k: "Reserved_val m v1 = 0" "Reserved_val m v2 = 0" "rank t1 = uint (Tag_val m v1)" "rank t2 = uint (Tag_val m v2)"
    "Tag_val m v1 \<notin> {Forward_tag, Custom_tag, Infix_tag, Abstract_tag, Closure_tag, Cont_tag}"
    "Tag_val m v2 \<notin> {Forward_tag, Custom_tag, Infix_tag, Abstract_tag, Closure_tag, Cont_tag}"
    using k1 k2 nl by (auto split: if_splits)
  have body: "compare_body alloc env m is_total stk v1 v2 = compare_blocks alloc env m is_total stk v1 v2"
    using c nl by (auto simp: compare_body_def)
  show ?thesis
  proof (cases "Tag_val m v1 = Tag_val m v2")
    case False
    then have "rank t1 \<noteq> rank t2" using k(3,4) by (simp add: word_uint_eq_iff)
    from compare_tree_rank [OF this] this show ?thesis unfolding body
      using compare_blocks_tags [OF False] k False res_ord_tags [of m v1 v2] by simp
  next
    case True
    then have eq: "rank t1 = rank t2" "0 \<le> rank t1" using k(3,4) by simp_all
    have res: "\<not> Is_mixed_block_reserved (Reserved_val m v1)" "\<not> Is_mixed_block_reserved (Reserved_val m v2)"
      using k by (simp_all add: Is_mixed_block_reserved_def)
    have cb: "compare_blocks alloc env m is_total stk v1 v2 =
      (if Tag_val m v2 = String_tag then compare_strings m v1 v2
       else if Tag_val m v2 = Double_tag then compare_doubles is_total (load64 m v1) (load64 m v2)
       else if Tag_val m v2 = Double_array_tag then compare_double_arrays m is_total v1 v2
       else if Tag_val m v2 = Object_tag then
         if Oid_val m v1 \<noteq> Oid_val m v2 then Return (Oid_val m v1 - Oid_val m v2) else Next_item
       else compare_fields alloc m stk v1 v2)"
      using k(6) res by (simp add: compare_blocks_def True)
    have w: "unat (Wosize_val m v1) < 2 ^ 62" "unat (Wosize_val m v2) < 2 ^ 62"
      using Wosize_val_less [of m v1] Wosize_val_less [of m v2] by auto
    have sz: "res_ord (Wosize_val m v1 - Wosize_val m v2) = sign_ord (int (unat (Wosize_val m v1)) - int (unat (Wosize_val m v2)))"
      using res_ord_diff_unat [OF w] by simp
    have ui: "uint (Wosize_val m v1) = uint (Wosize_val m v2) \<longleftrightarrow> Wosize_val m v1 = Wosize_val m v2"
      "unat (Wosize_val m v1) = unat (Wosize_val m v2) \<longleftrightarrow> Wosize_val m v1 = Wosize_val m v2"
      by (simp add: word_uint_eq_iff, simp add: word_unat_eq_iff)
    consider (str) a b where "t1 = TStr a" "t2 = TStr b" | (dbl) a b where "t1 = TDbl a" "t2 = TDbl b"
      | (dbls) a b where "t1 = TDbls a" "t2 = TDbls b" | (obj) a b where "t1 = TObj a" "t2 = TObj b"
      | (block) g a b where "t1 = TBlock g a" "t2 = TBlock g b" "structured_tag g"
      using same_rank [OF eq] repr_tag [OF r(1)] repr_tag [OF r(2)] by blast
    then show ?thesis 
    proof cases
      case str
      then have "string_block m v1 a" "string_block m v2 b" "Tag_val m v2 = String_tag"
        using r nf by (auto simp: forwarding_def string_block_def elim!: repr_TStrE)
      from compare_strings_ok [OF this(1,2)] str this(3) show ?thesis by (simp add: body cb)
    next
      case dbl
      then have "a = load64 m v1" "b = load64 m v2" "Tag_val m v2 = Double_tag"
        using r nf by (auto simp: forwarding_def elim!: repr_TDblE)
      with dbl compare_doubles_ok show ?thesis by (simp add: body cb tag_defs)
    next
      case dbls
      then have a: "a = map (\<lambda>i. load64 m (v1 + 8 * of_nat i)) [0..<unat (Wosize_val m v1)]"
        "b = map (\<lambda>i. load64 m (v2 + 8 * of_nat i)) [0..<unat (Wosize_val m v2)]" "Tag_val m v2 = Double_array_tag"
        using r nf by (auto simp: forwarding_def elim!: repr_TDblsE)
      then have "compare_body alloc env m is_total stk v1 v2 = compare_double_arrays m is_total v1 v2"
        by (simp add: body cb tag_defs)
      with dbls a(1,2) sz compare_double_fields_ok [of "unat (Wosize_val m v1)" m is_total v1 v2 0] show ?thesis
        by (auto simp: compare_double_arrays_def ui)
    next
      case obj
      then have "a = sint (Oid_val m v1)" "b = sint (Oid_val m v2)" "Tag_val m v2 = Object_tag"
        using r nf by (auto simp: forwarding_def elim!: repr_TObjE)
      with obj res_ord_Long_val show ?thesis by (auto simp: body cb tag_defs Oid_val_def dest: sint_eqI)
    next
      case block
      then have "length a = unat (Wosize_val m v1)" "length b = unat (Wosize_val m v2)" "Tag_val m v2 = g"
        using r nf by (auto simp: forwarding_def elim!: repr_TBlockE)
      then show ?thesis using block leaf [OF block(1,2)] sz
        by (auto simp: body cb structured_tag_def compare_fields_def Let_def ui unat_eq_0)
    qed
  qed
qed

subsection \<open>The loop refines the order on trees\<close>

text \<open>
  Resuming at the label \<open>next_item\<close>; what the loop does with a pair of values is either to resume with
  the same pending items (equal), to return a decided result, or to run out of stack. The latter
  only happens when an allocation fails or more than \<open>2 ^ 19\<close> items are pending.
\<close>

definition resume :: "(nat \<Rightarrow> bool) \<Rightarrow> custom_env \<Rightarrow> mem \<Rightarrow> bool \<Rightarrow> compare_stack \<Rightarrow> u64 res option" where
  "resume alloc env m is_total stk =
     (case next_item m stk of
        None \<Rightarrow> Some (Inr EQUAL)
      | Some (stk, v1, v2) \<Rightarrow> do_compare_val alloc env m is_total stk v1 v2)"

definition stack_ok :: "compare_stack \<Rightarrow> bool" where
  "stack_ok stk \<longleftrightarrow> (if cs_init stk then cs_limit stk = 8 else \<exists>k. 5 \<le> k \<and> k \<le> 19 \<and> cs_limit stk = 2 ^ k)"

definition room :: "(nat \<Rightarrow> bool) \<Rightarrow> compare_stack \<Rightarrow> tree \<Rightarrow> bool" where
  "room alloc stk t \<longleftrightarrow> (\<forall>n. alloc n) \<and> stack_ok stk \<and> length (cs_items stk) + depth t \<le> 2 ^ 19"

definition same_items :: "compare_stack \<Rightarrow> compare_stack \<Rightarrow> bool" where
  "same_items stk stk' \<longleftrightarrow> cs_items stk' = cs_items stk \<and> (stack_ok stk \<longrightarrow> stack_ok stk')"

definition decides ::
  "(nat \<Rightarrow> bool) \<Rightarrow> custom_env \<Rightarrow> mem \<Rightarrow> bool \<Rightarrow> compare_stack \<Rightarrow> tree \<Rightarrow> u64 res option \<Rightarrow> cmp_ord \<Rightarrow> bool" where
  "decides alloc env m is_total stk t X c \<longleftrightarrow>
     X = Some (Inl Out_of_memory) \<and> \<not> room alloc stk t \<or>
     (if c = Eq then \<exists>stk'. same_items stk stk' \<and> X = resume alloc env m is_total stk'
      else \<exists>r. res_ord r = c \<and> X = Some (Inr r))"

lemma same_items_refl [simp]: "same_items stk stk"
  by (simp add: same_items_def)

lemma decides_leaf:
  assumes "outcome_ok (compare_body alloc env m is_total stk v1 v2) c"
  shows "decides alloc env m is_total stk t (do_compare_val alloc env m is_total stk v1 v2) c"
proof (cases "compare_body alloc env m is_total stk v1 v2")
  case (Return r)
  then show ?thesis using assms by (auto simp: decides_def do_compare_val.simps [of _ _ _ _ stk v1 v2])
next
  case Next_item
  then have "do_compare_val alloc env m is_total stk v1 v2 = resume alloc env m is_total stk"
    by (simp add: do_compare_val.simps [of _ _ _ _ stk v1 v2] resume_def)
  then show ?thesis using assms Next_item by (auto simp: decides_def intro!: exI [of _ stk])
qed (use assms in auto)

lemma do_compare_val_continue:
  "compare_body alloc env m is_total stk v1 v2 = Continue stk' w1 w2 \<Longrightarrow>
    do_compare_val alloc env m is_total stk v1 v2 = do_compare_val alloc env m is_total stk' w1 w2"
  by (simp add: do_compare_val.simps [of _ _ _ _ stk v1 v2])

lemma depth_child: "i < length ts \<Longrightarrow> depth (ts ! i) < depth (TBlock g ts)"
proof -
  have "x \<in> set ts \<Longrightarrow> depth x \<le> foldr max (map depth ts) 0" for x
    by (induction ts) auto
  then show "i < length ts \<Longrightarrow> depth (ts ! i) < depth (TBlock g ts)" by (simp add: le_imp_less_Suc)
qed

lemma resize_ok:
  assumes "compare_resize_stack alloc stk = Inr stk'"
  shows "same_items stk stk'"
proof -
  have "5 \<le> k \<Longrightarrow> 2 * 2 ^ k < COMPARE_STACK_MAX_SIZE \<Longrightarrow> \<exists>j. 5 \<le> j \<and> j \<le> 19 \<and> 2 * 2 ^ k = (2 :: nat) ^ j" for k
    using power_strict_increasing_iff [of "2 :: nat" "Suc k" 20]
    by (intro exI [of _ "Suc k"]) (simp add: COMPARE_STACK_MAX_SIZE_def)
  moreover have "\<exists>j. 5 \<le> j \<and> j \<le> 19 \<and> (32 :: nat) = 2 ^ j" by (rule exI [of _ 5]) simp
  ultimately show ?thesis using assms
    by (auto simp: same_items_def stack_ok_def compare_resize_stack_def COMPARE_STACK_MIN_ALLOC_SIZE_def Let_def split: if_splits)
qed

lemma resize_fails:
  assumes "compare_resize_stack alloc stk = Inl e" "cs_limit stk \<le> length (cs_items stk)" "0 < depth t"
  shows "e = Out_of_memory \<and> \<not> room alloc stk t"
proof
  show "e = Out_of_memory" using assms(1) by (auto simp: compare_resize_stack_def Let_def split: if_splits)
  show "\<not> room alloc stk t"
  proof
    assume r: "room alloc stk t"
    then have "\<not> cs_init stk" "2 ^ 20 \<le> 2 * cs_limit stk"
      using assms(1) by (auto simp: room_def compare_resize_stack_def COMPARE_STACK_MAX_SIZE_def Let_def split: if_splits)
    then show False using r assms(2,3) by (simp add: room_def)
  qed
qed

text \<open>The fields of two blocks from index \<open>k\<close> on, when the topmost pending item is the one of these blocks.\<close>

definition pending :: "val \<Rightarrow> val \<Rightarrow> nat \<Rightarrow> nat \<Rightarrow> compare_item" where
  "pending v1 v2 k n = \<lparr>ci_v1 = v1, ci_v2 = v2, ci_offset = Val_long (of_nat k), ci_size = Val_long (of_nat n)\<rparr>"

lemma next_item_pending:
  assumes "cs_items stk = pending v1 v2 k n # items" "k < n" "n < 2 ^ 46"
  shows "next_item m stk = Some (stk\<lparr>cs_items := if Suc k = n then items else pending v1 v2 (Suc k) n # items\<rparr>,
    Field m v1 (of_nat k), Field m v2 (of_nat k))"
proof -
  have L: "Long_val (Val_long (of_nat j)) = of_nat j" if "j < 2 ^ 46" for j
  proof -
    have "unat (of_nat j :: u64) = j" using that by (simp add: unat_of_nat)
    then have "sint (of_nat j :: u64) = int j" using that sint_unat_small [of "of_nat j"] by (simp add: uint_nat)
    then show ?thesis using that by (intro Long_val_Val_long_range) (auto simp: Min_long_def Max_long_def)
  qed
  have V: "Val_long (of_nat k) + 2 = Val_long (of_nat (Suc k))" by (simp add: Val_long_of_int push_bit_eq_mult Val_long_def)
  have "Val_long (of_nat (Suc k)) = Val_long (of_nat n) \<longleftrightarrow> Suc k = n"
  proof
    assume "Val_long (of_nat (Suc k)) = Val_long (of_nat n)"
    then have "Long_val (Val_long (of_nat (Suc k))) = Long_val (Val_long (of_nat n))" by (rule arg_cong)
    moreover have "Suc k < 2 ^ 46" using assms(2,3) by linarith
    ultimately have "(of_nat (Suc k) :: u64) = of_nat n" using L [of "Suc k"] L [of n] assms(3) by metis
    moreover have "Suc k < 2 ^ 64" "n < 2 ^ 64" using assms(2,3) by simp_all
    ultimately show "Suc k = n" using of_nat_u64_eq_iff by blast
  qed simp
  then show ?thesis using assms(1) L [of k] assms(2,3) V
    by (simp add: next_item_def pending_def Let_def)
qed

lemma decides_fields:
  assumes IH: "\<And>i v2 t2 stk. i < length ts1 \<Longrightarrow> repr m v2 t2 \<Longrightarrow>
      decides alloc env m p stk (ts1 ! i) (do_compare_val alloc env m p stk (Field m v1 (of_nat i)) v2) (compare_tree p (ts1 ! i) t2)"
    and r2: "\<And>i. i < length ts2 \<Longrightarrow> repr m (Field m v2 (of_nat i)) (ts2 ! i)"
    and len: "length ts2 = length ts1" "length ts1 < 2 ^ 46"
    and k: "k < length ts1"
    and stk: "cs_items stk = pending v1 v2 k (length ts1) # cs_items stk0" "stack_ok stk0 \<longrightarrow> stack_ok stk"
  shows "decides alloc env m p stk0 (TBlock g ts1) (resume alloc env m p stk) (compare_trees p (drop k ts1) (drop k ts2))"
  using k stk
proof (induction "length ts1 - k" arbitrary: k stk)
  case (Suc d)
  let ?n = "length ts1"
  let ?stk = "stk\<lparr>cs_items := if Suc k = ?n then cs_items stk0 else pending v1 v2 (Suc k) ?n # cs_items stk0\<rparr>"
  let ?a = "Field m v1 (of_nat k)" and ?b = "Field m v2 (of_nat k)"
  have X: "resume alloc env m p stk = do_compare_val alloc env m p ?stk ?a ?b"
    using next_item_pending [OF Suc.prems(2,1) len(2)] by (simp add: resume_def)
  have d: "drop k ts1 = ts1 ! k # drop (Suc k) ts1" "drop k ts2 = ts2 ! k # drop (Suc k) ts2"
    using Suc.prems(1) len by (simp_all add: Cons_nth_drop_Suc)
  have so: "stack_ok stk0 \<longrightarrow> stack_ok ?stk" using Suc.prems(3) by (simp add: stack_ok_def)
  have nr: "\<not> room alloc stk0 (TBlock g ts1)" if "\<not> room alloc ?stk (ts1 ! k)"
    using that so depth_child [OF Suc.prems(1), of g] by (auto simp: room_def split: if_splits)
  have "decides alloc env m p ?stk (ts1 ! k) (do_compare_val alloc env m p ?stk ?a ?b) (compare_tree p (ts1 ! k) (ts2 ! k))"
    using IH Suc.prems(1) r2 len(1) by simp
  then consider (oom) "resume alloc env m p stk = Some (Inl Out_of_memory)" "\<not> room alloc ?stk (ts1 ! k)"
    | (eq) stk' where "compare_tree p (ts1 ! k) (ts2 ! k) = Eq" "same_items ?stk stk'"
        "resume alloc env m p stk = resume alloc env m p stk'"
    | (ne) r where "compare_tree p (ts1 ! k) (ts2 ! k) \<noteq> Eq" "res_ord r = compare_tree p (ts1 ! k) (ts2 ! k)"
        "resume alloc env m p stk = Some (Inr r)"
    unfolding decides_def X [symmetric] by (cases "compare_tree p (ts1 ! k) (ts2 ! k) = Eq") (simp_all, blast+)
  then show ?case
  proof cases
    case oom
    then show ?thesis using nr by (simp add: decides_def)
  next
    case ne
    then show ?thesis unfolding d by (auto simp: decides_def split: cmp_ord.splits)
  next
    case eq
    show ?thesis
    proof (cases "Suc k = ?n")
      case True
      then have "compare_trees p (drop k ts1) (drop k ts2) = Eq" using eq(1) len unfolding d by simp
      moreover have "same_items stk0 stk'" using eq(2) so True by (simp add: same_items_def)
      ultimately show ?thesis using eq(3) by (auto simp: decides_def)
    next
      case False
      have "decides alloc env m p stk0 (TBlock g ts1) (resume alloc env m p stk') (compare_trees p (drop (Suc k) ts1) (drop (Suc k) ts2))"
      proof (rule Suc.hyps(1))
        show "d = length ts1 - Suc k" "Suc k < length ts1" using Suc.hyps(2) False Suc.prems(1) by auto
        show "cs_items stk' = pending v1 v2 (Suc k) ?n # cs_items stk0" "stack_ok stk0 \<longrightarrow> stack_ok stk'"
          using eq(2) False so by (simp_all add: same_items_def)
      qed
      then show ?thesis using eq(1,3) unfolding d by simp
    qed
  qed
qed simp

text \<open>The same for two whole blocks of the same tag and size, whose first fields are compared at once.\<close>

lemma rank_not_null: "t \<noteq> TNull \<Longrightarrow> - 2 < rank t"
proof (cases t)
  case (TBlock g ts)
  then show ?thesis using uint_ge_0 [of g] by (simp only: rank.simps)
qed (simp_all add: tag_defs)

lemma decides_blocks:
  assumes IH: "\<And>i v2 t2 stk. i < length ts1 \<Longrightarrow> repr m v2 t2 \<Longrightarrow>
      decides alloc env m p stk (ts1 ! i) (do_compare_val alloc env m p stk (Field m v1 (of_nat i)) v2) (compare_tree p (ts1 ! i) t2)"
    and r2: "\<And>i. i < length ts2 \<Longrightarrow> repr m (Field m v2 (of_nat i)) (ts2 ! i)"
    and len: "length ts2 = length ts1" "0 < length ts1" "length ts1 = unat (Wosize_val m v1)" "Wosize_val m v2 = Wosize_val m v1"
    and body: "compare_body alloc env m p stk v1 v2 = compare_fields alloc m stk v1 v2"
  shows "decides alloc env m p stk (TBlock g ts1) (do_compare_val alloc env m p stk v1 v2) (compare_trees p ts1 ts2)"
proof -
  let ?n = "length ts1" and ?a = "Field m v1 0" and ?b = "Field m v2 0"
  have w: "Wosize_val m v1 = of_nat ?n" using len(3) by simp
  have n: "?n < 2 ^ 46" using Wosize_val_less [of m v1] len(3) by simp
  have d: "ts1 = ts1 ! 0 # drop (Suc 0) ts1" "ts2 = ts2 ! 0 # drop (Suc 0) ts2"
    using len(1,2) Cons_nth_drop_Suc [of 0 ts1] Cons_nth_drop_Suc [of 0 ts2] by simp_all
  have c: "compare_trees p ts1 ts2 =
    (case compare_tree p (ts1 ! 0) (ts2 ! 0) of Eq \<Rightarrow> compare_trees p (drop (Suc 0) ts1) (drop (Suc 0) ts2) | r \<Rightarrow> r)"
    by (subst d(1), subst d(2)) simp
  have first: "decides alloc env m p stk' (ts1 ! 0) (do_compare_val alloc env m p stk' ?a ?b) (compare_tree p (ts1 ! 0) (ts2 ! 0))" for stk'
    using IH [of 0 ?b "ts2 ! 0" stk'] r2 [of 0] len(1,2) by simp
  show ?thesis
  proof (cases "?n = 1")
    case True
    then have "Wosize_val m v1 = 1" using w by simp
    then have "compare_body alloc env m p stk v1 v2 = Continue stk ?a ?b"
      unfolding body compare_fields_def len(4) by simp
    then have X: "do_compare_val alloc env m p stk v1 v2 = do_compare_val alloc env m p stk ?a ?b"
      by (rule do_compare_val_continue)
    have "length ts2 = 1" using True len(1) by simp
    then have "compare_trees p ts1 ts2 = compare_tree p (ts1 ! 0) (ts2 ! 0)"
      unfolding c using True by (simp split: cmp_ord.splits)
    moreover have "\<not> room alloc stk (TBlock g ts1)" if "\<not> room alloc stk (ts1 ! 0)"
      using that depth_child [of 0 ts1 g] len(2) by (auto simp: room_def)
    ultimately show ?thesis using first [of stk] unfolding X by (auto simp: decides_def)
  next
    case False
    then have "1 < ?n" using len(2) by linarith
    then have w1: "Wosize_val m v1 > 1" "Wosize_val m v1 \<noteq> 0"
      using n len(2) unfolding w by (simp_all add: word_less_nat_alt unat_of_nat word_unat_eq_iff)
    show ?thesis
    proof (cases "if cs_limit stk \<le> length (cs_items stk) then compare_resize_stack alloc stk else Inr stk")
      case (Inl e)
      then have e: "compare_resize_stack alloc stk = Inl e" "cs_limit stk \<le> length (cs_items stk)" by (auto split: if_splits)
      have "compare_body alloc env m p stk v1 v2 = Raise e" unfolding body compare_fields_def len(4) using w1 Inl by simp
      then show ?thesis using resize_fails [OF e, of "TBlock g ts1"]
        by (simp add: decides_def do_compare_val.simps [of _ _ _ _ stk v1 v2])
    next
      case (Inr stk1)
      then have si: "same_items stk stk1" by (auto split: if_splits intro: resize_ok)
      let ?stk = "stk1\<lparr>cs_items := pending v1 v2 1 ?n # cs_items stk1\<rparr>"
      have "compare_body alloc env m p stk v1 v2 = Continue ?stk ?a ?b"
        unfolding body compare_fields_def len(4) pending_def w [symmetric] using w1 Inr by simp
      then have X: "do_compare_val alloc env m p stk v1 v2 = do_compare_val alloc env m p ?stk ?a ?b"
        by (rule do_compare_val_continue)
      have so: "stack_ok stk \<longrightarrow> stack_ok ?stk" using si by (simp add: same_items_def stack_ok_def)
      have nr: "\<not> room alloc stk (TBlock g ts1)" if "\<not> room alloc ?stk (ts1 ! 0)"
        using that so si depth_child [of 0 ts1 g] len(2) by (auto simp: room_def same_items_def)
      from first [of ?stk] consider
        (oom) "do_compare_val alloc env m p ?stk ?a ?b = Some (Inl Out_of_memory)" "\<not> room alloc ?stk (ts1 ! 0)"
        | (eq) stk' where "compare_tree p (ts1 ! 0) (ts2 ! 0) = Eq" "same_items ?stk stk'"
            "do_compare_val alloc env m p ?stk ?a ?b = resume alloc env m p stk'"
        | (ne) r where "compare_tree p (ts1 ! 0) (ts2 ! 0) \<noteq> Eq" "res_ord r = compare_tree p (ts1 ! 0) (ts2 ! 0)"
            "do_compare_val alloc env m p ?stk ?a ?b = Some (Inr r)"
        unfolding decides_def by (cases "compare_tree p (ts1 ! 0) (ts2 ! 0) = Eq") (simp_all, blast+)
      then show ?thesis
      proof cases
        case oom
        then show ?thesis using nr unfolding X by (simp add: decides_def)
      next
        case ne
        then show ?thesis unfolding X c by (auto simp: decides_def split: cmp_ord.splits)
      next
        case eq
        have "decides alloc env m p stk (TBlock g ts1) (resume alloc env m p stk') (compare_trees p (drop (Suc 0) ts1) (drop (Suc 0) ts2))"
        proof (rule decides_fields [OF IH r2 len(1) n])
          show "Suc 0 < ?n" using \<open>1 < ?n\<close> by simp
          show "cs_items stk' = pending v1 v2 (Suc 0) ?n # cs_items stk" "stack_ok stk \<longrightarrow> stack_ok stk'"
            using eq(2) si so by (simp_all add: same_items_def)
        qed
        then show ?thesis unfolding X c eq(3) using eq(1) by simp
      qed
    qed
  qed
qed

lemma not_forwarding:
  "\<not> forwarding m 0" "bit v 0 \<Longrightarrow> \<not> forwarding m v" "string_block m v bs \<Longrightarrow> \<not> forwarding m v"
  "Tag_val m v = Double_tag \<Longrightarrow> \<not> forwarding m v" "Tag_val m v = Double_array_tag \<Longrightarrow> \<not> forwarding m v"
  "Tag_val m v = Object_tag \<Longrightarrow> \<not> forwarding m v" "structured_tag (Tag_val m v) \<Longrightarrow> \<not> forwarding m v"
  by (auto simp: forwarding_def structured_tag_def tag_defs string_block_def dest: Is_block_not_long)

lemma decides_forward_v2:
  assumes nf: "\<not> forwarding m v1"
    and direct: "\<And>v2 t2. repr m v2 t2 \<Longrightarrow> \<not> forwarding m v2 \<Longrightarrow>
      decides alloc env m p stk t1 (do_compare_val alloc env m p stk v1 v2) (compare_tree p t1 t2)"
    and r1: "repr m v1 t1"
  shows "repr m v2 t2 \<Longrightarrow> decides alloc env m p stk t1 (do_compare_val alloc env m p stk v1 v2) (compare_tree p t1 t2)"
proof (induction rule: repr.induct)
  case (repr_forward v2 t2)
  have ne: "v1 \<noteq> v2" using nf repr_forward(1,3) by (auto simp: forwarding_def)
  have b: "\<not> Is_long v2" "v2 \<noteq> 0" using Is_block_not_long [OF repr_forward(1)] by auto
  show ?case
  proof (cases "v1 = 0")
    case True
    then have "t1 = TNull" using r1 repr_deterministic repr_null by blast
    then have "compare_tree p t1 t2 = Lt"
      using rank_not_null [OF \<open>t2 \<noteq> TNull\<close>] compare_tree_rank [of t1 t2 p] by (simp add: sign_ord_def)
    moreover have "compare_body alloc env m p stk v1 v2 = Return LESS"
      using True ne by (simp add: compare_body_def compare_long_v1_def Is_long_def Is_null_def Val_null_def)
    ultimately show ?thesis by (intro decides_leaf) simp
  next
    case False
    have "compare_body alloc env m p stk v1 v2 = Continue stk v1 (Forward_val m v2)"
    proof (cases "Is_long v1")
      case True
      then show ?thesis using False ne b repr_forward(3)
        by (simp add: compare_body_def compare_long_v1_def Is_null_def Val_null_def)
    next
      case nl: False
      then have "Tag_val m v1 \<noteq> Forward_tag" using nf by (simp add: forwarding_def Is_block_iff_not_long)
      then show ?thesis using nl ne b repr_forward(3) by (simp add: compare_body_def compare_blocks_def)
    qed
    from do_compare_val_continue [OF this] repr_forward.IH show ?thesis by simp
  qed
qed (rule direct; (rule repr.intros; assumption | rule not_forwarding; assumption))+

lemma decides_same:
  "repr m v t1 \<Longrightarrow> repr m v t2 \<Longrightarrow> decides alloc env m True stk t (do_compare_val alloc env m True stk v v) (compare_tree True t1 t2)"
  using repr_deterministic [of m v t1 t2] compare_tree_refl
  by (intro decides_leaf) (simp add: compare_body_total_same)

text \<open>Pairs that one pass decides, and pairs of blocks.\<close>

lemma decides_direct:
  assumes r: "repr m v1 t1" "repr m v2 t2" and nf: "\<not> forwarding m v1" "\<not> forwarding m v2"
    and blocks: "\<And>g ts1 ts2. t1 = TBlock g ts1 \<Longrightarrow> t2 = TBlock g ts2 \<Longrightarrow> length ts1 = length ts2 \<Longrightarrow> ts1 \<noteq> [] \<Longrightarrow>
      \<not> (p \<and> v1 = v2) \<Longrightarrow> \<not> Is_long v1 \<Longrightarrow> \<not> Is_long v2 \<Longrightarrow>
      decides alloc env m p stk t1 (do_compare_val alloc env m p stk v1 v2) (compare_tree p t1 t2)"
  shows "decides alloc env m p stk t1 (do_compare_val alloc env m p stk v1 v2) (compare_tree p t1 t2)"
proof (cases "p \<and> v1 = v2")
  case True
  then show ?thesis using decides_same r by simp
next
  case ne: False
  show ?thesis
  proof (cases "Is_long v1 \<or> Is_long v2")
    case True
    show ?thesis by (rule decides_leaf, rule compare_long_ok [OF r nf True ne])
  next
    case False
    then have b: "Is_block v1" "Is_block v2" by (simp_all add: Is_block_iff_not_long)
    show ?thesis
    proof (cases "\<exists>g ts1 ts2. t1 = TBlock g ts1 \<and> t2 = TBlock g ts2 \<and> length ts1 = length ts2 \<and> ts1 \<noteq> []")
      case True
      then show ?thesis using blocks ne False by blast
    next
      case leaf: False
      show ?thesis by (rule decides_leaf, rule compare_block_leaf_ok [OF r nf b ne]) (use leaf in blast)
    qed
  qed
qed

lemma decides_nonblock:
  assumes "repr m v1 t1" "\<not> forwarding m v1" "\<And>g ts. t1 \<noteq> TBlock g ts" "repr m v2 t2"
  shows "decides alloc env m p stk t1 (do_compare_val alloc env m p stk v1 v2) (compare_tree p t1 t2)"
  by (rule decides_forward_v2 [OF assms(2) _ assms(1,4)], rule decides_direct [OF assms(1)]) (use assms in auto)

text \<open>The loop decides any two values that denote trees.\<close>

lemma decides_repr:
  "repr m v1 t1 \<Longrightarrow> repr m v2 t2 \<Longrightarrow>
    decides alloc env m p stk t1 (do_compare_val alloc env m p stk v1 v2) (compare_tree p t1 t2)"
proof (induction arbitrary: v2 t2 stk rule: repr.induct)
  case (repr_forward v t)
  note v = repr_forward(1-3) and b = Is_block_not_long [OF repr_forward(1)]
  show ?case
  proof (cases "p \<and> v = v2")
    case True
    then show ?thesis using repr.repr_forward [OF v repr_forward.hyps(4,5)] repr_forward.prems decides_same by simp
  next
    case ne: False
    show ?thesis
    proof (cases "forwarding m v2")
      case True
      then have fv: "repr m (Forward_val m v2) t2" "Reserved_val m v2 = 0" "\<not> Is_long v2"
        using repr_forward.prems Is_block_not_long [of v2]
        by (auto elim!: repr.cases simp: forwarding_def tag_defs structured_tag_def string_block_def)
      then have "compare_body alloc env m p stk v v2 = Continue stk (Forward_val m v) (Forward_val m v2)"
        using ne v b True
        by (auto simp: compare_body_def compare_blocks_def forwarding_def Is_mixed_block_reserved_def)
      from do_compare_val_continue [OF this] repr_forward.IH [OF fv(1)] show ?thesis by simp
    next
      case False
      then have "compare_body alloc env m p stk v v2 = Continue stk (Forward_val m v) v2"
        using ne v b by (auto simp: compare_body_def compare_blocks_def compare_long_v2_def forwarding_def Is_block_iff_not_long)
      from do_compare_val_continue [OF this] repr_forward.IH [OF repr_forward.prems] show ?thesis by simp
    qed
  qed
next
  case (repr_block v ts)
  note v = repr_block(1-4)
  have r1: "repr m v (TBlock (Tag_val m v) ts)" using repr_block(1-5) by (rule repr.repr_block)
  have nf: "\<not> forwarding m v" using v by (auto simp: forwarding_def structured_tag_def)
  have direct: "decides alloc env m p stk (TBlock (Tag_val m v) ts) (do_compare_val alloc env m p stk v v2) (compare_tree p (TBlock (Tag_val m v) ts) t2)"
    if r2: "repr m v2 t2" and nf2: "\<not> forwarding m v2" for v2 t2
  proof (rule decides_direct [OF r1 r2 nf nf2])
    fix g ts1 ts2
    assume eq: "TBlock (Tag_val m v) ts = TBlock g ts1" "t2 = TBlock g ts2" "length ts1 = length ts2" "ts1 \<noteq> []"
      and ne: "\<not> (p \<and> v = v2)" "\<not> Is_long v" "\<not> Is_long v2"
    have b2: "Reserved_val m v2 = 0" "Tag_val m v2 = Tag_val m v" "length ts2 = unat (Wosize_val m v2)"
      and f2: "\<And>i. i < length ts2 \<Longrightarrow> repr m (Field m v2 (of_nat i)) (ts2 ! i)"
      using r2 nf2 eq by (auto elim!: repr_TBlockE simp: forwarding_def)
    have body: "compare_body alloc env m p stk v v2 = compare_fields alloc m stk v v2"
      using ne b2 v by (auto simp: compare_body_def compare_blocks_def structured_tag_def Is_mixed_block_reserved_def)
    have "Wosize_val m v2 = Wosize_val m v" using eq b2(3) v(4) by (simp add: word_unat_eq_iff)
    moreover have e: "length ts2 = length ts" "0 < length ts" "compare_tree p (TBlock (Tag_val m v) ts) t2 = compare_trees p ts ts2"
      using eq by auto
    ultimately show "decides alloc env m p stk (TBlock (Tag_val m v) ts) (do_compare_val alloc env m p stk v v2) (compare_tree p (TBlock (Tag_val m v) ts) t2)"
      unfolding e(3) by (intro decides_blocks [OF repr_block.IH f2 e(1,2) v(4) _ body])
  qed
  show ?case by (rule decides_forward_v2 [OF nf direct r1 repr_block.prems])
qed (rule decides_nonblock; (rule repr.intros; assumption | rule not_forwarding; assumption | assumption | simp))+

subsection \<open>The order on trees\<close>

fun flip_ord :: "cmp_ord \<Rightarrow> cmp_ord" where
  "flip_ord Lt = Gt"
| "flip_ord Gt = Lt"
| "flip_ord c = c"

lemma sign_ord_flip: "flip_ord (sign_ord d) = sign_ord (- d)"
  by (simp add: sign_ord_def)

lemma sign_ord_minus: "sign_ord (- numeral k - x) = sign_ord (- x - numeral k)" "sign_ord (- 1 - x) = sign_ord (- x - 1)"
  by (simp_all add: sign_ord_def)

lemma bytes_cmp_flip: "bytes_cmp b a = - bytes_cmp a b"
  by (induction a b rule: bytes_cmp.induct) auto

lemma double_ord_flip: "double_ord p b a = flip_ord (double_ord p a b)"
  by (auto simp: double_ord_def sign_ord_flip)

lemma doubles_ord_flip: "doubles_ord p bs as = flip_ord (doubles_ord p as bs)"
proof (induction p as bs rule: doubles_ord.induct)
  case (1 p a as b bs)
  then show ?case by (cases "double_ord p a b") (simp_all add: double_ord_flip [of p b a])
qed simp_all

lemma compare_trees_flip:
  "(\<And>a b. a \<in> set as \<Longrightarrow> compare_tree p b a = flip_ord (compare_tree p a b)) \<Longrightarrow>
    compare_trees p bs as = flip_ord (compare_trees p as bs)"
proof (induction as arbitrary: bs)
  case (Cons a as)
  show ?case
  proof (cases bs)
    case (Cons b bs')
    have "compare_tree p b a = flip_ord (compare_tree p a b)" using Cons.prems by simp
    then show ?thesis using Cons Cons.IH [of bs'] Cons.prems by (cases "compare_tree p a b") simp_all
  qed simp
qed (cases bs, simp_all)

lemma compare_tree_flip: "compare_tree p t s = flip_ord (compare_tree p s t)"
proof (induction s arbitrary: t)
  case (TBlock g as)
  then show ?case by (cases t) (auto simp: sign_ord_flip sign_ord_minus intro: compare_trees_flip)
qed (case_tac [!] t, simp_all add: sign_ord_flip sign_ord_minus add.commute flip: bytes_cmp_flip double_ord_flip doubles_ord_flip)

text \<open>Composition of two results that do not contradict each other.\<close>

definition compatible :: "cmp_ord \<Rightarrow> cmp_ord \<Rightarrow> bool" where
  "compatible c d \<longleftrightarrow> c \<noteq> Unord \<and> d \<noteq> Unord \<and> c \<noteq> flip_ord d \<or> c = Eq \<and> d = Eq"

definition join_ord :: "cmp_ord \<Rightarrow> cmp_ord \<Rightarrow> cmp_ord" where
  "join_ord c d = (if c = Eq then d else c)"

lemma sign_ord_trans: "compatible (sign_ord (a - b)) (sign_ord (b - c)) \<Longrightarrow> sign_ord (a - c) = join_ord (sign_ord (a - b)) (sign_ord (b - c))"
  by (auto simp: compatible_def join_ord_def sign_ord_def split: if_splits)

text \<open>Lexicographic combination preserves transitivity.\<close>

lemma join_ord_lex:
  assumes "compatible x y \<Longrightarrow> z = join_ord x y" "x = Eq \<Longrightarrow> y = Eq \<Longrightarrow> compatible x' y' \<Longrightarrow> z' = join_ord x' y'"
    "compatible (join_ord x x') (join_ord y y')"
  shows "join_ord z z' = join_ord (join_ord x x') (join_ord y y')"
  using assms by (cases x; cases y; cases x'; cases y') (simp_all add: compatible_def join_ord_def)

lemma bytes_cmp_Cons: "sign_ord (bytes_cmp (x # xs) (y # ys)) = join_ord (sign_ord (uint x - uint y)) (sign_ord (bytes_cmp xs ys))"
  by (simp add: sign_ord_def join_ord_def word_less_def word_uint_eq_iff)

lemma bytes_cmp_trans:
  "compatible (sign_ord (bytes_cmp a b)) (sign_ord (bytes_cmp b c)) \<Longrightarrow>
    sign_ord (bytes_cmp a c) = join_ord (sign_ord (bytes_cmp a b)) (sign_ord (bytes_cmp b c))"
proof (induction a b arbitrary: c rule: bytes_cmp.induct)
  case (4 x xs y ys)
  show ?case
  proof (cases c)
    case Nil
    with 4 show ?thesis by (auto simp: compatible_def join_ord_def sign_ord_def split: if_splits)
  next
    case (Cons z zs)
    have IH: "sign_ord (bytes_cmp xs zs) = join_ord (sign_ord (bytes_cmp xs ys)) (sign_ord (bytes_cmp ys zs))"
      if "sign_ord (uint x - uint y) = Eq" "compatible (sign_ord (bytes_cmp xs ys)) (sign_ord (bytes_cmp ys zs))"
      using that "4.IH" [of zs] by (simp add: word_less_def)
    show ?thesis using "4.prems" unfolding Cons bytes_cmp_Cons
      by (intro join_ord_lex) (use sign_ord_trans IH in blast)+
  qed
qed (case_tac [!] c, auto simp: compatible_def join_ord_def sign_ord_def)

lemma double_ord_trans:
  "compatible (double_ord True a b) (double_ord True b c) \<Longrightarrow> double_ord True a c = join_ord (double_ord True a b) (double_ord True b c)"
  by (cases "is_nan64 a"; cases "is_nan64 b"; cases "is_nan64 c")
    (auto simp: double_ord_def compatible_def join_ord_def sign_ord_def split: if_splits)

lemma doubles_ord_Cons: "doubles_ord p (a # as) (b # bs) = join_ord (double_ord p a b) (doubles_ord p as bs)"
  by (cases "double_ord p a b") (simp_all add: join_ord_def)

lemma doubles_ord_trans:
  assumes "length as = length bs" "length bs = length cs" "compatible (doubles_ord True as bs) (doubles_ord True bs cs)"
  shows "doubles_ord True as cs = join_ord (doubles_ord True as bs) (doubles_ord True bs cs)"
  using assms
proof (induction as bs cs rule: list_induct3)
  case (Cons a as b bs c cs)
  then show ?case unfolding doubles_ord_Cons by (intro join_ord_lex) (use double_ord_trans in blast)+
qed (simp add: join_ord_def)

lemma compare_trees_Cons: "compare_trees p (a # as) (b # bs) = join_ord (compare_tree p a b) (compare_trees p as bs)"
  by (cases "compare_tree p a b") (simp_all add: join_ord_def)

lemma compare_trees_trans:
  assumes "length as = length bs" "length bs = length cs" "compatible (compare_trees True as bs) (compare_trees True bs cs)"
    and "\<And>a b c. a \<in> set as \<Longrightarrow> b \<in> set bs \<Longrightarrow> c \<in> set cs \<Longrightarrow> compatible (compare_tree True a b) (compare_tree True b c) \<Longrightarrow>
      compare_tree True a c = join_ord (compare_tree True a b) (compare_tree True b c)"
  shows "compare_trees True as cs = join_ord (compare_trees True as bs) (compare_trees True bs cs)"
  using assms
proof (induction as bs cs rule: list_induct3)
  case (Cons a as b bs c cs)
  have hd: "compatible (compare_tree True a b) (compare_tree True b c) \<Longrightarrow>
      compare_tree True a c = join_ord (compare_tree True a b) (compare_tree True b c)" using Cons.prems(2) by simp
  have tl: "compatible (compare_trees True as bs) (compare_trees True bs cs) \<Longrightarrow>
      compare_trees True as cs = join_ord (compare_trees True as bs) (compare_trees True bs cs)"
    by (rule Cons.IH) (use Cons.prems(2) in auto)
  show ?case using Cons.prems(1) unfolding compare_trees_Cons by (intro join_ord_lex) (use hd tl in blast)+
qed (simp add: join_ord_def)

fun wf_tree :: "tree \<Rightarrow> bool" where
  "wf_tree (TBlock g ts) \<longleftrightarrow> structured_tag g \<and> list_all wf_tree ts"
| "wf_tree _ \<longleftrightarrow> True"

lemma repr_wf: "repr m v t \<Longrightarrow> wf_tree t"
  by (induction rule: repr.induct) (auto simp: list_all_length)

lemma same_rank_wf:
  assumes "rank s = rank t" "wf_tree s" "wf_tree t"
  shows "s = TNull \<and> t = TNull \<or> (\<exists>i j. s = TInt i \<and> t = TInt j) \<or> (\<exists>a b. s = TStr a \<and> t = TStr b) \<or>
    (\<exists>a b. s = TDbl a \<and> t = TDbl b) \<or> (\<exists>a b. s = TDbls a \<and> t = TDbls b) \<or>
    (\<exists>a b. s = TObj a \<and> t = TObj b) \<or> (\<exists>g a b. s = TBlock g a \<and> t = TBlock g b)"
proof (cases "0 \<le> rank s")
  case True
  have a: "structured_tag g" if "s = TBlock g ts" for g ts using that assms(2) by simp
  have b: "structured_tag g" if "t = TBlock g ts" for g ts using that assms(3) by simp
  have "(\<exists>a b. s = TStr a \<and> t = TStr b) \<or> (\<exists>a b. s = TDbl a \<and> t = TDbl b) \<or> (\<exists>a b. s = TDbls a \<and> t = TDbls b) \<or>
    (\<exists>a b. s = TObj a \<and> t = TObj b) \<or> (\<exists>g a b. s = TBlock g a \<and> t = TBlock g b \<and> structured_tag g)"
    by (rule same_rank [OF assms(1) True]) (erule a, erule b)
  then show ?thesis by (elim disjE exE conjE) simp_all
next
  case False
  then have "rank s < 0" "rank t < 0" using assms(1) by simp_all
  then show ?thesis using assms(1) by (cases s; cases t) (auto simp: tag_defs not_less [symmetric])
qed

lemma compare_tree_by_rank: "compare_tree p s t = join_ord (sign_ord (rank s - rank t)) (compare_tree p s t)"
  using compare_tree_rank [of s t p] by (auto simp: join_ord_def)

lemma compare_sized:
  assumes "compatible (if m \<noteq> n then sign_ord (int m - int n) else x) (if n \<noteq> k then sign_ord (int n - int k) else y)"
    "m = n \<Longrightarrow> n = k \<Longrightarrow> compatible x y \<Longrightarrow> z = join_ord x y"
  shows "(if m \<noteq> k then sign_ord (int m - int k) else z) =
    join_ord (if m \<noteq> n then sign_ord (int m - int n) else x) (if n \<noteq> k then sign_ord (int n - int k) else y)"
proof -
  have e: "(if i \<noteq> j then sign_ord (int i - int j) else c) = join_ord (sign_ord (int i - int j)) c" for i j c
    by (auto simp: join_ord_def)
  show ?thesis using assms unfolding e by (intro join_ord_lex) (auto intro: sign_ord_trans)
qed

lemma compare_tree_trans:
  "wf_tree s \<Longrightarrow> wf_tree t \<Longrightarrow> wf_tree u \<Longrightarrow> compatible (compare_tree True s t) (compare_tree True t u) \<Longrightarrow>
    compare_tree True s u = join_ord (compare_tree True s t) (compare_tree True t u)"
proof (induction "size s" arbitrary: s t u rule: less_induct)
  case less
  note w = less.prems(1-3)
  have same: "compare_tree True s u = join_ord (compare_tree True s t) (compare_tree True t u)"
    if c: "compatible (compare_tree True s t) (compare_tree True t u)" and r: "rank s = rank t" "rank t = rank u"
    using same_rank_wf [OF r(1) w(1,2)]
  proof (elim disjE exE conjE)
    fix g as bs assume st: "s = TBlock g as" "t = TBlock g bs"
    then obtain cs where u: "u = TBlock g cs" using same_rank_wf [OF r(2) w(2,3)] by auto
    have sub: "compare_trees True as cs = join_ord (compare_trees True as bs) (compare_trees True bs cs)"
      if "length as = length bs" "length bs = length cs" "compatible (compare_trees True as bs) (compare_trees True bs cs)"
    proof (rule compare_trees_trans [OF that])
      fix x y z assume x: "x \<in> set as" "y \<in> set bs" "z \<in> set cs" "compatible (compare_tree True x y) (compare_tree True y z)"
      have "size x < size s" using x(1) st(1) by (simp add: size_list_estimation' less_Suc_eq_le)
      then show "compare_tree True x z = join_ord (compare_tree True x y) (compare_tree True y z)"
        using less.hyps w x st u by (simp add: list_all_iff)
    qed
    have e: "compare_tree True (TBlock g xs) (TBlock g ys) =
      (if length xs \<noteq> length ys then sign_ord (int (length xs) - int (length ys)) else compare_trees True xs ys)" for xs ys
      by simp
    show ?thesis using c unfolding st u e by (rule compare_sized) (rule sub)
  next
    assume "s = TNull" "t = TNull"
    then show ?thesis using same_rank_wf [OF r(2) w(2,3)] by (auto simp: join_ord_def)
  next
    fix a b assume st: "s = TInt a" "t = TInt b"
    then obtain d where "u = TInt d" using same_rank_wf [OF r(2) w(2,3)] by auto
    with st show ?thesis using c sign_ord_trans [of a b d] by simp
  next
    fix a b assume st: "s = TStr a" "t = TStr b"
    then obtain d where "u = TStr d" using same_rank_wf [OF r(2) w(2,3)] by auto
    with st show ?thesis using c bytes_cmp_trans [of a b d] by simp
  next
    fix a b assume st: "s = TDbl a" "t = TDbl b"
    then obtain d where "u = TDbl d" using same_rank_wf [OF r(2) w(2,3)] by auto
    with st show ?thesis using c double_ord_trans [of a b d] by simp
  next
    fix a b assume st: "s = TObj a" "t = TObj b"
    then obtain d where "u = TObj d" using same_rank_wf [OF r(2) w(2,3)] by auto
    with st show ?thesis using c sign_ord_trans [of a b d] by simp
  next
    fix a b assume st: "s = TDbls a" "t = TDbls b"
    then obtain d where u: "u = TDbls d" using same_rank_wf [OF r(2) w(2,3)] by auto
    show ?thesis using c unfolding st u compare_tree.simps by (rule compare_sized) (rule doubles_ord_trans)
  qed
  have "join_ord (sign_ord (rank s - rank u)) (compare_tree True s u) =
    join_ord (join_ord (sign_ord (rank s - rank t)) (compare_tree True s t))
      (join_ord (sign_ord (rank t - rank u)) (compare_tree True t u))"
  proof (rule join_ord_lex)
    show "compatible (join_ord (sign_ord (rank s - rank t)) (compare_tree True s t))
      (join_ord (sign_ord (rank t - rank u)) (compare_tree True t u))"
      using less.prems(4) by (simp only: compare_tree_by_rank [symmetric])
  next
    assume "compatible (compare_tree True s t) (compare_tree True t u)" "sign_ord (rank s - rank t) = Eq" "sign_ord (rank t - rank u) = Eq"
    then show "compare_tree True s u = join_ord (compare_tree True s t) (compare_tree True t u)"
      by (intro same) simp_all
  qed (rule sign_ord_trans)
  then show ?case by (simp only: compare_tree_by_rank [symmetric])
qed

text \<open>The outcome of a comparison from the empty stack.\<close>

lemma compare_val_decided:
  assumes "repr m v1 t1" "repr m v2 t2"
  shows "(\<exists>r. compare_val alloc env m v1 v2 is_total = Some (Inr r) \<and> res_ord r = compare_tree is_total t1 t2) \<or>
    compare_val alloc env m v1 v2 is_total = Some (Inl Out_of_memory) \<and> \<not> ((\<forall>n. alloc n) \<and> depth t1 \<le> 2 ^ 19)"
proof -
  let ?stk = "\<lparr>cs_items = [], cs_limit = COMPARE_STACK_INIT_SIZE, cs_init = True\<rparr>"
  have e: "resume alloc env m is_total stk = Some (Inr EQUAL)" if "same_items ?stk stk" for stk
    using that by (simp add: resume_def next_item_def same_items_def)
  have room: "room alloc ?stk t1 \<longleftrightarrow> (\<forall>n. alloc n) \<and> depth t1 \<le> 2 ^ 19"
    by (simp add: room_def stack_ok_def COMPARE_STACK_INIT_SIZE_def)
  have "decides alloc env m is_total ?stk t1 (compare_val alloc env m v1 v2 is_total) (compare_tree is_total t1 t2)"
    unfolding compare_val_def by (rule decides_repr [OF assms])
  then show ?thesis unfolding decides_def room
  proof (elim disjE)
    assume "if compare_tree is_total t1 t2 = Eq
      then \<exists>stk'. same_items ?stk stk' \<and> compare_val alloc env m v1 v2 is_total = resume alloc env m is_total stk'
      else \<exists>r. res_ord r = compare_tree is_total t1 t2 \<and> compare_val alloc env m v1 v2 is_total = Some (Inr r)"
    then show ?thesis using e by (cases "compare_tree is_total t1 t2 = Eq") (auto split: if_splits)
  qed blast
qed

subsection \<open>Properties\<close>

text \<open>A memory with a pair of an integer and an empty block and another pair that differs in the integer.\<close>

definition sample_values :: mem where
  "sample_values =
     store64 (store64 (store64 (store64 (store64 (store64 (\<lambda>_. 0)
       0x1FF8 (Make_header_with_reserved 2 0 0 0)) 0x2000 3) 0x2008 0x1000)
       0x2FF8 (Make_header_with_reserved 2 0 0 0)) 0x3000 5) 0x3008 0x1000"

lemma load64_zero: "load64 (\<lambda>_. 0) a = 0"
  by (rule bit_word_eqI) (simp add: load64_def bit_load_le)

lemma header_reserved:
  assumes "Hd_val m v = Make_header_with_reserved (of_nat n) tag 0 0" "n < 2 ^ 46" "tag < 256"
  shows "Reserved_val m v = 0"
proof -
  have "unat (of_nat n :: u64) = n" using assms(2) by (simp add: unat_of_nat)
  then have "header_parts_ok (of_nat n) tag 0 0"
    using assms(2,3) by (simp add: header_parts_ok_def Max_wosize_def word_le_nat_alt mask_eq_exp_minus_1)
  then show ?thesis unfolding Reserved_val_def assms(1) by (rule Reserved_hd_Make_header)
qed

lemma sample_values_repr:
  "repr sample_values 0x2000 (TBlock 0 [TInt 1, TBlock 0 []])" "repr sample_values 0x3000 (TBlock 0 [TInt 2, TBlock 0 []])"
proof -
  have hd: "Hd_val sample_values 0x2000 = Make_header_with_reserved 2 0 0 0" "Hd_val sample_values 0x3000 = Make_header_with_reserved 2 0 0 0"
    "Hd_val sample_values 0x1000 = 0"
    "Field sample_values 0x2000 0 = 3" "Field sample_values 0x2000 1 = 0x1000"
    "Field sample_values 0x3000 0 = 5" "Field sample_values 0x3000 1 = 0x1000"
    by (simp_all add: sample_values_def Hd_val_def Field_def mem_simps load64_zero)
  have t: "Wosize_val sample_values 0x1000 = 0" "Tag_val sample_values 0x1000 = 0" "Reserved_val sample_values 0x1000 = 0"
    using hd(3) by (simp_all add: Wosize_val_def Wosize_hd_def Reserved_val_def Reserved_hd_def Tag_hd_def flip: Tag_val_Hd_val)
  have "repr sample_values 0x1000 (TBlock (Tag_val sample_values 0x1000) [])"
    by (rule repr_block) (simp_all add: t structured_tag_def tag_defs Is_block_def)
  then have e: "repr sample_values 0x1000 (TBlock 0 [])" by (simp add: t)
  have pair: "repr sample_values v (TBlock 0 [TInt (sint (Long_val i)), TBlock 0 []])"
    if h: "Hd_val sample_values v = Make_header_with_reserved 2 0 0 0" "Field sample_values v 0 = i" "Field sample_values v 1 = 0x1000"
      "bit i 0" "Is_block v" for v i
  proof -
    have b: "Wosize_val sample_values v = 2" "Tag_val sample_values v = 0" "Reserved_val sample_values v = 0"
      using header_block [of sample_values v 2 0] header_reserved [of sample_values v 2 0] h(1) by simp_all
    have "repr sample_values v (TBlock (Tag_val sample_values v) [TInt (sint (Long_val i)), TBlock 0 []])"
    proof (rule repr_block)
      fix k assume "k < length [TInt (sint (Long_val i)), TBlock 0 []]"
      then consider "k = 0" | "k = 1" by (auto simp: less_Suc_eq)
      then show "repr sample_values (Field sample_values v (of_nat k)) ([TInt (sint (Long_val i)), TBlock 0 []] ! k)"
        using e repr_int [OF h(4)] h(2,3) by cases simp_all
    qed (simp_all add: b h(5) structured_tag_def tag_defs)
    then show ?thesis by (simp add: b)
  qed
  have l: "sint (Long_val 3) = 1" "sint (Long_val 5) = 2" by (simp_all add: sint_Long_val)
  show "repr sample_values 0x2000 (TBlock 0 [TInt 1, TBlock 0 []])" "repr sample_values 0x3000 (TBlock 0 [TInt 2, TBlock 0 []])"
    using pair [OF hd(1,4,5)] pair [OF hd(2,6,7)] unfolding l by (simp_all add: Is_block_def)
qed

definition env0 :: custom_env where
  "env0 = \<lparr>ce_ops = (\<lambda>_. \<lparr>co_identifier = [], co_compare = 0, co_compare_ext = 0\<rparr>), ce_call = (\<lambda>_ _ _ _. (0, False))\<rparr>"

text \<open>
  C4: on values that denote trees (null, integers, strings, floats, float arrays, objects and blocks, at any
  depth, with sharing and forwarding blocks), the iterative comparison with its explicit stack
  terminates and its result is the recursively defined order of the trees: negative, zero,
  positive, or \<open>UNORDERED\<close>. It can only fail with \<open>Out_of_memory\<close>, and only if an allocation fails or
  the tree is deeper than the stack may grow.
\<close>

theorem compare_val_refines:
  assumes "repr m v1 t1" "repr m v2 t2"
  shows "(\<exists>r. compare_val alloc env m v1 v2 is_total = Some (Inr r) \<and> res_ord r = compare_tree is_total t1 t2) \<or>
    compare_val alloc env m v1 v2 is_total = Some (Inl Out_of_memory) \<and> \<not> ((\<forall>n. alloc n) \<and> depth t1 \<le> 2 ^ 19)"
  using compare_val_decided [OF assms] by blast

theorem compare_val_refines_witness:
  "\<exists>r. compare_val (\<lambda>_. True) env0 sample_values 0x2000 0x3000 True = Some (Inr r) \<and> res_ord r = Lt"
  using compare_val_refines [OF sample_values_repr, of "\<lambda>_. True" env0 True] by (simp add: sign_ord_def)

definition ord_val :: "cmp_ord \<Rightarrow> val" where
  "ord_val c = (case c of Lt \<Rightarrow> Val_int (- 1) | Gt \<Rightarrow> Val_int 1 | _ \<Rightarrow> Val_int 0)"

lemma double_ord_total: "double_ord True a b \<noteq> Unord" "doubles_ord True as bs \<noteq> Unord"
proof -
  show "double_ord True a b \<noteq> Unord" for a b by (simp add: double_ord_def)
  then show "doubles_ord True as bs \<noteq> Unord"
    by (induction True as bs rule: doubles_ord.induct) (auto split: cmp_ord.splits)
qed

lemma compare_tree_total: "compare_tree True s t \<noteq> Unord"
proof (induction s arbitrary: t)
  case (TBlock g as)
  have "compare_trees True as bs \<noteq> Unord" for bs using TBlock
  proof (induction as arbitrary: bs)
    case (Cons a as)
    then show ?case by (cases bs) (auto split: cmp_ord.splits)
  qed (cases bs, simp_all)
  then show ?case by (cases t) simp_all
qed (case_tac [!] t, simp_all add: double_ord_total)

lemma caml_compare_tree:
  assumes "repr m v1 t1" "repr m v2 t2" "\<forall>n. alloc n" "depth t1 \<le> 2 ^ 19"
  shows "caml_compare alloc env m v1 v2 = Some (Inr (ord_val (compare_tree True t1 t2)))"
proof -
  obtain r where r: "compare_val alloc env m v1 v2 True = Some (Inr r)" "res_ord r = compare_tree True t1 t2"
    using compare_val_decided [OF assms(1,2), of alloc env True] assms(3,4) by blast
  then have "compare_tree True t1 t2 = sign_ord (sint r)"
    using compare_tree_total [of t1 t2] by (auto simp: res_ord_def split: if_splits)
  then show ?thesis using r(1) by (auto simp: caml_compare_def map_result_def ord_val_def sign_ord_def word_sless_alt)
qed

text \<open>
  C14: \<open>compare\<close> is a total preorder on values that denote trees, NaN included: it is reflexive,
  swapping the arguments negates the result, and it is transitive.
\<close>

theorem caml_compare_total_order:
  assumes "repr m v1 t1" "repr m v2 t2" "repr m v3 t3" "\<forall>n. alloc n" "depth t1 \<le> 2 ^ 19" "depth t2 \<le> 2 ^ 19"
  shows "caml_compare alloc env m v1 v1 = Some (Inr (Val_int 0)) \<and>
    (\<exists>i \<in> {- 1, 0, 1}. caml_compare alloc env m v1 v2 = Some (Inr (Val_int i)) \<and> caml_compare alloc env m v2 v1 = Some (Inr (Val_int (- i)))) \<and>
    (caml_compare alloc env m v1 v2 \<noteq> Some (Inr (Val_int 1)) \<longrightarrow> caml_compare alloc env m v2 v3 \<noteq> Some (Inr (Val_int 1)) \<longrightarrow>
     caml_compare alloc env m v1 v3 \<noteq> Some (Inr (Val_int 1)))"
proof -
  note c = caml_compare_tree [OF assms(1,1,4,5)] caml_compare_tree [OF assms(1,2,4,5)] caml_compare_tree [OF assms(2,1,4,6)]
    caml_compare_tree [OF assms(2,3,4,6)] caml_compare_tree [OF assms(1,3,4,5)]
  have gt: "ord_val o1 = Val_int 1 \<longleftrightarrow> o1 = Gt" for o1
    by (cases o1) (auto simp: ord_val_def dest: arg_cong [of _ _ Int_val])
  let ?x = "compare_tree True t1 t2" and ?y = "compare_tree True t2 t3" and ?z = "compare_tree True t1 t3"
  have tr: "?z = join_ord ?x ?y" if "?x \<noteq> Gt" "?y \<noteq> Gt"
    using that compare_tree_total [of t1 t2] compare_tree_total [of t2 t3]
    by (intro compare_tree_trans repr_wf [OF assms(1)] repr_wf [OF assms(2)] repr_wf [OF assms(3)])
      (cases ?x; cases ?y; simp add: compatible_def)
  have "?z \<noteq> Gt" if "?x \<noteq> Gt" "?y \<noteq> Gt" using tr [OF that] that by (simp add: join_ord_def)
  moreover have "\<exists>i \<in> {- 1, 0, 1}. ord_val ?x = Val_int i \<and> ord_val (compare_tree True t2 t1) = Val_int (- i)"
    unfolding compare_tree_flip [of True t2 t1] by (cases ?x) (auto simp: ord_val_def)
  moreover have "ord_val Eq = Val_int 0" by (simp add: ord_val_def)
  ultimately show ?thesis unfolding c compare_tree_refl option.inject sum.inject gt by blast
qed

theorem caml_compare_total_order_witness:
  "caml_compare (\<lambda>_. True) env0 sample_values 0x2000 0x2000 = Some (Inr (Val_int 0)) \<and>
   (\<exists>i. caml_compare (\<lambda>_. True) env0 sample_values 0x2000 0x3000 = Some (Inr (Val_int i)) \<and>
     caml_compare (\<lambda>_. True) env0 sample_values 0x3000 0x2000 = Some (Inr (Val_int (- i))))"
  using caml_compare_total_order [OF sample_values_repr(1,2,1), of "\<lambda>_. True" env0] by auto

text \<open>
  C15: the polymorphic predicates \<open>=\<close>, \<open><>\<close>, \<open><\<close>, \<open><=\<close>, \<open>>\<close> and \<open>>=\<close> decide the order of the trees in which NaN is unordered: on
  unordered values all of them are false except \<open><>\<close>.
\<close>

theorem polymorphic_predicates:
  assumes "repr m v1 t1" "repr m v2 t2" "\<forall>n. alloc n" "depth t1 \<le> 2 ^ 19"
  shows "caml_equal alloc env m v1 v2 = Some (Inr (Val_int (of_bool (compare_tree False t1 t2 = Eq)))) \<and>
    caml_notequal alloc env m v1 v2 = Some (Inr (Val_int (of_bool (compare_tree False t1 t2 \<noteq> Eq)))) \<and>
    caml_lessthan alloc env m v1 v2 = Some (Inr (Val_int (of_bool (compare_tree False t1 t2 = Lt)))) \<and>
    caml_lessequal alloc env m v1 v2 = Some (Inr (Val_int (of_bool (compare_tree False t1 t2 \<in> {Lt, Eq})))) \<and>
    caml_greaterthan alloc env m v1 v2 = Some (Inr (Val_int (of_bool (compare_tree False t1 t2 = Gt)))) \<and>
    caml_greaterequal alloc env m v1 v2 = Some (Inr (Val_int (of_bool (compare_tree False t1 t2 \<in> {Gt, Eq}))))"
proof -
  obtain r where r: "compare_val alloc env m v1 v2 False = Some (Inr r)" "res_ord r = compare_tree False t1 t2"
    using compare_val_decided [OF assms(1,2), of alloc env False] assms(3,4) by blast
  have u: "sint UNORDERED = - (2 ^ 63)" by (simp add: UNORDERED_def)
  have z: "r = 0 \<longleftrightarrow> sint r = 0" using sint_eqI [of r 0] by auto
  show ?thesis unfolding r(2) [symmetric] using r(1) u z
    by (auto simp: caml_equal_def caml_notequal_def caml_lessthan_def caml_lessequal_def caml_greaterthan_def
        caml_greaterequal_def map_result_def res_ord_def sign_ord_def word_sless_alt word_sle_eq)
qed

theorem polymorphic_predicates_witness:
  "caml_equal (\<lambda>_. True) env0 sample_values 0x2000 0x3000 = Some (Inr (Val_int 0)) \<and>
   caml_lessthan (\<lambda>_. True) env0 sample_values 0x2000 0x3000 = Some (Inr (Val_int 1)) \<and>
   caml_greaterequal (\<lambda>_. True) env0 sample_values 0x2000 0x3000 = Some (Inr (Val_int 0))"
  using polymorphic_predicates [OF sample_values_repr, of "\<lambda>_. True" env0] by (simp add: sign_ord_def)

text \<open>
  C40: null is below a block that forwards to null when the block is the second argument, and equal to it when the block is the
  first: the test for null precedes the treatment of forwarding blocks on one side only.
\<close>

theorem compare_null_forward:
  assumes "Is_block v" "Tag_val m v = Forward_tag" "Forward_val m v = 0"
  shows "caml_compare alloc env m 0 v = Some (Inr (Val_int (- 1))) \<and> caml_compare alloc env m v 0 = Some (Inr (Val_int 0))"
proof -
  note b = Is_block_not_long [OF assms(1)]
  have "compare_val alloc env m 0 v True = Some (Inr LESS)" using b
    by (simp add: compare_val_def do_compare_val.simps [of _ _ _ _ _ 0 v] compare_body_def compare_long_v1_def Is_long_def
        Is_null_def Val_null_def)
  moreover have "compare_val alloc env m v 0 True = Some (Inr EQUAL)" using b assms
    by (simp add: compare_val_def do_compare_val.simps [of _ _ _ _ _ v 0] do_compare_val.simps [of _ _ _ _ _ 0 0]
        compare_body_def compare_long_v2_def Is_long_def next_item_def)
  ultimately show ?thesis by (simp add: caml_compare_def map_result_def LESS_def EQUAL_def word_sless_alt)
qed

theorem compare_null_forward_witness:
  "caml_compare (\<lambda>_. True) env0 (store64 (\<lambda>_. 0) 0xFF8 (Make_header_with_reserved (of_nat 1) Forward_tag 0 0)) 0 0x1000 = Some (Inr (Val_int (- 1))) \<and>
   caml_compare (\<lambda>_. True) env0 (store64 (\<lambda>_. 0) 0xFF8 (Make_header_with_reserved (of_nat 1) Forward_tag 0 0)) 0x1000 0 = Some (Inr (Val_int 0))"
proof (rule compare_null_forward)
  let ?m = "store64 (\<lambda>_. 0) 0xFF8 (Make_header_with_reserved (of_nat 1) Forward_tag 0 0)"
  have "Hd_val ?m 0x1000 = Make_header_with_reserved (of_nat 1) Forward_tag 0 0" by (simp add: Hd_val_def mem_simps)
  from header_block [OF this] show "Tag_val ?m 0x1000 = Forward_tag" by (simp add: tag_defs)
  show "Forward_val ?m 0x1000 = 0" by (simp add: Forward_val_def Field_def mem_simps load64_zero)
qed (simp add: Is_block_def)

end
