(* ===== verification/Interp.thy ===== *)
theory Interp
  imports Ints
begin

text \<open>
  The bytecode interpreter (\<open>runtime/interp.c\<close>), instruction by instruction.

  The abstract machine has the registers of the source. The stack is the list of the words from
  \<open>sp\<close> up to \<open>Stack_high\<close>, the word at \<open>sp\<close> first, so that \<open>sp - Stack_high\<close> is minus the length of
  the list; code is a map from code addresses to 32-bit opcodes, apart from the heap. Values that come
  from outside the interpreter are in a record of type \<open>runtime\<close>: the table of C primitives, the exceptions the
  runtime raises, and the stacks the system can provide.

  An instruction ends at the next instruction (\<open>Next\<close>), at one of the labels \<open>check_stacks\<close> and \<open>raise_notrace\<close> of the
  source, or with the value that \<open>caml_bytecode_interpreter\<close> returns (\<open>Stop\<close>). \<open>Left\<close> is
  an instruction that enters the collector, the major heap, a signal handler or the debugger, and \<open>Undefined\<close>
  one whose C code is undefined (a read below the stack, a shift out of range, an invalid opcode).
  Backtraces are not recorded, no debugger is attached (no trap barrier is set), and the domain runs alone. The bound of a stack
  is tested where the source tests it, at \<open>check_stacks\<close>.
\<close>

unbundle bit_operations_syntax

subsection \<open>Machine state\<close>

record stack_info =
  st_sp :: "val list"
  st_wsize :: nat
  st_handle_value :: val
  st_handle_exn :: val
  st_handle_effect :: val
  st_handle_tick :: val
  st_parent :: addr

record interp =
  i_pc :: addr
  i_sp :: "val list"
  i_accu :: val
  i_env :: val
  i_extra_args :: u64
  i_trap_sp_off :: u64
  i_current_stack :: addr
  i_stacks :: "addr \<rightharpoonup> stack_info"
  i_heap :: heap
  i_code :: "addr \<Rightarrow> u32"
  i_global_data :: val
  i_initial_trap_sp_off :: u64
  i_initial_stack_words :: nat
  i_dynamic_bindings :: "(val \<times> val) list"

text \<open>\<open>caml_dynamic_cache_flush\<close> (\<open>runtime/dynamic.c\<close>): no entry of the domain's cache of dynamic bindings (identifier and value) is left in use.\<close>

definition caml_dynamic_cache_flush :: "(val \<times> val) list \<Rightarrow> (val \<times> val) list" where
  "caml_dynamic_cache_flush cache = map (\<lambda>(dyn, v). (Val_null, v)) cache"

datatype outcome =
    Next interp
  | Check_stacks interp
  | Raise_notrace interp
  | Stop val interp
  | Left
  | Undefined

record runtime =
  rt_prim :: "u32 \<Rightarrow> heap \<Rightarrow> val list \<Rightarrow> (heap \<times> (val + val)) option"
  rt_zero_divide :: val
  rt_stack_overflow :: val
  rt_out_of_memory :: val
  rt_continuation_already_resumed :: val
  rt_unhandled_effect :: "heap \<Rightarrow> val \<Rightarrow> (heap \<times> val) option"
  rt_max_stack_wsize :: nat
  rt_fiber_wsz :: nat
  rt_alloc_stack :: "(addr \<rightharpoonup> stack_info) \<Rightarrow> nat \<Rightarrow> addr option"

text \<open>The opcodes, numbered in the order of \<open>enum instructions\<close> in \<open>runtime/caml/instruct.h\<close>.\<close>

abbreviation "ACC0 \<equiv> 0 :: u32"
abbreviation "ACC1 \<equiv> 1 :: u32"
abbreviation "ACC2 \<equiv> 2 :: u32"
abbreviation "ACC3 \<equiv> 3 :: u32"
abbreviation "ACC4 \<equiv> 4 :: u32"
abbreviation "ACC5 \<equiv> 5 :: u32"
abbreviation "ACC6 \<equiv> 6 :: u32"
abbreviation "ACC7 \<equiv> 7 :: u32"
abbreviation "ACC \<equiv> 8 :: u32"
abbreviation "PUSH \<equiv> 9 :: u32"
abbreviation "PUSHACC0 \<equiv> 10 :: u32"
abbreviation "PUSHACC1 \<equiv> 11 :: u32"
abbreviation "PUSHACC2 \<equiv> 12 :: u32"
abbreviation "PUSHACC3 \<equiv> 13 :: u32"
abbreviation "PUSHACC4 \<equiv> 14 :: u32"
abbreviation "PUSHACC5 \<equiv> 15 :: u32"
abbreviation "PUSHACC6 \<equiv> 16 :: u32"
abbreviation "PUSHACC7 \<equiv> 17 :: u32"
abbreviation "PUSHACC \<equiv> 18 :: u32"
abbreviation "POP \<equiv> 19 :: u32"
abbreviation "ASSIGN \<equiv> 20 :: u32"
abbreviation "ENVACC1 \<equiv> 21 :: u32"
abbreviation "ENVACC2 \<equiv> 22 :: u32"
abbreviation "ENVACC3 \<equiv> 23 :: u32"
abbreviation "ENVACC4 \<equiv> 24 :: u32"
abbreviation "ENVACC \<equiv> 25 :: u32"
abbreviation "PUSHENVACC1 \<equiv> 26 :: u32"
abbreviation "PUSHENVACC2 \<equiv> 27 :: u32"
abbreviation "PUSHENVACC3 \<equiv> 28 :: u32"
abbreviation "PUSHENVACC4 \<equiv> 29 :: u32"
abbreviation "PUSHENVACC \<equiv> 30 :: u32"
abbreviation "PUSH_RETADDR \<equiv> 31 :: u32"
abbreviation "APPLY \<equiv> 32 :: u32"
abbreviation "APPLY1 \<equiv> 33 :: u32"
abbreviation "APPLY2 \<equiv> 34 :: u32"
abbreviation "APPLY3 \<equiv> 35 :: u32"
abbreviation "APPTERM \<equiv> 36 :: u32"
abbreviation "APPTERM1 \<equiv> 37 :: u32"
abbreviation "APPTERM2 \<equiv> 38 :: u32"
abbreviation "APPTERM3 \<equiv> 39 :: u32"
abbreviation "RETURN \<equiv> 40 :: u32"
abbreviation "RESTART \<equiv> 41 :: u32"
abbreviation "GRAB \<equiv> 42 :: u32"
abbreviation "CLOSURE \<equiv> 43 :: u32"
abbreviation "CLOSUREREC \<equiv> 44 :: u32"
abbreviation "OFFSETCLOSUREM3 \<equiv> 45 :: u32"
abbreviation "OFFSETCLOSURE0 \<equiv> 46 :: u32"
abbreviation "OFFSETCLOSURE3 \<equiv> 47 :: u32"
abbreviation "OFFSETCLOSURE \<equiv> 48 :: u32"
abbreviation "PUSHOFFSETCLOSUREM3 \<equiv> 49 :: u32"
abbreviation "PUSHOFFSETCLOSURE0 \<equiv> 50 :: u32"
abbreviation "PUSHOFFSETCLOSURE3 \<equiv> 51 :: u32"
abbreviation "PUSHOFFSETCLOSURE \<equiv> 52 :: u32"
abbreviation "GETGLOBAL \<equiv> 53 :: u32"
abbreviation "PUSHGETGLOBAL \<equiv> 54 :: u32"
abbreviation "GETGLOBALFIELD \<equiv> 55 :: u32"
abbreviation "PUSHGETGLOBALFIELD \<equiv> 56 :: u32"
abbreviation "SETGLOBAL \<equiv> 57 :: u32"
abbreviation "ATOM0 \<equiv> 58 :: u32"
abbreviation "ATOM \<equiv> 59 :: u32"
abbreviation "PUSHATOM0 \<equiv> 60 :: u32"
abbreviation "PUSHATOM \<equiv> 61 :: u32"
abbreviation "MAKEBLOCK \<equiv> 62 :: u32"
abbreviation "MAKEBLOCK1 \<equiv> 63 :: u32"
abbreviation "MAKEBLOCK2 \<equiv> 64 :: u32"
abbreviation "MAKEBLOCK3 \<equiv> 65 :: u32"
abbreviation "MAKEFLOATBLOCK \<equiv> 66 :: u32"
abbreviation "GETFIELD0 \<equiv> 67 :: u32"
abbreviation "GETFIELD1 \<equiv> 68 :: u32"
abbreviation "GETFIELD2 \<equiv> 69 :: u32"
abbreviation "GETFIELD3 \<equiv> 70 :: u32"
abbreviation "GETFIELD \<equiv> 71 :: u32"
abbreviation "GETFLOATFIELD \<equiv> 72 :: u32"
abbreviation "SETFIELD0 \<equiv> 73 :: u32"
abbreviation "SETFIELD1 \<equiv> 74 :: u32"
abbreviation "SETFIELD2 \<equiv> 75 :: u32"
abbreviation "SETFIELD3 \<equiv> 76 :: u32"
abbreviation "SETFIELD \<equiv> 77 :: u32"
abbreviation "SETFLOATFIELD \<equiv> 78 :: u32"
abbreviation "VECTLENGTH \<equiv> 79 :: u32"
abbreviation "GETVECTITEM \<equiv> 80 :: u32"
abbreviation "SETVECTITEM \<equiv> 81 :: u32"
abbreviation "GETBYTESCHAR \<equiv> 82 :: u32"
abbreviation "SETBYTESCHAR \<equiv> 83 :: u32"
abbreviation "BRANCH \<equiv> 84 :: u32"
abbreviation "BRANCHIF \<equiv> 85 :: u32"
abbreviation "BRANCHIFNOT \<equiv> 86 :: u32"
abbreviation "SWITCH \<equiv> 87 :: u32"
abbreviation "BOOLNOT \<equiv> 88 :: u32"
abbreviation "PUSHTRAP \<equiv> 89 :: u32"
abbreviation "POPTRAP \<equiv> 90 :: u32"
abbreviation "RAISE \<equiv> 91 :: u32"
abbreviation "CHECK_SIGNALS \<equiv> 92 :: u32"
abbreviation "C_CALL1 \<equiv> 93 :: u32"
abbreviation "C_CALL2 \<equiv> 94 :: u32"
abbreviation "C_CALL3 \<equiv> 95 :: u32"
abbreviation "C_CALL4 \<equiv> 96 :: u32"
abbreviation "C_CALL5 \<equiv> 97 :: u32"
abbreviation "C_CALLN \<equiv> 98 :: u32"
abbreviation "CONST0 \<equiv> 99 :: u32"
abbreviation "CONST1 \<equiv> 100 :: u32"
abbreviation "CONST2 \<equiv> 101 :: u32"
abbreviation "CONST3 \<equiv> 102 :: u32"
abbreviation "CONSTINT \<equiv> 103 :: u32"
abbreviation "PUSHCONST0 \<equiv> 104 :: u32"
abbreviation "PUSHCONST1 \<equiv> 105 :: u32"
abbreviation "PUSHCONST2 \<equiv> 106 :: u32"
abbreviation "PUSHCONST3 \<equiv> 107 :: u32"
abbreviation "PUSHCONSTINT \<equiv> 108 :: u32"
abbreviation "NEGINT \<equiv> 109 :: u32"
abbreviation "ADDINT \<equiv> 110 :: u32"
abbreviation "SUBINT \<equiv> 111 :: u32"
abbreviation "MULINT \<equiv> 112 :: u32"
abbreviation "DIVINT \<equiv> 113 :: u32"
abbreviation "MODINT \<equiv> 114 :: u32"
abbreviation "ANDINT \<equiv> 115 :: u32"
abbreviation "ORINT \<equiv> 116 :: u32"
abbreviation "XORINT \<equiv> 117 :: u32"
abbreviation "LSLINT \<equiv> 118 :: u32"
abbreviation "LSRINT \<equiv> 119 :: u32"
abbreviation "ASRINT \<equiv> 120 :: u32"
abbreviation "EQ \<equiv> 121 :: u32"
abbreviation "NEQ \<equiv> 122 :: u32"
abbreviation "LTINT \<equiv> 123 :: u32"
abbreviation "LEINT \<equiv> 124 :: u32"
abbreviation "GTINT \<equiv> 125 :: u32"
abbreviation "GEINT \<equiv> 126 :: u32"
abbreviation "OFFSETINT \<equiv> 127 :: u32"
abbreviation "OFFSETREF \<equiv> 128 :: u32"
abbreviation "ISINT \<equiv> 129 :: u32"
abbreviation "GETMETHOD \<equiv> 130 :: u32"
abbreviation "BEQ \<equiv> 131 :: u32"
abbreviation "BNEQ \<equiv> 132 :: u32"
abbreviation "BLTINT \<equiv> 133 :: u32"
abbreviation "BLEINT \<equiv> 134 :: u32"
abbreviation "BGTINT \<equiv> 135 :: u32"
abbreviation "BGEINT \<equiv> 136 :: u32"
abbreviation "ULTINT \<equiv> 137 :: u32"
abbreviation "UGEINT \<equiv> 138 :: u32"
abbreviation "BULTINT \<equiv> 139 :: u32"
abbreviation "BUGEINT \<equiv> 140 :: u32"
abbreviation "GETPUBMET \<equiv> 141 :: u32"
abbreviation "GETDYNMET \<equiv> 142 :: u32"
abbreviation "STOP \<equiv> 143 :: u32"
abbreviation "EVENT \<equiv> 144 :: u32"
abbreviation "BREAK \<equiv> 145 :: u32"
abbreviation "RERAISE \<equiv> 146 :: u32"
abbreviation "RAISE_NOTRACE \<equiv> 147 :: u32"
abbreviation "GETSTRINGCHAR \<equiv> 148 :: u32"
abbreviation "PERFORM \<equiv> 149 :: u32"
abbreviation "CONTINUE \<equiv> 150 :: u32"
abbreviation "CONTINUETERM \<equiv> 151 :: u32"
abbreviation "DISCONTINUE \<equiv> 152 :: u32"
abbreviation "DISCONTINUETERM \<equiv> 153 :: u32"
abbreviation "DISCONTINUE_WITH_BACKTRACE \<equiv> 154 :: u32"
abbreviation "DISCONTINUE_WITH_BACKTRACETERM \<equiv> 155 :: u32"
abbreviation "REPERFORMTERM \<equiv> 156 :: u32"
abbreviation "MAKE_FAUX_MIXEDBLOCK \<equiv> 157 :: u32"
abbreviation "WITH_STACK \<equiv> 158 :: u32"
abbreviation "WITH_STACK_PREEMPTIBLE \<equiv> 159 :: u32"

subsection \<open>Access to the registers\<close>

definition mem_of :: "interp \<Rightarrow> mem" where "mem_of s = hp_mem (i_heap s)"

definition set_mem :: "interp \<Rightarrow> mem \<Rightarrow> interp" where "set_mem s m = s\<lparr>i_heap := i_heap s\<lparr>hp_mem := m\<rparr>\<rparr>"

text \<open>The operands \<open>pc[k]\<close>, as 32-bit words, sign-extended words and stack offsets.\<close>

definition arg :: "interp \<Rightarrow> nat \<Rightarrow> u32" where "arg s k = i_code s (i_pc s + 4 * of_nat k)"
definition argw :: "interp \<Rightarrow> nat \<Rightarrow> u64" where "argw s k = scast (arg s k)"
definition argn :: "interp \<Rightarrow> nat \<Rightarrow> nat" where "argn s k = unat (arg s k)"

definition adv :: "nat \<Rightarrow> interp \<Rightarrow> interp" where "adv k s = s\<lparr>i_pc := i_pc s + 4 * of_nat k\<rparr>"

text \<open>\<open>pc + pc[k]\<close>\<close>

definition target :: "interp \<Rightarrow> nat \<Rightarrow> addr" where "target s k = i_pc s + 4 * argw s k"

definition push :: "val \<Rightarrow> interp \<Rightarrow> interp" where "push v s = s\<lparr>i_sp := v # i_sp s\<rparr>"

definition push_accu :: "interp \<Rightarrow> interp" where "push_accu s = push (i_accu s) s"

definition peek :: "interp \<Rightarrow> nat \<Rightarrow> (val \<Rightarrow> outcome) \<Rightarrow> outcome" where
  "peek s n k = (if n < length (i_sp s) then k (i_sp s ! n) else Undefined)"

definition pop :: "interp \<Rightarrow> nat \<Rightarrow> (interp \<Rightarrow> outcome) \<Rightarrow> outcome" where
  "pop s n k = (if n \<le> length (i_sp s) then k (s\<lparr>i_sp := drop n (i_sp s)\<rparr>) else Undefined)"

text \<open>\<open>sp[n] = v\<close>\<close>

definition poke :: "interp \<Rightarrow> nat \<Rightarrow> val \<Rightarrow> (interp \<Rightarrow> outcome) \<Rightarrow> outcome" where
  "poke s n v k = (if n < length (i_sp s) then k (s\<lparr>i_sp := (i_sp s)[n := v]\<rparr>) else Undefined)"

definition Code_val :: "mem \<Rightarrow> val \<Rightarrow> addr" where "Code_val m v = Field m v 0"

definition Val_ptr :: "addr \<Rightarrow> val" where "Val_ptr p = p + 1"
definition Ptr_val :: "val \<Rightarrow> addr" where "Ptr_val v = v - 1"
definition Make_exception_result :: "val \<Rightarrow> val" where "Make_exception_result v = v OR 2"

text \<open>\<open>caml_modify\<close>, without the bookkeeping for the collector.\<close>

definition caml_modify :: "interp \<Rightarrow> val \<Rightarrow> u64 \<Rightarrow> val \<Rightarrow> interp" where
  "caml_modify s v i x = set_mem s (Set_Field (mem_of s) v i x)"

subsection \<open>Exceptions and stack switching\<close>

text \<open>
  The switch to the parent stack that is common to \<open>do_return\<close> and \<open>raise_notrace\<close>; the handler \<open>h\<close> of
  the old stack is called with the accumulator.
\<close>

definition switch_to_parent :: "interp \<Rightarrow> stack_info \<Rightarrow> val \<Rightarrow> outcome" where
  "switch_to_parent s old h =
     (case i_stacks s (st_parent old) of
        None \<Rightarrow> Undefined
      | Some parent \<Rightarrow>
          (case st_sp parent of
             trap # extra # rest \<Rightarrow>
               Check_stacks (s\<lparr>i_stacks := (i_stacks s)(i_current_stack s := None), i_current_stack := st_parent old,
                 i_trap_sp_off := Long_val trap, i_extra_args := Long_val extra,
                 i_sp := i_accu s # rest, i_accu := h, i_pc := Code_val (mem_of s) h, i_env := h,
                 i_dynamic_bindings := caml_dynamic_cache_flush (i_dynamic_bindings s)\<rparr>)
           | _ \<Rightarrow> Undefined))"

text \<open>
  \<open>caml_try_realloc_stack\<close> (\<open>runtime/fiber.c\<close>) in the build without \<open>USE_MMAP_MAP_STACK\<close> and \<open>STACK_GUARD_PAGES\<close>: copies the current stack into one
  of at least twice its size, or fails. The doubling wraps around at 64 bits; \<open>None\<close> is a loop that never ends. The words in use are counted in an
  \<open>int\<close>: from \<open>2 ^ 31\<close> on the function is undefined.
\<close>

partial_function (option) realloc_wsize :: "nat \<Rightarrow> nat \<Rightarrow> nat \<Rightarrow> nat option option" where
  "realloc_wsize max_stack_wsize needed wsize =
     (if max_stack_wsize \<le> wsize then Some None
      else let wsize = (wsize * 2) mod 2 ^ 64 in
        if wsize < needed then realloc_wsize max_stack_wsize needed wsize else Some (Some wsize))"

definition caml_try_realloc_stack :: "runtime \<Rightarrow> interp \<Rightarrow> stack_info \<Rightarrow> nat \<Rightarrow> interp option option" where
  "caml_try_realloc_stack rt s old required_space =
     (let stack_used = length (i_sp s); wsize = st_wsize old - st_wsize old mod 2 in
      if 2 ^ 31 \<le> stack_used then None else
      case realloc_wsize (rt_max_stack_wsize rt) (stack_used + required_space) wsize of
        None \<Rightarrow> None
      | Some None \<Rightarrow> Some None
      | Some (Some w) \<Rightarrow>
          (case rt_alloc_stack rt (i_stacks s) w of
             None \<Rightarrow> Some None
           | Some new \<Rightarrow>
               Some (Some (s\<lparr>i_stacks := (i_stacks s)(i_current_stack s := None, new \<mapsto> old\<lparr>st_wsize := w, st_sp := i_sp s\<rparr>),
                 i_current_stack := new\<rparr>))))"

text \<open>
  The label \<open>raise_notrace\<close>: cut the stack back to the trap frame, or leave the stack through its exception
  handler, or return the exception to the caller of the interpreter.
\<close>

definition raise_notrace :: "interp \<Rightarrow> outcome" where
  "raise_notrace s =
     (if 0 <s i_trap_sp_off s then
        (case i_stacks s (i_current_stack s) of
           None \<Rightarrow> Undefined
         | Some cur \<Rightarrow>
             if st_handle_exn cur = Val_unit then
               Stop (Make_exception_result (i_accu s))
                 (s\<lparr>i_trap_sp_off := i_initial_trap_sp_off s,
                    i_sp := drop (length (i_sp s) - i_initial_stack_words s) (i_sp s)\<rparr>)
             else switch_to_parent s cur (st_handle_exn cur))
      else
        let n = unat (- i_trap_sp_off s) in
        if length (i_sp s) < n \<or> n < 4 then Undefined
        else let sp = drop (length (i_sp s) - n) (i_sp s) in
          Next (s\<lparr>i_sp := drop 4 sp, i_pc := sp ! 0, i_trap_sp_off := Long_val (sp ! 1),
                  i_env := sp ! 2, i_extra_args := Long_val (sp ! 3)\<rparr>))"

text \<open>\<open>CHECK_SIGNALS\<close>: an interrupt or a pending signal leaves the model.\<close>

definition check_signals :: "interp \<Rightarrow> outcome" where
  "check_signals s = (if Caml_check_gc_interrupt (i_heap s) then Left else Next s)"

definition setup_for_c_call :: "interp \<Rightarrow> interp" where
  "setup_for_c_call s = s\<lparr>i_sp := i_env s # (i_pc s + 4) # i_sp s\<rparr>"

text \<open>An exception that a C function raises: the frame that \<open>Setup_for_c_call\<close> pushed is cut by the raise.\<close>

definition raise_from_c :: "interp \<Rightarrow> val \<Rightarrow> outcome" where
  "raise_from_c s exn = Raise_notrace ((setup_for_c_call s)\<lparr>i_accu := exn\<rparr>)"

definition Stack_threshold_words :: nat where "Stack_threshold_words = 32"

text \<open>
  The label \<open>check_stacks\<close>: grow the stack when less than the threshold is left; out of space,
  \<open>Stack_overflow\<close> is raised.
\<close>

definition check_stacks :: "runtime \<Rightarrow> interp \<Rightarrow> outcome" where
  "check_stacks rt s =
     (case i_stacks s (i_current_stack s) of
        None \<Rightarrow> Undefined
      | Some cur \<Rightarrow>
          if st_wsize cur < length (i_sp s) + Stack_threshold_words then
            (case caml_try_realloc_stack rt s cur Stack_threshold_words of
               None \<Rightarrow> Undefined
             | Some None \<Rightarrow> raise_from_c s (rt_stack_overflow rt)
             | Some (Some s') \<Rightarrow> check_signals s')
          else check_signals s)"

definition call_accu :: "interp \<Rightarrow> u64 \<Rightarrow> outcome" where
  "call_accu s extra =
     Check_stacks (s\<lparr>i_pc := Code_val (mem_of s) (i_accu s), i_env := i_accu s, i_extra_args := extra\<rparr>)"

subsection \<open>Instructions\<close>

text \<open>Basic stack operations.\<close>

definition exec_stack :: "u32 \<Rightarrow> interp \<Rightarrow> outcome option" where
  "exec_stack op s =
     (if op = ACC0 then Some (peek s 0 (\<lambda>v. Next (s\<lparr>i_accu := v\<rparr>)))
      else if op = ACC1 then Some (peek s 1 (\<lambda>v. Next (s\<lparr>i_accu := v\<rparr>)))
      else if op = ACC2 then Some (peek s 2 (\<lambda>v. Next (s\<lparr>i_accu := v\<rparr>)))
      else if op = ACC3 then Some (peek s 3 (\<lambda>v. Next (s\<lparr>i_accu := v\<rparr>)))
      else if op = ACC4 then Some (peek s 4 (\<lambda>v. Next (s\<lparr>i_accu := v\<rparr>)))
      else if op = ACC5 then Some (peek s 5 (\<lambda>v. Next (s\<lparr>i_accu := v\<rparr>)))
      else if op = ACC6 then Some (peek s 6 (\<lambda>v. Next (s\<lparr>i_accu := v\<rparr>)))
      else if op = ACC7 then Some (peek s 7 (\<lambda>v. Next (s\<lparr>i_accu := v\<rparr>)))
      else if op = PUSH \<or> op = PUSHACC0 then Some (Next (push_accu s))
      else if op = PUSHACC1 then Some (peek (push_accu s) 1 (\<lambda>v. Next ((push_accu s)\<lparr>i_accu := v\<rparr>)))
      else if op = PUSHACC2 then Some (peek (push_accu s) 2 (\<lambda>v. Next ((push_accu s)\<lparr>i_accu := v\<rparr>)))
      else if op = PUSHACC3 then Some (peek (push_accu s) 3 (\<lambda>v. Next ((push_accu s)\<lparr>i_accu := v\<rparr>)))
      else if op = PUSHACC4 then Some (peek (push_accu s) 4 (\<lambda>v. Next ((push_accu s)\<lparr>i_accu := v\<rparr>)))
      else if op = PUSHACC5 then Some (peek (push_accu s) 5 (\<lambda>v. Next ((push_accu s)\<lparr>i_accu := v\<rparr>)))
      else if op = PUSHACC6 then Some (peek (push_accu s) 6 (\<lambda>v. Next ((push_accu s)\<lparr>i_accu := v\<rparr>)))
      else if op = PUSHACC7 then Some (peek (push_accu s) 7 (\<lambda>v. Next ((push_accu s)\<lparr>i_accu := v\<rparr>)))
      else if op = PUSHACC then Some (peek (push_accu s) (argn s 0) (\<lambda>v. Next (adv 1 ((push_accu s)\<lparr>i_accu := v\<rparr>))))
      else if op = ACC then Some (peek s (argn s 0) (\<lambda>v. Next (adv 1 (s\<lparr>i_accu := v\<rparr>))))
      else if op = POP then Some (pop s (argn s 0) (\<lambda>s'. Next (adv 1 s')))
      else if op = ASSIGN then Some (poke s (argn s 0) (i_accu s) (\<lambda>s'. Next (adv 1 (s'\<lparr>i_accu := Val_unit\<rparr>))))
      else None)"

text \<open>Access in the heap-allocated environment.\<close>

definition exec_env :: "u32 \<Rightarrow> interp \<Rightarrow> outcome option" where
  "exec_env op s =
     (if op = ENVACC1 then Some (Next (s\<lparr>i_accu := Field (mem_of s) (i_env s) 1\<rparr>))
      else if op = ENVACC2 then Some (Next (s\<lparr>i_accu := Field (mem_of s) (i_env s) 2\<rparr>))
      else if op = ENVACC3 then Some (Next (s\<lparr>i_accu := Field (mem_of s) (i_env s) 3\<rparr>))
      else if op = ENVACC4 then Some (Next (s\<lparr>i_accu := Field (mem_of s) (i_env s) 4\<rparr>))
      else if op = PUSHENVACC1 then Some (Next ((push_accu s)\<lparr>i_accu := Field (mem_of s) (i_env s) 1\<rparr>))
      else if op = PUSHENVACC2 then Some (Next ((push_accu s)\<lparr>i_accu := Field (mem_of s) (i_env s) 2\<rparr>))
      else if op = PUSHENVACC3 then Some (Next ((push_accu s)\<lparr>i_accu := Field (mem_of s) (i_env s) 3\<rparr>))
      else if op = PUSHENVACC4 then Some (Next ((push_accu s)\<lparr>i_accu := Field (mem_of s) (i_env s) 4\<rparr>))
      else if op = PUSHENVACC then Some (Next (adv 1 ((push_accu s)\<lparr>i_accu := Field (mem_of s) (i_env s) (argw s 0)\<rparr>)))
      else if op = ENVACC then Some (Next (adv 1 (s\<lparr>i_accu := Field (mem_of s) (i_env s) (argw s 0)\<rparr>)))
      else None)"

text \<open>Function application.\<close>

definition exec_apply :: "u32 \<Rightarrow> interp \<Rightarrow> outcome option" where
  "exec_apply op s =
     (if op = PUSH_RETADDR then Some (Next (adv 1 (s\<lparr>i_sp := target s 0 # i_env s # Val_long (i_extra_args s) # i_sp s\<rparr>)))
      else if op = APPLY then Some (call_accu s (argw s 0 - 1))
      else if op = APPLY1 then Some (peek s 0 (\<lambda>arg1. call_accu (s\<lparr>i_sp := arg1 # i_pc s # i_env s # Val_long (i_extra_args s) # drop 1 (i_sp s)\<rparr>) 0))
      else if op = APPLY2 then Some (peek s 1 (\<lambda>arg2. call_accu (s\<lparr>i_sp := i_sp s ! 0 # arg2 # i_pc s # i_env s # Val_long (i_extra_args s) # drop 2 (i_sp s)\<rparr>) 1))
      else if op = APPLY3 then Some (peek s 2 (\<lambda>arg3. call_accu (s\<lparr>i_sp := i_sp s ! 0 # i_sp s ! 1 # arg3 # i_pc s # i_env s # Val_long (i_extra_args s) # drop 3 (i_sp s)\<rparr>) 2))
      else None)"

text \<open>Tail calls: the \<open>nargs\<close> words at the top of the frame of \<open>slotsize\<close> words are slid to its bottom.\<close>

definition slide :: "interp \<Rightarrow> nat \<Rightarrow> nat \<Rightarrow> (interp \<Rightarrow> outcome) \<Rightarrow> outcome" where
  "slide s nargs slotsize k =
     (if nargs \<le> slotsize \<and> slotsize \<le> length (i_sp s)
      then k (s\<lparr>i_sp := take nargs (i_sp s) @ drop slotsize (i_sp s)\<rparr>) else Undefined)"

text \<open>Tail application.\<close>

definition exec_appterm :: "u32 \<Rightarrow> interp \<Rightarrow> outcome option" where
  "exec_appterm op s =
     (if op = APPTERM then Some (slide s (argn s 0) (argn s 1) (\<lambda>s'. call_accu s' (i_extra_args s + argw s 0 - 1)))
      else if op = APPTERM1 then Some (slide s 1 (argn s 0) (\<lambda>s'. call_accu s' (i_extra_args s)))
      else if op = APPTERM2 then Some (slide s 2 (argn s 0) (\<lambda>s'. call_accu s' (i_extra_args s + 1)))
      else if op = APPTERM3 then Some (slide s 3 (argn s 0) (\<lambda>s'. call_accu s' (i_extra_args s + 2)))
      else None)"

text \<open>The label \<open>do_return\<close>.\<close>

definition do_return :: "interp \<Rightarrow> outcome" where
  "do_return s =
     (case i_sp s of
        [] \<Rightarrow>
          (case i_stacks s (i_current_stack s) of
             None \<Rightarrow> Undefined
           | Some old \<Rightarrow> switch_to_parent s old (st_handle_value old))
      | pc # env # extra # rest \<Rightarrow>
          Next (s\<lparr>i_pc := pc, i_env := env, i_extra_args := Long_val extra, i_sp := rest\<rparr>)
      | _ \<Rightarrow> Undefined)"

text \<open>\<open>Alloc_small\<close> with \<open>Enter_gc\<close>: when the minor heap is full the instruction enters the collector.\<close>

definition alloc_small :: "interp \<Rightarrow> u64 \<Rightarrow> u32 \<Rightarrow> (interp \<Rightarrow> val \<Rightarrow> outcome) \<Rightarrow> outcome" where
  "alloc_small s wosize tag k =
     (case Alloc_small (i_heap s) wosize tag of
        None \<Rightarrow> Left
      | Some (h, v) \<Rightarrow> k (s\<lparr>i_heap := h\<rparr>) v)"

text \<open>Fields \<open>i\<close>, \<open>i + 1\<close>, ... of a block are set to the values of a list.\<close>

primrec set_fields :: "mem \<Rightarrow> val \<Rightarrow> u64 \<Rightarrow> val list \<Rightarrow> mem" where
  "set_fields m v i [] = m"
| "set_fields m v i (x # xs) = set_fields (Set_Field m v i x) v (i + 1) xs"

text \<open>\<open>RESTART\<close> pushes the arguments that a partial application has stored in its closure.\<close>

definition restart :: "interp \<Rightarrow> outcome" where
  "restart s =
     (let n = (ucast (Wosize_val (mem_of s) (i_env s) - 3) :: u32); num_args = unat n in
      if n <s 0 then Undefined else Next (s\<lparr>i_sp := map (\<lambda>i. Field (mem_of s) (i_env s) (of_nat i + 3)) [0..<num_args] @ i_sp s,
              i_env := Field (mem_of s) (i_env s) 2,
              i_extra_args := i_extra_args s + of_nat num_args\<rparr>))"

text \<open>\<open>GRAB\<close> proceeds when the caller gave enough arguments, and otherwise returns a closure that holds the ones it gave.\<close>

definition grab :: "interp \<Rightarrow> outcome" where
  "grab s =
     (let required = argw s 0; s = adv 1 s in
      if required \<le>s i_extra_args s then Next (s\<lparr>i_extra_args := i_extra_args s - required\<rparr>)
      else let num_args = 1 + i_extra_args s in
        alloc_small s (num_args + 3) Closure_tag (\<lambda>s v.
          if length (i_sp s) < unat num_args then Undefined
          else let m = set_fields (Set_Field (mem_of s) v 2 (i_env s)) v 3 (take (unat num_args) (i_sp s));
                   m = Set_Field (Set_Field m v 0 (i_pc s - 3 * 4)) v 1 (Make_closinfo 0 2 1) in
            do_return ((set_mem s m)\<lparr>i_accu := v, i_sp := drop (unat num_args) (i_sp s)\<rparr>)))"

text \<open>Returns and partial applications.\<close>

definition exec_return :: "u32 \<Rightarrow> interp \<Rightarrow> outcome option" where
  "exec_return op s =
     (if op = RETURN then Some (pop s (argn s 0) (\<lambda>s'. if 0 <s i_extra_args s
        then Next (s'\<lparr>i_extra_args := i_extra_args s - 1, i_pc := Code_val (mem_of s) (i_accu s), i_env := i_accu s\<rparr>)
        else do_return (adv 1 s')))
      else if op = RESTART then Some (restart s)
      else if op = GRAB then Some (grab s)
      else None)"

definition closure :: "interp \<Rightarrow> outcome" where
  "closure s =
     (let nvars = argw s 0; s = adv 1 s; s = (if 0 <s nvars then push_accu s else s) in
      if nvars \<le>s Max_young_wosize - 2 then
        alloc_small s (2 + nvars) Closure_tag (\<lambda>s v.
          if length (i_sp s) < nat (sint nvars) then Undefined
          else let m = set_fields (mem_of s) v 2 (take (nat (sint nvars)) (i_sp s));
                   m = Set_Field (Set_Field m v 0 (target s 0)) v 1 (Make_closinfo 0 2 1) in
            Next (adv 1 ((set_mem s m)\<lparr>i_accu := v, i_sp := drop (nat (sint nvars)) (i_sp s)\<rparr>)))
      else Left)"

text \<open>
  The loop of \<open>CLOSUREREC\<close> over the functions after the first: \<open>i\<close> is the index of the function, \<open>p\<close> the
  next field of the block, \<open>envofs\<close> the remaining offset of the environment; pushes the pointers to the infix blocks.
\<close>

function infix_closures :: "interp \<Rightarrow> val \<Rightarrow> nat \<Rightarrow> nat \<Rightarrow> u64 \<Rightarrow> u64 \<Rightarrow> interp" where
  "infix_closures s v nfuncs i p envofs =
     (if nfuncs \<le> i then s
      else let m = Set_Field (mem_of s) v p (Make_header (of_nat i * 3) Infix_tag 0);
               m = Set_Field m v (p + 1) (target s i);
               m = Set_Field m v (p + 2) (Make_closinfo 0 (envofs - 3) (of_bool (i = nfuncs - 1))) in
        infix_closures (push (v + 8 * (p + 1)) (set_mem s m)) v nfuncs (Suc i) (p + 3) (envofs - 3))"
  by auto

termination infix_closures
  by (relation "measure (\<lambda>(_, _, nfuncs, i, _). nfuncs - i)") auto

definition closurerec :: "interp \<Rightarrow> outcome" where
  "closurerec s =
     (let nfuncs = argw s 0; nvars = argw s 1; s = adv 2 s; envofs = nfuncs * 3 - 1; blksize = envofs + nvars;
          s = (if 0 <s nvars then push_accu s else s) in
      if blksize \<le> Max_young_wosize then
        alloc_small s blksize Closure_tag (\<lambda>s v.
          if length (i_sp s) < nat (sint nvars) then Undefined
          else let m = set_fields (mem_of s) v envofs (take (nat (sint nvars)) (i_sp s));
                   m = Set_Field m v 0 (target s 0);
                   m = Set_Field m v 1 (Make_closinfo 0 envofs (of_bool (nfuncs <s 2)));
                   s = (set_mem s m)\<lparr>i_accu := v, i_sp := v # drop (nat (sint nvars)) (i_sp s)\<rparr> in
            Next (adv (nat (sint nfuncs)) (infix_closures s v (nat (sint nfuncs)) 1 2 envofs)))
      else Left)"

text \<open>Allocation of closures.\<close>

definition exec_closure :: "u32 \<Rightarrow> interp \<Rightarrow> outcome option" where
  "exec_closure op s =
     (if op = CLOSURE then Some (closure s)
      else if op = CLOSUREREC then Some (closurerec s)
      else if op = PUSHOFFSETCLOSURE then Some (Next (adv 1 ((push_accu s)\<lparr>i_accu := i_env s + argw s 0 * 8\<rparr>)))
      else if op = OFFSETCLOSURE then Some (Next (adv 1 (s\<lparr>i_accu := i_env s + argw s 0 * 8\<rparr>)))
      else if op = PUSHOFFSETCLOSUREM3 then Some (Next ((push_accu s)\<lparr>i_accu := i_env s - 3 * 8\<rparr>))
      else if op = OFFSETCLOSUREM3 then Some (Next (s\<lparr>i_accu := i_env s - 3 * 8\<rparr>))
      else if op = PUSHOFFSETCLOSURE0 then Some (Next ((push_accu s)\<lparr>i_accu := i_env s\<rparr>))
      else if op = OFFSETCLOSURE0 then Some (Next (s\<lparr>i_accu := i_env s\<rparr>))
      else if op = PUSHOFFSETCLOSURE3 then Some (Next ((push_accu s)\<lparr>i_accu := i_env s + 3 * 8\<rparr>))
      else if op = OFFSETCLOSURE3 then Some (Next (s\<lparr>i_accu := i_env s + 3 * 8\<rparr>))
      else None)"

text \<open>Access to global variables.\<close>

definition exec_global :: "u32 \<Rightarrow> interp \<Rightarrow> outcome option" where
  "exec_global op s =
     (if op = PUSHGETGLOBAL then Some (Next (adv 1 ((push_accu s)\<lparr>i_accu := Field (mem_of s) (i_global_data s) (argw s 0)\<rparr>)))
      else if op = GETGLOBAL then Some (Next (adv 1 (s\<lparr>i_accu := Field (mem_of s) (i_global_data s) (argw s 0)\<rparr>)))
      else if op = PUSHGETGLOBALFIELD then Some (Next (adv 2 ((push_accu s)\<lparr>i_accu := Field (mem_of s) (Field (mem_of s) (i_global_data s) (argw s 0)) (argw s 1)\<rparr>)))
      else if op = GETGLOBALFIELD then Some (Next (adv 2 (s\<lparr>i_accu := Field (mem_of s) (Field (mem_of s) (i_global_data s) (argw s 0)) (argw s 1)\<rparr>)))
      else if op = SETGLOBAL then Some (Next (adv 1 ((caml_modify s (i_global_data s) (argw s 0) (i_accu s))\<lparr>i_accu := Val_unit\<rparr>)))
      else None)"

definition makeblock :: "interp \<Rightarrow> u64 \<Rightarrow> u32 \<Rightarrow> u64 \<Rightarrow> outcome" where
  "makeblock s wosize tag reserved =
     (if wosize \<le> Max_young_wosize then
        (case Alloc_small_with_reserved (i_heap s) wosize tag reserved of
           None \<Rightarrow> Left
         | Some (h, v) \<Rightarrow>
             let s = s\<lparr>i_heap := h\<rparr>; n = unat wosize - 1 in
             if length (i_sp s) < n then Undefined
             else Next ((set_mem s (set_fields (mem_of s) v 0 (i_accu s # take n (i_sp s))))
                \<lparr>i_accu := v, i_sp := drop n (i_sp s)\<rparr>))
      else Left)"

definition makefloatblock :: "interp \<Rightarrow> u64 \<Rightarrow> outcome" where
  "makefloatblock s sz =
     (if sz \<le> Max_young_wosize then
        alloc_small s sz Double_array_tag (\<lambda>s v.
          let n = unat sz - 1 in
          if length (i_sp s) < n then Undefined
          else Next ((set_mem s (set_fields (mem_of s) v 0
                 (map (load64 (mem_of s)) (i_accu s # take n (i_sp s)))))\<lparr>i_accu := v, i_sp := drop n (i_sp s)\<rparr>))
      else Left)"

definition Faux_mixed_block_sentinel :: u64 where "Faux_mixed_block_sentinel = 0xFF"

text \<open>Allocation of blocks.\<close>

definition exec_makeblock :: "u32 \<Rightarrow> interp \<Rightarrow> outcome option" where
  "exec_makeblock op s =
     (if op = PUSHATOM0 then Some (Next ((push_accu s)\<lparr>i_accu := caml_atom (i_heap s) (0)\<rparr>))
      else if op = ATOM0 then Some (Next (s\<lparr>i_accu := caml_atom (i_heap s) (0)\<rparr>))
      else if op = PUSHATOM then Some (Next (adv 1 ((push_accu s)\<lparr>i_accu := caml_atom (i_heap s) (arg s 0)\<rparr>)))
      else if op = ATOM then Some (Next (adv 1 (s\<lparr>i_accu := caml_atom (i_heap s) (arg s 0)\<rparr>)))
      else if op = MAKEBLOCK then Some (makeblock (adv 2 s) (argw s 0) (arg s 1) 0)
      else if op = MAKEBLOCK1 then Some (makeblock (adv 1 s) 1 (arg s 0) 0)
      else if op = MAKEBLOCK2 then Some (makeblock (adv 1 s) 2 (arg s 0) 0)
      else if op = MAKEBLOCK3 then Some (makeblock (adv 1 s) 3 (arg s 0) 0)
      else if op = MAKE_FAUX_MIXEDBLOCK then Some (makeblock (adv 2 s) (argw s 0) (arg s 1) Faux_mixed_block_sentinel)
      else if op = MAKEFLOATBLOCK then Some (makefloatblock (adv 1 s) (argw s 0))
      else None)"

text \<open>Access to components of blocks.\<close>

definition exec_field :: "u32 \<Rightarrow> interp \<Rightarrow> outcome option" where
  "exec_field op s =
     (if op = GETFIELD0 then Some (Next (s\<lparr>i_accu := Field (mem_of s) (i_accu s) 0\<rparr>))
      else if op = GETFIELD1 then Some (Next (s\<lparr>i_accu := Field (mem_of s) (i_accu s) 1\<rparr>))
      else if op = GETFIELD2 then Some (Next (s\<lparr>i_accu := Field (mem_of s) (i_accu s) 2\<rparr>))
      else if op = GETFIELD3 then Some (Next (s\<lparr>i_accu := Field (mem_of s) (i_accu s) 3\<rparr>))
      else if op = GETFIELD then Some (Next (adv 1 (s\<lparr>i_accu := Field (mem_of s) (i_accu s) (argw s 0)\<rparr>)))
      else if op = GETFLOATFIELD then Some (let d = Field (mem_of s) (i_accu s) (argw s 0) in
        alloc_small (adv 1 s) 1 Double_tag (\<lambda>s v. Next ((set_mem s (Set_Field (mem_of s) v 0 d))\<lparr>i_accu := v\<rparr>)))
      else if op = SETFIELD0 then Some (peek s 0 (\<lambda>v. pop (caml_modify s (i_accu s) 0 v) 1 (\<lambda>s. Next (s\<lparr>i_accu := Val_unit\<rparr>))))
      else if op = SETFIELD1 then Some (peek s 0 (\<lambda>v. pop (caml_modify s (i_accu s) 1 v) 1 (\<lambda>s. Next (s\<lparr>i_accu := Val_unit\<rparr>))))
      else if op = SETFIELD2 then Some (peek s 0 (\<lambda>v. pop (caml_modify s (i_accu s) 2 v) 1 (\<lambda>s. Next (s\<lparr>i_accu := Val_unit\<rparr>))))
      else if op = SETFIELD3 then Some (peek s 0 (\<lambda>v. pop (caml_modify s (i_accu s) 3 v) 1 (\<lambda>s. Next (s\<lparr>i_accu := Val_unit\<rparr>))))
      else if op = SETFIELD then Some (peek s 0 (\<lambda>v. pop (caml_modify s (i_accu s) (argw s 0) v) 1 (\<lambda>s. Next (adv 1 (s\<lparr>i_accu := Val_unit\<rparr>)))))
      else if op = SETFLOATFIELD then Some (peek s 0 (\<lambda>v. pop (set_mem s (Set_Field (mem_of s) (i_accu s) (argw s 0) (load64 (mem_of s) v))) 1 (\<lambda>s. Next (adv 1 (s\<lparr>i_accu := Val_unit\<rparr>)))))
      else None)"

text \<open>Arrays and strings.\<close>

definition exec_array :: "u32 \<Rightarrow> interp \<Rightarrow> outcome option" where
  "exec_array op s =
     (if op = VECTLENGTH then Some (Next (s\<lparr>i_accu := Val_long (Wosize_val (mem_of s) (i_accu s))\<rparr>))
      else if op = GETVECTITEM then Some (peek s 0 (\<lambda>i. pop (s\<lparr>i_accu := Field (mem_of s) (i_accu s) (Long_val i)\<rparr>) 1 Next))
      else if op = SETVECTITEM then Some (peek s 1 (\<lambda>v. pop ((caml_modify s (i_accu s) (Long_val (i_sp s ! 0)) v)\<lparr>i_accu := Val_unit\<rparr>) 2 Next))
      else if op = GETSTRINGCHAR \<or> op = GETBYTESCHAR then Some (peek s 0 (\<lambda>i. pop (s\<lparr>i_accu := Val_int (ucast (Byte_u (mem_of s) (i_accu s) (Long_val i)))\<rparr>) 1 Next))
      else if op = SETBYTESCHAR then Some (peek s 1 (\<lambda>v. pop ((set_mem s (Set_Byte (mem_of s) (i_accu s) (Long_val (i_sp s ! 0)) (ucast (Int_val v))))\<lparr>i_accu := Val_unit\<rparr>) 2 Next))
      else None)"

definition branch_if :: "bool \<Rightarrow> interp \<Rightarrow> outcome" where
  "branch_if b s = Next (if b then s\<lparr>i_pc := target s 0\<rparr> else adv 1 s)"

definition switch :: "interp \<Rightarrow> outcome" where
  "switch s =
     (let sizes = arg s 0; s = adv 1 s;
          index = (if Is_block (i_accu s) then ucast (sizes AND 0xFFFF) + ucast (Tag_val (mem_of s) (i_accu s))
                   else Long_val (i_accu s)) in
      Next (s\<lparr>i_pc := i_pc s + 4 * scast (i_code s (i_pc s + 4 * index))\<rparr>))"

text \<open>Branches and conditional branches.\<close>

definition exec_branch :: "u32 \<Rightarrow> interp \<Rightarrow> outcome option" where
  "exec_branch op s =
     (if op = BRANCH then Some (branch_if True s)
      else if op = BRANCHIF then Some (branch_if (i_accu s \<noteq> Val_false) s)
      else if op = BRANCHIFNOT then Some (branch_if (i_accu s = Val_false) s)
      else if op = SWITCH then Some (switch s)
      else if op = BOOLNOT then Some (Next (s\<lparr>i_accu := Val_not (i_accu s)\<rparr>))
      else None)"

definition pushtrap :: "interp \<Rightarrow> outcome" where
  "pushtrap s =
     (let sp = target s 0 # Val_long (i_trap_sp_off s) # i_env s # Val_long (i_extra_args s) # i_sp s in
      Next (adv 1 (s\<lparr>i_sp := sp, i_trap_sp_off := - of_nat (length sp)\<rparr>)))"

definition poptrap :: "interp \<Rightarrow> outcome" where
  "poptrap s =
     (if Caml_check_gc_interrupt (i_heap s) then Left
      else peek s 1 (\<lambda>link. pop (s\<lparr>i_trap_sp_off := Long_val link\<rparr>) 4 Next))"

text \<open>Exceptions and signals.\<close>

definition exec_exception :: "u32 \<Rightarrow> interp \<Rightarrow> outcome option" where
  "exec_exception op s =
     (if op = PUSHTRAP then Some (pushtrap s)
      else if op = POPTRAP then Some (poptrap s)
      else if op = RAISE_NOTRACE \<or> op = RERAISE \<or> op = RAISE then Some (Raise_notrace s)
      else if op = CHECK_SIGNALS then Some (check_signals s)
      else None)"

text \<open>
  A call of the primitive \<open>pc[0]\<close> with the arguments \<open>args\<close>. \<open>Setup_for_c_call\<close> pushes a frame that \<open>Restore_after_c_call\<close>
  pops; an exception is raised with the frame in place.
\<close>

definition c_call :: "runtime \<Rightarrow> interp \<Rightarrow> val list \<Rightarrow> nat \<Rightarrow> outcome" where
  "c_call rt s args npop =
     (case rt_prim rt (arg s 0) (i_heap s) args of
        None \<Rightarrow> Left
      | Some (h, Inl exn) \<Rightarrow> raise_from_c (s\<lparr>i_heap := h\<rparr>) exn
      | Some (h, Inr v) \<Rightarrow> pop (s\<lparr>i_heap := h, i_accu := v\<rparr>) npop (\<lambda>s. Next (adv 1 s)))"

text \<open>Calls of C functions.\<close>

definition exec_ccall :: "runtime \<Rightarrow> u32 \<Rightarrow> interp \<Rightarrow> outcome option" where
  "exec_ccall rt op s =
     (if op = C_CALL1 then Some (c_call rt s [i_accu s] 0)
      else if op = C_CALL2 then Some (peek s 0 (\<lambda>_. c_call rt s (i_accu s # take 1 (i_sp s)) 1))
      else if op = C_CALL3 then Some (peek s 1 (\<lambda>_. c_call rt s (i_accu s # take 2 (i_sp s)) 2))
      else if op = C_CALL4 then Some (peek s 2 (\<lambda>_. c_call rt s (i_accu s # take 3 (i_sp s)) 3))
      else if op = C_CALL5 then Some (peek s 3 (\<lambda>_. c_call rt s (i_accu s # take 4 (i_sp s)) 4))
      else if op = C_CALLN then Some (let nargs = argn s 0; s = push_accu (adv 1 s) in
        if length (i_sp s) < nargs then Undefined else c_call rt s (take nargs (i_sp s)) nargs)
      else None)"

text \<open>Integer constants.\<close>

definition exec_const :: "u32 \<Rightarrow> interp \<Rightarrow> outcome option" where
  "exec_const op s =
     (if op = CONST0 then Some (Next (s\<lparr>i_accu := Val_int 0\<rparr>))
      else if op = CONST1 then Some (Next (s\<lparr>i_accu := Val_int 1\<rparr>))
      else if op = CONST2 then Some (Next (s\<lparr>i_accu := Val_int 2\<rparr>))
      else if op = CONST3 then Some (Next (s\<lparr>i_accu := Val_int 3\<rparr>))
      else if op = PUSHCONST0 then Some (Next ((push_accu s)\<lparr>i_accu := Val_int 0\<rparr>))
      else if op = PUSHCONST1 then Some (Next ((push_accu s)\<lparr>i_accu := Val_int 1\<rparr>))
      else if op = PUSHCONST2 then Some (Next ((push_accu s)\<lparr>i_accu := Val_int 2\<rparr>))
      else if op = PUSHCONST3 then Some (Next ((push_accu s)\<lparr>i_accu := Val_int 3\<rparr>))
      else if op = PUSHCONSTINT then Some (Next (adv 1 ((push_accu s)\<lparr>i_accu := Val_int (arg s 0)\<rparr>)))
      else if op = CONSTINT then Some (Next (adv 1 (s\<lparr>i_accu := Val_int (arg s 0)\<rparr>)))
      else None)"

text \<open>A binary operation on the accumulator and the popped top of the stack.\<close>

definition binop :: "interp \<Rightarrow> (val \<Rightarrow> val \<Rightarrow> val) \<Rightarrow> outcome" where
  "binop s f = peek s 0 (\<lambda>v. pop (s\<lparr>i_accu := f (i_accu s) v\<rparr>) 1 Next)"

definition shift_op :: "interp \<Rightarrow> (val \<Rightarrow> nat \<Rightarrow> val) \<Rightarrow> outcome" where
  "shift_op s f = peek s 0 (\<lambda>v. if unat (Long_val v) < 64
     then pop (s\<lparr>i_accu := f (i_accu s) (unat (Long_val v))\<rparr>) 1 Next else Undefined)"

definition div_op :: "runtime \<Rightarrow> interp \<Rightarrow> (u64 \<Rightarrow> u64 \<Rightarrow> u64) \<Rightarrow> outcome" where
  "div_op rt s f = peek s 0 (\<lambda>v. pop s 1 (\<lambda>s.
     if Long_val v = 0 then raise_from_c s (rt_zero_divide rt)
     else Next (s\<lparr>i_accu := Val_long (f (Long_val (i_accu s)) (Long_val v))\<rparr>)))"

text \<open>Integer arithmetic.\<close>

definition exec_arith :: "runtime \<Rightarrow> u32 \<Rightarrow> interp \<Rightarrow> outcome option" where
  "exec_arith rt op s =
     (if op = NEGINT then Some (Next (s\<lparr>i_accu := 2 - i_accu s\<rparr>))
      else if op = ADDINT then Some (binop s (\<lambda>a b. a + b - 1))
      else if op = SUBINT then Some (binop s (\<lambda>a b. a - b + 1))
      else if op = MULINT then Some (binop s (\<lambda>a b. Val_long (Long_val a * Long_val b)))
      else if op = DIVINT then Some (div_op rt s c_sdiv)
      else if op = MODINT then Some (div_op rt s c_smod)
      else if op = ANDINT then Some (binop s (\<lambda>a b. a AND b))
      else if op = ORINT then Some (binop s (\<lambda>a b. a OR b))
      else if op = XORINT then Some (binop s (\<lambda>a b. (a XOR b) OR 1))
      else if op = LSLINT then Some (shift_op s (\<lambda>a n. push_bit n (a - 1) + 1))
      else if op = LSRINT then Some (shift_op s (\<lambda>a n. drop_bit n a OR 1))
      else if op = ASRINT then Some (shift_op s (\<lambda>a n. signed_drop_bit n a OR 1))
      else None)"

text \<open>Integer comparison (macro \<open>Integer_comparison\<close>).\<close>

definition exec_compare :: "u32 \<Rightarrow> interp \<Rightarrow> outcome option" where
  "exec_compare op s =
     (if op = EQ then Some (binop s (\<lambda>a b. Val_int (of_bool (a = b))))
      else if op = NEQ then Some (binop s (\<lambda>a b. Val_int (of_bool (a \<noteq> b))))
      else if op = LTINT then Some (binop s (\<lambda>a b. Val_int (of_bool (a <s b))))
      else if op = LEINT then Some (binop s (\<lambda>a b. Val_int (of_bool (a \<le>s b))))
      else if op = GTINT then Some (binop s (\<lambda>a b. Val_int (of_bool (b <s a))))
      else if op = GEINT then Some (binop s (\<lambda>a b. Val_int (of_bool (b \<le>s a))))
      else if op = ULTINT then Some (binop s (\<lambda>a b. Val_int (of_bool (a < b))))
      else if op = UGEINT then Some (binop s (\<lambda>a b. Val_int (of_bool (b \<le> a))))
      else None)"

definition branch_compare :: "interp \<Rightarrow> (u64 \<Rightarrow> u64 \<Rightarrow> bool) \<Rightarrow> outcome" where
  "branch_compare s test = branch_if (test (argw s 0) (Long_val (i_accu s))) (adv 1 s)"

text \<open>Comparison with a constant and branch (macro \<open>Integer_branch_comparison\<close>).\<close>

definition exec_branch_compare :: "u32 \<Rightarrow> interp \<Rightarrow> outcome option" where
  "exec_branch_compare op s =
     (if op = BEQ then Some (branch_compare s (\<lambda>a b. a = b))
      else if op = BNEQ then Some (branch_compare s (\<lambda>a b. a \<noteq> b))
      else if op = BLTINT then Some (branch_compare s (\<lambda>a b. a <s b))
      else if op = BLEINT then Some (branch_compare s (\<lambda>a b. a \<le>s b))
      else if op = BGTINT then Some (branch_compare s (\<lambda>a b. b <s a))
      else if op = BGEINT then Some (branch_compare s (\<lambda>a b. b \<le>s a))
      else if op = BULTINT then Some (branch_compare s (\<lambda>a b. a < b))
      else if op = BUGEINT then Some (branch_compare s (\<lambda>a b. b \<le> a))
      else None)"

text \<open>Addition of constants.\<close>

definition exec_offset :: "u32 \<Rightarrow> interp \<Rightarrow> outcome option" where
  "exec_offset op s =
     (if op = OFFSETINT then Some (Next (adv 1 (s\<lparr>i_accu := i_accu s + scast (push_bit 1 (arg s 0))\<rparr>)))
      else if op = OFFSETREF then Some (Next (adv 1 ((set_mem s (Set_Field (mem_of s) (i_accu s) 0 (Field (mem_of s) (i_accu s) 0 + scast (push_bit 1 (arg s 0)))))\<lparr>i_accu := Val_unit\<rparr>)))
      else if op = ISINT then Some (Next (s\<lparr>i_accu := Val_long (i_accu s AND 1)\<rparr>))
      else None)"

text \<open>
  The binary search for a method: the labels are the odd fields from 3 to \<open>hi\<close> of the method table, in increasing
  order, and each method precedes its label. \<open>li\<close>, \<open>hi\<close> and \<open>mi\<close> are of the C type \<open>int\<close>; \<open>None\<close> is a search that never ends.
\<close>

partial_function (option) method_search :: "mem \<Rightarrow> val \<Rightarrow> val \<Rightarrow> u32 \<Rightarrow> u32 \<Rightarrow> u32 option" where
  "method_search m meths tag li hi =
     (if li <s hi then
        let mi = signed_drop_bit 1 (li + hi) OR 1 in
        if tag <s Field m meths (scast mi) then method_search m meths tag li (mi - 2)
        else method_search m meths tag mi hi
      else Some li)"

definition find_method :: "mem \<Rightarrow> val \<Rightarrow> val \<Rightarrow> u32 option" where
  "find_method m meths tag = method_search m meths tag 3 (ucast (Field m meths 0))"

text \<open>\<open>GETPUBMET\<close> looks first at the offset that the instruction caches in its second operand.\<close>

definition getpubmet :: "interp \<Rightarrow> outcome" where
  "getpubmet s =
     (let m = mem_of s; meths = Field m (i_accu s) 0; tag = Val_int (arg s 0);
          ofs = argw s 1 AND Field m meths 1; s' = adv 2 (push_accu s) in
      if load64 m (meths + 8 * 3 + ofs) = tag then Next (s'\<lparr>i_accu := load64 m (meths + 8 * 2 + ofs)\<rparr>)
      else case find_method m meths tag of
        None \<Rightarrow> Undefined
      | Some li \<Rightarrow> Next (s'\<lparr>i_code := (i_code s)(i_pc s + 4 := (li - 3) * 8), i_accu := Field m meths (scast (li - 1))\<rparr>))"

definition getdynmet :: "interp \<Rightarrow> outcome" where
  "getdynmet s = peek s 0 (\<lambda>obj.
     let m = mem_of s; meths = Field m obj 0 in
     case find_method m meths (i_accu s) of
       None \<Rightarrow> Undefined
     | Some li \<Rightarrow> Next (s\<lparr>i_accu := Field m meths (scast (li - 1))\<rparr>))"

text \<open>Object-oriented operations.\<close>

definition exec_method :: "u32 \<Rightarrow> interp \<Rightarrow> outcome option" where
  "exec_method op s =
     (if op = GETMETHOD then Some (peek s 0 (\<lambda>obj. Next (s\<lparr>i_accu := Field (mem_of s) (Field (mem_of s) obj 0) (scast (Int_val (i_accu s)))\<rparr>)))
      else if op = GETPUBMET then Some (getpubmet s)
      else if op = GETDYNMET then Some (getdynmet s)
      else None)"

subsection \<open>Context switching\<close>

datatype resume_action =
    Resume_call_fn val
  | Resume_return
  | Resume_raise
  | Resume_reraise

text \<open>
  The label \<open>do_resume\<close>: \<open>accu\<close> holds the stack to resume, \<open>res_arg\<close> and \<open>tail\<close> are \<open>resume_arg\<close> and \<open>resume_tail\<close>, and
  \<open>resume_fn\<close> is an argument of \<open>Resume_call_fn\<close>.
\<close>

definition do_resume :: "runtime \<Rightarrow> interp \<Rightarrow> resume_action \<Rightarrow> val \<Rightarrow> addr \<Rightarrow> outcome" where
  "do_resume rt s action res_arg tail =
     (let stk = Ptr_val (i_accu s) in
      if stk = 0 then raise_from_c s (rt_continuation_already_resumed rt)
      else
        let tail = (if tail = 0 then stk else tail) in
        case (i_stacks s tail, i_stacks s (i_current_stack s)) of
          (Some t, Some cur) \<Rightarrow>
            let stacks = (i_stacks s)(i_current_stack s \<mapsto> cur\<lparr>st_sp := i_sp s\<rparr>);
                stacks = stacks(tail \<mapsto> (case stacks tail of Some t \<Rightarrow> t | None \<Rightarrow> t)\<lparr>st_parent := i_current_stack s\<rparr>) in
            (case stacks stk of
               None \<Rightarrow> Undefined
             | Some new \<Rightarrow>
                 (case st_sp new of
                    [] \<Rightarrow> Undefined
                  | trap # rest \<Rightarrow>
                      let s = s\<lparr>i_stacks := stacks, i_current_stack := stk, i_trap_sp_off := Long_val trap,
                                 i_dynamic_bindings := caml_dynamic_cache_flush (i_dynamic_bindings s)\<rparr> in
                      (case action of
                         Resume_call_fn fn \<Rightarrow> call_accu (s\<lparr>i_sp := res_arg # rest, i_accu := fn\<rparr>) 0
                       | Resume_return \<Rightarrow>
                           (case rest of
                              pc # env # extra # rest' \<Rightarrow>
                                Check_stacks (s\<lparr>i_sp := rest', i_accu := res_arg, i_pc := pc, i_env := env,
                                  i_extra_args := Long_val extra\<rparr>)
                            | _ \<Rightarrow> Undefined)
                       | Resume_raise \<Rightarrow> Raise_notrace (s\<lparr>i_sp := trap # rest, i_accu := res_arg\<rparr>)
                       | Resume_reraise \<Rightarrow> Raise_notrace (s\<lparr>i_sp := trap # rest, i_accu := res_arg\<rparr>))))
        | _ \<Rightarrow> Undefined)"

text \<open>\<open>caml_continuation_use_noexc\<close> (\<open>runtime/fiber.c\<close>) for a domain that runs alone: takes the stack out of the continuation.\<close>

definition caml_continuation_use_noexc :: "interp \<Rightarrow> val \<Rightarrow> interp \<times> val" where
  "caml_continuation_use_noexc s cont =
     (set_mem s (Set_Field (mem_of s) cont 0 (Val_ptr 0)), Field (mem_of s) cont 0)"

text \<open>
  \<open>CONTINUE\<close>, \<open>DISCONTINUE\<close> and \<open>DISCONTINUE_WITH_BACKTRACE\<close> with \<open>n\<close> arguments on the stack, which the frame
  to return to replaces, and their tail-call variants, which drop the frame of the caller.
\<close>

definition resume_cont :: "runtime \<Rightarrow> interp \<Rightarrow> resume_action \<Rightarrow> nat \<Rightarrow> outcome" where
  "resume_cont rt s action n = peek s (n - 1) (\<lambda>_.
     let cont = i_accu s; arg = i_sp s ! 0; tail = Ptr_val (Field (mem_of s) cont 1);
         (s, stk) = caml_continuation_use_noexc s cont in
     do_resume rt (s\<lparr>i_accu := stk,
       i_sp := Val_long (i_trap_sp_off s) # Val_long 0 # i_pc s # i_env s # Val_long (i_extra_args s) # drop n (i_sp s)\<rparr>)
       action arg tail)"

definition resume_cont_term :: "runtime \<Rightarrow> interp \<Rightarrow> resume_action \<Rightarrow> nat \<Rightarrow> outcome" where
  "resume_cont_term rt s action n = peek s (n - 1) (\<lambda>_.
     let cont = i_accu s; arg = i_sp s ! 0; tail = Ptr_val (Field (mem_of s) cont 1); slots = argn s 0;
         (s, stk) = caml_continuation_use_noexc s cont in
     if slots < 2 \<or> length (i_sp s) < slots then Undefined
     else do_resume rt (s\<lparr>i_accu := stk,
       i_sp := Val_long (i_trap_sp_off s) # Val_long (i_extra_args s) # drop slots (i_sp s)\<rparr>) action arg tail)"

definition perform :: "runtime \<Rightarrow> interp \<Rightarrow> outcome" where
  "perform rt s =
     (case i_stacks s (i_current_stack s) of
        None \<Rightarrow> Undefined
      | Some old \<Rightarrow>
          if st_handle_effect old = Val_unit then
            (case rt_unhandled_effect rt (i_heap s) (i_accu s) of
               None \<Rightarrow> Left
             | Some (h, exn) \<Rightarrow> Raise_notrace (s\<lparr>i_heap := h, i_accu := exn\<rparr>))
          else
            alloc_small s 2 Cont_tag (\<lambda>s cont.
              let old_stack = i_current_stack s;
                  sp = Val_long (i_trap_sp_off s) # i_pc s # i_env s # Val_long (i_extra_args s) # i_sp s in
              case i_stacks s (st_parent old) of
                None \<Rightarrow> Undefined
              | Some parent \<Rightarrow>
                  (case st_sp parent of
                     trap # extra # rest \<Rightarrow>
                       let s = set_mem s (Set_Field (Set_Field (mem_of s) cont 0 (Val_ptr old_stack)) cont 1 (Val_ptr old_stack)) in
                       call_accu (s\<lparr>i_stacks := (i_stacks s)(old_stack \<mapsto> old\<lparr>st_sp := sp, st_parent := 0\<rparr>),
                           i_current_stack := st_parent old, i_trap_sp_off := Long_val trap,
                           i_dynamic_bindings := caml_dynamic_cache_flush (i_dynamic_bindings s),
                           i_sp := i_accu s # cont # Val_ptr old_stack # rest, i_accu := st_handle_effect old\<rparr>)
                         (Long_val extra + 2)
                   | _ \<Rightarrow> Undefined)))"

definition reperformterm :: "runtime \<Rightarrow> interp \<Rightarrow> outcome" where
  "reperformterm rt s = peek s 1 (\<lambda>tailv.
     let eff = i_accu s; cont = i_sp s ! 0; cont_tail = Ptr_val tailv; self = i_current_stack s; slots = argn s 0 in
     if slots < 2 \<or> length (i_sp s) < slots then Undefined
     else
       let s = s\<lparr>i_sp := Val_long (i_trap_sp_off s) # Val_long (i_extra_args s) # drop slots (i_sp s)\<rparr> in
       case i_stacks s self of
         None \<Rightarrow> Undefined
       | Some selfi \<Rightarrow>
           if st_handle_effect selfi = Val_unit then
             (case rt_unhandled_effect rt (i_heap s) eff of
                None \<Rightarrow> Left
              | Some (h, exn) \<Rightarrow>
                  let (s, stk) = caml_continuation_use_noexc (s\<lparr>i_heap := h\<rparr>) cont in
                  if stk = Val_ptr 0 then raise_from_c s (rt_continuation_already_resumed rt)
                  else do_resume rt (s\<lparr>i_accu := stk\<rparr>) Resume_raise exn cont_tail)
           else
             (case (i_stacks s (st_parent selfi), i_stacks s cont_tail) of
                (Some parent, Some t) \<Rightarrow>
                  (case st_sp parent of
                     trap # extra # rest \<Rightarrow>
                       call_accu ((set_mem s (Set_Field (mem_of s) cont 1 (Val_ptr self)))\<lparr>
                           i_stacks := (i_stacks s)(self \<mapsto> selfi\<lparr>st_sp := i_sp s, st_parent := 0\<rparr>,
                             cont_tail \<mapsto> t\<lparr>st_parent := self\<rparr>),
                           i_current_stack := st_parent selfi, i_trap_sp_off := Long_val trap,
                           i_dynamic_bindings := caml_dynamic_cache_flush (i_dynamic_bindings s),
                           i_sp := eff # cont # Val_ptr self # rest, i_accu := st_handle_effect selfi\<rparr>)
                         (Long_val extra + 2)
                   | _ \<Rightarrow> Undefined)
              | _ \<Rightarrow> Undefined))"

text \<open>\<open>caml_alloc_stack\<close> and \<open>caml_alloc_stack_preemptible\<close> (\<open>runtime/fiber.c\<close>), the bytecode versions.\<close>

definition caml_alloc_stack :: "runtime \<Rightarrow> interp \<Rightarrow> val \<Rightarrow> val \<Rightarrow> val \<Rightarrow> val \<Rightarrow> (interp \<times> val) option" where
  "caml_alloc_stack rt s hval hexn heff htick =
     (case rt_alloc_stack rt (i_stacks s) (rt_fiber_wsz rt) of
        None \<Rightarrow> None
      | Some stack \<Rightarrow>
          Some (s\<lparr>i_stacks := (i_stacks s)(stack \<mapsto> \<lparr>st_sp = [Val_long 1], st_wsize = rt_fiber_wsz rt, st_handle_value = hval,
            st_handle_exn = hexn, st_handle_effect = heff, st_handle_tick = htick, st_parent = 0\<rparr>)\<rparr>, Val_ptr stack))"

text \<open>\<open>WITH_STACK\<close> and \<open>WITH_STACK_PREEMPTIBLE\<close>, with \<open>n\<close> handlers on the stack before the function and its argument.\<close>

definition with_stack :: "runtime \<Rightarrow> interp \<Rightarrow> nat \<Rightarrow> outcome" where
  "with_stack rt s n = peek s (n + 1) (\<lambda>arg.
     let fn = i_sp s ! n in
     case caml_alloc_stack rt s (i_accu s) (i_sp s ! 0) (i_sp s ! 1) (if n = 2 then Val_null else i_sp s ! 2) of
       None \<Rightarrow> raise_from_c s (rt_out_of_memory rt)
     | Some (s, stk) \<Rightarrow>
         do_resume rt (s\<lparr>i_accu := stk,
           i_sp := Val_long (i_trap_sp_off s) # Val_long 0 # i_pc s # i_env s # Val_long (i_extra_args s) # drop (n + 2) (i_sp s)\<rparr>)
           (Resume_call_fn fn) arg 0)"

text \<open>Effect handlers and continuations.\<close>

definition exec_effect :: "runtime \<Rightarrow> u32 \<Rightarrow> interp \<Rightarrow> outcome option" where
  "exec_effect rt op s =
     (if op = CONTINUE then Some (resume_cont rt s Resume_return 1)
      else if op = DISCONTINUE then Some (resume_cont rt s Resume_raise 1)
      else if op = DISCONTINUE_WITH_BACKTRACE then Some (resume_cont rt s Resume_reraise 2)
      else if op = CONTINUETERM then Some (resume_cont_term rt s Resume_return 1)
      else if op = DISCONTINUETERM then Some (resume_cont_term rt s Resume_raise 1)
      else if op = DISCONTINUE_WITH_BACKTRACETERM then Some (resume_cont_term rt s Resume_reraise 2)
      else if op = PERFORM then Some (perform rt s)
      else if op = REPERFORMTERM then Some (reperformterm rt s)
      else if op = WITH_STACK then Some (with_stack rt s 2)
      else if op = WITH_STACK_PREEMPTIBLE then Some (with_stack rt s 3)
      else None)"

text \<open>Machine control; the debugger instructions leave the model.\<close>

definition exec_control :: "u32 \<Rightarrow> interp \<Rightarrow> outcome option" where
  "exec_control op s =
     (if op = STOP then Some (Stop (i_accu s) (s\<lparr>i_trap_sp_off := i_initial_trap_sp_off s\<rparr>))
      else if op = EVENT \<or> op = BREAK then Some Left
      else None)"

subsection \<open>The machine\<close>

definition or_else :: "outcome option \<Rightarrow> outcome \<Rightarrow> outcome" where
  "or_else x y = (case x of Some r \<Rightarrow> r | None \<Rightarrow> y)"

text \<open>\<open>curr_instr = *pc++; switch (curr_instr)\<close>\<close>

definition exec_instr :: "runtime \<Rightarrow> interp \<Rightarrow> outcome" where
  "exec_instr rt s0 =
     (let op = arg s0 0; s = adv 1 s0 in
      or_else (exec_stack op s) (or_else (exec_env op s) (or_else (exec_apply op s) (or_else (exec_appterm op s)
      (or_else (exec_return op s) (or_else (exec_closure op s) (or_else (exec_global op s) (or_else (exec_makeblock op s)
      (or_else (exec_field op s) (or_else (exec_array op s) (or_else (exec_branch op s) (or_else (exec_exception op s)
      (or_else (exec_ccall rt op s) (or_else (exec_const op s) (or_else (exec_arith rt op s) (or_else (exec_compare op s)
      (or_else (exec_branch_compare op s) (or_else (exec_offset op s) (or_else (exec_method op s) (or_else (exec_control op s)
      (or_else (exec_effect rt op s) Undefined)))))))))))))))))))))"

text \<open>One step: an instruction, or the code at one of the two labels.\<close>

fun step :: "runtime \<Rightarrow> outcome \<Rightarrow> outcome" where
  "step rt (Next s) = exec_instr rt s"
| "step rt (Check_stacks s) = check_stacks rt s"
| "step rt (Raise_notrace s) = raise_notrace s"
| "step rt c = c"

text \<open>The initial state of \<open>caml_bytecode_interpreter (prog, prog_size, initial_env, initial_extra_args)\<close>, and the states it reaches.\<close>

definition caml_bytecode_interpreter :: "interp \<Rightarrow> addr \<Rightarrow> val \<Rightarrow> u64 \<Rightarrow> interp" where
  "caml_bytecode_interpreter s prog initial_env initial_extra_args =
     s\<lparr>i_initial_trap_sp_off := i_trap_sp_off s, i_initial_stack_words := length (i_sp s), i_trap_sp_off := 1,
       i_pc := prog, i_extra_args := initial_extra_args, i_env := initial_env, i_accu := Val_int 0\<rparr>"

inductive steps :: "runtime \<Rightarrow> outcome \<Rightarrow> outcome \<Rightarrow> bool" for rt where
  steps_refl: "steps rt c c"
| steps_step: "steps rt (step rt c) d \<Longrightarrow> steps rt c d"

section \<open>Properties\<close>

lemmas exec_groups = exec_stack_def exec_env_def exec_apply_def exec_appterm_def exec_return_def exec_closure_def
  exec_global_def exec_makeblock_def exec_field_def exec_array_def exec_branch_def exec_exception_def exec_ccall_def
  exec_const_def exec_arith_def exec_compare_def exec_branch_compare_def exec_offset_def exec_method_def
  exec_control_def exec_effect_def

lemmas dispatch = exec_instr_def exec_groups or_else_def Let_def

subsection \<open>Integer instructions\<close>

text \<open>The value of a 63-bit integer; integers out of range wrap around.\<close>

definition ml_int :: "int \<Rightarrow> val" where "ml_int a = Val_long (word_of_int a)"

definition ml_range :: "int \<Rightarrow> bool" where "ml_range a \<longleftrightarrow> Min_long \<le> a \<and> a \<le> Max_long"

text \<open>What the binary instructions compute on integers; \<open>None\<close> is a division by zero.\<close>

definition int_instr :: "u32 \<Rightarrow> int \<Rightarrow> int \<Rightarrow> int option" where
  "int_instr op a b =
     (if op = ADDINT then Some (a + b)
      else if op = SUBINT then Some (a - b)
      else if op = MULINT then Some (a * b)
      else if op = DIVINT then (if b = 0 then None else Some (a sdiv b))
      else if op = MODINT then (if b = 0 then None else Some (a smod b))
      else if op = ANDINT then Some (a AND b)
      else if op = ORINT then Some (a OR b)
      else if op = XORINT then Some (a XOR b)
      else if op = LSLINT then Some (a * 2 ^ nat b)
      else if op = LSRINT then Some (a mod 2 ^ 63 div 2 ^ nat b)
      else if op = ASRINT then Some (a div 2 ^ nat b)
      else if op = EQ then Some (of_bool (a = b))
      else if op = NEQ then Some (of_bool (a \<noteq> b))
      else if op = LTINT then Some (of_bool (a < b))
      else if op = LEINT then Some (of_bool (a \<le> b))
      else if op = GTINT then Some (of_bool (a > b))
      else if op = GEINT then Some (of_bool (a \<ge> b))
      else if op = ULTINT then Some (of_bool (a mod 2 ^ 63 < b mod 2 ^ 63))
      else Some (of_bool (a mod 2 ^ 63 \<ge> b mod 2 ^ 63)))"

lemma ml_int_word: "ml_int a = word_of_int (2 * a + 1)"
  by (simp add: ml_int_def Val_long_def)

lemma sint_ml_int: "ml_range a \<Longrightarrow> sint (ml_int a) = 2 * a + 1"
  unfolding ml_int_word by (rule sint_word_of_int_range) (auto simp: ml_range_def Min_long_def Max_long_def)

lemma word_of_int_sint_eq: "word_of_int (sint w) = (w :: u64)"
  by simp

lemma uint_ml_int: "uint (ml_int a) = 2 * (a mod 2 ^ 63) + 1"
proof -
  have "(2 * a + 1) mod (2 * 2 ^ 63) = 2 * (a mod 2 ^ 63) + (1 :: int)"
    using pos_zmod_mult_2 [of "2 ^ 63" a] by (simp add: add.commute)
  then show ?thesis unfolding ml_int_word uint_word_of_int by simp
qed

lemma Long_val_ml_int: "ml_range a \<Longrightarrow> Long_val (ml_int a) = word_of_int a"
  unfolding ml_int_def
  by (rule Long_val_Val_long_range; subst sint_word_of_int_range)
    (auto simp: ml_range_def Min_long_def Max_long_def)

lemma sint_Long_val_ml_int: "ml_range a \<Longrightarrow> sint (Long_val (ml_int a)) = a"
  by (simp add: sint_Long_val sint_ml_int)

lemma ml_int_inject: "ml_range a \<Longrightarrow> ml_range b \<Longrightarrow> ml_int a = ml_int b \<longleftrightarrow> a = b"
  by (metis sint_Long_val_ml_int)

lemma ml_int_mult: "ml_range a \<Longrightarrow> ml_range b \<Longrightarrow> Val_long (Long_val (ml_int a) * Long_val (ml_int b)) = ml_int (a * b)"
  by (simp add: Long_val_ml_int) (simp add: ml_int_def)

lemma ml_int_bitwise:
  "ml_int a AND ml_int b = ml_int (a AND b)"
  "ml_int a OR ml_int b = ml_int (a OR b)"
  "(ml_int a XOR ml_int b) OR 1 = ml_int (a XOR b)"
  unfolding ml_int_def by (rule bit_word_eqI; auto simp: bit_simps tag_simps)+

lemma ml_int_lsl: "push_bit n (ml_int a - 1) + 1 = ml_int (a * 2 ^ n)"
  by (simp add: ml_int_word push_bit_eq_mult)

lemma ml_int_lsr: "drop_bit n (ml_int a) OR 1 = ml_int (a mod 2 ^ 63 div 2 ^ n)"
proof -
  have "drop_bit n (Val_long (word_of_int a)) OR 1 = Val_long (word_of_int (drop_bit n (take_bit 63 a)))"
    by (rule bit_word_eqI) (auto simp: bit_simps tag_simps)
  then show ?thesis by (simp add: ml_int_def take_bit_eq_mod drop_bit_eq_div)
qed

lemma odd_div_pow_or_1: "((2 * a + 1) div 2 ^ n OR 1) = 2 * (a div 2 ^ n) + (1 :: int)"
proof (cases n)
  case (Suc k)
  have d: "(2 * a + 1) div 2 ^ n = a div 2 ^ k" by (simp add: Suc div_mult2_eq zdiv_zmult2_eq)
  have h: "a div 2 ^ n = a div 2 ^ k div 2" unfolding Suc power_Suc2 by (rule zdiv_zmult2_eq) simp
  show ?thesis unfolding d h by (auto simp: or_one_eq elim: oddE evenE)
qed (simp add: or_one_eq)

lemma ml_int_asr:
  assumes "ml_range a"
  shows "signed_drop_bit n (ml_int a) OR 1 = ml_int (a div 2 ^ n)"
proof -
  have "sint (signed_drop_bit n (ml_int a)) = (2 * a + 1) div 2 ^ n"
    by (simp add: sint_signed_drop_bit_eq sint_ml_int [OF assms] drop_bit_eq_div)
  then have "signed_drop_bit n (ml_int a) = word_of_int ((2 * a + 1) div 2 ^ n)"
    by (metis word_of_int_sint_eq)
  then have "signed_drop_bit n (ml_int a) OR 1 = word_of_int ((2 * a + 1) div 2 ^ n OR 1)"
    by (simp add: of_int_or_eq)
  then show ?thesis by (simp only: odd_div_pow_or_1 ml_int_word)
qed

lemma Val_int_of_bool: "Val_int (of_bool p) = ml_int (of_bool p)"
  by (simp add: Val_int_def ml_int_def)

lemma shift_op_ml_int:
  assumes sp: "i_sp s = ml_int b # rest" and b: "0 \<le> b" "b < 63"
  shows "shift_op s f = Next (s\<lparr>i_accu := f (i_accu s) (nat b), i_sp := rest\<rparr>)"
proof -
  have "ml_range b" using b by (simp add: ml_range_def Min_long_def Max_long_def)
  moreover have "unat (word_of_int b :: u64) = nat b"
    using b by (simp add: unat_eq_nat_uint uint_word_of_int)
  ultimately show ?thesis using b by (simp add: shift_op_def peek_def pop_def sp Long_val_ml_int)
qed

lemma div_op_ml_int:
  assumes sp: "i_sp s = ml_int b # rest" and ac: "i_accu s = ml_int a" and r: "ml_range a" "ml_range b"
  shows "div_op rt s f = (if b = 0 then raise_from_c (s\<lparr>i_sp := rest\<rparr>) (rt_zero_divide rt)
     else Next (s\<lparr>i_sp := rest, i_accu := Val_long (f (word_of_int a) (word_of_int b))\<rparr>))"
proof -
  have "Long_val (ml_int b) = 0 \<longleftrightarrow> b = 0"
    using sint_Long_val_ml_int [OF r(2)] by (metis sint_0 sint_eqI)
  then show ?thesis by (simp add: div_op_def peek_def pop_def sp ac r Long_val_ml_int)
qed

lemma binop_ml_int:
  "i_sp s = ml_int b # rest \<Longrightarrow> i_accu s = ml_int a \<Longrightarrow>
   binop s f = Next (s\<lparr>i_accu := f (ml_int a) (ml_int b), i_sp := rest\<rparr>)"
  by (simp add: binop_def peek_def pop_def)

lemma sint_word_of_range: "ml_range a \<Longrightarrow> sint (word_of_int a :: u64) = a"
  by (rule sint_word_of_int_range) (auto simp: ml_range_def Min_long_def Max_long_def)

lemmas ml_int_order = word_sless_alt word_sle_eq word_less_def word_le_def

abbreviation arith_ops :: "u32 list" where
  "arith_ops \<equiv> [ADDINT, SUBINT, MULINT, DIVINT, MODINT, ANDINT, ORINT, XORINT, LSLINT, LSRINT, ASRINT]"

abbreviation compare_ops :: "u32 list" where
  "compare_ops \<equiv> [EQ, NEQ, LTINT, LEINT, GTINT, GEINT, ULTINT, UGEINT]"

lemma ml_int_add: "ml_int a + ml_int b - 1 = ml_int (a + b)" "ml_int a - ml_int b + 1 = ml_int (a - b)"
  by (simp_all add: ml_int_word algebra_simps)

lemma set_ConsE: "x \<in> set (y # ys) \<Longrightarrow> (x = y \<Longrightarrow> P) \<Longrightarrow> (x \<in> set ys \<Longrightarrow> P) \<Longrightarrow> P"
  by auto

lemma exec_instr_arith:
  "arg s 0 \<in> set arith_ops \<Longrightarrow> exec_instr rt s = the (exec_arith rt (arg s 0) (adv 1 s))"
  by (elim set_ConsE) (simp_all add: dispatch)

lemma exec_instr_compare:
  "arg s 0 \<in> set compare_ops \<Longrightarrow> exec_instr rt s = the (exec_compare (arg s 0) (adv 1 s))"
  by (elim set_ConsE) (simp_all add: dispatch)

text \<open>
  C22: on tagged integers, each of the nineteen binary integer instructions pops its second operand and leaves
  in the accumulator the tagged result of the operation on integers, wrapped around to 63 bits: arithmetic, truncating division and
  remainder, bitwise operations, logical and arithmetic shifts by less than 63, signed and unsigned comparisons. A zero divisor raises
  \<open>Division_by_zero\<close> after the pop.
\<close>

theorem integer_instructions:
  assumes op: "arg s 0 \<in> set (arith_ops @ compare_ops)" and ac: "i_accu s = ml_int a" and sp: "i_sp s = ml_int b # rest"
    and r: "ml_range a" "ml_range b"
    and sh: "arg s 0 \<in> {LSLINT, LSRINT, ASRINT} \<Longrightarrow> 0 \<le> b \<and> b < 63"
  shows "exec_instr rt s = (case int_instr (arg s 0) a b of
     Some v \<Rightarrow> Next ((adv 1 s)\<lparr>i_accu := ml_int v, i_sp := rest\<rparr>)
   | None \<Rightarrow> raise_from_c ((adv 1 s)\<lparr>i_sp := rest\<rparr>) (rt_zero_divide rt))"
proof -
  have s': "i_sp (adv 1 s) = ml_int b # rest" "i_accu (adv 1 s) = ml_int a" using ac sp by (simp_all add: adv_def)
  note arith = binop_ml_int [OF s'] div_op_ml_int [OF s' r] ml_int_mult [OF r] ml_int_bitwise ml_int_lsl ml_int_lsr
    ml_int_asr [OF r(1)] c_sdiv_def c_smod_def sint_word_of_range r ml_int_add ml_int_def [symmetric]
  note compare = binop_ml_int [OF s'] Val_int_of_bool ml_int_inject [OF r] ml_int_order sint_ml_int r uint_ml_int
  consider "arg s 0 \<in> set arith_ops" | "arg s 0 \<in> set compare_ops" using op by auto
  then show ?thesis
  proof cases
    case 1
    then have "exec_arith rt (arg s 0) (adv 1 s) = Some (case int_instr (arg s 0) a b of
       Some v \<Rightarrow> Next ((adv 1 s)\<lparr>i_accu := ml_int v, i_sp := rest\<rparr>)
     | None \<Rightarrow> raise_from_c ((adv 1 s)\<lparr>i_sp := rest\<rparr>) (rt_zero_divide rt))"
      using sh shift_op_ml_int [OF s'(1)] by (elim set_ConsE)
        (simp_all add: exec_arith_def int_instr_def arith s' del: One_nat_def)
    then show ?thesis by (simp add: exec_instr_arith [OF 1])
  next
    case 2
    then have "exec_compare (arg s 0) (adv 1 s) = Some (case int_instr (arg s 0) a b of
       Some v \<Rightarrow> Next ((adv 1 s)\<lparr>i_accu := ml_int v, i_sp := rest\<rparr>)
     | None \<Rightarrow> raise_from_c ((adv 1 s)\<lparr>i_sp := rest\<rparr>) (rt_zero_divide rt))"
      by (elim set_ConsE) (simp_all add: exec_compare_def int_instr_def compare del: One_nat_def)
    then show ?thesis by (simp add: exec_instr_compare [OF 2])
  qed
qed

text \<open>A machine on one stack, for concrete runs.\<close>

definition main_stack :: stack_info where
  "main_stack = \<lparr>st_sp = [], st_wsize = 4096, st_handle_value = Val_unit, st_handle_exn = Val_unit,
     st_handle_effect = Val_unit, st_handle_tick = Val_null, st_parent = 0\<rparr>"

definition sample_interp :: "u32 list \<Rightarrow> val \<Rightarrow> val list \<Rightarrow> interp" where
  "sample_interp code accu sp =
     \<lparr>i_pc = 0x100, i_sp = sp, i_accu = accu, i_env = Val_unit, i_extra_args = 0, i_trap_sp_off = 1,
       i_current_stack = 0x8000, i_stacks = [0x8000 \<mapsto> main_stack], i_heap = sample_heap,
       i_code = (\<lambda>a. if unat (a - 0x100) div 4 < length code then code ! (unat (a - 0x100) div 4) else STOP),
       i_global_data = Val_unit, i_initial_trap_sp_off = 1, i_initial_stack_words = 0,
       i_dynamic_bindings = replicate 8 (Val_null, Val_unit)\<rparr>"

definition sample_runtime :: runtime where
  "sample_runtime = \<lparr>rt_prim = (\<lambda>_ _ _. None), rt_zero_divide = 0x9000, rt_stack_overflow = 0x9010, rt_out_of_memory = 0x9020,
     rt_continuation_already_resumed = 0x9030, rt_unhandled_effect = (\<lambda>_ _. None), rt_max_stack_wsize = 65536,
     rt_fiber_wsz = 64, rt_alloc_stack = (\<lambda>st _. if st 0xA000 = None then Some 0xA000 else None)\<rparr>"

theorem integer_instructions_witness:
  "exec_instr sample_runtime (sample_interp [LSRINT] (ml_int (- 2)) [ml_int 1]) =
     Next ((adv 1 (sample_interp [LSRINT] (ml_int (- 2)) [ml_int 1]))\<lparr>i_accu := ml_int (2 ^ 62 - 1), i_sp := []\<rparr>)"
proof -
  have op: "arg (sample_interp [LSRINT] (ml_int (- 2)) [ml_int 1]) 0 = LSRINT" by (simp add: arg_def sample_interp_def)
  then show ?thesis
    using integer_instructions [of "sample_interp [LSRINT] (ml_int (- 2)) [ml_int 1]" "- 2" 1 "[]" sample_runtime]
    by (simp add: int_instr_def sample_interp_def ml_range_def Min_long_def Max_long_def)
qed
subsection \<open>Method lookup\<close>

lemma mid_odd:
  assumes "i < 2 ^ 28" "j < 2 ^ 28"
  shows "signed_drop_bit 1 (of_nat (2 * i + 3) + of_nat (2 * j + 3) :: u32) OR 1 = of_nat (2 * ((i + j + 1) div 2) + 3)"
proof -
  let ?w = "of_nat (2 * i + 3) + of_nat (2 * j + 3) :: u32"
  have w: "?w = of_nat (2 * (i + j + 3))" by simp
  have "sint ?w = int (2 * (i + j + 3))" unfolding w by (rule sint_of_nat_u32) (use assms in simp)
  then have "sint (signed_drop_bit 1 ?w) = int (i + j + 3)"
    by (simp add: sint_signed_drop_bit_eq drop_bit_eq_div)
  then have d: "signed_drop_bit 1 ?w = of_nat (i + j + 3)"
    by (metis of_int_of_nat_eq scast_eq scast_id)
  have "(of_nat (i + j + 3) :: u32) OR 1 = of_nat ((i + j + 3) OR 1)"
    by (simp only: of_nat_or_eq of_nat_1)
  also have "(i + j + 3) OR 1 = 2 * ((i + j + 1) div 2) + 3"
    unfolding or_one_eq by (cases "even (i + j)") (auto elim!: evenE oddE)
  finally show ?thesis unfolding d .
qed

text \<open>A method table with the labels \<open>labels\<close>, in increasing order, at the odd fields from 3.\<close>

definition method_table :: "mem \<Rightarrow> val \<Rightarrow> int list \<Rightarrow> bool" where
  "method_table m meths labels \<longleftrightarrow> labels \<noteq> [] \<and> length labels < 2 ^ 28 \<and> sorted_wrt (<) labels \<and>
     Field m meths 0 = Val_long (of_nat (length labels)) \<and>
     (\<forall>k < length labels. sint (Field m meths (of_nat (2 * k + 3))) = labels ! k)"

lemma method_search_finds:
  assumes mt: "method_table m meths labels"
    and "i \<le> k" "k \<le> j" "j < length labels" and tag: "sint tag = labels ! k"
  shows "method_search m meths tag (of_nat (2 * i + 3)) (of_nat (2 * j + 3)) = Some (of_nat (2 * k + 3))"
  using assms(2-4)
proof (induction "j - i" arbitrary: i j rule: less_induct)
  case less
  have n: "length labels < 2 ^ 28" and srt: "sorted_wrt (<) labels" using mt by (auto simp: method_table_def)
  let ?li = "of_nat (2 * i + 3) :: u32" and ?hi = "of_nat (2 * j + 3) :: u32"
  have lt: "?li <s ?hi \<longleftrightarrow> i < j"
  proof -
    have "2 * i + 3 < 2 ^ 31" "2 * j + 3 < 2 ^ 31" using less.prems n by simp_all
    then show ?thesis unfolding word_sless_alt by (simp only: sint_of_nat_u32) simp
  qed
  show ?case
  proof (cases "i < j")
    case False
    then have "i = k" "j = k" using less.prems by auto
    then show ?thesis using lt by (subst method_search.simps) simp
  next
    case True
    define mid where "mid = (i + j + 1) div 2"
    have mid: "i < mid" "mid \<le> j" using True by (auto simp: mid_def)
    have mi: "signed_drop_bit 1 (?li + ?hi) OR 1 = of_nat (2 * mid + 3)"
      unfolding mid_def by (rule mid_odd) (use less.prems n in auto)
    have sc: "scast (of_nat (2 * mid + 3) :: u32) = (of_nat (2 * mid + 3) :: u64)"
      by (rule scast_of_nat_u32) (use mid less.prems n in simp)
    have lab: "sint (Field m meths (of_nat (2 * mid + 3))) = labels ! mid"
      using mt mid less.prems by (simp add: method_table_def)
    have c: "tag <s Field m meths (of_nat (2 * mid + 3)) \<longleftrightarrow> k < mid"
      unfolding word_sless_alt lab tag
      using sorted_wrt_nth_less [OF srt] mid less.prems by (metis le_less_trans less_asym' linorder_neqE_nat order_less_irrefl)
    have hi2: "(of_nat (2 * mid + 3) :: u32) - 2 = of_nat (2 * (mid - 1) + 3)" using mid by (simp add: of_nat_diff)
    have "method_search m meths tag ?li ?hi =
      (if k < mid then method_search m meths tag ?li (of_nat (2 * (mid - 1) + 3))
       else method_search m meths tag (of_nat (2 * mid + 3)) ?hi)"
      using lt True by (subst method_search.simps) (simp only: Let_def mi sc c hi2 if_True simp_thms split: if_splits)
    also have "\<dots> = Some (of_nat (2 * k + 3))"
      using less.hyps [of "mid - 1" i] less.hyps [of j mid] mid less.prems by auto
    finally show ?thesis .
  qed
qed

lemma find_method_finds:
  assumes mt: "method_table m meths labels" and k: "k < length labels" and tag: "sint tag = labels ! k"
  shows "find_method m meths tag = Some (of_nat (2 * k + 3))"
proof -
  have n: "0 < length labels" "length labels < 2 ^ 28" using mt by (auto simp: method_table_def)
  have "Field m meths 0 = of_nat (2 * (length labels - 1) + 3)"
    using mt n by (cases labels) (simp_all add: method_table_def Val_long_def algebra_simps)
  then have "ucast (Field m meths 0) = (of_nat (2 * (length labels - 1) + 3) :: u32)"
    by (simp only: unsigned_of_nat of_nat_take_bit) (simp add: take_bit_word_eq_self flip: of_nat_take_bit)
  then show ?thesis
    using method_search_finds [OF mt, of 0 k "length labels - 1"] k tag by (simp add: find_method_def)
qed

text \<open>
  C21: \<open>GETPUBMET\<close> pushes the object and loads the method of the label in its operand, whether the cached offset hits or
  the binary search over the method table runs; the search ends. Apart from the cache slot the code is unchanged.
\<close>

theorem method_dispatch:
  assumes op: "arg s 0 = GETPUBMET"
    and m: "m = mem_of s" and meths: "meths = Field m (i_accu s) 0"
    and mt: "method_table m meths labels" and k: "k < length labels" and tag: "sint (Val_int (arg s 1)) = labels ! k"
    and cache: "load64 m (meths + 24 + ofs) = Val_int (arg s 1) \<Longrightarrow> \<exists>j < length labels. ofs = 16 * of_nat j"
    and ofs: "ofs = argw s 2 AND Field m meths 1"
  shows "\<exists>code. exec_instr rt s = Next ((adv 3 (push_accu s))\<lparr>i_accu := Field m meths (of_nat (2 * k + 2)), i_code := code\<rparr>) \<and>
     (\<forall>a. a \<noteq> i_pc s + 8 \<longrightarrow> code a = i_code s a)"
proof -
  have e: "exec_instr rt s = getpubmet (adv 1 s)" using op by (simp add: dispatch)
  have n: "length labels < 2 ^ 28" using mt by (simp add: method_table_def)
  note reg = push_accu_def push_def adv_def mem_of_def arg_def argw_def
  show ?thesis
  proof (cases "load64 m (meths + 24 + ofs) = Val_int (arg s 1)")
    case True
    then obtain j where j: "j < length labels" "ofs = 16 * of_nat j" using cache by auto
    have a3: "meths + 24 + ofs = meths + 8 * of_nat (2 * j + 3)" "meths + 16 + ofs = meths + 8 * of_nat (2 * j + 2)"
      using j by (simp_all add: algebra_simps)
    have "sint (Field m meths (of_nat (2 * j + 3))) = labels ! j" using mt j unfolding method_table_def by blast
    then have "labels ! j = labels ! k" using True tag unfolding Field_def a3 by simp
    then have "j = k" using mt j k by (metis method_table_def sorted_wrt_nth_less nat_neq_iff less_irrefl)
    then have "exec_instr rt s = Next ((adv 3 (push_accu s))\<lparr>i_accu := Field m meths (of_nat (2 * k + 2)), i_code := i_code s\<rparr>)"
      unfolding e using True a3 m meths ofs by (simp add: getpubmet_def Let_def reg Field_def algebra_simps)
    then show ?thesis by blast
  next
    case False
    have f: "find_method m meths (Val_int (arg s 1)) = Some (of_nat (2 * k + 3))"
      by (rule find_method_finds [OF mt k tag])
    have sc: "scast ((of_nat (2 * k + 3) :: u32) - 1) = (of_nat (2 * k + 2) :: u64)"
      using scast_of_nat_u32 [of "2 * k + 2"] k n by simp
    have "exec_instr rt s = Next ((adv 3 (push_accu s))\<lparr>i_accu := Field m meths (of_nat (2 * k + 2)),
        i_code := (i_code s)(i_pc s + 8 := (of_nat (2 * k + 3) - 3) * 8)\<rparr>)"
      unfolding e using False f sc m meths ofs by (simp add: getpubmet_def Let_def reg algebra_simps)
    then show ?thesis by (metis fun_upd_other)
  qed
qed

text \<open>An object at \<open>0x30000\<close> with two methods, of the labels 7 and 9.\<close>

definition method_mem :: mem where
  "method_mem = fold (\<lambda>(a, x) m. store64 m a x)
     [(0x30000, 0x31000), (0x31000, Val_long 2), (0x31008, Val_long 0x1F), (0x31010, 0x32000), (0x31018, Val_int 7),
      (0x31020, 0x32100), (0x31028, Val_int 9)] (\<lambda>_. 0)"

definition method_interp :: interp where
  "method_interp = set_mem (sample_interp [GETPUBMET, 9, 0] 0x30000 []) method_mem"

theorem method_dispatch_witness:
  "\<exists>code. exec_instr sample_runtime method_interp =
     Next ((adv 3 (push_accu method_interp))\<lparr>i_accu := 0x32100, i_code := code\<rparr>)"
proof -
  have f: "Field method_mem 0x30000 0 = 0x31000" "Field method_mem 0x31000 0 = Val_long 2" "Field method_mem 0x31000 1 = Val_long 0x1F"
    "Field method_mem 0x31000 3 = Val_int 7" "Field method_mem 0x31000 4 = 0x32100" "Field method_mem 0x31000 5 = Val_int 9"
    by (simp_all add: method_mem_def Field_def mem_simps)
  have a: "arg method_interp 0 = GETPUBMET" "arg method_interp 1 = 9" "argw method_interp 2 = 0" "mem_of method_interp = method_mem"
    "i_accu method_interp = 0x30000"
    by (simp_all add: method_interp_def sample_interp_def arg_def argw_def set_mem_def mem_of_def)
  have mt: "method_table method_mem 0x31000 [15, 19]"
    by (auto simp: method_table_def f less_Suc_eq Val_int_def Val_long_def)
  have "load64 method_mem (0x31000 + 24 + 0) \<noteq> Val_int 9"
    using f(4) by (simp add: Field_def Val_int_def Val_long_def)
  then show ?thesis
    using method_dispatch [of method_interp method_mem "0x31000" "[15, 19]" 1 0 sample_runtime] f mt
    by (auto simp: a [simplified] Val_int_def Val_long_def)
qed

subsection \<open>Exceptions\<close>

lemma steps_Cons: "step rt c = c' \<Longrightarrow> steps rt c' d \<Longrightarrow> steps rt c d"
  by (rule steps_step) simp

text \<open>Registers that are kept in the stack as tagged integers have to be in the range of 63-bit integers.\<close>

definition frame_range :: "interp \<Rightarrow> bool" where
  "frame_range s \<longleftrightarrow> ml_range (sint (i_trap_sp_off s)) \<and> ml_range (sint (i_extra_args s))"

lemma frame_range_roundtrip:
  "frame_range s \<Longrightarrow> Long_val (Val_long (i_trap_sp_off s)) = i_trap_sp_off s"
  "frame_range s \<Longrightarrow> Long_val (Val_long (i_extra_args s)) = i_extra_args s"
  by (simp_all add: frame_range_def ml_range_def Long_val_Val_long_range)

lemma neg_of_nat:
  assumes "0 < n" "n < 2 ^ 62"
  shows "\<not> 0 <s (- of_nat n :: u64)" "unat (- (- of_nat n :: u64)) = n"
proof -
  have "sint (word_of_int (- int n) :: u64) = - int n"
    by (rule sint_word_of_int_range) (use assms in auto)
  then show "\<not> 0 <s (- of_nat n :: u64)" using assms by (simp add: word_sless_alt)
  show "unat (- (- of_nat n :: u64)) = n" using assms by (simp add: unat_of_nat)
qed

lemma raise_notrace_cut:
  assumes "i_sp s = ext @ pc # link # env # extra # rest" "i_trap_sp_off s = - of_nat (length rest + 4)" "length rest + 4 < 2 ^ 62"
  shows "raise_notrace s = Next (s\<lparr>i_sp := rest, i_pc := pc, i_trap_sp_off := Long_val link, i_env := env,
    i_extra_args := Long_val extra\<rparr>)"
proof -
  have n: "\<not> 0 <s i_trap_sp_off s" "unat (- i_trap_sp_off s) = length rest + 4"
    unfolding assms(2) using neg_of_nat [of "length rest + 4"] assms(3) by simp_all
  have d: "drop (length (i_sp s) - (length rest + 4)) (i_sp s) = pc # link # env # extra # rest"
    "\<not> length (i_sp s) < length rest + 4" unfolding assms(1) by simp_all
  show ?thesis unfolding raise_notrace_def Let_def n(2) d(1) using n(1) d(2) by (simp add: numeral_eq_Suc)
qed

text \<open>
  C18: \<open>PUSHTRAP\<close> installs a handler: however the body has extended the stack, a raise with this
  trap in force continues at the address in the operand of \<open>PUSHTRAP\<close> with the exception in the accumulator and the stack, the environment, the
  number of extra arguments and the enclosing trap as they were at \<open>PUSHTRAP\<close>; \<open>POPTRAP\<close> at the end of the body restores the
  stack and the enclosing trap and falls through.
\<close>

theorem trap_restores_frame:
  assumes op: "arg s 0 = PUSHTRAP" and r: "frame_range s" and len: "length (i_sp s) + 4 < 2 ^ 62"
  shows "\<exists>s1. exec_instr rt s = Next s1 \<and> i_pc s1 = i_pc s + 8 \<and>
    (\<forall>s2 ext. arg s2 0 \<in> {RAISE, RERAISE, RAISE_NOTRACE} \<and> i_trap_sp_off s2 = i_trap_sp_off s1 \<and> i_sp s2 = ext @ i_sp s1 \<longrightarrow>
       steps rt (Next s2) (Next (s2\<lparr>i_pc := i_pc s + 4 + 4 * argw s 1, i_sp := i_sp s, i_env := i_env s,
         i_extra_args := i_extra_args s, i_trap_sp_off := i_trap_sp_off s\<rparr>))) \<and>
    (\<forall>s2. arg s2 0 = POPTRAP \<and> i_sp s2 = i_sp s1 \<and> \<not> Caml_check_gc_interrupt (i_heap s2) \<longrightarrow>
       exec_instr rt s2 = Next ((adv 1 s2)\<lparr>i_sp := i_sp s, i_trap_sp_off := i_trap_sp_off s\<rparr>))"
proof -
  let ?sp = "(i_pc s + 4 + 4 * argw s 1) # Val_long (i_trap_sp_off s) # i_env s # Val_long (i_extra_args s) # i_sp s"
  define s1 where "s1 = s\<lparr>i_pc := i_pc s + 8, i_sp := ?sp, i_trap_sp_off := - of_nat (length ?sp)\<rparr>"
  note rt = frame_range_roundtrip [OF r]
  have 1: "exec_instr rt s = Next s1"
  proof -
    have "exec_instr rt s = pushtrap (adv 1 s)" using op by (simp add: dispatch)
    then show ?thesis by (simp add: pushtrap_def adv_def target_def argw_def arg_def s1_def Let_def add.assoc)
  qed
  have sp1: "i_sp s1 = ?sp" and t1: "i_trap_sp_off s1 = - of_nat (length ?sp)" by (simp_all add: s1_def)
  have raise: "steps rt (Next s2) (Next (s2\<lparr>i_pc := i_pc s + 4 + 4 * argw s 1, i_sp := i_sp s, i_env := i_env s,
         i_extra_args := i_extra_args s, i_trap_sp_off := i_trap_sp_off s\<rparr>))"
    if "arg s2 0 \<in> {RAISE, RERAISE, RAISE_NOTRACE}" "i_trap_sp_off s2 = i_trap_sp_off s1" "i_sp s2 = ext @ i_sp s1" for s2 ext
  proof -
    have "step rt (Next s2) = Raise_notrace (adv 1 s2)" using that(1)
      by (elim insertE emptyE) (simp_all add: dispatch)
    moreover have "step rt (Raise_notrace (adv 1 s2)) = Next (s2\<lparr>i_pc := i_pc s + 4 + 4 * argw s 1, i_sp := i_sp s, i_env := i_env s,
         i_extra_args := i_extra_args s, i_trap_sp_off := i_trap_sp_off s\<rparr>)"
      using raise_notrace_cut [of "adv 1 s2" ext _ _ _ _ "i_sp s"] that(2,3) sp1 t1 len by (simp add: adv_def rt)
    ultimately show ?thesis by (rule steps_Cons [OF _ steps_Cons [OF _ steps_refl]])
  qed
  have popped: "exec_instr rt s2 = Next ((adv 1 s2)\<lparr>i_sp := i_sp s, i_trap_sp_off := i_trap_sp_off s\<rparr>)"
    if "arg s2 0 = POPTRAP" "i_sp s2 = i_sp s1" "\<not> Caml_check_gc_interrupt (i_heap s2)" for s2
    using that sp1 by (simp add: dispatch poptrap_def peek_def pop_def adv_def rt)
  show ?thesis using 1 raise popped by (intro exI [of _ s1]) (auto simp: s1_def)
qed

theorem trap_restores_frame_witness:
  "\<exists>s1. exec_instr sample_runtime (sample_interp [PUSHTRAP, 5] Val_unit [Val_unit]) = Next s1 \<and> i_pc s1 = 0x108"
proof -
  let ?s = "sample_interp [PUSHTRAP, 5] Val_unit [Val_unit]"
  have "arg ?s 0 = PUSHTRAP" "frame_range ?s" "length (i_sp ?s) + 4 < 2 ^ 62" "i_pc ?s + 8 = 0x108"
    by (simp_all add: arg_def sample_interp_def frame_range_def ml_range_def Min_long_def Max_long_def)
  with trap_restores_frame [of ?s sample_runtime] show ?thesis by auto
qed

subsection \<open>Stack growth\<close>




subsection \<open>Effects\<close>

lemma Ptr_val_Val_ptr [simp]: "Ptr_val (Val_ptr p) = p"
  by (simp add: Ptr_val_def Val_ptr_def)

lemma Field_Set_Field_other:
  "i \<noteq> j \<Longrightarrow> i < 2 ^ 59 \<Longrightarrow> j < 2 ^ 59 \<Longrightarrow> Field (Set_Field m v (of_nat j) x) v (of_nat i) = Field m v (of_nat i)"
  unfolding Field_def by (rule load64_Set_Field_apart) (rule field_apart)

lemma mem_of_simps [simp]:
  "mem_of (set_mem s m) = m" "mem_of (s\<lparr>i_pc := a\<rparr>) = mem_of s" "mem_of (s\<lparr>i_sp := b\<rparr>) = mem_of s"
  "mem_of (s\<lparr>i_accu := c\<rparr>) = mem_of s" "mem_of (s\<lparr>i_env := d\<rparr>) = mem_of s" "mem_of (s\<lparr>i_extra_args := e\<rparr>) = mem_of s"
  "mem_of (s\<lparr>i_trap_sp_off := f\<rparr>) = mem_of s" "mem_of (s\<lparr>i_current_stack := g\<rparr>) = mem_of s"
  "mem_of (s\<lparr>i_stacks := st\<rparr>) = mem_of s" "mem_of (s\<lparr>i_code := code\<rparr>) = mem_of s" "mem_of (s\<lparr>i_heap := h\<rparr>) = hp_mem h"
  "mem_of (adv k s) = mem_of s" "mem_of (s\<lparr>i_dynamic_bindings := b'\<rparr>) = mem_of s"
  by (simp_all add: mem_of_def set_mem_def adv_def)

lemma set_mem_simps [simp]:
  "i_pc (set_mem s m) = i_pc s" "i_sp (set_mem s m) = i_sp s" "i_accu (set_mem s m) = i_accu s" "i_env (set_mem s m) = i_env s"
  "i_extra_args (set_mem s m) = i_extra_args s" "i_trap_sp_off (set_mem s m) = i_trap_sp_off s"
  "i_current_stack (set_mem s m) = i_current_stack s" "i_stacks (set_mem s m) = i_stacks s" "i_code (set_mem s m) = i_code s"
  "i_dynamic_bindings (set_mem s m) = i_dynamic_bindings s"
  by (simp_all add: set_mem_def)

lemma adv_simps [simp]:
  "i_pc (adv k s) = i_pc s + 4 * of_nat k" "i_sp (adv k s) = i_sp s" "i_accu (adv k s) = i_accu s" "i_env (adv k s) = i_env s"
  "i_extra_args (adv k s) = i_extra_args s" "i_trap_sp_off (adv k s) = i_trap_sp_off s"
  "i_current_stack (adv k s) = i_current_stack s" "i_stacks (adv k s) = i_stacks s" "i_code (adv k s) = i_code s"
  "i_heap (adv k s) = i_heap s" "i_dynamic_bindings (adv k s) = i_dynamic_bindings s"
  by (simp_all add: adv_def)

abbreviation resume_ops :: "u32 list" where
  "resume_ops \<equiv> [CONTINUE, DISCONTINUE, DISCONTINUE_WITH_BACKTRACE, CONTINUETERM, DISCONTINUETERM, DISCONTINUE_WITH_BACKTRACETERM]"

lemma exec_instr_effect:
  "arg s 0 \<in> set (PERFORM # resume_ops) \<Longrightarrow> exec_instr rt s = the (exec_effect rt (arg s 0) (adv 1 s))"
  by (elim set_ConsE) (simp_all add: dispatch)





lemma do_resume_heap:
  assumes "do_resume rt s act v t = Check_stacks s' \<or> do_resume rt s act v t = Raise_notrace s'"
  shows "i_heap s' = i_heap s"
  using assms by (auto simp: do_resume_def Let_def raise_from_c_def setup_for_c_call_def call_accu_def
      split: if_splits option.splits list.splits resume_action.splits)

lemma resume_used:
  assumes "resume_cont rt s act n = Check_stacks s' \<or> resume_cont rt s act n = Raise_notrace s' \<or>
     resume_cont_term rt s act n = Check_stacks s' \<or> resume_cont_term rt s act n = Raise_notrace s'"
  shows "Field (mem_of s') (i_accu s) 0 = Val_ptr 0"
proof -
  have "i_heap s' = i_heap (set_mem s (Set_Field (mem_of s) (i_accu s) 0 (Val_ptr 0)))"
    using assms by (auto simp: resume_cont_def resume_cont_term_def caml_continuation_use_noexc_def peek_def Let_def
        split: if_splits dest!: do_resume_heap [OF disjI1] do_resume_heap [OF disjI2])
  then show ?thesis by (simp add: mem_of_def set_mem_def Field_Set_Field)
qed

lemma resume_already_used:
  assumes f: "Field (mem_of s) (i_accu s) 0 = Val_ptr 0" and n: "0 < n" "n \<le> length (i_sp s)"
  shows "\<exists>s'. resume_cont rt s act n = Raise_notrace s' \<and> i_accu s' = rt_continuation_already_resumed rt \<and>
      i_current_stack s' = i_current_stack s"
    and "2 \<le> argn s 0 \<Longrightarrow> argn s 0 \<le> length (i_sp s) \<Longrightarrow>
     \<exists>s'. resume_cont_term rt s act n = Raise_notrace s' \<and> i_accu s' = rt_continuation_already_resumed rt \<and>
      i_current_stack s' = i_current_stack s"
  using n by (simp_all add: resume_cont_def resume_cont_term_def caml_continuation_use_noexc_def peek_def Let_def f do_resume_def
      raise_from_c_def setup_for_c_call_def)

abbreviation resume_term_ops :: "u32 list" where
  "resume_term_ops \<equiv> [CONTINUETERM, DISCONTINUETERM, DISCONTINUE_WITH_BACKTRACETERM]"

text \<open>
  C19: continuations are one-shot. After any of the six resuming instructions has used a continuation, a later
  use of the same continuation by any of them, on whatever stack, raises \<open>Continuation_already_resumed\<close> on that stack.
\<close>

theorem continuation_one_shot:
  assumes op: "arg s 0 \<in> set resume_ops" and used: "exec_instr rt s = Check_stacks s' \<or> exec_instr rt s = Raise_notrace s'"
    and op2: "arg s2 0 \<in> set resume_ops" and same: "i_accu s2 = i_accu s"
    and mem: "Field (mem_of s2) (i_accu s) 0 = Field (mem_of s') (i_accu s) 0"
    and len: "2 \<le> length (i_sp s2)" "arg s2 0 \<in> set resume_term_ops \<Longrightarrow> 2 \<le> argn s2 1 \<and> argn s2 1 \<le> length (i_sp s2)"
  shows "\<exists>s3. exec_instr rt s2 = Raise_notrace s3 \<and> i_accu s3 = rt_continuation_already_resumed rt \<and>
     i_current_stack s3 = i_current_stack s2"
proof -
  have "Field (mem_of s') (i_accu (adv 1 s)) 0 = Val_ptr 0"
    using op used exec_instr_effect [of s rt]
    by (elim set_ConsE; intro resume_used [of rt "adv 1 s"]) (auto simp: exec_effect_def)
  then have f: "Field (mem_of (adv 1 s2)) (i_accu (adv 1 s2)) 0 = Val_ptr 0" using mem same by simp
  have a: "argn (adv 1 s2) 0 = argn s2 1" by (simp add: argn_def arg_def)
  show ?thesis
    using op2 len exec_instr_effect [of s2 rt] resume_already_used [OF f, of _ rt]
    by (elim set_ConsE) (simp_all add: exec_effect_def a [simplified])
qed

theorem continuation_one_shot_witness:
  "\<exists>s3. exec_instr sample_runtime (set_mem (sample_interp [CONTINUE] 0x30000 [Val_unit, Val_unit]) (Set_Field (\<lambda>_. 0) 0x30000 0 1)) = Raise_notrace s3 \<and>
     i_accu s3 = 0x9030 \<and> i_current_stack s3 = 0x8000"
proof -
  let ?s = "set_mem (sample_interp [CONTINUE] 0x30000 [Val_unit, Val_unit]) (Set_Field (\<lambda>_. 0) 0x30000 0 1)"
  let ?t = "set_mem (sample_interp [DISCONTINUE] 0x30000 [Val_unit, Val_unit]) (Set_Field (\<lambda>_. 0) 0x30000 0 1)"
  have a: "arg ?s 0 = CONTINUE" "arg ?t 0 = DISCONTINUE" by (simp_all add: arg_def sample_interp_def)
  have f: "Field (mem_of (adv 1 ?t)) (i_accu (adv 1 ?t)) 0 = Val_ptr 0"
    by (simp add: sample_interp_def Field_Set_Field Val_ptr_def)
  have "\<exists>s'. exec_instr sample_runtime ?t = Raise_notrace s'"
    using exec_instr_effect [of ?t sample_runtime] a(2) resume_already_used(1) [OF f, of 1 sample_runtime Resume_raise]
    by (auto simp: exec_effect_def sample_interp_def)
  then obtain s' where s': "exec_instr sample_runtime ?t = Raise_notrace s'" ..
  have "Field (mem_of s') (i_accu (adv 1 ?t)) 0 = Val_ptr 0"
    using s' exec_instr_effect [of ?t sample_runtime] a(2)
    by (intro resume_used [of sample_runtime "adv 1 ?t" Resume_raise 1]) (simp add: exec_effect_def)
  then have "Field (mem_of ?s) (i_accu ?t) 0 = Field (mem_of s') (i_accu ?t) 0"
    using f by (simp add: sample_interp_def Val_ptr_def Field_Set_Field)
  then show ?thesis
    using continuation_one_shot [of ?t sample_runtime s' ?s] s' a by (simp add: sample_interp_def sample_runtime_def)
qed
subsection \<open>Partial application\<close>

lemma Field_set_fields:
  assumes "i + length xs \<le> 2 ^ 59" "j < 2 ^ 59"
  shows "Field (set_fields m v (of_nat i) xs) v (of_nat j) =
    (if i \<le> j \<and> j < i + length xs then xs ! (j - i) else Field m v (of_nat j))"
  using assms(1)
proof (induction xs arbitrary: m i)
  case (Cons x xs)
  have "set_fields m v (of_nat i) (x # xs) = set_fields (Set_Field m v (of_nat i) x) v (of_nat (Suc i)) xs"
    by (simp add: add.commute)
  then show ?case
    using Cons.IH [of "Suc i" "Set_Field m v (of_nat i) x"] Cons.prems assms(2) Field_Set_Field_other [of j i m v x]
    by (cases "j = i") (auto simp: Field_Set_Field nth_Cons' Suc_le_eq simp del: set_fields.simps)
qed auto

lemma Hd_val_set_fields:
  "i + length xs \<le> 2 ^ 59 \<Longrightarrow> Hd_val (set_fields m v (of_nat i) xs) v = Hd_val m v"
proof (induction xs arbitrary: m i)
  case (Cons x xs)
  then show ?case using Cons.IH [of "Suc i" "Set_Field m v (of_nat i) x"] by (simp add: Hd_val_Set_Field add.commute)
qed simp

lemma keeps_old_set_fields:
  "keeps_old h m \<Longrightarrow> young_block h v n \<Longrightarrow> i + length xs \<le> n \<Longrightarrow> keeps_old h (set_fields m v (of_nat i) xs)"
proof (induction xs arbitrary: m i)
  case (Cons x xs)
  then show ?case
    using Cons.IH [of "Set_Field m v (of_nat i) x" "Suc i"] keeps_old_Set_Field [of h m v n i x] by (simp add: add.commute)
qed simp

text \<open>The block that \<open>GRAB\<close> builds: code pointer, closure information, environment and the arguments.\<close>

lemma grab_block:
  assumes n: "length xs + 3 \<le> 256"
    and m: "m = Set_Field (Set_Field (set_fields (Set_Field m0 v 2 env) v 3 xs) v 0 code) v 1 info"
  shows "Field m v 0 = code" "Field m v 2 = env" "i < length xs \<Longrightarrow> Field m v (of_nat i + 3) = xs ! i" "Hd_val m v = Hd_val m0 v"
    "keeps_old h m0 \<Longrightarrow> young_block h v (length xs + 3) \<Longrightarrow> keeps_old h m"
proof -
  let ?m1 = "Set_Field m0 v (of_nat 2) env"
  let ?m2 = "set_fields ?m1 v (of_nat 3) xs"
  have me: "m = Set_Field (Set_Field ?m2 v (of_nat 0) code) v (of_nat 1) info" using m by simp
  have f: "Field m v (of_nat j) = (if j = 1 then info else if j = 0 then code else Field ?m2 v (of_nat j))" if "j < 300" for j
    using that Field_Set_Field_other [of j 1 _ v info] Field_Set_Field_other [of j 0 _ v code]
    unfolding me by (auto simp: Field_Set_Field simp del: of_nat_1 of_nat_0 of_nat_Suc)
  show "Field m v 0 = code" "Field m v 2 = env"
    using f [of 0] f [of 2] n Field_set_fields [of 3 xs 2 ?m1 v] by (simp_all add: Field_Set_Field)
  show "i < length xs \<Longrightarrow> Field m v (of_nat i + 3) = xs ! i"
    using f [of "i + 3"] n Field_set_fields [of 3 xs "i + 3" ?m1 v] by simp
  show "Hd_val m v = Hd_val m0 v"
    unfolding me using n Hd_val_Set_Field [of 1 "Set_Field ?m2 v (of_nat 0) code" v info] Hd_val_Set_Field [of 0 ?m2 v code]
      Hd_val_set_fields [of 3 xs ?m1 v] Hd_val_Set_Field [of 2 m0 v env] by simp
  show "keeps_old h m" if "keeps_old h m0" "young_block h v (length xs + 3)"
    unfolding me using that by (intro keeps_old_Set_Field keeps_old_set_fields) auto
qed

text \<open>
  C16: when \<open>GRAB\<close> finds fewer arguments than it requires, it returns to the caller, with its frame popped, a closure of the
  arguments received; live data is kept. Calling that closure with any further arguments runs \<open>RESTART\<close>, which comes back to the same \<open>GRAB\<close> with
  the stored arguments in front of the new ones, the environment of the original function and the extra arguments added up: the state of
  a direct call with all the arguments.
\<close>

theorem partial_application:
  assumes op: "arg s 0 = GRAB" and pre: "i_code s (i_pc s - 4) = RESTART"
    and k: "i_extra_args s = of_nat k" "int k < sint (arg s 1)" "k + 4 \<le> 256"
    and sp: "i_sp s = xs @ pc # env # extra # rest" "length xs = k + 1"
    and ok: "heap_ok (i_heap s)" and room: "unat (young_limit (i_heap s)) + 8 * (k + 4) + 8 \<le> unat (young_ptr (i_heap s))"
  shows "\<exists>v s1. exec_instr rt s = Next s1 \<and> i_accu s1 = v \<and> i_pc s1 = pc \<and> i_env s1 = env \<and> i_extra_args s1 = Long_val extra \<and>
      i_sp s1 = rest \<and> i_trap_sp_off s1 = i_trap_sp_off s \<and> keeps_old (i_heap s) (mem_of s1) \<and>
      (\<forall>s2. i_env s2 = v \<and> i_pc s2 = Code_val (mem_of s2) v \<and> i_code s2 = i_code s \<and>
          Hd_val (mem_of s2) v = Hd_val (mem_of s1) v \<and> (\<forall>i < k + 4. Field (mem_of s2) v (of_nat i) = Field (mem_of s1) v (of_nat i)) \<longrightarrow>
        exec_instr rt s2 = Next (s2\<lparr>i_sp := xs @ i_sp s2, i_pc := i_pc s, i_env := i_env s,
          i_extra_args := i_extra_args s2 + of_nat (k + 1)\<rparr>))"
proof -
  let ?n = "of_nat (k + 4) :: u64"
  have n: "unat ?n = k + 4" "1 + of_nat k + 3 = ?n" "unat (1 + of_nat k :: u64) = k + 1"
    using k(3) unat_of_nat [of "k + 4", where 'a = 64] unat_of_nat [of "k + 1", where 'a = 64] by simp_all
  have small: "?n \<le> Max_young_wosize" using n(1) k(3) by (simp add: word_le_nat_alt Max_young_wosize_def)
  obtain h v where a: "Alloc_small_with_reserved (i_heap s) ?n Closure_tag 0 = Some (h, v)"
    using Alloc_small_fits [OF ok small, of Closure_tag 0] room n(1) by fastforce
  note ap = Alloc_small_props [OF ok small a]
  define m where "m = Set_Field (Set_Field (set_fields (Set_Field (hp_mem h) v 2 (i_env s)) v 3 xs) v 0 (i_pc s - 4)) v 1
    (Make_closinfo 0 2 1)"
  have len: "length xs + 3 \<le> 256" using sp(2) k(3) by simp
  note gb = grab_block [OF len m_def]
  have lt: "\<not> argw (adv 1 s) 0 \<le>s i_extra_args s"
  proof -
    have "sint (of_nat k :: u64) = int k" using sint_word_of_int_range [of "int k", where 'a = 64] k(3) by simp
    moreover have "sint (scast (arg s 1) :: u64) = sint (arg s 1)" by (simp add: sint_up_scast is_up)
    ultimately show ?thesis using k by (simp add: argw_def arg_def word_sle_eq)
  qed
  define s1 where "s1 = (set_mem (s\<lparr>i_heap := h\<rparr>) m)\<lparr>i_accu := v, i_pc := pc, i_env := env, i_extra_args := Long_val extra, i_sp := rest\<rparr>"
  have "exec_instr rt s = grab (adv 1 s)" using op by (simp add: dispatch)
  also have "\<dots> = Next s1"
    using lt sp n k(1) a [simplified, unfolded add.commute [of "of_nat k" 4]]
    by (simp add: grab_def Let_def alloc_small_def Alloc_small_def do_return_def m_def s1_def) (simp add: adv_def set_mem_def)
  finally have e: "exec_instr rt s = Next s1" .
  have m1: "mem_of s1 = m" by (simp add: s1_def)
  have "exec_instr rt s2 = Next (s2\<lparr>i_sp := xs @ i_sp s2, i_pc := i_pc s, i_env := i_env s,
          i_extra_args := i_extra_args s2 + of_nat (k + 1)\<rparr>)"
    if s2: "i_env s2 = v" "i_pc s2 = Code_val (mem_of s2) v" "i_code s2 = i_code s" "Hd_val (mem_of s2) v = Hd_val m v"
      and fld: "\<And>i. i < k + 4 \<Longrightarrow> Field (mem_of s2) v (of_nat i) = Field m v (of_nat i)" for s2
  proof -
    have pc2: "i_pc s2 = i_pc s - 4" using s2(2) fld [of 0] gb(1) by (simp add: Code_val_def)
    have w: "Wosize_val (mem_of s2) v = ?n"
    proof -
      have "?n \<le> Max_wosize" using n(1) k(3) by (simp add: word_le_nat_alt Max_wosize_def mask_eq_exp_minus_1)
      then show ?thesis using s2(4) gb(4) ap(5) Wosize_hd_Make_header [of ?n Closure_tag 0 0]
        by (simp add: Wosize_val_def header_parts_ok_def tag_defs)
    qed
    have "?n - 3 = of_nat (k + 1)" by simp
    then have u: "ucast (?n - 3) = (of_nat (k + 1) :: u32)"
      by (simp only: unsigned_of_nat of_nat_take_bit) (simp add: take_bit_word_eq_self flip: of_nat_take_bit)
    have u': "unat (of_nat (k + 1) :: u32) = k + 1" "((of_nat (k + 1) :: u32) <s 0) = False"
      using k(3) unat_of_nat [of "k + 1", where 'a = 32] sint_of_nat_u32 [of "k + 1"] by (simp_all add: word_sless_alt)
    have args: "map (\<lambda>i. Field (mem_of s2) v (of_nat i + 3)) [0..<k + 1] = xs"
    proof (rule nth_equalityI)
      fix i assume "i < length (map (\<lambda>i. Field (mem_of s2) v (of_nat i + 3)) [0..<k + 1])"
      then have i: "i < length xs" "i + 3 < k + 4" using sp(2) by auto
      then show "map (\<lambda>i. Field (mem_of s2) v (of_nat i + 3)) [0..<k + 1] ! i = xs ! i"
        using fld [of "i + 3"] gb(3) [OF i(1)] sp(2) by (simp del: upt_Suc)
    qed (use sp(2) in simp)
    have "exec_instr rt s2 = restart (adv 1 s2)" using pre pc2 s2(3) by (simp add: dispatch arg_def)
    also have "\<dots> = Next (s2\<lparr>i_sp := xs @ i_sp s2, i_pc := i_pc s, i_env := i_env s,
          i_extra_args := i_extra_args s2 + of_nat (k + 1)\<rparr>)"
      using fld [of 2] gb(2) pc2 by (simp only: restart_def Let_def adv_simps mem_of_simps s2(1) w u u' args if_False) (simp add: adv_def)
    finally show ?thesis .
  qed
  note restarted = this
  show ?thesis
  proof (rule exI [of _ v], rule exI [of _ s1], unfold m1, intro conjI allI impI e)
    show "keeps_old (i_heap s) m" by (rule gb(5) [OF ap(3)]) (use ap(1) n(1) sp(2) in \<open>simp add: add.commute\<close>)
  qed (simp_all add: s1_def restarted)
qed

text \<open>A function of three arguments that is called with one.\<close>

definition grab_interp :: interp where
  "grab_interp = (sample_interp [RESTART, GRAB, 2] Val_unit [Val_int 7, 0x200, Val_unit, Val_long 0, Val_int 8])\<lparr>i_pc := 0x104\<rparr>"

theorem partial_application_witness:
  "\<exists>v s1. exec_instr sample_runtime grab_interp = Next s1 \<and> i_accu s1 = v \<and> i_pc s1 = 0x200 \<and> i_sp s1 = [Val_int 8]"
proof -
  have "arg grab_interp 0 = GRAB" "i_code grab_interp (i_pc grab_interp - 4) = RESTART"
    "i_extra_args grab_interp = of_nat 0" "int 0 < sint (arg grab_interp 1)" "0 + 4 \<le> (256 :: nat)"
    "i_sp grab_interp = [Val_int 7] @ 0x200 # Val_unit # Val_long 0 # [Val_int 8]" "length [Val_int 7] = 0 + 1"
    "heap_ok (i_heap grab_interp)"
    "unat (young_limit (i_heap grab_interp)) + 8 * (0 + 4) + 8 \<le> unat (young_ptr (i_heap grab_interp))"
    by (simp_all add: grab_interp_def sample_interp_def arg_def sample_heap_ok) (simp_all add: sample_heap_def)
  from partial_application [OF this, of sample_runtime] show ?thesis by blast
qed

end
