(* ===== verification/Lexing.thy ===== *)
theory Lexing
  imports Alloc
begin

text \<open>
  The table-driven automaton for lexers (\<open>runtime/lexing.c\<close>): the engine of \<open>ocamllex\<close> and its variant with memory cells for
  positions. The lexer buffer and the tables are the records of the source; table entries and characters are
  read in C memory, and the cells of \<open>lex_mem\<close> are a list, since the array of cells does not overlap the tables. \<open>None\<close> is an action
  program that never ends or that addresses a cell out of bounds.

  The generic scanner with its longest-match theorem is in a locale, which the automaton of the tables interprets.
\<close>

unbundle bit_operations_syntax

subsection \<open>Tables and buffers\<close>

record lexer_buffer =
  refill_buff :: val
  lex_buffer :: val
  lex_buffer_len :: val
  lex_abs_pos :: val
  lex_start_pos :: val
  lex_curr_pos :: val
  lex_last_pos :: val
  lex_last_action :: val
  lex_eof_reached :: val
  lex_mem :: "val list"
  lex_start_p :: val
  lex_curr_p :: val

record lexing_table =
  lex_base :: val
  lex_backtrk :: val
  lex_default :: val
  lex_trans :: val
  lex_check :: val
  lex_base_code :: val
  lex_backtrk_code :: val
  lex_default_code :: val
  lex_trans_code :: val
  lex_check_code :: val
  lex_code :: val

text \<open>Entry \<open>n\<close> of a table of 16-bit integers, as a C \<open>int\<close>.\<close>

definition Short :: "mem \<Rightarrow> val \<Rightarrow> u32 \<Rightarrow> u32" where
  "Short m tbl n = scast (load16 m (tbl + 2 * scast n))"

definition UShort :: "mem \<Rightarrow> val \<Rightarrow> u32 \<Rightarrow> u32" where
  "UShort m tbl n = ucast (load16 m (tbl + 2 * scast n))"

subsection \<open>The engine\<close>

text \<open>The first entry, or the entry after a refill, for which \<open>start_state\<close> is negative.\<close>

definition lex_enter :: "val \<Rightarrow> lexer_buffer \<Rightarrow> u32 \<times> lexer_buffer" where
  "lex_enter start_state lexbuf =
     (let state = Int_val start_state in
      if 0 \<le>s state then
        (state, lexbuf\<lparr>lex_last_pos := lex_curr_pos lexbuf, lex_start_pos := lex_curr_pos lexbuf, lex_last_action := Val_int (- 1)\<rparr>)
      else (- state - 1, lexbuf))"

text \<open>The next character, 256 at the end of the input, or \<open>None\<close> when the buffer needs a refill.\<close>

definition lex_next_char :: "mem \<Rightarrow> lexer_buffer \<Rightarrow> (u32 \<times> lexer_buffer) option" where
  "lex_next_char m lexbuf =
     (if lex_buffer_len lexbuf \<le>s lex_curr_pos lexbuf then
        if lex_eof_reached lexbuf = Val_bool False then None else Some (256, lexbuf)
      else Some (ucast (Byte_u m (lex_buffer lexbuf) (Long_val (lex_curr_pos lexbuf))),
                 lexbuf\<lparr>lex_curr_pos := lex_curr_pos lexbuf + 2\<rparr>))"

definition lex_next_state :: "mem \<Rightarrow> lexing_table \<Rightarrow> u32 \<Rightarrow> u32 \<Rightarrow> u32" where
  "lex_next_state m tbl state c =
     (let base = Short m (lex_base tbl) state in
      if Short m (lex_check tbl) (base + c) = state then Short m (lex_trans tbl) (base + c)
      else Short m (lex_default tbl) state)"

text \<open>No transition: return to the last backtrack point.\<close>

definition lex_backtrack :: "lexer_buffer \<Rightarrow> lexer_buffer \<times> val res" where
  "lex_backtrack lexbuf =
     (lexbuf\<lparr>lex_curr_pos := lex_last_pos lexbuf\<rparr>,
      if lex_last_action lexbuf = Val_int (- 1) then Inl (Failure ''lexing: empty token'') else Inr (lex_last_action lexbuf))"

partial_function (option) lex_loop :: "mem \<Rightarrow> lexing_table \<Rightarrow> u32 \<Rightarrow> lexer_buffer \<Rightarrow> (lexer_buffer \<times> val res) option" where
  "lex_loop m tbl state lexbuf =
     (let base = Short m (lex_base tbl) state in
      if base <s 0 then Some (lexbuf, Inr (Val_int (- base - 1)))
      else
        let backtrk = Short m (lex_backtrk tbl) state;
            lexbuf = (if 0 \<le>s backtrk then lexbuf\<lparr>lex_last_pos := lex_curr_pos lexbuf, lex_last_action := Val_int backtrk\<rparr>
                      else lexbuf) in
        case lex_next_char m lexbuf of
          None \<Rightarrow> Some (lexbuf, Inr (Val_int (- state - 1)))
        | Some (c, lexbuf) \<Rightarrow>
            let state' = lex_next_state m tbl state c in
            if state' <s 0 then Some (lex_backtrack lexbuf)
            else lex_loop m tbl state' (if c = 256 then lexbuf\<lparr>lex_eof_reached := Val_bool False\<rparr> else lexbuf))"

definition caml_lex_engine :: "mem \<Rightarrow> lexing_table \<Rightarrow> val \<Rightarrow> lexer_buffer \<Rightarrow> (lexer_buffer \<times> val res) option" where
  "caml_lex_engine m tbl start_state lexbuf = (let (state, lexbuf) = lex_enter start_state lexbuf in lex_loop m tbl state lexbuf)"

subsection \<open>The engine with memory of positions\<close>

text \<open>
  The action programs: pairs of a destination and a source cell, up to \<open>0xff\<close>. The source \<open>0xff\<close> stands for the current
  position in \<open>run_mem\<close> and for \<open>-1\<close> in \<open>run_tag\<close>.
\<close>

partial_function (option) run_mem :: "mem \<Rightarrow> addr \<Rightarrow> val list \<Rightarrow> val \<Rightarrow> val list option" where
  "run_mem m pc cells curr_pos =
     (let dst = m pc; src = m (pc + 1) in
      if dst = 0xff then Some cells
      else if unat dst < length cells \<and> (src = 0xff \<or> unat src < length cells) then
        run_mem m (pc + 2) (cells[unat dst := if src = 0xff then curr_pos else cells ! unat src]) curr_pos
      else None)"

partial_function (option) run_tag :: "mem \<Rightarrow> addr \<Rightarrow> val list \<Rightarrow> val list option" where
  "run_tag m pc cells =
     (let dst = m pc; src = m (pc + 1) in
      if dst = 0xff then Some cells
      else if unat dst < length cells \<and> (src = 0xff \<or> unat src < length cells) then
        run_tag m (pc + 2) (cells[unat dst := if src = 0xff then Val_int (- 1) else cells ! unat src])
      else None)"

definition lex_run_tag :: "mem \<Rightarrow> lexing_table \<Rightarrow> u32 \<Rightarrow> lexer_buffer \<Rightarrow> lexer_buffer option" where
  "lex_run_tag m tbl pc_off lexbuf =
     map_option (\<lambda>cells. lexbuf\<lparr>lex_mem := cells\<rparr>) (run_tag m (lex_code tbl + ucast pc_off) (lex_mem lexbuf))"

text \<open>The memory moves of a transition from \<open>pstate\<close> with the character \<open>c\<close>.\<close>

definition lex_pc_off :: "mem \<Rightarrow> lexing_table \<Rightarrow> u32 \<Rightarrow> u32 \<Rightarrow> u32" where
  "lex_pc_off m tbl pstate c =
     (let base_code = UShort m (lex_base_code tbl) pstate in
      if Short m (lex_check_code tbl) (base_code + c) = pstate then UShort m (lex_trans_code tbl) (base_code + c)
      else UShort m (lex_default_code tbl) pstate)"

definition lex_run_mem :: "mem \<Rightarrow> lexing_table \<Rightarrow> u32 \<Rightarrow> lexer_buffer \<Rightarrow> lexer_buffer option" where
  "lex_run_mem m tbl pc_off lexbuf =
     (if 0 <s pc_off then
        map_option (\<lambda>cells. lexbuf\<lparr>lex_mem := cells\<rparr>)
          (run_mem m (lex_code tbl + ucast pc_off) (lex_mem lexbuf) (lex_curr_pos lexbuf))
      else Some lexbuf)"

partial_function (option) new_lex_loop :: "mem \<Rightarrow> lexing_table \<Rightarrow> u32 \<Rightarrow> lexer_buffer \<Rightarrow> (lexer_buffer \<times> val res) option" where
  "new_lex_loop m tbl state lexbuf =
     (let base = Short m (lex_base tbl) state in
      if base <s 0 then
        Option.bind (lex_run_tag m tbl (UShort m (lex_base_code tbl) state) lexbuf) (\<lambda>lexbuf. Some (lexbuf, Inr (Val_int (- base - 1))))
      else
        let backtrk = Short m (lex_backtrk tbl) state in
        Option.bind
          (if 0 \<le>s backtrk then
             map_option (\<lambda>lexbuf. lexbuf\<lparr>lex_last_pos := lex_curr_pos lexbuf, lex_last_action := Val_int backtrk\<rparr>)
               (lex_run_tag m tbl (UShort m (lex_backtrk_code tbl) state) lexbuf)
           else Some lexbuf)
          (\<lambda>lexbuf. case lex_next_char m lexbuf of
             None \<Rightarrow> Some (lexbuf, Inr (Val_int (- state - 1)))
           | Some (c, lexbuf) \<Rightarrow>
               let state' = lex_next_state m tbl state c in
               if state' <s 0 then Some (lex_backtrack lexbuf)
               else Option.bind (lex_run_mem m tbl (lex_pc_off m tbl state c) lexbuf) (\<lambda>lexbuf.
                 new_lex_loop m tbl state' (if c = 256 then lexbuf\<lparr>lex_eof_reached := Val_bool False\<rparr> else lexbuf))))"

definition caml_new_lex_engine :: "mem \<Rightarrow> lexing_table \<Rightarrow> val \<Rightarrow> lexer_buffer \<Rightarrow> (lexer_buffer \<times> val res) option" where
  "caml_new_lex_engine m tbl start_state lexbuf =
     (let (state, lexbuf) = lex_enter start_state lexbuf in new_lex_loop m tbl state lexbuf)"

section \<open>Longest match\<close>

subsection \<open>A generic scanner\<close>

text \<open>
  \<open>scan\<close> is the reference for the engines: it reads the list \<open>cs\<close> from the state \<open>q\<close> at position \<open>pos\<close>, with \<open>lst\<close> the last action and its
  position. \<open>reach\<close> is the state after a word; the scanner stops in a final state.
\<close>

datatype ('s, 'a) scan_result =
    Token 'a nat
  | Empty
  | Refill 's "('a \<times> nat) option"

definition scan_last :: "('s \<Rightarrow> 'a option) \<Rightarrow> 's \<Rightarrow> nat \<Rightarrow> ('a \<times> nat) option \<Rightarrow> ('a \<times> nat) option" where
  "scan_last accept q pos lst = (case accept q of Some a \<Rightarrow> Some (a, pos) | None \<Rightarrow> lst)"

definition scan_stop :: "('a \<times> nat) option \<Rightarrow> ('s, 'a) scan_result" where
  "scan_stop lst = (case lst of Some (a, n) \<Rightarrow> Token a n | None \<Rightarrow> Empty)"

fun scan :: "('s \<Rightarrow> 'a option) \<Rightarrow> ('s \<Rightarrow> bool) \<Rightarrow> ('s \<Rightarrow> 'c \<Rightarrow> 's option) \<Rightarrow> 's \<Rightarrow> nat \<Rightarrow> ('a \<times> nat) option \<Rightarrow> 'c list \<Rightarrow>
    ('s, 'a) scan_result" where
  "scan accept final delta q pos lst [] =
     (if final q then Token (the (accept q)) pos else Refill q (scan_last accept q pos lst))"
| "scan accept final delta q pos lst (c # cs) =
     (if final q then Token (the (accept q)) pos
      else case delta q c of
        None \<Rightarrow> scan_stop (scan_last accept q pos lst)
      | Some q' \<Rightarrow> scan accept final delta q' (Suc pos) (scan_last accept q pos lst) cs)"

primrec reach :: "('s \<Rightarrow> bool) \<Rightarrow> ('s \<Rightarrow> 'c \<Rightarrow> 's option) \<Rightarrow> 's \<Rightarrow> 'c list \<Rightarrow> 's option" where
  "reach final delta q [] = Some q"
| "reach final delta q (c # cs) =
     (if final q then None else case delta q c of None \<Rightarrow> None | Some q' \<Rightarrow> reach final delta q' cs)"

text \<open>The word \<open>w\<close> is a token of the action \<open>a\<close>.\<close>

definition is_token :: "('s \<Rightarrow> 'a option) \<Rightarrow> ('s \<Rightarrow> bool) \<Rightarrow> ('s \<Rightarrow> 'c \<Rightarrow> 's option) \<Rightarrow> 's \<Rightarrow> 'c list \<Rightarrow> 'a \<Rightarrow> bool" where
  "is_token accept final delta q w a \<longleftrightarrow> (\<exists>q'. reach final delta q w = Some q' \<and> accept q' = Some a)"

text \<open>The prefix of length \<open>n\<close> of the input is its longest token, with the action \<open>a\<close>.\<close>

definition longest_token :: "('s \<Rightarrow> 'a option) \<Rightarrow> ('s \<Rightarrow> bool) \<Rightarrow> ('s \<Rightarrow> 'c \<Rightarrow> 's option) \<Rightarrow> 's \<Rightarrow> 'c list \<Rightarrow> 'a \<Rightarrow> nat \<Rightarrow> bool" where
  "longest_token accept final delta q cs a n \<longleftrightarrow> n \<le> length cs \<and> is_token accept final delta q (take n cs) a \<and>
     (\<forall>k \<le> length cs. \<forall>b. is_token accept final delta q (take k cs) b \<longrightarrow> k \<le> n)"

definition no_token :: "('s \<Rightarrow> 'a option) \<Rightarrow> ('s \<Rightarrow> bool) \<Rightarrow> ('s \<Rightarrow> 'c \<Rightarrow> 's option) \<Rightarrow> 's \<Rightarrow> 'c list \<Rightarrow> bool" where
  "no_token accept final delta q cs \<longleftrightarrow> (\<forall>k \<le> length cs. \<forall>b. \<not> is_token accept final delta q (take k cs) b)"

locale scanner =
  fixes accept :: "'s \<Rightarrow> 'a option" and final :: "'s \<Rightarrow> bool" and delta :: "'s \<Rightarrow> 'c \<Rightarrow> 's option"
  assumes final_accept: "final q \<Longrightarrow> accept q \<noteq> None"
begin

lemma is_token_Nil: "is_token accept final delta q [] a \<longleftrightarrow> accept q = Some a"
  by (simp add: is_token_def)

lemma is_token_Cons:
  "is_token accept final delta q (c # w) a \<longleftrightarrow>
     \<not> final q \<and> (case delta q c of None \<Rightarrow> False | Some q' \<Rightarrow> is_token accept final delta q' w a)"
  by (auto simp: is_token_def split: option.splits)

lemma is_token_stuck: "final q \<or> delta q c = None \<Longrightarrow> is_token accept final delta q (take k (c # cs)) b \<Longrightarrow> k = 0"
  by (cases k) (auto simp: is_token_Cons split: option.splits)

lemma scan_append:
  "scan accept final delta q pos lst (v @ w) =
     (case scan accept final delta q pos lst v of
        Refill q' lst' \<Rightarrow> scan accept final delta q' (pos + length v) lst' w
      | r \<Rightarrow> r)"
proof (induction v arbitrary: q pos lst)
  case Nil
  have "scan_last accept q pos (scan_last accept q pos lst) = scan_last accept q pos lst"
    by (simp add: scan_last_def split: option.split)
  then show ?case by (cases w) (auto split: option.split)
next
  case (Cons c v)
  show ?case by (cases "delta q c") (auto simp: Cons.IH scan_stop_def split: option.splits scan_result.splits)
qed

lemma scan_refill_last:
  "scan accept final delta q pos lst cs = Refill q' (Some (a, n)) \<Longrightarrow> (\<And>b k. lst = Some (b, k) \<Longrightarrow> k \<le> pos) \<Longrightarrow>
     n \<le> pos + length cs"
proof (induction cs arbitrary: q pos lst)
  case Nil
  then show ?case by (fastforce simp: scan_last_def split: if_splits option.splits)
next
  case (Cons c cs)
  then obtain q1 where "scan accept final delta q1 (Suc pos) (scan_last accept q pos lst) cs = Refill q' (Some (a, n))"
    by (auto simp: scan_stop_def split: if_splits option.splits)
  from Cons.IH [OF this] Cons.prems(2) show ?case by (fastforce simp: scan_last_def split: option.splits)
qed

text \<open>What a run from position \<open>pos\<close> with the last action \<open>lst\<close> returns.\<close>

lemma scan_spec:
  "case scan accept final delta q pos lst cs of
     Token a n \<Rightarrow> (pos \<le> n \<and> longest_token accept final delta q cs a (n - pos)) \<or>
        (lst = Some (a, n) \<and> no_token accept final delta q cs)
   | Empty \<Rightarrow> lst = None \<and> no_token accept final delta q cs
   | Refill q' lst' \<Rightarrow> reach final delta q cs = Some q' \<and> \<not> final q'"
proof (induction cs arbitrary: q pos lst)
  case Nil
  show ?case using final_accept [of q]
    by (auto simp: longest_token_def no_token_def is_token_Nil)
next
  case (Cons c cs)
  have token_0: "is_token accept final delta q (take 0 (c # cs)) a \<longleftrightarrow> accept q = Some a" for a
    by (simp add: is_token_Nil)
  show ?case
  proof (cases "final q \<or> delta q c = None")
    case True
    note stuck = is_token_stuck [OF True]
    have "longest_token accept final delta q (c # cs) a 0 \<longleftrightarrow> accept q = Some a" for a
      using stuck token_0 unfolding longest_token_def by (metis le0 le_zero_eq)
    moreover have "no_token accept final delta q (c # cs) \<longleftrightarrow> accept q = None"
      using stuck token_0 unfolding no_token_def by (metis le0 option.exhaust option.distinct(1))
    ultimately show ?thesis using True final_accept [of q]
      by (auto simp: scan_stop_def scan_last_def split: option.splits)
  next
    case False
    then obtain q' where q': "\<not> final q" "delta q c = Some q'" by auto
    have tok: "is_token accept final delta q (take (Suc k) (c # cs)) b \<longleftrightarrow> is_token accept final delta q' (take k cs) b" for k b
      using q' by (simp add: is_token_Cons)
    have long: "longest_token accept final delta q (c # cs) a (Suc n)" if "longest_token accept final delta q' cs a n" for a n
      using that tok unfolding longest_token_def
      by (metis Suc_le_mono length_Cons not0_implies_Suc zero_le)
    have none: "is_token accept final delta q (take k (c # cs)) b \<longleftrightarrow> k = 0 \<and> accept q = Some b"
      if "no_token accept final delta q' cs" "k \<le> length (c # cs)" for k b
      using that tok token_0 unfolding no_token_def by (cases k) auto
    have now: "longest_token accept final delta q (c # cs) a 0" if "no_token accept final delta q' cs" "accept q = Some a" for a
      using none [OF that(1)] that(2) unfolding longest_token_def by (auto simp: is_token_Nil)
    have never: "no_token accept final delta q (c # cs)" if "no_token accept final delta q' cs" "accept q = None"
      using none [OF that(1)] that(2) unfolding no_token_def by auto
    have eq: "scan accept final delta q pos lst (c # cs) = scan accept final delta q' (Suc pos) (scan_last accept q pos lst) cs"
      and re: "reach final delta q (c # cs) = reach final delta q' cs" using q' by simp_all
    from Cons.IH [where q = q' and pos = "Suc pos" and lst = "scan_last accept q pos lst"] show ?thesis
      unfolding eq re using long now never
      by (cases "scan accept final delta q' (Suc pos) (scan_last accept q pos lst) cs"; cases "accept q")
        (auto simp: scan_last_def Suc_diff_le dest: Suc_leD, (metis Suc_diff_Suc Suc_le_lessD diff_Suc_Suc Suc_diff_le)+)
  qed
qed

end

subsection \<open>The engine is a scanner\<close>

text \<open>The automaton that the tables encode.\<close>

definition lex_final :: "mem \<Rightarrow> lexing_table \<Rightarrow> u32 \<Rightarrow> bool" where
  "lex_final m tbl q \<longleftrightarrow> Short m (lex_base tbl) q <s 0"

definition lex_accept :: "mem \<Rightarrow> lexing_table \<Rightarrow> u32 \<Rightarrow> val option" where
  "lex_accept m tbl q =
     (let base = Short m (lex_base tbl) q; backtrk = Short m (lex_backtrk tbl) q in
      if base <s 0 then Some (Val_int (- base - 1)) else if 0 \<le>s backtrk then Some (Val_int backtrk) else None)"

definition lex_delta :: "mem \<Rightarrow> lexing_table \<Rightarrow> u32 \<Rightarrow> u32 \<Rightarrow> u32 option" where
  "lex_delta m tbl q c = (let q' = lex_next_state m tbl q c in if q' <s 0 then None else Some q')"

interpretation lex: scanner "lex_accept m tbl" "lex_final m tbl" "lex_delta m tbl" for m tbl
  by unfold_locales (simp add: lex_accept_def lex_final_def Let_def)

abbreviation lex_scan :: "mem \<Rightarrow> lexing_table \<Rightarrow> u32 \<Rightarrow> nat \<Rightarrow> (val \<times> nat) option \<Rightarrow> u32 list \<Rightarrow> (u32, val) scan_result" where
  "lex_scan m tbl \<equiv> scan (lex_accept m tbl) (lex_final m tbl) (lex_delta m tbl)"

text \<open>The buffer holds the bytes \<open>w\<close> from position \<open>p\<close> to its end; the symbols to read are these bytes and the end of the input.\<close>

definition lex_holds :: "mem \<Rightarrow> lexer_buffer \<Rightarrow> nat \<Rightarrow> u8 list \<Rightarrow> bool" where
  "lex_holds m lb p w \<longleftrightarrow> p + length w < 2 ^ 61 \<and> lex_buffer_len lb = Val_long (of_nat (p + length w)) \<and>
     (\<forall>i < length w. Byte_u m (lex_buffer lb) (of_nat (p + i)) = w ! i)"

definition lex_symbols :: "lexer_buffer \<Rightarrow> u8 list \<Rightarrow> u32 list" where
  "lex_symbols lb w = map ucast w @ (if lex_eof_reached lb = Val_bool False then [] else [256])"

text \<open>The last action in the buffer, when \<open>P n\<close> is the position after \<open>n\<close> symbols.\<close>

definition lex_last :: "(nat \<Rightarrow> val) \<Rightarrow> lexer_buffer \<Rightarrow> (val \<times> nat) option \<Rightarrow> bool" where
  "lex_last P lb lst \<longleftrightarrow> (case lst of
     None \<Rightarrow> lex_last_action lb = Val_int (- 1) \<and> lex_last_pos lb = P 0
   | Some (a, n) \<Rightarrow> lex_last_action lb = a \<and> a \<noteq> Val_int (- 1) \<and> lex_last_pos lb = P n)"

text \<open>What the engine returns for the result of the scanner on \<open>n\<close> symbols.\<close>

definition lex_result :: "(nat \<Rightarrow> val) \<Rightarrow> nat \<Rightarrow> (u32, val) scan_result \<Rightarrow> lexer_buffer \<Rightarrow> val res \<Rightarrow> bool" where
  "lex_result P n sr lb r \<longleftrightarrow> (case sr of
     Token a k \<Rightarrow> r = Inr a \<and> lex_curr_pos lb = P k
   | Empty \<Rightarrow> r = Inl (Failure ''lexing: empty token'') \<and> lex_curr_pos lb = P 0
   | Refill q lst \<Rightarrow> r = Inr (Val_int (- q - 1)) \<and> lex_curr_pos lb = P n \<and> lex_last P lb lst)"

lemma sint_Val_long_nat: "n < 2 ^ 61 \<Longrightarrow> sint (Val_long (of_nat n)) = 2 * int n + 1"
  using sint_word_of_int_range [of "int n", where 'a = 64]
  by (subst sint_Val_long) (simp_all add: Min_long_def Max_long_def)

lemma Val_long_nat_le:
  "a < 2 ^ 61 \<Longrightarrow> b < 2 ^ 61 \<Longrightarrow> Val_long (of_nat a) \<le>s Val_long (of_nat b) \<longleftrightarrow> a \<le> b"
  by (simp add: word_sle_eq sint_Val_long_nat)

lemma Long_val_nat: "n < 2 ^ 61 \<Longrightarrow> Long_val (Val_long (of_nat n)) = of_nat n"
  using sint_word_of_int_range [of "int n", where 'a = 64]
  by (intro Long_val_Val_long_range) (simp_all add: Min_long_def Max_long_def)

lemma Val_long_plus_2: "Val_long x + 2 = Val_long (x + 1)"
  by (simp add: Val_long_def)

lemma Val_int_inject: "Val_int x = Val_int y \<longleftrightarrow> x = y"
  by (metis Int_val_Val_int)

lemma lex_holds_char:
  assumes "lex_holds m lb p (x # w)" "lex_curr_pos lb = Val_long (of_nat p)"
  shows "lex_next_char m lb = Some (ucast x, lb\<lparr>lex_curr_pos := Val_long (of_nat (Suc p))\<rparr>)"
    "lex_holds m (lb\<lparr>lex_curr_pos := c\<rparr>) (Suc p) w"
proof -
  have p: "p + length (x # w) < 2 ^ 61" and len: "lex_buffer_len lb = Val_long (of_nat (p + length (x # w)))"
    and bytes: "\<And>i. i < length (x # w) \<Longrightarrow> Byte_u m (lex_buffer lb) (of_nat (p + i)) = (x # w) ! i"
    using assms(1) by (auto simp: lex_holds_def)
  have "p < 2 ^ 61" using p by simp
  then show "lex_next_char m lb = Some (ucast x, lb\<lparr>lex_curr_pos := Val_long (of_nat (Suc p))\<rparr>)"
    using bytes [of 0] Val_long_nat_le [of "p + length (x # w)" p] p
    by (simp add: lex_next_char_def assms(2) len Long_val_nat Val_long_plus_2 add.commute del: length_Cons of_nat_add)
  have "Byte_u m (lex_buffer lb) (of_nat (Suc p + i)) = w ! i" if "i < length w" for i
    using bytes [of "Suc i"] that by simp
  then show "lex_holds m (lb\<lparr>lex_curr_pos := c\<rparr>) (Suc p) w" using p len by (simp add: lex_holds_def)
qed

lemma lex_holds_end:
  assumes "lex_holds m lb p []" "lex_curr_pos lb = Val_long (of_nat p)"
  shows "lex_next_char m lb = (if lex_eof_reached lb = Val_bool False then None else Some (256, lb))"
  using assms Val_long_nat_le [of p p] by (simp add: lex_next_char_def lex_holds_def)

lemma lex_backtrack_result:
  assumes "lex_last P lb lst"
  shows "\<exists>lb' r. lex_backtrack lb = (lb', r) \<and> lex_result P n (scan_stop lst) lb' r"
  using assms by (auto simp: lex_result_def lex_last_def lex_backtrack_def scan_stop_def split: option.splits)

lemma ucast_byte_not_256: "(ucast (x :: u8) :: u32) \<noteq> 256"
proof
  assume "(ucast x :: u32) = 256"
  then have "bit (ucast x :: u32) 8 = bit (256 :: u32) 8" by simp
  then show False by (auto simp: bit_simps dest: bit_imp_le_length)
qed

lemma lex_last_upd [simp]:
  "lex_last P (lb\<lparr>lex_curr_pos := c\<rparr>) lst = lex_last P lb lst"
  "lex_last P (lb\<lparr>lex_eof_reached := e\<rparr>) lst = lex_last P lb lst"
  "lex_last P (lb\<lparr>lex_start_pos := s\<rparr>) lst = lex_last P lb lst"
  by (cases lst; simp add: lex_last_def)+

text \<open>The update of the last action at a state that is not final.\<close>

abbreviation lex_mark :: "mem \<Rightarrow> lexing_table \<Rightarrow> u32 \<Rightarrow> lexer_buffer \<Rightarrow> lexer_buffer" where
  "lex_mark m tbl q lb \<equiv> (if 0 \<le>s Short m (lex_backtrk tbl) q
     then lb\<lparr>lex_last_pos := lex_curr_pos lb, lex_last_action := Val_int (Short m (lex_backtrk tbl) q)\<rparr> else lb)"

lemma lex_mark_last:
  assumes "\<not> lex_final m tbl q" "lex_last P lb lst" "lex_curr_pos lb = P k"
  shows "lex_last P (lex_mark m tbl q lb) (scan_last (lex_accept m tbl) q k lst)"
proof -
  have "Val_int b \<noteq> Val_int (- 1)" if "0 \<le>s b" for b :: u32
    using that by (auto simp: Val_int_inject word_sle_eq)
  then show ?thesis using assms by (auto simp: lex_final_def lex_accept_def scan_last_def lex_last_def Let_def)
qed

lemma lex_loop_unfold:
  "\<not> lex_final m tbl q \<Longrightarrow> lex_loop m tbl q lb =
     (case lex_next_char m (lex_mark m tbl q lb) of
        None \<Rightarrow> Some (lex_mark m tbl q lb, Inr (Val_int (- q - 1)))
      | Some (c, lb) \<Rightarrow>
          case lex_delta m tbl q c of
            None \<Rightarrow> Some (lex_backtrack lb)
          | Some q' \<Rightarrow> lex_loop m tbl q' (if c = 256 then lb\<lparr>lex_eof_reached := Val_bool False\<rparr> else lb))"
  by (subst lex_loop.simps)
    (auto simp: lex_final_def lex_delta_def Let_def split: option.splits if_splits)

lemma lex_loop_scan:
  assumes "lex_holds m lb p w" "lex_curr_pos lb = Val_long (of_nat p)"
    "\<And>j. P (k + j) = Val_long (of_nat (p + min j (length w)))" "lex_last P lb lst"
    "n = k + length (lex_symbols lb w)"
  shows "\<exists>lb' r. lex_loop m tbl q lb = Some (lb', r) \<and> lex_result P n (lex_scan m tbl q k lst (lex_symbols lb w)) lb' r"
  using assms
proof (induction "length (lex_symbols lb w)" arbitrary: lb p w q k lst rule: less_induct)
  case less
  note hold = less.prems(1) and cur = less.prems(2) and P = less.prems(3) and lst = less.prems(4) and n = less.prems(5)
  have cur': "lex_curr_pos lb = P k" using P [of 0] cur by simp
  show ?case
  proof (cases "lex_final m tbl q")
    case True
    then have "lex_loop m tbl q lb = Some (lb, Inr (the (lex_accept m tbl q)))"
      by (subst lex_loop.simps) (simp add: lex_final_def lex_accept_def Let_def)
    moreover have "lex_scan m tbl q k lst (lex_symbols lb w) = Token (the (lex_accept m tbl q)) k"
      using True by (cases "lex_symbols lb w") simp_all
    ultimately show ?thesis using cur' by (simp add: lex_result_def)
  next
    case nf: False
    define lb1 where "lb1 = lex_mark m tbl q lb"
    have lb1: "lex_curr_pos lb1 = lex_curr_pos lb" "lex_eof_reached lb1 = lex_eof_reached lb" "lex_holds m lb1 p w"
      using hold by (simp_all add: lb1_def lex_holds_def)
    let ?lst = "scan_last (lex_accept m tbl) q k lst"
    have last1: "lex_last P lb1 ?lst" unfolding lb1_def by (rule lex_mark_last [OF nf lst cur'])
    note unf = lex_loop_unfold [OF nf, of lb, folded lb1_def]
    show ?thesis
    proof (cases w)
      case (Cons x xs)
      let ?lb2 = "lb1\<lparr>lex_curr_pos := Val_long (of_nat (Suc p))\<rparr>"
      have ch: "lex_next_char m lb1 = Some (ucast x, ?lb2)" and hold2: "lex_holds m ?lb2 (Suc p) xs"
        using lex_holds_char [of m lb1 p x xs] lb1 cur Cons by simp_all
      have c: "(ucast x :: u32) \<noteq> 256" by (rule ucast_byte_not_256)
      have syms: "lex_symbols lb w = ucast x # lex_symbols ?lb2 xs" using lb1(2) Cons by (simp add: lex_symbols_def)
      have last2: "lex_last P ?lb2 ?lst" using last1 by simp
      show ?thesis
      proof (cases "lex_delta m tbl q (ucast x)")
        case None
        then show ?thesis using lex_backtrack_result [OF last2, of n] nf ch syms
          by (simp add: unf)
      next
        case (Some q')
        have P2: "P (Suc k + j) = Val_long (of_nat (Suc p + min j (length xs)))" for j
          using P [of "Suc j"] Cons by simp
        have "\<exists>lb' r. lex_loop m tbl q' ?lb2 = Some (lb', r) \<and>
            lex_result P n (lex_scan m tbl q' (Suc k) ?lst (lex_symbols ?lb2 xs)) lb' r"
          by (rule less.hyps [OF _ hold2 _ P2 last2]) (simp_all add: syms n)
        then show ?thesis using Some nf ch c syms by (simp add: unf)
      qed
    next
      case Nil
      have ch: "lex_next_char m lb1 = (if lex_eof_reached lb = Val_bool False then None else Some (256, lb1))"
        using lex_holds_end [of m lb1 p] lb1 cur Nil by simp
      show ?thesis
      proof (cases "lex_eof_reached lb = Val_bool False")
        case True
        then have "lex_symbols lb w = []" using Nil by (simp add: lex_symbols_def)
        then show ?thesis using True nf ch last1 cur' lb1(1) n by (simp add: unf lex_result_def)
      next
        case False
        then have syms: "lex_symbols lb w = [256]" using Nil by (simp add: lex_symbols_def)
        show ?thesis
        proof (cases "lex_delta m tbl q 256")
          case None
          then show ?thesis using lex_backtrack_result [OF last1, of n] nf ch False syms
            by (simp add: unf)
        next
          case (Some q')
          let ?lb2 = "lb1\<lparr>lex_eof_reached := Val_bool False\<rparr>"
          have s2: "lex_symbols ?lb2 [] = []" by (simp add: lex_symbols_def)
          have P2: "P (Suc k + j) = Val_long (of_nat (p + min j (length ([] :: u8 list))))" for j
            using P [of "Suc j"] Nil by simp
          have "\<exists>lb' r. lex_loop m tbl q' ?lb2 = Some (lb', r) \<and>
              lex_result P n (lex_scan m tbl q' (Suc k) ?lst (lex_symbols ?lb2 [])) lb' r"
            by (rule less.hyps [OF _ _ _ P2])
              (use lb1 cur Nil syms s2 n last1 in \<open>simp_all add: lex_holds_def\<close>)
          then show ?thesis using Some nf ch False syms s2 by (simp add: unf)
        qed
      qed
    qed
  qed
qed

lemma lex_engine_scan:
  assumes hold: "lex_holds m lb p w" and cur: "lex_curr_pos lb = Val_long (of_nat p)" and q: "0 \<le>s q"
    and P: "P = (\<lambda>j. Val_long (of_nat (p + min j (length w))))"
  shows "\<exists>lb' r. caml_lex_engine m tbl (Val_int q) lb = Some (lb', r) \<and>
    lex_result P (length (lex_symbols lb w)) (lex_scan m tbl q 0 None (lex_symbols lb w)) lb' r"
proof -
  let ?lb = "lb\<lparr>lex_last_pos := lex_curr_pos lb, lex_start_pos := lex_curr_pos lb, lex_last_action := Val_int (- 1)\<rparr>"
  have e: "caml_lex_engine m tbl (Val_int q) lb = lex_loop m tbl q ?lb"
    using q by (simp add: caml_lex_engine_def lex_enter_def)
  have s: "lex_symbols ?lb w = lex_symbols lb w" by (simp add: lex_symbols_def)
  have "\<exists>lb' r. lex_loop m tbl q ?lb = Some (lb', r) \<and>
      lex_result P (length (lex_symbols lb w)) (lex_scan m tbl q 0 None (lex_symbols ?lb w)) lb' r"
    by (rule lex_loop_scan [where p = p])
      (use hold cur P s in \<open>simp_all add: lex_holds_def lex_last_def\<close>)
  then show ?thesis unfolding e s .
qed

text \<open>
  C26: for every table and input the lexing engine returns. On a buffer whose unread characters are \<open>w\<close> it returns the
  action of the longest prefix of the input that the automaton of the tables accepts, with the position after that prefix; or it asks for a refill
  in the state that the whole buffer leads to; or it raises \<open>Failure\<close> at the start position because no prefix is accepted.
\<close>

theorem lex_longest_match:
  assumes hold: "lex_holds m lb p w" and cur: "lex_curr_pos lb = Val_long (of_nat p)" and q: "0 \<le>s q"
  shows "\<exists>lb' r. caml_lex_engine m tbl (Val_int q) lb = Some (lb', r) \<and>
    (case r of
       Inl e \<Rightarrow> e = Failure ''lexing: empty token'' \<and> lex_curr_pos lb' = lex_curr_pos lb \<and>
         no_token (lex_accept m tbl) (lex_final m tbl) (lex_delta m tbl) q (lex_symbols lb w)
     | Inr v \<Rightarrow>
         (\<exists>n. longest_token (lex_accept m tbl) (lex_final m tbl) (lex_delta m tbl) q (lex_symbols lb w) v n \<and>
            lex_curr_pos lb' = Val_long (of_nat (p + min n (length w)))) \<or>
         (\<exists>q'. v = Val_int (- q' - 1) \<and> reach (lex_final m tbl) (lex_delta m tbl) q (lex_symbols lb w) = Some q' \<and>
            \<not> lex_final m tbl q' \<and> lex_curr_pos lb' = Val_long (of_nat (p + length w))))"
proof -
  let ?P = "\<lambda>j. Val_long (of_nat (p + min j (length w)))" and ?cs = "lex_symbols lb w"
  from lex_engine_scan [OF hold cur q refl] obtain lb' r where
    e: "caml_lex_engine m tbl (Val_int q) lb = Some (lb', r)"
    and res: "lex_result ?P (length ?cs) (lex_scan m tbl q 0 None ?cs) lb' r" by blast
  have len: "length w \<le> length ?cs" by (simp add: lex_symbols_def)
  show ?thesis
    using lex.scan_spec [where m = m and tbl = tbl and q = q and pos = 0 and lst = None and cs = ?cs] res e len cur
    by (cases "lex_scan m tbl q 0 None ?cs") (auto simp: lex_result_def min_absorb2)
qed

text \<open>A table of one state that accepts the empty word and loops on every character.\<close>

definition loop_table :: lexing_table where
  "loop_table = \<lparr>lex_base = 0x1000, lex_backtrk = 0x1100, lex_default = 0x1200, lex_trans = 0x1000, lex_check = 0x1300,
     lex_base_code = 0x1000, lex_backtrk_code = 0x1000, lex_default_code = 0x1000, lex_trans_code = 0x1000, lex_check_code = 0x1300,
     lex_code = 0x3000\<rparr>"

text \<open>A buffer at \<open>0x2000\<close> with three zero bytes, at the end of the input; the action programs are empty.\<close>

definition lex_sample_mem :: mem where "lex_sample_mem = (\<lambda>a. if a = 0x3000 then 0xff else 0)"

definition lex_sample :: lexer_buffer where
  "lex_sample = \<lparr>refill_buff = Val_unit, lex_buffer = 0x2000, lex_buffer_len = Val_long 3, lex_abs_pos = Val_long 0,
     lex_start_pos = Val_long 0, lex_curr_pos = Val_long 0, lex_last_pos = Val_long 0, lex_last_action = Val_int 0,
     lex_eof_reached = Val_bool False, lex_mem = [], lex_start_p = Val_unit, lex_curr_p = Val_unit\<rparr>"

lemma lex_sample_holds: "lex_holds lex_sample_mem lex_sample 0 [0, 0, 0]"
  by (auto simp: lex_holds_def lex_sample_def lex_sample_mem_def Byte_u_def less_Suc_eq)

theorem lex_longest_match_witness:
  "\<exists>lb' r. caml_lex_engine lex_sample_mem loop_table (Val_int 0) lex_sample = Some (lb', r)"
proof -
  have "lex_curr_pos lex_sample = Val_long (of_nat 0)" "0 \<le>s (0 :: u32)" by (simp_all add: lex_sample_def)
  from lex_longest_match [OF lex_sample_holds this, of loop_table] show ?thesis by blast
qed

subsection \<open>Refills\<close>

definition lex_same_tables :: "mem \<Rightarrow> mem \<Rightarrow> lexing_table \<Rightarrow> bool" where
  "lex_same_tables m m' tbl \<longleftrightarrow>
     (\<forall>t \<in> {lex_base tbl, lex_backtrk tbl, lex_default tbl, lex_trans tbl, lex_check tbl}. \<forall>n. Short m' t n = Short m t n)"

lemma lex_same_tables_automaton:
  assumes "lex_same_tables m m' tbl"
  shows "lex_accept m' tbl = lex_accept m tbl" "lex_final m' tbl = lex_final m tbl" "lex_delta m' tbl = lex_delta m tbl"
  using assms unfolding lex_same_tables_def
  by (auto simp: fun_eq_iff lex_accept_def lex_final_def lex_delta_def lex_next_state_def Let_def)

lemma lex_accept_nonneg: "lex_accept m tbl q = Some a \<Longrightarrow> 0 \<le>s Int_val a"
proof -
  assume a: "lex_accept m tbl q = Some a"
  have "0 \<le>s - b - (1 :: u32)" if "b <s 0" for b
  proof -
    have "sint (word_of_int (- sint b - 1) :: u32) = - sint b - 1"
      by (rule sint_word_of_int_range) (use sint_ge [of b] sint_lt [of b] in auto)
    then show ?thesis using that by (simp add: word_sless_alt word_sle_eq)
  qed
  then show ?thesis using a by (auto simp: lex_accept_def Let_def split: if_splits)
qed

text \<open>A negative result is a request for a refill.\<close>

lemma lex_result_refill:
  assumes res: "lex_result P n (lex_scan m tbl q 0 None cs) lb (Inr (Val_int s))" and s: "s <s 0"
  obtains q' lst where "lex_scan m tbl q 0 None cs = Refill q' lst" "s = - q' - 1" "lex_last P lb lst"
proof (cases "lex_scan m tbl q 0 None cs")
  case (Token a k)
  then have a: "a = Val_int s" using res by (simp add: lex_result_def)
  have "longest_token (lex_accept m tbl) (lex_final m tbl) (lex_delta m tbl) q cs a k"
    using lex.scan_spec [where m = m and tbl = tbl and q = q and pos = 0 and lst = None and cs = cs] Token by simp
  then obtain q' where "lex_accept m tbl q' = Some a" by (auto simp: longest_token_def is_token_def)
  then have "0 \<le>s s" using lex_accept_nonneg a by fastforce
  then show thesis using s by (simp add: word_sle_eq word_sless_alt)
next
  case (Refill q' lst)
  then show thesis using res that by (simp add: lex_result_def Val_int_inject)
qed (use res in \<open>simp add: lex_result_def\<close>)

lemma lex_last_shift:
  assumes "lex_last (\<lambda>j. Val_long (of_nat (p + min j (length v)))) lb lst"
    "lex_last_action lb' = lex_last_action lb"
    "lex_last_pos lb' - Val_long (of_nat p') = lex_last_pos lb - Val_long (of_nat p)"
    "\<And>a n. lst = Some (a, n) \<Longrightarrow> n \<le> length v"
  shows "lex_last (\<lambda>j. Val_long (of_nat (p' + min j (length (v @ w))))) lb' lst"
proof -
  have "lex_last_pos lb' = Val_long (of_nat (p' + k))" if "lex_last_pos lb = Val_long (of_nat (p + k))" for k
    using assms(3) unfolding that by (simp add: Val_long_def algebra_simps)
  then show ?thesis using assms by (auto simp: lex_last_def min_absorb1 split: option.splits)
qed

text \<open>
  C27: refills are transparent. When the engine has asked for a refill after the characters \<open>v\<close>, a buffer that holds the same
  token so far, at any offset, followed by further characters \<open>w\<close>, is resumed with the same result, and with the same position relative to the
  start of the token, as a single run over \<open>v @ w\<close>.
\<close>

theorem lex_refill_transparent:
  assumes t2: "lex_same_tables m1 m2 tbl" and t3: "lex_same_tables m1 m3 tbl" and q: "0 \<le>s q"
    and h1: "lex_holds m1 lb1 p1 v" "lex_curr_pos lb1 = Val_long (of_nat p1)" "lex_eof_reached lb1 = Val_bool False"
    and run1: "caml_lex_engine m1 tbl (Val_int q) lb1 = Some (lb1', Inr (Val_int s))" "s <s 0"
    and h2: "lex_holds m2 lb2 p2 (v @ w)" "lex_curr_pos lb2 = Val_long (of_nat (p2 + length v))"
    and l2: "lex_last_action lb2 = lex_last_action lb1'"
      "lex_last_pos lb2 - Val_long (of_nat p2) = lex_last_pos lb1' - Val_long (of_nat p1)"
    and h3: "lex_holds m3 lb3 p3 (v @ w)" "lex_curr_pos lb3 = Val_long (of_nat p3)" "lex_eof_reached lb3 = lex_eof_reached lb2"
  shows "\<exists>lb2' lb3' r. caml_lex_engine m2 tbl (Val_int s) lb2 = Some (lb2', r) \<and>
     caml_lex_engine m3 tbl (Val_int q) lb3 = Some (lb3', r) \<and>
     lex_curr_pos lb2' - Val_long (of_nat p2) = lex_curr_pos lb3' - Val_long (of_nat p3)"
proof -
  let ?P = "\<lambda>p u j. Val_long (of_nat (p + min j (length u)))"
  note aut = lex_same_tables_automaton [OF t2] lex_same_tables_automaton [OF t3]
  have sv: "lex_symbols lb1 v = map ucast v" using h1(3) by (simp add: lex_symbols_def)
  have res1: "lex_result (?P p1 v) (length v) (lex_scan m1 tbl q 0 None (map ucast v)) lb1' (Inr (Val_int s))"
    using lex_engine_scan [OF h1(1,2) q refl, of tbl] run1(1) by (simp add: sv)
  obtain q' lst where sc: "lex_scan m1 tbl q 0 None (map ucast v) = Refill q' lst" "s = - q' - 1" "lex_last (?P p1 v) lb1' lst"
    using lex_result_refill [OF res1 run1(2)] .
  have n: "n \<le> length v" if "lst = Some (a, n)" for a n
    using lex.scan_refill_last [OF sc(1) [unfolded that]] by simp
  let ?N = "length v + length (lex_symbols lb2 w)"
  have "\<exists>lb' r. lex_loop m2 tbl q' lb2 = Some (lb', r) \<and>
      lex_result (?P p2 (v @ w)) ?N (lex_scan m2 tbl q' (length v) lst (lex_symbols lb2 w)) lb' r"
  proof (rule lex_loop_scan [OF _ h2(2) _ _ refl])
    show "lex_holds m2 lb2 (p2 + length v) w"
      using h2(1) by (auto simp: lex_holds_def nth_append add.assoc dest: spec [of _ "length v + _"])
    show "?P p2 (v @ w) (length v + j) = Val_long (of_nat (p2 + length v + min j (length w)))" for j
      by (simp add: min_def add.assoc)
    show "lex_last (?P p2 (v @ w)) lb2 lst" by (rule lex_last_shift [OF sc(3) l2 n])
  qed
  then obtain lb2' r where r2: "lex_loop m2 tbl q' lb2 = Some (lb2', r)"
    "lex_result (?P p2 (v @ w)) ?N (lex_scan m1 tbl q' (length v) lst (lex_symbols lb2 w)) lb2' r"
    unfolding aut by blast
  have s3: "lex_symbols lb3 (v @ w) = map ucast v @ lex_symbols lb2 w" using h3(3) by (simp add: lex_symbols_def)
  have sc3: "lex_scan m1 tbl q 0 None (map ucast v @ lex_symbols lb2 w) = lex_scan m1 tbl q' (length v) lst (lex_symbols lb2 w)"
    using lex.scan_append [of m1 tbl q 0 None "map ucast v"] sc(1) by simp
  from lex_engine_scan [OF h3(1,2) q refl, of tbl] obtain lb3' r' where
    r3: "caml_lex_engine m3 tbl (Val_int q) lb3 = Some (lb3', r')"
    "lex_result (?P p3 (v @ w)) ?N (lex_scan m1 tbl q' (length v) lst (lex_symbols lb2 w)) lb3' r'"
    unfolding s3 aut sc3 by auto
  have "caml_lex_engine m2 tbl (Val_int s) lb2 = Some (lb2', r)"
    using r2(1) run1(2) sc(2) by (auto simp: caml_lex_engine_def lex_enter_def word_sle_eq word_sless_alt)
  moreover have "?P p2 (v @ w) j - Val_long (of_nat p2) = ?P p3 (v @ w) j - Val_long (of_nat p3)" for j
    by (simp add: Val_long_def algebra_simps)
  then have "r' = r \<and> lex_curr_pos lb2' - Val_long (of_nat p2) = lex_curr_pos lb3' - Val_long (of_nat p3)"
    using r2(2) r3(2) by (auto simp: lex_result_def split: scan_result.splits)
  ultimately show ?thesis using r3(1) by blast
qed

lemma load16_zero: "m a = 0 \<Longrightarrow> m (a + 1) = 0 \<Longrightarrow> load16 m a = 0"
  unfolding load16_def numeral_2_eq_2 by simp

lemma lex_sample_short [simp]:
  "Short lex_sample_mem (lex_base loop_table) q = 0" "Short lex_sample_mem (lex_backtrk loop_table) q = 0" if "q = 0" for q
  using that by (simp_all add: Short_def loop_table_def load16_zero lex_sample_mem_def)

lemma lex_sample_delta: "lex_delta lex_sample_mem loop_table 0 0 = Some 0"
  by (simp add: lex_delta_def lex_next_state_def Short_def loop_table_def load16_zero lex_sample_mem_def)

lemma lex_sample_step:
  "lex_holds lex_sample_mem lb p (0 # w) \<Longrightarrow> lex_curr_pos lb = Val_long (of_nat p) \<Longrightarrow>
   lex_loop lex_sample_mem loop_table 0 lb = lex_loop lex_sample_mem loop_table 0
     (lb\<lparr>lex_last_pos := lex_curr_pos lb, lex_last_action := Val_int 0, lex_curr_pos := Val_long (of_nat (Suc p))\<rparr>)"
  using lex_holds_char [of lex_sample_mem "lb\<lparr>lex_last_pos := lex_curr_pos lb, lex_last_action := Val_int 0\<rparr>" p 0 w] lex_sample_delta
  by (subst lex_loop_unfold) (simp_all add: lex_final_def lex_holds_def)

theorem lex_refill_transparent_witness:
  "\<exists>lb2' lb3' r. caml_lex_engine lex_sample_mem loop_table (Val_int (- 1))
       (lex_sample\<lparr>lex_curr_pos := Val_long 1, lex_last_pos := Val_long 1\<rparr>) = Some (lb2', r) \<and>
     caml_lex_engine lex_sample_mem loop_table (Val_int 0) lex_sample = Some (lb3', r)"
proof -
  let ?lb1 = "lex_sample\<lparr>lex_buffer_len := Val_long 1\<rparr>"
  let ?lb1' = "?lb1\<lparr>lex_last_pos := Val_long 1, lex_start_pos := Val_long 0, lex_last_action := Val_int 0, lex_curr_pos := Val_long 1\<rparr>"
  let ?lb2 = "lex_sample\<lparr>lex_curr_pos := Val_long 1, lex_last_pos := Val_long 1\<rparr>"
  have h1: "lex_holds lex_sample_mem ?lb1 0 [0]" and h2: "lex_holds lex_sample_mem ?lb2 0 ([0] @ [0, 0])"
    and h3: "lex_holds lex_sample_mem lex_sample 0 ([0] @ [0, 0])"
    by (auto simp: lex_holds_def lex_sample_def lex_sample_mem_def Byte_u_def less_Suc_eq)
  have "caml_lex_engine lex_sample_mem loop_table (Val_int 0) ?lb1 = Some (?lb1', Inr (Val_int (- 1)))"
    using h1 lex_sample_step [of "?lb1\<lparr>lex_last_pos := Val_long 0, lex_start_pos := Val_long 0, lex_last_action := Val_int (- 1)\<rparr>" 0 "[]"]
    by (simp add: caml_lex_engine_def lex_enter_def lex_holds_def lex_sample_def)
      (subst lex_loop_unfold; simp add: lex_final_def lex_next_char_def)
  from lex_refill_transparent [OF _ _ _ h1 _ _ this _ h2 _ _ _ h3] show ?thesis
    by (auto simp: lex_same_tables_def lex_sample_def)
qed

subsection \<open>The engine with memory\<close>

text \<open>The action program at \<open>pc\<close> ends within \<open>k\<close> moves and addresses only \<open>c\<close> cells.\<close>

primrec lex_program :: "mem \<Rightarrow> nat \<Rightarrow> addr \<Rightarrow> nat \<Rightarrow> bool" where
  "lex_program m c pc 0 \<longleftrightarrow> m pc = 0xff"
| "lex_program m c pc (Suc k) \<longleftrightarrow> m pc = 0xff \<or>
     unat (m pc) < c \<and> (m (pc + 1) = 0xff \<or> unat (m (pc + 1)) < c) \<and> lex_program m c (pc + 2) k"

lemma run_tag_total:
  "lex_program m (length cells) pc k \<Longrightarrow> \<exists>cells'. run_tag m pc cells = Some cells' \<and> length cells' = length cells"
proof (induction k arbitrary: pc cells)
  case (Suc k)
  let ?cells = "cells[unat (m pc) := if m (pc + 1) = 0xff then Val_int (- 1) else cells ! unat (m (pc + 1))]"
  show ?case
  proof (cases "m pc = 0xff")
    case False
    then show ?thesis using Suc.prems Suc.IH [of ?cells "pc + 2"] by (subst run_tag.simps) (simp add: Let_def)
  qed (subst run_tag.simps, simp)
qed (subst run_tag.simps, simp)

lemma run_mem_total:
  "lex_program m (length cells) pc k \<Longrightarrow> \<exists>cells'. run_mem m pc cells v = Some cells' \<and> length cells' = length cells"
proof (induction k arbitrary: pc cells)
  case (Suc k)
  let ?cells = "cells[unat (m pc) := if m (pc + 1) = 0xff then v else cells ! unat (m (pc + 1))]"
  show ?case
  proof (cases "m pc = 0xff")
    case False
    then show ?thesis using Suc.prems Suc.IH [of ?cells "pc + 2"] by (subst run_mem.simps) (simp add: Let_def)
  qed (subst run_mem.simps, simp)
qed (subst run_mem.simps, simp)

text \<open>Tables of \<open>n\<close> states: transitions stay in the table, and the action programs of every state work on \<open>c\<close> cells.\<close>

definition lex_tables_ok :: "mem \<Rightarrow> lexing_table \<Rightarrow> nat \<Rightarrow> nat \<Rightarrow> bool" where
  "lex_tables_ok m tbl n c \<longleftrightarrow> (\<forall>q. unat q < n \<longrightarrow>
     (\<exists>k. lex_program m c (lex_code tbl + ucast (UShort m (lex_base_code tbl) q)) k) \<and>
     (\<exists>k. lex_program m c (lex_code tbl + ucast (UShort m (lex_backtrk_code tbl) q)) k) \<and>
     (\<forall>ch \<le> 256. (\<exists>k. lex_program m c (lex_code tbl + ucast (lex_pc_off m tbl q ch)) k) \<and>
        (\<forall>q'. lex_delta m tbl q ch = Some q' \<longrightarrow> unat q' < n)))"

lemma lex_next_char_mem:
  "lex_next_char m (lb\<lparr>lex_mem := cells\<rparr>) = map_option (\<lambda>(c, lb). (c, lb\<lparr>lex_mem := cells\<rparr>)) (lex_next_char m lb)"
  by (simp add: lex_next_char_def)

lemma lex_next_char_le: "lex_next_char m lb = Some (c, lb') \<Longrightarrow> c \<le> 256"
proof -
  have "unat (ucast (x :: u8) :: u32) \<le> 256" for x
    using unat8_less [of x] by (simp add: unat_ucast_u8_u32)
  then show "lex_next_char m lb = Some (c, lb') \<Longrightarrow> c \<le> 256"
    by (auto simp: lex_next_char_def word_le_nat_alt split: if_splits)
qed

lemma lex_mark_mem: "lex_mark m tbl q (lb\<lparr>lex_mem := cells\<rparr>) = (lex_mark m tbl q lb)\<lparr>lex_mem := cells\<rparr>"
  by (cases lb) simp

lemma lex_backtrack_mem:
  "lex_backtrack (lb\<lparr>lex_mem := cells\<rparr>) = (case lex_backtrack lb of (lb', r) \<Rightarrow> (lb'\<lparr>lex_mem := cells\<rparr>, r))"
  by (simp add: lex_backtrack_def)

lemma lex_run_mem_total:
  assumes "lex_tables_ok m tbl n c" "unat q < n" "length cells = c" "ch \<le> 256"
  shows "\<exists>cells'. lex_run_mem m tbl (lex_pc_off m tbl q ch) (lb\<lparr>lex_mem := cells\<rparr>) = Some (lb\<lparr>lex_mem := cells'\<rparr>) \<and> length cells' = c"
proof -
  obtain k where "lex_program m (length cells) (lex_code tbl + ucast (lex_pc_off m tbl q ch)) k"
    using assms unfolding lex_tables_ok_def by blast
  from run_mem_total [OF this, of "lex_curr_pos lb"] show ?thesis using assms(3) by (auto simp: lex_run_mem_def)
qed

lemma lex_run_tag_total:
  assumes "lex_tables_ok m tbl n c" "unat q < n" "length cells = c" "t \<in> {lex_base_code tbl, lex_backtrk_code tbl}"
  shows "\<exists>cells'. lex_run_tag m tbl (UShort m t q) (lb\<lparr>lex_mem := cells\<rparr>) = Some (lb\<lparr>lex_mem := cells'\<rparr>) \<and> length cells' = c"
proof -
  obtain k where "lex_program m (length cells) (lex_code tbl + ucast (UShort m t q)) k"
    using assms unfolding lex_tables_ok_def by blast
  from run_tag_total [OF this] show ?thesis using assms(3) by (auto simp: lex_run_tag_def)
qed

lemma new_lex_loop_unfold:
  "\<not> lex_final m tbl q \<Longrightarrow> new_lex_loop m tbl q lb =
     Option.bind (if 0 \<le>s Short m (lex_backtrk tbl) q then
         map_option (lex_mark m tbl q) (lex_run_tag m tbl (UShort m (lex_backtrk_code tbl) q) lb) else Some lb)
      (\<lambda>lb. case lex_next_char m lb of
        None \<Rightarrow> Some (lb, Inr (Val_int (- q - 1)))
      | Some (c, lb) \<Rightarrow>
          case lex_delta m tbl q c of
            None \<Rightarrow> Some (lex_backtrack lb)
          | Some q' \<Rightarrow> Option.bind (lex_run_mem m tbl (lex_pc_off m tbl q c) lb) (\<lambda>lb.
              new_lex_loop m tbl q' (if c = 256 then lb\<lparr>lex_eof_reached := Val_bool False\<rparr> else lb)))"
  by (subst new_lex_loop.simps)
    (auto simp: lex_final_def lex_delta_def Let_def split: option.splits if_splits intro!: Option.bind_cong)

text \<open>The memory actions do not influence what is recognised.\<close>

lemma new_lex_loop_simulates:
  "lex_loop m tbl q lb = Some y \<Longrightarrow> lex_tables_ok m tbl n c \<Longrightarrow> unat q < n \<Longrightarrow> length cells = c \<Longrightarrow>
   \<exists>cells'. new_lex_loop m tbl q (lb\<lparr>lex_mem := cells\<rparr>) = Some ((fst y)\<lparr>lex_mem := cells'\<rparr>, snd y) \<and> length cells' = c"
proof (induction arbitrary: cells rule: lex_loop.raw_induct [rotated, consumes 1, case_names 1])
  case (1 f m tbl q lb y)
  note eq = 1(2) and ok = 1(3-5)
  show ?case
  proof (cases "lex_final m tbl q")
    case True
    obtain cells' where "lex_run_tag m tbl (UShort m (lex_base_code tbl) q) (lb\<lparr>lex_mem := cells\<rparr>) = Some (lb\<lparr>lex_mem := cells'\<rparr>)"
      "length cells' = c" using lex_run_tag_total [OF ok, of "lex_base_code tbl" lb] by blast
    then show ?thesis using eq True by (subst new_lex_loop.simps) (auto simp: lex_final_def Let_def)
  next
    case nf: False
    have step: "(case lex_next_char m (lex_mark m tbl q lb) of
        None \<Rightarrow> Some (lex_mark m tbl q lb, Inr (Val_int (- q - 1)))
      | Some (c, lb) \<Rightarrow>
          case lex_delta m tbl q c of
            None \<Rightarrow> Some (lex_backtrack lb)
          | Some q' \<Rightarrow> f m tbl q' (if c = 256 then lb\<lparr>lex_eof_reached := Val_bool False\<rparr> else lb)) = Some y"
      using eq nf by (auto simp: lex_final_def lex_delta_def Let_def split: option.splits if_splits)
    obtain cells1 where mark: "(if 0 \<le>s Short m (lex_backtrk tbl) q then
         map_option (lex_mark m tbl q) (lex_run_tag m tbl (UShort m (lex_backtrk_code tbl) q) (lb\<lparr>lex_mem := cells\<rparr>))
         else Some (lb\<lparr>lex_mem := cells\<rparr>)) = Some ((lex_mark m tbl q lb)\<lparr>lex_mem := cells1\<rparr>)" and len1: "length cells1 = c"
    proof (cases "0 \<le>s Short m (lex_backtrk tbl) q")
      case True
      obtain cells' where "lex_run_tag m tbl (UShort m (lex_backtrk_code tbl) q) (lb\<lparr>lex_mem := cells\<rparr>) = Some (lb\<lparr>lex_mem := cells'\<rparr>)"
        "length cells' = c" using lex_run_tag_total [OF ok, of "lex_backtrk_code tbl" lb] by blast
      then show ?thesis using that [of cells'] True lex_mark_mem [where lb = lb and cells = cells'] by simp
    qed (use that [of cells] ok(3) in simp)
    note unf = new_lex_loop_unfold [OF nf, of "lb\<lparr>lex_mem := cells\<rparr>", unfolded mark bind.bind_lunit lex_next_char_mem]
    show ?thesis
    proof (cases "lex_next_char m (lex_mark m tbl q lb)")
      case None
      then show ?thesis using step len1 unfolding unf by auto
    next
      case (Some cl)
      then obtain ch lb2 where ch: "lex_next_char m (lex_mark m tbl q lb) = Some (ch, lb2)" by (cases cl) auto
      have ch256: "ch \<le> 256" by (rule lex_next_char_le [OF ch])
      show ?thesis
      proof (cases "lex_delta m tbl q ch")
        case None
        then show ?thesis using step len1 ch unfolding unf by (auto simp: lex_backtrack_mem split: prod.splits)
      next
        case (Some q')
        let ?e = "\<lambda>lb. if ch = 256 then lb\<lparr>lex_eof_reached := Val_bool False\<rparr> else lb"
        obtain cells2 where mv: "lex_run_mem m tbl (lex_pc_off m tbl q ch) (lb2\<lparr>lex_mem := cells1\<rparr>) = Some (lb2\<lparr>lex_mem := cells2\<rparr>)"
          "length cells2 = c" using lex_run_mem_total [OF ok(1,2) len1 ch256] by blast
        have "unat q' < n" using ok Some ch256 unfolding lex_tables_ok_def by blast
        moreover have "f m tbl q' (?e lb2) = Some y" using step ch Some by simp
        ultimately have ih: "\<exists>cells'. new_lex_loop m tbl q' ((?e lb2)\<lparr>lex_mem := cells2\<rparr>) = Some ((fst y)\<lparr>lex_mem := cells'\<rparr>, snd y) \<and>
            length cells' = c" using 1(1) ok(1) mv(2) by blast
        have "?e (lb2\<lparr>lex_mem := cells2\<rparr>) = (?e lb2)\<lparr>lex_mem := cells2\<rparr>" by (cases lb2) simp
        moreover have "new_lex_loop m tbl q (lb\<lparr>lex_mem := cells\<rparr>) = new_lex_loop m tbl q' (?e (lb2\<lparr>lex_mem := cells2\<rparr>))"
          unfolding unf using ch Some mv(1) by simp
        ultimately show ?thesis using ih by (simp only:)
      qed
    qed
  qed
qed

text \<open>
  C28: on well-formed tables the engine with memory returns, recognises the same token at the same position as the plain engine
  and leaves every field of the lexer buffer as the plain engine does, except the memory cells.
\<close>

theorem new_lex_engine_agrees:
  assumes hold: "lex_holds m lb p w" and cur: "lex_curr_pos lb = Val_long (of_nat p)" and q: "0 \<le>s q"
    and ok: "lex_tables_ok m tbl n (length (lex_mem lb))" "unat q < n"
  shows "\<exists>lb' cells r. caml_lex_engine m tbl (Val_int q) lb = Some (lb', r) \<and>
     caml_new_lex_engine m tbl (Val_int q) lb = Some (lb'\<lparr>lex_mem := cells\<rparr>, r) \<and> length cells = length (lex_mem lb)"
proof -
  let ?lb = "lb\<lparr>lex_last_pos := lex_curr_pos lb, lex_start_pos := lex_curr_pos lb, lex_last_action := Val_int (- 1)\<rparr>"
  from lex_engine_scan [OF hold cur q refl] obtain lb' r where e: "caml_lex_engine m tbl (Val_int q) lb = Some (lb', r)" by blast
  then have "lex_loop m tbl q ?lb = Some (lb', r)" using q by (simp add: caml_lex_engine_def lex_enter_def)
  from new_lex_loop_simulates [OF this ok refl] obtain cells where
    "new_lex_loop m tbl q (?lb\<lparr>lex_mem := lex_mem lb\<rparr>) = Some (lb'\<lparr>lex_mem := cells\<rparr>, r)" "length cells = length (lex_mem lb)" by auto
  then show ?thesis using e q by (auto simp: caml_new_lex_engine_def lex_enter_def)
qed

lemma lex_sample_table:
  assumes "unat t < 0x2000" "unat ch \<le> 256"
  shows "Short lex_sample_mem t ch = 0" "UShort lex_sample_mem t ch = 0"
proof -
  obtain k where k: "ch = of_nat k" "k \<le> 256" using assms(2) that [of "unat ch"] by simp
  then have "scast ch = (of_nat k :: u64)" "unat ch = k" using scast_of_nat_u32 [of k] by (simp_all add: unat_of_nat)
  then have "unat (t + 2 * scast ch) = unat t + 2 * unat ch"
    using assms k by (simp add: unat_word_ariths unat_of_nat)
  then have "unat (t + 2 * scast ch) < 0x2200" using assms by simp
  then have "t + 2 * scast ch \<noteq> 0x3000" "t + 2 * scast ch + 1 \<noteq> 0x3000" by auto
  then have "load16 lex_sample_mem (t + 2 * scast ch) = 0" by (intro load16_zero) (simp_all add: lex_sample_mem_def)
  then show "Short lex_sample_mem t ch = 0" "UShort lex_sample_mem t ch = 0" by (simp_all add: Short_def UShort_def)
qed

lemma lex_sample_tables_ok: "lex_tables_ok lex_sample_mem loop_table 1 0"
proof -
  have p: "lex_program lex_sample_mem 0 0x3000 0" by (simp add: lex_sample_mem_def)
  have "unat (ch :: u32) \<le> 256" if "ch \<le> 256" for ch using that by (simp add: word_le_nat_alt)
  then show ?thesis using p
    by (auto simp: lex_tables_ok_def loop_table_def lex_sample_table lex_pc_off_def lex_delta_def lex_next_state_def intro!: exI [of _ 0])
qed

theorem new_lex_engine_agrees_witness:
  "\<exists>lb' cells r. caml_lex_engine lex_sample_mem loop_table (Val_int 0) lex_sample = Some (lb', r) \<and>
     caml_new_lex_engine lex_sample_mem loop_table (Val_int 0) lex_sample = Some (lb'\<lparr>lex_mem := cells\<rparr>, r) \<and> length cells = 0"
proof -
  have s: "lex_curr_pos lex_sample = Val_long (of_nat 0)" "0 \<le>s (0 :: u32)" "length (lex_mem lex_sample) = 0" "unat (0 :: u32) < 1"
    by (simp_all add: lex_sample_def)
  show ?thesis
    using new_lex_engine_agrees [OF lex_sample_holds s(1,2), of loop_table 1] lex_sample_tables_ok s by simp
qed

end
