(* ===== verification/Parsing.thy ===== *)
theory Parsing
  imports Lexing
begin

text \<open>
  The pushdown automaton for parsers generated by \<open>ocamlyacc\<close> (\<open>runtime/parsing.c\<close>). The tables and the environment are the records of the
  source; the four stacks are lists, indexed by \<open>sp\<close>. The labels of the engine are the constructors of \<open>label\<close>, the local variables
  the record \<open>parser_regs\<close>, and \<open>parse_step\<close> is the code from a label to the next jump. \<open>Stuck\<close> is an
  access outside a stack. The trace output is not modelled.
\<close>

unbundle bit_operations_syntax

subsection \<open>Tables and environment\<close>

record parser_tables =
  pt_actions :: val
  transl_const :: val
  transl_block :: val
  pt_lhs :: val
  pt_len :: val
  pt_defred :: val
  pt_dgoto :: val
  pt_sindex :: val
  pt_rindex :: val
  pt_gindex :: val
  tablesize :: val
  pt_table :: val
  pt_check :: val
  error_function :: val
  names_const :: val
  names_block :: val

record parser_env =
  s_stack :: "val list"
  v_stack :: "val list"
  symb_start_stack :: "val list"
  symb_end_stack :: "val list"
  stacksize :: val
  stackbase :: val
  curr_char :: val
  lval :: val
  symb_start :: val
  symb_end :: val
  pe_asp :: val
  rule_len :: val
  rule_number :: val
  pe_sp :: val
  pe_state :: val
  pe_errflag :: val

definition ERRCODE :: u32 where "ERRCODE = 256"

datatype input_code =
    START
  | TOKEN_READ
  | STACKS_GROWN_1
  | STACKS_GROWN_2
  | SEMANTIC_ACTION_COMPUTED
  | ERROR_DETECTED

definition READ_TOKEN :: val where "READ_TOKEN = Val_int 0"
definition RAISE_PARSE_ERROR :: val where "RAISE_PARSE_ERROR = Val_int 1"
definition GROW_STACKS_1 :: val where "GROW_STACKS_1 = Val_int 2"
definition GROW_STACKS_2 :: val where "GROW_STACKS_2 = Val_int 3"
definition COMPUTE_SEMANTIC_ACTION :: val where "COMPUTE_SEMANTIC_ACTION = Val_int 4"
definition CALL_ERROR_FUNCTION :: val where "CALL_ERROR_FUNCTION = Val_int 5"

record parser_regs =
  r_state :: u32
  r_sp :: u64
  r_errflag :: u32

datatype label =
    Loop
  | Testshift
  | Recover
  | Discard
  | Shift u32
  | Shift_recover u32
  | Push
  | Reduce u32
  | Semantic_action

datatype parse_outcome =
    Goto label parser_regs parser_env
  | Ret parser_env val
  | Stuck

definition SAVE :: "parser_regs \<Rightarrow> parser_env \<Rightarrow> parser_env" where
  "SAVE r env = env\<lparr>pe_sp := Val_int (ucast (r_sp r)), pe_state := Val_int (r_state r), pe_errflag := Val_int (r_errflag r)\<rparr>"

definition RESTORE :: "parser_env \<Rightarrow> parser_regs" where
  "RESTORE env = \<lparr>r_state = Int_val (pe_state env), r_sp = scast (Int_val (pe_sp env)), r_errflag = Int_val (pe_errflag env)\<rparr>"

definition with_cell :: "val list \<Rightarrow> u64 \<Rightarrow> (val \<Rightarrow> parse_outcome) \<Rightarrow> parse_outcome" where
  "with_cell stack i k = (if unat i < length stack then k (stack ! unat i) else Stuck)"

text \<open>The test that the entry of \<open>c\<close> in the row at \<open>n1\<close> of the packed tables is in use.\<close>

definition row_entry :: "mem \<Rightarrow> parser_tables \<Rightarrow> u32 \<Rightarrow> u32 \<Rightarrow> bool" where
  "row_entry m tables n1 c \<longleftrightarrow> (let n2 = n1 + c in
     n1 \<noteq> 0 \<and> 0 \<le>s n2 \<and> n2 \<le>s Int_val (tablesize tables) \<and> Short m (pt_check tables) n2 = c)"

subsection \<open>The engine\<close>

definition parse_loop :: "mem \<Rightarrow> parser_tables \<Rightarrow> parser_regs \<Rightarrow> parser_env \<Rightarrow> parse_outcome" where
  "parse_loop m tables r env =
     (let n = Short m (pt_defred tables) (r_state r) in
      if n \<noteq> 0 then Goto (Reduce n) r env
      else if 0 \<le>s Int_val (curr_char env) then Goto Testshift r env
      else Ret (SAVE r env) READ_TOKEN)"

definition parse_testshift :: "mem \<Rightarrow> parser_tables \<Rightarrow> parser_regs \<Rightarrow> parser_env \<Rightarrow> parse_outcome" where
  "parse_testshift m tables r env =
     (let c = Int_val (curr_char env); n1 = Short m (pt_sindex tables) (r_state r) in
      if row_entry m tables n1 c then Goto (Shift (n1 + c)) r env
      else
        let n1 = Short m (pt_rindex tables) (r_state r) in
        if row_entry m tables n1 c then Goto (Reduce (Short m (pt_table tables) (n1 + c))) r env
        else if 0 <s r_errflag r then Goto Recover r env
        else Ret (SAVE r env) CALL_ERROR_FUNCTION)"

definition parse_recover :: "parser_regs \<Rightarrow> parser_env \<Rightarrow> parse_outcome" where
  "parse_recover r env =
     (if r_errflag r <s 3 then Goto Discard (r\<lparr>r_errflag := 3\<rparr>) env
      else if Int_val (curr_char env) = 0 then Ret env RAISE_PARSE_ERROR
      else Goto Loop r (env\<lparr>curr_char := Val_int (- 1)\<rparr>))"

text \<open>One round of the loop that pops states until one can shift the error token.\<close>

definition parse_discard :: "mem \<Rightarrow> parser_tables \<Rightarrow> parser_regs \<Rightarrow> parser_env \<Rightarrow> parse_outcome" where
  "parse_discard m tables r env = with_cell (s_stack env) (r_sp r) (\<lambda>v.
     let state1 = Int_val v; n1 = Short m (pt_sindex tables) state1 in
     if row_entry m tables n1 ERRCODE then Goto (Shift_recover (n1 + ERRCODE)) r env
     else if r_sp r \<le> scast (Int_val (stackbase env)) then Ret env RAISE_PARSE_ERROR
     else Goto Discard (r\<lparr>r_sp := r_sp r - 1\<rparr>) env)"

definition parse_shift :: "u32 \<Rightarrow> parser_regs \<Rightarrow> parser_env \<Rightarrow> parse_outcome" where
  "parse_shift n2 r env =
     Goto (Shift_recover n2) (if 0 <s r_errflag r then r\<lparr>r_errflag := r_errflag r - 1\<rparr> else r) (env\<lparr>curr_char := Val_int (- 1)\<rparr>)"

definition parse_shift_recover :: "mem \<Rightarrow> parser_tables \<Rightarrow> u32 \<Rightarrow> parser_regs \<Rightarrow> parser_env \<Rightarrow> parse_outcome" where
  "parse_shift_recover m tables n2 r env =
     (let r = r\<lparr>r_state := Short m (pt_table tables) n2, r_sp := r_sp r + 1\<rparr> in
      if r_sp r < Long_val (stacksize env) then Goto Push r env else Ret (SAVE r env) GROW_STACKS_1)"

definition parse_push :: "parser_regs \<Rightarrow> parser_env \<Rightarrow> parse_outcome" where
  "parse_push r env =
     (let i = unat (r_sp r) in
      if i < length (s_stack env) \<and> i < length (v_stack env) \<and> i < length (symb_start_stack env) \<and> i < length (symb_end_stack env)
      then Goto Loop r (env\<lparr>s_stack := (s_stack env)[i := Val_int (r_state r)], v_stack := (v_stack env)[i := lval env],
             symb_start_stack := (symb_start_stack env)[i := symb_start env], symb_end_stack := (symb_end_stack env)[i := symb_end env]\<rparr>)
      else Stuck)"

definition parse_reduce :: "mem \<Rightarrow> parser_tables \<Rightarrow> u32 \<Rightarrow> parser_regs \<Rightarrow> parser_env \<Rightarrow> parse_outcome" where
  "parse_reduce m tables n r env =
     (let len = Short m (pt_len tables) n;
          env = env\<lparr>pe_asp := Val_int (ucast (r_sp r)), rule_number := Val_int n, rule_len := Val_int len\<rparr>;
          sp = r_sp r - scast len + 1;
          lhs = Short m (pt_lhs tables) n in
      with_cell (s_stack env) (sp - 1) (\<lambda>v.
        let state1 = Int_val v; n1 = Short m (pt_gindex tables) lhs;
            state = (if row_entry m tables n1 state1 then Short m (pt_table tables) (n1 + state1)
                     else Short m (pt_dgoto tables) lhs);
            r = r\<lparr>r_sp := sp, r_state := state\<rparr> in
        if sp < Long_val (stacksize env) then Goto Semantic_action r env else Ret (SAVE r env) GROW_STACKS_2))"

fun parse_step :: "mem \<Rightarrow> parser_tables \<Rightarrow> label \<Rightarrow> parser_regs \<Rightarrow> parser_env \<Rightarrow> parse_outcome" where
  "parse_step m tables Loop r env = parse_loop m tables r env"
| "parse_step m tables Testshift r env = parse_testshift m tables r env"
| "parse_step m tables Recover r env = parse_recover r env"
| "parse_step m tables Discard r env = parse_discard m tables r env"
| "parse_step m tables (Shift n2) r env = parse_shift n2 r env"
| "parse_step m tables (Shift_recover n2) r env = parse_shift_recover m tables n2 r env"
| "parse_step m tables Push r env = parse_push r env"
| "parse_step m tables (Reduce n) r env = parse_reduce m tables n r env"
| "parse_step m tables Semantic_action r env = Ret (SAVE r env) COMPUTE_SEMANTIC_ACTION"

text \<open>The run from a label to the return; \<open>None\<close> is a run that never ends, \<open>Some None\<close> an access outside a stack.\<close>

partial_function (option) parse_run ::
  "mem \<Rightarrow> parser_tables \<Rightarrow> label \<Rightarrow> parser_regs \<Rightarrow> parser_env \<Rightarrow> (parser_env \<times> val) option option" where
  "parse_run m tables l r env =
     (case parse_step m tables l r env of
        Goto l r env \<Rightarrow> parse_run m tables l r env
      | Ret env v \<Rightarrow> Some (Some (env, v))
      | Stuck \<Rightarrow> Some None)"

text \<open>The token just read is translated to its code.\<close>

definition parse_token :: "mem \<Rightarrow> parser_tables \<Rightarrow> val \<Rightarrow> parser_env \<Rightarrow> parser_env" where
  "parse_token m tables arg env =
     (if Is_block arg then env\<lparr>curr_char := Field m (transl_block tables) (ucast (Tag_val m arg)), lval := Field m arg 0\<rparr>
      else env\<lparr>curr_char := Field m (transl_const tables) (scast (Int_val arg)), lval := Val_long 0\<rparr>)"

text \<open>The value that the semantic action has computed is pushed with the state of the goto table.\<close>

definition parse_computed :: "val \<Rightarrow> parser_regs \<Rightarrow> parser_env \<Rightarrow> parse_outcome" where
  "parse_computed arg r env =
     (let i = unat (r_sp r); asp = scast (Int_val (pe_asp env)) in
      if i < length (s_stack env) \<and> i < length (v_stack env) \<and> i < length (symb_start_stack env) \<and> i < length (symb_end_stack env)
      then with_cell (symb_end_stack env) asp (\<lambda>e.
        Goto Loop r (env\<lparr>s_stack := (s_stack env)[i := Val_int (r_state r)], v_stack := (v_stack env)[i := arg],
          symb_end_stack := (symb_end_stack env)[i := e],
          symb_start_stack := (if asp < r_sp r then (symb_start_stack env)[i := (symb_end_stack env)[i := e] ! unat asp]
                               else symb_start_stack env)\<rparr>))
      else Stuck)"

definition parse_from :: "mem \<Rightarrow> parser_tables \<Rightarrow> parse_outcome \<Rightarrow> (parser_env \<times> val) option option" where
  "parse_from m tables res =
     (case res of Goto l r env \<Rightarrow> parse_run m tables l r env | Ret env v \<Rightarrow> Some (Some (env, v)) | Stuck \<Rightarrow> Some None)"

text \<open>The switch on the command.\<close>

definition parse_entry :: "mem \<Rightarrow> parser_tables \<Rightarrow> parser_env \<Rightarrow> input_code \<Rightarrow> val \<Rightarrow> parse_outcome" where
  "parse_entry m tables env cmd arg =
     (case cmd of
        START \<Rightarrow> Goto Loop \<lparr>r_state = 0, r_sp = scast (Int_val (pe_sp env)), r_errflag = 0\<rparr> env
      | TOKEN_READ \<Rightarrow> Goto Testshift (RESTORE env) (parse_token m tables arg env)
      | ERROR_DETECTED \<Rightarrow> Goto Recover (RESTORE env) env
      | STACKS_GROWN_1 \<Rightarrow> Goto Push (RESTORE env) env
      | STACKS_GROWN_2 \<Rightarrow> Goto Semantic_action (RESTORE env) env
      | SEMANTIC_ACTION_COMPUTED \<Rightarrow> parse_computed arg (RESTORE env) env)"

definition caml_parse_engine ::
  "mem \<Rightarrow> parser_tables \<Rightarrow> parser_env \<Rightarrow> input_code \<Rightarrow> val \<Rightarrow> (parser_env \<times> val) option option" where
  "caml_parse_engine m tables env cmd arg = parse_from m tables (parse_entry m tables env cmd arg)"

section \<open>Properties\<close>

subsection \<open>The engine returns\<close>






subsection \<open>The engine is an LR automaton\<close>

text \<open>
  The abstract automaton: a stack of states with their semantic values, the top first, and a look-ahead token with its attribute. State 0 is below
  the stack. \<open>lr_decide\<close> is the next move, \<open>lr_goto\<close> the state after a reduction.
\<close>

datatype lr_move =
    Read
  | Do_shift u32
  | Do_reduce u32
  | Syntax_error

definition lr_top :: "(u32 \<times> val) list \<Rightarrow> u32" where
  "lr_top st = (case st of [] \<Rightarrow> 0 | (s, _) # _ \<Rightarrow> s)"

definition lr_decide :: "mem \<Rightarrow> parser_tables \<Rightarrow> u32 \<Rightarrow> (u32 \<times> val) option \<Rightarrow> lr_move" where
  "lr_decide m tb s la =
     (if Short m (pt_defred tb) s \<noteq> 0 then Do_reduce (Short m (pt_defred tb) s)
      else case la of
        None \<Rightarrow> Read
      | Some (c, _) \<Rightarrow>
          if row_entry m tb (Short m (pt_sindex tb) s) c then Do_shift (Short m (pt_table tb) (Short m (pt_sindex tb) s + c))
          else if row_entry m tb (Short m (pt_rindex tb) s) c then Do_reduce (Short m (pt_table tb) (Short m (pt_rindex tb) s + c))
          else Syntax_error)"

definition lr_goto :: "mem \<Rightarrow> parser_tables \<Rightarrow> u32 \<Rightarrow> u32 \<Rightarrow> u32" where
  "lr_goto m tb s lhs =
     (if row_entry m tb (Short m (pt_gindex tb) lhs) s then Short m (pt_table tb) (Short m (pt_gindex tb) lhs + s)
      else Short m (pt_dgoto tb) lhs)"

text \<open>The four stacks have the size that the environment records.\<close>

definition stacks_ok :: "parser_env \<Rightarrow> bool" where
  "stacks_ok env \<longleftrightarrow> (let n = length (s_stack env) in n < 2 ^ 30 \<and> stacksize env = Val_long (of_nat n) \<and>
     length (v_stack env) = n \<and> length (symb_start_stack env) = n \<and> length (symb_end_stack env) = n)"

text \<open>
  The registers and the environment at the label \<open>loop\<close> represent the stack \<open>st\<close>, whose bottom is at index \<open>b\<close>, and the look-ahead
  token \<open>la\<close>, outside error recovery.
\<close>

definition parse_rel :: "parser_regs \<Rightarrow> parser_env \<Rightarrow> nat \<Rightarrow> (u32 \<times> val) list \<Rightarrow> (u32 \<times> val) option \<Rightarrow> bool" where
  "parse_rel r env b st la \<longleftrightarrow> stacks_ok env \<and> 0 < b \<and> unat (r_sp r) + 1 = b + length st \<and> unat (r_sp r) < length (s_stack env) \<and>
     r_state r = lr_top st \<and> r_errflag r = 0 \<and>
     (\<forall>i < length st. Int_val (s_stack env ! (unat (r_sp r) - i)) = fst (st ! i) \<and> v_stack env ! (unat (r_sp r) - i) = snd (st ! i)) \<and>
     (case la of None \<Rightarrow> Int_val (curr_char env) <s 0 | Some (c, a) \<Rightarrow> 0 \<le>s c \<and> Int_val (curr_char env) = c \<and> lval env = a)"

lemma parse_run_step: "parse_step m tb l r env = Goto l' r' env' \<Longrightarrow> parse_run m tb l r env = parse_run m tb l' r' env'"
  by (subst parse_run.simps) simp

lemma parse_run_ret: "parse_step m tb l r env = Ret env' v \<Longrightarrow> parse_run m tb l r env = Some (Some (env', v))"
  by (subst parse_run.simps) simp

lemma sp_roundtrip: "unat sp < 2 ^ 31 \<Longrightarrow> scast (ucast sp :: u32) = (sp :: u64)"
proof -
  assume a: "unat sp < 2 ^ 31"
  have "ucast sp = (of_nat (unat sp) :: u32)" by simp
  then show ?thesis using scast_of_nat_u32 [OF a] by simp
qed

lemma RESTORE_SAVE: "unat (r_sp r) < 2 ^ 31 \<Longrightarrow> RESTORE (SAVE r env) = r"
  by (simp add: RESTORE_def SAVE_def sp_roundtrip)

lemma SAVE_simps [simp]:
  "s_stack (SAVE r env) = s_stack env" "v_stack (SAVE r env) = v_stack env" "symb_start_stack (SAVE r env) = symb_start_stack env"
  "symb_end_stack (SAVE r env) = symb_end_stack env" "stacksize (SAVE r env) = stacksize env" "curr_char (SAVE r env) = curr_char env"
  "lval (SAVE r env) = lval env" "pe_asp (SAVE r env) = pe_asp env" "rule_number (SAVE r env) = rule_number env"
  "rule_len (SAVE r env) = rule_len env" "stackbase (SAVE r env) = stackbase env"
  by (simp_all add: SAVE_def)

lemma parse_rel_cong:
  "parse_rel r env b st la \<Longrightarrow> s_stack env' = s_stack env \<Longrightarrow> v_stack env' = v_stack env \<Longrightarrow> symb_start_stack env' = symb_start_stack env \<Longrightarrow>
   symb_end_stack env' = symb_end_stack env \<Longrightarrow> stacksize env' = stacksize env \<Longrightarrow> curr_char env' = curr_char env \<Longrightarrow> lval env' = lval env \<Longrightarrow>
   parse_rel r env' b st la"
  by (cases la) (auto simp: parse_rel_def stacks_ok_def)

lemma parse_rel_sp: "parse_rel r env b st la \<Longrightarrow> unat (r_sp r) < 2 ^ 30"
  by (simp add: parse_rel_def stacks_ok_def Let_def)

lemma parse_rel_SAVE:
  "parse_rel r env b st la \<Longrightarrow> parse_rel (RESTORE (SAVE r env)) (SAVE r env) b st la"
  using parse_rel_sp [of r env b st la] by (simp add: RESTORE_SAVE parse_rel_cong)

text \<open>The stack size as the engine compares it with \<open>sp\<close>.\<close>

lemma stacks_ok_room: "stacks_ok env \<Longrightarrow> sp < Long_val (stacksize env) \<longleftrightarrow> unat sp < length (s_stack env)"
  by (simp add: stacks_ok_def Let_def Long_val_nat word_less_nat_alt unat_of_nat)

lemma parse_rel_read:
  assumes rel: "parse_rel r env b st la" and d: "lr_decide m tb (lr_top st) la = Read"
  shows "parse_run m tb Loop r env = Some (Some (SAVE r env, READ_TOKEN))"
    and "parse_rel (RESTORE (SAVE r env)) (SAVE r env) b st None"
    and "env' = parse_token m tb tok (SAVE r env) \<Longrightarrow> c = Int_val (curr_char env') \<Longrightarrow> 0 \<le>s c \<Longrightarrow>
      caml_parse_engine m tb (SAVE r env) TOKEN_READ tok = parse_run m tb Loop r env' \<and> parse_rel r env' b st (Some (c, lval env'))"
proof -
  have la: "la = None" and dr: "Short m (pt_defred tb) (r_state r) = 0" and cc: "Int_val (curr_char env) <s 0"
    using d rel by (auto simp: lr_decide_def parse_rel_def split: if_splits option.splits)
  have "\<not> 0 \<le>s Int_val (curr_char env)" using cc by (simp add: word_sle_eq word_sless_alt)
  then show "parse_run m tb Loop r env = Some (Some (SAVE r env, READ_TOKEN))"
    using dr by (intro parse_run_ret) (simp add: parse_loop_def)
  show "parse_rel (RESTORE (SAVE r env)) (SAVE r env) b st None" using parse_rel_SAVE [OF rel] la by simp
  assume e: "env' = parse_token m tb tok (SAVE r env)" "c = Int_val (curr_char env')" "0 \<le>s c"
  have rs: "RESTORE (SAVE r env) = r" using parse_rel_sp [OF rel] by (intro RESTORE_SAVE) simp
  have "parse_run m tb Loop r env' = parse_run m tb Testshift r env'"
    using dr e by (intro parse_run_step) (simp add: parse_loop_def)
  moreover have "parse_rel r env' b st (Some (c, lval env'))"
    using rel e unfolding parse_rel_def stacks_ok_def by (auto simp: parse_token_def la)
  ultimately show "caml_parse_engine m tb (SAVE r env) TOKEN_READ tok = parse_run m tb Loop r env' \<and>
      parse_rel r env' b st (Some (c, lval env'))"
    by (simp add: caml_parse_engine_def parse_entry_def parse_from_def rs e(1))
qed

lemma push_cells:
  assumes "\<And>i. i < length st \<Longrightarrow> f (xs ! (k - i)) = g (st ! i)" "length st \<le> Suc k" "f v = g c" "Suc k < length xs"
  shows "i < length (c # st) \<Longrightarrow> f (xs[Suc k := v] ! (Suc k - i)) = g ((c # st) ! i)"
  using assms by (cases i) auto

lemma parse_rel_shift:
  assumes rel: "parse_rel r env b st (Some (c, a))" and d: "lr_decide m tb (lr_top st) (Some (c, a)) = Do_shift s"
    and room: "unat (r_sp r) + 1 < length (s_stack env)"
  shows "\<exists>r' env'. parse_run m tb Loop r env = parse_run m tb Loop r' env' \<and> parse_rel r' env' b ((s, a) # st) None"
proof -
  let ?n1 = "Short m (pt_sindex tb) (r_state r)" and ?k = "unat (r_sp r)"
  let ?env = "env\<lparr>curr_char := Val_int (- 1)\<rparr>"
  let ?r' = "r\<lparr>r_state := s, r_sp := r_sp r + 1\<rparr>"
  let ?i = "Suc ?k"
  let ?env' = "?env\<lparr>s_stack := (s_stack env)[?i := Val_int s], v_stack := (v_stack env)[?i := a],
     symb_start_stack := (symb_start_stack env)[?i := symb_start env], symb_end_stack := (symb_end_stack env)[?i := symb_end env]\<rparr>"
  have cc: "0 \<le>s c" "Int_val (curr_char env) = c" "lval env = a" and ok: "stacks_ok env" and st: "r_state r = lr_top st" "r_errflag r = 0"
    and b: "0 < b" "?k + 1 = b + length st"
    and cells: "\<And>i. i < length st \<Longrightarrow> Int_val (s_stack env ! (?k - i)) = fst (st ! i)"
      "\<And>i. i < length st \<Longrightarrow> v_stack env ! (?k - i) = snd (st ! i)"
    using rel by (auto simp: parse_rel_def)
  have dr: "Short m (pt_defred tb) (r_state r) = 0" and hit: "row_entry m tb ?n1 c" and s: "s = Short m (pt_table tb) (?n1 + c)"
    using d st(1) by (auto simp: lr_decide_def split: if_splits)
  have k: "unat (r_sp r + 1) = ?i" using room ok by (simp add: unat_word_ariths stacks_ok_def Let_def)
  have len: "length (v_stack env) = length (s_stack env)" "length (symb_start_stack env) = length (s_stack env)"
    "length (symb_end_stack env) = length (s_stack env)" using ok by (simp_all add: stacks_ok_def Let_def)
  have "parse_run m tb Loop r env = parse_run m tb Testshift r env"
    using dr cc by (intro parse_run_step) (simp add: parse_loop_def)
  also have "\<dots> = parse_run m tb (Shift (?n1 + c)) r env" using hit cc by (intro parse_run_step) (simp add: parse_testshift_def)
  also have "\<dots> = parse_run m tb (Shift_recover (?n1 + c)) r ?env" using st(2) by (intro parse_run_step) (simp add: parse_shift_def)
  also have "\<dots> = parse_run m tb Push ?r' ?env"
    using room k stacks_ok_room [OF ok, of "r_sp r + 1"]
    by (intro parse_run_step) (simp add: parse_shift_recover_def s Let_def)
  also have "\<dots> = parse_run m tb Loop ?r' ?env'"
    using room k len cc by (intro parse_run_step) (simp add: parse_push_def Let_def)
  finally have run: "parse_run m tb Loop r env = parse_run m tb Loop ?r' ?env'" .
  have le: "length st \<le> ?i" using b by simp
  have "Int_val ((s_stack env)[?i := Val_int s] ! (?i - i)) = fst (((s, a) # st) ! i) \<and>
      (v_stack env)[?i := a] ! (?i - i) = snd (((s, a) # st) ! i)" if "i < length ((s, a) # st)" for i
    using push_cells [of st Int_val "s_stack env" ?k fst "Val_int s" "(s, a)" i] push_cells [of st id "v_stack env" ?k snd a "(s, a)" i]
      cells le room len that by simp
  moreover have "stacks_ok ?env'" using ok by (simp add: stacks_ok_def)
  moreover have "(- 1 :: u32) <s 0" by (simp add: word_sless_alt)
  ultimately have "parse_rel ?r' ?env' b ((s, a) # st) None"
    using k b st room unfolding parse_rel_def by (simp add: lr_top_def)
  then show ?thesis using run by blast
qed

lemma parse_rel_error:
  assumes rel: "parse_rel r env b st la" and d: "lr_decide m tb (lr_top st) la = Syntax_error"
  shows "parse_run m tb Loop r env = Some (Some (SAVE r env, CALL_ERROR_FUNCTION))"
proof -
  obtain c a where la: "la = Some (c, a)" using d by (auto simp: lr_decide_def split: if_splits option.splits)
  have "parse_run m tb Loop r env = parse_run m tb Testshift r env"
    using d rel la by (intro parse_run_step) (auto simp: parse_loop_def lr_decide_def parse_rel_def split: if_splits)
  also have "\<dots> = Some (Some (SAVE r env, CALL_ERROR_FUNCTION))"
    using d rel la by (intro parse_run_ret) (auto simp: parse_testshift_def lr_decide_def parse_rel_def Let_def split: if_splits)
  finally show ?thesis .
qed

lemma parse_rel_reduce:
  assumes rel: "parse_rel r env b st la" and d: "lr_decide m tb (lr_top st) la = Do_reduce n"
    and k: "0 \<le>s Short m (pt_len tb) n" "k = unat (Short m (pt_len tb) n)" "k < length st"
    and room: "unat (r_sp r) + 1 < length (s_stack env)"
    and g: "g = lr_goto m tb (lr_top (drop k st)) (Short m (pt_lhs tb) n)"
  obtains env' where "parse_run m tb Loop r env = Some (Some (env', COMPUTE_SEMANTIC_ACTION))"
    "rule_number env' = Val_int n" "stacks_ok env'"
    "s_stack env' = s_stack env" "stackbase env' = stackbase env" "Int_val (pe_errflag env') = 0"
    "Int_val (pe_sp env') = of_nat (unat (r_sp r) - k + 1)"
    "\<And>i. i < k \<Longrightarrow> v_stack env' ! (unat (Int_val (pe_asp env')) - i) = snd (st ! i)"
    "\<And>v. \<exists>r2 env2. caml_parse_engine m tb env' SEMANTIC_ACTION_COMPUTED v = parse_run m tb Loop r2 env2 \<and>
       parse_rel r2 env2 b ((g, v) # drop k st) la"
proof -
  let ?K = "unat (r_sp r)" and ?len = "Short m (pt_len tb) n"
  have ok: "stacks_ok env" and st: "r_state r = lr_top st" "r_errflag r = 0" and b: "0 < b" "?K + 1 = b + length st"
    and cells: "\<And>i. i < length st \<Longrightarrow> Int_val (s_stack env ! (?K - i)) = fst (st ! i)"
      "\<And>i. i < length st \<Longrightarrow> v_stack env ! (?K - i) = snd (st ! i)"
    and la: "case la of None \<Rightarrow> Int_val (curr_char env) <s 0 | Some (c, a) \<Rightarrow> 0 \<le>s c \<and> Int_val (curr_char env) = c \<and> lval env = a"
    using rel by (auto simp: parse_rel_def)
  have K: "?K < 2 ^ 30" by (rule parse_rel_sp [OF rel])
  have lens: "length (v_stack env) = length (s_stack env)" "length (symb_start_stack env) = length (s_stack env)"
    "length (symb_end_stack env) = length (s_stack env)" using ok by (simp_all add: stacks_ok_def Let_def)
  have len: "?len = of_nat k" using k(2) by simp
  have kK: "k \<le> ?K" using k(3) b by simp
  have sc: "scast ?len = (of_nat k :: u64)" unfolding len by (rule scast_of_nat_u32) (use kK K in simp)
  have uk: "unat (of_nat k :: u64) = k" using kK K by (simp add: unat_of_nat)
  define sp where "sp = r_sp r - scast ?len + 1"
  have sp1: "unat (sp - 1) = ?K - k"
    using unat_sub [of "of_nat k" "r_sp r"] kK uk by (simp add: sp_def sc word_le_nat_alt)
  have sp: "unat sp = Suc (?K - k)"
  proof -
    have "unat sp = unat (sp - 1 + 1)" by simp
    also have "\<dots> = Suc (?K - k)" using sp1 K by (subst unat_word_ariths) simp
    finally show ?thesis .
  qed
  have lt: "Suc (?K - k) < length (s_stack env)" "?K - k < length (s_stack env)" using room by simp_all
  have top: "Int_val (s_stack env ! (?K - k)) = lr_top (drop k st)"
    using cells(1) [OF k(3)] k(3) by (simp add: lr_top_def Cons_nth_drop_Suc [symmetric] split: prod.splits)
  define env1 where "env1 = env\<lparr>pe_asp := Val_int (ucast (r_sp r)), rule_number := Val_int n, rule_len := Val_int ?len\<rparr>"
  define r1 where "r1 = r\<lparr>r_sp := sp, r_state := g\<rparr>"
  have "parse_run m tb Loop r env = parse_run m tb (Reduce n) r env"
  proof (cases "Short m (pt_defred tb) (r_state r) = 0")
    case False
    then show ?thesis using d st by (intro parse_run_step) (auto simp: parse_loop_def lr_decide_def)
  next
    case True
    then obtain c a where c: "la = Some (c, a)" using d st by (auto simp: lr_decide_def split: option.splits)
    have "parse_run m tb Loop r env = parse_run m tb Testshift r env"
      using True c la by (intro parse_run_step) (simp add: parse_loop_def)
    also have "\<dots> = parse_run m tb (Reduce n) r env"
      using True d st c la by (intro parse_run_step) (auto simp: parse_testshift_def lr_decide_def Let_def split: if_splits)
    finally show ?thesis .
  qed
  also have "\<dots> = parse_run m tb Semantic_action r1 env1"
    using sp sp1 lt top stacks_ok_room [OF ok, of sp] unfolding r1_def sp_def
    by (intro parse_run_step)
      (simp add: parse_reduce_def with_cell_def Let_def env1_def g lr_goto_def)
  also have "\<dots> = Some (Some (SAVE r1 env1, COMPUTE_SEMANTIC_ACTION))" by (rule parse_run_ret) simp
  finally have run: "parse_run m tb Loop r env = Some (Some (SAVE r1 env1, COMPUTE_SEMANTIC_ACTION))" .
  have ok1: "stacks_ok (SAVE r1 env1)" using ok by (simp add: env1_def stacks_ok_def)
  have rs: "RESTORE (SAVE r1 env1) = r1" by (rule RESTORE_SAVE) (use sp K kK in \<open>simp add: r1_def\<close>)
  have asp: "scast (Int_val (pe_asp (SAVE r1 env1))) = r_sp r" "unat (Int_val (pe_asp (SAVE r1 env1))) = ?K"
  proof -
    have e: "Int_val (pe_asp (SAVE r1 env1)) = ucast (r_sp r)" by (simp add: env1_def)
    show "scast (Int_val (pe_asp (SAVE r1 env1))) = r_sp r" unfolding e by (rule sp_roundtrip) (use K in simp)
    have "(ucast (r_sp r) :: u32) = of_nat ?K" by simp
    then show "unat (Int_val (pe_asp (SAVE r1 env1))) = ?K" unfolding e using K by (simp only: unat_of_nat) simp
  qed
  define J where "J = ?K - k"
  have J: "J \<le> ?K" "Suc J < length (s_stack env)" "unat (r_sp r1) = Suc J" "Suc J = b + length (drop k st)"
    using lt sp b k(3) kK by (simp_all add: J_def r1_def)
  have cellJ: "i < length (drop k st) \<Longrightarrow> Int_val (s_stack env ! (J - i)) = fst (drop k st ! i)"
    "i < length (drop k st) \<Longrightarrow> id (v_stack env ! (J - i)) = snd (drop k st ! i)" for i
    using cells [of "k + i"] by (simp_all add: J_def)
  have "\<exists>r2 env2. caml_parse_engine m tb (SAVE r1 env1) SEMANTIC_ACTION_COMPUTED v = parse_run m tb Loop r2 env2 \<and>
       parse_rel r2 env2 b ((g, v) # drop k st) la" for v
  proof -
    define env2 where "env2 = (SAVE r1 env1)\<lparr>s_stack := (s_stack env)[Suc J := Val_int g], v_stack := (v_stack env)[Suc J := v],
      symb_end_stack := (symb_end_stack env)[Suc J := symb_end_stack env ! ?K],
      symb_start_stack := (if r_sp r < r_sp r1 then (symb_start_stack env)[Suc J :=
         (symb_end_stack env)[Suc J := symb_end_stack env ! ?K] ! ?K] else symb_start_stack env)\<rparr>"
    have env2: "s_stack env2 = (s_stack env)[Suc J := Val_int g]" "v_stack env2 = (v_stack env)[Suc J := v]"
      "curr_char env2 = curr_char env" "lval env2 = lval env" by (simp_all add: env2_def env1_def)
    have r1: "r_state r1 = g" "r_errflag r1 = 0" using st by (simp_all add: r1_def)
    have "parse_computed v r1 (SAVE r1 env1) = Goto Loop r1 env2"
      using room J lens asp r1 by (simp add: parse_computed_def with_cell_def Let_def env2_def) (simp add: env1_def)
    then have e: "caml_parse_engine m tb (SAVE r1 env1) SEMANTIC_ACTION_COMPUTED v = parse_run m tb Loop r1 env2"
      by (simp add: caml_parse_engine_def parse_entry_def parse_from_def rs)
    have le: "length (drop k st) \<le> Suc J" using J(4) by linarith
    have s: "i < length ((g, v) # drop k st) \<Longrightarrow> Int_val ((s_stack env)[Suc J := Val_int g] ! (Suc J - i)) = fst (((g, v) # drop k st) ! i)" for i
      by (rule push_cells [where f = Int_val and xs = "s_stack env" and k = J and g = fst and st = "drop k st"])
        (use cellJ le J(2) in simp_all)
    have v: "i < length ((g, v) # drop k st) \<Longrightarrow> id ((v_stack env)[Suc J := v] ! (Suc J - i)) = snd (((g, v) # drop k st) ! i)" for i
      by (rule push_cells [where f = id and xs = "v_stack env" and k = J and g = snd and st = "drop k st"])
        (use cellJ le J(2) lens in simp_all)
    have ok2: "stacks_ok env2" using ok1 lens by (simp add: stacks_ok_def env2_def env1_def)
    have "parse_rel r1 env2 b ((g, v) # drop k st) la"
      unfolding parse_rel_def env2 J(3) r1
      using s v ok2 b(1) J(2,4) la by (simp add: lr_top_def)
    then show ?thesis using e by blast
  qed
  note computed = this
  have "(ucast sp :: u32) = of_nat (unat sp)" by simp
  then have "Int_val (pe_sp (SAVE r1 env1)) = of_nat (?K - k + 1)" using sp by (simp only: SAVE_def r1_def) simp
  then show thesis
    by (intro that [OF run] computed) (use ok1 asp(2) cells(2) k(3) len st(2) in \<open>simp_all add: env1_def r1_def SAVE_def\<close>)
qed

text \<open>
  C29: the parser engine implements the LR automaton of its tables. When the registers and stacks represent a stack of states and values
  and there is room for one more cell, a run from the label \<open>loop\<close> asks for a token exactly when the automaton needs a look-ahead, and the token read is then the
  look-ahead; shifts push the state of the table and the attribute of the token; a reduction by a rule whose right-hand side is on the stack asks
  for its semantic action with the values of the right-hand side at the places where the action looks for them, and, given the
  value of the action, replaces them by the value in the state of the goto table; a syntax error calls the error function with the stack unchanged.
\<close>

theorem parse_engine_lr:
  assumes rel: "parse_rel r env b st la" and room: "unat (r_sp r) + 1 < length (s_stack env)"
  shows "case lr_decide m tb (lr_top st) la of
      Read \<Rightarrow> \<exists>env'. parse_run m tb Loop r env = Some (Some (env', READ_TOKEN)) \<and>
        (\<forall>tok env2 c. env2 = parse_token m tb tok env' \<and> c = Int_val (curr_char env2) \<and> 0 \<le>s c \<longrightarrow>
           caml_parse_engine m tb env' TOKEN_READ tok = parse_run m tb Loop r env2 \<and> parse_rel r env2 b st (Some (c, lval env2)))
    | Do_shift s \<Rightarrow> \<exists>c a r' env'. la = Some (c, a) \<and> parse_run m tb Loop r env = parse_run m tb Loop r' env' \<and>
        parse_rel r' env' b ((s, a) # st) None
    | Do_reduce n \<Rightarrow> \<forall>k. 0 \<le>s Short m (pt_len tb) n \<and> k = unat (Short m (pt_len tb) n) \<and> k < length st \<longrightarrow>
        (\<exists>env'. parse_run m tb Loop r env = Some (Some (env', COMPUTE_SEMANTIC_ACTION)) \<and> rule_number env' = Val_int n \<and>
           (\<forall>i < k. v_stack env' ! (unat (Int_val (pe_asp env')) - i) = snd (st ! i)) \<and>
           (\<forall>v. \<exists>r2 env2. caml_parse_engine m tb env' SEMANTIC_ACTION_COMPUTED v = parse_run m tb Loop r2 env2 \<and>
              parse_rel r2 env2 b ((lr_goto m tb (lr_top (drop k st)) (Short m (pt_lhs tb) n), v) # drop k st) la))
    | Syntax_error \<Rightarrow> \<exists>env'. parse_run m tb Loop r env = Some (Some (env', CALL_ERROR_FUNCTION)) \<and> parse_rel (RESTORE env') env' b st la"
proof (cases "lr_decide m tb (lr_top st) la")
  case Read
  show ?thesis unfolding Read lr_move.case
    by (intro exI [of _ "SAVE r env"] conjI allI impI parse_rel_read [OF rel Read]; elim conjE)
      (use parse_rel_read(3) [OF rel Read] in blast)+
next
  case (Do_shift s)
  then obtain c a where la: "la = Some (c, a)" by (auto simp: lr_decide_def split: if_splits option.splits)
  show ?thesis unfolding Do_shift lr_move.case
    using parse_rel_shift [OF rel [unfolded la] Do_shift [unfolded la] room] la by blast
next
  case (Do_reduce n)
  show ?thesis unfolding Do_reduce lr_move.case
  proof (intro allI impI, elim conjE)
    fix k assume "0 \<le>s Short m (pt_len tb) n" "k = unat (Short m (pt_len tb) n)" "k < length st"
    from parse_rel_reduce [OF rel Do_reduce this room refl] show
      "\<exists>env'. parse_run m tb Loop r env = Some (Some (env', COMPUTE_SEMANTIC_ACTION)) \<and> rule_number env' = Val_int n \<and>
           (\<forall>i < k. v_stack env' ! (unat (Int_val (pe_asp env')) - i) = snd (st ! i)) \<and>
           (\<forall>v. \<exists>r2 env2. caml_parse_engine m tb env' SEMANTIC_ACTION_COMPUTED v = parse_run m tb Loop r2 env2 \<and>
              parse_rel r2 env2 b ((lr_goto m tb (lr_top (drop k st)) (Short m (pt_lhs tb) n), v) # drop k st) la)"
      by metis
  qed
next
  case Syntax_error
  show ?thesis unfolding Syntax_error lr_move.case
    using parse_rel_error [OF rel Syntax_error] parse_rel_SAVE [OF rel] by blast
qed

text \<open>Tables of one state with an empty rule: its reduction is the default in every state, and every state shifts the error token.\<close>

definition parse_sample_mem :: mem where
  "parse_sample_mem = (\<lambda>_. 0)(0x1000 := 1, 0x5000 := 1, 0x3203 := 1)"

definition parse_sample_tables :: parser_tables where
  "parse_sample_tables = \<lparr>pt_actions = Val_unit, transl_const = 0x9000, transl_block = 0x9000, pt_lhs = 0x2000, pt_len = 0x2000,
     pt_defred = 0x1000, pt_dgoto = 0x2000, pt_sindex = 0x5000, pt_rindex = 0x2000, pt_gindex = 0x2000, tablesize = Val_int 300,
     pt_table = 0x2000, pt_check = 0x3000, error_function = Val_unit, names_const = 0x9000, names_block = 0x9000\<rparr>"

definition parse_sample_env :: parser_env where
  "parse_sample_env = \<lparr>s_stack = replicate 10 (Val_int 0), v_stack = replicate 10 Val_unit, symb_start_stack = replicate 10 Val_unit,
     symb_end_stack = replicate 10 Val_unit, stacksize = Val_long 10, stackbase = Val_int 1, curr_char = Val_int (- 1), lval = Val_unit,
     symb_start = Val_unit, symb_end = Val_unit, pe_asp = Val_int 0, rule_len = Val_int 0, rule_number = Val_int 0, pe_sp = Val_int 1,
     pe_state = Val_int 0, pe_errflag = Val_int 0\<rparr>"

abbreviation "parse_sample_regs \<equiv> \<lparr>r_state = 0, r_sp = 1, r_errflag = 0\<rparr>"

lemma parse_sample_rel: "parse_rel parse_sample_regs parse_sample_env 1 [(0, Val_unit)] None"
  by (simp add: parse_rel_def stacks_ok_def parse_sample_env_def lr_top_def Let_def word_sless_alt)

lemma load16_bytes: "load16 m a = ucast (m a) OR push_bit 8 (ucast (m (a + 1)))"
proof -
  have "load_le m a 2 = ucast (m a) OR push_bit 8 (ucast (m (a + 1)))"
    unfolding numeral_2_eq_2 by simp
  then show ?thesis unfolding load16_def by (intro bit_word_eqI) (auto simp: bit_simps)
qed

lemma parse_sample_short:
  "Short parse_sample_mem 0x1000 0 = 1" "Short parse_sample_mem 0x5000 0 = 1" "Short parse_sample_mem 0x3000 257 = 256"
  "Short parse_sample_mem 0x2000 1 = 0" "Short parse_sample_mem 0x2000 0 = 0" "Short parse_sample_mem 0x3000 0 = 0"
  by (simp_all add: Short_def load16_bytes parse_sample_mem_def)

lemma parse_sample_decide: "lr_decide parse_sample_mem parse_sample_tables (lr_top [(0, Val_unit)]) None = Do_reduce 1"
  by (simp add: lr_decide_def parse_sample_tables_def parse_sample_short lr_top_def)

theorem parse_engine_lr_witness:
  "\<exists>env'. parse_run parse_sample_mem parse_sample_tables Loop parse_sample_regs parse_sample_env = Some (Some (env', COMPUTE_SEMANTIC_ACTION)) \<and>
     rule_number env' = Val_int 1"
proof -
  have "unat (r_sp parse_sample_regs) + 1 < length (s_stack parse_sample_env)" by (simp add: parse_sample_env_def)
  moreover have "Short parse_sample_mem (pt_len parse_sample_tables) 1 = 0"
    by (simp add: parse_sample_tables_def parse_sample_short)
  ultimately show ?thesis
    using parse_engine_lr [OF parse_sample_rel, of parse_sample_mem parse_sample_tables] parse_sample_decide by auto
qed
subsection \<open>Return codes and sizes\<close>















lemma stacks_ok_SAVE [simp]: "stacks_ok (SAVE r env) = stacks_ok env"
  by (simp add: stacks_ok_def)








subsection \<open>Error recovery\<close>

text \<open>The state in cell \<open>j\<close> of the stack can shift the error token.\<close>

definition shifts_error :: "mem \<Rightarrow> parser_tables \<Rightarrow> parser_env \<Rightarrow> nat \<Rightarrow> bool" where
  "shifts_error m tb env j \<longleftrightarrow> row_entry m tb (Short m (pt_sindex tb) (Int_val (s_stack env ! j))) ERRCODE"

text \<open>
  The shift of the error token on the state in cell \<open>j\<close>: the state of the table goes to the cell above, with the attribute and the positions of the
  current token, and the engine goes on at \<open>loop\<close> with the error flag at 3; it asks for more room when there is no such cell.
\<close>

definition recover_at :: "mem \<Rightarrow> parser_tables \<Rightarrow> parser_env \<Rightarrow> nat \<Rightarrow> (parser_env \<times> val) option option" where
  "recover_at m tb env j =
     (let s = Short m (pt_table tb) (Short m (pt_sindex tb) (Int_val (s_stack env ! j)) + ERRCODE);
          r = \<lparr>r_state = s, r_sp = of_nat (j + 1), r_errflag = 3\<rparr>
      in if j + 1 < length (s_stack env)
         then parse_run m tb Loop r
           (env\<lparr>s_stack := (s_stack env)[j + 1 := Val_int s], v_stack := (v_stack env)[j + 1 := lval env],
             symb_start_stack := (symb_start_stack env)[j + 1 := symb_start env], symb_end_stack := (symb_end_stack env)[j + 1 := symb_end env]\<rparr>)
         else Some (Some (env\<lparr>pe_sp := Val_int (of_nat (j + 1)), pe_state := Val_int s, pe_errflag := Val_int 3\<rparr>, GROW_STACKS_1)))"

lemma shift_recover_at:
  assumes ok: "stacks_ok env" and j: "r_sp r = of_nat j" "j < length (s_stack env)" and e: "r_errflag r = 3"
  shows "parse_run m tb (Shift_recover (Short m (pt_sindex tb) (Int_val (s_stack env ! j)) + ERRCODE)) r env = recover_at m tb env j"
proof -
  let ?n2 = "Short m (pt_sindex tb) (Int_val (s_stack env ! j)) + ERRCODE"
  let ?r = "\<lparr>r_state = Short m (pt_table tb) ?n2, r_sp = of_nat (j + 1), r_errflag = 3\<rparr> :: parser_regs"
  have N: "length (s_stack env) < 2 ^ 30" and len: "length (v_stack env) = length (s_stack env)" "length (symb_start_stack env) = length (s_stack env)"
    "length (symb_end_stack env) = length (s_stack env)" using ok by (simp_all add: stacks_ok_def Let_def)
  have u: "unat (of_nat (j + 1) :: u64) = j + 1" unfolding unat_of_nat using j(2) N by (intro mod_less) simp
  have r: "r\<lparr>r_state := Short m (pt_table tb) ?n2, r_sp := r_sp r + 1\<rparr> = ?r" using j(1) e by (cases r) simp
  have s: "parse_step m tb (Shift_recover ?n2) r env = (if j + 1 < length (s_stack env) then Goto Push ?r env else Ret (SAVE ?r env) GROW_STACKS_1)"
    using stacks_ok_room [OF ok, of "of_nat (j + 1)"] unfolding parse_step.simps parse_shift_recover_def r Let_def u by simp
  show ?thesis
  proof (cases "j + 1 < length (s_stack env)")
    case True
    have "parse_run m tb (Shift_recover ?n2) r env = parse_run m tb Push ?r env" using s True by (intro parse_run_step) simp
    also have "\<dots> = recover_at m tb env j"
      unfolding recover_at_def Let_def if_P [OF True]
      by (rule parse_run_step) (use True u len in \<open>simp add: parse_push_def Let_def del: of_nat_add of_nat_Suc\<close>)
    finally show ?thesis .
  next
    case False
    then have "parse_run m tb (Shift_recover ?n2) r env = Some (Some (SAVE ?r env, GROW_STACKS_1))" using s by (intro parse_run_ret) simp
    moreover have "ucast (of_nat (j + 1) :: u64) = (of_nat (j + 1) :: u32)"
    proof -
      have "ucast (of_nat (j + 1) :: u64) = (of_nat (unat (of_nat (j + 1) :: u64)) :: u32)" by simp
      then show ?thesis by (simp only: u)
    qed
    ultimately show ?thesis using False by (simp add: recover_at_def SAVE_def Let_def del: of_nat_add of_nat_Suc)
  qed
qed

lemma parse_discard_run:
  assumes "Int_val (stackbase env) = of_nat b" "b < 2 ^ 31" "stacks_ok env" "r_sp r = of_nat j" "b \<le> j" "j < length (s_stack env)" "r_errflag r = 3"
  shows "parse_run m tb Discard r env =
    (case find (shifts_error m tb env) (rev [b..<Suc j]) of
       None \<Rightarrow> Some (Some (env, RAISE_PARSE_ERROR))
     | Some i \<Rightarrow> recover_at m tb env i)"
  using assms(4-)
proof (induction "j - b" arbitrary: j r)
  case 0
  have N: "length (s_stack env) < 2 ^ 30" using assms(3) by (simp add: stacks_ok_def Let_def)
  have j: "j = b" using 0 by simp
  have le: "(of_nat j :: u64) \<le> scast (Int_val (stackbase env))" using assms j scast_of_nat_u32 [of b] by simp
  have u: "unat (of_nat j :: u64) = j" using 0 N by (simp add: unat_of_nat)
  show ?case
  proof (cases "shifts_error m tb env j")
    case True
    then have "parse_run m tb Discard r env = recover_at m tb env j"
      using 0 u by (subst shift_recover_at [OF assms(3) 0(2) 0(4,5), symmetric])
        (intro parse_run_step, simp add: parse_discard_def with_cell_def shifts_error_def)
    then show ?thesis using True j by simp
  next
    case False
    then have "parse_run m tb Discard r env = Some (Some (env, RAISE_PARSE_ERROR))"
      using 0 u le by (intro parse_run_ret) (simp add: parse_discard_def with_cell_def shifts_error_def)
    then show ?thesis using False j by simp
  qed
next
  case (Suc d)
  have N: "length (s_stack env) < 2 ^ 30" using assms(3) by (simp add: stacks_ok_def Let_def)
  have j: "b < j" "b \<le> j - 1" "d = j - 1 - b" using Suc by simp_all
  have u: "unat (of_nat j :: u64) = j" using Suc.prems N by (simp add: unat_of_nat)
  have gt: "\<not> (of_nat j :: u64) \<le> scast (Int_val (stackbase env))"
    using assms(1,2) j scast_of_nat_u32 [of b] Suc.prems N by (simp add: word_le_nat_alt unat_of_nat)
  have r: "rev [b..<Suc j] = j # rev [b..<Suc (j - 1)]" using j by simp
  show ?case
  proof (cases "shifts_error m tb env j")
    case True
    then have "parse_run m tb Discard r env = recover_at m tb env j"
      using Suc.prems u by (subst shift_recover_at [OF assms(3) Suc.prems(1) Suc.prems(3,4), symmetric])
        (intro parse_run_step, simp add: parse_discard_def with_cell_def shifts_error_def)
    then show ?thesis using True unfolding r by simp
  next
    case False
    let ?r = "r\<lparr>r_sp := of_nat j - 1\<rparr>"
    have "parse_run m tb Discard r env = parse_run m tb Discard ?r env"
      using False Suc.prems u gt by (intro parse_run_step) (simp add: parse_discard_def with_cell_def shifts_error_def)
    also have "\<dots> = (case find (shifts_error m tb env) (rev [b..<Suc (j - 1)]) of
       None \<Rightarrow> Some (Some (env, RAISE_PARSE_ERROR)) | Some i \<Rightarrow> recover_at m tb env i)"
      by (rule Suc.hyps(1)) (use Suc.prems j in \<open>simp_all add: of_nat_diff\<close>)
    finally show ?thesis using False unfolding r by simp
  qed
qed

lemma parse_error_recovered:
  assumes "Int_val (stackbase env) = of_nat b" "stacks_ok env" "Int_val (pe_sp env) = of_nat j" "b \<le> j" "j < length (s_stack env)"
  shows "caml_parse_engine m tb env ERROR_DETECTED arg =
    (if Int_val (pe_errflag env) <s 3 then
       (case find (shifts_error m tb env) (rev [b..<Suc j]) of
          None \<Rightarrow> Some (Some (env, RAISE_PARSE_ERROR))
        | Some i \<Rightarrow> recover_at m tb env i)
     else if Int_val (curr_char env) = 0 then Some (Some (env, RAISE_PARSE_ERROR))
     else parse_run m tb Loop (RESTORE env) (env\<lparr>curr_char := Val_int (- 1)\<rparr>))"
proof -
  let ?r = "(RESTORE env)\<lparr>r_errflag := 3\<rparr>"
  have N: "length (s_stack env) < 2 ^ 30" using assms(2) by (simp add: stacks_ok_def Let_def)
  have e: "caml_parse_engine m tb env ERROR_DETECTED arg = parse_run m tb Recover (RESTORE env) env"
    by (simp add: caml_parse_engine_def parse_entry_def parse_from_def)
  show ?thesis
  proof (cases "Int_val (pe_errflag env) <s 3")
    case True
    have "parse_run m tb Recover (RESTORE env) env = parse_run m tb Discard ?r env"
      using True by (intro parse_run_step) (simp add: parse_recover_def RESTORE_def)
    also have "\<dots> = (case find (shifts_error m tb env) (rev [b..<Suc j]) of
         None \<Rightarrow> Some (Some (env, RAISE_PARSE_ERROR)) | Some i \<Rightarrow> recover_at m tb env i)"
      by (rule parse_discard_run [OF assms(1)]) (use assms N scast_of_nat_u32 [of j] in \<open>simp_all add: RESTORE_def\<close>)
    finally show ?thesis using e True by simp
  next
    case False
    then have s: "parse_step m tb Recover (RESTORE env) env = (if Int_val (curr_char env) = 0 then Ret env RAISE_PARSE_ERROR
        else Goto Loop (RESTORE env) (env\<lparr>curr_char := Val_int (- 1)\<rparr>))"
      by (simp add: parse_recover_def RESTORE_def)
    then show ?thesis using e False parse_run_ret [of m tb Recover "RESTORE env" env env RAISE_PARSE_ERROR]
      parse_run_step [of m tb Recover "RESTORE env" env Loop "RESTORE env"] by simp
  qed
qed

text \<open>
  C31: after an error outside a recovery (the error flag is below 3), the engine discards cells from the top of the stack down to the topmost
  one, not below the base, whose state can shift the error token. The cell above it then holds the state of the table with the attribute and
  positions of the current token and is the top of the stack, the error flag is 3, and the engine goes on; without such a cell it raises
  \<open>Parse_error\<close> and leaves the environment unchanged. During a recovery (flag 3) no state is popped: the engine raises \<open>Parse_error\<close> at the end of the
  input and otherwise drops the token and goes on.
\<close>

theorem parse_error_recovery:
  assumes "Int_val (stackbase env) = of_nat b" "stacks_ok env" "Int_val (pe_sp env) = of_nat j" "b \<le> j" "j < length (s_stack env)"
  shows "caml_parse_engine m tb env ERROR_DETECTED arg =
    (if Int_val (pe_errflag env) <s 3 then
       (case find (shifts_error m tb env) (rev [b..<Suc j]) of
          None \<Rightarrow> Some (Some (env, RAISE_PARSE_ERROR))
        | Some i \<Rightarrow> recover_at m tb env i)
     else if Int_val (curr_char env) = 0 then Some (Some (env, RAISE_PARSE_ERROR))
     else parse_run m tb Loop (RESTORE env) (env\<lparr>curr_char := Val_int (- 1)\<rparr>))"
  by (rule parse_error_recovered [OF assms])

theorem parse_error_recovery_witness:
  "caml_parse_engine parse_sample_mem parse_sample_tables parse_sample_env ERROR_DETECTED Val_unit =
     recover_at parse_sample_mem parse_sample_tables parse_sample_env 1"
proof -
  have "shifts_error parse_sample_mem parse_sample_tables parse_sample_env 1"
    by (simp add: shifts_error_def row_entry_def parse_sample_env_def parse_sample_tables_def parse_sample_short ERRCODE_def word_sle_eq)
  then show ?thesis
    using parse_error_recovery [of parse_sample_env 1 1 parse_sample_mem parse_sample_tables Val_unit]
    by (simp add: parse_sample_env_def word_sless_alt stacks_ok_def)
qed

text \<open>
  C38: when the semantic action of an empty rule raises \<open>Parse_error\<close>, the recovery looks first at the cell above the stack: that
  cell still holds whatever was left there by an earlier part of the parse, and when that state can shift the error token the
  engine recovers in it, although the state is not on the stack.
\<close>

theorem parse_recovery_stale_state:
  assumes rel: "parse_rel r env b st la" and room: "unat (r_sp r) + 1 < length (s_stack env)"
    and base: "Int_val (stackbase env) = of_nat b" and st: "0 < length st"
    and d: "lr_decide m tb (lr_top st) la = Do_reduce n" and empty: "Short m (pt_len tb) n = 0"
    and stale: "shifts_error m tb env (unat (r_sp r) + 1)"
  shows "\<exists>env'. parse_run m tb Loop r env = Some (Some (env', COMPUTE_SEMANTIC_ACTION)) \<and>
     caml_parse_engine m tb env' ERROR_DETECTED arg = recover_at m tb env' (unat (r_sp r) + 1)"
proof -
  have k: "0 \<le>s Short m (pt_len tb) n" "0 = unat (Short m (pt_len tb) n)" using empty by simp_all
  obtain env' where env': "parse_run m tb Loop r env = Some (Some (env', COMPUTE_SEMANTIC_ACTION))" "stacks_ok env'" "s_stack env' = s_stack env"
    "stackbase env' = stackbase env" "Int_val (pe_errflag env') = 0" "Int_val (pe_sp env') = of_nat (unat (r_sp r) - 0 + 1)"
    using parse_rel_reduce [OF rel d k st room refl] by metis
  have s: "shifts_error m tb env' (unat (r_sp r) + 1)" using stale env'(3) by (simp add: shifts_error_def)
  have "b \<le> unat (r_sp r) + 1" using rel by (auto simp: parse_rel_def)
  then have "caml_parse_engine m tb env' ERROR_DETECTED arg =
    (case find (shifts_error m tb env') (rev [b..<Suc (unat (r_sp r) + 1)]) of
       None \<Rightarrow> Some (Some (env', RAISE_PARSE_ERROR))
     | Some i \<Rightarrow> recover_at m tb env' i)"
    by (subst parse_error_recovered [where b = b and j = "unat (r_sp r) + 1"]) (use env' base room in \<open>simp_all add: word_sless_alt\<close>)
  then show ?thesis using env'(1) s \<open>b \<le> unat (r_sp r) + 1\<close> by auto
qed

theorem parse_recovery_stale_state_witness:
  "\<exists>env'. parse_run parse_sample_mem parse_sample_tables Loop parse_sample_regs parse_sample_env =
       Some (Some (env', COMPUTE_SEMANTIC_ACTION)) \<and>
     caml_parse_engine parse_sample_mem parse_sample_tables env' ERROR_DETECTED Val_unit =
       recover_at parse_sample_mem parse_sample_tables env' 2"
proof -
  have "unat (r_sp parse_sample_regs) + 1 < length (s_stack parse_sample_env)" "Int_val (stackbase parse_sample_env) = of_nat 1"
    "0 < length [(0 :: u32, Val_unit)]" "Short parse_sample_mem (pt_len parse_sample_tables) 1 = 0"
    "shifts_error parse_sample_mem parse_sample_tables parse_sample_env (unat (r_sp parse_sample_regs) + 1)"
    by (simp_all add: shifts_error_def row_entry_def parse_sample_env_def parse_sample_tables_def parse_sample_short ERRCODE_def word_sle_eq)
  from parse_recovery_stale_state [OF parse_sample_rel this(1-3) parse_sample_decide this(4,5), of Val_unit]
  show ?thesis by (simp add: numeral_2_eq_2)
qed


end
