(* ===== verification/Globroots.thy ===== *)
theory Globroots
  imports Skiplist Mlvalues
begin

text \<open>
  \<open>runtime/globroots.c\<close>: the registration of global roots, on top of the skip list. The state has the three root lists, the
  mutex, the iteration counter and the C memory the roots are in. The seed of the level generator is one static variable of
  \<open>skiplist.c\<close>, so \<open>put_list\<close> gives it to all lists. \<open>alloc\<close> stands for \<open>caml_stat_alloc_noexc\<close>, and a scanning action is a parameter: the
  collectors pass their own. \<open>None\<close> is a call that does not return, such as locking a mutex that the thread holds. The dynamic
  globals of the native-code runtime are not modelled.
\<close>

unbundle bit_operations_syntax

subsection \<open>State\<close>

definition ROOT_PRESENT :: u64 where "ROOT_PRESENT = 0"
definition ROOT_DELETED :: u64 where "ROOT_DELETED = 1"

datatype rootlist =
    Roots
  | Young_roots
  | Old_roots

record globroots =
  caml_global_roots :: skiplist
  caml_global_roots_young :: skiplist
  caml_global_roots_old :: skiplist
  roots_mutex :: bool
  iterating_roots :: nat
  gr_mem :: mem
  caml_minor_heaps_start :: addr
  caml_minor_heaps_end :: addr

definition get_list :: "rootlist \<Rightarrow> globroots \<Rightarrow> skiplist" where
  "get_list l s = (case l of
      Roots \<Rightarrow> caml_global_roots s
    | Young_roots \<Rightarrow> caml_global_roots_young s
    | Old_roots \<Rightarrow> caml_global_roots_old s)"

definition put_list :: "rootlist \<Rightarrow> skiplist \<Rightarrow> globroots \<Rightarrow> globroots" where
  "put_list l sk s =
     (let reseed = (\<lambda>sk'. sk'\<lparr>random_seed := random_seed sk\<rparr>) in
      s\<lparr>caml_global_roots := (if l = Roots then sk else reseed (caml_global_roots s)),
        caml_global_roots_young := (if l = Young_roots then sk else reseed (caml_global_roots_young s)),
        caml_global_roots_old := (if l = Old_roots then sk else reseed (caml_global_roots_old s))\<rparr>)"

definition caml_plat_lock_blocking :: "globroots \<Rightarrow> globroots option" where
  "caml_plat_lock_blocking s = (if roots_mutex s then None else Some (s\<lparr>roots_mutex := True\<rparr>))"

definition caml_plat_unlock :: "globroots \<Rightarrow> globroots" where
  "caml_plat_unlock s = s\<lparr>roots_mutex := False\<rparr>"

subsection \<open>Insertion and deletion\<close>

type_synonym cell_alloc = "skiplist \<Rightarrow> ptr option"

definition insert_root :: "cell_alloc \<Rightarrow> rootlist \<Rightarrow> addr \<Rightarrow> globroots \<Rightarrow> globroots res option" where
  "insert_root alloc l r s =
     (case caml_skiplist_insert (alloc (get_list l s)) (get_list l s) r ROOT_PRESENT of
        None \<Rightarrow> None
      | Some (Inl e) \<Rightarrow> Some (Inl e)
      | Some (Inr (_, sk)) \<Rightarrow> Some (Inr (put_list l sk s)))"

definition caml_insert_global_root :: "cell_alloc \<Rightarrow> rootlist \<Rightarrow> addr \<Rightarrow> globroots \<Rightarrow> globroots res option" where
  "caml_insert_global_root alloc l r s =
     Option.bind (caml_plat_lock_blocking s) (\<lambda>s.
     map_option (map_sum id caml_plat_unlock) (insert_root alloc l r s))"

definition remove_root :: "rootlist \<Rightarrow> addr \<Rightarrow> globroots \<Rightarrow> globroots option" where
  "remove_root l r s = map_option (\<lambda>(_, sk). put_list l sk s) (caml_skiplist_remove (get_list l s) r)"

definition caml_delete_global_root :: "rootlist \<Rightarrow> addr \<Rightarrow> globroots \<Rightarrow> globroots option" where
  "caml_delete_global_root l r s =
     (if 0 < iterating_roots s then
        case caml_skiplist_find_ptr (get_list l s) r of
          None \<Rightarrow> None
        | Some None \<Rightarrow> Some s
        | Some (Some p) \<Rightarrow> Some (put_list l (set_data (get_list l s) p ROOT_DELETED) s)
      else
        Option.bind (caml_plat_lock_blocking s) (\<lambda>s.
        map_option caml_plat_unlock (remove_root l r s)))"

definition caml_register_global_root :: "cell_alloc \<Rightarrow> addr \<Rightarrow> globroots \<Rightarrow> globroots res option" where
  "caml_register_global_root alloc r s = caml_insert_global_root alloc Roots r s"

definition caml_remove_global_root :: "addr \<Rightarrow> globroots \<Rightarrow> globroots option" where
  "caml_remove_global_root r s = caml_delete_global_root Roots r s"

subsection \<open>Generational roots\<close>

datatype gc_root_class =
    YOUNG
  | OLD
  | UNTRACKED

definition Is_young :: "globroots \<Rightarrow> val \<Rightarrow> bool" where
  "Is_young s v \<longleftrightarrow> v < caml_minor_heaps_end s \<and> caml_minor_heaps_start s < v"

definition classify_gc_root :: "globroots \<Rightarrow> val \<Rightarrow> gc_root_class" where
  "classify_gc_root s v = (if \<not> Is_block v then UNTRACKED else if Is_young s v then YOUNG else OLD)"

definition caml_register_generational_global_root :: "cell_alloc \<Rightarrow> addr \<Rightarrow> globroots \<Rightarrow> globroots res option" where
  "caml_register_generational_global_root alloc r s =
     (case classify_gc_root s (load64 (gr_mem s) r) of
        YOUNG \<Rightarrow> caml_insert_global_root alloc Young_roots r s
      | OLD \<Rightarrow> caml_insert_global_root alloc Old_roots r s
      | UNTRACKED \<Rightarrow> Some (Inr s))"

definition caml_remove_generational_global_root :: "addr \<Rightarrow> globroots \<Rightarrow> globroots option" where
  "caml_remove_generational_global_root r s =
     (case classify_gc_root s (load64 (gr_mem s) r) of
        OLD \<Rightarrow> Option.bind (caml_delete_global_root Old_roots r s) (caml_delete_global_root Young_roots r)
      | YOUNG \<Rightarrow> caml_delete_global_root Young_roots r s
      | UNTRACKED \<Rightarrow> Some s)"

definition caml_modify_generational_global_root :: "cell_alloc \<Rightarrow> addr \<Rightarrow> val \<Rightarrow> globroots \<Rightarrow> globroots res option" where
  "caml_modify_generational_global_root alloc r newval s =
     (let c = classify_gc_root s (load64 (gr_mem s) r) in
      map_option (map_sum id (\<lambda>s. s\<lparr>gr_mem := store64 (gr_mem s) r newval\<rparr>))
        (case classify_gc_root s newval of
           YOUNG \<Rightarrow>
             Option.bind (if c = OLD then caml_delete_global_root Old_roots r s else Some s) (\<lambda>s.
             if c \<noteq> YOUNG then caml_insert_global_root alloc Young_roots r s else Some (Inr s))
         | OLD \<Rightarrow> if c = UNTRACKED then caml_insert_global_root alloc Old_roots r s else Some (Inr s)
         | UNTRACKED \<Rightarrow> map_option Inr (caml_remove_generational_global_root r s)))"

subsection \<open>Scanning\<close>

text \<open>A scanning action, with the data it is passed, receives the value and the address of the root.\<close>

type_synonym 'd scanning_action = "'d \<Rightarrow> val \<Rightarrow> addr \<Rightarrow> globroots \<Rightarrow> ('d \<times> globroots) option"

partial_function (option) iterate_from ::
  "'d scanning_action \<Rightarrow> rootlist \<Rightarrow> ptr option \<Rightarrow> 'd \<Rightarrow> globroots \<Rightarrow> ('d \<times> globroots) option" where
  "iterate_from f l e d s =
     (case e of
        None \<Rightarrow> Some (d, s)
      | Some p \<Rightarrow>
          let sk = get_list l s; nxt = fwd sk (Cell p) 0; key = key_at sk p in
          Option.bind
            (if data_at sk p = ROOT_DELETED then map_option (\<lambda>s. (d, s)) (remove_root l key s)
             else f d (load64 (gr_mem s) key) key s)
            (\<lambda>(d, s). iterate_from f l nxt d s))"

definition caml_iterate_global_roots ::
  "'d scanning_action \<Rightarrow> rootlist \<Rightarrow> 'd \<Rightarrow> globroots \<Rightarrow> ('d \<times> globroots) option" where
  "caml_iterate_global_roots f l d s = iterate_from f l (fwd (get_list l s) Head 0) d s"

definition enter_iteration :: "globroots \<Rightarrow> globroots option" where
  "enter_iteration s = map_option (\<lambda>s. s\<lparr>iterating_roots := iterating_roots s + 1\<rparr>) (caml_plat_lock_blocking s)"

definition leave_iteration :: "globroots \<Rightarrow> globroots" where
  "leave_iteration s = caml_plat_unlock (s\<lparr>iterating_roots := iterating_roots s - 1\<rparr>)"

definition caml_scan_global_roots :: "'d scanning_action \<Rightarrow> 'd \<Rightarrow> globroots \<Rightarrow> ('d \<times> globroots) option" where
  "caml_scan_global_roots f d s =
     Option.bind (enter_iteration s) (\<lambda>s.
     Option.bind (caml_iterate_global_roots f Roots d s) (\<lambda>(d, s).
     Option.bind (caml_iterate_global_roots f Young_roots d s) (\<lambda>(d, s).
     map_option (\<lambda>(d, s). (d, leave_iteration s)) (caml_iterate_global_roots f Old_roots d s))))"

text \<open>The loop that moves the young roots to the list of old roots.\<close>

partial_function (option) move_from :: "cell_alloc \<Rightarrow> ptr option \<Rightarrow> globroots \<Rightarrow> globroots res option" where
  "move_from alloc e s =
     (case e of
        None \<Rightarrow> Some (Inr s)
      | Some p \<Rightarrow>
          let sk = get_list Young_roots s; nxt = fwd sk (Cell p) 0 in
          Option.bind (insert_root alloc Old_roots (key_at sk p) s) (\<lambda>r.
            case r of Inl err \<Rightarrow> Some (Inl err) | Inr s \<Rightarrow> move_from alloc nxt s))"

definition empty_list :: "rootlist \<Rightarrow> globroots \<Rightarrow> globroots option" where
  "empty_list l s = map_option (\<lambda>sk. put_list l sk s) (caml_skiplist_empty (get_list l s))"

definition caml_scan_global_young_roots ::
  "cell_alloc \<Rightarrow> 'd scanning_action \<Rightarrow> 'd \<Rightarrow> globroots \<Rightarrow> ('d \<times> globroots) res option" where
  "caml_scan_global_young_roots alloc f d s =
     Option.bind (enter_iteration s) (\<lambda>s.
     Option.bind (caml_iterate_global_roots f Roots d s) (\<lambda>(d, s).
     Option.bind (caml_iterate_global_roots f Young_roots d s) (\<lambda>(d, s).
     Option.bind (move_from alloc (fwd (get_list Young_roots s) Head 0) s) (\<lambda>r.
       case r of
         Inl err \<Rightarrow> Some (Inl err)
       | Inr s \<Rightarrow> map_option (\<lambda>s. Inr (d, leave_iteration s)) (empty_list Young_roots s)))))"

section \<open>Properties\<close>

subsection \<open>The lists as maps\<close>

abbreviation roots :: "rootlist \<Rightarrow> globroots \<Rightarrow> addr \<Rightarrow> u64 option" where
  "roots l s \<equiv> skip_abs (get_list l s)"

definition lists_ok :: "globroots \<Rightarrow> bool" where
  "lists_ok s \<longleftrightarrow> (\<forall>l. skip_inv (get_list l s))"

lemma reseed [simp]:
  "cell_at (sk\<lparr>random_seed := x\<rparr>) = cell_at sk" "fwd (sk\<lparr>random_seed := x\<rparr>) = fwd sk"
  "skip_rep (sk\<lparr>random_seed := x\<rparr>) ps = skip_rep sk ps" "skip_inv (sk\<lparr>random_seed := x\<rparr>) = skip_inv sk"
  "skip_abs (sk\<lparr>random_seed := x\<rparr>) = skip_abs sk"
proof -
  show c: "cell_at (sk\<lparr>random_seed := x\<rparr>) = cell_at sk" by (simp add: cell_at_def fun_eq_iff)
  show f: "fwd (sk\<lparr>random_seed := x\<rparr>) = fwd sk" by (intro ext) (simp add: fwd_def c split: cursor.split)
  show r: "skip_rep (sk\<lparr>random_seed := x\<rparr>) ps = skip_rep sk ps" for ps by (simp add: skip_rep_def level_list_def c f)
  show "skip_inv (sk\<lparr>random_seed := x\<rparr>) = skip_inv sk" by (simp add: skip_inv_def r)
  show "skip_abs (sk\<lparr>random_seed := x\<rparr>) = skip_abs sk" by (simp add: skip_abs_def fun_eq_iff)
qed

lemma get_put_list [simp]:
  "get_list l (put_list l sk s) = sk"
  "l' \<noteq> l \<Longrightarrow> get_list l' (put_list l sk s) = (get_list l' s)\<lparr>random_seed := random_seed sk\<rparr>"
  by (cases l; cases l'; simp add: get_list_def put_list_def Let_def)+

lemma put_list_other [simp]:
  "gr_mem (put_list l sk s) = gr_mem s" "roots_mutex (put_list l sk s) = roots_mutex s"
  "iterating_roots (put_list l sk s) = iterating_roots s"
  "caml_minor_heaps_start (put_list l sk s) = caml_minor_heaps_start s"
  "caml_minor_heaps_end (put_list l sk s) = caml_minor_heaps_end s"
  by (simp_all add: put_list_def Let_def)

lemma get_list_other [simp]:
  "get_list l (s\<lparr>gr_mem := m\<rparr>) = get_list l s" "get_list l (s\<lparr>roots_mutex := b\<rparr>) = get_list l s"
  "get_list l (s\<lparr>iterating_roots := n\<rparr>) = get_list l s"
  by (simp_all add: get_list_def cong: rootlist.case_cong)

lemma lists_ok_put: "lists_ok s \<Longrightarrow> skip_inv sk \<Longrightarrow> lists_ok (put_list l sk s)"
  unfolding lists_ok_def by (metis get_put_list reseed(4))

lemma roots_put: "roots l' (put_list l sk s) = (if l' = l then skip_abs sk else roots l' s)"
  by simp

lemma lists_okD: "lists_ok s \<Longrightarrow> skip_inv (get_list l s)"
  by (simp add: lists_ok_def)


text \<open>The parts of the state other than the lists.\<close>

definition same_env :: "globroots \<Rightarrow> globroots \<Rightarrow> bool" where
  "same_env s s' \<longleftrightarrow> gr_mem s' = gr_mem s \<and> roots_mutex s' = roots_mutex s \<and> iterating_roots s' = iterating_roots s \<and>
     caml_minor_heaps_start s' = caml_minor_heaps_start s \<and> caml_minor_heaps_end s' = caml_minor_heaps_end s"

lemma same_env_classify: "same_env s s' \<Longrightarrow> classify_gc_root s' v = classify_gc_root s v"
  by (simp add: same_env_def classify_gc_root_def Is_young_def)

text \<open>An allocator that always finds an unused address.\<close>

definition fresh_alloc :: "cell_alloc \<Rightarrow> bool" where
  "fresh_alloc alloc \<longleftrightarrow> (\<forall>sk. skip_inv sk \<longrightarrow> (\<exists>f. alloc sk = Some f \<and> f \<notin> dom (sk_cells sk)))"

lemma fresh_alloc_new_ptr: "fresh_alloc (\<lambda>sk. Some (new_ptr sk))"
  using new_ptr_fresh by (auto simp: fresh_alloc_def)

lemma insert_root_ok:
  assumes "lists_ok s" "fresh_alloc alloc"
  shows "\<exists>s'. insert_root alloc l r s = Some (Inr s') \<and> lists_ok s' \<and> same_env s s' \<and>
    (\<forall>l'. roots l' s' = (if l' = l then (roots l s)(r \<mapsto> ROOT_PRESENT) else roots l' s))"
proof -
  obtain f where f: "alloc (get_list l s) = Some f" "f \<notin> dom (sk_cells (get_list l s))"
    using assms lists_okD by (metis fresh_alloc_def)
  obtain sk where sk: "caml_skiplist_insert (Some f) (get_list l s) r ROOT_PRESENT = Some (Inr (roots l s r \<noteq> None, sk))"
    "skip_inv sk" "skip_abs sk = (roots l s)(r \<mapsto> ROOT_PRESENT)"
    using caml_skiplist_insert_correct [OF lists_okD [OF assms(1)] f(2)] by blast
  show ?thesis
    by (rule exI [of _ "put_list l sk s"]) (use sk f(1) lists_ok_put [OF assms(1)] in \<open>simp add: insert_root_def same_env_def\<close>)
qed

lemma caml_insert_global_root_ok:
  assumes "lists_ok s" "fresh_alloc alloc" "\<not> roots_mutex s"
  shows "\<exists>s'. caml_insert_global_root alloc l r s = Some (Inr s') \<and> lists_ok s' \<and> same_env s s' \<and>
    (\<forall>l'. roots l' s' = (if l' = l then (roots l s)(r \<mapsto> ROOT_PRESENT) else roots l' s))"
proof -
  have "lists_ok (s\<lparr>roots_mutex := True\<rparr>)" using assms(1) by (simp add: lists_ok_def)
  from insert_root_ok [OF this assms(2), of l r] obtain s' where
    "insert_root alloc l r (s\<lparr>roots_mutex := True\<rparr>) = Some (Inr s')" "lists_ok s'" "same_env (s\<lparr>roots_mutex := True\<rparr>) s'"
    "\<forall>l'. roots l' s' = (if l' = l then (roots l s)(r \<mapsto> ROOT_PRESENT) else roots l' s)" by auto
  then show ?thesis using assms(3)
    by (intro exI [of _ "caml_plat_unlock s'"])
      (simp add: caml_insert_global_root_def caml_plat_lock_blocking_def caml_plat_unlock_def lists_ok_def same_env_def)
qed

lemma remove_root_ok:
  assumes "lists_ok s"
  shows "\<exists>s'. remove_root l r s = Some s' \<and> lists_ok s' \<and> same_env s s' \<and>
    (\<forall>l'. roots l' s' = (if l' = l then (roots l s)(r := None) else roots l' s))"
proof -
  obtain sk where sk: "caml_skiplist_remove (get_list l s) r = Some (roots l s r \<noteq> None, sk)"
    "skip_inv sk" "skip_abs sk = (roots l s)(r := None)"
    using caml_skiplist_remove_correct [OF lists_okD [OF assms(1)]] by blast
  show ?thesis
    by (rule exI [of _ "put_list l sk s"]) (use sk lists_ok_put [OF assms(1)] in \<open>simp add: remove_root_def same_env_def\<close>)
qed

lemma caml_delete_global_root_ok:
  assumes "lists_ok s" "\<not> roots_mutex s" "iterating_roots s = 0"
  shows "\<exists>s'. caml_delete_global_root l r s = Some s' \<and> lists_ok s' \<and> same_env s s' \<and>
    (\<forall>l'. roots l' s' = (if l' = l then (roots l s)(r := None) else roots l' s))"
proof -
  have "lists_ok (s\<lparr>roots_mutex := True\<rparr>)" using assms(1) by (simp add: lists_ok_def)
  from remove_root_ok [OF this, of l r] obtain s' where
    "remove_root l r (s\<lparr>roots_mutex := True\<rparr>) = Some s'" "lists_ok s'" "same_env (s\<lparr>roots_mutex := True\<rparr>) s'"
    "\<forall>l'. roots l' s' = (if l' = l then (roots l s)(r := None) else roots l' s)" by auto
  then show ?thesis using assms(2,3)
    by (intro exI [of _ "caml_plat_unlock s'"])
      (simp add: caml_delete_global_root_def caml_plat_lock_blocking_def caml_plat_unlock_def lists_ok_def same_env_def)
qed


subsection \<open>Iteration\<close>

text \<open>
  An action that only works on the memory, as the collectors' do, and the sequence of its calls on a list of roots. An entry
  that is not marked as deleted is present.
\<close>

definition mem_action :: "('d \<Rightarrow> val \<Rightarrow> addr \<Rightarrow> mem \<Rightarrow> 'd \<times> mem) \<Rightarrow> 'd scanning_action" where
  "mem_action g = (\<lambda>d v r s. let (d', m) = g d v r (gr_mem s) in Some (d', s\<lparr>gr_mem := m\<rparr>))"

definition visit :: "('d \<Rightarrow> val \<Rightarrow> addr \<Rightarrow> mem \<Rightarrow> 'd \<times> mem) \<Rightarrow> addr list \<Rightarrow> 'd \<times> mem \<Rightarrow> 'd \<times> mem" where
  "visit g rs = fold (\<lambda>r (d, m). g d (load64 m r) r m) rs"

definition present :: "(addr \<Rightarrow> u64 option) \<Rightarrow> addr \<Rightarrow> u64 option" where
  "present f r = (if f r = Some ROOT_DELETED then None else f r)"

definition live :: "rootlist \<Rightarrow> globroots \<Rightarrow> addr list" where
  "live l s = sorted_list_of_set (dom (present (roots l s)))"

definition same_control :: "globroots \<Rightarrow> globroots \<Rightarrow> bool" where
  "same_control s s' \<longleftrightarrow> roots_mutex s' = roots_mutex s \<and> iterating_roots s' = iterating_roots s \<and>
     caml_minor_heaps_start s' = caml_minor_heaps_start s \<and> caml_minor_heaps_end s' = caml_minor_heaps_end s"

lemma same_control_trans: "same_control a b \<Longrightarrow> same_control b c \<Longrightarrow> same_control a c"
  by (simp add: same_control_def)

definition first_ptr :: "ptr list \<Rightarrow> ptr option" where
  "first_ptr ps = (case ps of [] \<Rightarrow> None | p # _ \<Rightarrow> Some p)"

lemma first_ptr_simps [simp]: "first_ptr [] = None" "first_ptr (p # ps) = Some p"
  by (simp_all add: first_ptr_def)

lemma rep_first:
  assumes "skip_rep sk ps"
  shows "fwd sk Head 0 = first_ptr ps"
  using linked_fwd [of sk 0 Head ps] skip_repD(7) [OF assms, of 0] skip_rep_level_0 [OF assms]
  by (simp add: NUM_LEVELS_def first_ptr_def)

lemma rep_next:
  assumes "skip_rep sk (xs @ p # ys)"
  shows "fwd sk (Cell p) 0 = first_ptr ys"
proof -
  have "linked sk 0 Head ((xs @ [p]) @ ys)"
    using skip_repD(7) [OF assms, of 0] skip_rep_level_0 [OF assms] by (simp add: NUM_LEVELS_def)
  from linked_fwd [OF linked_append [OF this]] show ?thesis by (simp add: first_ptr_def)
qed

abbreviation live_cell :: "skiplist \<Rightarrow> ptr \<Rightarrow> bool" where
  "live_cell sk p \<equiv> data_at sk p \<noteq> ROOT_DELETED"

lemma iterate_from_mem:
  fixes d :: 'd
  assumes "skip_rep (get_list l s) (xs @ ys)" "lists_ok s"
  shows "\<exists>s'. iterate_from (mem_action g) l (first_ptr ys) d s =
      Some (fst (visit g (map (key_at (get_list l s)) (filter (live_cell (get_list l s)) ys)) (d, gr_mem s)), s') \<and>
    gr_mem s' = snd (visit g (map (key_at (get_list l s)) (filter (live_cell (get_list l s)) ys)) (d, gr_mem s)) \<and>
    skip_rep (get_list l s') (xs @ filter (live_cell (get_list l s)) ys) \<and>
    (\<forall>p\<in>set (xs @ filter (live_cell (get_list l s)) ys).
       key_at (get_list l s') p = key_at (get_list l s) p \<and> data_at (get_list l s') p = data_at (get_list l s) p) \<and>
    lists_ok s' \<and> (\<forall>l'. l' \<noteq> l \<longrightarrow> roots l' s' = roots l' s) \<and> same_control s s'"
  using assms
proof (induction ys arbitrary: xs d s)
  case Nil
  then show ?case by (simp add: iterate_from.simps visit_def same_control_def)
next
  case (Cons p ys)
  let ?sk = "get_list l s"
  note nx = rep_next [OF Cons.prems(1)]
  have dis: "distinct (xs @ p # ys)" by (rule skip_rep_distinct [OF Cons.prems(1)])
  show ?case
  proof (cases "live_cell ?sk p")
    case True
    obtain d1 m1 where g: "g d (load64 (gr_mem s) (key_at ?sk p)) (key_at ?sk p) (gr_mem s) = (d1, m1)" by force
    let ?s1 = "s\<lparr>gr_mem := m1\<rparr>"
    have step: "iterate_from (mem_action g) l (first_ptr (p # ys)) d s = iterate_from (mem_action g) l (first_ptr ys) d1 ?s1"
      using True nx g by (subst iterate_from.simps) (simp add: Let_def mem_action_def)
    have "lists_ok ?s1" using Cons.prems(2) by (simp add: lists_ok_def)
    from Cons.IH [of ?s1 "xs @ [p]" d1, simplified, OF Cons.prems(1) this] obtain s' where IH:
      "iterate_from (mem_action g) l (first_ptr ys) d1 ?s1 =
        Some (fst (visit g (map (key_at ?sk) (filter (live_cell ?sk) ys)) (d1, m1)), s')"
      "gr_mem s' = snd (visit g (map (key_at ?sk) (filter (live_cell ?sk) ys)) (d1, m1))"
      "skip_rep (get_list l s') (xs @ p # filter (live_cell ?sk) ys)"
      "\<forall>q\<in>insert p (set xs \<union> {q \<in> set ys. live_cell ?sk q}). key_at (get_list l s') q = key_at ?sk q \<and> data_at (get_list l s') q = data_at ?sk q"
      "lists_ok s'" "\<forall>l'. l' \<noteq> l \<longrightarrow> roots l' s' = roots l' s" "same_control ?s1 s'" by auto
    show ?thesis unfolding step
      by (rule exI [of _ s']) (use IH True g in \<open>simp add: visit_def same_control_def\<close>)
  next
    case False
    obtain sk where sk: "caml_skiplist_remove ?sk (key_at ?sk p) = Some (True, sk)" "skip_rep sk (xs @ ys)"
      "\<And>q. q \<noteq> p \<Longrightarrow> key_at sk q = key_at ?sk q \<and> data_at sk q = data_at ?sk q"
      using caml_skiplist_remove_rep [OF Cons.prems(1)] by blast
    let ?s1 = "put_list l sk s"
    have step: "iterate_from (mem_action g) l (first_ptr (p # ys)) d s = iterate_from (mem_action g) l (first_ptr ys) d ?s1"
      using False nx sk(1) by (subst iterate_from.simps) (simp add: Let_def remove_root_def)
    have sub: "q \<noteq> p" if "q \<in> set xs \<union> set ys" for q using that dis by auto
    have eq: "filter (live_cell sk) ys = filter (live_cell ?sk) ys"
      "map (key_at sk) (filter (live_cell ?sk) ys) = map (key_at ?sk) (filter (live_cell ?sk) ys)"
      using sk(3) sub by (auto intro!: map_cong filter_cong)
    have "lists_ok ?s1" using Cons.prems(2) sk(2) by (auto intro!: lists_ok_put simp: skip_inv_def)
    from Cons.IH [of ?s1 xs d, simplified, OF sk(2) this] obtain s' where IH:
      "iterate_from (mem_action g) l (first_ptr ys) d ?s1 =
        Some (fst (visit g (map (key_at ?sk) (filter (live_cell ?sk) ys)) (d, gr_mem s)), s')"
      "gr_mem s' = snd (visit g (map (key_at ?sk) (filter (live_cell ?sk) ys)) (d, gr_mem s))"
      "skip_rep (get_list l s') (xs @ filter (live_cell ?sk) ys)"
      "\<forall>q\<in>set xs \<union> {q \<in> set ys. live_cell sk q}. key_at (get_list l s') q = key_at sk q \<and> data_at (get_list l s') q = data_at sk q"
      "lists_ok s'" "\<forall>l'. l' \<noteq> l \<longrightarrow> roots l' s' = roots l' s" "same_control s s'"
      unfolding eq by (auto simp: same_control_def)
    show ?thesis unfolding step
      by (rule exI [of _ s']) (use IH False sk(3) sub in auto)
  qed
qed


lemma present_Some: "present f r = Some v \<longleftrightarrow> f r = Some v \<and> v \<noteq> ROOT_DELETED"
  by (auto simp: present_def)

lemma present_rep:
  assumes "skip_rep sk ps"
  shows "present (skip_abs sk) k = Some v \<longleftrightarrow> (\<exists>p\<in>set (filter (live_cell sk) ps). key_at sk p = k \<and> data_at sk p = v)"
  unfolding present_Some skip_abs_rep [OF assms] by auto

lemma live_rep:
  assumes rep: "skip_rep (get_list l s) ps"
  shows "live l s = map (key_at (get_list l s)) (filter (live_cell (get_list l s)) ps)"
proof -
  let ?ks = "map (key_at (get_list l s)) (filter (live_cell (get_list l s)) ps)"
  have srt: "sorted_wrt (<) ?ks"
    using sorted_wrt_filter [OF skip_repD(4) [OF rep]] by (simp add: sorted_wrt_map)
  have "dom (present (roots l s)) = set ?ks"
    unfolding dom_def by (auto simp: present_rep [OF rep])
  moreover have "sorted_list_of_set (set ?ks) = ?ks"
    using srt by (intro sorted_list_of_set.idem_if_sorted_distinct) (simp_all only: strict_sorted_iff)
  ultimately show ?thesis by (simp only: live_def)
qed

lemma present_filter:
  assumes rep: "skip_rep sk ps" and rep': "skip_rep sk' (filter (live_cell sk) ps)"
    and same: "\<And>p. p \<in> set ps \<Longrightarrow> live_cell sk p \<Longrightarrow> key_at sk' p = key_at sk p \<and> data_at sk' p = data_at sk p"
  shows "skip_abs sk' = present (skip_abs sk)"
proof (rule map_eqI)
  fix k v
  show "(skip_abs sk' k = Some v) = (present (skip_abs sk) k = Some v)"
    unfolding skip_abs_rep [OF rep'] present_rep [OF rep] using same by auto
qed

lemma caml_iterate_global_roots_mem:
  fixes d :: 'd
  assumes "lists_ok s"
  shows "\<exists>s'. caml_iterate_global_roots (mem_action g) l d s = Some (fst (visit g (live l s) (d, gr_mem s)), s') \<and>
    gr_mem s' = snd (visit g (live l s) (d, gr_mem s)) \<and> lists_ok s' \<and> same_control s s' \<and>
    (\<forall>l'. roots l' s' = (if l' = l then present (roots l s) else roots l' s))"
proof -
  obtain ps where rep: "skip_rep (get_list l s) ps" using lists_okD [OF assms, of l] by (auto simp: skip_inv_def)
  from iterate_from_mem [of l s "[]" ps g d] rep assms obtain s' where it:
    "iterate_from (mem_action g) l (first_ptr ps) d s = Some (fst (visit g (live l s) (d, gr_mem s)), s')"
    "gr_mem s' = snd (visit g (live l s) (d, gr_mem s))"
    "skip_rep (get_list l s') (filter (live_cell (get_list l s)) ps)"
    "\<forall>p\<in>set (filter (live_cell (get_list l s)) ps).
       key_at (get_list l s') p = key_at (get_list l s) p \<and> data_at (get_list l s') p = data_at (get_list l s) p"
    "lists_ok s'" "\<forall>l'. l' \<noteq> l \<longrightarrow> roots l' s' = roots l' s" "same_control s s'"
    unfolding live_rep [OF rep] by auto
  have "roots l s' = present (roots l s)" by (rule present_filter [OF rep it(3)]) (use it(4) in auto)
  then show ?thesis using it rep_first [OF rep]
    by (intro exI [of _ s']) (simp add: caml_iterate_global_roots_def)
qed

lemma enter_iteration_ok:
  assumes "lists_ok s" "\<not> roots_mutex s"
  shows "\<exists>s'. enter_iteration s = Some s' \<and> lists_ok s' \<and> gr_mem s' = gr_mem s \<and>
    (\<forall>l. roots l s' = roots l s) \<and> same_control (s\<lparr>roots_mutex := True, iterating_roots := iterating_roots s + 1\<rparr>) s'"
  using assms by (simp add: enter_iteration_def caml_plat_lock_blocking_def lists_ok_def same_control_def)

lemma leave_iteration_simps [simp]:
  "get_list l (leave_iteration s) = get_list l s" "gr_mem (leave_iteration s) = gr_mem s"
  "lists_ok (leave_iteration s) = lists_ok s"
  by (simp_all add: leave_iteration_def caml_plat_unlock_def lists_ok_def)

lemma live_cong: "roots l s' = roots l s \<Longrightarrow> live l s' = live l s"
  by (simp add: live_def)

lemma visit_append: "visit g (rs @ rs') a = visit g rs' (visit g rs a)"
  by (simp add: visit_def)


text \<open>The part that both scans share: the mutable roots and the young generational roots.\<close>

lemma scan_roots_young:
  fixes d :: 'd
  assumes "lists_ok s" "\<not> roots_mutex s"
  obtains s0 d1 s1 d2 s2 where "enter_iteration s = Some s0"
    "caml_iterate_global_roots (mem_action g) Roots d s0 = Some (d1, s1)"
    "caml_iterate_global_roots (mem_action g) Young_roots d1 s1 = Some (d2, s2)"
    "visit g (live Roots s @ live Young_roots s) (d, gr_mem s) = (d2, gr_mem s2)" "lists_ok s2"
    "same_control (s\<lparr>roots_mutex := True, iterating_roots := iterating_roots s + 1\<rparr>) s2"
    "\<And>l. roots l s2 = (if l = Old_roots then roots l s else present (roots l s))"
proof -
  obtain s0 where s0: "enter_iteration s = Some s0" "lists_ok s0" "gr_mem s0 = gr_mem s" "\<And>l. roots l s0 = roots l s"
    "same_control (s\<lparr>roots_mutex := True, iterating_roots := iterating_roots s + 1\<rparr>) s0"
    using enter_iteration_ok [OF assms] by blast
  obtain d1 s1 where s1: "caml_iterate_global_roots (mem_action g) Roots d s0 = Some (d1, s1)"
    "visit g (live Roots s0) (d, gr_mem s0) = (d1, gr_mem s1)" "lists_ok s1" "same_control s0 s1"
    "\<And>l'. roots l' s1 = (if l' = Roots then present (roots Roots s0) else roots l' s0)"
    using caml_iterate_global_roots_mem [OF s0(2)] by (metis prod.collapse)
  obtain d2 s2 where s2: "caml_iterate_global_roots (mem_action g) Young_roots d1 s1 = Some (d2, s2)"
    "visit g (live Young_roots s1) (d1, gr_mem s1) = (d2, gr_mem s2)" "lists_ok s2" "same_control s1 s2"
    "\<And>l'. roots l' s2 = (if l' = Young_roots then present (roots Young_roots s1) else roots l' s1)"
    using caml_iterate_global_roots_mem [OF s1(3)] by (metis prod.collapse)
  have "live Roots s0 = live Roots s" "live Young_roots s1 = live Young_roots s"
    by (simp_all add: live_def s0(4) s1(5))
  then have "visit g (live Roots s @ live Young_roots s) (d, gr_mem s) = (d2, gr_mem s2)"
    using s1(2) s2(2) by (simp add: visit_append s0(3))
  moreover have "roots l s2 = (if l = Old_roots then roots l s else present (roots l s))" for l
    by (cases l) (simp_all add: s2(5) s1(5) s0(4))
  ultimately show thesis
    using that s0(1) s1(1) s2(1,3) same_control_trans [OF s0(5) same_control_trans [OF s1(4) s2(4)]] by blast
qed

lemma caml_scan_global_roots_mem:
  fixes d :: 'd
  assumes "lists_ok s" "\<not> roots_mutex s"
  shows "\<exists>s'. caml_scan_global_roots (mem_action g) d s =
      Some (fst (visit g (live Roots s @ live Young_roots s @ live Old_roots s) (d, gr_mem s)), s') \<and>
    gr_mem s' = snd (visit g (live Roots s @ live Young_roots s @ live Old_roots s) (d, gr_mem s)) \<and>
    lists_ok s' \<and> same_control s s' \<and> (\<forall>l. roots l s' = present (roots l s))"
proof -
  obtain s0 d1 s1 d2 s2 where s: "enter_iteration s = Some s0" "caml_iterate_global_roots (mem_action g) Roots d s0 = Some (d1, s1)"
    "caml_iterate_global_roots (mem_action g) Young_roots d1 s1 = Some (d2, s2)"
    "visit g (live Roots s @ live Young_roots s) (d, gr_mem s) = (d2, gr_mem s2)" "lists_ok s2"
    "same_control (s\<lparr>roots_mutex := True, iterating_roots := iterating_roots s + 1\<rparr>) s2"
    "\<And>l. roots l s2 = (if l = Old_roots then roots l s else present (roots l s))"
    by (rule scan_roots_young [OF assms]) blast
  obtain d3 s3 where s3: "caml_iterate_global_roots (mem_action g) Old_roots d2 s2 = Some (d3, s3)"
    "visit g (live Old_roots s2) (d2, gr_mem s2) = (d3, gr_mem s3)" "lists_ok s3" "same_control s2 s3"
    "\<And>l'. roots l' s3 = (if l' = Old_roots then present (roots Old_roots s2) else roots l' s2)"
    using caml_iterate_global_roots_mem [OF s(5)] by (metis prod.collapse)
  have "visit g (live Roots s @ live Young_roots s @ live Old_roots s) (d, gr_mem s) = (d3, gr_mem s3)"
    using s(4) s3(2) s(7) [of Old_roots] live_cong [of Old_roots s2 s] by (simp add: visit_append)
  moreover have "roots l s3 = present (roots l s)" for l by (simp add: s3(5) s(7))
  moreover have "same_control s (leave_iteration s3)"
    using s(6) s3(4) assms(2) by (simp add: same_control_def leave_iteration_def caml_plat_unlock_def)
  ultimately show ?thesis using s(1-3) s3(1,3)
    by (intro exI [of _ "leave_iteration s3"]) (simp add: caml_scan_global_roots_def)
qed

lemma move_from_ok:
  assumes "skip_rep (get_list Young_roots s) (xs @ ys)" "lists_ok s" "fresh_alloc alloc"
  shows "\<exists>s'. move_from alloc (first_ptr ys) s = Some (Inr s') \<and> lists_ok s' \<and> same_env s s' \<and>
    roots Roots s' = roots Roots s \<and> roots Young_roots s' = roots Young_roots s \<and>
    roots Old_roots s' = (\<lambda>r. if r \<in> key_at (get_list Young_roots s) ` set ys then Some ROOT_PRESENT else roots Old_roots s r)"
  using assms
proof (induction ys arbitrary: xs s)
  case Nil
  then show ?case by (simp add: move_from.simps same_env_def)
next
  case (Cons p ys)
  let ?sk = "get_list Young_roots s"
  obtain sk f where f: "alloc (get_list Old_roots s) = Some f" and
    ins: "caml_skiplist_insert (Some f) (get_list Old_roots s) (key_at ?sk p) ROOT_PRESENT =
      Some (Inr (roots Old_roots s (key_at ?sk p) \<noteq> None, sk))" "skip_inv sk"
      "skip_abs sk = (roots Old_roots s)(key_at ?sk p \<mapsto> ROOT_PRESENT)"
    using caml_skiplist_insert_correct [OF lists_okD [OF Cons.prems(2)]] Cons.prems(3) lists_okD [OF Cons.prems(2)]
    unfolding fresh_alloc_def by metis
  let ?s1 = "put_list Old_roots sk s"
  have step: "move_from alloc (first_ptr (p # ys)) s = move_from alloc (first_ptr ys) ?s1"
    using rep_next [OF Cons.prems(1)] f ins(1) by (subst move_from.simps) (simp add: Let_def insert_root_def)
  have y: "get_list Young_roots ?s1 = ?sk\<lparr>random_seed := random_seed sk\<rparr>" by simp
  have "skip_rep (get_list Young_roots ?s1) ((xs @ [p]) @ ys)" using Cons.prems(1) unfolding y by simp
  from Cons.IH [OF this lists_ok_put [OF Cons.prems(2) ins(2)] Cons.prems(3)] obtain s' where
    IH: "move_from alloc (first_ptr ys) ?s1 = Some (Inr s')" "lists_ok s'" "same_env ?s1 s'" "roots Roots s' = roots Roots s"
    "roots Young_roots s' = roots Young_roots s"
    "roots Old_roots s' = (\<lambda>r. if r \<in> key_at ?sk ` set ys then Some ROOT_PRESENT else skip_abs sk r)" by (auto cong: if_cong)
  show ?case unfolding step
    by (rule exI [of _ s']) (use IH ins(3) in \<open>auto simp: same_env_def fun_eq_iff\<close>)
qed


lemma empty_list_ok:
  assumes "lists_ok s"
  shows "\<exists>s'. empty_list l s = Some s' \<and> lists_ok s' \<and> same_env s s' \<and>
    (\<forall>l'. roots l' s' = (if l' = l then Map.empty else roots l' s))"
proof -
  obtain sk where "caml_skiplist_empty (get_list l s) = Some sk" "skip_inv sk" "skip_abs sk = Map.empty"
    using caml_skiplist_empty_correct [OF lists_okD [OF assms]] by blast
  then show ?thesis using lists_ok_put [OF assms]
    by (intro exI [of _ "put_list l sk s"]) (simp add: empty_list_def same_env_def)
qed

lemma caml_scan_global_young_roots_mem:
  fixes d :: 'd
  assumes "lists_ok s" "\<not> roots_mutex s" "fresh_alloc alloc"
  shows "\<exists>s'. caml_scan_global_young_roots alloc (mem_action g) d s =
      Some (Inr (fst (visit g (live Roots s @ live Young_roots s) (d, gr_mem s)), s')) \<and>
    gr_mem s' = snd (visit g (live Roots s @ live Young_roots s) (d, gr_mem s)) \<and>
    lists_ok s' \<and> same_control s s' \<and> roots Roots s' = present (roots Roots s) \<and> roots Young_roots s' = Map.empty \<and>
    roots Old_roots s' = (\<lambda>r. if r \<in> set (live Young_roots s) then Some ROOT_PRESENT else roots Old_roots s r)"
proof -
  obtain s0 d1 s1 d2 s2 where s: "enter_iteration s = Some s0" "caml_iterate_global_roots (mem_action g) Roots d s0 = Some (d1, s1)"
    "caml_iterate_global_roots (mem_action g) Young_roots d1 s1 = Some (d2, s2)"
    "visit g (live Roots s @ live Young_roots s) (d, gr_mem s) = (d2, gr_mem s2)" "lists_ok s2"
    "same_control (s\<lparr>roots_mutex := True, iterating_roots := iterating_roots s + 1\<rparr>) s2"
    "\<And>l. roots l s2 = (if l = Old_roots then roots l s else present (roots l s))"
    by (rule scan_roots_young [OF assms(1,2)]) blast
  obtain ps where rep: "skip_rep (get_list Young_roots s2) ps" using lists_okD [OF s(5)] by (auto simp: skip_inv_def)
  obtain s3 where s3: "move_from alloc (first_ptr ps) s2 = Some (Inr s3)" "lists_ok s3" "same_env s2 s3" "roots Roots s3 = roots Roots s2"
    "roots Young_roots s3 = roots Young_roots s2"
    "roots Old_roots s3 = (\<lambda>r. if r \<in> key_at (get_list Young_roots s2) ` set ps then Some ROOT_PRESENT else roots Old_roots s2 r)"
    using move_from_ok [of s2 "[]" ps, OF _ s(5) assms(3)] rep by auto
  obtain s4 where s4: "empty_list Young_roots s3 = Some s4" "lists_ok s4" "same_env s3 s4"
    "\<And>l'. roots l' s4 = (if l' = Young_roots then Map.empty else roots l' s3)"
    using empty_list_ok [OF s3(2)] by blast
  have "key_at (get_list Young_roots s2) ` set ps = dom (roots Young_roots s2)"
    using skip_abs_rep [OF rep] by (auto simp: dom_def)
  also have "\<dots> = set (live Young_roots s)"
  proof -
    obtain qs where "skip_rep (get_list Young_roots s) qs" using lists_okD [OF assms(1)] by (auto simp: skip_inv_def)
    from live_rep [OF this] present_rep [OF this] show ?thesis by (auto simp: s(7) dom_def)
  qed
  finally have "roots Old_roots s4 = (\<lambda>r. if r \<in> set (live Young_roots s) then Some ROOT_PRESENT else roots Old_roots s r)"
    by (simp add: s4(4) s3(6) s(7) cong: if_cong)
  moreover have "same_control s (leave_iteration s4)"
    using s(6) s3(3) s4(3) assms(2) by (simp add: same_control_def same_env_def leave_iteration_def caml_plat_unlock_def)
  moreover have "gr_mem s4 = gr_mem s2" using s3(3) s4(3) by (simp add: same_env_def)
  ultimately show ?thesis using s(1-4) s3(1) s4(1,2) rep_first [OF rep] s4(4) [of Roots] s4(4) [of Young_roots] s3(4) s(7) [of Roots]
    by (intro exI [of _ "leave_iteration s4"]) (simp add: caml_scan_global_young_roots_def)
qed


subsection \<open>The invariant of generational roots\<close>

text \<open>
  The states that a program can reach when the mutable roots \<open>M\<close> and the generational roots \<open>R\<close> are registered: it registers and removes roots of both
  kinds, modifies generational roots through the interface, writes to any memory other than generational roots, and the minor collector
  scans the young roots. The action of the collector replaces a young value in a root by a value that is not young: by an old block, or, when
  \<open>short\<close> holds, by an immediate too, as \<open>oldify_one\<close> does when it short-circuits a forced lazy value.
\<close>

definition promotes :: "bool \<Rightarrow> globroots \<Rightarrow> addr set \<Rightarrow> ('d \<Rightarrow> val \<Rightarrow> addr \<Rightarrow> mem \<Rightarrow> 'd \<times> mem) \<Rightarrow> bool" where
  "promotes short s A g \<longleftrightarrow> (\<forall>d r m. let v = load64 m r; m' = snd (g d v r m) in
     (\<forall>r'\<in>A. r' \<noteq> r \<longrightarrow> load64 m' r' = load64 m r') \<and>
     (r \<in> A \<longrightarrow> (if classify_gc_root s v = YOUNG then classify_gc_root s (load64 m' r) \<in> (if short then {OLD, UNTRACKED} else {OLD})
                  else load64 m' r = v)))"

inductive gen_run :: "cell_alloc \<Rightarrow> bool \<Rightarrow> globroots \<Rightarrow> addr set \<Rightarrow> addr set \<Rightarrow> bool" for alloc short where
  start: "lists_ok s \<Longrightarrow> (\<And>l. roots l s = Map.empty) \<Longrightarrow> \<not> roots_mutex s \<Longrightarrow> iterating_roots s = 0 \<Longrightarrow> gen_run alloc short s {} {}"
| register_mutable: "gen_run alloc short s M R \<Longrightarrow> caml_register_global_root alloc r s = Some (Inr s') \<Longrightarrow> gen_run alloc short s' (insert r M) R"
| remove_mutable: "gen_run alloc short s M R \<Longrightarrow> caml_remove_global_root r s = Some s' \<Longrightarrow> gen_run alloc short s' (M - {r}) R"
| register: "gen_run alloc short s M R \<Longrightarrow> r \<notin> R \<Longrightarrow> 8 dvd unat r \<Longrightarrow>
    caml_register_generational_global_root alloc r s = Some (Inr s') \<Longrightarrow> gen_run alloc short s' M (insert r R)"
| remove: "gen_run alloc short s M R \<Longrightarrow> r \<in> R \<Longrightarrow> caml_remove_generational_global_root r s = Some s' \<Longrightarrow> gen_run alloc short s' M (R - {r})"
| modify: "gen_run alloc short s M R \<Longrightarrow> r \<in> R \<Longrightarrow> caml_modify_generational_global_root alloc r v s = Some (Inr s') \<Longrightarrow> gen_run alloc short s' M R"
| mutate: "gen_run alloc short s M R \<Longrightarrow> (\<And>r. r \<in> R \<Longrightarrow> load64 m r = load64 (gr_mem s) r) \<Longrightarrow> gen_run alloc short (s\<lparr>gr_mem := m\<rparr>) M R"
| minor: "gen_run alloc short s M R \<Longrightarrow> promotes short s (M \<union> R) g \<Longrightarrow>
    caml_scan_global_young_roots alloc (mem_action g) () s = Some (Inr (d, s')) \<Longrightarrow> gen_run alloc short s' M R"

definition root_class :: "globroots \<Rightarrow> addr set \<Rightarrow> addr \<Rightarrow> gc_root_class" where
  "root_class s R r = (if r \<in> R then classify_gc_root s (load64 (gr_mem s) r) else UNTRACKED)"

definition listed :: "bool \<Rightarrow> gc_root_class \<Rightarrow> u64 option \<Rightarrow> u64 option \<Rightarrow> bool" where
  "listed short c y old \<longleftrightarrow> y \<in> {None, Some ROOT_PRESENT} \<and> old \<in> {None, Some ROOT_PRESENT} \<and> (case c of
      YOUNG \<Rightarrow> y \<noteq> None \<and> (short \<or> old = None)
    | OLD \<Rightarrow> (y \<noteq> None \<or> old \<noteq> None) \<and> (short \<or> y = None \<or> old = None)
    | UNTRACKED \<Rightarrow> y = None \<and> (short \<or> old = None))"

definition gen_inv :: "bool \<Rightarrow> globroots \<Rightarrow> addr set \<Rightarrow> addr set \<Rightarrow> bool" where
  "gen_inv short s M R \<longleftrightarrow> lists_ok s \<and> \<not> roots_mutex s \<and> iterating_roots s = 0 \<and> (\<forall>r\<in>R. 8 dvd unat r) \<and>
     roots Roots s = (\<lambda>r. if r \<in> M then Some ROOT_PRESENT else None) \<and>
     (\<forall>r. listed short (root_class s R r) (roots Young_roots s r) (roots Old_roots s r))"

lemma gen_invD:
  assumes "gen_inv short s M R"
  shows "lists_ok s" "\<not> roots_mutex s" "iterating_roots s = 0" "r \<in> R \<Longrightarrow> 8 dvd unat r"
    "listed short (root_class s R r) (roots Young_roots s r) (roots Old_roots s r)"
    "roots Roots s = (\<lambda>r. if r \<in> M then Some ROOT_PRESENT else None)"
  using assms unfolding gen_inv_def by blast+

lemma same_control_classify: "same_control s s' \<Longrightarrow> classify_gc_root s' v = classify_gc_root s v"
  by (simp add: same_control_def classify_gc_root_def Is_young_def)

text \<open>An operation on the root \<open>r\<close> keeps the invariant when it leaves \<open>r\<close> in the lists of its class and the other roots as they are.\<close>

lemma gen_inv_step:
  assumes inv: "gen_inv short s M R" and ok: "lists_ok s'" "same_control s s'" and R': "R' - {r} = R - {r}" "r \<in> R' \<Longrightarrow> 8 dvd unat r"
    and frame: "\<And>q. q \<in> R \<Longrightarrow> q \<noteq> r \<Longrightarrow> load64 (gr_mem s') q = load64 (gr_mem s) q"
      "\<And>q l. q \<noteq> r \<Longrightarrow> roots l s' q = roots l s q" "roots Roots s' r = roots Roots s r"
    and this_root: "listed short (root_class s' R' r) (roots Young_roots s' r) (roots Old_roots s' r)"
  shows "gen_inv short s' M R'"
proof -
  have "listed short (root_class s' R' q) (roots Young_roots s' q) (roots Old_roots s' q)" for q
  proof (cases "q = r")
    case False
    then have "q \<in> R' \<longleftrightarrow> q \<in> R" using R'(1) by blast
    then have "root_class s' R' q = root_class s R q" using frame(1) [OF _ False] same_control_classify [OF ok(2)] by (auto simp: root_class_def)
    then show ?thesis using gen_invD(5) [OF inv, of q] frame(2) [OF False] by simp
  qed (use this_root in simp)
  moreover have "\<forall>q\<in>R'. 8 dvd unat q" using R' gen_invD(4) [OF inv] by blast
  moreover have "roots Roots s' = roots Roots s" using frame(2,3) by (metis ext)
  ultimately show ?thesis using ok gen_invD(2,3,6) [OF inv] unfolding gen_inv_def same_control_def by simp
qed

lemma same_env_control: "same_env s s' \<Longrightarrow> same_control s s'" "same_env s s' \<Longrightarrow> gr_mem s' = gr_mem s"
  by (simp_all add: same_env_def same_control_def)

text \<open>The operations on mutable roots change the list of mutable roots only.\<close>

lemma mutable_step:
  assumes inv: "gen_inv short s M R" and s': "lists_ok s'" "same_env s s'" "roots Roots s' = (\<lambda>r. if r \<in> M' then Some ROOT_PRESENT else None)"
    "roots Young_roots s' = roots Young_roots s" "roots Old_roots s' = roots Old_roots s"
  shows "gen_inv short s' M' R"
proof -
  have "root_class s' R r = root_class s R r" for r using same_env_classify [OF s'(2)] same_env_control(2) [OF s'(2)] by (simp add: root_class_def)
  then show ?thesis using gen_invD [OF inv] s' by (simp add: gen_inv_def same_env_def)
qed

lemma register_mutable_step:
  assumes inv: "gen_inv short s M R" and fresh: "fresh_alloc alloc"
  shows "\<exists>s'. caml_register_global_root alloc r s = Some (Inr s') \<and> gen_inv short s' (insert r M) R"
proof -
  note i = gen_invD [OF inv]
  from caml_insert_global_root_ok [OF i(1) fresh i(2), of Roots r] obtain s' where s': "caml_insert_global_root alloc Roots r s = Some (Inr s')" "lists_ok s'"
    "same_env s s'" "\<And>l'. roots l' s' = (if l' = Roots then (roots Roots s)(r \<mapsto> ROOT_PRESENT) else roots l' s)" by metis
  then have "gen_inv short s' (insert r M) R" using i(6) by (intro mutable_step [OF inv]) (auto simp: fun_eq_iff)
  then show ?thesis using s'(1) by (simp add: caml_register_global_root_def)
qed

lemma remove_mutable_step:
  assumes inv: "gen_inv short s M R"
  shows "\<exists>s'. caml_remove_global_root r s = Some s' \<and> gen_inv short s' (M - {r}) R"
proof -
  note i = gen_invD [OF inv]
  from caml_delete_global_root_ok [OF i(1-3), of Roots r] obtain s' where s': "caml_delete_global_root Roots r s = Some s'" "lists_ok s'"
    "same_env s s'" "\<And>l'. roots l' s' = (if l' = Roots then (roots Roots s)(r := None) else roots l' s)" by metis
  then have "gen_inv short s' (M - {r}) R" using i(6) by (intro mutable_step [OF inv]) (auto simp: fun_eq_iff)
  then show ?thesis using s'(1) by (simp add: caml_remove_global_root_def)
qed

lemma register_step:
  assumes inv: "gen_inv short s M R" and fresh: "fresh_alloc alloc" and r: "r \<notin> R" "8 dvd unat r"
  shows "\<exists>s'. caml_register_generational_global_root alloc r s = Some (Inr s') \<and> gen_inv short s' M (insert r R)"
proof -
  note i = gen_invD [OF inv]
  have none: "listed short UNTRACKED (roots Young_roots s r) (roots Old_roots s r)"
    using i(5) [of r] r(1) by (simp add: root_class_def)
  let ?c = "classify_gc_root s (load64 (gr_mem s) r)"
  have res: "gen_inv short s' M (insert r R)" if "lists_ok s'" "same_env s s'" "\<And>q l. q \<noteq> r \<Longrightarrow> roots l s' q = roots l s q"
    "roots Roots s' r = roots Roots s r" "listed short ?c (roots Young_roots s' r) (roots Old_roots s' r)" for s'
    by (rule gen_inv_step [OF inv that(1) same_env_control(1) [OF that(2)], where r = r])
      (use that r same_env_control(2) [OF that(2)] same_env_classify [OF that(2)] in \<open>auto simp: root_class_def\<close>)
  show ?thesis
  proof (cases ?c)
    case YOUNG
    with caml_insert_global_root_ok [OF i(1) fresh i(2), of Young_roots r] none show ?thesis
      by (auto simp: caml_register_generational_global_root_def listed_def intro!: res)
  next
    case OLD
    with caml_insert_global_root_ok [OF i(1) fresh i(2), of Old_roots r] none show ?thesis
      by (auto simp: caml_register_generational_global_root_def listed_def intro!: res)
  next
    case UNTRACKED
    with none i(1) show ?thesis
      by (auto simp: caml_register_generational_global_root_def same_env_def intro!: res)
  qed
qed

lemma remove_step:
  assumes inv: "gen_inv short s M R" and r: "r \<in> R"
  shows "\<exists>s'. caml_remove_generational_global_root r s = Some s' \<and> gen_inv short s' M (R - {r}) \<and> same_env s s' \<and>
    (\<forall>q l. q \<noteq> r \<longrightarrow> roots l s' q = roots l s q)"
proof -
  note i = gen_invD [OF inv]
  let ?c = "classify_gc_root s (load64 (gr_mem s) r)"
  have l: "listed short ?c (roots Young_roots s r) (roots Old_roots s r)" using i(5) [of r] r by (simp add: root_class_def)
  have res: ?thesis if "caml_remove_generational_global_root r s = Some s'" "lists_ok s'" "same_env s s'"
    "\<And>q l. q \<noteq> r \<Longrightarrow> roots l s' q = roots l s q" "roots Roots s' r = roots Roots s r"
    "listed short UNTRACKED (roots Young_roots s' r) (roots Old_roots s' r)" for s'
  proof -
    have "gen_inv short s' M (R - {r})"
      by (rule gen_inv_step [OF inv that(2) same_env_control(1) [OF that(3)], where r = r])
        (use that same_env_control(2) [OF that(3)] in \<open>auto simp: root_class_def\<close>)
    then show ?thesis using that by blast
  qed
  show ?thesis
  proof (cases ?c)
    case YOUNG
    obtain s' where "caml_delete_global_root Young_roots r s = Some s'" "lists_ok s'" "same_env s s'"
      "\<And>l'. roots l' s' = (if l' = Young_roots then (roots Young_roots s)(r := None) else roots l' s)"
      using caml_delete_global_root_ok [OF i(1-3)] by metis
    then show ?thesis using YOUNG l by (intro res [of s']) (auto simp: caml_remove_generational_global_root_def listed_def)
  next
    case OLD
    obtain s1 where s1: "caml_delete_global_root Old_roots r s = Some s1" "lists_ok s1" "same_env s s1"
      "\<And>l'. roots l' s1 = (if l' = Old_roots then (roots Old_roots s)(r := None) else roots l' s)"
      using caml_delete_global_root_ok [OF i(1-3)] by metis
    moreover have "\<not> roots_mutex s1" "iterating_roots s1 = 0" using s1(3) i(2,3) by (simp_all add: same_env_def)
    ultimately obtain s' where "caml_delete_global_root Young_roots r s1 = Some s'" "lists_ok s'" "same_env s1 s'"
      "\<And>l'. roots l' s' = (if l' = Young_roots then (roots Young_roots s1)(r := None) else roots l' s1)"
      using caml_delete_global_root_ok by metis
    then show ?thesis using OLD l s1
      by (intro res [of s']) (auto simp: caml_remove_generational_global_root_def listed_def same_env_def)
  next
    case UNTRACKED
    then show ?thesis using l i(1)
      by (intro res [of s]) (auto simp: caml_remove_generational_global_root_def same_env_def)
  qed
qed

lemma aligned_store:
  assumes "8 dvd unat q" "8 dvd unat r" "q \<noteq> r"
  shows "load64 (store64 m r v) q = load64 m q"
proof (rule load64_store64_other)
  have apart: "8 \<le> unat (a - b)" if "8 dvd unat a" "8 dvd unat b" "a \<noteq> b" for a b :: addr
  proof -
    have "(8 :: nat) dvd 2 ^ 64" by simp
    then have "8 dvd unat (a - b)"
      using that(1,2) by (simp add: unat_sub_if' le_imp_diff_is_add dvd_diff_nat)
    moreover have "unat (a - b) \<noteq> 0" using that(3) by (simp add: unat_eq_0)
    ultimately show ?thesis by (simp add: dvd_imp_le)
  qed
  show "8 \<le> unat (q - r)" "8 \<le> unat (r - q)" using apart assms by simp_all
qed

lemma modify_step:
  assumes inv: "gen_inv short s M R" and fresh: "fresh_alloc alloc" and r: "r \<in> R"
  shows "\<exists>s'. caml_modify_generational_global_root alloc r v s = Some (Inr s') \<and> gen_inv short s' M R \<and> load64 (gr_mem s') r = v"
proof -
  note i = gen_invD [OF inv]
  let ?c = "classify_gc_root s (load64 (gr_mem s) r)" and ?n = "classify_gc_root s v"
  have l: "listed short ?c (roots Young_roots s r) (roots Old_roots s r)" using i(5) [of r] r by (simp add: root_class_def)
  have res: "gen_inv short (s1\<lparr>gr_mem := store64 (gr_mem s1) r v\<rparr>) M R" if "lists_ok s1" "same_env s s1"
    "\<And>q l. q \<noteq> r \<Longrightarrow> roots l s1 q = roots l s q" "roots Roots s1 r = roots Roots s r" "listed short ?n (roots Young_roots s1 r) (roots Old_roots s1 r)" for s1
  proof (rule gen_inv_step [OF inv, where r = r])
    show "same_control s (s1\<lparr>gr_mem := store64 (gr_mem s1) r v\<rparr>)" using that(2) by (simp add: same_env_def same_control_def)
    then have "classify_gc_root (s1\<lparr>gr_mem := store64 (gr_mem s1) r v\<rparr>) v = ?n" by (rule same_control_classify)
    then show "listed short (root_class (s1\<lparr>gr_mem := store64 (gr_mem s1) r v\<rparr>) R r)
      (roots Young_roots (s1\<lparr>gr_mem := store64 (gr_mem s1) r v\<rparr>) r) (roots Old_roots (s1\<lparr>gr_mem := store64 (gr_mem s1) r v\<rparr>) r)"
      using that(5) r by (simp add: root_class_def load64_store64)
  qed (use that r i(4) aligned_store in \<open>auto simp: lists_ok_def same_env_def\<close>)
  have fin: ?thesis if "(case ?n of
           YOUNG \<Rightarrow> Option.bind (if ?c = OLD then caml_delete_global_root Old_roots r s else Some s) (\<lambda>s.
             if ?c \<noteq> YOUNG then caml_insert_global_root alloc Young_roots r s else Some (Inr s))
         | OLD \<Rightarrow> if ?c = UNTRACKED then caml_insert_global_root alloc Old_roots r s else Some (Inr s)
         | UNTRACKED \<Rightarrow> map_option Inr (caml_remove_generational_global_root r s)) = Some (Inr s1)"
    "lists_ok s1" "same_env s s1" "\<And>q l. q \<noteq> r \<Longrightarrow> roots l s1 q = roots l s q" "roots Roots s1 r = roots Roots s r"
    "listed short ?n (roots Young_roots s1 r) (roots Old_roots s1 r)" for s1
    using res [OF that(2-)] that(1) unfolding caml_modify_generational_global_root_def Let_def by (simp add: load64_store64)
  have id: "lists_ok s" "same_env s s" using i(1) by (simp_all add: same_env_def)
  show ?thesis
  proof (cases ?n)
    case YOUNG
    show ?thesis
    proof (cases "?c = OLD")
      case True
      obtain s0 where s0: "caml_delete_global_root Old_roots r s = Some s0" "lists_ok s0" "same_env s s0"
        "\<And>l'. roots l' s0 = (if l' = Old_roots then (roots Old_roots s)(r := None) else roots l' s)"
        using caml_delete_global_root_ok [OF i(1-3)] by metis
      have "\<not> roots_mutex s0" using s0(3) i(2) by (simp add: same_env_def)
      from caml_insert_global_root_ok [OF s0(2) fresh this, of Young_roots r] s0 YOUNG True show ?thesis
        by (auto simp: listed_def same_env_def intro!: fin)
    next
      case False
      with caml_insert_global_root_ok [OF i(1) fresh i(2), of Young_roots r] YOUNG l id show ?thesis
        by (cases "?c = YOUNG") (auto simp: listed_def intro!: fin split: gc_root_class.splits)
    qed
  next
    case OLD
    with caml_insert_global_root_ok [OF i(1) fresh i(2), of Old_roots r] l id show ?thesis
      by (cases "?c = UNTRACKED") (auto simp: listed_def intro!: fin split: gc_root_class.splits)
  next
    case UNTRACKED
    obtain s1 where s1: "caml_remove_generational_global_root r s = Some s1" "gen_inv short s1 M (R - {r})" "same_env s s1"
      "\<forall>q l. q \<noteq> r \<longrightarrow> roots l s1 q = roots l s q" using remove_step [OF inv r] by blast
    then show ?thesis using UNTRACKED gen_invD(1) [OF s1(2)] gen_invD(5) [OF s1(2), of r] gen_invD(6) [OF s1(2)] i(6)
      by (auto simp: root_class_def intro!: fin)
  qed
qed


lemma visit_promotes:
  assumes g: "promotes short s A g" and r: "r \<in> A"
  shows "if classify_gc_root s (load64 m r) = YOUNG \<and> r \<in> set rs
    then classify_gc_root s (load64 (snd (visit g rs (d, m))) r) \<in> (if short then {OLD, UNTRACKED} else {OLD})
    else load64 (snd (visit g rs (d, m))) r = load64 m r"
proof (induction rs arbitrary: d m)
  case (Cons q rs)
  obtain d1 m1 where g1: "g d (load64 m q) q m = (d1, m1)" by force
  have v: "visit g (q # rs) (d, m) = visit g rs (d1, m1)" by (simp add: visit_def g1)
  have "r \<noteq> q \<longrightarrow> load64 m1 r = load64 m r"
    "r = q \<longrightarrow> (if classify_gc_root s (load64 m r) = YOUNG then classify_gc_root s (load64 m1 r) \<in> (if short then {OLD, UNTRACKED} else {OLD})
       else load64 m1 r = load64 m r)"
    using g r g1 unfolding promotes_def Let_def by (metis snd_conv)+
  then show ?case using Cons.IH [where m = m1 and d = d1] unfolding v by (auto split: if_splits)
qed (simp add: visit_def)

text \<open>What a scan of the roots finds in such a state.\<close>

lemma gen_inv_live:
  assumes inv: "gen_inv short s M R"
  shows "set (live Roots s) = M" "r \<in> set (live Young_roots s) \<longleftrightarrow> roots Young_roots s r = Some ROOT_PRESENT"
proof -
  note i = gen_invD [OF inv]
  have d: "set (live l s) = dom (present (roots l s))" for l
  proof -
    obtain ps where rep: "skip_rep (get_list l s) ps" using lists_okD [OF i(1), of l] by (auto simp: skip_inv_def)
    then show ?thesis unfolding live_rep [OF rep] dom_def by (auto simp: present_rep [OF rep])
  qed
  show "set (live Roots s) = M" unfolding d i(6) by (auto simp: dom_def present_def ROOT_PRESENT_def ROOT_DELETED_def)
  have "roots Young_roots s r \<in> {None, Some ROOT_PRESENT}" using i(5) [of r] by (simp add: listed_def)
  then show "r \<in> set (live Young_roots s) \<longleftrightarrow> roots Young_roots s r = Some ROOT_PRESENT"
    unfolding d by (auto simp: present_def ROOT_PRESENT_def ROOT_DELETED_def)
qed

lemma gen_inv_young_live:
  assumes "gen_inv short s M R" "r \<in> R" "classify_gc_root s (load64 (gr_mem s) r) = YOUNG"
  shows "r \<in> set (live Young_roots s)"
  using gen_inv_live(2) [OF assms(1), of r] gen_invD(5) [OF assms(1), of r] assms(2,3) by (auto simp: root_class_def listed_def)

lemma minor_step:
  fixes d :: 'd
  assumes inv: "gen_inv short s M R" and fresh: "fresh_alloc alloc" and g: "promotes short s (M \<union> R) g"
  shows "\<exists>s'. caml_scan_global_young_roots alloc (mem_action g) d s =
      Some (Inr (fst (visit g (live Roots s @ live Young_roots s) (d, gr_mem s)), s')) \<and>
    gr_mem s' = snd (visit g (live Roots s @ live Young_roots s) (d, gr_mem s)) \<and> gen_inv short s' M R \<and>
    (\<forall>r\<in>M \<union> R. classify_gc_root s' (load64 (gr_mem s') r) \<noteq> YOUNG)"
proof -
  note i = gen_invD [OF inv]
  let ?rs = "live Roots s @ live Young_roots s"
  obtain s' where s': "caml_scan_global_young_roots alloc (mem_action g) d s = Some (Inr (fst (visit g ?rs (d, gr_mem s)), s'))"
    "gr_mem s' = snd (visit g ?rs (d, gr_mem s))" "lists_ok s'" "same_control s s'" "roots Young_roots s' = Map.empty"
    "roots Old_roots s' = (\<lambda>r. if r \<in> set (live Young_roots s) then Some ROOT_PRESENT else roots Old_roots s r)"
    "roots Roots s' = present (roots Roots s)"
    using caml_scan_global_young_roots_mem [OF i(1,2) fresh, of g d] by blast
  note cl = same_control_classify [OF s'(4)]
  note live = gen_inv_live [OF inv]
  let ?ok = "if short then {OLD, UNTRACKED} else {OLD}"
  have seen: "if classify_gc_root s (load64 (gr_mem s) r) = YOUNG then classify_gc_root s' (load64 (gr_mem s') r) \<in> ?ok
      else load64 (gr_mem s') r = load64 (gr_mem s) r" if "r \<in> M \<union> R" for r
  proof -
    have "r \<in> set ?rs" if "classify_gc_root s (load64 (gr_mem s) r) = YOUNG"
      using \<open>r \<in> M \<union> R\<close> that live(1) gen_inv_young_live [OF inv, of r] by auto
    then show ?thesis using visit_promotes [OF g that, of "gr_mem s" ?rs d] by (auto simp: cl s'(2))
  qed
  have new: "if root_class s R r = YOUNG then root_class s' R r \<in> ?ok else root_class s' R r = root_class s R r" for r
    using seen [of r] cl by (auto simp: root_class_def)
  have "listed short (root_class s' R r) (roots Young_roots s' r) (roots Old_roots s' r)" for r
    using new [of r] i(5) [of r] live(2) [of r] s'(5,6) by (auto simp: listed_def split: if_splits gc_root_class.splits)
  moreover have "roots Roots s' = (\<lambda>r. if r \<in> M then Some ROOT_PRESENT else None)"
    unfolding s'(7) i(6) by (auto simp: present_def ROOT_PRESENT_def ROOT_DELETED_def fun_eq_iff)
  ultimately have "gen_inv short s' M R" using s'(3,4) i(2,3,4) by (simp add: gen_inv_def same_control_def)
  moreover have "classify_gc_root s' (load64 (gr_mem s') r) \<noteq> YOUNG" if "r \<in> M \<union> R" for r
    using seen [OF that] by (auto simp: cl split: if_splits)
  ultimately show ?thesis using s'(1,2) by blast
qed

lemma gen_run_inv:
  assumes "gen_run alloc short s M R" "fresh_alloc alloc"
  shows "gen_inv short s M R"
  using assms
proof (induction rule: gen_run.induct)
  case (start s)
  then show ?case by (simp add: gen_inv_def root_class_def listed_def)
next
  case (register_mutable s M R r s')
  then show ?case using register_mutable_step [of short s M R alloc r] by auto
next
  case (remove_mutable s M R r s')
  then show ?case using remove_mutable_step [of short s M R r] by auto
next
  case (register s M R r s')
  then show ?case using register_step [of short s M R alloc r] by auto
next
  case (remove s M R r s')
  then show ?case using remove_step [of short s M R r] by auto
next
  case (modify s M R r v s')
  then show ?case using modify_step [of short s M R alloc r v] by auto
next
  case (mutate s M R m)
  then have inv: "gen_inv short s M R" by blast
  have "root_class (s\<lparr>gr_mem := m\<rparr>) R r = root_class s R r" for r
    using mutate.hyps(2) by (simp add: root_class_def classify_gc_root_def Is_young_def)
  then show ?case using inv by (simp add: gen_inv_def lists_ok_def)
next
  case (minor s M R g d s')
  then show ?case using minor_step [of short s M R alloc g "()"] by auto
qed


subsection \<open>Theorems\<close>

text \<open>
  C25: a scan of the global roots returns. It calls the action on every registered root of the three lists that is not
  marked as deleted, in the order of the lists and of addresses within a list, and on no other; it drops the marked entries and
  leaves the other entries, the mutex and the iteration counter as they were.
\<close>

theorem global_roots_scan:
  fixes d :: 'd
  assumes "lists_ok s" "\<not> roots_mutex s"
  shows "\<exists>s'. caml_scan_global_roots (mem_action g) d s =
      Some (fst (visit g (live Roots s @ live Young_roots s @ live Old_roots s) (d, gr_mem s)), s') \<and>
    gr_mem s' = snd (visit g (live Roots s @ live Young_roots s @ live Old_roots s) (d, gr_mem s)) \<and>
    lists_ok s' \<and> same_control s s' \<and> (\<forall>l. roots l s' = present (roots l s))"
  by (rule caml_scan_global_roots_mem [OF assms])

definition sample_roots :: "mem \<Rightarrow> globroots" where
  "sample_roots m = \<lparr>caml_global_roots = empty_skiplist, caml_global_roots_young = empty_skiplist, caml_global_roots_old = empty_skiplist,
     roots_mutex = False, iterating_roots = 0, gr_mem = m, caml_minor_heaps_start = 0x10000, caml_minor_heaps_end = 0x20000\<rparr>"

abbreviation sample_alloc :: cell_alloc where "sample_alloc \<equiv> \<lambda>sk. Some (new_ptr sk)"

lemma sample_roots_list: "get_list l (sample_roots m) = empty_skiplist"
  by (simp add: get_list_def sample_roots_def split: rootlist.split)

lemma sample_roots_ok:
  "lists_ok (sample_roots m)" "\<not> roots_mutex (sample_roots m)" "iterating_roots (sample_roots m) = 0" "roots l (sample_roots m) = Map.empty"
  by (simp_all add: lists_ok_def sample_roots_list empty_skiplist_inv skip_abs_empty) (simp_all add: sample_roots_def)

text \<open>A state with a mutable root at 0x200 and a generational root at 0x100, which holds a young block.\<close>

definition sample_root_mem :: mem where
  "sample_root_mem = store64 (store64 (\<lambda>a. 0) 0x100 0x18000) 0x200 0x18040"

lemma sample_root_loads: "load64 sample_root_mem 0x100 = 0x18000" "load64 sample_root_mem 0x200 = 0x18040"
  by (simp_all add: sample_root_mem_def load64_store64 aligned_store)

lemma sample_gen_run:
  "\<exists>s. gen_run sample_alloc short s {0x200} {0x100} \<and> same_env (sample_roots sample_root_mem) s \<and>
    live Roots s = [0x200] \<and> live Young_roots s = [0x100] \<and> live Old_roots s = [] \<and> roots Young_roots s = [0x100 \<mapsto> ROOT_PRESENT]"
proof -
  let ?s = "sample_roots sample_root_mem"
  have run: "gen_run sample_alloc short ?s {} {}" by (rule gen_run.start) (simp_all add: sample_roots_ok)
  have "classify_gc_root ?s (load64 (gr_mem ?s) 0x100) = YOUNG"
    by (simp add: sample_roots_def sample_root_loads classify_gc_root_def Is_block_def Is_young_def)
  then have "caml_register_generational_global_root sample_alloc 0x100 ?s = caml_insert_global_root sample_alloc Young_roots 0x100 ?s"
    by (simp add: caml_register_generational_global_root_def)
  with caml_insert_global_root_ok [OF sample_roots_ok(1) fresh_alloc_new_ptr sample_roots_ok(2), of Young_roots "0x100" sample_root_mem] obtain s1 where
    s1: "caml_register_generational_global_root sample_alloc 0x100 ?s = Some (Inr s1)" "same_env ?s s1" "lists_ok s1"
    "roots Young_roots s1 = [0x100 \<mapsto> ROOT_PRESENT]" "roots Roots s1 = Map.empty" "roots Old_roots s1 = Map.empty"
    by (auto simp: sample_roots_ok)
  have run1: "gen_run sample_alloc short s1 {} {0x100}" by (rule gen_run.register [OF run _ _ s1(1)]) simp_all
  have "\<not> roots_mutex s1" using s1(2) sample_roots_ok(2) by (simp add: same_env_def)
  from caml_insert_global_root_ok [OF s1(3) fresh_alloc_new_ptr this, of Roots "0x200"] obtain s2 where
    s2: "caml_register_global_root sample_alloc 0x200 s1 = Some (Inr s2)" "same_env s1 s2"
    "\<And>l. roots l s2 = (if l = Roots then (roots Roots s1)(0x200 \<mapsto> ROOT_PRESENT) else roots l s1)"
    unfolding caml_register_global_root_def by metis
  have "gen_run sample_alloc short s2 {0x200} {0x100}" using gen_run.register_mutable [OF run1 s2(1)] by simp
  moreover have "present [r \<mapsto> ROOT_PRESENT] = [r \<mapsto> ROOT_PRESENT]" "present Map.empty = Map.empty" for r
    by (simp_all add: present_def ROOT_PRESENT_def ROOT_DELETED_def fun_eq_iff)
  then have "live Roots s2 = [0x200]" "live Young_roots s2 = [0x100]" "live Old_roots s2 = []"
    by (simp_all add: live_def s2(3) s1)
  moreover have "same_env ?s s2" "roots Young_roots s2 = [0x100 \<mapsto> ROOT_PRESENT]" using s1(2,4) s2(2,3) by (simp_all add: same_env_def)
  ultimately show ?thesis by blast
qed

theorem global_roots_scan_witness:
  "\<exists>s s'. live Roots s = [0x200] \<and> live Young_roots s = [0x100] \<and>
    caml_scan_global_roots (mem_action (\<lambda>d v r m. (d @ [(r, v)], m))) [] s = Some ([(0x200, 0x18040), (0x100, 0x18000)], s')"
proof -
  obtain s where s: "gen_run sample_alloc False s {0x200} {0x100}" "same_env (sample_roots sample_root_mem) s"
    "live Roots s = [0x200]" "live Young_roots s = [0x100]" "live Old_roots s = []" using sample_gen_run by blast
  note i = gen_invD [OF gen_run_inv [OF s(1) fresh_alloc_new_ptr]]
  have "gr_mem s = sample_root_mem" using s(2) by (simp add: same_env_def sample_roots_def)
  with global_roots_scan [OF i(1,2), of "\<lambda>d v r m. (d @ [(r, v)], m)" "[]"] s(3-5) show ?thesis
    by (auto simp: visit_def sample_root_loads)
qed

text \<open>
  C23: in every state that a program reaches by registering and removing mutable and generational roots, by modifying generational
  roots, by writing to other memory and by minor collections, a registered generational root that holds a young block is in the list of young
  roots, one that holds another block is in one of the two lists, and one that holds no block, or is not registered, is not in the list of young
  roots. When no minor collection stores an immediate in place of a young block, the root is moreover in no other list: the
  invariant that \<open>globroots.c\<close> states. Every registration, removal and modification returns and leads to such a state again.
\<close>

theorem generational_roots_invariant:
  assumes "gen_run alloc short s M R" "fresh_alloc alloc"
  shows "(case root_class s R r of
        YOUNG \<Rightarrow> roots Young_roots s r = Some ROOT_PRESENT \<and> (short \<or> roots Old_roots s r = None)
      | OLD \<Rightarrow> if short then roots Young_roots s r = Some ROOT_PRESENT \<or> roots Old_roots s r = Some ROOT_PRESENT
               else (roots Young_roots s r = Some ROOT_PRESENT) \<noteq> (roots Old_roots s r = Some ROOT_PRESENT)
      | UNTRACKED \<Rightarrow> roots Young_roots s r = None \<and> (short \<or> roots Old_roots s r = None)) \<and>
    (r \<notin> R \<longrightarrow> 8 dvd unat r \<longrightarrow>
       (\<exists>s'. caml_register_generational_global_root alloc r s = Some (Inr s') \<and> gen_run alloc short s' M (insert r R))) \<and>
    (r \<in> R \<longrightarrow> (\<exists>s'. caml_remove_generational_global_root r s = Some s' \<and> gen_run alloc short s' M (R - {r})) \<and>
       (\<exists>s'. caml_modify_generational_global_root alloc r v s = Some (Inr s') \<and> gen_run alloc short s' M R \<and> load64 (gr_mem s') r = v))"
proof -
  note inv = gen_run_inv [OF assms]
  have "listed short (root_class s R r) (roots Young_roots s r) (roots Old_roots s r)" by (rule gen_invD(5) [OF inv])
  then show ?thesis
    using register_step [OF inv assms(2), of r] remove_step [OF inv, of r] modify_step [OF inv assms(2), of r v]
      gen_run.register [OF assms(1)] gen_run.remove [OF assms(1)] gen_run.modify [OF assms(1)]
    by (auto simp: listed_def split: gc_root_class.splits)
qed

lemma sample_root_young:
  "same_env (sample_roots sample_root_mem) s \<Longrightarrow> classify_gc_root s (load64 (gr_mem s) 0x100) = YOUNG"
  "same_env (sample_roots sample_root_mem) s \<Longrightarrow> classify_gc_root s (load64 (gr_mem s) 0x200) = YOUNG"
  by (simp_all add: classify_gc_root_def Is_block_def Is_young_def same_env_def sample_roots_def sample_root_loads)

theorem generational_roots_invariant_witness:
  "\<exists>s. gen_run sample_alloc False s {0x200} {0x100} \<and> root_class s {0x100} 0x100 = YOUNG \<and> roots Old_roots s 0x100 = None \<and>
    (\<exists>s'. caml_modify_generational_global_root sample_alloc 0x100 (Val_long 5) s = Some (Inr s') \<and> load64 (gr_mem s') 0x100 = Val_long 5)"
proof -
  obtain s where s: "gen_run sample_alloc False s {0x200} {0x100}" "same_env (sample_roots sample_root_mem) s"
    using sample_gen_run by blast
  have "root_class s {0x100} 0x100 = YOUNG" using sample_root_young(1) [OF s(2)] by (simp add: root_class_def)
  with generational_roots_invariant [OF s(1) fresh_alloc_new_ptr, of "0x100" "Val_long 5"] s(1) show ?thesis by auto
qed

text \<open>
  C24: in such a state the scan of a minor collection, with an action that replaces each young value in a root by a value that is not young
  (immediates included), returns. The roots it visits are all the mutable roots, each once, and generational roots, among them every one that holds a young
  value; the memory is what the action makes of it on these roots in turn. Afterwards no registered root of either kind holds a young value,
  and the state is again one of the reachable ones.
\<close>

theorem minor_roots_complete:
  fixes g :: "unit \<Rightarrow> val \<Rightarrow> addr \<Rightarrow> mem \<Rightarrow> unit \<times> mem"
  assumes "gen_run alloc short s M R" "fresh_alloc alloc" "promotes short s (M \<union> R) g"
  shows "\<exists>s'. caml_scan_global_young_roots alloc (mem_action g) () s = Some (Inr ((), s')) \<and>
    gr_mem s' = snd (visit g (live Roots s @ live Young_roots s) ((), gr_mem s)) \<and> gen_run alloc short s' M R \<and>
    set (live Roots s) = M \<and> distinct (live Roots s) \<and>
    (\<forall>r\<in>R. classify_gc_root s (load64 (gr_mem s) r) = YOUNG \<longrightarrow> r \<in> set (live Young_roots s)) \<and>
    (\<forall>r\<in>M \<union> R. classify_gc_root s' (load64 (gr_mem s') r) \<noteq> YOUNG)"
proof -
  note inv = gen_run_inv [OF assms(1,2)]
  obtain s' where s': "caml_scan_global_young_roots alloc (mem_action g) () s = Some (Inr ((), s'))"
    "gr_mem s' = snd (visit g (live Roots s @ live Young_roots s) ((), gr_mem s))"
    "\<forall>r\<in>M \<union> R. classify_gc_root s' (load64 (gr_mem s') r) \<noteq> YOUNG"
    using minor_step [OF inv assms(2,3), of "()"] by auto
  moreover have "distinct (live Roots s)" by (simp add: live_def)
  ultimately show ?thesis using gen_run.minor [OF assms(1,3) s'(1)] gen_inv_live(1) [OF inv] gen_inv_young_live [OF inv] by auto
qed

text \<open>An action that promotes the young values of the two roots, the second to an immediate.\<close>

abbreviation sample_promote :: "unit \<Rightarrow> val \<Rightarrow> addr \<Rightarrow> mem \<Rightarrow> unit \<times> mem" where
  "sample_promote \<equiv> \<lambda>d v r m. (d, if r \<in> {0x100, 0x200} \<and> Is_block v \<and> v < 0x20000 \<and> 0x10000 < v
     then store64 m r (if r = 0x100 then 0x40000 else Val_long 3) else m)"

theorem minor_roots_complete_witness:
  "\<exists>s s'. gen_run sample_alloc True s {0x200} {0x100} \<and>
    (\<forall>r\<in>{0x100, 0x200}. classify_gc_root s (load64 (gr_mem s) r) = YOUNG) \<and>
    caml_scan_global_young_roots sample_alloc (mem_action sample_promote) () s = Some (Inr ((), s')) \<and>
    (\<forall>r\<in>{0x100, 0x200}. classify_gc_root s' (load64 (gr_mem s') r) \<noteq> YOUNG)"
proof -
  obtain s where s: "gen_run sample_alloc True s {0x200} {0x100}" "same_env (sample_roots sample_root_mem) s"
    using sample_gen_run by blast
  have cl: "classify_gc_root s v = (if \<not> Is_block v then UNTRACKED else if v < 0x20000 \<and> 0x10000 < v then YOUNG else OLD)" for v
    using s(2) by (simp add: classify_gc_root_def Is_young_def same_env_def sample_roots_def)
  have new: "Is_block 0x40000" "\<not> Is_block (Val_long 3)" by (simp_all add: Is_block_def Val_long_def)
  have other: "load64 (store64 m 0x100 v) 0x200 = load64 m 0x200" "load64 (store64 m 0x200 v) 0x100 = load64 m 0x100" for m v
    by (simp_all add: aligned_store)
  have "promotes True s ({0x200} \<union> {0x100}) sample_promote"
    unfolding promotes_def Let_def
  proof (intro allI)
    fix d :: unit and r m
    let ?m = "snd (sample_promote d (load64 m r) r m)"
    consider "r = 0x100" | "r = 0x200" | "r \<notin> {0x100, 0x200}" by blast
    then show "(\<forall>r'\<in>{0x200} \<union> {0x100}. r' \<noteq> r \<longrightarrow> load64 ?m r' = load64 m r') \<and>
      (r \<in> {0x200} \<union> {0x100} \<longrightarrow> (if classify_gc_root s (load64 m r) = YOUNG
         then classify_gc_root s (load64 ?m r) \<in> (if True then {OLD, UNTRACKED} else {OLD}) else load64 ?m r = load64 m r))"
      by cases (simp_all add: cl new other load64_store64)
  qed
  from minor_roots_complete [OF s(1) fresh_alloc_new_ptr this] obtain s' where
    "caml_scan_global_young_roots sample_alloc (mem_action sample_promote) () s = Some (Inr ((), s'))"
    "\<forall>r\<in>{0x200} \<union> {0x100}. classify_gc_root s' (load64 (gr_mem s') r) \<noteq> YOUNG" by blast
  then show ?thesis using s(1) sample_root_young [OF s(2)] by blast
qed

text \<open>
  C39: when the action of a minor scan leaves an immediate value in a young generational root, as the collector does when
  it short-circuits a forced lazy value, the root is moved to the list of old roots, and its removal then does nothing: the
  next scan still reads and updates the address.
\<close>

theorem removed_root_kept:
  fixes d :: 'd
  assumes "lists_ok s" "\<not> roots_mutex s" "fresh_alloc alloc" "roots Young_roots s r = Some ROOT_PRESENT"
    and "\<not> Is_block (load64 (snd (visit g (live Roots s @ live Young_roots s) (d, gr_mem s))) r)"
  shows "\<exists>d' s1. caml_scan_global_young_roots alloc (mem_action g) d s = Some (Inr (d', s1)) \<and>
    caml_remove_generational_global_root r s1 = Some s1 \<and> r \<in> set (live Old_roots s1)"
proof -
  obtain ps where rep: "skip_rep (get_list Young_roots s) ps" using lists_okD [OF assms(1)] by (auto simp: skip_inv_def)
  have "present (roots Young_roots s) r = Some ROOT_PRESENT"
    using assms(4) by (simp add: present_Some ROOT_PRESENT_def ROOT_DELETED_def)
  then have "r \<in> set (live Young_roots s)" unfolding live_rep [OF rep] present_rep [OF rep] by auto
  moreover obtain d' s1 where s1: "caml_scan_global_young_roots alloc (mem_action g) d s = Some (Inr (d', s1))"
    "gr_mem s1 = snd (visit g (live Roots s @ live Young_roots s) (d, gr_mem s))" "lists_ok s1"
    "roots Old_roots s1 = (\<lambda>r. if r \<in> set (live Young_roots s) then Some ROOT_PRESENT else roots Old_roots s r)"
    using caml_scan_global_young_roots_mem [OF assms(1-3), of g d] by blast
  ultimately have old: "present (roots Old_roots s1) r = Some ROOT_PRESENT"
    by (simp add: present_Some ROOT_PRESENT_def ROOT_DELETED_def)
  obtain qs where rep1: "skip_rep (get_list Old_roots s1) qs" using lists_okD [OF s1(3)] by (auto simp: skip_inv_def)
  from old have "r \<in> set (live Old_roots s1)" unfolding live_rep [OF rep1] present_rep [OF rep1] by auto
  moreover have "caml_remove_generational_global_root r s1 = Some s1"
    using assms(5) s1(2) by (simp add: caml_remove_generational_global_root_def classify_gc_root_def)
  ultimately show ?thesis using s1(1) by blast
qed

theorem removed_root_kept_witness:
  "\<exists>s d' s1. roots Young_roots s 0x100 = Some ROOT_PRESENT \<and>
    caml_scan_global_young_roots sample_alloc (mem_action (\<lambda>d v r m. (d, store64 m r (Val_long 0)))) () s = Some (Inr (d', s1)) \<and>
    caml_remove_generational_global_root 0x100 s1 = Some s1 \<and> 0x100 \<in> set (live Old_roots s1)"
proof -
  obtain s where s: "gen_run sample_alloc False s {0x200} {0x100}" "live Roots s = [0x200]" "live Young_roots s = [0x100]"
    "roots Young_roots s = [0x100 \<mapsto> ROOT_PRESENT]" using sample_gen_run by blast
  note i = gen_invD [OF gen_run_inv [OF s(1) fresh_alloc_new_ptr]]
  have "\<not> Is_block (load64 (snd (visit (\<lambda>d v r m. (d, store64 m r (Val_long 0)))
      (live Roots s @ live Young_roots s) ((), gr_mem s))) 0x100)"
    unfolding s(2,3) by (simp add: visit_def load64_store64 Is_block_def Val_long_def)
  with removed_root_kept [OF i(1,2) fresh_alloc_new_ptr _ this] s(4) show ?thesis by (intro exI [of _ s]) simp
qed

end
