(* ===== verification/Blocks.thy ===== *)
theory Blocks
  imports Prelude
begin

text \<open>
  The contract of the runtime's block-wise message digests (\<open>runtime/md5.c\<close>, \<open>runtime/blake2.c\<close>): a chaining state that absorbs blocks of
  \<open>bs\<close> bytes, and a buffer of bytes that wait for their block. A block is absorbed as soon as \<open>lim\<close> bytes are waiting. MD5 absorbs
  a block when it is full, BLAKE2 only when more data follow, since its last block is special.
\<close>

locale block_stream =
  fixes absorb :: "'s \<Rightarrow> u8 list \<Rightarrow> 's"
    and bs :: nat
    and lim :: nat
  assumes bs_pos: "0 < bs"
    and bs_lim: "bs \<le> lim"
begin

function feed :: "'s \<Rightarrow> u8 list \<Rightarrow> 's \<times> u8 list" where
  "feed st xs = (if lim \<le> length xs then feed (absorb st (take bs xs)) (drop bs xs) else (st, xs))"
  by pat_completeness auto
termination
  by (relation "measure (\<lambda>(st, xs). length xs)") (use bs_pos bs_lim in auto)

declare feed.simps [simp del]

lemma feed_short: "length xs < lim \<Longrightarrow> feed st xs = (st, xs)"
  by (simp add: feed.simps)

lemma feed_long: "lim \<le> length xs \<Longrightarrow> feed st xs = feed (absorb st (take bs xs)) (drop bs xs)"
  by (subst feed.simps) simp

lemma feed_rest: "length (snd (feed st xs)) < lim"
proof (induction st xs rule: feed.induct)
  case (1 st xs)
  then show ?case by (cases "lim \<le> length xs") (simp_all add: feed_long feed_short)
qed

text \<open>Feeding a message in two parts is feeding it at once.\<close>

lemma feed_append: "(case feed st xs of (st', rest) \<Rightarrow> feed st' (rest @ ys)) = feed st (xs @ ys)"
proof (induction st xs rule: feed.induct)
  case (1 st xs)
  show ?case
  proof (cases "lim \<le> length xs")
    case True
    then have "bs \<le> length xs" using bs_lim by simp
    then show ?thesis using 1 True by (simp add: feed_long)
  qed (simp add: feed_short)
qed

definition feeds :: "'s \<times> u8 list \<Rightarrow> u8 list list \<Rightarrow> 's \<times> u8 list" where
  "feeds a yss = fold (\<lambda>ys (st, rest). feed st (rest @ ys)) yss a"

lemma feeds_concat: "length rest < lim \<Longrightarrow> feeds (st, rest) yss = feed st (rest @ concat yss)"
proof (induction yss arbitrary: st rest)
  case Nil
  then show ?case by (simp add: feeds_def feed_short)
next
  case (Cons ys yss)
  obtain st' rest' where f: "feed st (rest @ ys) = (st', rest')" by force
  then have "length rest' < lim" using feed_rest [where st = st and xs = "rest @ ys"] by simp
  from Cons.IH [OF this, where st = st'] show ?case
    using f feed_append [where st = st and xs = "rest @ ys" and ys = "concat yss"] by (simp add: feeds_def)
qed

end

text \<open>The blocks of a message whose length is a multiple of the block size.\<close>

function chop :: "nat \<Rightarrow> 'a list \<Rightarrow> 'a list list" where
  "chop n xs = (if n = 0 \<or> xs = [] then [] else take n xs # chop n (drop n xs))"
  by pat_completeness auto
termination by (relation "measure (\<lambda>(n, xs). length xs)") auto

declare chop.simps [simp del]

context block_stream
begin

lemma feed_length:
  assumes "lim \<le> bs"
  shows "length (snd (feed st xs)) = length xs mod bs"
  using assms
proof (induction st xs rule: feed.induct)
  case (1 st xs)
  show ?case
  proof (cases "lim \<le> length xs")
    case True
    then have "length xs mod bs = length (drop bs xs) mod bs" using bs_lim by (simp add: le_mod_geq)
    with 1(1) [OF True 1(2)] show ?thesis by (simp add: feed_long [OF True])
  next
    case False
    then show ?thesis using 1(2) bs_lim feed_short by simp
  qed
qed

lemma feed_chop:
  assumes "length xs mod bs = 0" "lim \<le> bs"
  shows "feed st xs = (fold (\<lambda>b s. absorb s b) (chop bs xs) st, [])"
  using assms
proof (induction st xs rule: feed.induct)
  case (1 st xs)
  show ?case
  proof (cases "lim \<le> length xs")
    case True
    then have "length (drop bs xs) mod bs = 0" using 1(2,3) bs_lim by (simp add: mod_if split: if_splits)
    note step = 1(1) [OF True this 1(3)]
    have "chop bs xs = take bs xs # chop bs (drop bs xs)" using True bs_pos bs_lim by (subst chop.simps) auto
    then show ?thesis by (simp add: feed_long [OF True] step)
  next
    case False
    moreover from this have "xs = []" using 1(2,3) by auto
    ultimately show ?thesis using feed_short by (simp add: chop.simps)
  qed
qed

end

text \<open>\<open>memcpy\<close> of \<open>ys\<close> into the array \<open>xs\<close> at the index \<open>i\<close>.\<close>

definition memcpy :: "'a list \<Rightarrow> nat \<Rightarrow> 'a list \<Rightarrow> 'a list" where
  "memcpy xs i ys = take i xs @ ys @ drop (i + length ys) xs"

lemma length_memcpy [simp]: "i + length ys \<le> length xs \<Longrightarrow> length (memcpy xs i ys) = length xs"
  by (simp add: memcpy_def)

lemma take_memcpy: "i \<le> length xs \<Longrightarrow> take (i + length ys) (memcpy xs i ys) = take i xs @ ys"
  by (simp add: memcpy_def)


text \<open>The carry of an addition on words, as the sum of the counts shows it.\<close>

lemma carry_iff:
  fixes a b :: nat
  assumes "0 < k"
  shows "(if (a + b) mod k < a mod k then 1 else 0) = (a mod k + b mod k) div k"
proof -
  have gen: "(if (x + y) mod k < x then 1 else 0) = (x + y) div k" if "x < k" "y < k" for x y
  proof (cases "x + y < k")
    case False
    then show ?thesis using that by (simp add: le_div_geq le_mod_geq)
  qed simp
  show ?thesis using gen [of "a mod k" "b mod k"] assms by (simp add: mod_add_eq)
qed

lemma word_carry:
  "(of_nat (a div 2 ^ LENGTH('a)) :: 'a::len word) + (if of_nat a + of_nat b < (of_nat a :: 'a word) then 1 else 0) +
    of_nat (b div 2 ^ LENGTH('a)) = of_nat ((a + b) div 2 ^ LENGTH('a))"
proof -
  let ?c = "of_nat a + of_nat b < (of_nat a :: 'a word)"
  have "?c \<longleftrightarrow> (a + b) mod 2 ^ LENGTH('a) < a mod 2 ^ LENGTH('a)"
    by (simp add: word_less_nat_alt unat_of_nat take_bit_eq_mod flip: of_nat_add)
  then have "(if ?c then 1 else 0) = (a mod 2 ^ LENGTH('a) + b mod 2 ^ LENGTH('a)) div 2 ^ LENGTH('a)"
    using carry_iff [of "2 ^ LENGTH('a)" a b] by (simp only: zero_less_power zero_less_numeral)
  then have "(a + b) div 2 ^ LENGTH('a) = a div 2 ^ LENGTH('a) + (if ?c then 1 else 0) + b div 2 ^ LENGTH('a)"
    using div_add1_eq [of a b "2 ^ LENGTH('a)"] by linarith
  then show ?thesis by (simp only: of_nat_add of_nat_1 of_nat_0 split: if_split) simp
qed

lemma counter_carry:
  assumes "n < 2 ^ 64"
  shows "(if of_nat (t + n) < (of_nat n :: u64) then of_nat (t div 2 ^ 64) + 1 else of_nat (t div 2 ^ 64)) = (of_nat ((t + n) div 2 ^ 64) :: u64)"
proof -
  have L: "LENGTH(64) = 64" by simp
  have s: "(of_nat n + of_nat t :: u64) = of_nat (t + n)" by (simp add: add.commute)
  have n: "of_nat (n div 2 ^ 64) = (0 :: u64)" using assms by simp
  show ?thesis using word_carry [where 'a = 64, of n t] unfolding L s n add.commute [of n t]
    by (cases "of_nat (t + n) < (of_nat n :: u64)") (simp_all only: if_True if_False add_0_left add_0_right add.commute)
qed

end
