(* ===== verification/Md5.thy ===== *)
theory Md5
  imports Blocks Alloc
begin

text \<open>
  The MD5 message digest (\<open>runtime/md5.c\<close>): the transformation of a block, the buffered update, the final padding, and the digest of a
  substring. The arrays of the context are lists; data that are passed with their length are a list of bytes. The reference is the algorithm of
  RFC 1321. The digest of a channel's contents is not modelled.
\<close>

unbundle bit_operations_syntax

subsection \<open>The context and the transformation\<close>

record MD5Context =
  md5_buf :: "u32 list"
  md5_bits :: "u32 list"
  md5_in :: "u8 list"

definition caml_MD5Init :: "MD5Context \<Rightarrow> MD5Context" where
  "caml_MD5Init ctx = ctx\<lparr>md5_buf := [0x67452301, 0xefcdab89, 0x98badcfe, 0x10325476], md5_bits := [0, 0]\<rparr>"

definition F1 :: "u32 \<Rightarrow> u32 \<Rightarrow> u32 \<Rightarrow> u32" where "F1 x y z = z XOR (x AND (y XOR z))"
definition F2 :: "u32 \<Rightarrow> u32 \<Rightarrow> u32 \<Rightarrow> u32" where "F2 x y z = F1 z x y"
definition F3 :: "u32 \<Rightarrow> u32 \<Rightarrow> u32 \<Rightarrow> u32" where "F3 x y z = x XOR y XOR z"
definition F4 :: "u32 \<Rightarrow> u32 \<Rightarrow> u32 \<Rightarrow> u32" where "F4 x y z = y XOR (x OR NOT z)"

definition MD5STEP :: "(u32 \<Rightarrow> u32 \<Rightarrow> u32 \<Rightarrow> u32) \<Rightarrow> u32 \<Rightarrow> u32 \<Rightarrow> u32 \<Rightarrow> u32 \<Rightarrow> u32 \<Rightarrow> nat \<Rightarrow> u32" where
  "MD5STEP f w x y z data s =
     (let w = w + (f x y z + data); w = push_bit s w OR drop_bit (32 - s) w in w + x)"

text \<open>Four consecutive steps of the source, which rotate the registers once, with the index, constant and shift of each.\<close>

definition MD5STEP4 :: "(u32 \<Rightarrow> u32 \<Rightarrow> u32 \<Rightarrow> u32) \<Rightarrow> u32 list \<Rightarrow> nat \<times> u32 \<times> nat \<Rightarrow> nat \<times> u32 \<times> nat \<Rightarrow> nat \<times> u32 \<times> nat \<Rightarrow>
    nat \<times> u32 \<times> nat \<Rightarrow> u32 \<times> u32 \<times> u32 \<times> u32 \<Rightarrow> u32 \<times> u32 \<times> u32 \<times> u32" where
  "MD5STEP4 f inn = (\<lambda>(i0, k0, s0) (i1, k1, s1) (i2, k2, s2) (i3, k3, s3) (a, b, c, d).
     let a = MD5STEP f a b c d (inn ! i0 + k0) s0;
         d = MD5STEP f d a b c (inn ! i1 + k1) s1;
         c = MD5STEP f c d a b (inn ! i2 + k2) s2;
         b = MD5STEP f b c d a (inn ! i3 + k3) s3
     in (a, b, c, d))"

definition caml_MD5Transform :: "u32 list \<Rightarrow> u32 list \<Rightarrow> u32 list" where
  "caml_MD5Transform buf inn =
     (let regs = (buf ! 0, buf ! 1, buf ! 2, buf ! 3);
          regs = MD5STEP4 F1 inn (0, 0xd76aa478, 7) (1, 0xe8c7b756, 12) (2, 0x242070db, 17) (3, 0xc1bdceee, 22) regs;
          regs = MD5STEP4 F1 inn (4, 0xf57c0faf, 7) (5, 0x4787c62a, 12) (6, 0xa8304613, 17) (7, 0xfd469501, 22) regs;
          regs = MD5STEP4 F1 inn (8, 0x698098d8, 7) (9, 0x8b44f7af, 12) (10, 0xffff5bb1, 17) (11, 0x895cd7be, 22) regs;
          regs = MD5STEP4 F1 inn (12, 0x6b901122, 7) (13, 0xfd987193, 12) (14, 0xa679438e, 17) (15, 0x49b40821, 22) regs;
          regs = MD5STEP4 F2 inn (1, 0xf61e2562, 5) (6, 0xc040b340, 9) (11, 0x265e5a51, 14) (0, 0xe9b6c7aa, 20) regs;
          regs = MD5STEP4 F2 inn (5, 0xd62f105d, 5) (10, 0x02441453, 9) (15, 0xd8a1e681, 14) (4, 0xe7d3fbc8, 20) regs;
          regs = MD5STEP4 F2 inn (9, 0x21e1cde6, 5) (14, 0xc33707d6, 9) (3, 0xf4d50d87, 14) (8, 0x455a14ed, 20) regs;
          regs = MD5STEP4 F2 inn (13, 0xa9e3e905, 5) (2, 0xfcefa3f8, 9) (7, 0x676f02d9, 14) (12, 0x8d2a4c8a, 20) regs;
          regs = MD5STEP4 F3 inn (5, 0xfffa3942, 4) (8, 0x8771f681, 11) (11, 0x6d9d6122, 16) (14, 0xfde5380c, 23) regs;
          regs = MD5STEP4 F3 inn (1, 0xa4beea44, 4) (4, 0x4bdecfa9, 11) (7, 0xf6bb4b60, 16) (10, 0xbebfbc70, 23) regs;
          regs = MD5STEP4 F3 inn (13, 0x289b7ec6, 4) (0, 0xeaa127fa, 11) (3, 0xd4ef3085, 16) (6, 0x04881d05, 23) regs;
          regs = MD5STEP4 F3 inn (9, 0xd9d4d039, 4) (12, 0xe6db99e5, 11) (15, 0x1fa27cf8, 16) (2, 0xc4ac5665, 23) regs;
          regs = MD5STEP4 F4 inn (0, 0xf4292244, 6) (7, 0x432aff97, 10) (14, 0xab9423a7, 15) (5, 0xfc93a039, 21) regs;
          regs = MD5STEP4 F4 inn (12, 0x655b59c3, 6) (3, 0x8f0ccc92, 10) (10, 0xffeff47d, 15) (1, 0x85845dd1, 21) regs;
          regs = MD5STEP4 F4 inn (8, 0x6fa87e4f, 6) (15, 0xfe2ce6e0, 10) (6, 0xa3014314, 15) (13, 0x4e0811a1, 21) regs;
          regs = MD5STEP4 F4 inn (4, 0xf7537e82, 6) (11, 0xbd3af235, 10) (2, 0x2ad7d2bb, 15) (9, 0xeb86d391, 21) regs
      in case regs of (a, b, c, d) \<Rightarrow> [buf ! 0 + a, buf ! 1 + b, buf ! 2 + c, buf ! 3 + d])"

subsection \<open>Update and final padding\<close>

text \<open>The bytes of a 32-bit integer in little-endian order, and the 32-bit integers of an array of bytes.\<close>

definition le32 :: "u32 \<Rightarrow> u8 list" where
  "le32 w = [ucast w, ucast (drop_bit 8 w), ucast (drop_bit 16 w), ucast (drop_bit 24 w)]"

fun words_of :: "u8 list \<Rightarrow> u32 list" where
  "words_of (b0 # b1 # b2 # b3 # bs) =
     (ucast b0 OR push_bit 8 (ucast b1) OR push_bit 16 (ucast b2) OR push_bit 24 (ucast b3)) # words_of bs"
| "words_of bs = []"

function md5_chunks :: "MD5Context \<Rightarrow> u8 list \<Rightarrow> MD5Context" where
  "md5_chunks ctx data =
     (if 64 \<le> length data then
        let inb = memcpy (md5_in ctx) 0 (take 64 data) in
        md5_chunks (ctx\<lparr>md5_in := inb, md5_buf := caml_MD5Transform (md5_buf ctx) (words_of inb)\<rparr>) (drop 64 data)
      else ctx\<lparr>md5_in := memcpy (md5_in ctx) 0 data\<rparr>)"
  by pat_completeness auto
termination by (relation "measure (\<lambda>(ctx, data). length data)") auto

declare md5_chunks.simps [simp del]

definition caml_MD5Update :: "MD5Context \<Rightarrow> u8 list \<Rightarrow> MD5Context" where
  "caml_MD5Update ctx data =
     (let len = (of_nat (length data) :: u64);
          t = md5_bits ctx ! 0;
          b0 = t + push_bit 3 (ucast len);
          b1 = (if b0 < t then md5_bits ctx ! 1 + 1 else md5_bits ctx ! 1);
          ctx = ctx\<lparr>md5_bits := [b0, b1 + ucast (drop_bit 29 len)]\<rparr>;
          t = unat (drop_bit 3 t AND 0x3f)
      in if t \<noteq> 0 then
           if length data < 64 - t then ctx\<lparr>md5_in := memcpy (md5_in ctx) t data\<rparr>
           else
             let inb = memcpy (md5_in ctx) t (take (64 - t) data) in
             md5_chunks (ctx\<lparr>md5_in := inb, md5_buf := caml_MD5Transform (md5_buf ctx) (words_of inb)\<rparr>) (drop (64 - t) data)
         else md5_chunks ctx data)"

text \<open>The digest, and the context, which is cleared.\<close>

definition caml_MD5Final :: "MD5Context \<Rightarrow> u8 list \<times> MD5Context" where
  "caml_MD5Final ctx =
     (let count = unat (drop_bit 3 (md5_bits ctx ! 0) AND 0x3f);
          inb = (md5_in ctx)[count := 0x80];
          p = count + 1;
          count = 64 - 1 - count;
          ctx = (if count < 8 then
                   let inb = memcpy inb p (replicate count 0) in
                   ctx\<lparr>md5_buf := caml_MD5Transform (md5_buf ctx) (words_of inb), md5_in := memcpy inb 0 (replicate 56 0)\<rparr>
                 else ctx\<lparr>md5_in := memcpy inb p (replicate (count - 8) 0)\<rparr>);
          inb = memcpy (md5_in ctx) 56 (le32 (md5_bits ctx ! 0));
          inb = memcpy inb 60 (le32 (md5_bits ctx ! 1));
          buf = caml_MD5Transform (md5_buf ctx) (words_of inb)
      in (concat (map le32 buf), \<lparr>md5_buf = replicate 4 0, md5_bits = replicate 2 0, md5_in = replicate 64 0\<rparr>))"

definition caml_md5_block :: "MD5Context \<Rightarrow> u8 list \<Rightarrow> u8 list" where
  "caml_md5_block ctx data = fst (caml_MD5Final (caml_MD5Update (caml_MD5Init ctx) data))"

definition read_bytes :: "mem \<Rightarrow> addr \<Rightarrow> nat \<Rightarrow> u8 list" where
  "read_bytes m a n = map (\<lambda>i. m (a + of_nat i)) [0..<n]"

definition caml_md5_string :: "heap \<Rightarrow> MD5Context \<Rightarrow> val \<Rightarrow> val \<Rightarrow> val \<Rightarrow> (heap \<times> val) option" where
  "caml_md5_string h ctx str ofs len =
     (let ctx = caml_MD5Update (caml_MD5Init ctx) (read_bytes (hp_mem h) (str + Long_val ofs) (unat (Long_val len)))
      in case caml_alloc_string h 16 of
           None \<Rightarrow> None
         | Some (h, res) \<Rightarrow> Some (h\<lparr>hp_mem := copy_bytes (hp_mem h) res (fst (caml_MD5Final ctx))\<rparr>, res))"

definition caml_md5_bytes :: "heap \<Rightarrow> MD5Context \<Rightarrow> val \<Rightarrow> val \<Rightarrow> val \<Rightarrow> (heap \<times> val) option" where
  "caml_md5_bytes h ctx b ofs len = caml_md5_string h ctx b ofs len"

section \<open>Properties\<close>

subsection \<open>The reference\<close>

text \<open>The algorithm of RFC 1321, with its table of constants, its order of the words and its shifts.\<close>

definition rfc_T :: "u32 list" where
  "rfc_T =
  [0xd76aa478, 0xe8c7b756, 0x242070db, 0xc1bdceee, 0xf57c0faf, 0x4787c62a, 0xa8304613, 0xfd469501,
   0x698098d8, 0x8b44f7af, 0xffff5bb1, 0x895cd7be, 0x6b901122, 0xfd987193, 0xa679438e, 0x49b40821,
   0xf61e2562, 0xc040b340, 0x265e5a51, 0xe9b6c7aa, 0xd62f105d, 0x02441453, 0xd8a1e681, 0xe7d3fbc8,
   0x21e1cde6, 0xc33707d6, 0xf4d50d87, 0x455a14ed, 0xa9e3e905, 0xfcefa3f8, 0x676f02d9, 0x8d2a4c8a,
   0xfffa3942, 0x8771f681, 0x6d9d6122, 0xfde5380c, 0xa4beea44, 0x4bdecfa9, 0xf6bb4b60, 0xbebfbc70,
   0x289b7ec6, 0xeaa127fa, 0xd4ef3085, 0x04881d05, 0xd9d4d039, 0xe6db99e5, 0x1fa27cf8, 0xc4ac5665,
   0xf4292244, 0x432aff97, 0xab9423a7, 0xfc93a039, 0x655b59c3, 0x8f0ccc92, 0xffeff47d, 0x85845dd1,
   0x6fa87e4f, 0xfe2ce6e0, 0xa3014314, 0x4e0811a1, 0xf7537e82, 0xbd3af235, 0x2ad7d2bb, 0xeb86d391]"

definition rfc_f :: "nat \<Rightarrow> u32 \<Rightarrow> u32 \<Rightarrow> u32 \<Rightarrow> u32" where
  "rfc_f i x y z =
     (if i < 16 then (x AND y) OR (NOT x AND z)
      else if i < 32 then (x AND z) OR (y AND NOT z)
      else if i < 48 then x XOR y XOR z
      else y XOR (x OR NOT z))"

definition rfc_word :: "nat \<Rightarrow> nat" where
  "rfc_word i =
     (if i < 16 then i else if i < 32 then (5 * i + 1) mod 16 else if i < 48 then (3 * i + 5) mod 16 else 7 * i mod 16)"

definition rfc_shift :: "nat \<Rightarrow> nat" where
  "rfc_shift i = [[7, 12, 17, 22], [5, 9, 14, 20], [4, 11, 16, 23], [6, 10, 15, 21]] ! (i div 16) ! (i mod 4)"

definition rfc_step :: "u32 list \<Rightarrow> nat \<Rightarrow> u32 \<times> u32 \<times> u32 \<times> u32 \<Rightarrow> u32 \<times> u32 \<times> u32 \<times> u32" where
  "rfc_step X i = (\<lambda>(a, b, c, d).
     (d, b + word_rotl (rfc_shift i) (a + rfc_f i b c d + X ! rfc_word i + rfc_T ! i), b, c))"

definition rfc_compress :: "u32 list \<Rightarrow> u32 list \<Rightarrow> u32 list" where
  "rfc_compress st X =
     (case fold (rfc_step X) [0..<64] (st ! 0, st ! 1, st ! 2, st ! 3) of
        (a, b, c, d) \<Rightarrow> [st ! 0 + a, st ! 1 + b, st ! 2 + c, st ! 3 + d])"


definition rfc_init :: "u32 list" where
  "rfc_init = [0x67452301, 0xefcdab89, 0x98badcfe, 0x10325476]"

definition le64 :: "u64 \<Rightarrow> u8 list" where
  "le64 w = map (\<lambda>i. ucast (drop_bit (8 * i) w)) [0..<8]"

definition rfc_pad :: "u8 list \<Rightarrow> u8 list" where
  "rfc_pad msg = msg @ 0x80 # replicate ((119 - length msg mod 64) mod 64) 0 @ le64 (of_nat (8 * length msg))"

definition rfc_digest :: "u8 list \<Rightarrow> u8 list" where
  "rfc_digest msg =
     concat (map le32 (fold (\<lambda>b st. rfc_compress st (words_of b)) (chop 64 (rfc_pad msg)) rfc_init))"

subsection \<open>The transformation\<close>

lemma rotl_shifts:
  assumes s: "0 < s" "s < 32"
  shows "push_bit s w OR drop_bit (32 - s) w = word_rotl s (w :: u32)"
proof (rule bit_eqI)
  fix n assume "possible_bit TYPE(u32) n"
  then have n: "n < 32" by simp
  have r: "bit (word_rotl s w) n \<longleftrightarrow> bit w ((n + (32 - s)) mod 32)" using s n by (simp add: bit_word_rotl_iff)
  show "bit (push_bit s w OR drop_bit (32 - s) w) n \<longleftrightarrow> bit (word_rotl s w) n"
  proof (cases "s \<le> n")
    case True
    then have "(n + (32 - s)) mod 32 = n - s" using s n by (simp add: mod_if)
    moreover have "\<not> bit w (32 - s + n)" using True s by (auto dest: bit_imp_le_length)
    ultimately show ?thesis using True n unfolding r by (simp add: bit_simps)
  next
    case False
    then have "(n + (32 - s)) mod 32 = 32 - s + n" using s n by (simp add: add.commute)
    then show ?thesis using False n unfolding r by (simp add: bit_simps add.commute)
  qed
qed

lemma F_rfc:
  "i < 16 \<Longrightarrow> rfc_f i = F1" "16 \<le> i \<Longrightarrow> i < 32 \<Longrightarrow> rfc_f i = F2"
  "32 \<le> i \<Longrightarrow> i < 48 \<Longrightarrow> rfc_f i = F3" "48 \<le> i \<Longrightarrow> rfc_f i = F4"
  by (auto simp: fun_eq_iff rfc_f_def F1_def F2_def F3_def F4_def intro!: bit_eqI simp: bit_simps)

lemma rfc_shift_range: "\<forall>i\<in>set [0..<64]. 0 < rfc_shift i \<and> rfc_shift i < 32"
  by code_simp

lemma rfc_step_MD5STEP:
  assumes "i < 64"
  shows "rfc_step X i (a, b, c, d) = (d, MD5STEP (rfc_f i) a b c d (X ! rfc_word i + rfc_T ! i) (rfc_shift i), b, c)"
proof -
  have "0 < rfc_shift i" "rfc_shift i < 32" using bspec [OF rfc_shift_range, of i] assms by simp_all
  then show ?thesis by (simp add: rfc_step_def MD5STEP_def Let_def rotl_shifts ac_simps)
qed

abbreviation rfc_param :: "nat \<Rightarrow> nat \<times> u32 \<times> nat" where
  "rfc_param i \<equiv> (rfc_word i, rfc_T ! i, rfc_shift i)"

lemma rfc_step4:
  assumes "i + 3 < 64" "rfc_f i = f" "rfc_f (i + 1) = f" "rfc_f (i + 2) = f" "rfc_f (i + 3) = f"
  shows "fold (rfc_step X) [i, i + 1, i + 2, i + 3] r =
    MD5STEP4 f X (rfc_param i) (rfc_param (i + 1)) (rfc_param (i + 2)) (rfc_param (i + 3)) r"
  using assms by (cases r) (simp add: MD5STEP4_def Let_def rfc_step_MD5STEP)

lemma upt_fours: "[0..<64] = concat (map (\<lambda>g. [4 * g, 4 * g + 1, 4 * g + 2, 4 * g + 3]) [0..<16])"
  by code_simp

lemma fold_fours: "fold f (concat (map g xs)) = fold (\<lambda>x. fold f (g x)) xs"
  by (induction xs) auto

lemma caml_MD5Transform_rfc: "caml_MD5Transform buf X = rfc_compress buf X"
proof -
  define f where "f g = (if g < 4 then F1 else if g < 8 then F2 else if g < 12 then F3 else F4)" for g :: nat
  have step: "fold (rfc_step X) [4 * g, 4 * g + 1, 4 * g + 2, 4 * g + 3] =
    MD5STEP4 (f g) X (rfc_param (4 * g)) (rfc_param (4 * g + 1)) (rfc_param (4 * g + 2)) (rfc_param (4 * g + 3))" if "g < 16" for g
  proof
    fix r show "fold (rfc_step X) [4 * g, 4 * g + 1, 4 * g + 2, 4 * g + 3] r =
      MD5STEP4 (f g) X (rfc_param (4 * g)) (rfc_param (4 * g + 1)) (rfc_param (4 * g + 2)) (rfc_param (4 * g + 3)) r"
      using that by (intro rfc_step4) (auto simp: f_def F_rfc)
  qed
  have "fold (rfc_step X) [0..<64] r = fold (\<lambda>g. MD5STEP4 (f g) X (rfc_param (4 * g)) (rfc_param (4 * g + 1))
      (rfc_param (4 * g + 2)) (rfc_param (4 * g + 3))) [0..<16] r" for r
    unfolding upt_fours fold_fours by (rule fold_cong) (use step in auto)
  then show ?thesis
    by (simp add: rfc_compress_def caml_MD5Transform_def Let_def f_def rfc_word_def rfc_shift_def rfc_T_def upt_rec) (simp add: numeral_2_eq_2)
qed


subsection \<open>Updates\<close>

interpretation md5: block_stream "\<lambda>st b. caml_MD5Transform st (words_of b)" 64 64
  by unfold_locales simp_all

text \<open>A context that has absorbed \<open>n\<close> bytes: the chaining state, the bytes that wait for their block, and the bit count modulo \<open>2 ^ 64\<close>.\<close>

definition md5_rep :: "MD5Context \<Rightarrow> u32 list \<Rightarrow> u8 list \<Rightarrow> nat \<Rightarrow> bool" where
  "md5_rep ctx st rest n \<longleftrightarrow> md5_buf ctx = st \<and> length (md5_in ctx) = 64 \<and> take (n mod 64) (md5_in ctx) = rest \<and>
     md5_bits ctx = [of_nat (8 * n), of_nat (8 * n div 2 ^ 32)]"

lemma md5_rep_length: "md5_rep ctx st rest n \<Longrightarrow> length rest = n mod 64"
  by (auto simp: md5_rep_def)

lemma unat_and_63: "unat (x AND 0x3f) = unat x mod 64" for x :: u32
  using unat_and_mask [of 6 x] by simp

lemma md5_count: "unat (drop_bit 3 (of_nat (8 * n) :: u32) AND 0x3f) = n mod 64"
proof -
  have "unat (drop_bit 3 (of_nat (8 * n) :: u32) AND 0x3f) = 8 * n mod 2 ^ 32 div 8 mod 64"
    unfolding unat_and_63 unat_drop_bit_eq unat_of_nat by (simp add: take_bit_eq_mod drop_bit_eq_div)
  also have "8 * n mod 2 ^ 32 div 8 = n mod 2 ^ 29" using mult_mod_right [of 8 n "2 ^ 29"] by simp
  also have "n mod 2 ^ 29 mod 64 = n mod 64" by (rule mod_mod_cancel) simp
  finally show ?thesis .
qed

lemma md5_chunks_feed:
  assumes "length (md5_in ctx) = 64" "md5.feed (md5_buf ctx) data = (st, rest)"
  shows "\<exists>inb. md5_chunks ctx data = ctx\<lparr>md5_buf := st, md5_in := inb\<rparr> \<and> length inb = 64 \<and> take (length rest) inb = rest"
  using assms
proof (induction ctx data rule: md5_chunks.induct)
  case (1 ctx data)
  show ?case
  proof (cases "64 \<le> length data")
    case True
    let ?inb = "memcpy (md5_in ctx) 0 (take 64 data)"
    have inb: "?inb = take 64 data" using True 1(2) by (simp add: memcpy_def)
    let ?ctx = "ctx\<lparr>md5_in := ?inb, md5_buf := caml_MD5Transform (md5_buf ctx) (words_of ?inb)\<rparr>"
    have step: "md5_chunks ctx data = md5_chunks ?ctx (drop 64 data)"
      using True by (subst md5_chunks.simps) (simp add: Let_def)
    have "md5.feed (md5_buf ?ctx) (drop 64 data) = (st, rest)" using 1(3) True by (simp add: md5.feed_long inb)
    with 1(1) [OF True refl] True obtain inb' where "md5_chunks ?ctx (drop 64 data) = ?ctx\<lparr>md5_buf := st, md5_in := inb'\<rparr>"
      "length inb' = 64" "take (length rest) inb' = rest" by (auto simp: inb)
    then show ?thesis unfolding step by (intro exI [of _ inb']) simp
  next
    case False
    then have r: "st = md5_buf ctx" "rest = data" using 1(3) by (simp_all add: md5.feed_short)
    show ?thesis
      by (rule exI [of _ "memcpy (md5_in ctx) 0 data"])
        (use False 1(2) in \<open>simp add: r md5_chunks.simps [of ctx] memcpy_def\<close>)
  qed
qed


lemma md5_bits_update:
  assumes "len < 2 ^ 64"
  shows "push_bit 3 (ucast (of_nat len :: u64)) = (of_nat (8 * len) :: u32)"
    "ucast (drop_bit 29 (of_nat len :: u64)) = (of_nat (8 * len div 2 ^ 32) :: u32)"
proof -
  have u: "unat (of_nat len :: u64) = len" using assms by (simp add: unat_of_nat take_bit_eq_mod)
  have uc: "ucast w = (of_nat (unat w) :: u32)" for w :: u64 by simp
  show "push_bit 3 (ucast (of_nat len :: u64)) = (of_nat (8 * len) :: u32)" unfolding uc u by (simp add: push_bit_eq_mult)
  have "len div 2 ^ 29 = 8 * len div 2 ^ 32" using div_mult_mult1 [of 8 len "2 ^ 29"] by simp
  then show "ucast (drop_bit 29 (of_nat len :: u64)) = (of_nat (8 * len div 2 ^ 32) :: u32)"
    unfolding uc unat_drop_bit_eq u by (simp only: drop_bit_eq_div)
qed

lemma md5_update_rep:
  assumes rep: "md5_rep ctx st rest n" and feed: "md5.feed st (rest @ data) = (st', rest')" and len: "length data < 2 ^ 64"
  shows "md5_rep (caml_MD5Update ctx data) st' rest' (n + length data)"
proof -
  define bits :: "u32 list" where "bits = [of_nat (8 * (n + length data)), of_nat (8 * (n + length data) div 2 ^ 32)]"
  define ctx1 where "ctx1 = ctx\<lparr>md5_bits := bits\<rparr>"
  have c: "md5_buf ctx1 = st" "length (md5_in ctx1) = 64" "take (n mod 64) (md5_in ctx1) = rest" "md5_bits ctx1 = bits"
    using rep by (simp_all add: md5_rep_def ctx1_def)
  have if_add: "(if P then x + 1 else x) = x + (if P then 1 else 0)" for P and x :: u32 by simp
  note lr = md5_rep_length [OF rep]
  have lr': "length rest' = (n + length data) mod 64"
    using md5.feed_length [where st = st and xs = "rest @ data"] feed lr by (simp add: mod_add_left_eq)
  have "(of_nat (8 * n div 2 ^ 32) :: u32) + (if of_nat (8 * n) + of_nat (8 * length data) < (of_nat (8 * n) :: u32) then 1 else 0) +
      of_nat (8 * length data div 2 ^ 32) = of_nat ((8 * n + 8 * length data) div 2 ^ 32)" using word_carry [where 'a = 32, of "8 * n" "8 * length data"] by simp
  then have b1: "(if of_nat (8 * n) + of_nat (8 * length data) < (of_nat (8 * n) :: u32) then of_nat (8 * n div 2 ^ 32) + 1
      else (of_nat (8 * n div 2 ^ 32) :: u32)) + of_nat (8 * length data div 2 ^ 32) = of_nat (8 * (n + length data) div 2 ^ 32)"
    unfolding if_add distrib_left .
  have b0: "of_nat (8 * n) + of_nat (8 * length data) = (of_nat (8 * (n + length data)) :: u32)" by (simp add: distrib_left)
  have upd: "caml_MD5Update ctx data =
    (if n mod 64 \<noteq> 0 then
       if length data < 64 - n mod 64 then ctx1\<lparr>md5_in := memcpy (md5_in ctx1) (n mod 64) data\<rparr>
       else
         let inb = memcpy (md5_in ctx1) (n mod 64) (take (64 - n mod 64) data) in
         md5_chunks (ctx1\<lparr>md5_in := inb, md5_buf := caml_MD5Transform (md5_buf ctx1) (words_of inb)\<rparr>) (drop (64 - n mod 64) data)
     else md5_chunks ctx1 data)"
  proof -
    have bits: "md5_bits ctx ! 0 = of_nat (8 * n)" "md5_bits ctx ! 1 = of_nat (8 * n div 2 ^ 32)"
      using rep unfolding md5_rep_def by (simp_all only: nth_Cons_0 nth_Cons_Suc One_nat_def)
    show ?thesis
      unfolding caml_MD5Update_def Let_def bits md5_bits_update [OF len] md5_count unfolding b1 unfolding b0 ctx1_def bits_def by (rule refl)
  qed
  have fin: "md5_rep (ctx2\<lparr>md5_buf := st', md5_in := inb\<rparr>) st' rest' (n + length data)"
    if "length inb = 64" "take (length rest') inb = rest'" "md5_bits ctx2 = bits" for inb ctx2
    using that lr' by (simp add: md5_rep_def bits_def)
  consider (full) "n mod 64 = 0" | (short) "n mod 64 \<noteq> 0" "length data < 64 - n mod 64"
    | (long) "n mod 64 \<noteq> 0" "64 - n mod 64 \<le> length data" by linarith
  then show ?thesis
  proof cases
    case full
    then have "md5.feed (md5_buf ctx1) data = (st', rest')" using feed lr c(1) by simp
    from md5_chunks_feed [OF c(2) this] show ?thesis using full fin [of _ ctx1] c(4) unfolding upd by auto
  next
    case short
    then have r: "st' = st" "rest' = rest @ data" using feed lr by (simp_all add: md5.feed_short)
    have "md5_rep (ctx1\<lparr>md5_buf := st', md5_in := memcpy (md5_in ctx1) (n mod 64) data\<rparr>) st' rest' (n + length data)"
      using short c lr by (intro fin) (simp_all add: r take_memcpy)
    moreover have "ctx1\<lparr>md5_buf := st', md5_in := i\<rparr> = ctx1\<lparr>md5_in := i\<rparr>" for i using c(1) r(1) by (cases ctx1) simp
    ultimately show ?thesis using short unfolding upd by simp
  next
    case long
    define inb where "inb = memcpy (md5_in ctx1) (n mod 64) (take (64 - n mod 64) data)"
    define ctx2 where "ctx2 = ctx1\<lparr>md5_in := inb, md5_buf := caml_MD5Transform (md5_buf ctx1) (words_of inb)\<rparr>"
    have inb: "inb = rest @ take (64 - n mod 64) data"
      using long c(2,3) by (simp add: inb_def memcpy_def)
    then have "length inb = 64" using long lr by simp
    moreover have "md5.feed (md5_buf ctx2) (drop (64 - n mod 64) data) = (st', rest')"
      using feed long lr c(1) by (simp add: md5.feed_long ctx2_def inb)
    moreover have "length (md5_in ctx2) = length inb" by (simp add: ctx2_def)
    ultimately obtain inb' where "md5_chunks ctx2 (drop (64 - n mod 64) data) = ctx2\<lparr>md5_buf := st', md5_in := inb'\<rparr>"
      "length inb' = 64" "take (length rest') inb' = rest'"
      using md5_chunks_feed [of ctx2 "drop (64 - n mod 64) data" st' rest'] by metis
    then show ?thesis using long fin [of inb' ctx2] c(4) unfolding upd inb_def [symmetric] ctx2_def [symmetric] Let_def
      by (simp add: ctx2_def)
  qed
qed


definition md5_tail :: "nat \<Rightarrow> u8 list" where
  "md5_tail n = 0x80 # replicate ((119 - n mod 64) mod 64) 0 @ le32 (of_nat (8 * n)) @ le32 (of_nat (8 * n div 2 ^ 32))"

lemma md5_final_rep:
  assumes rep: "md5_rep ctx st rest n"
  shows "fst (caml_MD5Final ctx) = concat (map le32 (fst (md5.feed st (rest @ md5_tail n))))"
proof -
  define c where "c = n mod 64"
  define b0 b1 :: u32 where "b0 = of_nat (8 * n)" and "b1 = of_nat (8 * n div 2 ^ 32)"
  define l :: "u8 list" where "l = le32 b0 @ le32 b1"
  have r: "md5_buf ctx = st" "length (md5_in ctx) = 64" "take c (md5_in ctx) = rest"
    "md5_bits ctx = [b0, b1]"
    using rep unfolding md5_rep_def c_def b0_def b1_def by simp_all
  have c: "c < 64" "length rest = c" using md5_rep_length [OF rep] by (simp_all add: c_def)
  have lens: "length (le32 w) = 4" for w by (simp add: le32_def)
  then have ll: "length l = 8" by (simp add: l_def)
  have set80: "(md5_in ctx)[c := 0x80] = rest @ 0x80 # drop (c + 1) (md5_in ctx)"
    using c r(2,3) by (simp add: upd_conv_take_nth_drop)
  have put_len: "memcpy (memcpy xs 56 (le32 b0)) 60 (le32 b1) = take 56 xs @ l"
    if "length xs = 64" for xs using that by (simp add: memcpy_def lens l_def)
  have tail: "md5_tail n = 0x80 # replicate ((119 - c) mod 64) 0 @ l" by (simp only: md5_tail_def c_def l_def b0_def b1_def append_assoc)
  have two: "fst (md5.feed st (b @ b')) = caml_MD5Transform (caml_MD5Transform st (words_of b)) (words_of b')"
    if "length b = 64" "length b' = 64" for b b' using that by (simp add: md5.feed_long md5.feed_short)
  have one: "fst (md5.feed st b) = caml_MD5Transform st (words_of b)" if "length b = 64" for b
    using that by (simp add: md5.feed_long md5.feed_short)
  have "unat (drop_bit 3 b0 AND 0x3f) = c" unfolding b0_def c_def by (rule md5_count)
  note final = caml_MD5Final_def Let_def r(1,4) nth_Cons_0 this set80
  show ?thesis
  proof (cases "c < 56")
    case True
    have z: "(119 - c) mod 64 = 55 - c" and nl: "\<not> 63 - c < 8" using True by (simp_all add: le_mod_geq)
    have "memcpy (rest @ 0x80 # drop (c + 1) (md5_in ctx)) (c + 1) (replicate (63 - c - 8) 0) =
        rest @ 0x80 # replicate (55 - c) 0 @ drop 56 (md5_in ctx)" using True c r(2) by (simp add: memcpy_def drop_Cons')
    moreover have "take 56 (rest @ 0x80 # replicate (55 - c) 0 @ drop 56 (md5_in ctx)) = rest @ 0x80 # replicate (55 - c) (0 :: u8)"
      using True c by (simp add: take_Cons')
    ultimately show ?thesis using True c r(2) ll unfolding final tail z
      by (simp add: put_len one r nl)
  next
    case False
    have z: "(119 - c) mod 64 = (63 - c) + 56" and nl: "63 - c < 8" using False c by simp_all
    have b: "memcpy (rest @ 0x80 # drop (c + 1) (md5_in ctx)) (c + 1) (replicate (63 - c) 0) = rest @ 0x80 # replicate (63 - c) 0"
      using False c r(2) by (simp add: memcpy_def)
    have "take 56 (memcpy (rest @ 0x80 # replicate (63 - c) 0) 0 (replicate 56 (0 :: u8))) = replicate 56 0"
      by (simp add: memcpy_def)
    then show ?thesis using b nl c r(2) ll two [of "rest @ 0x80 # replicate (63 - c) 0" "replicate 56 0 @ l"]
      unfolding final tail z replicate_add by (simp add: put_len r)
  qed
qed


subsection \<open>Digests\<close>

lemma le32_le64: "le32 (of_nat n) @ le32 (of_nat (n div 2 ^ 32)) = le64 (of_nat n)"
proof -
  have div: "bit (n div 2 ^ 32) j \<longleftrightarrow> bit n (32 + j)" for j
    using bit_drop_bit_eq [of 32 n] by (simp only: drop_bit_eq_div comp_def)
  have lo: "ucast (drop_bit k (of_nat n :: u32)) = (ucast (drop_bit k (of_nat n :: u64)) :: u8)" if "k \<le> 24" for k
    using that by (intro bit_eqI) (auto simp: bit_simps)
  have hi: "ucast (drop_bit k (of_nat (n div 2 ^ 32) :: u32)) = (ucast (drop_bit (32 + k) (of_nat n :: u64)) :: u8)" if "k \<le> 24" for k
    using that div by (intro bit_eqI) (simp add: bit_simps add.assoc)
  have "[0..<8] = [0, 1, 2, 3, 4, 5, 6, 7 :: nat]" by code_simp
  then show ?thesis
    using lo [of 0] lo [of 8] lo [of 16] lo [of 24] hi [of 0] hi [of 8] hi [of 16] hi [of 24] by (simp add: le32_def le64_def)
qed

lemma md5_tail_pad: "msg @ md5_tail (length msg) = rfc_pad msg"
  by (simp only: md5_tail_def rfc_pad_def le32_le64)

lemma length_rfc_pad: "length (rfc_pad msg) mod 64 = 0"
proof -
  have "length (rfc_pad msg) = length msg + (119 - length msg mod 64) mod 64 + 9" by (simp add: rfc_pad_def le64_def)
  also have "\<dots> mod 64 = (length msg mod 64 + (119 - length msg mod 64) mod 64 + 9) mod 64"
    unfolding add.assoc by (rule mod_add_left_eq [symmetric])
  also have "\<dots> = 0"
  proof -
    have "(c + (119 - c) mod 64 + 9) mod 64 = 0" if "c < 64" for c :: nat
      using that by (cases "c < 56") (simp_all add: le_mod_geq)
    then show ?thesis by simp
  qed
  finally show ?thesis .
qed

lemma md5_updates_rep:
  "md5_rep ctx st rest n \<Longrightarrow> \<forall>c\<in>set cs. length c < 2 ^ 64 \<Longrightarrow> md5.feeds (st, rest) cs = (st', rest') \<Longrightarrow>
    md5_rep (fold (\<lambda>c ctx. caml_MD5Update ctx c) cs ctx) st' rest' (n + length (concat cs))"
proof (induction cs arbitrary: ctx st rest n)
  case (Cons c cs)
  obtain st1 rest1 where f: "md5.feed st (rest @ c) = (st1, rest1)" by force
  have "md5_rep (caml_MD5Update ctx c) st1 rest1 (n + length c)" using md5_update_rep [OF Cons.prems(1) f] Cons.prems(2) by simp
  from Cons.IH [OF this] Cons.prems(2,3) f show ?case by (simp add: md5.feeds_def add.assoc)
qed (simp add: md5.feeds_def)

lemma md5_stream:
  assumes "length (md5_in ctx) = 64" "\<forall>c\<in>set cs. length c < 2 ^ 64"
  shows "fst (caml_MD5Final (fold (\<lambda>c ctx. caml_MD5Update ctx c) cs (caml_MD5Init ctx))) = rfc_digest (concat cs)"
proof -
  let ?msg = "concat cs"
  have init: "md5_rep (caml_MD5Init ctx) rfc_init [] 0" using assms(1) by (simp add: md5_rep_def caml_MD5Init_def rfc_init_def)
  obtain st rest where fs: "md5.feeds (rfc_init, []) cs = (st, rest)" by force
  have rep: "md5_rep (fold (\<lambda>c ctx. caml_MD5Update ctx c) cs (caml_MD5Init ctx)) st rest (length ?msg)"
    using md5_updates_rep [OF init assms(2) fs] by simp
  have "md5.feed rfc_init ?msg = (st, rest)" using fs by (simp add: md5.feeds_concat)
  then have "md5.feed st (rest @ md5_tail (length ?msg)) = md5.feed rfc_init (rfc_pad ?msg)"
    using md5.feed_append [where st = rfc_init and xs = ?msg and ys = "md5_tail (length ?msg)"] by (simp add: md5_tail_pad)
  also have "\<dots> = (fold (\<lambda>b s. caml_MD5Transform s (words_of b)) (chop 64 (rfc_pad ?msg)) rfc_init, [])"
    by (rule md5.feed_chop) (simp_all add: length_rfc_pad)
  finally show ?thesis unfolding md5_final_rep [OF rep] rfc_digest_def by (simp add: caml_MD5Transform_rfc)
qed


lemma length_rfc_digest: "length (rfc_digest msg) = 16"
proof -
  have l: "length (rfc_compress st X) = 4" for st X by (simp add: rfc_compress_def split: prod.split)
  have "length (fold (\<lambda>b st. rfc_compress st (words_of b)) bs rfc_init) = 4" for bs
    by (induction bs rule: rev_induct) (simp_all add: l rfc_init_def)
  then show ?thesis by (simp add: rfc_digest_def length_concat comp_def le32_def sum_list_replicate map_replicate_const)
qed

subsection \<open>Theorems\<close>

definition sample_ctx :: MD5Context where
  "sample_ctx = \<lparr>md5_buf = [], md5_bits = [], md5_in = replicate 64 0\<rparr>"

text \<open>
  C32: a message that is passed to \<open>caml_MD5Update\<close> in parts of any sizes, between \<open>caml_MD5Init\<close> and \<open>caml_MD5Final\<close>, has the
  digest of RFC 1321, whatever the buffer held before: the unrolled transformation is the compression function of the RFC, the
  buffering is transparent, and the padding carries the bit count modulo \<open>2 ^ 64\<close>.
\<close>

theorem md5_streaming:
  assumes "length (md5_in ctx) = 64" "\<forall>c\<in>set cs. length c < 2 ^ 64"
  shows "fst (caml_MD5Final (fold (\<lambda>c ctx. caml_MD5Update ctx c) cs (caml_MD5Init ctx))) = rfc_digest (concat cs)"
  by (rule md5_stream [OF assms])

theorem md5_streaming_witness:
  "fst (caml_MD5Final (fold (\<lambda>c ctx. caml_MD5Update ctx c) [[97], [], [98, 99]] (caml_MD5Init sample_ctx))) = rfc_digest [97, 98, 99]"
proof -
  have "length (md5_in sample_ctx) = 64" "\<forall>c\<in>set [[97 :: u8], [], [98, 99]]. length c < 2 ^ 64" by (simp_all add: sample_ctx_def)
  from md5_streaming [OF this] show ?thesis by (simp only: concat.simps append_Cons append_Nil append_Nil2)
qed

text \<open>
  When the minor heap has room, \<open>caml_md5_string\<close> returns a well-formed string that holds the digest of RFC 1321 of the
  substring, and does not disturb live young data.
\<close>

theorem md5_string_digest:
  assumes "heap_ok h" "length (md5_in ctx) = 64" "unat (young_limit h) + 32 \<le> unat (young_ptr h)"
  shows "\<exists>h' v. caml_md5_string h ctx str ofs len = Some (h', v) \<and> Is_block v \<and> keeps_old h (hp_mem h') \<and>
    string_block (hp_mem h') v (rfc_digest (read_bytes (hp_mem h) (str + Long_val ofs) (unat (Long_val len))))"
proof -
  define msg where "msg = read_bytes (hp_mem h) (str + Long_val ofs) (unat (Long_val len))"
  have "length msg < 2 ^ 64" using unat64_less [of "Long_val len"] by (simp add: msg_def read_bytes_def)
  then have d: "fst (caml_MD5Final (caml_MD5Update (caml_MD5Init ctx) msg)) = rfc_digest msg"
    using md5_stream [OF assms(2), of "[msg]"] by simp
  have alloc: "caml_md5_string h ctx str ofs len = caml_alloc_initialized_string h (rfc_digest msg)"
    unfolding caml_md5_string_def caml_alloc_initialized_string_def Let_def msg_def [symmetric] d
    by (simp add: length_rfc_digest)
  have "caml_alloc_initialized_string h (rfc_digest msg) \<noteq> None"
    using assms(1,3) by (intro caml_alloc_initialized_string_fits) (simp_all add: length_rfc_digest string_words_def)
  then obtain h' v where a: "caml_alloc_initialized_string h (rfc_digest msg) = Some (h', v)" by fastforce
  from caml_alloc_initialized_string_block [OF assms(1) _ a] show ?thesis
    unfolding alloc msg_def [symmetric] using a by (simp add: length_rfc_digest)
qed

theorem md5_string_digest_witness:
  "\<exists>h' v. caml_md5_string sample_heap sample_ctx 0x4000 (Val_long 2) (Val_long 0) = Some (h', v) \<and> Is_block v \<and>
    keeps_old sample_heap (hp_mem h') \<and>
    string_block (hp_mem h') v (rfc_digest (read_bytes (hp_mem sample_heap) (0x4000 + Long_val (Val_long 2)) (unat (Long_val (Val_long 0)))))"
  by (rule md5_string_digest) (simp_all add: sample_heap_ok, simp_all add: sample_heap_def sample_ctx_def)

end
