(* ===== verification/Blake2.thy ===== *)
theory Blake2
  imports Complex_Main Md5
begin

text \<open>
  The BLAKE2b message digest (\<open>runtime/blake2.c\<close>): compression of a block, initialisation with a key, buffered updates, extraction of
  the hash, and the hash of a substring. The local variables \<open>v0\<close> to \<open>v15\<close> are a list. The reference is the algorithm of RFC 7693. The contexts
  that OCaml holds in custom blocks are not modelled.
\<close>

unbundle bit_operations_syntax

subsection \<open>Compression\<close>

definition BLAKE2_BLOCKSIZE :: nat where "BLAKE2_BLOCKSIZE = 128"

record BLAKE2_context =
  b2_h :: "u64 list"
  b2_len :: "u64 list"
  b2_numbytes :: nat
  b2_buffer :: "u8 list"

definition U8TO64LE :: "u8 list \<Rightarrow> u64" where
  "U8TO64LE src =
     ucast (src ! 0) OR push_bit 8 (ucast (src ! 1)) OR push_bit 16 (ucast (src ! 2)) OR push_bit 24 (ucast (src ! 3)) OR
     push_bit 32 (ucast (src ! 4)) OR push_bit 40 (ucast (src ! 5)) OR push_bit 48 (ucast (src ! 6)) OR push_bit 56 (ucast (src ! 7))"

definition ROTR64 :: "u64 \<Rightarrow> nat \<Rightarrow> u64" where
  "ROTR64 x amount = drop_bit amount x OR push_bit (64 - amount) x"

definition caml_BLAKE2_iv :: "u64 list" where
  "caml_BLAKE2_iv =
  [0x6a09e667f3bcc908,
   0xbb67ae8584caa73b,
   0x3c6ef372fe94f82b,
   0xa54ff53a5f1d36f1,
   0x510e527fade682d1,
   0x9b05688c2b3e6c1f,
   0x1f83d9abfb41bd6b,
   0x5be0cd19137e2179]"

definition BLAKE2_sigma :: "nat list list" where
  "BLAKE2_sigma =
  [[0, 1, 2, 3, 4, 5, 6, 7, 8, 9, 10, 11, 12, 13, 14, 15],
   [14, 10, 4, 8, 9, 15, 13, 6, 1, 12, 0, 2, 11, 7, 5, 3],
   [11, 8, 12, 0, 5, 2, 15, 13, 10, 14, 3, 6, 7, 1, 9, 4],
   [7, 9, 3, 1, 13, 12, 11, 14, 2, 6, 5, 10, 4, 0, 15, 8],
   [9, 0, 5, 7, 2, 4, 10, 15, 14, 1, 11, 12, 6, 8, 3, 13],
   [2, 12, 6, 10, 0, 11, 8, 3, 4, 13, 7, 5, 15, 14, 1, 9],
   [12, 5, 1, 15, 14, 13, 4, 10, 0, 7, 6, 3, 9, 2, 8, 11],
   [13, 11, 7, 14, 12, 1, 3, 9, 5, 0, 15, 4, 8, 6, 2, 10],
   [6, 15, 14, 9, 11, 3, 0, 8, 12, 2, 13, 7, 1, 4, 10, 5],
   [10, 2, 8, 4, 7, 6, 1, 5, 15, 11, 9, 14, 3, 12, 13, 0],
   [0, 1, 2, 3, 4, 5, 6, 7, 8, 9, 10, 11, 12, 13, 14, 15],
   [14, 10, 4, 8, 9, 15, 13, 6, 1, 12, 0, 2, 11, 7, 5, 3]]"

definition MIX2B :: "u64 \<Rightarrow> u64 \<Rightarrow> u64 \<Rightarrow> u64 \<Rightarrow> u64 \<Rightarrow> u64 \<Rightarrow> u64 \<times> u64 \<times> u64 \<times> u64" where
  "MIX2B a b c d x y =
     (let a = a + (b + x);
          d = ROTR64 (d XOR a) 32;
          c = c + d;
          b = ROTR64 (b XOR c) 24;
          a = a + (b + y);
          d = ROTR64 (d XOR a) 16;
          c = c + d;
          b = ROTR64 (b XOR c) 63
      in (a, b, c, d))"

definition mix_vars :: "u64 list \<Rightarrow> nat \<times> nat \<times> nat \<times> nat \<Rightarrow> u64 \<Rightarrow> u64 \<Rightarrow> u64 list" where
  "mix_vars v = (\<lambda>(i, j, k, l) x y.
     case MIX2B (v ! i) (v ! j) (v ! k) (v ! l) x y of (a, b, c, d) \<Rightarrow> v[i := a, j := b, k := c, l := d])"

definition mix_round :: "u64 list \<Rightarrow> nat list \<Rightarrow> u64 list \<Rightarrow> u64 list" where
  "mix_round m sigma v =
     (let v = mix_vars v (0, 4, 8, 12) (m ! (sigma ! 0)) (m ! (sigma ! 1));
          v = mix_vars v (1, 5, 9, 13) (m ! (sigma ! 2)) (m ! (sigma ! 3));
          v = mix_vars v (2, 6, 10, 14) (m ! (sigma ! 4)) (m ! (sigma ! 5));
          v = mix_vars v (3, 7, 11, 15) (m ! (sigma ! 6)) (m ! (sigma ! 7));
          v = mix_vars v (0, 5, 10, 15) (m ! (sigma ! 8)) (m ! (sigma ! 9));
          v = mix_vars v (1, 6, 11, 12) (m ! (sigma ! 10)) (m ! (sigma ! 11));
          v = mix_vars v (2, 7, 8, 13) (m ! (sigma ! 12)) (m ! (sigma ! 13));
          v = mix_vars v (3, 4, 9, 14) (m ! (sigma ! 14)) (m ! (sigma ! 15))
      in v)"

definition caml_BLAKE2Compress :: "BLAKE2_context \<Rightarrow> u8 list \<Rightarrow> u64 \<Rightarrow> bool \<Rightarrow> BLAKE2_context" where
  "caml_BLAKE2Compress s data numbytes is_last_block =
     (let len0 = b2_len s ! 0 + numbytes;
          len1 = (if len0 < numbytes then b2_len s ! 1 + 1 else b2_len s ! 1);
          iv = caml_BLAKE2_iv; h = b2_h s;
          v = [h ! 0, h ! 1, h ! 2, h ! 3, h ! 4, h ! 5, h ! 6, h ! 7, iv ! 0, iv ! 1, iv ! 2, iv ! 3,
               iv ! 4 XOR len0, iv ! 5 XOR len1, if is_last_block then NOT (iv ! 6) else iv ! 6, iv ! 7];
          m = map (\<lambda>i. U8TO64LE (drop (i * 8) data)) [0..<16];
          v = fold (\<lambda>i. mix_round m (BLAKE2_sigma ! i)) [0..<12] v
      in s\<lparr>b2_len := [len0, len1], b2_h := map (\<lambda>i. h ! i XOR (v ! i XOR v ! (i + 8))) [0..<8]\<rparr>)"

subsection \<open>Initialisation, updates and the hash\<close>

definition caml_BLAKE2Init :: "BLAKE2_context \<Rightarrow> nat \<Rightarrow> u8 list \<Rightarrow> BLAKE2_context" where
  "caml_BLAKE2Init s hashlen key =
     (let keylen = length key;
          h = caml_BLAKE2_iv;
          h = h[0 := h ! 0 XOR (0x01010000 OR push_bit 8 (of_nat keylen) OR of_nat hashlen)];
          s = s\<lparr>b2_h := h, b2_len := [0, 0], b2_numbytes := 0\<rparr>
      in if 0 < keylen then
           let keylen = (if 64 < keylen then 64 else keylen);
               buffer = memcpy (b2_buffer s) 0 (take keylen key);
               buffer = memcpy buffer keylen (replicate (BLAKE2_BLOCKSIZE - keylen) 0)
           in s\<lparr>b2_buffer := buffer, b2_numbytes := BLAKE2_BLOCKSIZE\<rparr>
         else s)"

function blake2_blocks :: "BLAKE2_context \<Rightarrow> u8 list \<Rightarrow> BLAKE2_context" where
  "blake2_blocks s data =
     (if BLAKE2_BLOCKSIZE < length data then
        blake2_blocks (caml_BLAKE2Compress s (take BLAKE2_BLOCKSIZE data) (of_nat BLAKE2_BLOCKSIZE) False) (drop BLAKE2_BLOCKSIZE data)
      else s\<lparr>b2_buffer := memcpy (b2_buffer s) 0 data, b2_numbytes := length data\<rparr>)"
  by pat_completeness auto
termination by (relation "measure (\<lambda>(s, data). length data)") (auto simp: BLAKE2_BLOCKSIZE_def)

declare blake2_blocks.simps [simp del]

definition caml_BLAKE2Update :: "BLAKE2_context \<Rightarrow> u8 list \<Rightarrow> BLAKE2_context" where
  "caml_BLAKE2Update s data =
     (if 0 < b2_numbytes s then
        let n = BLAKE2_BLOCKSIZE - b2_numbytes s in
        if length data \<le> n then
          s\<lparr>b2_buffer := memcpy (b2_buffer s) (b2_numbytes s) data, b2_numbytes := b2_numbytes s + length data\<rparr>
        else
          let s = s\<lparr>b2_buffer := memcpy (b2_buffer s) (b2_numbytes s) (take n data)\<rparr> in
          blake2_blocks (caml_BLAKE2Compress s (b2_buffer s) (of_nat BLAKE2_BLOCKSIZE) False) (drop n data)
      else blake2_blocks s data)"

definition caml_BLAKE2Final :: "BLAKE2_context \<Rightarrow> nat \<Rightarrow> u8 list" where
  "caml_BLAKE2Final s hashlen =
     (let buffer = memcpy (b2_buffer s) (b2_numbytes s) (replicate (BLAKE2_BLOCKSIZE - b2_numbytes s) 0);
          s = caml_BLAKE2Compress (s\<lparr>b2_buffer := buffer\<rparr>) buffer (of_nat (b2_numbytes s)) True
      in map (\<lambda>i. ucast (drop_bit (8 * (i mod 8)) (b2_h s ! (i div 8)))) [0..<hashlen])"

definition caml_blake2_string :: "heap \<Rightarrow> BLAKE2_context \<Rightarrow> val \<Rightarrow> val \<Rightarrow> val \<Rightarrow> val \<Rightarrow> val \<Rightarrow> (heap \<times> val) option" where
  "caml_blake2_string h ctx hashlen key buf ofs len =
     (let hlen = unat (Long_val hashlen);
          m = hp_mem h;
          ctx = caml_BLAKE2Init ctx hlen (read_bytes m key (unat (caml_string_length m key)));
          ctx = caml_BLAKE2Update ctx (read_bytes m (buf + Long_val ofs) (unat (Long_val len)))
      in case caml_alloc_string h (of_nat hlen) of
           None \<Rightarrow> None
         | Some (h, hash) \<Rightarrow> Some (h\<lparr>hp_mem := copy_bytes (hp_mem h) hash (caml_BLAKE2Final ctx hlen)\<rparr>, hash))"

definition caml_blake2_bytes :: "heap \<Rightarrow> BLAKE2_context \<Rightarrow> val \<Rightarrow> val \<Rightarrow> val \<Rightarrow> val \<Rightarrow> val \<Rightarrow> (heap \<times> val) option" where
  "caml_blake2_bytes h ctx hashlen key buf ofs len = caml_blake2_string h ctx hashlen key buf ofs len"

section \<open>Properties\<close>

subsection \<open>The reference\<close>

text \<open>
  The constants of RFC 7693: the initialization vector is made of the first 64 bits of the fractional parts of the square roots of the first
  eight primes (section 2.6), the message schedule has ten rows (section 2.7), and words are little-endian (section 2.4).
\<close>

definition rfc_IV :: "u64 list" where
  "rfc_IV = map (\<lambda>p. word_of_int \<lfloor>2 ^ 64 * (sqrt (real p) - of_int \<lfloor>sqrt (real p)\<rfloor>)\<rfloor>) [2, 3, 5, 7, 11, 13, 17, 19]"

definition rfc_SIGMA :: "nat list list" where
  "rfc_SIGMA =
     [[0, 1, 2, 3, 4, 5, 6, 7, 8, 9, 10, 11, 12, 13, 14, 15],
      [14, 10, 4, 8, 9, 15, 13, 6, 1, 12, 0, 2, 11, 7, 5, 3],
      [11, 8, 12, 0, 5, 2, 15, 13, 10, 14, 3, 6, 7, 1, 9, 4],
      [7, 9, 3, 1, 13, 12, 11, 14, 2, 6, 5, 10, 4, 0, 15, 8],
      [9, 0, 5, 7, 2, 4, 10, 15, 14, 1, 11, 12, 6, 8, 3, 13],
      [2, 12, 6, 10, 0, 11, 8, 3, 4, 13, 7, 5, 15, 14, 1, 9],
      [12, 5, 1, 15, 14, 13, 4, 10, 0, 7, 6, 3, 9, 2, 8, 11],
      [13, 11, 7, 14, 12, 1, 3, 9, 5, 0, 15, 4, 8, 6, 2, 10],
      [6, 15, 14, 9, 11, 3, 0, 8, 12, 2, 13, 7, 1, 4, 10, 5],
      [10, 2, 8, 4, 7, 6, 1, 5, 15, 11, 9, 14, 3, 12, 13, 0]]"

definition rfc_load :: "u8 list \<Rightarrow> u64" where
  "rfc_load bs = of_nat (\<Sum>i<8. unat (bs ! i) * 256 ^ i)"

text \<open>
  The algorithm of RFC 7693 for \<open>w = 64\<close>: the mixing function \<open>rfc_G\<close>, the compression function \<open>rfc_F\<close> with the byte offset \<open>t\<close>, and the
  computation over the blocks, of which the last is padded with zeros.
\<close>

definition rfc_G_half :: "u64 list \<Rightarrow> nat \<Rightarrow> nat \<Rightarrow> nat \<Rightarrow> nat \<Rightarrow> u64 \<Rightarrow> nat \<Rightarrow> nat \<Rightarrow> u64 list" where
  "rfc_G_half v a b c d x r r' =
     (let v = v[a := v ! a + v ! b + x];
          v = v[d := word_rotr r (v ! d XOR v ! a)];
          v = v[c := v ! c + v ! d]
      in v[b := word_rotr r' (v ! b XOR v ! c)])"

definition rfc_G :: "u64 list \<Rightarrow> nat \<Rightarrow> nat \<Rightarrow> nat \<Rightarrow> nat \<Rightarrow> u64 \<Rightarrow> u64 \<Rightarrow> u64 list" where
  "rfc_G v a b c d x y = rfc_G_half (rfc_G_half v a b c d x 32 24) a b c d y 16 63"

definition rfc_round :: "u64 list \<Rightarrow> nat \<Rightarrow> u64 list \<Rightarrow> u64 list" where
  "rfc_round m i v =
     (let s = rfc_SIGMA ! (i mod 10) in
      fold (\<lambda>(a, b, c, d, x, y) v. rfc_G v a b c d (m ! (s ! x)) (m ! (s ! y)))
        [(0, 4, 8, 12, 0, 1), (1, 5, 9, 13, 2, 3), (2, 6, 10, 14, 4, 5), (3, 7, 11, 15, 6, 7),
         (0, 5, 10, 15, 8, 9), (1, 6, 11, 12, 10, 11), (2, 7, 8, 13, 12, 13), (3, 4, 9, 14, 14, 15)] v)"

definition rfc_F :: "u64 list \<Rightarrow> u8 list \<Rightarrow> nat \<Rightarrow> bool \<Rightarrow> u64 list" where
  "rfc_F h block t f =
     (let m = map (\<lambda>i. rfc_load (drop (i * 8) block)) [0..<16];
          v = h @ rfc_IV;
          v = v[12 := v ! 12 XOR of_nat t];
          v = v[13 := v ! 13 XOR of_nat (t div 2 ^ 64)];
          v = (if f then v[14 := NOT (v ! 14)] else v);
          v = fold (rfc_round m) [0..<12] v
      in map (\<lambda>i. h ! i XOR v ! i XOR v ! (i + 8)) [0..<8])"

function rfc_blocks :: "u64 list \<Rightarrow> nat \<Rightarrow> u8 list \<Rightarrow> u64 list" where
  "rfc_blocks h t d =
     (if 128 < length d then rfc_blocks (rfc_F h (take 128 d) (t + 128) False) (t + 128) (drop 128 d)
      else rfc_F h (d @ replicate (128 - length d) 0) (t + length d) True)"
  by pat_completeness auto
termination by (relation "measure (\<lambda>(h, t, d). length d)") auto

declare rfc_blocks.simps [simp del]

definition rfc_BLAKE2b :: "nat \<Rightarrow> u8 list \<Rightarrow> u8 list \<Rightarrow> u8 list" where
  "rfc_BLAKE2b nn key msg =
     (let d = (if key = [] then msg else key @ replicate (128 - length key) 0 @ msg);
          h = rfc_IV[0 := rfc_IV ! 0 XOR 0x01010000 XOR push_bit 8 (of_nat (length key)) XOR of_nat nn]
      in take nn (concat (map le64 (rfc_blocks h 0 d))))"


subsection \<open>Compression is the function of the RFC\<close>

lemma ROTR64_rotr:
  assumes s: "0 < s" "s < 64"
  shows "ROTR64 w s = word_rotr s w"
proof (rule bit_eqI)
  fix n assume "possible_bit TYPE(u64) n"
  then have n: "n < 64" by simp
  have r: "bit (word_rotr s w) n \<longleftrightarrow> bit w ((n + s) mod 64)" using s n by (simp add: bit_word_rotr_iff)
  show "bit (ROTR64 w s) n \<longleftrightarrow> bit (word_rotr s w) n"
  proof (cases "n + s < 64")
    case True
    then have "\<not> 64 - s \<le> n" by simp
    then show ?thesis using True s n unfolding r by (simp add: ROTR64_def bit_simps add.commute)
  next
    case False
    then have "(n + s) mod 64 = n - (64 - s)" using s n by (simp add: le_mod_geq)
    moreover have "\<not> bit w (s + n)" using False by (auto dest: bit_imp_le_length)
    moreover have "64 - s \<le> n" using False by simp
    ultimately show ?thesis using False s n unfolding r by (simp add: ROTR64_def bit_simps)
  qed
qed

lemma frac_sqrt:
  fixes p q n :: nat
  assumes "q ^ 2 \<le> p" "p < (q + 1) ^ 2" "(2 ^ 64 * q + n) ^ 2 \<le> 2 ^ 128 * p" "2 ^ 128 * p < (2 ^ 64 * q + n + 1) ^ 2"
  shows "word_of_int \<lfloor>2 ^ 64 * (sqrt (real p) - of_int \<lfloor>sqrt (real p)\<rfloor>)\<rfloor> = (of_nat n :: u64)"
proof -
  have r: "real a \<le> sqrt (real b)" if "a ^ 2 \<le> b" for a b :: nat using that by (intro real_le_rsqrt) (simp flip: of_nat_power)
  have l: "sqrt (real b) < real a" if "b < a ^ 2" for a b :: nat using that by (intro real_less_lsqrt) (simp_all flip: of_nat_power)
  have s: "sqrt (real (2 ^ 128 * p)) = 2 ^ 64 * sqrt (real p)"
    using real_sqrt_power [of 2 "128 :: nat"] real_sqrt_pow2_iff by (simp add: real_sqrt_mult real_sqrt_power_even)
  have "\<lfloor>sqrt (real p)\<rfloor> = int q" using r [OF assms(1)] l [OF assms(2)] by (intro floor_unique) simp_all
  moreover have "\<lfloor>2 ^ 64 * (sqrt (real p) - real q)\<rfloor> = int n"
    using r [OF assms(3)] l [OF assms(4)] unfolding s by (intro floor_unique) (simp_all add: algebra_simps)
  ultimately show ?thesis by simp
qed

lemma rfc_IV_table: "rfc_IV = caml_BLAKE2_iv"
  unfolding rfc_IV_def caml_BLAKE2_iv_def list.map
  using frac_sqrt [of 1 2 "0x6a09e667f3bcc908"] frac_sqrt [of 1 3 "0xbb67ae8584caa73b"] frac_sqrt [of 2 5 "0x3c6ef372fe94f82b"]
    frac_sqrt [of 2 7 "0xa54ff53a5f1d36f1"] frac_sqrt [of 3 11 "0x510e527fade682d1"] frac_sqrt [of 3 13 "0x9b05688c2b3e6c1f"]
    frac_sqrt [of 4 17 "0x1f83d9abfb41bd6b"] frac_sqrt [of 4 19 "0x5be0cd19137e2179"] by (simp add: power2_eq_square)

lemma rfc_SIGMA_table: "i < 12 \<Longrightarrow> rfc_SIGMA ! (i mod 10) = BLAKE2_sigma ! i"
proof -
  have "\<forall>i\<in>set [0..<12]. rfc_SIGMA ! (i mod 10) = BLAKE2_sigma ! i" by code_simp
  then show "i < 12 \<Longrightarrow> rfc_SIGMA ! (i mod 10) = BLAKE2_sigma ! i" by simp
qed

lemma or_push_bit:
  fixes y :: u64 and c :: u8
  assumes "unat y < 2 ^ n" "n + 8 \<le> 64"
  shows "y OR push_bit n (ucast c) = y + ucast c * 2 ^ n" "unat (y + ucast c * 2 ^ n :: u64) < 2 ^ (n + 8)"
proof -
  have t: "take_bit k x = x \<longleftrightarrow> unat x < 2 ^ k" for k and x :: u64
    by (simp add: word_unat_eq_iff unsigned_take_bit_eq take_bit_nat_eq_self_iff)
  have y: "take_bit n y = y" using assms(1) t by blast
  then have nb: "\<not> bit y k" if "n \<le> k" for k using that by (metis bit_take_bit_iff not_le)
  have "y OR push_bit n (ucast c) = y + push_bit n (ucast c)"
    by (rule disjunctive_add [symmetric]) (use nb in \<open>auto simp: bit_simps not_le\<close>)
  then show e: "y OR push_bit n (ucast c) = y + ucast c * 2 ^ n" by (simp add: push_bit_eq_mult)
  have "take_bit (n + 8) (y OR push_bit n (ucast c)) = y OR push_bit n (ucast c)"
    by (rule bit_word_eqI) (use nb in \<open>auto simp: bit_simps dest: bit_imp_le_length\<close>)
  then show "unat (y + ucast c * 2 ^ n :: u64) < 2 ^ (n + 8)"
    unfolding e t .
qed

lemma rfc_load_U8TO64LE: "rfc_load bs = U8TO64LE bs"
proof -
  have 0: "unat (ucast (bs ! 0) :: u64) < 2 ^ 8" using unsigned_less [of "bs ! 0", where 'a = nat] by (simp add: unsigned_ucast_eq take_bit_nat_eq_self)
  note 1 = or_push_bit [OF 0, of "bs ! 1"]
  note 2 = or_push_bit [OF 1(2), of "bs ! 2"]
  note 3 = or_push_bit [OF 2(2), of "bs ! 3"]
  note 4 = or_push_bit [OF 3(2), of "bs ! 4"]
  note 5 = or_push_bit [OF 4(2), of "bs ! 5"]
  note 6 = or_push_bit [OF 5(2), of "bs ! 6"]
  note 7 = or_push_bit [OF 6(2), of "bs ! 7"]
  have sum8: "(\<Sum>i<8. f i) = f 0 + f 1 + f 2 + f 3 + f 4 + f 5 + f 6 + f 7" for f :: "nat \<Rightarrow> nat"
    by (simp add: eval_nat_numeral)
  note or = 1(1) 2(1) [simplified] 3(1) [simplified] 4(1) [simplified] 5(1) [simplified] 6(1) [simplified] 7(1) [simplified]
  have "U8TO64LE bs = ucast (bs ! 0) + ucast (bs ! 1) * 2 ^ 8 + ucast (bs ! 2) * 2 ^ 16 + ucast (bs ! 3) * 2 ^ 24 +
      ucast (bs ! 4) * 2 ^ 32 + ucast (bs ! 5) * 2 ^ 40 + ucast (bs ! 6) * 2 ^ 48 + ucast (bs ! 7) * 2 ^ 56"
    unfolding U8TO64LE_def or.assoc [symmetric] using or by simp
  then show ?thesis unfolding rfc_load_def sum8 by simp
qed

lemma rfc_G_half_nth:
  fixes v :: "u64 list" and x :: u64 and r r' :: nat
  assumes "distinct [a, b, c, d]" "a < length v" "b < length v" "c < length v" "d < length v"
  defines "A \<equiv> v ! a + v ! b + x"
  defines "D \<equiv> word_rotr r (v ! d XOR A)"
  defines "C \<equiv> v ! c + D"
  defines "B \<equiv> word_rotr r' (v ! b XOR C)"
  shows "rfc_G_half v a b c d x r r' = v[a := A, d := D, c := C, b := B]"
  using assms(1-5) by (simp add: rfc_G_half_def Let_def A_def B_def C_def D_def)

lemma rfc_G_mix:
  assumes "distinct [a, b, c, d]" "a < length v" "b < length v" "c < length v" "d < length v"
  shows "rfc_G v a b c d x y = mix_vars v (a, b, c, d) x y"
proof -
  define A where "A = v ! a + v ! b + x"
  define D where "D = word_rotr 32 (v ! d XOR A)"
  define C where "C = v ! c + D"
  define B where "B = word_rotr 24 (v ! b XOR C)"
  define A' where "A' = A + B + y"
  define D' where "D' = word_rotr 16 (D XOR A')"
  define C' where "C' = C + D'"
  define B' where "B' = word_rotr 63 (B XOR C')"
  let ?v = "v[a := A, d := D, c := C, b := B]"
  have "rfc_G_half v a b c d x 32 24 = ?v" using rfc_G_half_nth [OF assms] by (simp only: A_def B_def C_def D_def)
  moreover have "rfc_G_half ?v a b c d y 16 63 = ?v[a := A', d := D', c := C', b := B']"
    using assms rfc_G_half_nth [of a b c d ?v y 16 63] by (simp add: A'_def B'_def C'_def D'_def)
  moreover have "\<dots> = v[a := A', b := B', c := C', d := D']"
    using assms by (intro nth_equalityI) (simp_all add: nth_list_update)
  moreover have "MIX2B (v ! a) (v ! b) (v ! c) (v ! d) x y = (A', B', C', D')"
    unfolding MIX2B_def Let_def by (simp add: ROTR64_rotr A'_def B'_def C'_def D'_def A_def B_def C_def D_def add.assoc)
  ultimately show ?thesis by (simp add: rfc_G_def mix_vars_def)
qed

lemma mix_vars_length [simp]: "length (mix_vars v p x y) = length v"
  by (simp add: mix_vars_def split: prod.split)

lemma rfc_round_mix:
  assumes "length v = 16" "i < 12"
  shows "rfc_round m i v = mix_round m (BLAKE2_sigma ! i) v"
proof -
  have "rfc_SIGMA ! (i mod 10) = BLAKE2_sigma ! i" by (rule rfc_SIGMA_table [OF assms(2)])
  then show ?thesis using assms(1) by (simp add: rfc_round_def mix_round_def rfc_G_mix Let_def)
qed

lemma mix_round_length [simp]: "length (mix_round m s v) = length v"
  by (simp add: mix_round_def Let_def)

lemma rfc_rounds_mix:
  assumes "length v = 16" "n \<le> 12"
  shows "fold (rfc_round m) [0..<n] v = fold (\<lambda>i. mix_round m (BLAKE2_sigma ! i)) [0..<n] v \<and>
    length (fold (\<lambda>i. mix_round m (BLAKE2_sigma ! i)) [0..<n] v) = 16"
  using assms(2) by (induction n) (simp_all add: assms(1) rfc_round_mix)

text \<open>The two words of the byte counter.\<close>

definition count128 :: "nat \<Rightarrow> u64 list" where
  "count128 t = [of_nat t, of_nat (t div 2 ^ 64)]"

lemma work_vector:
  assumes "length h = 8"
  shows "(h @ [i0, i1, i2, i3, i4, i5, i6, i7])[12 := x] = h @ [i0, i1, i2, i3, x, i5, i6, i7]"
    "(h @ [i0, i1, i2, i3, i4, i5, i6, i7])[13 := x] = h @ [i0, i1, i2, i3, i4, x, i6, i7]"
    "(h @ [i0, i1, i2, i3, i4, i5, i6, i7])[14 := x] = h @ [i0, i1, i2, i3, i4, i5, x, i7]"
    "(h @ [i0, i1, i2, i3, i4, i5, i6, i7]) ! 12 = i4" "(h @ [i0, i1, i2, i3, i4, i5, i6, i7]) ! 13 = i5"
    "(h @ [i0, i1, i2, i3, i4, i5, i6, i7]) ! 14 = i6"
  using assms by (simp_all add: list_update_append nth_append numeral_eq_Suc)

lemma compress_rfc:
  assumes h: "length (b2_h s) = 8" and c: "b2_len s = count128 t" and n: "n < 2 ^ 64"
  shows "caml_BLAKE2Compress s data (of_nat n) f = s\<lparr>b2_h := rfc_F (b2_h s) data (t + n) f, b2_len := count128 (t + n)\<rparr>"
proof -
  define m where "m = map (\<lambda>i. U8TO64LE (drop (i * 8) data)) [0..<16]"
  define h where "h = b2_h s"
  define rounds where "rounds = fold (rfc_round m) [0..<12]"
  define mixes where "mixes = fold (\<lambda>i. mix_round m (BLAKE2_sigma ! i)) [0..<12]"
  define ix where "ix = [0..<8 :: nat]"
  define iv where "iv = caml_BLAKE2_iv"
  define t0 t1 :: u64 where "t0 = of_nat (t + n)" and "t1 = of_nat ((t + n) div 2 ^ 64)"
  have len: "b2_len s ! 0 + of_nat n = t0"
    "(if t0 < of_nat n then b2_len s ! 1 + 1 else b2_len s ! 1) = t1"
  proof -
    show "b2_len s ! 0 + of_nat n = t0" by (simp add: c count128_def t0_def)
    have "b2_len s ! 1 = of_nat (t div 2 ^ 64)" by (simp only: c count128_def nth_Cons_Suc nth_Cons_0 One_nat_def)
    then show "(if t0 < of_nat n then b2_len s ! 1 + 1 else b2_len s ! 1) = t1"
      using counter_carry [OF n, of t] by (simp only: t0_def t1_def)
  qed
  obtain h0 h1 h2 h3 h4 h5 h6 h7 where h8: "h = [h0, h1, h2, h3, h4, h5, h6, h7]"
    using assms(1) unfolding h_def by (auto simp: numeral_eq_Suc length_Suc_conv)
  define v where "v = [h0, h1, h2, h3, h4, h5, h6, h7, iv ! 0, iv ! 1, iv ! 2, iv ! 3, iv ! 4 XOR t0, iv ! 5 XOR t1,
      if f then NOT (iv ! 6) else iv ! 6, iv ! 7]"
  obtain i0 i1 i2 i3 i4 i5 i6 i7 where iv8: "iv = [i0, i1, i2, i3, i4, i5, i6, i7]" unfolding iv_def caml_BLAKE2_iv_def by blast
  note wv = work_vector [OF assms(1) [folded h_def]]
  have "(let v = h @ iv; v = v[12 := v ! 12 XOR t0]; v = v[13 := v ! 13 XOR t1]
     in if f then v[14 := NOT (v ! 14)] else v) = v"
    unfolding Let_def iv8 wv v_def h8 by (cases f) simp_all
  then have "rfc_F h data (t + n) f = map (\<lambda>i. h ! i XOR rounds v ! i XOR rounds v ! (i + 8)) ix"
    unfolding rfc_F_def rfc_IV_table rfc_load_U8TO64LE Let_def m_def [symmetric] iv_def [symmetric] t0_def [symmetric] t1_def [symmetric]
      rounds_def [symmetric] ix_def [symmetric] by (simp only:)
  moreover have "caml_BLAKE2Compress s data (of_nat n) f =
      s\<lparr>b2_len := [t0, t1], b2_h := map (\<lambda>i. h ! i XOR (mixes v ! i XOR mixes v ! (i + 8))) ix\<rparr>"
    unfolding caml_BLAKE2Compress_def Let_def len m_def [symmetric] iv_def [symmetric] h_def [symmetric]
      mixes_def [symmetric] ix_def [symmetric]
    by (simp add: h8 v_def)
  moreover have "rounds v = mixes v" using rfc_rounds_mix [of v 12 m] unfolding rounds_def mixes_def by (simp add: v_def)
  ultimately show ?thesis by (simp add: count128_def t0_def t1_def h_def xor.assoc)
qed


subsection \<open>Updates\<close>

text \<open>The chaining state is the hash with the number of bytes compressed so far.\<close>

definition blake2_absorb :: "u64 list \<times> nat \<Rightarrow> u8 list \<Rightarrow> u64 list \<times> nat" where
  "blake2_absorb = (\<lambda>(h, t) b. (rfc_F h b (t + 128) False, t + 128))"

interpretation b2: block_stream blake2_absorb 128 129
  by unfold_locales simp_all

definition blake2_rep :: "BLAKE2_context \<Rightarrow> u64 list \<times> nat \<Rightarrow> u8 list \<Rightarrow> bool" where
  "blake2_rep s st rest \<longleftrightarrow> b2_h s = fst st \<and> length (fst st) = 8 \<and> b2_len s = count128 (snd st) \<and>
     length (b2_buffer s) = 128 \<and> b2_numbytes s = length rest \<and> take (length rest) (b2_buffer s) = rest"

lemma rfc_F_length: "length (rfc_F h b t f) = 8"
  by (simp add: rfc_F_def Let_def)

lemma compress_rep:
  assumes "length (fst st) = 8" "b2_h s = fst st" "b2_len s = count128 (snd st)"
  shows "caml_BLAKE2Compress s b (of_nat BLAKE2_BLOCKSIZE) False =
    s\<lparr>b2_h := fst (blake2_absorb st b), b2_len := count128 (snd (blake2_absorb st b))\<rparr>"
    "length (fst (blake2_absorb st b)) = 8"
  using assms compress_rfc [of s "snd st" 128 b False] by (simp_all add: BLAKE2_BLOCKSIZE_def blake2_absorb_def split_beta rfc_F_length)

lemma blake2_blocks_rep:
  assumes "length (fst st) = 8" "b2_h s = fst st" "b2_len s = count128 (snd st)" "length (b2_buffer s) = 128" "b2.feed st data = (st', rest)"
  shows "blake2_rep (blake2_blocks s data) st' rest"
  using assms
proof (induction st data arbitrary: s rule: b2.feed.induct)
  case (1 st data)
  show ?case
  proof (cases "129 \<le> length data")
    case True
    note c = compress_rep [OF 1(2-4), of "take 128 data"]
    have step: "blake2_blocks s data =
        blake2_blocks (caml_BLAKE2Compress s (take BLAKE2_BLOCKSIZE data) (of_nat BLAKE2_BLOCKSIZE) False) (drop 128 data)"
      using True by (subst blake2_blocks.simps) (simp add: BLAKE2_BLOCKSIZE_def)
    have "b2.feed (blake2_absorb st (take 128 data)) (drop 128 data) = (st', rest)" using 1(6) True by (simp add: b2.feed_long)
    from 1(1) [OF True c(2) _ _ _ this, of "caml_BLAKE2Compress s (take 128 data) (of_nat BLAKE2_BLOCKSIZE) False"] 1(5) c(1) step
    show ?thesis by (simp add: BLAKE2_BLOCKSIZE_def)
  next
    case False
    then have r: "st' = st" "rest = data" using 1(6) by (simp_all add: b2.feed_short)
    have "blake2_blocks s data = s\<lparr>b2_buffer := memcpy (b2_buffer s) 0 data, b2_numbytes := length data\<rparr>"
      using False by (subst blake2_blocks.simps) (simp add: BLAKE2_BLOCKSIZE_def)
    then show ?thesis using False 1(2-5) by (simp add: blake2_rep_def r memcpy_def)
  qed
qed

lemma blake2_update_rep:
  assumes rep: "blake2_rep s st rest" and feed: "b2.feed st (rest @ data) = (st', rest')"
  shows "blake2_rep (caml_BLAKE2Update s data) st' rest'"
proof -
  note r = rep [unfolded blake2_rep_def]
  have le: "length rest \<le> 128"
  proof -
    have "min (length (b2_buffer s)) (length rest) = length rest" using r by (metis length_take)
    then show ?thesis using r by simp
  qed
  consider (empty) "rest = []" | (short) "rest \<noteq> []" "length data \<le> 128 - length rest"
    | (long) "rest \<noteq> []" "128 - length rest < length data" by linarith
  then show ?thesis
  proof cases
    case empty
    then show ?thesis using blake2_blocks_rep [of st s data st' rest'] r feed by (simp add: caml_BLAKE2Update_def)
  next
    case short
    then have f: "st' = st" "rest' = rest @ data" using feed le by (simp_all add: b2.feed_short)
    have "take (length rest + length data) (memcpy (b2_buffer s) (length rest) data) = rest @ data"
      using r le take_memcpy [of "length rest" "b2_buffer s" data] by simp
    then show ?thesis using short r le by (simp add: caml_BLAKE2Update_def blake2_rep_def f BLAKE2_BLOCKSIZE_def)
  next
    case long
    define b where "b = rest @ take (128 - length rest) data"
    define s1 where "s1 = s\<lparr>b2_buffer := b\<rparr>"
    have b: "memcpy (b2_buffer s) (length rest) (take (128 - length rest) data) = b"
      using long r le by (simp add: memcpy_def b_def)
    have upd: "caml_BLAKE2Update s data =
      blake2_blocks (caml_BLAKE2Compress s1 b (of_nat BLAKE2_BLOCKSIZE) False) (drop (128 - length rest) data)"
      using long r b by (simp add: caml_BLAKE2Update_def BLAKE2_BLOCKSIZE_def s1_def)
    have lb: "length b = 128" using long le by (simp add: b_def)
    have c: "caml_BLAKE2Compress s1 b (of_nat BLAKE2_BLOCKSIZE) False =
        s1\<lparr>b2_h := fst (blake2_absorb st b), b2_len := count128 (snd (blake2_absorb st b))\<rparr>" "length (fst (blake2_absorb st b)) = 8"
      using compress_rep [of st s1 b] r by (simp_all add: s1_def)
    have "b2.feed (blake2_absorb st b) (drop (128 - length rest) data) = (st', rest')"
      using feed long le by (simp add: b2.feed_long b_def)
    from blake2_blocks_rep [OF c(2) _ _ _ this, of "caml_BLAKE2Compress s1 b (of_nat BLAKE2_BLOCKSIZE) False"] lb
    show ?thesis unfolding upd c(1) by (simp add: s1_def)
  qed
qed

lemma rfc_blocks_feed:
  "rfc_blocks h t d = (case b2.feed (h, t) d of ((h', t'), rest) \<Rightarrow> rfc_F h' (rest @ replicate (128 - length rest) 0) (t' + length rest) True)"
proof (induction h t d rule: rfc_blocks.induct)
  case (1 h t d)
  show ?case
  proof (cases "128 < length d")
    case True
    have "blake2_absorb (h, t) (take 128 d) = (rfc_F h (take 128 d) (t + 128) False, t + 128)" by (simp add: blake2_absorb_def)
    with 1 True show ?thesis by (subst rfc_blocks.simps) (simp add: b2.feed_long)
  next
    case False
    then show ?thesis by (subst rfc_blocks.simps) (simp add: b2.feed_short)
  qed
qed


lemma blake2_init_rep:
  assumes "length (b2_buffer s) = 128" "length key \<le> 64" "hashlen \<le> 64"
  shows "blake2_rep (caml_BLAKE2Init s hashlen key)
    (caml_BLAKE2_iv[0 := caml_BLAKE2_iv ! 0 XOR 0x01010000 XOR push_bit 8 (of_nat (length key)) XOR of_nat hashlen], 0)
    (if key = [] then [] else key @ replicate (128 - length key) 0)"
proof -
  have small: "i < 7" if "bit (of_nat n :: u64) i" "n \<le> 64" for n i
  proof (rule ccontr)
    assume "\<not> i < 7"
    then have "(2 :: nat) ^ 7 \<le> 2 ^ i" by (intro power_increasing) simp_all
    then have "n div 2 ^ i = 0" using that(2) by simp
    then have "\<not> bit n i" by (simp add: bit_iff_odd)
    then show False using that(1) by (simp add: bit_simps)
  qed
  have "(0x01010000 OR push_bit 8 (of_nat (length key)) OR of_nat hashlen :: u64) =
      0x01010000 XOR push_bit 8 (of_nat (length key)) XOR of_nat hashlen"
  proof (rule bit_eqI)
    fix i
    have c: "bit (0x01010000 :: u64) i \<longleftrightarrow> i = 16 \<or> i = 24"
    proof -
      have "(0x01010000 :: u64) = 2 ^ 16 OR 2 ^ 24" by code_simp
      then show ?thesis unfolding \<open>(0x01010000 :: u64) = 2 ^ 16 OR 2 ^ 24\<close> bit_or_iff bit_exp_iff by auto
    qed
    show "bit (0x01010000 OR push_bit 8 (of_nat (length key)) OR of_nat hashlen :: u64) i \<longleftrightarrow>
      bit (0x01010000 XOR push_bit 8 (of_nat (length key)) XOR of_nat hashlen :: u64) i"
      using small [of "length key" "i - 8"] small [of hashlen i] assms(2,3) unfolding bit_or_iff bit_xor_iff c bit_push_bit_iff by auto
  qed
  then have "caml_BLAKE2_iv ! 0 XOR (0x01010000 OR push_bit 8 (of_nat (length key)) OR of_nat hashlen) =
      caml_BLAKE2_iv ! 0 XOR 0x01010000 XOR push_bit 8 (of_nat (length key)) XOR (of_nat hashlen :: u64)" by (simp only: xor.assoc)
  moreover have "length caml_BLAKE2_iv = 8" by (simp add: caml_BLAKE2_iv_def)
  ultimately show ?thesis using assms(1,2)
    by (auto simp: blake2_rep_def caml_BLAKE2Init_def Let_def count128_def BLAKE2_BLOCKSIZE_def memcpy_def)
qed

lemma blake2_updates_rep:
  "blake2_rep s st rest \<Longrightarrow> b2.feeds (st, rest) cs = (st', rest') \<Longrightarrow>
    blake2_rep (fold (\<lambda>c s. caml_BLAKE2Update s c) cs s) st' rest'"
proof (induction cs arbitrary: s st rest)
  case (Cons c cs)
  obtain st1 rest1 where f: "b2.feed st (rest @ c) = (st1, rest1)" by (cases "b2.feed st (rest @ c)") blast
  from Cons.IH [OF blake2_update_rep [OF Cons.prems(1) f]] Cons.prems(2) f show ?case by (simp add: b2.feeds_def)
qed (simp add: b2.feeds_def)

lemma blake2_final_rep:
  assumes rep: "blake2_rep s (h, t) rest" and n: "hashlen \<le> 64"
  shows "caml_BLAKE2Final s hashlen = take hashlen (concat (map le64 (rfc_F h (rest @ replicate (128 - length rest) 0) (t + length rest) True)))"
proof -
  note r = rep [unfolded blake2_rep_def]
  have "min (length (b2_buffer s)) (length rest) = length rest" using r by (metis length_take)
  then have le: "length rest \<le> 128" using r by simp
  define b where "b = rest @ replicate (128 - length rest) 0"
  have b: "memcpy (b2_buffer s) (length rest) (replicate (128 - length rest) 0) = b"
    using r le by (simp add: memcpy_def b_def)
  define h' where "h' = rfc_F h b (t + length rest) True"
  have c: "b2_h (caml_BLAKE2Compress (s\<lparr>b2_buffer := b\<rparr>) b (of_nat (length rest)) True) = h'"
    using compress_rfc [of "s\<lparr>b2_buffer := b\<rparr>" t "length rest" b True] r le by (simp add: h'_def)
  have l8: "length h' = 8" by (simp add: h'_def rfc_F_length)
  have fin: "caml_BLAKE2Final s hashlen = map (\<lambda>i. ucast (drop_bit (8 * (i mod 8)) (h' ! (i div 8)))) [0..<hashlen]"
    using r b c by (simp add: caml_BLAKE2Final_def Let_def BLAKE2_BLOCKSIZE_def)
  show ?thesis unfolding fin b_def [symmetric] h'_def [symmetric]
  proof (rule nth_equalityI)
    have len: "length (concat (map le64 h')) = 64"
      by (simp add: length_concat comp_def le64_def l8 sum_list_replicate map_replicate_const)
    then show "length (map (\<lambda>i. ucast (drop_bit (8 * (i mod 8)) (h' ! (i div 8))) :: u8) [0..<hashlen]) =
        length (take hashlen (concat (map le64 h')))" using n by simp
    fix i assume "i < length (map (\<lambda>i. ucast (drop_bit (8 * (i mod 8)) (h' ! (i div 8))) :: u8) [0..<hashlen])"
    then have i: "i < hashlen" by simp
    have "concat (map le64 xs) ! i = le64 (xs ! (i div 8)) ! (i mod 8)" if "i < 8 * length xs" for xs i
      using that
    proof (induction xs arbitrary: i)
      case (Cons x xs)
      show ?case
      proof (cases "i < 8")
        case True
        then show ?thesis by (simp add: nth_append le64_def)
      next
        case False
        have l: "length (le64 x) = 8" by (simp add: le64_def)
        from False have "i div 8 = Suc ((i - 8) div 8)" "i mod 8 = (i - 8) mod 8" by (simp_all add: le_div_geq le_mod_geq)
        then show ?thesis using False Cons.IH [of "i - 8"] Cons.prems by (simp add: nth_append l)
      qed
    qed simp
    then show "map (\<lambda>i. ucast (drop_bit (8 * (i mod 8)) (h' ! (i div 8)))) [0..<hashlen] ! i = take hashlen (concat (map le64 h')) ! i"
      using i n l8 by (simp add: le64_def)
  qed
qed


subsection \<open>Theorems\<close>

text \<open>
  C33: a message that is passed to \<open>caml_BLAKE2Update\<close> in parts of any sizes has the hash of RFC 7693, for every key of at most 64 bytes and
  every hash size from 1 to 64, whatever the buffer held before: the compression function with its tables is that of the RFC (whose constants are
  derived from square roots here), the last block is held back until the message is known to end, and the byte counter is carried to 128 bits.
\<close>

theorem blake2_streaming:
  assumes "length (b2_buffer s) = 128" "length key \<le> 64" "0 < hashlen" "hashlen \<le> 64"
  shows "caml_BLAKE2Final (fold (\<lambda>c s. caml_BLAKE2Update s c) cs (caml_BLAKE2Init s hashlen key)) hashlen =
    rfc_BLAKE2b hashlen key (concat cs)"
proof -
  define h where "h = caml_BLAKE2_iv[0 := caml_BLAKE2_iv ! 0 XOR 0x01010000 XOR push_bit 8 (of_nat (length key)) XOR of_nat hashlen]"
  define k where "k = (if key = [] then [] else key @ replicate (128 - length key) 0)"
  have init: "blake2_rep (caml_BLAKE2Init s hashlen key) (h, 0) k" unfolding h_def k_def by (rule blake2_init_rep [OF assms(1,2,4)])
  obtain h' t' rest where f: "b2.feed (h, 0) (k @ concat cs) = ((h', t'), rest)" by (metis prod.exhaust)
  have "length k < 129" using assms(2) by (auto simp: k_def)
  then have "b2.feeds ((h, 0), k) cs = ((h', t'), rest)" using f by (simp add: b2.feeds_concat)
  from blake2_final_rep [OF blake2_updates_rep [OF init this] assms(4)]
  have "caml_BLAKE2Final (fold (\<lambda>c s. caml_BLAKE2Update s c) cs (caml_BLAKE2Init s hashlen key)) hashlen =
      take hashlen (concat (map le64 (rfc_blocks h 0 (k @ concat cs))))" by (simp add: rfc_blocks_feed f)
  then show ?thesis unfolding rfc_BLAKE2b_def rfc_IV_table h_def k_def Let_def by (simp add: if_distrib)
qed

definition sample_blake2 :: BLAKE2_context where
  "sample_blake2 = \<lparr>b2_h = [], b2_len = [], b2_numbytes = 0, b2_buffer = replicate 128 0\<rparr>"

theorem blake2_streaming_witness:
  "caml_BLAKE2Final (fold (\<lambda>c s. caml_BLAKE2Update s c) [[97], [98, 99]] (caml_BLAKE2Init sample_blake2 32 [7])) 32 =
    rfc_BLAKE2b 32 [7] (concat [[97], [98, 99]])"
  by (rule blake2_streaming) (simp_all add: sample_blake2_def)

end
