(* ===== verification/Strmatch.thy ===== *)
theory Strmatch
  imports Str
begin

text \<open>
  The matcher of the library \<open>str\<close> (\<open>otherlibs/str/strstubs.c\<close>): the backtracking interpreter of compiled regular expressions and the search
  functions on top of it. The text, the program and the constants are in C memory; the groups,
  the registers and the backtrack stack, which are local variables of \<open>re_match\<close>, are lists.
\<close>

subsection \<open>The interpreter\<close>

text \<open>
  A backtrack point is a program point to resume at or an assignment to undo. The C code tells them apart by the low bit of the first
  word. The pointer \<open>undo.loc\<close> goes to the start or end of a group or to a register.
\<close>

datatype undo_loc = Group_start nat | Group_end nat | Register nat

datatype backtrack_point = Pos addr addr | Undo undo_loc addr

definition BACKTRACK_STACK_BLOCK_SIZE :: nat where "BACKTRACK_STACK_BLOCK_SIZE = 200"

text \<open>The chained blocks of the stack, the current one first, each with its latest point first.\<close>

type_synonym backtrack_stack = "backtrack_point list list"

definition Opcode :: "u64 \<Rightarrow> u64" where "Opcode x = x AND 0xFF"
definition Arg :: "u64 \<Rightarrow> u64" where "Arg x = drop_bit 8 x"
definition SignedArg :: "u64 \<Rightarrow> u64" where "SignedArg x = signed_drop_bit 8 x"

datatype re_op = CHAR_op | CHARNORM | STRING | STRINGNORM | CHARCLASS | BOL | EOL | WORDBOUNDARY | BEGGROUP | ENDGROUP | REFGROUP
  | ACCEPT | SIMPLEOPT | SIMPLESTAR | SIMPLEPLUS | GOTO | PUSHBACK | SETMARK | CHECKPROGRESS

definition re_ops :: "re_op list" where
  "re_ops = [CHAR_op, CHARNORM, STRING, STRINGNORM, CHARCLASS, BOL, EOL, WORDBOUNDARY, BEGGROUP, ENDGROUP, REFGROUP,
     ACCEPT, SIMPLEOPT, SIMPLESTAR, SIMPLEPLUS, GOTO, PUSHBACK, SETMARK, CHECKPROGRESS]"

definition re_op_of :: "u64 \<Rightarrow> re_op option" where
  "re_op_of x = (if unat x < length re_ops then Some (re_ops ! unat x) else None)"

definition Prog :: "mem \<Rightarrow> val \<Rightarrow> val" where "Prog m re = Field m re 0"
definition Cpool :: "mem \<Rightarrow> val \<Rightarrow> val" where "Cpool m re = Field m re 1"
definition Normtable :: "mem \<Rightarrow> val \<Rightarrow> val" where "Normtable m re = Field m re 2"
definition Numgroups :: "mem \<Rightarrow> val \<Rightarrow> u32" where "Numgroups m re = Int_val (Field m re 3)"
definition Numregisters :: "mem \<Rightarrow> val \<Rightarrow> u32" where "Numregisters m re = Int_val (Field m re 4)"
definition Startchars :: "mem \<Rightarrow> val \<Rightarrow> u32" where "Startchars m re = Int_val (Field m re 5)"

definition DEFAULT_NUM_GROUPS :: nat where "DEFAULT_NUM_GROUPS = 10"
definition NUM_REGISTERS :: nat where "NUM_REGISTERS = 64"

record re_group =
  g_start :: addr
  g_end :: addr

text \<open>The membership of a character in a bit vector.\<close>

definition In_bitset :: "mem \<Rightarrow> addr \<Rightarrow> u8 \<Rightarrow> bool" where
  "In_bitset m s c = bit (m (s + ucast (drop_bit 3 c))) (unat (c AND 7))"

definition re_word_letters :: "u8 list" where
  "re_word_letters =
    [0x00, 0x00, 0x00, 0x00,
     0x00, 0x00, 0xFF, 0x03,
     0xFE, 0xFF, 0xFF, 0x87,
     0xFE, 0xFF, 0xFF, 0x07,
     0x00, 0x00, 0x00, 0x00,
     0x00, 0x00, 0x00, 0x00,
     0xFF, 0xFF, 0x7F, 0xFF,
     0xFF, 0xFF, 0x7F, 0xFF]"

definition Is_word_letter :: "u8 \<Rightarrow> bool" where
  "Is_word_letter c = bit (re_word_letters ! unat (drop_bit 3 c)) (unat (c AND 7))"

text \<open>The array of the positions of the groups, -1 for a group that was not matched.\<close>

definition set_group :: "val \<Rightarrow> addr \<Rightarrow> re_group list \<Rightarrow> nat \<Rightarrow> mem \<Rightarrow> mem" where
  "set_group res starttxt groups i m =
     (let group = groups ! i in
      if g_start group = 0 \<or> g_end group = 0
      then Set_Field (Set_Field m res (of_nat (i * 2)) (Val_int (- 1))) res (of_nat (i * 2 + 1)) (Val_int (- 1))
      else Set_Field (Set_Field m res (of_nat (i * 2)) (Val_long (g_start group - starttxt)))
             res (of_nat (i * 2 + 1)) (Val_long (g_end group - starttxt)))"

definition re_alloc_groups :: "heap \<Rightarrow> val \<Rightarrow> addr \<Rightarrow> re_group list \<Rightarrow> (heap \<times> val) option" where
  "re_alloc_groups hp re starttxt groups =
     (let n = Numgroups (hp_mem hp) re in
      case caml_alloc hp (scast (n * 2)) 0 of
        None \<Rightarrow> None
      | Some (hp, res) \<Rightarrow> Some (hp\<lparr>hp_mem := fold (set_group res starttxt groups) [0..<nat (sint n)] (hp_mem hp)\<rparr>, res))"

text \<open>What stays fixed during a match, and the state of the interpreter without its stack.\<close>

record re_ctx =
  c_mem :: mem
  c_cpool :: val
  c_normtable :: val
  c_starttxt :: addr
  c_endtxt :: addr
  c_partial :: bool

record re_state =
  m_pc :: addr
  m_txt :: addr
  m_groups :: "re_group list"
  m_register :: "addr list"

text \<open>
  How an instruction ends: with the next one, at one of the labels \<open>push\<close>, \<open>prefix_match\<close>, \<open>backtrack\<close>, \<open>accept\<close>, in the \<open>default\<close> case of the
  switch, or with an access outside of an array.
\<close>

datatype re_next =
    Next re_state
  | Push backtrack_point re_state
  | Prefix_match re_state
  | Backtrack re_state
  | Accept re_state
  | Impossible
  | Undefined

text \<open>The inner loops. They report how they end, and the position they have reached.\<close>

datatype run_end = Matched | At_end | Mismatch

function run_string :: "mem \<Rightarrow> (u8 \<Rightarrow> u8) \<Rightarrow> addr \<Rightarrow> addr \<Rightarrow> addr \<Rightarrow> run_end \<times> addr" where
  "run_string m norm endtxt s txt =
     (if m s = 0 then (Matched, txt)
      else if txt = endtxt then (At_end, txt)
      else if m s \<noteq> norm (m txt) then (Mismatch, txt)
      else run_string m norm endtxt (s + 1) (txt + 1))"
  by pat_completeness auto

function run_group :: "mem \<Rightarrow> addr \<Rightarrow> addr \<Rightarrow> addr \<Rightarrow> addr \<Rightarrow> run_end \<times> addr" where
  "run_group m endtxt group_end s txt =
     (if s < group_end
      then if txt = endtxt then (At_end, txt)
           else if m s \<noteq> m txt then (Mismatch, txt)
           else run_group m endtxt group_end (s + 1) (txt + 1)
      else (Matched, txt))"
  by pat_completeness auto

function run_set :: "mem \<Rightarrow> addr \<Rightarrow> addr \<Rightarrow> addr \<Rightarrow> addr" where
  "run_set m charset endtxt txt = (if txt < endtxt \<and> In_bitset m charset (m txt) then run_set m charset endtxt (txt + 1) else txt)"
  by pat_completeness auto

lemma distance_decreases: "a \<noteq> b \<Longrightarrow> unat (b - (a + 1)) < unat (b - a)" for a b :: addr
proof -
  assume "a \<noteq> b"
  then have nz: "b - a \<noteq> 0" by simp
  from unat_minus_one [OF this] have "unat (b - a - 1) = unat (b - a) - 1" .
  moreover have "0 < unat (b - a)" using nz by (simp add: unat_gt_0)
  ultimately show ?thesis by (simp add: diff_diff_eq)
qed

termination run_string
  by (relation "measure (\<lambda>(_, _, endtxt, _, txt). unat (endtxt - txt))") (use distance_decreases in auto)

termination run_group
  by (relation "measure (\<lambda>(_, endtxt, _, _, txt). unat (endtxt - txt))") (use distance_decreases in auto)

termination run_set
  by (relation "measure (\<lambda>(_, _, endtxt, txt). unat (endtxt - txt))") (use distance_decreases in auto)

declare run_string.simps [simp del] run_group.simps [simp del] run_set.simps [simp del]

definition run_next :: "run_end \<times> addr \<Rightarrow> re_state \<Rightarrow> re_next" where
  "run_next r s =
     (case r of
        (Matched, txt) \<Rightarrow> Next (s\<lparr>m_txt := txt\<rparr>)
      | (At_end, txt) \<Rightarrow> Prefix_match (s\<lparr>m_txt := txt\<rparr>)
      | (Mismatch, txt) \<Rightarrow> Backtrack (s\<lparr>m_txt := txt\<rparr>))"

text \<open>The cases that read one character.\<close>

definition one_char :: "re_ctx \<Rightarrow> (u8 \<Rightarrow> bool) \<Rightarrow> re_state \<Rightarrow> re_next" where
  "one_char c P s =
     (if m_txt s = c_endtxt c then Prefix_match s
      else if P (c_mem c (m_txt s)) then Next (s\<lparr>m_txt := m_txt s + 1\<rparr>)
      else Backtrack s)"

definition word_boundary :: "re_ctx \<Rightarrow> re_state \<Rightarrow> re_next" where
  "word_boundary c s =
     (let m = c_mem c; txt = m_txt s in
      if txt = c_starttxt c
      then if txt = c_endtxt c then Prefix_match s
           else if Is_word_letter (m txt) then Next s else Backtrack s
      else if txt = c_endtxt c
      then if Is_word_letter (m (txt - 1)) then Next s else Backtrack s
      else if Is_word_letter (m (txt - 1)) \<noteq> Is_word_letter (m txt) then Next s else Backtrack s)"

definition re_exec :: "re_ctx \<Rightarrow> re_op \<Rightarrow> u64 \<Rightarrow> re_state \<Rightarrow> re_next" where
  "re_exec c opcode instr s =
     (let m = c_mem c; txt = m_txt s; endtxt = c_endtxt c;
          const = Field m (c_cpool c) (Arg instr);
          no = unat (ucast (Arg instr) :: u32)
      in case opcode of
           CHAR_op \<Rightarrow> one_char c (\<lambda>x. ucast x = Arg instr) s
         | CHARNORM \<Rightarrow> one_char c (\<lambda>x. ucast (Byte_u m (c_normtable c) (ucast x)) = Arg instr) s
         | STRING \<Rightarrow> run_next (run_string m (\<lambda>x. x) endtxt const txt) s
         | STRINGNORM \<Rightarrow> run_next (run_string m (\<lambda>x. Byte_u m (c_normtable c) (ucast x)) endtxt const txt) s
         | CHARCLASS \<Rightarrow> one_char c (In_bitset m const) s
         | BOL \<Rightarrow> if txt > c_starttxt c \<and> m (txt - 1) \<noteq> 10 then Backtrack s else Next s
         | EOL \<Rightarrow> if txt < endtxt \<and> m txt \<noteq> 10 then Backtrack s else Next s
         | WORDBOUNDARY \<Rightarrow> word_boundary c s
         | BEGGROUP \<Rightarrow>
             if no < length (m_groups s)
             then Push (Undo (Group_start no) (g_start (m_groups s ! no)))
                    (s\<lparr>m_groups := (m_groups s)[no := (m_groups s ! no)\<lparr>g_start := txt\<rparr>]\<rparr>)
             else Undefined
         | ENDGROUP \<Rightarrow>
             if no < length (m_groups s)
             then Push (Undo (Group_end no) (g_end (m_groups s ! no)))
                    (s\<lparr>m_groups := (m_groups s)[no := (m_groups s ! no)\<lparr>g_end := txt\<rparr>]\<rparr>)
             else Undefined
         | REFGROUP \<Rightarrow>
             if no < length (m_groups s)
             then let group = m_groups s ! no in
                  if g_start group = 0 \<or> g_end group = 0 then Backtrack s
                  else run_next (run_group m endtxt (g_end group) (g_start group) txt) s
             else Undefined
         | ACCEPT \<Rightarrow> Accept s
         | SIMPLEOPT \<Rightarrow> Next (if txt < endtxt \<and> In_bitset m const (m txt) then s\<lparr>m_txt := txt + 1\<rparr> else s)
         | SIMPLESTAR \<Rightarrow> Next (s\<lparr>m_txt := run_set m const endtxt txt\<rparr>)
         | SIMPLEPLUS \<Rightarrow>
             if txt = endtxt then Prefix_match s
             else if \<not> In_bitset m const (m txt) then Backtrack s
             else Next (s\<lparr>m_txt := run_set m const endtxt (txt + 1)\<rparr>)
         | GOTO \<Rightarrow> Next (s\<lparr>m_pc := m_pc s + 8 * SignedArg instr\<rparr>)
         | PUSHBACK \<Rightarrow> Push (Pos (m_pc s + 8 * SignedArg instr) txt) s
         | SETMARK \<Rightarrow>
             if no < length (m_register s)
             then Push (Undo (Register no) (m_register s ! no)) (s\<lparr>m_register := (m_register s)[no := txt]\<rparr>)
             else Undefined
         | CHECKPROGRESS \<Rightarrow>
             if no < length (m_register s)
             then if m_register s ! no = txt then Backtrack s else Next s
             else Undefined)"

definition re_step :: "re_ctx \<Rightarrow> re_state \<Rightarrow> re_next" where
  "re_step c s =
     (let instr = Long_val (load64 (c_mem c) (m_pc s)); s = s\<lparr>m_pc := m_pc s + 8\<rparr>
      in case re_op_of (Opcode instr) of None \<Rightarrow> Impossible | Some opcode \<Rightarrow> re_exec c opcode instr s)"

text \<open>The label \<open>push\<close>. A new block of the stack has 3208 bytes.\<close>

definition push_point :: "nat \<Rightarrow> backtrack_point \<Rightarrow> backtrack_stack \<Rightarrow> backtrack_stack res" where
  "push_point lim back stack =
     (case stack of
        [] \<Rightarrow> Inr [[back]]
      | block # previous \<Rightarrow>
          if length block = BACKTRACK_STACK_BLOCK_SIZE
          then if 8 + 16 * BACKTRACK_STACK_BLOCK_SIZE \<le> lim then Inr ([back] # stack) else Inl Out_of_memory
          else Inr ((back # block) # previous))"

definition undo :: "undo_loc \<Rightarrow> addr \<Rightarrow> re_state \<Rightarrow> re_state" where
  "undo loc v s =
     (case loc of
        Group_start n \<Rightarrow> s\<lparr>m_groups := (m_groups s)[n := (m_groups s ! n)\<lparr>g_start := v\<rparr>]\<rparr>
      | Group_end n \<Rightarrow> s\<lparr>m_groups := (m_groups s)[n := (m_groups s ! n)\<lparr>g_end := v\<rparr>]\<rparr>
      | Register n \<Rightarrow> s\<lparr>m_register := (m_register s)[n := v]\<rparr>)"

text \<open>The label \<open>backtrack\<close>: nothing when there is no program point left (\<open>reject\<close>).\<close>

fun backtrack :: "backtrack_stack \<Rightarrow> re_state \<Rightarrow> (backtrack_stack \<times> re_state) option" where
  "backtrack [] s = None"
| "backtrack [[]] s = None"
| "backtrack ([] # block # previous) s = backtrack (block # previous) s"
| "backtrack ((Pos pc txt # block) # previous) s = Some (block # previous, s\<lparr>m_pc := pc, m_txt := txt\<rparr>)"
| "backtrack ((Undo loc v # block) # previous) s = backtrack (block # previous) (undo loc v s)"

text \<open>
  One round of the main loop: the stack and the state to continue with, or the end of the loop at \<open>accept\<close> (the final state), at
  \<open>reject\<close> (nothing), or with an error.
\<close>

definition re_resume :: "backtrack_stack \<Rightarrow> re_state \<Rightarrow> (backtrack_stack \<times> re_state) + re_state option res option" where
  "re_resume stack s = (case backtrack stack s of None \<Rightarrow> Inr (Some (Inr None)) | Some q \<Rightarrow> Inl q)"

definition re_round :: "nat \<Rightarrow> re_ctx \<Rightarrow> backtrack_stack \<Rightarrow> re_state \<Rightarrow> (backtrack_stack \<times> re_state) + re_state option res option" where
  "re_round lim c stack s =
     (case re_step c s of
        Next s \<Rightarrow> Inl (stack, s)
      | Push back s \<Rightarrow> (case push_point lim back stack of Inl e \<Rightarrow> Inr (Some (Inl e)) | Inr stack \<Rightarrow> Inl (stack, s))
      | Prefix_match s \<Rightarrow> if c_partial c then Inr (Some (Inr (Some s))) else re_resume stack s
      | Backtrack s \<Rightarrow> re_resume stack s
      | Accept s \<Rightarrow> Inr (Some (Inr (Some s)))
      | Impossible \<Rightarrow> Inr (Some (Inl (Fatal_error ''impossible case in re_match'')))
      | Undefined \<Rightarrow> Inr None)"

partial_function (option) re_loop :: "nat \<Rightarrow> re_ctx \<Rightarrow> backtrack_stack \<Rightarrow> re_state \<Rightarrow> re_state option res option" where
  "re_loop lim c stack s = (case re_round lim c stack s of Inl (stack, s) \<Rightarrow> re_loop lim c stack s | Inr r \<Rightarrow> r)"

text \<open>
  The contents of the uninitialised arrays are the parameter \<open>junk\<close>; \<open>re_match\<close> sets all groups but the first to NULL, the used registers, and the
  start of the first group.
\<close>

definition init_groups :: "(nat \<Rightarrow> addr) \<Rightarrow> u32 \<Rightarrow> addr \<Rightarrow> re_group list" where
  "init_groups junk numgroups txt =
     (let n = if sint numgroups \<le> int DEFAULT_NUM_GROUPS then DEFAULT_NUM_GROUPS else nat (sint numgroups);
          groups = map (\<lambda>i. if 1 \<le> i \<and> int i < sint numgroups then \<lparr>g_start = 0, g_end = 0\<rparr>
                             else \<lparr>g_start = junk (2 * i), g_end = junk (2 * i + 1)\<rparr>) [0..<n]
      in groups[0 := (groups ! 0)\<lparr>g_start := txt\<rparr>])"

definition init_registers :: "(nat \<Rightarrow> addr) \<Rightarrow> u32 \<Rightarrow> addr list" where
  "init_registers junk numregisters = map (\<lambda>i. if int i < sint numregisters then 0 else junk i) [0..<NUM_REGISTERS]"

definition re_match :: "nat \<Rightarrow> (nat \<Rightarrow> addr) \<Rightarrow> heap \<Rightarrow> val \<Rightarrow> addr \<Rightarrow> addr \<Rightarrow> addr \<Rightarrow> bool \<Rightarrow> (heap \<times> val) res option" where
  "re_match lim junk hp re starttxt txt endtxt accept_partial_match =
     (let m = hp_mem hp; numgroups = Numgroups m re in
      if sint numgroups > int DEFAULT_NUM_GROUPS \<and> 16 * sint numgroups > int lim then Some (Inl Out_of_memory)
      else if sint (Numregisters m re) > int NUM_REGISTERS then None
      else
        let c = \<lparr>c_mem = m, c_cpool = Cpool m re, c_normtable = Normtable m re, c_starttxt = starttxt, c_endtxt = endtxt,
                 c_partial = accept_partial_match\<rparr>;
            s = \<lparr>m_pc = Prog m re, m_txt = txt, m_groups = init_groups junk numgroups txt,
                 m_register = init_registers junk (Numregisters m re)\<rparr>
        in case re_loop lim c [[]] s of
             None \<Rightarrow> None
           | Some (Inl e) \<Rightarrow> Some (Inl e)
           | Some (Inr None) \<Rightarrow> Some (Inr (hp, 0))
           | Some (Inr (Some s)) \<Rightarrow>
               let groups = (m_groups s)[0 := (m_groups s ! 0)\<lparr>g_end := m_txt s\<rparr>]
               in map_option Inr (re_alloc_groups hp re starttxt groups))"

subsection \<open>Matching and searching\<close>

definition or_atom :: "(heap \<times> val) res option \<Rightarrow> (heap \<times> val) res option" where
  "or_atom r =
     (case r of
        Some (Inr (hp, res)) \<Rightarrow> Some (Inr (hp, if res = 0 then caml_atom hp 0 else res))
      | _ \<Rightarrow> r)"

definition re_string_match :: "nat \<Rightarrow> (nat \<Rightarrow> addr) \<Rightarrow> heap \<Rightarrow> val \<Rightarrow> val \<Rightarrow> val \<Rightarrow> (heap \<times> val) res option" where
  "re_string_match lim junk hp re str pos =
     (let starttxt = str; txt = str + Long_val pos; endtxt = str + caml_string_length (hp_mem hp) str in
      if txt < starttxt \<or> txt > endtxt then Some (Inl (Invalid_argument ''Str.string_match''))
      else or_atom (re_match lim junk hp re starttxt txt endtxt False))"

definition re_partial_match :: "nat \<Rightarrow> (nat \<Rightarrow> addr) \<Rightarrow> heap \<Rightarrow> val \<Rightarrow> val \<Rightarrow> val \<Rightarrow> (heap \<times> val) res option" where
  "re_partial_match lim junk hp re str pos =
     (let starttxt = str; txt = str + Long_val pos; endtxt = str + caml_string_length (hp_mem hp) str in
      if txt < starttxt \<or> txt > endtxt then Some (Inl (Invalid_argument ''Str.string_partial_match''))
      else or_atom (re_match lim junk hp re starttxt txt endtxt True))"

text \<open>The loops that skip the characters that no match starts with.\<close>

function skip_forward :: "mem \<Rightarrow> addr \<Rightarrow> addr \<Rightarrow> addr \<Rightarrow> addr" where
  "skip_forward m startchars endtxt txt =
     (if txt < endtxt \<and> m (startchars + ucast (m txt)) = 0 then skip_forward m startchars endtxt (txt + 1) else txt)"
  by pat_completeness auto

termination skip_forward
  by (relation "measure (\<lambda>(_, _, endtxt, txt). unat (endtxt - txt))") (use distance_decreases in auto)

function skip_backward :: "mem \<Rightarrow> addr \<Rightarrow> addr \<Rightarrow> addr \<Rightarrow> addr" where
  "skip_backward m startchars starttxt txt =
     (if txt > starttxt \<and> m (startchars + ucast (m txt)) = 0 then skip_backward m startchars starttxt (txt - 1) else txt)"
  by pat_completeness auto

termination skip_backward
proof (relation "measure (\<lambda>(_, _, _, txt). unat txt)", simp)
  fix m :: mem and startchars starttxt p :: addr
  assume "p > starttxt \<and> m (startchars + ucast (m p)) = 0"
  then have "p \<noteq> 0" by auto
  then show "((m, startchars, starttxt, p - 1), m, startchars, starttxt, p) \<in> measure (\<lambda>(_, _, _, txt). unat txt)"
    using unat_minus_one [of p] by (simp add: unat_gt_0)
qed

declare skip_forward.simps [simp del] skip_backward.simps [simp del]

text \<open>The two loops of each search differ in skipping only: \<open>skip\<close> is the identity when there are no start characters.\<close>

partial_function (option) search_forward :: "nat \<Rightarrow> (nat \<Rightarrow> addr) \<Rightarrow> (addr \<Rightarrow> addr) \<Rightarrow> heap \<Rightarrow> val \<Rightarrow> addr \<Rightarrow> addr \<Rightarrow> addr \<Rightarrow> (heap \<times> val) res option" where
  "search_forward lim junk skip hp re starttxt endtxt txt =
     (let txt = skip txt in
      case re_match lim junk hp re starttxt txt endtxt False of
        None \<Rightarrow> None
      | Some (Inl e) \<Rightarrow> Some (Inl e)
      | Some (Inr (hp, res)) \<Rightarrow>
          if res \<noteq> 0 then Some (Inr (hp, res))
          else if txt + 1 \<le> endtxt then search_forward lim junk skip hp re starttxt endtxt (txt + 1)
          else Some (Inr (hp, caml_atom hp 0)))"

partial_function (option) search_backward :: "nat \<Rightarrow> (nat \<Rightarrow> addr) \<Rightarrow> (addr \<Rightarrow> addr) \<Rightarrow> heap \<Rightarrow> val \<Rightarrow> addr \<Rightarrow> addr \<Rightarrow> addr \<Rightarrow> (heap \<times> val) res option" where
  "search_backward lim junk skip hp re starttxt endtxt txt =
     (let txt = skip txt in
      case re_match lim junk hp re starttxt txt endtxt False of
        None \<Rightarrow> None
      | Some (Inl e) \<Rightarrow> Some (Inl e)
      | Some (Inr (hp, res)) \<Rightarrow>
          if res \<noteq> 0 then Some (Inr (hp, res))
          else if txt - 1 \<ge> starttxt then search_backward lim junk skip hp re starttxt endtxt (txt - 1)
          else Some (Inr (hp, caml_atom hp 0)))"

definition startchars_of :: "mem \<Rightarrow> val \<Rightarrow> addr" where
  "startchars_of m re = Field m (Cpool m re) (scast (Startchars m re))"

definition re_search_forward :: "nat \<Rightarrow> (nat \<Rightarrow> addr) \<Rightarrow> heap \<Rightarrow> val \<Rightarrow> val \<Rightarrow> val \<Rightarrow> (heap \<times> val) res option" where
  "re_search_forward lim junk hp re str startpos =
     (let m = hp_mem hp; starttxt = str; txt = str + Long_val startpos; endtxt = str + caml_string_length m str in
      if txt < starttxt \<or> txt > endtxt then Some (Inl (Invalid_argument ''Str.search_forward''))
      else if Startchars m re = - 1 then search_forward lim junk (\<lambda>txt. txt) hp re starttxt endtxt txt
      else search_forward lim junk (skip_forward m (startchars_of m re) endtxt) hp re starttxt endtxt txt)"

definition re_search_backward :: "nat \<Rightarrow> (nat \<Rightarrow> addr) \<Rightarrow> heap \<Rightarrow> val \<Rightarrow> val \<Rightarrow> val \<Rightarrow> (heap \<times> val) res option" where
  "re_search_backward lim junk hp re str startpos =
     (let m = hp_mem hp; starttxt = str; txt = str + Long_val startpos; endtxt = str + caml_string_length m str in
      if txt < starttxt \<or> txt > endtxt then Some (Inl (Invalid_argument ''Str.search_backward''))
      else if Startchars m re = - 1 then search_backward lim junk (\<lambda>txt. txt) hp re starttxt endtxt txt
      else search_backward lim junk (skip_backward m (startchars_of m re) starttxt) hp re starttxt endtxt txt)"

subsection \<open>Backtracking as a search\<close>

text \<open>
  The abstract reading of a program: a search for the first accepting run, where a failure after PUSHBACK leads to the other
  alternative in the state at the PUSHBACK. There is no stack and nothing is undone.
\<close>

inductive search :: "re_ctx \<Rightarrow> re_state \<Rightarrow> re_state option \<Rightarrow> bool" for c where
  accept: "re_step c s = Accept s' \<Longrightarrow> search c s (Some s')"
| partial: "re_step c s = Prefix_match s' \<Longrightarrow> c_partial c \<Longrightarrow> search c s (Some s')"
| prefix: "re_step c s = Prefix_match s' \<Longrightarrow> \<not> c_partial c \<Longrightarrow> search c s None"
| fails: "re_step c s = Backtrack s' \<Longrightarrow> search c s None"
| goes: "re_step c s = Next s' \<Longrightarrow> search c s' r \<Longrightarrow> search c s r"
| assigns: "re_step c s = Push (Undo loc v) s' \<Longrightarrow> search c s' r \<Longrightarrow> search c s r"
| first: "re_step c s = Push (Pos pc p) s' \<Longrightarrow> search c s' (Some r) \<Longrightarrow> search c s (Some r)"
| second: "re_step c s = Push (Pos pc p) s' \<Longrightarrow> search c s' None \<Longrightarrow> search c (s\<lparr>m_pc := pc, m_txt := p\<rparr>) r \<Longrightarrow> search c s r"

definition same_vars :: "re_state \<Rightarrow> re_state \<Rightarrow> bool" where
  "same_vars s s' \<longleftrightarrow> m_groups s = m_groups s' \<and> m_register s = m_register s'"

lemma same_vars_simps [simp]: "same_vars s s" "same_vars (s\<lparr>m_pc := a, m_txt := b\<rparr>) s' = same_vars s s'"
  "same_vars (s\<lparr>m_pc := a\<rparr>) s' = same_vars s s'" "same_vars (s\<lparr>m_txt := a\<rparr>) s' = same_vars s s'"
  by (simp_all add: same_vars_def)

lemma group_restore:
  "no < length g \<Longrightarrow> (g[no := (g ! no)\<lparr>g_start := x\<rparr>])[no := ((g[no := (g ! no)\<lparr>g_start := x\<rparr>]) ! no)\<lparr>g_start := g_start (g ! no)\<rparr>] = g"
  "no < length g \<Longrightarrow> (g[no := (g ! no)\<lparr>g_end := x\<rparr>])[no := ((g[no := (g ! no)\<lparr>g_end := x\<rparr>]) ! no)\<lparr>g_end := g_end (g ! no)\<rparr>] = g"
  by simp_all

text \<open>An instruction changes groups and registers only together with a point that undoes the change.\<close>

definition frame_ok :: "re_state \<Rightarrow> re_next \<Rightarrow> bool" where
  "frame_ok s r = (case r of
     Next s' \<Rightarrow> same_vars s' s
   | Push (Undo loc v) s' \<Rightarrow> same_vars (undo loc v s') s
   | Push (Pos _ _) s' \<Rightarrow> same_vars s' s
   | Prefix_match s' \<Rightarrow> same_vars s' s
   | Backtrack s' \<Rightarrow> same_vars s' s
   | Accept s' \<Rightarrow> same_vars s' s
   | _ \<Rightarrow> True)"

lemma frame_simple: "frame_ok s (run_next r s)" "frame_ok s (one_char c P s)" "frame_ok s (word_boundary c s)"
  by (auto simp: frame_ok_def run_next_def one_char_def word_boundary_def Let_def split: prod.splits run_end.splits)

lemma re_exec_frame: "frame_ok s (re_exec c opcode instr s)"
  unfolding re_exec_def Let_def
  by (cases opcode) (simp_all add: frame_simple, simp_all add: frame_ok_def undo_def same_vars_def group_restore)

lemma frame_ok_pc: "frame_ok (s\<lparr>m_pc := a\<rparr>) r = frame_ok s r"
  by (simp add: frame_ok_def same_vars_def split: re_next.split backtrack_point.split)

lemma re_step_frame: "frame_ok s (re_step c s)"
  using re_exec_frame [of "s\<lparr>m_pc := m_pc s + 8\<rparr>" c _ "Long_val (load64 (c_mem c) (m_pc s))"]
  by (auto simp: re_step_def Let_def frame_ok_pc split: option.split) (simp add: frame_ok_def)

fun backtrack_points :: "backtrack_point list \<Rightarrow> re_state \<Rightarrow> (backtrack_point list \<times> re_state) option" where
  "backtrack_points [] s = None"
| "backtrack_points (Pos pc p # ps) s = Some (ps, s\<lparr>m_pc := pc, m_txt := p\<rparr>)"
| "backtrack_points (Undo loc v # ps) s = backtrack_points ps (undo loc v s)"

lemma backtrack_concat:
  "case backtrack_points (concat stack) s of
     None \<Rightarrow> backtrack stack s = None
   | Some (ps, s') \<Rightarrow> \<exists>stack'. concat stack' = ps \<and> backtrack stack s = Some (stack', s')"
  by (induction stack s rule: backtrack.induct) (auto split: option.splits prod.splits)

lemma same_vars_undo: "same_vars s s' \<Longrightarrow> same_vars (undo loc v s) (undo loc v s')"
  by (simp add: undo_def same_vars_def split: undo_loc.split)

lemma backtrack_same_vars: "same_vars s s' \<Longrightarrow> backtrack stack s = backtrack stack s'"
proof (induction stack s arbitrary: s' rule: backtrack.induct)
  case (4 pc p block previous s)
  then show ?case by (cases s, cases s') (simp add: same_vars_def)
qed (auto dest: same_vars_undo)

definition resumed :: "nat \<Rightarrow> re_ctx \<Rightarrow> backtrack_stack \<Rightarrow> re_state \<Rightarrow> re_state option res option" where
  "resumed lim c stack s = (case re_resume stack s of Inl (stack, s) \<Rightarrow> re_loop lim c stack s | Inr r \<Rightarrow> r)"

lemma resumed_same_vars: "same_vars s s' \<Longrightarrow> resumed lim c stack s = resumed lim c stack s'"
  by (simp add: resumed_def re_resume_def backtrack_same_vars)

lemma resumed_Pos:
  "concat stack = Pos pc p # ps \<Longrightarrow> \<exists>stack'. concat stack' = ps \<and> resumed lim c stack s = re_loop lim c stack' (s\<lparr>m_pc := pc, m_txt := p\<rparr>)"
  using backtrack_concat [of stack s] by (auto simp: resumed_def re_resume_def)

lemma backtrack_Undo:
  "concat stack = Undo loc v # ps \<Longrightarrow> \<exists>stack'. concat stack' = ps \<and> (\<forall>s. backtrack stack s = backtrack stack' (undo loc v s))"
proof (induction stack rule: induct_list012)
  case (2 block)
  then show ?case by (auto intro: exI [of _ "[ps]"])
next
  case (3 block block' previous)
  show ?case
  proof (cases block)
    case Nil
    then show ?thesis using 3 by simp
  next
    case (Cons q qs)
    then show ?thesis using 3 by (auto intro: exI [of _ "qs # block' # previous"])
  qed
qed simp

text \<open>The size of allocation from which \<open>malloc\<close> may refuse is below that of a block of the stack.\<close>

definition scarce :: "nat \<Rightarrow> bool" where "scarce lim \<longleftrightarrow> lim < 8 + 16 * BACKTRACK_STACK_BLOCK_SIZE"

lemma push_point_ok:
  "case push_point lim q stack of Inl e \<Rightarrow> scarce lim \<and> e = Out_of_memory | Inr stack' \<Rightarrow> concat stack' = q # concat stack"
  by (auto simp: push_point_def scarce_def split: list.splits)

text \<open>What the loop does with a stack below a search: it accepts, or goes back to what is on the stack with all variables restored.\<close>

definition loop_result :: "nat \<Rightarrow> re_ctx \<Rightarrow> backtrack_point list \<Rightarrow> re_state \<Rightarrow> re_state option \<Rightarrow> re_state option res option \<Rightarrow> bool" where
  "loop_result lim c ps s r out \<longleftrightarrow> scarce lim \<and> out = Some (Inl Out_of_memory) \<or>
     (case r of Some s' \<Rightarrow> out = Some (Inr (Some s'))
      | None \<Rightarrow> \<exists>stack. concat stack = ps \<and> out = resumed lim c stack s)"

lemma loop_result_vars: "same_vars s' s \<Longrightarrow> loop_result lim c ps s' r out \<Longrightarrow> loop_result lim c ps s r out"
  by (auto simp: loop_result_def resumed_same_vars [of s' s] split: option.splits)

lemma re_loop_Next: "re_step c s = Next s' \<Longrightarrow> re_loop lim c stack s = re_loop lim c stack s'"
  by (subst re_loop.simps) (simp add: re_round_def)

lemma re_loop_Push:
  "re_step c s = Push q s' \<Longrightarrow> scarce lim \<and> re_loop lim c stack s = Some (Inl Out_of_memory) \<or>
    (\<exists>stack'. concat stack' = q # concat stack \<and> re_loop lim c stack s = re_loop lim c stack' s')"
proof -
  assume "re_step c s = Push q s'"
  then have "re_loop lim c stack s = (case push_point lim q stack of Inl e \<Rightarrow> Some (Inl e) | Inr stack' \<Rightarrow> re_loop lim c stack' s')"
    by (subst re_loop.simps) (simp add: re_round_def split: sum.split)
  then show ?thesis using push_point_ok [where lim = lim and q = q and stack = stack] by (auto split: sum.splits)
qed

lemma re_loop_resumes:
  "re_step c s = Backtrack s' \<or> re_step c s = Prefix_match s' \<and> \<not> c_partial c \<Longrightarrow> loop_result lim c (concat stack) s None (re_loop lim c stack s)"
proof -
  assume a: "re_step c s = Backtrack s' \<or> re_step c s = Prefix_match s' \<and> \<not> c_partial c"
  then have "same_vars s' s" using re_step_frame [of s c] by (auto simp: frame_ok_def)
  moreover have "re_loop lim c stack s = resumed lim c stack s'" using a by (subst re_loop.simps) (auto simp: re_round_def resumed_def)
  ultimately show ?thesis by (auto simp: loop_result_def resumed_same_vars [of s' s])
qed

lemma re_loop_accepts:
  "re_step c s = Accept s' \<or> re_step c s = Prefix_match s' \<and> c_partial c \<Longrightarrow> loop_result lim c ps s (Some s') (re_loop lim c stack s)"
  by (subst re_loop.simps) (auto simp: loop_result_def re_round_def)

lemma re_loop_search: "search c s r \<Longrightarrow> loop_result lim c (concat stack) s r (re_loop lim c stack s)"
proof (induction arbitrary: stack rule: search.induct)
  case (goes s s' r)
  then have "same_vars s' s" using re_step_frame [of s c] by (simp add: frame_ok_def)
  from loop_result_vars [OF this goes.IH] show ?case by (simp add: re_loop_Next [OF goes(1)])
next
  case (assigns s loc v s' r)
  have u: "same_vars (undo loc v s') s" using re_step_frame [of s c] assigns(1) by (simp add: frame_ok_def)
  have "\<exists>st. concat st = concat stack \<and> resumed lim c st' s' = resumed lim c st s" if "concat st' = Undo loc v # concat stack" for st'
    using backtrack_Undo [OF that] backtrack_same_vars [OF u] by (auto simp: resumed_def re_resume_def)
  then have "loop_result lim c (concat stack) s r out" if "loop_result lim c (Undo loc v # concat stack) s' r out" for out
    using that unfolding loop_result_def by (cases r) (simp_all, blast)
  then show ?case using re_loop_Push [OF assigns(1), of lim stack] assigns.IH by (metis loop_result_def)
next
  case (first s pc p s' r)
  then show ?case using re_loop_Push [OF first(1), of lim stack] by (simp add: loop_result_def) metis
next
  case (second s pc p s' r)
  let ?s = "s\<lparr>m_pc := pc, m_txt := p\<rparr>"
  have "same_vars s' s" using re_step_frame [of s c] second(1) by (simp add: frame_ok_def)
  then have e: "s'\<lparr>m_pc := pc, m_txt := p\<rparr> = ?s" by (cases s, cases s') (simp add: same_vars_def)
  consider "scarce lim" "re_loop lim c stack s = Some (Inl Out_of_memory)"
    | st where "concat st = Pos pc p # concat stack" "re_loop lim c stack s = re_loop lim c st s'"
    using re_loop_Push [OF second(1), of lim stack] by blast
  then show ?case
  proof cases
    case 2
    then consider "scarce lim" "re_loop lim c stack s = Some (Inl Out_of_memory)"
      | st' where "concat st' = Pos pc p # concat stack" "re_loop lim c stack s = resumed lim c st' s'"
      using second.IH(1) [of st] by (auto simp: loop_result_def)
    then show ?thesis
    proof cases
      case 2
      then obtain st'' where "concat st'' = concat stack" "re_loop lim c stack s = re_loop lim c st'' ?s"
        using resumed_Pos [of st' pc p "concat stack" lim c s'] e by auto
      then show ?thesis using loop_result_vars [OF _ second.IH(2) [of st''], of s] by simp
    qed (simp add: loop_result_def)
  qed (simp add: loop_result_def)
qed (auto intro: re_loop_accepts re_loop_resumes)

end
