(* ===== verification/Regexp.thy ===== *)
theory Regexp
  imports Strmatch
begin

text \<open>
  Regular expressions: what they match, and their compilation by \<open>otherlibs/str/str.ml\<close> to the programs that \<open>re_match\<close> interprets. A
  string is the list of its bytes and a character set the 32 bytes of its bit vector. The compiler emits its instructions
  in order and patches the displacements of forward jumps later; here the code of an expression is a list, and a displacement is computed from
  the lengths.
\<close>

subsection \<open>Character sets\<close>

definition lowercase_latin1 :: "u8 \<Rightarrow> u8" where
  "lowercase_latin1 c = (if 65 \<le> c \<and> c \<le> 90 \<or> 192 \<le> c \<and> c \<le> 214 \<or> 216 \<le> c \<and> c \<le> 222 then c + 32 else c)"

definition uppercase_latin1 :: "u8 \<Rightarrow> u8" where
  "uppercase_latin1 c = (if 97 \<le> c \<and> c \<le> 122 \<or> 224 \<le> c \<and> c \<le> 246 \<or> 248 \<le> c \<and> c \<le> 254 then c - 32 else c)"

type_synonym charset = "u8 list"

definition in_charset :: "charset \<Rightarrow> u8 \<Rightarrow> bool" where
  "in_charset s c = bit (s ! unat (drop_bit 3 c)) (unat (c AND 7))"

definition charset_full :: charset where "charset_full = replicate 32 255"
definition make_empty :: charset where "make_empty = replicate 32 0"

definition charset_add :: "charset \<Rightarrow> u8 \<Rightarrow> charset" where
  "charset_add s c = s[unat (drop_bit 3 c) := s ! unat (drop_bit 3 c) OR push_bit (unat (c AND 7)) 1]"

definition singleton :: "u8 \<Rightarrow> charset" where "singleton c = charset_add make_empty c"
definition charset_complement :: "charset \<Rightarrow> charset" where "charset_complement s = map (\<lambda>b. b XOR 0xFF) s"
definition charset_union :: "charset \<Rightarrow> charset \<Rightarrow> charset" where "charset_union s1 s2 = map2 (OR) s1 s2"
definition charset_disjoint :: "charset \<Rightarrow> charset \<Rightarrow> bool" where "charset_disjoint s1 s2 = list_all2 (\<lambda>a b. a AND b = 0) s1 s2"

text \<open>The characters that \<open>iter\<close> calls its function on, in order.\<close>

definition charset_elems :: "charset \<Rightarrow> u8 list" where
  "charset_elems s = filter (in_charset s) (map of_nat [0..<256])"

definition expand :: "charset \<Rightarrow> u8 list" where
  "expand s = fold (\<lambda>c r. r[unat c := 1]) (charset_elems s) (replicate 256 0)"

definition charset_fold_case :: "charset \<Rightarrow> charset" where
  "charset_fold_case s = fold (\<lambda>c r. charset_add (charset_add r (lowercase_latin1 c)) (uppercase_latin1 c)) (charset_elems s) make_empty"

subsection \<open>Regular expressions\<close>

datatype re_syntax =
    Char_re u8
  | String_re "u8 list"
  | CharClass charset bool
  | Seq "re_syntax list"
  | Alt re_syntax re_syntax
  | Star re_syntax
  | Plus_re re_syntax
  | Option_re re_syntax
  | Group nat re_syntax
  | Refgroup nat
  | Bol
  | Eol
  | Wordboundary

fun is_nullable :: "re_syntax \<Rightarrow> bool" where
  "is_nullable (Char_re _) = False"
| "is_nullable (String_re s) = (s = [])"
| "is_nullable (CharClass _ _) = False"
| "is_nullable (Seq rl) = list_all is_nullable rl"
| "is_nullable (Alt r1 r2) = (is_nullable r1 \<or> is_nullable r2)"
| "is_nullable (Star _) = True"
| "is_nullable (Plus_re r) = is_nullable r"
| "is_nullable (Option_re _) = True"
| "is_nullable (Group _ r) = is_nullable r"
| "is_nullable (Refgroup _) = True"
| "is_nullable Bol = True"
| "is_nullable Eol = True"
| "is_nullable Wordboundary = True"

fun first :: "re_syntax \<Rightarrow> charset" and first_seq :: "re_syntax list \<Rightarrow> charset" where
  "first (Char_re c) = singleton c"
| "first (String_re s) = (case s of [] \<Rightarrow> charset_full | c # _ \<Rightarrow> singleton c)"
| "first (CharClass cl cmpl) = (if cmpl then charset_complement cl else cl)"
| "first (Seq rl) = first_seq rl"
| "first (Alt r1 r2) = charset_union (first r1) (first r2)"
| "first (Star _) = charset_full"
| "first (Plus_re r) = first r"
| "first (Option_re _) = charset_full"
| "first (Group _ r) = first r"
| "first (Refgroup _) = charset_full"
| "first Bol = charset_full"
| "first Eol = charset_full"
| "first Wordboundary = charset_full"
| "first_seq [] = charset_full"
| "first_seq (Bol # rl) = first_seq rl"
| "first_seq (Eol # rl) = first_seq rl"
| "first_seq (Wordboundary # rl) = first_seq rl"
| "first_seq (Star r # rl) = charset_union (first r) (first_seq rl)"
| "first_seq (Option_re r # rl) = charset_union (first r) (first_seq rl)"
| "first_seq (r # _) = first r"

subsection \<open>Compilation\<close>

text \<open>The instruction numbers are those of the interpreter.\<close>

primrec op_number :: "re_op \<Rightarrow> u64" where
  "op_number CHAR_op = 0" | "op_number CHARNORM = 1" | "op_number STRING = 2" | "op_number STRINGNORM = 3"
| "op_number CHARCLASS = 4" | "op_number BOL = 5" | "op_number EOL = 6" | "op_number WORDBOUNDARY = 7"
| "op_number BEGGROUP = 8" | "op_number ENDGROUP = 9" | "op_number REFGROUP = 10" | "op_number ACCEPT = 11"
| "op_number SIMPLEOPT = 12" | "op_number SIMPLESTAR = 13" | "op_number SIMPLEPLUS = 14" | "op_number GOTO = 15"
| "op_number PUSHBACK = 16" | "op_number SETMARK = 17" | "op_number CHECKPROGRESS = 18"

definition instr :: "re_op \<Rightarrow> int \<Rightarrow> u64" where
  "instr opc arg = op_number opc OR push_bit 8 (word_of_int arg)"

text \<open>The state of the compiler: the constants in the order of their indices, and two counters.\<close>

record re_compiler =
  k_cpool :: "u8 list list"
  k_numgroups :: nat
  k_numregs :: nat

fun index_in :: "'a list \<Rightarrow> 'a \<Rightarrow> nat" where
  "index_in [] x = 0"
| "index_in (y # ys) x = (if y = x then 0 else Suc (index_in ys x))"

definition cpool_index :: "u8 list \<Rightarrow> re_compiler \<Rightarrow> nat \<times> re_compiler" where
  "cpool_index s k =
     (index_in (k_cpool k) s, if s \<in> set (k_cpool k) then k else k\<lparr>k_cpool := k_cpool k @ [s]\<rparr>)"

definition emit_const :: "re_op \<Rightarrow> u8 list \<Rightarrow> re_compiler \<Rightarrow> u64 list \<times> re_compiler" where
  "emit_const opc s k = (case cpool_index s k of (i, k) \<Rightarrow> ([instr opc (int i)], k))"

definition charclass_of :: "bool \<Rightarrow> charset \<Rightarrow> bool \<Rightarrow> charset" where
  "charclass_of fold_case cl compl =
     (let cl1 = if fold_case then charset_fold_case cl else cl in if compl then charset_complement cl1 else cl1)"

definition emit_char :: "bool \<Rightarrow> u8 \<Rightarrow> u64 list" where
  "emit_char fold_case c =
     (if fold_case then [instr CHARNORM (uint (lowercase_latin1 c))] else [instr CHAR_op (uint c)])"

text \<open>A string is split at its null characters, which the string instructions do not accept.\<close>

function emit_string :: "bool \<Rightarrow> u8 list \<Rightarrow> re_compiler \<Rightarrow> u64 list \<times> re_compiler" where
  "emit_string fold_case s k =
     (case s of
        [] \<Rightarrow> ([], k)
      | [c] \<Rightarrow> (emit_char fold_case c, k)
      | _ \<Rightarrow>
          if 0 \<in> set s
          then let (c1, k) = emit_string fold_case (takeWhile (\<lambda>c. c \<noteq> 0) s) k;
                   (c2, k) = emit_string fold_case (tl (dropWhile (\<lambda>c. c \<noteq> 0) s)) k
               in (c1 @ [instr CHAR_op 0] @ c2, k)
          else if fold_case then emit_const STRINGNORM (map lowercase_latin1 s) k else emit_const STRING s k)"
  by pat_completeness auto

lemma length_takeWhile_less: "x \<in> set xs \<Longrightarrow> \<not> P x \<Longrightarrow> length (takeWhile P xs) < length xs"
  by (induction xs) auto

lemma length_tl_dropWhile_less: "xs \<noteq> [] \<Longrightarrow> length (tl (dropWhile P xs)) < length xs"
  using length_dropWhile_le [of P xs] by (cases xs) auto

termination emit_string
  by (relation "measure (\<lambda>(_, s, _). length s)")
    (simp_all only: wf_measure in_measure prod.case length_tl_dropWhile_less length_takeWhile_less [where x = 0] not_True_eq_False simp_thms list.distinct)

declare emit_string.simps [simp del]

text \<open>The register of a repetition: none when its body makes progress by itself.\<close>

definition allocate_register_if_nullable :: "re_syntax \<Rightarrow> re_compiler \<Rightarrow> (nat option \<times> re_compiler) res" where
  "allocate_register_if_nullable r k =
     (if is_nullable r
      then if 64 \<le> k_numregs k then Inl (Failure ''too many r* or r+ where r is nullable'')
           else Inr (Some (k_numregs k), k\<lparr>k_numregs := k_numregs k + 1\<rparr>)
      else Inr (None, k))"

definition reg_instr :: "re_op \<Rightarrow> nat option \<Rightarrow> u64 list" where
  "reg_instr opc regno = (case regno of None \<Rightarrow> [] | Some n \<Rightarrow> [instr opc (int n)])"

definition bind_emit :: "'a res \<Rightarrow> ('a \<Rightarrow> 'b res) \<Rightarrow> 'b res" where
  "bind_emit r f = (case r of Inl e \<Rightarrow> Inl e | Inr x \<Rightarrow> f x)"

lemma bind_emit_cong [fundef_cong]:
  "r = r' \<Longrightarrow> (\<And>x. r' = Inr x \<Longrightarrow> f x = f' x) \<Longrightarrow> bind_emit r f = bind_emit r' f'"
  by (simp add: bind_emit_def split: sum.split)

definition disjoint_modulo_case :: "bool \<Rightarrow> charset \<Rightarrow> charset \<Rightarrow> bool" where
  "disjoint_modulo_case fold_case c1 c2 =
     (if fold_case then charset_disjoint (charset_fold_case c1) (charset_fold_case c2) else charset_disjoint c1 c2)"

text \<open>The character class of a regular expression that is a character or a class.\<close>

fun charclass_of_regexp :: "bool \<Rightarrow> re_syntax \<Rightarrow> charset option" where
  "charclass_of_regexp fold_case (Char_re c) = Some (charclass_of fold_case (singleton c) False)"
| "charclass_of_regexp fold_case (CharClass cl compl) = Some (charclass_of fold_case cl compl)"
| "charclass_of_regexp fold_case _ = None"

text \<open>A repetition of a character or class at the head of a sequence that cannot start with what it repeats.\<close>

definition simple_class :: "bool \<Rightarrow> re_syntax \<Rightarrow> re_syntax list \<Rightarrow> charset option" where
  "simple_class fold_case r rl =
     (if disjoint_modulo_case fold_case (first r) (first_seq rl) then charclass_of_regexp fold_case r else None)"

definition simple_instr :: "bool \<Rightarrow> re_syntax \<Rightarrow> re_syntax list \<Rightarrow> (re_op \<times> charset) option" where
  "simple_instr fold_case r rl =
     (case r of
        Star r \<Rightarrow> map_option (Pair SIMPLESTAR) (simple_class fold_case r rl)
      | Plus_re r \<Rightarrow> map_option (Pair SIMPLEPLUS) (simple_class fold_case r rl)
      | Option_re r \<Rightarrow> map_option (Pair SIMPLEOPT) (simple_class fold_case r rl)
      | _ \<Rightarrow> None)"

fun emit_code :: "bool \<Rightarrow> re_syntax \<Rightarrow> re_compiler \<Rightarrow> (u64 list \<times> re_compiler) res"
  and emit_seq_code :: "bool \<Rightarrow> re_syntax list \<Rightarrow> re_compiler \<Rightarrow> (u64 list \<times> re_compiler) res" where
  "emit_code fold_case (Char_re c) k = Inr (emit_char fold_case c, k)"
| "emit_code fold_case (String_re s) k = Inr (emit_string fold_case s k)"
| "emit_code fold_case (CharClass cl compl) k = Inr (emit_const CHARCLASS (charclass_of fold_case cl compl) k)"
| "emit_code fold_case (Seq rl) k = emit_seq_code fold_case rl k"
| "emit_code fold_case (Alt r1 r2) k =
     bind_emit (emit_code fold_case r1 k) (\<lambda>(c1, k). bind_emit (emit_code fold_case r2 k) (\<lambda>(c2, k).
       Inr ([instr PUSHBACK (int (length c1) + 1)] @ c1 @ [instr GOTO (int (length c2))] @ c2, k)))"
| "emit_code fold_case (Star r) k =
     bind_emit (allocate_register_if_nullable r k) (\<lambda>(regno, k). bind_emit (emit_code fold_case r k) (\<lambda>(c, k).
       let body = reg_instr SETMARK regno @ c @ reg_instr CHECKPROGRESS regno
       in Inr ([instr PUSHBACK (int (length body) + 1)] @ body @ [instr GOTO (- int (length body) - 2)], k)))"
| "emit_code fold_case (Plus_re r) k =
     bind_emit (allocate_register_if_nullable r k) (\<lambda>(regno, k). bind_emit (emit_code fold_case r k) (\<lambda>(c, k).
       let body = c @ reg_instr CHECKPROGRESS regno; mark = reg_instr SETMARK regno
       in Inr (body @ [instr PUSHBACK (int (length mark) + 1)] @ mark @ [instr GOTO (- int (length body) - int (length mark) - 2)], k)))"
| "emit_code fold_case (Option_re r) k =
     bind_emit (emit_code fold_case r k) (\<lambda>(c, k). Inr ([instr PUSHBACK (int (length c))] @ c, k))"
| "emit_code fold_case (Group n r) k =
     bind_emit (emit_code fold_case r k) (\<lambda>(c, k).
       Inr ([instr BEGGROUP (int n)] @ c @ [instr ENDGROUP (int n)], k\<lparr>k_numgroups := max (k_numgroups k) (n + 1)\<rparr>))"
| "emit_code fold_case (Refgroup n) k =
     Inr ([instr REFGROUP (int n)], k\<lparr>k_numgroups := max (k_numgroups k) (n + 1)\<rparr>)"
| "emit_code fold_case Bol k = Inr ([instr BOL 0], k)"
| "emit_code fold_case Eol k = Inr ([instr EOL 0], k)"
| "emit_code fold_case Wordboundary k = Inr ([instr WORDBOUNDARY 0], k)"
| "emit_seq_code fold_case [] k = Inr ([], k)"
| "emit_seq_code fold_case (r # rl) k =
     (case simple_instr fold_case r rl of
        Some (opc, cl) \<Rightarrow>
          (case emit_const opc cl k of (c1, k) \<Rightarrow> bind_emit (emit_seq_code fold_case rl k) (\<lambda>(c2, k). Inr (c1 @ c2, k)))
      | None \<Rightarrow>
          bind_emit (emit_code fold_case r k) (\<lambda>(c1, k). bind_emit (emit_seq_code fold_case rl k) (\<lambda>(c2, k). Inr (c1 @ c2, k))))"

definition fold_case_table :: "u8 list" where
  "fold_case_table = map (\<lambda>i. lowercase_latin1 (of_nat i)) [0..<256]"

record regexp =
  prog :: "u64 list"
  cpool :: "u8 list list"
  normtable :: "u8 list"
  numgroups :: nat
  numregisters :: nat
  startchars :: "nat option"

definition compile :: "bool \<Rightarrow> re_syntax \<Rightarrow> regexp res" where
  "compile fold_case re =
     bind_emit (emit_code fold_case re \<lparr>k_cpool = [], k_numgroups = 1, k_numregs = 0\<rparr>) (\<lambda>(code, k).
       let start = first re;
           start' = if fold_case then charset_fold_case start else start;
           (start_pos, k) = (if start = charset_full then (None, k) else map_prod Some id (cpool_index (expand start') k))
       in Inr \<lparr>prog = code @ [instr ACCEPT 0], cpool = k_cpool k, normtable = if fold_case then fold_case_table else [],
               numgroups = k_numgroups k, numregisters = k_numregs k, startchars = start_pos\<rparr>)"

end
