(* ===== verification/Rematch.thy ===== *)
theory Rematch
  imports Regexp
begin

text \<open>
  Correctness of the regular expression matcher: the search of the interpreter through the code of an expression finds
  the first of its matches.
\<close>

subsection \<open>Character sets\<close>

lemma charset_index: "unat (drop_bit 3 (c :: u8)) < 32" "unat (c AND 7) < 8"
proof -
  have "unat (drop_bit 3 c) = unat c div 8" by (simp add: drop_bit_eq_div unat_div)
  then show "unat (drop_bit 3 c) < 32" using unat8_less [of c] by simp
  have "unat (c AND (2 ^ 3 - 1)) = unat c mod 2 ^ 3" by (rule unat_and_mask) simp
  then show "unat (c AND 7) < 8" by simp
qed

lemma charset_index_eq: "drop_bit 3 x = drop_bit 3 c \<Longrightarrow> x AND 7 = c AND 7 \<Longrightarrow> x = (c :: u8)"
proof -
  assume a: "drop_bit 3 x = drop_bit 3 c" "x AND 7 = c AND 7"
  have d: "unat (drop_bit 3 y) = unat y div 8" for y :: u8 by (simp add: drop_bit_eq_div unat_div)
  have m: "unat (y AND 7) = unat y mod 8" for y :: u8 using unat_and_mask [of 3 y] by simp
  have "unat x = 8 * (unat x div 8) + unat x mod 8" by simp
  also have "\<dots> = 8 * (unat c div 8) + unat c mod 8" using a d [of x] d [of c] m [of x] m [of c] by simp
  also have "\<dots> = unat c" by simp
  finally show ?thesis by (simp only: word_unat_eq_iff)
qed

lemma length_charset [simp]: "length make_empty = 32" "length charset_full = 32" "length (charset_add s c) = length s"
  "length (charset_complement s) = length s" "length (singleton c) = 32"
  by (simp_all add: make_empty_def charset_full_def charset_add_def charset_complement_def singleton_def)

lemma length_charset_union [simp]: "length s1 = 32 \<Longrightarrow> length s2 = 32 \<Longrightarrow> length (charset_union s1 s2) = 32"
  by (simp add: charset_union_def)

lemma bit_255: "bit (255 :: u8) n \<longleftrightarrow> n < 8"
proof -
  have e: "(255 :: u8) = mask 8" by (simp add: mask_eq_exp_minus_1)
  show ?thesis unfolding e bit_mask_iff by auto
qed

lemma in_charset_simps [simp]: "\<not> in_charset make_empty c" "in_charset charset_full c"
  using charset_index [of c] bit_255 [of "unat (c AND 7)"] by (simp_all add: in_charset_def make_empty_def charset_full_def)

lemma in_charset_add [simp]: "length s = 32 \<Longrightarrow> in_charset (charset_add s c) x \<longleftrightarrow> in_charset s x \<or> x = c"
proof -
  assume l: "length s = 32"
  have b: "bit (push_bit (unat (c AND 7)) 1 :: u8) (unat (x AND 7)) \<longleftrightarrow> x AND 7 = c AND 7"
  proof -
    have "bit (push_bit k 1 :: u8) j \<longleftrightarrow> j = k" if "j < 8" for j k
      unfolding bit_push_bit_iff bit_1_iff using that by auto
    from this [OF charset_index(2) [of x]] show ?thesis by (simp only: word_unat_eq_iff)
  qed
  show ?thesis
  proof (cases "drop_bit 3 x = drop_bit 3 c")
    case True
    then show ?thesis using l b charset_index(1) [of c] charset_index_eq [of x c]
      by (auto simp: in_charset_def charset_add_def bit_or_iff simp del: push_bit_of_1)
  next
    case False
    then have "unat (drop_bit 3 c) \<noteq> unat (drop_bit 3 x)" "x \<noteq> c" using word_unat_eq_iff by metis+
    then show ?thesis using l by (simp add: in_charset_def charset_add_def)
  qed
qed

lemma in_charset_singleton [simp]: "in_charset (singleton c) x \<longleftrightarrow> x = c"
  by (simp add: singleton_def)

lemma in_charset_complement [simp]: "length s = 32 \<Longrightarrow> in_charset (charset_complement s) c \<longleftrightarrow> \<not> in_charset s c"
  using charset_index [of c] bit_255 [of "unat (c AND 7)"] by (simp add: in_charset_def charset_complement_def bit_xor_iff)

lemma in_charset_union [simp]:
  "length s1 = 32 \<Longrightarrow> length s2 = 32 \<Longrightarrow> in_charset (charset_union s1 s2) c \<longleftrightarrow> in_charset s1 c \<or> in_charset s2 c"
  using charset_index [of c] by (simp add: in_charset_def charset_union_def bit_or_iff)

lemma charset_disjointD:
  "charset_disjoint s1 s2 \<Longrightarrow> length s1 = 32 \<Longrightarrow> in_charset s1 c \<Longrightarrow> \<not> in_charset s2 c"
proof -
  assume a: "charset_disjoint s1 s2" "length s1 = 32" "in_charset s1 c"
  let ?i = "unat (drop_bit 3 c)" and ?j = "unat (c AND 7)"
  have "s1 ! ?i AND s2 ! ?i = 0" using a charset_index(1) [of c] by (simp add: charset_disjoint_def list_all2_conv_all_nth)
  then have "\<not> bit (s1 ! ?i AND s2 ! ?i) ?j" by simp
  then show ?thesis using a(3) by (simp add: in_charset_def bit_and_iff)
qed

lemma charset_elems_iff [simp]: "c \<in> set (charset_elems s) \<longleftrightarrow> in_charset s c"
proof -
  have "c \<in> of_nat ` {0..<256}" using unat8_less [of c] by (intro image_eqI [of _ _ "unat c"]) auto
  then show ?thesis by (auto simp: charset_elems_def)
qed

lemma fold_case_fold:
  "length r = 32 \<Longrightarrow> length (fold (\<lambda>c r. charset_add (charset_add r (lowercase_latin1 c)) (uppercase_latin1 c)) cs r) = 32 \<and>
   (in_charset (fold (\<lambda>c r. charset_add (charset_add r (lowercase_latin1 c)) (uppercase_latin1 c)) cs r) x \<longleftrightarrow>
     in_charset r x \<or> (\<exists>c\<in>set cs. x = lowercase_latin1 c \<or> x = uppercase_latin1 c))"
  by (induction cs arbitrary: r) auto

lemma length_fold_case [simp]: "length (charset_fold_case s) = 32"
  and in_fold_case: "in_charset (charset_fold_case s) x \<longleftrightarrow> (\<exists>c. in_charset s c \<and> (x = lowercase_latin1 c \<or> x = uppercase_latin1 c))"
  using fold_case_fold [of make_empty "charset_elems s" x] by (auto simp: charset_fold_case_def)

lemma expand_fold:
  fixes r cs :: "u8 list"
  shows "length r = 256 \<Longrightarrow> length (fold (\<lambda>c r. r[unat c := 1]) cs r) = 256 \<and>
    fold (\<lambda>c r. r[unat c := 1]) cs r ! unat x = (if x \<in> set cs then 1 else r ! unat x)"
proof (induction cs arbitrary: r)
  case (Cons c cs)
  have "unat c < 256" "unat x < 256" using unat8_less [of c] unat8_less [of x] by simp_all
  moreover have "x \<noteq> c \<Longrightarrow> unat c \<noteq> unat x" by (simp add: word_unat_eq_iff)
  ultimately show ?case using Cons.IH [of "r[unat c := 1]"] Cons.prems by (cases "x = c") auto
qed simp

lemma expand_nth: "length (expand s) = 256" "expand s ! unat c = (if in_charset s c then 1 else 0)"
  using expand_fold [of "replicate 256 0" "charset_elems s" c] unat8_less [of c] by (simp_all add: expand_def)

lemma charset_union_full: "length s = 32 \<Longrightarrow> charset_union s charset_full = charset_full" "length s = 32 \<Longrightarrow> charset_union charset_full s = charset_full"
proof -
  have "(255 :: u8) = - 1" by simp
  then have e: "x OR 255 = 255" "255 OR x = 255" for x :: u8 by (metis bit.disj_one_right bit.disj_one_left)+
  show "length s = 32 \<Longrightarrow> charset_union s charset_full = charset_full" "length s = 32 \<Longrightarrow> charset_union charset_full s = charset_full"
    by (auto simp: charset_union_def charset_full_def e intro!: nth_equalityI)
qed

text \<open>The two cases of a letter.\<close>

definition upper_range :: "nat \<Rightarrow> bool" where
  "upper_range n \<longleftrightarrow> 65 \<le> n \<and> n \<le> 90 \<or> 192 \<le> n \<and> n \<le> 214 \<or> 216 \<le> n \<and> n \<le> 222"

definition lower_range :: "nat \<Rightarrow> bool" where
  "lower_range n \<longleftrightarrow> 97 \<le> n \<and> n \<le> 122 \<or> 224 \<le> n \<and> n \<le> 246 \<or> 248 \<le> n \<and> n \<le> 254"

lemma case_ranges:
  "upper_range n \<Longrightarrow> lower_range (n + 32) \<and> \<not> lower_range n \<and> \<not> upper_range (n + 32)"
  "lower_range n \<Longrightarrow> 32 \<le> n \<and> upper_range (n - 32) \<and> \<not> upper_range n"
  "\<not> upper_range 0"
  unfolding upper_range_def lower_range_def by auto

lemma lowercase_unat: "unat (lowercase_latin1 c) = (if upper_range (unat c) then unat c + 32 else unat c)"
  unfolding lowercase_latin1_def upper_range_def by (auto simp: word_le_nat_alt unat_word_ariths)

lemma uppercase_unat: "unat (uppercase_latin1 c) = (if lower_range (unat c) then unat c - 32 else unat c)"
  unfolding uppercase_latin1_def lower_range_def by (auto simp: word_le_nat_alt unat_sub)

lemma case_cases:
  "c = lowercase_latin1 c \<or> c = uppercase_latin1 c"
  "lowercase_latin1 x = lowercase_latin1 c \<longleftrightarrow> x = lowercase_latin1 c \<or> x = uppercase_latin1 c"
  "lowercase_latin1 c = 0 \<longleftrightarrow> c = 0"
proof -
  note r = case_ranges(1) [of "unat x"] case_ranges(1) [of "unat c"] case_ranges(2) [of "unat x"] case_ranges(2) [of "unat c"]
  show "c = lowercase_latin1 c \<or> c = uppercase_latin1 c"
    unfolding word_unat_eq_iff [of c] lowercase_unat uppercase_unat using r by auto
  show "lowercase_latin1 x = lowercase_latin1 c \<longleftrightarrow> x = lowercase_latin1 c \<or> x = uppercase_latin1 c"
    unfolding word_unat_eq_iff lowercase_unat uppercase_unat using r by (auto split: if_splits)
  show "lowercase_latin1 c = 0 \<longleftrightarrow> c = 0"
    unfolding word_unat_eq_iff [of _ 0] lowercase_unat using case_ranges(3) by (cases "unat c = 0") auto
qed

lemma fold_case_full [simp]: "in_charset (charset_fold_case charset_full) c"
  using case_cases(1) [of c] by (auto simp: in_fold_case)

subsection \<open>Matches\<close>

text \<open>
  The meaning of a regular expression: the list of all its matches that start at position \<open>i\<close> of the text \<open>t\<close> with the groups \<open>g\<close>, as end
  positions with groups, in the order of preference (longest repetitions and first alternatives first). An iteration of a repetition
  has to advance.
\<close>

type_synonym group_pos = "nat option \<times> nat option"
type_synonym matcher = "nat \<Rightarrow> group_pos list \<Rightarrow> (nat \<times> group_pos list) list"

definition then_match :: "matcher \<Rightarrow> matcher \<Rightarrow> matcher" where
  "then_match f1 f2 i g = concat (map (\<lambda>(j, g'). f2 j g') (f1 i g))"

definition no_match :: matcher where "no_match i g = []"
definition skip_match :: matcher where "skip_match i g = [(i, g)]"

definition advances :: "matcher \<Rightarrow> matcher" where
  "advances f i g = filter (\<lambda>(j, _). i < j) (f i g)"

function iterate :: "nat \<Rightarrow> matcher \<Rightarrow> matcher" where
  "iterate n f i g = concat (map (\<lambda>(j, g'). if i < j \<and> j \<le> n then iterate n f j g' else []) (f i g)) @ [(i, g)]"
  by pat_completeness auto
termination by (relation "measure (\<lambda>(n, _, i, _). n - i)") auto

declare iterate.simps [simp del]

definition char_match :: "u8 list \<Rightarrow> (u8 \<Rightarrow> bool) \<Rightarrow> matcher" where
  "char_match t P i g = (if i < length t \<and> P (t ! i) then [(i + 1, g)] else [])"

definition ref_match :: "u8 list \<Rightarrow> nat \<Rightarrow> matcher" where
  "ref_match t n i g =
     (case g ! n of
        (Some s, Some e) \<Rightarrow>
          if i + (e - s) \<le> length t \<and> take (e - s) (drop s t) = take (e - s) (drop i t) then [(i + (e - s), g)] else []
      | _ \<Rightarrow> [])"

text \<open>The letters of words: the letters of Latin-1, the digits and the underscore.\<close>

definition word_char :: "u8 \<Rightarrow> bool" where
  "word_char c \<longleftrightarrow> 48 \<le> c \<and> c \<le> 57 \<or> 65 \<le> c \<and> c \<le> 90 \<or> c = 95 \<or> 97 \<le> c \<and> c \<le> 122 \<or> 192 \<le> c \<and> c \<noteq> 215 \<and> c \<noteq> 247"

lemma index_bits: "unat (drop_bit 3 c) = unat c div 8" "unat (c AND 7) = unat c mod 8" for c :: u8
proof -
  show "unat (drop_bit 3 c) = unat c div 8" by (simp add: drop_bit_eq_div unat_div)
  have "(7 :: u8) = mask 3" by (simp add: mask_eq_exp_minus_1)
  then have "c AND 7 = take_bit 3 c" by (simp add: take_bit_eq_mask)
  then show "unat (c AND 7) = unat c mod 8" by (simp add: take_bit_eq_mod unat_mod)
qed

lemma word_letters_table:
  "list_all (\<lambda>k. list_all (\<lambda>j. bit (re_word_letters ! k) j = word_char (of_nat (8 * k + j))) [0..<8]) [0..<32]"
  by (simp add: upt_rec re_word_letters_def word_char_def word_le_nat_alt [of _ 1])

lemma Is_word_letter_eq: "Is_word_letter c = word_char c"
proof -
  have "unat c div 8 < 32" "unat c mod 8 < 8" using unat8_less [of c] by auto
  then have "bit (re_word_letters ! (unat c div 8)) (unat c mod 8) = word_char (of_nat (8 * (unat c div 8) + unat c mod 8))"
    using word_letters_table unfolding list_all_iff set_upt by (simp only: atLeastLessThan_iff le0 simp_thms)
  then show ?thesis unfolding Is_word_letter_def index_bits by simp
qed

definition boundary_match :: "u8 list \<Rightarrow> matcher" where
  "boundary_match t i g =
     (let before = 0 < i \<and> word_char (t ! (i - 1)); after = i < length t \<and> word_char (t ! i)
      in if before \<noteq> after then [(i, g)] else [])"

text \<open>Characters are compared, and classes contain them, up to case when \<open>fold_case\<close> holds.\<close>

definition norm_char :: "bool \<Rightarrow> u8 \<Rightarrow> u8" where
  "norm_char fold_case c = (if fold_case \<and> upper_range (unat c) then c + 32 else c)"

lemma norm_char_eq: "norm_char fold_case c = (if fold_case then lowercase_latin1 c else c)"
  by (auto simp: norm_char_def lowercase_latin1_def upper_range_def word_le_nat_alt)

definition class_has :: "bool \<Rightarrow> charset \<Rightarrow> bool \<Rightarrow> u8 \<Rightarrow> bool" where
  "class_has fold_case cl compl x \<longleftrightarrow> (\<exists>c. in_charset cl c \<and> norm_char fold_case c = norm_char fold_case x) \<noteq> compl"

lemma class_has_eq: "length cl = 32 \<Longrightarrow> class_has fold_case cl compl x = in_charset (charclass_of fold_case cl compl) x"
proof -
  have "lowercase_latin1 c = lowercase_latin1 x \<longleftrightarrow> x = lowercase_latin1 c \<or> x = uppercase_latin1 c" for c
    using case_cases(2) [of x c] by metis
  then show "length cl = 32 \<Longrightarrow> ?thesis" by (auto simp: class_has_def charclass_of_def norm_char_eq in_fold_case Let_def)
qed

primrec matches :: "bool \<Rightarrow> u8 list \<Rightarrow> re_syntax \<Rightarrow> matcher" where
  "matches fc t (Char_re c) = char_match t (\<lambda>x. norm_char fc x = norm_char fc c)"
| "matches fc t (String_re s) = (\<lambda>i g.
     if map (norm_char fc) (take (length s) (drop i t)) = map (norm_char fc) s then [(i + length s, g)] else [])"
| "matches fc t (CharClass cl compl) = char_match t (class_has fc cl compl)"
| "matches fc t (Seq rl) = foldr then_match (map (matches fc t) rl) skip_match"
| "matches fc t (Alt r1 r2) = (\<lambda>i g. matches fc t r1 i g @ matches fc t r2 i g)"
| "matches fc t (Star r) = iterate (length t) (matches fc t r)"
| "matches fc t (Plus_re r) = then_match (matches fc t r) (iterate (length t) (matches fc t r))"
| "matches fc t (Option_re r) = (\<lambda>i g. matches fc t r i g @ [(i, g)])"
| "matches fc t (Group n r) = (\<lambda>i g.
     map (\<lambda>(j, g'). (j, g'[n := (fst (g' ! n), Some j)])) (matches fc t r i (g[n := (Some i, snd (g ! n))])))"
| "matches fc t (Refgroup n) = ref_match t n"
| "matches fc t Bol = (\<lambda>i g. if i = 0 \<or> t ! (i - 1) = 10 then [(i, g)] else [])"
| "matches fc t Eol = (\<lambda>i g. if length t \<le> i \<or> t ! i = 10 then [(i, g)] else [])"
| "matches fc t Wordboundary = boundary_match t"

abbreviation "matches_seq fc t rl \<equiv> matches fc t (Seq rl)"

lemma matches_seq_simps [simp]:
  "matches fc t (Seq []) = skip_match" "matches fc t (Seq (r # rl)) = then_match (matches fc t r) (matches fc t (Seq rl))"
  by simp_all

declare matches.simps(4) [simp del]

text \<open>A match ends at a later position of the text, keeps the number of groups, and leaves their positions in the text.\<close>

definition groups_in :: "nat \<Rightarrow> group_pos list \<Rightarrow> bool" where
  "groups_in n g \<longleftrightarrow> (\<forall>k<length g. \<forall>p. fst (g ! k) = Some p \<or> snd (g ! k) = Some p \<longrightarrow> p \<le> n)"

definition ahead :: "nat \<Rightarrow> nat \<times> group_pos list \<Rightarrow> nat \<times> group_pos list \<Rightarrow> bool" where
  "ahead n p q \<longleftrightarrow> fst p \<le> fst q \<and> fst q \<le> n \<and> length (snd q) = length (snd p) \<and> (groups_in n (snd p) \<longrightarrow> groups_in n (snd q))"

definition forward :: "nat \<Rightarrow> matcher \<Rightarrow> bool" where
  "forward n f \<longleftrightarrow> (\<forall>i g q. i \<le> n \<longrightarrow> q \<in> set (f i g) \<longrightarrow> ahead n (i, g) q)"

lemma ahead_refl: "i \<le> n \<Longrightarrow> ahead n (i, g) (i, g)"
  by (simp add: ahead_def)

lemma ahead_trans: "ahead n p q \<Longrightarrow> ahead n q r \<Longrightarrow> ahead n p r"
  by (auto simp: ahead_def)

lemma aheadD: "ahead n (i, g) (j, g') \<Longrightarrow> i \<le> j \<and> j \<le> n \<and> length g' = length g \<and> (groups_in n g \<longrightarrow> groups_in n g')"
  by (simp add: ahead_def)

lemma forwardD: "forward n f \<Longrightarrow> q \<in> set (f i g) \<Longrightarrow> i \<le> n \<Longrightarrow> ahead n (i, g) q"
  unfolding forward_def by blast

lemma forwardI: "(\<And>i g j g'. i \<le> n \<Longrightarrow> (j, g') \<in> set (f i g) \<Longrightarrow> ahead n (i, g) (j, g')) \<Longrightarrow> forward n f"
  unfolding forward_def by (metis surj_pair)

lemma set_then_match: "x \<in> set (then_match f1 f2 i g) \<longleftrightarrow> (\<exists>j g'. (j, g') \<in> set (f1 i g) \<and> x \<in> set (f2 j g'))"
  by (force simp: then_match_def)

lemma forward_then: "forward n f1 \<Longrightarrow> forward n f2 \<Longrightarrow> forward n (then_match f1 f2)"
proof (rule forwardI)
  fix i g j g'
  assume f: "forward n f1" "forward n f2" and "i \<le> n" "(j, g') \<in> set (then_match f1 f2 i g)"
  then obtain j1 g1 where j1: "(j1, g1) \<in> set (f1 i g)" "(j, g') \<in> set (f2 j1 g1)" by (auto simp: set_then_match)
  note a = forwardD [OF f(1) j1(1) \<open>i \<le> n\<close>]
  from ahead_trans [OF a forwardD [OF f(2) j1(2)]] aheadD [OF a] show "ahead n (i, g) (j, g')" by simp
qed

lemma set_iterate:
  "x \<in> set (iterate n f i g) \<longleftrightarrow> x = (i, g) \<or> (\<exists>j g'. (j, g') \<in> set (f i g) \<and> i < j \<and> j \<le> n \<and> x \<in> set (iterate n f j g'))"
  by (subst iterate.simps) (force split: if_splits)

lemma forward_iterate:
  assumes f: "forward n f"
  shows "forward n (iterate n f)"
proof (rule forwardI)
  fix i g j g'
  assume "i \<le> n" "(j, g') \<in> set (iterate n f i g)"
  then show "ahead n (i, g) (j, g')"
  proof (induction "n - i" arbitrary: i g rule: less_induct)
    case less
    show ?case
    proof (cases "(j, g') = (i, g)")
      case False
      then obtain j1 g1 where j1: "(j1, g1) \<in> set (f i g)" "i < j1" "j1 \<le> n" "(j, g') \<in> set (iterate n f j1 g1)"
        using less.prems(2) set_iterate [of "(j, g')" n f i g] by blast
      then have "n - j1 < n - i" by simp
      from less.hyps [OF this j1(3,4)] forwardD [OF f j1(1) less.prems(1)] show ?thesis using ahead_trans by blast
    qed (use less.prems ahead_refl in simp)
  qed
qed

lemma groups_in_update:
  "groups_in n g \<Longrightarrow> i \<le> n \<Longrightarrow> groups_in n (g[k := (Some i, snd (g ! k))])"
  "groups_in n g \<Longrightarrow> i \<le> n \<Longrightarrow> groups_in n (g[k := (fst (g ! k), Some i)])"
  by (auto simp: groups_in_def nth_list_update_split split: if_splits)

lemma string_match_length: "map f (take (length s) (drop i t)) = map h s \<Longrightarrow> s = [] \<or> i + length s \<le> length t"
  by (drule arg_cong [of _ _ length], cases s) auto

lemma forward_matches: "forward (length t) (matches fc t r)"
proof (induction r)
  case (String_re s)
  then show ?case by (intro forwardI) (auto simp: ahead_def dest: string_match_length split: if_splits)
next
  case (Seq rl)
  have "forward (length t) skip_match" by (rule forwardI) (simp add: skip_match_def ahead_def)
  then show ?case using Seq by (induction rl) (simp_all add: forward_then)
next
  case (Alt r1 r2)
  then show ?case by (intro forwardI) (auto dest: forwardD)
next
  case (Star r)
  then show ?case by (simp add: forward_iterate)
next
  case (Plus_re r)
  then show ?case by (simp add: forward_iterate forward_then)
next
  case (Option_re r)
  then show ?case by (intro forwardI) (auto dest: forwardD simp: ahead_refl)
next
  case (Group n r)
  then show ?case by (intro forwardI) (auto dest!: forwardD simp: ahead_def groups_in_update)
qed (intro forwardI; auto simp: ahead_def char_match_def ref_match_def boundary_match_def Let_def split: if_splits option.splits prod.splits)+

lemma char_match_progress: "(j, g') \<in> set (char_match t P i g) \<Longrightarrow> i < j"
  by (simp add: char_match_def split: if_splits)

text \<open>An expression that is not nullable makes progress.\<close>

lemma not_nullable_progress:
  "\<not> is_nullable r \<Longrightarrow> i \<le> length t \<Longrightarrow> (j, g') \<in> set (matches fc t r i g) \<Longrightarrow> i < j"
proof (induction r arbitrary: i g j g')
  case (Seq rl)
  then show ?case
  proof (induction rl arbitrary: i g)
    case (Cons r rl)
    from Cons.prems(4) obtain j1 g1 where j1: "(j1, g1) \<in> set (matches fc t r i g)" "(j, g') \<in> set (matches_seq fc t rl j1 g1)"
      by (auto simp: set_then_match)
    note f = aheadD [OF forwardD [OF forward_matches j1(1) Cons.prems(3)]]
    note f2 = aheadD [OF forwardD [OF forward_matches j1(2)]]
    show ?case
    proof (cases "is_nullable r")
      case True
      then have n: "\<not> is_nullable (Seq rl)" using Cons.prems(2) by simp
      have "j1 < j" by (rule Cons.IH [OF Cons.prems(1) n _ j1(2)]) (use f in auto)
      then show ?thesis using f by simp
    next
      case False
      from Cons.prems(1) [OF _ this Cons.prems(3) j1(1)] show ?thesis using f2 f by simp
    qed
  qed simp
next
  case (Alt r1 r2)
  then show ?case by auto
next
  case (Plus_re r)
  then obtain j1 g1 where j1: "(j1, g1) \<in> set (matches fc t r i g)" "(j, g') \<in> set (iterate (length t) (matches fc t r) j1 g1)"
    by (auto simp: set_then_match)
  then have "i < j1" using Plus_re by simp
  moreover have "j1 \<le> length t" using aheadD [OF forwardD [OF forward_matches j1(1)]] Plus_re.prems by simp
  ultimately show ?case using aheadD [OF forwardD [OF forward_iterate [OF forward_matches] j1(2)]] by simp
qed (auto dest: char_match_progress split: if_splits)

subsection \<open>First characters\<close>

text \<open>The expressions that the parser of \<open>str.ml\<close> builds: character sets have 32 bytes and groups are numbered from 1.\<close>

primrec re_ok :: "re_syntax \<Rightarrow> bool" where
  "re_ok (Char_re c) = True"
| "re_ok (String_re s) = True"
| "re_ok (CharClass cl compl) = (length cl = 32)"
| "re_ok (Seq rl) = list_all id (map re_ok rl)"
| "re_ok (Alt r1 r2) = (re_ok r1 \<and> re_ok r2)"
| "re_ok (Star r) = re_ok r"
| "re_ok (Plus_re r) = re_ok r"
| "re_ok (Option_re r) = re_ok r"
| "re_ok (Group n r) = (1 \<le> n \<and> re_ok r)"
| "re_ok (Refgroup n) = (1 \<le> n)"
| "re_ok Bol = True"
| "re_ok Eol = True"
| "re_ok Wordboundary = True"

definition folded :: "bool \<Rightarrow> charset \<Rightarrow> charset" where
  "folded fc s = (if fc then charset_fold_case s else s)"

lemma length_first [simp]: "re_ok r \<Longrightarrow> length (first r) = 32" "re_ok (Seq rl) \<Longrightarrow> length (first_seq rl) = 32"
  by (induction r and rl rule: first_first_seq.induct) (simp_all split: list.split)

lemma length_folded [simp]: "length s = 32 \<Longrightarrow> length (folded fc s) = 32"
  by (simp add: folded_def)

lemma in_folded_union:
  "length a = 32 \<Longrightarrow> length b = 32 \<Longrightarrow> in_charset (folded fc (charset_union a b)) c \<longleftrightarrow> in_charset (folded fc a) c \<or> in_charset (folded fc b) c"
  by (auto simp: folded_def in_fold_case)

lemma in_folded_full [simp]: "in_charset (folded fc charset_full) c"
  by (simp add: folded_def)

lemma in_folded_singleton: "in_charset (folded fc (singleton c)) x \<longleftrightarrow> norm_char fc x = norm_char fc c"
  by (simp add: folded_def norm_char_eq in_fold_case case_cases(2))

lemma charclass_folded:
  assumes "length cl = 32" "in_charset (charclass_of fc cl compl) x"
  shows "in_charset (folded fc (if compl then charset_complement cl else cl)) x"
proof (cases "fc \<and> compl")
  case True
  have "\<not> in_charset cl x"
  proof
    assume "in_charset cl x"
    then have "in_charset (charset_fold_case cl) x" using case_cases(1) [of x] by (auto simp: in_fold_case)
    then show False using assms True by (simp add: charclass_of_def)
  qed
  then show ?thesis using True assms(1) case_cases(1) [of x] by (auto simp: folded_def in_fold_case)
qed (use assms in \<open>auto simp: charclass_of_def folded_def Let_def\<close>)

text \<open>A set goes with a position: it contains the character there, or it is full at the end of the text.\<close>

definition starts_in :: "bool \<Rightarrow> u8 list \<Rightarrow> nat \<Rightarrow> charset \<Rightarrow> bool" where
  "starts_in fc t i s = (if i < length t then in_charset (folded fc s) (t ! i) else s = charset_full)"

lemma starts_in_full [simp]: "starts_in fc t i charset_full"
  by (simp add: starts_in_def)

lemma starts_in_union: "length a = 32 \<Longrightarrow> length b = 32 \<Longrightarrow> starts_in fc t i a \<or> starts_in fc t i b \<Longrightarrow> starts_in fc t i (charset_union a b)"
  by (auto simp: starts_in_def in_folded_union charset_union_full)

lemma starts_in_class:
  "length cl = 32 \<Longrightarrow> (j, g') \<in> set (char_match t (class_has fc cl compl) i g) \<Longrightarrow>
    starts_in fc t i (if compl then charset_complement cl else cl)"
  using charclass_folded [of cl fc compl "t ! i"] by (auto simp: starts_in_def char_match_def class_has_eq split: if_splits)

lemma starts_in_string:
  "(j, g') \<in> set (matches fc t (String_re (c # s)) i g) \<Longrightarrow> starts_in fc t i (singleton c)"
proof -
  assume "(j, g') \<in> set (matches fc t (String_re (c # s)) i g)"
  then have m: "map (norm_char fc) (take (length (c # s)) (drop i t)) = map (norm_char fc) (c # s)" by (simp split: if_splits)
  then have "i < length t" using string_match_length [OF m] by simp
  moreover from this have "drop i t = t ! i # drop (Suc i) t" by (rule Cons_nth_drop_Suc [symmetric])
  ultimately show ?thesis using m by (simp add: starts_in_def in_folded_singleton)
qed

lemma then_matchE:
  assumes "(j, g') \<in> set (then_match f1 f2 i g)"
  obtains j1 g1 where "(j1, g1) \<in> set (f1 i g)" "(j, g') \<in> set (f2 j1 g1)"
  using assms by (auto simp: set_then_match)

lemma iterate_start:
  "(j, g') \<in> set (iterate n f i g) \<Longrightarrow> (j, g') = (i, g) \<or> (\<exists>x. x \<in> set (f i g))"
  using set_iterate [of "(j, g')" n f i g] by blast

lemma matches_first:
  "re_ok r \<Longrightarrow> (j, g') \<in> set (matches fc t r i g) \<Longrightarrow> starts_in fc t i (first r)"
  "re_ok (Seq rl) \<Longrightarrow> (j, g') \<in> set (matches_seq fc t rl i g) \<Longrightarrow> starts_in fc t i (first_seq rl)"
proof (induction r and rl arbitrary: j g' i g and j g' i g rule: first_first_seq.induct)
  case (1 c)
  then show ?case by (auto simp: starts_in_def char_match_def in_folded_singleton split: if_splits)
next
  case (2 s)
  then show ?case by (cases s) (auto dest: starts_in_string simp del: matches.simps)
next
  case (3 cl cmpl)
  then show ?case using starts_in_class by simp
next
  case (5 r1 r2)
  then show ?case by (auto intro!: starts_in_union)
next
  case (7 r)
  from 7(3) obtain j1 g1 where "(j1, g1) \<in> set (matches fc t r i g)" by (auto elim: then_matchE)
  then show ?case using 7 by simp
next
  case (9 n r)
  then show ?case by auto
next
  case (15 rl)
  then show ?case by (auto elim!: then_matchE split: if_splits)
next
  case (16 rl)
  then show ?case by (auto elim!: then_matchE split: if_splits)
next
  case (17 rl)
  then show ?case by (auto elim!: then_matchE simp: boundary_match_def Let_def split: if_splits)
next
  case (18 r rl)
  then show ?case by (auto elim!: then_matchE dest!: iterate_start intro!: starts_in_union)
next
  case (19 r rl)
  then show ?case by (auto elim!: then_matchE intro!: starts_in_union)
qed (auto elim!: then_matchE simp del: matches.simps(7))

subsection \<open>Repetitions without backtracking\<close>

text \<open>
  When what follows a repetition of a character class cannot start with a character of the class, the repetition may take as many
  characters as there are.
\<close>

definition greedy :: "u8 list \<Rightarrow> (u8 \<Rightarrow> bool) \<Rightarrow> nat \<Rightarrow> nat" where
  "greedy t P i = i + length (takeWhile P (drop i t))"

lemma greedy_step: "greedy t P i = (if i < length t \<and> P (t ! i) then greedy t P (i + 1) else i)"
proof (cases "i < length t")
  case True
  then have "drop i t = t ! i # drop (Suc i) t" by (rule Cons_nth_drop_Suc [symmetric])
  then show ?thesis using True by (simp add: greedy_def)
qed (simp add: greedy_def)

definition excludes :: "u8 list \<Rightarrow> (u8 \<Rightarrow> bool) \<Rightarrow> matcher \<Rightarrow> bool" where
  "excludes t P f \<longleftrightarrow> (\<forall>i g. i < length t \<longrightarrow> P (t ! i) \<longrightarrow> f i g = [])"

lemma simple_star:
  assumes "excludes t P f"
  shows "then_match (iterate (length t) (char_match t P)) f i g = f (greedy t P i) g"
proof (induction "length t - i" arbitrary: i rule: less_induct)
  case less
  show ?case
  proof (cases "i < length t \<and> P (t ! i)")
    case True
    then have "iterate (length t) (char_match t P) i g = iterate (length t) (char_match t P) (i + 1) g @ [(i, g)]"
      by (subst iterate.simps) (simp add: char_match_def)
    then have "then_match (iterate (length t) (char_match t P)) f i g = then_match (iterate (length t) (char_match t P)) f (i + 1) g @ f i g"
      by (simp add: then_match_def)
    also have "f i g = []" using assms True by (simp add: excludes_def)
    also have "then_match (iterate (length t) (char_match t P)) f (i + 1) g = f (greedy t P (i + 1)) g"
      using less.hyps [of "i + 1"] True by auto
    finally show ?thesis using True greedy_step [of t P i] by simp
  next
    case False
    then have "iterate (length t) (char_match t P) i g = [(i, g)]" by (subst iterate.simps) (auto simp: char_match_def)
    then show ?thesis using False greedy_step [of t P i] by (auto simp: then_match_def)
  qed
qed

lemma then_match_assoc: "then_match (then_match f1 f2) f3 = then_match f1 (then_match f2 f3)"
proof (intro ext)
  fix i g
  have "concat (map h (concat (map k xs))) = concat (map (\<lambda>x. concat (map h (k x))) xs)" for h k and xs :: "(nat \<times> group_pos list) list"
    by (induction xs) auto
  then show "then_match (then_match f1 f2) f3 i g = then_match f1 (then_match f2 f3) i g"
    by (simp add: then_match_def split_def)
qed

lemma simple_plus:
  assumes "excludes t P f"
  shows "then_match (then_match (char_match t P) (iterate (length t) (char_match t P))) f i g =
    (if i < length t \<and> P (t ! i) then f (greedy t P i) g else [])"
  unfolding then_match_assoc using simple_star [OF assms] greedy_step [of t P i]
  by (auto simp: then_match_def [of "char_match t P"] char_match_def)

lemma simple_opt:
  assumes "excludes t P f"
  shows "then_match (\<lambda>i g. char_match t P i g @ [(i, g)]) f i g = (if i < length t \<and> P (t ! i) then f (i + 1) g else f i g)"
  using assms by (auto simp: then_match_def char_match_def excludes_def)

lemma charclass_matches: "charclass_of_regexp fc r = Some cl \<Longrightarrow> re_ok r \<Longrightarrow> matches fc t r = char_match t (in_charset cl)"
  by (cases r) (auto simp: class_has_eq fun_eq_iff char_match_def charclass_of_def [of _ "singleton _"] Let_def in_folded_singleton [unfolded folded_def])

lemma simple_excludes:
  assumes "simple_class fc r rl = Some cl" "re_ok r" "re_ok (Seq rl)"
  shows "excludes t (in_charset cl) (matches_seq fc t rl)"
  unfolding excludes_def
proof (intro allI impI)
  fix i g
  assume i: "i < length t" "in_charset cl (t ! i)"
  have c: "charset_disjoint (folded fc (first r)) (folded fc (first_seq rl))" "charclass_of_regexp fc r = Some cl"
    using assms(1) by (auto simp: simple_class_def disjoint_modulo_case_def folded_def split: if_splits)
  have "(i + 1, g) \<in> set (matches fc t r i g)" using i by (simp add: charclass_matches [OF c(2) assms(2)] char_match_def)
  then have "in_charset (folded fc (first r)) (t ! i)" using matches_first(1) [OF assms(2)] i(1) by (fastforce simp: starts_in_def)
  then have n: "\<not> in_charset (folded fc (first_seq rl)) (t ! i)" using charset_disjointD [OF c(1)] assms(2) by simp
  show "matches_seq fc t rl i g = []"
  proof (rule ccontr)
    assume "matches_seq fc t rl i g \<noteq> []"
    then obtain j g' where "(j, g') \<in> set (matches_seq fc t rl i g)" by (metis list.set_intros(1) neq_Nil_conv surj_pair)
    then show False using matches_first(2) [OF assms(3)] n i(1) by (fastforce simp: starts_in_def)
  qed
qed

end
