(* ===== verification/Reexec.thy ===== *)
theory Reexec
  imports Rematch
begin

text \<open>
  The execution of compiled regular expressions by the interpreter of \<open>Strmatch\<close>. A piece of code \<open>runs\<close> a matcher when
  the search from its start tries the matches of the matcher in order at its end; the lemmas build this up for the code of each construct.
\<close>

subsection \<open>Instructions\<close>

lemma op_number_less: "op_number opc < 19"
  by (cases opc) simp_all

lemma re_op_of_number: "re_op_of (op_number opc) = Some opc"
  by (cases opc) (simp_all add: re_op_of_def re_ops_def)

lemma bit_op_number: "bit (op_number opc) n \<Longrightarrow> n < 8"
proof -
  have "unat (op_number opc) < 2 ^ 8" using op_number_less [of opc] by (simp add: word_less_nat_alt)
  then show "bit (op_number opc) n \<Longrightarrow> n < 8" by (rule word_bit_bound)
qed

lemma bit_instr: "bit (instr opc a) n \<longleftrightarrow> n < 64 \<and> (if n < 8 then bit (op_number opc) n else bit (word_of_int a :: u64) (n - 8))"
  using bit_op_number [of opc n] by (auto simp: instr_def bit_or_iff bit_push_bit_iff dest: bit_imp_le_length)

lemma Opcode_instr: "Opcode (instr opc a) = op_number opc"
proof -
  have e: "(0xFF :: u64) = mask 8" by (simp add: mask_eq_exp_minus_1)
  show ?thesis unfolding Opcode_def e
    by (rule bit_word_eqI) (auto simp: bit_and_iff bit_mask_iff bit_instr dest: bit_op_number)
qed

lemma instr_int: "instr opc a = word_of_int (uint (op_number opc) + 256 * a)"
proof -
  have "instr opc a = op_number opc + push_bit 8 (word_of_int a)"
    unfolding instr_def by (rule disjunctive_add [symmetric]) (auto simp: bit_push_bit_iff dest: bit_op_number)
  also have "\<dots> = word_of_int (uint (op_number opc) + 256 * a)" by (simp add: push_bit_eq_mult mult.commute)
  finally show ?thesis .
qed

lemma op_number_int: "0 \<le> uint (op_number opc)" "uint (op_number opc) < 19"
  using op_number_less [of opc] by (simp_all add: word_less_def)

definition small :: "int \<Rightarrow> bool" where "small a \<longleftrightarrow> - (2 ^ 50) \<le> a \<and> a < 2 ^ 50"

lemma sint_instr: "small a \<Longrightarrow> sint (instr opc a) = uint (op_number opc) + 256 * a"
proof -
  assume a: "small a"
  define u where "u = uint (op_number opc)"
  have "0 \<le> u" "u < 19" using op_number_int [of opc] by (simp_all add: u_def)
  then show ?thesis unfolding instr_int u_def [symmetric] using a by (intro sint_word_of_int_range) (auto simp: small_def)
qed

lemma Long_val_instr: "small a \<Longrightarrow> Long_val (Val_long (instr opc a)) = instr opc a"
proof -
  assume a: "small a"
  define u where "u = uint (op_number opc)"
  have "0 \<le> u" "u < 19" using op_number_int [of opc] by (simp_all add: u_def)
  then show ?thesis using a
    by (intro Long_val_Val_long_range) (auto simp: sint_instr [OF a] u_def [symmetric] Min_long_def Max_long_def small_def)
qed

lemma SignedArg_instr: "small a \<Longrightarrow> SignedArg (instr opc a) = word_of_int a"
proof (rule sint_eqI)
  assume a: "small a"
  note u = op_number_int [of opc]
  have "sint (SignedArg (instr opc a)) = (uint (op_number opc) + 256 * a) div 256"
    by (simp add: SignedArg_def sint_signed_drop_bit_eq drop_bit_eq_div sint_instr [OF a])
  also have "\<dots> = a" using u by simp
  also have "\<dots> = sint (word_of_int a :: u64)" using a by (intro sint_word_of_int_range [symmetric]) (auto simp: small_def)
  finally show "sint (SignedArg (instr opc a)) = sint (word_of_int a :: u64)" .
qed

lemma Arg_instr: "a < 2 ^ 50 \<Longrightarrow> Arg (instr opc (int a)) = of_nat a"
proof -
  assume a: "a < 2 ^ 50"
  then have "unat (of_nat a :: u64) < 2 ^ 50" by (simp add: unat_of_nat)
  from word_bit_bound [OF this] have b: "bit (of_nat a :: u64) n \<Longrightarrow> n < 50" for n by blast
  show ?thesis unfolding Arg_def
    by (rule bit_word_eqI) (auto simp: bit_drop_bit_eq bit_instr dest: b)
qed

subsection \<open>The setting of a match\<close>

text \<open>
  A program with its constants in memory, the text, the initial contents of the array of groups, and the number of groups that the expression uses.
\<close>

record match_env =
  e_ctx :: re_ctx
  e_prog :: addr
  e_code :: "u64 list"
  e_pool :: "u8 list list"
  e_fold :: bool
  e_text :: "u8 list"
  e_groups :: "re_group list"
  e_ng :: nat

definition env_ok :: "match_env \<Rightarrow> bool" where
  "env_ok E \<longleftrightarrow> (let c = e_ctx E; m = c_mem c in
     \<not> c_partial c \<and> length (e_code E) < 2 ^ 48 \<and> length (e_pool E) < 2 ^ 48 \<and>
     (\<forall>k<length (e_code E). load64 m (e_prog E + 8 * of_nat k) = Val_long (e_code E ! k)) \<and>
     (\<forall>k<length (e_pool E). bytes_at m (Field m (c_cpool c) (of_nat k)) (e_pool E ! k @ [0])) \<and>
     (e_fold E \<longrightarrow> bytes_at m (c_normtable c) fold_case_table) \<and>
     bytes_at m (c_starttxt c) (e_text E) \<and> c_endtxt c = c_starttxt c + of_nat (length (e_text E)) \<and>
     0 < unat (c_starttxt c) \<and> unat (c_starttxt c) + length (e_text E) < 2 ^ 64 \<and>
     e_ng E \<le> length (e_groups E) \<and> length (e_groups E) < 2 ^ 31)"

abbreviation "text_len E \<equiv> length (e_text E)"

definition text_at :: "match_env \<Rightarrow> nat \<Rightarrow> addr" where
  "text_at E i = c_starttxt (e_ctx E) + of_nat i"

lemma unat_text_at: "env_ok E \<Longrightarrow> i \<le> text_len E \<Longrightarrow> unat (text_at E i) = unat (c_starttxt (e_ctx E)) + i"
proof -
  assume "env_ok E" "i \<le> text_len E"
  then have l: "unat (c_starttxt (e_ctx E)) + i < 2 ^ 64" by (simp add: env_ok_def Let_def)
  then have "unat (of_nat i :: u64) = i" by (simp add: unat_of_nat)
  then show ?thesis unfolding text_at_def using l by (subst unat_plus_simple [THEN iffD1]) (simp_all add: word_le_nat_alt unat_word_ariths)
qed

lemma text_at_order:
  assumes "env_ok E" "i \<le> text_len E" "j \<le> text_len E"
  shows "text_at E i = text_at E j \<longleftrightarrow> i = j" "text_at E i < text_at E j \<longleftrightarrow> i < j"
  using unat_text_at [OF assms(1,2)] unat_text_at [OF assms(1,3)] by (auto simp: word_unat_eq_iff word_less_nat_alt)

lemma text_at_pos: "env_ok E \<Longrightarrow> i \<le> text_len E \<Longrightarrow> 0 < text_at E i"
  using unat_text_at [of E i] by (auto simp: env_ok_def Let_def word_less_nat_alt)

lemma text_at_simps:
  "text_at E i + 1 = text_at E (i + 1)" "0 < i \<Longrightarrow> text_at E i - 1 = text_at E (i - 1)" "c_starttxt (e_ctx E) = text_at E 0"
  by (simp_all add: text_at_def of_nat_diff)

lemma env_okD:
  assumes "env_ok E"
  shows "c_endtxt (e_ctx E) = text_at E (text_len E)" "i < text_len E \<Longrightarrow> c_mem (e_ctx E) (text_at E i) = e_text E ! i"
    "\<not> c_partial (e_ctx E)"
  using assms by (auto simp: env_ok_def Let_def text_at_def bytes_at_def)

definition pos_addr :: "match_env \<Rightarrow> nat option \<Rightarrow> addr" where
  "pos_addr E p = (case p of None \<Rightarrow> 0 | Some i \<Rightarrow> text_at E i)"

definition conc :: "match_env \<Rightarrow> group_pos list \<Rightarrow> re_group list" where
  "conc E g = map (\<lambda>n. if 1 \<le> n \<and> n < e_ng E then \<lparr>g_start = pos_addr E (fst (g ! n)), g_end = pos_addr E (snd (g ! n))\<rparr>
                         else e_groups E ! n) [0..<length (e_groups E)]"

definition state_at :: "match_env \<Rightarrow> nat \<Rightarrow> nat \<Rightarrow> group_pos list \<Rightarrow> addr list \<Rightarrow> re_state" where
  "state_at E k i g regs = \<lparr>m_pc = e_prog E + 8 * of_nat k, m_txt = text_at E i, m_groups = conc E g, m_register = regs\<rparr>"

lemma state_at_simps [simp]: "m_pc (state_at E k i g regs) = e_prog E + 8 * of_nat k" "m_txt (state_at E k i g regs) = text_at E i"
  "m_groups (state_at E k i g regs) = conc E g" "m_register (state_at E k i g regs) = regs"
  "(state_at E k i g regs)\<lparr>m_txt := text_at E j\<rparr> = state_at E k j g regs"
  "(state_at E k i g regs)\<lparr>m_register := regs'\<rparr> = state_at E k i g regs'"
  "(state_at E k i g regs)\<lparr>m_groups := conc E g'\<rparr> = state_at E k i g' regs"
  by (simp_all add: state_at_def)

definition code_at :: "match_env \<Rightarrow> nat \<Rightarrow> u64 list \<Rightarrow> bool" where
  "code_at E k code \<longleftrightarrow> k + length code \<le> length (e_code E) \<and> take (length code) (drop k (e_code E)) = code"

lemma code_at_append: "code_at E k (c1 @ c2) \<longleftrightarrow> code_at E k c1 \<and> code_at E (k + length c1) c2"
  by (auto simp: code_at_def take_add add.commute append_eq_conv_conj)

lemma code_at_Cons: "code_at E k (x # c) \<longleftrightarrow> code_at E k [x] \<and> code_at E (k + 1) c"
  using code_at_append [of E k "[x]" c] by simp

lemma code_at_single: "code_at E k [x] \<longleftrightarrow> k < length (e_code E) \<and> e_code E ! k = x"
proof (cases "k < length (e_code E)")
  case True
  then have "drop k (e_code E) = e_code E ! k # drop (Suc k) (e_code E)" by (rule Cons_nth_drop_Suc [symmetric])
  then show ?thesis using True by (simp add: code_at_def)
qed (simp add: code_at_def)

lemma step_at:
  assumes "env_ok E" "code_at E k [instr opc a]" "small a"
  shows "re_step (e_ctx E) (state_at E k i g regs) = re_exec (e_ctx E) opc (instr opc a) (state_at E (k + 1) i g regs)"
proof -
  have k: "k < length (e_code E)" "e_code E ! k = instr opc a"
    using assms(2) by (simp_all add: code_at_single)
  then have l: "load64 (c_mem (e_ctx E)) (e_prog E + 8 * of_nat k) = Val_long (instr opc a)" using assms(1) by (simp add: env_ok_def Let_def)
  have p: "(state_at E k i g regs)\<lparr>m_pc := e_prog E + 8 * of_nat k + 8\<rparr> = state_at E (k + 1) i g regs"
    by (simp add: state_at_def algebra_simps)
  show ?thesis unfolding re_step_def Let_def state_at_simps l p Long_val_instr [OF assms(3)] Opcode_instr re_op_of_number by simp
qed

subsection \<open>Code that runs a matcher\<close>

definition found :: "re_ctx \<Rightarrow> re_state \<Rightarrow> (addr \<times> re_group list) option \<Rightarrow> bool" where
  "found c s q \<longleftrightarrow> (\<exists>r. search c s r \<and> q = map_option (\<lambda>s. (m_txt s, m_groups s)) r)"

fun first_some :: "('a \<Rightarrow> 'b option) \<Rightarrow> 'a list \<Rightarrow> 'b option" where
  "first_some K [] = None"
| "first_some K (x # xs) = (case K x of Some y \<Rightarrow> Some y | None \<Rightarrow> first_some K xs)"

lemma first_some_append: "first_some K (xs @ ys) = (case first_some K xs of Some y \<Rightarrow> Some y | None \<Rightarrow> first_some K ys)"
  by (induction xs) (auto split: option.splits)

lemma first_some_single [simp]: "first_some K [x] = K x"
  by (simp split: option.split)

declare first_some.simps(2) [simp del]

lemma first_some_concat: "first_some K (concat (map f xs)) = first_some (\<lambda>x. first_some K (f x)) xs"
  by (induction xs) (simp_all add: first_some.simps(2) first_some_append split: option.split)

lemma first_some_map: "first_some K (map f xs) = first_some (\<lambda>x. K (f x)) xs"
  by (induction xs) (simp_all add: first_some.simps(2) split: option.split)

lemma first_some_filter: "first_some K (filter P xs) = first_some (\<lambda>x. if P x then K x else None) xs"
  by (induction xs) (simp_all add: first_some.simps(2) split: option.split)

lemma first_some_cong: "(\<And>x. x \<in> set xs \<Longrightarrow> K x = K' x) \<Longrightarrow> first_some K xs = first_some K' xs"
  by (induction xs) (simp_all add: first_some.simps(2) split: option.split)

lemma first_some_then: "first_some K (then_match f1 f2 i g) = first_some (\<lambda>(j, g'). first_some K (f2 j g')) (f1 i g)"
  by (simp add: then_match_def first_some_concat split_def)

definition stops :: "re_next \<Rightarrow> bool" where
  "stops r \<longleftrightarrow> (\<exists>s. r = Backtrack s \<or> r = Prefix_match s)"

lemma found_next: "re_step c s = Next s' \<Longrightarrow> found c s' q \<Longrightarrow> found c s q"
  by (auto simp: found_def intro: search.intros)

lemma found_undo: "re_step c s = Push (Undo loc v) s' \<Longrightarrow> found c s' q \<Longrightarrow> found c s q"
  by (auto simp: found_def intro: search.intros)

lemma found_stop: "stops (re_step c s) \<Longrightarrow> \<not> c_partial c \<Longrightarrow> found c s None"
  by (auto simp: stops_def found_def intro: search.intros)

lemma found_fork:
  assumes "re_step c s = Push (Pos pc p) s'" "found c s' q1" "found c (s\<lparr>m_pc := pc, m_txt := p\<rparr>) q2"
  shows "found c s (case q1 of Some x \<Rightarrow> Some x | None \<Rightarrow> q2)"
proof -
  obtain r1 r2 where r: "search c s' r1" "q1 = map_option (\<lambda>s. (m_txt s, m_groups s)) r1"
    "search c (s\<lparr>m_pc := pc, m_txt := p\<rparr>) r2" "q2 = map_option (\<lambda>s. (m_txt s, m_groups s)) r2"
    using assms(2,3) by (auto simp: found_def)
  show ?thesis
  proof (cases r1)
    case None
    then show ?thesis using r search.second [OF assms(1)] by (auto simp: found_def)
  next
    case (Some x)
    then show ?thesis using r search.first [OF assms(1)] by (auto simp: found_def intro!: exI [of _ "Some x"])
  qed
qed

text \<open>The registers of a piece of code, those from \<open>lo\<close> on and before \<open>hi\<close>, hold positions before the current one.\<close>

definition low_regs :: "match_env \<Rightarrow> nat \<Rightarrow> nat \<Rightarrow> nat \<Rightarrow> addr list \<Rightarrow> bool" where
  "low_regs E lo hi i regs \<longleftrightarrow> length regs = NUM_REGISTERS \<and> (\<forall>r. lo \<le> r \<longrightarrow> r < hi \<longrightarrow> regs ! r < text_at E i)"

definition kept :: "nat \<Rightarrow> nat \<Rightarrow> addr list \<Rightarrow> addr list \<Rightarrow> bool" where
  "kept lo hi regs regs' \<longleftrightarrow> (\<forall>r. r < lo \<or> hi \<le> r \<longrightarrow> r < NUM_REGISTERS \<longrightarrow> regs' ! r = regs ! r)"

definition at_ok :: "match_env \<Rightarrow> nat \<Rightarrow> group_pos list \<Rightarrow> bool" where
  "at_ok E i g \<longleftrightarrow> i \<le> text_len E \<and> length g = e_ng E \<and> groups_in (text_len E) g"

definition continues :: "match_env \<Rightarrow> nat \<Rightarrow> nat \<Rightarrow> nat \<Rightarrow> addr list \<Rightarrow> (nat \<times> group_pos list) set \<Rightarrow>
    (nat \<times> group_pos list \<Rightarrow> (addr \<times> re_group list) option) \<Rightarrow> bool" where
  "continues E k lo hi regs Q K \<longleftrightarrow> (\<forall>(j, g')\<in>Q. \<forall>regs'. kept lo hi regs regs' \<longrightarrow> low_regs E lo hi j regs' \<longrightarrow>
     found (e_ctx E) (state_at E k j g' regs') (K (j, g')))"

definition runs :: "match_env \<Rightarrow> nat \<Rightarrow> nat \<Rightarrow> nat \<Rightarrow> nat \<Rightarrow> matcher \<Rightarrow> bool" where
  "runs E k k' lo hi f \<longleftrightarrow> (\<forall>i g regs K. at_ok E i g \<longrightarrow> low_regs E lo hi i regs \<longrightarrow> continues E k' lo hi regs (set (f i g)) K \<longrightarrow>
     found (e_ctx E) (state_at E k i g regs) (first_some K (f i g)))"

lemma runsI:
  "(\<And>i g regs K. at_ok E i g \<Longrightarrow> low_regs E lo hi i regs \<Longrightarrow> continues E k' lo hi regs (set (f i g)) K \<Longrightarrow>
     found (e_ctx E) (state_at E k i g regs) (first_some K (f i g))) \<Longrightarrow> runs E k k' lo hi f"
  unfolding runs_def by blast

lemma runsD:
  "runs E k k' lo hi f \<Longrightarrow> at_ok E i g \<Longrightarrow> low_regs E lo hi i regs \<Longrightarrow> continues E k' lo hi regs (set (f i g)) K \<Longrightarrow>
     found (e_ctx E) (state_at E k i g regs) (first_some K (f i g))"
  unfolding runs_def by blast

lemma continuesI:
  "(\<And>j g' regs'. (j, g') \<in> Q \<Longrightarrow> kept lo hi regs regs' \<Longrightarrow> low_regs E lo hi j regs' \<Longrightarrow>
     found (e_ctx E) (state_at E k j g' regs') (K (j, g'))) \<Longrightarrow> continues E k lo hi regs Q K"
  unfolding continues_def by blast

lemma continuesD:
  "continues E k lo hi regs Q K \<Longrightarrow> (j, g') \<in> Q \<Longrightarrow> kept lo hi regs regs' \<Longrightarrow> low_regs E lo hi j regs' \<Longrightarrow>
     found (e_ctx E) (state_at E k j g' regs') (K (j, g'))"
  unfolding continues_def by blast

lemma kept_refl [simp]: "kept lo hi regs regs"
  by (simp add: kept_def)

lemma kept_trans: "kept lo hi a b \<Longrightarrow> kept lo hi b c \<Longrightarrow> kept lo hi a c"
  by (simp add: kept_def)

lemma at_ok_ahead: "at_ok E i g \<Longrightarrow> ahead (text_len E) (i, g) (j, g') \<Longrightarrow> at_ok E j g' \<and> i \<le> j"
  by (auto simp: at_ok_def ahead_def)

lemma low_regs_mono:
  assumes "env_ok E" "low_regs E lo hi i regs" "i \<le> j" "j \<le> text_len E"
  shows "low_regs E lo hi j regs"
proof -
  have "text_at E i \<le> text_at E j" using text_at_order(2) [OF assms(1), of j i] assms(3,4) by (simp add: not_less [symmetric])
  then show ?thesis using assms(2) by (auto simp: low_regs_def intro: less_le_trans)
qed

lemma runs_skip: "runs E k k lo hi skip_match"
  by (rule runsI) (auto simp: skip_match_def intro: continuesD)

lemma runs_cong: "runs E k k' lo hi f \<Longrightarrow> (\<And>i g. at_ok E i g \<Longrightarrow> f i g = f' i g) \<Longrightarrow> runs E k k' lo hi f'"
  by (metis runs_def)

lemma runs_seq:
  assumes E: "env_ok E" and r: "runs E k k1 lo hi f1" "runs E k1 k2 lo hi f2" and f: "forward (text_len E) f1"
  shows "runs E k k2 lo hi (then_match f1 f2)"
proof (rule runsI)
  fix i g regs K
  assume a: "at_ok E i g" "low_regs E lo hi i regs" and K: "continues E k2 lo hi regs (set (then_match f1 f2 i g)) K"
  have "found (e_ctx E) (state_at E k i g regs) (first_some (\<lambda>(j, g'). first_some K (f2 j g')) (f1 i g))"
  proof (rule runsD [OF r(1) a], rule continuesI)
    fix j g' regs'
    assume j: "(j, g') \<in> set (f1 i g)" "kept lo hi regs regs'" "low_regs E lo hi j regs'"
    have "ahead (text_len E) (i, g) (j, g')" using forwardD [OF f j(1)] a(1) by (simp add: at_ok_def)
    then have ok: "at_ok E j g'" using at_ok_ahead a(1) by blast
    have "continues E k2 lo hi regs' (set (f2 j g')) K"
    proof (rule continuesI)
      fix j2 g2 regs2
      assume j2: "(j2, g2) \<in> set (f2 j g')" "kept lo hi regs' regs2" "low_regs E lo hi j2 regs2"
      have "(j2, g2) \<in> set (then_match f1 f2 i g)" using j(1) j2(1) set_then_match by blast
      from continuesD [OF K this kept_trans [OF j(2) j2(2)] j2(3)] show "found (e_ctx E) (state_at E k2 j2 g2 regs2) (K (j2, g2))" .
    qed
    from runsD [OF r(2) ok j(3) this]
    show "found (e_ctx E) (state_at E k1 j g' regs') ((\<lambda>(j, g'). first_some K (f2 j g')) (j, g'))" by simp
  qed
  then show "found (e_ctx E) (state_at E k i g regs) (first_some K (then_match f1 f2 i g))" by (simp add: first_some_then)
qed

lemma runs_widen:
  assumes E: "env_ok E" and r: "runs E k k' lo hi f" and w: "lo' \<le> lo" "hi \<le> hi'" "hi' \<le> NUM_REGISTERS" and f: "forward (text_len E) f"
  shows "runs E k k' lo' hi' f"
proof (rule runsI)
  fix i g regs K
  assume a: "at_ok E i g" "low_regs E lo' hi' i regs" and K: "continues E k' lo' hi' regs (set (f i g)) K"
  have l: "low_regs E lo hi i regs" using a(2) w by (auto simp: low_regs_def)
  show "found (e_ctx E) (state_at E k i g regs) (first_some K (f i g))"
  proof (rule runsD [OF r a(1) l], rule continuesI)
    fix j g' regs'
    assume j: "(j, g') \<in> set (f i g)" "kept lo hi regs regs'" "low_regs E lo hi j regs'"
    have "ahead (text_len E) (i, g) (j, g')" using forwardD [OF f j(1)] a(1) by (simp add: at_ok_def)
    then have ij: "i \<le> j" "j \<le> text_len E" by (auto simp: ahead_def)
    have low: "low_regs E lo' hi' j regs" by (rule low_regs_mono [OF E a(2) ij])
    have "low_regs E lo' hi' j regs'" unfolding low_regs_def
    proof (intro conjI allI impI)
      show len: "length regs' = NUM_REGISTERS" using j(3) by (simp add: low_regs_def)
      fix r assume r: "lo' \<le> r" "r < hi'"
      show "regs' ! r < text_at E j"
      proof (cases "lo \<le> r \<and> r < hi")
        case False
        then have "regs' ! r = regs ! r" using j(2) r w(3) by (auto simp: kept_def)
        then show ?thesis using low r by (simp add: low_regs_def)
      qed (use j(3) in \<open>simp add: low_regs_def\<close>)
    qed
    moreover have "kept lo' hi' regs regs'" using j(2) w by (auto simp: kept_def)
    ultimately show "found (e_ctx E) (state_at E k' j g' regs') (K (j, g'))" by (intro continuesD [OF K j(1)])
  qed
qed

subsection \<open>Control flow\<close>

lemma pc_jump: "e_prog E + 8 * of_nat (k + 1) + 8 * word_of_int a = e_prog E + 8 * of_nat k'" if "int k' = int k + 1 + a"
proof -
  have "(of_nat k' :: u64) = word_of_int (int k')" by simp
  also have "\<dots> = of_nat (k + 1) + word_of_int a" unfolding that by simp
  finally show ?thesis by (simp add: algebra_simps)
qed

lemma state_at_jump: "int k' = int k + 1 + a \<Longrightarrow>
    (state_at E (k + 1) i g regs)\<lparr>m_pc := e_prog E + 8 * of_nat (k + 1) + 8 * word_of_int a\<rparr> = state_at E k' i g regs"
  unfolding pc_jump by (simp add: state_at_def)

lemma step_goto:
  assumes "env_ok E" "code_at E k [instr GOTO a]" "small a" "int k' = int k + 1 + a"
  shows "re_step (e_ctx E) (state_at E k i g regs) = Next (state_at E k' i g regs)"
  unfolding step_at [OF assms(1-3)] re_exec_def Let_def re_op.case SignedArg_instr [OF assms(3)] state_at_simps state_at_jump [OF assms(4)] ..

lemma step_pushback:
  assumes "env_ok E" "code_at E k [instr PUSHBACK a]" "small a" "int k' = int k + 1 + a"
  shows "re_step (e_ctx E) (state_at E k i g regs) = Push (Pos (e_prog E + 8 * of_nat k') (text_at E i)) (state_at E (k + 1) i g regs)"
  unfolding step_at [OF assms(1-3)] re_exec_def Let_def re_op.case SignedArg_instr [OF assms(3)] state_at_simps pc_jump [OF assms(4)] ..

lemma runs_goto:
  assumes "env_ok E" "code_at E k [instr GOTO a]" "small a" "int k' = int k + 1 + a"
  shows "runs E k k' lo hi skip_match"
  by (rule runsI) (auto simp: skip_match_def intro!: found_next [OF step_goto [OF assms]] intro: continuesD)

lemma found_pushback:
  assumes "env_ok E" "code_at E k [instr PUSHBACK a]" "small a" "int k' = int k + 1 + a"
    "found (e_ctx E) (state_at E (k + 1) i g regs) q1" "found (e_ctx E) (state_at E k' i g regs) q2"
  shows "found (e_ctx E) (state_at E k i g regs) (case q1 of Some x \<Rightarrow> Some x | None \<Rightarrow> q2)"
proof -
  have "(state_at E k i g regs)\<lparr>m_pc := e_prog E + 8 * of_nat k', m_txt := text_at E i\<rparr> = state_at E k' i g regs"
    by (simp add: state_at_def)
  with found_fork [OF step_pushback [OF assms(1-4)] assms(5), of q2] assms(6) show ?thesis by simp
qed

lemma runs_fork:
  assumes E: "env_ok E" "code_at E k [instr PUSHBACK a]" "small a" "int k' = int k + 1 + a"
    and r: "runs E (k + 1) kx lo hi f1" "runs E k' kx lo hi f2"
  shows "runs E k kx lo hi (\<lambda>i g. f1 i g @ f2 i g)"
proof (rule runsI)
  fix i g regs K
  assume a: "at_ok E i g" "low_regs E lo hi i regs" and K: "continues E kx lo hi regs (set (f1 i g @ f2 i g)) K"
  have K12: "continues E kx lo hi regs (set (f1 i g)) K" "continues E kx lo hi regs (set (f2 i g)) K"
    using K by (auto simp: continues_def)
  from found_pushback [OF E runsD [OF r(1) a K12(1)] runsD [OF r(2) a K12(2)]]
  show "found (e_ctx E) (state_at E k i g regs) (first_some K (f1 i g @ f2 i g))" by (simp add: first_some_append)
qed

lemma runs_loop:
  assumes E: "env_ok E" "code_at E k [instr PUSHBACK a]" "small a" "int k' = int k + 1 + a"
    and r: "runs E (k + 1) k lo hi (advances f)" and f: "forward (text_len E) f"
  shows "runs E k k' lo hi (iterate (text_len E) f)"
proof (rule runsI)
  fix i g regs K
  assume "at_ok E i g" "low_regs E lo hi i regs" "continues E k' lo hi regs (set (iterate (text_len E) f i g)) K"
  then show "found (e_ctx E) (state_at E k i g regs) (first_some K (iterate (text_len E) f i g))"
  proof (induction "text_len E - i" arbitrary: i g regs rule: less_induct)
    case less
    note a = less.prems(1,2) and K = less.prems(3)
    let ?K = "\<lambda>(j, g'). first_some K (iterate (text_len E) f j g')"
    have body: "found (e_ctx E) (state_at E (k + 1) i g regs) (first_some ?K (advances f i g))"
    proof (rule runsD [OF r a], rule continuesI)
      fix j g' regs'
      assume j: "(j, g') \<in> set (advances f i g)" "kept lo hi regs regs'" "low_regs E lo hi j regs'"
      then have j1: "(j, g') \<in> set (f i g)" "i < j" by (auto simp: advances_def)
      have ok: "at_ok E j g'" using at_ok_ahead [OF a(1) forwardD [OF f j1(1)]] a(1) by (simp add: at_ok_def)
      then have jn: "j \<le> text_len E" by (simp add: at_ok_def)
      have "continues E k' lo hi regs' (set (iterate (text_len E) f j g')) K"
      proof (rule continuesI)
        fix j2 g2 regs2
        assume j2: "(j2, g2) \<in> set (iterate (text_len E) f j g')" "kept lo hi regs' regs2" "low_regs E lo hi j2 regs2"
        have "(j2, g2) \<in> set (iterate (text_len E) f i g)" using set_iterate j1 jn j2(1) by blast
        from continuesD [OF K this kept_trans [OF j(2) j2(2)] j2(3)] show "found (e_ctx E) (state_at E k' j2 g2 regs2) (K (j2, g2))" .
      qed
      moreover have "text_len E - j < text_len E - i" using j1(2) jn by simp
      ultimately show "found (e_ctx E) (state_at E k j g' regs') (?K (j, g'))" using less.hyps [of j g' regs'] ok j(3) by simp
    qed
    have "(i, g) \<in> set (iterate (text_len E) f i g)" using set_iterate by blast
    from continuesD [OF K this kept_refl a(2)] have ex: "found (e_ctx E) (state_at E k' i g regs) (K (i, g))" .
    have n: "j \<le> text_len E" if "(j, g') \<in> set (f i g)" for j g' using forwardD [OF f that] a(1) by (auto simp: at_ok_def ahead_def)
    have "first_some ?K (advances f i g) = first_some K (concat (map (\<lambda>(j, g'). if i < j \<and> j \<le> text_len E then iterate (text_len E) f j g' else []) (f i g)))"
      unfolding advances_def first_some_filter first_some_concat
      by (intro first_some_cong) (auto dest: n)
    then show ?case using found_pushback [OF E body ex] by (subst iterate.simps) (simp add: first_some_append cong: option.case_cong)
  qed
qed

subsection \<open>Registers and groups\<close>

lemma small_nat: "n < 2 ^ 50 \<Longrightarrow> small (int n)"
  by (simp add: small_def)

lemma number_arg: "n < 2 ^ 31 \<Longrightarrow> unat (ucast (Arg (instr opc (int n))) :: u32) = n"
  by (simp add: Arg_instr unsigned_ucast_eq unat_of_nat take_bit_nat_eq_self)

lemma runs_marked:
  assumes E: "env_ok E" and c: "code_at E k [instr SETMARK (int reg)]" "code_at E k2 [instr CHECKPROGRESS (int reg)]"
    and r: "runs E (k + 1) k2 (reg + 1) hi f" and h: "reg < hi" "hi \<le> NUM_REGISTERS" and f: "forward (text_len E) f"
  shows "runs E k (k2 + 1) reg hi (advances f)"
proof (rule runsI)
  fix i g regs K
  assume a: "at_ok E i g" "low_regs E reg hi i regs" and K: "continues E (k2 + 1) reg hi regs (set (advances f i g)) K"
  have n: "reg < 64" "length regs = 64" using h a(2) by (simp_all add: NUM_REGISTERS_def low_regs_def)
  have s: "small (int reg)" using n by (intro small_nat) simp
  have no: "unat (ucast (Arg (instr opc (int reg))) :: u32) = reg" for opc using n by (intro number_arg) simp
  let ?regs = "regs[reg := text_at E i]"
  have set: "re_step (e_ctx E) (state_at E k i g regs) = Push (Undo (Register reg) (regs ! reg)) (state_at E (k + 1) i g ?regs)"
    using n by (simp add: step_at [OF E c(1) s] re_exec_def Let_def no)
  let ?K = "\<lambda>q. if i < fst q then K q else None"
  have "found (e_ctx E) (state_at E (k + 1) i g ?regs) (first_some ?K (f i g))"
  proof (rule runsD [OF r a(1)])
    show "low_regs E (reg + 1) hi i ?regs" using a(2) by (simp add: low_regs_def)
    show "continues E k2 (reg + 1) hi ?regs (set (f i g)) ?K"
    proof (rule continuesI)
      fix j g' regs'
      assume j: "(j, g') \<in> set (f i g)" "kept (reg + 1) hi ?regs regs'" "low_regs E (reg + 1) hi j regs'"
      have ij: "i \<le> j" "j \<le> text_len E" "i \<le> text_len E" using forwardD [OF f j(1)] a(1) by (auto simp: at_ok_def ahead_def)
      have l: "length regs' = 64" using j(3) by (simp add: low_regs_def NUM_REGISTERS_def)
      have rr: "regs' ! reg = text_at E i" using j(2) n by (simp add: kept_def NUM_REGISTERS_def)
      have chk: "re_step (e_ctx E) (state_at E k2 j g' regs') = (if i = j then Backtrack (state_at E (k2 + 1) j g' regs') else Next (state_at E (k2 + 1) j g' regs'))"
        using n l by (simp add: step_at [OF E c(2) s] re_exec_def Let_def no rr text_at_order(1) [OF E ij(3,2)])
      show "found (e_ctx E) (state_at E k2 j g' regs') (?K (j, g'))"
      proof (cases "i = j")
        case True
        then show ?thesis using chk by (simp add: found_stop stops_def env_okD(3) [OF E])
      next
        case False
        then have lt: "i < j" using ij by simp
        have "regs' ! q < text_at E j" if "reg \<le> q" "q < hi" for q
          using that j(3) rr text_at_order(2) [OF E ij(3,2)] lt by (cases "q = reg") (auto simp: low_regs_def)
        then have low: "low_regs E reg hi j regs'" using l by (simp add: low_regs_def NUM_REGISTERS_def)
        have "kept reg hi regs regs'" unfolding kept_def
        proof (intro allI impI)
          fix q assume q: "q < reg \<or> hi \<le> q" "q < NUM_REGISTERS"
          then have "regs' ! q = ?regs ! q" using j(2) h by (auto simp: kept_def)
          then show "regs' ! q = regs ! q" using q h by auto
        qed
        moreover have "(j, g') \<in> set (advances f i g)" using j(1) lt by (simp add: advances_def)
        ultimately have "found (e_ctx E) (state_at E (k2 + 1) j g' regs') (K (j, g'))" using continuesD [OF K] low by blast
        moreover have "re_step (e_ctx E) (state_at E k2 j g' regs') = Next (state_at E (k2 + 1) j g' regs')" using chk False by simp
        ultimately show ?thesis using lt found_next by auto
      qed
    qed
  qed
  then show "found (e_ctx E) (state_at E k i g regs) (first_some K (advances f i g))"
    by (intro found_undo [OF set]) (simp add: advances_def first_some_filter split_def cong: if_cong)
qed

lemma runs_check_pass:
  assumes E: "env_ok E" and c: "code_at E k [instr CHECKPROGRESS (int reg)]" and h: "lo \<le> reg" "reg < hi" "hi \<le> NUM_REGISTERS"
  shows "runs E k (k + 1) lo hi skip_match"
proof (rule runsI)
  fix i g regs K
  assume a: "at_ok E i g" "low_regs E lo hi i regs" and K: "continues E (k + 1) lo hi regs (set (skip_match i g)) K"
  have n: "reg < 64" "length regs = 64" using h a(2) by (simp_all add: NUM_REGISTERS_def low_regs_def)
  have s: "small (int reg)" using n by (intro small_nat) simp
  have no: "unat (ucast (Arg (instr CHECKPROGRESS (int reg))) :: u32) = reg" using n by (intro number_arg) simp
  have "regs ! reg \<noteq> text_at E i" using a(2) h by (auto simp: low_regs_def)
  then have "re_step (e_ctx E) (state_at E k i g regs) = Next (state_at E (k + 1) i g regs)"
    using n by (simp add: step_at [OF E c s] re_exec_def Let_def no)
  then show "found (e_ctx E) (state_at E k i g regs) (first_some K (skip_match i g))"
    using continuesD [OF K _ kept_refl a(2)] by (auto simp: skip_match_def intro: found_next)
qed

lemma length_conc [simp]: "length (conc E g) = length (e_groups E)"
  by (simp add: conc_def)

lemma conc_nth:
  "1 \<le> n \<Longrightarrow> n < e_ng E \<Longrightarrow> e_ng E \<le> length (e_groups E) \<Longrightarrow> conc E g ! n = \<lparr>g_start = pos_addr E (fst (g ! n)), g_end = pos_addr E (snd (g ! n))\<rparr>"
  by (simp add: conc_def)

lemma conc_update:
  assumes "1 \<le> n" "n < e_ng E" "e_ng E \<le> length (e_groups E)" "length g = e_ng E"
  shows "(conc E g)[n := (conc E g ! n)\<lparr>g_start := text_at E i\<rparr>] = conc E (g[n := (Some i, snd (g ! n))])"
    "(conc E g)[n := (conc E g ! n)\<lparr>g_end := text_at E i\<rparr>] = conc E (g[n := (fst (g ! n), Some i)])"
  using assms by (auto intro!: nth_equalityI simp: conc_nth nth_list_update_split pos_addr_def) (auto simp: conc_def nth_list_update_split pos_addr_def)

lemma runs_group:
  assumes E: "env_ok E" and c: "code_at E k [instr BEGGROUP (int n)]" "code_at E k2 [instr ENDGROUP (int n)]"
    and r: "runs E (k + 1) k2 lo hi f" and n: "1 \<le> n" "n < e_ng E" and f: "forward (text_len E) f"
  shows "runs E k (k2 + 1) lo hi (\<lambda>i g. map (\<lambda>(j, g'). (j, g'[n := (fst (g' ! n), Some j)])) (f i (g[n := (Some i, snd (g ! n))])))"
proof (rule runsI)
  fix i :: nat and g :: "group_pos list" and regs K
  let ?g = "g[n := (Some i, snd (g ! n))]" and ?e = "\<lambda>(j, g'). (j, g'[n := (fst (g' ! n), Some j)])"
  assume a: "at_ok E i g" "low_regs E lo hi i regs" and K: "continues E (k2 + 1) lo hi regs (set (map ?e (f i ?g))) K"
  have ng: "e_ng E \<le> length (e_groups E)" "length (e_groups E) < 2 ^ 31" using E by (auto simp: env_ok_def Let_def)
  have s: "small (int n)" using n ng by (intro small_nat) simp
  have no: "unat (ucast (Arg (instr opc (int n))) :: u32) = n" for opc using n ng by (intro number_arg) simp
  have ok: "at_ok E i ?g" using a(1) by (simp add: at_ok_def groups_in_update)
  have beg: "re_step (e_ctx E) (state_at E k i g regs) = Push (Undo (Group_start n) (g_start (conc E g ! n))) (state_at E (k + 1) i ?g regs)"
    using n ng a(1) by (simp add: step_at [OF E c(1) s] re_exec_def Let_def no conc_update at_ok_def)
  have "found (e_ctx E) (state_at E (k + 1) i ?g regs) (first_some (\<lambda>q. K (?e q)) (f i ?g))"
  proof (rule runsD [OF r ok a(2)], rule continuesI)
    fix j g' regs'
    assume j: "(j, g') \<in> set (f i ?g)" "kept lo hi regs regs'" "low_regs E lo hi j regs'"
    have l: "length g' = e_ng E" using forwardD [OF f j(1)] ok by (auto simp: at_ok_def ahead_def)
    have "re_step (e_ctx E) (state_at E k2 j g' regs') =
        Push (Undo (Group_end n) (g_end (conc E g' ! n))) (state_at E (k2 + 1) j (g'[n := (fst (g' ! n), Some j)]) regs')"
      using n ng l by (simp add: step_at [OF E c(2) s] re_exec_def Let_def no conc_update)
    moreover have "found (e_ctx E) (state_at E (k2 + 1) j (g'[n := (fst (g' ! n), Some j)]) regs') (K (?e (j, g')))"
      using continuesD [OF K _ j(2) j(3)] j(1) by force
    ultimately show "found (e_ctx E) (state_at E k2 j g' regs') (K (?e (j, g')))" by (rule found_undo)
  qed
  then show "found (e_ctx E) (state_at E k i g regs) (first_some K (map ?e (f i ?g)))"
    by (intro found_undo [OF beg]) (simp add: first_some_map)
qed

subsection \<open>Characters, strings and anchors\<close>

lemma runs_det:
  assumes E: "env_ok E" "code_at E k [instr opc a]" "small a"
    and step: "\<And>i g regs. at_ok E i g \<Longrightarrow>
      (f i g = [] \<and> stops (re_exec (e_ctx E) opc (instr opc a) (state_at E (k + 1) i g regs))) \<or>
      (\<exists>j. f i g = [(j, g)] \<and> i \<le> j \<and> j \<le> text_len E \<and>
        re_exec (e_ctx E) opc (instr opc a) (state_at E (k + 1) i g regs) = Next (state_at E (k + 1) j g regs))"
  shows "runs E k (k + 1) lo hi f"
proof (rule runsI)
  fix i g regs K
  assume a: "at_ok E i g" "low_regs E lo hi i regs" and K: "continues E (k + 1) lo hi regs (set (f i g)) K"
  from step [OF a(1), of regs] show "found (e_ctx E) (state_at E k i g regs) (first_some K (f i g))"
  proof (elim disjE exE conjE)
    assume "f i g = []" "stops (re_exec (e_ctx E) opc (instr opc a) (state_at E (k + 1) i g regs))"
    then show ?thesis using found_stop [of "e_ctx E" "state_at E k i g regs"] by (simp add: step_at [OF E] env_okD(3) [OF E(1)])
  next
    fix j
    assume j: "f i g = [(j, g)]" "i \<le> j" "j \<le> text_len E"
      "re_exec (e_ctx E) opc (instr opc a) (state_at E (k + 1) i g regs) = Next (state_at E (k + 1) j g regs)"
    have "found (e_ctx E) (state_at E (k + 1) j g regs) (K (j, g))"
      by (rule continuesD [OF K _ kept_refl low_regs_mono [OF E(1) a(2) j(2,3)]]) (simp add: j(1))
    moreover have "re_step (e_ctx E) (state_at E k i g regs) = Next (state_at E (k + 1) j g regs)" using j(4) by (simp add: step_at [OF E])
    ultimately show ?thesis using j(1) by (auto intro: found_next)
  qed
qed

lemma at_end: "env_ok E \<Longrightarrow> i \<le> text_len E \<Longrightarrow> text_at E i = c_endtxt (e_ctx E) \<longleftrightarrow> i = text_len E"
  "env_ok E \<Longrightarrow> i \<le> text_len E \<Longrightarrow> text_at E i < c_endtxt (e_ctx E) \<longleftrightarrow> i < text_len E"
  using text_at_order [of E i "text_len E"] env_okD(1) [of E] by auto

lemma one_char_at:
  assumes "env_ok E" "i \<le> text_len E"
  shows "one_char (e_ctx E) P (state_at E k i g regs) =
    (if i = text_len E then Prefix_match (state_at E k i g regs)
     else if P (e_text E ! i) then Next (state_at E k (i + 1) g regs) else Backtrack (state_at E k i g regs))"
  using assms by (simp add: one_char_def at_end env_okD(2) text_at_simps)

lemma runs_one_char:
  assumes E: "env_ok E" "code_at E k [instr opc a]" "small a"
    and x: "\<And>s. re_exec (e_ctx E) opc (instr opc a) s = one_char (e_ctx E) P s"
    and P: "\<And>x. P x = Q x"
  shows "runs E k (k + 1) lo hi (char_match (e_text E) Q)"
proof (rule runs_det [OF E])
  fix i g regs
  assume "at_ok E i g"
  then have i: "i \<le> text_len E" by (simp add: at_ok_def)
  show "(char_match (e_text E) Q i g = [] \<and> stops (re_exec (e_ctx E) opc (instr opc a) (state_at E (k + 1) i g regs))) \<or>
      (\<exists>j. char_match (e_text E) Q i g = [(j, g)] \<and> i \<le> j \<and> j \<le> text_len E \<and>
        re_exec (e_ctx E) opc (instr opc a) (state_at E (k + 1) i g regs) = Next (state_at E (k + 1) j g regs))"
    using i P by (auto simp: x one_char_at [OF E(1) i] char_match_def stops_def)
qed

lemma of_nat_unat_u8: "of_nat (unat (c :: u8)) = (ucast c :: u64)"
  by (simp add: unsigned_ucast_eq)

lemma ucast_u8_eq: "ucast x = (ucast c :: u64) \<longleftrightarrow> x = c" for x c :: u8
proof
  assume "ucast x = (ucast c :: u64)"
  moreover have "unat (ucast y :: u64) = unat y" for y :: u8 using unat8_less [of y] by (simp add: unsigned_ucast_eq take_bit_nat_eq_self)
  ultimately show "x = c" by (metis word_unat_eq_iff)
qed simp

lemma runs_CHAR:
  assumes E: "env_ok E" and c: "code_at E k [instr CHAR_op (uint c)]"
  shows "runs E k (k + 1) lo hi (char_match (e_text E) (\<lambda>x. x = c))"
proof (rule runs_one_char [OF E c])
  have u: "uint c = int (unat c)" by simp
  have l: "unat c < 256" using unat8_less [of c] by simp
  show "small (uint c)" unfolding u using l by (intro small_nat) simp
  have a: "Arg (instr CHAR_op (uint c)) = ucast c" unfolding u using l by (subst Arg_instr) (simp_all add: of_nat_unat_u8)
  show "re_exec (e_ctx E) CHAR_op (instr CHAR_op (uint c)) s = one_char (e_ctx E) (\<lambda>x. ucast x = (ucast c :: u64)) s" for s
    by (simp add: re_exec_def Let_def a)
qed (rule ucast_u8_eq)

lemma normtable_at:
  assumes "env_ok E" "e_fold E"
  shows "Byte_u (c_mem (e_ctx E)) (c_normtable (e_ctx E)) (ucast x) = lowercase_latin1 x"
proof -
  have "c_mem (e_ctx E) (c_normtable (e_ctx E) + of_nat (unat x)) = fold_case_table ! unat x"
    using assms unat8_less [of x] by (simp add: env_ok_def Let_def bytes_at_def fold_case_table_def del: of_nat_unat)
  also have "\<dots> = lowercase_latin1 x" using unat8_less [of x] by (simp add: fold_case_table_def)
  finally show ?thesis by (simp add: Byte_u_def of_nat_unat_u8)
qed

lemma runs_CHARNORM:
  assumes E: "env_ok E" "e_fold E" and c: "code_at E k [instr CHARNORM (uint c)]"
  shows "runs E k (k + 1) lo hi (char_match (e_text E) (\<lambda>x. lowercase_latin1 x = c))"
proof (rule runs_one_char [OF E(1) c])
  have u: "uint c = int (unat c)" by simp
  have l: "unat c < 256" using unat8_less [of c] by simp
  show "small (uint c)" unfolding u using l by (intro small_nat) simp
  have a: "Arg (instr CHARNORM (uint c)) = ucast c" unfolding u using l by (subst Arg_instr) (simp_all add: of_nat_unat_u8)
  show "re_exec (e_ctx E) CHARNORM (instr CHARNORM (uint c)) s = one_char (e_ctx E) (\<lambda>x. ucast (lowercase_latin1 x) = (ucast c :: u64)) s" for s
    by (simp add: re_exec_def Let_def a normtable_at [OF E])
qed (rule ucast_u8_eq)

definition pool_at :: "match_env \<Rightarrow> nat \<Rightarrow> u8 list \<Rightarrow> bool" where
  "pool_at E n s \<longleftrightarrow> n < length (e_pool E) \<and> e_pool E ! n = s"

abbreviation const_addr :: "match_env \<Rightarrow> nat \<Rightarrow> addr" where
  "const_addr E n \<equiv> Field (c_mem (e_ctx E)) (c_cpool (e_ctx E)) (of_nat n)"

lemma pool_atD:
  assumes "env_ok E" "pool_at E n s"
  shows "bytes_at (c_mem (e_ctx E)) (const_addr E n) (s @ [0])" "small (int n)" "Arg (instr opc (int n)) = of_nat n"
proof -
  have n: "n < length (e_pool E)" "length (e_pool E) < 2 ^ 48" "e_pool E ! n = s" using assms by (auto simp: env_ok_def Let_def pool_at_def)
  then show "bytes_at (c_mem (e_ctx E)) (const_addr E n) (s @ [0])" using assms(1) by (auto simp: env_ok_def Let_def)
  show "small (int n)" using n by (intro small_nat) simp
  show "Arg (instr opc (int n)) = of_nat n" using n by (intro Arg_instr) simp
qed

lemma bitset_at: "bytes_at m a (s @ [0]) \<Longrightarrow> length s = 32 \<Longrightarrow> In_bitset m a c = in_charset s c"
proof -
  assume b: "bytes_at m a (s @ [0])" "length s = 32"
  have "m (a + of_nat (unat (drop_bit 3 c))) = (s @ [0]) ! unat (drop_bit 3 c)"
    using b charset_index(1) [of c] by (simp add: bytes_at_def del: of_nat_unat)
  then show ?thesis using b charset_index(1) [of c] by (simp add: In_bitset_def in_charset_def nth_append of_nat_unat_u8)
qed

lemma runs_CHARCLASS:
  assumes E: "env_ok E" and c: "code_at E k [instr CHARCLASS (int n)]" and p: "pool_at E n cl" "length cl = 32"
  shows "runs E k (k + 1) lo hi (char_match (e_text E) (in_charset cl))"
  by (rule runs_one_char [OF E c pool_atD(2) [OF E p(1)], where P = "In_bitset (c_mem (e_ctx E)) (const_addr E n)"])
    (simp_all add: re_exec_def Let_def pool_atD(3) [OF E p(1)] bitset_at [OF pool_atD(1) [OF E p(1)] p(2)])

lemma run_string_at:
  assumes E: "env_ok E" and b: "bytes_at (c_mem (e_ctx E)) a (s @ [0])" "0 \<notin> set s" and i: "i \<le> text_len E"
  shows "if i + length s \<le> text_len E \<and> map nrm (take (length s) (drop i (e_text E))) = s
    then run_string (c_mem (e_ctx E)) nrm (c_endtxt (e_ctx E)) a (text_at E i) = (Matched, text_at E (i + length s))
    else fst (run_string (c_mem (e_ctx E)) nrm (c_endtxt (e_ctx E)) a (text_at E i)) \<noteq> Matched"
  using b i
proof (induction s arbitrary: a i)
  case Nil
  then show ?case by (subst run_string.simps) (simp add: bytes_at_def)
next
  case (Cons c s)
  let ?m = "c_mem (e_ctx E)"
  have c: "?m a = c" "c \<noteq> 0" "0 \<notin> set s" using Cons.prems(1,2) by (auto simp: bytes_at_def dest: spec [of _ 0])
  have b: "bytes_at ?m (a + 1) (s @ [0])" unfolding bytes_at_def
  proof (intro allI impI)
    fix q assume "q < length (s @ [0])"
    then have "?m (a + of_nat (Suc q)) = ((c # s) @ [0]) ! Suc q" using Cons.prems(1) unfolding bytes_at_def by (metis Suc_less_eq append_Cons length_Cons)
    then show "?m (a + 1 + of_nat q) = (s @ [0]) ! q" by (simp add: add.assoc)
  qed
  have step: "run_string ?m nrm (c_endtxt (e_ctx E)) a (text_at E i) =
      (if i = text_len E then (At_end, text_at E i) else if c \<noteq> nrm (e_text E ! i) then (Mismatch, text_at E i)
       else run_string ?m nrm (c_endtxt (e_ctx E)) (a + 1) (text_at E (i + 1)))"
    using Cons.prems(3) c by (subst run_string.simps) (simp add: at_end [OF E] env_okD(2) [OF E] text_at_simps)
  show ?case
  proof (cases "i < text_len E")
    case True
    then have d: "drop i (e_text E) = e_text E ! i # drop (Suc i) (e_text E)" by (rule Cons_nth_drop_Suc [symmetric])
    show ?thesis using True Cons.IH [OF b c(3), of "i + 1"] unfolding step by (auto simp: d)
  next
    case False
    then show ?thesis using Cons.prems(3) unfolding step by auto
  qed
qed

lemma runs_string_gen:
  assumes E: "env_ok E" and c: "code_at E k [instr opc (int n)]" and p: "pool_at E n s" "0 \<notin> set s"
    and x: "\<And>q. re_exec (e_ctx E) opc (instr opc (int n)) q =
      run_next (run_string (c_mem (e_ctx E)) nrm (c_endtxt (e_ctx E)) (const_addr E n) (m_txt q)) q"
  shows "runs E k (k + 1) lo hi (\<lambda>i g. if i + length s \<le> text_len E \<and> map nrm (take (length s) (drop i (e_text E))) = s then [(i + length s, g)] else [])"
    (is "runs E k (k + 1) lo hi ?f")
proof (rule runs_det [OF E c pool_atD(2) [OF E p(1)]])
  fix i g regs
  assume "at_ok E i g"
  then have "i \<le> text_len E" by (simp add: at_ok_def)
  from run_string_at [OF E pool_atD(1) [OF E p(1)] p(2) this, of nrm]
  show "(?f i g = [] \<and> stops (re_exec (e_ctx E) opc (instr opc (int n)) (state_at E (k + 1) i g regs))) \<or>
      (\<exists>j. ?f i g = [(j, g)] \<and> i \<le> j \<and> j \<le> text_len E \<and>
        re_exec (e_ctx E) opc (instr opc (int n)) (state_at E (k + 1) i g regs) = Next (state_at E (k + 1) j g regs))"
    unfolding x state_at_simps by (auto simp: run_next_def stops_def split: if_splits prod.splits run_end.splits)
qed

lemma runs_STRING:
  assumes E: "env_ok E" and c: "code_at E k [instr STRING (int n)]" and p: "pool_at E n s" "0 \<notin> set s"
  shows "runs E k (k + 1) lo hi (\<lambda>i g. if i + length s \<le> text_len E \<and> take (length s) (drop i (e_text E)) = s then [(i + length s, g)] else [])"
  using runs_string_gen [OF E c p, where nrm = "\<lambda>x. x"] by (simp add: re_exec_def Let_def pool_atD(3) [OF E p(1)])

lemma runs_STRINGNORM:
  assumes E: "env_ok E" "e_fold E" and c: "code_at E k [instr STRINGNORM (int n)]" and p: "pool_at E n s" "0 \<notin> set s"
  shows "runs E k (k + 1) lo hi (\<lambda>i g. if i + length s \<le> text_len E \<and> map lowercase_latin1 (take (length s) (drop i (e_text E))) = s
    then [(i + length s, g)] else [])"
  by (rule runs_string_gen [OF E(1) c p]) (simp_all add: re_exec_def Let_def pool_atD(3) [OF E(1) p(1)] normtable_at [OF E])

lemma run_group_at:
  assumes E: "env_ok E" and e: "e \<le> text_len E"
  shows "s \<le> text_len E \<Longrightarrow> i \<le> text_len E \<Longrightarrow>
    if i + (e - s) \<le> text_len E \<and> take (e - s) (drop s (e_text E)) = take (e - s) (drop i (e_text E))
    then run_group (c_mem (e_ctx E)) (c_endtxt (e_ctx E)) (text_at E e) (text_at E s) (text_at E i) = (Matched, text_at E (i + (e - s)))
    else fst (run_group (c_mem (e_ctx E)) (c_endtxt (e_ctx E)) (text_at E e) (text_at E s) (text_at E i)) \<noteq> Matched"
proof (induction "e - s" arbitrary: s i)
  case 0
  then show ?case by (subst run_group.simps) (simp add: text_at_order [OF E _ e])
next
  case (Suc d)
  let ?run = "run_group (c_mem (e_ctx E)) (c_endtxt (e_ctx E)) (text_at E e)"
  have s: "s < e" "s < text_len E" "d = e - (s + 1)" using Suc.hyps(2) e by auto
  have step: "?run (text_at E s) (text_at E i) =
      (if i = text_len E then (At_end, text_at E i) else if e_text E ! s \<noteq> e_text E ! i then (Mismatch, text_at E i)
       else ?run (text_at E (s + 1)) (text_at E (i + 1)))"
    using Suc.prems s e by (subst run_group.simps) (simp add: at_end [OF E] env_okD(2) [OF E] text_at_simps text_at_order(2) [OF E])
  show ?case
  proof (cases "i < text_len E")
    case True
    have d: "drop i (e_text E) = e_text E ! i # drop (Suc i) (e_text E)" "drop s (e_text E) = e_text E ! s # drop (Suc s) (e_text E)"
      using True s by (simp_all add: Cons_nth_drop_Suc)
    have t: "e - s = Suc (e - Suc s)" using s by simp
    show ?thesis using True s Suc.hyps(1) [of "s + 1" "i + 1"] unfolding step by (auto simp: d t)
  next
    case False
    then show ?thesis using Suc.prems Suc.hyps(2) unfolding step by auto
  qed
qed

lemma runs_REFGROUP:
  assumes E: "env_ok E" and c: "code_at E k [instr REFGROUP (int n)]" and n: "1 \<le> n" "n < e_ng E"
  shows "runs E k (k + 1) lo hi (ref_match (e_text E) n)"
proof -
  have ng: "e_ng E \<le> length (e_groups E)" "length (e_groups E) < 2 ^ 31" using E by (auto simp: env_ok_def Let_def)
  have s: "small (int n)" using n ng by (intro small_nat) simp
  have no: "unat (ucast (Arg (instr REFGROUP (int n))) :: u32) = n" using n ng by (intro number_arg) simp
  show ?thesis
  proof (rule runs_det [OF E c s])
    fix i g regs
    assume a: "at_ok E i g"
    let ?q = "state_at E (k + 1) i g regs" and ?st = "fst (g ! n)" and ?en = "snd (g ! n)"
    let ?x = "re_exec (e_ctx E) REFGROUP (instr REFGROUP (int n)) ?q"
    have x: "?x = (if pos_addr E ?st = 0 \<or> pos_addr E ?en = 0 then Backtrack ?q
        else run_next (run_group (c_mem (e_ctx E)) (c_endtxt (e_ctx E)) (pos_addr E ?en) (pos_addr E ?st) (text_at E i)) ?q)"
      using n ng by (simp add: re_exec_def Let_def no conc_nth)
    show "(ref_match (e_text E) n i g = [] \<and> stops ?x) \<or>
        (\<exists>j. ref_match (e_text E) n i g = [(j, g)] \<and> i \<le> j \<and> j \<le> text_len E \<and> ?x = Next (state_at E (k + 1) j g regs))"
    proof (cases "\<exists>p q. g ! n = (Some p, Some q)")
      case False
      then have "?st = None \<or> ?en = None" by (metis option.exhaust_sel prod.collapse)
      moreover have "ref_match (e_text E) n i g = []" using False by (auto simp: ref_match_def split: prod.split option.split)
      ultimately show ?thesis unfolding x by (auto simp: pos_addr_def stops_def)
    next
      case True
      then obtain p q where pq: "g ! n = (Some p, Some q)" by blast
      have b: "p \<le> text_len E" "q \<le> text_len E" "i \<le> text_len E" using a n pq by (auto simp: at_ok_def groups_in_def)
      have nz: "text_at E p \<noteq> 0" "text_at E q \<noteq> 0" using text_at_pos [OF E b(1)] text_at_pos [OF E b(2)] by auto
      from run_group_at [OF E b(2) b(1) b(3)] show ?thesis unfolding x using nz
        by (auto simp: pq pos_addr_def ref_match_def run_next_def stops_def split: if_splits prod.splits run_end.splits)
    qed
  qed
qed

lemma runs_BOL:
  assumes E: "env_ok E" and c: "code_at E k [instr BOL 0]"
  shows "runs E k (k + 1) lo hi (\<lambda>i g. if i = 0 \<or> e_text E ! (i - 1) = 10 then [(i, g)] else [])"
proof (rule runs_det [OF E c])
  show "small 0" by (simp add: small_def)
  fix i g regs
  assume a: "at_ok E i g"
  then have i: "i \<le> text_len E" "0 < i \<Longrightarrow> i - 1 < text_len E" by (auto simp: at_ok_def)
  have "re_exec (e_ctx E) BOL (instr BOL 0) (state_at E (k + 1) i g regs) =
      (if 0 < i \<and> e_text E ! (i - 1) \<noteq> 10 then Backtrack (state_at E (k + 1) i g regs) else Next (state_at E (k + 1) i g regs))"
    using i text_at_order(2) [OF E, of 0 i] env_okD(2) [OF E, of "i - 1"]
    by (auto simp: re_exec_def Let_def text_at_simps)
  then show "((if i = 0 \<or> e_text E ! (i - 1) = 10 then [(i, g)] else []) = [] \<and> stops (re_exec (e_ctx E) BOL (instr BOL 0) (state_at E (k + 1) i g regs))) \<or>
      (\<exists>j. (if i = 0 \<or> e_text E ! (i - 1) = 10 then [(i, g)] else []) = [(j, g)] \<and> i \<le> j \<and> j \<le> text_len E \<and>
        re_exec (e_ctx E) BOL (instr BOL 0) (state_at E (k + 1) i g regs) = Next (state_at E (k + 1) j g regs))"
    using i(1) by (auto simp: stops_def)
qed

lemma runs_EOL:
  assumes E: "env_ok E" and c: "code_at E k [instr EOL 0]"
  shows "runs E k (k + 1) lo hi (\<lambda>i g. if text_len E \<le> i \<or> e_text E ! i = 10 then [(i, g)] else [])"
proof (rule runs_det [OF E c])
  show "small 0" by (simp add: small_def)
  fix i g regs
  assume a: "at_ok E i g"
  then have i: "i \<le> text_len E" by (simp add: at_ok_def)
  have "re_exec (e_ctx E) EOL (instr EOL 0) (state_at E (k + 1) i g regs) =
      (if i < text_len E \<and> e_text E ! i \<noteq> 10 then Backtrack (state_at E (k + 1) i g regs) else Next (state_at E (k + 1) i g regs))"
    using at_end(2) [OF E i] env_okD(2) [OF E, of i] by (auto simp: re_exec_def Let_def)
  then show "((if text_len E \<le> i \<or> e_text E ! i = 10 then [(i, g)] else []) = [] \<and> stops (re_exec (e_ctx E) EOL (instr EOL 0) (state_at E (k + 1) i g regs))) \<or>
      (\<exists>j. (if text_len E \<le> i \<or> e_text E ! i = 10 then [(i, g)] else []) = [(j, g)] \<and> i \<le> j \<and> j \<le> text_len E \<and>
        re_exec (e_ctx E) EOL (instr EOL 0) (state_at E (k + 1) i g regs) = Next (state_at E (k + 1) j g regs))"
    using i by (auto simp: stops_def)
qed

lemma runs_WORDBOUNDARY:
  assumes E: "env_ok E" and c: "code_at E k [instr WORDBOUNDARY 0]"
  shows "runs E k (k + 1) lo hi (boundary_match (e_text E))"
proof (rule runs_det [OF E c])
  show "small 0" by (simp add: small_def)
  fix i g regs
  assume a: "at_ok E i g"
  then have i: "i \<le> text_len E" "0 < i \<Longrightarrow> i - 1 < text_len E" by (auto simp: at_ok_def)
  let ?q = "state_at E (k + 1) i g regs"
  have x: "re_exec (e_ctx E) WORDBOUNDARY (instr WORDBOUNDARY 0) ?q =
      (if i = 0 then if i = text_len E then Prefix_match ?q else if Is_word_letter (e_text E ! i) then Next ?q else Backtrack ?q
       else if i = text_len E then if Is_word_letter (e_text E ! (i - 1)) then Next ?q else Backtrack ?q
       else if Is_word_letter (e_text E ! (i - 1)) \<noteq> Is_word_letter (e_text E ! i) then Next ?q else Backtrack ?q)"
    using i text_at_order(1) [OF E, of i 0] env_okD(2) [OF E, of "i - 1"] env_okD(2) [OF E, of i] at_end(1) [OF E i(1)] text_at_simps(2) [of i E]
    by (auto simp: re_exec_def Let_def word_boundary_def text_at_simps(3))
  show "(boundary_match (e_text E) i g = [] \<and> stops (re_exec (e_ctx E) WORDBOUNDARY (instr WORDBOUNDARY 0) ?q)) \<or>
      (\<exists>j. boundary_match (e_text E) i g = [(j, g)] \<and> i \<le> j \<and> j \<le> text_len E \<and>
        re_exec (e_ctx E) WORDBOUNDARY (instr WORDBOUNDARY 0) ?q = Next (state_at E (k + 1) j g regs))"
    unfolding x using i(1) by (auto simp: boundary_match_def stops_def Let_def Is_word_letter_eq)
qed

subsection \<open>Repetitions without backtracking\<close>

lemma greedy_bounds [simp]: "i \<le> greedy t P i" "i \<le> length t \<Longrightarrow> greedy t P i \<le> length t"
  using length_takeWhile_le [of P "drop i t"] by (simp_all add: greedy_def)

lemma run_set_at:
  assumes E: "env_ok E" and P: "\<And>c. In_bitset (c_mem (e_ctx E)) a c = P c"
  shows "i \<le> text_len E \<Longrightarrow> run_set (c_mem (e_ctx E)) a (c_endtxt (e_ctx E)) (text_at E i) = text_at E (greedy (e_text E) P i)"
proof (induction "text_len E - i" arbitrary: i)
  case 0
  then show ?case by (subst run_set.simps, subst greedy_step) (simp add: at_end [OF E])
next
  case (Suc d)
  then have "i < text_len E" by simp
  then show ?case using Suc.hyps(1) [of "i + 1"] Suc.hyps(2)
    by (subst run_set.simps, subst greedy_step) (simp add: at_end [OF E] env_okD(2) [OF E] text_at_simps P)
qed

definition simple_match :: "re_op \<Rightarrow> u8 list \<Rightarrow> (u8 \<Rightarrow> bool) \<Rightarrow> matcher" where
  "simple_match opc t P i g =
     (if opc = SIMPLESTAR then [(greedy t P i, g)]
      else if opc = SIMPLEPLUS then if i < length t \<and> P (t ! i) then [(greedy t P i, g)] else []
      else [(if i < length t \<and> P (t ! i) then i + 1 else i, g)])"

lemma runs_simple:
  assumes E: "env_ok E" and opc: "opc \<in> {SIMPLESTAR, SIMPLEPLUS, SIMPLEOPT}" and c: "code_at E k [instr opc (int n)]"
    and p: "pool_at E n cl" "length cl = 32"
  shows "runs E k (k + 1) lo hi (simple_match opc (e_text E) (in_charset cl))"
proof (rule runs_det [OF E c pool_atD(2) [OF E p(1)]])
  fix i g regs
  assume "at_ok E i g"
  then have i: "i \<le> text_len E" by (simp add: at_ok_def)
  let ?P = "in_charset cl" and ?q = "state_at E (k + 1) i g regs" and ?t = "e_text E"
  note P = bitset_at [OF pool_atD(1) [OF E p(1)] p(2)]
  note rs = run_set_at [OF E P]
  let ?x = "re_exec (e_ctx E) opc (instr opc (int n)) ?q"
  have star: "?x = Next (state_at E (k + 1) (greedy ?t ?P i) g regs)" if "opc = SIMPLESTAR"
    using that rs [OF i] by (simp add: re_exec_def Let_def pool_atD(3) [OF E p(1)])
  have opt: "?x = Next (state_at E (k + 1) (if i < text_len E \<and> ?P (?t ! i) then i + 1 else i) g regs)" if "opc = SIMPLEOPT"
    using that i by (auto simp: re_exec_def Let_def pool_atD(3) [OF E p(1)] P at_end [OF E i] env_okD(2) [OF E] text_at_simps)
  have plus: "?x = (if i = text_len E then Prefix_match ?q else if \<not> ?P (?t ! i) then Backtrack ?q
      else Next (state_at E (k + 1) (greedy ?t ?P (i + 1)) g regs))" if "opc = SIMPLEPLUS"
    using that i rs [of "i + 1"]
    by (auto simp: re_exec_def Let_def pool_atD(3) [OF E p(1)] P at_end [OF E i] env_okD(2) [OF E] text_at_simps)
  have "greedy ?t ?P i = greedy ?t ?P (i + 1)" if "i < text_len E" "?P (?t ! i)" using that greedy_step [of ?t ?P i] by simp
  then show "(simple_match opc ?t ?P i g = [] \<and> stops ?x) \<or>
      (\<exists>j. simple_match opc ?t ?P i g = [(j, g)] \<and> i \<le> j \<and> j \<le> text_len E \<and> ?x = Next (state_at E (k + 1) j g regs))"
    using i opc star opt plus greedy_bounds [of i ?t ?P] by (cases "i < text_len E \<and> ?P (?t ! i)") (auto simp: simple_match_def stops_def)
qed

lemma forward_simple: "forward (length t) (simple_match opc t P)"
  by (rule forwardI) (auto simp: simple_match_def ahead_def split: if_splits)

lemma simple_instr_cases:
  assumes "simple_instr fc r rl = Some (opc, cl)" "re_ok r" "re_ok (Seq rl)"
  shows "opc \<in> {SIMPLESTAR, SIMPLEPLUS, SIMPLEOPT}" "length cl = 32"
    "then_match (matches fc t r) (matches_seq fc t rl) = then_match (simple_match opc t (in_charset cl)) (matches_seq fc t rl)"
proof -
  obtain r' where r': "simple_class fc r' rl = Some cl" "r = Star r' \<and> opc = SIMPLESTAR \<or> r = Plus_re r' \<and> opc = SIMPLEPLUS \<or> r = Option_re r' \<and> opc = SIMPLEOPT"
    using assms(1) by (auto simp: simple_instr_def split: re_syntax.splits)
  then show "opc \<in> {SIMPLESTAR, SIMPLEPLUS, SIMPLEOPT}" by auto
  have ok: "re_ok r'" using assms(2) r'(2) by auto
  have cl: "charclass_of_regexp fc r' = Some cl" using r'(1) by (simp add: simple_class_def split: if_splits)
  then show "length cl = 32" using ok by (cases r') (auto simp: charclass_of_def Let_def)
  note m = charclass_matches [OF cl ok, of t] and x = simple_excludes [OF r'(1) ok assms(3), of t]
  show "then_match (matches fc t r) (matches_seq fc t rl) = then_match (simple_match opc t (in_charset cl)) (matches_seq fc t rl)"
  proof (intro ext)
    fix i g
    have "then_match (simple_match opc t (in_charset cl)) (matches_seq fc t rl) i g = concat (map (\<lambda>(j, g'). matches_seq fc t rl j g') (simple_match opc t (in_charset cl) i g))"
      by (simp add: then_match_def)
    then show "then_match (matches fc t r) (matches_seq fc t rl) i g = then_match (simple_match opc t (in_charset cl)) (matches_seq fc t rl) i g"
      using r'(2) simple_star [OF x, of i g] simple_plus [OF x, of i g] simple_opt [OF x, of i g]
      by (auto simp: m simple_match_def)
  qed
qed

subsection \<open>Compiled expressions\<close>

definition extends :: "re_compiler \<Rightarrow> re_compiler \<Rightarrow> bool" where
  "extends k k' \<longleftrightarrow> (\<exists>zs. k_cpool k' = k_cpool k @ zs) \<and> k_numgroups k \<le> k_numgroups k' \<and> k_numregs k \<le> k_numregs k' \<and>
     (k_numregs k \<le> NUM_REGISTERS \<longrightarrow> k_numregs k' \<le> NUM_REGISTERS)"

lemma extends_refl [simp]: "extends k k"
  by (simp add: extends_def)

lemma extends_trans: "extends k1 k2 \<Longrightarrow> extends k2 k3 \<Longrightarrow> extends k1 k3"
  by (auto simp: extends_def)

lemma extends_groups [simp]: "extends k (k'\<lparr>k_numgroups := max (k_numgroups k') n\<rparr>) = extends k k'" if "k_numgroups k \<le> k_numgroups k'"
  using that by (auto simp: extends_def)

lemma index_in_pos: "s \<in> set xs \<Longrightarrow> index_in xs s < length xs \<and> xs ! index_in xs s = s" "s \<notin> set xs \<Longrightarrow> index_in xs s = length xs"
  by (induction xs) auto

lemma cpool_index_ok:
  assumes "cpool_index s k = (n, k')"
  shows "extends k k'" "n < length (k_cpool k')" "k_cpool k' ! n = s" "k_numregs k' = k_numregs k" "k_numgroups k' = k_numgroups k"
  using assms index_in_pos [of s "k_cpool k"] by (auto simp: cpool_index_def extends_def nth_append split: if_splits)

lemma emit_const_ok:
  assumes "emit_const opc s k = (code, k')"
  shows "extends k k'" "\<exists>n. code = [instr opc (int n)] \<and> n < length (k_cpool k') \<and> k_cpool k' ! n = s" "k_numregs k' = k_numregs k"
    "k_numgroups k' = k_numgroups k"
  using assms cpool_index_ok [of s k] by (auto simp: emit_const_def split: prod.splits)

lemma allocate_ok:
  "allocate_register_if_nullable r k = Inr (regno, k') \<Longrightarrow>
    k' = k\<lparr>k_numregs := k_numregs k + (case regno of None \<Rightarrow> 0 | Some _ \<Rightarrow> 1)\<rparr> \<and> extends k k' \<and>
    (case regno of None \<Rightarrow> \<not> is_nullable r | Some n \<Rightarrow> n = k_numregs k \<and> n < NUM_REGISTERS)"
  by (auto simp: allocate_register_if_nullable_def extends_def NUM_REGISTERS_def split: if_splits)

lemma bind_emit_Inr: "bind_emit r f = Inr y \<longleftrightarrow> (\<exists>x. r = Inr x \<and> f x = Inr y)"
  by (simp add: bind_emit_def split: sum.split)

definition same_counters :: "re_compiler \<Rightarrow> re_compiler \<Rightarrow> bool" where
  "same_counters k k' \<longleftrightarrow> extends k k' \<and> k_numregs k' = k_numregs k \<and> k_numgroups k' = k_numgroups k"

lemma same_counters_trans: "same_counters a b \<Longrightarrow> same_counters b c \<Longrightarrow> same_counters a c"
  by (auto simp: same_counters_def intro: extends_trans)

lemma emit_string_split:
  assumes "0 \<in> set s" "length s \<noteq> 1" "emit_string fc s k = (code, k')"
  obtains c1 k1 c2 where "emit_string fc (takeWhile (\<lambda>c. c \<noteq> 0) s) k = (c1, k1)" "emit_string fc (tl (dropWhile (\<lambda>c. c \<noteq> 0) s)) k1 = (c2, k')"
    "code = c1 @ [instr CHAR_op 0] @ c2"
proof -
  obtain c1 k1 where c1: "emit_string fc (takeWhile (\<lambda>c. c \<noteq> 0) s) k = (c1, k1)" by (cases "emit_string fc (takeWhile (\<lambda>c. c \<noteq> 0) s) k")
  obtain c2 k2 where c2: "emit_string fc (tl (dropWhile (\<lambda>c. c \<noteq> 0) s)) k1 = (c2, k2)" by (cases "emit_string fc (tl (dropWhile (\<lambda>c. c \<noteq> 0) s)) k1")
  obtain a b xs where s: "s = a # b # xs" using assms(1,2) by (cases s; cases "tl s") auto
  have "emit_string fc s k = (c1 @ [instr CHAR_op 0] @ c2, k2)"
    by (subst emit_string.simps) (use c1 c2 assms(1) s in \<open>simp split del: if_split del: takeWhile.simps dropWhile.simps\<close>)
  then show thesis using that c1 c2 assms(3) by simp
qed

lemma emit_string_plain:
  "0 \<notin> set s \<Longrightarrow> length s \<noteq> 1 \<Longrightarrow> s \<noteq> [] \<Longrightarrow>
    emit_string fc s k = (if fc then emit_const STRINGNORM (map lowercase_latin1 s) k else emit_const STRING s k)"
  by (subst emit_string.simps) (auto split: list.split)

lemma emit_string_short: "emit_string fc [] k = ([], k)" "emit_string fc [c] k = (emit_char fc c, k)"
  by (subst emit_string.simps; simp)+

text \<open>Code that the compiler emitted between two of its states runs a matcher wherever it stands.\<close>

definition emitted :: "match_env \<Rightarrow> u64 list \<Rightarrow> re_compiler \<Rightarrow> re_compiler \<Rightarrow> matcher \<Rightarrow> bool" where
  "emitted E code k k' f \<longleftrightarrow> extends k k' \<and> forward (text_len E) f \<and>
     (\<forall>p. code_at E p code \<longrightarrow> (\<exists>zs. e_pool E = k_cpool k' @ zs) \<longrightarrow> k_numgroups k' \<le> e_ng E \<longrightarrow> k_numregs k' \<le> NUM_REGISTERS \<longrightarrow>
        runs E p (p + length code) (k_numregs k) (k_numregs k') f)"

lemma emittedI:
  "extends k k' \<Longrightarrow> forward (text_len E) f \<Longrightarrow>
    (\<And>p. code_at E p code \<Longrightarrow> \<exists>zs. e_pool E = k_cpool k' @ zs \<Longrightarrow> k_numgroups k' \<le> e_ng E \<Longrightarrow> k_numregs k' \<le> NUM_REGISTERS \<Longrightarrow>
      runs E p (p + length code) (k_numregs k) (k_numregs k') f) \<Longrightarrow> emitted E code k k' f"
  by (simp add: emitted_def)

lemma emittedD:
  assumes "emitted E code k k' f" "code_at E p code" "extends k' k2" "\<exists>zs. e_pool E = k_cpool k2 @ zs" "k_numgroups k2 \<le> e_ng E" "k_numregs k2 \<le> NUM_REGISTERS"
  shows "runs E p (p + length code) (k_numregs k) (k_numregs k') f"
  using assms by (auto simp: emitted_def extends_def)

lemma emitted_seq:
  assumes E: "env_ok E" and e: "emitted E c1 k k1 f1" "emitted E c2 k1 k2 f2"
  shows "emitted E (c1 @ c2) k k2 (then_match f1 f2)"
proof (rule emittedI)
  have x: "extends k k1" "extends k1 k2" "forward (text_len E) f1" "forward (text_len E) f2" using e by (auto simp: emitted_def)
  then show "extends k k2" "forward (text_len E) (then_match f1 f2)" by (auto intro: extends_trans forward_then)
  fix p
  assume p: "code_at E p (c1 @ c2)" "\<exists>zs. e_pool E = k_cpool k2 @ zs" "k_numgroups k2 \<le> e_ng E" "k_numregs k2 \<le> NUM_REGISTERS"
  have r: "k_numregs k \<le> k_numregs k1" "k_numregs k1 \<le> k_numregs k2" using x by (auto simp: extends_def)
  have "runs E p (p + length c1) (k_numregs k) (k_numregs k2) f1"
    by (rule runs_widen [OF E emittedD [OF e(1) _ x(2) p(2-4)]]) (use p r x in \<open>auto simp: code_at_append\<close>)
  moreover have "runs E (p + length c1) (p + length c1 + length c2) (k_numregs k) (k_numregs k2) f2"
    by (rule runs_widen [OF E emittedD [OF e(2) _ extends_refl p(2-4)]]) (use p r x in \<open>auto simp: code_at_append\<close>)
  ultimately show "runs E p (p + length (c1 @ c2)) (k_numregs k) (k_numregs k2) (then_match f1 f2)"
    using runs_seq [OF E _ _ x(3)] by (simp add: add.assoc)
qed

lemma emitted_cong: "emitted E code k k' f \<Longrightarrow> f = f' \<Longrightarrow> emitted E code k k' f'"
  by simp

lemma emitted_skip: "emitted E [] k k skip_match"
  by (rule emittedI) (auto simp: forward_def ahead_def intro: runs_skip, simp_all add: skip_match_def)

lemma forward_char: "forward (length t) (char_match t P)"
  by (rule forwardI) (auto simp: char_match_def ahead_def split: if_splits)

lemma emitted_char:
  assumes E: "env_ok E" "e_fold E = fc"
  shows "emitted E (emit_char fc c) k k (matches fc (e_text E) (Char_re c))"
proof (rule emittedI)
  fix p
  assume "code_at E p (emit_char fc c)"
  then show "runs E p (p + length (emit_char fc c)) (k_numregs k) (k_numregs k) (matches fc (e_text E) (Char_re c))"
    using runs_CHAR [OF E(1), of p c] runs_CHARNORM [OF E(1), of p "lowercase_latin1 c"] E(2) by (auto simp: emit_char_def norm_char_eq)
qed (use forward_char in simp_all)

lemma emitted_const:
  assumes "emit_const opc s k = (code, k')" "forward (text_len E) f"
    and "\<And>n p lo. pool_at E n s \<Longrightarrow> code_at E p [instr opc (int n)] \<Longrightarrow> runs E p (p + 1) lo lo f"
  shows "emitted E code k k' f"
proof (rule emittedI)
  note c = emit_const_ok [OF assms(1)]
  show "extends k k'" by (rule c(1))
  show "forward (text_len E) f" by (rule assms(2))
  fix p
  assume p: "code_at E p code" "\<exists>zs. e_pool E = k_cpool k' @ zs"
  obtain n where n: "code = [instr opc (int n)]" "n < length (k_cpool k')" "k_cpool k' ! n = s" using c(2) by blast
  then have "pool_at E n s" using p(2) by (auto simp: pool_at_def nth_append)
  then show "runs E p (p + length code) (k_numregs k) (k_numregs k') f" using assms(3) p(1) n(1) c(3) by simp
qed

lemma string_match_append:
  "matches fc t (String_re (a @ b)) = then_match (matches fc t (String_re a)) (matches fc t (String_re b))"
proof (intro ext)
  fix i g
  have "take (length a + length b) (drop i t) = take (length a) (drop i t) @ take (length b) (drop (i + length a) t)"
    by (simp add: take_add add.commute)
  moreover have "length (take (length a) (drop i t)) = length a"
    if "map (norm_char fc) (take (length a) (drop i t)) @ map (norm_char fc) (take (length b) (drop (i + length a) t)) = map (norm_char fc) a @ map (norm_char fc) b"
    using arg_cong [OF that, of length] by simp
  ultimately show "matches fc t (String_re (a @ b)) i g = then_match (matches fc t (String_re a)) (matches fc t (String_re b)) i g"
    by (auto simp: then_match_def add.assoc)
qed

lemma string_match_short: "matches fc t (String_re []) = skip_match" "matches fc t (String_re [c]) = matches fc t (Char_re c)"
proof -
  show "matches fc t (String_re []) = skip_match" by (simp add: fun_eq_iff skip_match_def)
  have "take (Suc 0) (drop i t) = (if i < length t then [t ! i] else [])" for i
    using Cons_nth_drop_Suc [of i t] by (cases "i < length t") (auto simp flip: Cons_nth_drop_Suc)
  then show "matches fc t (String_re [c]) = matches fc t (Char_re c)" by (auto simp: fun_eq_iff char_match_def)
qed

lemma emitted_string:
  assumes E: "env_ok E" "e_fold E = fc"
  shows "emit_string fc s k = (code, k') \<Longrightarrow> emitted E code k k' (matches fc (e_text E) (String_re s))"
proof (induction "length s" arbitrary: s k code k' rule: less_induct)
  case less
  consider "s = []" | c where "s = [c]" | "0 \<in> set s" "length s \<noteq> 1" | "0 \<notin> set s" "length s \<noteq> 1" "s \<noteq> []"
    by (cases s rule: remdups_adj.cases) auto
  then show ?case
  proof cases
    case 1
    then show ?thesis using less.prems emitted_skip by (simp add: emit_string_short string_match_short del: matches.simps)
  next
    case (2 c)
    then show ?thesis using less.prems emitted_char [OF E, of c k] by (simp add: emit_string_short string_match_short del: matches.simps)
  next
    case 3
    let ?a = "takeWhile (\<lambda>c. c \<noteq> 0) s" and ?b = "tl (dropWhile (\<lambda>c. c \<noteq> 0) s)"
    obtain c1 k1 c2 where c: "emit_string fc ?a k = (c1, k1)" "emit_string fc ?b k1 = (c2, k')" "code = c1 @ [instr CHAR_op 0] @ c2"
      using emit_string_split [OF 3 less.prems] by metis
    have "dropWhile (\<lambda>c. c \<noteq> 0) s \<noteq> []" "hd (dropWhile (\<lambda>c. c \<noteq> 0) s) = 0"
      using 3(1) hd_dropWhile [of "\<lambda>c. c \<noteq> 0" s] by auto
    then have s: "s = ?a @ [0] @ ?b" by (metis append_Cons append_Nil hd_Cons_tl takeWhile_dropWhile_id)
    have "s \<noteq> []" using 3(1) by auto
    then have l: "length ?a < length s" "length ?b < length s" using 3 length_takeWhile_less [of 0 s] length_tl_dropWhile_less [of s] by auto
    have "emitted E [instr CHAR_op 0] k1 k1 (matches fc (e_text E) (String_re [0]))"
    proof (rule emittedI)
      fix p
      assume "code_at E p [instr CHAR_op 0]"
      then have "runs E p (p + 1) lo lo (char_match (e_text E) (\<lambda>x. x = 0))" for lo using runs_CHAR [OF E(1), of p 0] by simp
      moreover have "norm_char fc x = norm_char fc 0 \<longleftrightarrow> x = 0" for x
        using case_cases(3) [of x] case_cases(3) [of 0] by (simp add: norm_char_eq)
      ultimately show "runs E p (p + length [instr CHAR_op 0]) (k_numregs k1) (k_numregs k1) (matches fc (e_text E) (String_re [0]))"
        unfolding string_match_short by simp
    qed (simp, rule forward_matches)
    from emitted_seq [OF E(1) less.hyps [OF l(1) c(1)] emitted_seq [OF E(1) this less.hyps [OF l(2) c(2)]]]
    show ?thesis unfolding c(3) string_match_append [symmetric] s [symmetric] .
  next
    case 4
    have f: "(\<lambda>i g. if i + length s \<le> text_len E \<and> map (norm_char fc) (take (length s) (drop i (e_text E))) = map (norm_char fc) s then [(i + length s, g)] else []) =
        matches fc (e_text E) (String_re s)"
      using 4(3) string_match_length by (fastforce simp: fun_eq_iff)
    show ?thesis
    proof (cases fc)
      case True
      have "0 \<notin> set (map lowercase_latin1 s)" using 4(1) case_cases(3) by auto
      from runs_STRINGNORM [OF E(1) _ _ _ this] have r: "runs E p (p + 1) lo lo (matches fc (e_text E) (String_re s))"
        if "pool_at E n (map lowercase_latin1 s)" "code_at E p [instr STRINGNORM (int n)]" for n p lo
        using that E(2) True unfolding f [symmetric] by (simp add: norm_char_eq [abs_def] cong: if_cong)
      have "emit_const STRINGNORM (map lowercase_latin1 s) k = (code, k')" using less.prems True by (simp add: emit_string_plain [OF 4])
      from emitted_const [OF this forward_matches r] show ?thesis .
    next
      case False
      from runs_STRING [OF E(1) _ _ 4(1)] have r: "runs E p (p + 1) lo lo (matches fc (e_text E) (String_re s))"
        if "pool_at E n s" "code_at E p [instr STRING (int n)]" for n p lo
        using that False unfolding f [symmetric] by (simp add: norm_char_eq [abs_def])
      have "emit_const STRING s k = (code, k')" using less.prems False by (simp add: emit_string_plain [OF 4])
      from emitted_const [OF this forward_matches r] show ?thesis .
    qed
  qed
qed

lemma then_match_skip [simp]: "then_match f skip_match = f" "then_match skip_match f = f"
  by (auto simp: fun_eq_iff then_match_def skip_match_def split_def concat_map_singleton)

lemma forward_skip [simp]: "forward n skip_match"
  by (rule forwardI) (simp add: skip_match_def ahead_def)

lemma forward_append: "forward n f1 \<Longrightarrow> forward n f2 \<Longrightarrow> forward n (\<lambda>i g. f1 i g @ f2 i g)"
  by (rule forwardI) (auto dest: forwardD)

lemma forward_progress: "forward n f \<Longrightarrow> forward n (advances f)"
  by (rule forwardI) (auto simp: advances_def dest: forwardD)

lemma code_at_small: "env_ok E \<Longrightarrow> code_at E p code \<Longrightarrow> int (length code) < 2 ^ 48"
  by (simp add: env_ok_def code_at_def Let_def)

lemma emitted_alt:
  assumes E: "env_ok E" and e: "emitted E c1 k k1 f1" "emitted E c2 k1 k2 f2"
  shows "emitted E ([instr PUSHBACK (int (length c1) + 1)] @ c1 @ [instr GOTO (int (length c2))] @ c2) k k2 (\<lambda>i g. f1 i g @ f2 i g)"
    (is "emitted E ?code _ _ _")
proof (rule emittedI)
  have x: "extends k k1" "extends k1 k2" "forward (text_len E) f1" "forward (text_len E) f2" using e by (auto simp: emitted_def)
  then show "extends k k2" "forward (text_len E) (\<lambda>i g. f1 i g @ f2 i g)" by (auto intro: extends_trans forward_append)
  fix p
  assume p: "code_at E p ?code" "\<exists>zs. e_pool E = k_cpool k2 @ zs" "k_numgroups k2 \<le> e_ng E" "k_numregs k2 \<le> NUM_REGISTERS"
  have c: "code_at E p [instr PUSHBACK (int (length c1) + 1)]" "code_at E (p + 1) c1"
    "code_at E (p + 1 + length c1) [instr GOTO (int (length c2))]" "code_at E (p + 1 + length c1 + 1) c2"
    using p(1) by (simp_all add: code_at_append code_at_Cons [of E _ _ "_ @ _"] code_at_Cons [of E _ _ c2] add_ac)
  have s: "small (int (length c1) + 1)" "small (int (length c2))" using code_at_small [OF E p(1)] by (auto simp: small_def)
  have r: "k_numregs k \<le> k_numregs k1" "k_numregs k1 \<le> k_numregs k2" using x by (auto simp: extends_def)
  let ?e = "p + 1 + length c1 + 1 + length c2"
  have r1: "runs E (p + 1) (p + 1 + length c1) (k_numregs k) (k_numregs k2) f1"
    by (rule runs_widen [OF E emittedD [OF e(1) c(2) x(2) p(2-4)]]) (use p(4) r x in auto)
  have "runs E (p + 1 + length c1) ?e (k_numregs k) (k_numregs k2) skip_match" by (rule runs_goto [OF E c(3) s(2)]) simp
  from runs_seq [OF E r1 this x(3)] have r1: "runs E (p + 1) ?e (k_numregs k) (k_numregs k2) f1" by simp
  have r2: "runs E (p + 1 + length c1 + 1) ?e (k_numregs k) (k_numregs k2) f2"
    by (rule runs_widen [OF E emittedD [OF e(2) c(4) extends_refl p(2-4)]]) (use p(4) r x in auto)
  from runs_fork [OF E c(1) s(1) _ r1 r2] show "runs E p (p + length ?code) (k_numregs k) (k_numregs k2) (\<lambda>i g. f1 i g @ f2 i g)"
    by (simp add: add_ac)
qed

lemma emitted_option:
  assumes E: "env_ok E" and e: "emitted E c k k1 f"
  shows "emitted E ([instr PUSHBACK (int (length c))] @ c) k k1 (\<lambda>i g. f i g @ [(i, g)])" (is "emitted E ?code _ _ _")
proof (rule emittedI)
  have x: "extends k k1" "forward (text_len E) f" using e by (auto simp: emitted_def)
  then show "extends k k1" "forward (text_len E) (\<lambda>i g. f i g @ [(i, g)])"
    using forward_append [OF x(2) forward_skip] by (auto simp: skip_match_def)
  fix p
  assume p: "code_at E p ?code" "\<exists>zs. e_pool E = k_cpool k1 @ zs" "k_numgroups k1 \<le> e_ng E" "k_numregs k1 \<le> NUM_REGISTERS"
  have c: "code_at E p [instr PUSHBACK (int (length c))]" "code_at E (p + 1) c" using p(1) by (simp_all add: code_at_Cons [of E _ _ c])
  have s: "small (int (length c))" using code_at_small [OF E p(1)] by (auto simp: small_def)
  from runs_fork [OF E c(1) s _ emittedD [OF e c(2) extends_refl p(2-4)] runs_skip]
  show "runs E p (p + length ?code) (k_numregs k) (k_numregs k1) (\<lambda>i g. f i g @ [(i, g)])" by (simp add: skip_match_def)
qed

text \<open>The body of a repetition with its register, if it has one, runs the iterations that make progress.\<close>

definition makes_progress :: "match_env \<Rightarrow> matcher \<Rightarrow> bool" where
  "makes_progress E f \<longleftrightarrow> (\<forall>i g. i \<le> text_len E \<longrightarrow> advances f i g = f i g)"

lemma runs_progress: "makes_progress E f \<Longrightarrow> runs E k k' lo hi f \<Longrightarrow> runs E k k' lo hi (advances f)"
  by (erule runs_cong) (simp add: makes_progress_def at_ok_def)

lemma emitted_star:
  assumes E: "env_ok E" and k: "k1 = k\<lparr>k_numregs := k_numregs k + (case regno of None \<Rightarrow> 0 | Some _ \<Rightarrow> 1)\<rparr>" "extends k k1"
    and reg: "case regno of None \<Rightarrow> makes_progress E f | Some n \<Rightarrow> n = k_numregs k \<and> n < NUM_REGISTERS"
    and e: "emitted E c k1 k2 f" and body: "body = reg_instr SETMARK regno @ c @ reg_instr CHECKPROGRESS regno"
  shows "emitted E ([instr PUSHBACK (int (length body) + 1)] @ body @ [instr GOTO (- int (length body) - 2)]) k k2 (iterate (text_len E) f)"
    (is "emitted E ?code _ _ _")
proof (rule emittedI)
  have x: "extends k1 k2" "forward (text_len E) f" using e by (auto simp: emitted_def)
  show "extends k k2" by (rule extends_trans [OF k(2) x(1)])
  show "forward (text_len E) (iterate (text_len E) f)" by (rule forward_iterate [OF x(2)])
  fix p
  assume p: "code_at E p ?code" "\<exists>zs. e_pool E = k_cpool k2 @ zs" "k_numgroups k2 \<le> e_ng E" "k_numregs k2 \<le> NUM_REGISTERS"
  have cc: "code_at E p [instr PUSHBACK (int (length body) + 1)]" "code_at E (p + 1) body"
    "code_at E (p + 1 + length body) [instr GOTO (- int (length body) - 2)]"
    using p(1) by (simp_all add: code_at_append code_at_Cons [of E _ _ "_ @ _"] add_ac)
  have s: "small (int (length body) + 1)" "small (- int (length body) - 2)" using code_at_small [OF E p(1)] by (auto simp: small_def)
  have b: "runs E (p + 1) (p + 1 + length body) (k_numregs k) (k_numregs k2) (advances f)"
  proof (cases regno)
    case None
    then have "body = c" "k1 = k" "makes_progress E f" using k(1) reg by (simp_all add: body reg_instr_def)
    then show ?thesis using runs_progress emittedD [OF e _ extends_refl p(2-4)] cc(2) by blast
  next
    case (Some n)
    then have n: "n = k_numregs k" "k_numregs k1 = n + 1" using k(1) reg by auto
    have c: "code_at E (p + 1) [instr SETMARK (int n)]" "code_at E (p + 1 + 1) c" "code_at E (p + 1 + 1 + length c) [instr CHECKPROGRESS (int n)]"
      using cc(2) Some by (simp_all add: body reg_instr_def code_at_append code_at_Cons [of E _ _ "_ @ _"] add_ac)
    have "n < k_numregs k2" using x(1) n by (simp add: extends_def)
    from runs_marked [OF E c(1,3) emittedD [OF e c(2) extends_refl p(2-4), unfolded n(2)] this p(4) x(2)]
    show ?thesis using Some n(1) by (simp add: body reg_instr_def add_ac)
  qed
  have "runs E (p + 1 + length body) p (k_numregs k) (k_numregs k2) skip_match" by (rule runs_goto [OF E cc(3) s(2)]) simp
  from runs_seq [OF E b this forward_progress [OF x(2)]] have "runs E (p + 1) p (k_numregs k) (k_numregs k2) (advances f)" by simp
  from runs_loop [OF E cc(1) s(1) _ this x(2)]
  show "runs E p (p + length ?code) (k_numregs k) (k_numregs k2) (iterate (text_len E) f)" by (simp add: add_ac)
qed

lemma emitted_plus:
  assumes E: "env_ok E" and k: "k1 = k\<lparr>k_numregs := k_numregs k + (case regno of None \<Rightarrow> 0 | Some _ \<Rightarrow> 1)\<rparr>" "extends k k1"
    and reg: "case regno of None \<Rightarrow> makes_progress E f | Some n \<Rightarrow> n = k_numregs k \<and> n < NUM_REGISTERS"
    and e: "emitted E c k1 k2 f" and body: "body = c @ reg_instr CHECKPROGRESS regno" and mark: "mark = reg_instr SETMARK regno"
  shows "emitted E (body @ [instr PUSHBACK (int (length mark) + 1)] @ mark @ [instr GOTO (- int (length body) - int (length mark) - 2)])
    k k2 (then_match f (iterate (text_len E) f))"
    (is "emitted E ?code _ _ _")
proof (rule emittedI)
  have x: "extends k1 k2" "forward (text_len E) f" using e by (auto simp: emitted_def)
  show "extends k k2" by (rule extends_trans [OF k(2) x(1)])
  show "forward (text_len E) (then_match f (iterate (text_len E) f))" by (rule forward_then [OF x(2) forward_iterate [OF x(2)]])
  fix p
  assume p: "code_at E p ?code" "\<exists>zs. e_pool E = k_cpool k2 @ zs" "k_numgroups k2 \<le> e_ng E" "k_numregs k2 \<le> NUM_REGISTERS"
  let ?q = "p + length body" and ?lo = "k_numregs k" and ?hi = "k_numregs k2"
  have cc: "code_at E p body" "code_at E ?q [instr PUSHBACK (int (length mark) + 1)]" "code_at E (?q + 1) mark"
    "code_at E (?q + 1 + length mark) [instr GOTO (- int (length body) - int (length mark) - 2)]"
    using p(1) by (simp_all add: code_at_append code_at_Cons [of E _ _ "_ @ _"] add_ac)
  have s: "small (int (length mark) + 1)" "small (- int (length body) - int (length mark) - 2)"
    using code_at_small [OF E p(1)] by (auto simp: small_def)
  have goto: "runs E (?q + 1 + length mark) p lo hi skip_match" for lo hi by (rule runs_goto [OF E cc(4) s(2)]) simp
  have "runs E p ?q ?lo ?hi f \<and> runs E (?q + 1) ?q ?lo ?hi (advances f)"
  proof (cases regno)
    case None
    then have n: "body = c" "mark = []" "k1 = k" "makes_progress E f" using k(1) reg by (simp_all add: body mark reg_instr_def)
    have r: "runs E p ?q ?lo ?hi f" using emittedD [OF e _ extends_refl p(2-4)] cc(1) n by simp
    have "runs E (?q + 1) ?q ?lo ?hi f" using runs_seq [OF E goto r forward_skip] n(2) by simp
    then show ?thesis using r runs_progress [OF n(4)] by blast
  next
    case (Some n)
    then have n: "n = k_numregs k" "k_numregs k1 = n + 1" using k(1) reg by auto
    have b: "body = c @ [instr CHECKPROGRESS (int n)]" "mark = [instr SETMARK (int n)]" using Some by (simp_all add: body mark reg_instr_def)
    have c: "code_at E p c" "code_at E (p + length c) [instr CHECKPROGRESS (int n)]" "code_at E (?q + 1) [instr SETMARK (int n)]"
      using cc(1,3) by (simp_all add: b code_at_append)
    have h: "n < ?hi" using x(1) n by (simp add: extends_def)
    have r: "runs E p (p + length c) (n + 1) ?hi f" using emittedD [OF e c(1) extends_refl p(2-4)] n(2) by simp
    have "runs E p (p + length c) ?lo ?hi f" by (rule runs_widen [OF E r]) (use n h p(4) x(2) in auto)
    moreover have "runs E (p + length c) (p + length c + 1) ?lo ?hi skip_match" by (rule runs_check_pass [OF E c(2)]) (use n h p(4) in auto)
    ultimately have 1: "runs E p ?q ?lo ?hi f" using runs_seq [OF E _ _ x(2)] by (fastforce simp: b)
    have "runs E (?q + 1 + 1) (p + length c) (n + 1) ?hi f" using runs_seq [OF E goto r forward_skip] by (simp add: b)
    from runs_marked [OF E c(3,2) this h p(4) x(2)] have "runs E (?q + 1) ?q ?lo ?hi (advances f)" using n(1) by (simp add: b)
    with 1 show ?thesis by blast
  qed
  moreover from this have "runs E ?q (?q + length mark + 2) ?lo ?hi (iterate (text_len E) f)"
    using runs_loop [OF E cc(2) s(1) _ _ x(2), of "?q + length mark + 2"] by simp
  ultimately show "runs E p (p + length ?code) ?lo ?hi (then_match f (iterate (text_len E) f))"
    using runs_seq [OF E _ _ x(2)] by (fastforce simp: add_ac)
qed

lemma emitted_group:
  assumes E: "env_ok E" and e: "emitted E c k k1 f" and n: "1 \<le> n"
    and f: "forward (text_len E) (\<lambda>i g. map (\<lambda>(j, g'). (j, g'[n := (fst (g' ! n), Some j)])) (f i (g[n := (Some i, snd (g ! n))])))"
  shows "emitted E ([instr BEGGROUP (int n)] @ c @ [instr ENDGROUP (int n)]) k (k1\<lparr>k_numgroups := max (k_numgroups k1) (n + 1)\<rparr>)
    (\<lambda>i g. map (\<lambda>(j, g'). (j, g'[n := (fst (g' ! n), Some j)])) (f i (g[n := (Some i, snd (g ! n))])))"
    (is "emitted E ?code _ ?k _")
proof (rule emittedI [OF _ f])
  have x: "extends k k1" "forward (text_len E) f" using e by (auto simp: emitted_def)
  then show "extends k ?k" by (auto simp: extends_def)
  fix p
  assume p: "code_at E p ?code" "\<exists>zs. e_pool E = k_cpool ?k @ zs" "k_numgroups ?k \<le> e_ng E" "k_numregs ?k \<le> NUM_REGISTERS"
  have c: "code_at E p [instr BEGGROUP (int n)]" "code_at E (p + 1) c" "code_at E (p + 1 + length c) [instr ENDGROUP (int n)]"
    using p(1) by (simp_all add: code_at_append code_at_Cons [of E _ _ "_ @ _"] add_ac)
  have "extends k1 ?k" by (simp add: extends_def)
  from runs_group [OF E c(1,3) emittedD [OF e c(2) this p(2-4)] n _ x(2)] p(3)
  show "runs E p (p + length ?code) (k_numregs k) (k_numregs ?k)
      (\<lambda>i g. map (\<lambda>(j, g'). (j, g'[n := (fst (g' ! n), Some j)])) (f i (g[n := (Some i, snd (g ! n))])))"
    by (simp add: add_ac)
qed

lemma emitted_single:
  assumes "forward (text_len E) f" "k_numregs k' = k_numregs k" "extends k k'"
    and "\<And>p. code_at E p [x] \<Longrightarrow> k_numgroups k' \<le> e_ng E \<Longrightarrow> runs E p (p + 1) (k_numregs k) (k_numregs k) f"
  shows "emitted E [x] k k' f"
  by (rule emittedI) (use assms in auto)

lemma makes_progress_matches: "\<not> is_nullable r \<Longrightarrow> makes_progress E (matches fc (e_text E) r)"
  unfolding makes_progress_def advances_def using not_nullable_progress by (fastforce intro!: filter_True)

lemma emit_code_emitted:
  assumes E: "env_ok E"
  shows "emit_code fc r k = Inr (code, k') \<Longrightarrow> e_fold E = fc \<Longrightarrow> re_ok r \<Longrightarrow> emitted E code k k' (matches fc (e_text E) r)"
    "emit_seq_code fc rl k = Inr (code, k') \<Longrightarrow> e_fold E = fc \<Longrightarrow> re_ok (Seq rl) \<Longrightarrow> emitted E code k k' (matches_seq fc (e_text E) rl)"
proof (induction fc r k and fc rl k arbitrary: code k' and code k' rule: emit_code_emit_seq_code.induct)
  case (1 fc c k)
  then show ?case using emitted_char [OF E, of fc c k] by simp
next
  case (2 fc s k)
  then show ?case using emitted_string [OF E] by simp
next
  case (3 fc cl compl k)
  have "length (charclass_of fc cl compl) = 32" using 3 by (simp add: charclass_of_def Let_def)
  moreover have "class_has fc cl compl = in_charset (charclass_of fc cl compl)" using 3 by (simp add: class_has_eq fun_eq_iff)
  ultimately show ?case using 3 runs_CHARCLASS [OF E] by (auto intro!: emitted_const [OF _ forward_char])
next
  case (4 fc rl k)
  then show ?case by simp
next
  case (5 fc r1 r2 k)
  then show ?case by (auto simp: bind_emit_Inr simp del: append.simps intro!: emitted_alt [OF E])
next
  case (6 fc r k)
  then obtain regno k1 c where *: "allocate_register_if_nullable r k = Inr (regno, k1)" "emit_code fc r k1 = Inr (c, k')"
    "code = [instr PUSHBACK (int (length (reg_instr SETMARK regno @ c @ reg_instr CHECKPROGRESS regno)) + 1)] @
       (reg_instr SETMARK regno @ c @ reg_instr CHECKPROGRESS regno) @ [instr GOTO (- int (length (reg_instr SETMARK regno @ c @ reg_instr CHECKPROGRESS regno)) - 2)]"
    by (auto simp: bind_emit_Inr Let_def)
  note a = allocate_ok [OF *(1)]
  have e: "emitted E c k1 k' (matches fc (e_text E) r)" using 6 * by auto
  have reg: "case regno of None \<Rightarrow> makes_progress E (matches fc (e_text E) r) | Some n \<Rightarrow> n = k_numregs k \<and> n < NUM_REGISTERS"
    using a makes_progress_matches by (auto split: option.splits)
  show ?case unfolding *(3) matches.simps by (rule emitted_star [OF E _ _ reg e refl]) (use a in blast)+
next
  case (7 fc r k)
  then obtain regno k1 c where *: "allocate_register_if_nullable r k = Inr (regno, k1)" "emit_code fc r k1 = Inr (c, k')"
    "code = (c @ reg_instr CHECKPROGRESS regno) @ [instr PUSHBACK (int (length (reg_instr SETMARK regno)) + 1)] @ reg_instr SETMARK regno @
       [instr GOTO (- int (length (c @ reg_instr CHECKPROGRESS regno)) - int (length (reg_instr SETMARK regno)) - 2)]"
    by (auto simp: bind_emit_Inr Let_def)
  note a = allocate_ok [OF *(1)]
  have e: "emitted E c k1 k' (matches fc (e_text E) r)" using 7 * by auto
  have reg: "case regno of None \<Rightarrow> makes_progress E (matches fc (e_text E) r) | Some n \<Rightarrow> n = k_numregs k \<and> n < NUM_REGISTERS"
    using a makes_progress_matches by (auto split: option.splits)
  show ?case unfolding *(3) matches.simps by (rule emitted_plus [OF E _ _ reg e refl refl]) (use a in blast)+
next
  case (8 fc r k)
  then show ?case by (auto simp: bind_emit_Inr simp del: append.simps intro!: emitted_option [OF E])
next
  case (9 fc n r k)
  then obtain c k1 where *: "emit_code fc r k = Inr (c, k1)" "code = [instr BEGGROUP (int n)] @ c @ [instr ENDGROUP (int n)]"
    "k' = k1\<lparr>k_numgroups := max (k_numgroups k1) (n + 1)\<rparr>"
    by (auto simp: bind_emit_Inr)
  have e: "emitted E c k k1 (matches fc (e_text E) r)" "1 \<le> n" using 9 * by auto
  show ?case unfolding *(2,3) matches.simps by (rule emitted_group [OF E e forward_matches [of "e_text E" fc "Group n r", unfolded matches.simps]])
next
  case (10 fc n k)
  then show ?case using runs_REFGROUP [OF E] forward_matches [of "e_text E" fc "Refgroup n"]
    by (auto simp: extends_def intro!: emitted_single)
next
  case (11 fc k)
  then show ?case using runs_BOL [OF E] forward_matches [of "e_text E" fc Bol] by (auto intro!: emitted_single)
next
  case (12 fc k)
  then show ?case using runs_EOL [OF E] forward_matches [of "e_text E" fc Eol] by (auto intro!: emitted_single)
next
  case (13 fc k)
  then show ?case using runs_WORDBOUNDARY [OF E] forward_matches [of "e_text E" fc Wordboundary] by (auto intro!: emitted_single)
next
  case (14 fc k)
  then show ?case using emitted_skip by simp
next
  case (15 fc r rl k)
  have ok: "re_ok r" "re_ok (Seq rl)" using "15.prems"(3) by auto
  show ?case
  proof (cases "simple_instr fc r rl")
    case None
    then obtain c1 k1 c2 where "emit_code fc r k = Inr (c1, k1)" "emit_seq_code fc rl k1 = Inr (c2, k')" "code = c1 @ c2"
      using "15.prems"(1) by (auto simp: bind_emit_Inr)
    then show ?thesis using "15.IH" None "15.prems"(2) ok emitted_seq [OF E] by auto
  next
    case (Some q)
    obtain opc cl where q: "q = (opc, cl)" by (cases q)
    obtain c1 k1 where c1: "emit_const opc cl k = (c1, k1)" by (cases "emit_const opc cl k")
    then obtain c2 where c2: "emit_seq_code fc rl k1 = Inr (c2, k')" "code = c1 @ c2"
      using "15.prems"(1) Some q by (auto simp: bind_emit_Inr)
    note s = simple_instr_cases [OF Some [unfolded q] ok]
    have "emitted E c1 k k1 (simple_match opc (e_text E) (in_charset cl))"
      by (rule emitted_const [OF c1 forward_simple]) (rule runs_simple [OF E s(1) _ _ s(2)])
    moreover have "emitted E c2 k1 k' (matches_seq fc (e_text E) rl)" using "15.IH" Some q c1 c2(1) "15.prems"(2) ok(2) by auto
    ultimately show ?thesis unfolding c2(2) matches_seq_simps s(3) by (rule emitted_seq [OF E])
  qed
qed

end
