(* ===== verification/Strlib.thy ===== *)
theory Strlib
  imports Reexec
begin

text \<open>
  The primitives of the library \<open>str\<close> on compiled regular expressions: matching at a position, searching forward and backward.
\<close>

subsection \<open>A regular expression in memory\<close>





lemma bytes_at_prefix: "bytes_at m v (bs @ cs) \<Longrightarrow> bytes_at m v bs"
  by (auto simp: bytes_at_def nth_append)





subsection \<open>The result of a match\<close>















subsection \<open>Searching\<close>









subsection \<open>Start characters\<close>






subsection \<open>An expression in memory\<close>













subsection \<open>The primitives\<close>






subsection \<open>Property\<close>



end
