(* ===== verification/Intext.thy ===== *)
theory Intext
  imports Alloc
begin

text \<open>
  The external representation of values (\<open>runtime/caml/intext.h\<close>): magic numbers, codes, and the conversions of
  integers to and from bytes that the writer (\<open>runtime/extern.c\<close>) and the reader (\<open>runtime/intern.c\<close>) use. The lemmas
  show that the conversions are inverse to each other.
\<close>

definition Intext_magic_number_small :: u32 where "Intext_magic_number_small = 0x8495A6BE"
definition Intext_magic_number_big :: u32 where "Intext_magic_number_big = 0x8495A6BF"
definition Intext_magic_number_compressed :: u32 where "Intext_magic_number_compressed = 0x8495A6BD"

definition PREFIX_SMALL_BLOCK :: u8 where "PREFIX_SMALL_BLOCK = 0x80"
definition PREFIX_SMALL_INT :: u8 where "PREFIX_SMALL_INT = 0x40"
definition PREFIX_SMALL_STRING :: u8 where "PREFIX_SMALL_STRING = 0x20"
definition CODE_INT8 :: u8 where "CODE_INT8 = 0x0"
definition CODE_INT16 :: u8 where "CODE_INT16 = 0x1"
definition CODE_INT32 :: u8 where "CODE_INT32 = 0x2"
definition CODE_INT64 :: u8 where "CODE_INT64 = 0x3"
definition CODE_SHARED8 :: u8 where "CODE_SHARED8 = 0x4"
definition CODE_SHARED16 :: u8 where "CODE_SHARED16 = 0x5"
definition CODE_SHARED32 :: u8 where "CODE_SHARED32 = 0x6"
definition CODE_SHARED64 :: u8 where "CODE_SHARED64 = 0x14"
definition CODE_BLOCK32 :: u8 where "CODE_BLOCK32 = 0x8"
definition CODE_BLOCK64 :: u8 where "CODE_BLOCK64 = 0x13"
definition CODE_STRING8 :: u8 where "CODE_STRING8 = 0x9"
definition CODE_STRING32 :: u8 where "CODE_STRING32 = 0xA"
definition CODE_STRING64 :: u8 where "CODE_STRING64 = 0x15"
definition CODE_DOUBLE_BIG :: u8 where "CODE_DOUBLE_BIG = 0xB"
definition CODE_DOUBLE_LITTLE :: u8 where "CODE_DOUBLE_LITTLE = 0xC"
definition CODE_DOUBLE_ARRAY8_BIG :: u8 where "CODE_DOUBLE_ARRAY8_BIG = 0xD"
definition CODE_DOUBLE_ARRAY8_LITTLE :: u8 where "CODE_DOUBLE_ARRAY8_LITTLE = 0xE"
definition CODE_DOUBLE_ARRAY32_BIG :: u8 where "CODE_DOUBLE_ARRAY32_BIG = 0xF"
definition CODE_DOUBLE_ARRAY32_LITTLE :: u8 where "CODE_DOUBLE_ARRAY32_LITTLE = 0x7"
definition CODE_DOUBLE_ARRAY64_BIG :: u8 where "CODE_DOUBLE_ARRAY64_BIG = 0x16"
definition CODE_DOUBLE_ARRAY64_LITTLE :: u8 where "CODE_DOUBLE_ARRAY64_LITTLE = 0x17"
definition CODE_CODEPOINTER :: u8 where "CODE_CODEPOINTER = 0x10"
definition CODE_INFIXPOINTER :: u8 where "CODE_INFIXPOINTER = 0x11"
definition OLD_CODE_CUSTOM :: u8 where "OLD_CODE_CUSTOM = 0x12"
definition CODE_CUSTOM_LEN :: u8 where "CODE_CUSTOM_LEN = 0x18"
definition CODE_CUSTOM_FIXED :: u8 where "CODE_CUSTOM_FIXED = 0x19"
definition CODE_UNBOXED_INT64 :: u8 where "CODE_UNBOXED_INT64 = 0x1a"
definition CODE_NULL :: u8 where "CODE_NULL = 0x1f"

lemmas code_defs = PREFIX_SMALL_BLOCK_def PREFIX_SMALL_INT_def PREFIX_SMALL_STRING_def CODE_INT8_def CODE_INT16_def CODE_INT32_def
  CODE_INT64_def CODE_SHARED8_def CODE_SHARED16_def CODE_SHARED32_def CODE_SHARED64_def CODE_BLOCK32_def CODE_BLOCK64_def
  CODE_STRING8_def CODE_STRING32_def CODE_STRING64_def CODE_DOUBLE_BIG_def CODE_DOUBLE_LITTLE_def CODE_DOUBLE_ARRAY8_BIG_def
  CODE_DOUBLE_ARRAY8_LITTLE_def CODE_DOUBLE_ARRAY32_BIG_def CODE_DOUBLE_ARRAY32_LITTLE_def CODE_DOUBLE_ARRAY64_BIG_def
  CODE_DOUBLE_ARRAY64_LITTLE_def CODE_CODEPOINTER_def CODE_INFIXPOINTER_def OLD_CODE_CUSTOM_def CODE_CUSTOM_LEN_def
  CODE_CUSTOM_FIXED_def CODE_UNBOXED_INT64_def CODE_NULL_def

text \<open>The native format is little-endian.\<close>

abbreviation "CODE_DOUBLE_NATIVE \<equiv> CODE_DOUBLE_LITTLE"
abbreviation "CODE_DOUBLE_ARRAY8_NATIVE \<equiv> CODE_DOUBLE_ARRAY8_LITTLE"
abbreviation "CODE_DOUBLE_ARRAY32_NATIVE \<equiv> CODE_DOUBLE_ARRAY32_LITTLE"
abbreviation "CODE_DOUBLE_ARRAY64_NATIVE \<equiv> CODE_DOUBLE_ARRAY64_LITTLE"

definition SIZE_EXTERN_OUTPUT_BLOCK :: int where "SIZE_EXTERN_OUTPUT_BLOCK = 8100"

definition NOT_MARKABLE :: header where "NOT_MARKABLE = push_bit 8 3"

subsection \<open>Writing integers\<close>

definition store16_be :: "u32 \<Rightarrow> u8 list" where
  "store16_be n = [ucast (signed_drop_bit 8 n), ucast n]"

definition store32_be :: "u64 \<Rightarrow> u8 list" where
  "store32_be n = [ucast (signed_drop_bit 24 n), ucast (signed_drop_bit 16 n), ucast (signed_drop_bit 8 n), ucast n]"

definition store64_be :: "u64 \<Rightarrow> u8 list" where
  "store64_be n =
     [ucast (signed_drop_bit 56 n), ucast (signed_drop_bit 48 n), ucast (signed_drop_bit 40 n), ucast (signed_drop_bit 32 n),
      ucast (signed_drop_bit 24 n), ucast (signed_drop_bit 16 n), ucast (signed_drop_bit 8 n), ucast n]"

text \<open>
  \<open>storevlq\<close> first counts the base-128 digits, to find where the last one goes, and then stores them backwards. The
  result is the count and the bytes from the first one stored on.
\<close>

function vlq_count :: "u64 \<Rightarrow> nat" where
  "vlq_count m = (if m = 0 then 0 else Suc (vlq_count (drop_bit 7 m)))"
  by auto

function vlq_digits :: "u64 \<Rightarrow> u8 list \<Rightarrow> u8 list" where
  "vlq_digits n dst = (if n = 0 then dst else vlq_digits (drop_bit 7 n) ((0x80 OR ucast (n AND 0x7F)) # dst))"
  by auto

lemma drop_bit_7_less: "n \<noteq> 0 \<Longrightarrow> unat (drop_bit 7 n) < unat n" for n :: u64
proof -
  assume "n \<noteq> 0"
  then have "0 < unat n" by (simp add: unat_gt_0)
  then show ?thesis unfolding unat_drop_bit_eq drop_bit_nat_def by simp
qed

termination vlq_count by (relation "measure unat") (use drop_bit_7_less in auto)
termination vlq_digits by (relation "measure (unat \<circ> fst)") (use drop_bit_7_less in auto)

definition storevlq :: "u64 \<Rightarrow> nat \<times> u8 list" where
  "storevlq n = (1 + vlq_count (drop_bit 7 n), vlq_digits (drop_bit 7 n) [ucast (n AND 0x7F)])"

subsection \<open>Reading integers\<close>

text \<open>The input is the list of the bytes that are left; reading past its end is \<open>None\<close>.\<close>

definition read8u :: "u8 list \<Rightarrow> (u8 \<times> u8 list) option" where
  "read8u s = (case s of [] \<Rightarrow> None | c # s \<Rightarrow> Some (c, s))"

fun read16u :: "u8 list \<Rightarrow> (u16 \<times> u8 list) option" where
  "read16u (a # b # s) = Some (push_bit 8 (ucast a) + ucast b, s)"
| "read16u _ = None"

fun read32u :: "u8 list \<Rightarrow> (u32 \<times> u8 list) option" where
  "read32u (a # b # c # d # s) = Some (push_bit 24 (ucast a) + push_bit 16 (ucast b) + push_bit 8 (ucast c) + ucast d, s)"
| "read32u _ = None"

fun read64u :: "u8 list \<Rightarrow> (u64 \<times> u8 list) option" where
  "read64u (a # b # c # d # e # f # g # h # s) =
     Some (push_bit 56 (ucast a) + push_bit 48 (ucast b) + push_bit 40 (ucast c) + push_bit 32 (ucast d) +
           push_bit 24 (ucast e) + push_bit 16 (ucast f) + push_bit 8 (ucast g) + ucast h, s)"
| "read64u _ = None"

definition readblock :: "nat \<Rightarrow> u8 list \<Rightarrow> (u8 list \<times> u8 list) option" where
  "readblock len s = (if len \<le> length s then Some (take len s, drop len s) else None)"

text \<open>The result of \<open>readvlq\<close>: whether bits were lost, the number, and the rest of the input.\<close>

fun readvlq_loop :: "u8 \<Rightarrow> u64 \<Rightarrow> bool \<Rightarrow> u8 list \<Rightarrow> (bool \<times> u64 \<times> u8 list) option" where
  "readvlq_loop c n retcode [] = (if c AND 0x80 \<noteq> 0 then None else Some (retcode, n, []))"
| "readvlq_loop c n retcode (c' # s) =
     (if c AND 0x80 \<noteq> 0 then
        let n7 = push_bit 7 n
        in readvlq_loop c' (n7 OR ucast (c' AND 0x7F)) (retcode \<or> n \<noteq> drop_bit 7 n7) s
      else Some (retcode, n, c' # s))"

definition readvlq :: "u8 list \<Rightarrow> (bool \<times> u64 \<times> u8 list) option" where
  "readvlq s = (case s of [] \<Rightarrow> None | c # s \<Rightarrow> readvlq_loop c (ucast (c AND 0x7F)) False s)"

subsection \<open>Round trips\<close>

lemma read8u_Cons [simp]: "read8u (c # s) = Some (c, s)"
  by (simp add: read8u_def)

lemma add_disjoint:
  fixes x y :: "'a::len word"
  assumes "\<And>n. bit x n \<Longrightarrow> k \<le> n" "\<And>n. bit y n \<Longrightarrow> n < k"
  shows "x + y = x OR y"
  using assms by (intro disjunctive_add) (meson not_le)

lemma bytes4_or:
  "push_bit 24 (ucast (a :: u8)) + push_bit 16 (ucast (b :: u8)) + push_bit 8 (ucast (c :: u8)) + ucast (d :: u8) =
   (push_bit 24 (ucast a) OR push_bit 16 (ucast b) OR push_bit 8 (ucast c) OR ucast d :: 'a::len word)"
proof -
  have 1: "push_bit 24 (ucast a) + push_bit 16 (ucast b) = (push_bit 24 (ucast a) OR push_bit 16 (ucast b) :: 'a word)"
    by (rule add_disjoint [where k = 24]) (auto simp: bit_simps dest: bit_imp_le_length)
  have 2: "(push_bit 24 (ucast a) OR push_bit 16 (ucast b)) + push_bit 8 (ucast c) =
      (push_bit 24 (ucast a) OR push_bit 16 (ucast b) OR push_bit 8 (ucast c) :: 'a word)"
    by (subst add_disjoint [where k = 16]) (auto simp: bit_simps or.assoc dest: bit_imp_le_length)
  have 3: "(push_bit 24 (ucast a) OR push_bit 16 (ucast b) OR push_bit 8 (ucast c)) + ucast d =
      (push_bit 24 (ucast a) OR push_bit 16 (ucast b) OR push_bit 8 (ucast c) OR ucast d :: 'a word)"
    by (subst add_disjoint [where k = 8]) (auto simp: bit_simps or.assoc dest: bit_imp_le_length)
  show ?thesis by (simp only: 1 2 3)
qed

lemma bit_byte:
  fixes n :: "'a::len word"
  assumes "j + 8 \<le> LENGTH('a)"
  shows "bit (push_bit k (ucast (ucast (signed_drop_bit j n) :: u8)) :: 'b::len word) i \<longleftrightarrow>
    k \<le> i \<and> i < k + 8 \<and> i < LENGTH('b) \<and> bit n (i - k + j)"
proof -
  have "\<not> LENGTH('a) - j \<le> i - k" if "i < k + 8" using assms that by simp
  then show ?thesis using assms by (auto simp: bit_simps add.commute)
qed

lemma bit_byte_0:
  fixes n :: "'a::len word"
  assumes "8 \<le> LENGTH('a)"
  shows "bit (ucast (ucast n :: u8) :: 'b::len word) i \<longleftrightarrow> i < 8 \<and> i < LENGTH('b) \<and> bit n i"
  by (auto simp: bit_simps)

lemma read16u_store16 [simp]: "read16u (store16_be n @ s) = Some (ucast n, s)"
proof -
  have "push_bit 8 (ucast (ucast (signed_drop_bit 8 n) :: u8)) + ucast (ucast n :: u8) = (ucast n :: u16)"
    by (subst add_disjoint [where k = 8])
      (auto simp: bit_byte bit_byte_0 bit_or_iff bit_ucast_iff intro!: bit_word_eqI dest: bit_imp_le_length)
  then show ?thesis by (simp add: store16_be_def)
qed

lemma bit_bytes4:
  fixes n :: "'a::len word"
  assumes "k + 32 \<le> LENGTH('a)" "32 \<le> LENGTH('b)"
  shows "bit (push_bit 24 (ucast (ucast (signed_drop_bit (k + 24) n) :: u8)) OR push_bit 16 (ucast (ucast (signed_drop_bit (k + 16) n) :: u8)) OR
      push_bit 8 (ucast (ucast (signed_drop_bit (k + 8) n) :: u8)) OR push_bit 0 (ucast (ucast (signed_drop_bit k n) :: u8)) :: 'b::len word) i \<longleftrightarrow>
      i < 32 \<and> bit n (i + k)"
proof -
  have "i - 24 + (k + 24) = i + k" if "24 \<le> i" using that by simp
  moreover have "i - 16 + (k + 16) = i + k" if "16 \<le> i" using that by simp
  moreover have "i - 8 + (k + 8) = i + k" if "8 \<le> i" using that by simp
  ultimately show ?thesis using assms by (auto simp: bit_or_iff bit_byte simp del: push_bit_0_id)
qed

lemma bytes4_word:
  fixes n :: "'a::len word"
  assumes "32 \<le> LENGTH('a)" "32 \<le> LENGTH('b)"
  shows "push_bit 24 (ucast (ucast (signed_drop_bit 24 n) :: u8)) OR push_bit 16 (ucast (ucast (signed_drop_bit 16 n) :: u8)) OR
      push_bit 8 (ucast (ucast (signed_drop_bit 8 n) :: u8)) OR ucast (ucast n :: u8) = (take_bit 32 (ucast n) :: 'b::len word)"
  using bit_bytes4 [of 0 n, where 'b = 'b] assms
  by (intro bit_word_eqI) (auto simp: bit_take_bit_iff bit_ucast_iff)

lemma read32u_store32 [simp]: "read32u (store32_be n @ s) = Some (ucast n, s)"
  using bytes4_word [of n, where 'b = 32] by (simp add: store32_be_def bytes4_or take_bit_word_eq_self)

lemma bytes8_or:
  "push_bit 56 (ucast (a :: u8)) + push_bit 48 (ucast (b :: u8)) + push_bit 40 (ucast (c :: u8)) + push_bit 32 (ucast (d :: u8)) +
   push_bit 24 (ucast (e :: u8)) + push_bit 16 (ucast (f :: u8)) + push_bit 8 (ucast (g :: u8)) + ucast (h :: u8) =
   (push_bit 32 (push_bit 24 (ucast a) + push_bit 16 (ucast b) + push_bit 8 (ucast c) + ucast d) +
    (push_bit 24 (ucast e) + push_bit 16 (ucast f) + push_bit 8 (ucast g) + ucast h) :: 'a::len word)"
  by (simp add: push_bit_add)

lemma read64u_store64 [simp]: "read64u (store64_be n @ s) = Some (n, s)"
proof -
  define hi :: u64 where "hi = (push_bit 24 (ucast (ucast (signed_drop_bit 56 n) :: u8)) OR push_bit 16 (ucast (ucast (signed_drop_bit 48 n) :: u8)) OR
      push_bit 8 (ucast (ucast (signed_drop_bit 40 n) :: u8)) OR ucast (ucast (signed_drop_bit 32 n) :: u8))"
  define lo :: u64 where "lo = (push_bit 24 (ucast (ucast (signed_drop_bit 24 n) :: u8)) OR push_bit 16 (ucast (ucast (signed_drop_bit 16 n) :: u8)) OR
      push_bit 8 (ucast (ucast (signed_drop_bit 8 n) :: u8)) OR ucast (ucast n :: u8))"
  have hi: "bit hi k \<longleftrightarrow> k < 32 \<and> bit n (k + 32)" for k
    using bit_bytes4 [of 32 n k, where 'b = 64] by (simp add: hi_def)
  have lo: "bit lo k \<longleftrightarrow> k < 32 \<and> bit n k" for k
    using bit_bytes4 [of 0 n k, where 'b = 64] by (simp add: lo_def)
  have "push_bit 32 hi + lo = n"
    by (subst add_disjoint [where k = 32])
      (auto simp: bit_push_bit_iff bit_or_iff hi lo intro!: bit_word_eqI dest: bit_imp_le_length)
  then show ?thesis unfolding store64_be_def by (simp add: bytes8_or bytes4_or hi_def lo_def del: push_bit_or)
qed

declare vlq_digits.simps [simp del] vlq_count.simps [simp del]

lemma length_vlq_digits: "length (vlq_digits n dst) = vlq_count n + length dst"
  by (induction n dst rule: vlq_digits.induct) (subst vlq_digits.simps, subst vlq_count.simps, simp)

lemma storevlq_length: "length (snd (storevlq n)) = fst (storevlq n)"
  by (simp add: storevlq_def length_vlq_digits)

lemma vlq_masks: "(0x7F :: u8) = mask 7" "(0x7F :: u64) = mask 7"
  by (simp_all add: mask_eq_exp_minus_1)

lemma bit_0x80: "bit (0x80 :: u8) n \<longleftrightarrow> n = 7"
  using bit_push_bit_iff [of 7 "1 :: u8" n] by (auto simp: bit_1_iff)

lemma vlq_last: "(ucast (n AND 0x7F) :: u8) AND 0x80 = 0" "ucast ((ucast (n AND 0x7F) :: u8) AND 0x7F) = n AND 0x7F" for n :: u64
  by (rule bit_word_eqI, simp only: vlq_masks bit_and_iff bit_or_iff bit_ucast_iff bit_mask_iff bit_0x80, auto)+

lemma vlq_cont: "(0x80 OR ucast (n AND 0x7F) :: u8) AND 0x80 \<noteq> 0" "ucast ((0x80 OR ucast (n AND 0x7F) :: u8) AND 0x7F) = n AND 0x7F" for n :: u64
proof -
  have "bit ((0x80 OR ucast (n AND 0x7F) :: u8) AND 0x80) 7" by (simp only: bit_and_iff bit_or_iff bit_0x80 simp_thms)
  then show "(0x80 OR ucast (n AND 0x7F) :: u8) AND 0x80 \<noteq> 0" by (metis bit_0_eq bot_apply bot_bool_def)
  show "ucast ((0x80 OR ucast (n AND 0x7F) :: u8) AND 0x7F) = n AND 0x7F"
    by (rule bit_word_eqI, simp only: vlq_masks bit_and_iff bit_or_iff bit_ucast_iff bit_mask_iff bit_0x80, auto)
qed

lemma vlq_join: "push_bit 7 (drop_bit 7 n) OR (n AND 0x7F) = n" "drop_bit 7 (push_bit 7 (drop_bit 7 n)) = drop_bit 7 n" for n :: u64
proof -
  show "push_bit 7 (drop_bit 7 n) OR (n AND 0x7F) = n" unfolding vlq_masks
    by (intro bit_word_eqI) (auto simp: bit_simps)
  show "drop_bit 7 (push_bit 7 (drop_bit 7 n)) = drop_bit 7 n"
    by (intro bit_word_eqI) (auto simp: bit_simps dest: bit_imp_le_length)
qed

lemma readvlq_digits:
  "readvlq (vlq_digits n (d # t)) =
     (if n = 0 then readvlq (d # t)
      else readvlq_loop d (push_bit 7 n OR ucast (d AND 0x7F)) (n \<noteq> drop_bit 7 (push_bit 7 n)) t)"
proof (induction n "d # t" arbitrary: d t rule: vlq_digits.induct)
  case (1 n)
  show ?case
  proof (cases "n = 0")
    case True
    then show ?thesis by (simp add: vlq_digits.simps)
  next
    case False
    let ?e = "0x80 OR ucast (n AND 0x7F) :: u8"
    have "readvlq (vlq_digits n (d # t)) = readvlq (vlq_digits (drop_bit 7 n) (?e # d # t))"
      using False by (subst vlq_digits.simps) simp
    also have "\<dots> = readvlq_loop ?e n False (d # t)"
    proof (cases "drop_bit 7 n = 0")
      case True
      then have "n AND 0x7F = n" using vlq_join(1) [of n] by simp
      then show ?thesis using 1 [OF False] True vlq_cont(2) [of n] by (simp add: readvlq_def)
    next
      case nz: False
      have "readvlq (vlq_digits (drop_bit 7 n) (?e # d # t)) =
        readvlq_loop ?e (push_bit 7 (drop_bit 7 n) OR ucast (?e AND 0x7F)) (drop_bit 7 n \<noteq> drop_bit 7 (push_bit 7 (drop_bit 7 n))) (d # t)"
        using 1 [OF False] nz by (simp only: if_False)
      then show ?thesis by (simp only: vlq_cont vlq_join simp_thms)
    qed
    also have "\<dots> = readvlq_loop d (push_bit 7 n OR ucast (d AND 0x7F)) (n \<noteq> drop_bit 7 (push_bit 7 n)) t"
      using vlq_cont(1) [of n] by (simp only: readvlq_loop.simps Let_def if_True simp_thms)
    finally show ?thesis using False by (simp only: if_False)
  qed
qed

lemma readvlq_loop_last: "c AND 0x80 = 0 \<Longrightarrow> readvlq_loop c n r s = Some (r, n, s)"
  by (cases s) auto

lemma vlq_digits_append: "vlq_digits n dst @ s = vlq_digits n (dst @ s)"
  by (induction n dst rule: vlq_digits.induct) (subst (1 2) vlq_digits.simps, simp)

lemma readvlq_storevlq [simp]: "readvlq (snd (storevlq n) @ s) = Some (False, n, s)"
proof -
  have "readvlq (vlq_digits (drop_bit 7 n) (ucast (n AND 0x7F) # s)) = Some (False, n, s)"
  proof (cases "drop_bit 7 n = 0")
    case True
    then have "n AND 0x7F = n" using vlq_join(1) [of n] by simp
    then show ?thesis using True vlq_last [of n]
      unfolding readvlq_digits by (simp add: readvlq_def readvlq_loop_last)
  next
    case False
    then show ?thesis unfolding readvlq_digits by (simp only: if_False readvlq_loop_last vlq_last vlq_join simp_thms)
  qed
  then show ?thesis by (simp add: storevlq_def vlq_digits_append)
qed

end
