(* ===== verification/Postable.thy ===== *)
theory Postable
  imports Dictionary
begin

text \<open>
  The position table of the marshaller (\<open>runtime/extern.c\<close>): a hash table with open addressing and linear probing that records
  where each object was written. A bit vector tells which entries are in use. The first part are the
  definitions of the source. The second part is linear probing on an abstract sequence of slots, which is then instantiated:
  the table implements a finite map, every search ends, and growth keeps all entries.
\<close>

record position_table =
  tab_shift :: nat
  tab_size :: u64
  tab_mask :: u64
  tab_threshold :: u64
  tab_present :: "u64 list"
  tab_entries :: "(val \<times> u64) list"

definition Bits_word :: u64 where "Bits_word = 64"

definition Bitvect_size :: "u64 \<Rightarrow> u64" where
  "Bitvect_size n = (n + Bits_word - 1) div Bits_word"

definition POS_TABLE_INIT_SIZE_LOG2 :: nat where "POS_TABLE_INIT_SIZE_LOG2 = 8"
definition POS_TABLE_INIT_SIZE :: u64 where "POS_TABLE_INIT_SIZE = push_bit POS_TABLE_INIT_SIZE_LOG2 1"

definition HASH_FACTOR :: u64 where "HASH_FACTOR = 11400714819323198486"

definition Hash :: "val \<Rightarrow> nat \<Rightarrow> u64" where
  "Hash v shift = drop_bit shift (v * HASH_FACTOR)"

definition Threshold :: "u64 \<Rightarrow> u64" where
  "Threshold sz = (sz * 2) div 3"

text \<open>The contents of the array of entries are not initialised.\<close>

definition extern_init_position_table :: "(val \<times> u64) list \<Rightarrow> position_table" where
  "extern_init_position_table es =
     \<lparr>tab_shift = 64 - POS_TABLE_INIT_SIZE_LOG2, tab_size = POS_TABLE_INIT_SIZE, tab_mask = POS_TABLE_INIT_SIZE - 1,
      tab_threshold = Threshold POS_TABLE_INIT_SIZE,
      tab_present = replicate (unat (Bitvect_size POS_TABLE_INIT_SIZE)) 0, tab_entries = es\<rparr>"

definition bitvect_test :: "u64 list \<Rightarrow> u64 \<Rightarrow> u64" where
  "bitvect_test bv i = bv ! unat (i div Bits_word) AND push_bit (unat (i AND (Bits_word - 1))) 1"

definition bitvect_set :: "u64 list \<Rightarrow> u64 \<Rightarrow> u64 list" where
  "bitvect_set bv i =
     bv[unat (i div Bits_word) := bv ! unat (i div Bits_word) OR push_bit (unat (i AND (Bits_word - 1))) 1]"

text \<open>The loop that looks for a free entry when the table is copied to a larger one.\<close>

partial_function (option) free_entry :: "u64 list \<Rightarrow> u64 \<Rightarrow> u64 \<Rightarrow> u64 option" where
  "free_entry present m h = (if bitvect_test present h \<noteq> 0 then free_entry present m ((h + 1) AND m) else Some h)"

definition occupy :: "position_table \<Rightarrow> u64 \<Rightarrow> val \<times> u64 \<Rightarrow> position_table" where
  "occupy t h e = t\<lparr>tab_present := bitvect_set (tab_present t) h, tab_entries := (tab_entries t)[unat h := e]\<rparr>"

fun copy_entries :: "position_table \<Rightarrow> nat list \<Rightarrow> position_table \<Rightarrow> position_table option" where
  "copy_entries old [] t = Some t"
| "copy_entries old (i # is) t =
     (if bitvect_test (tab_present old) (of_nat i) = 0 then copy_entries old is t
      else case free_entry (tab_present t) (tab_mask t) (Hash (fst (tab_entries old ! i)) (tab_shift t)) of
             None \<Rightarrow> None
           | Some h \<Rightarrow> copy_entries old is (occupy t h (tab_entries old ! i)))"

text \<open>\<open>lim\<close> is the largest request, in bytes, that \<open>malloc\<close> and \<open>calloc\<close> grant.\<close>

definition extern_resize_position_table :: "nat \<Rightarrow> position_table \<Rightarrow> position_table res option" where
  "extern_resize_position_table lim old =
     (let (new_size, new_shift) =
            (if tab_size old < 1000000 then (8 * tab_size old, tab_shift old - 3) else (2 * tab_size old, tab_shift old - 1))
      in if new_size = 0 \<or> 2 ^ 64 \<le> unat new_size * 16 then Some (Inl Out_of_memory)
         else if lim < unat new_size * 16 then Some (Inl Out_of_memory)
         else if lim < unat (Bitvect_size new_size) * 8 then Some (Inl Out_of_memory)
         else map_option Inr
           (copy_entries old [0..<unat (tab_size old)]
              \<lparr>tab_shift = new_shift, tab_size = new_size, tab_mask = new_size - 1, tab_threshold = Threshold new_size,
               tab_present = replicate (unat (Bitvect_size new_size)) 0, tab_entries = replicate (unat new_size) (0, 0)\<rparr>))"

text \<open>The search returns the index of the entry, and the position when the object was found.\<close>

partial_function (option) lookup_from :: "position_table \<Rightarrow> val \<Rightarrow> u64 \<Rightarrow> (u64 \<times> u64 option) option" where
  "lookup_from t obj h =
     (if bitvect_test (tab_present t) h = 0 then Some (h, None)
      else if fst (tab_entries t ! unat h) = obj then Some (h, Some (snd (tab_entries t ! unat h)))
      else lookup_from t obj ((h + 1) AND tab_mask t))"

definition extern_lookup_position :: "position_table \<Rightarrow> val \<Rightarrow> (u64 \<times> u64 option) option" where
  "extern_lookup_position t obj = lookup_from t obj (Hash obj (tab_shift t))"

text \<open>Recording an object, with the counter of objects, and updating the data of an entry.\<close>

definition record_location :: "nat \<Rightarrow> position_table \<Rightarrow> u64 \<Rightarrow> val \<Rightarrow> u64 \<Rightarrow> u64 \<Rightarrow> (position_table \<times> u64) res option" where
  "record_location lim t counter obj h data =
     (let t = occupy t h (obj, data); counter = counter + 1
      in if tab_threshold t \<le> counter
         then map_option (map_sum id (\<lambda>t. (t, counter))) (extern_resize_position_table lim t)
         else Some (Inr (t, counter)))"

definition update_location :: "position_table \<Rightarrow> u64 \<Rightarrow> u64 \<Rightarrow> position_table" where
  "update_location t h data = t\<lparr>tab_entries := (tab_entries t)[unat h := (fst (tab_entries t ! unat h), data)]\<rparr>"

subsection \<open>Linear probing\<close>

text \<open>
  A sequence of \<open>n\<close> slots in which every key is reachable from its hash index without passing a free slot
  or the same key.
\<close>

definition probe_ok :: "('k \<Rightarrow> nat) \<Rightarrow> nat \<Rightarrow> (nat \<Rightarrow> ('k \<times> 'v) option) \<Rightarrow> bool" where
  "probe_ok hs n slot \<longleftrightarrow> (\<forall>i<n. \<forall>k v. slot i = Some (k, v) \<longrightarrow>
     (\<exists>d<n. i = (hs k + d) mod n \<and> (\<forall>e<d. \<exists>k' v'. slot ((hs k + e) mod n) = Some (k', v') \<and> k' \<noteq> k)))"

definition slot_map :: "nat \<Rightarrow> (nat \<Rightarrow> ('k \<times> 'v) option) \<Rightarrow> ('k \<rightharpoonup> 'v) \<Rightarrow> bool" where
  "slot_map n slot f \<longleftrightarrow> (\<forall>k v. f k = Some v \<longleftrightarrow> (\<exists>i<n. slot i = Some (k, v)))"

text \<open>The first slot from the hash index of \<open>k\<close> on that is free or holds \<open>k\<close>, at distance \<open>d\<close>.\<close>

definition probe_end :: "('k \<Rightarrow> nat) \<Rightarrow> nat \<Rightarrow> (nat \<Rightarrow> ('k \<times> 'v) option) \<Rightarrow> 'k \<Rightarrow> nat \<Rightarrow> bool" where
  "probe_end hs n slot k d \<longleftrightarrow> d < n \<and> (\<forall>e<d. \<exists>k' v'. slot ((hs k + e) mod n) = Some (k', v') \<and> k' \<noteq> k) \<and>
     (slot ((hs k + d) mod n) = None \<or> (\<exists>v. slot ((hs k + d) mod n) = Some (k, v)))"

lemma probe_end_exists:
  assumes "i < n" "slot i = None"
  shows "\<exists>d. probe_end hs n slot k d"
proof -
  let ?P = "\<lambda>d. slot ((hs k + d) mod n) = None \<or> (\<exists>v. slot ((hs k + d) mod n) = Some (k, v))"
  obtain d where d: "d < n" "(hs k + d) mod n = i"
  proof (rule that)
    let ?d = "(i + n - hs k mod n) mod n"
    show "?d < n" using assms by simp
    have "hs k mod n < n" using assms by simp
    have "(hs k + ?d) mod n = (hs k mod n + (i + n - hs k mod n)) mod n" by (simp add: mod_simps)
    also have "hs k mod n + (i + n - hs k mod n) = i + n" using \<open>hs k mod n < n\<close> by linarith
    also have "(i + n) mod n = i" using assms by simp
    finally show "(hs k + ?d) mod n = i" .
  qed
  then have "?P d" using assms by simp
  then have L: "?P (LEAST d. ?P d)" "(LEAST d. ?P d) \<le> d" by (rule LeastI, rule Least_le)
  have "\<exists>k' v'. slot ((hs k + e) mod n) = Some (k', v') \<and> k' \<noteq> k" if "e < (LEAST d. ?P d)" for e
  proof -
    have "\<not> ?P e" using that by (rule not_less_Least)
    then show ?thesis by (cases "slot ((hs k + e) mod n)") auto
  qed
  then have "probe_end hs n slot k (LEAST d. ?P d)" unfolding probe_end_def using L d by auto
  then show ?thesis by blast
qed

lemma probe_end_slot:
  assumes "probe_ok hs n slot" "slot_map n slot f" "probe_end hs n slot k d"
  shows "f k = map_option snd (slot ((hs k + d) mod n))"
proof -
  have n: "0 < n" using assms(3) by (auto simp: probe_end_def)
  show ?thesis
  proof (cases "slot ((hs k + d) mod n)")
    case (Some e)
    then obtain v where v: "slot ((hs k + d) mod n) = Some (k, v)" using assms(3) by (auto simp: probe_end_def)
    then have "f k = Some v" using assms(2) n unfolding slot_map_def by (metis mod_less_divisor)
    then show ?thesis using v by simp
  next
    case None
    have False if "f k = Some v" for v
    proof -
      from that assms(2) obtain i where i: "i < n" "slot i = Some (k, v)" by (auto simp: slot_map_def)
      with assms(1) obtain d' where d': "d' < n" "i = (hs k + d') mod n"
        "\<forall>e<d'. \<exists>k' v'. slot ((hs k + e) mod n) = Some (k', v') \<and> k' \<noteq> k" unfolding probe_ok_def by blast
      consider "d' < d" | "d' = d" | "d < d'" by linarith
      then show False
      proof cases
        case 1 then show False using assms(3) i d' by (auto simp: probe_end_def)
      next
        case 2 then show False using None i d' by simp
      next
        case 3 then show False using None d'(3) by auto
      qed
    qed
    then show ?thesis using None by (cases "f k") auto
  qed
qed

lemma probe_ok_insert:
  assumes "probe_ok hs n slot" "slot_map n slot f" "probe_end hs n slot k d"
    and "i = (hs k + d) mod n" "slot' = slot(i := Some (k, v))"
  shows "probe_ok hs n slot'" "slot_map n slot' (f(k \<mapsto> v))"
proof -
  have n: "0 < n" and il: "i < n" and dn: "d < n" using assms(3,4) by (auto simp: probe_end_def)
  have old: "slot i = None \<or> (\<exists>w. slot i = Some (k, w))" using assms(3,4) by (auto simp: probe_end_def)
  have uniq: "j = i" if "j < n" "slot j = Some (k, w)" for j w
  proof -
    from that assms(1) obtain d' where d': "d' < n" "j = (hs k + d') mod n"
      "\<forall>e<d'. \<exists>k' v'. slot ((hs k + e) mod n) = Some (k', v') \<and> k' \<noteq> k" unfolding probe_ok_def by blast
    have "\<not> d' < d" using assms(3) d'(2) that by (auto simp: probe_end_def)
    moreover have "\<not> d < d'"
    proof
      assume "d < d'"
      then obtain k' v' where "slot i = Some (k', v')" "k' \<noteq> k" using d'(3) assms(4) by blast
      with old show False by auto
    qed
    ultimately show "j = i" using d'(2) assms(4) by simp
  qed
  show "probe_ok hs n slot'" unfolding probe_ok_def
  proof (intro allI impI)
    fix j k' w assume j: "j < n" "slot' j = Some (k', w)"
    show "\<exists>d<n. j = (hs k' + d) mod n \<and> (\<forall>e<d. \<exists>k'' v''. slot' ((hs k' + e) mod n) = Some (k'', v'') \<and> k'' \<noteq> k')"
    proof (cases "j = i")
      case True
      then have k': "k' = k" using j assms(5) by simp
      have "\<exists>k'' v''. slot' ((hs k + e) mod n) = Some (k'', v'') \<and> k'' \<noteq> k" if ed: "e < d" for e
      proof -
        obtain k'' v'' where e: "slot ((hs k + e) mod n) = Some (k'', v'')" "k'' \<noteq> k"
          using assms(3) ed unfolding probe_end_def by blast
        then have "(hs k + e) mod n \<noteq> i" using old by auto
        with e show ?thesis by (simp add: assms(5))
      qed
      then show ?thesis using True k' dn assms(4) by blast
    next
      case False
      then have s: "slot j = Some (k', w)" using j assms(5) by simp
      then have "k' \<noteq> k" using uniq j False by auto
      obtain d' where d': "d' < n" "j = (hs k' + d') mod n"
        "\<forall>e<d'. \<exists>k'' v''. slot ((hs k' + e) mod n) = Some (k'', v'') \<and> k'' \<noteq> k'"
        using s j assms(1) unfolding probe_ok_def by blast
      then show ?thesis using \<open>k' \<noteq> k\<close> by (auto simp: assms(5))
    qed
  qed
  show "slot_map n slot' (f(k \<mapsto> v))" unfolding slot_map_def
  proof (intro allI)
    fix k' w
    show "(f(k \<mapsto> v)) k' = Some w \<longleftrightarrow> (\<exists>j<n. slot' j = Some (k', w))"
    proof (cases "k' = k")
      case True
      have "(\<exists>j<n. slot' j = Some (k, w)) \<longleftrightarrow> v = w" using il uniq by (auto simp: assms(5) split: if_splits)
      then show ?thesis using True by simp
    next
      case False
      have "slot' j = Some (k', w) \<longleftrightarrow> slot j = Some (k', w)" for j using old False by (auto simp: assms(5))
      then show ?thesis using False assms(2) by (simp add: slot_map_def)
    qed
  qed
qed

subsection \<open>The bit vector\<close>

definition bitvect :: "u64 list \<Rightarrow> nat \<Rightarrow> bool" where
  "bitvect bv i \<longleftrightarrow> bit (bv ! (i div 64)) (i mod 64)"

lemma bitvect_index: "unat (i div Bits_word) = unat i div 64" "unat (i AND (Bits_word - 1)) = unat i mod 64"
  using unat_and_mask [of 6 i] by (simp_all add: Bits_word_def unat_div)

lemma bitvect_test_bit: "bitvect_test bv i \<noteq> 0 \<longleftrightarrow> bitvect bv (unat i)"
proof -
  have "bit (push_bit k 1 :: u64) j \<longleftrightarrow> j = k \<and> k < 64" for j k by (auto simp: bit_simps)
  moreover have "unat i mod 64 < 64" by simp
  ultimately have "bit (bitvect_test bv i) j \<longleftrightarrow> j = unat i mod 64 \<and> bitvect bv (unat i)" for j
    by (auto simp: bitvect_test_def bitvect_def bitvect_index bit_and_iff)
  then show ?thesis by (metis bit_eq_iff bit_0_eq bot_apply bot_bool_def)
qed

lemma bitvect_test_zero: "bitvect_test bv i = 0 \<longleftrightarrow> \<not> bitvect bv (unat i)"
  using bitvect_test_bit by blast

lemma bitvect_bitvect_set:
  assumes "unat i div 64 < length bv"
  shows "bitvect (bitvect_set bv i) j \<longleftrightarrow> j = unat i \<or> bitvect bv j"
proof (cases "j div 64 = unat i div 64")
  case True
  then have "j mod 64 = unat i mod 64 \<longleftrightarrow> j = unat i" by (metis div_mult_mod_eq)
  then show ?thesis using True assms by (auto simp: bitvect_def bitvect_set_def bitvect_index bit_simps)
next
  case False
  then show ?thesis by (auto simp: bitvect_def bitvect_set_def bitvect_index)
qed

lemma length_bitvect_set [simp]: "length (bitvect_set bv i) = length bv"
  by (simp add: bitvect_set_def)

subsection \<open>The table\<close>

definition slots :: "position_table \<Rightarrow> nat \<Rightarrow> (val \<times> u64) option" where
  "slots t i = (if bitvect (tab_present t) i then Some (tab_entries t ! i) else None)"

abbreviation hash_of :: "position_table \<Rightarrow> val \<Rightarrow> nat" where
  "hash_of t v \<equiv> unat (Hash v (tab_shift t))"

definition shape :: "nat \<Rightarrow> position_table \<Rightarrow> bool" where
  "shape k t \<longleftrightarrow> 8 \<le> k \<and> k < 60 \<and> tab_size t = 2 ^ k \<and> tab_shift t = 64 - k \<and> tab_mask t = 2 ^ k - 1 \<and>
     tab_threshold t = Threshold (2 ^ k) \<and> 64 * length (tab_present t) = 2 ^ k \<and> length (tab_entries t) = 2 ^ k"

definition tab_ok :: "nat \<Rightarrow> position_table \<Rightarrow> (val \<rightharpoonup> u64) \<Rightarrow> bool" where
  "tab_ok k t f \<longleftrightarrow> shape k t \<and> probe_ok (hash_of t) (2 ^ k) (slots t) \<and> slot_map (2 ^ k) (slots t) f"

lemma hash_less: "shape k t \<Longrightarrow> hash_of t v < 2 ^ k"
proof -
  assume s: "shape k t"
  have "unat (v * HASH_FACTOR) < 2 ^ k * 2 ^ (64 - k)"
    using unat64_less [of "v * HASH_FACTOR"] s by (simp add: shape_def flip: power_add)
  then have "unat (v * HASH_FACTOR) div 2 ^ (64 - k) < 2 ^ k" by (rule less_mult_imp_div_less)
  moreover have "unat (drop_bit n x) = unat x div 2 ^ n" for n and x :: u64
    unfolding unat_drop_bit_eq by (rule drop_bit_eq_div)
  ultimately show ?thesis using s by (simp add: Hash_def shape_def)
qed

lemma next_index: "shape k t \<Longrightarrow> unat ((h + 1) AND tab_mask t) = Suc (unat h) mod 2 ^ k"
  by (simp add: shape_def unat_and_mask unat_Suc_mod)

lemma slots_occupy:
  assumes "shape k t" "unat h < 2 ^ k"
  shows "slots (occupy t h e) = (slots t)(unat h := Some e)" "shape k (occupy t h e)" "hash_of (occupy t h e) = hash_of t"
proof -
  have "unat h div 64 < length (tab_present t)"
    using assms by (simp add: shape_def div_less_iff_less_mult mult.commute)
  then show "slots (occupy t h e) = (slots t)(unat h := Some e)"
    using assms by (auto simp: slots_def occupy_def bitvect_bitvect_set shape_def fun_eq_iff)
qed (use assms in \<open>simp_all add: shape_def occupy_def\<close>)

lemma slots_update:
  assumes "shape k t" "unat h < 2 ^ k" "slots t (unat h) = Some (obj, d)"
  shows "slots (update_location t h x) = (slots t)(unat h := Some (obj, x))" "shape k (update_location t h x)"
    "hash_of (update_location t h x) = hash_of t"
  using assms by (auto simp: slots_def update_location_def shape_def fun_eq_iff split: if_splits)

lemma lookup_from_end:
  assumes "shape k t" "probe_end (hash_of t) (2 ^ k) (slots t) obj d" "e \<le> d"
    "unat h = (hash_of t obj + e) mod 2 ^ k"
  shows "\<exists>i. lookup_from t obj i = lookup_from t obj h \<and> unat i = (hash_of t obj + d) mod 2 ^ k"
  using assms(3,4)
proof (induction "d - e" arbitrary: e h)
  case 0
  then have "e = d" by simp
  with 0 show ?case by blast
next
  case (Suc j)
  then have ed: "e < d" by simp
  then obtain k' v' where s: "slots t ((hash_of t obj + e) mod 2 ^ k) = Some (k', v')" "k' \<noteq> obj"
    using assms(2) unfolding probe_end_def by blast
  let ?h = "(h + 1) AND tab_mask t"
  have "lookup_from t obj h = lookup_from t obj ?h"
    using s Suc.prems by (subst lookup_from.simps) (auto simp: slots_def bitvect_test_zero split: if_splits)
  moreover have "unat ?h = (hash_of t obj + Suc e) mod 2 ^ k"
    using Suc.prems(2) by (simp add: next_index [OF assms(1)] mod_Suc_eq)
  ultimately show ?case using Suc.hyps(1) [of "Suc e" ?h] Suc.hyps(2) ed by auto
qed

lemma extern_lookup_position_ok:
  assumes "tab_ok k t f" "i < 2 ^ k" "slots t i = None"
  shows "\<exists>h d. extern_lookup_position t obj = Some (h, f obj) \<and> unat h < 2 ^ k \<and>
    unat h = (hash_of t obj + d) mod 2 ^ k \<and> probe_end (hash_of t) (2 ^ k) (slots t) obj d"
proof -
  have s: "shape k t" using assms(1) by (simp add: tab_ok_def)
  obtain d where d: "probe_end (hash_of t) (2 ^ k) (slots t) obj d"
    using probe_end_exists [of i "2 ^ k" "slots t", OF assms(2,3)] by blast
  obtain h where h: "lookup_from t obj h = extern_lookup_position t obj" "unat h = (hash_of t obj + d) mod 2 ^ k"
    using lookup_from_end [OF s d, of 0 "Hash obj (tab_shift t)"] hash_less [OF s]
    by (auto simp: extern_lookup_position_def)
  have f: "f obj = map_option snd (slots t (unat h))"
    using probe_end_slot [of "hash_of t" "2 ^ k" "slots t" f obj d] assms(1) d h(2) by (simp add: tab_ok_def)
  have "lookup_from t obj h = Some (h, f obj)"
    using d h(2) f by (subst lookup_from.simps) (auto simp: probe_end_def slots_def bitvect_test_zero split: if_splits)
  then have "extern_lookup_position t obj = Some (h, f obj)" "unat h < 2 ^ k" using h by simp_all
  with h(2) d show ?thesis by blast
qed

text \<open>Without a free entry the searches do not end, so the number of entries in use is bounded.\<close>

definition used :: "nat \<Rightarrow> position_table \<Rightarrow> nat" where
  "used k t = card {i. i < 2 ^ k \<and> slots t i \<noteq> None}"

lemma free_slot:
  assumes "used k t < 2 ^ k"
  shows "\<exists>i<2 ^ k. slots t i = None"
proof (rule ccontr)
  assume "\<not> ?thesis"
  then have "{i. i < 2 ^ k \<and> slots t i \<noteq> None} = {..<2 ^ k}" by force
  then show False using assms by (simp add: used_def)
qed

lemma used_occupy:
  assumes "shape k t" "unat h < 2 ^ k"
  shows "used k (occupy t h e) \<le> Suc (used k t)"
proof -
  have "{i. i < 2 ^ k \<and> slots (occupy t h e) i \<noteq> None} \<subseteq> insert (unat h) {i. i < 2 ^ k \<and> slots t i \<noteq> None}"
    by (auto simp: slots_occupy [OF assms])
  then have "used k (occupy t h e) \<le> card (insert (unat h) {i. i < 2 ^ k \<and> slots t i \<noteq> None})"
    unfolding used_def by (rule card_mono [rotated]) simp
  also have "\<dots> \<le> Suc (used k t)" by (simp add: used_def card_insert_if)
  finally show ?thesis .
qed

lemma tab_ok_insert:
  assumes "tab_ok k t f" "unat h = (hash_of t obj + d) mod 2 ^ k" "probe_end (hash_of t) (2 ^ k) (slots t) obj d"
  shows "tab_ok k (occupy t h (obj, x)) (f(obj \<mapsto> x))"
proof -
  have s: "shape k t" "unat h < 2 ^ k" using assms by (simp_all add: tab_ok_def)
  note i = probe_ok_insert [of "hash_of t" "2 ^ k" "slots t" f obj d "unat h" "slots (occupy t h (obj, x))" x]
  show ?thesis using assms i slots_occupy [OF s, of "(obj, x)"] by (simp add: tab_ok_def)
qed

subsection \<open>Growth\<close>

lemma free_entry_end:
  assumes "shape k t" "\<forall>j<d. slots t ((b + j) mod 2 ^ k) \<noteq> None" "slots t ((b + d) mod 2 ^ k) = None" "e \<le> d"
    "unat h = (b + e) mod 2 ^ k"
  shows "\<exists>i. free_entry (tab_present t) (tab_mask t) h = Some i \<and> unat i = (b + d) mod 2 ^ k"
  using assms(4,5)
proof (induction "d - e" arbitrary: e h)
  case 0
  then have "e = d" by simp
  with 0 assms(3) show ?case
    by (subst free_entry.simps) (auto simp: slots_def bitvect_test_zero split: if_splits)
next
  case (Suc j)
  then have ed: "e < d" by simp
  let ?h = "(h + 1) AND tab_mask t"
  have "slots t (unat h) \<noteq> None" using assms(2) ed Suc.prems(2) by simp
  then have "free_entry (tab_present t) (tab_mask t) h = free_entry (tab_present t) (tab_mask t) ?h"
    by (subst free_entry.simps) (auto simp: slots_def bitvect_test_zero split: if_splits)
  moreover have "unat ?h = (b + Suc e) mod 2 ^ k"
    using Suc.prems(2) by (simp add: next_index [OF assms(1)] mod_Suc_eq)
  ultimately show ?case using Suc.hyps(1) [of "Suc e" ?h] Suc.hyps(2) ed by auto
qed

lemma free_entry_ok:
  assumes "tab_ok k t f" "used k t < 2 ^ k" "f obj = None"
  shows "\<exists>h. free_entry (tab_present t) (tab_mask t) (Hash obj (tab_shift t)) = Some h \<and>
    tab_ok k (occupy t h (obj, x)) (f(obj \<mapsto> x)) \<and> used k (occupy t h (obj, x)) \<le> Suc (used k t)"
proof -
  have s: "shape k t" using assms(1) by (simp add: tab_ok_def)
  obtain i where "i < 2 ^ k" "slots t i = None" using free_slot [OF assms(2)] by blast
  then obtain d where d: "probe_end (hash_of t) (2 ^ k) (slots t) obj d"
    using probe_end_exists [of i "2 ^ k" "slots t"] by blast
  have "map_option snd (slots t ((hash_of t obj + d) mod 2 ^ k)) = None"
    using probe_end_slot [of "hash_of t" "2 ^ k" "slots t" f obj d] assms(1,3) d by (simp add: tab_ok_def)
  moreover have "\<forall>j<d. slots t ((hash_of t obj + j) mod 2 ^ k) \<noteq> None"
    using d unfolding probe_end_def by (metis option.distinct(1))
  ultimately obtain h where h: "free_entry (tab_present t) (tab_mask t) (Hash obj (tab_shift t)) = Some h"
    "unat h = (hash_of t obj + d) mod 2 ^ k"
    using free_entry_end [OF s, of d "hash_of t obj" 0 "Hash obj (tab_shift t)"] hash_less [OF s] by auto
  then have "unat h < 2 ^ k" by simp
  with h tab_ok_insert [OF assms(1) h(2) d] used_occupy [OF s] show ?thesis by blast
qed

lemma copy_entries_ok:
  assumes "tab_ok k t g" "used k t + length is < 2 ^ k" "distinct is"
    and "\<forall>i\<in>set is. i < 2 ^ 64 \<and> (\<forall>x v. slots old i = Some (x, v) \<longrightarrow> g x = None)"
    and "\<forall>i\<in>set is. \<forall>j\<in>set is. \<forall>x v w. slots old i = Some (x, v) \<longrightarrow> slots old j = Some (x, w) \<longrightarrow> i = j"
  shows "\<exists>t' g'. copy_entries old is t = Some t' \<and> tab_ok k t' g' \<and> used k t' \<le> used k t + length is \<and>
    (\<forall>x v. g' x = Some v \<longleftrightarrow> g x = Some v \<or> (\<exists>i\<in>set is. slots old i = Some (x, v)))"
  using assms
proof (induction "is" arbitrary: t g)
  case Nil
  then show ?case by auto
next
  case (Cons i "is")
  have b: "bitvect_test (tab_present old) (of_nat i) = 0 \<longleftrightarrow> slots old i = None"
    using Cons.prems(4) by (simp add: bitvect_test_zero slots_def unat_of_nat)
  show ?case
  proof (cases "slots old i")
    case None
    then have "copy_entries old (i # is) t = copy_entries old is t" using b by simp
    moreover obtain t' g' where "copy_entries old is t = Some t'" "tab_ok k t' g'" "used k t' \<le> used k t + length is"
      "\<forall>x v. g' x = Some v \<longleftrightarrow> g x = Some v \<or> (\<exists>i\<in>set is. slots old i = Some (x, v))"
      using Cons.IH [of t g] Cons.prems by auto
    ultimately show ?thesis using None by auto
  next
    case (Some e)
    obtain x v where e: "e = (x, v)" by (cases e)
    have xv: "tab_entries old ! i = (x, v)" using Some e by (simp add: slots_def split: if_splits)
    have "g x = None" using Cons.prems(4) Some e by auto
    with free_entry_ok [OF Cons.prems(1), of x v] Cons.prems(2) obtain h where
      h: "free_entry (tab_present t) (tab_mask t) (Hash x (tab_shift t)) = Some h"
      "tab_ok k (occupy t h (x, v)) (g(x \<mapsto> v))" "used k (occupy t h (x, v)) \<le> Suc (used k t)" by auto
    have "\<exists>t' g'. copy_entries old is (occupy t h (x, v)) = Some t' \<and> tab_ok k t' g' \<and>
        used k t' \<le> used k (occupy t h (x, v)) + length is \<and>
        (\<forall>y w. g' y = Some w \<longleftrightarrow> (g(x \<mapsto> v)) y = Some w \<or> (\<exists>i\<in>set is. slots old i = Some (y, w)))"
    proof (rule Cons.IH [OF h(2)])
      show "\<forall>j\<in>set is. j < 2 ^ 64 \<and> (\<forall>y w. slots old j = Some (y, w) \<longrightarrow> (g(x \<mapsto> v)) y = None)"
      proof (intro ballI conjI allI impI)
        fix j y w assume j: "j \<in> set is" "slots old j = Some (y, w)"
        have "y \<noteq> x"
        proof
          assume "y = x"
          then have "j = i" using Cons.prems(5) j Some e by auto
          then show False using j Cons.prems(3) by auto
        qed
        then show "(g(x \<mapsto> v)) y = None" using Cons.prems(4) j by auto
      qed (use Cons.prems(4) in auto)
    qed (use Cons.prems h(3) in auto)
    then obtain t' g' where c: "copy_entries old is (occupy t h (x, v)) = Some t'" "tab_ok k t' g'"
      "used k t' \<le> used k (occupy t h (x, v)) + length is"
      "\<forall>y w. g' y = Some w \<longleftrightarrow> (g(x \<mapsto> v)) y = Some w \<or> (\<exists>i\<in>set is. slots old i = Some (y, w))" by blast
    have "copy_entries old (i # is) t = Some t'" using b Some xv h(1) c(1) by simp
    moreover have "g' y = Some w \<longleftrightarrow> g y = Some w \<or> (\<exists>i\<in>set (i # is). slots old i = Some (y, w))" for y w
      using c(4) Some e \<open>g x = None\<close> by (cases "y = x") auto
    ultimately show ?thesis using c(2,3) h(3) by fastforce
  qed
qed

lemma bitvect_zero: "i < 64 * n \<Longrightarrow> \<not> bitvect (replicate n 0) i"
  by (simp add: bitvect_def div_less_iff_less_mult mult.commute)

lemma slots_empty:
  assumes "shape k t" "tab_present t = replicate n 0" "i < 2 ^ k"
  shows "slots t i = None"
  using assms bitvect_zero [of i n] by (simp add: slots_def shape_def)

lemma tab_ok_empty:
  assumes "shape k t" "tab_present t = replicate n 0"
  shows "tab_ok k t Map.empty" "used k t = 0"
proof -
  note e = slots_empty [OF assms]
  show "tab_ok k t Map.empty" using assms e by (auto simp: tab_ok_def probe_ok_def slot_map_def)
  have "{i. i < 2 ^ k \<and> slots t i \<noteq> None} = {}" using e by auto
  then show "used k t = 0" unfolding used_def by simp
qed

lemma slot_keys_distinct:
  assumes "probe_ok hs n slot" "i < n" "j < n" "slot i = Some (x, v)" "slot j = Some (x, w)"
  shows "i = j"
proof -
  obtain d where d: "d < n" "i = (hs x + d) mod n" "\<forall>e<d. \<exists>k' v'. slot ((hs x + e) mod n) = Some (k', v') \<and> k' \<noteq> x"
    using assms unfolding probe_ok_def by blast
  obtain d' where d': "d' < n" "j = (hs x + d') mod n" "\<forall>e<d'. \<exists>k' v'. slot ((hs x + e) mod n) = Some (k', v') \<and> k' \<noteq> x"
    using assms unfolding probe_ok_def by blast
  consider "d < d'" | "d = d'" | "d' < d" by linarith
  then show ?thesis using d d' assms(4,5) by cases auto
qed

lemma Threshold_power: "k < 60 \<Longrightarrow> unat (Threshold (2 ^ k)) = 2 * 2 ^ k div 3"
proof -
  assume k: "k < 60"
  have "(2 :: nat) * 2 ^ k \<le> 2 * 2 ^ 60" using k by (intro mult_le_mono power_increasing) auto
  then have "unat (2 ^ k * 2 :: u64) = 2 * 2 ^ k" using k by (simp add: unat_word_ariths unat_power2)
  then show ?thesis by (simp add: Threshold_def unat_div)
qed

lemma Bitvect_size_power: "6 \<le> k \<Longrightarrow> k < 60 \<Longrightarrow> 64 * unat (Bitvect_size (2 ^ k)) = 2 ^ k"
proof -
  assume k: "6 \<le> k" "k < 60"
  then obtain j where j: "k = 6 + j" by (auto simp: le_iff_add)
  have "(2 :: nat) ^ k \<le> 2 ^ 60" using k by (intro power_increasing) auto
  then have "unat (2 ^ k + 64 - 1 :: u64) = 2 ^ k + 63" using k by (simp add: unat_word_ariths unat_power2)
  then have "unat (Bitvect_size (2 ^ k)) = (2 ^ k + 63) div 64" by (simp add: Bitvect_size_def Bits_word_def unat_div)
  also have "\<dots> = 2 ^ j" by (simp add: j power_add)
  finally show ?thesis by (simp add: j power_add)
qed

lemma used_dom: "tab_ok k t f \<Longrightarrow> finite (dom f) \<and> used k t = card (dom f)"
proof -
  assume t: "tab_ok k t f"
  let ?I = "{i. i < 2 ^ k \<and> slots t i \<noteq> None}"
  have "dom f = (\<lambda>i. fst (the (slots t i))) ` ?I"
  proof (intro set_eqI iffI)
    fix x assume "x \<in> dom f"
    then obtain v i where "i < 2 ^ k" "slots t i = Some (x, v)" using t unfolding tab_ok_def slot_map_def by blast
    then show "x \<in> (\<lambda>i. fst (the (slots t i))) ` ?I" by force
  next
    fix x assume "x \<in> (\<lambda>i. fst (the (slots t i))) ` ?I"
    then obtain i v where "i < 2 ^ k" "slots t i = Some (x, v)" by auto
    then show "x \<in> dom f" using t unfolding tab_ok_def slot_map_def by blast
  qed
  moreover have "inj_on (\<lambda>i. fst (the (slots t i))) ?I"
    using slot_keys_distinct [of "hash_of t" "2 ^ k" "slots t"] t by (auto simp: inj_on_def tab_ok_def)
  ultimately show ?thesis by (simp add: used_def card_image)
qed

lemma pos_resize_ok:
  assumes "tab_ok k t f"
  shows "\<exists>r. extern_resize_position_table lim t = Some r \<and>
    (case r of Inl e \<Rightarrow> e = Out_of_memory | Inr t' \<Rightarrow> \<exists>k'>k. tab_ok k' t' f)"
proof -
  have s: "shape k t" using assms by (simp add: tab_ok_def)
  obtain k' where k': "k < k'" "k' \<le> k + 3"
    "(if tab_size t < 1000000 then (8 * tab_size t, tab_shift t - 3) else (2 * tab_size t, tab_shift t - 1)) = (2 ^ k', 64 - k')"
  proof (cases "tab_size t < 1000000")
    case True
    then show ?thesis using s that [of "k + 3"] by (simp add: shape_def power_add mult.commute)
  next
    case False
    then show ?thesis using s that [of "k + 1"] by (simp add: shape_def mult.commute)
  qed
  let ?new = "\<lparr>tab_shift = 64 - k', tab_size = 2 ^ k', tab_mask = 2 ^ k' - 1, tab_threshold = Threshold (2 ^ k'),
    tab_present = replicate (unat (Bitvect_size (2 ^ k'))) 0, tab_entries = replicate (2 ^ k') (0, 0)\<rparr>"
  have k64: "k' < 64" using k' s by (simp add: shape_def)
  have r: "extern_resize_position_table lim t =
     (if 2 ^ 64 \<le> 2 ^ k' * (16 :: nat) \<or> lim < 2 ^ k' * 16 \<or> lim < unat (Bitvect_size (2 ^ k')) * 8 then Some (Inl Out_of_memory)
      else map_option Inr (copy_entries t [0..<2 ^ k] ?new))"
    using k' k64 s unfolding extern_resize_position_table_def k'(3) by (simp add: unat_power2 shape_def)
  show ?thesis
  proof (cases "2 ^ 64 \<le> 2 ^ k' * (16 :: nat) \<or> lim < 2 ^ k' * 16 \<or> lim < unat (Bitvect_size (2 ^ k')) * 8")
    case False
    have "k' + 4 < 64"
    proof (rule ccontr)
      assume "\<not> ?thesis"
      then have "(2 :: nat) ^ 64 \<le> 2 ^ (k' + 4)" by (intro power_increasing) auto
      with False show False by (simp add: power_add)
    qed
    then have k60: "k' < 60" by simp
    have n: "shape k' ?new" using k60 k' s Bitvect_size_power [of k'] by (simp add: shape_def)
    have lt: "(2 :: nat) ^ k < 2 ^ k'" using k' by simp
    have le: "(2 :: nat) ^ k \<le> 2 ^ 64" using s by (intro power_increasing) (auto simp: shape_def)
    have "\<exists>t' g'. copy_entries t [0..<2 ^ k] ?new = Some t' \<and> tab_ok k' t' g' \<and> used k' t' \<le> used k' ?new + length [0..<2 ^ k] \<and>
      (\<forall>x v. g' x = Some v \<longleftrightarrow> Map.empty x = Some v \<or> (\<exists>i\<in>set [0..<2 ^ k]. slots t i = Some (x, v)))"
      using tab_ok_empty [OF n] slot_keys_distinct [of "hash_of t" "2 ^ k" "slots t"] assms lt le
      by (intro copy_entries_ok) (auto simp: tab_ok_def)
    then obtain t' g' where c: "copy_entries t [0..<2 ^ k] ?new = Some t'" "tab_ok k' t' g'"
      "\<forall>x v. g' x = Some v \<longleftrightarrow> (\<exists>i\<in>set [0..<2 ^ k]. slots t i = Some (x, v))" by auto
    have "g' = f" using c(3) assms by (intro map_eqI) (auto simp: tab_ok_def slot_map_def)
    then show ?thesis using r False c k' by auto
  qed (simp add: r)
qed

subsection \<open>The table as a dictionary\<close>

text \<open>The table represents \<open>f\<close>, and the counter is not below the number of entries and below the threshold.\<close>

definition pos_inv :: "position_table \<Rightarrow> u64 \<Rightarrow> (val \<rightharpoonup> u64) \<Rightarrow> bool" where
  "pos_inv t c f \<longleftrightarrow> (\<exists>k. tab_ok k t f) \<and> card (dom f) \<le> unat c \<and> c < tab_threshold t"

lemma threshold_bound:
  assumes "tab_ok k t f" "c < tab_threshold t"
  shows "unat c < 2 * 2 ^ k div 3" "unat (c + 1) = Suc (unat c)" "2 * 2 ^ k div 3 < (2 :: nat) ^ k"
proof -
  show "unat c < 2 * 2 ^ k div 3"
    using assms Threshold_power [of k] by (simp add: tab_ok_def shape_def word_less_nat_alt)
  show "unat (c + 1) = Suc (unat c)" using assms(2) by (rule unat_Suc_less)
  have "(0 :: nat) < 2 ^ k" by simp
  then show "2 * 2 ^ k div 3 < (2 :: nat) ^ k" by linarith
qed

lemma pos_inv_lookup:
  assumes "pos_inv t c f"
  shows "\<exists>h k d. extern_lookup_position t obj = Some (h, f obj) \<and> tab_ok k t f \<and> unat h < 2 ^ k \<and>
    unat h = (hash_of t obj + d) mod 2 ^ k \<and> probe_end (hash_of t) (2 ^ k) (slots t) obj d"
proof -
  obtain k where t: "tab_ok k t f" and c: "card (dom f) \<le> unat c" "c < tab_threshold t"
    using assms by (auto simp: pos_inv_def)
  then have "used k t < 2 ^ k" using used_dom [OF t] threshold_bound [OF t c(2)] by linarith
  then obtain i where "i < 2 ^ k" "slots t i = None" using free_slot by blast
  then show ?thesis using extern_lookup_position_ok [OF t, of i obj] t by blast
qed

lemma pos_inv_record:
  assumes "pos_inv t c f" "extern_lookup_position t obj = Some (h, p)"
  shows "\<exists>r. record_location lim t c obj h x = Some r \<and>
    (case r of Inl e \<Rightarrow> e = Out_of_memory | Inr (t', c') \<Rightarrow> c' = c + 1 \<and> pos_inv t' c' (f(obj \<mapsto> x)))"
proof -
  obtain k d where k: "tab_ok k t f" "unat h < 2 ^ k" "unat h = (hash_of t obj + d) mod 2 ^ k"
    "probe_end (hash_of t) (2 ^ k) (slots t) obj d" using pos_inv_lookup [OF assms(1), of obj] assms(2) by auto
  let ?t = "occupy t h (obj, x)"
  have ok: "tab_ok k ?t (f(obj \<mapsto> x))" by (rule tab_ok_insert [OF k(1,3,4)])
  have th: "tab_threshold ?t = tab_threshold t" by (simp add: occupy_def)
  have c: "card (dom f) \<le> unat c" "c < tab_threshold t" using assms(1) by (auto simp: pos_inv_def)
  note b = threshold_bound [OF k(1) c(2)]
  have d: "card (dom (f(obj \<mapsto> x))) \<le> unat (c + 1)" using c(1) b(2) used_dom [OF k(1)] by (simp add: card_insert_if)
  show ?thesis
  proof (cases "tab_threshold ?t \<le> c + 1")
    case False
    then have "record_location lim t c obj h x = Some (Inr (?t, c + 1))" unfolding record_location_def Let_def by simp
    moreover have "pos_inv ?t (c + 1) (f(obj \<mapsto> x))" using ok d False by (auto simp: pos_inv_def not_le)
    ultimately show ?thesis by simp
  next
    case True
    then have r: "record_location lim t c obj h x =
      map_option (map_sum id (\<lambda>t. (t, c + 1))) (extern_resize_position_table lim ?t)" by (simp add: record_location_def Let_def)
    obtain q where q: "extern_resize_position_table lim ?t = Some q"
      "case q of Inl e \<Rightarrow> e = Out_of_memory | Inr t' \<Rightarrow> \<exists>k'>k. tab_ok k' t' (f(obj \<mapsto> x))"
      using pos_resize_ok [OF ok] by blast
    show ?thesis
    proof (cases q)
      case (Inl e)
      then show ?thesis using q r by simp
    next
      case (Inr t')
      then obtain k' where k': "k < k'" "tab_ok k' t' (f(obj \<mapsto> x))" using q(2) by auto
      have "(2 :: nat) * 2 ^ k \<le> 2 ^ k'" using k'(1) power_increasing [of "Suc k" k' "2 :: nat"] by simp
      moreover have "8 \<le> k" using k(1) by (simp add: tab_ok_def shape_def)
      then have "(2 :: nat) ^ 8 \<le> 2 ^ k" by (intro power_increasing) auto
      ultimately have "Suc (unat c) < 2 * 2 ^ k' div 3" using b(1) by linarith
      then have "c + 1 < tab_threshold t'"
        using Threshold_power [of k'] k'(2) b(2) by (simp add: tab_ok_def shape_def word_less_nat_alt)
      then have "pos_inv t' (c + 1) (f(obj \<mapsto> x))" using k'(2) d by (auto simp: pos_inv_def)
      then show ?thesis using q r Inr by simp
    qed
  qed
qed

lemma pos_inv_update:
  assumes "pos_inv t c f" "extern_lookup_position t obj = Some (h, Some p)"
  shows "pos_inv (update_location t h x) c (f(obj \<mapsto> x))"
proof -
  obtain k d where k: "tab_ok k t f" "unat h < 2 ^ k" "unat h = (hash_of t obj + d) mod 2 ^ k" "f obj = Some p"
    "probe_end (hash_of t) (2 ^ k) (slots t) obj d" using pos_inv_lookup [OF assms(1), of obj] assms(2) by auto
  have "f obj = map_option snd (slots t (unat h))"
    using probe_end_slot [of "hash_of t" "2 ^ k" "slots t" f obj d] k by (simp add: tab_ok_def)
  moreover have "slots t (unat h) = None \<or> (\<exists>v. slots t (unat h) = Some (obj, v))"
    using k(3,5) by (simp add: probe_end_def)
  ultimately have s: "slots t (unat h) = Some (obj, p)" using k(4) by auto
  have sh: "shape k t" using k(1) by (simp add: tab_ok_def)
  note i = probe_ok_insert [of "hash_of t" "2 ^ k" "slots t" f obj d "unat h" "slots (update_location t h x)" x]
  have "tab_ok k (update_location t h x) (f(obj \<mapsto> x))"
    using k i slots_update [OF sh k(2) s, of x] by (simp add: tab_ok_def)
  moreover have "dom (f(obj \<mapsto> x)) = dom f" using k(4) by auto
  ultimately show ?thesis using assms(1) unfolding pos_inv_def by (auto simp: update_location_def)
qed

lemma pos_inv_init:
  assumes "length es = 256"
  shows "pos_inv (extern_init_position_table es) 0 Map.empty"
proof -
  have i: "(push_bit 8 1 :: u64) = 256" "(2 ^ 8 :: u64) = 256" by simp_all
  have b: "unat (Bitvect_size 256) = 4" "(0 :: u64) < Threshold 256" using Bitvect_size_power [of 8] Threshold_power [of 8]
    by (simp_all add: word_less_nat_alt)
  have "shape 8 (extern_init_position_table es)"
    using assms b by (simp add: shape_def extern_init_position_table_def POS_TABLE_INIT_SIZE_def POS_TABLE_INIT_SIZE_LOG2_def)
  then have "tab_ok 8 (extern_init_position_table es) Map.empty"
    by (rule tab_ok_empty) (simp add: extern_init_position_table_def)
  then show ?thesis using b
    unfolding pos_inv_def by (auto simp: extern_init_position_table_def POS_TABLE_INIT_SIZE_def POS_TABLE_INIT_SIZE_LOG2_def)
qed

text \<open>
  The contract of a dictionary: the state is the table with the counter of objects, and an update
  records a new object or changes the data of a known one, as \<open>reachable_words_once\<close> does.
\<close>

definition pos_find :: "position_table \<times> u64 \<Rightarrow> val \<Rightarrow> u64 option" where
  "pos_find s obj = Option.bind (extern_lookup_position (fst s) obj) snd"

definition pos_put :: "nat \<Rightarrow> position_table \<times> u64 \<Rightarrow> val \<Rightarrow> u64 \<Rightarrow> (position_table \<times> u64) option" where
  "pos_put lim s obj data =
     (case extern_lookup_position (fst s) obj of
        None \<Rightarrow> None
      | Some (h, None) \<Rightarrow> (case record_location lim (fst s) (snd s) obj h data of Some (Inr s') \<Rightarrow> Some s' | _ \<Rightarrow> None)
      | Some (h, Some _) \<Rightarrow> Some (update_location (fst s) h data, snd s))"

definition pos_abs :: "position_table \<times> u64 \<Rightarrow> val \<rightharpoonup> u64" where
  "pos_abs s = map_of (List.map_filter (slots (fst s)) [0..<unat (tab_size (fst s))])"

lemma pos_abs_inv: "pos_inv t c f \<Longrightarrow> pos_abs (t, c) = f"
proof -
  assume "pos_inv t c f"
  then obtain k where t: "tab_ok k t f" by (auto simp: pos_inv_def)
  let ?es = "List.map_filter (slots t) [0..<2 ^ k]"
  have es: "(x, v) \<in> set ?es \<longleftrightarrow> f x = Some v" for x v
    using t by (force simp: List.map_filter_def tab_ok_def slot_map_def image_iff)
  have "map_of ?es x = Some v \<longleftrightarrow> f x = Some v" for x v
    using es map_of_functional [of x ?es v] by auto
  moreover have "unat (tab_size t) = 2 ^ k" using t by (simp add: tab_ok_def shape_def unat_power2)
  ultimately show ?thesis unfolding pos_abs_def by (intro map_eqI) simp
qed

definition pos_wf :: "position_table \<times> u64 \<Rightarrow> bool" where
  "pos_wf s \<longleftrightarrow> (\<exists>f. pos_inv (fst s) (snd s) f)"

lemma pos_wfI: "pos_inv t c f \<Longrightarrow> pos_wf (t, c) \<and> pos_abs (t, c) = f"
  using pos_abs_inv by (auto simp: pos_wf_def)

lemma pos_wfD: "pos_wf (t, c) \<Longrightarrow> pos_inv t c (pos_abs (t, c))"
  using pos_abs_inv by (auto simp: pos_wf_def)

lemma pos_put_ok:
  assumes "pos_wf s" "pos_put lim s obj x = Some s'"
  shows "pos_wf s' \<and> pos_abs s' = (pos_abs s)(obj \<mapsto> x)"
proof -
  obtain t c where s: "s = (t, c)" by (cases s)
  have i: "pos_inv t c (pos_abs s)" using assms(1) pos_wfD s by simp
  obtain h where h: "extern_lookup_position t obj = Some (h, pos_abs s obj)" using pos_inv_lookup [OF i, of obj] by blast
  show ?thesis
  proof (cases "pos_abs s obj")
    case None
    obtain r where r: "record_location lim t c obj h x = Some r"
      "case r of Inl e \<Rightarrow> e = Out_of_memory | Inr (t', c') \<Rightarrow> c' = c + 1 \<and> pos_inv t' c' ((pos_abs s)(obj \<mapsto> x))"
      using pos_inv_record [OF i h] by blast
    then show ?thesis using assms(2) s h None pos_wfI by (auto simp: pos_put_def split: sum.splits)
  next
    case (Some p)
    then show ?thesis using assms(2) s h pos_wfI [OF pos_inv_update [OF i, of obj h p x]] by (auto simp: pos_put_def)
  qed
qed

interpretation pt: dictionary pos_wf pos_abs "\<lambda>_. True" "(extern_init_position_table (replicate 256 (0, 0)), 0)" pos_find "pos_put lim"
  for lim
proof
  have i: "pos_inv (extern_init_position_table (replicate 256 (0, 0))) 0 Map.empty" by (rule pos_inv_init) simp
  show "pos_wf (extern_init_position_table (replicate 256 (0, 0)), 0)"
    "pos_abs (extern_init_position_table (replicate 256 (0, 0)), 0) = Map.empty" using pos_wfI [OF i] by simp_all
  fix s s' :: "position_table \<times> u64" and obj :: val and x
  assume s: "pos_wf s"
  then show "pos_find s obj = pos_abs s obj"
    using pos_inv_lookup [of "fst s" "snd s" "pos_abs s" obj] pos_wfD [of "fst s" "snd s"] by (auto simp: pos_find_def)
  assume "pos_put lim s obj x = Some s'"
  from pos_put_ok [OF s this] show "pos_wf s'" "pos_abs s' = (pos_abs s)(obj \<mapsto> x)" by simp_all
qed

end
