(* ===== verification/Extern.thy ===== *)
theory Extern
  imports Intext Postable
begin

text \<open>
  The marshaller (\<open>runtime/extern.c\<close>): it writes the external representation of a value to a list of output blocks or to a
  buffer that the caller provides. The traversal keeps a stack of fields that are still to be written and a
  table of the positions of the objects already written, so that shared objects are written once.

  The heap is read in C memory. The output is the list of the finished blocks, the data of the current block up to
  \<open>extern_ptr\<close> and the distance between \<open>extern_ptr\<close> and \<open>extern_limit\<close>. An error releases the
  stack, the table and the output, so it is modelled as the exception alone. The size of the largest memory request that succeeds, the
  operations of custom blocks, the table of code fragments and the compression are parameters (\<open>extern_env\<close>).
\<close>

definition NO_SHARING :: u32 where "NO_SHARING = 1"
definition CLOSURES :: u32 where "CLOSURES = 2"
definition COMPAT_32 :: u32 where "COMPAT_32 = 4"
definition COMPRESSED :: u32 where "COMPRESSED = 8"

definition EXTERN_STACK_INIT_SIZE :: nat where "EXTERN_STACK_INIT_SIZE = 256"
definition EXTERN_STACK_MAX_SIZE :: nat where "EXTERN_STACK_MAX_SIZE = 1024 * 1024 * 100"

text \<open>The stack holds the items from \<open>sp\<close> down; \<open>x_limit\<close> is \<open>extern_stack_limit - extern_stack\<close>.\<close>

record extern_item =
  ei_v :: addr
  ei_count :: u64

record extern_state =
  x_flags :: u32
  x_counter :: u64
  x_size_32 :: u64
  x_size_64 :: u64
  x_stack :: "extern_item list"
  x_limit :: nat
  x_table :: position_table
  x_user :: bool
  x_done :: "u8 list list"
  x_data :: "u8 list"
  x_room :: int

record code_fragment =
  cf_code_start :: addr
  cf_code_end :: addr
  cf_digest :: "u8 list option"

record extern_ops =
  eo_identifier :: "u8 list"
  eo_serialize :: "(mem \<Rightarrow> val \<Rightarrow> extern_state \<Rightarrow> (extern_state \<times> u64 \<times> u64) res) option"
  eo_fixed_length :: "(u64 \<times> u64) option"

record extern_env =
  xe_lim :: nat
  xe_ops :: "addr \<Rightarrow> extern_ops"
  xe_find_code :: "addr \<Rightarrow> code_fragment option"
  xe_zstd :: bool
  xe_compress :: "u8 list list \<Rightarrow> u8 list list option"

definition bind_res :: "'a res \<Rightarrow> ('a \<Rightarrow> 'b res) \<Rightarrow> 'b res" where
  "bind_res r f = (case r of Inl e \<Rightarrow> Inl e | Inr x \<Rightarrow> f x)"

definition bind_call :: "'a res option \<Rightarrow> ('a \<Rightarrow> 'b res option) \<Rightarrow> 'b res option" where
  "bind_call r f = (case r of None \<Rightarrow> None | Some (Inl e) \<Rightarrow> Some (Inl e) | Some (Inr x) \<Rightarrow> f x)"

definition has_flag :: "extern_state \<Rightarrow> u32 \<Rightarrow> bool" where
  "has_flag s f \<longleftrightarrow> x_flags s AND f \<noteq> 0"

subsection \<open>The stack\<close>

definition extern_free_stack :: "extern_state \<Rightarrow> extern_state" where
  "extern_free_stack s = s\<lparr>x_stack := [], x_limit := EXTERN_STACK_INIT_SIZE\<rparr>"

definition extern_resize_stack :: "nat \<Rightarrow> extern_state \<Rightarrow> extern_state res" where
  "extern_resize_stack lim s =
     (let newsize = 2 * x_limit s
      in if EXTERN_STACK_MAX_SIZE \<le> newsize then Inl Out_of_memory
         else if lim < newsize * 16 then Inl Out_of_memory
         else Inr (s\<lparr>x_limit := newsize\<rparr>))"

text \<open>Advancing \<open>sp\<close>, growing the stack when it is full, and storing an item.\<close>

definition push_item :: "nat \<Rightarrow> addr \<Rightarrow> u64 \<Rightarrow> extern_state \<Rightarrow> extern_state res" where
  "push_item lim v count s =
     bind_res (if x_limit s \<le> length (x_stack s) + 1 then extern_resize_stack lim s else Inr s)
       (\<lambda>s. Inr (s\<lparr>x_stack := \<lparr>ei_v = v, ei_count = count\<rparr> # x_stack s\<rparr>))"

definition extern_record_location_with_data :: "nat \<Rightarrow> val \<Rightarrow> u64 \<Rightarrow> u64 \<Rightarrow> extern_state \<Rightarrow> extern_state res option" where
  "extern_record_location_with_data lim obj h data s =
     (if has_flag s NO_SHARING then Some (Inr s)
      else map_option (map_sum id (\<lambda>(t, c). s\<lparr>x_table := t, x_counter := c\<rparr>))
             (record_location lim (x_table s) (x_counter s) obj h data))"

definition extern_record_location :: "nat \<Rightarrow> val \<Rightarrow> u64 \<Rightarrow> extern_state \<Rightarrow> extern_state res option" where
  "extern_record_location lim obj h s = extern_record_location_with_data lim obj h (x_counter s) s"

definition extern_update_location_with_data :: "u64 \<Rightarrow> u64 \<Rightarrow> extern_state \<Rightarrow> extern_state" where
  "extern_update_location_with_data h data s =
     (if has_flag s NO_SHARING then s else s\<lparr>x_table := update_location (x_table s) h data\<rparr>)"

subsection \<open>The output\<close>

definition sizeof_output_block :: nat where "sizeof_output_block = 8120"

definition init_extern_output :: "nat \<Rightarrow> extern_state \<Rightarrow> extern_state res" where
  "init_extern_output lim s =
     (if lim < sizeof_output_block then Inl Out_of_memory
      else Inr (s\<lparr>x_user := False, x_done := [], x_data := [], x_room := SIZE_EXTERN_OUTPUT_BLOCK\<rparr>))"

definition grow_extern_output :: "nat \<Rightarrow> nat \<Rightarrow> extern_state \<Rightarrow> extern_state res" where
  "grow_extern_output lim required s =
     (if x_user s then Inl (Failure ''Marshal.to_buffer: buffer overflow'')
      else let extra = (if int required \<le> SIZE_EXTERN_OUTPUT_BLOCK div 2 then 0 else required)
           in if lim < sizeof_output_block + extra then Inl Out_of_memory
              else Inr (s\<lparr>x_done := x_done s @ [x_data s], x_data := [], x_room := SIZE_EXTERN_OUTPUT_BLOCK + int extra\<rparr>))"

definition output_blocks :: "extern_state \<Rightarrow> u8 list list" where
  "output_blocks s = (if x_user s then [x_data s] else x_done s @ [x_data s])"

definition extern_output_length :: "extern_state \<Rightarrow> nat" where
  "extern_output_length s = sum_list (map length (output_blocks s))"

text \<open>Storing bytes at \<open>extern_ptr\<close> and advancing it.\<close>

definition put :: "u8 list \<Rightarrow> extern_state \<Rightarrow> extern_state" where
  "put bs s = s\<lparr>x_data := x_data s @ bs, x_room := x_room s - int (length bs)\<rparr>"

definition writebyte :: "nat \<Rightarrow> u8 \<Rightarrow> extern_state \<Rightarrow> extern_state res" where
  "writebyte lim c s =
     bind_res (if x_room s \<le> 0 then grow_extern_output lim 1 s else Inr s) (\<lambda>s. Inr (put [c] s))"

definition writeblock :: "nat \<Rightarrow> u8 list \<Rightarrow> extern_state \<Rightarrow> extern_state res" where
  "writeblock lim data s =
     bind_res (if x_room s < int (length data) then grow_extern_output lim (length data) s else Inr s) (\<lambda>s. Inr (put data s))"

definition writecode8 :: "nat \<Rightarrow> u8 \<Rightarrow> u64 \<Rightarrow> extern_state \<Rightarrow> extern_state res" where
  "writecode8 lim code v s =
     bind_res (if x_room s < 2 then grow_extern_output lim 2 s else Inr s) (\<lambda>s. Inr (put [code, ucast v] s))"

definition writecode16 :: "nat \<Rightarrow> u8 \<Rightarrow> u64 \<Rightarrow> extern_state \<Rightarrow> extern_state res" where
  "writecode16 lim code v s =
     bind_res (if x_room s < 3 then grow_extern_output lim 3 s else Inr s) (\<lambda>s. Inr (put (code # store16_be (ucast v)) s))"

definition writecode32 :: "nat \<Rightarrow> u8 \<Rightarrow> u64 \<Rightarrow> extern_state \<Rightarrow> extern_state res" where
  "writecode32 lim code v s =
     bind_res (if x_room s < 5 then grow_extern_output lim 5 s else Inr s) (\<lambda>s. Inr (put (code # store32_be v) s))"

definition writecode64 :: "nat \<Rightarrow> u8 \<Rightarrow> u64 \<Rightarrow> extern_state \<Rightarrow> extern_state res" where
  "writecode64 lim code v s =
     bind_res (if x_room s < 9 then grow_extern_output lim 9 s else Inr s) (\<lambda>s. Inr (put (code # store64_be v) s))"

definition extern_int :: "nat \<Rightarrow> u64 \<Rightarrow> extern_state \<Rightarrow> extern_state res" where
  "extern_int lim n s =
     (if 0 \<le>s n \<and> n <s 0x40 then writebyte lim (PREFIX_SMALL_INT + ucast n) s
      else if - (2 ^ 7) \<le>s n \<and> n <s 2 ^ 7 then writecode8 lim CODE_INT8 n s
      else if - (2 ^ 15) \<le>s n \<and> n <s 2 ^ 15 then writecode16 lim CODE_INT16 n s
      else if n <s - (2 ^ 30) \<or> 2 ^ 30 \<le>s n then
        if has_flag s COMPAT_32 then Inl (Failure ''output_value: integer cannot be read back on 32-bit platform'')
        else writecode64 lim CODE_INT64 n s
      else writecode32 lim CODE_INT32 n s)"

definition extern_unboxed_int :: "nat \<Rightarrow> u64 \<Rightarrow> extern_state \<Rightarrow> extern_state res" where
  "extern_unboxed_int lim n s =
     (if has_flag s COMPAT_32 then Inl (Failure ''output_value: cannot marshal unboxed values on 32 bit'')
      else writecode64 lim CODE_UNBOXED_INT64 n s)"

definition extern_null :: "nat \<Rightarrow> extern_state \<Rightarrow> extern_state res" where
  "extern_null lim s = writecode8 lim CODE_NULL 0 s"

definition extern_shared_reference :: "nat \<Rightarrow> u64 \<Rightarrow> extern_state \<Rightarrow> extern_state res" where
  "extern_shared_reference lim d s =
     (if d < 0x100 then writecode8 lim CODE_SHARED8 d s
      else if d < 0x10000 then writecode16 lim CODE_SHARED16 d s
      else if 2 ^ 32 \<le> d then writecode64 lim CODE_SHARED64 d s
      else writecode32 lim CODE_SHARED32 d s)"

definition extern_header :: "nat \<Rightarrow> u64 \<Rightarrow> u32 \<Rightarrow> extern_state \<Rightarrow> extern_state res" where
  "extern_header lim sz tag s =
     (if tag < 16 \<and> sz < 8 then writebyte lim (ucast (ucast PREFIX_SMALL_BLOCK + ucast tag + push_bit 4 sz)) s
      else let hd = Make_header sz tag NOT_MARKABLE
           in if 0x3FFFFF < sz \<and> has_flag s COMPAT_32 then
                Inl (Failure ''output_value: array cannot be read back on 32-bit platform'')
              else if hd < 2 ^ 32 then writecode32 lim CODE_BLOCK32 hd s
              else writecode64 lim CODE_BLOCK64 hd s)"

definition mem_bytes :: "mem \<Rightarrow> addr \<Rightarrow> u64 \<Rightarrow> u8 list" where
  "mem_bytes m a n = map (\<lambda>i. m (a + of_nat i)) [0..<unat n]"

definition extern_string :: "nat \<Rightarrow> mem \<Rightarrow> val \<Rightarrow> u64 \<Rightarrow> extern_state \<Rightarrow> extern_state res" where
  "extern_string lim m v len s =
     bind_res
       (if len < 0x20 then writebyte lim (ucast (ucast PREFIX_SMALL_STRING + len)) s
        else if len < 0x100 then writecode8 lim CODE_STRING8 len s
        else if 0xFFFFFB < len \<and> has_flag s COMPAT_32 then
          Inl (Failure ''output_value: string cannot be read back on 32-bit platform'')
        else if len < 2 ^ 32 then writecode32 lim CODE_STRING32 len s
        else writecode64 lim CODE_STRING64 len s)
       (writeblock lim (mem_bytes m v len))"

definition extern_double :: "nat \<Rightarrow> mem \<Rightarrow> val \<Rightarrow> extern_state \<Rightarrow> extern_state res" where
  "extern_double lim m v s = bind_res (writebyte lim CODE_DOUBLE_NATIVE s) (writeblock lim (mem_bytes m v (1 * 8)))"

definition extern_double_array :: "nat \<Rightarrow> mem \<Rightarrow> val \<Rightarrow> u64 \<Rightarrow> extern_state \<Rightarrow> extern_state res" where
  "extern_double_array lim m v nfloats s =
     bind_res
       (if nfloats < 0x100 then writecode8 lim CODE_DOUBLE_ARRAY8_NATIVE nfloats s
        else if 0x1FFFFF < nfloats \<and> has_flag s COMPAT_32 then
          Inl (Failure ''output_value: float array cannot be read back on 32-bit platform'')
        else if nfloats < 2 ^ 32 then writecode32 lim CODE_DOUBLE_ARRAY32_NATIVE nfloats s
        else writecode64 lim CODE_DOUBLE_ARRAY64_NATIVE nfloats s)
       (writeblock lim (mem_bytes m v (nfloats * 8)))"

subsection \<open>Custom blocks\<close>

text \<open>
  The twelve bytes reserved for the lengths are found again by the number of their block and
  their offset in it, since the custom serialiser may start new blocks.
\<close>

definition store_output :: "nat \<Rightarrow> nat \<Rightarrow> u8 list \<Rightarrow> extern_state \<Rightarrow> extern_state" where
  "store_output blk ofs bs s =
     (let over = (\<lambda>d. take ofs d @ bs @ drop (ofs + length bs) d)
      in if blk < length (x_done s) then s\<lparr>x_done := (x_done s)[blk := over (x_done s ! blk)]\<rparr>
         else s\<lparr>x_data := over (x_data s)\<rparr>)"

definition c_chars :: "u8 list \<Rightarrow> string" where
  "c_chars bs = map (\<lambda>b. char_of (unat b)) bs"

definition extern_custom :: "extern_env \<Rightarrow> mem \<Rightarrow> val \<Rightarrow> extern_state \<Rightarrow> (extern_state \<times> u64 \<times> u64) res" where
  "extern_custom env m v s =
     (let ops = xe_ops env (load64 m v); ident = eo_identifier ops; lim = xe_lim env
      in case eo_serialize ops of
           None \<Rightarrow> Inl (Invalid_argument ''output_value: abstract value (Custom)'')
         | Some serialize \<Rightarrow>
             (case eo_fixed_length ops of
                None \<Rightarrow>
                  bind_res (writebyte lim CODE_CUSTOM_LEN s) (\<lambda>s.
                  bind_res (writeblock lim (ident @ [0]) s) (\<lambda>s.
                  bind_res (if x_room s \<le> 12 then grow_extern_output lim 12 s else Inr s) (\<lambda>s.
                  let blk = length (x_done s); ofs = length (x_data s)
                  in bind_res (serialize m v (put (replicate 12 0) s)) (\<lambda>(s, sz_32, sz_64).
                     Inr (store_output blk ofs (store32_be sz_32 @ store64_be sz_64) s, sz_32, sz_64)))))
              | Some fixed_length \<Rightarrow>
                  bind_res (writebyte lim CODE_CUSTOM_FIXED s) (\<lambda>s.
                  bind_res (writeblock lim (ident @ [0]) s) (\<lambda>s.
                  bind_res (serialize m v s) (\<lambda>(s, sz_32, sz_64).
                  if (sz_32, sz_64) \<noteq> fixed_length then
                    Inl (Fatal_error (''output_value: incorrect fixed sizes specified by '' @ c_chars ident))
                  else Inr (s, sz_32, sz_64))))))"

subsection \<open>Closures\<close>

definition extern_code_pointer :: "extern_env \<Rightarrow> addr \<Rightarrow> extern_state \<Rightarrow> extern_state res" where
  "extern_code_pointer env codeptr s =
     (case xe_find_code env codeptr of
        Some cf \<Rightarrow>
          if \<not> has_flag s CLOSURES then Inl (Invalid_argument ''output_value: functional value'')
          else (case cf_digest cf of
                  None \<Rightarrow> Inl (Invalid_argument ''output_value: private function'')
                | Some digest \<Rightarrow>
                    bind_res (writecode32 (xe_lim env) CODE_CODEPOINTER (codeptr - cf_code_start cf) s)
                      (writeblock (xe_lim env) (take 16 digest)))
      | None \<Rightarrow> Inl (Invalid_argument ''output_value: abstract value (outside heap)''))"

partial_function (option) closure_padding :: "nat \<Rightarrow> mem \<Rightarrow> val \<Rightarrow> u64 \<Rightarrow> extern_state \<Rightarrow> (u64 \<times> extern_state) res option" where
  "closure_padding lim m v i s =
     (if Field m v i = Val_long 0
      then case extern_int lim 0 s of Inl e \<Rightarrow> Some (Inl e) | Inr s \<Rightarrow> closure_padding lim m v (i + 1) s
      else Some (Inr (i, s)))"

text \<open>
  One entry point of a closure from field \<open>i\<close> on, with the padding and the infix header before all but the first.
  The result is the next field and the closure information.
\<close>

definition closure_entry :: "extern_env \<Rightarrow> mem \<Rightarrow> val \<Rightarrow> u64 \<Rightarrow> extern_state \<Rightarrow> (u64 \<times> u64 \<times> extern_state) res option" where
  "closure_entry env m v i s =
     bind_call
       (if 0 < i then
          bind_call (closure_padding (xe_lim env) m v i s) (\<lambda>(i, s).
          Some (bind_res (extern_int (xe_lim env) (Long_val (Field m v i)) s) (\<lambda>s. Inr (i + 1, s))))
        else Some (Inr (i, s)))
       (\<lambda>(i, s). Some
          (bind_res (extern_code_pointer env (Field m v i) s) (\<lambda>s.
           let info = Field m v (i + 1) in
           bind_res (extern_int (xe_lim env) (Long_val info) s) (\<lambda>s.
           if Arity_closinfo info \<noteq> 0 \<and> Arity_closinfo info \<noteq> 1
           then bind_res (extern_code_pointer env (Field m v (i + 2)) s) (\<lambda>s. Inr (i + 3, info, s))
           else Inr (i + 2, info, s)))))"

partial_function (option) closure_entries :: "extern_env \<Rightarrow> mem \<Rightarrow> val \<Rightarrow> u64 \<Rightarrow> extern_state \<Rightarrow> (u64 \<times> extern_state) res option" where
  "closure_entries env m v i s =
     (case closure_entry env m v i s of
        None \<Rightarrow> None
      | Some (Inl e) \<Rightarrow> Some (Inl e)
      | Some (Inr (i, info, s)) \<Rightarrow>
          if Is_last_closinfo info \<noteq> 0 then Some (Inr (i, s)) else closure_entries env m v i s)"

primrec closure_unboxed :: "nat \<Rightarrow> nat \<Rightarrow> mem \<Rightarrow> val \<Rightarrow> u64 \<Rightarrow> extern_state \<Rightarrow> extern_state res" where
  "closure_unboxed lim 0 m v i s = Inr s"
| "closure_unboxed lim (Suc n) m v i s =
     bind_res (extern_unboxed_int lim (Field m v i) s) (closure_unboxed lim n m v (i + 1))"

definition extern_closure_up_to_env :: "extern_env \<Rightarrow> mem \<Rightarrow> val \<Rightarrow> extern_state \<Rightarrow> (u64 \<times> extern_state) res option" where
  "extern_closure_up_to_env env m v s =
     (let startenv = Start_env_closinfo (Closinfo_val m v)
      in bind_call (closure_entries env m v 0 s) (\<lambda>(i, s).
         Some (bind_res (closure_unboxed (xe_lim env) (unat startenv - unat i) m v i s) (\<lambda>s. Inr (startenv, s)))))"

subsection \<open>The traversal\<close>

text \<open>The two ways to leave the body of the loop: \<open>continue\<close> with a value, or go to \<open>next_item\<close>.\<close>

datatype visit_result = Continue val extern_state | Next_item extern_state

definition add_sizes :: "u64 \<Rightarrow> u64 \<Rightarrow> extern_state \<Rightarrow> extern_state" where
  "add_sizes s32 s64 s = s\<lparr>x_size_32 := x_size_32 s + s32, x_size_64 := x_size_64 s + s64\<rparr>"

text \<open>Continuing with field \<open>i\<close> of a block, after a request for the fields that follow it.\<close>

definition continue_fields :: "nat \<Rightarrow> mem \<Rightarrow> val \<Rightarrow> u64 \<Rightarrow> u64 \<Rightarrow> extern_state \<Rightarrow> visit_result res" where
  "continue_fields lim m v i sz s =
     bind_res (if i < sz - 1 then push_item lim (v + 8 * (i + 1)) (sz - i - 1) s else Inr s)
       (\<lambda>s. Inr (Continue (Field m v i) s))"

text \<open>The cases of the \<open>switch\<close> on the tag of an object that has not been written yet.\<close>

definition extern_object :: "extern_env \<Rightarrow> mem \<Rightarrow> val \<Rightarrow> u64 \<Rightarrow> extern_state \<Rightarrow> visit_result res option" where
  "extern_object env m v h s =
     (let lim = xe_lim env; hd = Hd_val m v; tag = Tag_hd hd; sz = Wosize_hd hd;
          recorded = (\<lambda>r. bind_call (Some r) (\<lambda>s. map_option (map_sum id Next_item) (extern_record_location lim v h s)))
      in if tag = String_tag then
           let len = caml_string_length m v
           in recorded (bind_res (extern_string lim m v len s) (\<lambda>s. Inr (add_sizes (1 + (len + 4) div 4) (1 + (len + 8) div 8) s)))
         else if tag = Double_tag then
           recorded (bind_res (extern_double lim m v s) (\<lambda>s. Inr (add_sizes (1 + 2) (1 + 1) s)))
         else if tag = Double_array_tag then
           let nfloats = Wosize_val m v div 1
           in recorded (bind_res (extern_double_array lim m v nfloats s) (\<lambda>s. Inr (add_sizes (1 + nfloats * 2) (1 + nfloats) s)))
         else if tag = Abstract_tag then Some (Inl (Invalid_argument ''output_value: abstract value (Abstract)''))
         else if tag = Infix_tag then
           Some (bind_res (writecode32 lim CODE_INFIXPOINTER (Bsize_wsize (Wosize_hd hd)) s)
                   (\<lambda>s. Inr (Continue (v - Bsize_wsize (Wosize_hd hd)) s)))
         else if tag = Custom_tag then
           recorded (bind_res (extern_custom env m v s)
             (\<lambda>(s, sz_32, sz_64). Inr (add_sizes (2 + drop_bit 2 (sz_32 + 3)) (2 + drop_bit 3 (sz_64 + 7)) s)))
         else if tag = Closure_tag then
           bind_call (Some (extern_header lim sz tag s)) (\<lambda>s.
           bind_call (extern_record_location lim v h (add_sizes (1 + sz) (1 + sz) s)) (\<lambda>s.
           bind_call (extern_closure_up_to_env env m v s) (\<lambda>(i, s).
           if sz \<le> i then Some (Inr (Next_item s)) else Some (continue_fields lim m v i sz s))))
         else if tag = Cont_tag then Some (Inl (Invalid_argument ''output_value: continuation value''))
         else
           bind_call (Some (extern_header lim sz tag s)) (\<lambda>s.
           bind_call (extern_record_location lim v h (add_sizes (1 + sz) (1 + sz) s)) (\<lambda>s.
           Some (continue_fields lim m v 0 sz s))))"

text \<open>The test that a forwarding block must not be short-circuited.\<close>

definition keep_forward :: "mem \<Rightarrow> val \<Rightarrow> bool" where
  "keep_forward m f \<longleftrightarrow> Is_block f \<and>
     (Tag_val m f = Forward_tag \<or> Tag_val m f = Lazy_tag \<or> Tag_val m f = Forcing_tag \<or> Tag_val m f = Double_tag)"

definition extern_visit :: "extern_env \<Rightarrow> mem \<Rightarrow> val \<Rightarrow> extern_state \<Rightarrow> visit_result res option" where
  "extern_visit env m v s =
     (let lim = xe_lim env in
      if Is_null v then Some (bind_res (extern_null lim s) (\<lambda>s. Inr (Next_item s)))
      else if Is_long v then Some (bind_res (extern_int lim (Long_val v) s) (\<lambda>s. Inr (Next_item s)))
      else
        let hd = Hd_val m v; tag = Tag_hd hd; sz = Wosize_hd hd; reserved = Reserved_hd hd
        in if Is_mixed_block_reserved reserved then Some (Inl (Invalid_argument ''output_value: mixed block''))
           else if tag = Forward_tag \<and> \<not> keep_forward m (Forward_val m v) then Some (Inr (Continue (Forward_val m v) s))
           else if sz = 0 then Some (bind_res (extern_header lim 0 tag s) (\<lambda>s. Inr (Next_item s)))
           else if has_flag s NO_SHARING then extern_object env m v 0 s
           else case extern_lookup_position (x_table s) v of
                  None \<Rightarrow> None
                | Some (h, Some pos) \<Rightarrow>
                    Some (bind_res (extern_shared_reference lim (if has_flag s COMPRESSED then pos else x_counter s - pos) s)
                            (\<lambda>s. Inr (Next_item s)))
                | Some (h, None) \<Rightarrow> extern_object env m v h s)"

partial_function (option) extern_loop :: "extern_env \<Rightarrow> mem \<Rightarrow> val \<Rightarrow> extern_state \<Rightarrow> extern_state res option" where
  "extern_loop env m v s =
     (case extern_visit env m v s of
        None \<Rightarrow> None
      | Some (Inl e) \<Rightarrow> Some (Inl e)
      | Some (Inr (Continue v s)) \<Rightarrow> extern_loop env m v s
      | Some (Inr (Next_item s)) \<Rightarrow>
          (case x_stack s of
             [] \<Rightarrow> Some (Inr (extern_free_stack s))
           | it # st \<Rightarrow>
               extern_loop env m (load64 m (ei_v it))
                 (s\<lparr>x_stack := if ei_count it - 1 = 0 then st else it\<lparr>ei_v := ei_v it + 8, ei_count := ei_count it - 1\<rparr> # st\<rparr>)))"

definition extern_rec :: "extern_env \<Rightarrow> mem \<Rightarrow> val \<Rightarrow> extern_state \<Rightarrow> extern_state res option" where
  "extern_rec env m v s =
     extern_loop env m v
       (if has_flag s NO_SHARING then s else s\<lparr>x_table := extern_init_position_table (replicate 256 (0, 0))\<rparr>)"

subsection \<open>The header and the entry points\<close>

definition extern_flag_values :: "u32 \<Rightarrow> u32" where
  "extern_flag_values i = [NO_SHARING, CLOSURES, COMPAT_32, COMPRESSED] ! unat i"

text \<open>The header in the uncompressed formats: with 32-bit or, when the object is too big for it, with 64-bit numbers.\<close>

definition small_header :: "extern_state \<Rightarrow> u64 \<Rightarrow> u8 list" where
  "small_header s res_len =
     store32_be (ucast Intext_magic_number_small) @ store32_be res_len @ store32_be (x_counter s) @
     store32_be (x_size_32 s) @ store32_be (x_size_64 s)"

definition big_header :: "extern_state \<Rightarrow> u64 \<Rightarrow> u8 list" where
  "big_header s res_len =
     store32_be (ucast Intext_magic_number_big) @ store32_be 0 @ store64_be res_len @ store64_be (x_counter s) @ store64_be (x_size_64 s)"

definition compressed_header :: "extern_state \<Rightarrow> u64 \<Rightarrow> u64 \<Rightarrow> u8 list" where
  "compressed_header s res_len uncompressed_len =
     (let (n1, b1) = storevlq res_len; (n2, b2) = storevlq uncompressed_len; (n3, b3) = storevlq (x_counter s);
          (n4, b4) = storevlq (x_size_32 s); (n5, b5) = storevlq (x_size_64 s)
      in store32_be (ucast Intext_magic_number_compressed) @ [of_nat (5 + n1 + n2 + n3 + n4 + n5)] @ b1 @ b2 @ b3 @ b4 @ b5)"

text \<open>The part of \<open>extern_value\<close> after the traversal: compression and the choice of the header.\<close>

definition extern_write_header :: "extern_env \<Rightarrow> extern_state \<Rightarrow> (u8 list \<times> extern_state) res" where
  "extern_write_header env s =
     (if has_flag s COMPRESSED then
        let uncompressed_len = extern_output_length s
        in case xe_compress env (output_blocks s) of
             None \<Rightarrow> Inl Out_of_memory
           | Some blks \<Rightarrow>
               let s = s\<lparr>x_done := blks, x_data := []\<rparr>; res_len = extern_output_length s
               in if has_flag s COMPAT_32 \<and>
                     (2 ^ 32 \<le> uncompressed_len \<or> 2 ^ 32 \<le> res_len \<or> 2 ^ 32 \<le> x_size_32 s \<or> 2 ^ 32 \<le> x_size_64 s)
                  then Inl (Failure ''output_value: object too big to be read back on 32-bit platform'')
                  else Inr (compressed_header s (of_nat res_len) (of_nat uncompressed_len), s)
      else
        let res_len = extern_output_length s
        in if 2 ^ 32 \<le> res_len \<or> 2 ^ 32 \<le> x_size_32 s \<or> 2 ^ 32 \<le> x_size_64 s then
             if has_flag s COMPAT_32 then
               Inl (Failure ''output_value: object too big to be read back on 32-bit platform'')
             else Inr (big_header s (of_nat res_len), s)
           else Inr (small_header s (of_nat res_len), s))"

definition extern_value :: "extern_env \<Rightarrow> mem \<Rightarrow> val \<Rightarrow> val \<Rightarrow> extern_state \<Rightarrow> (u8 list \<times> extern_state) res option" where
  "extern_value env m v flags s =
     (case caml_convert_flag_list m flags extern_flag_values 0 of
        None \<Rightarrow> None
      | Some fl \<Rightarrow>
          let fl = (if xe_zstd env \<and> \<not> x_user s then fl else fl AND NOT COMPRESSED)
          in bind_call (extern_rec env m v (s\<lparr>x_flags := fl, x_counter := 0, x_size_32 := 0, x_size_64 := 0\<rparr>)) (\<lambda>s.
             Some (extern_write_header env s)))"

text \<open>The blocks that \<open>caml_output_val\<close> passes to \<open>caml_really_putblock\<close>, in order.\<close>

definition caml_output_val :: "extern_env \<Rightarrow> mem \<Rightarrow> bool \<Rightarrow> val \<Rightarrow> val \<Rightarrow> extern_state \<Rightarrow> (u8 list list \<times> extern_state) res option" where
  "caml_output_val env m binary_mode v flags s =
     (if \<not> binary_mode then Some (Inl (Failure ''output_value: not a binary channel''))
      else bind_call (Some (init_extern_output (xe_lim env) s)) (\<lambda>s.
           bind_call (extern_value env m v flags s) (\<lambda>(header, s).
           Some (Inr (header # output_blocks s, s)))))"

definition caml_output_value_to_bytes :: "extern_env \<Rightarrow> heap \<Rightarrow> val \<Rightarrow> val \<Rightarrow> extern_state \<Rightarrow> (heap \<times> val) res option" where
  "caml_output_value_to_bytes env hp v flags s =
     bind_call (Some (init_extern_output (xe_lim env) s)) (\<lambda>s.
     bind_call (extern_value env (hp_mem hp) v flags s) (\<lambda>(header, s).
     let data_len = extern_output_length s
     in case caml_alloc_string hp (of_nat (length header + data_len)) of
          None \<Rightarrow> None
        | Some (hp, res) \<Rightarrow>
            Some (Inr (hp\<lparr>hp_mem := copy_bytes (hp_mem hp) res (header @ concat (output_blocks s))\<rparr>, res))))"

definition caml_output_value_to_string :: "extern_env \<Rightarrow> heap \<Rightarrow> val \<Rightarrow> val \<Rightarrow> extern_state \<Rightarrow> (heap \<times> val) res option" where
  "caml_output_value_to_string env hp v flags s = caml_output_value_to_bytes env hp v flags s"

text \<open>The bytes written from \<open>buf\<close> on; the caller's buffer has \<open>len\<close> bytes.\<close>

definition caml_output_value_to_block :: "extern_env \<Rightarrow> mem \<Rightarrow> val \<Rightarrow> val \<Rightarrow> int \<Rightarrow> extern_state \<Rightarrow> u8 list res option" where
  "caml_output_value_to_block env m v flags len s =
     bind_call (extern_value env m v flags (s\<lparr>x_user := True, x_done := [], x_data := [], x_room := len - 20\<rparr>)) (\<lambda>(header, s).
     let data_len = extern_output_length s
     in Some (if length header \<noteq> 20 \<and> len < int (length header + data_len)
              then Inl (Failure ''Marshal.to_buffer: buffer overflow'')
              else Inr (header @ x_data s)))"

definition caml_output_value_to_malloc :: "extern_env \<Rightarrow> mem \<Rightarrow> val \<Rightarrow> val \<Rightarrow> extern_state \<Rightarrow> u8 list res option" where
  "caml_output_value_to_malloc env m v flags s =
     bind_call (Some (init_extern_output (xe_lim env) s)) (\<lambda>s.
     bind_call (extern_value env m v flags s) (\<lambda>(header, s).
     let data_len = extern_output_length s
     in Some (if xe_lim env < length header + data_len then Inl Out_of_memory
              else Inr (header @ concat (output_blocks s)))))"

subsection \<open>Serialisers of custom blocks\<close>

definition serialize_bytes :: "nat \<Rightarrow> u8 list \<Rightarrow> extern_state \<Rightarrow> extern_state res" where
  "serialize_bytes lim bs s =
     bind_res (if x_room s < int (length bs) then grow_extern_output lim (length bs) s else Inr s) (\<lambda>s. Inr (put bs s))"

definition caml_serialize_int_1 :: "nat \<Rightarrow> u32 \<Rightarrow> extern_state \<Rightarrow> extern_state res" where
  "caml_serialize_int_1 lim i s = serialize_bytes lim [ucast i] s"

definition caml_serialize_int_2 :: "nat \<Rightarrow> u32 \<Rightarrow> extern_state \<Rightarrow> extern_state res" where
  "caml_serialize_int_2 lim i s = serialize_bytes lim (store16_be i) s"

definition caml_serialize_int_4 :: "nat \<Rightarrow> u32 \<Rightarrow> extern_state \<Rightarrow> extern_state res" where
  "caml_serialize_int_4 lim i s = serialize_bytes lim (store32_be (scast i)) s"

definition caml_serialize_int_8 :: "nat \<Rightarrow> u64 \<Rightarrow> extern_state \<Rightarrow> extern_state res" where
  "caml_serialize_int_8 lim i s = serialize_bytes lim (store64_be i) s"

text \<open>The loops that reverse the bytes of \<open>len\<close> numbers of \<open>sz\<close> bytes.\<close>

primrec reverse_chunks :: "nat \<Rightarrow> nat \<Rightarrow> u8 list \<Rightarrow> u8 list" where
  "reverse_chunks sz 0 data = []"
| "reverse_chunks sz (Suc len) data = rev (take sz data) @ reverse_chunks sz len (drop sz data)"

definition caml_serialize_block_1 :: "nat \<Rightarrow> u8 list \<Rightarrow> extern_state \<Rightarrow> extern_state res" where
  "caml_serialize_block_1 lim data s = serialize_bytes lim data s"

definition caml_serialize_block_2 :: "nat \<Rightarrow> u8 list \<Rightarrow> nat \<Rightarrow> extern_state \<Rightarrow> extern_state res" where
  "caml_serialize_block_2 lim data len s = serialize_bytes lim (reverse_chunks 2 len data) s"

definition caml_serialize_block_4 :: "nat \<Rightarrow> u8 list \<Rightarrow> nat \<Rightarrow> extern_state \<Rightarrow> extern_state res" where
  "caml_serialize_block_4 lim data len s = serialize_bytes lim (reverse_chunks 4 len data) s"

definition caml_serialize_block_8 :: "nat \<Rightarrow> u8 list \<Rightarrow> nat \<Rightarrow> extern_state \<Rightarrow> extern_state res" where
  "caml_serialize_block_8 lim data len s = serialize_bytes lim (reverse_chunks 8 len data) s"

definition caml_serialize_block_float_8 :: "nat \<Rightarrow> u8 list \<Rightarrow> nat \<Rightarrow> extern_state \<Rightarrow> extern_state res" where
  "caml_serialize_block_float_8 lim data len s = serialize_bytes lim (take (8 * len) data) s"

definition caml_serialize_float_4 :: "nat \<Rightarrow> u8 list \<Rightarrow> extern_state \<Rightarrow> extern_state res" where
  "caml_serialize_float_4 lim f s = caml_serialize_block_4 lim f 1 s"

definition caml_serialize_float_8 :: "nat \<Rightarrow> u8 list \<Rightarrow> extern_state \<Rightarrow> extern_state res" where
  "caml_serialize_float_8 lim f s = caml_serialize_block_float_8 lim f 1 s"

text \<open>The serialisers of the boxed integers (\<open>runtime/ints.c\<close>).\<close>

definition int32_serialize :: "nat \<Rightarrow> mem \<Rightarrow> val \<Rightarrow> extern_state \<Rightarrow> (extern_state \<times> u64 \<times> u64) res" where
  "int32_serialize lim m v s = bind_res (caml_serialize_int_4 lim (Int32_val m v) s) (\<lambda>s. Inr (s, 4, 4))"

definition int64_serialize :: "nat \<Rightarrow> mem \<Rightarrow> val \<Rightarrow> extern_state \<Rightarrow> (extern_state \<times> u64 \<times> u64) res" where
  "int64_serialize lim m v s = bind_res (caml_serialize_int_8 lim (Int64_val m v) s) (\<lambda>s. Inr (s, 8, 8))"

definition nativeint_serialize :: "nat \<Rightarrow> mem \<Rightarrow> val \<Rightarrow> extern_state \<Rightarrow> (extern_state \<times> u64 \<times> u64) res" where
  "nativeint_serialize lim m v s =
     (let l = Nativeint_val m v in
      bind_res
        (if - (2 ^ 31) \<le>s l \<and> l \<le>s 2 ^ 31 - 1
         then bind_res (caml_serialize_int_1 lim 1 s) (caml_serialize_int_4 lim (ucast l))
         else bind_res (caml_serialize_int_1 lim 2 s) (caml_serialize_int_8 lim l))
        (\<lambda>s. Inr (s, 4, 8)))"

end
