(* ===== verification/Items.thy ===== *)
theory Items
  imports Extern
begin

text \<open>
  What the marshaller writes. The output is the concatenation of the encodings of a sequence of items, which is
  determined by the traversal \<open>trav\<close> of the graph of values: a worklist of values, of which the first is written and, when it
  is a new block, replaced by its fields. The theory shows that the marshaller terminates on every finite graph and performs this
  traversal.
\<close>

datatype item = I_int u64 | I_null | I_shared u64 | I_str "u8 list" | I_dbl "u8 list" | I_dbls "u8 list" | I_blk u64 u32

definition enc_int :: "u64 \<Rightarrow> u8 list" where
  "enc_int n =
     (if 0 \<le>s n \<and> n <s 0x40 then [PREFIX_SMALL_INT + ucast n]
      else if - (2 ^ 7) \<le>s n \<and> n <s 2 ^ 7 then [CODE_INT8, ucast n]
      else if - (2 ^ 15) \<le>s n \<and> n <s 2 ^ 15 then CODE_INT16 # store16_be (ucast n)
      else if n <s - (2 ^ 30) \<or> 2 ^ 30 \<le>s n then CODE_INT64 # store64_be n
      else CODE_INT32 # store32_be n)"

definition enc_size :: "u8 \<Rightarrow> u8 \<Rightarrow> u8 \<Rightarrow> u64 \<Rightarrow> u8 list" where
  "enc_size code8 code32 code64 n =
     (if n < 0x100 then [code8, ucast n] else if n < 2 ^ 32 then code32 # store32_be n else code64 # store64_be n)"

definition enc_header :: "u64 \<Rightarrow> u32 \<Rightarrow> u8 list" where
  "enc_header sz tag =
     (if tag < 16 \<and> sz < 8 then [ucast (ucast PREFIX_SMALL_BLOCK + ucast tag + push_bit 4 sz)]
      else let hd = Make_header sz tag NOT_MARKABLE
           in if hd < 2 ^ 32 then CODE_BLOCK32 # store32_be hd else CODE_BLOCK64 # store64_be hd)"

fun enc :: "item \<Rightarrow> u8 list" where
  "enc (I_int n) = enc_int n"
| "enc I_null = [CODE_NULL, 0]"
| "enc (I_shared d) =
     (if d < 0x100 then [CODE_SHARED8, ucast d] else if d < 0x10000 then CODE_SHARED16 # store16_be (ucast d)
      else if 2 ^ 32 \<le> d then CODE_SHARED64 # store64_be d else CODE_SHARED32 # store32_be d)"
| "enc (I_str bs) =
     (let len = of_nat (length bs) in
      (if len < 0x20 then [ucast (ucast PREFIX_SMALL_STRING + len :: u64)]
       else enc_size CODE_STRING8 CODE_STRING32 CODE_STRING64 len) @ bs)"
| "enc (I_dbl bs) = CODE_DOUBLE_LITTLE # bs"
| "enc (I_dbls bs) =
     enc_size CODE_DOUBLE_ARRAY8_LITTLE CODE_DOUBLE_ARRAY32_LITTLE CODE_DOUBLE_ARRAY64_LITTLE (of_nat (length bs div 8)) @ bs"
| "enc (I_blk sz tag) = enc_header sz tag"

text \<open>The words that the object of an item takes, with its header.\<close>

fun item_words :: "item \<Rightarrow> nat" where
  "item_words (I_str bs) = 1 + (length bs + 8) div 8"
| "item_words (I_dbl bs) = 2"
| "item_words (I_dbls bs) = 1 + length bs div 8"
| "item_words (I_blk sz tag) = (if sz = 0 then 0 else 1 + unat sz)"
| "item_words _ = 0"

subsection \<open>Output\<close>

definition outp :: "extern_state \<Rightarrow> u8 list" where
  "outp s = concat (output_blocks s)"

definition same :: "extern_state \<Rightarrow> extern_state \<Rightarrow> bool" where
  "same s s' \<longleftrightarrow> s' = s\<lparr>x_done := x_done s', x_data := x_data s', x_room := x_room s'\<rparr>"

text \<open>The exceptions of the output: no memory, the caller's buffer is full, or the limits of 32-bit platforms.\<close>

definition out_error :: "extern_state \<Rightarrow> exn \<Rightarrow> bool" where
  "out_error s e \<longleftrightarrow> e = Out_of_memory \<or> ((\<exists>msg. e = Failure msg) \<and> (x_user s \<or> has_flag s COMPAT_32))"

definition emits :: "u8 list \<Rightarrow> extern_state \<Rightarrow> extern_state res \<Rightarrow> bool" where
  "emits bs s r \<longleftrightarrow> (case r of Inl e \<Rightarrow> out_error s e | Inr s' \<Rightarrow> outp s' = outp s @ bs \<and> same s s')"

lemma same_refl [simp]: "same s s" by (simp add: same_def)

lemma same_fields:
  assumes "same s s'"
  shows "x_flags s' = x_flags s" "x_counter s' = x_counter s" "x_size_32 s' = x_size_32 s" "x_size_64 s' = x_size_64 s"
    "x_stack s' = x_stack s" "x_limit s' = x_limit s" "x_table s' = x_table s" "x_user s' = x_user s"
    "has_flag s' f = has_flag s f"
proof -
  have s': "s' = s\<lparr>x_done := x_done s', x_data := x_data s', x_room := x_room s'\<rparr>" using assms by (simp add: same_def)
  show "x_flags s' = x_flags s" "x_counter s' = x_counter s" "x_size_32 s' = x_size_32 s" "x_size_64 s' = x_size_64 s"
    "x_stack s' = x_stack s" "x_limit s' = x_limit s" "x_table s' = x_table s" "x_user s' = x_user s"
    by (subst s', simp)+
  then show "has_flag s' f = has_flag s f" by (simp add: has_flag_def)
qed

lemma same_trans: "same a b \<Longrightarrow> same b c \<Longrightarrow> same a c"
  by (cases a; cases b; cases c) (simp add: same_def)

lemma out_error_same: "same s s' \<Longrightarrow> out_error s' e \<longleftrightarrow> out_error s e"
  by (simp add: out_error_def same_fields)

lemma emits_bind:
  assumes "emits a s r" "\<And>s'. same s s' \<Longrightarrow> emits b s' (f s')"
  shows "emits (a @ b) s (bind_res r f)"
proof (cases r)
  case (Inl e)
  then show ?thesis using assms(1) by (simp add: emits_def bind_res_def)
next
  case (Inr s')
  then have s': "outp s' = outp s @ a" "same s s'" using assms(1) by (simp_all add: emits_def)
  have "emits b s' (f s')" using assms(2) s' by blast
  then show ?thesis using s' Inr
    by (auto simp: emits_def bind_res_def out_error_same intro: same_trans split: sum.splits)
qed

lemma emits_put:
  "emits bs s (bind_res (if c then grow_extern_output lim n s else Inr s) (\<lambda>s. Inr (put bs s)))"
proof -
  have g: "emits [] s (if c then grow_extern_output lim n s else Inr s)"
    by (simp add: emits_def grow_extern_output_def out_error_def outp_def output_blocks_def same_def Let_def)
  have p: "emits bs s' (Inr (put bs s'))" for s'
    by (simp add: emits_def outp_def output_blocks_def put_def same_def)
  show ?thesis using emits_bind [OF g, of bs "\<lambda>s. Inr (put bs s)"] p by simp
qed

lemma emits_write:
  "emits [c] s (writebyte lim c s)" "emits bs s (writeblock lim bs s)" "emits [code, ucast v] s (writecode8 lim code v s)"
  "emits (code # store16_be (ucast v)) s (writecode16 lim code v s)" "emits (code # store32_be v) s (writecode32 lim code v s)"
  "emits (code # store64_be v) s (writecode64 lim code v s)"
  unfolding writebyte_def writeblock_def writecode8_def writecode16_def writecode32_def writecode64_def by (rule emits_put)+

lemma emits_compat: "has_flag s COMPAT_32 \<Longrightarrow> emits bs s (Inl (Failure msg))"
  by (simp add: emits_def out_error_def)

lemma emits_int: "emits (enc (I_int n)) s (extern_int lim n s)"
  unfolding extern_int_def enc.simps enc_int_def
  by (auto intro: emits_write emits_compat)

lemma emits_null: "emits (enc I_null) s (extern_null lim s)"
  using emits_write(3) [of CODE_NULL 0] by (simp add: extern_null_def)

lemma emits_shared: "emits (enc (I_shared d)) s (extern_shared_reference lim d s)"
  unfolding extern_shared_reference_def enc.simps by (auto intro: emits_write)

lemma emits_header: "emits (enc (I_blk sz tag)) s (extern_header lim sz tag s)"
  unfolding extern_header_def enc.simps enc_header_def Let_def by (auto intro: emits_write emits_compat)

lemma length_mem_bytes [simp]: "length (mem_bytes m a n) = unat n"
  by (simp add: mem_bytes_def)

lemma emits_string: "emits (enc (I_str (mem_bytes m v len))) s (extern_string lim m v len s)"
proof -
  have "of_nat (length (mem_bytes m v len)) = len" by simp
  then show ?thesis
    unfolding extern_string_def enc.simps enc_size_def Let_def
    by (simp only:) (rule emits_bind, auto intro: emits_write emits_compat)
qed

lemma emits_double: "emits (enc (I_dbl (mem_bytes m v 8))) s (extern_double lim m v s)"
proof -
  have "emits ([CODE_DOUBLE_LITTLE] @ mem_bytes m v (1 * 8)) s (extern_double lim m v s)"
    unfolding extern_double_def by (rule emits_bind) (rule emits_write)+
  then show ?thesis by simp
qed

lemma emits_doubles:
  assumes "unat n < 2 ^ 61"
  shows "emits (enc (I_dbls (mem_bytes m v (n * 8)))) s (extern_double_array lim m v n s)"
proof -
  have "unat (n * 8) = unat n * 8" using assms by (simp add: unat_word_ariths)
  then have "of_nat (length (mem_bytes m v (n * 8)) div 8) = n" by simp
  then show ?thesis
    unfolding extern_double_array_def enc.simps enc_size_def
    by (simp only:) (rule emits_bind, auto intro: emits_write emits_compat)
qed

subsection \<open>The traversal\<close>

primrec index_of :: "'a \<Rightarrow> 'a list \<Rightarrow> nat" where
  "index_of x [] = 0"
| "index_of x (y # ys) = (if x = y then 0 else Suc (index_of x ys))"

lemma index_of_less: "x \<in> set xs \<Longrightarrow> index_of x xs < length xs"
  by (induction xs) auto

lemma nth_index_of: "x \<in> set xs \<Longrightarrow> xs ! index_of x xs = x"
  by (induction xs) auto

lemma index_of_append: "index_of x (xs @ [y]) = (if x \<in> set xs then index_of x xs else if x = y then length xs else Suc (length xs))"
  by (induction xs) auto

text \<open>A forced lazy value is replaced by what it forwards to, unless that could change its representation.\<close>

definition short :: "mem \<Rightarrow> val \<Rightarrow> val" where
  "short m v =
     (if Is_block v \<and> Tag_val m v = Forward_tag \<and> \<not> keep_forward m (Forward_val m v) then Forward_val m v else v)"

definition leaf_tag :: "u32 \<Rightarrow> bool" where
  "leaf_tag tag \<longleftrightarrow> tag = String_tag \<or> tag = Double_tag \<or> tag = Double_array_tag"

definition scan_fields :: "mem \<Rightarrow> val \<Rightarrow> val list" where
  "scan_fields m v = (if leaf_tag (Tag_val m v) then [] else map (\<lambda>i. Field m v (of_nat i)) [0..<unat (Wosize_val m v)])"

definition leaf_item :: "mem \<Rightarrow> val \<Rightarrow> item" where
  "leaf_item m v =
     (if Tag_val m v = String_tag then I_str (mem_bytes m v (caml_string_length m v))
      else if Tag_val m v = Double_tag then I_dbl (mem_bytes m v 8)
      else if Tag_val m v = Double_array_tag then I_dbls (mem_bytes m v (Wosize_val m v * 8))
      else I_blk (Wosize_val m v) (Tag_val m v))"

text \<open>One step: the item for a value, the fields that are to be written next, and the objects written so far.\<close>

definition visit_item :: "bool \<Rightarrow> mem \<Rightarrow> val list \<Rightarrow> val \<Rightarrow> item \<times> val list \<times> val list" where
  "visit_item compressed m seen v =
     (let v = short m v in
      if Is_null v then (I_null, [], seen)
      else if Is_long v then (I_int (Long_val v), [], seen)
      else if Wosize_val m v = 0 then (I_blk 0 (Tag_val m v), [], seen)
      else if v \<in> set seen then
        (I_shared (of_nat (if compressed then index_of v seen else length seen - index_of v seen)), [], seen)
      else (leaf_item m v, scan_fields m v, seen @ [v]))"

inductive trav :: "bool \<Rightarrow> mem \<Rightarrow> val list \<Rightarrow> val list \<Rightarrow> item list \<Rightarrow> val list \<Rightarrow> bool" for compressed m where
  trav_Nil: "trav compressed m [] seen [] seen"
| trav_Cons: "visit_item compressed m seen v = (it, fs, seen1) \<Longrightarrow> trav compressed m (fs @ vs) seen1 its seen2 \<Longrightarrow>
    trav compressed m (v # vs) seen (it # its) seen2"

text \<open>
  The graphs that are covered: a set of blocks, closed under the fields that are followed, with the tags
  that are written without calling custom operations and read back unchanged.
\<close>

definition value_ok :: "mem \<Rightarrow> val set \<Rightarrow> val \<Rightarrow> bool" where
  "value_ok m G v \<longleftrightarrow> (Is_block v \<longrightarrow> Reserved_val m v = 0) \<and> (Is_block (short m v) \<longrightarrow> short m v \<in> G)"

definition block_ok :: "mem \<Rightarrow> val \<Rightarrow> bool" where
  "block_ok m v \<longleftrightarrow> Is_block v \<and> Reserved_val m v = 0 \<and> short m v = v \<and>
     Tag_val m v \<notin> {Abstract_tag, Infix_tag, Custom_tag, Closure_tag, Cont_tag, Object_tag} \<and>
     (Tag_val m v = String_tag \<longrightarrow> unat (Wosize_val m v) = unat (caml_string_length m v) div 8 + 1) \<and>
     (Tag_val m v = Double_tag \<longrightarrow> Wosize_val m v = 1)"

definition graph_ok :: "mem \<Rightarrow> val set \<Rightarrow> bool" where
  "graph_ok m G \<longleftrightarrow> finite G \<and> (\<forall>v\<in>G. block_ok m v \<and> (\<forall>w\<in>set (scan_fields m v). value_ok m G w))"

lemma short_short: "short m (short m v) = short m v"
  by (auto simp: short_def keep_forward_def)

lemma value_ok_short: "graph_ok m G \<Longrightarrow> value_ok m G v \<Longrightarrow> value_ok m G (short m v)"
  by (auto simp: value_ok_def short_short graph_ok_def block_ok_def)

lemma Wosize_less: "unat (Wosize_val m v) < 2 ^ 46"
proof -
  have "Wosize_val m v = take_bit 46 (drop_bit 10 (Hd_val m v))"
    by (rule bit_word_eqI) (auto simp: Wosize_val_def header_field_defs bit_simps)
  then have "unat (Wosize_val m v) = take_bit 46 (unat (drop_bit 10 (Hd_val m v)))" by (simp add: unsigned_take_bit_eq)
  then show ?thesis by (simp only: take_bit_nat_less_exp)
qed

subsection \<open>The invariant of the marshaller\<close>

definition positions :: "val list \<Rightarrow> val \<rightharpoonup> u64" where
  "positions seen x = (if x \<in> set seen then Some (of_nat (index_of x seen)) else None)"

definition marks_ok :: "extern_state \<Rightarrow> val list \<Rightarrow> bool" where
  "marks_ok s seen \<longleftrightarrow> distinct seen \<and> unat (x_counter s) = length seen \<and> pos_inv (x_table s) (x_counter s) (positions seen)"

definition xinv :: "extern_state \<Rightarrow> val list \<Rightarrow> bool" where
  "xinv s seen \<longleftrightarrow> marks_ok s seen \<and> \<not> has_flag s NO_SHARING \<and> (\<forall>it\<in>set (x_stack s). ei_count it \<noteq> 0)"

definition progress :: "extern_state \<Rightarrow> extern_state \<Rightarrow> u8 list \<Rightarrow> nat \<Rightarrow> bool" where
  "progress s s' bs n \<longleftrightarrow> outp s' = outp s @ bs \<and> x_flags s' = x_flags s \<and> x_user s' = x_user s \<and>
     x_size_64 s' = x_size_64 s + of_nat n"

definition flat :: "mem \<Rightarrow> extern_item list \<Rightarrow> val list" where
  "flat m st = concat (map (\<lambda>it. map (\<lambda>i. load64 m (ei_v it + 8 * of_nat i)) [0..<unat (ei_count it)]) st)"

lemma flat_pop:
  assumes "ei_count it \<noteq> 0"
  shows "flat m (it # st) = load64 m (ei_v it) #
    flat m (if ei_count it - 1 = 0 then st else it\<lparr>ei_v := ei_v it + 8, ei_count := ei_count it - 1\<rparr> # st)"
proof -
  have u: "unat (ei_count it) = Suc (unat (ei_count it - 1))"
    using assms by (metis Suc_pred' unat_gt_0 unat_minus_one)
  have "[0..<unat (ei_count it)] = 0 # map Suc [0..<unat (ei_count it - 1)]"
    unfolding u by (simp add: upt_conv_Cons map_Suc_upt del: upt_Suc)
  then show ?thesis using u by (auto simp: flat_def algebra_simps)
qed

lemma positions_record:
  "distinct seen \<Longrightarrow> v \<notin> set seen \<Longrightarrow> positions (seen @ [v]) = (positions seen)(v \<mapsto> of_nat (length seen))"
  by (auto simp: positions_def index_of_append fun_eq_iff)

lemma record_ok:
  assumes "xinv s seen" "v \<notin> set seen" "extern_lookup_position (x_table s) v = Some (h, p)"
  shows "\<exists>r. extern_record_location lim v h s = Some r \<and>
    (case r of Inl e \<Rightarrow> e = Out_of_memory
     | Inr s' \<Rightarrow> xinv s' (seen @ [v]) \<and> s' = s\<lparr>x_table := x_table s', x_counter := x_counter s'\<rparr>)"
proof -
  have t: "distinct seen" "unat (x_counter s) = length seen" "pos_inv (x_table s) (x_counter s) (positions seen)"
    using assms(1) by (simp_all add: xinv_def marks_ok_def)
  have c: "x_counter s = of_nat (length seen)" by (simp flip: t(2))
  obtain r where r: "record_location lim (x_table s) (x_counter s) v h (x_counter s) = Some r"
    "case r of Inl e \<Rightarrow> e = Out_of_memory
     | Inr (t', c') \<Rightarrow> c' = x_counter s + 1 \<and> pos_inv t' c' ((positions seen)(v \<mapsto> x_counter s))"
    using pos_inv_record [OF t(3) assms(3)] by blast
  show ?thesis
  proof (cases r)
    case (Inl e)
    then show ?thesis using r assms(1)
      by (simp add: extern_record_location_def extern_record_location_with_data_def xinv_def)
  next
    case (Inr q)
    obtain t' c' where q: "q = (t', c')" by (cases q)
    let ?s = "s\<lparr>x_table := t', x_counter := c'\<rparr>"
    have "x_counter s < tab_threshold (x_table s)" using t(3) by (simp add: pos_inv_def)
    then have "unat (x_counter s + 1) = Suc (length seen)" using t(2) unat_Suc_less by metis
    then have "marks_ok ?s (seen @ [v])"
      using r(2) Inr q t assms(2) c by (auto simp: marks_ok_def positions_record)
    then have "xinv ?s (seen @ [v])" using assms(1) by (simp add: xinv_def has_flag_def)
    then show ?thesis using r Inr q assms(1)
      by (simp add: extern_record_location_def extern_record_location_with_data_def xinv_def)
  qed
qed

lemma outp_stack: "outp (s\<lparr>x_limit := l, x_stack := st\<rparr>) = outp s" "outp (s\<lparr>x_stack := st\<rparr>) = outp s" "outp (s\<lparr>x_limit := l\<rparr>) = outp s"
  by (simp_all add: outp_def output_blocks_def)

lemma push_item_ok:
  "case push_item lim a n s of Inl e \<Rightarrow> e = Out_of_memory
   | Inr s' \<Rightarrow> \<exists>l. s' = s\<lparr>x_limit := l, x_stack := \<lparr>ei_v = a, ei_count = n\<rparr> # x_stack s\<rparr>"
proof -
  have "\<exists>l. s\<lparr>x_stack := st\<rparr> = s\<lparr>x_limit := l, x_stack := st\<rparr>" for st by (rule exI [of _ "x_limit s"]) simp
  then show ?thesis by (auto simp: push_item_def extern_resize_stack_def bind_res_def Let_def)
qed

lemma continue_fields_ok:
  assumes "0 < unat sz"
  shows "case continue_fields lim m v 0 sz s of Inl e \<Rightarrow> e = Out_of_memory
     | Inr (Next_item s') \<Rightarrow> False
     | Inr (Continue w s') \<Rightarrow> \<exists>l st. s' = s\<lparr>x_limit := l, x_stack := st\<rparr> \<and>
         w # flat m st = map (\<lambda>i. Field m v (of_nat i)) [0..<unat sz] @ flat m (x_stack s) \<and>
         ((\<forall>it\<in>set (x_stack s). ei_count it \<noteq> 0) \<longrightarrow> (\<forall>it\<in>set st. ei_count it \<noteq> 0))"
proof -
  have u: "unat sz = Suc (unat (sz - 1))" using assms by (metis Suc_pred' unat_eq_zero unat_minus_one less_irrefl)
  have "[0..<unat sz] = 0 # map Suc [0..<unat (sz - 1)]"
    unfolding u by (simp add: upt_conv_Cons map_Suc_upt del: upt_Suc)
  then have f: "map (\<lambda>i. Field m v (of_nat i)) [0..<unat sz] =
      Field m v 0 # map (\<lambda>i. load64 m (v + 8 * 1 + 8 * of_nat i)) [0..<unat (sz - 1)]"
    by (simp add: Field_def algebra_simps)
  show ?thesis
  proof (cases "0 < sz - 1")
    case True
    show ?thesis
    proof (cases "push_item lim (v + 8) (sz - 1) s")
      case (Inl e)
      then show ?thesis using True push_item_ok [where lim = lim and a = "v + 8" and n = "sz - 1" and s = s]
        by (simp add: continue_fields_def bind_res_def)
    next
      case (Inr s')
      let ?st = "\<lparr>ei_v = v + 8, ei_count = sz - 1\<rparr> # x_stack s"
      obtain l where l: "s' = s\<lparr>x_limit := l, x_stack := ?st\<rparr>"
        using Inr push_item_ok [where lim = lim and a = "v + 8" and n = "sz - 1" and s = s] by auto
      have "continue_fields lim m v 0 sz s = Inr (Continue (Field m v 0) s')"
        using True Inr by (simp add: continue_fields_def bind_res_def)
      moreover have "Field m v 0 # flat m ?st = map (\<lambda>i. Field m v (of_nat i)) [0..<unat sz] @ flat m (x_stack s)"
        unfolding f by (simp add: flat_def)
      moreover have "\<forall>it\<in>set ?st. ei_count it \<noteq> 0" if "\<forall>it\<in>set (x_stack s). ei_count it \<noteq> 0"
        using that True by auto
      ultimately show ?thesis unfolding l by (simp only: sum.case visit_result.case) blast
    qed
  next
    case False
    then have "sz - 1 = 0" by (simp add: word_gt_0)
    then show ?thesis using f
      by (simp add: continue_fields_def bind_res_def) (rule exI [of _ "x_limit s"], rule exI [of _ "x_stack s"], simp)
  qed
qed

lemma recorded_ok:
  assumes "xinv s seen" "v \<notin> set seen" "extern_lookup_position (x_table s) v = Some (h, p)" "emits bs s r"
  shows "\<exists>q. bind_call (Some (bind_res r (\<lambda>s. Inr (add_sizes ws wl s)))) (extern_record_location lim v h) = Some q \<and>
    (case q of Inl e \<Rightarrow> out_error s e
     | Inr s' \<Rightarrow> x_stack s' = x_stack s \<and> xinv s' (seen @ [v]) \<and> progress s s' bs (unat wl))"
proof (cases r)
  case (Inl e)
  then show ?thesis using assms(4) by (simp add: bind_call_def bind_res_def emits_def)
next
  case (Inr s1)
  then have e: "outp s1 = outp s @ bs" "same s s1" using assms(4) by (simp_all add: emits_def)
  let ?s = "add_sizes ws wl s1"
  note f = same_fields [OF e(2)]
  have "xinv ?s seen" using assms(1) f by (simp add: xinv_def marks_ok_def add_sizes_def has_flag_def)
  moreover have "extern_lookup_position (x_table ?s) v = Some (h, p)" using assms(3) f by (simp add: add_sizes_def)
  ultimately obtain q where q: "extern_record_location lim v h ?s = Some q"
    "case q of Inl e \<Rightarrow> e = Out_of_memory
     | Inr s' \<Rightarrow> xinv s' (seen @ [v]) \<and> s' = ?s\<lparr>x_table := x_table s', x_counter := x_counter s'\<rparr>"
    using record_ok [of ?s seen v h p lim] assms(2) by blast
  have b: "bind_call (Some (bind_res r (\<lambda>s. Inr (add_sizes ws wl s)))) (extern_record_location lim v h) = Some q"
    using Inr q(1) by (simp add: bind_call_def bind_res_def)
  show ?thesis
  proof (cases q)
    case (Inl e)
    then show ?thesis using b q by (simp add: out_error_def)
  next
    case (Inr s')
    then have s': "s' = ?s\<lparr>x_table := x_table s', x_counter := x_counter s'\<rparr>" and i: "xinv s' (seen @ [v])" using q(2) by simp_all
    have "x_stack s' = x_stack s" "outp s' = outp s1" "x_flags s' = x_flags s" "x_user s' = x_user s"
      "x_size_64 s' = x_size_64 s + wl"
      by (subst s', simp add: f add_sizes_def outp_def output_blocks_def)+
    then show ?thesis using b Inr i e(1) by (simp add: progress_def)
  qed
qed

text \<open>What one round of the loop achieves when the item, the fields and the objects written are as given.\<close>

definition visit_post :: "mem \<Rightarrow> extern_state \<Rightarrow> item \<Rightarrow> val list \<Rightarrow> val list \<Rightarrow> visit_result res \<Rightarrow> bool" where
  "visit_post m s it fs seen r \<longleftrightarrow>
     (case r of Inl e \<Rightarrow> out_error s e
      | Inr (Next_item s') \<Rightarrow> fs = [] \<and> x_stack s' = x_stack s \<and> xinv s' seen \<and> progress s s' (enc it) (item_words it)
      | Inr (Continue w s') \<Rightarrow> w # flat m (x_stack s') = fs @ flat m (x_stack s) \<and> xinv s' seen \<and>
          progress s s' (enc it) (item_words it))"

lemma visit_post_recorded:
  assumes "xinv s seen" "v \<notin> set seen" "extern_lookup_position (x_table s) v = Some (h, p)" "emits (enc it) s r"
    "unat wl = item_words it"
  shows "\<exists>q. bind_call (Some (bind_res r (\<lambda>s. Inr (add_sizes ws wl s))))
        (\<lambda>s. map_option (map_sum id Next_item) (extern_record_location lim v h s)) = Some q \<and>
    visit_post m s it [] (seen @ [v]) q"
proof -
  obtain q where q: "bind_call (Some (bind_res r (\<lambda>s. Inr (add_sizes ws wl s)))) (extern_record_location lim v h) = Some q"
    "case q of Inl e \<Rightarrow> out_error s e
     | Inr s' \<Rightarrow> x_stack s' = x_stack s \<and> xinv s' (seen @ [v]) \<and> progress s s' (enc it) (unat wl)"
    using recorded_ok [OF assms(1-4)] by blast
  have "bind_call (Some (bind_res r (\<lambda>s. Inr (add_sizes ws wl s))))
      (\<lambda>s. map_option (map_sum id Next_item) (extern_record_location lim v h s)) = Some (map_sum id Next_item q)"
    using q(1) by (auto simp: bind_call_def split: option.splits sum.splits)
  moreover have "visit_post m s it [] (seen @ [v]) (map_sum id Next_item q)"
    using q(2) assms(5) by (simp add: visit_post_def split: sum.splits)
  ultimately show ?thesis by blast
qed

lemma extern_block_ok:
  assumes "xinv s seen" "v \<notin> set seen" "extern_lookup_position (x_table s) v = Some (h, p)" "sz \<noteq> 0" "unat sz < 2 ^ 46"
  shows "\<exists>q. bind_call (Some (extern_header lim sz tag s)) (\<lambda>s.
        bind_call (extern_record_location lim v h (add_sizes (1 + sz) (1 + sz) s)) (\<lambda>s. Some (continue_fields lim m v 0 sz s))) = Some q \<and>
    visit_post m s (I_blk sz tag) (map (\<lambda>i. Field m v (of_nat i)) [0..<unat sz]) (seen @ [v]) q"
proof -
  let ?r = "bind_call (Some (bind_res (extern_header lim sz tag s) (\<lambda>s. Inr (add_sizes (1 + sz) (1 + sz) s)))) (extern_record_location lim v h)"
  have "unat (1 + sz) = Suc (unat sz)" using assms(5) by (simp add: unat_word_ariths)
  then have w: "unat (1 + sz) = item_words (I_blk sz tag)" using assms(4) by simp
  obtain q where q: "?r = Some q" "case q of Inl e \<Rightarrow> out_error s e
     | Inr s' \<Rightarrow> x_stack s' = x_stack s \<and> xinv s' (seen @ [v]) \<and> progress s s' (enc (I_blk sz tag)) (item_words (I_blk sz tag))"
    using recorded_ok [OF assms(1-3) emits_header [where lim = lim and sz = sz and tag = tag], where lim = lim and ws = "1 + sz" and wl = "1 + sz"] unfolding w by blast
  have b: "bind_call (Some (extern_header lim sz tag s)) (\<lambda>s.
        bind_call (extern_record_location lim v h (add_sizes (1 + sz) (1 + sz) s)) (\<lambda>s. Some (continue_fields lim m v 0 sz s))) =
      bind_call (Some q) (\<lambda>s. Some (continue_fields lim m v 0 sz s))"
    unfolding q(1) [symmetric] by (simp add: bind_call_def bind_res_def split: sum.splits)
  show ?thesis
  proof (cases q)
    case (Inl e)
    then show ?thesis using b q(2) by (simp add: bind_call_def visit_post_def)
  next
    case (Inr s1)
    then have s1: "x_stack s1 = x_stack s" "xinv s1 (seen @ [v])"
      "progress s s1 (enc (I_blk sz tag)) (item_words (I_blk sz tag))" using q(2) by simp_all
    have "0 < unat sz" using assms(4) by (simp add: unat_gt_0)
    note c = continue_fields_ok [OF this, where lim = lim and m = m and v = v and s = s1]
    have r: "bind_call (Some q) (\<lambda>s. Some (continue_fields lim m v 0 sz s)) = Some (continue_fields lim m v 0 sz s1)"
      using Inr by (simp add: bind_call_def)
    have "visit_post m s (I_blk sz tag) (map (\<lambda>i. Field m v (of_nat i)) [0..<unat sz]) (seen @ [v]) (continue_fields lim m v 0 sz s1)"
    proof (cases "continue_fields lim m v 0 sz s1")
      case (Inl e)
      then show ?thesis using c by (simp add: visit_post_def out_error_def)
    next
      case (Inr vis)
      then obtain w s' l st where v: "vis = Continue w s'" "s' = s1\<lparr>x_limit := l, x_stack := st\<rparr>"
        "w # flat m st = map (\<lambda>i. Field m v (of_nat i)) [0..<unat sz] @ flat m (x_stack s1)"
        "(\<forall>it\<in>set (x_stack s1). ei_count it \<noteq> 0) \<longrightarrow> (\<forall>it\<in>set st. ei_count it \<noteq> 0)" using c by (auto split: visit_result.splits)
      have "xinv s' (seen @ [v])" using s1(2) v(2,4) by (simp add: xinv_def marks_ok_def has_flag_def)
      moreover have "progress s s' (enc (I_blk sz tag)) (item_words (I_blk sz tag))"
        using s1(3) by (simp add: progress_def v(2) outp_stack)
      ultimately show ?thesis using Inr v s1(1) by (simp add: visit_post_def)
    qed
    then show ?thesis using b r by simp
  qed
qed

lemma unat_string_words:
  assumes "unat len < 2 ^ 60"
  shows "unat (1 + (len + 8) div 8 :: u64) = 1 + (unat len + 8) div 8"
proof -
  have "unat (len + 8) = unat len + 8" using assms by (simp add: unat_word_ariths)
  then have "unat ((len + 8) div 8) = (unat len + 8) div 8" by (simp add: unat_div)
  then show ?thesis using assms by (simp add: unat_word_ariths)
qed

lemma extern_object_ok:
  assumes "xinv s seen" "v \<notin> set seen" "extern_lookup_position (x_table s) v = Some (h, p)" "block_ok m v" "Wosize_val m v \<noteq> 0"
  shows "\<exists>q. extern_object env m v h s = Some q \<and> visit_post m s (leaf_item m v) (scan_fields m v) (seen @ [v]) q"
proof -
  note rec = visit_post_recorded [OF assms(1-3)]
  have t: "Tag_hd (Hd_val m v) = Tag_val m v" "Wosize_hd (Hd_val m v) = Wosize_val m v" by (simp_all add: tag_simps Wosize_val_def)
  note b = assms(4) [unfolded block_ok_def]
  note W = Wosize_less [of m v]
  consider (str) "Tag_val m v = String_tag" | (dbl) "Tag_val m v = Double_tag" | (dbls) "Tag_val m v = Double_array_tag"
    | (blk) "\<not> leaf_tag (Tag_val m v)" by (auto simp: leaf_tag_def)
  then show ?thesis
  proof cases
    case str
    let ?len = "caml_string_length m v"
    have "unat ?len < 2 ^ 60" using b str W by simp
    then have "unat (1 + (?len + 8) div 8) = item_words (leaf_item m v)" using str unat_string_words by (simp add: leaf_item_def)
    moreover have "emits (enc (leaf_item m v)) s (extern_string (xe_lim env) m v ?len s)"
      using emits_string str by (simp add: leaf_item_def del: enc.simps)
    moreover have "extern_object env m v h s =
      bind_call (Some (bind_res (extern_string (xe_lim env) m v ?len s) (\<lambda>s. Inr (add_sizes (1 + (?len + 4) div 4) (1 + (?len + 8) div 8) s))))
        (\<lambda>s. map_option (map_sum id Next_item) (extern_record_location (xe_lim env) v h s))"
      unfolding extern_object_def Let_def t str by (simp only: if_True simp_thms)
    ultimately show ?thesis using rec str by (simp add: scan_fields_def leaf_tag_def)
  next
    case dbl
    have "unat (1 + 1 :: u64) = item_words (leaf_item m v)" using dbl by (simp add: leaf_item_def tag_defs)
    moreover have "emits (enc (leaf_item m v)) s (extern_double (xe_lim env) m v s)"
      using emits_double dbl by (simp add: leaf_item_def tag_defs del: enc.simps)
    moreover have "extern_object env m v h s =
      bind_call (Some (bind_res (extern_double (xe_lim env) m v s) (\<lambda>s. Inr (add_sizes (1 + 2) (1 + 1) s))))
        (\<lambda>s. map_option (map_sum id Next_item) (extern_record_location (xe_lim env) v h s))"
      unfolding extern_object_def Let_def t dbl by (simp add: tag_defs)
    ultimately show ?thesis using rec dbl by (simp add: scan_fields_def leaf_tag_def)
  next
    case dbls
    let ?n = "Wosize_val m v"
    have n: "unat (?n * 8) = unat ?n * 8" using W by (simp add: unat_word_ariths)
    have "unat (1 + ?n) = item_words (leaf_item m v)" using dbls W n by (simp add: leaf_item_def tag_defs unat_word_ariths)
    moreover have "emits (enc (leaf_item m v)) s (extern_double_array (xe_lim env) m v ?n s)"
      using emits_doubles [of ?n] dbls W by (simp add: leaf_item_def tag_defs del: enc.simps)
    moreover have "extern_object env m v h s =
      bind_call (Some (bind_res (extern_double_array (xe_lim env) m v ?n s) (\<lambda>s. Inr (add_sizes (1 + ?n * 2) (1 + ?n) s))))
        (\<lambda>s. map_option (map_sum id Next_item) (extern_record_location (xe_lim env) v h s))"
      unfolding extern_object_def Let_def t dbls by (simp add: tag_defs)
    ultimately show ?thesis using rec dbls by (simp add: scan_fields_def leaf_tag_def)
  next
    case blk
    let ?sz = "Wosize_val m v"
    have "extern_object env m v h s = bind_call (Some (extern_header (xe_lim env) ?sz (Tag_val m v) s)) (\<lambda>s.
        bind_call (extern_record_location (xe_lim env) v h (add_sizes (1 + ?sz) (1 + ?sz) s)) (\<lambda>s. Some (continue_fields (xe_lim env) m v 0 ?sz s)))"
      using blk b unfolding extern_object_def Let_def t leaf_tag_def by simp
    moreover have "leaf_item m v = I_blk ?sz (Tag_val m v)" using blk by (simp add: leaf_item_def leaf_tag_def)
    ultimately show ?thesis using extern_block_ok [OF assms(1-3,5) W] blk by (simp add: scan_fields_def)
  qed
qed

lemma visit_post_emits:
  assumes "xinv s seen" "emits (enc it) s r" "item_words it = 0"
  shows "visit_post m s it [] seen (bind_res r (\<lambda>s. Inr (Next_item s)))"
proof (cases r)
  case (Inl e)
  then show ?thesis using assms(2) by (simp add: bind_res_def visit_post_def emits_def)
next
  case (Inr s')
  then have e: "outp s' = outp s @ enc it" "same s s'" using assms(2) by (simp_all add: emits_def)
  then show ?thesis using Inr assms(1,3) same_fields [OF e(2)]
    by (simp add: bind_res_def visit_post_def xinv_def marks_ok_def progress_def)
qed

lemma Is_block_cases: "Is_block v \<longleftrightarrow> \<not> Is_null v \<and> \<not> Is_long v"
  by (auto simp: Is_block_def Is_long_def Is_null_def Val_null_def)

lemma extern_visit_ok:
  assumes "xinv s seen" "graph_ok m G" "value_ok m G v" "short m v = v"
    "visit_item (has_flag s COMPRESSED) m seen v = (it, fs, seen')"
  shows "\<exists>q. extern_visit env m v s = Some q \<and> visit_post m s it fs seen' q"
proof -
  have t: "Tag_hd (Hd_val m v) = Tag_val m v" "Wosize_hd (Hd_val m v) = Wosize_val m v" "Reserved_hd (Hd_val m v) = Reserved_val m v"
    by (simp_all add: tag_simps Wosize_val_def Reserved_val_def)
  note vi = assms(5) [unfolded visit_item_def Let_def assms(4)]
  consider (null) "Is_null v" | (long) "\<not> Is_null v" "Is_long v" | (block) "Is_block v" by (auto simp: Is_block_cases)
  then show ?thesis
  proof cases
    case null
    then show ?thesis using visit_post_emits [OF assms(1) emits_null] vi by (simp add: extern_visit_def)
  next
    case long
    then show ?thesis using visit_post_emits [OF assms(1) emits_int, where m = m] vi by (auto simp: extern_visit_def)
  next
    case block
    then have nb: "\<not> Is_null v" "\<not> Is_long v" by (simp_all add: Is_block_cases)
    have G: "v \<in> G" using assms(3,4) block by (simp add: value_ok_def)
    then have ok: "block_ok m v" using assms(2) by (simp add: graph_ok_def)
    have r0: "\<not> Is_mixed_block_reserved (Reserved_val m v)" using ok by (simp add: block_ok_def Is_mixed_block_reserved_def)
    have fw: "\<not> (Tag_val m v = Forward_tag \<and> \<not> keep_forward m (Forward_val m v))"
    proof
      assume a: "Tag_val m v = Forward_tag \<and> \<not> keep_forward m (Forward_val m v)"
      then have "Forward_val m v = v" using assms(4) block by (simp add: short_def)
      then show False using a block by (auto simp: keep_forward_def)
    qed
    show ?thesis
    proof (cases "Wosize_val m v = 0")
      case True
      then show ?thesis using visit_post_emits [OF assms(1) emits_header [where sz = 0], where m = m] vi nb r0 fw t
        by (auto simp: extern_visit_def Let_def)
    next
      case False
      have tab: "pos_inv (x_table s) (x_counter s) (positions seen)" "\<not> has_flag s NO_SHARING" "unat (x_counter s) = length seen"
        using assms(1) by (simp_all add: xinv_def marks_ok_def)
      obtain h where h: "extern_lookup_position (x_table s) v = Some (h, positions seen v)"
        using pos_inv_lookup [OF tab(1), of v] by blast
      show ?thesis
      proof (cases "v \<in> set seen")
        case True
        let ?i = "index_of v seen"
        have "x_counter s - of_nat ?i = of_nat (length seen - ?i)"
          using index_of_less [OF True] by (simp add: of_nat_diff flip: tab(3))
        then have "extern_visit env m v s = Some (bind_res (extern_shared_reference (xe_lim env)
            (of_nat (if has_flag s COMPRESSED then ?i else length seen - ?i)) s) (\<lambda>s. Inr (Next_item s)))"
          using nb r0 fw t False tab(2) h True by (auto simp: extern_visit_def Let_def positions_def)
        then show ?thesis using visit_post_emits [OF assms(1) emits_shared, where m = m] vi nb False True by auto
      next
        case new: False
        have "extern_visit env m v s = extern_object env m v h s"
          using nb r0 fw t False tab(2) h new by (auto simp: extern_visit_def Let_def positions_def)
        moreover have "extern_lookup_position (x_table s) v = Some (h, None)" using h new by (simp add: positions_def)
        ultimately show ?thesis using extern_object_ok [OF assms(1) new _ ok False, of h None env] vi nb False new by auto
      qed
    qed
  qed
qed

lemma extern_loop_short:
  assumes "value_ok m G v"
  shows "extern_loop env m v s = extern_loop env m (short m v) s"
proof (cases "short m v = v")
  case False
  then have f: "Is_block v" "Tag_val m v = Forward_tag" "\<not> keep_forward m (Forward_val m v)" "short m v = Forward_val m v"
    by (auto simp: short_def split: if_splits)
  have "extern_visit env m v s = Some (Inr (Continue (Forward_val m v) s))"
    using f assms by (simp add: extern_visit_def Let_def Is_block_cases value_ok_def tag_simps Is_mixed_block_reserved_def Reserved_val_def)
  then show ?thesis using f(4) by (subst extern_loop.simps) simp
qed simp

lemma visit_item_cases:
  assumes "visit_item c m seen v = (it, fs, seen')" "value_ok m G v"
  shows "fs = [] \<and> seen' = seen \<or>
    Is_block (short m v) \<and> short m v \<in> G \<and> short m v \<notin> set seen \<and> fs = scan_fields m (short m v) \<and> seen' = seen @ [short m v]"
  using assms by (auto simp: visit_item_def Let_def value_ok_def Is_block_cases split: if_splits)

lemma visit_item_short: "visit_item c m seen (short m v) = visit_item c m seen v"
  by (simp add: visit_item_def short_short)

definition loop_post :: "bool \<Rightarrow> mem \<Rightarrow> val set \<Rightarrow> extern_state \<Rightarrow> val list \<Rightarrow> val list \<Rightarrow> extern_state res \<Rightarrow> bool" where
  "loop_post c m G s vs seen r \<longleftrightarrow>
     (case r of Inl e \<Rightarrow> out_error s e
      | Inr s' \<Rightarrow> \<exists>its seen'. trav c m vs seen its seen' \<and> set seen' \<subseteq> G \<and> distinct seen' \<and> unat (x_counter s') = length seen' \<and>
          progress s s' (concat (map enc its)) (sum_list (map item_words its)))"

lemma loop_post_step:
  assumes "visit_item c m seen v = (it, fs, seen1)" "progress s s1 (enc it) (item_words it)"
    "loop_post c m G s1 (fs @ vs) seen1 r"
  shows "loop_post c m G s (v # vs) seen r"
proof (cases r)
  case (Inl e)
  then show ?thesis using assms(2,3) by (simp add: loop_post_def out_error_def progress_def has_flag_def)
next
  case (Inr s')
  then obtain its seen' where i: "trav c m (fs @ vs) seen1 its seen'" "set seen' \<subseteq> G" "distinct seen'" "unat (x_counter s') = length seen'"
    "progress s1 s' (concat (map enc its)) (sum_list (map item_words its))" using assms(3) by (auto simp: loop_post_def)
  have "trav c m (v # vs) seen (it # its) seen'" using assms(1) i(1) by (rule trav_Cons)
  moreover have "progress s s' (concat (map enc (it # its))) (sum_list (map item_words (it # its)))"
    using assms(2) i(5) by (simp add: progress_def)
  ultimately show ?thesis using i(2-4) unfolding loop_post_def Inr sum.case by blast
qed

lemma extern_loop_ok:
  assumes "graph_ok m G" "xinv s seen" "value_ok m G v" "\<forall>w\<in>set (flat m (x_stack s)). value_ok m G w" "set seen \<subseteq> G"
  shows "\<exists>r. extern_loop env m v s = Some r \<and> loop_post (has_flag s COMPRESSED) m G s (v # flat m (x_stack s)) seen r"
  using assms(2-)
proof (induction "(card (G - set seen), length (flat m (x_stack s)))" arbitrary: v s seen
    rule: wf_induct_rule [OF wf_lex_prod [OF wf_less_than wf_less_than]])
  case 1
  let ?c = "has_flag s COMPRESSED"
  have finG: "finite G" using assms(1) by (simp add: graph_ok_def)
  obtain it fs seen1 where vi: "visit_item ?c m seen v = (it, fs, seen1)" by (metis prod_cases3)
  have "value_ok m G (short m v)" using assms(1) 1(3) by (rule value_ok_short)
  then obtain q where q: "extern_visit env m (short m v) s = Some q" "visit_post m s it fs seen1 q"
    using extern_visit_ok [OF 1(2) assms(1), of "short m v" it fs seen1 env] vi by (auto simp: short_short visit_item_short)
  note c = visit_item_cases [OF vi 1(3)]
  have sG: "set seen1 \<subseteq> G" using c 1(5) by auto
  have fs_ok: "\<forall>w\<in>set fs. value_ok m G w" using c assms(1) by (auto simp: graph_ok_def)
  have dec: "((card (G - set seen1), n), (card (G - set seen), length (flat m (x_stack s)))) \<in> less_than <*lex*> less_than"
    if "fs = [] \<Longrightarrow> n < length (flat m (x_stack s))" for n
  proof (cases "seen1 = seen")
    case True
    then have "fs = []" using c by auto
    then show ?thesis using that True by simp
  next
    case False
    then have "short m v \<in> G - set seen" "seen1 = seen @ [short m v]" using c by auto
    then have "G - set seen1 \<subset> G - set seen" by auto
    then have "card (G - set seen1) < card (G - set seen)" using finG by (intro psubset_card_mono) auto
    then show ?thesis by simp
  qed
  show ?case
  proof (cases q)
    case (Inl e)
    then have "extern_loop env m v s = Some (Inl e)" using q(1) extern_loop_short [OF 1(3)] by (simp add: extern_loop.simps)
    then show ?thesis using q(2) Inl by (simp add: visit_post_def loop_post_def)
  next
    case (Inr vis)
    show ?thesis
    proof (cases vis)
      case (Next_item s')
      then have s': "fs = []" "x_stack s' = x_stack s" "xinv s' seen1" "progress s s' (enc it) (item_words it)"
        using q(2) Inr by (simp_all add: visit_post_def)
      have cc: "has_flag s' COMPRESSED = ?c" using s'(4) by (simp add: progress_def has_flag_def)
      show ?thesis
      proof (cases "x_stack s")
        case Nil
        then have l: "extern_loop env m v s = Some (Inr (extern_free_stack s'))"
          using q(1) Inr Next_item s'(2) extern_loop_short [OF 1(3)] by (simp add: extern_loop.simps)
        have "distinct seen1" "unat (x_counter s') = length seen1" using s'(3) by (simp_all add: xinv_def marks_ok_def)
        then have "loop_post ?c m G s' [] seen1 (Inr (extern_free_stack s'))"
          using sG trav_Nil [of ?c m seen1]
          by (auto simp: loop_post_def progress_def extern_free_stack_def outp_stack intro!: exI [of _ "[]"] exI [of _ seen1])
        then have "loop_post ?c m G s [v] seen (Inr (extern_free_stack s'))"
          using loop_post_step [OF vi s'(4)] s'(1) by simp
        then show ?thesis using l Nil by (simp add: flat_def)
      next
        case (Cons x st)
        let ?s = "s'\<lparr>x_stack := if ei_count x - 1 = 0 then st else x\<lparr>ei_v := ei_v x + 8, ei_count := ei_count x - 1\<rparr> # st\<rparr>"
        have nz: "ei_count x \<noteq> 0" using 1(2) Cons by (simp add: xinv_def)
        have l: "extern_loop env m v s = extern_loop env m (load64 m (ei_v x)) ?s"
          using q(1) Inr Next_item s'(2) Cons extern_loop_short [OF 1(3)]
          by (simp add: extern_loop.simps [of env m "short m v"])
        have fl: "flat m (x_stack s) = load64 m (ei_v x) # flat m (x_stack ?s)" using flat_pop [OF nz] Cons by simp
        have xi: "xinv ?s seen1" using s'(2,3) Cons by (auto simp: xinv_def marks_ok_def has_flag_def)
        have vo: "value_ok m G (load64 m (ei_v x))" "\<forall>w\<in>set (flat m (x_stack ?s)). value_ok m G w" using 1(4) unfolding fl by auto
        have d: "((card (G - set seen1), length (flat m (x_stack ?s))), (card (G - set seen), length (flat m (x_stack s))))
          \<in> less_than <*lex*> less_than" by (rule dec) (unfold fl, simp)
        obtain r where r: "extern_loop env m (load64 m (ei_v x)) ?s = Some r"
          "loop_post (has_flag ?s COMPRESSED) m G ?s (load64 m (ei_v x) # flat m (x_stack ?s)) seen1 r"
          using 1(1) [OF d xi vo sG] by blast
        have "progress s ?s (enc it) (item_words it)" using s'(4) by (simp add: progress_def outp_stack)
        moreover have "has_flag ?s COMPRESSED = ?c" using cc by (simp add: has_flag_def)
        ultimately have "loop_post ?c m G s (v # flat m (x_stack s)) seen r"
          using loop_post_step [OF vi] r(2) s'(1) unfolding fl by simp
        then show ?thesis using l r(1) by simp
      qed
    next
      case (Continue w s')
      then have s': "w # flat m (x_stack s') = fs @ flat m (x_stack s)" "xinv s' seen1" "progress s s' (enc it) (item_words it)"
        using q(2) Inr by (simp_all add: visit_post_def)
      have cc: "has_flag s' COMPRESSED = ?c" using s'(3) by (simp add: progress_def has_flag_def)
      have l: "extern_loop env m v s = extern_loop env m w s'"
        using q(1) Inr Continue extern_loop_short [OF 1(3)] by (simp add: extern_loop.simps [of env m "short m v"])
      have "\<forall>x\<in>set (w # flat m (x_stack s')). value_ok m G x" unfolding s'(1) using fs_ok 1(4) by auto
      then have vo: "value_ok m G w" "\<forall>x\<in>set (flat m (x_stack s')). value_ok m G x" by simp_all
      have d: "((card (G - set seen1), length (flat m (x_stack s'))), (card (G - set seen), length (flat m (x_stack s))))
        \<in> less_than <*lex*> less_than" using arg_cong [OF s'(1), of length] by (intro dec) simp
      obtain r where r: "extern_loop env m w s' = Some r"
        "loop_post (has_flag s' COMPRESSED) m G s' (w # flat m (x_stack s')) seen1 r"
        using 1(1) [OF d s'(2) vo sG] by blast
      have "loop_post ?c m G s (v # flat m (x_stack s)) seen r"
        using loop_post_step [OF vi s'(3)] r(2) cc unfolding s'(1) by simp
      then show ?thesis using l r(1) by simp
    qed
  qed
qed

end
