(* ===== verification/Intern.thy ===== *)
theory Intern
  imports Extern
begin

text \<open>
  The unmarshaller (\<open>runtime/intern.c\<close>): it reads the external representation of a value and rebuilds the value, in
  the minor heap when it is small and in the shared heap otherwise. A stack of requests says where the values that follow
  in the input are to be stored.

  The input is the list of the bytes that are left; reading past its end, or an access outside of the table of objects, is
  \<open>None\<close>, as is entering the collector. The cell that a request points to is a field in C memory
  or the local variable \<open>obj\<close> of the caller. The shared heap, the custom operations, the code fragments and the decompression
  are parameters (\<open>intern_env\<close>). An error releases the table, the stack and the input, so it is modelled as the exception alone.
\<close>

datatype intern_op = OReadItems | OFreshOID | OShift

datatype cell = Obj | Cell addr

record intern_item =
  ii_dest :: cell
  ii_arg :: u64
  ii_op :: intern_op

definition INTERN_STACK_INIT_SIZE :: nat where "INTERN_STACK_INIT_SIZE = 256"
definition INTERN_STACK_MAX_SIZE :: nat where "INTERN_STACK_MAX_SIZE = 1024 * 1024 * 100"

text \<open>
  Besides the fields of the source: \<open>n_obj\<close> is the caller's variable, \<open>n_heap\<close> the memory with the minor heap,
  \<open>n_shared\<close> the blocks obtained from the shared heap, and \<open>n_oo_local\<close>, \<open>n_oo_next\<close> the counters of object identifiers
  of the domain and of the program. \<open>n_dest\<close> is 0 when \<open>intern_dest\<close> is \<open>NULL\<close>.
\<close>

record intern_state =
  n_src :: "u8 list"
  n_counter :: u64
  n_table :: "val list option"
  n_stack :: "intern_item list"
  n_limit :: nat
  n_dest :: addr
  n_compressed :: bool
  n_obj :: val
  n_heap :: heap
  n_shared :: "(addr \<times> u64) list"
  n_oo_local :: u64
  n_oo_next :: u64

record intern_ops =
  io_addr :: addr
  io_deserialize :: "mem \<Rightarrow> addr \<Rightarrow> u8 list \<Rightarrow> (mem \<times> u8 list \<times> u64) res option"
  io_fixed_length :: "(u64 \<times> u64) option"
  io_finalize :: bool

record intern_env =
  ne_lim :: nat
  ne_shared_alloc :: "(addr \<times> u64) list \<Rightarrow> u64 \<Rightarrow> u32 \<Rightarrow> addr option"
  ne_status :: header
  ne_find_custom :: "u8 list \<Rightarrow> intern_ops option"
  ne_find_digest :: "u8 list \<Rightarrow> code_fragment option"
  ne_placeholder :: "val option"
  ne_decompress :: "(u8 list \<Rightarrow> u64 \<Rightarrow> u8 list) option"

subsection \<open>Cells and the stack\<close>

definition get_cell :: "cell \<Rightarrow> intern_state \<Rightarrow> val" where
  "get_cell c s = (case c of Obj \<Rightarrow> n_obj s | Cell a \<Rightarrow> load64 (hp_mem (n_heap s)) a)"

definition set_memory :: "mem \<Rightarrow> intern_state \<Rightarrow> intern_state" where
  "set_memory m s = s\<lparr>n_heap := (n_heap s)\<lparr>hp_mem := m\<rparr>\<rparr>"

definition set_cell :: "cell \<Rightarrow> val \<Rightarrow> intern_state \<Rightarrow> intern_state" where
  "set_cell c v s = (case c of Obj \<Rightarrow> s\<lparr>n_obj := v\<rparr> | Cell a \<Rightarrow> set_memory (store64 (hp_mem (n_heap s)) a v) s)"

text \<open>\<open>dest + 1\<close>; a request for the variable \<open>obj\<close> never advances to a second cell.\<close>

definition next_cell :: "cell \<Rightarrow> cell" where
  "next_cell c = (case c of Obj \<Rightarrow> Obj | Cell a \<Rightarrow> Cell (a + 8))"

definition intern_free_stack :: "intern_state \<Rightarrow> intern_state" where
  "intern_free_stack s = s\<lparr>n_stack := [], n_limit := INTERN_STACK_INIT_SIZE\<rparr>"

definition intern_resize_stack :: "nat \<Rightarrow> intern_state \<Rightarrow> intern_state res" where
  "intern_resize_stack lim s =
     (let newsize = 2 * n_limit s
      in if INTERN_STACK_MAX_SIZE \<le> newsize then Inl Out_of_memory
         else if lim < newsize * 24 then Inl Out_of_memory
         else Inr (s\<lparr>n_limit := newsize\<rparr>))"

definition PushItem :: "nat \<Rightarrow> intern_item \<Rightarrow> intern_state \<Rightarrow> intern_state res" where
  "PushItem lim it s =
     bind_res (if n_limit s \<le> length (n_stack s) + 1 then intern_resize_stack lim s else Inr s)
       (\<lambda>s. Inr (s\<lparr>n_stack := it # n_stack s\<rparr>))"

definition ReadItems :: "nat \<Rightarrow> cell \<Rightarrow> u64 \<Rightarrow> intern_state \<Rightarrow> intern_state res" where
  "ReadItems lim dest n s =
     (if 0 < n then PushItem lim \<lparr>ii_dest = dest, ii_arg = n, ii_op = OReadItems\<rparr> s else Inr s)"

subsection \<open>Allocation\<close>

definition intern_alloc_storage :: "intern_env \<Rightarrow> u64 \<Rightarrow> u64 \<Rightarrow> intern_state \<Rightarrow> intern_state res option" where
  "intern_alloc_storage env whsize num_objects s =
     (if whsize = 0 then Some (Inr s)
      else let wosize = whsize - 1
           in bind_call
                (if wosize \<le> Max_young_wosize \<and> wosize \<noteq> 0
                 then case Alloc_small (n_heap s) wosize String_tag of
                        None \<Rightarrow> None
                      | Some (h, v) \<Rightarrow> Some (Inr (s\<lparr>n_heap := h, n_dest := v - 8\<rparr>))
                 else Some (Inr s))
                (\<lambda>s. let s = s\<lparr>n_counter := 0\<rparr>
                     in Some (if 0 < num_objects
                              then if ne_lim env < unat (num_objects * 8) then Inl Out_of_memory
                                   else Inr (s\<lparr>n_table := Some (replicate (unat (num_objects * 8) div 8) 0)\<rparr>)
                              else Inr s)))"

definition intern_alloc_obj :: "intern_env \<Rightarrow> u64 \<Rightarrow> u32 \<Rightarrow> intern_state \<Rightarrow> (val \<times> intern_state) res" where
  "intern_alloc_obj env wosize tag s =
     (if n_dest s \<noteq> 0 then
        let p = n_dest s
        in Inr (p + 8, (set_memory (store64 (hp_mem (n_heap s)) p (Make_header wosize tag 0)) s)\<lparr>n_dest := p + 8 * (1 + wosize)\<rparr>)
      else case ne_shared_alloc env (n_shared s) wosize tag of
             None \<Rightarrow> Inl Out_of_memory
           | Some p \<Rightarrow>
               Inr (p + 8, (set_memory (store64 (hp_mem (n_heap s)) p (Make_header wosize tag (ne_status env))) s)
                 \<lparr>n_shared := n_shared s @ [(p + 8, wosize)]\<rparr>))"

text \<open>\<open>intern_obj_table[obj_counter++] = v\<close>, when there is a table.\<close>

definition record_object :: "val \<Rightarrow> intern_state \<Rightarrow> intern_state res option" where
  "record_object v s =
     (case n_table s of
        None \<Rightarrow> Some (Inr s)
      | Some t \<Rightarrow>
          if unat (n_counter s) < length t
          then Some (Inr (s\<lparr>n_table := Some (t[unat (n_counter s) := v]), n_counter := n_counter s + 1\<rparr>)) else None)"

definition new_object :: "intern_env \<Rightarrow> u64 \<Rightarrow> u32 \<Rightarrow> intern_state \<Rightarrow> (val \<times> intern_state) res option" where
  "new_object env wosize tag s =
     bind_call (Some (intern_alloc_obj env wosize tag s)) (\<lambda>(v, s).
     bind_call (record_object v s) (\<lambda>s. Some (Inr (v, s))))"

subsection \<open>Object identifiers\<close>

definition Id_chunk :: u64 where "Id_chunk = 1024"

definition caml_fresh_oo_id :: "intern_state \<Rightarrow> val \<times> intern_state" where
  "caml_fresh_oo_id s =
     (let s = (if n_oo_local s mod Id_chunk = 0 then s\<lparr>n_oo_local := n_oo_next s, n_oo_next := n_oo_next s + Id_chunk\<rparr> else s)
      in (Val_long (n_oo_local s), s\<lparr>n_oo_local := n_oo_local s + 1\<rparr>))"

definition caml_set_oo_id :: "val \<Rightarrow> intern_state \<Rightarrow> intern_state" where
  "caml_set_oo_id obj s = (let (v, s) = caml_fresh_oo_id s in set_memory (Set_Field (hp_mem (n_heap s)) obj 1 v) s)"

subsection \<open>Reading one value\<close>

text \<open>The state of the input is replaced after a read; running out of input is \<open>None\<close>.\<close>

definition reading :: "(u8 list \<Rightarrow> ('a \<times> u8 list) option) \<Rightarrow> ('a \<Rightarrow> intern_state \<Rightarrow> 'b res option) \<Rightarrow> intern_state \<Rightarrow> 'b res option" where
  "reading rd f s = (case rd (n_src s) of None \<Rightarrow> None | Some (x, src) \<Rightarrow> f x (s\<lparr>n_src := src\<rparr>))"

text \<open>
  The result of reading a value is the value to store at \<open>dest\<close>, or nothing for an infix pointer, whose closure is read
  first.
\<close>

type_synonym read_result = "(val option \<times> intern_state) res option"

definition read_block :: "intern_env \<Rightarrow> u64 \<Rightarrow> u32 \<Rightarrow> intern_state \<Rightarrow> read_result" where
  "read_block env sz tag s =
     (let lim = ne_lim env in
      if sz = 0 then Some (Inr (Some (caml_atom (n_heap s) tag), s))
      else bind_call (new_object env sz tag s) (\<lambda>(v, s).
           Some (bind_res
             (if tag = Object_tag then
                bind_res (ReadItems lim (Cell (v + 8 * 2)) (sz - 2) s) (\<lambda>s.
                bind_res (PushItem lim \<lparr>ii_dest = Cell v, ii_arg = 1, ii_op = OFreshOID\<rparr> s) (\<lambda>s.
                ReadItems lim (Cell v) 2 s))
              else ReadItems lim (Cell v) sz s)
             (\<lambda>s. Inr (Some v, s)))))"

definition read_string :: "intern_env \<Rightarrow> u64 \<Rightarrow> intern_state \<Rightarrow> read_result" where
  "read_string env len s =
     (let sz = (len + 8) div 8 in
      bind_call (new_object env sz String_tag s) (\<lambda>(v, s).
      let ofs_ind = Bsize_wsize sz - 1;
          m = Set_Byte (Set_Field (hp_mem (n_heap s)) v (sz - 1) 0) v ofs_ind (ucast (ofs_ind - len))
      in reading (readblock (unat len)) (\<lambda>bs s. Some (Inr (Some v, set_memory (copy_bytes (hp_mem (n_heap s)) v bs) s))) (set_memory m s)))"

definition read_shared :: "u64 \<Rightarrow> intern_state \<Rightarrow> read_result" where
  "read_shared ofs s =
     (let ofs = (if \<not> n_compressed s then n_counter s - ofs else ofs) in
      case n_table s of
        None \<Rightarrow> None
      | Some t \<Rightarrow> if unat ofs < length t then Some (Inr (Some (t ! unat ofs), s)) else None)"

text \<open>\<open>readfloat\<close> and \<open>readfloats\<close>: the bytes are reversed when the data was written in big-endian order.\<close>

definition read_doubles :: "intern_env \<Rightarrow> u64 \<Rightarrow> u32 \<Rightarrow> bool \<Rightarrow> intern_state \<Rightarrow> read_result" where
  "read_doubles env sz tag big s =
     bind_call (new_object env sz tag s) (\<lambda>(v, s).
     reading (readblock (unat (sz * 8)))
       (\<lambda>bs s. Some (Inr (Some v, set_memory (copy_bytes (hp_mem (n_heap s)) v (if big then reverse_chunks 8 (unat sz) bs else bs)) s))) s)"

definition intern_resolve_code_pointer :: "intern_env \<Rightarrow> u8 list \<Rightarrow> u64 \<Rightarrow> addr option" where
  "intern_resolve_code_pointer env digest offset =
     (case ne_find_digest env digest of
        Some cf \<Rightarrow> if cf_code_start cf + offset < cf_code_end cf then Some (cf_code_start cf + offset) else None
      | None \<Rightarrow> None)"

definition hex_digit :: "nat \<Rightarrow> char" where "hex_digit n = ''0123456789ABCDEF'' ! n"

definition intern_bad_code_pointer :: "u8 list \<Rightarrow> exn" where
  "intern_bad_code_pointer digest =
     Failure (''input_value: unknown code module '' @
       concat (map (\<lambda>b. [hex_digit (unat b div 16), hex_digit (unat b mod 16)]) digest))"

definition read_code_pointer :: "intern_env \<Rightarrow> u64 \<Rightarrow> u8 list \<Rightarrow> intern_state \<Rightarrow> read_result" where
  "read_code_pointer env ofs digest s =
     (case intern_resolve_code_pointer env digest ofs of
        Some codeptr \<Rightarrow> Some (Inr (Some codeptr, s))
      | None \<Rightarrow>
          (case ne_placeholder env of
             Some f \<Rightarrow> Some (Inr (Some (load64 (hp_mem (n_heap s)) f), s))
           | None \<Rightarrow> Some (Inl (intern_bad_code_pointer digest))))"

text \<open>The custom block at the front of the input: its identifier is a string that ends with a null byte. A new block is young when  there is a block of the minor heap to fill.\<close>

definition read_custom :: "intern_env \<Rightarrow> string \<Rightarrow> bool \<Rightarrow> intern_state \<Rightarrow> read_result" where
  "read_custom env fun_name fixed s =
     (let name = takeWhile (\<lambda>b. b \<noteq> 0) (n_src s);
          failwith3 = (\<lambda>msg. Some (Inl (Failure (fun_name @ '': '' @ msg @ '' '' @ c_chars name)))) in
      if length (n_src s) \<le> length name then None
      else case ne_find_custom env name of
        None \<Rightarrow> failwith3 ''unknown custom block identifier''
      | Some ops \<Rightarrow>
          if fixed \<and> io_fixed_length ops = None then failwith3 ''expected a fixed-size custom block''
          else
            let s = s\<lparr>n_src := drop (length name + 1) (n_src s)\<rparr>;
                build = (\<lambda>expected_size s.
                  let temp_size = 1 + (expected_size + 8 - 1) div 8
                  in bind_call (Some (intern_alloc_obj env temp_size Custom_tag s)) (\<lambda>(v, s).
                     let m = Set_Field (hp_mem (n_heap s)) v 0 (io_addr ops)
                     in bind_call (io_deserialize ops m (Data_custom_val v) (n_src s)) (\<lambda>(m, src, sz).
                        if sz \<noteq> expected_size then failwith3 ''error while deserializing custom block''
                        else bind_call (record_object v ((set_memory m s)\<lparr>n_src := src\<rparr>)) (\<lambda>s.
                             Some (Inr (Some v,
                               if io_finalize ops \<and> n_dest s \<noteq> 0
                               then s\<lparr>n_heap := (n_heap s)\<lparr>minor_custom_table := minor_custom_table (n_heap s) @ [v]\<rparr>\<rparr> else s))))))
            in case io_fixed_length ops of
                 Some (bsize_32, bsize_64) \<Rightarrow>
                   if fixed then build bsize_64 s
                   else reading read64u build (s\<lparr>n_src := drop 4 (n_src s)\<rparr>)
               | None \<Rightarrow> reading read64u build (s\<lparr>n_src := drop 4 (n_src s)\<rparr>))"

definition ill_formed :: "string \<Rightarrow> string \<Rightarrow> read_result" where
  "ill_formed fun_name msg = Some (Inl (Failure (fun_name @ '': '' @ msg)))"

text \<open>The \<open>switch\<close> on the codes below the prefixes.\<close>

definition read_code :: "intern_env \<Rightarrow> string \<Rightarrow> u8 \<Rightarrow> cell \<Rightarrow> intern_state \<Rightarrow> read_result" where
  "read_code env fun_name code dest s =
     (let ret = (\<lambda>v s. Some (Inr (Some v, s))); lim = ne_lim env in
      if code = CODE_INT8 then reading read8u (\<lambda>x. ret (Val_long (scast x))) s
      else if code = CODE_INT16 then reading read16u (\<lambda>x. ret (Val_long (scast x))) s
      else if code = CODE_INT32 then reading read32u (\<lambda>x. ret (Val_long (scast x))) s
      else if code = CODE_INT64 then reading read64u (\<lambda>x. ret (Val_long x)) s
      else if code = CODE_UNBOXED_INT64 then reading read64u ret s
      else if code = CODE_NULL then reading read8u (\<lambda>_. ret Val_null) s
      else if code = CODE_SHARED8 then reading read8u (\<lambda>x. read_shared (ucast x)) s
      else if code = CODE_SHARED16 then reading read16u (\<lambda>x. read_shared (ucast x)) s
      else if code = CODE_SHARED32 then reading read32u (\<lambda>x. read_shared (ucast x)) s
      else if code = CODE_SHARED64 then reading read64u read_shared s
      else if code = CODE_BLOCK32 then
        reading read32u (\<lambda>x. let header = ucast x in read_block env (Wosize_hd header) (Tag_hd header)) s
      else if code = CODE_BLOCK64 then reading read64u (\<lambda>header. read_block env (Wosize_hd header) (Tag_hd header)) s
      else if code = CODE_STRING8 then reading read8u (\<lambda>x. read_string env (ucast x)) s
      else if code = CODE_STRING32 then reading read32u (\<lambda>x. read_string env (ucast x)) s
      else if code = CODE_STRING64 then reading read64u (read_string env) s
      else if code = CODE_DOUBLE_LITTLE \<or> code = CODE_DOUBLE_BIG then
        read_doubles env 1 Double_tag (code \<noteq> CODE_DOUBLE_LITTLE) s
      else if code = CODE_DOUBLE_ARRAY8_LITTLE \<or> code = CODE_DOUBLE_ARRAY8_BIG then
        reading read8u (\<lambda>x. read_doubles env (ucast x * 1) Double_array_tag (code \<noteq> CODE_DOUBLE_ARRAY8_LITTLE)) s
      else if code = CODE_DOUBLE_ARRAY32_LITTLE \<or> code = CODE_DOUBLE_ARRAY32_BIG then
        reading read32u (\<lambda>x. read_doubles env (ucast x * 1) Double_array_tag (code \<noteq> CODE_DOUBLE_ARRAY32_LITTLE)) s
      else if code = CODE_DOUBLE_ARRAY64_LITTLE \<or> code = CODE_DOUBLE_ARRAY64_BIG then
        reading read64u (\<lambda>x. read_doubles env (x * 1) Double_array_tag True) s
      else if code = CODE_CODEPOINTER then
        reading read32u (\<lambda>ofs. reading (readblock 16) (\<lambda>digest. read_code_pointer env (ucast ofs) digest)) s
      else if code = CODE_INFIXPOINTER then
        reading read32u (\<lambda>ofs s.
          Some (bind_res (PushItem lim \<lparr>ii_dest = dest, ii_arg = ucast ofs, ii_op = OShift\<rparr> s) (\<lambda>s.
                bind_res (ReadItems lim dest 1 s) (\<lambda>s. Inr (None, s))))) s
      else if code = OLD_CODE_CUSTOM then
        ill_formed fun_name ''custom blocks serialized with OCaml 4.08.0 (or prior) are no longer supported''
      else if code = CODE_CUSTOM_LEN \<or> code = CODE_CUSTOM_FIXED then read_custom env fun_name (code = CODE_CUSTOM_FIXED) s
      else ill_formed fun_name ''ill-formed message'')"

definition read_value :: "intern_env \<Rightarrow> string \<Rightarrow> cell \<Rightarrow> intern_state \<Rightarrow> read_result" where
  "read_value env fun_name dest s =
     reading read8u (\<lambda>code s.
       if PREFIX_SMALL_INT \<le> code then
         if PREFIX_SMALL_BLOCK \<le> code then read_block env (ucast (drop_bit 4 code AND 0x7)) (ucast (code AND 0xF)) s
         else Some (Inr (Some (Val_int (ucast (code AND 0x3F))), s))
       else if PREFIX_SMALL_STRING \<le> code then read_string env (ucast (code AND 0x1F)) s
       else read_code env fun_name code dest s) s"

subsection \<open>The loop\<close>

text \<open>Interpreting the request on top of the stack.\<close>

definition intern_step :: "intern_env \<Rightarrow> string \<Rightarrow> intern_item \<Rightarrow> intern_item list \<Rightarrow> intern_state \<Rightarrow> intern_state res option" where
  "intern_step env fun_name it st s =
     (let dest = ii_dest it in
      case ii_op it of
        OFreshOID \<Rightarrow>
          (case dest of
             Obj \<Rightarrow> None
           | Cell v \<Rightarrow>
               Some (Inr (let s = (if 0 \<le>s Long_val (Field (hp_mem (n_heap s)) v 1) then caml_set_oo_id v s else s) in s\<lparr>n_stack := st\<rparr>)))
      | OShift \<Rightarrow> Some (Inr ((set_cell dest (get_cell dest s + ii_arg it) s)\<lparr>n_stack := st\<rparr>))
      | OReadItems \<Rightarrow>
          let st' = (if ii_arg it - 1 = 0 then st else it\<lparr>ii_dest := next_cell dest, ii_arg := ii_arg it - 1\<rparr> # st)
          in bind_call (read_value env fun_name dest (s\<lparr>n_stack := st'\<rparr>)) (\<lambda>(v, s).
             Some (Inr (case v of None \<Rightarrow> s | Some v \<Rightarrow> set_cell dest v s))))"

partial_function (option) intern_loop :: "intern_env \<Rightarrow> string \<Rightarrow> intern_state \<Rightarrow> intern_state res option" where
  "intern_loop env fun_name s =
     (case n_stack s of
        [] \<Rightarrow> Some (Inr (intern_free_stack s))
      | it # st \<Rightarrow>
          (case intern_step env fun_name it st s of
             None \<Rightarrow> None
           | Some (Inl e) \<Rightarrow> Some (Inl e)
           | Some (Inr s) \<Rightarrow> intern_loop env fun_name s))"

definition intern_rec :: "intern_env \<Rightarrow> string \<Rightarrow> intern_state \<Rightarrow> intern_state res option" where
  "intern_rec env fun_name s = bind_call (Some (ReadItems (ne_lim env) Obj 1 s)) (intern_loop env fun_name)"

subsection \<open>The header and the entry points\<close>

record marshal_header =
  mh_magic :: u32
  mh_header_len :: nat
  mh_data_len :: u64
  mh_uncompressed_data_len :: u64
  mh_num_objects :: u64
  mh_whsize :: u64
  mh_compressed :: bool

definition caml_parse_header :: "string \<Rightarrow> intern_state \<Rightarrow> (marshal_header \<times> intern_state) res option" where
  "caml_parse_header fun_name =
     reading read32u (\<lambda>magic.
       if magic = Intext_magic_number_small then
         reading read32u (\<lambda>data_len. reading read32u (\<lambda>num_objects. reading read32u (\<lambda>_. reading read32u (\<lambda>whsize s.
           Some (Inr (\<lparr>mh_magic = magic, mh_header_len = 20, mh_data_len = ucast data_len, mh_uncompressed_data_len = ucast data_len,
             mh_num_objects = ucast num_objects, mh_whsize = ucast whsize, mh_compressed = False\<rparr>, s))))))
       else if magic = Intext_magic_number_big then
         reading read32u (\<lambda>_. reading read64u (\<lambda>data_len. reading read64u (\<lambda>num_objects. reading read64u (\<lambda>whsize s.
           Some (Inr (\<lparr>mh_magic = magic, mh_header_len = 32, mh_data_len = data_len, mh_uncompressed_data_len = data_len,
             mh_num_objects = num_objects, mh_whsize = whsize, mh_compressed = False\<rparr>, s))))))
       else if magic = Intext_magic_number_compressed then
         reading read8u (\<lambda>len.
         let vlq = (\<lambda>f. reading (\<lambda>src. map_option (\<lambda>(ovf, n, src). ((ovf, n), src)) (readvlq src)) (\<lambda>(ovf, n). f ovf n)) in
         vlq (\<lambda>o1 data_len. vlq (\<lambda>o2 uncompressed_data_len. vlq (\<lambda>o3 num_objects. vlq (\<lambda>_ _. vlq (\<lambda>o5 whsize s.
           Some (if o1 \<or> o2 \<or> o3 \<or> o5 then Inl (Failure (fun_name @ '': object too large to be read back on this platform''))
             else Inr (\<lparr>mh_magic = magic, mh_header_len = unat (len AND 0x3F), mh_data_len = data_len,
               mh_uncompressed_data_len = uncompressed_data_len, mh_num_objects = num_objects, mh_whsize = whsize, mh_compressed = True\<rparr>, s))))))))
       else (\<lambda>s. Some (Inl (Failure (fun_name @ '': bad object'')))))"

definition intern_decompress_input :: "intern_env \<Rightarrow> string \<Rightarrow> marshal_header \<Rightarrow> intern_state \<Rightarrow> intern_state res" where
  "intern_decompress_input env fun_name h s =
     (let s = s\<lparr>n_compressed := mh_compressed h\<rparr> in
      if \<not> mh_compressed h then Inr s
      else case ne_decompress env of
             Some decompress \<Rightarrow>
               if ne_lim env < unat (mh_uncompressed_data_len h) then Inl Out_of_memory
               else let blk = decompress (take (unat (mh_data_len h)) (n_src s)) (mh_uncompressed_data_len h)
                    in if length blk \<noteq> unat (mh_uncompressed_data_len h) then Inl (Failure (fun_name @ '': decompression error''))
                       else Inr (s\<lparr>n_src := blk\<rparr>)
           | None \<Rightarrow> Inl (Failure (fun_name @ '': compressed object, cannot decompress'')))"

text \<open>\<open>intern_cleanup\<close> forgets the input, the table and the destination; the result is the value with the heap.\<close>

definition intern_end :: "intern_state \<Rightarrow> val \<times> intern_state" where
  "intern_end s = (n_obj s, s\<lparr>n_src := [], n_table := None, n_dest := 0\<rparr>)"

definition intern_init :: "u8 list \<Rightarrow> intern_state \<Rightarrow> intern_state" where
  "intern_init src s = s\<lparr>n_src := src\<rparr>"

definition input_val_from_block :: "intern_env \<Rightarrow> marshal_header \<Rightarrow> intern_state \<Rightarrow> (val \<times> intern_state) res option" where
  "input_val_from_block env h s =
     bind_call (Some (intern_decompress_input env ''input_val_from_block'' h s)) (\<lambda>s.
     bind_call (intern_alloc_storage env (mh_whsize h) (mh_num_objects h) s) (\<lambda>s.
     bind_call (intern_rec env ''input_val_from_block'' s) (\<lambda>s. Some (Inr (intern_end s)))))"

definition caml_input_value_from_malloc :: "intern_env \<Rightarrow> u8 list \<Rightarrow> nat \<Rightarrow> intern_state \<Rightarrow> (val \<times> intern_state) res option" where
  "caml_input_value_from_malloc env data ofs s =
     bind_call (caml_parse_header ''input_value_from_malloc'' (intern_init (drop ofs data) s)) (\<lambda>(h, s). input_val_from_block env h s)"

definition caml_input_value_from_block :: "intern_env \<Rightarrow> u8 list \<Rightarrow> u64 \<Rightarrow> intern_state \<Rightarrow> (val \<times> intern_state) res option" where
  "caml_input_value_from_block env data len s =
     bind_call (caml_parse_header ''input_value_from_block'' (intern_init data s)) (\<lambda>(h, s).
     if len < of_nat (mh_header_len h) + mh_data_len h then Some (Inl (Failure ''input_val_from_block: bad length''))
     else input_val_from_block env h s)"

definition caml_input_val_from_bytes :: "intern_env \<Rightarrow> val \<Rightarrow> u64 \<Rightarrow> intern_state \<Rightarrow> (val \<times> intern_state) res option" where
  "caml_input_val_from_bytes env str ofs s =
     (let fun_name = ''input_val_from_string''; len = caml_string_length (hp_mem (n_heap s)) str;
          from = (\<lambda>ofs s. mem_bytes (hp_mem (n_heap s)) (str + ofs) (len - ofs)) in
      bind_call (caml_parse_header fun_name (intern_init (from ofs s) s)) (\<lambda>(h, s).
      if len < ofs + of_nat (mh_header_len h) + mh_data_len h then Some (Inl (Failure ''input_val_from_string: bad length''))
      else
        bind_call (intern_alloc_storage env (mh_whsize h) (mh_num_objects h) s) (\<lambda>s.
        bind_call (Some (intern_decompress_input env fun_name h (s\<lparr>n_src := from (ofs + of_nat (mh_header_len h)) s\<rparr>))) (\<lambda>s.
        bind_call (intern_rec env fun_name s) (\<lambda>s. Some (Inr (intern_end s)))))))"

definition caml_input_value_from_bytes :: "intern_env \<Rightarrow> val \<Rightarrow> val \<Rightarrow> intern_state \<Rightarrow> (val \<times> intern_state) res option" where
  "caml_input_value_from_bytes env str ofs s = caml_input_val_from_bytes env str (Long_val ofs) s"

text \<open>
  Reading from a channel. \<open>caml_really_getblock\<close> returns the bytes asked for or, at the end of the file, those that are left; the
  input that is left on the channel is the last component of the result.
\<close>

definition caml_input_val :: "intern_env \<Rightarrow> bool \<Rightarrow> u8 list \<Rightarrow> intern_state \<Rightarrow> (val \<times> intern_state \<times> u8 list) res option" where
  "caml_input_val env binary_mode chan s =
     (if \<not> binary_mode then Some (Inl (Failure ''input_value: not a binary channel''))
      else if chan = [] then Some (Inl End_of_file)
      else if length chan < 5 then Some (Inl (Failure ''input_value: truncated object''))
      else case read32u chan of
             None \<Rightarrow> None
           | Some (magic, rest) \<Rightarrow>
               let hlen = (if magic = Intext_magic_number_big then 32
                           else if magic = Intext_magic_number_compressed then unat (rest ! 0 AND 0x3F) else 20)
               in if length chan < hlen then Some (Inl (Failure ''input_value: truncated object''))
                  else bind_call (caml_parse_header ''input_value'' (s\<lparr>n_src := take hlen chan\<rparr>)) (\<lambda>(h, s).
                       let chan = drop hlen chan; n = unat (mh_data_len h)
                       in if ne_lim env < n then Some (Inl Out_of_memory)
                          else if length chan < n then Some (Inl (Failure ''input_value: truncated object''))
                          else bind_call (Some (intern_decompress_input env ''input_value'' h (intern_init (take n chan) s))) (\<lambda>s.
                               bind_call (intern_alloc_storage env (mh_whsize h) (mh_num_objects h) s) (\<lambda>s.
                               bind_call (intern_rec env ''input_value'' s) (\<lambda>s.
                               let (v, s) = intern_end s in Some (Inr (v, s, drop n chan)))))))"

definition caml_marshal_data_size :: "mem \<Rightarrow> val \<Rightarrow> val \<Rightarrow> val res option" where
  "caml_marshal_data_size m buff ofs =
     (let src = mem_bytes m (buff + Long_val ofs) 16 in
      case read32u src of
        None \<Rightarrow> None
      | Some (magic, src) \<Rightarrow>
          if magic = Intext_magic_number_small then
            map_option (\<lambda>(data_len, _). Inr (Val_long ((20 - 16) + ucast data_len))) (read32u src)
          else if magic = Intext_magic_number_big then
            map_option (\<lambda>(data_len, _). Inr (Val_long ((32 - 16) + data_len))) (read64u (drop 4 src))
          else if magic = Intext_magic_number_compressed then
            (case src of
               [] \<Rightarrow> None
             | c # src \<Rightarrow>
                 map_option (\<lambda>(ovf, data_len, _).
                   if ovf then Inl (Failure ''Marshal.data_size: object too large to be read back on this platform'')
                   else Inr (Val_long ((ucast (c AND 0x3F) - 16) + data_len))) (readvlq src))
          else Some (Inl (Failure ''Marshal.data_size: bad object'')))"

subsection \<open>Deserialisers of custom blocks\<close>

text \<open>They read the input and return what is left of it. A C array of bytes in native order is a list.\<close>

definition caml_deserialize_block_1 :: "nat \<Rightarrow> u8 list \<Rightarrow> (u8 list \<times> u8 list) option" where
  "caml_deserialize_block_1 len src = readblock len src"

definition caml_deserialize_block_2 :: "nat \<Rightarrow> u8 list \<Rightarrow> (u8 list \<times> u8 list) option" where
  "caml_deserialize_block_2 len src = map_option (map_prod (reverse_chunks 2 len) id) (readblock (2 * len) src)"

definition caml_deserialize_block_4 :: "nat \<Rightarrow> u8 list \<Rightarrow> (u8 list \<times> u8 list) option" where
  "caml_deserialize_block_4 len src = map_option (map_prod (reverse_chunks 4 len) id) (readblock (4 * len) src)"

definition caml_deserialize_block_8 :: "nat \<Rightarrow> u8 list \<Rightarrow> (u8 list \<times> u8 list) option" where
  "caml_deserialize_block_8 len src = map_option (map_prod (reverse_chunks 8 len) id) (readblock (8 * len) src)"

definition caml_deserialize_block_float_8 :: "nat \<Rightarrow> u8 list \<Rightarrow> (u8 list \<times> u8 list) option" where
  "caml_deserialize_block_float_8 len src = readblock (8 * len) src"

text \<open>The number that the bytes of a variable hold.\<close>

definition le_word :: "u8 list \<Rightarrow> u64" where
  "le_word bs = load_le (\<lambda>b. bs ! unat b) 0 (length bs)"

definition caml_deserialize_uint_1 :: "u8 list \<Rightarrow> (u32 \<times> u8 list) option" where
  "caml_deserialize_uint_1 src = map_option (map_prod ucast id) (read8u src)"

definition caml_deserialize_sint_1 :: "u8 list \<Rightarrow> (u32 \<times> u8 list) option" where
  "caml_deserialize_sint_1 src = map_option (map_prod scast id) (read8u src)"

definition caml_deserialize_uint_2 :: "u8 list \<Rightarrow> (u32 \<times> u8 list) option" where
  "caml_deserialize_uint_2 src = map_option (map_prod ucast id) (read16u src)"

definition caml_deserialize_sint_2 :: "u8 list \<Rightarrow> (u32 \<times> u8 list) option" where
  "caml_deserialize_sint_2 src = map_option (map_prod scast id) (read16u src)"

definition caml_deserialize_uint_4 :: "u8 list \<Rightarrow> (u32 \<times> u8 list) option" where
  "caml_deserialize_uint_4 src = read32u src"

definition caml_deserialize_sint_4 :: "u8 list \<Rightarrow> (u32 \<times> u8 list) option" where
  "caml_deserialize_sint_4 src = read32u src"

definition caml_deserialize_uint_8 :: "u8 list \<Rightarrow> (u64 \<times> u8 list) option" where
  "caml_deserialize_uint_8 src = map_option (map_prod le_word id) (caml_deserialize_block_8 1 src)"

definition caml_deserialize_sint_8 :: "u8 list \<Rightarrow> (u64 \<times> u8 list) option" where
  "caml_deserialize_sint_8 src = map_option (map_prod le_word id) (caml_deserialize_block_8 1 src)"

definition caml_deserialize_float_4 :: "u8 list \<Rightarrow> (u8 list \<times> u8 list) option" where
  "caml_deserialize_float_4 src = caml_deserialize_block_4 1 src"

definition caml_deserialize_float_8 :: "u8 list \<Rightarrow> (u8 list \<times> u8 list) option" where
  "caml_deserialize_float_8 src = caml_deserialize_block_float_8 1 src"

definition caml_deserialize_error :: "string \<Rightarrow> 'a res option" where
  "caml_deserialize_error msg = Some (Inl (Failure msg))"

text \<open>The deserialisers of the boxed integers (\<open>runtime/ints.c\<close>): the contents of the block at \<open>dst\<close> and the size.\<close>

definition int32_deserialize :: "mem \<Rightarrow> addr \<Rightarrow> u8 list \<Rightarrow> (mem \<times> u8 list \<times> u64) res option" where
  "int32_deserialize m dst src =
     map_option (\<lambda>(x, src). Inr (store_le m dst 4 (ucast x), src, 4)) (caml_deserialize_sint_4 src)"

definition int64_deserialize :: "mem \<Rightarrow> addr \<Rightarrow> u8 list \<Rightarrow> (mem \<times> u8 list \<times> u64) res option" where
  "int64_deserialize m dst src = map_option (\<lambda>(x, src). Inr (store64 m dst x, src, 8)) (caml_deserialize_sint_8 src)"

definition nativeint_deserialize :: "mem \<Rightarrow> addr \<Rightarrow> u8 list \<Rightarrow> (mem \<times> u8 list \<times> u64) res option" where
  "nativeint_deserialize m dst src =
     (case caml_deserialize_uint_1 src of
        None \<Rightarrow> None
      | Some (code, src) \<Rightarrow>
          if code = 1 then map_option (\<lambda>(x, src). Inr (store64 m dst (scast x), src, 8)) (caml_deserialize_sint_4 src)
          else if code = 2 then map_option (\<lambda>(x, src). Inr (store64 m dst x, src, 8)) (caml_deserialize_sint_8 src)
          else caml_deserialize_error ''input_value: ill-formed native integer'')"

end
