(* ===== verification/Copying.thy ===== *)
theory Copying
  imports Items Intern Str
begin

text \<open>
  Copies of graphs of values in C memory. The state of a copy under construction is a worklist of values of
  the source, each with the cell of the target where its image is to be stored, and the list of the blocks copied so far.
  \<open>sim\<close> is the invariant of such a state; the two lemmas at the end are the steps of the construction. When
  the worklist is empty, the target is a copy of the graph.
\<close>

subsection \<open>Words of memory\<close>

definition wi :: "addr \<Rightarrow> nat" where "wi b = unat b div 8"

definition agree :: "nat set \<Rightarrow> mem \<Rightarrow> mem \<Rightarrow> bool" where
  "agree S m m' \<longleftrightarrow> (\<forall>b. wi b \<notin> S \<longrightarrow> m' b = m b)"

lemma agree_refl [simp]: "agree S m m" by (simp add: agree_def)

lemma agree_trans: "agree S a b \<Longrightarrow> agree S b c \<Longrightarrow> agree S a c" by (simp add: agree_def)

lemma agree_mono: "agree S a b \<Longrightarrow> S \<subseteq> T \<Longrightarrow> agree T a b" by (auto simp: agree_def)

lemma unat_add_offset: "unat a + i < 2 ^ 64 \<Longrightarrow> unat ((a :: addr) + of_nat i) = unat a + i"
  by (simp add: unat_word_ariths unat_of_nat)

lemma wi_add: "8 dvd unat a \<Longrightarrow> unat a + i < 2 ^ 64 \<Longrightarrow> wi (a + of_nat i) = wi a + i div 8"
  by (auto simp: wi_def unat_add_offset elim!: dvdE)

lemma aligned_room: "8 dvd unat (a :: addr) \<Longrightarrow> i < 8 \<Longrightarrow> unat a + i < 2 ^ 64"
  using unat64_less [of a] by (auto elim!: dvdE)

lemma agree_store64: "8 dvd unat a \<Longrightarrow> wi a \<in> S \<Longrightarrow> agree S m (store64 m a x)"
  unfolding agree_def
proof (intro allI impI)
  fix b assume a: "8 dvd unat a" "wi a \<in> S" "wi b \<notin> S"
  have "8 \<le> unat (b - a)"
  proof (rule ccontr)
    assume "\<not> ?thesis"
    then have lt: "unat (b - a) < 8" by simp
    have "b = a + of_nat (unat (b - a))" by simp
    then have "wi b = wi a" using wi_add [OF a(1) aligned_room [OF a(1) lt]] lt by simp
    with a show False by simp
  qed
  then show "store64 m a x b = m b" by (rule store_le_other)
qed

lemma load64_agree: "agree S m m' \<Longrightarrow> 8 dvd unat a \<Longrightarrow> wi a \<notin> S \<Longrightarrow> load64 m' a = load64 m a"
  unfolding load64_def
proof (rule load_le_cong)
  fix i :: nat assume a: "agree S m m'" "8 dvd unat a" "wi a \<notin> S" "i < 8"
  then have "wi (a + of_nat i) = wi a" using wi_add [OF a(2) aligned_room [OF a(2,4)]] by simp
  then show "m' (a + of_nat i) = m (a + of_nat i)" using a by (simp add: agree_def)
qed

lemma aligned_inject: "8 dvd unat (a :: addr) \<Longrightarrow> 8 dvd unat b \<Longrightarrow> wi a = wi b \<Longrightarrow> a = b"
  by (metis dvd_div_mult_self wi_def word_unat_eq_iff)

subsection \<open>Blocks\<close>

type_synonym blk = "addr \<times> nat"

definition span :: "blk \<Rightarrow> nat set" where
  "span p = {wi (fst p) - 1..<wi (fst p) + snd p}"

definition fits :: "blk \<Rightarrow> bool" where
  "fits p \<longleftrightarrow> 8 dvd unat (fst p) \<and> 8 \<le> unat (fst p) \<and> unat (fst p) + 8 * snd p \<le> 2 ^ 64"

definition blocks_ok :: "blk list \<Rightarrow> bool" where
  "blocks_ok bl \<longleftrightarrow> (\<forall>p\<in>set bl. fits p) \<and> sorted_wrt (\<lambda>p q. span p \<inter> span q = {}) bl"

lemma blocks_ok_snoc:
  "blocks_ok (bl @ [p]) \<longleftrightarrow> blocks_ok bl \<and> fits p \<and> (\<forall>q\<in>set bl. span q \<inter> span p = {})"
  by (auto simp: blocks_ok_def sorted_wrt_append)

lemma fits_wi: "fits p \<Longrightarrow> 1 \<le> wi (fst p)"
  by (auto simp: fits_def wi_def elim!: dvdE)

lemma header_word:
  assumes "fits p"
  shows "8 dvd unat (fst p - 8)" "wi (fst p - 8) = wi (fst p) - 1"
proof -
  have "(8 :: addr) \<le> fst p" using assms by (simp add: fits_def word_le_nat_alt)
  then have u: "unat (fst p - 8) = unat (fst p) - 8" by (simp add: unat_sub)
  then show "8 dvd unat (fst p - 8)" using assms by (simp add: fits_def dvd_diff_nat)
  obtain k where "unat (fst p) = 8 * k" using assms by (auto simp: fits_def elim: dvdE)
  moreover have "8 * k - 8 = 8 * (k - 1)" by (simp add: diff_mult_distrib2)
  ultimately show "wi (fst p - 8) = wi (fst p) - 1" unfolding wi_def u by simp
qed

lemma byte_word:
  assumes "fits p" "i < 8 * snd p"
  shows "wi (fst p + of_nat i) = wi (fst p) + i div 8" "wi (fst p + of_nat i) \<in> span p"
proof -
  show w: "wi (fst p + of_nat i) = wi (fst p) + i div 8" using assms by (intro wi_add) (auto simp: fits_def)
  show "wi (fst p + of_nat i) \<in> span p" using assms(2) unfolding w span_def by (auto simp: less_mult_imp_div_less mult.commute)
qed

lemma field_word:
  assumes "fits p" "j < snd p"
  shows "8 dvd unat (fst p + 8 * of_nat j)" "wi (fst p + 8 * of_nat j) = wi (fst p) + j"
proof -
  have "unat (fst p + of_nat (8 * j)) = unat (fst p) + 8 * j" using assms by (intro unat_add_offset) (auto simp: fits_def)
  then show "8 dvd unat (fst p + 8 * of_nat j)" using assms(1) by (simp add: fits_def)
  show "wi (fst p + 8 * of_nat j) = wi (fst p) + j" using byte_word(1) [OF assms(1), of "8 * j"] assms(2) by simp
qed

lemma span_parts:
  assumes "fits p"
  shows "wi (fst p) - 1 \<in> span p" "j < snd p \<Longrightarrow> wi (fst p) + j \<in> span p" "j < snd p \<Longrightarrow> wi (fst p) + j \<noteq> wi (fst p) - 1"
  using fits_wi [OF assms] by (auto simp: span_def)

lemma blocks_disjoint:
  assumes "blocks_ok bl" "i < length bl" "j < length bl" "x \<in> span (bl ! i)" "x \<in> span (bl ! j)"
  shows "i = j"
proof (rule ccontr)
  assume "i \<noteq> j"
  then consider "i < j" | "j < i" by linarith
  then have "span (bl ! i) \<inter> span (bl ! j) = {}"
    using assms(1-3) by cases (auto simp: blocks_ok_def sorted_wrt_iff_nth_less)
  with assms(4,5) show False by blast
qed

subsection \<open>Contents of a copied block\<close>

definition copy_ok :: "mem \<Rightarrow> mem \<Rightarrow> val \<Rightarrow> blk \<Rightarrow> bool" where
  "copy_ok m M v p \<longleftrightarrow> snd p = unat (Wosize_val m v) \<and> Wosize_val M (fst p) = Wosize_val m v \<and> Tag_val M (fst p) = Tag_val m v \<and>
     Reserved_val M (fst p) = 0 \<and>
     (Tag_val m v = String_tag \<longrightarrow> string_block M (fst p) (mem_bytes m v (caml_string_length m v))) \<and>
     (Tag_val m v = Double_tag \<or> Tag_val m v = Double_array_tag \<longrightarrow> (\<forall>i<8 * snd p. M (fst p + of_nat i) = m (v + of_nat i)))"

lemma header_agree:
  assumes "agree S M M'" "fits p" "wi (fst p) - 1 \<notin> S"
  shows "Hd_val M' (fst p) = Hd_val M (fst p)" "Wosize_val M' (fst p) = Wosize_val M (fst p)" "Tag_val M' (fst p) = Tag_val M (fst p)"
    "Reserved_val M' (fst p) = Reserved_val M (fst p)"
proof -
  show h: "Hd_val M' (fst p) = Hd_val M (fst p)"
    unfolding Hd_val_def using assms header_word [OF assms(2)] by (intro load64_agree) auto
  then show "Wosize_val M' (fst p) = Wosize_val M (fst p)" "Tag_val M' (fst p) = Tag_val M (fst p)"
    "Reserved_val M' (fst p) = Reserved_val M (fst p)"
    by (simp_all add: Wosize_val_def Reserved_val_def flip: Tag_val_Hd_val)
qed

lemma copy_ok_agree:
  assumes "copy_ok m M v p" "agree S M M'" "fits p" "wi (fst p) - 1 \<notin> S" "leaf_tag (Tag_val m v) \<longrightarrow> span p \<inter> S = {}"
  shows "copy_ok m M' v p"
proof -
  note h = header_agree [OF assms(2-4)]
  have b: "M' (fst p + of_nat i) = M (fst p + of_nat i)" if "leaf_tag (Tag_val m v)" "i < 8 * snd p" for i
    using byte_word(2) [OF assms(3) that(2)] assms(2,5) that(1) by (auto simp: agree_def)
  have "string_block M' (fst p) bs" if s: "string_block M (fst p) bs" and t: "Tag_val m v = String_tag" for bs
  proof -
    have l: "leaf_tag (Tag_val m v)" using t by (simp add: leaf_tag_def)
    have "unat (Wosize_val m v) = string_words (length bs)"
    proof -
      have "Wosize_val m v = of_nat (string_words (length bs))" using s assms(1) by (simp add: string_block_def copy_ok_def)
      moreover have "length bs < 2 ^ 48" using s by (simp add: string_block_def)
      then have "string_words (length bs) < 2 ^ 64" by (simp add: string_words_def)
      ultimately show ?thesis by (simp add: unat_of_nat)
    qed
    then have "length (string_image bs) = 8 * snd p" using assms(1) by (simp add: copy_ok_def)
    then show ?thesis using s b [OF l] h by (simp add: string_block_def bytes_at_def)
  qed
  then show ?thesis using assms(1) h b unfolding copy_ok_def leaf_tag_def by simp
qed

subsection \<open>Images and obligations\<close>

text \<open>\<open>x\<close> is the image of the value \<open>v\<close> when \<open>seen ! i\<close> is copied to \<open>bl ! i\<close>.\<close>

definition img :: "mem \<Rightarrow> (u32 \<Rightarrow> val) \<Rightarrow> val list \<Rightarrow> blk list \<Rightarrow> val \<Rightarrow> val \<Rightarrow> bool" where
  "img m atom seen bl v x \<longleftrightarrow> (let w = short m v in
     if \<not> Is_block w then x = w
     else if Wosize_val m w = 0 then x = atom (Tag_val m w)
     else \<exists>i<length seen. seen ! i = w \<and> x = fst (bl ! i))"

lemma img_snoc: "img m atom seen bl v x \<Longrightarrow> length bl = length seen \<Longrightarrow> img m atom (seen @ [w]) (bl @ [p]) v x"
  by (auto simp: img_def Let_def nth_append split: if_splits)

definition rd :: "mem \<Rightarrow> val \<Rightarrow> cell \<Rightarrow> val" where
  "rd M obj c = (case c of Obj \<Rightarrow> obj | Cell a \<Rightarrow> load64 M a)"

definition field_cell :: "blk \<Rightarrow> nat \<Rightarrow> cell" where
  "field_cell p j = Cell (fst p + 8 * of_nat j)"

definition obl :: "mem \<Rightarrow> val \<Rightarrow> val list \<Rightarrow> blk list \<Rightarrow> (val \<times> cell) set" where
  "obl m root seen bl = insert (root, Obj)
     {(scan_fields m (seen ! i) ! j, field_cell (bl ! i) j) | i j. i < length seen \<and> j < length (scan_fields m (seen ! i))}"

lemma oblE:
  assumes "q \<in> obl m root seen bl"
  obtains "q = (root, Obj)"
    | i j where "i < length seen" "j < length (scan_fields m (seen ! i))" "q = (scan_fields m (seen ! i) ! j, field_cell (bl ! i) j)"
  using assms by (auto simp: obl_def)

lemma obl_field:
  "i < length seen \<Longrightarrow> j < length (scan_fields m (seen ! i)) \<Longrightarrow>
    (scan_fields m (seen ! i) ! j, field_cell (bl ! i) j) \<in> obl m root seen bl"
  by (auto simp: obl_def)

lemma obl_root: "(root, Obj) \<in> obl m root seen bl"
  by (simp add: obl_def)

definition sized :: "mem \<Rightarrow> val list \<Rightarrow> blk list \<Rightarrow> bool" where
  "sized m seen bl \<longleftrightarrow> length bl = length seen \<and> blocks_ok bl \<and> (\<forall>i<length seen. length (scan_fields m (seen ! i)) \<le> snd (bl ! i))"

lemma field_cell_inject:
  assumes "blocks_ok bl" "i < length bl" "i' < length bl" "j < snd (bl ! i)" "j' < snd (bl ! i')"
    "field_cell (bl ! i) j = field_cell (bl ! i') j'"
  shows "i = i' \<and> j = j'"
proof -
  have f: "fits (bl ! i)" "fits (bl ! i')" using assms(1-3) by (auto simp: blocks_ok_def)
  have w: "wi (fst (bl ! i)) + j = wi (fst (bl ! i')) + j'"
    using assms(6) field_word(2) [OF f(1) assms(4)] field_word(2) [OF f(2) assms(5)] by (simp add: field_cell_def)
  then have "i = i'" using blocks_disjoint [OF assms(1-3)] span_parts(2) [OF f(1) assms(4)] span_parts(2) [OF f(2) assms(5)] by simp
  with w show ?thesis by simp
qed

lemma obl_unique:
  assumes "sized m seen bl" "(x, c) \<in> obl m root seen bl" "(y, c) \<in> obl m root seen bl"
  shows "x = y"
proof (cases c)
  case Obj
  then show ?thesis using assms(2,3) by (auto simp: obl_def field_cell_def)
next
  case (Cell a)
  then obtain i j where x: "i < length seen" "j < length (scan_fields m (seen ! i))" "x = scan_fields m (seen ! i) ! j" "c = field_cell (bl ! i) j"
    using assms(2) by (auto elim: oblE)
  obtain i' j' where y: "i' < length seen" "j' < length (scan_fields m (seen ! i'))" "y = scan_fields m (seen ! i') ! j'" "c = field_cell (bl ! i') j'"
    using assms(3) Cell by (auto elim: oblE)
  have "i = i' \<and> j = j'" using assms(1) x y unfolding sized_def
    by (intro field_cell_inject [of bl]) (auto intro: order.strict_trans2)
  with x(3) y(3) show ?thesis by simp
qed

lemma obl_cell:
  assumes "sized m seen bl" "(x, Cell c) \<in> obl m root seen bl"
  shows "\<exists>i<length seen. \<exists>j. j < snd (bl ! i) \<and> c = fst (bl ! i) + 8 * of_nat j \<and> fits (bl ! i) \<and> \<not> leaf_tag (Tag_val m (seen ! i))"
proof -
  obtain i j where ij: "i < length seen" "j < length (scan_fields m (seen ! i))" "c = fst (bl ! i) + 8 * of_nat j"
    using assms(2) by (auto simp: field_cell_def elim: oblE)
  have "\<not> leaf_tag (Tag_val m (seen ! i))" using ij(2) by (auto simp: scan_fields_def)
  moreover have "j < snd (bl ! i)" using assms(1) ij unfolding sized_def by (meson order.strict_trans2)
  moreover have "fits (bl ! i)" using assms(1) ij(1) by (simp add: sized_def blocks_ok_def)
  ultimately show ?thesis using ij(1,3) by blast
qed

subsection \<open>The invariant of a copy\<close>

definition sim :: "mem \<Rightarrow> (u32 \<Rightarrow> val) \<Rightarrow> val \<Rightarrow> val list \<Rightarrow> blk list \<Rightarrow> (val \<times> cell) list \<Rightarrow> mem \<Rightarrow> val \<Rightarrow> bool" where
  "sim m atom root seen bl work M obj \<longleftrightarrow> sized m seen bl \<and> (\<forall>i<length seen. copy_ok m M (seen ! i) (bl ! i)) \<and>
     distinct (map snd work) \<and> set work \<subseteq> obl m root seen bl \<and>
     (\<forall>(x, c)\<in>obl m root seen bl. (x, c) \<in> set work \<or> img m atom seen bl x (rd M obj c))"

text \<open>Storing a value in a cell.\<close>

definition wr_mem :: "mem \<Rightarrow> cell \<Rightarrow> val \<Rightarrow> mem" where
  "wr_mem M c x = (case c of Obj \<Rightarrow> M | Cell a \<Rightarrow> store64 M a x)"

definition wr_obj :: "val \<Rightarrow> cell \<Rightarrow> val \<Rightarrow> val" where
  "wr_obj obj c x = (case c of Obj \<Rightarrow> x | Cell a \<Rightarrow> obj)"

lemma rd_wr:
  assumes "sized m seen bl" "(v, d) \<in> obl m root seen bl" "(y, c) \<in> obl m root seen bl"
  shows "rd (wr_mem M d x) (wr_obj obj d x) c = (if c = d then x else rd M obj c)"
proof (cases d)
  case Obj
  then show ?thesis by (cases c) (auto simp: rd_def wr_mem_def wr_obj_def)
next
  case d: (Cell a)
  then obtain i j where i: "j < snd (bl ! i)" "a = fst (bl ! i) + 8 * of_nat j" "fits (bl ! i)" using obl_cell [OF assms(1)] assms(2) by blast
  show ?thesis
  proof (cases c)
    case Obj
    then show ?thesis using d by (simp add: rd_def wr_mem_def wr_obj_def)
  next
    case c: (Cell b)
    then obtain i' j' where i': "j' < snd (bl ! i')" "b = fst (bl ! i') + 8 * of_nat j'" "fits (bl ! i')"
      using obl_cell [OF assms(1)] assms(3) by blast
    have al: "8 dvd unat a" "8 dvd unat b" using field_word(1) i i' by blast+
    show ?thesis
    proof (cases "b = a")
      case True
      then show ?thesis using c d by (simp add: rd_def wr_mem_def load64_store64)
    next
      case False
      then have "wi b \<noteq> wi a" using aligned_inject al by blast
      then have "load64 (store64 M a x) b = load64 M b" using load64_agree [OF agree_store64 [of a "{wi a}"]] al by simp
      then show ?thesis using c d False by (simp add: rd_def wr_mem_def)
    qed
  qed
qed

lemma copy_ok_wr:
  assumes "sized m seen bl" "(v, d) \<in> obl m root seen bl" "i < length seen" "copy_ok m M (seen ! i) (bl ! i)"
  shows "copy_ok m (wr_mem M d x) (seen ! i) (bl ! i)"
proof (cases d)
  case Obj
  then show ?thesis using assms(4) by (simp add: wr_mem_def)
next
  case (Cell a)
  then obtain k j where k: "k < length seen" "j < snd (bl ! k)" "a = fst (bl ! k) + 8 * of_nat j" "fits (bl ! k)"
    "\<not> leaf_tag (Tag_val m (seen ! k))" using obl_cell [OF assms(1)] assms(2) by blast
  note f = field_word [OF k(4,2)]
  have ag: "agree {wi a} M (store64 M a x)" using f k(3) by (intro agree_store64) auto
  have il: "i < length bl" "k < length bl" "fits (bl ! i)" using assms(1,3) k(1) by (auto simp: sized_def blocks_ok_def)
  have wa: "wi a \<in> span (bl ! k)" using f(2) k span_parts(2) by simp
  have "wi (fst (bl ! i)) - 1 \<notin> {wi a}"
  proof
    assume "wi (fst (bl ! i)) - 1 \<in> {wi a}"
    then have e: "wi a = wi (fst (bl ! i)) - 1" by simp
    then have "i = k" using blocks_disjoint [of bl i k "wi a"] il wa span_parts(1) [OF il(3)] assms(1) by (simp add: sized_def)
    then show False using e f(2) k span_parts(3) [OF k(4,2)] by simp
  qed
  moreover have "span (bl ! i) \<inter> {wi a} = {}" if "leaf_tag (Tag_val m (seen ! i))"
    using blocks_disjoint [of bl i k "wi a"] il wa assms(1) that k(5) by (auto simp: sized_def)
  ultimately show ?thesis using copy_ok_agree [OF assms(4) ag il(3)] Cell by (simp add: wr_mem_def)
qed

lemma sim_store:
  assumes "sim m atom root seen bl ((v, d) # work) M obj" "img m atom seen bl v x"
  shows "sim m atom root seen bl work (wr_mem M d x) (wr_obj obj d x)"
proof -
  have s: "sized m seen bl" "(v, d) \<in> obl m root seen bl" and dist: "d \<notin> snd ` set work" "distinct (map snd work)"
    and sub: "set work \<subseteq> obl m root seen bl"
    and cp: "\<And>i. i < length seen \<Longrightarrow> copy_ok m M (seen ! i) (bl ! i)"
    and ob: "\<And>y c. (y, c) \<in> obl m root seen bl \<Longrightarrow> (y, c) \<in> set ((v, d) # work) \<or> img m atom seen bl y (rd M obj c)"
    using assms(1) by (auto simp: sim_def)
  have "(y, c) \<in> set work \<or> img m atom seen bl y (rd (wr_mem M d x) (wr_obj obj d x) c)" if o: "(y, c) \<in> obl m root seen bl" for y c
  proof (cases "c = d")
    case True
    then have "y = v" using obl_unique [OF s(1)] o s(2) by blast
    then show ?thesis using True assms(2) rd_wr [OF s o] by simp
  next
    case False
    then show ?thesis using ob [OF o] rd_wr [OF s o] by auto
  qed
  then show ?thesis using s(1) dist(2) sub cp copy_ok_wr [OF s] by (auto simp: sim_def)
qed

lemma obl_snoc:
  assumes "length bl = length seen"
  shows "obl m root (seen @ [w]) (bl @ [p]) = obl m root seen bl \<union> set (zip (scan_fields m w) (map (field_cell p) [0..<length (scan_fields m w)]))"
    (is "?l = ?r")
proof (intro set_eqI iffI)
  fix q assume "q \<in> ?l"
  then show "q \<in> ?r"
  proof (cases rule: oblE)
    case 1
    then show ?thesis by (simp add: obl_root)
  next
    case (2 i j)
    show ?thesis
    proof (cases "i = length seen")
      case True
      then show ?thesis using 2 assms by (auto simp: in_set_zip nth_append)
    next
      case False
      then have "i < length seen" using 2 by simp
      then show ?thesis using 2 assms obl_field [of i seen j m bl root] by (simp add: nth_append)
    qed
  qed
next
  fix q assume "q \<in> ?r"
  then consider "q \<in> obl m root seen bl" | j where "j < length (scan_fields m w)" "q = (scan_fields m w ! j, field_cell p j)"
    by (auto simp: in_set_zip)
  then show "q \<in> ?l"
  proof cases
    case 1
    then show ?thesis
    proof (cases rule: oblE)
      case 1
      then show ?thesis by (simp add: obl_root)
    next
      case (2 i j)
      then show ?thesis using obl_field [of i "seen @ [w]" j m "bl @ [p]" root] assms by (simp add: nth_append)
    qed
  next
    case (2 j)
    then show ?thesis using obl_field [of "length seen" "seen @ [w]" j m "bl @ [p]" root] assms by (simp add: nth_append)
  qed
qed

lemma distinct_insert_middle: "distinct xs \<Longrightarrow> set xs \<inter> B = {} \<Longrightarrow> set (d # ys) \<subseteq> B \<Longrightarrow> distinct (d # ys) \<Longrightarrow> distinct (d # xs @ ys)"
  by fastforce

lemma sim_block:
  assumes "sim m atom root seen bl ((v, d) # work) M obj" "blocks_ok (bl @ [p])" "agree (span p) M M1" "copy_ok m M1 w p"
  shows "sim m atom root (seen @ [w]) (bl @ [p])
    ((v, d) # zip (scan_fields m w) (map (field_cell p) [0..<length (scan_fields m w)]) @ work) M1 obj"
proof -
  let ?fs = "scan_fields m w" and ?new = "zip (scan_fields m w) (map (field_cell p) [0..<length (scan_fields m w)])"
  have s: "sized m seen bl" and dist: "distinct (map snd ((v, d) # work))" and sub: "set ((v, d) # work) \<subseteq> obl m root seen bl"
    and cp: "\<And>i. i < length seen \<Longrightarrow> copy_ok m M (seen ! i) (bl ! i)"
    and ob: "\<And>y c. (y, c) \<in> obl m root seen bl \<Longrightarrow> (y, c) \<in> set ((v, d) # work) \<or> img m atom seen bl y (rd M obj c)"
    using assms(1) by (auto simp: sim_def)
  have len: "length bl = length seen" using s by (simp add: sized_def)
  have fp: "fits p" and dj: "\<And>q. q \<in> set bl \<Longrightarrow> span q \<inter> span p = {}" using assms(2) by (auto simp: blocks_ok_snoc)
  have fl: "length ?fs \<le> snd p" using assms(4) by (simp add: scan_fields_def copy_ok_def)
  have s': "sized m (seen @ [w]) (bl @ [p])"
    using s assms(2) fl by (auto simp: sized_def nth_append less_Suc_eq)
  have cp': "copy_ok m M1 (seen ! i) (bl ! i)" if i: "i < length seen" for i
  proof (rule copy_ok_agree [OF cp [OF i] assms(3)])
    have q: "bl ! i \<in> set bl" using i len by simp
    show f: "fits (bl ! i)" using s q by (simp add: sized_def blocks_ok_def)
    show "wi (fst (bl ! i)) - 1 \<notin> span p" using dj [OF q] span_parts(1) [OF f] by blast
    show "leaf_tag (Tag_val m (seen ! i)) \<longrightarrow> span (bl ! i) \<inter> span p = {}" using dj [OF q] by blast
  qed
  have old: "rd M1 obj c = rd M obj c" if o: "(y, c) \<in> obl m root seen bl" for y c
  proof (cases c)
    case (Cell a)
    then obtain i j where i: "i < length seen" "j < snd (bl ! i)" "a = fst (bl ! i) + 8 * of_nat j" "fits (bl ! i)"
      using obl_cell [OF s] o by blast
    note f = field_word [OF i(4,2)]
    have "wi a \<in> span (bl ! i)" using f(2) i(3) span_parts(2) [OF i(4,2)] by simp
    then have "wi a \<notin> span p" using dj [of "bl ! i"] i(1) len by auto
    then show ?thesis using Cell load64_agree [OF assms(3)] f(1) i(3) by (simp add: rd_def)
  qed (simp add: rd_def)
  have new: "field_cell p j \<notin> snd ` obl m root seen bl" if j: "j < length ?fs" for j
  proof
    assume "field_cell p j \<in> snd ` obl m root seen bl"
    then obtain y where "(y, Cell (fst p + 8 * of_nat j)) \<in> obl m root seen bl" by (auto simp: field_cell_def)
    then obtain i k where i: "i < length seen" "k < snd (bl ! i)" "fst p + 8 * of_nat j = fst (bl ! i) + 8 * of_nat k" "fits (bl ! i)"
      using obl_cell [OF s] by blast
    have "wi (fst p) + j \<in> span p" using span_parts(2) [OF fp] j fl by simp
    moreover have "wi (fst p) + j = wi (fst (bl ! i)) + k"
      using field_word(2) [OF fp, of j] field_word(2) [OF i(4,2)] i(3) j fl by simp
    ultimately show False using dj [of "bl ! i"] i(1) len span_parts(2) [OF i(4,2)] by auto
  qed
  have inj: "inj_on (field_cell p) {0..<length ?fs}"
  proof (rule inj_onI)
    fix j k assume a: "j \<in> {0..<length ?fs}" "k \<in> {0..<length ?fs}" "field_cell p j = field_cell p k"
    have "wi (fst p) + j = wi (fst p + 8 * of_nat j)" using field_word(2) [OF fp, of j] a(1) fl by simp
    also have "\<dots> = wi (fst p + 8 * of_nat k)" using a(3) by (simp only: field_cell_def cell.inject)
    also have "\<dots> = wi (fst p) + k" using field_word(2) [OF fp, of k] a(2) fl by simp
    finally show "j = k" by simp
  qed
  have "distinct (map snd ((v, d) # ?new @ work))"
  proof -
    have ms: "map snd ((v, d) # ?new @ work) = d # map (field_cell p) [0..<length ?fs] @ map snd work" by simp
    have "distinct (map (field_cell p) [0..<length ?fs])" using inj by (simp add: distinct_map)
    moreover have "set (map (field_cell p) [0..<length ?fs]) \<inter> snd ` obl m root seen bl = {}" using new by (auto, metis imageI snd_conv)
    moreover have "set (d # map snd work) \<subseteq> snd ` obl m root seen bl" using image_mono [OF sub, of snd] by simp
    moreover have "distinct (d # map snd work)" using dist by simp
    ultimately show ?thesis unfolding ms by (rule distinct_insert_middle)
  qed
  moreover have "set ((v, d) # ?new @ work) \<subseteq> obl m root (seen @ [w]) (bl @ [p])"
    using sub unfolding obl_snoc [OF len] by auto
  moreover have "(y, c) \<in> set ((v, d) # ?new @ work) \<or> img m atom (seen @ [w]) (bl @ [p]) y (rd M1 obj c)"
    if o: "(y, c) \<in> obl m root (seen @ [w]) (bl @ [p])" for y c
  proof (cases "(y, c) \<in> obl m root seen bl")
    case True
    from ob [OF this] show ?thesis
    proof
      assume "img m atom seen bl y (rd M obj c)"
      then show ?thesis using img_snoc [OF _ len] old [OF True] by simp
    qed auto
  next
    case False
    then have "(y, c) \<in> set ?new" using o unfolding obl_snoc [OF len] by blast
    then show ?thesis by simp
  qed
  moreover have "copy_ok m M1 ((seen @ [w]) ! i) ((bl @ [p]) ! i)" if "i < length (seen @ [w])" for i
    using that cp' [of i] assms(4) len by (cases "i < length seen") (simp_all add: nth_append less_Suc_eq)
  ultimately show ?thesis using s' unfolding sim_def by blast
qed

end
