(* ===== verification/Marshal.thy ===== *)
theory Marshal
  imports Items Intern Str
begin

text \<open>
  Marshalling and unmarshalling together: reading back what was written gives a copy of the graph of values, with its sharing and
  cycles.
\<close>

subsection \<open>Reading one item\<close>

lemma scast_ucast_id:
  fixes n :: "'a::len word"
  assumes "LENGTH('b) \<le> LENGTH('a)" "- (2 ^ (LENGTH('b) - 1)) \<le> sint n" "sint n < 2 ^ (LENGTH('b) - 1)"
  shows "scast (ucast n :: 'b::len word) = n"
proof -
  have "ucast n = (word_of_int (sint n) :: 'b word)"
  proof (rule bit_word_eqI)
    fix k assume k: "k < LENGTH('b)"
    then have "min k (LENGTH('a) - Suc 0) = k" using assms(1) by simp
    then show "bit (ucast n :: 'b word) k = bit (word_of_int (sint n) :: 'b word) k" using k by (simp add: bit_simps min.commute)
  qed
  then have s: "sint (ucast n :: 'b word) = sint n" by (simp only: sint_word_of_int_range [OF assms(2,3)])
  show ?thesis unfolding scast_eq s by simp
qed

lemma sint_numeral64: "sint (2 ^ k :: u64) = 2 ^ k" "sint (- (2 ^ k) :: u64) = - (2 ^ k)" if "k < 62"
proof -
  have p: "(2 :: int) ^ k \<le> 2 ^ 61" using that by (intro power_increasing) auto
  have a: "- (2 ^ (LENGTH(64) - 1)) \<le> (2 :: int) ^ k" by (rule order_trans [of _ 0]) simp_all
  have b: "- ((2 :: int) ^ k) < 2 ^ (LENGTH(64) - 1)" by (rule le_less_trans [of _ 0]) simp_all
  have "(2 ^ k :: u64) = word_of_int (2 ^ k)" "(- (2 ^ k) :: u64) = word_of_int (- (2 ^ k))" by simp_all
  then show "sint (2 ^ k :: u64) = 2 ^ k" "sint (- (2 ^ k) :: u64) = - (2 ^ k)"
    using sint_word_of_int_range [OF a] sint_word_of_int_range [OF _ b] p by simp_all
qed

lemma read_value_code:
  "n_src s = code # rest \<Longrightarrow> code < PREFIX_SMALL_STRING \<Longrightarrow>
    read_value env f d s = read_code env f code d (s\<lparr>n_src := rest\<rparr>)"
proof -
  assume a: "n_src s = code # rest" "code < PREFIX_SMALL_STRING"
  have "code < PREFIX_SMALL_INT" "code < PREFIX_SMALL_BLOCK"
    using a(2) by (auto simp: code_defs elim: order.strict_trans)
  then show ?thesis using a by (simp add: read_value_def reading_def not_le [symmetric])
qed

lemma read_int:
  assumes "n_src s = enc_int n @ rest"
  shows "read_value env f d s = Some (Inr (Some (Val_long n), s\<lparr>n_src := rest\<rparr>))"
proof -
  consider (small) "0 \<le>s n" "n <s 0x40"
    | (c8) "\<not> (0 \<le>s n \<and> n <s 0x40)" "- (2 ^ 7) \<le>s n" "n <s 2 ^ 7"
    | (c16) "\<not> (0 \<le>s n \<and> n <s 0x40)" "\<not> (- (2 ^ 7) \<le>s n \<and> n <s 2 ^ 7)" "- (2 ^ 15) \<le>s n" "n <s 2 ^ 15"
    | (c64) "\<not> (0 \<le>s n \<and> n <s 0x40)" "\<not> (- (2 ^ 7) \<le>s n \<and> n <s 2 ^ 7)" "\<not> (- (2 ^ 15) \<le>s n \<and> n <s 2 ^ 15)"
      "n <s - (2 ^ 30) \<or> 2 ^ 30 \<le>s n"
    | (c32) "\<not> (0 \<le>s n \<and> n <s 0x40)" "\<not> (- (2 ^ 7) \<le>s n \<and> n <s 2 ^ 7)" "\<not> (- (2 ^ 15) \<le>s n \<and> n <s 2 ^ 15)"
      "\<not> (n <s - (2 ^ 30) \<or> 2 ^ 30 \<le>s n)" by blast
  then show ?thesis
  proof cases
    case small
    define c where "c = PREFIX_SMALL_INT + (ucast n :: u8)"
    have n: "unat n < 64"
    proof -
      have "0 \<le> sint n" "sint n < 64" using small sint_numeral64 [of 6] by (simp_all add: word_sle_eq word_sless_alt)
      then show ?thesis using sint_nonneg_unat [of n] by linarith
    qed
    have c: "unat c = 64 + unat n"
      using n by (simp add: c_def code_defs unat_word_ariths unsigned_ucast_eq take_bit_nat_eq_self)
    have "unat (c AND 0x3F) = unat n" using n c unat_and_mask [of 6 c] by simp
    then have "ucast (c AND 0x3F) = (of_nat (unat n) :: u32)" by (metis of_nat_unat)
    moreover have "scast (of_nat (unat n) :: u32) = (of_nat (unat n) :: u64)" by (rule scast_of_nat_u32) (use n in simp)
    ultimately have "Val_int (ucast (c AND 0x3F)) = Val_long n" by (simp add: Val_int_def)
    moreover have "PREFIX_SMALL_INT \<le> c" "\<not> PREFIX_SMALL_BLOCK \<le> c" using c n by (simp_all add: code_defs word_le_nat_alt)
    moreover have "n_src s = c # rest" using assms small by (simp add: enc_int_def c_def)
    ultimately show ?thesis by (simp add: read_value_def reading_def)
  next
    case c8
    then have "scast (ucast n :: u8) = n"
      using sint_numeral64 [of 7] by (intro scast_ucast_id) (auto simp: word_sle_eq word_sless_alt)
    moreover have "n_src s = CODE_INT8 # ucast n # rest" using assms c8 by (simp add: enc_int_def)
    ultimately show ?thesis using read_value_code by (simp add: code_defs read_code_def reading_def)
  next
    case c16
    then have "scast (ucast n :: u16) = n"
      using sint_numeral64 [of 15] by (intro scast_ucast_id) (auto simp: word_sle_eq word_sless_alt)
    moreover have "n_src s = CODE_INT16 # store16_be (ucast n) @ rest" using assms c16 by (auto simp: enc_int_def)
    moreover have "ucast (ucast n :: u32) = (ucast n :: u16)" by (rule bit_word_eqI) (auto simp: bit_simps)
    ultimately show ?thesis using read_value_code by (simp add: code_defs read_code_def reading_def)
  next
    case c64
    then have "n_src s = CODE_INT64 # store64_be n @ rest" using assms by (auto simp: enc_int_def)
    then show ?thesis using read_value_code by (simp add: code_defs read_code_def reading_def)
  next
    case c32
    then have "scast (ucast n :: u32) = n"
      using sint_numeral64 [of 30] by (intro scast_ucast_id) (auto simp: word_sle_eq word_sless_alt)
    moreover have "n_src s = CODE_INT32 # store32_be n @ rest" using assms c32 by (auto simp: enc_int_def)
    ultimately show ?thesis using read_value_code by (simp add: code_defs read_code_def reading_def)
  qed
qed

lemma read_null:
  "n_src s = enc I_null @ rest \<Longrightarrow> read_value env f d s = Some (Inr (Some Val_null, s\<lparr>n_src := rest\<rparr>))"
  using read_value_code [of s CODE_NULL "0 # rest" env f d] by (simp add: code_defs read_code_def reading_def)

lemma ucast_ucast_small:
  fixes d :: u64
  shows "d < 0x100 \<Longrightarrow> ucast (ucast d :: u8) = d" "d < 0x10000 \<Longrightarrow> ucast (ucast d :: u16) = d"
    "d < 2 ^ 32 \<Longrightarrow> ucast (ucast d :: u32) = d"
proof -
  have "ucast (ucast d :: 'b::len word) = d" if "unat d < 2 ^ LENGTH('b)"
    using word_bit_bound [OF that] by (intro bit_word_eqI) (auto simp: bit_simps)
  note u = this
  show "d < 0x100 \<Longrightarrow> ucast (ucast d :: u8) = d" by (rule u) (simp add: word_less_nat_alt)
  show "d < 0x10000 \<Longrightarrow> ucast (ucast d :: u16) = d" by (rule u) (simp add: word_less_nat_alt)
  show "d < 2 ^ 32 \<Longrightarrow> ucast (ucast d :: u32) = d" by (rule u) (simp add: word_less_nat_alt)
qed

lemma read_shared_item:
  assumes "n_src s = enc (I_shared x) @ rest"
  shows "read_value env f d s = read_shared x (s\<lparr>n_src := rest\<rparr>)"
proof -
  consider (c8) "x < 0x100" | (c16) "\<not> x < 0x100" "x < 0x10000" | (c64) "\<not> x < 0x100" "\<not> x < 0x10000" "2 ^ 32 \<le> x"
    | (c32) "\<not> x < 0x100" "\<not> x < 0x10000" "\<not> 2 ^ 32 \<le> x" by blast
  then show ?thesis
  proof cases
    case c8
    then have "n_src s = CODE_SHARED8 # ucast x # rest" using assms by simp
    then show ?thesis using read_value_code ucast_ucast_small(1) [OF c8] by (simp add: code_defs read_code_def reading_def)
  next
    case c16
    have "ucast (ucast x :: u32) = (ucast x :: u16)" by (rule bit_word_eqI) (auto simp: bit_simps)
    moreover have "n_src s = CODE_SHARED16 # store16_be (ucast x) @ rest" using assms c16 by simp
    ultimately show ?thesis using read_value_code ucast_ucast_small(2) [OF c16(2)] by (simp add: code_defs read_code_def reading_def)
  next
    case c64
    then have "n_src s = CODE_SHARED64 # store64_be x @ rest" using assms by simp
    then show ?thesis using read_value_code by (simp add: code_defs read_code_def reading_def)
  next
    case c32
    then have "n_src s = CODE_SHARED32 # store32_be x @ rest" using assms by simp
    then show ?thesis using read_value_code ucast_ucast_small(3) [of x] c32 by (simp add: code_defs read_code_def reading_def not_le)
  qed
qed

lemma read_blk:
  assumes "n_src s = enc (I_blk sz tag) @ rest" "unat sz < 2 ^ 46" "tag < 256"
  shows "read_value env f d s = read_block env sz tag (s\<lparr>n_src := rest\<rparr>)"
proof (cases "tag < 16 \<and> sz < 8")
  case True
  define c :: u8 where "c = ucast (ucast PREFIX_SMALL_BLOCK + ucast tag + push_bit 4 sz :: u64)"
  have t: "unat tag < 16" "unat sz < 8" using True by (simp_all add: word_less_nat_alt)
  have p: "push_bit 4 sz = 16 * sz" by (simp add: push_bit_eq_mult)
  have c: "unat c = 128 + unat tag + 16 * unat sz"
    using t unfolding c_def p
    by (simp add: code_defs unat_word_ariths unsigned_ucast_eq take_bit_nat_eq_self take_bit_eq_mod)
  have "unat (drop_bit 4 c) = 8 + unat sz" unfolding unat_drop_bit_eq drop_bit_nat_def c using t by simp
  then have "unat (drop_bit 4 c AND 0x7) = unat sz" using t unat_and_mask [of 3 "drop_bit 4 c"] by simp
  then have s1: "ucast (drop_bit 4 c AND 0x7) = sz"
    using t by (intro word_unat_eq_iff [THEN iffD2]) (simp add: unsigned_ucast_eq take_bit_nat_eq_self)
  have "unat (c AND 0xF) = unat c mod 16" using unat_and_mask [of 4 c] by simp
  also have "\<dots> = (unat tag + 16 * (8 + unat sz)) mod 16" unfolding c by (simp add: algebra_simps)
  also have "\<dots> = unat tag" using t(1) by (simp only: mod_mult_self2 mod_less)
  finally have "unat (c AND 0xF) = unat tag" .
  then have s2: "ucast (c AND 0xF) = tag"
    using t by (intro word_unat_eq_iff [THEN iffD2]) (simp add: unsigned_ucast_eq take_bit_nat_eq_self)
  have "PREFIX_SMALL_INT \<le> c" "PREFIX_SMALL_BLOCK \<le> c" using c by (simp_all add: code_defs word_le_nat_alt)
  moreover have "n_src s = c # rest" using assms(1) True by (simp add: enc_header_def c_def)
  ultimately show ?thesis using s1 s2 by (simp add: read_value_def reading_def)
next
  case False
  let ?hd = "Make_header sz tag NOT_MARKABLE"
  have parts: "header_parts_ok sz tag NOT_MARKABLE 0"
    using assms(2,3) by (simp add: header_parts_ok_def Max_wosize_def word_le_nat_alt mask_eq_exp_minus_1 NOT_MARKABLE_def HEADER_COLOR_MASK_def)
  have h: "Wosize_hd ?hd = sz" "Tag_hd ?hd = tag" unfolding Make_header_def using parts by (simp_all add: tag_simps)
  show ?thesis
  proof (cases "?hd < 2 ^ 32")
    case True
    then have "n_src s = CODE_BLOCK32 # store32_be ?hd @ rest" using assms(1) False by (auto simp: enc_header_def Let_def)
    then show ?thesis using read_value_code ucast_ucast_small(3) [OF True] h by (simp add: code_defs read_code_def reading_def)
  next
    case big: False
    then have "n_src s = CODE_BLOCK64 # store64_be ?hd @ rest" using assms(1) False by (auto simp: enc_header_def Let_def)
    then show ?thesis using read_value_code h by (simp add: code_defs read_code_def reading_def)
  qed
qed

lemma read_str:
  assumes "n_src s = enc (I_str bs) @ rest" "length bs < 2 ^ 48"
  shows "read_value env f d s = read_string env (of_nat (length bs)) (s\<lparr>n_src := bs @ rest\<rparr>)"
proof -
  let ?len = "of_nat (length bs) :: u64"
  have u: "unat ?len = length bs" using assms(2) by (simp add: unat_of_nat)
  consider (small) "?len < 0x20" | (c8) "\<not> ?len < 0x20" "?len < 0x100" | (c32) "\<not> ?len < 0x20" "\<not> ?len < 0x100" "?len < 2 ^ 32"
    | (c64) "\<not> ?len < 0x20" "\<not> ?len < 0x100" "\<not> ?len < 2 ^ 32" by blast
  then show ?thesis
  proof cases
    case small
    define c :: u8 where "c = ucast (ucast PREFIX_SMALL_STRING + ?len :: u64)"
    have n: "length bs < 32" using small u by (simp add: word_less_nat_alt)
    have c: "unat c = 32 + length bs"
      using n unfolding c_def by (simp add: code_defs unat_word_ariths unsigned_ucast_eq take_bit_nat_eq_self take_bit_eq_mod u)
    have "unat (c AND 0x1F) = length bs" using n c unat_and_mask [of 5 c] by simp
    then have "ucast (c AND 0x1F) = ?len" by (metis of_nat_unat)
    moreover have "\<not> PREFIX_SMALL_INT \<le> c" "PREFIX_SMALL_STRING \<le> c" using c n by (simp_all add: code_defs word_le_nat_alt)
    moreover have "n_src s = c # bs @ rest" using assms(1) small by (simp add: c_def)
    ultimately show ?thesis by (simp add: read_value_def reading_def)
  next
    case c8
    then have "n_src s = CODE_STRING8 # ucast ?len # bs @ rest" using assms(1) by (simp add: enc_size_def)
    then show ?thesis using read_value_code ucast_ucast_small(1) [OF c8(2)] by (simp add: code_defs read_code_def reading_def)
  next
    case c32
    then have "n_src s = CODE_STRING32 # store32_be ?len @ bs @ rest" using assms(1) by (simp add: enc_size_def)
    then show ?thesis using read_value_code ucast_ucast_small(3) [OF c32(3)] by (simp add: code_defs read_code_def reading_def)
  next
    case c64
    then have "n_src s = CODE_STRING64 # store64_be ?len @ bs @ rest" using assms(1) by (simp add: enc_size_def)
    then show ?thesis using read_value_code by (simp add: code_defs read_code_def reading_def)
  qed
qed

lemma read_dbl:
  assumes "n_src s = enc (I_dbl bs) @ rest"
  shows "read_value env f d s = read_doubles env 1 Double_tag False (s\<lparr>n_src := bs @ rest\<rparr>)"
  using assms read_value_code [of s CODE_DOUBLE_LITTLE "bs @ rest" env f d] by (simp add: code_defs read_code_def reading_def)

text \<open>The bytes of an array of \<open>2 ^ 32\<close> or more doubles are reversed although they were written in native order.\<close>

lemma read_dbls:
  assumes "n_src s = enc (I_dbls bs) @ rest"
  shows "read_value env f d s =
    read_doubles env (of_nat (length bs div 8)) Double_array_tag (2 ^ 32 \<le> (of_nat (length bs div 8) :: u64)) (s\<lparr>n_src := bs @ rest\<rparr>)"
proof -
  let ?n = "of_nat (length bs div 8) :: u64"
  consider (c8) "?n < 0x100" | (c32) "\<not> ?n < 0x100" "?n < 2 ^ 32" | (c64) "\<not> ?n < 0x100" "\<not> ?n < 2 ^ 32" by blast
  then show ?thesis
  proof cases
    case c8
    then have "\<not> 2 ^ 32 \<le> ?n" by (simp add: word_less_nat_alt word_le_nat_alt)
    moreover have "n_src s = CODE_DOUBLE_ARRAY8_LITTLE # ucast ?n # bs @ rest" using assms(1) c8 by (simp add: enc_size_def)
    ultimately show ?thesis using read_value_code ucast_ucast_small(1) [OF c8] by (simp add: code_defs read_code_def reading_def)
  next
    case c32
    then have "\<not> 2 ^ 32 \<le> ?n" by (simp add: not_le)
    moreover have "n_src s = CODE_DOUBLE_ARRAY32_LITTLE # store32_be ?n @ bs @ rest" using assms(1) c32 by (simp add: enc_size_def)
    ultimately show ?thesis using read_value_code ucast_ucast_small(3) [OF c32(2)] by (simp add: code_defs read_code_def reading_def)
  next
    case c64
    then have "2 ^ 32 \<le> ?n" by (simp add: not_less)
    moreover have "n_src s = CODE_DOUBLE_ARRAY64_LITTLE # store64_be ?n @ bs @ rest" using assms(1) c64 by (simp add: enc_size_def)
    ultimately show ?thesis using read_value_code by (simp add: code_defs read_code_def reading_def not_less)
  qed
qed

subsection \<open>Boxed integers\<close>

lemma le_word_store64: "le_word (rev (store64_be n)) = n"
proof (rule bit_word_eqI)
  fix k assume k: "k < LENGTH(64)"
  have "rev (store64_be n) ! j = (ucast (signed_drop_bit (8 * j) n) :: u8)" if j: "j < 8" for j
  proof -
    consider "j = 0" | "j = 1" | "j = 2" | "j = 3" | "j = 4" | "j = 5" | "j = 6" | "j = 7" using j by linarith
    then show ?thesis by cases (simp_all add: store64_be_def)
  qed
  moreover have d: "k div 8 < 8" using k by simp
  moreover have "unat (of_nat (k div 8) :: addr) = k div 8" using d by (simp add: unat_of_nat)
  moreover have "length (rev (store64_be n)) = 8" by (simp add: store64_be_def)
  moreover have "bit (ucast (signed_drop_bit (8 * (k div 8)) n) :: u8) (k mod 8) = bit n k"
  proof -
    have e: "8 * (k div 8) + k mod 8 = k" by simp
    moreover have "\<not> (64 - 8 * (k div 8) \<le> k mod 8)" using k e by (simp only: len_num1 len_bit0 len_bit1)
    ultimately show ?thesis unfolding bit_ucast_iff bit_signed_drop_bit_iff by simp
  qed
  ultimately show "bit (le_word (rev (store64_be n))) k = bit n k"
    using k by (simp add: le_word_def bit_load_le)
qed

lemma deserialize_sint_8_store64: "caml_deserialize_sint_8 (store64_be n @ rest) = Some (n, rest)"
proof -
  have "length (store64_be n) = 8" by (simp add: store64_be_def)
  then show ?thesis
    by (simp add: caml_deserialize_sint_8_def caml_deserialize_block_8_def readblock_def le_word_store64)
qed

lemma emits_serialize: "emits bs s (serialize_bytes lim bs s)"
  unfolding serialize_bytes_def by (rule emits_put)

text \<open>
  C6: the serialiser of each kind of boxed integers, \<open>int32\<close>, \<open>int64\<close> and \<open>nativeint\<close> (which has a short and a long
  form), writes bytes from which its deserialiser rebuilds the same integer, whatever follows them in the input, and reports the size that the
  unmarshaller expects.
\<close>

theorem boxed_int_serialization:
  shows "(\<exists>bs. emits bs s (bind_res (int32_serialize lim m v s) (\<lambda>(s, sz_32, sz_64). Inr s)) \<and>
      (\<forall>rest dst M. int32_deserialize M dst (bs @ rest) = Some (Inr (store_le M dst 4 (ucast (Int32_val m v)), rest, 4)))) \<and>
    (\<exists>bs. emits bs s (bind_res (int64_serialize lim m v s) (\<lambda>(s, sz_32, sz_64). Inr s)) \<and>
      (\<forall>rest dst M. int64_deserialize M dst (bs @ rest) = Some (Inr (store64 M dst (Int64_val m v), rest, 8)))) \<and>
    (\<exists>bs. emits bs s (bind_res (nativeint_serialize lim m v s) (\<lambda>(s, sz_32, sz_64). Inr s)) \<and>
      (\<forall>rest dst M. nativeint_deserialize M dst (bs @ rest) = Some (Inr (store64 M dst (Nativeint_val m v), rest, 8))))"
proof (intro conjI)
  have collapse: "bind_res (bind_res r (\<lambda>s. Inr (s, a, b))) (\<lambda>(s, sz_32, sz_64). Inr s) = r" for r :: "extern_state res" and a b :: u64
    by (simp add: bind_res_def split: sum.splits)
  have "emits (store32_be (scast (Int32_val m v))) s (bind_res (int32_serialize lim m v s) (\<lambda>(s, sz_32, sz_64). Inr s))"
    unfolding int32_serialize_def collapse caml_serialize_int_4_def by (rule emits_serialize)
  moreover have "ucast (scast (Int32_val m v) :: u64) = Int32_val m v" by (rule bit_word_eqI) (auto simp: bit_simps)
  ultimately show "\<exists>bs. emits bs s (bind_res (int32_serialize lim m v s) (\<lambda>(s, sz_32, sz_64). Inr s)) \<and>
      (\<forall>rest dst M. int32_deserialize M dst (bs @ rest) = Some (Inr (store_le M dst 4 (ucast (Int32_val m v)), rest, 4)))"
    by (intro exI [of _ "store32_be (scast (Int32_val m v))"]) (simp add: int32_deserialize_def caml_deserialize_sint_4_def)
  have "emits (store64_be (Int64_val m v)) s (bind_res (int64_serialize lim m v s) (\<lambda>(s, sz_32, sz_64). Inr s))"
    unfolding int64_serialize_def collapse caml_serialize_int_8_def by (rule emits_serialize)
  then show "\<exists>bs. emits bs s (bind_res (int64_serialize lim m v s) (\<lambda>(s, sz_32, sz_64). Inr s)) \<and>
      (\<forall>rest dst M. int64_deserialize M dst (bs @ rest) = Some (Inr (store64 M dst (Int64_val m v), rest, 8)))"
    by (intro exI [of _ "store64_be (Int64_val m v)"]) (simp add: int64_deserialize_def deserialize_sint_8_store64)
  let ?l = "Nativeint_val m v"
  show "\<exists>bs. emits bs s (bind_res (nativeint_serialize lim m v s) (\<lambda>(s, sz_32, sz_64). Inr s)) \<and>
      (\<forall>rest dst M. nativeint_deserialize M dst (bs @ rest) = Some (Inr (store64 M dst ?l, rest, 8)))"
  proof (cases "- (2 ^ 31) \<le>s ?l \<and> ?l \<le>s 2 ^ 31 - 1")
    case True
    have "emits ([1] @ store32_be (scast (ucast ?l :: u32))) s (bind_res (nativeint_serialize lim m v s) (\<lambda>(s, sz_32, sz_64). Inr s))"
      unfolding nativeint_serialize_def Let_def collapse using True
      by (simp only: if_True simp_thms) (rule emits_bind, unfold caml_serialize_int_1_def caml_serialize_int_4_def, use emits_serialize [of "[1]"] in simp, rule emits_serialize)
    moreover have "ucast (scast (ucast ?l :: u32) :: u64) = (ucast ?l :: u32)" by (rule bit_word_eqI) (auto simp: bit_simps)
    moreover have "scast (ucast ?l :: u32) = ?l"
      using True sint_numeral64 [of 31] by (intro scast_ucast_id) (auto simp: word_sle_eq)
    ultimately show ?thesis
      by (intro exI [of _ "[1] @ store32_be (scast (ucast ?l :: u32))"])
        (simp add: nativeint_deserialize_def caml_deserialize_uint_1_def read8u_def caml_deserialize_sint_4_def)
  next
    case False
    have "emits ([2] @ store64_be ?l) s (bind_res (nativeint_serialize lim m v s) (\<lambda>(s, sz_32, sz_64). Inr s))"
      unfolding nativeint_serialize_def Let_def collapse using False
      by (simp only: if_False) (rule emits_bind, unfold caml_serialize_int_1_def caml_serialize_int_8_def, use emits_serialize [of "[2]"] in simp, rule emits_serialize)
    then show ?thesis
      by (intro exI [of _ "[2] @ store64_be ?l"])
        (simp add: nativeint_deserialize_def caml_deserialize_uint_1_def read8u_def deserialize_sint_8_store64)
  qed
qed

end
