(* ===== verification/Roundtrip.thy ===== *)
theory Roundtrip
  imports Copying Marshal
begin

text \<open>
  Marshalling and unmarshalling together: reading back what was written gives a copy of the graph of values, with its sharing and
  cycles.
\<close>

subsection \<open>The requests\<close>

definition shift_cell :: "cell \<Rightarrow> nat \<Rightarrow> cell" where
  "shift_cell c i = (case c of Obj \<Rightarrow> Obj | Cell a \<Rightarrow> Cell (a + 8 * of_nat i))"

definition cells :: "intern_item list \<Rightarrow> cell list" where
  "cells st = concat (map (\<lambda>it. map (shift_cell (ii_dest it)) [0..<unat (ii_arg it)]) st)"

definition item_ok :: "intern_item \<Rightarrow> bool" where
  "item_ok it \<longleftrightarrow> ii_op it = OReadItems \<and> ii_arg it \<noteq> 0"

definition popped :: "intern_item \<Rightarrow> intern_item list \<Rightarrow> intern_item list" where
  "popped it st = (if ii_arg it - 1 = 0 then st else it\<lparr>ii_dest := next_cell (ii_dest it), ii_arg := ii_arg it - 1\<rparr> # st)"

lemma cells_pop:
  assumes "item_ok it"
  shows "cells (it # st) = ii_dest it # cells (popped it st)"
proof -
  have u: "unat (ii_arg it) = Suc (unat (ii_arg it - 1))"
    using assms by (metis Suc_pred' item_ok_def unat_gt_0 unat_minus_one)
  have r: "[0..<unat (ii_arg it)] = 0 # map Suc [0..<unat (ii_arg it - 1)]"
    unfolding u by (simp add: upt_conv_Cons map_Suc_upt del: upt_Suc)
  have sh: "shift_cell c (Suc i) = shift_cell (next_cell c) i" "shift_cell c 0 = c" for c i
    by (simp_all add: shift_cell_def next_cell_def algebra_simps split: cell.splits)
  show ?thesis using u r by (auto simp: cells_def popped_def sh comp_def)
qed

lemma popped_ok: "item_ok it \<Longrightarrow> \<forall>x\<in>set st. item_ok x \<Longrightarrow> \<forall>x\<in>set (popped it st). item_ok x"
  by (auto simp: popped_def item_ok_def)

definition requests :: "intern_state \<Rightarrow> (val \<times> cell) list \<Rightarrow> bool" where
  "requests s work \<longleftrightarrow> map snd work = cells (n_stack s) \<and> (\<forall>it\<in>set (n_stack s). item_ok it)"

subsection \<open>Allocation of the copies\<close>

text \<open>
  The blocks are carved out of one block of the minor heap, whose words are \<open>Y\<close>, or each comes from the shared heap. \<open>shared_ok\<close> is what is
  required of the shared heap: a block that it returns is aligned, apart from those it returned before and apart from the words \<open>D\<close> that are in use
  already or belong to the minor heap.
\<close>

definition shared_ok :: "intern_env \<Rightarrow> nat set \<Rightarrow> bool" where
  "shared_ok env D \<longleftrightarrow> (\<forall>old n tag p. ne_shared_alloc env (map (\<lambda>(a, n). (a, of_nat n)) old) (of_nat n) tag = Some p \<longrightarrow> 0 < n \<longrightarrow> n < 2 ^ 46 \<longrightarrow>
     fits (p + 8, n) \<and> span (p + 8, n) \<inter> D = {} \<and> (\<forall>q\<in>set old. span q \<inter> span (p + 8, n) = {}))"

definition spans :: "blk list \<Rightarrow> nat set" where
  "spans bl = (\<Union>q\<in>set bl. span q)"

definition has_room :: "nat set \<Rightarrow> nat set \<Rightarrow> nat \<Rightarrow> intern_state \<Rightarrow> blk list \<Rightarrow> bool" where
  "has_room Y D R s bl \<longleftrightarrow>
     (if n_dest s \<noteq> 0 then 8 dvd unat (n_dest s) \<and> unat (n_dest s) + 8 * R < 2 ^ 64 \<and> (\<forall>q\<in>set bl. \<forall>x\<in>span q. x < wi (n_dest s)) \<and>
        spans bl \<subseteq> Y \<and> {wi (n_dest s)..<wi (n_dest s) + R} \<subseteq> Y
      else n_shared s = map (\<lambda>(a, n). (a, of_nat n)) bl \<and> spans bl \<inter> D = {})"

lemma spans_snoc [simp]: "spans (bl @ [p]) = spans bl \<union> span p"
  by (auto simp: spans_def)

text \<open>Only the blocks are written, and the header of the block of the minor heap that the first one replaces.\<close>

definition framed :: "nat set \<Rightarrow> heap \<Rightarrow> intern_state \<Rightarrow> blk list \<Rightarrow> bool" where
  "framed A h s bl \<longleftrightarrow> n_heap s = h\<lparr>hp_mem := hp_mem (n_heap s)\<rparr> \<and> agree (A \<union> spans bl) (hp_mem h) (hp_mem (n_heap s)) \<and>
     (A \<subseteq> spans bl \<or> bl = [] \<and> A \<subseteq> {wi (n_dest s)} \<and> n_dest s \<noteq> 0)"

definition objs :: "nat \<Rightarrow> intern_state \<Rightarrow> blk list \<Rightarrow> bool" where
  "objs N s bl \<longleftrightarrow> N < 2 ^ 61 \<and> length bl \<le> N \<and> \<not> n_compressed s \<and>
     (0 < N \<longrightarrow> n_counter s = of_nat (length bl) \<and> (\<exists>t. n_table s = Some t \<and> length t = N \<and> take (length bl) t = map fst bl))"

definition alloc_inv :: "nat set \<Rightarrow> nat set \<Rightarrow> nat set \<Rightarrow> heap \<Rightarrow> nat \<Rightarrow> nat \<Rightarrow> intern_state \<Rightarrow> blk list \<Rightarrow> bool" where
  "alloc_inv A Y D h N R s bl \<longleftrightarrow> has_room Y D R s bl \<and> framed A h s bl \<and> objs N s bl"

lemma alloc_inv_upd [simp]:
  "alloc_inv A Y D h N R (s\<lparr>n_src := src\<rparr>) bl = alloc_inv A Y D h N R s bl"
  "alloc_inv A Y D h N R (s\<lparr>n_stack := st\<rparr>) bl = alloc_inv A Y D h N R s bl"
  "alloc_inv A Y D h N R (s\<lparr>n_limit := l\<rparr>) bl = alloc_inv A Y D h N R s bl"
  "alloc_inv A Y D h N R (s\<lparr>n_obj := x\<rparr>) bl = alloc_inv A Y D h N R s bl"
  by (simp_all add: alloc_inv_def has_room_def framed_def objs_def)

lemma set_memory_simps [simp]:
  "n_src (set_memory M s) = n_src s" "n_stack (set_memory M s) = n_stack s" "n_obj (set_memory M s) = n_obj s"
  "hp_mem (n_heap (set_memory M s)) = M" "n_dest (set_memory M s) = n_dest s" "n_shared (set_memory M s) = n_shared s"
  "n_table (set_memory M s) = n_table s" "n_counter (set_memory M s) = n_counter s" "n_compressed (set_memory M s) = n_compressed s"
  "n_heap (set_memory M s) = (n_heap s)\<lparr>hp_mem := M\<rparr>" "n_limit (set_memory M s) = n_limit s"
  by (simp_all add: set_memory_def)

lemma alloc_inv_set_mem:
  assumes "alloc_inv A Y D h N R s bl" "agree S (hp_mem (n_heap s)) M" "S \<subseteq> spans bl"
  shows "alloc_inv A Y D h N R (set_memory M s) bl"
proof -
  have e: "n_heap s = h\<lparr>hp_mem := hp_mem (n_heap s)\<rparr>" and "agree (A \<union> spans bl) (hp_mem h) (hp_mem (n_heap s))"
    using assms(1) by (simp_all add: alloc_inv_def framed_def)
  then have "agree (A \<union> spans bl) (hp_mem h) M" using agree_trans agree_mono [OF assms(2), of "A \<union> spans bl"] assms(3) by blast
  moreover have "(n_heap s)\<lparr>hp_mem := M\<rparr> = h\<lparr>hp_mem := M\<rparr>" by (subst e) simp
  ultimately show ?thesis using assms(1) by (auto simp: alloc_inv_def has_room_def framed_def objs_def)
qed

lemma bump_block:
  assumes "has_room Y D (Suc n + R) s bl" "n_dest s \<noteq> 0"
  shows "fits (n_dest s + 8, n)" "\<forall>q\<in>set bl. span q \<inter> span (n_dest s + 8, n) = {}"
    "has_room Y D R (s\<lparr>n_dest := n_dest s + 8 * (1 + of_nat n)\<rparr>) (bl @ [(n_dest s + 8, n)])" "wi (n_dest s) \<in> span (n_dest s + 8, n)"
proof -
  let ?p = "n_dest s" and ?q = "n_dest s + 8 * (1 + of_nat n)"
  have r: "8 dvd unat ?p" "unat ?p + (8 + 8 * n + 8 * R) < 2 ^ 64" "\<forall>q\<in>set bl. \<forall>x\<in>span q. x < wi ?p" "spans bl \<subseteq> Y"
    "{wi ?p..<wi ?p + (Suc n + R)} \<subseteq> Y" using assms by (auto simp: has_room_def)
  have lt: "unat ?p + 8 < 2 ^ 64" "unat ?p + (8 + 8 * n) < 2 ^ 64" using r(2) by linarith+
  have u: "unat (?p + 8) = unat ?p + 8" using unat_add_offset [OF lt(1)] by simp
  have q: "?q = ?p + of_nat (8 + 8 * n)" by simp
  have uq: "unat ?q = unat ?p + (8 + 8 * n)" unfolding q by (rule unat_add_offset [OF lt(2)])
  have w: "wi (?p + 8) = Suc (wi ?p)" "wi ?q = Suc (wi ?p + n)"
    using r(1) unfolding wi_def u uq by (auto elim!: dvdE)
  have sp: "span (?p + 8, n) = {wi ?p..<Suc (wi ?p + n)}" by (simp add: span_def w)
  show "fits (?p + 8, n)" using r(1) lt(2) u unfolding fits_def fst_conv snd_conv u by (auto intro: dvd_add)
  show "\<forall>q\<in>set bl. span q \<inter> span (?p + 8, n) = {}" using r(3) unfolding sp by fastforce
  show "wi ?p \<in> span (?p + 8, n)" unfolding sp by simp
  have "8 dvd unat ?q" unfolding uq using r(1) by (auto intro!: dvd_add)
  moreover have "unat ?q + 8 * R < 2 ^ 64" unfolding uq using r(2) by linarith
  moreover have "?q \<noteq> 0" using uq by (metis add_eq_0_iff_both_eq_0 unsigned_0 zero_neq_numeral)
  moreover have "\<forall>q\<in>set (bl @ [(?p + 8, n)]). \<forall>x\<in>span q. x < wi ?q" using r(3) unfolding w by (fastforce simp: sp)
  moreover have "spans (bl @ [(?p + 8, n)]) \<subseteq> Y" "{wi ?q..<wi ?q + R} \<subseteq> Y" using r(4,5) unfolding spans_snoc sp w by auto
  ultimately show "has_room Y D R (s\<lparr>n_dest := ?q\<rparr>) (bl @ [(?p + 8, n)])" by (simp add: has_room_def del: set_append spans_snoc)
qed

lemma room_cong: "n_dest s' = n_dest s \<Longrightarrow> n_shared s' = n_shared s \<Longrightarrow> has_room Y D R s bl \<Longrightarrow> has_room Y D R s' bl"
  unfolding has_room_def by (simp only:)

lemma alloc_obj_step:
  assumes "has_room Y D (Suc n + R) s bl" "blocks_ok bl" "shared_ok env D" "0 < n" "n < 2 ^ 46"
    "intern_alloc_obj env (of_nat n) tag s = Inr (v, s')"
  shows "blocks_ok (bl @ [(v, n)])" "has_room Y D R s' (bl @ [(v, n)])" "n_dest s \<noteq> 0 \<Longrightarrow> v = n_dest s + 8"
    "\<exists>c sh dst. s' = (set_memory (store64 (hp_mem (n_heap s)) (v - 8) (Make_header (of_nat n) tag c)) s)\<lparr>n_dest := dst, n_shared := sh\<rparr> \<and>
       (c = 0 \<or> c = ne_status env)"
proof -
  let ?g = "blocks_ok (bl @ [(v, n)]) \<and> has_room Y D R s' (bl @ [(v, n)]) \<and> (n_dest s \<noteq> 0 \<longrightarrow> v = n_dest s + 8) \<and>
    (\<exists>c sh dst. s' = (set_memory (store64 (hp_mem (n_heap s)) (v - 8) (Make_header (of_nat n) tag c)) s)\<lparr>n_dest := dst, n_shared := sh\<rparr> \<and>
       (c = 0 \<or> c = ne_status env))"
  have ?g
  proof (cases "n_dest s = 0")
    case True
    then obtain p where p: "ne_shared_alloc env (n_shared s) (of_nat n) tag = Some p" "v = p + 8"
      "s' = (set_memory (store64 (hp_mem (n_heap s)) p (Make_header (of_nat n) tag (ne_status env))) s)\<lparr>n_shared := n_shared s @ [(p + 8, of_nat n)]\<rparr>"
      using assms(6) by (auto simp: intern_alloc_obj_def split: option.splits)
    have sh: "n_shared s = map (\<lambda>(a, n). (a, of_nat n)) bl" using assms(1) True by (simp add: has_room_def)
    have so: "fits (v, n) \<and> span (v, n) \<inter> D = {} \<and> (\<forall>q\<in>set bl. span q \<inter> span (v, n) = {})"
      using assms(3-5) p(1,2) unfolding shared_ok_def sh by blast
    moreover have "spans bl \<inter> D = {}" using assms(1) True by (simp add: has_room_def)
    then have "has_room Y D R s' (bl @ [(v, n)])" using True sh p(2) so by (auto simp: has_room_def p(3))
    moreover have "s' = (set_memory (store64 (hp_mem (n_heap s)) (v - 8) (Make_header (of_nat n) tag (ne_status env))) s)
        \<lparr>n_dest := n_dest s, n_shared := n_shared s @ [(p + 8, of_nat n)]\<rparr>" by (simp add: p(2,3) set_memory_def)
    ultimately show ?thesis using True assms(2) by (auto simp: blocks_ok_snoc)
  next
    case False
    note b = bump_block [OF assms(1) False]
    have v: "v = n_dest s + 8" "s' = (set_memory (store64 (hp_mem (n_heap s)) (n_dest s) (Make_header (of_nat n) tag 0)) s)
        \<lparr>n_dest := n_dest s + 8 * (1 + of_nat n)\<rparr>"
      using False assms(6) by (auto simp: intern_alloc_obj_def Let_def)
    have "has_room Y D R s' (bl @ [(v, n)])" unfolding v(1) by (rule room_cong [OF _ _ b(3)]) (simp_all add: v(2))
    moreover have "s' = (set_memory (store64 (hp_mem (n_heap s)) (v - 8) (Make_header (of_nat n) tag 0)) s)
        \<lparr>n_dest := n_dest s + 8 * (1 + of_nat n), n_shared := n_shared s\<rparr>" by (simp add: v set_memory_def)
    ultimately show ?thesis using b(1,2) assms(2) v(1) by (auto simp: blocks_ok_snoc)
  qed
  then show "blocks_ok (bl @ [(v, n)])" "has_room Y D R s' (bl @ [(v, n)])" "n_dest s \<noteq> 0 \<Longrightarrow> v = n_dest s + 8"
    "\<exists>c sh dst. s' = (set_memory (store64 (hp_mem (n_heap s)) (v - 8) (Make_header (of_nat n) tag c)) s)\<lparr>n_dest := dst, n_shared := sh\<rparr> \<and>
       (c = 0 \<or> c = ne_status env)" by blast+
qed

lemma alloc_obj_error: "intern_alloc_obj env n tag s = Inl e \<Longrightarrow> e = Out_of_memory"
  by (auto simp: intern_alloc_obj_def Let_def split: if_splits option.splits)

definition color_ok :: "intern_env \<Rightarrow> bool" where
  "color_ok env \<longleftrightarrow> ne_status env AND HEADER_COLOR_MASK = ne_status env"

lemma record_object_step:
  assumes "objs N s bl" "length bl < N"
  shows "\<exists>t c. record_object v s = Some (Inr (s\<lparr>n_table := t, n_counter := c\<rparr>)) \<and> objs N (s\<lparr>n_table := t, n_counter := c\<rparr>) (bl @ [(v, n)])"
proof -
  obtain t where t: "n_counter s = of_nat (length bl)" "n_table s = Some t" "length t = N" "take (length bl) t = map fst bl" "N < 2 ^ 61"
    using assms by (auto simp: objs_def)
  have "length bl < 2 ^ 64" using assms(2) t(5) by simp
  then have u: "unat (n_counter s) = length bl" using t(1) by (simp add: unat_of_nat)
  let ?t = "t[length bl := v]"
  have "take (Suc (length bl)) ?t = map fst (bl @ [(v, n)])"
    using assms(2) t(3,4) by (simp add: take_Suc_conv_app_nth)
  then have "objs N (s\<lparr>n_table := Some ?t, n_counter := n_counter s + 1\<rparr>) (bl @ [(v, n)])"
    using assms t by (simp add: objs_def)
  moreover have "record_object v s = Some (Inr (s\<lparr>n_table := Some ?t, n_counter := n_counter s + 1\<rparr>))"
    using assms(2) t(2,3) by (simp add: record_object_def u)
  ultimately show ?thesis by blast
qed

text \<open>A new object: it is apart from the others, and only its words may have changed.\<close>

definition allocated :: "nat set \<Rightarrow> nat set \<Rightarrow> nat set \<Rightarrow> heap \<Rightarrow> nat \<Rightarrow> nat \<Rightarrow> intern_state \<Rightarrow> blk list \<Rightarrow> u32 \<Rightarrow> blk \<Rightarrow> intern_state \<Rightarrow> bool" where
  "allocated A Y D h N R s bl tag p s' \<longleftrightarrow> alloc_inv A Y D h N R s' (bl @ [p]) \<and> blocks_ok (bl @ [p]) \<and>
     agree (span p) (hp_mem (n_heap s)) (hp_mem (n_heap s')) \<and>
     Wosize_val (hp_mem (n_heap s')) (fst p) = of_nat (snd p) \<and> Tag_val (hp_mem (n_heap s')) (fst p) = tag \<and>
     Reserved_val (hp_mem (n_heap s')) (fst p) = 0 \<and> n_stack s' = n_stack s \<and> n_src s' = n_src s \<and> n_obj s' = n_obj s \<and> n_limit s' = n_limit s"

lemma new_object_step:
  assumes "alloc_inv A Y D h N (Suc n + R) s bl" "blocks_ok bl" "shared_ok env D" "color_ok env" "0 < n" "n < 2 ^ 46" "tag < 256" "length bl < N"
  shows "new_object env (of_nat n) tag s = Some (Inl Out_of_memory) \<or>
    (\<exists>v s'. new_object env (of_nat n) tag s = Some (Inr (v, s')) \<and> allocated A Y D h N R s bl tag (v, n) s')"
proof (cases "intern_alloc_obj env (of_nat n) tag s")
  case (Inl e)
  then show ?thesis using alloc_obj_error by (auto simp: new_object_def bind_call_def)
next
  case (Inr vs)
  obtain v s1 where a: "intern_alloc_obj env (of_nat n) tag s = Inr (v, s1)" using Inr by (cases vs) auto
  have i: "has_room Y D (Suc n + R) s bl" "framed A h s bl" "objs N s bl" using assms(1) by (simp_all add: alloc_inv_def)
  note st = alloc_obj_step [OF i(1) assms(2,3,5,6) a]
  obtain c sh dst where s1: "s1 = (set_memory (store64 (hp_mem (n_heap s)) (v - 8) (Make_header (of_nat n) tag c)) s)\<lparr>n_dest := dst, n_shared := sh\<rparr>"
    "c = 0 \<or> c = ne_status env" using st(4) by blast
  let ?M = "store64 (hp_mem (n_heap s)) (v - 8) (Make_header (of_nat n) tag c)"
  have f: "fits (v, n)" using st(1) by (simp add: blocks_ok_snoc)
  note hw = header_word [OF f, unfolded fst_conv]
  have ag: "agree (span (v, n)) (hp_mem (n_heap s)) ?M"
    using hw span_parts(1) [OF f] by (intro agree_store64) simp_all
  have hd: "Hd_val ?M v = Make_header_with_reserved (of_nat n) tag c 0" by (simp add: Hd_val_def load64_store64 Make_header_def)
  have "unat (of_nat n :: u64) = n" using assms(6) by (simp add: unat_of_nat)
  then have hp: "header_parts_ok (of_nat n) tag c 0"
    using assms(4,6,7) s1(2) by (auto simp: header_parts_ok_def color_ok_def Max_wosize_def word_le_nat_alt mask_eq_exp_minus_1)
  then have parts: "Wosize_val ?M v = of_nat n" "Tag_val ?M v = tag" "Reserved_val ?M v = 0"
    unfolding Wosize_val_def Reserved_val_def Tag_val_Hd_val [symmetric] hd
    by (simp_all only: Wosize_hd_Make_header Tag_hd_Make_header Reserved_hd_Make_header)
  have e: "n_heap s = h\<lparr>hp_mem := hp_mem (n_heap s)\<rparr>" and agm: "agree (A \<union> spans bl) (hp_mem h) (hp_mem (n_heap s))"
    using i(2) by (simp_all add: framed_def)
  have "(n_heap s)\<lparr>hp_mem := ?M\<rparr> = h\<lparr>hp_mem := ?M\<rparr>" by (subst e) simp
  moreover have "agree (A \<union> spans (bl @ [(v, n)])) (hp_mem h) ?M"
    by (rule agree_trans [OF agree_mono [OF agm] agree_mono [OF ag]]) auto
  moreover have "A \<subseteq> spans (bl @ [(v, n)])"
    using i(2) st(3) bump_block(4) [OF i(1)] by (auto simp: framed_def)
  ultimately have fr: "framed A h s1 (bl @ [(v, n)])" by (simp add: framed_def s1(1))
  have "objs N s1 bl" using i(3) by (simp add: objs_def s1(1))
  then obtain t cn where r: "record_object v s1 = Some (Inr (s1\<lparr>n_table := t, n_counter := cn\<rparr>))"
    "objs N (s1\<lparr>n_table := t, n_counter := cn\<rparr>) (bl @ [(v, n)])"
    using record_object_step [OF _ assms(8), of s1 v n] by blast
  let ?s = "s1\<lparr>n_table := t, n_counter := cn\<rparr>"
  have "has_room Y D R ?s (bl @ [(v, n)])" by (rule room_cong [OF _ _ st(2)]) simp_all
  moreover have "framed A h ?s (bl @ [(v, n)])" using fr by (simp add: framed_def)
  ultimately have "alloc_inv A Y D h N R ?s (bl @ [(v, n)])" using r(2) by (simp add: alloc_inv_def)
  then have "allocated A Y D h N R s bl tag (v, n) ?s" using st(1) ag parts by (simp add: allocated_def s1(1))
  moreover have "new_object env (of_nat n) tag s = Some (Inr (v, ?s))"
    using r(1) by (simp add: new_object_def bind_call_def a)
  ultimately show ?thesis by blast
qed

subsection \<open>The body of a new block\<close>

definition body :: "blk \<Rightarrow> nat set" where
  "body p = {wi (fst p)..<wi (fst p) + snd p}"

lemma body_span: "body p \<subseteq> span p"
  by (auto simp: body_def span_def)

lemma agree_bytes:
  assumes "fits p" "\<And>b. M' b \<noteq> M b \<Longrightarrow> \<exists>i<8 * snd p. b = fst p + of_nat i"
  shows "agree (body p) M M'"
  unfolding agree_def
proof (intro allI impI, rule ccontr)
  fix b assume b: "wi b \<notin> body p" "M' b \<noteq> M b"
  then obtain i where i: "i < 8 * snd p" "b = fst p + of_nat i" using assms(2) by blast
  have "wi b = wi (fst p) + i div 8" unfolding i(2) by (rule byte_word(1) [OF assms(1) i(1)])
  with b(1) i(1) show False by (auto simp: body_def)
qed

lemma agree_copy_bytes:
  assumes "fits p" "length bs \<le> 8 * snd p"
  shows "agree (body p) M (copy_bytes M (fst p) bs)"
proof (rule agree_bytes [OF assms(1)])
  fix b assume "copy_bytes M (fst p) bs b \<noteq> M b"
  then have "unat (b - fst p) < length bs" by (simp add: copy_bytes_def split: if_splits)
  moreover have "b = fst p + of_nat (unat (b - fst p))" by simp
  ultimately show "\<exists>i<8 * snd p. b = fst p + of_nat i" using assms(2) by (metis order.strict_trans2)
qed

lemma agree_Set_Byte: "fits p \<Longrightarrow> k < 8 * snd p \<Longrightarrow> agree (body p) M (Set_Byte M (fst p) (of_nat k) x)"
  by (rule agree_bytes) (auto simp: Set_Byte_def split: if_splits)

lemma agree_Set_Field: "fits p \<Longrightarrow> j < snd p \<Longrightarrow> agree (body p) M (Set_Field M (fst p) (of_nat j) x)"
  unfolding Set_Field_def using field_word [of p j] by (intro agree_store64) (auto simp: body_def)

lemma body_header:
  assumes "agree (body p) M M'" "fits p"
  shows "Wosize_val M' (fst p) = Wosize_val M (fst p)" "Tag_val M' (fst p) = Tag_val M (fst p)" "Reserved_val M' (fst p) = Reserved_val M (fst p)"
proof -
  have "wi (fst p) - 1 \<notin> body p" using fits_wi [OF assms(2)] by (auto simp: body_def)
  from header_agree [OF assms this] show "Wosize_val M' (fst p) = Wosize_val M (fst p)" "Tag_val M' (fst p) = Tag_val M (fst p)"
    "Reserved_val M' (fst p) = Reserved_val M (fst p)" by simp_all
qed

subsection \<open>Reading one value\<close>

text \<open>What reading a value with item \<open>it\<close> does: \<open>v\<close> is the value to store at \<open>d\<close> and \<open>new\<close> the new requests.\<close>

definition read_post :: "nat set \<Rightarrow> nat set \<Rightarrow> nat set \<Rightarrow> heap \<Rightarrow> nat \<Rightarrow> nat \<Rightarrow> mem \<Rightarrow> val \<Rightarrow> val list \<Rightarrow> val list \<Rightarrow> val \<Rightarrow> cell \<Rightarrow> (val \<times> cell) list \<Rightarrow> u8 list \<Rightarrow>
    (val option \<times> intern_state) res option \<Rightarrow> bool" where
  "read_post A Y D h N R m root fs seen v d work rest q \<longleftrightarrow>
     q = Some (Inl Out_of_memory) \<or>
     (\<exists>x s bl new. q = Some (Inr (Some x, s)) \<and> n_src s = rest \<and> alloc_inv A Y D h N R s bl \<and> requests s (new @ work) \<and> map fst new = fs \<and>
       sim m (caml_atom h) root seen bl ((v, d) # new @ work) (hp_mem (n_heap s)) (n_obj s) \<and> img m (caml_atom h) seen bl v x)"

lemma read_post_old:
  assumes "sim m (caml_atom h) root seen bl ((v, d) # work) (hp_mem (n_heap s)) (n_obj s)" "requests s work" "alloc_inv A Y D h N R s bl"
    "img m (caml_atom h) seen bl v x" "n_src s = rest"
  shows "read_post A Y D h N R m root [] seen v d work rest (Some (Inr (Some x, s)))"
  unfolding read_post_def using assms by (intro disjI2 exI [of _ x] exI [of _ s] exI [of _ bl] exI [of _ "[]"]) simp

definition new_requests :: "mem \<Rightarrow> val \<Rightarrow> blk \<Rightarrow> (val \<times> cell) list" where
  "new_requests m w p = zip (scan_fields m w) (map (field_cell p) [0..<length (scan_fields m w)])"

lemma read_post_new:
  assumes "sim m (caml_atom h) root seen bl ((v, d) # work) (hp_mem (n_heap s)) (n_obj s)"
    "allocated A Y D h N R s bl tag p s'" "agree (body p) (hp_mem (n_heap s')) M" "copy_ok m M (short m v) p" "Is_block (short m v)"
    "Wosize_val m (short m v) \<noteq> 0" "requests (s'\<lparr>n_stack := st\<rparr>) (new_requests m (short m v) p @ work)" "n_src s'' = rest"
    "s'' = (set_memory M s')\<lparr>n_src := n_src s'', n_stack := st, n_limit := n_limit s''\<rparr>"
  shows "read_post A Y D h N R m root (scan_fields m (short m v)) (seen @ [short m v]) v d work rest (Some (Inr (Some (fst p), s'')))"
proof -
  let ?w = "short m v"
  have a: "alloc_inv A Y D h N R s' (bl @ [p])" "blocks_ok (bl @ [p])" "agree (span p) (hp_mem (n_heap s)) (hp_mem (n_heap s'))" "n_obj s' = n_obj s"
    using assms(2) by (simp_all add: allocated_def)
  have s'': "hp_mem (n_heap s'') = M" "n_obj s'' = n_obj s'" "n_stack s'' = st" by (subst assms(9), simp)+
  have len: "length bl = length seen" using assms(1) by (simp add: sim_def sized_def)
  have "agree (span p) (hp_mem (n_heap s)) M" using a(3) agree_mono [OF assms(3) body_span] by (rule agree_trans)
  from sim_block [OF assms(1) a(2) this assms(4)]
  have "sim m (caml_atom h) root (seen @ [?w]) (bl @ [p]) ((v, d) # new_requests m ?w p @ work) (hp_mem (n_heap s'')) (n_obj s'')"
    unfolding new_requests_def s'' a(4) .
  moreover have "alloc_inv A Y D h N R s'' (bl @ [p])"
    by (subst assms(9)) (simp, rule alloc_inv_set_mem [OF a(1) agree_mono [OF assms(3) body_span]], auto)
  moreover have "requests s'' (new_requests m ?w p @ work)" using assms(7) by (simp add: requests_def s'')
  moreover have "map fst (new_requests m ?w p) = scan_fields m ?w" by (simp add: new_requests_def)
  moreover have "img m (caml_atom h) (seen @ [?w]) (bl @ [p]) v (fst p)"
    using assms(5,6) len by (auto simp: img_def Let_def nth_append intro!: exI [of _ "length seen"])
  ultimately show ?thesis unfolding read_post_def using assms(8)
    by (intro disjI2 exI [of _ "fst p"] exI [of _ s''] exI [of _ "bl @ [p]"] exI [of _ "new_requests m ?w p"]) simp
qed

lemma Tag_val_small: "Tag_val m v < 256"
proof -
  have "Tag_val m v = take_bit 8 (Tag_val m v)"
    by (rule bit_word_eqI) (auto simp: Tag_val_Hd_val [symmetric] header_field_defs bit_simps)
  then have "unat (Tag_val m v) = take_bit 8 (unat (Tag_val m v))" by (metis unsigned_take_bit_eq)
  then have "unat (Tag_val m v) < 2 ^ 8" by (metis take_bit_nat_less_exp)
  then show ?thesis by (simp add: word_less_nat_alt)
qed

text \<open>The state in which a value is read, and the value is a block not seen before.\<close>

definition fresh :: "intern_env \<Rightarrow> nat set \<Rightarrow> nat set \<Rightarrow> nat set \<Rightarrow> heap \<Rightarrow> nat \<Rightarrow> nat \<Rightarrow> mem \<Rightarrow> val \<Rightarrow> val list \<Rightarrow> blk list \<Rightarrow> val \<Rightarrow> cell \<Rightarrow> (val \<times> cell) list \<Rightarrow> intern_state \<Rightarrow> bool" where
  "fresh env A Y D h N R m root seen bl v d work s \<longleftrightarrow> shared_ok env D \<and> color_ok env \<and>
     sim m (caml_atom h) root seen bl ((v, d) # work) (hp_mem (n_heap s)) (n_obj s) \<and> requests s work \<and>
     alloc_inv A Y D h N (item_words (leaf_item m (short m v)) + R) s bl \<and> length bl < N \<and> block_ok m (short m v) \<and> Wosize_val m (short m v) \<noteq> 0"

lemma fresh_alloc:
  assumes "fresh env A Y D h N R m root seen bl v d work s" "n = unat (Wosize_val m (short m v))" "tag = Tag_val m (short m v)"
    "item_words (leaf_item m (short m v)) = Suc n"
  shows "new_object env (of_nat n) tag (s\<lparr>n_src := src\<rparr>) = Some (Inl Out_of_memory) \<or>
    (\<exists>x s'. new_object env (of_nat n) tag (s\<lparr>n_src := src\<rparr>) = Some (Inr (x, s')) \<and> fits (x, n) \<and>
       allocated A Y D h N R (s\<lparr>n_src := src\<rparr>) bl tag (x, n) s')"
proof -
  have f: "alloc_inv A Y D h N (Suc n + R) (s\<lparr>n_src := src\<rparr>) bl" "shared_ok env D" "color_ok env" "length bl < N" "blocks_ok bl"
    using assms(1,4) by (auto simp: fresh_def sim_def sized_def)
  have n: "0 < n" "n < 2 ^ 46" using assms(1,2) Wosize_less [of m "short m v"] by (simp_all add: fresh_def unat_gt_0)
  have t: "tag < 256" unfolding assms(3) by (rule Tag_val_small)
  show ?thesis using new_object_step [OF f(1,5,2,3) n t f(4)] by (auto simp: allocated_def blocks_ok_snoc)
qed

lemma fresh_leaf:
  assumes "fresh env A Y D h N R m root seen bl v d work s" "leaf_tag (Tag_val m (short m v))"
    "allocated A Y D h N R (s\<lparr>n_src := src\<rparr>) bl tag p s'" "agree (body p) (hp_mem (n_heap s')) M" "copy_ok m M (short m v) p"
  shows "read_post A Y D h N R m root (scan_fields m (short m v)) (seen @ [short m v]) v d work rest
    (Some (Inr (Some (fst p), set_memory M (s'\<lparr>n_src := rest\<rparr>))))"
proof (rule read_post_new [OF _ assms(3-5), where st = "n_stack s"])
  have sc: "scan_fields m (short m v) = []" using assms(2) by (simp add: scan_fields_def)
  then show "requests (s'\<lparr>n_stack := n_stack s\<rparr>) (new_requests m (short m v) p @ work)"
    using assms(1) by (simp add: fresh_def new_requests_def requests_def)
  have st: "n_stack s' = n_stack s" using assms(3) by (simp add: allocated_def)
  show "set_memory M (s'\<lparr>n_src := rest\<rparr>) = (set_memory M s')\<lparr>n_src := n_src (set_memory M (s'\<lparr>n_src := rest\<rparr>)),
      n_stack := n_stack s, n_limit := n_limit (set_memory M (s'\<lparr>n_src := rest\<rparr>))\<rparr>"
    unfolding st [symmetric] by (cases s') (simp add: set_memory_def)
qed (use assms(1) in \<open>auto simp: fresh_def block_ok_def\<close>)

lemma read_doubles_post:
  assumes "fresh env A Y D h N R m root seen bl v d work s" "n = unat (Wosize_val m (short m v))"
    "Tag_val m (short m v) = Double_tag \<or> Tag_val m (short m v) = Double_array_tag" "item_words (leaf_item m (short m v)) = Suc n"
    "bs = mem_bytes m (short m v) (of_nat n * 8)"
  shows "read_post A Y D h N R m root (scan_fields m (short m v)) (seen @ [short m v]) v d work rest
    (read_doubles env (of_nat n) (Tag_val m (short m v)) False (s\<lparr>n_src := bs @ rest\<rparr>))"
  using fresh_alloc [OF assms(1,2) refl assms(4), of "bs @ rest"]
proof (elim disjE exE conjE)
  assume "new_object env (of_nat n) (Tag_val m (short m v)) (s\<lparr>n_src := bs @ rest\<rparr>) = Some (Inl Out_of_memory)"
  then show ?thesis by (simp add: read_doubles_def bind_call_def read_post_def)
next
  let ?w = "short m v" let ?s = "s\<lparr>n_src := bs @ rest\<rparr>"
  fix x s' assume a: "new_object env (of_nat n) (Tag_val m ?w) ?s = Some (Inr (x, s'))" "fits (x, n)"
    "allocated A Y D h N R ?s bl (Tag_val m ?w) (x, n) s'"
  have n: "n < 2 ^ 46" using assms(2) Wosize_less by simp
  then have u: "unat (of_nat n * 8 :: u64) = 8 * n" "unat (of_nat n :: u64) = n" by (simp_all add: unat_word_ariths unat_of_nat)
  have l: "length bs = 8 * n" unfolding assms(5) by (simp add: u)
  let ?M = "copy_bytes (hp_mem (n_heap s')) x bs"
  have ag: "agree (body (x, n)) (hp_mem (n_heap s')) ?M" using agree_copy_bytes [OF a(2), of bs] l by simp
  note hd = body_header [OF ag a(2), unfolded fst_conv]
  have "n_src s' = bs @ rest" using a(3) by (simp add: allocated_def)
  then have r: "read_doubles env (of_nat n) (Tag_val m ?w) False ?s = Some (Inr (Some (fst (x, n)), set_memory ?M (s'\<lparr>n_src := rest\<rparr>)))"
    using a(1) l by (simp add: read_doubles_def bind_call_def reading_def readblock_def u)
  have "?M (x + of_nat i) = m (?w + of_nat i)" if i: "i < 8 * n" for i
  proof -
    have "bs ! i = m (?w + of_nat i)" using i unfolding assms(5) mem_bytes_def u by simp
    then show ?thesis using i n l copy_bytes_at [of i bs "hp_mem (n_heap s')" x] by simp
  qed
  moreover have "of_nat n = Wosize_val m ?w" unfolding assms(2) by simp
  ultimately have "copy_ok m ?M ?w (x, n)"
    using a(3) assms(2,3) by (auto simp: copy_ok_def hd allocated_def tag_defs)
  moreover have "leaf_tag (Tag_val m ?w)" using assms(3) by (auto simp: leaf_tag_def)
  ultimately show ?thesis unfolding r using fresh_leaf [OF assms(1) _ a(3) ag] by blast
qed

lemma read_string_post:
  assumes "fresh env A Y D h N R m root seen bl v d work s" "Tag_val m (short m v) = String_tag"
    "bs = mem_bytes m (short m v) (caml_string_length m (short m v))" "length bs < 2 ^ 48"
  shows "read_post A Y D h N R m root (scan_fields m (short m v)) (seen @ [short m v]) v d work rest
    (read_string env (of_nat (length bs)) (s\<lparr>n_src := bs @ rest\<rparr>))"
proof -
  let ?w = "short m v" let ?s = "s\<lparr>n_src := bs @ rest\<rparr>" and ?n = "string_words (length bs)"
  have lb: "length bs = unat (caml_string_length m ?w)" by (simp add: assms(3))
  have n: "?n = unat (Wosize_val m ?w)" using assms(1,2) lb by (simp add: fresh_def block_ok_def string_words_def)
  have wn: "of_nat ?n = Wosize_val m ?w" unfolding n by simp
  have un: "unat (of_nat ?n :: u64) = ?n" using wn n by simp
  have iw: "item_words (leaf_item m ?w) = Suc ?n" using assms(2,3) by (simp add: leaf_item_def string_words_def)
  have ul: "unat (of_nat (length bs) :: u64) = length bs" by (simp add: lb)
  note sz = string_size_word [OF assms(4)]
  show ?thesis using fresh_alloc [OF assms(1) n refl iw, of "bs @ rest"]
  proof (elim disjE exE conjE)
    assume "new_object env (of_nat ?n) (Tag_val m ?w) ?s = Some (Inl Out_of_memory)"
    then show ?thesis by (simp add: read_string_def bind_call_def read_post_def sz assms(2))
  next
    fix x s' assume a: "new_object env (of_nat ?n) (Tag_val m ?w) ?s = Some (Inr (x, s'))" "fits (x, ?n)"
      "allocated A Y D h N R ?s bl (Tag_val m ?w) (x, ?n) s'"
    let ?Ma = "hp_mem (n_heap s')"
    let ?Mb = "Set_Byte (Set_Field ?Ma x (of_nat (?n - 1)) 0) x (of_nat (8 * ?n - 1)) (of_nat (string_pad (length bs)))"
    let ?M = "copy_bytes ?Mb x bs"
    have pos: "0 < ?n" "length bs \<le> 8 * ?n" by (simp_all add: string_words_def)
    have "agree (body (x, ?n)) ?Ma (Set_Field ?Ma x (of_nat (?n - 1)) 0)" using agree_Set_Field [OF a(2), of "?n - 1"] pos by simp
    moreover have "agree (body (x, ?n)) (Set_Field ?Ma x (of_nat (?n - 1)) 0) ?Mb" using agree_Set_Byte [OF a(2), of "8 * ?n - 1"] pos by simp
    moreover have "agree (body (x, ?n)) ?Mb ?M" using agree_copy_bytes [OF a(2), of bs] pos by simp
    ultimately have ag: "agree (body (x, ?n)) ?Ma ?M" by (blast intro: agree_trans)
    note hd = body_header [OF ag a(2), unfolded fst_conv]
    have h0: "Wosize_val ?Ma x = of_nat ?n" "Tag_val ?Ma x = String_tag" "Reserved_val ?Ma x = 0" "n_src s' = bs @ rest"
      using a(3) assms(2) by (simp_all add: allocated_def)
    have "string_block ?M x bs"
      by (rule string_block_copy [OF string_padding [OF assms(4) refl h0(1,2) refl]]) simp
    then have "copy_ok m ?M ?w (x, ?n)"
      using h0 hd assms(2,3) n wn by (simp add: copy_ok_def tag_defs)
    moreover have "leaf_tag (Tag_val m ?w)" using assms(2) by (auto simp: leaf_tag_def)
    moreover have "read_string env (of_nat (length bs)) ?s = Some (Inr (Some (fst (x, ?n)), set_memory ?M (s'\<lparr>n_src := rest\<rparr>)))"
      using a(1) assms(2) h0(4) string_pad_word [of "length bs"]
      by (simp add: read_string_def Let_def sz bind_call_def reading_def readblock_def ul Bsize_wsize_def mult.commute set_memory_def)
    ultimately show ?thesis using fresh_leaf [OF assms(1) _ a(3) ag] by simp
  qed
qed

lemma ReadItems_step:
  assumes "0 < n"
  shows "ReadItems lim c n s = Inl Out_of_memory \<or>
    (\<exists>l. ReadItems lim c n s = Inr (s\<lparr>n_limit := l, n_stack := \<lparr>ii_dest = c, ii_arg = n, ii_op = OReadItems\<rparr> # n_stack s\<rparr>))"
proof -
  have e: "\<exists>l. s\<lparr>n_stack := st\<rparr> = s\<lparr>n_limit := l, n_stack := st\<rparr>" for st by (rule exI [of _ "n_limit s"]) simp
  then show ?thesis using assms
    by (cases "n_limit s \<le> length (n_stack s) + 1") (auto simp: ReadItems_def PushItem_def bind_res_def intern_resize_stack_def Let_def)
qed

lemma read_block_post:
  assumes "fresh env A Y D h N R m root seen bl v d work s" "\<not> leaf_tag (Tag_val m (short m v))"
  shows "read_post A Y D h N R m root (scan_fields m (short m v)) (seen @ [short m v]) v d work rest
    (read_block env (Wosize_val m (short m v)) (Tag_val m (short m v)) (s\<lparr>n_src := rest\<rparr>))"
proof -
  let ?w = "short m v" let ?s = "s\<lparr>n_src := rest\<rparr>" and ?W = "Wosize_val m (short m v)" let ?n = "unat ?W" and ?t = "Tag_val m (short m v)"
  have nz: "?W \<noteq> 0" and obj: "?t \<noteq> Object_tag" using assms(1) by (simp_all add: fresh_def block_ok_def)
  have iw: "item_words (leaf_item m ?w) = Suc ?n" using assms(2) nz by (simp add: leaf_item_def leaf_tag_def)
  show ?thesis using fresh_alloc [OF assms(1) refl refl iw, of rest]
  proof (elim disjE exE conjE)
    assume "new_object env (of_nat ?n) ?t ?s = Some (Inl Out_of_memory)"
    then show ?thesis using nz by (simp add: read_block_def bind_call_def read_post_def)
  next
    fix x s' assume a: "new_object env (of_nat ?n) ?t ?s = Some (Inr (x, s'))" "fits (x, ?n)" "allocated A Y D h N R ?s bl ?t (x, ?n) s'"
    let ?M = "hp_mem (n_heap s')" and ?it = "\<lparr>ii_dest = Cell x, ii_arg = ?W, ii_op = OReadItems\<rparr>"
    have w0: "0 < ?W" using nz by (simp add: word_gt_0)
    have rb: "read_block env ?W ?t ?s = Some (bind_res (ReadItems (ne_lim env) (Cell x) ?W s') (\<lambda>s. Inr (Some x, s)))"
      using nz obj a(1) by (simp add: read_block_def Let_def bind_call_def)
    show ?thesis using ReadItems_step [OF w0, of "ne_lim env" "Cell x" s']
    proof (elim disjE exE)
      assume "ReadItems (ne_lim env) (Cell x) ?W s' = Inl Out_of_memory"
      then show ?thesis unfolding rb by (simp add: bind_res_def read_post_def)
    next
      fix l assume l: "ReadItems (ne_lim env) (Cell x) ?W s' = Inr (s'\<lparr>n_limit := l, n_stack := ?it # n_stack s'\<rparr>)"
      have st: "n_stack s' = n_stack s" using a(3) by (simp add: allocated_def)
      have sc: "length (scan_fields m ?w) = ?n" using assms(2) by (simp add: scan_fields_def)
      have "cells (?it # n_stack s) = map snd (new_requests m ?w (x, ?n)) @ cells (n_stack s)"
        by (simp add: cells_def new_requests_def sc shift_cell_def field_cell_def fun_eq_iff)
      then have pend: "requests (s'\<lparr>n_stack := ?it # n_stack s'\<rparr>) (new_requests m ?w (x, ?n) @ work)"
        using assms(1) nz st by (simp add: requests_def fresh_def item_ok_def)
      have cp: "copy_ok m ?M ?w (x, ?n)" using a(3) assms(2) by (simp add: copy_ok_def allocated_def leaf_tag_def)
      have sim: "sim m (caml_atom h) root seen bl ((v, d) # work) (hp_mem (n_heap ?s)) (n_obj ?s)" "Is_block ?w"
        using assms(1) by (simp_all add: fresh_def block_ok_def)
      have "read_post A Y D h N R m root (scan_fields m ?w) (seen @ [?w]) v d work rest
          (Some (Inr (Some (fst (x, ?n)), s'\<lparr>n_limit := l, n_stack := ?it # n_stack s'\<rparr>)))"
        by (rule read_post_new [OF sim(1) a(3) agree_refl cp sim(2) nz pend])
          (use a(3) in \<open>simp add: allocated_def\<close>, simp add: set_memory_def)
      then show ?thesis unfolding rb l by (simp add: bind_res_def)
    qed
  qed
qed

text \<open>The leaves that are read back: a string has fewer than \<open>2 ^ 48\<close> bytes and an array of doubles fewer than \<open>2 ^ 32\<close> elements.\<close>

definition leaf_ok :: "mem \<Rightarrow> val \<Rightarrow> bool" where
  "leaf_ok m v \<longleftrightarrow> (Tag_val m v = String_tag \<longrightarrow> unat (caml_string_length m v) < 2 ^ 48) \<and>
     (Tag_val m v = Double_array_tag \<longrightarrow> unat (Wosize_val m v) < 2 ^ 32)"

lemma read_value_new:
  assumes "fresh env A Y D h N R m root seen bl v d work s" "n_src s = enc (leaf_item m (short m v)) @ rest"
    "leaf_ok m (short m v)"
  shows "read_post A Y D h N R m root (scan_fields m (short m v)) (seen @ [short m v]) v d work rest (read_value env f d s)"
proof -
  let ?w = "short m v" and ?W = "Wosize_val m (short m v)" let ?t = "Tag_val m ?w"
  have b: "block_ok m ?w" using assms(1) by (simp add: fresh_def)
  have W: "unat ?W < 2 ^ 46" by (rule Wosize_less)
  consider (str) "?t = String_tag" | (dbl) "?t = Double_tag" | (dbls) "?t = Double_array_tag" | (blk) "\<not> leaf_tag ?t"
    by (auto simp: leaf_tag_def)
  then show ?thesis
  proof cases
    case str
    let ?bs = "mem_bytes m ?w (caml_string_length m ?w)"
    have l: "length ?bs < 2 ^ 48" using assms(3) str by (simp add: leaf_ok_def)
    have "n_src s = enc (I_str ?bs) @ rest" using assms(2) str by (simp add: leaf_item_def)
    then show ?thesis using read_string_post [OF assms(1) str refl l] read_str [OF _ l] by simp
  next
    case dbl
    then have W1: "?W = 1" using b by (simp add: block_ok_def)
    have "n_src s = enc (I_dbl (mem_bytes m ?w 8)) @ rest" using assms(2) dbl by (simp add: leaf_item_def tag_defs)
    then have "read_value env f d s = read_doubles env (of_nat 1) ?t False (s\<lparr>n_src := mem_bytes m ?w (of_nat 1 * 8) @ rest\<rparr>)"
      using read_dbl dbl by simp
    then show ?thesis using read_doubles_post [OF assms(1), of 1] dbl W1 by (simp add: leaf_item_def tag_defs)
  next
    case dbls
    let ?n = "unat ?W" let ?bs = "mem_bytes m ?w (of_nat ?n * 8)"
    have n: "?n < 2 ^ 32" using assms(3) dbls by (simp add: leaf_ok_def)
    have u: "unat (?W * 8) = ?n * 8" using W by (simp add: unat_word_ariths)
    then have l: "length ?bs div 8 = ?n" "length ?bs = 8 * ?n" by simp_all
    have e: "n_src s = enc (I_dbls ?bs) @ rest" using assms(2) dbls by (simp add: leaf_item_def tag_defs)
    have "\<not> (2 ^ 32 :: u64) \<le> of_nat (length ?bs div 8)" using n unfolding l by (simp add: word_le_nat_alt)
    then have "read_value env f d s = read_doubles env (of_nat ?n) ?t False (s\<lparr>n_src := ?bs @ rest\<rparr>)"
      using read_dbls [OF e, of env f d] dbls unfolding l by simp
    moreover have "item_words (leaf_item m ?w) = Suc ?n" using dbls u by (simp add: leaf_item_def tag_defs)
    ultimately show ?thesis using read_doubles_post [OF assms(1) refl _ _ refl] dbls by simp
  next
    case blk
    have "n_src s = enc (I_blk ?W ?t) @ rest" using assms(2) blk by (simp add: leaf_item_def leaf_tag_def)
    then show ?thesis using read_blk [OF _ W Tag_val_small] read_block_post [OF assms(1) blk] by simp
  qed
qed

lemma read_shared_post:
  assumes "objs N s bl" "w \<in> set seen" "length bl = length seen"
  shows "read_shared (of_nat (length seen - index_of w seen)) s = Some (Inr (Some (fst (bl ! index_of w seen)), s))"
proof -
  let ?i = "index_of w seen"
  have i: "?i < length seen" by (rule index_of_less [OF assms(2)])
  then have "0 < N" using assms(1,3) by (auto simp: objs_def)
  then obtain t where t: "n_counter s = of_nat (length bl)" "n_table s = Some t" "length t = N" "take (length bl) t = map fst bl"
    "\<not> n_compressed s" "N < 2 ^ 61" "length bl \<le> N" using assms(1) by (auto simp: objs_def)
  have "of_nat (length seen) - of_nat (length seen - ?i) = (of_nat ?i :: u64)" using i by (simp add: of_nat_diff)
  moreover have "unat (of_nat ?i :: u64) = ?i" using i assms(3) t(6,7) by (simp add: unat_of_nat)
  moreover have "t ! ?i = fst (bl ! ?i)" using arg_cong [OF t(4), of "\<lambda>xs. xs ! ?i"] i assms(3) by simp
  ultimately show ?thesis using t i assms(3) by (simp add: read_shared_def)
qed

lemma read_value_post:
  assumes "visit_item False m seen v = (it, fs, seen1)" "value_ok m G v" "\<And>w. w \<in> G \<Longrightarrow> block_ok m w \<and> leaf_ok m w" "shared_ok env D" "color_ok env"
    "sim m (caml_atom h) root seen bl ((v, d) # work) (hp_mem (n_heap s)) (n_obj s)" "requests s work"
    "alloc_inv A Y D h N (item_words it + R) s bl" "length seen1 \<le> N" "n_src s = enc it @ rest"
  shows "read_post A Y D h N R m root fs seen1 v d work rest (read_value env f d s)"
proof -
  let ?w = "short m v" and ?atom = "caml_atom h"
  note vi = assms(1) [unfolded visit_item_def Let_def]
  have len: "length bl = length seen" using assms(6) by (simp add: sim_def sized_def)
  have old: "read_post A Y D h N R m root [] seen v d work rest (Some (Inr (Some x, s\<lparr>n_src := rest\<rparr>)))"
    if "item_words it = 0" "img m ?atom seen bl v x" for x
    using that assms(6-8) by (intro read_post_old [where bl = bl]) (simp_all add: requests_def)
  consider (null) "Is_null ?w" | (long) "\<not> Is_null ?w" "Is_long ?w" | (block) "Is_block ?w" by (auto simp: Is_block_cases)
  then show ?thesis
  proof cases
    case null
    then have i: "it = I_null" "fs = []" "seen1 = seen" using vi by auto
    have "img m ?atom seen bl v Val_null" using null by (simp add: img_def Is_block_cases Is_null_def)
    then show ?thesis using old i read_null [of s rest env f d] assms(10) by simp
  next
    case long
    then have i: "it = I_int (Long_val ?w)" "fs = []" "seen1 = seen" using vi by auto
    have "bit ?w 0" using long by (auto simp: Is_long_def Is_null_def Val_null_def and_one_eq bit_0 odd_iff_mod_2_eq_one)
    then have "img m ?atom seen bl v (Val_long (Long_val ?w))" using long by (simp add: img_def Is_block_cases Val_long_Long_val)
    then show ?thesis using old i read_int [of s "Long_val ?w" rest env f d] assms(10) by simp
  next
    case block
    then have nb: "\<not> Is_null ?w" "\<not> Is_long ?w" by (simp_all add: Is_block_cases)
    have G: "?w \<in> G" using assms(2) block by (simp add: value_ok_def)
    show ?thesis
    proof (cases "Wosize_val m ?w = 0")
      case True
      then have i: "it = I_blk 0 (Tag_val m ?w)" "fs = []" "seen1 = seen" using vi nb by auto
      have "caml_atom (n_heap s) = ?atom"
      proof -
        have "n_heap s = h\<lparr>hp_mem := hp_mem (n_heap s)\<rparr>" using assms(8) by (simp add: alloc_inv_def framed_def)
        from arg_cong [OF this, of caml_atom] show ?thesis by simp
      qed
      moreover have "read_value env f d s = read_block env 0 (Tag_val m ?w) (s\<lparr>n_src := rest\<rparr>)"
        using read_blk [OF _ _ Tag_val_small, of s 0 m ?w rest env f d] assms(10) i by simp
      moreover have "img m ?atom seen bl v (?atom (Tag_val m ?w))" using True block by (simp add: img_def)
      ultimately show ?thesis using old i by (simp add: read_block_def)
    next
      case nz: False
      show ?thesis
      proof (cases "?w \<in> set seen")
        case True
        let ?i = "index_of ?w seen"
        have i: "it = I_shared (of_nat (length seen - ?i))" "fs = []" "seen1 = seen" using vi nb nz True by auto
        have "objs N (s\<lparr>n_src := rest\<rparr>) bl" using assms(8) by (simp add: alloc_inv_def objs_def)
        note rs = read_shared_post [OF this True len]
        have "img m ?atom seen bl v (fst (bl ! ?i))"
          using nz block index_of_less [OF True] nth_index_of [OF True] by (auto simp: img_def Let_def)
        then show ?thesis using old i read_shared_item [of s _ rest env f d] rs assms(10) by simp
      next
        case new: False
        then have i: "it = leaf_item m ?w" "fs = scan_fields m ?w" "seen1 = seen @ [?w]" using vi nb nz by auto
        have "fresh env A Y D h N R m root seen bl v d work s"
          using assms(3) [OF G] assms(4-9) nz len i by (simp add: fresh_def)
        then show ?thesis using read_value_new assms(3) [OF G] assms(10) i by simp
      qed
    qed
  qed
qed

subsection \<open>The loop\<close>

lemma trav_length: "trav c m vs seen its seen' \<Longrightarrow> length seen \<le> length seen'"
  by (induction rule: trav.induct) (auto simp: visit_item_def Let_def split: if_splits)

definition copied :: "nat set \<Rightarrow> nat set \<Rightarrow> nat set \<Rightarrow> heap \<Rightarrow> nat \<Rightarrow> mem \<Rightarrow> val \<Rightarrow> val list \<Rightarrow> u8 list \<Rightarrow> intern_state res option \<Rightarrow> bool" where
  "copied A Y D h N m root seen rest q \<longleftrightarrow> q = Some (Inl Out_of_memory) \<or>
     (\<exists>s bl. q = Some (Inr s) \<and> n_src s = rest \<and> sim m (caml_atom h) root seen bl [] (hp_mem (n_heap s)) (n_obj s) \<and> alloc_inv A Y D h N 0 s bl)"

lemma set_cell_wr:
  "set_cell d x s = (set_memory (wr_mem (hp_mem (n_heap s)) d x) s)\<lparr>n_obj := wr_obj (n_obj s) d x\<rparr>"
  by (cases s) (simp add: set_cell_def wr_mem_def wr_obj_def set_memory_def split: cell.splits)

lemma wr_agree:
  assumes "sized m seen bl" "(v, d) \<in> obl m root seen bl"
  shows "\<exists>S\<subseteq>spans bl. agree S M (wr_mem M d x)"
proof (cases d)
  case Obj
  then show ?thesis by (auto simp: wr_mem_def)
next
  case (Cell a)
  then obtain k j where k: "k < length seen" "j < snd (bl ! k)" "a = fst (bl ! k) + 8 * of_nat j" "fits (bl ! k)"
    using obl_cell [OF assms(1)] assms(2) by blast
  note f = field_word [OF k(4,2)]
  have "wi a \<in> span (bl ! k)" using f(2) k span_parts(2) by simp
  moreover have "bl ! k \<in> set bl" using k(1) assms(1) by (simp add: sized_def)
  ultimately have "{wi a} \<subseteq> spans bl" by (auto simp: spans_def)
  moreover have "agree {wi a} M (wr_mem M d x)" using f(1) k(3) Cell by (simp add: wr_mem_def agree_store64)
  ultimately show ?thesis by blast
qed

lemma intern_loop_ok:
  assumes "trav False m vs seen its seen'" "shared_ok env D" "color_ok env" "graph_ok m G" "\<And>w. w \<in> G \<Longrightarrow> leaf_ok m w" "length seen' \<le> N"
    "map fst work = vs" "\<forall>w\<in>set vs. value_ok m G w" "sim m (caml_atom h) root seen bl work (hp_mem (n_heap s)) (n_obj s)" "requests s work"
    "alloc_inv A Y D h N (sum_list (map item_words its)) s bl" "n_src s = concat (map enc its) @ rest"
  shows "copied A Y D h N m root seen' rest (intern_loop env f s)"
  using assms(1,6-)
proof (induction arbitrary: s bl work rule: trav.induct)
  case (trav_Nil seen)
  then have "n_stack s = []"
    by (cases "n_stack s") (auto simp: requests_def cells_pop)
  then have "intern_loop env f s = Some (Inr (intern_free_stack s))" by (simp add: intern_loop.simps)
  then show ?case using trav_Nil by (auto simp: copied_def intern_free_stack_def)
next
  case (trav_Cons seen v it fs seen1 vs its seen2)
  obtain d work' where w: "work = (v, d) # work'" "map fst work' = vs" using trav_Cons(5) by (cases work) auto
  obtain x st where st: "n_stack s = x # st" using trav_Cons(8) w by (cases "n_stack s") (auto simp: requests_def cells_def)
  have x: "item_ok x" "\<forall>y\<in>set st. item_ok y" using trav_Cons(8) st by (auto simp: requests_def)
  have d: "ii_dest x = d" "map snd work' = cells (popped x st)" using trav_Cons(8) w st cells_pop [OF x(1), of st] by (auto simp: requests_def)
  let ?s = "s\<lparr>n_stack := popped x st\<rparr>" and ?R = "sum_list (map item_words its)"
  have p: "requests ?s work'" using d(2) popped_ok [OF x] by (simp add: requests_def)
  have blk: "block_ok m w \<and> leaf_ok m w" if "w \<in> G" for w using that assms(4,5) by (simp add: graph_ok_def)
  have vk: "value_ok m G v" using trav_Cons(6) by simp
  have "read_post A Y D h N ?R m root fs seen1 v d work' (concat (map enc its) @ rest) (read_value env f d ?s)"
    by (rule read_value_post [OF trav_Cons(1) vk blk assms(2,3), where bl = bl])
      (use trav_Cons(7,9,10) w(1) p trav_length [OF trav_Cons(2)] trav_Cons(4) in \<open>simp_all\<close>)
  moreover have step: "intern_step env f x st s = bind_call (read_value env f d ?s) (\<lambda>(v, s). Some (Inr (case v of None \<Rightarrow> s | Some v \<Rightarrow> set_cell d v s)))"
    using x(1) d(1) by (simp add: intern_step_def item_ok_def Let_def popped_def)
  ultimately consider (oom) "intern_step env f x st s = Some (Inl Out_of_memory)"
    | (ok) y t bl' new where "intern_step env f x st s = Some (Inr (set_cell d y t))" "n_src t = concat (map enc its) @ rest"
      "alloc_inv A Y D h N ?R t bl'" "requests t (new @ work')" "map fst new = fs"
      "sim m (caml_atom h) root seen1 bl' ((v, d) # new @ work') (hp_mem (n_heap t)) (n_obj t)" "img m (caml_atom h) seen1 bl' v y"
    unfolding read_post_def by (auto simp: bind_call_def)
  then show ?case
  proof cases
    case oom
    then show ?thesis using st by (simp add: intern_loop.simps copied_def)
  next
    case ok
    let ?t = "set_cell d y t"
    have "copied A Y D h N m root seen2 rest (intern_loop env f ?t)"
    proof (rule trav_Cons(3) [where work = "new @ work'" and bl = bl'])
      show "map fst (new @ work') = fs @ vs" using ok(5) w(2) by simp
      have "\<forall>w\<in>set fs. value_ok m G w" using visit_item_cases [OF trav_Cons(1) vk] assms(4) by (auto simp: graph_ok_def)
      then show "\<forall>w\<in>set (fs @ vs). value_ok m G w" using trav_Cons(6) by auto
      show "sim m (caml_atom h) root seen1 bl' (new @ work') (hp_mem (n_heap ?t)) (n_obj ?t)"
        using sim_store [OF ok(6,7)] by (simp add: set_cell_wr)
      show "requests ?t (new @ work')" using ok(4) by (simp add: requests_def set_cell_wr)
      have "sized m seen1 bl'" "(v, d) \<in> obl m root seen1 bl'" using ok(6) by (auto simp: sim_def)
      then obtain S where "S \<subseteq> spans bl'" "agree S (hp_mem (n_heap t)) (wr_mem (hp_mem (n_heap t)) d y)" using wr_agree [of m seen1 bl' v d root "hp_mem (n_heap t)" y] by blast
      then show "alloc_inv A Y D h N ?R ?t bl'" using alloc_inv_set_mem [OF ok(3)] by (simp add: set_cell_wr)
      show "n_src ?t = concat (map enc its) @ rest" using ok(2) by (simp add: set_cell_wr)
    qed (rule trav_Cons(4))
    then show ?thesis using st ok(1) by (simp add: intern_loop.simps [of env f s])
  qed
qed

subsection \<open>The message\<close>

text \<open>The words of the copy of a block, and of all the blocks of a traversal.\<close>

definition block_words :: "mem \<Rightarrow> val \<Rightarrow> nat" where
  "block_words m w = Suc (unat (Wosize_val m w))"

lemma leaf_item_words: "block_ok m w \<Longrightarrow> Wosize_val m w \<noteq> 0 \<Longrightarrow> item_words (leaf_item m w) = block_words m w"
proof -
  assume b: "block_ok m w" "Wosize_val m w \<noteq> 0"
  have "unat (Wosize_val m w * 8) = unat (Wosize_val m w) * 8" using Wosize_less [of m w] by (simp add: unat_word_ariths)
  then show ?thesis using b by (auto simp: leaf_item_def block_words_def block_ok_def)
qed

lemma trav_words:
  assumes "trav c m vs seen its seen'" "graph_ok m G" "\<forall>w\<in>set vs. value_ok m G w"
  shows "sum_list (map (block_words m) seen') = sum_list (map (block_words m) seen) + sum_list (map item_words its)"
  using assms(1,3)
proof (induction rule: trav.induct)
  case (trav_Cons seen v it fs seen1 vs its seen2)
  have v: "value_ok m G v" using trav_Cons(4) by simp
  have "\<forall>w\<in>set fs. value_ok m G w" using visit_item_cases [OF trav_Cons(1) v] assms(2) by (auto simp: graph_ok_def)
  moreover have "sum_list (map (block_words m) seen1) = sum_list (map (block_words m) seen) + item_words it"
    using trav_Cons(1) v assms(2) leaf_item_words
    by (auto simp: visit_item_def Let_def value_ok_def graph_ok_def Is_block_cases split: if_splits)
  moreover have "\<forall>w\<in>set vs. value_ok m G w" using trav_Cons(4) by simp
  ultimately show ?case using trav_Cons(3) by (simp add: ball_Un)
qed simp

lemma words_le:
  assumes "distinct seen" "set seen \<subseteq> G" "finite G"
  shows "sum_list (map (block_words m) seen) \<le> sum (block_words m) G" "length seen \<le> sum_list (map (block_words m) seen)"
proof -
  have "sum_list (map (block_words m) seen) = sum (block_words m) (set seen)" by (rule sum_list_distinct_conv_sum_set [OF assms(1)])
  also have "\<dots> \<le> sum (block_words m) G" using assms(2,3) by (intro sum_mono2) auto
  finally show "sum_list (map (block_words m) seen) \<le> sum (block_words m) G" .
  show "length seen \<le> sum_list (map (block_words m) seen)" by (induction seen) (auto simp: block_words_def)
qed

text \<open>A header announces the size of the data, the number of objects and the number of words.\<close>

definition announces :: "u8 list \<Rightarrow> nat \<Rightarrow> nat \<Rightarrow> nat \<Rightarrow> bool" where
  "announces hdr n cnt wh \<longleftrightarrow> (\<forall>f s rest. \<exists>h. caml_parse_header f (s\<lparr>n_src := hdr @ rest\<rparr>) = Some (Inr (h, s\<lparr>n_src := rest\<rparr>)) \<and>
     mh_header_len h = length hdr \<and> length hdr \<le> 32 \<and> mh_data_len h = of_nat n \<and> mh_num_objects h = of_nat cnt \<and> mh_whsize h = of_nat wh \<and> \<not> mh_compressed h)"

lemma header_lengths: "length (store32_be x) = 4" "length (store64_be x) = 8"
  by (simp_all add: store32_be_def store64_be_def)

lemma small_header_announces:
  assumes "n < 2 ^ 32" "x_counter x = of_nat cnt" "cnt < 2 ^ 32" "x_size_64 x = of_nat wh" "wh < 2 ^ 32"
  shows "announces (small_header x (of_nat n)) n cnt wh"
proof -
  have "ucast (ucast (of_nat k :: u64) :: u32) = (of_nat k :: u64)" if "k < 2 ^ 32" for k
    using that by (intro ucast_ucast_small(3)) (simp add: word_less_nat_alt unat_of_nat)
  then have u: "ucast (ucast (of_nat n :: u64) :: u32) = (of_nat n :: u64)" "ucast (ucast (of_nat cnt :: u64) :: u32) = (of_nat cnt :: u64)"
    "ucast (ucast (of_nat wh :: u64) :: u32) = (of_nat wh :: u64)" using assms by blast+
  have "ucast (ucast Intext_magic_number_small :: u64) = Intext_magic_number_small" by (simp add: Intext_magic_number_small_def)
  then show ?thesis unfolding announces_def small_header_def caml_parse_header_def assms(2,4)
    by (simp add: reading_def header_lengths u del: ucast_id)
qed

lemma big_header_announces:
  assumes "x_counter x = of_nat cnt" "x_size_64 x = of_nat wh"
  shows "announces (big_header x (of_nat n)) n cnt wh"
proof -
  have "ucast (ucast Intext_magic_number_big :: u64) = Intext_magic_number_big" "Intext_magic_number_big \<noteq> Intext_magic_number_small"
    by (simp_all add: Intext_magic_number_big_def Intext_magic_number_small_def)
  then show ?thesis unfolding announces_def big_header_def caml_parse_header_def assms
    by (simp add: reading_def header_lengths)
qed

definition message :: "mem \<Rightarrow> val set \<Rightarrow> val \<Rightarrow> u8 list \<Rightarrow> bool" where
  "message m G v bytes \<longleftrightarrow> (\<exists>hdr its seen. trav False m [v] [] its seen \<and> set seen \<subseteq> G \<and> distinct seen \<and>
     bytes = hdr @ concat (map enc its) \<and> announces hdr (length (concat (map enc its))) (length seen) (sum_list (map item_words its)))"

lemma extern_value_ok:
  assumes "graph_ok m G" "value_ok m G v" "sum (block_words m) G < 2 ^ 45" "x_stack x = []" "\<not> x_user x" "outp x = []"
    "caml_convert_flag_list m flags extern_flag_values 0 = Some fl" "fl AND NO_SHARING = 0" "\<not> xe_zstd env \<or> fl AND COMPRESSED = 0"
  shows "\<exists>r. extern_value env m v flags x = Some r \<and>
    (case r of Inl e \<Rightarrow> e = Out_of_memory \<or> fl AND COMPAT_32 \<noteq> 0 \<and> (\<exists>msg. e = Failure msg)
     | Inr (hdr, s) \<Rightarrow> message m G v (hdr @ outp s))"
proof -
  define fl' where "fl' = (if xe_zstd env \<and> \<not> x_user x then fl else fl AND NOT COMPRESSED)"
  have fl': "fl' AND NO_SHARING = 0" "fl' AND COMPRESSED = 0" "fl' AND COMPAT_32 = fl AND COMPAT_32"
  proof -
    have b: "\<not> bit fl 0" using assms(8) unfolding NO_SHARING_def and_one_eq by (simp add: bit_0 odd_iff_mod_2_eq_one)
    show "fl' AND NO_SHARING = 0" using b by (intro bit_word_eqI) (auto simp: fl'_def NO_SHARING_def bit_simps intro!: gr0I)
    show "fl' AND COMPRESSED = 0" using assms(5,9) by (auto simp: fl'_def and.assoc)
    show "fl' AND COMPAT_32 = fl AND COMPAT_32"
      using assms(9) by (auto simp: fl'_def and.assoc COMPRESSED_def COMPAT_32_def)
  qed
  let ?x = "x\<lparr>x_flags := fl', x_counter := 0, x_size_32 := 0, x_size_64 := 0\<rparr>"
  let ?y = "?x\<lparr>x_table := extern_init_position_table (replicate 256 (0, 0))\<rparr>"
  have flags: "\<not> has_flag ?x NO_SHARING" "\<not> has_flag ?y COMPRESSED" using fl' by (simp_all add: has_flag_def)
  have "positions [] = Map.empty" by (simp add: positions_def fun_eq_iff)
  then have "xinv ?y []" using pos_inv_init [of "replicate 256 (0, 0)"] flags assms(4) by (simp add: xinv_def marks_ok_def has_flag_def)
  then obtain r where r: "extern_loop env m v ?y = Some r" "loop_post False m G ?y [v] [] r"
    using extern_loop_ok [OF assms(1) _ assms(2), of ?y "[]" env] assms(4) flags(2) by (auto simp: flat_def)
  have rec: "extern_rec env m v ?x = Some r" using r(1) flags(1) by (simp add: extern_rec_def)
  have ev: "extern_value env m v flags x = bind_call (extern_rec env m v ?x) (\<lambda>s. Some (extern_write_header env s))"
    unfolding extern_value_def assms(7) fl'_def Let_def by simp
  show ?thesis
  proof (cases r)
    case (Inl e)
    then have "out_error ?y e" using r(2) by (simp add: loop_post_def)
    then show ?thesis using ev rec Inl assms(5) fl'(3) by (auto simp: bind_call_def out_error_def has_flag_def)
  next
    case (Inr s)
    then obtain its seen where t: "trav False m [v] [] its seen" "set seen \<subseteq> G" "distinct seen" "unat (x_counter s) = length seen"
      "progress ?y s (concat (map enc its)) (sum_list (map item_words its))" using r(2) by (auto simp: loop_post_def)
    let ?W = "sum_list (map item_words its)" and ?n = "extern_output_length s"
    have "outp ?y = outp x" by (simp add: outp_def output_blocks_def)
    then have o: "outp s = concat (map enc its)" "x_flags s = fl'" "x_size_64 s = of_nat ?W"
      using t(5) assms(6) by (simp_all add: progress_def)
    have finG: "finite G" using assms(1) by (simp add: graph_ok_def)
    have W: "?W < 2 ^ 45" "length seen \<le> ?W"
      using words_le [OF t(3,2) finG, of m] trav_words [OF t(1) assms(1)] assms(2,3) by simp_all
    have c: "x_counter s = of_nat (length seen)" unfolding t(4) [symmetric] by simp
    have n: "?n = length (concat (map enc its))" unfolding o(1) [symmetric] by (simp add: extern_output_length_def outp_def length_concat)
    have msg: "message m G v (hdr @ outp s)" if "announces hdr ?n (length seen) ?W" for hdr
      unfolding message_def o(1) using t(1-3) that n by auto
    have uW: "unat (of_nat ?W :: u64) = ?W" using W(1) by (simp add: unat_of_nat)
    show ?thesis
    proof (cases "2 ^ 32 \<le> ?n \<or> 2 ^ 32 \<le> x_size_32 s \<or> 2 ^ 32 \<le> x_size_64 s")
      case True
      then show ?thesis using ev rec Inr fl' o(2) msg [OF big_header_announces [OF c o(3)]]
        by (auto simp: bind_call_def extern_write_header_def has_flag_def Let_def)
    next
      case False
      then have "?W < 2 ^ 32" using uW o(3) by (simp add: word_le_nat_alt)
      moreover have "?n < 2 ^ 32" using False by simp
      ultimately have "announces (small_header s (of_nat ?n)) ?n (length seen) ?W"
        using W(2) by (intro small_header_announces c o(3)) simp_all
      from msg [OF this] show ?thesis using ev rec Inr fl' o(2) False
        by (auto simp: bind_call_def extern_write_header_def has_flag_def Let_def)
    qed
  qed
qed

subsection \<open>Reading the message\<close>

text \<open>
  What the unmarshaller requires of its state: it is idle, the minor heap is well-formed and has has_room for a block of maximal size, and
  no block was obtained from the shared heap yet.
\<close>

definition intern_idle :: "intern_state \<Rightarrow> bool" where
  "intern_idle s \<longleftrightarrow> n_stack s = [] \<and> n_dest s = 0 \<and> n_shared s = [] \<and> heap_ok (n_heap s) \<and>
     unat (young_limit (n_heap s)) + 8 * 257 \<le> unat (young_ptr (n_heap s))"

text \<open>
  The words of the minor heap that are not allocated. Blocks \<open>bl\<close> that were obtained between the states \<open>s\<close> and \<open>s'\<close>: they are apart from
  the words \<open>live\<close> that were in use and from the words that can still be allocated; each lies in the part of the minor heap that was free before, or was
  obtained from the shared heap.
\<close>

definition unused :: "heap \<Rightarrow> nat set" where
  "unused h = {wi (young_limit h)..<wi (young_ptr h)}"

definition reserved_blocks :: "nat set \<Rightarrow> intern_state \<Rightarrow> intern_state \<Rightarrow> blk list \<Rightarrow> bool" where
  "reserved_blocks live s s' bl \<longleftrightarrow> heap_ok (n_heap s') \<and> unused (n_heap s') \<subseteq> unused (n_heap s) \<and>
     spans bl \<inter> (live \<union> unused (n_heap s')) = {} \<and>
     (\<forall>q\<in>set bl. span q \<subseteq> unused (n_heap s) \<or> (fst q, of_nat (snd q)) \<in> set (n_shared s'))"

text \<open>
  The unmarshaller, which started in state \<open>s\<close> and ended in state \<open>s'\<close>, made \<open>v'\<close> a copy of the graph of \<open>v\<close>: the blocks \<open>seen\<close> of the
  graph are in bijection with the new blocks \<open>bl\<close>, which are apart from one another; each has the size, tag and contents of the original and its
  fields are the images of the original's. The new blocks are fresh, and nothing else was written.
\<close>

definition is_copy :: "mem \<Rightarrow> val set \<Rightarrow> val \<Rightarrow> nat set \<Rightarrow> intern_state \<Rightarrow> intern_state \<Rightarrow> val \<Rightarrow> bool" where
  "is_copy m G v live s s' v' \<longleftrightarrow> (\<exists>seen bl. distinct seen \<and> set seen \<subseteq> G \<and> length bl = length seen \<and> blocks_ok bl \<and>
     img m (caml_atom (n_heap s)) seen bl v v' \<and>
     (\<forall>i<length seen. copy_ok m (hp_mem (n_heap s')) (seen ! i) (bl ! i) \<and>
        (\<forall>j<length (scan_fields m (seen ! i)).
           img m (caml_atom (n_heap s)) seen bl (scan_fields m (seen ! i) ! j) (Field (hp_mem (n_heap s')) (fst (bl ! i)) (of_nat j)))) \<and>
     agree (spans bl) (hp_mem (n_heap s)) (hp_mem (n_heap s')) \<and> reserved_blocks live s s' bl)"

lemma sim_copy:
  assumes "sim m (caml_atom (n_heap s)) v seen bl [] (hp_mem (n_heap s')) obj" "distinct seen" "set seen \<subseteq> G"
    "agree (spans bl) (hp_mem (n_heap s)) (hp_mem (n_heap s'))" "reserved_blocks live s s' bl"
  shows "is_copy m G v live s s' obj"
proof -
  let ?M = "hp_mem (n_heap s')" and ?atom = "caml_atom (n_heap s)"
  have ob: "img m ?atom seen bl x (rd ?M obj c)" if "(x, c) \<in> obl m v seen bl" for x c using assms(1) that by (auto simp: sim_def)
  have "img m ?atom seen bl v obj" using ob [OF obl_root] by (simp add: rd_def)
  moreover have "img m ?atom seen bl (scan_fields m (seen ! i) ! j) (Field ?M (fst (bl ! i)) (of_nat j))"
    if "i < length seen" "j < length (scan_fields m (seen ! i))" for i j
    using ob [OF obl_field [OF that]] by (simp add: rd_def field_cell_def Field_def)
  moreover have "length bl = length seen" "blocks_ok bl" "\<forall>i<length seen. copy_ok m ?M (seen ! i) (bl ! i)"
    using assms(1) by (simp_all add: sim_def sized_def)
  ultimately show ?thesis using assms(2-5) unfolding is_copy_def by blast
qed

definition storage_ok :: "nat set \<Rightarrow> nat \<Rightarrow> nat \<Rightarrow> intern_state \<Rightarrow> intern_state res option \<Rightarrow> bool" where
  "storage_ok D N W s q \<longleftrightarrow> q = Some (Inl Out_of_memory) \<or>
     (\<exists>s' A h. q = Some (Inr s') \<and> alloc_inv A (unused (n_heap s) - unused h) D h N W s' [] \<and> heap_ok h \<and> unused h \<subseteq> unused (n_heap s) \<and>
        hp_mem h = hp_mem (n_heap s) \<and> caml_atom h = caml_atom (n_heap s) \<and>
        n_src s' = n_src s \<and> n_stack s' = n_stack s \<and> (N = 0 \<longrightarrow> A = {}))"

definition alloc_table :: "nat \<Rightarrow> nat \<Rightarrow> intern_state \<Rightarrow> intern_state res option" where
  "alloc_table lim N s =
     Some (if 0 < (of_nat N :: u64)
           then if lim < unat (of_nat N * 8 :: u64) then Inl Out_of_memory
                else Inr (s\<lparr>n_counter := 0, n_table := Some (replicate (unat (of_nat N * 8 :: u64) div 8) 0)\<rparr>)
           else Inr (s\<lparr>n_counter := 0\<rparr>))"

lemma storage_table:
  assumes "has_room (unused (n_heap s0) - unused h) D W s []" "framed A h s []" "\<not> n_compressed s" "0 < N" "N < 2 ^ 61"
    "heap_ok h" "unused h \<subseteq> unused (n_heap s0)" "hp_mem h = hp_mem (n_heap s0)" "caml_atom h = caml_atom (n_heap s0)" "n_src s = n_src s0" "n_stack s = n_stack s0"
  shows "storage_ok D N W s0 (alloc_table lim N s)"
proof -
  have "unat (of_nat N * 8 :: u64) = N * 8" using assms(5) by (simp add: unat_word_ariths unat_of_nat)
  then have u: "unat (of_nat N * 8 :: u64) div 8 = N" by simp
  have n: "0 < (of_nat N :: u64)" using assms(4,5) by (simp add: word_less_nat_alt unat_of_nat)
  let ?s = "s\<lparr>n_counter := 0, n_table := Some (replicate N 0)\<rparr>"
  let ?Y = "unused (n_heap s0) - unused h"
  have "has_room ?Y D W ?s []" by (rule room_cong [OF _ _ assms(1)]) simp_all
  moreover have "framed A h ?s []" using assms(2) by (simp add: framed_def)
  moreover have "objs N ?s []" using assms(3,5) by (simp add: objs_def)
  ultimately have "alloc_inv A ?Y D h N W ?s []" by (simp add: alloc_inv_def)
  then show ?thesis using assms(4,6-11) n unfolding storage_ok_def alloc_table_def u by auto
qed

lemma alloc_storage_ok:
  assumes "intern_idle s" "\<not> n_compressed s" "N \<le> W" "W < 2 ^ 45" "N = 0 \<longrightarrow> W = 0"
  shows "storage_ok D N W s (intern_alloc_storage env (of_nat W) (of_nat N) s)"
proof (cases "N = 0")
  case True
  then have "W = 0" using assms(5) by simp
  then have "alloc_inv {} {} D (n_heap s) N W s []"
    using assms(1,2) True by (simp add: alloc_inv_def has_room_def framed_def objs_def intern_idle_def spans_def)
  moreover have "heap_ok (n_heap s)" using assms(1) by (simp add: intern_idle_def)
  ultimately show ?thesis using \<open>W = 0\<close> unfolding storage_ok_def
    by (intro disjI2 exI [of _ s] exI [of _ "{}"] exI [of _ "n_heap s"]) (simp add: intern_alloc_storage_def)
next
  case False
  have N: "0 < N" "N < 2 ^ 61" using False assms(3,4) by simp_all
  have uW: "unat (of_nat W :: u64) = W" using assms(4) by (simp add: unat_of_nat)
  have W0: "(of_nat W :: u64) \<noteq> 0" using uW False assms(3) by auto
  have u1: "unat (of_nat W - 1 :: u64) = W - 1" using unat_minus_one [OF W0] uW by simp
  have idle: "n_dest s = 0" "n_shared s = []" "heap_ok (n_heap s)" "unat (young_limit (n_heap s)) + 8 * 257 \<le> unat (young_ptr (n_heap s))"
    using assms(1) by (simp_all add: intern_idle_def)
  show ?thesis
  proof (cases "of_nat W - 1 \<le> Max_young_wosize \<and> (of_nat W - 1 :: u64) \<noteq> 0")
    case True
    then have le: "of_nat W - 1 \<le> Max_young_wosize" and W: "W \<le> 257" using u1 by (auto simp: Max_young_wosize_def word_le_nat_alt)
    have "Alloc_small (n_heap s) (of_nat W - 1) String_tag \<noteq> None"
      unfolding Alloc_small_def by (rule Alloc_small_fits [OF idle(3) le]) (use idle(4) W u1 in simp)
    then obtain h1 v where a: "Alloc_small_with_reserved (n_heap s) (of_nat W - 1) String_tag 0 = Some (h1, v)" by (auto simp: Alloc_small_def)
    note p = Alloc_small_props [OF idle(3) le a]
    let ?s = "s\<lparr>n_heap := h1, n_dest := v - 8\<rparr>" and ?h = "h1\<lparr>hp_mem := hp_mem (n_heap s)\<rparr>"
    have yb: "unat v + 8 * (W - 1) = unat (young_ptr (n_heap s))" "8 \<le> unat v" "8 dvd unat v" using p(1) u1 by (simp_all add: young_block_def)
    have hk: "8 dvd unat (v - 8)" "4096 \<le> unat (v - 8)" using p(2,4) by (auto simp: heap_ok_def)
    have uv: "unat (v - 8) = unat v - 8" using yb(2) by (subst unat_sub) (simp_all add: word_le_nat_alt)
    have m1: "hp_mem h1 = store64 (hp_mem (n_heap s)) (v - 8) (Make_header_with_reserved (of_nat W - 1) String_tag 0 0)"
      using a p(4) by (auto simp: Alloc_small_with_reserved_def Let_def split: if_splits)
    have top: "unat (v - 8) + 8 * W = unat (young_ptr (n_heap s))" using yb uv False assms(3) by simp
    then have lt: "unat (v - 8) + 8 * W < 2 ^ 64" using unat64_less [of "young_ptr (n_heap s)"] by simp
    have "wi (young_ptr (n_heap s)) = wi (v - 8) + W" using top hk(1) by (auto simp: wi_def elim!: dvdE)
    moreover have "wi (young_limit ?h) \<le> wi (v - 8)" using p(2,4) by (auto simp: heap_ok_def wi_def intro: div_le_mono)
    moreover have "young_limit ?h = young_limit (n_heap s)" "young_ptr ?h = v - 8" using p(4,7) by simp_all
    ultimately have un: "unused ?h \<subseteq> unused (n_heap s)" "{wi (v - 8)..<wi (v - 8) + W} \<subseteq> unused (n_heap s) - unused ?h"
      by (auto simp: unused_def)
    have hk1: "heap_ok ?h" using p(2) by (simp add: heap_ok_def)
    have "has_room (unused (n_heap s) - unused ?h) D W ?s []" using hk lt un(2) unfolding has_room_def by (auto simp: spans_def)
    moreover have nz: "v - 8 \<noteq> 0" using hk(2) by auto
    moreover have "framed {wi (v - 8)} ?h ?s []" unfolding framed_def using nz hk(1) by (simp add: m1 spans_def agree_store64)
    ultimately have "storage_ok D N W s (alloc_table (ne_lim env) N ?s)"
      using assms(2) N p(6) un(1) hk1 by (intro storage_table [where h = ?h]) simp_all
    moreover have "intern_alloc_storage env (of_nat W) (of_nat N) s = alloc_table (ne_lim env) N ?s"
      using W0 True a by (simp add: intern_alloc_storage_def alloc_table_def Let_def bind_call_def Alloc_small_def)
    ultimately show ?thesis by simp
  next
    case big: False
    have "storage_ok D N W s (alloc_table (ne_lim env) N s)"
      by (rule storage_table [OF _ _ assms(2) N, where h = "n_heap s" and A = "{}"]) (use idle in \<open>simp_all add: has_room_def framed_def spans_def\<close>)
    moreover have "intern_alloc_storage env (of_nat W) (of_nat N) s = alloc_table (ne_lim env) N s"
      unfolding intern_alloc_storage_def alloc_table_def Let_def using W0 big by (auto simp: bind_call_def)
    ultimately show ?thesis by simp
  qed
qed

lemma intern_rec_ok:
  assumes "trav False m [v] [] its seen" "graph_ok m G" "value_ok m G v" "\<And>w. w \<in> G \<Longrightarrow> leaf_ok m w" "shared_ok env D" "color_ok env"
    "alloc_inv A Y D h (length seen) (sum_list (map item_words its)) s []" "n_src s = concat (map enc its)" "n_stack s = []"
  shows "copied A Y D h (length seen) m v seen [] (intern_rec env f s)"
proof -
  let ?it = "\<lparr>ii_dest = Obj, ii_arg = 1, ii_op = OReadItems\<rparr>"
  have loop: "copied A Y D h (length seen) m v seen [] (intern_loop env f (s\<lparr>n_limit := l, n_stack := ?it # n_stack s\<rparr>))" for l
  proof (rule intern_loop_ok [OF assms(1,5,6,2,4), where work = "[(v, Obj)]"])
    show "sim m (caml_atom h) v [] [] [(v, Obj)] (hp_mem (n_heap (s\<lparr>n_limit := l, n_stack := ?it # n_stack s\<rparr>)))
        (n_obj (s\<lparr>n_limit := l, n_stack := ?it # n_stack s\<rparr>))"
      by (simp add: sim_def sized_def blocks_ok_def obl_def)
    show "requests (s\<lparr>n_limit := l, n_stack := ?it # n_stack s\<rparr>) [(v, Obj)]"
      using assms(9) by (simp add: requests_def cells_def item_ok_def shift_cell_def)
  qed (use assms(3,7,8) in simp_all)
  have pos: "(0 :: u64) < 1" by simp
  show ?thesis using ReadItems_step [OF pos, of "ne_lim env" Obj s]
  proof (elim disjE exE)
    assume "ReadItems (ne_lim env) Obj 1 s = Inl Out_of_memory"
    then show ?thesis by (simp add: intern_rec_def bind_call_def copied_def)
  next
    fix l assume "ReadItems (ne_lim env) Obj 1 s = Inr (s\<lparr>n_limit := l, n_stack := ?it # n_stack s\<rparr>)"
    then show ?thesis using loop [of l] by (simp add: intern_rec_def bind_call_def)
  qed
qed

text \<open>The blocks that a loop has made are fresh.\<close>

lemma reserved_end:
  assumes "alloc_inv A (unused (n_heap s) - unused h) (live \<union> unused (n_heap s)) h N 0 t bl" "heap_ok h" "unused h \<subseteq> unused (n_heap s)"
    "live \<inter> unused (n_heap s) = {}"
  shows "reserved_blocks live s (snd (intern_end t)) bl"
proof -
  have f: "n_heap t = h\<lparr>hp_mem := hp_mem (n_heap t)\<rparr>" and r: "has_room (unused (n_heap s) - unused h) (live \<union> unused (n_heap s)) 0 t bl"
    using assms(1) by (simp_all add: alloc_inv_def framed_def)
  have h: "unused (n_heap t) = unused h" "heap_ok (n_heap t) = heap_ok h" by (subst f, simp add: unused_def heap_ok_def)+
  show ?thesis
  proof (cases "n_dest t = 0")
    case True
    then show ?thesis using r assms(2,3) by (auto simp: reserved_blocks_def intern_end_def h has_room_def)
  next
    case False
    then have "spans bl \<subseteq> unused (n_heap s) - unused h" using r by (simp add: has_room_def)
    then show ?thesis using assms(2-4) by (auto simp: reserved_blocks_def intern_end_def h spans_def)
  qed
qed

lemma input_message:
  assumes "message m G v bytes" "graph_ok m G" "value_ok m G v" "\<forall>w\<in>G. leaf_ok m w" "sum (block_words m) G < 2 ^ 45"
    "shared_ok env (live \<union> unused (n_heap s))" "color_ok env" "intern_idle s" "live \<inter> unused (n_heap s) = {}" "length bytes < 2 ^ 64"
  shows "caml_input_value_from_block env bytes (of_nat (length bytes)) s = Some (Inl Out_of_memory) \<or>
    (\<exists>v' s'. caml_input_value_from_block env bytes (of_nat (length bytes)) s = Some (Inr (v', s')) \<and>
       is_copy m G v live s s' v')"
proof -
  obtain hdr its seen where msg: "trav False m [v] [] its seen" "set seen \<subseteq> G" "distinct seen" "bytes = hdr @ concat (map enc its)"
    "announces hdr (length (concat (map enc its))) (length seen) (sum_list (map item_words its))" using assms(1) by (auto simp: message_def)
  let ?data = "concat (map enc its)" and ?W = "sum_list (map item_words its)"
  obtain h where h: "caml_parse_header ''input_value_from_block'' (s\<lparr>n_src := hdr @ ?data\<rparr>) = Some (Inr (h, s\<lparr>n_src := ?data\<rparr>))"
    "mh_header_len h = length hdr" "mh_data_len h = of_nat (length ?data)" "mh_num_objects h = of_nat (length seen)"
    "mh_whsize h = of_nat ?W" "\<not> mh_compressed h" using msg(5) unfolding announces_def by blast
  have len: "of_nat (mh_header_len h) + mh_data_len h = (of_nat (length bytes) :: u64)" by (simp add: h msg(4))
  have finG: "finite G" using assms(2) by (simp add: graph_ok_def)
  have W: "?W = sum_list (map (block_words m) seen)" using trav_words [OF msg(1) assms(2)] assms(3) by simp
  have Wb: "length seen \<le> ?W" "?W < 2 ^ 45" "length seen = 0 \<longrightarrow> ?W = 0"
    using words_le [OF msg(3,2) finG, of m] assms(5) by (simp_all add: W)
  let ?s = "s\<lparr>n_src := ?data, n_compressed := False\<rparr>"
  have idle: "intern_idle ?s" "\<not> n_compressed ?s" using assms(8) by (simp_all add: intern_idle_def)
  have e: "caml_input_value_from_block env bytes (of_nat (length bytes)) s =
    bind_call (intern_alloc_storage env (of_nat ?W) (of_nat (length seen)) ?s) (\<lambda>s.
    bind_call (intern_rec env ''input_val_from_block'' s) (\<lambda>s. Some (Inr (intern_end s))))"
    using h(1,4-6) len unfolding caml_input_value_from_block_def intern_init_def msg(4)
    by (simp add: bind_call_def input_val_from_block_def intern_decompress_input_def)
  let ?D = "live \<union> unused (n_heap s)"
  show ?thesis using alloc_storage_ok [OF idle Wb, of ?D env] unfolding storage_ok_def
  proof (elim disjE exE conjE)
    assume "intern_alloc_storage env (of_nat ?W) (of_nat (length seen)) ?s = Some (Inl Out_of_memory)"
    then show ?thesis unfolding e by (simp add: bind_call_def)
  next
    fix s' A h0 assume a: "intern_alloc_storage env (of_nat ?W) (of_nat (length seen)) ?s = Some (Inr s')"
      "alloc_inv A (unused (n_heap ?s) - unused h0) ?D h0 (length seen) ?W s' []" "hp_mem h0 = hp_mem (n_heap ?s)" "caml_atom h0 = caml_atom (n_heap ?s)"
      "n_src s' = n_src ?s" "n_stack s' = n_stack ?s" "length seen = 0 \<longrightarrow> A = {}"
      "heap_ok h0" "unused h0 \<subseteq> unused (n_heap ?s)"
    let ?Y = "unused (n_heap s) - unused h0"
    have "copied A ?Y ?D h0 (length seen) m v seen [] (intern_rec env ''input_val_from_block'' s')"
      using a(5,6) idle(1) by (intro intern_rec_ok [OF msg(1) assms(2,3) bspec [OF assms(4)] assms(6,7)]) (use a(2) in \<open>simp_all add: intern_idle_def\<close>)
    then show ?thesis unfolding copied_def
    proof (elim disjE exE conjE)
      assume "intern_rec env ''input_val_from_block'' s' = Some (Inl Out_of_memory)"
      then show ?thesis unfolding e a(1) by (simp add: bind_call_def)
    next
      fix t bl assume t: "intern_rec env ''input_val_from_block'' s' = Some (Inr t)"
        "sim m (caml_atom h0) v seen bl [] (hp_mem (n_heap t)) (n_obj t)" "alloc_inv A ?Y ?D h0 (length seen) 0 t bl"
      have "length bl = length seen" using t(2) by (simp add: sim_def sized_def)
      then have "A \<union> spans bl = spans bl" "agree (A \<union> spans bl) (hp_mem h0) (hp_mem (n_heap t))"
        using t(3) a(7) by (auto simp: alloc_inv_def framed_def)
      then have "agree (spans bl) (hp_mem (n_heap s)) (hp_mem (n_heap t))" using a(3) by simp
      moreover have "reserved_blocks live s (snd (intern_end t)) bl" using reserved_end [OF t(3) a(8) _ assms(9)] a(9) by simp
      moreover have "hp_mem (n_heap (snd (intern_end t))) = hp_mem (n_heap t)" by (simp add: intern_end_def)
      ultimately have "is_copy m G v live s (snd (intern_end t)) (n_obj t)"
        using t(2) a(4) by (intro sim_copy [OF _ msg(3,2)]) simp_all
      then show ?thesis unfolding e a(1) by (simp add: bind_call_def t(1) intern_end_def)
    qed
  qed
qed

subsection \<open>A cyclic example\<close>

text \<open>A block whose second field points to the block itself.\<close>

definition ring_mem :: mem where
  "ring_mem = store64 (store64 (store64 (\<lambda>_. 0) 0xFF8 (Make_header 2 0 0)) 0x1000 (Val_long 5)) 0x1008 0x1000"

definition idle_xstate :: extern_state where
  "idle_xstate = \<lparr>x_flags = 0, x_counter = 0, x_size_32 = 0, x_size_64 = 0, x_stack = [], x_limit = EXTERN_STACK_INIT_SIZE,
     x_table = extern_init_position_table [], x_user = False, x_done = [], x_data = [], x_room = 0\<rparr>"

definition plain_xenv :: extern_env where
  "plain_xenv = \<lparr>xe_lim = 2 ^ 40, xe_ops = (\<lambda>_. undefined), xe_find_code = (\<lambda>_. None), xe_zstd = False, xe_compress = (\<lambda>_. None)\<rparr>"

definition plain_nenv :: intern_env where
  "plain_nenv = \<lparr>ne_lim = 2 ^ 40, ne_shared_alloc = (\<lambda>_ _ _. None), ne_status = 0, ne_find_custom = (\<lambda>_. None), ne_find_digest = (\<lambda>_. None),
     ne_placeholder = None, ne_decompress = None\<rparr>"

definition idle_nstate :: intern_state where
  "idle_nstate = \<lparr>n_src = [], n_counter = 0, n_table = None, n_stack = [], n_limit = INTERN_STACK_INIT_SIZE, n_dest = 0, n_compressed = False,
     n_obj = 1, n_heap = sample_heap, n_shared = [], n_oo_local = 0, n_oo_next = 0\<rparr>"

definition ring_message :: "u8 list" where
  "ring_message = [0x84, 0x95, 0xA6, 0xBE, 0, 0, 0, 4, 0, 0, 0, 1, 0, 0, 0, 3, 0, 0, 0, 3, 0xA0, 0x45, 4, 1]"

lemma load64_store64_apart: "8 dvd unat a \<Longrightarrow> 8 dvd unat b \<Longrightarrow> a \<noteq> b \<Longrightarrow> load64 (store64 m a x) b = load64 m b"
  using load64_agree [OF agree_store64 [of a "{wi a}"]] aligned_inject [of b a] by auto

lemma ring_load:
  "load64 ring_mem 0xFF8 = Make_header 2 0 0" "load64 ring_mem 0x1000 = Val_long 5" "load64 ring_mem 0x1008 = 0x1000"
  by (simp_all add: ring_mem_def load64_store64_apart load64_store64)

lemma ring_block:
  "Hd_val ring_mem 0x1000 = Make_header 2 0 0" "Wosize_val ring_mem 0x1000 = 2" "Tag_val ring_mem 0x1000 = 0" "Reserved_val ring_mem 0x1000 = 0"
  "Field ring_mem 0x1000 0 = Val_long 5" "Field ring_mem 0x1000 1 = 0x1000"
proof -
  show hd: "Hd_val ring_mem 0x1000 = Make_header 2 0 0" by (simp add: Hd_val_def ring_load)
  have hp: "header_parts_ok 2 0 0 0" by (simp add: header_parts_ok_def Max_wosize_def mask_eq_exp_minus_1)
  show "Wosize_val ring_mem 0x1000 = 2" "Tag_val ring_mem 0x1000 = 0" "Reserved_val ring_mem 0x1000 = 0"
    unfolding Wosize_val_def Reserved_val_def Tag_val_Hd_val [symmetric] hd Make_header_def
    by (simp_all only: Wosize_hd_Make_header [OF hp] Tag_hd_Make_header [OF hp] Reserved_hd_Make_header [OF hp])
  show "Field ring_mem 0x1000 0 = Val_long 5" "Field ring_mem 0x1000 1 = 0x1000" by (simp_all add: Field_def ring_load)
qed

lemma ring_long: "Val_long 5 = 11" "Is_block 0x1000" "\<not> Is_block 11" "Is_long 11" "\<not> Is_null 11" "\<not> Is_long 0x1000" "\<not> Is_null 0x1000"
  by (simp_all add: Val_long_def Is_block_def Is_long_def Is_null_def Val_null_def)

lemma ring_scan: "scan_fields ring_mem 0x1000 = [Val_long 5, 0x1000]"
proof -
  have "[0..<unat (Wosize_val ring_mem 0x1000)] = [0, 1]" by (simp add: ring_block upt_rec)
  then show ?thesis by (simp add: scan_fields_def ring_block leaf_tag_def tag_defs)
qed

lemma ring_short: "short ring_mem 0x1000 = 0x1000" "short ring_mem 11 = 11"
  by (simp_all add: short_def ring_block ring_long tag_defs)

lemma ring_ok: "graph_ok ring_mem {0x1000}" "value_ok ring_mem {0x1000} 0x1000" "\<forall>w\<in>{0x1000}. leaf_ok ring_mem w"
  by (simp_all add: graph_ok_def value_ok_def block_ok_def leaf_ok_def ring_scan ring_short ring_block ring_long tag_defs)

lemma ring_idle: "intern_idle idle_nstate" "- unused sample_heap \<inter> unused (n_heap idle_nstate) = {}"
    "shared_ok plain_nenv (- unused sample_heap \<union> unused (n_heap idle_nstate))" "color_ok plain_nenv"
  by (simp_all add: shared_ok_def color_ok_def plain_nenv_def intern_idle_def idle_nstate_def sample_heap_ok)
     (simp add: sample_heap_def)

lemma extern_lookup_ok: "pos_inv t c f \<Longrightarrow> \<exists>h. extern_lookup_position t obj = Some (h, f obj)"
  using pos_inv_lookup by blast

lemma ring_message: "caml_output_value_to_malloc plain_xenv ring_mem 0x1000 (Val_int 0) idle_xstate = Some (Inr ring_message)"
proof -
  define t where "t = extern_init_position_table (replicate 256 (0, 0))"
  have t: "pos_inv t 0 Map.empty" unfolding t_def by (rule pos_inv_init) simp
  then obtain h where h: "extern_lookup_position t 0x1000 = Some (h, None)" using extern_lookup_ok by fastforce
  define t' where "t' = occupy t h (0x1000, 0)"
  have thr: "tab_threshold t' = 170"
    by (simp add: t'_def occupy_def t_def extern_init_position_table_def Threshold_def POS_TABLE_INIT_SIZE_def POS_TABLE_INIT_SIZE_LOG2_def)
  then have rec: "record_location (2 ^ 40) t 0 0x1000 h 0 = Some (Inr (t', 1))"
    by (simp add: record_location_def t'_def Let_def word_le_nat_alt)
  then have "pos_inv t' 1 [0x1000 \<mapsto> 0]" using pos_inv_record [OF t h, of "2 ^ 40" 0] by auto
  from extern_lookup_ok [where obj = "0x1000", OF this] obtain h' where h': "extern_lookup_position t' 0x1000 = Some (h', Some 0)" by auto
  let ?s = "\<lparr>x_flags = 0, x_counter = 0, x_size_32 = 0, x_size_64 = 0, x_stack = [], x_limit = EXTERN_STACK_INIT_SIZE,
     x_table = t, x_user = False, x_done = [], x_data = [], x_room = SIZE_EXTERN_OUTPUT_BLOCK\<rparr>"
  let ?r = "\<lparr>x_flags = 0, x_counter = 1, x_size_32 = 3, x_size_64 = 3, x_stack = [], x_limit = EXTERN_STACK_INIT_SIZE,
     x_table = t', x_user = False, x_done = [], x_data = [0xA0, 0x45, 4, 1], x_room = SIZE_EXTERN_OUTPUT_BLOCK - 4\<rparr>"
  let ?a = "?s\<lparr>x_counter := 1, x_size_32 := 3, x_size_64 := 3, x_table := t', x_data := [0xA0], x_room := SIZE_EXTERN_OUTPUT_BLOCK - 1\<rparr>"
  note w = plain_xenv_def bind_res_def bind_call_def put_def has_flag_def code_defs SIZE_EXTERN_OUTPUT_BLOCK_def
  have hd: "Tag_hd (Make_header 2 0 0) = 0" "Wosize_hd (Make_header 2 0 0) = 2" "Reserved_hd (Make_header 2 0 0) = 0"
    using ring_block(1-4) by (simp_all add: Wosize_val_def Reserved_val_def flip: Tag_val_Hd_val)
  have fw: "\<not> Is_mixed_block_reserved 0" by (simp add: Is_mixed_block_reserved_def)
  have v1: "extern_visit plain_xenv ring_mem 0x1000 ?s = Some (Inr (Continue 11 (?a\<lparr>x_stack := [\<lparr>ei_v = 0x1008, ei_count = 1\<rparr>]\<rparr>)))"
    using h rec unfolding extern_visit_def extern_object_def Let_def ring_block(1) hd
    by (simp add: w fw ring_long ring_block tag_defs extern_header_def writebyte_def extern_record_location_def extern_record_location_with_data_def
        add_sizes_def continue_fields_def push_item_def EXTERN_STACK_INIT_SIZE_def)
  have lv: "Long_val 11 = 5" using Long_val_Val_long_range [of 5] by (simp add: ring_long Min_long_def Max_long_def)
  have v2: "extern_visit plain_xenv ring_mem 11 (?a\<lparr>x_stack := [\<lparr>ei_v = 0x1008, ei_count = 1\<rparr>]\<rparr>) =
      Some (Inr (Next_item (?a\<lparr>x_stack := [\<lparr>ei_v = 0x1008, ei_count = 1\<rparr>], x_data := [0xA0, 0x45], x_room := SIZE_EXTERN_OUTPUT_BLOCK - 2\<rparr>)))"
    by (simp add: extern_visit_def ring_long lv extern_int_def w writebyte_def word_sle_eq word_sless_alt)
  have v3: "extern_visit plain_xenv ring_mem 0x1000 (?a\<lparr>x_data := [0xA0, 0x45], x_room := SIZE_EXTERN_OUTPUT_BLOCK - 2\<rparr>) = Some (Inr (Next_item ?r))"
    using h' unfolding extern_visit_def Let_def ring_block(1) hd
    by (simp add: w fw ring_long tag_defs extern_shared_reference_def writecode8_def)
  have "extern_loop plain_xenv ring_mem 0x1000 (?a\<lparr>x_data := [0xA0, 0x45], x_room := SIZE_EXTERN_OUTPUT_BLOCK - 2\<rparr>) = Some (Inr (extern_free_stack ?r))"
    by (subst extern_loop.simps) (use v3 in simp)
  then have "extern_loop plain_xenv ring_mem 11 (?a\<lparr>x_stack := [\<lparr>ei_v = 0x1008, ei_count = 1\<rparr>]\<rparr>) = Some (Inr (extern_free_stack ?r))"
    by (subst extern_loop.simps) (use v2 in \<open>simp add: ring_load\<close>)
  then have loop: "extern_loop plain_xenv ring_mem 0x1000 ?s = Some (Inr (extern_free_stack ?r))"
    by (subst extern_loop.simps) (use v1 in simp)
  have fl: "caml_convert_flag_list ring_mem (Val_int 0) extern_flag_values 0 = Some 0" by (simp add: caml_convert_flag_list.simps)
  have ev: "extern_value plain_xenv ring_mem 0x1000 (Val_int 0) (idle_xstate\<lparr>x_room := SIZE_EXTERN_OUTPUT_BLOCK\<rparr>) =
      Some (Inr (small_header ?r 4, extern_free_stack ?r))"
    using loop unfolding extern_value_def fl
    by (simp add: plain_xenv_def idle_xstate_def extern_rec_def has_flag_def t_def [symmetric] bind_call_def extern_write_header_def
        extern_output_length_def output_blocks_def extern_free_stack_def small_header_def word_le_nat_alt Let_def)
  have sh: "small_header ?r 4 @ [0xA0, 0x45, 4, 1] = ring_message"
    by (simp add: small_header_def store32_be_def ring_message_def Intext_magic_number_small_def)
  have i: "init_extern_output (xe_lim plain_xenv) idle_xstate = Inr (idle_xstate\<lparr>x_room := SIZE_EXTERN_OUTPUT_BLOCK\<rparr>)"
    by (simp add: init_extern_output_def plain_xenv_def idle_xstate_def sizeof_output_block_def)
  have l: "length (small_header ?r 4) = 20" by (simp add: small_header_def header_lengths)
  show ?thesis unfolding caml_output_value_to_malloc_def i bind_call_def option.case sum.case ev sh [symmetric]
    using l by (simp add: extern_output_length_def output_blocks_def extern_free_stack_def plain_xenv_def)
qed

lemma ring_input: "\<exists>v s. caml_input_value_from_block plain_nenv ring_message (of_nat (length ring_message)) idle_nstate = Some (Inr (v, s))"
proof -
  note w = bind_call_def bind_res_def reading_def idle_nstate_def plain_nenv_def
  let ?s = "\<lparr>n_src = [0xA0, 0x45, 4, 1], n_counter = 0, n_table = None, n_stack = [], n_limit = INTERN_STACK_INIT_SIZE, n_dest = 0, n_compressed = False,
     n_obj = 1, n_heap = sample_heap, n_shared = [], n_oo_local = 0, n_oo_next = 0\<rparr>"
  have h: "caml_parse_header f (intern_init ring_message idle_nstate) = Some (Inr (\<lparr>mh_magic = Intext_magic_number_small, mh_header_len = 20, mh_data_len = 4,
      mh_uncompressed_data_len = 4, mh_num_objects = 1, mh_whsize = 3, mh_compressed = False\<rparr>, ?s))" for f
    by (simp add: caml_parse_header_def intern_init_def w ring_message_def Intext_magic_number_small_def)
  obtain hp v where hp: "Alloc_small sample_heap 2 String_tag = Some (hp, v)" "v = 0x1FFF0"
    by (simp add: Alloc_small_def Alloc_small_with_reserved_def sample_heap_def Caml_check_gc_interrupt_def Bsize_wsize_def Whsize_wosize_def Let_def)
  let ?t = "?s\<lparr>n_heap := hp, n_dest := v - 8, n_table := Some [0], n_stack := [\<lparr>ii_dest = Obj, ii_arg = 1, ii_op = OReadItems\<rparr>]\<rparr>"
  have e: "caml_input_value_from_block plain_nenv ring_message (of_nat (length ring_message)) idle_nstate =
     bind_call (intern_loop plain_nenv ''input_val_from_block'' ?t) (\<lambda>s. Some (Inr (intern_end s)))"
    unfolding caml_input_value_from_block_def h input_val_from_block_def
    by (simp add: w ring_message_def intern_decompress_input_def intern_alloc_storage_def hp intern_rec_def ReadItems_def PushItem_def INTERN_STACK_INIT_SIZE_def
       Max_young_wosize_def Let_def)
  have "\<exists>s. intern_loop plain_nenv ''input_val_from_block'' ?t = Some (Inr s)"
    by (simp add: intern_loop.simps intern_step_def read_value_def w read_block_def read_code_def new_object_def intern_alloc_obj_def record_object_def ReadItems_def
       PushItem_def INTERN_STACK_INIT_SIZE_def Let_def code_defs hp read_shared_def set_memory_def set_cell_def next_cell_def tag_defs)
  then show ?thesis unfolding e by (auto simp: bind_call_def intern_end_def)
qed

subsection \<open>Reversed doubles\<close>

lemma reverse_chunks_length: "length (reverse_chunks 8 n bs) = 8 * n" if "length bs = 8 * n"
  using that by (induction n arbitrary: bs) auto

lemma reverse_chunks_nth:
  assumes "i < n" "k < 8" "length bs = 8 * n"
  shows "reverse_chunks 8 n bs ! (8 * i + k) = bs ! (8 * i + (7 - k))"
  using assms
proof (induction n arbitrary: i bs)
  case (Suc n)
  then show ?case by (cases i) (simp_all add: nth_append rev_nth)
qed simp

text \<open>The allocation of an object does not look at the input.\<close>

lemma new_object_src:
  assumes "new_object env k tag s = Some (Inr (y, s1))"
  shows "new_object env k tag (s\<lparr>n_src := q\<rparr>) = Some (Inr (y, s1\<lparr>n_src := q\<rparr>))"
  using assms by (auto simp: new_object_def bind_call_def intern_alloc_obj_def record_object_def set_memory_def Let_def split: if_splits option.splits)

subsection \<open>Properties\<close>

text \<open>
  C1: marshalling a value and unmarshalling the bytes gives a copy of the graph of the value. On every finite graph
  of ordinary blocks, strings, doubles and arrays of doubles, shared or cyclic as it may be, \<open>caml_output_value_to_malloc\<close> terminates, and fails
  only for lack of memory or, with the flag \<open>COMPAT_32\<close>, because of the limits of 32-bit platforms. On the bytes that it returns,
  \<open>caml_input_value_from_block\<close> terminates, and unless there is no memory the result is a copy with the same sizes, tags, contents and sharing, in
  fresh blocks, and no other memory is changed.
\<close>

theorem marshal_roundtrip:
  assumes "graph_ok m G" "value_ok m G v" "\<forall>w\<in>G. leaf_ok m w" "sum (block_words m) G < 2 ^ 45"
    "x_stack x = []" "caml_convert_flag_list m flags extern_flag_values 0 = Some fl" "fl AND NO_SHARING = 0"
    "\<not> xe_zstd xenv \<or> fl AND COMPRESSED = 0" "xe_lim xenv < 2 ^ 64"
    "intern_idle s" "live \<inter> unused (n_heap s) = {}" "shared_ok env (live \<union> unused (n_heap s))" "color_ok env"
  shows "\<exists>r. caml_output_value_to_malloc xenv m v flags x = Some r \<and>
    (case r of
       Inl e \<Rightarrow> e = Out_of_memory \<or> fl AND COMPAT_32 \<noteq> 0 \<and> (\<exists>msg. e = Failure msg)
     | Inr bytes \<Rightarrow> \<exists>q. caml_input_value_from_block env bytes (of_nat (length bytes)) s = Some q \<and>
         (case q of
            Inl e \<Rightarrow> e = Out_of_memory
          | Inr (v', s') \<Rightarrow> is_copy m G v live s s' v'))"
proof (cases "init_extern_output (xe_lim xenv) x")
  case (Inl e)
  then show ?thesis by (auto simp: caml_output_value_to_malloc_def bind_call_def init_extern_output_def split: if_splits)
next
  case (Inr y)
  then have y: "x_stack y = []" "\<not> x_user y" "outp y = []"
    using assms(5) by (auto simp: init_extern_output_def outp_def output_blocks_def split: if_splits)
  obtain r where r: "extern_value xenv m v flags y = Some r"
    "case r of Inl e \<Rightarrow> e = Out_of_memory \<or> fl AND COMPAT_32 \<noteq> 0 \<and> (\<exists>msg. e = Failure msg) | Inr (hdr, t) \<Rightarrow> message m G v (hdr @ outp t)"
    using extern_value_ok [OF assms(1,2,4) y assms(6-8)] by blast
  show ?thesis
  proof (cases r)
    case (Inl e)
    then show ?thesis using r Inr by (simp add: caml_output_value_to_malloc_def bind_call_def)
  next
    case (Inr ht)
    then obtain hdr t where ht: "r = Inr (hdr, t)" by (cases ht) auto
    have n: "extern_output_length t = length (outp t)" by (simp add: extern_output_length_def outp_def length_concat)
    have out: "caml_output_value_to_malloc xenv m v flags x =
      Some (if xe_lim xenv < length (hdr @ outp t) then Inl Out_of_memory else Inr (hdr @ outp t))"
      using r(1) ht \<open>init_extern_output (xe_lim xenv) x = Inr y\<close> n
      by (simp add: caml_output_value_to_malloc_def bind_call_def outp_def)
    have "message m G v (hdr @ outp t)" using r(2) ht by simp
    note i = input_message [OF this assms(1,2,3,4,12,13,10,11)]
    show ?thesis
    proof (cases "xe_lim xenv < length (hdr @ outp t)")
      case False
      then have "length (hdr @ outp t) < 2 ^ 64" using assms(9) by linarith
      from i [OF this] show ?thesis using False unfolding out by auto
    qed (simp add: out)
  qed
qed

theorem marshal_roundtrip_witness:
  "caml_output_value_to_malloc plain_xenv ring_mem 0x1000 (Val_int 0) idle_xstate = Some (Inr ring_message) \<and>
    (\<exists>v' s'. caml_input_value_from_block plain_nenv ring_message (of_nat (length ring_message)) idle_nstate = Some (Inr (v', s')) \<and>
      is_copy ring_mem {0x1000} 0x1000 (- unused sample_heap) idle_nstate s' v')"
proof -
  have fl: "caml_convert_flag_list ring_mem (Val_int 0) extern_flag_values 0 = Some 0" by (simp add: caml_convert_flag_list.simps)
  have sz: "sum (block_words ring_mem) {0x1000} < 2 ^ 45" by (simp add: block_words_def ring_block)
  obtain v' s' where i: "caml_input_value_from_block plain_nenv ring_message (of_nat (length ring_message)) idle_nstate = Some (Inr (v', s'))"
    using ring_input by blast
  have "x_stack idle_xstate = []" "(0 :: u32) AND NO_SHARING = 0" "\<not> xe_zstd plain_xenv \<or> (0 :: u32) AND COMPRESSED = 0" "xe_lim plain_xenv < 2 ^ 64"
    by (simp_all add: idle_xstate_def plain_xenv_def)
  from marshal_roundtrip [OF ring_ok sz this(1) fl this(2-4) ring_idle] show ?thesis by (simp add: ring_message i)
qed

text \<open>
  C7: when the bytes that \<open>extern_double_array\<close> wrote for an array of \<open>n\<close> doubles are read back, and the block of the copy
  was allocated at \<open>y\<close>, exactly these bytes are consumed, and the copy has the bytes of the original if \<open>n < 2 ^ 32\<close>; but if \<open>n\<close> is \<open>2 ^ 32\<close> or more, the
  bytes of each double of the copy are those of the original in reverse order, because \<open>readfloats\<close> does not know the code of these arrays.
\<close>

theorem double_array64_reversed:
  assumes n: "n < 2 ^ 46" and w: "extern_double_array lim m v (of_nat n) x = Inr x'"
    and src: "n_src s = drop (length (outp x)) (outp x') @ rest" and a: "new_object env (of_nat n) Double_array_tag s = Some (Inr (y, s1))"
  shows "\<exists>s'. read_value env f d s = Some (Inr (Some y, s')) \<and> n_src s' = rest \<and>
    (\<forall>i<n. \<forall>k<8. hp_mem (n_heap s') (y + of_nat (8 * i + k)) = m (v + of_nat (8 * i + (if 2 ^ 32 \<le> n then 7 - k else k))))"
proof -
  let ?bs = "mem_bytes m v (of_nat n * 8)" and ?big = "2 ^ 32 \<le> n"
  have u: "unat (of_nat n :: u64) = n" "unat (of_nat n * 8 :: u64) = 8 * n" using n by (simp_all add: unat_word_ariths unat_of_nat)
  have "emits (enc (I_dbls ?bs)) x (extern_double_array lim m v (of_nat n) x)" by (intro emits_doubles) (use n u in simp)
  then have "n_src s = enc (I_dbls ?bs) @ rest" using w src by (simp add: emits_def)
  then have rv: "read_value env f d s = read_doubles env (of_nat n) Double_array_tag ?big (s\<lparr>n_src := ?bs @ rest\<rparr>)"
    using read_dbls [of s ?bs rest env f d] u by (simp add: word_le_nat_alt)
  let ?t = "s1\<lparr>n_src := ?bs @ rest\<rparr>" and ?cs = "if ?big then reverse_chunks 8 n ?bs else ?bs"
  have "new_object env (of_nat n) Double_array_tag (s\<lparr>n_src := ?bs @ rest\<rparr>) = Some (Inr (y, ?t))" using new_object_src [OF a] .
  then have r: "read_value env f d s = Some (Inr (Some y, set_memory (copy_bytes (hp_mem (n_heap s1)) y ?cs) (?t\<lparr>n_src := rest\<rparr>)))"
    unfolding rv by (simp add: read_doubles_def bind_call_def reading_def readblock_def u)
  have "copy_bytes M y ?cs (y + of_nat (8 * i + k)) = m (v + of_nat (8 * i + (if ?big then 7 - k else k)))" if ik: "i < n" "k < 8" for i k M
  proof -
    have lt: "8 * i + k < length ?cs" "8 * i + (if ?big then 7 - k else k) < 8 * n" using ik u by (auto simp: reverse_chunks_length)
    have "?cs ! (8 * i + k) = ?bs ! (8 * i + (if ?big then 7 - k else k))" using reverse_chunks_nth [OF ik] u by simp
    also have "\<dots> = m (v + of_nat (8 * i + (if ?big then 7 - k else k)))" using lt(2) unfolding mem_bytes_def u by simp
    finally have c: "?cs ! (8 * i + k) = m (v + of_nat (8 * i + (if ?big then 7 - k else k)))" .
    have "length ?cs \<le> 2 ^ 62" "8 * i + k < 2 ^ 62" using n ik u by (auto simp: reverse_chunks_length)
    from copy_bytes_at [OF this(2,1), of M y] show ?thesis unfolding if_P [OF lt(1)] c .
  qed
  then show ?thesis unfolding r by simp
qed

text \<open>An array of \<open>2 ^ 32\<close> doubles in a memory whose bytes are the low bytes of their addresses.\<close>

definition big_nenv :: intern_env where
  "big_nenv = plain_nenv\<lparr>ne_shared_alloc := \<lambda>_ _ _. Some 0xFFF8\<rparr>"

definition counting_mem :: mem where "counting_mem a = ucast a"

theorem double_array64_reversed_witness:
  "\<exists>x' s'. extern_double_array (2 ^ 40) counting_mem 0x1000 (of_nat (2 ^ 32)) (idle_xstate\<lparr>x_room := SIZE_EXTERN_OUTPUT_BLOCK\<rparr>) = Inr x' \<and>
    read_value big_nenv ''f'' Obj (idle_nstate\<lparr>n_src := outp x'\<rparr>) = Some (Inr (Some 0x10000, s')) \<and>
    counting_mem 0x1000 = 0 \<and> hp_mem (n_heap s') 0x10000 = 7 \<and> counting_mem 0x1007 = 7 \<and> hp_mem (n_heap s') 0x10007 = 0"
proof -
  let ?x = "idle_xstate\<lparr>x_room := SIZE_EXTERN_OUTPUT_BLOCK\<rparr>"
  have l: "length (mem_bytes counting_mem 0x1000 (of_nat (2 ^ 32) * 8)) = 2 ^ 35" by (simp add: unat_word_ariths)
  define bs where "bs = mem_bytes counting_mem 0x1000 (of_nat (2 ^ 32) * 8)"
  have "\<exists>x'. extern_double_array (2 ^ 40) counting_mem 0x1000 (of_nat (2 ^ 32)) ?x = Inr x'"
    unfolding extern_double_array_def bs_def [symmetric]
    using l [folded bs_def] by (simp add: bind_res_def writecode64_def writeblock_def grow_extern_output_def put_def idle_xstate_def
      has_flag_def SIZE_EXTERN_OUTPUT_BLOCK_def header_lengths sizeof_output_block_def Let_def word_less_nat_alt)
  then obtain x' where x': "extern_double_array (2 ^ 40) counting_mem 0x1000 (of_nat (2 ^ 32)) ?x = Inr x'" by blast
  let ?s = "idle_nstate\<lparr>n_src := outp x'\<rparr>"
  have "outp ?x = []" by (simp add: outp_def output_blocks_def idle_xstate_def)
  then have src: "n_src ?s = drop (length (outp ?x)) (outp x') @ []" by simp
  obtain s1 where a: "new_object big_nenv (of_nat (2 ^ 32)) Double_array_tag ?s = Some (Inr (0x10000, s1))"
    by (simp add: new_object_def bind_call_def intern_alloc_obj_def big_nenv_def plain_nenv_def idle_nstate_def record_object_def set_memory_def)
  have lt: "(2 ^ 32 :: nat) < 2 ^ 46" by simp
  obtain s' where r: "read_value big_nenv ''f'' Obj ?s = Some (Inr (Some 0x10000, s'))"
    "\<forall>i<2 ^ 32. \<forall>k<8. hp_mem (n_heap s') (0x10000 + of_nat (8 * i + k)) = counting_mem (0x1000 + of_nat (8 * i + (7 - k)))"
    using double_array64_reversed [OF lt x' src a, of "''f''" Obj] by auto
  have "hp_mem (n_heap s') 0x10000 = 7" "hp_mem (n_heap s') 0x10007 = 0"
    using r(2) [rule_format, of 0 0] r(2) [rule_format, of 0 7] by (simp_all add: counting_mem_def)
  then show ?thesis using x' r(1) by (intro exI [of _ x'] exI [of _ s']) (simp add: counting_mem_def)
qed

end
