(* ===== verification/Reachable.thy ===== *)
theory Reachable
  imports Roundtrip
begin

text \<open>
  The size of the graph that is reachable from a value (\<open>Obj.reachable_words\<close>, at the end of \<open>runtime/extern.c\<close>): a depth-first
  traversal that marks the blocks in the position table of the marshaller. When sizes are computed for several roots at once, a mark says which
  root a block was reached from.
\<close>

definition Shared :: u64 where "Shared = - 1"
definition RootUnprocessed :: u64 where "RootUnprocessed = - 2"
definition RootProcessed :: u64 where "RootProcessed = - 3"
definition Invalid :: u64 where "Invalid = - 4"

text \<open>The state: the marshaller's stack and table, the memory with the array \<open>sizes_by_root_id\<close>, and the two sizes.\<close>

record reach_state =
  rs_ext :: extern_state
  rs_mem :: mem
  rs_size :: u64
  rs_shared :: u64

definition add_to_field :: "mem \<Rightarrow> val \<Rightarrow> u64 \<Rightarrow> u64 \<Rightarrow> mem" where
  "add_to_field m sizes index x = Set_Field m sizes index (Val_long (Long_val (Field m sizes index) + x))"

text \<open>The new mark of a block, or nothing when it need not be traversed.\<close>

definition reach_mark :: "val \<Rightarrow> u64 \<Rightarrow> val \<Rightarrow> u64 option \<Rightarrow> u64 option" where
  "reach_mark root identifier v previous =
     (case previous of
        None \<Rightarrow> Some identifier
      | Some mark \<Rightarrow>
          if mark = RootUnprocessed \<and> v = root then Some RootProcessed
          else if mark = Shared \<or> mark = RootUnprocessed \<or> mark = RootProcessed then None
          else if mark = identifier then None
          else Some Shared)"

definition reach_account :: "val \<Rightarrow> u64 \<Rightarrow> u64 option \<Rightarrow> u64 \<Rightarrow> u64 \<Rightarrow> reach_state \<Rightarrow> reach_state" where
  "reach_account sizes identifier previous new_mark w s =
     (let s = s\<lparr>rs_size := rs_size s + w\<rparr> in
      if sizes = Val_int 0 then s
      else if new_mark = Shared then
        s\<lparr>rs_mem := add_to_field (rs_mem s) sizes (case previous of None \<Rightarrow> Invalid | Some mark \<Rightarrow> mark) (- w), rs_shared := rs_shared s + w\<rparr>
      else s\<lparr>rs_mem := add_to_field (rs_mem s) sizes identifier w\<rparr>)"

definition first_field :: "mem \<Rightarrow> u32 \<Rightarrow> val \<Rightarrow> u64" where
  "first_field m tag v = (if tag = Closure_tag then Start_env_closinfo (Closinfo_val m v) else 0)"

text \<open>Continuing with field \<open>i\<close>, after a request for the fields from \<open>i + 1\<close> to \<open>j - 1\<close>.\<close>

definition reach_fields :: "nat \<Rightarrow> val \<Rightarrow> u64 \<Rightarrow> u64 \<Rightarrow> reach_state \<Rightarrow> (val option \<times> reach_state) res" where
  "reach_fields lim v i j s =
     (if i < j
      then bind_res (if i < j - 1 then push_item lim (v + 8 * (i + 1)) (j - i - 1) (rs_ext s) else Inr (rs_ext s))
             (\<lambda>x. Inr (Some (Field (rs_mem s) v i), s\<lparr>rs_ext := x\<rparr>))
      else Inr (None, s))"

text \<open>One round of the loop: the value to continue with, or nothing when the stack is to be popped.\<close>

definition reach_visit :: "nat \<Rightarrow> val \<Rightarrow> u64 \<Rightarrow> val \<Rightarrow> val \<Rightarrow> reach_state \<Rightarrow> (val option \<times> reach_state) res option" where
  "reach_visit lim root identifier sizes v s =
     (if Is_long v then Some (Inr (None, s))
      else
        let m = rs_mem s; hd = Hd_val m v; tag = Tag_hd hd; sz = Wosize_hd hd
        in if tag = Infix_tag then Some (Inr (Some (v - Bsize_wsize sz), s))
           else case extern_lookup_position (x_table (rs_ext s)) v of
                  None \<Rightarrow> None
                | Some (h, previous) \<Rightarrow>
                    (case reach_mark root identifier v previous of
                       None \<Rightarrow> Some (Inr (None, s))
                     | Some new_mark \<Rightarrow>
                         bind_call
                           (if previous = None then extern_record_location_with_data lim v h new_mark (rs_ext s)
                            else Some (Inr (extern_update_location_with_data h new_mark (rs_ext s))))
                           (\<lambda>x. let s = reach_account sizes identifier previous new_mark (1 + sz) (s\<lparr>rs_ext := x\<rparr>)
                                in Some (if tag < No_scan_tag
                                         then reach_fields lim v (first_field (rs_mem s) tag v) (Scannable_wosize_reserved_byte (Reserved_hd hd) sz) s
                                         else Inr (None, s)))))"

partial_function (option) reach_loop :: "nat \<Rightarrow> val \<Rightarrow> u64 \<Rightarrow> val \<Rightarrow> val \<Rightarrow> reach_state \<Rightarrow> reach_state res option" where
  "reach_loop lim root identifier sizes v s =
     (case reach_visit lim root identifier sizes v s of
        None \<Rightarrow> None
      | Some (Inl e) \<Rightarrow> Some (Inl e)
      | Some (Inr (Some v, s)) \<Rightarrow> reach_loop lim root identifier sizes v s
      | Some (Inr (None, s)) \<Rightarrow>
          (case x_stack (rs_ext s) of
             [] \<Rightarrow> Some (Inr s)
           | it # st \<Rightarrow>
               reach_loop lim root identifier sizes (load64 (rs_mem s) (ei_v it))
                 (s\<lparr>rs_ext := (rs_ext s)\<lparr>x_stack := if ei_count it - 1 = 0 then st else it\<lparr>ei_v := ei_v it + 8, ei_count := ei_count it - 1\<rparr> # st\<rparr>\<rparr>)))"

text \<open>The size is the field \<open>rs_size\<close> of the result.\<close>

definition reachable_words_once :: "nat \<Rightarrow> val \<Rightarrow> u64 \<Rightarrow> val \<Rightarrow> reach_state \<Rightarrow> reach_state res option" where
  "reachable_words_once lim root identifier sizes s = reach_loop lim root identifier sizes root (s\<lparr>rs_size := 0\<rparr>)"

definition reachable_words_init :: "mem \<Rightarrow> extern_state \<Rightarrow> reach_state" where
  "reachable_words_init m x =
     \<lparr>rs_ext = x\<lparr>x_counter := 0, x_flags := 0, x_table := extern_init_position_table (replicate 256 (0, 0))\<rparr>, rs_mem = m, rs_size = 0, rs_shared = 0\<rparr>"

definition reachable_words_mark_root :: "nat \<Rightarrow> val \<Rightarrow> reach_state \<Rightarrow> reach_state res option" where
  "reachable_words_mark_root lim v s =
     (case extern_lookup_position (x_table (rs_ext s)) v of
        None \<Rightarrow> None
      | Some (h, _) \<Rightarrow>
          bind_call (extern_record_location_with_data lim v h RootUnprocessed (rs_ext s)) (\<lambda>x. Some (Inr (s\<lparr>rs_ext := x\<rparr>))))"

definition caml_obj_reachable_words :: "nat \<Rightarrow> mem \<Rightarrow> val \<Rightarrow> extern_state \<Rightarrow> val res option" where
  "caml_obj_reachable_words lim m v x =
     bind_call (reachable_words_mark_root lim v (reachable_words_init m x)) (\<lambda>s.
     bind_call (reachable_words_once lim v 0 (Val_int 0) s) (\<lambda>s. Some (Inr (Val_long (rs_size s)))))"

text \<open>The two loops over the roots.\<close>

primrec mark_roots :: "nat \<Rightarrow> val \<Rightarrow> val \<Rightarrow> nat list \<Rightarrow> reach_state \<Rightarrow> reach_state res option" where
  "mark_roots lim v sizes [] s = Some (Inr s)"
| "mark_roots lim v sizes (i # is) s =
     bind_call (reachable_words_mark_root lim (Field (rs_mem s) v (of_nat i)) s) (\<lambda>s.
     mark_roots lim v sizes is (s\<lparr>rs_mem := Set_Field (rs_mem s) sizes (of_nat i) (Val_int 0)\<rparr>))"

primrec size_roots :: "nat \<Rightarrow> val \<Rightarrow> val \<Rightarrow> nat list \<Rightarrow> reach_state \<Rightarrow> reach_state res option" where
  "size_roots lim v sizes [] s = Some (Inr s)"
| "size_roots lim v sizes (i # is) s =
     bind_call (reachable_words_once lim (Field (rs_mem s) v (of_nat i)) (of_nat i) sizes s) (size_roots lim v sizes is)"

definition caml_obj_uniquely_reachable_words :: "nat \<Rightarrow> heap \<Rightarrow> val \<Rightarrow> extern_state \<Rightarrow> (heap \<times> val) res option" where
  "caml_obj_uniquely_reachable_words lim hp v x =
     (let len = Wosize_val (hp_mem hp) v in
      case caml_alloc hp len 0 of
        None \<Rightarrow> None
      | Some (hp, sizes) \<Rightarrow>
          bind_call (mark_roots lim v sizes [0..<unat len] (reachable_words_init (hp_mem hp) x)) (\<lambda>s.
          bind_call (size_roots lim v sizes [0..<unat len] s) (\<lambda>s.
          case caml_alloc_small (hp\<lparr>hp_mem := rs_mem s\<rparr>) 2 0 of
            None \<Rightarrow> None
          | Some (hp, ret) \<Rightarrow>
              Some (Inr (hp\<lparr>hp_mem := Set_Field (Set_Field (hp_mem hp) ret 0 sizes) ret 1 (Val_long (rs_shared s))\<rparr>, ret)))))"

subsection \<open>Reachability\<close>

text \<open>An infix pointer stands for the closure around it.\<close>

definition base :: "mem \<Rightarrow> val \<Rightarrow> val" where
  "base m v = (if Tag_val m v = Infix_tag then v - Infix_offset_val m v else v)"

definition scanned :: "mem \<Rightarrow> val \<Rightarrow> val list" where
  "scanned m v =
     (if Tag_val m v < No_scan_tag
      then map (\<lambda>k. Field m v (of_nat k)) [unat (first_field m (Tag_val m v) v)..<unat (Wosize_val m v)] else [])"

definition bases :: "mem \<Rightarrow> val list \<Rightarrow> val set" where
  "bases m xs = base m ` {x \<in> set xs. Is_block x}"

definition reach_edge :: "mem \<Rightarrow> (val \<times> val) set" where
  "reach_edge m = {(a, b). b \<in> bases m (scanned m a)}"

definition reach_set :: "mem \<Rightarrow> val \<Rightarrow> val set" where
  "reach_set m v = (reach_edge m)\<^sup>* `` bases m [v]"

text \<open>A finite set of blocks that contains the blocks that its elements point to.\<close>

definition reach_graph :: "mem \<Rightarrow> val set \<Rightarrow> bool" where
  "reach_graph m G \<longleftrightarrow> finite G \<and> (\<forall>w\<in>G. Is_block w \<and> Tag_val m w \<noteq> Infix_tag \<and> bases m (scanned m w) \<subseteq> G)"

lemma bases_simps [simp]: "bases m [] = {}" "bases m (xs @ ys) = bases m xs \<union> bases m ys"
  "bases m (x # xs) = (if Is_block x then {base m x} else {}) \<union> bases m xs"
  by (auto simp: bases_def)

subsection \<open>The marks\<close>

definition marks :: "val \<Rightarrow> val set \<Rightarrow> val \<rightharpoonup> u64" where
  "marks root S x =
     (if x = root then Some (if root \<in> S then RootProcessed else RootUnprocessed) else if x \<in> S then Some 0 else None)"

lemma marks_insert:
  "marks root (insert v S) = (marks root S)(v \<mapsto> if v = root then RootProcessed else 0)"
  by (auto simp: marks_def fun_eq_iff)

lemmas mark_defs = Shared_def RootUnprocessed_def RootProcessed_def

lemma reach_mark_marks:
  "reach_mark root 0 v (marks root S v) = (if v \<in> S then None else Some (if v = root then RootProcessed else 0))"
  by (simp add: reach_mark_def marks_def mark_defs)

definition rinv :: "mem \<Rightarrow> val \<Rightarrow> val set \<Rightarrow> reach_state \<Rightarrow> bool" where
  "rinv m root S s \<longleftrightarrow> pos_inv (x_table (rs_ext s)) (x_counter (rs_ext s)) (marks root S) \<and> x_flags (rs_ext s) = 0 \<and>
     (\<forall>it\<in>set (x_stack (rs_ext s)). ei_count it \<noteq> 0) \<and> rs_mem s = m \<and> rs_size s = of_nat (sum (block_words m) S)"

lemma reach_fields_ok:
  assumes "\<forall>it\<in>set (x_stack (rs_ext s)). ei_count it \<noteq> 0"
  shows "case reach_fields lim v i j s of Inl e \<Rightarrow> e = Out_of_memory
     | Inr (None, s') \<Rightarrow> [unat i..<unat j] = [] \<and> s' = s
     | Inr (Some w, s') \<Rightarrow> \<exists>l st. s' = s\<lparr>rs_ext := (rs_ext s)\<lparr>x_limit := l, x_stack := st\<rparr>\<rparr> \<and> (\<forall>it\<in>set st. ei_count it \<noteq> 0) \<and>
         w # flat (rs_mem s) st = map (\<lambda>k. Field (rs_mem s) v (of_nat k)) [unat i..<unat j] @ flat (rs_mem s) (x_stack (rs_ext s))"
proof (cases "i < j")
  case False
  then show ?thesis by (simp add: reach_fields_def word_less_nat_alt)
next
  case True
  then have ij: "unat i < unat j" by (simp add: word_less_nat_alt)
  have d: "unat (j - i) = unat j - unat i" using True by (intro unat_sub) simp
  have nz: "j - i \<noteq> 0" using True by auto
  have d1: "unat (j - i - 1) = unat j - unat i - 1" using unat_minus_one [OF nz] d by simp
  have "[unat i..<unat j] = unat i # map (\<lambda>k. unat i + 1 + k) [0..<unat (j - i - 1)]"
    using ij d1 map_add_upt [of "Suc (unat i)" "unat j - Suc (unat i)"] by (simp add: upt_conv_Cons add.commute)
  then have f: "map (\<lambda>k. Field m v (of_nat k)) [unat i..<unat j] =
      Field m v i # map (\<lambda>k. load64 m (v + 8 * (i + 1) + 8 * of_nat k)) [0..<unat (j - i - 1)]" for m
    by (simp add: Field_def algebra_simps)
  show ?thesis
  proof (cases "i < j - 1")
    case more: True
    let ?a = "v + 8 * (i + 1)" and ?n = "j - i - 1"
    have n0: "?n \<noteq> 0"
    proof
      assume "?n = 0"
      then have "j - 1 = i" by (simp add: algebra_simps)
      with more show False by simp
    qed
    show ?thesis
    proof (cases "push_item lim ?a ?n (rs_ext s)")
      case (Inl e)
      then show ?thesis using True more push_item_ok [where lim = lim and a = ?a and n = ?n and s = "rs_ext s"] by (simp add: reach_fields_def bind_res_def)
    next
      case (Inr x)
      then obtain l where "x = (rs_ext s)\<lparr>x_limit := l, x_stack := \<lparr>ei_v = ?a, ei_count = ?n\<rparr> # x_stack (rs_ext s)\<rparr>"
        using push_item_ok [where lim = lim and a = ?a and n = ?n and s = "rs_ext s"] by auto
      then show ?thesis using True more Inr f assms n0
        by (auto simp: reach_fields_def bind_res_def flat_def intro!: exI [of _ l] exI [of _ "\<lparr>ei_v = ?a, ei_count = ?n\<rparr> # x_stack (rs_ext s)"])
    qed
  next
    case False
    then have "unat (j - 1) \<le> unat i" by (simp add: word_less_nat_alt)
    moreover have "unat (j - 1) = unat j - 1" using True by (intro unat_minus_one) auto
    ultimately have "unat (j - i - 1) = 0" using d1 ij by simp
    then have "j - i - 1 = 0" by (simp add: unat_eq_zero)
    then show ?thesis using True False f assms
      by (auto simp: reach_fields_def bind_res_def intro!: exI [of _ "x_limit (rs_ext s)"] exI [of _ "x_stack (rs_ext s)"])
  qed
qed

text \<open>The outcome of a round: the values that are to be visited next are the fields of a new block.\<close>

definition round_post :: "mem \<Rightarrow> val \<Rightarrow> val list \<Rightarrow> val set \<Rightarrow> (val option \<times> reach_state) res \<Rightarrow> bool" where
  "round_post m root vs S r \<longleftrightarrow>
     (case r of Inl e \<Rightarrow> e = Out_of_memory
      | Inr (None, s) \<Rightarrow> rinv m root S s \<and> flat m (x_stack (rs_ext s)) = vs
      | Inr (Some w, s) \<Rightarrow> rinv m root S s \<and> w # flat m (x_stack (rs_ext s)) = vs)"

lemma marked_ok:
  assumes "rinv m root S s" "extern_lookup_position (x_table (rs_ext s)) v = Some (h, marks root S v)" "v \<notin> S" "finite S"
    "nm = (if v = root then RootProcessed else 0)"
  shows "\<exists>r. (if marks root S v = None then extern_record_location_with_data lim v h nm (rs_ext s)
      else Some (Inr (extern_update_location_with_data h nm (rs_ext s)))) = Some r \<and>
    (case r of Inl e \<Rightarrow> e = Out_of_memory
     | Inr x \<Rightarrow> x_stack x = x_stack (rs_ext s) \<and>
         rinv m root (insert v S) (reach_account (Val_int 0) 0 (marks root S v) nm (1 + Wosize_val m v) (s\<lparr>rs_ext := x\<rparr>)))"
proof -
  have i: "pos_inv (x_table (rs_ext s)) (x_counter (rs_ext s)) (marks root S)" "x_flags (rs_ext s) = 0" "rs_mem s = m"
    "rs_size s = of_nat (sum (block_words m) S)" using assms(1) by (simp_all add: rinv_def)
  have sz: "rs_size s + (1 + Wosize_val m v) = of_nat (sum (block_words m) (insert v S))"
    using assms(3,4) i(4) by (simp add: block_words_def)
  have inv: "rinv m root (insert v S) (reach_account (Val_int 0) 0 p nm (1 + Wosize_val m v) (s\<lparr>rs_ext := x\<rparr>))"
    if "pos_inv (x_table x) (x_counter x) (marks root (insert v S))" "x_flags x = 0" "x_stack x = x_stack (rs_ext s)" for x p
    using that assms(1) sz by (simp add: rinv_def reach_account_def)
  show ?thesis
  proof (cases "marks root S v")
    case None
    obtain r where r: "record_location lim (x_table (rs_ext s)) (x_counter (rs_ext s)) v h nm = Some r"
      "case r of Inl e \<Rightarrow> e = Out_of_memory | Inr (t', c') \<Rightarrow> c' = x_counter (rs_ext s) + 1 \<and> pos_inv t' c' ((marks root S)(v \<mapsto> nm))"
      using pos_inv_record [OF i(1) assms(2)] by blast
    then show ?thesis using None i(2) inv assms(5)
      by (cases r) (auto simp: extern_record_location_with_data_def has_flag_def marks_insert)
  next
    case (Some p)
    have "pos_inv (update_location (x_table (rs_ext s)) h nm) (x_counter (rs_ext s)) ((marks root S)(v \<mapsto> nm))"
      using pos_inv_update [OF i(1), of v h p nm] assms(2) Some by simp
    then show ?thesis using Some i(2) inv assms(5)
      by (auto simp: extern_update_location_with_data_def has_flag_def marks_insert)
  qed
qed

lemma reach_visit_ok:
  assumes "rinv m root S s" "finite S" "Is_block v \<Longrightarrow> Tag_val m v \<noteq> Infix_tag"
  shows "\<exists>r. reach_visit lim root 0 (Val_int 0) v s = Some r \<and>
    (if Is_block v \<and> v \<notin> S then round_post m root (scanned m v @ flat m (x_stack (rs_ext s))) (insert v S) r
     else round_post m root (flat m (x_stack (rs_ext s))) S r)"
proof (cases "Is_block v")
  case False
  then have "Is_long v" by (auto simp: Is_block_cases Is_long_def Is_null_def Val_null_def)
  then show ?thesis using False assms(1) by (simp add: reach_visit_def round_post_def)
next
  case True
  have t: "Tag_hd (Hd_val m v) = Tag_val m v" "Wosize_hd (Hd_val m v) = Wosize_val m v" by (simp_all add: tag_simps Wosize_val_def)
  have i: "pos_inv (x_table (rs_ext s)) (x_counter (rs_ext s)) (marks root S)" "rs_mem s = m" using assms(1) by (simp_all add: rinv_def)
  obtain h where h: "extern_lookup_position (x_table (rs_ext s)) v = Some (h, marks root S v)" using extern_lookup_ok [OF i(1)] by blast
  let ?nm = "if v = root then RootProcessed else 0"
  have nl: "\<not> Is_long v" using True by (simp add: Is_block_cases)
  show ?thesis
  proof (cases "v \<in> S")
    case in_S: True
    then have "reach_visit lim root 0 (Val_int 0) v s = Some (Inr (None, s))"
      using nl assms(3) True h by (simp add: reach_visit_def Let_def i(2) t reach_mark_marks)
    then show ?thesis using in_S assms(1) by (simp add: round_post_def)
  next
    case False
    obtain r where r: "(if marks root S v = None then extern_record_location_with_data lim v h ?nm (rs_ext s)
      else Some (Inr (extern_update_location_with_data h ?nm (rs_ext s)))) = Some r"
      "case r of Inl e \<Rightarrow> e = Out_of_memory
       | Inr x \<Rightarrow> x_stack x = x_stack (rs_ext s) \<and>
         rinv m root (insert v S) (reach_account (Val_int 0) 0 (marks root S v) ?nm (1 + Wosize_val m v) (s\<lparr>rs_ext := x\<rparr>))"
      using marked_ok [OF assms(1) h False assms(2) refl] by blast
    have e: "reach_visit lim root 0 (Val_int 0) v s = bind_call (Some r) (\<lambda>x.
        let s = reach_account (Val_int 0) 0 (marks root S v) ?nm (1 + Wosize_val m v) (s\<lparr>rs_ext := x\<rparr>)
        in Some (if Tag_val m v < No_scan_tag
                 then reach_fields lim v (first_field (rs_mem s) (Tag_val m v) v) (Wosize_val m v) s else Inr (None, s)))"
      using nl assms(3) True h False r(1)
      by (simp add: reach_visit_def Let_def i(2) t reach_mark_marks Scannable_wosize_reserved_byte_def cong: if_cong)
    show ?thesis
    proof (cases r)
      case (Inl ex)
      then show ?thesis using e r(2) False True by (simp add: bind_call_def round_post_def)
    next
      case (Inr x)
      let ?s = "reach_account (Val_int 0) 0 (marks root S v) ?nm (1 + Wosize_val m v) (s\<lparr>rs_ext := x\<rparr>)"
      have inv: "rinv m root (insert v S) ?s" "x_stack x = x_stack (rs_ext s)" using r(2) Inr by simp_all
      have sx: "rs_ext ?s = x" "rs_mem ?s = m" using i(2) by (simp_all add: reach_account_def)
      show ?thesis
      proof (cases "Tag_val m v < No_scan_tag")
        case False
        then show ?thesis using e Inr inv sx True \<open>v \<notin> S\<close> by (simp add: bind_call_def round_post_def scanned_def)
      next
        case scan: True
        have "\<forall>it\<in>set (x_stack (rs_ext ?s)). ei_count it \<noteq> 0" using inv(1) by (simp add: rinv_def)
        note f = reach_fields_ok [OF this, where lim = lim and v = v and i = "first_field m (Tag_val m v) v" and j = "Wosize_val m v"]
        have "round_post m root (scanned m v @ flat m (x_stack (rs_ext s))) (insert v S)
            (reach_fields lim v (first_field m (Tag_val m v) v) (Wosize_val m v) ?s)"
        proof (cases "reach_fields lim v (first_field m (Tag_val m v) v) (Wosize_val m v) ?s")
          case (Inl e)
          then show ?thesis using f by (simp add: round_post_def)
        next
          case (Inr q)
          obtain w t where q: "q = (w, t)" by (cases q)
          show ?thesis
          proof (cases w)
            case None
            then show ?thesis using f Inr q inv sx scan by (simp add: round_post_def scanned_def)
          next
            case (Some w')
            then obtain l st where l: "t = ?s\<lparr>rs_ext := x\<lparr>x_limit := l, x_stack := st\<rparr>\<rparr>" "\<forall>it\<in>set st. ei_count it \<noteq> 0"
              "w' # flat m st = scanned m v @ flat m (x_stack x)" using f Inr q sx scan by (auto simp: scanned_def)
            have "rinv m root (insert v S) t" using inv(1) l(2) sx by (simp add: rinv_def l(1))
            then show ?thesis using Inr q Some l inv(2) by (simp add: round_post_def)
          qed
        qed
        then show ?thesis using e Inr sx True \<open>v \<notin> S\<close> scan by (simp add: bind_call_def)
      qed
    qed
  qed
qed

subsection \<open>The traversal\<close>

text \<open>
  From the marked set \<open>S\<close> and the pending values \<open>vs\<close>, the set \<open>S'\<close> is reached: it contains the pending values, it is closed under the
  edges of its new elements, and all of them are reachable from pending values.
\<close>

definition reaches :: "mem \<Rightarrow> val set \<Rightarrow> val list \<Rightarrow> val set \<Rightarrow> bool" where
  "reaches m S vs S' \<longleftrightarrow> S \<union> bases m vs \<subseteq> S' \<and> (\<forall>a\<in>S' - S. bases m (scanned m a) \<subseteq> S') \<and> S' \<subseteq> S \<union> (reach_edge m)\<^sup>* `` bases m vs"

lemma reaches_Nil: "reaches m S [] S" by (simp add: reaches_def)

lemma reaches_old: "Is_block v \<longrightarrow> base m v \<in> S \<Longrightarrow> reaches m S vs S' \<Longrightarrow> reaches m S (v # vs) S'"
  by (auto simp: reaches_def)

lemma union_absorb: "X \<subseteq> Z \<Longrightarrow> W = Z \<union> Y \<Longrightarrow> b \<in> Z \<Longrightarrow> S' \<subseteq> insert b S \<union> (X \<union> Y) \<Longrightarrow> S' \<subseteq> S \<union> W"
  by auto

lemma reaches_new:
  assumes "Is_block v" "reaches m (insert (base m v) S) (scanned m (base m v) @ vs) S'"
  shows "reaches m S (v # vs) S'"
proof -
  let ?b = "base m v"
  have s: "bases m (scanned m ?b) \<subseteq> S'" "S' \<subseteq> insert ?b S \<union> (reach_edge m)\<^sup>* `` (bases m (scanned m ?b) \<union> bases m vs)"
    using assms(2) by (auto simp: reaches_def)
  have "(reach_edge m)\<^sup>* `` bases m (scanned m ?b) \<subseteq> (reach_edge m)\<^sup>* `` {?b}"
    by (auto simp: reach_edge_def intro: converse_rtrancl_into_rtrancl)
  moreover have "bases m (v # vs) = {?b} \<union> bases m vs" using assms(1) by simp
  then have "(reach_edge m)\<^sup>* `` bases m (v # vs) = (reach_edge m)\<^sup>* `` {?b} \<union> (reach_edge m)\<^sup>* `` bases m vs" by (simp only: Image_Un)
  moreover have "?b \<in> (reach_edge m)\<^sup>* `` {?b}" by blast
  ultimately have "S' \<subseteq> S \<union> (reach_edge m)\<^sup>* `` bases m (v # vs)" using s(2) unfolding Image_Un by (rule union_absorb)
  then show ?thesis using assms s(1) by (auto simp: reaches_def)
qed

lemma reaches_set:
  assumes "reaches m {} [v] S"
  shows "S = reach_set m v"
proof
  show "S \<subseteq> reach_set m v" using assms by (simp add: reaches_def reach_set_def)
  have "b \<in> S" if "(a, b) \<in> (reach_edge m)\<^sup>*" "a \<in> S" for a b
    using that by (induction rule: rtrancl_induct) (use assms in \<open>auto simp: reaches_def reach_edge_def\<close>)
  then show "reach_set m v \<subseteq> S" using assms by (auto simp: reaches_def reach_set_def)
qed

definition reach_post :: "mem \<Rightarrow> val set \<Rightarrow> val list \<Rightarrow> reach_state res \<Rightarrow> bool" where
  "reach_post m S vs r \<longleftrightarrow>
     (case r of Inl e \<Rightarrow> e = Out_of_memory | Inr s \<Rightarrow> \<exists>S'. reaches m S vs S' \<and> rs_size s = of_nat (sum (block_words m) S'))"

lemma reach_loop_base:
  assumes "rs_mem s = m" "Is_block v"
  shows "reach_loop lim root ident sizes v s = reach_loop lim root ident sizes (base m v) s"
proof (cases "Tag_val m v = Infix_tag")
  case True
  then have "reach_visit lim root ident sizes v s = Some (Inr (Some (base m v), s))"
    using assms by (simp add: reach_visit_def Is_block_cases Let_def tag_simps base_def Infix_offset_val_def)
  then show ?thesis by (subst reach_loop.simps) simp
qed (simp add: base_def)

lemma reach_loop_ok:
  assumes "reach_graph m G" "rinv m root S s" "bases m (v # flat m (x_stack (rs_ext s))) \<subseteq> G" "S \<subseteq> G"
  shows "\<exists>r. reach_loop lim root 0 (Val_int 0) v s = Some r \<and> reach_post m S (v # flat m (x_stack (rs_ext s))) r"
  using assms(2-)
proof (induction "(card (G - S), length (flat m (x_stack (rs_ext s))))" arbitrary: v s S
    rule: wf_induct_rule [OF wf_lex_prod [OF wf_less_than wf_less_than]])
  case 1
  let ?st = "x_stack (rs_ext s)"
  define b where "b = (if Is_block v then base m v else v)"
  have finG: "finite G" using assms(1) by (simp add: reach_graph_def)
  have finS: "finite S" using 1(4) finG by (rule finite_subset)
  have m: "rs_mem s = m" using 1(2) by (simp add: rinv_def)
  have bG: "b \<in> G" if "Is_block v" using 1(3) that by (simp add: b_def)
  then have bb: "Is_block b \<longleftrightarrow> Is_block v" "Is_block b \<Longrightarrow> Tag_val m b \<noteq> Infix_tag" using assms(1) by (auto simp: reach_graph_def b_def)
  have loop: "reach_loop lim root 0 (Val_int 0) v s = reach_loop lim root 0 (Val_int 0) b s"
    using reach_loop_base [OF m] by (simp add: b_def)
  define new where "new \<longleftrightarrow> Is_block v \<and> b \<notin> S"
  define S1 where "S1 = (if new then insert b S else S)"
  define vs where "vs = (if new then scanned m b else []) @ flat m ?st"
  obtain r where r: "reach_visit lim root 0 (Val_int 0) b s = Some r" "round_post m root vs S1 r"
    using reach_visit_ok [OF 1(2) finS bb(2), of lim] bb(1) unfolding new_def S1_def vs_def by (auto split: if_splits)
  have step: "reach_post m S (v # flat m ?st) q" if "reach_post m S1 vs q" for q
  proof (cases new)
    case True
    then show ?thesis using that reaches_new [of v m S "flat m ?st"] by (auto simp: reach_post_def S1_def vs_def new_def b_def split: sum.splits)
  next
    case False
    then have "Is_block v \<longrightarrow> base m v \<in> S" by (auto simp: new_def b_def)
    then show ?thesis using that False reaches_old [of v m S "flat m ?st"] by (auto simp: reach_post_def S1_def vs_def split: sum.splits)
  qed
  have S1G: "S1 \<subseteq> G" using 1(4) bG by (auto simp: S1_def new_def)
  have vsG: "bases m vs \<subseteq> G" using 1(3) bG assms(1) by (auto simp: vs_def new_def reach_graph_def)
  have dec: "((card (G - S1), n), (card (G - S), length (flat m ?st))) \<in> less_than <*lex*> less_than" if "n < length vs" for n
  proof (cases new)
    case False
    then show ?thesis using that by (simp add: S1_def vs_def)
  next
    case True
    then have "b \<in> G - S" "S1 = insert b S" using bG by (auto simp: new_def S1_def)
    then have "G - S1 \<subset> G - S" by auto
    then have "card (G - S1) < card (G - S)" using finG by (intro psubset_card_mono) auto
    then show ?thesis by simp
  qed
  have IH: "\<exists>q. reach_loop lim root 0 (Val_int 0) w t = Some q \<and> reach_post m S (v # flat m ?st) q"
    if "rinv m root S1 t" "w # flat m (x_stack (rs_ext t)) = vs" for w t
  proof -
    have "length (flat m (x_stack (rs_ext t))) < length vs" using arg_cong [OF that(2), of length] by simp
    from 1(1) [OF dec [OF this] that(1) _ S1G, of w] show ?thesis using that(2) vsG step by auto
  qed
  show ?case
  proof (cases r)
    case (Inl e)
    then have "reach_loop lim root 0 (Val_int 0) v s = Some (Inl e)" using r(1) unfolding loop by (simp add: reach_loop.simps)
    then show ?thesis using r(2) Inl by (simp add: round_post_def reach_post_def)
  next
    case (Inr q)
    obtain w t where q: "q = (w, t)" by (cases q)
    show ?thesis
    proof (cases w)
      case (Some w')
      then have "reach_loop lim root 0 (Val_int 0) v s = reach_loop lim root 0 (Val_int 0) w' t"
        using r(1) Inr q unfolding loop by (simp add: reach_loop.simps [of lim root 0 "Val_int 0" b])
      then show ?thesis using IH [of t w'] r(2) Inr q Some by (simp add: round_post_def)
    next
      case None
      then have t: "rinv m root S1 t" "flat m (x_stack (rs_ext t)) = vs" using r(2) Inr q by (simp_all add: round_post_def)
      show ?thesis
      proof (cases "x_stack (rs_ext t)")
        case Nil
        then have "reach_loop lim root 0 (Val_int 0) v s = Some (Inr t)"
          using r(1) Inr q None unfolding loop by (simp add: reach_loop.simps)
        moreover have "reach_post m S1 vs (Inr t)" using t Nil reaches_Nil by (auto simp: reach_post_def rinv_def flat_def)
        ultimately show ?thesis using step by blast
      next
        case (Cons it st)
        let ?t = "t\<lparr>rs_ext := (rs_ext t)\<lparr>x_stack := if ei_count it - 1 = 0 then st else it\<lparr>ei_v := ei_v it + 8, ei_count := ei_count it - 1\<rparr> # st\<rparr>\<rparr>"
        have nz: "ei_count it \<noteq> 0" using t(1) Cons by (simp add: rinv_def)
        have "reach_loop lim root 0 (Val_int 0) v s = reach_loop lim root 0 (Val_int 0) (load64 m (ei_v it)) ?t"
          using r(1) Inr q None Cons t(1) unfolding loop by (simp add: reach_loop.simps [of lim root 0 "Val_int 0" b] rinv_def)
        moreover have "rinv m root S1 ?t" using t(1) Cons by (auto simp: rinv_def)
        moreover have "load64 m (ei_v it) # flat m (x_stack (rs_ext ?t)) = vs" using flat_pop [OF nz, of m st] t(2) Cons by simp
        ultimately show ?thesis using IH [of ?t "load64 m (ei_v it)"] by simp
      qed
    qed
  qed
qed

subsection \<open>Property\<close>

text \<open>
  C8: on every finite graph, cyclic ones included, \<open>caml_obj_reachable_words\<close> terminates, and unless there is no memory
  it returns the total size in words, headers included, of the blocks that are reachable from its argument, each counted once. Infix pointers
  stand for their closures and the code part of a closure is not followed.
\<close>

theorem reachable_words_total:
  assumes "reach_graph m G" "bases m [v] \<subseteq> G" "x_stack x = []"
  shows "\<exists>r. caml_obj_reachable_words lim m v x = Some r \<and>
    (case r of Inl e \<Rightarrow> e = Out_of_memory
     | Inr n \<Rightarrow> n = Val_long (of_nat (\<Sum>w\<in>reach_set m v. Suc (unat (Wosize_val m w)))))"
proof -
  let ?s = "reachable_words_init m x"
  have i: "pos_inv (x_table (rs_ext ?s)) (x_counter (rs_ext ?s)) Map.empty" "x_flags (rs_ext ?s) = 0" "x_stack (rs_ext ?s) = []"
    using pos_inv_init [of "replicate 256 (0, 0)"] assms(3) by (simp_all add: reachable_words_init_def)
  obtain h where h: "extern_lookup_position (x_table (rs_ext ?s)) v = Some (h, None)" using extern_lookup_ok [OF i(1), of v] by auto
  obtain r where r: "record_location lim (x_table (rs_ext ?s)) (x_counter (rs_ext ?s)) v h RootUnprocessed = Some r"
    "case r of Inl e \<Rightarrow> e = Out_of_memory | Inr (t', c') \<Rightarrow> c' = x_counter (rs_ext ?s) + 1 \<and> pos_inv t' c' (Map.empty(v \<mapsto> RootUnprocessed))"
    using pos_inv_record [OF i(1) h] by blast
  show ?thesis
  proof (cases r)
    case (Inl e)
    then show ?thesis using r h i(2)
      by (simp add: caml_obj_reachable_words_def reachable_words_mark_root_def extern_record_location_with_data_def has_flag_def bind_call_def)
  next
    case (Inr q)
    obtain t c where q: "q = (t, c)" by (cases q)
    let ?t = "?s\<lparr>rs_ext := (rs_ext ?s)\<lparr>x_table := t, x_counter := c\<rparr>\<rparr>"
    have mr: "reachable_words_mark_root lim v ?s = Some (Inr ?t)"
      using r(1) Inr q h i(2) by (simp add: reachable_words_mark_root_def extern_record_location_with_data_def has_flag_def bind_call_def)
    have "Map.empty(v \<mapsto> RootUnprocessed) = marks v {}" by (auto simp: marks_def fun_eq_iff)
    then have "pos_inv t c (marks v {})" using r(2) Inr q by auto
    then have rinv: "rinv m v {} (?t\<lparr>rs_size := 0\<rparr>)" using i assms(3) by (simp add: rinv_def reachable_words_init_def)
    have "bases m (v # flat m (x_stack (rs_ext (?t\<lparr>rs_size := 0\<rparr>)))) \<subseteq> G" using assms(2) i(3) by (simp add: flat_def)
    from reach_loop_ok [OF assms(1) rinv this, of lim] obtain u where u: "reach_loop lim v 0 (Val_int 0) v (?t\<lparr>rs_size := 0\<rparr>) = Some u"
      "reach_post m {} [v] u" using i(3) by (auto simp: flat_def)
    have "caml_obj_reachable_words lim m v x = bind_call (Some u) (\<lambda>s. Some (Inr (Val_long (rs_size s))))"
      using mr u(1) by (simp add: caml_obj_reachable_words_def reachable_words_once_def bind_call_def)
    then show ?thesis using u(2) reaches_set [of m v]
      by (cases u) (auto simp: reach_post_def bind_call_def block_words_def)
  qed
qed

theorem reachable_words_total_witness:
  "\<exists>r. caml_obj_reachable_words (2 ^ 40) ring_mem 0x1000 idle_xstate = Some r \<and>
    (case r of Inl e \<Rightarrow> e = Out_of_memory | Inr n \<Rightarrow> n = Val_long 3)"
proof -
  have t: "Tag_val ring_mem 0x1000 < No_scan_tag" "Tag_val ring_mem 0x1000 \<noteq> Infix_tag" "Tag_val ring_mem 0x1000 \<noteq> Closure_tag"
    by (simp_all add: ring_block tag_defs No_scan_tag_def)
  have sc: "scanned ring_mem 0x1000 = [Val_long 5, 0x1000]"
    using t ring_scan by (simp add: scanned_def first_field_def scan_fields_def leaf_tag_def ring_block tag_defs)
  then have b: "bases ring_mem (scanned ring_mem 0x1000) = {0x1000}" "bases ring_mem [0x1000] = {0x1000}"
    using t(2) by (simp_all add: ring_long base_def)
  have g: "reach_graph ring_mem {0x1000}" using t b by (simp add: reach_graph_def ring_long)
  have "(reach_edge ring_mem)\<^sup>* `` {0x1000} \<subseteq> {0x1000}"
  proof
    fix y assume "y \<in> (reach_edge ring_mem)\<^sup>* `` {0x1000}"
    then have "(0x1000, y) \<in> (reach_edge ring_mem)\<^sup>*" by simp
    then show "y \<in> {0x1000}" by (induction rule: rtrancl_induct) (use b in \<open>auto simp: reach_edge_def\<close>)
  qed
  then have rs: "reach_set ring_mem 0x1000 = {0x1000}" unfolding reach_set_def b(2) by blast
  have "x_stack idle_xstate = []" by (simp add: idle_xstate_def)
  from reachable_words_total [OF g equalityD1 [OF b(2)] this, of "2 ^ 40"] show ?thesis by (auto simp: rs ring_block split: sum.splits)
qed

end
