(* ===== verification/Spec2Isabelle.thy ===== *)
theory Spec2Isabelle
  imports Addrmap Skiplist Str Ints Hash Compare Interp Lexing Parsing Globroots Md5 Blake2 Strlib Reachable
begin

text \<open>
  Verification of the C runtime of OxCaml (\<open>runtime/*.c\<close>, \<open>runtime/caml/*.h\<close>) and of the library of regular expressions
  (\<open>otherlibs/str\<close>).

  \<^bold>\<open>The program.\<close> A compiled OCaml program is linked with the runtime, which represents values, allocates
  them, executes bytecode, and implements the primitives of the standard library that are written in C.
  Its parts that are modelled here, with the theory of each:

  \<^item> \<open>Mlvalues\<close>: the representation of values (\<open>caml/mlvalues.h\<close>, \<open>caml/gc.h\<close>). A value is a 64-bit
    word, an odd word is an immediate integer, 0 is the null value, and any other even word points to a block in memory
    whose header (tag, size, colour, reserved bits) is in the word before it.
  \<^item> \<open>Alloc\<close>: allocation of small blocks in the minor heap (\<open>alloc.c\<close>, \<open>custom.c\<close>, \<open>caml/memory.h\<close>).
    Every component that returns a boxed result goes through it.
  \<^item> \<open>Addrmap\<close> and \<open>Skiplist\<close>: the two dictionaries of the runtime (\<open>addrmap.c\<close>, \<open>skiplist.c\<close>). Their common
    contract is the locale \<open>dictionary\<close> of \<open>Dictionary\<close>, extended by a removal in \<open>removable_dictionary\<close>.
  \<^item> \<open>Globroots\<close>: the registration of global roots (\<open>globroots.c\<close>), a client of the skip list.
  \<^item> \<open>Str\<close>, \<open>Ints\<close>: strings and bytes (\<open>str.c\<close>) and integers (\<open>ints.c\<close>).
  \<^item> \<open>Hash\<close>, \<open>Compare\<close>: the polymorphic hash function (\<open>hash.c\<close>, with the generator of \<open>prng.c\<close>) and the
    polymorphic comparison (\<open>compare.c\<close>), which traverse values in memory.
  \<^item> \<open>Md5\<close>, \<open>Blake2\<close>: the digests (\<open>md5.c\<close>, \<open>blake2.c\<close>). What they share, a state that absorbs a message
    block by block through a buffer, is the locale \<open>block_stream\<close> of \<open>Blocks\<close>.
  \<^item> \<open>Postable\<close>, \<open>Intext\<close>, \<open>Extern\<close>, \<open>Intern\<close>: marshalling (\<open>extern.c\<close>, \<open>intern.c\<close>, \<open>caml/intext.h\<close>), with the
    hash table of the positions of shared objects, a third dictionary. \<open>Reachable\<close>: the size of the graph below a value, computed with
    the same table (end of \<open>extern.c\<close>).
  \<^item> \<open>Interp\<close>: the bytecode interpreter (\<open>interp.c\<close>) with the stacks of fibers (\<open>fiber.c\<close>).
  \<^item> \<open>Lexing\<close>, \<open>Parsing\<close>: the automata behind the generated lexers and parsers (\<open>lexing.c\<close>, \<open>parsing.c\<close>).
  \<^item> \<open>Strmatch\<close>: the interpreter of compiled regular expressions (\<open>otherlibs/str/strstubs.c\<close>). \<open>Regexp\<close>: the compiler that
    produces its programs (\<open>otherlibs/str/str.ml\<close>).

  \<^bold>\<open>How the model corresponds to the code.\<close> Each C function is a definition with its name; a fragment of a long
  function (a loop, a \<open>case\<close>) has a name of its own. C structures are records, enumerations are datatypes. The target
  is the 64-bit little-endian configuration that OxCaml supports, with the bytecode runtime where the two runtimes differ.
  C integers are words of their width, so arithmetic wraps as in the code; a \<open>double\<close> is its IEEE bit pattern. Memory is a
  function from addresses to bytes (\<open>mem\<close> in \<open>Prelude\<close>), read and written at the widths of the code, and a component that
  reads OCaml values reads them there; \<open>Alloc.heap\<close> adds the minor heap's bounds. The cells of the skip list and the
  stacks of the interpreter are separate stores indexed by pointers, the entries of the address map and
  the stacks of the parser are lists. The checks of \<open>CAMLassert\<close> are not compiled into the runtime and not part of the definitions; a
  precondition that such a check or a comment states is a hypothesis of the theorems (\<open>Addrmap\<close>, \<open>Blake2\<close>). An exception that C code raises is the left value of \<open>'a res\<close> (\<open>exn + 'a\<close>).

  The surrounding code that is not modelled enters as parameters: \<open>lim\<close>, the largest request that \<open>malloc\<close> grants
  (\<open>Addrmap\<close>); the pointer that \<open>caml_stat_alloc_noexc\<close> returns (\<open>Skiplist\<close>, \<open>Globroots\<close>); the functions behind the
  pointers of a custom block (\<open>Hash\<close>, \<open>Compare\<close>); the C primitives, predefined exceptions and the supply of stacks
  (\<open>runtime\<close> in \<open>Interp\<close>); the scanning action of a collection (\<open>Globroots\<close>); custom operations, code fragments, compression
  and the shared heap (\<open>extern_env\<close>, \<open>intern_env\<close>); the contents of uninitialised local arrays (\<open>junk\<close> in \<open>Strmatch\<close>). The round trip
  requires of the shared heap that its blocks are aligned, apart from each other and from the words in use (\<open>shared_ok\<close>) and that its initial colour
  is a colour (\<open>color_ok\<close>).

  \<^bold>\<open>Loops.\<close> A loop whose end the code does not make evident is a \<open>partial_function (option)\<close>, so that \<open>None\<close>
  means that it does not return; the theorems prove the result to be \<open>Some\<close>. Address map insertion
  recurses with the fuel \<open>caml_addrmap_insert\<close> passes, which is shown to be enough because the table doubles at each level
  and \<open>lim\<close> bounds it. The engine of the parser returns because of a measure on the pending label, the stack depth and the
  length of the chain of default reductions. In \<open>Alloc\<close>, \<open>Ints\<close>, \<open>Interp\<close>, \<open>None\<close> (respectively \<open>Left\<close>) also stands
  for entering the collector, a major-heap allocation or undefined C behaviour, where the modelled run ends.

  \<^bold>\<open>What is proved.\<close>

  \<^item> \<open>Dictionary\<close>, \<open>Addrmap\<close>, \<open>Skiplist\<close>: the laws of a finite map. The locales derive the behaviour of sequences of
    operations; the interpretations \<open>am\<close> and \<open>sl\<close> discharge the laws for the hash table (probing, growth, rehashing)
    and for the linked cells with their levels. Iteration visits each binding once, \<open>find_below\<close> finds the greatest key below.
  \<^item> \<open>Globroots\<close>: in every reachable state (the relation \<open>gen_run\<close>) a young generational root is in the young list, and a root is in exactly the
    list that the class of its value asks for unless a minor collection has put an immediate in place of a young block (the flag \<open>short\<close> of the
    relation, which \<open>minor_gc.c\<close> allows); the two scans are complete. A removal after a minor collection can miss a root (\<open>removed_root_kept\<close>).
  \<^item> \<open>Alloc\<close>, \<open>Str\<close>, \<open>Ints\<close>: blocks and strings have the requested shape and overwrite no live data; access is bounds
    checked and reads what was written; comparison is lexicographic; literals are read with their value or rejected.
  \<^item> \<open>Hash\<close>: the traversal ends on every value, cyclic ones included, whose infix pointers lead to closures, with a 30-bit result.
  \<^item> \<open>Compare\<close>: the iterative comparison computes the recursive order of the trees that the values denote (the inductive
    relation \<open>repr\<close>), which is total; the predicates treat NaN as unordered. \<open>compare_null_forward\<close> shows an asymmetry.
  \<^item> \<open>Postable\<close>: the interpretation \<open>pt\<close> of \<open>dictionary\<close> for the table of positions. \<open>Items\<close>: the output of the marshaller is
    the encoding of the items of the depth-first traversal \<open>trav\<close>, and the marshaller ends on every finite graph. \<open>Copying\<close>: the
    invariant \<open>sim\<close> of a copy under construction, with the two steps that preserve it. \<open>Marshal\<close>, \<open>Roundtrip\<close>: each item is
    read back, and the traversal of the reader follows that of the writer, so that the result is a copy of the graph in fresh blocks. The
    graphs are those of ordinary blocks, strings, doubles and arrays of doubles (\<open>graph_ok\<close>, \<open>leaf_ok\<close>); closures, infix pointers, custom blocks and
    objects are modelled, but outside this theorem, as are \<open>No_sharing\<close> and compression. Arrays of \<open>2 ^ 32\<close> doubles are the exception (\<open>double_array64_reversed\<close>). \<open>Reachable\<close>: the traversal counts each reachable block once.
  \<^item> \<open>Interp\<close>: \<open>steps\<close> is the run of the machine. Proved are the protocols between instructions: partial application,
    exception handlers, effects and one-shot continuations, stack growth, method lookup with its cache.
  \<^item> \<open>Lexing\<close>, \<open>Parsing\<close>: the locale \<open>scanner\<close> is the maximal-munch automaton; its interpretation \<open>lex\<close> on the tables in
    memory gives the longest match and the transparency of refills, and the engine with memory recognises the same tokens.
    The parser engine performs the moves of the LR automaton of its tables, returns on every call without leaving its stacks and recovers from
    errors at the topmost possible state.
  \<^item> \<open>Blocks\<close>, \<open>Md5\<close>, \<open>Blake2\<close>: the locale shows that absorbing a message in parts is absorbing it at once; the
    interpretations \<open>md5\<close> and \<open>b2\<close> give the digests of the two RFCs for every way to split the message.
  \<^item> \<open>Rematch\<close>, \<open>Reexec\<close>, \<open>Strlib\<close>: \<open>matches\<close> lists the matches of an expression in the order of preference. A program is read as a search
    without stack (\<open>search\<close> in \<open>Strmatch\<close>), which the interpreter with its backtrack stack and undo log implements; the code of each construct
    searches the matches of the construct in order (\<open>runs\<close>), so matching and searching find the preferred match.

  \<^bold>\<open>Not modelled.\<close> The collector itself (\<open>minor_gc.c\<close>, \<open>major_gc.c\<close>, \<open>shared_heap.c\<close>), domains
  and signals (\<open>domain.c\<close>, \<open>signals.c\<close>), whose correctness is about weak-memory concurrency; code that
  mostly calls the operating system (\<open>io.c\<close>, \<open>sys.c\<close>, \<open>unix.c\<close>, startup, the other libraries under \<open>otherlibs\<close>); the concrete syntax and the replacement texts
  of \<open>str\<close>;
  floating-point arithmetic and printing (\<open>floats.c\<close>, \<open>float32.c\<close>), which rest on the C library; profiling and debugging
  (\<open>memprof.c\<close>, \<open>debugger.c\<close>, backtraces); the native-code runtime; \<open>ocamlyacc\<close>; and the parts written in OCaml.
\<close>

end
